(* ===== verification/Prelude.thy ===== *)
theory Prelude
  imports Main "HOL-Library.Word" "HOL-Library.Multiset"
begin

text \<open>
  Shared vocabulary of the development: the exit codes of \<^verbatim>\<open>mllm/utils/Common.hpp\<close>, the
  result type of an operation that may abort the process, throw or run into undefined
  behaviour, the arithmetic of \<^verbatim>\<open>size_t\<close>, the symbol table of
  \<^verbatim>\<open>mllm/utils/SymbolTable.hpp\<close> with its interface as a locale, and list lemmas the
  components share.
\<close>

unbundle bit_operations_syntax

named_theorems outcome_simps "rules that evaluate the result type of an operation"
named_theorems wf_intros "introduction rules for well-formedness invariants"

subsection \<open>How an operation can end\<close>

datatype exit_code =
    kSuccess | kCoreError | kAssert | kSliceOB | kMemory | kCudaError | kQnnError
  | kOpenCLError | kAscendError | kIOError | kShapeError | kCPUKernelError

text \<open>
  \<^verbatim>\<open>MLLM_ERROR_EXIT\<close> and a failed \<^verbatim>\<open>MLLM_RT_ASSERT\<close> end the process: \<open>Exit\<close>. A C++ exception is
  \<open>Throw\<close>. \<open>Undefined\<close> stands for an access the C++ standard leaves undefined (a subscript out of
  range, a null object): nothing is said about what the program does after it.
\<close>

datatype fault = Exit exit_code | Throw string | Undefined

type_synonym 'a outcome = "fault + 'a"

fun obind :: "'a outcome \<Rightarrow> ('a \<Rightarrow> 'b outcome) \<Rightarrow> 'b outcome" where
  "obind (Inl e) f = Inl e"
| "obind (Inr a) f = f a"

definition rt_assert :: "bool \<Rightarrow> unit outcome" where
  "rt_assert c = (if c then Inr () else Inl (Exit kAssert))"

lemma obind_Inr_iff [outcome_simps]:
  "obind m f = Inr b \<longleftrightarrow> (\<exists>a. m = Inr a \<and> f a = Inr b)"
  by (cases m) auto

lemma obind_Inl_iff [outcome_simps]:
  "obind m f = Inl e \<longleftrightarrow> m = Inl e \<or> (\<exists>a. m = Inr a \<and> f a = Inl e)"
  by (cases m) auto

lemma rt_assert_Inr [outcome_simps]: "rt_assert c = Inr u \<longleftrightarrow> c"
  by (simp add: rt_assert_def)

lemma rt_assert_Inl [outcome_simps]: "rt_assert c = Inl e \<longleftrightarrow> \<not> c \<and> e = Exit kAssert"
  by (auto simp: rt_assert_def)

lemma rt_assert_simps [simp]: "rt_assert True = Inr ()" "rt_assert False = Inl (Exit kAssert)"
  by (simp_all add: rt_assert_def)

lemma obind_assoc: "obind (obind m f) g = obind m (\<lambda>x. obind (f x) g)"
  by (cases m) simp_all

subsection \<open>The arithmetic of size_t\<close>

definition size_mod :: "nat" where
  "size_mod = 2 ^ 64"

definition size_sub :: "nat \<Rightarrow> nat \<Rightarrow> nat" where
  "size_sub a b = (a + size_mod - b) mod size_mod"

lemma size_sub_eq [simp]: "b \<le> a \<Longrightarrow> a < size_mod \<Longrightarrow> size_sub a b = a - b"
proof -
  assume ba: "b \<le> a" and a: "a < size_mod"
  have "size_sub a b = (a - b + size_mod) mod size_mod"
    unfolding size_sub_def using ba by (simp only: add_diff_assoc2)
  also have "\<dots> = a - b"
    using a by (simp only: mod_add_self2) (rule mod_less, arith)
  finally show ?thesis .
qed

lemma size_sub_wraps: "a < b \<Longrightarrow> b < size_mod \<Longrightarrow> size_sub a b = a + size_mod - b"
  unfolding size_sub_def by (rule mod_less) arith

lemma pow2_less_size_mod: "k < 64 \<Longrightarrow> (2::nat) ^ k < size_mod"
  unfolding size_mod_def by (rule power_strict_increasing) simp_all

subsection \<open>Signed integers and subscripts\<close>

text \<open>
  The result of an \<^verbatim>\<open>int32_t\<close> operation: signed overflow is undefined. \<open>u64\<close> is the conversion to
  \<^verbatim>\<open>size_t\<close>, \<open>to_i32\<close> the conversion to \<^verbatim>\<open>int32_t\<close> (two's complement).
\<close>

definition i32 :: "int \<Rightarrow> int outcome" where
  "i32 x = (if - (2 ^ 31) \<le> x \<and> x < 2 ^ 31 then Inr x else Inl Undefined)"

definition u64 :: "int \<Rightarrow> int" where
  "u64 x = x mod 2 ^ 64"

definition to_i32 :: "int \<Rightarrow> int" where
  "to_i32 x = (x + 2 ^ 31) mod 2 ^ 32 - 2 ^ 31"

definition vec_at :: "'a list \<Rightarrow> int \<Rightarrow> 'a outcome" where
  "vec_at xs i = (if 0 \<le> i \<and> i < int (length xs) then Inr (xs ! nat i) else Inl Undefined)"

definition vec_set :: "'a list \<Rightarrow> int \<Rightarrow> 'a \<Rightarrow> 'a list outcome" where
  "vec_set xs i x = (if 0 \<le> i \<and> i < int (length xs) then Inr (xs[nat i := x]) else Inl Undefined)"

lemma i32_Inr [outcome_simps]: "i32 x = Inr y \<longleftrightarrow> y = x \<and> - (2 ^ 31) \<le> x \<and> x < 2 ^ 31"
  by (auto simp: i32_def)

lemma vec_at_Inr [outcome_simps]:
  "vec_at xs i = Inr x \<longleftrightarrow> 0 \<le> i \<and> i < int (length xs) \<and> x = xs ! nat i"
  by (auto simp: vec_at_def)

lemma vec_set_Inr [outcome_simps]:
  "vec_set xs i x = Inr ys \<longleftrightarrow> 0 \<le> i \<and> i < int (length xs) \<and> ys = xs[nat i := x]"
  by (auto simp: vec_set_def)

lemma u64_id: "0 \<le> x \<Longrightarrow> x < 2 ^ 64 \<Longrightarrow> u64 x = x"
  by (simp add: u64_def)

lemma to_i32_id: "- (2 ^ 31) \<le> x \<Longrightarrow> x < 2 ^ 31 \<Longrightarrow> to_i32 x = x"
  by (simp add: to_i32_def)

text \<open>A loop that stops at the first fault.\<close>

fun ofold :: "('a \<Rightarrow> 's \<Rightarrow> 's outcome) \<Rightarrow> 'a list \<Rightarrow> 's \<Rightarrow> 's outcome" where
  "ofold f [] s = Inr s"
| "ofold f (x # xs) s = obind (f x s) (ofold f xs)"

fun omap :: "('a \<Rightarrow> 'b outcome) \<Rightarrow> 'a list \<Rightarrow> 'b list outcome" where
  "omap f [] = Inr []"
| "omap f (x # xs) = obind (f x) (\<lambda>y. obind (omap f xs) (\<lambda>ys. Inr (y # ys)))"

lemma omap_Inr: "omap f xs = Inr ys \<longleftrightarrow> length ys = length xs \<and> (\<forall>i < length xs. f (xs ! i) = Inr (ys ! i))"
proof (induction xs arbitrary: ys)
  case (Cons x xs)
  show ?case
  proof (cases ys)
    case (Cons y zs)
    then show ?thesis using Cons.IH [of zs] by (auto simp: obind_Inr_iff All_less_Suc2)
  qed (auto simp: obind_Inr_iff)
qed auto

lemma ofold_append: "ofold f (xs @ ys) s = obind (ofold f xs s) (ofold f ys)"
proof (induction xs arbitrary: s)
  case (Cons x xs)
  show ?case by (cases "f x s") (simp_all add: Cons.IH)
qed simp

text \<open>\<^verbatim>\<open>std::to_string\<close> of an unsigned number.\<close>

fun to_string :: "nat \<Rightarrow> string" where
  "to_string n = (if n < 10 then [char_of (48 + n)] else to_string (n div 10) @ [char_of (48 + n mod 10)])"

subsection \<open>Lists\<close>

fun take_first :: "('a \<Rightarrow> bool) \<Rightarrow> 'a list \<Rightarrow> ('a \<times> 'a list) option" where
  "take_first P [] = None"
| "take_first P (x # xs) =
     (if P x then Some (x, xs)
      else (case take_first P xs of None \<Rightarrow> None | Some (y, ys) \<Rightarrow> Some (y, x # ys)))"

lemma take_first_SomeD:
  "take_first P xs = Some (y, ys) \<Longrightarrow> P y \<and> mset xs = add_mset y (mset ys)"
  by (induction xs arbitrary: y ys) (auto split: if_splits option.splits)

lemma take_first_None: "take_first P xs = None \<longleftrightarrow> (\<forall>x \<in> set xs. \<not> P x)"
  by (induction xs) (auto split: option.splits)

lemma mset_concat_update:
  "i < length xss \<Longrightarrow>
     mset (concat (xss[i := ys])) + mset (xss ! i) = mset (concat xss) + mset ys"
  by (induction xss arbitrary: i) (auto split: nat.splits simp: ac_simps)

lemma set_concat_update:
  "i < length xss \<Longrightarrow> set (concat (xss[i := ys])) \<subseteq> set (concat xss) \<union> set ys"
  using set_update_subset_insert [of xss i ys] by fastforce

lemma sum_list_length_update:
  "i < length xss \<Longrightarrow>
     sum_list (map length (xss[i := ys])) + length (xss ! i) = sum_list (map length xss) + length ys"
  by (induction xss arbitrary: i) (auto split: nat.splits)

subsection \<open>std::map with an ordered key\<close>

text \<open>An ordered map is the list of its entries, by increasing key; \<open>insert\<close> keeps an existing entry.\<close>

fun omap_insert :: "nat \<Rightarrow> 'v \<Rightarrow> (nat \<times> 'v) list \<Rightarrow> (nat \<times> 'v) list" where
  "omap_insert k v [] = [(k, v)]"
| "omap_insert k v ((j, w) # m) =
     (if k < j then (k, v) # (j, w) # m
      else if k = j then (j, w) # m
      else (j, w) # omap_insert k v m)"

lemma set_omap_insert:
  "k \<notin> fst ` set m \<Longrightarrow> set (omap_insert k v m) = insert (k, v) (set m)"
  by (induction k v m rule: omap_insert.induct) auto

lemma distinct_omap_insert:
  "k \<notin> fst ` set m \<Longrightarrow> distinct (map fst m) \<Longrightarrow> distinct (map fst (omap_insert k v m))"
proof (induction k v m rule: omap_insert.induct)
  case (2 k v j w m)
  then show ?case using set_omap_insert [of k m v] by (auto simp: image_iff)
qed simp

lemma sorted_omap_insert:
  "sorted (map fst m) \<Longrightarrow> sorted (map fst (omap_insert k v m))"
proof (induction k v m rule: omap_insert.induct)
  case (2 k v j w m)
  have "fst ` set (omap_insert k v m) \<subseteq> insert k (fst ` set m)"
    by (induction k v m rule: omap_insert.induct) auto
  then have "\<forall>e \<in> set (omap_insert k v m). k < j \<or> j \<le> fst e" if "\<forall>x \<in> set m. j \<le> fst x"
    using that by (auto simp: image_subset_iff) (metis fst_conv imageE not_le)
  with 2 show ?case by (auto split: if_splits)
qed simp

subsection \<open>SymbolTable\<close>

text \<open>
  An \<^verbatim>\<open>std::unordered_map\<close> is the association list of its entries (each key once). \<open>st_reg\<close>,
  \<open>st_get\<close> and \<open>st_remove\<close> are \<^verbatim>\<open>reg\<close>, \<^verbatim>\<open>operator[]\<close> and \<^verbatim>\<open>remove\<close>; the first two end the process
  on a key that is, or is not, in the table.
\<close>

type_synonym ('k, 'v) symtab = "('k \<times> 'v) list"

definition st_has :: "('k, 'v) symtab \<Rightarrow> 'k \<Rightarrow> bool" where
  "st_has t k = (map_of t k \<noteq> None)"

definition st_reg :: "('k, 'v) symtab \<Rightarrow> 'k \<Rightarrow> 'v \<Rightarrow> ('k, 'v) symtab outcome" where
  "st_reg t k v = (if st_has t k then Inl (Exit kCoreError) else Inr ((k, v) # t))"

definition st_get :: "('k, 'v) symtab \<Rightarrow> 'k \<Rightarrow> 'v outcome" where
  "st_get t k = (case map_of t k of None \<Rightarrow> Inl (Exit kCoreError) | Some v \<Rightarrow> Inr v)"

definition st_remove :: "('k, 'v) symtab \<Rightarrow> 'k \<Rightarrow> ('k, 'v) symtab" where
  "st_remove t k = filter (\<lambda>e. fst e \<noteq> k) t"

definition st_ok :: "('k, 'v) symtab \<Rightarrow> bool" where
  "st_ok t = distinct (map fst t)"

locale symbol_table =
  fixes lookup :: "'t \<Rightarrow> 'k \<Rightarrow> 'v option"
    and reg :: "'t \<Rightarrow> 'k \<Rightarrow> 'v \<Rightarrow> 't outcome"
    and get :: "'t \<Rightarrow> 'k \<Rightarrow> 'v outcome"
    and remove :: "'t \<Rightarrow> 'k \<Rightarrow> 't"
    and invar :: "'t \<Rightarrow> bool"
  assumes reg_lookup: "invar t \<Longrightarrow> reg t k v = Inr t' \<Longrightarrow> lookup t' = (lookup t)(k \<mapsto> v)"
    and reg_total: "invar t \<Longrightarrow> lookup t k = None \<Longrightarrow> \<exists>t'. reg t k v = Inr t'"
    and reg_dup: "invar t \<Longrightarrow> lookup t k = Some w \<Longrightarrow> reg t k v = Inl (Exit kCoreError)"
    and get_lookup: "invar t \<Longrightarrow> get t k = Inr v \<longleftrightarrow> lookup t k = Some v"
    and remove_lookup: "invar t \<Longrightarrow> lookup (remove t k) = (lookup t)(k := None)"
    and invar_reg: "invar t \<Longrightarrow> reg t k v = Inr t' \<Longrightarrow> invar t'"
    and invar_remove: "invar t \<Longrightarrow> invar (remove t k)"
begin

lemma reg_get_same: "invar t \<Longrightarrow> reg t k v = Inr t' \<Longrightarrow> get t' k = Inr v"
  by (simp add: get_lookup invar_reg reg_lookup)

lemma reg_get_other: "invar t \<Longrightarrow> reg t k v = Inr t' \<Longrightarrow> j \<noteq> k \<Longrightarrow> get t' j = Inr w \<longleftrightarrow> get t j = Inr w"
  by (simp add: get_lookup invar_reg reg_lookup)

lemma remove_then_reg: "invar t \<Longrightarrow> \<exists>t'. reg (remove t k) k v = Inr t'"
  by (rule reg_total) (simp_all add: invar_remove remove_lookup)

lemma reg_twice: "invar t \<Longrightarrow> reg t k v = Inr t' \<Longrightarrow> reg t' k w = Inl (Exit kCoreError)"
  by (rule reg_dup [of t' k v w]) (simp_all add: invar_reg reg_lookup)

end

lemma map_of_filter_neq: "map_of (filter (\<lambda>e. fst e \<noteq> k) t) = (map_of t)(k := None)"
  by (induction t) (auto simp: fun_eq_iff)

lemma distinct_fst_filter: "distinct (map fst t) \<Longrightarrow> distinct (map fst (filter P t))"
  by (induction t) auto

lemma st_get_Inr: "st_get t k = Inr v \<longleftrightarrow> map_of t k = Some v"
  by (simp add: st_get_def split: option.split)

interpretation symtab: symbol_table "map_of :: ('k, 'v) symtab \<Rightarrow> 'k \<Rightarrow> 'v option"
  st_reg st_get st_remove st_ok
proof unfold_locales
  fix t :: "('k, 'v) symtab" and k v t'
  assume "st_ok t" and "st_reg t k v = Inr t'"
  then show "st_ok t'"
    by (auto simp: st_reg_def st_ok_def st_has_def map_of_eq_None_iff split: if_splits)
qed (auto simp: st_reg_def st_get_Inr st_remove_def st_ok_def st_has_def
    map_of_filter_neq distinct_fst_filter simp del: map_of_eq_Some_iff split: if_splits)

end
