(* ===== verification/Buddy_Tiling.thy ===== *)
theory Buddy_Tiling
  imports Prelude
begin

text \<open>
  The abstract view of a buddy segment: the multiset of its blocks as pairs of an offset and an
  order. \<open>tiles mn off k M\<close> holds when \<open>M\<close> is the multiset of leaves of a binary tree that halves
  the range \<open>[off, off + 2 ^ k)\<close> and never below order \<open>mn\<close>. Allocation splits a leaf, release merges
  two sibling leaves; both keep the tiling, and a tiling has no overlap and no gap.
\<close>

inductive tiles :: "nat \<Rightarrow> nat \<Rightarrow> nat \<Rightarrow> (nat \<times> nat) multiset \<Rightarrow> bool" for mn where
  leaf: "mn \<le> k \<Longrightarrow> tiles mn off k {#(off, k)#}"
| node: "tiles mn off k L \<Longrightarrow> tiles mn (off + 2 ^ k) k R \<Longrightarrow> tiles mn off (Suc k) (L + R)"

inductive_cases tilesE: "tiles mn off k M"

lemma tiles_nonempty: "tiles mn off k M \<Longrightarrow> M \<noteq> {#}"
  by (induction rule: tiles.induct) auto

lemma tiles_bounds:
  "tiles mn off k M \<Longrightarrow> (a, j) \<in># M \<Longrightarrow>
     off \<le> a \<and> a + 2 ^ j \<le> off + 2 ^ k \<and> mn \<le> j \<and> j \<le> k \<and> 2 ^ j dvd (a - off)"
proof (induction rule: tiles.induct)
  case (node off k L R)
  from node.prems consider "(a, j) \<in># L" | "(a, j) \<in># R" by auto
  then show ?case
  proof cases
    case 1
    with node.IH(1) show ?thesis by auto
  next
    case 2
    with node.IH(2) have *: "off + 2 ^ k \<le> a" "a + 2 ^ j \<le> off + 2 ^ k + 2 ^ k" "mn \<le> j" "j \<le> k"
      "2 ^ j dvd (a - (off + 2 ^ k))" by auto
    have "2 ^ j dvd (a - (off + 2 ^ k)) + (2::nat) ^ k"
      using *(4,5) by (intro dvd_add) (simp_all add: le_imp_power_dvd)
    moreover have "(a - (off + 2 ^ k)) + 2 ^ k = a - off" using *(1) by simp
    ultimately have "2 ^ j dvd a - off" by simp
    with * show ?thesis by simp
  qed
qed auto

lemma tiles_top:
  assumes "tiles mn off k M" "(a, k) \<in># M"
  shows "M = {#(off, k)#}"
  using assms(1)
proof cases
  case (node k' L R)
  with assms(2) have "(a, Suc k') \<in># L \<or> (a, Suc k') \<in># R" by auto
  with tiles_bounds [OF node(3)] tiles_bounds [OF node(4)] have "Suc k' \<le> k'" by blast
  then show ?thesis by simp
qed auto

text \<open>Where two members of a sum come from.\<close>

lemma tiles_pair_cases:
  assumes "L + R = add_mset x (add_mset y N)"
  obtains L' where "L = add_mset x (add_mset y L')" "N = L' + R"
  | R' where "R = add_mset x (add_mset y R')" "N = L + R'"
  | L' R' where "L = add_mset x L'" "R = add_mset y R'" "N = L' + R'"
  | L' R' where "L = add_mset y L'" "R = add_mset x R'" "N = L' + R'"
proof -
  have x: "x \<in># L \<or> x \<in># R" by (metis assms union_iff union_single_eq_member)
  show thesis
  proof (cases "x \<in># L")
    case True
    then obtain L1 where L1: "L = add_mset x L1" by (metis insert_DiffM)
    with assms have e: "L1 + R = add_mset y N" by simp
    then have "y \<in># L1 \<or> y \<in># R" by (metis union_iff union_single_eq_member)
    then show thesis
    proof
      assume "y \<in># L1"
      then obtain L2 where "L1 = add_mset y L2" by (metis insert_DiffM)
      with L1 e that(1) show thesis by simp
    next
      assume "y \<in># R"
      then obtain R1 where "R = add_mset y R1" by (metis insert_DiffM)
      with L1 e that(3) show thesis by simp
    qed
  next
    case False
    with x obtain R1 where R1: "R = add_mset x R1" by (metis insert_DiffM)
    with assms have e: "L + R1 = add_mset y N" by simp
    then have "y \<in># L \<or> y \<in># R1" by (metis union_iff union_single_eq_member)
    then show thesis
    proof
      assume "y \<in># L"
      then obtain L1 where "L = add_mset y L1" by (metis insert_DiffM)
      with R1 e that(4) show thesis by simp
    next
      assume "y \<in># R1"
      then obtain R2 where "R1 = add_mset y R2" by (metis insert_DiffM)
      with R1 e that(2) show thesis by simp
    qed
  qed
qed

text \<open>Two blocks of a tiling never overlap.\<close>

lemma tiles_disjoint:
  "tiles mn off k (add_mset (a, i) (add_mset (b, j) N)) \<Longrightarrow> a + 2 ^ i \<le> b \<or> b + 2 ^ j \<le> a"
proof (induction off k "add_mset (a, i) (add_mset (b, j) N)" arbitrary: N rule: tiles.induct)
  case (node off k L R)
  note bL = tiles_bounds [OF node.hyps(1)] and bR = tiles_bounds [OF node.hyps(3)]
  from node.hyps(5) show ?case
  proof (cases rule: tiles_pair_cases)
    case (1 L')
    with node.hyps(2) show ?thesis by blast
  next
    case (2 R')
    with node.hyps(4) show ?thesis by blast
  next
    case (3 L' R')
    with bL [of a i] bR [of b j] show ?thesis by simp
  next
    case (4 L' R')
    with bL [of b j] bR [of a i] show ?thesis by simp
  qed
qed simp

lemma tiles_total: "tiles mn off k M \<Longrightarrow> (\<Sum>x\<in>#M. 2 ^ snd x) = (2::nat) ^ k"
  by (induction rule: tiles.induct) auto

text \<open>Splitting a leaf.\<close>

lemma tiles_split:
  assumes "tiles mn off k (add_mset (a, Suc j) N)" "mn \<le> j"
  shows "tiles mn off k (add_mset (a, j) (add_mset (a + 2 ^ j, j) N))"
  using assms
proof (induction off k "add_mset (a, Suc j) N" arbitrary: N rule: tiles.induct)
  case (leaf k off)
  then have *: "a = off" "k = Suc j" "N = {#}" by auto
  have "tiles mn off (Suc j) ({#(off, j)#} + {#(off + 2 ^ j, j)#})"
    using leaf(3) by (intro tiles.intros)
  with * show ?case by (simp add: add_mset_commute)
next
  case (node off k L R)
  then consider "(a, Suc j) \<in># L" | "(a, Suc j) \<in># R"
    by (metis union_iff union_single_eq_member)
  then show ?case
  proof cases
    case 1
    then obtain L' where L': "L = add_mset (a, Suc j) L'" by (metis insert_DiffM)
    with node.hyps(5) have N: "N = L' + R" by simp
    have "tiles mn off k (add_mset (a, j) (add_mset (a + 2 ^ j, j) L'))"
      by (rule node.hyps(2) [OF L' node.prems])
    from tiles.node [OF this node.hyps(3)] N show ?thesis by simp
  next
    case 2
    then obtain R' where R': "R = add_mset (a, Suc j) R'" by (metis insert_DiffM)
    with node.hyps(5) have N: "N = L + R'" by simp
    have "tiles mn (off + 2 ^ k) k (add_mset (a, j) (add_mset (a + 2 ^ j, j) R'))"
      by (rule node.hyps(4) [OF R' node.prems])
    from tiles.node [OF node.hyps(1) this] N show ?thesis by simp
  qed
qed

text \<open>Merging two siblings: the lower one sits at a multiple of twice their size.\<close>

lemma dvd_pow2_diff:
  "j < k \<Longrightarrow> 2 ^ Suc j dvd (2::nat) ^ k"
  by (rule le_imp_power_dvd) simp

lemma tiles_merge:
  assumes "tiles mn off k (add_mset (a, j) (add_mset (a + 2 ^ j, j) N))" "2 ^ Suc j dvd (a - off)"
  shows "tiles mn off k (add_mset (a, Suc j) N)"
  using assms
proof (induction off k "add_mset (a, j) (add_mset (a + 2 ^ j, j) N)" arbitrary: N
    rule: tiles.induct)
  case (node off k L R)
  note bL = tiles_bounds [OF node.hyps(1)] and bR = tiles_bounds [OF node.hyps(3)]
  from node.hyps(5) show ?case
  proof (cases rule: tiles_pair_cases)
    case (1 L')
    with node.hyps(2) [OF 1(1) node.prems] tiles.node [OF _ node.hyps(3)] show ?thesis by fastforce
  next
    case (2 R')
    have "j \<noteq> k" using tiles_top [OF node.hyps(3)] 2(1) by fastforce
    moreover have a: "off + 2 ^ k \<le> a" "j \<le> k" using bR [of a j] 2(1) by auto
    ultimately have "2 ^ Suc j dvd (2::nat) ^ k" by (intro dvd_pow2_diff) simp
    with node.prems have "2 ^ Suc j dvd (a - off) - 2 ^ k" by (rule dvd_diff_nat)
    then have "2 ^ Suc j dvd a - (off + 2 ^ k)" by simp
    from node.hyps(4) [OF 2(1) this] tiles.node [OF node.hyps(1)] 2(2) show ?thesis by fastforce
  next
    case (3 L' R')
    have aj: "off \<le> a" "a + 2 ^ j \<le> off + 2 ^ k" "off + 2 ^ k \<le> a + 2 ^ j" "j \<le> k"
      using bL [of a j] bR [of "a + 2 ^ j" j] 3 by auto
    then have eq: "a - off + 2 ^ j = 2 ^ k" by simp
    have "\<not> j < k"
    proof
      assume "j < k"
      then have "2 ^ Suc j dvd (2::nat) ^ k" by (rule dvd_pow2_diff)
      with node.prems eq have "2 ^ Suc j dvd (2::nat) ^ j"
        by (metis dvd_add_right_iff)
      then show False by (simp add: power_dvd_imp_le nat_dvd_not_less)
    qed
    with aj have j: "j = k" by simp
    with tiles_top [OF node.hyps(1)] tiles_top [OF node.hyps(3)] 3
    have "L = {#(off, k)#}" "R = {#(off + 2 ^ k, k)#}" by auto
    with 3 j have "N = {#}" "a = off" by auto
    moreover have "mn \<le> Suc k" using bL [of a j] 3 j by simp
    ultimately show ?thesis using j by (simp add: tiles.leaf)
  next
    case (4 L' R')
    then have "off + 2 ^ k \<le> a" "a + 2 ^ j + 2 ^ j \<le> off + 2 ^ k"
      using bL [of "a + 2 ^ j" j] bR [of a j] by auto
    then have "2 ^ j = (0::nat)" by linarith
    then show ?thesis by simp
  qed
qed simp

text \<open>The buddy of a block, by address arithmetic and by the exclusive or of the code.\<close>

lemma xor_pow2_up:
  assumes "2 ^ Suc j dvd (a::nat)"
  shows "a XOR 2 ^ j = a + 2 ^ j"
proof -
  from assms obtain c where c: "a = 2 ^ j * (2 * c)" by (auto elim!: dvdE)
  have "\<not> bit a j" by (simp add: bit_iff_odd c)
  then have "flip_bit j a = a + 2 ^ j" by (simp add: flip_bit_eq_if set_bit_eq)
  then show ?thesis by (simp add: flip_bit_eq_xor)
qed

lemma pow2_odd_multiple:
  assumes "2 ^ j dvd (a::nat)" "\<not> 2 ^ Suc j dvd a"
  shows "2 ^ j \<le> a" "2 ^ Suc j dvd a - 2 ^ j"
proof -
  obtain c where c: "a = 2 ^ j * c" using assms(1) by (auto elim: dvdE)
  with assms(2) have "odd c" by auto
  then obtain d where "c = 2 * d + 1" by (auto elim: oddE)
  with c have "a = 2 ^ Suc j * d + 2 ^ j" by (simp add: algebra_simps)
  then show "2 ^ j \<le> a" "2 ^ Suc j dvd a - 2 ^ j" by simp_all
qed

lemma xor_pow2:
  assumes "2 ^ j dvd (a::nat)"
  shows "a XOR 2 ^ j = (if 2 ^ Suc j dvd a then a + 2 ^ j else a - 2 ^ j)"
proof (cases "2 ^ Suc j dvd a")
  case True
  then show ?thesis by (simp add: xor_pow2_up del: power_Suc)
next
  case False
  note o = pow2_odd_multiple [OF assms False]
  have "(a - 2 ^ j) XOR 2 ^ j = a" using xor_pow2_up [OF o(2)] o(1) by simp
  then have "a XOR 2 ^ j = ((a - 2 ^ j) XOR 2 ^ j) XOR 2 ^ j" by simp
  also have "\<dots> = a - 2 ^ j" by (simp only: xor.assoc xor_self_eq xor.right_neutral)
  finally show ?thesis using False by simp
qed

lemma tiles_aligned: "tiles mn 0 k M \<Longrightarrow> (a, j) \<in># M \<Longrightarrow> 2 ^ j dvd a"
  using tiles_bounds [of mn 0 k M a j] by simp

lemma tiles_merge_buddy:
  assumes "tiles mn 0 k (add_mset (a, j) (add_mset (a XOR 2 ^ j, j) N))"
  shows "tiles mn 0 k (add_mset (min a (a XOR 2 ^ j), Suc j) N)"
proof (cases "2 ^ Suc j dvd a")
  case True
  then have "2 ^ j dvd a" by (rule dvd_trans [rotated]) simp
  with True have x: "a XOR 2 ^ j = a + 2 ^ j" by (simp add: xor_pow2)
  with assms True tiles_merge [of mn 0 k a j N] show ?thesis by (simp add: min_def)
next
  case False
  have d: "2 ^ j dvd a" using tiles_aligned [OF assms, of a j] by simp
  with False have x: "a XOR 2 ^ j = a - 2 ^ j" by (simp add: xor_pow2)
  note o = pow2_odd_multiple [OF d False]
  have "tiles mn 0 k (add_mset (a - 2 ^ j, j) (add_mset (a - 2 ^ j + 2 ^ j, j) N))"
    using assms x o(1) by (simp add: add_mset_commute)
  then have "tiles mn 0 k (add_mset (a - 2 ^ j, Suc j) N)"
    using o(2) by (intro tiles_merge) simp_all
  moreover have "min a (a - 2 ^ j) = a - 2 ^ j" by simp
  ultimately show ?thesis using x by (simp only:)
qed

text \<open>A tiling with no two sibling leaves is one block: nothing stays fragmented.\<close>

definition no_buddies :: "nat \<Rightarrow> (nat \<times> nat) set \<Rightarrow> bool" where
  "no_buddies k F \<longleftrightarrow> (\<forall>a j. (a, j) \<in> F \<longrightarrow> j < k \<longrightarrow> (a XOR 2 ^ j, j) \<notin> F)"

lemma tiles_coalesced:
  assumes "tiles mn off k M" "2 ^ k dvd off" "k \<le> K" "no_buddies K (set_mset M)"
  shows "M = {#(off, k)#}"
  using assms
proof (induction rule: tiles.induct)
  case (node off k L R)
  have d: "2 ^ k dvd off" using node.prems(1) by (rule dvd_trans [rotated]) simp
  then have "2 ^ k dvd off + 2 ^ k" by simp
  with d node have "L = {#(off, k)#}" "R = {#(off + 2 ^ k, k)#}"
    by (simp_all add: no_buddies_def)
  then have "(off, k) \<in># L + R" "(off XOR 2 ^ k, k) \<in># L + R"
    using node.prems(1) d by (simp_all add: xor_pow2)
  with node.prems show ?case by (auto simp: no_buddies_def)
qed simp

end
