(* ===== verification/Buddy_Segment.thy ===== *)
theory Buddy_Segment
  imports Buddy_Tiling
begin

text \<open>
  One segment of the buddy memory pool, \<^verbatim>\<open>mllm/engine/BuddyMemPool.{hpp,cpp}\<close>: the block and segment
  structures, the order of a request, the inner loops of \<^verbatim>\<open>allocBuddy\<close> (search of the free lists,
  splitting) and of \<^verbatim>\<open>freeBuddy\<close> (coalescing), the invariant of a segment and its preservation. An
  address (\<^verbatim>\<open>char*\<close>) is a natural number, a \<^verbatim>\<open>BuddyMemSegment*\<close> is the base address of the segment
  (the key of both maps of \<^verbatim>\<open>BuddyContext\<close>), and a \<^verbatim>\<open>BuddyMemBlock*\<close> is the block record itself: a
  block is held by exactly one of a free list, the object cache and the table of owners, and only
  its holder writes to it.
\<close>

subsection \<open>State\<close>

record block =
  b_ptr :: nat
  b_offset :: nat
  b_size :: nat
  b_segment :: nat
  b_order :: nat
  b_allocated :: bool

record segment =
  s_ptr :: nat
  s_cap :: nat
  s_used :: nat
  s_min_order :: nat
  s_max_order :: nat

subsection \<open>Orders\<close>

text \<open>
  \<^verbatim>\<open>ceil(log2(size))\<close>, halving upwards. (The code goes through \<^verbatim>\<open>double\<close>; its result is exact below
  \<open>2 ^ 47\<close>, and no segment is larger than the first one or \<open>2 ^ 29\<close>.)
\<close>

fun log2_ceil :: "nat \<Rightarrow> nat" where
  "log2_ceil n = (if n \<le> 1 then 0 else Suc (log2_ceil ((n + 1) div 2)))"

declare log2_ceil.simps [simp del]

lemma log2_ceil_upper: "n \<le> 2 ^ log2_ceil n"
proof (induction n rule: log2_ceil.induct)
  case (1 n)
  show ?case
  proof (cases "n \<le> 1")
    case False
    with 1 have "(n + 1) div 2 \<le> 2 ^ log2_ceil ((n + 1) div 2)" by simp
    then have "n \<le> 2 * 2 ^ log2_ceil ((n + 1) div 2)" by linarith
    with False show ?thesis by (subst log2_ceil.simps) simp
  qed (subst log2_ceil.simps, simp)
qed

lemma log2_ceil_least: "n \<le> 2 ^ k \<Longrightarrow> log2_ceil n \<le> k"
proof (induction n arbitrary: k rule: log2_ceil.induct)
  case (1 n)
  show ?case
  proof (cases "n \<le> 1")
    case False
    with "1.prems" obtain j where k: "k = Suc j" by (cases k) auto
    with "1.prems" have "(n + 1) div 2 \<le> 2 ^ j" by simp
    with 1 False have "log2_ceil ((n + 1) div 2) \<le> j" by simp
    with False k show ?thesis by (subst log2_ceil.simps) simp
  qed (subst log2_ceil.simps, simp)
qed

lemma log2_ceil_pow2 [simp]: "log2_ceil (2 ^ k) = k"
proof (rule antisym)
  show "log2_ceil (2 ^ k) \<le> k" by (rule log2_ceil_least) simp
  have "(2::nat) ^ k \<le> 2 ^ log2_ceil (2 ^ k)" by (rule log2_ceil_upper)
  then show "k \<le> log2_ceil (2 ^ k)" by simp
qed

lemma log2_ceil_le_iff: "log2_ceil n \<le> k \<longleftrightarrow> n \<le> 2 ^ k"
  using log2_ceil_least log2_ceil_upper
  by (meson le_trans one_le_numeral power_increasing)

subsection \<open>Allocation in one segment\<close>

text \<open>The search for the first non-empty free list at or above an order.\<close>

function find_free :: "block list list \<Rightarrow> nat \<Rightarrow> nat \<Rightarrow> nat \<Rightarrow> nat option" where
  "find_free fl mn mx cur =
     (if cur \<le> mx then
        (let idx = cur - mn in
         if length fl \<le> idx \<or> fl ! idx = [] then find_free fl mn mx (Suc cur) else Some cur)
      else None)"
  by pat_completeness auto
termination
  by (relation "measure (\<lambda>(fl, mn, mx, cur). Suc mx - cur)") auto

declare find_free.simps [simp del]

text \<open>Splitting: the block keeps the lower half, its buddy goes to the back of its free list.\<close>

definition lower_half :: "block \<Rightarrow> block" where
  "lower_half b = b\<lparr>b_size := b_size b div 2, b_order := b_order b - 1\<rparr>"

definition upper_half :: "block \<Rightarrow> block" where
  "upper_half b =
     \<lparr>b_ptr = b_ptr b + b_size b div 2, b_offset = b_offset b + b_size b div 2,
      b_size = b_size b div 2, b_segment = b_segment b, b_order = b_order b - 1,
      b_allocated = False\<rparr>"

function split_block :: "nat \<Rightarrow> nat \<Rightarrow> block \<Rightarrow> block list list \<Rightarrow> block \<times> block list list" where
  "split_block order mn b fl =
     (if order < b_order b then
        (let idx = b_order b - 1 - mn
         in split_block order mn (lower_half b) (fl[idx := fl ! idx @ [upper_half b]]))
      else (b, fl))"
  by pat_completeness auto
termination
  by (relation "measure (\<lambda>(order, mn, b, fl). b_order b - order)") (auto simp: lower_half_def)

declare split_block.simps [simp del]

text \<open>
  The body of the loop over the segments: \<open>Inr None\<close> moves on to the next segment. \<^verbatim>\<open>continue\<close> comes
  before the check of the order, so the error is reached only when the segment has room.
\<close>

definition alloc_seg ::
  "nat \<Rightarrow> segment \<Rightarrow> block list list \<Rightarrow> (block \<times> segment \<times> block list list) option outcome" where
  "alloc_seg n seg fl =
     (let mn = s_min_order seg; mx = s_max_order seg; req = max n (2 ^ mn) in
      if size_sub (s_cap seg) (s_used seg) < req then Inr None
      else if mx < log2_ceil req then Inl (Exit kMemory)
      else
        (let order = (if log2_ceil req < mn then mn else log2_ceil req) in
         case find_free fl mn mx order of
           None \<Rightarrow> Inr None
         | Some cur \<Rightarrow>
             (let idx = cur - mn;
                  (b, fl') = split_block order mn (hd (fl ! idx)) (fl[idx := tl (fl ! idx)]);
                  b' = b\<lparr>b_allocated := True\<rparr>
              in Inr (Some (b', seg\<lparr>s_used := s_used seg + b_size b'\<rparr>, fl')))))"

subsection \<open>Release\<close>

text \<open>
  The coalescing loop. It stops when no free buddy is found; every round removes a block from a free
  list. A block of an order outside the vector of free lists is undefined behaviour.
\<close>

definition is_buddy :: "nat \<Rightarrow> block \<Rightarrow> block \<Rightarrow> bool" where
  "is_buddy sp omb b =
     (b_ptr b - sp = (b_ptr omb - sp) XOR 2 ^ b_order omb \<and> b_order b = b_order omb \<and> \<not> b_allocated b)"

definition absorb :: "block \<Rightarrow> block \<Rightarrow> block" where
  "absorb omb bud =
     (if b_ptr omb < b_ptr bud then omb\<lparr>b_size := b_size omb * 2, b_order := b_order omb + 1\<rparr>
      else omb\<lparr>b_ptr := b_ptr bud, b_size := b_size omb * 2, b_order := b_order omb + 1\<rparr>)"

function (sequential) join :: "nat \<Rightarrow> nat \<Rightarrow> block \<Rightarrow> block list list \<Rightarrow> block list list option" where
  "join sp mn omb fl =
     (let idx = b_order omb - mn in
      if b_order omb < mn \<or> length fl \<le> idx then None
      else case take_first (is_buddy sp omb) (fl ! idx) of
             None \<Rightarrow> Some (fl[idx := fl ! idx @ [omb]])
           | Some (bud, rest) \<Rightarrow> join sp mn (absorb omb bud) (fl[idx := rest]))"
  by pat_completeness auto
termination
proof (relation "measure (\<lambda>(sp, mn, omb, fl). sum_list (map length fl))", goal_cases)
  case (2 sp mn omb fl idx bp bud rest)
  then have "mset (fl ! idx) = add_mset bud (mset rest)"
    by (metis take_first_SomeD)
  then have "length (fl ! idx) = Suc (length rest)"
    by (metis size_add_mset size_mset)
  with 2 sum_list_length_update [of idx fl rest] show ?case by simp
qed simp

declare join.simps [simp del]

subsection \<open>The invariant of a segment\<close>

definition bkey :: "nat \<Rightarrow> block \<Rightarrow> nat \<times> nat" where
  "bkey sp b = (b_ptr b - sp, b_order b)"

definition block_ok :: "segment \<Rightarrow> block \<Rightarrow> bool" where
  "block_ok seg b \<longleftrightarrow>
     s_ptr seg \<le> b_ptr b \<and> b_size b = 2 ^ b_order b \<and> b_segment b = s_ptr seg"

definition free_shape :: "nat \<Rightarrow> block list list \<Rightarrow> bool" where
  "free_shape mn fl \<longleftrightarrow>
     (\<forall>i < length fl. \<forall>b \<in> set (fl ! i). b_order b = mn + i \<and> \<not> b_allocated b)"

text \<open>\<open>xs\<close> are the blocks of the segment that no free list holds.\<close>

definition seg_core :: "segment \<Rightarrow> block list list \<Rightarrow> block list \<Rightarrow> bool" where
  "seg_core seg fl xs \<longleftrightarrow>
     s_min_order seg \<le> s_max_order seg \<and> s_max_order seg < 64 \<and>
     s_cap seg = 2 ^ s_max_order seg \<and>
     length fl = s_max_order seg - s_min_order seg + 1 \<and>
     free_shape (s_min_order seg) fl \<and>
     (\<forall>b \<in> set (concat fl) \<union> set xs. block_ok seg b) \<and>
     tiles (s_min_order seg) 0 (s_max_order seg)
       (image_mset (bkey (s_ptr seg)) (mset (concat fl) + mset xs)) \<and>
     no_buddies (s_max_order seg) (bkey (s_ptr seg) ` set (concat fl))"

lemma seg_core_change [wf_intros]:
  assumes "seg_core seg fl xs"
    and "length fl' = length fl"
    and "free_shape (s_min_order seg) fl'"
    and "\<forall>b \<in> set (concat fl') \<union> set ys. block_ok seg b"
    and "tiles (s_min_order seg) 0 (s_max_order seg)
       (image_mset (bkey (s_ptr seg)) (mset (concat fl') + mset ys))"
    and "no_buddies (s_max_order seg) (bkey (s_ptr seg) ` set (concat fl'))"
  shows "seg_core seg fl' ys"
  using assms unfolding seg_core_def by metis

lemma seg_core_parts:
  assumes "seg_core seg fl xs"
  shows "s_min_order seg \<le> s_max_order seg" "s_cap seg = 2 ^ s_max_order seg"
    "length fl = s_max_order seg - s_min_order seg + 1" "free_shape (s_min_order seg) fl"
    "\<forall>b \<in> set (concat fl) \<union> set xs. block_ok seg b"
    "tiles (s_min_order seg) 0 (s_max_order seg)
       (image_mset (bkey (s_ptr seg)) (mset (concat fl) + mset xs))"
    "no_buddies (s_max_order seg) (bkey (s_ptr seg) ` set (concat fl))"
  using assms unfolding seg_core_def by auto

definition seg_ok :: "segment \<Rightarrow> block list list \<Rightarrow> block list \<Rightarrow> bool" where
  "seg_ok seg fl live \<longleftrightarrow> seg_core seg fl live \<and> s_used seg = sum_list (map b_size live)"

lemma seg_core_mset: "seg_core seg fl xs \<Longrightarrow> mset xs = mset ys \<Longrightarrow> seg_core seg fl ys"
  unfolding seg_core_def by (metis set_mset_mset)

lemma seg_ok_mset:
  assumes "seg_ok seg fl xs" "mset xs = mset ys"
  shows "seg_ok seg fl ys"
proof -
  have "sum_list (map b_size xs) = sum_mset (image_mset b_size (mset xs))"
    by (metis mset_map sum_mset_sum_list)
  also have "\<dots> = sum_list (map b_size ys)"
    unfolding assms(2) by (metis mset_map sum_mset_sum_list)
  finally show ?thesis using assms seg_core_mset [of seg fl xs ys] by (simp add: seg_ok_def)
qed

lemma free_shape_update:
  "free_shape mn fl \<Longrightarrow> (\<forall>b \<in> set ys. b_order b = mn + i \<and> \<not> b_allocated b) \<Longrightarrow>
     free_shape mn (fl[i := ys])"
  unfolding free_shape_def length_list_update
  by (intro allI impI) (rename_tac j, case_tac "j = i", simp_all)

lemma free_shape_member:
  assumes "free_shape mn fl" "b \<in> set (concat fl)"
  shows "mn \<le> b_order b" "b_order b - mn < length fl" "b \<in> set (fl ! (b_order b - mn))"
    "\<not> b_allocated b"
proof -
  from assms(2) obtain i where i: "i < length fl" "b \<in> set (fl ! i)"
    by (metis set_concat UN_E in_set_conv_nth)
  with assms(1) have "b_order b = mn + i" "\<not> b_allocated b" by (auto simp: free_shape_def)
  with i show "mn \<le> b_order b" "b_order b - mn < length fl" "b \<in> set (fl ! (b_order b - mn))"
    "\<not> b_allocated b" by simp_all
qed

lemma no_buddies_subset: "no_buddies k F \<Longrightarrow> G \<subseteq> F \<Longrightarrow> no_buddies k G"
  by (auto simp: no_buddies_def)

lemma seg_core_bounds:
  assumes "seg_core seg fl (b # xs)"
  shows "s_min_order seg \<le> b_order b" "b_order b \<le> s_max_order seg"
    "b_ptr b + 2 ^ b_order b \<le> s_ptr seg + s_cap seg" "s_ptr seg \<le> b_ptr b"
    "b_size b = 2 ^ b_order b" "b_segment b = s_ptr seg"
    "2 ^ b_order b dvd b_ptr b - s_ptr seg"
proof -
  have ok: "block_ok seg b" and cap: "s_cap seg = 2 ^ s_max_order seg"
    and t: "tiles (s_min_order seg) 0 (s_max_order seg)
       (image_mset (bkey (s_ptr seg)) (mset (concat fl) + mset (b # xs)))"
    using assms by (simp_all add: seg_core_def)
  have "(b_ptr b - s_ptr seg, b_order b)
      \<in># image_mset (bkey (s_ptr seg)) (mset (concat fl) + mset (b # xs))"
    by (simp add: bkey_def)
  from tiles_bounds [OF t this]
  show "s_min_order seg \<le> b_order b" "b_order b \<le> s_max_order seg"
    "b_ptr b + 2 ^ b_order b \<le> s_ptr seg + s_cap seg" "s_ptr seg \<le> b_ptr b"
    "b_size b = 2 ^ b_order b" "b_segment b = s_ptr seg"
    "2 ^ b_order b dvd b_ptr b - s_ptr seg"
    using ok cap by (auto simp: block_ok_def)
qed

lemma seg_core_total:
  assumes "seg_core seg fl xs"
  shows "sum_list (map b_size (concat fl)) + sum_list (map b_size xs) = s_cap seg"
proof -
  let ?M = "mset (concat fl) + mset xs"
  have ok: "\<forall>b \<in># ?M. b_size b = 2 ^ snd (bkey (s_ptr seg) b)"
    using assms by (auto simp: seg_core_def block_ok_def bkey_def)
  have "sum_list (map b_size (concat fl)) + sum_list (map b_size xs)
      = sum_mset (image_mset b_size ?M)"
    by (metis image_mset_union mset_map sum_mset.union sum_mset_sum_list)
  also have "\<dots> = sum_mset (image_mset (\<lambda>b. 2 ^ snd (bkey (s_ptr seg) b)) ?M)"
    using ok by (metis (mono_tags, lifting) image_mset_cong)
  also have "\<dots> = (\<Sum>x\<in>#image_mset (bkey (s_ptr seg)) ?M. 2 ^ snd x)"
    by (simp add: multiset.map_comp comp_def)
  also have "\<dots> = s_cap seg"
    using assms tiles_total unfolding seg_core_def by fastforce
  finally show ?thesis .
qed

lemma seg_ok_used: "seg_ok seg fl live \<Longrightarrow> s_used seg \<le> s_cap seg \<and> s_cap seg < size_mod"
  using seg_core_total [of seg fl live] pow2_less_size_mod [of "s_max_order seg"]
  by (auto simp: seg_ok_def seg_core_def)

subsection \<open>Splitting keeps the invariant\<close>

lemma seg_core_pop:
  assumes "seg_core seg fl xs" "i < length fl" "fl ! i = b # r"
  shows "seg_core seg (fl[i := r]) (b # xs)" "b_order b = s_min_order seg + i"
proof -
  have m: "mset (concat (fl[i := r])) + {#b#} = mset (concat fl)"
    using mset_concat_update [OF assms(2), of r] assms(3) by simp
  then have "set (concat fl) = insert b (set (concat (fl[i := r])))"
    by (metis add_mset_add_single set_mset_add_mset_insert set_mset_mset)
  moreover have "free_shape (s_min_order seg) (fl[i := r])"
    using assms by (intro free_shape_update) (auto simp: seg_core_def free_shape_def)
  moreover have "mset (concat fl) + mset xs = mset (concat (fl[i := r])) + mset (b # xs)"
    using m by (metis add_mset_add_single union_mset_add_mset_left union_mset_add_mset_right mset.simps(2))
  ultimately show "seg_core seg (fl[i := r]) (b # xs)"
    using assms(1) unfolding seg_core_def by (auto intro: no_buddies_subset)
  show "b_order b = s_min_order seg + i"
    using assms by (auto simp: seg_core_def free_shape_def)
qed

lemma split_no_buddies:
  assumes nb: "no_buddies k F"
    and t: "tiles mn 0 k (add_mset (a, j) (add_mset (a + 2 ^ j, j) N))"
    and F: "F \<subseteq> set_mset N"
    and al: "2 ^ Suc j dvd a"
  shows "no_buddies k (insert (a + 2 ^ j, j) F)"
proof -
  have xa: "a XOR 2 ^ j = a + 2 ^ j" using al by (rule xor_pow2_up)
  then have xb: "(a + 2 ^ j) XOR 2 ^ j = a" by (metis xor.assoc xor_self_eq xor.right_neutral)
  have notF: "(a, j) \<notin> F"
  proof
    assume "(a, j) \<in> F"
    with F obtain N' where "N = add_mset (a, j) N'" by (metis insert_DiffM subsetD)
    with t have "tiles mn 0 k (add_mset (a, j) (add_mset (a, j) (add_mset (a + 2 ^ j, j) N')))"
      by (simp add: add_mset_commute)
    from tiles_disjoint [OF this] show False by simp
  qed
  have "(y XOR 2 ^ i, i) \<notin> insert (a + 2 ^ j, j) F"
    if y: "(y, i) \<in> insert (a + 2 ^ j, j) F" and i: "i < k" for y i
  proof (cases "(y, i) \<in> F")
    case True
    show ?thesis
    proof
      assume "(y XOR 2 ^ i, i) \<in> insert (a + 2 ^ j, j) F"
      with nb True i have "y XOR 2 ^ j = a + 2 ^ j" "i = j" by (auto simp: no_buddies_def)
      then have "y = a" by (metis xb xor.assoc xor_self_eq xor.right_neutral)
      with True notF \<open>i = j\<close> show False by simp
    qed
  next
    case False
    with y have "y = a + 2 ^ j" "i = j" by auto
    with xb notF show ?thesis by simp
  qed
  then show ?thesis by (auto simp: no_buddies_def)
qed

lemma seg_core_split_step:
  assumes core: "seg_core seg fl (b # xs)" and ord: "s_min_order seg < b_order b"
    and i_def: "i = b_order b - 1 - s_min_order seg"
  shows "seg_core seg (fl[i := fl ! i @ [upper_half b]]) (lower_half b # xs)"
proof -
  let ?sp = "s_ptr seg" and ?mn = "s_min_order seg" and ?mx = "s_max_order seg"
  let ?fl = "fl[i := fl ! i @ [upper_half b]]"
  note bnd = seg_core_bounds [OF core]
  obtain j where j: "b_order b = Suc j" using ord by (cases "b_order b") auto
  let ?a = "b_ptr b - ?sp"
  have half: "b_size b div 2 = 2 ^ j" using bnd(5) j by simp
  have i: "i < length fl" using core bnd(2) j by (auto simp: i_def seg_core_def)
  have m: "mset (concat ?fl) = add_mset (upper_half b) (mset (concat fl))"
    using mset_concat_update [OF i, of "fl ! i @ [upper_half b]"] by simp
  have keys: "bkey ?sp b = (?a, Suc j)" "bkey ?sp (lower_half b) = (?a, j)"
      "bkey ?sp (upper_half b) = (?a + 2 ^ j, j)"
    using j half bnd(4) by (simp_all add: bkey_def lower_half_def upper_half_def)
  let ?N = "image_mset (bkey ?sp) (mset (concat fl) + mset xs)"
  have "tiles ?mn 0 ?mx (add_mset (?a, Suc j) ?N)"
    using core keys(1) by (simp add: seg_core_def)
  then have t: "tiles ?mn 0 ?mx (add_mset (?a, j) (add_mset (?a + 2 ^ j, j) ?N))"
    using ord j by (intro tiles_split) simp_all
  have "bkey ?sp ` set (concat fl) \<subseteq> set_mset ?N"
    unfolding set_image_mset set_mset_union set_mset_mset image_Un by blast
  then have nb: "no_buddies ?mx (insert (?a + 2 ^ j, j) (bkey ?sp ` set (concat fl)))"
    using core bnd(7) j unfolding seg_core_def by (intro split_no_buddies [OF _ t]) simp_all
  have ok: "block_ok seg (lower_half b)" "block_ok seg (upper_half b)"
    using bnd j half by (simp_all add: block_ok_def lower_half_def upper_half_def)
  have "\<forall>c \<in> set (fl ! i @ [upper_half b]). b_order c = ?mn + i \<and> \<not> b_allocated c"
  proof -
    have "\<forall>c \<in> set (fl ! i). b_order c = ?mn + i \<and> \<not> b_allocated c"
      using seg_core_parts(4) [OF core] i unfolding free_shape_def by blast
    moreover have "b_order (upper_half b) = ?mn + i" "\<not> b_allocated (upper_half b)"
      using ord by (simp_all add: upper_half_def i_def)
    ultimately show ?thesis by simp
  qed
  then have shape: "free_shape ?mn ?fl"
    using core unfolding seg_core_def by (intro free_shape_update) simp_all
  have sets: "set (concat ?fl) = insert (upper_half b) (set (concat fl))"
    by (metis m set_mset_add_mset_insert set_mset_mset)
  show ?thesis
  proof (rule seg_core_change [OF core _ shape])
    show "\<forall>c \<in> set (concat ?fl) \<union> set (lower_half b # xs). block_ok seg c"
      using seg_core_parts(5) [OF core] ok unfolding sets by (simp del: set_concat)
    have "image_mset (bkey ?sp) (mset (concat ?fl) + mset (lower_half b # xs))
        = add_mset (?a, j) (add_mset (?a + 2 ^ j, j) ?N)"
      unfolding m using keys by (simp add: add_mset_commute)
    with t show "tiles ?mn 0 ?mx
        (image_mset (bkey ?sp) (mset (concat ?fl) + mset (lower_half b # xs)))" by (simp only:)
    show "no_buddies ?mx (bkey ?sp ` set (concat ?fl))"
      using nb keys unfolding sets by (simp only: image_insert)
  qed simp
qed

lemma split_block_core:
  assumes "seg_core seg fl (b # xs)" "s_min_order seg \<le> order" "order \<le> b_order b"
    "split_block order (s_min_order seg) b fl = (b', fl')"
  shows "seg_core seg fl' (b' # xs) \<and> b_order b' = order \<and> b_ptr b' = b_ptr b"
  using assms
proof (induction "b_order b - order" arbitrary: b fl)
  case 0
  then show ?case by (simp add: split_block.simps [of order _ b])
next
  case (Suc n)
  let ?i = "b_order b - 1 - s_min_order seg"
  let ?fl = "fl[?i := fl ! ?i @ [upper_half b]]"
  from Suc.hyps(2) have lt: "order < b_order b" by simp
  with Suc.prems(2) have core: "seg_core seg ?fl (lower_half b # xs)"
    by (intro seg_core_split_step [OF Suc.prems(1)]) simp_all
  have "split_block order (s_min_order seg) (lower_half b) ?fl = (b', fl')"
    using Suc.prems(4) lt by (simp add: split_block.simps [of order _ b] Let_def)
  from Suc.hyps(1) [OF _ core Suc.prems(2) _ this] Suc.hyps(2) lt show ?case
    by (simp add: lower_half_def)
qed

subsection \<open>Allocation in a segment\<close>

lemma find_free_Some:
  "find_free fl mn mx cur = Some c \<Longrightarrow>
     cur \<le> c \<and> c \<le> mx \<and> c - mn < length fl \<and> fl ! (c - mn) \<noteq> []"
proof (induction fl mn mx cur rule: find_free.induct)
  case (1 fl mn mx cur)
  then show ?case
    by (fastforce simp: find_free.simps [of fl mn mx cur] Let_def split: if_splits)
qed

lemma find_free_None:
  "find_free fl mn mx cur = None \<Longrightarrow> cur \<le> c \<Longrightarrow> c \<le> mx \<Longrightarrow> c - mn < length fl \<Longrightarrow>
     fl ! (c - mn) = []"
proof (induction fl mn mx cur rule: find_free.induct)
  case (1 fl mn mx cur)
  show ?case
  proof (cases "c = cur")
    case True
    with 1 show ?thesis
      by (auto simp: find_free.simps [of fl mn mx cur] Let_def split: if_splits)
  next
    case False
    with 1 show ?thesis
      by (auto simp: find_free.simps [of fl mn mx cur] Let_def split: if_splits)
  qed
qed

lemma room_order:
  assumes "seg_ok seg fl live" "\<not> size_sub (s_cap seg) (s_used seg) < req"
  shows "log2_ceil req \<le> s_max_order seg"
proof -
  have "req \<le> s_cap seg" using assms(2) seg_ok_used [OF assms(1)] by simp
  then show ?thesis using assms(1) by (simp add: log2_ceil_le_iff seg_ok_def seg_core_def)
qed

text \<open>
  What a hit in a segment is: the requested size fits, the block joins the blocks in use, and the
  invariant holds again. The check of the order never fails.
\<close>

lemma seg_core_alloc_flag:
  "seg_core seg fl (b # xs) \<Longrightarrow> seg_core (seg\<lparr>s_used := u\<rparr>) fl (b\<lparr>b_allocated := a\<rparr> # xs)"
  by (simp add: seg_core_def block_ok_def bkey_def)

lemma alloc_seg_ok:
  assumes ok: "seg_ok seg fl live" and res: "alloc_seg n seg fl = Inr (Some (b, seg', fl'))"
  shows "seg_ok seg' fl' (b # live)" "n \<le> b_size b" "b_allocated b"
    "s_ptr seg' = s_ptr seg" "s_cap seg' = s_cap seg" "s_min_order seg' = s_min_order seg"
    "s_max_order seg' = s_max_order seg"
proof -
  let ?mn = "s_min_order seg" and ?mx = "s_max_order seg"
  let ?req = "max n (2 ^ ?mn)"
  define order where "order = (if log2_ceil ?req < ?mn then ?mn else log2_ceil ?req)"
  have core: "seg_core seg fl live" using ok by (simp add: seg_ok_def)
  obtain cur b1 where ff: "find_free fl ?mn ?mx order = Some cur"
    and sp: "split_block order ?mn (hd (fl ! (cur - ?mn)))
        (fl[cur - ?mn := tl (fl ! (cur - ?mn))]) = (b1, fl')"
    and b: "b = b1\<lparr>b_allocated := True\<rparr>" and seg': "seg' = seg\<lparr>s_used := s_used seg + b_size b1\<rparr>"
    using res unfolding alloc_seg_def Let_def order_def [symmetric]
    by (auto split: if_splits option.splits prod.splits)
  note f = find_free_Some [OF ff]
  from f obtain c r where c: "fl ! (cur - ?mn) = c # r" by (cases "fl ! (cur - ?mn)") auto
  note pop = seg_core_pop [OF core _ c]
  have "order \<le> b_order c" "?mn \<le> order" using f pop(2) by (auto simp: order_def)
  with split_block_core [OF pop(1), of order b1 fl'] sp f c
  have s: "seg_core seg fl' (b1 # live)" "b_order b1 = order" by auto
  then have sz: "b_size b1 = 2 ^ order" using seg_core_bounds(5) by fastforce
  show "seg_ok seg' fl' (b # live)"
    using seg_core_alloc_flag [OF s(1)] ok by (simp add: seg_ok_def b seg')
  have "n \<le> 2 ^ log2_ceil ?req" using log2_ceil_upper [of ?req] by simp
  also have "\<dots> \<le> 2 ^ order" by (auto simp: order_def)
  finally show "n \<le> b_size b" by (simp add: b sz)
qed (use res in \<open>auto simp: alloc_seg_def Let_def split: if_splits option.splits prod.splits\<close>)

lemma alloc_seg_no_error: "seg_ok seg fl live \<Longrightarrow> alloc_seg n seg fl \<noteq> Inl e"
proof (cases "size_sub (s_cap seg) (s_used seg) < max n (2 ^ s_min_order seg)")
  case False
  assume "seg_ok seg fl live"
  from room_order [OF this False] have "\<not> s_max_order seg < log2_ceil (max n (2 ^ s_min_order seg))"
    by simp
  with False show ?thesis by (simp add: alloc_seg_def Let_def split: option.split prod.split)
qed (simp add: alloc_seg_def Let_def)

text \<open>An untouched segment serves every request up to its capacity.\<close>

lemma alloc_seg_fresh:
  assumes ok: "seg_ok seg fl []" and n: "n \<le> s_cap seg"
    and full: "fl ! (s_max_order seg - s_min_order seg) \<noteq> []"
  shows "\<exists>r. alloc_seg n seg fl = Inr (Some r)"
proof -
  let ?mn = "s_min_order seg" and ?mx = "s_max_order seg"
  let ?req = "max n (2 ^ ?mn)"
  have c: "?mn \<le> ?mx" "s_cap seg = 2 ^ ?mx" "length fl = ?mx - ?mn + 1" "s_used seg = 0"
    using ok by (simp_all add: seg_ok_def seg_core_def)
  have lt: "s_cap seg < size_mod" using seg_ok_used [OF ok] by simp
  have room: "\<not> size_sub (s_cap seg) (s_used seg) < ?req"
    using c n lt by (simp add: not_less)
  then have ord: "log2_ceil ?req \<le> ?mx" by (rule room_order [OF ok])
  let ?o = "if log2_ceil ?req < ?mn then ?mn else log2_ceil ?req"
  have "?o \<le> ?mx" "?mx - ?mn < length fl" using ord c by simp_all
  with find_free_None [of fl ?mn ?mx ?o ?mx] full have "find_free fl ?mn ?mx ?o \<noteq> None"
    by blast
  then obtain cur where "find_free fl ?mn ?mx ?o = Some cur" by (metis not_None_eq)
  then show ?thesis
    using room ord by (simp add: alloc_seg_def Let_def split: prod.split)
qed

subsection \<open>Coalescing keeps the invariant\<close>

lemma absorb_key:
  assumes "is_buddy sp omb bud" "sp \<le> b_ptr omb" "sp \<le> b_ptr bud"
  shows "bkey sp (absorb omb bud) =
    (min (b_ptr omb - sp) ((b_ptr omb - sp) XOR 2 ^ b_order omb), Suc (b_order omb))"
  using assms by (auto simp: is_buddy_def absorb_def bkey_def min_def)

lemma xor_self_inverse: "((a::nat) XOR b) XOR b = a"
  by (simp add: xor.assoc)

lemma join_no_buddy:
  assumes core: "seg_core seg fl (omb # xs)" and unalloc: "\<not> b_allocated omb"
    and none: "\<forall>b \<in> set (fl ! (b_order omb - s_min_order seg)). \<not> is_buddy (s_ptr seg) omb b"
  shows "no_buddies (s_max_order seg) (bkey (s_ptr seg) ` insert omb (set (concat fl)))"
proof -
  let ?sp = "s_ptr seg" and ?F = "bkey (s_ptr seg) ` set (concat fl)"
  let ?a = "b_ptr omb - ?sp" and ?j = "b_order omb"
  have shape: "free_shape (s_min_order seg) fl" and nb: "no_buddies (s_max_order seg) ?F"
    using core by (simp_all add: seg_core_def)
  have notF: "(?a XOR 2 ^ ?j, ?j) \<notin> ?F"
  proof
    assume "(?a XOR 2 ^ ?j, ?j) \<in> ?F"
    then obtain b where b1: "b \<in> set (concat fl)" "(?a XOR 2 ^ ?j, ?j) = bkey ?sp b"
      by (rule imageE)
    then have b: "b \<in> set (concat fl)" "b_ptr b - ?sp = ?a XOR 2 ^ ?j" "b_order b = ?j"
      unfolding bkey_def by (auto simp del: set_concat)
    from free_shape_member [OF shape b(1)] b none show False by (auto simp: is_buddy_def)
  qed
  have "(y XOR 2 ^ i, i) \<notin> insert (?a, ?j) ?F" if y: "(y, i) \<in> insert (?a, ?j) ?F"
    and i: "i < s_max_order seg" for y i
  proof
    assume z: "(y XOR 2 ^ i, i) \<in> insert (?a, ?j) ?F"
    have ne: "y XOR 2 ^ i \<noteq> y"
    proof
      assume "y XOR 2 ^ i = y"
      then have "y XOR (y XOR 2 ^ i) = y XOR y" by simp
      then show False by (simp add: xor.assoc [symmetric])
    qed
    show False
    proof (cases "(y, i) \<in> ?F")
      case True
      with nb i z have e: "y XOR 2 ^ i = ?a" "i = ?j" by (auto simp: no_buddies_def)
      have "y = ?a XOR 2 ^ i"
        using xor_self_inverse [of y "2 ^ i"] unfolding e(1) by (rule sym)
      then have "y = ?a XOR 2 ^ ?j" by (simp only: e(2))
      with True notF show False by (simp add: e(2) del: set_concat)
    next
      case False
      with y have "y = ?a" "i = ?j" by auto
      with z ne notF show False by auto
    qed
  qed
  then show ?thesis by (auto simp: no_buddies_def bkey_def)
qed

lemma join_core:
  assumes "seg_core seg fl (omb # xs)" "\<not> b_allocated omb"
  shows "\<exists>fl'. join (s_ptr seg) (s_min_order seg) omb fl = Some fl' \<and> seg_core seg fl' xs"
  using assms
proof (induction "s_ptr seg" "s_min_order seg" omb fl rule: join.induct)
  case (1 omb fl)
  let ?sp = "s_ptr seg" and ?mn = "s_min_order seg" and ?mx = "s_max_order seg"
  let ?i = "b_order omb - ?mn"
  note core = "1.prems"(1) and parts = seg_core_parts [OF "1.prems"(1)]
    and bnd = seg_core_bounds [OF "1.prems"(1)]
  have i: "?i < length fl" "\<not> (b_order omb < ?mn \<or> length fl \<le> ?i)" using parts bnd by auto
  have shape_i: "\<forall>b \<in> set (fl ! ?i). b_order b = ?mn + ?i \<and> \<not> b_allocated b"
    using parts(4) i(1) unfolding free_shape_def by blast
  show ?case
  proof (cases "take_first (is_buddy ?sp omb) (fl ! ?i)")
    case None
    let ?fl = "fl[?i := fl ! ?i @ [omb]]"
    have m: "mset (concat ?fl) = add_mset omb (mset (concat fl))"
      using mset_concat_update [OF i(1), of "fl ! ?i @ [omb]"] by simp
    then have sets: "set (concat ?fl) = insert omb (set (concat fl))"
      by (metis set_mset_add_mset_insert set_mset_mset)
    have "seg_core seg ?fl xs"
    proof (rule seg_core_change [OF core])
      show "free_shape ?mn ?fl"
      proof (rule free_shape_update [OF parts(4)])
        have o: "b_order omb = ?mn + ?i" using bnd(1) by simp
        show "\<forall>b \<in> set (fl ! ?i @ [omb]). b_order b = ?mn + ?i \<and> \<not> b_allocated b"
        proof
          fix b assume "b \<in> set (fl ! ?i @ [omb])"
          then have "b \<in> set (fl ! ?i) \<or> b = omb" by auto
          then show "b_order b = ?mn + ?i \<and> \<not> b_allocated b"
            using shape_i o "1.prems"(2) by blast
        qed
      qed
      show "\<forall>b \<in> set (concat ?fl) \<union> set xs. block_ok seg b"
        using parts(5) unfolding sets by (simp del: set_concat)
      show "tiles ?mn 0 ?mx (image_mset (bkey ?sp) (mset (concat ?fl) + mset xs))"
        using parts(6) unfolding m by simp
      show "no_buddies ?mx (bkey ?sp ` set (concat ?fl))"
        unfolding sets using None by (intro join_no_buddy [OF core "1.prems"(2)])
          (simp add: take_first_None)
    qed simp
    then show ?thesis
      using None i(2) by (simp add: join.simps [of ?sp ?mn omb fl] Let_def)
  next
    case (Some br)
    obtain bud rest where br: "br = (bud, rest)" by force
    note t = take_first_SomeD [OF Some [unfolded br], THEN conjunct1]
      take_first_SomeD [OF Some [unfolded br], THEN conjunct2]
    let ?fl = "fl[?i := rest]"
    have "add_mset bud (mset (concat ?fl)) + mset rest = mset (concat fl) + mset rest"
      using mset_concat_update [OF i(1), of rest] unfolding t(2) by (simp del: mset_concat)
    then have m: "mset (concat fl) = add_mset bud (mset (concat ?fl))"
      by (rule add_right_imp_eq [symmetric])
    then have sets: "set (concat fl) = insert bud (set (concat ?fl))"
      by (metis set_mset_add_mset_insert set_mset_mset)
    have "\<forall>b \<in> set rest. b \<in> set (fl ! ?i)"
      using t(2) by (metis insert_iff set_mset_add_mset_insert set_mset_mset)
    with shape_i have sh: "\<forall>b \<in> set rest. b_order b = ?mn + ?i \<and> \<not> b_allocated b" by blast
    have bud: "?sp \<le> b_ptr bud" "block_ok seg bud"
      using parts(5) unfolding sets by (simp_all add: block_ok_def del: set_concat)
    have core': "seg_core seg ?fl (absorb omb bud # xs)"
    proof (rule seg_core_change [OF core])
      show "free_shape ?mn ?fl" using sh by (rule free_shape_update [OF parts(4)])
      show "\<forall>b \<in> set (concat ?fl) \<union> set (absorb omb bud # xs). block_ok seg b"
        using parts(5) bud unfolding sets by (simp add: block_ok_def absorb_def del: set_concat)
      let ?a = "b_ptr omb - ?sp" and ?j = "b_order omb"
      let ?N = "image_mset (bkey ?sp) (mset (concat ?fl) + mset xs)"
      have "bkey ?sp bud = (?a XOR 2 ^ ?j, ?j)" "bkey ?sp omb = (?a, ?j)"
        using t(1) by (simp_all add: bkey_def is_buddy_def)
      then have "tiles ?mn 0 ?mx (add_mset (?a, ?j) (add_mset (?a XOR 2 ^ ?j, ?j) ?N))"
        using parts(6) unfolding m by (simp add: add_mset_commute)
      from tiles_merge_buddy [OF this]
      show "tiles ?mn 0 ?mx (image_mset (bkey ?sp) (mset (concat ?fl) + mset (absorb omb bud # xs)))"
        using absorb_key [OF t(1) bnd(4) bud(1)] by simp
      show "no_buddies ?mx (bkey ?sp ` set (concat ?fl))"
        using parts(7) unfolding sets by (rule no_buddies_subset) blast
    qed simp
    have "\<not> b_allocated (absorb omb bud)" using "1.prems"(2) by (simp add: absorb_def)
    from "1.hyps" [OF refl i(2) Some br [symmetric] core' this] show ?thesis
      using Some br i(2) by (simp add: join.simps [of ?sp ?mn omb fl] Let_def)
  qed
qed

text \<open>Releasing a block of a segment: the loop ends, in bounds, and the invariant holds without it.\<close>

lemma release_seg_ok:
  assumes ok: "seg_ok seg fl live" and mem: "mset live = add_mset omb (mset live')"
  defines "seg' \<equiv> seg\<lparr>s_used := size_sub (s_used seg) (b_size omb)\<rparr>"
  shows "\<exists>fl'. join (s_ptr seg) (s_min_order seg) (omb\<lparr>b_allocated := False\<rparr>) fl = Some fl' \<and>
    seg_ok seg' fl' live'"
proof -
  have ok': "seg_ok seg fl (omb # live')" using seg_ok_mset [OF ok] mem by simp
  then have "seg_core seg fl (omb # live')" by (simp add: seg_ok_def)
  from seg_core_alloc_flag [OF this, of "s_used seg" False]
  have "seg_core seg fl (omb\<lparr>b_allocated := False\<rparr> # live')" by simp
  from join_core [OF this] obtain fl' where
    j: "join (s_ptr seg) (s_min_order seg) (omb\<lparr>b_allocated := False\<rparr>) fl = Some fl'"
      "seg_core seg fl' live'" by auto
  have "b_size omb \<le> s_used seg" "s_used seg < size_mod"
    using ok' seg_ok_used [OF ok'] by (auto simp: seg_ok_def)
  then have "s_used seg' = sum_list (map b_size live')"
    using ok' by (simp add: seg'_def seg_ok_def)
  moreover have "seg_core seg' fl' live'"
    using j(2) by (simp add: seg'_def seg_core_def block_ok_def)
  ultimately show ?thesis using j(1) by (simp add: seg_ok_def)
qed

text \<open>With nothing in use, coalescing has rebuilt the one block the segment started with.\<close>

lemma seg_ok_all_free:
  assumes "seg_ok seg fl []"
  shows "image_mset (bkey (s_ptr seg)) (mset (concat fl)) = {#(0, s_max_order seg)#}" "s_used seg = 0"
proof -
  have core: "seg_core seg fl []" using assms by (simp add: seg_ok_def)
  note p = seg_core_parts [OF core]
  show "image_mset (bkey (s_ptr seg)) (mset (concat fl)) = {#(0, s_max_order seg)#}"
    using p(6,7) by (intro tiles_coalesced [where K = "s_max_order seg"]) simp_all
  show "s_used seg = 0" using assms by (simp add: seg_ok_def)
qed

end
