(* ===== verification/Buddy_Pool.thy ===== *)
theory Buddy_Pool
  imports Buddy_Segment
begin

text \<open>
  The buddy memory pool over all its segments, \<^verbatim>\<open>mllm/engine/BuddyMemPool.cpp\<close>: construction,
  \<^verbatim>\<open>alloc\<close> and \<^verbatim>\<open>free\<close> of a storage, the object cache, and the growth of the pool. The symbol table
  \<^verbatim>\<open>st_\<close> and the object cache hold the blocks in use. The mutex and the counters of the report play
  no part: every operation runs under the lock.
\<close>

subsection \<open>State\<close>

record pool_options =
  o_first_cap :: nat
  o_min_order :: nat
  o_max_order :: nat
  o_cache_enabled :: bool
  o_cache_sizes :: "nat list"

record pool =
  p_options :: pool_options
  p_segments :: "(nat \<times> segment) list"
  p_blocks :: "(nat \<times> block list list) list"
  p_st :: "(32 word, block) symtab"
  p_hits :: nat
  p_cached :: nat
  p_obj_cache :: "(nat \<times> block list) list"
  p_calls :: nat

text \<open>
  \<^verbatim>\<open>Allocator::generalAlloc\<close> is a virtual function of the backend: a parameter. \<open>ga i cap\<close> is the
  address the \<open>i\<close>-th call stores through its out-parameter when asked for \<open>cap\<close> bytes, \<open>None\<close> when it
  returns false.
\<close>

type_synonym general_alloc = "nat \<Rightarrow> nat \<Rightarrow> nat option"

subsection \<open>The loop over the segments\<close>

text \<open>\<^verbatim>\<open>operator[]\<close> of a \<^verbatim>\<open>std::map\<close> makes an empty entry for a new key.\<close>

definition lists_of :: "(nat \<times> 'a list) list \<Rightarrow> nat \<Rightarrow> 'a list" where
  "lists_of blks k = (case map_of blks k of None \<Rightarrow> [] | Some fl \<Rightarrow> fl)"

fun alloc_segs ::
  "nat \<Rightarrow> (nat \<times> segment) list \<Rightarrow> (nat \<times> block list list) list \<Rightarrow>
     (nat \<times> block \<times> segment \<times> block list list) option outcome" where
  "alloc_segs n [] blks = Inr None"
| "alloc_segs n ((k, seg) # segs) blks =
     (case alloc_seg n seg (lists_of blks k) of
        Inl e \<Rightarrow> Inl e
      | Inr (Some (b, seg', fl')) \<Rightarrow> Inr (Some (k, b, seg', fl'))
      | Inr None \<Rightarrow> alloc_segs n segs blks)"

definition set_key :: "'k \<Rightarrow> 'v \<Rightarrow> ('k \<times> 'v) list \<Rightarrow> ('k \<times> 'v) list" where
  "set_key k v m = map (\<lambda>e. if fst e = k then (k, v) else e) m"

subsection \<open>A new segment\<close>

definition new_block :: "nat \<Rightarrow> nat \<Rightarrow> nat \<Rightarrow> block" where
  "new_block p cap order =
     \<lparr>b_ptr = p, b_offset = 0, b_size = cap, b_segment = p, b_order = order, b_allocated = False\<rparr>"

definition add_segment :: "nat \<Rightarrow> nat \<Rightarrow> nat \<Rightarrow> nat \<Rightarrow> pool \<Rightarrow> pool" where
  "add_segment ptr cap mn mx p =
     (let seg = \<lparr>s_ptr = ptr, s_cap = cap, s_used = 0, s_min_order = mn, s_max_order = mx\<rparr>;
          fl = (replicate (mx - mn + 1) [])[mx - mn := [new_block ptr cap mx]]
      in p\<lparr>p_segments := omap_insert ptr seg (p_segments p),
           p_blocks := omap_insert ptr fl (p_blocks p)\<rparr>)"

text \<open>The constructor does not look at the result of \<^verbatim>\<open>generalAlloc\<close>: the pointer stays null.\<close>

definition new_pool :: "general_alloc \<Rightarrow> pool_options \<Rightarrow> pool outcome" where
  "new_pool ga opts =
     (let ptr = (case ga 0 (o_first_cap opts) of None \<Rightarrow> 0 | Some a \<Rightarrow> a) in
      if log2_ceil (o_first_cap opts) \<noteq> o_max_order opts then Inl (Exit kAssert)
      else Inr (add_segment ptr (o_first_cap opts) (o_min_order opts) (o_max_order opts)
        \<lparr>p_options = opts, p_segments = [], p_blocks = [], p_st = [], p_hits = 0, p_cached = 0,
         p_obj_cache = [], p_calls = 1\<rparr>))"

definition previous_cap :: "pool \<Rightarrow> nat" where
  "previous_cap p = fold (\<lambda>(k, seg) c. max c (2 ^ s_max_order seg)) (p_segments p) 0"

definition expandBuddySegment :: "general_alloc \<Rightarrow> pool \<Rightarrow> bool \<times> pool" where
  "expandBuddySegment ga p =
     (let mn = o_min_order (p_options p);
          new_cap = min (previous_cap p * 2) (2 ^ 29);
          mx = log2_ceil new_cap;
          p' = p\<lparr>p_calls := Suc (p_calls p)\<rparr>
      in case ga (p_calls p) new_cap of
           None \<Rightarrow> (False, p')
         | Some ptr \<Rightarrow> (True, add_segment ptr new_cap mn mx p'))"

text \<open>
  \<^verbatim>\<open>allocBuddy\<close> calls itself after every expansion; each call spends one unit of fuel, and \<open>None\<close> is
  the result of a call that is still running when the fuel is used up.
\<close>

fun allocBuddy :: "general_alloc \<Rightarrow> nat \<Rightarrow> nat \<Rightarrow> pool \<Rightarrow> (block \<times> pool) outcome option" where
  "allocBuddy ga 0 n p = None"
| "allocBuddy ga (Suc fuel) n p =
     (case alloc_segs n (p_segments p) (p_blocks p) of
        Inl e \<Rightarrow> Some (Inl e)
      | Inr (Some (k, b, seg, fl)) \<Rightarrow>
          Some (Inr (b, p\<lparr>p_segments := set_key k seg (p_segments p),
                          p_blocks := set_key k fl (p_blocks p)\<rparr>))
      | Inr None \<Rightarrow>
          (let (ok, p') = expandBuddySegment ga p in
           if ok then allocBuddy ga fuel n p' else Some (Inl (Exit kMemory))))"

subsection \<open>Release\<close>

definition freeBuddy :: "block \<Rightarrow> pool \<Rightarrow> pool outcome" where
  "freeBuddy omb p =
     (case map_of (p_segments p) (b_segment omb) of
        None \<Rightarrow> Inl Undefined
      | Some seg \<Rightarrow>
          (let fl = lists_of (p_blocks p) (b_segment omb);
               seg' = seg\<lparr>s_used := size_sub (s_used seg) (b_size omb)\<rparr>
           in case join (s_ptr seg) (s_min_order seg) (omb\<lparr>b_allocated := False\<rparr>) fl of
                None \<Rightarrow> Inl Undefined
              | Some fl' \<Rightarrow>
                  Inr (p\<lparr>p_segments := set_key (b_segment omb) seg' (p_segments p),
                         p_blocks := set_key (b_segment omb) fl' (p_blocks p)\<rparr>)))"


subsection \<open>The object cache and the entry points\<close>

record storage =
  sto_ptr :: "nat option"
  sto_size :: nat
  sto_uuid :: "32 word"

definition isInObjCache :: "nat \<Rightarrow> pool \<Rightarrow> bool" where
  "isInObjCache n p = (n \<in> set (o_cache_sizes (p_options p)))"

definition allocObjCache :: "nat \<Rightarrow> pool \<Rightarrow> block option \<times> pool" where
  "allocObjCache n p =
     (case map_of (p_obj_cache p) n of
        None \<Rightarrow> (None, p)
      | Some [] \<Rightarrow> (None, p)
      | Some (b # bs) \<Rightarrow>
          (Some b, p\<lparr>p_obj_cache := set_key n bs (p_obj_cache p), p_hits := Suc (p_hits p)\<rparr>))"

text \<open>The key is the size of the block, not the size that was asked for.\<close>

definition freeObjCache :: "block \<Rightarrow> pool \<Rightarrow> pool" where
  "freeObjCache b p =
     (let m = p_obj_cache p; k = b_size b;
          m' = (case map_of m k of None \<Rightarrow> (k, [b]) # m | Some bs \<Rightarrow> set_key k (bs @ [b]) m)
      in p\<lparr>p_obj_cache := m', p_cached := Suc (p_cached p)\<rparr>)"

text \<open>\<open>asz\<close> is the backend's \<^verbatim>\<open>Allocator::allocSize\<close>.\<close>

definition reg_block :: "storage \<Rightarrow> block \<times> pool \<Rightarrow> (storage \<times> pool) outcome" where
  "reg_block s bp =
     (let (b, p) = bp
      in obind (st_reg (p_st p) (sto_uuid s) b)
           (\<lambda>t. Inr (s\<lparr>sto_ptr := Some (b_ptr b)\<rparr>, p\<lparr>p_st := t\<rparr>)))"

definition pool_alloc ::
  "(storage \<Rightarrow> nat) \<Rightarrow> general_alloc \<Rightarrow> nat \<Rightarrow> storage \<Rightarrow> pool \<Rightarrow> (storage \<times> pool) outcome option" where
  "pool_alloc asz ga fuel s p =
     (let n = asz s;
          (hit, p1) = (if o_cache_enabled (p_options p) \<and> isInObjCache n p
                       then allocObjCache n p else (None, p));
          r = (case hit of Some b \<Rightarrow> Some (Inr (b, p1)) | None \<Rightarrow> allocBuddy ga fuel n p1)
      in map_option (\<lambda>r. obind r (reg_block s)) r)"

definition pool_free :: "(storage \<Rightarrow> nat) \<Rightarrow> storage \<Rightarrow> pool \<Rightarrow> pool outcome" where
  "pool_free asz s p =
     (let n = asz s in
      if sto_ptr s = None then Inr p
      else obind (st_get (p_st p) (sto_uuid s)) (\<lambda>b.
             obind (if o_cache_enabled (p_options p) \<and> isInObjCache n p
                    then Inr (freeObjCache b p) else freeBuddy b p) (\<lambda>p'.
               Inr (p'\<lparr>p_st := st_remove (p_st p') (sto_uuid s)\<rparr>))))"

fun free_list :: "block list \<Rightarrow> pool \<Rightarrow> pool outcome" where
  "free_list [] p = Inr p"
| "free_list (b # bs) p = obind (freeBuddy b p) (free_list bs)"

fun evict :: "nat list \<Rightarrow> pool \<Rightarrow> pool outcome" where
  "evict [] p = Inr p"
| "evict (n # ns) p =
     (if isInObjCache n p then evict ns p
      else obind (free_list (case map_of (p_obj_cache p) n of None \<Rightarrow> [] | Some bs \<Rightarrow> bs) p)
             (\<lambda>p'. evict ns (p'\<lparr>p_obj_cache := st_remove (p_obj_cache p') n\<rparr>)))"

definition updateCacheSizeList :: "nat list \<Rightarrow> pool \<Rightarrow> pool outcome" where
  "updateCacheSizeList sizes p =
     obind (evict sizes p) (\<lambda>p'. Inr (p'\<lparr>p_options := (p_options p')\<lparr>o_cache_sizes := sizes\<rparr>\<rparr>))"

definition locateSegment :: "nat \<Rightarrow> pool \<Rightarrow> segment option" where
  "locateSegment ptr p =
     (case rev (filter (\<lambda>e. fst e \<le> ptr) (p_segments p)) of
        [] \<Rightarrow> None
      | (k, seg) # _ \<Rightarrow> (if s_ptr seg \<le> ptr \<and> ptr < s_ptr seg + s_cap seg then Some seg else None))"

subsection \<open>The invariant of the pool\<close>

text \<open>The documented behaviour of an allocator: regions of different calls do not overlap.\<close>

definition regions_disjoint :: "general_alloc \<Rightarrow> bool" where
  "regions_disjoint ga \<longleftrightarrow>
     (\<forall>i j c d p q. i \<noteq> j \<longrightarrow> ga i c = Some p \<longrightarrow> ga j d = Some q \<longrightarrow> p + c \<le> q \<or> q + d \<le> p)"

definition seg_entry_ok :: "pool \<Rightarrow> block list \<Rightarrow> nat \<Rightarrow> segment \<Rightarrow> bool" where
  "seg_entry_ok p L k seg \<longleftrightarrow>
     s_ptr seg = k \<and> s_min_order seg = o_min_order (p_options p) \<and>
     (\<exists>fl. map_of (p_blocks p) k = Some fl \<and> seg_ok seg fl (filter (\<lambda>b. b_segment b = k) L))"

text \<open>\<open>L\<close> are the blocks in use; \<open>idx\<close> is the call of the allocator a segment came from.\<close>

definition pool_core :: "general_alloc \<Rightarrow> pool \<Rightarrow> block list \<Rightarrow> bool" where
  "pool_core ga p L \<longleftrightarrow>
     p_segments p \<noteq> [] \<and> o_min_order (p_options p) \<le> 29 \<and>
     distinct (map fst (p_segments p)) \<and> sorted (map fst (p_segments p)) \<and>
     map fst (p_blocks p) = map fst (p_segments p) \<and>
     (\<forall>(k, seg) \<in> set (p_segments p). seg_entry_ok p L k seg) \<and>
     b_segment ` set L \<subseteq> fst ` set (p_segments p) \<and>
     (\<exists>idx. inj_on idx (fst ` set (p_segments p)) \<and>
        (\<forall>(k, seg) \<in> set (p_segments p). idx k < p_calls p \<and> ga (idx k) (s_cap seg) = Some k))"

definition live :: "pool \<Rightarrow> block list" where
  "live p = map snd (p_st p) @ concat (map snd (p_obj_cache p))"

definition cache_ok :: "pool \<Rightarrow> bool" where
  "cache_ok p \<longleftrightarrow> distinct (map fst (p_obj_cache p)) \<and>
     (\<forall>(k, bs) \<in> set (p_obj_cache p). \<forall>b \<in> set bs. b_size b = k)"

definition pool_ok :: "general_alloc \<Rightarrow> pool \<Rightarrow> bool" where
  "pool_ok ga p \<longleftrightarrow> pool_core ga p (live p) \<and> st_ok (p_st p) \<and> cache_ok p"

lemma pool_coreI [wf_intros]:
  assumes "p_segments p \<noteq> []" "o_min_order (p_options p) \<le> 29"
    "distinct (map fst (p_segments p))" "sorted (map fst (p_segments p))"
    "map fst (p_blocks p) = map fst (p_segments p)"
    "\<And>k seg. (k, seg) \<in> set (p_segments p) \<Longrightarrow> seg_entry_ok p L k seg"
    "b_segment ` set L \<subseteq> fst ` set (p_segments p)"
    "\<exists>idx. inj_on idx (fst ` set (p_segments p)) \<and>
        (\<forall>(k, seg) \<in> set (p_segments p). idx k < p_calls p \<and> ga (idx k) (s_cap seg) = Some k)"
  shows "pool_core ga p L"
  using assms unfolding pool_core_def by (simp add: case_prod_beta)

lemma map_fst_set_key [simp]: "map fst (set_key k v m) = map fst m"
  by (induction m) (auto simp: set_key_def)

lemma set_key_simps [simp]:
  "set_key k v [] = []"
  "set_key k v ((j, w) # m) = (if j = k then (k, v) else (j, w)) # set_key k v m"
  by (simp_all add: set_key_def)

lemma map_of_set_key:
  "map_of (set_key k v m) j = (if j = k \<and> k \<in> fst ` set m then Some v else map_of m j)"
proof (induction m)
  case (Cons e m)
  then show ?case by (cases e; cases "j = k") (auto split: if_splits)
qed simp

lemma set_set_key_cases:
  "(j, w) \<in> set (set_key k v m) \<Longrightarrow> j = k \<and> w = v \<or> j \<noteq> k \<and> (j, w) \<in> set m"
  by (auto simp: set_key_def split: if_splits)

lemma map_of_omap_insert:
  "k \<notin> fst ` set m \<Longrightarrow> map_of (omap_insert k v m) = (map_of m)(k \<mapsto> v)"
  by (induction k v m rule: omap_insert.induct) (auto simp: fun_eq_iff)

lemma map_fst_omap_insert:
  "map fst m = map fst m' \<Longrightarrow> map fst (omap_insert k v m) = map fst (omap_insert k w m')"
proof (induction k v m arbitrary: m' rule: omap_insert.induct)
  case (2 k v j w' m)
  then obtain u n where "m' = (j, u) # n" by (cases m') auto
  with 2 show ?case by simp
qed simp

lemma pool_core_mset:
  assumes "pool_core ga p L" "mset L = mset L'"
  shows "pool_core ga p L'"
proof -
  have f: "mset (filter P L) = mset (filter P L')" for P
    using assms(2) by simp
  have "seg_entry_ok p L k seg \<Longrightarrow> seg_entry_ok p L' k seg" for k seg
    using seg_ok_mset [OF _ f] by (auto simp: seg_entry_ok_def)
  moreover have "set L = set L'" using assms(2) by (metis set_mset_mset)
  ultimately show ?thesis using assms(1) by (auto simp: pool_core_def)
qed

lemma alloc_segs_hit:
  "alloc_segs n segs blks = Inr (Some (k, b, seg', fl')) \<Longrightarrow>
     \<exists>seg. (k, seg) \<in> set segs \<and>
       alloc_seg n seg (lists_of blks k) = Inr (Some (b, seg', fl'))"
  by (induction n segs blks rule: alloc_segs.induct)
    (auto split: sum.splits option.splits prod.splits)

lemma alloc_segs_miss:
  "alloc_segs n segs blks = Inr None \<Longrightarrow> (k, seg) \<in> set segs \<Longrightarrow>
     alloc_seg n seg (lists_of blks k) = Inr None"
  by (induction n segs blks rule: alloc_segs.induct)
    (auto split: sum.splits option.splits prod.splits)

lemma alloc_segs_error:
  "alloc_segs n segs blks = Inl e \<Longrightarrow>
     \<exists>k seg. (k, seg) \<in> set segs \<and>
       alloc_seg n seg (lists_of blks k) = Inl e"
  by (induction n segs blks rule: alloc_segs.induct)
    (auto split: sum.splits option.splits prod.splits)

lemma lists_of_Some [simp]: "map_of blks k = Some fl \<Longrightarrow> lists_of blks k = fl"
  by (simp add: lists_of_def)

text \<open>What the invariant says of one segment, and how it is put together again.\<close>

lemma pool_core_segment:
  assumes "pool_core ga p L" "(k, seg) \<in> set (p_segments p)"
  shows "s_ptr seg = k" "s_min_order seg = o_min_order (p_options p)"
    "seg_ok seg (lists_of (p_blocks p) k) (filter (\<lambda>b. b_segment b = k) L)"
    "map_of (p_segments p) k = Some seg" "map_of (p_blocks p) k = Some (lists_of (p_blocks p) k)"
proof -
  have "seg_entry_ok p L k seg" using assms by (auto simp: pool_core_def)
  then show "s_ptr seg = k" "s_min_order seg = o_min_order (p_options p)"
    "seg_ok seg (lists_of (p_blocks p) k) (filter (\<lambda>b. b_segment b = k) L)"
    "map_of (p_blocks p) k = Some (lists_of (p_blocks p) k)"
    by (auto simp: seg_entry_ok_def)
  show "map_of (p_segments p) k = Some seg"
    using assms by (simp add: pool_core_def)
qed

lemma pool_core_set_key:
  assumes core: "pool_core ga p L" and mem: "(k, seg) \<in> set (p_segments p)"
    and ok: "seg_ok seg' fl' (filter (\<lambda>b. b_segment b = k) L')"
    and same: "s_ptr seg' = s_ptr seg" "s_min_order seg' = s_min_order seg" "s_cap seg' = s_cap seg"
    and others: "\<And>j. j \<noteq> k \<Longrightarrow> filter (\<lambda>b. b_segment b = j) L' = filter (\<lambda>b. b_segment b = j) L"
    and sub: "b_segment ` set L' \<subseteq> insert k (b_segment ` set L)"
    and p': "p_segments p' = set_key k seg' (p_segments p)" "p_blocks p' = set_key k fl' (p_blocks p)"
      "p_options p' = p_options p" "p_calls p' = p_calls p"
  shows "pool_core ga p' L'"
proof -
  note seg = pool_core_segment [OF core mem]
  have k1: "k \<in> fst ` set (p_segments p)" using mem by (rule rev_image_eqI) simp
  have k2: "k \<in> fst ` set (p_blocks p)"
    using map_of_SomeD [OF seg(5)] by (rule rev_image_eqI) simp
  note k = k1 k2
  have fs: "fst ` set (set_key k seg' (p_segments p)) = fst ` set (p_segments p)"
    by (simp only: set_map [symmetric] map_fst_set_key)
  have entry: "seg_entry_ok p' L' j w" if "(j, w) \<in> set (set_key k seg' (p_segments p))" for j w
  proof (cases "j = k")
    case True
    with that have "w = seg'" by (blast dest: set_set_key_cases)
    moreover have "map_of (p_blocks p') k = Some fl'" using k2 by (simp only: p'(2) map_of_set_key) simp
    ultimately show ?thesis
      using True ok same seg(1,2) p'(3) unfolding seg_entry_ok_def by simp
  next
    case False
    with that have "(j, w) \<in> set (p_segments p)" by (blast dest: set_set_key_cases)
    then have "seg_entry_ok p L j w" using core by (auto simp: pool_core_def)
    with False show ?thesis using others p' by (simp add: seg_entry_ok_def map_of_set_key)
  qed
  obtain idx where idx: "inj_on idx (fst ` set (p_segments p))"
      "\<forall>(j, w) \<in> set (p_segments p). idx j < p_calls p \<and> ga (idx j) (s_cap w) = Some j"
    using core unfolding pool_core_def by blast
  have "idx j < p_calls p \<and> ga (idx j) (s_cap w) = Some j"
    if "(j, w) \<in> set (set_key k seg' (p_segments p))" for j w
  proof (cases "j = k")
    case True
    with that have "w = seg'" by (blast dest: set_set_key_cases)
    with True idx(2) mem same show ?thesis by auto
  next
    case False
    with that idx(2) show ?thesis by (blast dest: set_set_key_cases)
  qed
  with idx(1) fs have "\<exists>idx. inj_on idx (fst ` set (p_segments p')) \<and>
      (\<forall>(j, w) \<in> set (p_segments p'). idx j < p_calls p' \<and> ga (idx j) (s_cap w) = Some j)"
    unfolding p' by (intro exI [of _ idx]) auto
  moreover have "p_segments p' \<noteq> []" using k fs p' by fastforce
  moreover have "b_segment ` set L' \<subseteq> fst ` set (p_segments p')"
  proof -
    have "b_segment ` set L \<subseteq> fst ` set (p_segments p)" using core by (simp add: pool_core_def)
    then show ?thesis using sub k1 unfolding p' fs by blast
  qed
  ultimately show ?thesis
    using core entry unfolding pool_core_def p' by auto
qed

text \<open>A hit of the loop over the segments.\<close>

lemma pool_core_hit:
  assumes core: "pool_core ga p L"
    and hit: "alloc_segs n (p_segments p) (p_blocks p) = Inr (Some (k, b, seg', fl'))"
  shows "pool_core ga (p\<lparr>p_segments := set_key k seg' (p_segments p),
                         p_blocks := set_key k fl' (p_blocks p)\<rparr>) (b # L)"
    "n \<le> b_size b" "b_allocated b" "b_segment b = k"
proof -
  obtain seg where mem: "(k, seg) \<in> set (p_segments p)"
    and al: "alloc_seg n seg (lists_of (p_blocks p) k) = Inr (Some (b, seg', fl'))"
    using alloc_segs_hit [OF hit] by blast
  note seg = pool_core_segment [OF core mem]
  note a = alloc_seg_ok [OF seg(3) al]
  have "seg_core seg' fl' (b # filter (\<lambda>b. b_segment b = k) L)"
    using a(1) by (simp add: seg_ok_def)
  then show bk: "b_segment b = k" using seg_core_bounds(6) a(4) seg(1) by metis
  show "n \<le> b_size b" "b_allocated b" by (fact a)+
  show "pool_core ga (p\<lparr>p_segments := set_key k seg' (p_segments p),
                        p_blocks := set_key k fl' (p_blocks p)\<rparr>) (b # L)"
    by (rule pool_core_set_key [OF core mem]) (use a bk in auto)
qed

text \<open>A new segment comes with one free block of its own size.\<close>

lemma fresh_segment_ok:
  assumes "mn \<le> mx" "mx < 64"
  shows "seg_ok \<lparr>s_ptr = ptr, s_cap = 2 ^ mx, s_used = 0, s_min_order = mn, s_max_order = mx\<rparr>
    ((replicate (mx - mn + 1) [])[mx - mn := [new_block ptr (2 ^ mx) mx]]) []"
proof -
  let ?b = "new_block ptr (2 ^ mx) mx"
  let ?fl = "(replicate (mx - mn + 1) [])[mx - mn := [?b]]"
  have m: "mset (concat ?fl) = {#?b#}"
    using mset_concat_update [of "mx - mn" "replicate (mx - mn + 1) []" "[?b]"]
    by (simp add: concat_replicate_trivial del: replicate_Suc)
  have sets: "set (concat ?fl) = {?b}" by (metis m set_mset_mset set_mset_single)
  have "free_shape mn ?fl"
    using assms(1) by (intro free_shape_update)
      (simp_all add: free_shape_def new_block_def del: replicate_Suc)
  then show ?thesis
    using assms unfolding seg_ok_def seg_core_def sets m
    by (simp add: block_ok_def bkey_def new_block_def no_buddies_def tiles.intros
        del: replicate_Suc list_update.simps)
qed

subsection \<open>Growth\<close>

lemma fold_max_orders:
  fixes xs :: "(nat \<times> segment) list"
  defines "h \<equiv> \<lambda>c. fold (\<lambda>(k, seg) c. max c (2 ^ s_max_order seg)) xs (c::nat)"
  shows "c \<le> h c" "(k, seg) \<in> set xs \<Longrightarrow> 2 ^ s_max_order seg \<le> h c"
    "h c = c \<or> (\<exists>(k, seg) \<in> set xs. h c = 2 ^ s_max_order seg)"
  unfolding h_def
proof (induction xs arbitrary: c)
  case (Cons e xs)
  obtain j w where e: "e = (j, w)" by force
  { case 1 show ?case using Cons.IH(1) [of "max c (2 ^ s_max_order w)"] by (simp add: e) }
  { case 2 then show ?case
      using Cons.IH(1,2) [of "max c (2 ^ s_max_order w)"] by (auto simp: e) }
  { case 3 show ?case
      using Cons.IH(3) [of "max c (2 ^ s_max_order w)"] by (auto simp: e max_def split: if_splits) }
qed simp_all

lemma previous_cap_pow2:
  assumes "pool_core ga p L"
  shows "\<exists>m. previous_cap p = 2 ^ m \<and> o_min_order (p_options p) \<le> m \<and>
    (\<forall>(k, seg) \<in> set (p_segments p). s_max_order seg \<le> m)"
proof -
  obtain k0 w0 where "(k0, w0) \<in> set (p_segments p)"
    using assms unfolding pool_core_def by (cases "p_segments p") auto
  from fold_max_orders(2) [OF this, of 0] have "0 < previous_cap p"
    unfolding previous_cap_def by (meson less_le_trans zero_less_numeral zero_less_power)
  then obtain k w where w: "(k, w) \<in> set (p_segments p)" "previous_cap p = 2 ^ s_max_order w"
    using fold_max_orders(3) [of "p_segments p" 0] unfolding previous_cap_def by auto
  note seg = pool_core_segment(2,3) [OF assms w(1)]
  then have "o_min_order (p_options p) \<le> s_max_order w"
    unfolding seg_ok_def seg_core_def by simp
  moreover have "s_max_order v \<le> s_max_order w" if "(j, v) \<in> set (p_segments p)" for j v
    using fold_max_orders(2) [OF that, of 0] w(2) unfolding previous_cap_def by simp
  ultimately show ?thesis using w(2) by (intro exI [of _ "s_max_order w"]) auto
qed

lemma pool_core_calls:
  "pool_core ga p L \<Longrightarrow> p_calls p \<le> c \<Longrightarrow> pool_core ga (p\<lparr>p_calls := c\<rparr>) L"
  unfolding pool_core_def seg_entry_ok_def by (auto split: prod.splits) (meson less_le_trans)

lemma inj_on_extend:
  "inj_on f A \<Longrightarrow> x \<notin> A \<Longrightarrow> y \<notin> f ` A \<Longrightarrow> inj_on (f(x := y)) (insert x A)"
  by (auto simp: inj_on_def)

lemma pool_core_add_segment:
  assumes core: "pool_core ga p L" and dis: "regions_disjoint ga"
    and al: "ga (p_calls p) (2 ^ mx) = Some ptr"
    and mx: "o_min_order (p_options p) \<le> mx" "mx < 64"
  shows "pool_core ga (add_segment ptr (2 ^ mx) (o_min_order (p_options p)) mx
    (p\<lparr>p_calls := Suc (p_calls p)\<rparr>)) L" (is "pool_core ga ?q L")
    and "ptr \<notin> fst ` set (p_segments p)"
proof -
  define q where "q = ?q"
  let ?mn = "o_min_order (p_options p)" and ?S = "p_segments p" and ?i = "p_calls p"
  let ?seg = "\<lparr>s_ptr = ptr, s_cap = 2 ^ mx, s_used = 0, s_min_order = ?mn, s_max_order = mx\<rparr>"
  let ?fl = "(replicate (mx - ?mn + 1) [])[mx - ?mn := [new_block ptr (2 ^ mx) mx]]"
  obtain idx where idx: "inj_on idx (fst ` set ?S)"
      "\<forall>(k, seg) \<in> set ?S. idx k < ?i \<and> ga (idx k) (s_cap seg) = Some k"
    using core unfolding pool_core_def by blast
  show new: "ptr \<notin> fst ` set ?S"
  proof
    assume "ptr \<in> fst ` set ?S"
    then obtain seg where mem: "(ptr, seg) \<in> set ?S" by force
    with idx(2) have "idx ptr \<noteq> ?i" "ga (idx ptr) (s_cap seg) = Some ptr" by auto
    with dis al have "ptr + s_cap seg \<le> ptr \<or> ptr + 2 ^ mx \<le> ptr"
      unfolding regions_disjoint_def by blast
    moreover have "s_cap seg = 2 ^ s_max_order seg"
      using pool_core_segment(3) [OF core mem] by (simp add: seg_ok_def seg_core_def)
    ultimately show False by simp
  qed
  have keys: "map fst (p_blocks p) = map fst ?S" using core by (simp add: pool_core_def)
  then have new': "ptr \<notin> fst ` set (p_blocks p)" using new by (metis image_set)
  have segs: "p_segments q = omap_insert ptr ?seg ?S" "p_blocks q = omap_insert ptr ?fl (p_blocks p)"
      "p_options q = p_options p" "p_calls q = Suc ?i"
    by (simp_all add: q_def add_segment_def Let_def)
  have set': "set (p_segments q) = insert (ptr, ?seg) (set ?S)"
    unfolding segs using new by (rule set_omap_insert)
  have none: "filter (\<lambda>b. b_segment b = ptr) L = []"
    using core new unfolding pool_core_def filter_empty_conv by blast
  have entry: "seg_entry_ok q L k seg" if "(k, seg) \<in> set (p_segments q)" for k seg
  proof (cases "k = ptr")
    case True
    with that set' new have "seg = ?seg" by force
    with True none fresh_segment_ok [OF mx] show ?thesis
      by (simp add: seg_entry_ok_def segs map_of_omap_insert [OF new'] del: replicate_Suc)
  next
    case False
    with that set' have "(k, seg) \<in> set ?S" by simp
    with core have "seg_entry_ok p L k seg" by (auto simp: pool_core_def)
    with False show ?thesis by (simp add: seg_entry_ok_def segs map_of_omap_insert [OF new'])
  qed
  have "inj_on (idx(ptr := ?i)) (fst ` set (p_segments q)) \<and>
      (\<forall>(k, seg) \<in> set (p_segments q).
        (idx(ptr := ?i)) k < p_calls q \<and> ga ((idx(ptr := ?i)) k) (s_cap seg) = Some k)"
  proof
    have "?i \<notin> idx ` (fst ` set ?S)" using idx(2) by auto
    then show "inj_on (idx(ptr := ?i)) (fst ` set (p_segments q))"
      unfolding set' image_insert fst_conv by (intro inj_on_extend idx(1) new)
    show "\<forall>(k, seg) \<in> set (p_segments q).
        (idx(ptr := ?i)) k < p_calls q \<and> ga ((idx(ptr := ?i)) k) (s_cap seg) = Some k"
    proof safe
      fix k seg assume "(k, seg) \<in> set (p_segments q)"
      then consider "k = ptr" "seg = ?seg" | "(k, seg) \<in> set ?S" unfolding set' by blast
      then have "(idx(ptr := ?i)) k < Suc ?i \<and> ga ((idx(ptr := ?i)) k) (s_cap seg) = Some k"
      proof cases
        case 2
        with new have "k \<noteq> ptr" by force
        with idx(2) 2 show ?thesis by auto
      qed (simp add: al)
      then show "(idx(ptr := ?i)) k < p_calls q" "ga ((idx(ptr := ?i)) k) (s_cap seg) = Some k"
        by (simp_all add: segs(4))
    qed
  qed
  then have "\<exists>idx. inj_on idx (fst ` set (p_segments q)) \<and>
      (\<forall>(k, seg) \<in> set (p_segments q). idx k < p_calls q \<and> ga (idx k) (s_cap seg) = Some k)"
    by (intro exI [of _ "idx(ptr := ?i)"])
  note idx' = this
  have "pool_core ga q L"
  proof (rule pool_coreI [OF _ _ _ _ _ entry _ idx'])
    show "p_segments q \<noteq> []" using set' by auto
    show "o_min_order (p_options q) \<le> 29" using core unfolding segs(3) pool_core_def by blast
    show "distinct (map fst (p_segments q))" "sorted (map fst (p_segments q))"
      using core new unfolding segs pool_core_def
      by (blast intro: distinct_omap_insert sorted_omap_insert)+
    show "map fst (p_blocks q) = map fst (p_segments q)"
      unfolding segs by (rule map_fst_omap_insert [OF keys])
    show "b_segment ` set L \<subseteq> fst ` set (p_segments q)"
      using core unfolding set' pool_core_def by blast
  qed
  then show "pool_core ga ?q L" by (simp only: q_def)
qed

lemma min_pow2: "min (2 ^ a) (2 ^ b) = (2::nat) ^ min a b"
  by (cases "a \<le> b") (simp_all add: min_def)

lemma expand_core:
  assumes core: "pool_core ga p L" and dis: "regions_disjoint ga"
    and res: "expandBuddySegment ga p = (True, p')"
  shows "pool_core ga p' L"
proof -
  obtain m where m: "previous_cap p = 2 ^ m" "o_min_order (p_options p) \<le> m"
    using previous_cap_pow2 [OF core] by blast
  let ?mx = "min (Suc m) 29"
  have cap: "min (previous_cap p * 2) (2 ^ 29) = (2::nat) ^ ?mx"
    unfolding m(1) power_Suc2 [symmetric] by (rule min_pow2)
  have mx: "o_min_order (p_options p) \<le> ?mx" "?mx < 64"
    using m(2) core by (auto simp: pool_core_def)
  obtain ptr where al: "ga (p_calls p) (2 ^ ?mx) = Some ptr"
    and p': "p' = add_segment ptr (2 ^ ?mx) (o_min_order (p_options p)) ?mx
        (p\<lparr>p_calls := Suc (p_calls p)\<rparr>)"
    using res unfolding expandBuddySegment_def Let_def cap log2_ceil_pow2
    by (simp split: option.splits)
  show ?thesis unfolding p' by (rule pool_core_add_segment(1) [OF core dis al mx])
qed

lemma expand_keeps:
  "expandBuddySegment ga p = (ok, p') \<Longrightarrow>
     p_st p' = p_st p \<and> p_obj_cache p' = p_obj_cache p \<and> p_options p' = p_options p \<and>
     p_hits p' = p_hits p \<and> p_cached p' = p_cached p"
  by (auto simp: expandBuddySegment_def add_segment_def Let_def split: option.splits)

lemma allocBuddy_core:
  assumes "pool_core ga p L" "regions_disjoint ga" "allocBuddy ga fuel n p = Some (Inr (b, p'))"
  shows "pool_core ga p' (b # L) \<and> n \<le> b_size b \<and> b_allocated b \<and>
    p_st p' = p_st p \<and> p_obj_cache p' = p_obj_cache p \<and> p_options p' = p_options p"
  using assms
proof (induction fuel arbitrary: p)
  case (Suc fuel)
  show ?case
  proof (cases "alloc_segs n (p_segments p) (p_blocks p)")
    case (Inr r)
    show ?thesis
    proof (cases r)
      case None
      obtain ok q where e: "expandBuddySegment ga p = (ok, q)" by force
      with Suc.prems(3) Inr None have ok: "ok" "allocBuddy ga fuel n q = Some (Inr (b, p'))"
        by (auto split: if_splits)
      from Suc.IH [OF expand_core [OF Suc.prems(1,2)] Suc.prems(2) ok(2)] e ok(1) expand_keeps [OF e]
      show ?thesis by simp
    next
      case (Some t)
      then obtain k seg fl where hit: "alloc_segs n (p_segments p) (p_blocks p) =
          Inr (Some (k, b, seg, fl))"
        and p': "p' = p\<lparr>p_segments := set_key k seg (p_segments p),
          p_blocks := set_key k fl (p_blocks p)\<rparr>"
        using Suc.prems(3) Inr by (cases t) auto
      from pool_core_hit [OF Suc.prems(1) hit] show ?thesis by (simp add: p')
    qed
  qed (use Suc.prems(3) in simp)
qed simp

lemma alloc_segs_never_fails:
  "pool_core ga p L \<Longrightarrow> alloc_segs n (p_segments p) (p_blocks p) \<noteq> Inl e"
  by (meson alloc_seg_no_error alloc_segs_error pool_core_segment(3))

subsection \<open>Release\<close>

lemma freeBuddy_core:
  assumes core: "pool_core ga p L" and mem: "mset L = add_mset b (mset L')"
  shows "\<exists>p'. freeBuddy b p = Inr p' \<and> pool_core ga p' L' \<and> p_st p' = p_st p \<and>
    p_obj_cache p' = p_obj_cache p \<and> p_options p' = p_options p"
proof -
  let ?k = "b_segment b"
  have core': "pool_core ga p (b # L')" using pool_core_mset [OF core] mem by simp
  then obtain seg where seg_in: "(?k, seg) \<in> set (p_segments p)"
    unfolding pool_core_def by fastforce
  note seg = pool_core_segment [OF core' seg_in]
  let ?L = "filter (\<lambda>c. b_segment c = ?k)"
  have "mset (?L (b # L')) = add_mset b (mset (?L L'))" by simp
  from release_seg_ok [OF seg(3) this] obtain fl' where
    j: "join (s_ptr seg) (s_min_order seg) (b\<lparr>b_allocated := False\<rparr>) (lists_of (p_blocks p) ?k) = Some fl'"
      "seg_ok (seg\<lparr>s_used := size_sub (s_used seg) (b_size b)\<rparr>) fl' (?L L')" by blast
  let ?p = "p\<lparr>p_segments := set_key ?k (seg\<lparr>s_used := size_sub (s_used seg) (b_size b)\<rparr>) (p_segments p),
              p_blocks := set_key ?k fl' (p_blocks p)\<rparr>"
  have "freeBuddy b p = Inr ?p"
    using j(1) seg(4) by (simp add: freeBuddy_def Let_def del: map_of_eq_Some_iff)
  moreover have "pool_core ga ?p L'"
    by (rule pool_core_set_key [OF core' seg_in j(2)]) auto
  ultimately show ?thesis by simp
qed

end
