(* ===== verification/Buddy.thy ===== *)
theory Buddy
  imports Buddy_Pool
begin

text \<open>
  The guarantees of the buddy memory pool: what \<^verbatim>\<open>alloc\<close>, \<^verbatim>\<open>free\<close> and \<^verbatim>\<open>updateCacheSizeList\<close> do to
  the blocks in use, the invariant of every pool a program can reach, the end of the recursion of
  \<^verbatim>\<open>allocBuddy\<close>, and the behaviours the invariant does not cover.
\<close>

subsection \<open>Blocks in use never overlap\<close>

definition apart :: "block \<Rightarrow> block \<Rightarrow> bool" where
  "apart b c \<longleftrightarrow> b_ptr b + b_size b \<le> b_ptr c \<or> b_ptr c + b_size c \<le> b_ptr b"

lemma seg_core_apart:
  assumes "seg_core seg fl (b # c # xs)"
  shows "apart b c"
proof -
  let ?sp = "s_ptr seg"
  have swap: "seg_core seg fl (c # b # xs)"
    using assms seg_core_mset [of seg fl "b # c # xs" "c # b # xs"] by (simp add: add_mset_commute)
  note b = seg_core_bounds [OF assms] and c = seg_core_bounds [OF swap]
  have "tiles (s_min_order seg) 0 (s_max_order seg)
      (add_mset (bkey ?sp b) (add_mset (bkey ?sp c) (image_mset (bkey ?sp) (mset (concat fl) + mset xs))))"
    using seg_core_parts(6) [OF assms] by simp
  then have "tiles (s_min_order seg) 0 (s_max_order seg)
      (add_mset (b_ptr b - ?sp, b_order b) (add_mset (b_ptr c - ?sp, b_order c)
        (image_mset (bkey ?sp) (mset (concat fl) + mset xs))))"
    by (simp only: bkey_def)
  from tiles_disjoint [OF this] b(4,5) c(4,5) show ?thesis
    unfolding apart_def by linarith
qed

lemma pool_core_apart:
  assumes core: "pool_core ga p L" and dis: "regions_disjoint ga"
    and mem: "mset L = add_mset b (add_mset c R)"
  shows "apart b c"
proof -
  obtain rs where rs: "mset rs = R" using ex_mset by blast
  have core': "pool_core ga p (b # c # rs)"
    by (rule pool_core_mset [OF core]) (simp add: mem rs)
  then have keys: "b_segment b \<in> fst ` set (p_segments p)" "b_segment c \<in> fst ` set (p_segments p)"
    unfolding pool_core_def by auto
  then obtain sb sc where sb: "(b_segment b, sb) \<in> set (p_segments p)"
    and sc: "(b_segment c, sc) \<in> set (p_segments p)" by force
  note b = pool_core_segment [OF core' sb] and c = pool_core_segment [OF core' sc]
  show ?thesis
  proof (cases "b_segment b = b_segment c")
    case True
    with b(3) show ?thesis by (auto simp: seg_ok_def intro: seg_core_apart)
  next
    case False
    obtain idx where idx: "inj_on idx (fst ` set (p_segments p))"
      "\<forall>(k, seg) \<in> set (p_segments p). idx k < p_calls p \<and> ga (idx k) (s_cap seg) = Some k"
      using core unfolding pool_core_def by blast
    then have "idx (b_segment b) \<noteq> idx (b_segment c)"
      using False keys by (simp only: inj_on_eq_iff) simp
    moreover have "ga (idx (b_segment b)) (s_cap sb) = Some (b_segment b)"
      "ga (idx (b_segment c)) (s_cap sc) = Some (b_segment c)"
      using idx(2) sb sc by auto
    ultimately have apart_segs: "b_segment b + s_cap sb \<le> b_segment c \<or> b_segment c + s_cap sc \<le> b_segment b"
      using dis unfolding regions_disjoint_def by blast
    have "seg_core sb (lists_of (p_blocks p) (b_segment b)) (b # filter (\<lambda>d. b_segment d = b_segment b) rs)"
      "seg_core sc (lists_of (p_blocks p) (b_segment c)) (c # filter (\<lambda>d. b_segment d = b_segment c) rs)"
      using b(3) c(3) False by (simp_all add: seg_ok_def)
    from this [THEN seg_core_bounds(3)] this [THEN seg_core_bounds(4)] this [THEN seg_core_bounds(5)]
    show ?thesis using apart_segs b(1) c(1) unfolding apart_def by (simp, linarith)
  qed
qed

subsection \<open>How the entry points move blocks between the tables\<close>

lemma mset_remove_key:
  "distinct (map fst t) \<Longrightarrow> map_of t k = Some v \<Longrightarrow>
     mset (map snd t) = add_mset v (mset (map snd (st_remove t k)))"
proof (induction t)
  case (Cons e t)
  show ?case
  proof (cases "fst e = k")
    case True
    with Cons.prems have "filter (\<lambda>e. fst e \<noteq> k) t = t" "snd e = v"
      by (auto simp: filter_id_conv image_iff)
    with True show ?thesis by (simp add: st_remove_def)
  next
    case False
    with Cons show ?thesis by (simp add: st_remove_def)
  qed
qed simp

lemma mset_concat_mset: "mset (concat xss) = sum_mset (image_mset mset (mset xss))"
  by (metis mset_concat mset_map sum_mset_sum_list)

lemma mset_concat_key:
  assumes "distinct (map fst t)" "map_of t k = Some v"
  shows "mset (concat (map snd t)) = mset v + mset (concat (map snd (st_remove t k)))"
  unfolding mset_concat_mset mset_remove_key [OF assms] by simp

lemma st_remove_set_key:
  "distinct (map fst t) \<Longrightarrow> st_remove (set_key k v t) k = st_remove t k"
  by (induction t) (auto simp: st_remove_def)

lemma mset_concat_set_key:
  assumes "distinct (map fst t)" "map_of t k = Some v"
  shows "mset (concat (map snd (set_key k w t))) + mset v = mset w + mset (concat (map snd t))"
proof -
  have "distinct (map fst (set_key k w t))" using assms(1) by simp
  moreover have "map_of (set_key k w t) k = Some w"
  proof -
    have "k \<in> fst ` set t" using map_of_SomeD [OF assms(2)] by (rule rev_image_eqI) simp
    then show ?thesis by (simp add: map_of_set_key)
  qed
  ultimately have "mset (concat (map snd (set_key k w t))) = mset w + mset (concat (map snd (st_remove t k)))"
    using mset_concat_key st_remove_set_key [OF assms(1)] by metis
  then show ?thesis using mset_concat_key [OF assms] by (simp add: ac_simps del: mset_concat)
qed

lemma cache_ok_set_key:
  "cache_ok p \<Longrightarrow> \<forall>b \<in> set bs. b_size b = k \<Longrightarrow>
     cache_ok (p\<lparr>p_obj_cache := set_key k bs (p_obj_cache p)\<rparr>)"
  unfolding cache_ok_def by (auto dest!: set_set_key_cases)

text \<open>A hit in the object cache moves no block out of the set of the blocks in use but the one it returns.\<close>

lemma allocObjCache_hit:
  assumes ok: "pool_ok ga p" and hit: "allocObjCache n p = (Some b, p')"
  shows "pool_core ga p' (b # live p')" "b_size b = n" "cache_ok p'"
    "p_st p' = p_st p" "p_options p' = p_options p"
proof -
  obtain bs where m: "map_of (p_obj_cache p) n = Some (b # bs)"
    and p': "p' = p\<lparr>p_obj_cache := set_key n bs (p_obj_cache p), p_hits := Suc (p_hits p)\<rparr>"
    using hit by (auto simp: allocObjCache_def split: option.splits list.splits)
  have cache: "cache_ok p" and dst: "distinct (map fst (p_obj_cache p))"
    using ok by (auto simp: pool_ok_def cache_ok_def)
  have sizes: "\<forall>c \<in> set (b # bs). b_size c = n"
    using cache map_of_SomeD [OF m] unfolding cache_ok_def by blast
  have "mset (live p) = mset (b # live p')"
    using mset_concat_set_key [OF dst m, of bs] unfolding live_def p'
    by (simp add: ac_simps del: mset_concat)
  with ok have "pool_core ga p (b # live p')" by (meson pool_core_mset pool_ok_def)
  moreover have "pool_core ga p' L = pool_core ga p L" for L
    unfolding p' pool_core_def seg_entry_ok_def by simp
  ultimately show "pool_core ga p' (b # live p')" by simp
  show "b_size b = n" using sizes by simp
  have "cache_ok (p\<lparr>p_obj_cache := set_key n bs (p_obj_cache p)\<rparr>)"
    using cache_ok_set_key [OF cache] sizes by simp
  then show "cache_ok p'" by (simp add: p' cache_ok_def)
qed (use hit in \<open>auto simp: allocObjCache_def split: option.splits list.splits\<close>)

lemma allocObjCache_miss: "allocObjCache n p = (None, p') \<Longrightarrow> p' = p"
  by (auto simp: allocObjCache_def split: option.splits list.splits)

lemma pool_core_same:
  "p_segments q = p_segments p \<Longrightarrow> p_blocks q = p_blocks p \<Longrightarrow> p_options q = p_options p \<Longrightarrow>
     p_calls q = p_calls p \<Longrightarrow> pool_core ga q L \<longleftrightarrow> pool_core ga p L"
  unfolding pool_core_def seg_entry_ok_def by simp

lemma cache_ok_same: "p_obj_cache q = p_obj_cache p \<Longrightarrow> cache_ok q \<longleftrightarrow> cache_ok p"
  by (simp add: cache_ok_def)

lemma live_same: "p_obj_cache q = p_obj_cache p \<Longrightarrow> p_st q = p_st p \<Longrightarrow> live q = live p"
  by (simp add: live_def)

text \<open>The block a storage gets, from the cache or from the buddy lists, and the pool before it is registered.\<close>

lemma reg_block_Inr:
  "reg_block s (b, q) = Inr (s', p') \<longleftrightarrow> map_of (p_st q) (sto_uuid s) = None \<and>
     p' = q\<lparr>p_st := (sto_uuid s, b) # p_st q\<rparr> \<and> s' = s\<lparr>sto_ptr := Some (b_ptr b)\<rparr>"
  by (auto simp: reg_block_def st_reg_def st_has_def)

lemma pool_alloc_cases:
  assumes "pool_alloc asz ga fuel s p = Some (Inr (s', p'))"
  obtains b q where "allocObjCache (asz s) p = (Some b, q)" "reg_block s (b, q) = Inr (s', p')"
  | b q where "allocBuddy ga fuel (asz s) p = Some (Inr (b, q))" "reg_block s (b, q) = Inr (s', p')"
proof -
  obtain hit q where hit: "(if o_cache_enabled (p_options p) \<and> isInObjCache (asz s) p
      then allocObjCache (asz s) p else (None, p)) = (hit, q)" by force
  show thesis
  proof (cases hit)
    case None
    then have q: "q = p" using hit by (auto dest: allocObjCache_miss split: if_splits)
    from assms have "map_option (\<lambda>r. obind r (reg_block s)) (allocBuddy ga fuel (asz s) p) = Some (Inr (s', p'))"
      unfolding pool_alloc_def Let_def hit None q by simp
    then obtain bq where "allocBuddy ga fuel (asz s) p = Some (Inr bq)" "reg_block s bq = Inr (s', p')"
      by (auto simp: obind_Inr_iff)
    then show thesis using that(2) by (cases bq) simp
  next
    case (Some b)
    then have "allocObjCache (asz s) p = (Some b, q)" using hit by (auto split: if_splits)
    moreover have "reg_block s (b, q) = Inr (s', p')"
      using assms unfolding pool_alloc_def Let_def hit Some by simp
    ultimately show thesis by (rule that(1))
  qed
qed

lemma pool_alloc_block:
  assumes ok: "pool_ok ga p" and dis: "regions_disjoint ga"
    and res: "pool_alloc asz ga fuel s p = Some (Inr (s', p'))"
  shows "\<exists>b q. pool_core ga q (b # live q) \<and> asz s \<le> b_size b \<and> cache_ok q \<and> p_st q = p_st p \<and>
    p_options q = p_options p \<and> map_of (p_st p) (sto_uuid s) = None \<and>
    p' = q\<lparr>p_st := (sto_uuid s, b) # p_st p\<rparr> \<and> s' = s\<lparr>sto_ptr := Some (b_ptr b)\<rparr>"
  using res
proof (cases rule: pool_alloc_cases)
  case (1 b q)
  note h = allocObjCache_hit [OF ok 1(1)]
  show ?thesis by (intro exI [of _ b] exI [of _ q]) (use h 1(2) in \<open>simp add: reg_block_Inr\<close>)
next
  case (2 b q)
  have core: "pool_core ga p (live p)" "cache_ok p" using ok by (simp_all add: pool_ok_def)
  note a = allocBuddy_core [OF core(1) dis 2(1)]
  have same: "p_obj_cache q = p_obj_cache p" "p_st q = p_st p" using a by blast+
  have "live q = live p" using same by (rule live_same)
  moreover have "cache_ok q" using cache_ok_same [OF same(1)] core(2) by blast
  ultimately have "pool_core ga q (b # live q)" "cache_ok q" using a by simp_all
  then show ?thesis by (intro exI [of _ b] exI [of _ q]) (use a 2(2) in \<open>simp add: reg_block_Inr\<close>)
qed

lemma live_register: "mset (live (q\<lparr>p_st := (k, b) # p_st q\<rparr>)) = mset (b # live q)"
  by (simp add: live_def)

lemma pool_alloc_preserves:
  assumes "pool_ok ga p" "regions_disjoint ga" "pool_alloc asz ga fuel s p = Some (Inr (s', p'))"
  shows "pool_ok ga p'"
proof -
  obtain b q where a: "pool_core ga q (b # live q)" "cache_ok q" "p_st q = p_st p"
    "map_of (p_st p) (sto_uuid s) = None" "p' = q\<lparr>p_st := (sto_uuid s, b) # p_st p\<rparr>"
    using pool_alloc_block [OF assms] by blast
  have "pool_core ga q (live p')"
    using pool_core_mset [OF a(1)] live_register [where q = q and k = "sto_uuid s" and b = b] a(3,5) by simp
  then have "pool_core ga p' (live p')" using pool_core_same [of p' q] a(5) by simp
  moreover have "st_ok (p_st p')"
    using assms(1) a(4,5) by (simp add: pool_ok_def st_ok_def map_of_eq_None_iff)
  ultimately show ?thesis using a(2,5) cache_ok_same [of p' q] by (simp add: pool_ok_def)
qed

subsection \<open>Release and eviction\<close>

lemma freeObjCache_ok:
  assumes core: "pool_core ga p (b # live p)" and cache: "cache_ok p"
  shows "pool_core ga (freeObjCache b p) (live (freeObjCache b p))" "cache_ok (freeObjCache b p)"
    "p_st (freeObjCache b p) = p_st p" "p_options (freeObjCache b p) = p_options p"
proof -
  let ?m = "p_obj_cache p" and ?k = "b_size b" and ?q = "freeObjCache b p"
  have dst: "distinct (map fst ?m)" using cache by (simp add: cache_ok_def)
  have "mset (live ?q) = mset (b # live p) \<and> cache_ok ?q"
  proof (cases "map_of ?m ?k")
    case None
    then have "p_obj_cache ?q = (?k, [b]) # ?m" "p_st ?q = p_st p"
      by (simp_all add: freeObjCache_def Let_def)
    with cache None show ?thesis
      by (simp add: live_def cache_ok_def map_of_eq_None_iff)
  next
    case (Some bs)
    then have q: "p_obj_cache ?q = set_key ?k (bs @ [b]) ?m" "p_st ?q = p_st p"
      by (simp_all add: freeObjCache_def Let_def)
    have "\<forall>c \<in> set (bs @ [b]). b_size c = ?k"
      using cache map_of_SomeD [OF Some] unfolding cache_ok_def by auto
    from cache_ok_set_key [OF cache this] have "cache_ok ?q"
      by (simp add: cache_ok_def q(1))
    with mset_concat_set_key [OF dst Some, of "bs @ [b]"] show ?thesis
      by (simp add: live_def q del: mset_concat)
  qed
  moreover have "pool_core ga ?q L = pool_core ga p L" for L
    by (rule pool_core_same) (simp_all add: freeObjCache_def Let_def)
  ultimately show "pool_core ga ?q (live ?q)" "cache_ok ?q"
    using pool_core_mset [OF core] by auto
qed (simp_all add: freeObjCache_def Let_def)

lemma live_unregister:
  assumes "st_ok (p_st p)" "map_of (p_st p) k = Some b"
  shows "mset (live p) = mset (b # live (p\<lparr>p_st := st_remove (p_st p) k\<rparr>))"
  using mset_remove_key [of "p_st p" k b] assms by (simp add: live_def st_ok_def)

lemma pool_free_registered:
  assumes ok: "pool_ok ga p" and ptr: "sto_ptr s \<noteq> None"
    and own: "map_of (p_st p) (sto_uuid s) = Some b"
  shows "\<exists>p'. pool_free asz s p = Inr p' \<and> pool_ok ga p' \<and>
    p_st p' = st_remove (p_st p) (sto_uuid s) \<and> p_options p' = p_options p"
proof -
  let ?t = "st_remove (p_st p) (sto_uuid s)"
  define q where "q = p\<lparr>p_st := ?t\<rparr>"
  have st: "st_ok (p_st p)" and cache: "cache_ok p" and core: "pool_core ga p (live p)"
    using ok by (simp_all add: pool_ok_def)
  have m: "mset (live p) = mset (b # live q)" unfolding q_def by (rule live_unregister [OF st own])
  have st': "st_ok ?t" using st by (simp add: st_ok_def st_remove_def distinct_fst_filter)
  have fin: "\<exists>p'. pool_free asz s p = Inr p' \<and> pool_ok ga p' \<and> p_st p' = ?t \<and> p_options p' = p_options p"
    if r: "(if o_cache_enabled (p_options p) \<and> isInObjCache (asz s) p
        then Inr (freeObjCache b p) else freeBuddy b p) = Inr r"
      and r': "pool_core ga r (live (r\<lparr>p_st := ?t\<rparr>))" "cache_ok r" "p_st r = p_st p"
        "p_options r = p_options p" for r
  proof -
    obtain a where "sto_ptr s = Some a" using ptr by blast
    then have "pool_free asz s p = Inr (r\<lparr>p_st := ?t\<rparr>)"
      using own r r'(3) by (simp add: pool_free_def st_get_def Let_def del: map_of_eq_Some_iff)
    moreover have "pool_core ga (r\<lparr>p_st := ?t\<rparr>) L = pool_core ga r L" for L
      by (rule pool_core_same) simp_all
    moreover have "cache_ok (r\<lparr>p_st := ?t\<rparr>)" using r'(2) by (simp add: cache_ok_def)
    ultimately show ?thesis using st' r' by (simp add: pool_ok_def)
  qed
  show ?thesis
  proof (cases "o_cache_enabled (p_options p) \<and> isInObjCache (asz s) p")
    case True
    have q_core: "pool_core ga q (b # live q)" "cache_ok q"
      using pool_core_mset [OF core m] pool_core_same [of q p] cache cache_ok_same [of q p]
      by (simp_all add: q_def)
    have same: "freeObjCache b q = (freeObjCache b p)\<lparr>p_st := ?t\<rparr>"
      by (simp add: freeObjCache_def q_def Let_def)
    have "pool_core ga (freeObjCache b p) (live ((freeObjCache b p)\<lparr>p_st := ?t\<rparr>))"
      using freeObjCache_ok(1) [OF q_core] pool_core_same [of "freeObjCache b p" "freeObjCache b q"]
      unfolding same by simp
    moreover have "cache_ok (freeObjCache b p)"
      using freeObjCache_ok(2) [OF q_core] cache_ok_same [of "freeObjCache b p" "freeObjCache b q"]
      unfolding same by simp
    moreover have "p_st (freeObjCache b p) = p_st p" "p_options (freeObjCache b p) = p_options p"
      by (simp_all add: freeObjCache_def Let_def)
    ultimately show ?thesis
      using True by (intro fin [of "freeObjCache b p"]) simp_all
  next
    case False
    from freeBuddy_core [OF core, of b "live q"] m obtain r where
      r: "freeBuddy b p = Inr r" "pool_core ga r (live q)" "p_st r = p_st p"
        "p_obj_cache r = p_obj_cache p" "p_options r = p_options p" by auto
    have "live (r\<lparr>p_st := ?t\<rparr>) = live q" by (rule live_same) (simp_all add: q_def r)
    moreover have "(if o_cache_enabled (p_options p) \<and> isInObjCache (asz s) p
        then Inr (freeObjCache b p) else freeBuddy b p) = Inr r"
      unfolding if_not_P [OF False] by (fact r(1))
    ultimately show ?thesis
      using r cache cache_ok_same [OF r(4)] by (intro fin [of r]) simp_all
  qed
qed

lemma free_list_core:
  assumes "pool_core ga p L" "mset L = mset (bs @ R)"
  shows "\<exists>p'. free_list bs p = Inr p' \<and> pool_core ga p' R \<and> p_st p' = p_st p \<and>
    p_obj_cache p' = p_obj_cache p \<and> p_options p' = p_options p"
  using assms
proof (induction bs arbitrary: p L)
  case Nil
  then show ?case using pool_core_mset [of ga p L R] by simp
next
  case (Cons b bs)
  from freeBuddy_core [OF Cons.prems(1), of b "bs @ R"] Cons.prems(2) obtain q where
    q: "freeBuddy b p = Inr q" "pool_core ga q (bs @ R)" "p_st q = p_st p"
      "p_obj_cache q = p_obj_cache p" "p_options q = p_options p" by auto
  from Cons.IH [OF q(2)] q show ?case by auto
qed

lemma mset_live_key:
  assumes "cache_ok p"
  shows "mset (live p) = mset (lists_of (p_obj_cache p) n @
    live (p\<lparr>p_obj_cache := st_remove (p_obj_cache p) n\<rparr>))"
proof (cases "map_of (p_obj_cache p) n")
  case None
  then have "st_remove (p_obj_cache p) n = p_obj_cache p"
    by (auto simp: st_remove_def filter_id_conv map_of_eq_None_iff image_iff)
  with None show ?thesis by (simp add: lists_of_def)
next
  case (Some bs)
  with assms mset_concat_key [of "p_obj_cache p" n bs] show ?thesis
    by (simp add: cache_ok_def live_def ac_simps del: mset_concat map_of_eq_Some_iff)
qed

lemma evict_ok:
  "pool_ok ga p \<Longrightarrow> \<exists>p'. evict ns p = Inr p' \<and> pool_ok ga p' \<and> p_st p' = p_st p \<and>
     p_options p' = p_options p \<and>
     (\<forall>k. map_of (p_obj_cache p') k =
        (if k \<in> set ns \<and> \<not> isInObjCache k p then None else map_of (p_obj_cache p) k))"
proof (induction ns arbitrary: p)
  case (Cons n ns)
  show ?case
  proof (cases "isInObjCache n p")
    case True
    from Cons.IH [OF Cons.prems] True show ?thesis by (auto simp: isInObjCache_def)
  next
    case False
    let ?t = "st_remove (p_obj_cache p) n"
    have core: "pool_core ga p (live p)" "cache_ok p" "st_ok (p_st p)"
      using Cons.prems by (simp_all add: pool_ok_def)
    from free_list_core [OF core(1) mset_live_key [OF core(2)]] obtain q where
      q: "free_list (lists_of (p_obj_cache p) n) p = Inr q"
        "pool_core ga q (live (p\<lparr>p_obj_cache := ?t\<rparr>))" "p_st q = p_st p"
        "p_obj_cache q = p_obj_cache p" "p_options q = p_options p" by blast
    define q' where "q' = q\<lparr>p_obj_cache := ?t\<rparr>"
    have "live q' = live (p\<lparr>p_obj_cache := ?t\<rparr>)"
      by (rule live_same) (simp_all add: q'_def q(3))
    moreover have "pool_core ga q' L = pool_core ga q L" for L
      by (rule pool_core_same) (simp_all add: q'_def)
    moreover have "cache_ok q'"
      using core(2) by (auto simp: cache_ok_def q'_def st_remove_def distinct_fst_filter)
    ultimately have "pool_ok ga q'"
      using q(2,3) core(3) by (simp add: pool_ok_def) (simp add: q'_def q(3))
    from Cons.IH [OF this] obtain r where
      r: "evict ns q' = Inr r" "pool_ok ga r" "p_st r = p_st q'" "p_options r = p_options q'"
        "\<forall>k. map_of (p_obj_cache r) k =
          (if k \<in> set ns \<and> \<not> isInObjCache k q' then None else map_of (p_obj_cache q') k)" by blast
    have "evict (n # ns) p = Inr r"
      using False q(1,4) r(1) by (simp add: lists_of_def q'_def)
    moreover have "p_st r = p_st p" "p_options r = p_options p"
      using r(3,4) q(3,5) by (simp_all add: q'_def)
    moreover have "isInObjCache k q' = isInObjCache k p" for k
      by (simp add: isInObjCache_def q'_def q(5))
    then have "map_of (p_obj_cache r) k =
        (if k \<in> set (n # ns) \<and> \<not> isInObjCache k p then None else map_of (p_obj_cache p) k)" for k
      using r(5) False by (simp add: q'_def st_remove_def map_of_filter_neq)
    ultimately show ?thesis using r(2) by blast
  qed
qed simp

subsection \<open>Every pool a program can reach\<close>

text \<open>
  A pool is created once and then used through its three operations. A step is one that returns;
  what does not return is the subject of the error and termination properties below.
\<close>

inductive reachable ::
  "(storage \<Rightarrow> nat) \<Rightarrow> general_alloc \<Rightarrow> pool_options \<Rightarrow> pool \<Rightarrow> bool" for asz ga opts where
  start: "new_pool ga opts = Inr p \<Longrightarrow> reachable asz ga opts p"
| step_alloc: "reachable asz ga opts p \<Longrightarrow> pool_alloc asz ga fuel s p = Some (Inr (s', p')) \<Longrightarrow>
    reachable asz ga opts p'"
| step_free: "reachable asz ga opts p \<Longrightarrow> pool_free asz s p = Inr p' \<Longrightarrow> reachable asz ga opts p'"
| step_update: "reachable asz ga opts p \<Longrightarrow> updateCacheSizeList sizes p = Inr p' \<Longrightarrow>
    reachable asz ga opts p'"

inductive_cases reachableE: "reachable asz ga opts p"

text \<open>The options the invariant asks for: a first segment of exactly \<open>2 ^ max_order\<close> bytes.\<close>

definition options_ok :: "pool_options \<Rightarrow> bool" where
  "options_ok opts \<longleftrightarrow> o_first_cap opts = 2 ^ o_max_order opts \<and>
     o_min_order opts \<le> o_max_order opts \<and> o_max_order opts < 64 \<and> o_min_order opts \<le> 29"

lemma new_pool_ok:
  assumes "options_ok opts" "ga 0 (o_first_cap opts) \<noteq> None" "new_pool ga opts = Inr p"
  shows "pool_ok ga p"
proof -
  obtain ptr where ptr: "ga 0 (o_first_cap opts) = Some ptr" using assms(2) by blast
  let ?mn = "o_min_order opts" and ?mx = "o_max_order opts"
  let ?seg = "\<lparr>s_ptr = ptr, s_cap = 2 ^ ?mx, s_used = 0, s_min_order = ?mn, s_max_order = ?mx\<rparr>"
  let ?fl = "(replicate (?mx - ?mn + 1) [])[?mx - ?mn := [new_block ptr (2 ^ ?mx) ?mx]]"
  have p: "p_segments p = [(ptr, ?seg)]" "p_blocks p = [(ptr, ?fl)]" "p_options p = opts"
      "p_st p = []" "p_obj_cache p = []" "p_calls p = 1"
    using assms(1,3) ptr
    by (simp_all add: new_pool_def Let_def add_segment_def options_ok_def
        del: replicate_Suc list_update.simps split: if_splits) auto
  have "seg_entry_ok p [] ptr ?seg"
    using fresh_segment_ok [of ?mn ?mx ptr] assms(1)
    by (simp add: seg_entry_ok_def p options_ok_def del: replicate_Suc)
  then have "pool_core ga p []"
    using assms(1) ptr
    by (intro pool_coreI exI [of _ "\<lambda>_. 0"]) (auto simp: p options_ok_def)
  then show ?thesis by (simp add: pool_ok_def live_def st_ok_def cache_ok_def p)
qed

lemma pool_free_cases:
  "pool_free asz s p = Inr p' \<Longrightarrow>
     sto_ptr s = None \<and> p' = p \<or> sto_ptr s \<noteq> None \<and> map_of (p_st p) (sto_uuid s) \<noteq> None"
  by (auto simp: pool_free_def st_get_def Let_def split: if_splits option.splits)

lemma pool_free_preserves:
  assumes "pool_ok ga p" "pool_free asz s p = Inr p'"
  shows "pool_ok ga p'"
  using pool_free_cases [OF assms(2)]
proof (elim disjE conjE)
  assume "sto_ptr s \<noteq> None" "map_of (p_st p) (sto_uuid s) \<noteq> None"
  then obtain b where "map_of (p_st p) (sto_uuid s) = Some b" by blast
  from pool_free_registered [OF assms(1) _ this, of asz] \<open>sto_ptr s \<noteq> None\<close> assms(2)
  show ?thesis by auto
qed (use assms(1) in simp)

lemma updateCacheSizeList_ok:
  assumes "pool_ok ga p"
  shows "\<exists>p'. updateCacheSizeList sizes p = Inr p' \<and> pool_ok ga p' \<and> p_st p' = p_st p \<and>
    o_cache_sizes (p_options p') = sizes \<and>
    (\<forall>k. map_of (p_obj_cache p') k =
       (if k \<in> set sizes \<and> k \<notin> set (o_cache_sizes (p_options p)) then None
        else map_of (p_obj_cache p) k))"
proof -
  from evict_ok [OF assms, of sizes] obtain q where
    q: "evict sizes p = Inr q" "pool_ok ga q" "p_st q = p_st p" "p_options q = p_options p"
      "\<forall>k. map_of (p_obj_cache q) k =
        (if k \<in> set sizes \<and> \<not> isInObjCache k p then None else map_of (p_obj_cache p) k)" by blast
  define r where "r = q\<lparr>p_options := (p_options q)\<lparr>o_cache_sizes := sizes\<rparr>\<rparr>"
  have "pool_core ga r L = pool_core ga q L" for L
    unfolding r_def pool_core_def seg_entry_ok_def by simp
  moreover have "live r = live q" by (rule live_same) (simp_all add: r_def)
  ultimately have "pool_ok ga r" using q(2) by (simp add: pool_ok_def cache_ok_def) (simp add: r_def)
  moreover have "updateCacheSizeList sizes p = Inr r" by (simp add: updateCacheSizeList_def q(1) r_def)
  ultimately show ?thesis using q by (auto simp: r_def isInObjCache_def)
qed

lemma reachable_ok:
  assumes "reachable asz ga opts p" "options_ok opts" "regions_disjoint ga"
    "ga 0 (o_first_cap opts) \<noteq> None"
  shows "pool_ok ga p"
  using assms(1)
proof induction
  case (start p)
  show ?case by (rule new_pool_ok [of opts ga, OF assms(2,4) start])
next
  case (step_alloc p fuel s s' p')
  then show ?case using pool_alloc_preserves assms(3) by blast
next
  case (step_free p s p')
  then show ?case using pool_free_preserves by blast
next
  case (step_update p sizes p')
  then show ?case using updateCacheSizeList_ok [of ga p sizes] by auto
qed

subsection \<open>The recursion of allocBuddy\<close>

lemma expand_Some:
  assumes core: "pool_core ga p L" and cap: "previous_cap p = 2 ^ m"
    and al: "ga (p_calls p) (2 ^ min (Suc m) 29) \<noteq> None"
  shows "\<exists>ptr. expandBuddySegment ga p = (True, add_segment ptr (2 ^ min (Suc m) 29)
    (o_min_order (p_options p)) (min (Suc m) 29) (p\<lparr>p_calls := Suc (p_calls p)\<rparr>)) \<and>
    ga (p_calls p) (2 ^ min (Suc m) 29) = Some ptr"
proof -
  have "min (previous_cap p * 2) (2 ^ 29) = (2::nat) ^ min (Suc m) 29"
    unfolding cap power_Suc2 [symmetric] by (rule min_pow2)
  then show ?thesis
    using al unfolding expandBuddySegment_def Let_def by (simp only: log2_ceil_pow2) auto
qed

lemma add_segment_member:
  assumes "ptr \<notin> fst ` set (p_segments p)"
  shows "(ptr, \<lparr>s_ptr = ptr, s_cap = cap, s_used = 0, s_min_order = mn, s_max_order = mx\<rparr>)
    \<in> set (p_segments (add_segment ptr cap mn mx p))"
  using set_omap_insert [OF assms] by (simp add: add_segment_def Let_def)

lemma previous_cap_ge:
  "(k, seg) \<in> set (p_segments p) \<Longrightarrow> 2 ^ s_max_order seg \<le> previous_cap p"
  unfolding previous_cap_def by (rule fold_max_orders(2))

text \<open>A segment without blocks in use serves any request up to its capacity.\<close>

lemma idle_segment_serves:
  assumes core: "pool_core ga p L" and mem: "(k, seg) \<in> set (p_segments p)"
    and idle: "filter (\<lambda>b. b_segment b = k) L = []" and n: "n \<le> s_cap seg"
  shows "alloc_segs n (p_segments p) (p_blocks p) \<noteq> Inr None"
proof
  assume miss: "alloc_segs n (p_segments p) (p_blocks p) = Inr None"
  note seg = pool_core_segment [OF core mem]
  let ?fl = "lists_of (p_blocks p) k"
  have ok: "seg_ok seg ?fl []" using seg(3) idle by simp
  then have sc: "seg_core seg ?fl []" by (simp add: seg_ok_def)
  from msed_map_invR [OF seg_ok_all_free(1) [OF ok]] obtain b where
    b: "mset (concat ?fl) = {#b#}" "b_order b = s_max_order seg"
    by (auto simp: bkey_def simp del: mset_concat)
  then have "b \<in># mset (concat ?fl)" by (simp only: union_single_eq_member)
  then have "b \<in> set (concat ?fl)" by (simp only: set_mset_mset)
  from free_shape_member(3) [OF seg_core_parts(4) [OF sc] this] b(2)
  have "?fl ! (s_max_order seg - s_min_order seg) \<noteq> []" by auto
  from alloc_seg_fresh [OF ok n this] alloc_segs_miss [OF miss mem] show False by auto
qed

lemma allocBuddy_hit:
  "alloc_segs n (p_segments p) (p_blocks p) = Inr (Some r) \<Longrightarrow>
     \<exists>q. allocBuddy ga (Suc fuel) n p = Some (Inr q)"
  by (cases r) simp

text \<open>A call either ends with a block or goes on with a pool that has one more, idle segment.\<close>

lemma allocBuddy_progress:
  assumes core: "pool_core ga p L" and dis: "regions_disjoint ga"
    and tot: "\<forall>i c. c \<le> 2 ^ 29 \<longrightarrow> ga i c \<noteq> None" and cap: "2 ^ m \<le> previous_cap p"
  shows "(\<exists>r. allocBuddy ga (Suc fuel) n p = Some (Inr r)) \<or>
    (\<exists>q. allocBuddy ga (Suc fuel) n p = allocBuddy ga fuel n q \<and> pool_core ga q L \<and>
       2 ^ min (Suc m) 29 \<le> previous_cap q \<and>
       (n \<le> 2 ^ min (Suc m) 29 \<longrightarrow> alloc_segs n (p_segments q) (p_blocks q) \<noteq> Inr None))"
proof (cases "alloc_segs n (p_segments p) (p_blocks p)")
  case (Inl e)
  then show ?thesis using alloc_segs_never_fails [OF core] by blast
next
  case (Inr h)
  obtain m0 where m0: "previous_cap p = 2 ^ m0" using previous_cap_pow2 [OF core] by blast
  let ?mn = "o_min_order (p_options p)" and ?mx = "min (Suc m0) 29"
  have "m \<le> m0" using cap m0 by simp
  then have le: "(2::nat) ^ min (Suc m) 29 \<le> 2 ^ ?mx" by (intro power_increasing) auto
  have "ga (p_calls p) (2 ^ ?mx) \<noteq> None" by (intro tot [rule_format] power_increasing) auto
  from expand_Some [OF core m0 this] obtain ptr q where
    e: "expandBuddySegment ga p = (True, q)" "ga (p_calls p) (2 ^ ?mx) = Some ptr"
    and q: "q = add_segment ptr (2 ^ ?mx) ?mn ?mx (p\<lparr>p_calls := Suc (p_calls p)\<rparr>)" by blast
  have core_q: "pool_core ga q L" by (rule expand_core [OF core dis e(1)])
  have mx: "?mn \<le> ?mx" "?mx < 64"
    using previous_cap_pow2 [OF core] m0 core unfolding pool_core_def by auto
  have new: "ptr \<notin> fst ` set (p_segments p)"
    by (rule pool_core_add_segment(2) [OF core dis e(2) mx])
  then have mem: "(ptr, \<lparr>s_ptr = ptr, s_cap = 2 ^ ?mx, s_used = 0, s_min_order = ?mn,
      s_max_order = ?mx\<rparr>) \<in> set (p_segments q)"
    unfolding q by (intro add_segment_member) simp
  have idle: "filter (\<lambda>b. b_segment b = ptr) L = []"
    using core new unfolding pool_core_def filter_empty_conv by blast
  have "2 ^ min (Suc m) 29 \<le> previous_cap q"
    using le previous_cap_ge [OF mem] unfolding segment.simps by (rule order_trans)
  moreover have "n \<le> 2 ^ min (Suc m) 29 \<longrightarrow> alloc_segs n (p_segments q) (p_blocks q) \<noteq> Inr None"
    using idle_segment_serves [OF core_q mem idle, of n] le unfolding segment.simps
    by (meson order_trans)
  moreover have "allocBuddy ga (Suc fuel) n p = allocBuddy ga fuel n q" if "h = None"
    using Inr that e(1) by simp
  ultimately show ?thesis
    using allocBuddy_hit Inr core_q by (cases h) blast+
qed

lemma allocBuddy_total:
  assumes core: "pool_core ga p L" and dis: "regions_disjoint ga"
    and tot: "\<forall>i c. c \<le> 2 ^ 29 \<longrightarrow> ga i c \<noteq> None" and n: "n \<le> 2 ^ 29"
    and cap: "2 ^ m \<le> previous_cap p" and d: "29 \<le> m + d" and fuel: "d + 2 \<le> fuel"
  shows "\<exists>r. allocBuddy ga fuel n p = Some (Inr r)"
  using core cap d fuel
proof (induction d arbitrary: p m fuel)
  case (0 p m fuel)
  then obtain f where f: "fuel = Suc (Suc f)" by (cases fuel; cases "fuel - 1") auto
  from 0(3) have m: "min (Suc m) 29 = 29" by simp
  from allocBuddy_progress [OF 0(1) dis tot 0(2), where n = n and fuel = "Suc f"] show ?case
  proof (elim disjE exE conjE)
    fix q assume q: "allocBuddy ga (Suc (Suc f)) n p = allocBuddy ga (Suc f) n q" "pool_core ga q L"
      and hit: "n \<le> 2 ^ min (Suc m) 29 \<longrightarrow> alloc_segs n (p_segments q) (p_blocks q) \<noteq> Inr None"
    have "alloc_segs n (p_segments q) (p_blocks q) \<noteq> Inr None" using hit n unfolding m by blast
    then obtain r where "alloc_segs n (p_segments q) (p_blocks q) = Inr (Some r)"
      using alloc_segs_never_fails [OF q(2), of n]
      by (cases "alloc_segs n (p_segments q) (p_blocks q)") auto
    from allocBuddy_hit [OF this, of ga f] q(1) show ?thesis by (simp only: f)
  qed (auto simp: f)
next
  case (Suc d)
  then obtain f where f: "fuel = Suc f" by (cases fuel) auto
  from allocBuddy_progress [OF Suc.prems(1) dis tot Suc.prems(2), where n = n and fuel = f]
  show ?case
  proof (elim disjE exE conjE)
    fix q assume q: "allocBuddy ga (Suc f) n p = allocBuddy ga f n q" "pool_core ga q L"
      "2 ^ min (Suc m) 29 \<le> previous_cap q"
    have "29 \<le> min (Suc m) 29 + d" "d + 2 \<le> f" using Suc.prems(3,4) f by auto
    from Suc.IH [OF q(2,3) this] q(1) show ?thesis by (simp only: f)
  qed (auto simp: f)
qed

text \<open>A request no segment can hold and no expansion can reach.\<close>

lemma alloc_seg_too_big:
  assumes "seg_ok seg fl xs" "s_cap seg < n"
  shows "alloc_seg n seg fl = Inr None"
proof -
  have "size_sub (s_cap seg) (s_used seg) \<le> s_cap seg"
    using seg_ok_used [OF assms(1)] by simp
  with assms(2) have "size_sub (s_cap seg) (s_used seg) < max n (2 ^ s_min_order seg)"
    by (simp add: less_max_iff_disj)
  then show ?thesis by (simp add: alloc_seg_def Let_def)
qed

lemma alloc_segs_all_miss:
  "(\<And>k seg. (k, seg) \<in> set segs \<Longrightarrow> alloc_seg n seg (lists_of blks k) = Inr None) \<Longrightarrow>
     alloc_segs n segs blks = Inr None"
  by (induction n segs blks rule: alloc_segs.induct) auto

lemma allocBuddy_diverges:
  assumes "pool_core ga p L" "regions_disjoint ga"
    and tot: "\<forall>i c. c \<le> 2 ^ 29 \<longrightarrow> ga i c \<noteq> None" and "2 ^ 29 < n"
    and "\<forall>(k, seg) \<in> set (p_segments p). s_cap seg < n"
  shows "allocBuddy ga fuel n p = None"
  using assms(1,5)
proof (induction fuel arbitrary: p)
  case (Suc fuel)
  have miss: "alloc_segs n (p_segments p) (p_blocks p) = Inr None"
    using Suc.prems(2) alloc_seg_too_big pool_core_segment(3) [OF Suc.prems(1)]
    by (intro alloc_segs_all_miss) blast
  obtain m where m: "previous_cap p = 2 ^ m" using previous_cap_pow2 [OF Suc.prems(1)] by blast
  let ?mx = "min (Suc m) 29" and ?mn = "o_min_order (p_options p)"
  have "ga (p_calls p) (2 ^ ?mx) \<noteq> None" by (intro tot [rule_format] power_increasing) auto
  from expand_Some [OF Suc.prems(1) m this] obtain ptr q where
    e: "expandBuddySegment ga p = (True, q)" "ga (p_calls p) (2 ^ ?mx) = Some ptr"
    and q: "q = add_segment ptr (2 ^ ?mx) ?mn ?mx (p\<lparr>p_calls := Suc (p_calls p)\<rparr>)" by blast
  have mx: "?mn \<le> ?mx" "?mx < 64"
    using previous_cap_pow2 [OF Suc.prems(1)] m Suc.prems(1) unfolding pool_core_def by auto
  have new: "ptr \<notin> fst ` set (p_segments p)"
    by (rule pool_core_add_segment(2) [OF Suc.prems(1) assms(2) e(2) mx])
  have "(2::nat) ^ ?mx \<le> 2 ^ 29" by (intro power_increasing) auto
  with assms(4) have "2 ^ ?mx < n" by linarith
  then have "\<forall>(k, seg) \<in> set (p_segments q). s_cap seg < n"
    using set_omap_insert [OF new] Suc.prems(2) by (simp add: q add_segment_def Let_def)
  from Suc.IH [OF expand_core [OF Suc.prems(1) assms(2) e(1)] this] show ?case
    using miss e(1) by simp
qed simp

subsection \<open>An allocator to evaluate with\<close>

text \<open>The \<open>i\<close>-th call gets the region that starts at \<open>(i + 1) * 2 ^ 40\<close>, if it fits.\<close>

definition arena :: general_alloc where
  "arena i c = (if c \<le> 2 ^ 40 then Some (Suc i * 2 ^ 40) else None)"

lemma arena_disjoint: "regions_disjoint arena"
proof -
  have "p + c \<le> q" if "i < j" "arena i c = Some p" "arena j d = Some q" for i j c d p q
  proof -
    have "Suc i * 2 ^ 40 + 2 ^ 40 \<le> Suc j * 2 ^ (40::nat)"
      using mult_le_mono1 [of "Suc (Suc i)" "Suc j" "2 ^ 40"] that(1) by simp
    with that(2,3) show ?thesis by (auto simp: arena_def split: if_splits)
  qed
  then show ?thesis unfolding regions_disjoint_def by (metis linorder_neq_iff)
qed

lemma arena_total: "\<forall>i c. c \<le> 2 ^ 29 \<longrightarrow> arena i c \<noteq> None"
  by (simp add: arena_def)

definition small_options :: pool_options where
  "small_options = \<lparr>o_first_cap = 16, o_min_order = 2, o_max_order = 4, o_cache_enabled = True,
     o_cache_sizes = [8]\<rparr>"

definition odd_options :: pool_options where
  "odd_options = \<lparr>o_first_cap = 100 * 2 ^ 20, o_min_order = 20, o_max_order = 27,
     o_cache_enabled = False, o_cache_sizes = []\<rparr>"

definition small_pool :: pool where
  "small_pool = (case new_pool arena small_options of Inr p \<Rightarrow> p)"

definition owner :: "32 word \<Rightarrow> nat \<Rightarrow> storage" where
  "owner u n = \<lparr>sto_ptr = None, sto_size = n, sto_uuid = u\<rparr>"

lemma log2_ceil_16 [simp]: "log2_ceil 16 = 4"
  using log2_ceil_pow2 [of 4] by (simp del: log2_ceil_pow2)

lemma small_options_ok: "options_ok small_options" "arena 0 (o_first_cap small_options) \<noteq> None"
  by (simp_all add: options_ok_def small_options_def arena_def)

lemma small_pool_new: "new_pool arena small_options = Inr small_pool"
  by (simp add: small_pool_def new_pool_def small_options_def)

lemma small_pool_reachable: "reachable sto_size arena small_options small_pool"
  by (rule reachable.start) (rule small_pool_new)

lemmas buddy_eval = pool_alloc_def pool_free_def reg_block_def st_reg_def st_get_def st_remove_def
  st_has_def isInObjCache_def allocObjCache_def freeObjCache_def freeBuddy_def lists_of_def
  alloc_seg_def find_free.simps split_block.simps lower_half_def upper_half_def join.simps
  is_buddy_def absorb_def size_sub_def size_mod_def log2_ceil.simps new_block_def add_segment_def
  small_pool_def new_pool_def small_options_def arena_def owner_def Let_def

lemma buddy_eval_numeral:
  "replicate (numeral k) x = x # replicate (pred_numeral k) x"
  "(y # ys)[numeral k := x] = y # ys[pred_numeral k := x]"
  by (simp_all add: numeral_eq_Suc)

lemmas allocBuddy_numeral = allocBuddy.simps(2) [of _ "pred_numeral k" for k, folded numeral_eq_Suc]

text \<open>The pool after an owner of 5 bytes, and after a second one of 3 bytes.\<close>

definition pool_1 :: pool where
  "pool_1 = (case pool_alloc sto_size arena 40 (owner 1 5) small_pool of
     Some (Inr (s, q)) \<Rightarrow> q | _ \<Rightarrow> small_pool)"

lemma pool_1_eq:
  "\<exists>s. pool_alloc sto_size arena 40 (owner 1 5) small_pool = Some (Inr (s, pool_1)) \<and>
     map_of (p_st pool_1) 1 \<noteq> None"
  by (simp add: pool_1_def buddy_eval buddy_eval_numeral allocBuddy_numeral)

lemma pool_2:
  "\<exists>s q. pool_alloc sto_size arena 40 (owner 2 3) pool_1 = Some (Inr (s, q))"
  by (simp add: pool_1_def buddy_eval buddy_eval_numeral allocBuddy_numeral)

lemma pool_1_reachable: "reachable sto_size arena small_options pool_1"
  using pool_1_eq reachable.step_alloc [OF small_pool_reachable] by blast

subsection \<open>Properties\<close>

text \<open>
  C1: an allocation that returns gives its storage a block of at least the requested size, which
  overlaps the block of no other storage, and leaves the blocks of the others as they were.
\<close>

theorem alloc_block_is_fresh:
  assumes "reachable asz ga opts p" "options_ok opts" "regions_disjoint ga"
    "ga 0 (o_first_cap opts) \<noteq> None"
    and "pool_alloc asz ga fuel s p = Some (Inr (s', p'))"
  shows "\<exists>b. st_get (p_st p') (sto_uuid s) = Inr b \<and> sto_ptr s' = Some (b_ptr b) \<and>
    asz s \<le> b_size b \<and>
    (\<forall>u c. st_get (p_st p) u = Inr c \<longrightarrow> st_get (p_st p') u = Inr c \<and> apart b c)"
proof -
  have ok: "pool_ok ga p" using reachable_ok assms(1-4) by blast
  from pool_alloc_block [OF ok assms(3,5)] obtain b q where
    q: "pool_core ga q (b # live q)" "asz s \<le> b_size b" "p_st q = p_st p"
      "map_of (p_st p) (sto_uuid s) = None"
      "p' = q\<lparr>p_st := (sto_uuid s, b) # p_st p\<rparr>" "s' = s\<lparr>sto_ptr := Some (b_ptr b)\<rparr>" by blast
  have "st_get (p_st p') u = Inr c \<and> apart b c" if c: "st_get (p_st p) u = Inr c" for u c
  proof
    from c have m: "map_of (p_st p) u = Some c" by (simp add: st_get_Inr)
    then have "u \<noteq> sto_uuid s" using q(4) by (metis option.distinct(1))
    then show "st_get (p_st p') u = Inr c" using c q(5) by (simp add: st_get_def)
    have "c \<in> set (live q)" using map_of_SomeD [OF m] q(3) by (force simp: live_def)
    then obtain R where "mset (live q) = add_mset c R"
      by (metis insert_DiffM set_mset_mset)
    then show "apart b c" by (intro pool_core_apart [OF q(1) assms(3), where R = R]) simp
  qed
  then show ?thesis using q by (intro exI [of _ b]) (auto simp: st_get_def)
qed

lemma alloc_block_is_fresh_witness:
  "\<exists>s q b. pool_alloc sto_size arena 40 (owner 2 3) pool_1 = Some (Inr (s, q)) \<and>
     st_get (p_st q) 2 = Inr b \<and> 3 \<le> b_size b"
proof -
  from pool_2 obtain s q where r: "pool_alloc sto_size arena 40 (owner 2 3) pool_1 = Some (Inr (s, q))"
    by blast
  from alloc_block_is_fresh [OF pool_1_reachable small_options_ok(1) arena_disjoint small_options_ok(2) r]
  show ?thesis using r by (auto simp: owner_def)
qed

text \<open>
  C2: in every reachable pool the blocks of two different owners are disjoint address ranges.
\<close>

theorem owners_never_overlap:
  assumes "reachable asz ga opts p" "options_ok opts" "regions_disjoint ga"
    "ga 0 (o_first_cap opts) \<noteq> None"
    and "st_get (p_st p) u = Inr b" "st_get (p_st p) v = Inr c" "u \<noteq> v"
  shows "apart b c"
proof -
  have ok: "pool_ok ga p" using reachable_ok assms(1-4) by blast
  have m: "map_of (p_st p) u = Some b" "map_of (st_remove (p_st p) u) v = Some c"
    using assms(5-7) by (simp_all add: st_get_Inr st_remove_def map_of_filter_neq)
  have dst: "distinct (map fst (p_st p))" "distinct (map fst (st_remove (p_st p) u))"
    using ok by (simp_all add: pool_ok_def st_ok_def st_remove_def distinct_fst_filter)
  have "mset (map snd (p_st p)) = add_mset b (add_mset c (mset (map snd (st_remove (st_remove (p_st p) u) v))))"
    using mset_remove_key [OF dst(1) m(1)] mset_remove_key [OF dst(2) m(2)] by simp
  then have "\<exists>R. mset (live p) = add_mset b (add_mset c R)"
    unfolding live_def mset_append by (metis union_mset_add_mset_left)
  moreover have "pool_core ga p (live p)" using ok by (simp add: pool_ok_def)
  ultimately show ?thesis using pool_core_apart assms(3) by blast
qed

lemma owners_never_overlap_witness:
  "\<exists>s q b c. pool_alloc sto_size arena 40 (owner 2 3) pool_1 = Some (Inr (s, q)) \<and>
     st_get (p_st q) 1 = Inr b \<and> st_get (p_st q) 2 = Inr c \<and> apart b c"
proof -
  have ex: "\<exists>s q b c. pool_alloc sto_size arena 40 (owner 2 3) pool_1 = Some (Inr (s, q)) \<and>
      st_get (p_st q) 1 = Inr b \<and> st_get (p_st q) 2 = Inr c"
    by (simp add: pool_1_def buddy_eval buddy_eval_numeral allocBuddy_numeral)
  then obtain s q b c where r: "pool_alloc sto_size arena 40 (owner 2 3) pool_1 = Some (Inr (s, q))"
    and bc: "st_get (p_st q) 1 = Inr b" "st_get (p_st q) 2 = Inr c" by blast
  have "reachable sto_size arena small_options q"
    using reachable.step_alloc [OF pool_1_reachable r] .
  from owners_never_overlap [OF this small_options_ok(1) arena_disjoint small_options_ok(2) bc] bc r
  show ?thesis by auto
qed

text \<open>
  C3: releasing a storage that holds a block always succeeds (the coalescing loop ends, and never
  reads outside the free lists); its entry is gone, every other owner keeps its block, and the
  invariant of the pool holds again.
\<close>

theorem free_releases:
  assumes "reachable asz ga opts p" "options_ok opts" "regions_disjoint ga"
    "ga 0 (o_first_cap opts) \<noteq> None"
    and "sto_ptr s \<noteq> None" "st_has (p_st p) (sto_uuid s)"
  shows "\<exists>p'. pool_free asz s p = Inr p' \<and> pool_ok ga p' \<and>
    st_get (p_st p') (sto_uuid s) = Inl (Exit kCoreError) \<and>
    (\<forall>u. u \<noteq> sto_uuid s \<longrightarrow> st_get (p_st p') u = st_get (p_st p) u)"
proof -
  have ok: "pool_ok ga p" using reachable_ok assms(1-4) by blast
  from assms(6) obtain b where "map_of (p_st p) (sto_uuid s) = Some b" by (auto simp: st_has_def)
  from pool_free_registered [OF ok assms(5) this, of asz] show ?thesis
    by (auto simp: st_get_def st_remove_def map_of_filter_neq)
qed

lemma free_releases_witness:
  "\<exists>p'. pool_free sto_size ((owner 1 5)\<lparr>sto_ptr := Some 0\<rparr>) pool_1 = Inr p' \<and> pool_ok arena p'"
proof -
  let ?s = "(owner 1 5)\<lparr>sto_ptr := Some 0\<rparr>"
  have "sto_ptr ?s \<noteq> None" "st_has (p_st pool_1) (sto_uuid ?s)"
    using pool_1_eq by (auto simp: owner_def st_has_def)
  from free_releases [OF pool_1_reachable small_options_ok(1) arena_disjoint small_options_ok(2) this]
  show ?thesis by blast
qed

text \<open>
  C4: nothing is lost to fragmentation. Once no storage is registered and the object cache is empty,
  every segment has been coalesced into one free block of the maximal order, and none of it counts
  as used.
\<close>

theorem idle_pool_is_whole:
  assumes "reachable asz ga opts p" "options_ok opts" "regions_disjoint ga"
    "ga 0 (o_first_cap opts) \<noteq> None"
    and "p_st p = []" "concat (map snd (p_obj_cache p)) = []" "(k, seg) \<in> set (p_segments p)"
  shows "s_used seg = 0 \<and> (\<exists>b. concat (lists_of (p_blocks p) k) = [b] \<and> b_ptr b = k \<and>
    b_size b = s_cap seg \<and> b_order b = s_max_order seg)"
proof -
  have "pool_core ga p (live p)" using reachable_ok assms(1-4) by (auto simp: pool_ok_def)
  then have core: "pool_core ga p []" using assms(5,6) by (simp add: live_def)
  note seg = pool_core_segment [OF core assms(7)]
  have ok: "seg_ok seg (lists_of (p_blocks p) k) []" using seg(3) by simp
  note free = seg_ok_all_free [OF ok]
  from msed_map_invR [OF free(1)] obtain b where
    b: "mset (concat (lists_of (p_blocks p) k)) = {#b#}" "bkey (s_ptr seg) b = (0, s_max_order seg)"
    by (auto simp del: mset_concat)
  then have c: "concat (lists_of (p_blocks p) k) = [b]" by (simp only: mset_single_iff)
  have "block_ok seg b" "s_cap seg = 2 ^ s_max_order seg"
    using ok c by (simp_all add: seg_ok_def seg_core_def del: set_concat)
  then show ?thesis using b(2) c free(2) seg(1) by (auto simp: block_ok_def bkey_def)
qed

lemma idle_pool_is_whole_witness:
  "\<exists>k seg b. (k, seg) \<in> set (p_segments small_pool) \<and>
     concat (lists_of (p_blocks small_pool) k) = [b] \<and> b_size b = s_cap seg"
proof -
  have "p_st small_pool = []" "concat (map snd (p_obj_cache small_pool)) = []"
    "\<exists>k seg. (k, seg) \<in> set (p_segments small_pool)"
    by (simp_all add: buddy_eval)
  then show ?thesis
    using idle_pool_is_whole [OF small_pool_reachable small_options_ok(1) arena_disjoint small_options_ok(2)]
    by blast
qed

text \<open>
  C5: a request of at most \<open>2 ^ 29\<close> bytes (512 MB, the largest segment an expansion creates) is served
  after at most 31 calls of \<^verbatim>\<open>allocBuddy\<close>, provided the backend does not run out of memory.
\<close>

theorem allocBuddy_returns:
  assumes "reachable asz ga opts p" "options_ok opts" "regions_disjoint ga"
    and "\<forall>i c. c \<le> 2 ^ 29 \<longrightarrow> ga i c \<noteq> None" "ga 0 (o_first_cap opts) \<noteq> None"
    and "n \<le> 2 ^ 29" "31 \<le> fuel"
  shows "\<exists>b p'. allocBuddy ga fuel n p = Some (Inr (b, p')) \<and> n \<le> b_size b"
proof -
  have core: "pool_core ga p (live p)" using reachable_ok assms(1-3,5) by (auto simp: pool_ok_def)
  obtain m where "previous_cap p = 2 ^ m" using previous_cap_pow2 [OF core] by blast
  then have "2 ^ 0 \<le> previous_cap p" by simp
  from allocBuddy_total [OF core assms(3,4,6) this, of 29 fuel] assms(7)
  obtain r where "allocBuddy ga fuel n p = Some (Inr r)" by auto
  then show ?thesis using allocBuddy_core [OF core assms(3)] by (cases r) blast
qed

lemma allocBuddy_returns_witness:
  "\<exists>b p'. allocBuddy arena 31 (2 ^ 29) pool_1 = Some (Inr (b, p')) \<and> 2 ^ 29 \<le> b_size b"
  by (rule allocBuddy_returns [OF pool_1_reachable small_options_ok(1) arena_disjoint arena_total
        small_options_ok(2) order_refl order_refl])

text \<open>
  A request above \<open>2 ^ 29\<close> bytes that fits in no existing segment is never answered while the
  backend has memory: the error for a request that is too large is unreachable, and every call adds
  another segment that cannot hold the request either.
\<close>

theorem allocBuddy_never_answers:
  assumes "reachable asz ga opts p" "options_ok opts" "regions_disjoint ga"
    and "\<forall>i c. c \<le> 2 ^ 29 \<longrightarrow> ga i c \<noteq> None" "ga 0 (o_first_cap opts) \<noteq> None"
    and "2 ^ 29 < n" "\<forall>(k, seg) \<in> set (p_segments p). s_cap seg < n"
  shows "allocBuddy ga fuel n p = None"
proof -
  have "pool_core ga p (live p)" using reachable_ok assms(1-3,5) by (auto simp: pool_ok_def)
  from allocBuddy_diverges [OF this assms(3,4,6,7)] show ?thesis .
qed

lemma allocBuddy_never_answers_witness: "\<forall>fuel. allocBuddy arena fuel (2 ^ 30) small_pool = None"
proof
  fix fuel
  have "\<forall>(k, seg) \<in> set (p_segments small_pool). s_cap seg < 2 ^ 30"
    by (simp add: buddy_eval)
  then show "allocBuddy arena fuel (2 ^ 30) small_pool = None"
    by (intro allocBuddy_never_answers [OF small_pool_reachable small_options_ok(1) arena_disjoint
          arena_total small_options_ok(2)]) simp_all
qed

text \<open>
  The constructor only compares the rounded-up order of the first capacity with the maximal
  order. With 100 MB and order 27, a request of 60 MB is answered with a block of 50 MB.
\<close>

theorem first_capacity_not_power_of_two:
  "case new_pool arena odd_options of Inl e \<Rightarrow> False | Inr p \<Rightarrow>
    (case allocBuddy arena 1 (60 * 2 ^ 20) p of Some (Inr (b, p')) \<Rightarrow> b_size b = 50 * 2 ^ 20 | _ \<Rightarrow> False)"
  by (simp add: odd_options_def buddy_eval buddy_eval_numeral)

text \<open>
  A released block is cached under its own size, a power of two, but looked up under the requested
  size: a request whose size is not a power of two never hits the object cache.
\<close>

theorem cache_misses_odd_sizes:
  assumes "reachable asz ga opts p" "options_ok opts" "regions_disjoint ga"
    "ga 0 (o_first_cap opts) \<noteq> None" and "\<nexists>k. n = 2 ^ k"
  shows "allocObjCache n p = (None, p)"
proof (rule ccontr)
  have ok: "pool_ok ga p" using reachable_ok assms(1-4) by blast
  assume "allocObjCache n p \<noteq> (None, p)"
  then obtain b q where "allocObjCache n p = (Some b, q)"
    by (metis allocObjCache_miss option.exhaust prod.exhaust)
  note h = allocObjCache_hit [OF ok this]
  have "b_segment b \<in> fst ` set (p_segments q)" using h(1) by (auto simp: pool_core_def)
  then obtain seg where "(b_segment b, seg) \<in> set (p_segments q)" by force
  from pool_core_segment(3) [OF h(1) this]
  have "\<exists>fl xs. seg_core seg fl (b # xs)" by (auto simp: seg_ok_def)
  with seg_core_bounds(5) h(2) assms(5) show False by metis
qed

lemma cache_misses_odd_sizes_witness: "allocObjCache 12 pool_1 = (None, pool_1)"
proof (rule cache_misses_odd_sizes [OF pool_1_reachable small_options_ok(1) arena_disjoint
      small_options_ok(2)])
  have "(12::nat) \<noteq> 2 ^ k" for k
  proof (cases "k < 4")
    case True
    then have "k \<in> {0, 1, 2, 3}" by auto
    then show ?thesis by auto
  next
    case False
    then have "(2::nat) ^ 4 \<le> 2 ^ k" by (intro power_increasing) auto
    then show ?thesis by simp
  qed
  then show "\<nexists>k. (12::nat) = 2 ^ k" by blast
qed

text \<open>
  Replacing the cached sizes evicts the blocks of the sizes that are new in the list, which hold
  none, and keeps the blocks of the sizes that were dropped, which no request can reach any more.
\<close>

theorem update_keeps_dropped_sizes:
  assumes "reachable asz ga opts p" "options_ok opts" "regions_disjoint ga"
    "ga 0 (o_first_cap opts) \<noteq> None" and "k \<notin> set sizes"
  shows "\<exists>p'. updateCacheSizeList sizes p = Inr p' \<and> pool_ok ga p' \<and> \<not> isInObjCache k p' \<and>
    map_of (p_obj_cache p') k = map_of (p_obj_cache p) k"
proof -
  have "pool_ok ga p" using reachable_ok assms(1-4) by blast
  from updateCacheSizeList_ok [OF this, of sizes] assms(5) show ?thesis
    by (auto simp: isInObjCache_def)
qed

lemma update_keeps_dropped_sizes_witness:
  "\<exists>p'. updateCacheSizeList [4] pool_1 = Inr p' \<and> \<not> isInObjCache 8 p'"
  using update_keeps_dropped_sizes [OF pool_1_reachable small_options_ok(1) arena_disjoint
      small_options_ok(2), of 8 "[4]"] by auto

end
