(* ===== verification/Data_Types.thy ===== *)
theory Data_Types
  imports Prelude
begin

text \<open>
  The enumerations of \<^verbatim>\<open>mllm/core\<close>: data types with their storage layout (\<^verbatim>\<open>DataTypes.hpp\<close>,
  \<^verbatim>\<open>DataTypes.cpp\<close>), devices (\<^verbatim>\<open>DeviceTypes.hpp\<close>) and operations (\<^verbatim>\<open>OpTypes.hpp\<close>), and the
  tables that go with them.
\<close>

subsection \<open>The data types\<close>

datatype (plugins only: code) dtype =
    kFloat32 | kFloat16 | kGGUF_Q4_0 | kGGUF_Q4_1 | kGGUF_Q8_0 | kGGUF_Q8_1 |
    kGGUF_Q8_Pertensor | kGGUF_Q4_K | kGGUF_Q6_K | kGGUF_Q8_K | kInt8 | kInt16 | kInt32 |
    kGGUF_Q4_0_4_4 | kGGUF_Q4_0_4_8 | kGGUF_Q4_0_8_8 | kGGUF_Q8_0_4_4 | kGGUF_Q3_K | kGGUF_Q2_K |
    kGGUF_Q1_K | kGGUF_IQ2_XXS | kGGUF_IQ2_XS | kGGUF_IQ1_S | kGGUF_IQ1_M | kGGUF_IQ2_S |
    kBFloat16 | kUInt8 | kUInt16 | kUInt32 | kInt64 | kUInt64 | kByte | kMXFP4 | kInt4 | kUInt4 |
    kInt2 | kUInt2 | kInt8PerTensorSym | kInt8PerChannelSym | kUInt8PerTensorSym |
    kUInt8PerChannelSym | kInt16PerTensorSym | kInt16PerChannelSym | kUInt16PerTensorSym |
    kUInt16PerChannelSym | kInt8PerTensorAsy | kInt8PerChannelAsy | kUInt8PerTensorAsy |
    kUInt8PerChannelAsy | kInt16PerTensorAsy | kInt16PerChannelAsy | kUInt16PerTensorAsy |
    kUInt16PerChannelAsy | kBool | kComplexFloat32 | kComplexFloat64

definition dtype_tags :: "(dtype \<times> int) list" where
  "dtype_tags =
    [(kFloat32, 0), (kFloat16, 1), (kGGUF_Q4_0, 2), (kGGUF_Q4_1, 3), (kGGUF_Q8_0, 8),
     (kGGUF_Q8_1, 9), (kGGUF_Q8_Pertensor, 10), (kGGUF_Q4_K, 12), (kGGUF_Q6_K, 14),
     (kGGUF_Q8_K, 15), (kInt8, 16), (kInt16, 17), (kInt32, 18), (kGGUF_Q4_0_4_4, 19),
     (kGGUF_Q4_0_4_8, 20), (kGGUF_Q4_0_8_8, 21), (kGGUF_Q8_0_4_4, 22), (kGGUF_Q3_K, 23),
     (kGGUF_Q2_K, 24), (kGGUF_Q1_K, 25), (kGGUF_IQ2_XXS, 26), (kGGUF_IQ2_XS, 27),
     (kGGUF_IQ1_S, 28), (kGGUF_IQ1_M, 29), (kGGUF_IQ2_S, 30), (kBFloat16, 128), (kUInt8, 129),
     (kUInt16, 130), (kUInt32, 131), (kInt64, 132), (kUInt64, 133), (kByte, 134), (kMXFP4, 135),
     (kInt4, 136), (kUInt4, 137), (kInt2, 138), (kUInt2, 139), (kInt8PerTensorSym, 140),
     (kInt8PerChannelSym, 141), (kUInt8PerTensorSym, 142), (kUInt8PerChannelSym, 143),
     (kInt16PerTensorSym, 144), (kInt16PerChannelSym, 145), (kUInt16PerTensorSym, 146),
     (kUInt16PerChannelSym, 147), (kInt8PerTensorAsy, 148), (kInt8PerChannelAsy, 149),
     (kUInt8PerTensorAsy, 150), (kUInt8PerChannelAsy, 151), (kInt16PerTensorAsy, 152),
     (kInt16PerChannelAsy, 153), (kUInt16PerTensorAsy, 154), (kUInt16PerChannelAsy, 155),
     (kBool, 156), (kComplexFloat32, 201), (kComplexFloat64, 202)]"

definition dtype_tag :: "dtype \<Rightarrow> int" where
  "dtype_tag d = (case map_of dtype_tags d of Some t \<Rightarrow> t)"

text \<open>A tag read from a file names a data type when an enumerator has that value.\<close>

definition dtype_of_tag :: "int \<Rightarrow> dtype option" where
  "dtype_of_tag t = map_of (map (\<lambda>(d, t). (t, d)) dtype_tags) t"

datatype (plugins only: code) ctype =
    C_block_iq2_xxs_t | C_block_q2_K_t | C_block_q3_K_t | C_block_q4_0_t | C_block_q4_0x4_t |
    C_block_q4_0x8_t | C_block_q4_K_t | C_block_q6_K_t | C_block_q8_0_t | C_block_q8_0x4_t |
    C_block_q8_K_t | C_block_q8_per_tensor_t | C_complex_fp32_t | C_complex_fp64_t | C_fp16_t |
    C_fp32_t | C_int16_per_channel_t | C_int16_per_tensor_t | C_int16_t | C_int32_t | C_int4_t |
    C_int64_t | C_int8_per_channel_t | C_int8_per_tensor_t | C_int8_t | C_mxfp4_t |
    C_uint16_per_channel_t | C_uint16_per_tensor_t | C_uint16_t | C_uint32_t | C_uint4_t |
    C_uint64_t | C_uint8_per_channel_t | C_uint8_per_tensor_t | C_uint8_t

subsection \<open>Storage layout\<close>

definition QK_K :: nat where "QK_K = 256"
definition K_SCALE_SIZE :: nat where "K_SCALE_SIZE = 12"
definition QK4_0 :: nat where "QK4_0 = 32"
definition QK8_0 :: nat where "QK8_0 = 32"

text \<open>
  A structure is packed to one byte: its size is the sum over its fields of the size of an element
  and the number of elements. \<^verbatim>\<open>mllm_fp16_t\<close> has two bytes on every backend.
\<close>

definition block_layout :: "(ctype \<times> (nat \<times> nat) list) list" where
  "block_layout =
    [(C_block_q4_0_t, [(2, 1), (1, QK4_0 div 2)]),
     (C_block_q4_K_t, [(2, 1), (2, 1), (1, K_SCALE_SIZE), (1, QK_K div 2)]),
     (C_block_q6_K_t, [(1, QK_K div 2), (1, QK_K div 4), (1, QK_K div 16), (2, 1)]),
     (C_block_q8_0_t, [(2, 1), (1, QK8_0)]),
     (C_block_q8_per_tensor_t, [(1, QK8_0)]),
     (C_block_q8_K_t, [(4, 1), (1, QK_K), (2, QK_K div 16)]),
     (C_block_q4_0x4_t, [(2, 4), (1, QK4_0 * 2)]),
     (C_block_q4_0x8_t, [(2, 8), (1, QK4_0 * 4)]),
     (C_block_q8_0x4_t, [(2, 4), (1, QK8_0 * 4)]),
     (C_block_q2_K_t, [(1, QK_K div 16), (1, QK_K div 4), (2, 1), (2, 1)]),
     (C_block_q3_K_t, [(1, QK_K div 8), (1, QK_K div 4), (1, 12), (2, 1)]),
     (C_block_iq2_xxs_t, [(2, 1), (2, QK_K div 8)])]"

definition small_layout :: "(ctype \<times> (nat \<times> nat) list) list" where
  "small_layout =
    [(C_mxfp4_t, [(1, 16), (1, 1)]),
     (C_uint8_per_tensor_t, [(1, 1)]), (C_uint8_per_channel_t, [(1, 1)]),
     (C_int8_per_tensor_t, [(1, 1)]), (C_int8_per_channel_t, [(1, 1)]),
     (C_uint16_per_tensor_t, [(2, 1)]), (C_uint16_per_channel_t, [(2, 1)]),
     (C_int16_per_tensor_t, [(2, 1)]), (C_int16_per_channel_t, [(2, 1)]),
     (C_int4_t, [(1, 1)]), (C_uint4_t, [(1, 1)])]"

definition scalar_layout :: "(ctype \<times> (nat \<times> nat) list) list" where
  "scalar_layout =
    [(C_fp32_t, [(4, 1)]), (C_fp16_t, [(2, 1)]), (C_int8_t, [(1, 1)]), (C_uint8_t, [(1, 1)]),
     (C_int16_t, [(2, 1)]), (C_uint16_t, [(2, 1)]), (C_int32_t, [(4, 1)]), (C_uint32_t, [(4, 1)]),
     (C_int64_t, [(8, 1)]), (C_uint64_t, [(8, 1)]), (C_complex_fp32_t, [(4, 2)]),
     (C_complex_fp64_t, [(8, 2)])]"

definition sizeof :: "ctype \<Rightarrow> nat" where
  "sizeof c = (case map_of (block_layout @ small_layout @ scalar_layout) c of
     Some fields \<Rightarrow> sum_list (map (\<lambda>(s, n). s * n) fields))"

text \<open>\<^verbatim>\<open>DataTypeInfo\<close>: names, and the number of elements in one quantization block.\<close>

definition quant_info :: "(ctype \<times> nat \<times> string) list" where
  "quant_info =
    [(C_block_q4_0_t, QK4_0, ''GGUF_Q4_0''), (C_block_q4_K_t, QK_K, ''GGUF_Q4_K''),
     (C_block_q6_K_t, QK_K, ''GGUF_Q6_K''), (C_block_q8_0_t, QK8_0, ''GGUF_Q8_0''),
     (C_block_q8_per_tensor_t, QK8_0, ''GGUF_Q8_Per_Tensor''), (C_block_q8_K_t, QK_K, ''GGUF_Q8_K''),
     (C_block_q4_0x4_t, QK4_0 * 4, ''GGUF_Q4_0x4''), (C_block_q4_0x8_t, QK4_0 * 8, ''GGUF_Q4_0x8''),
     (C_block_q8_0x4_t, QK8_0 * 4, ''GGUF_Q8_0x4''), (C_block_q2_K_t, QK_K, ''GGUF_Q2_K''),
     (C_block_q3_K_t, QK_K, ''GGUF_Q3_K''), (C_block_iq2_xxs_t, QK_K, ''GGUF_IQ2_XXS''),
     (C_mxfp4_t, 32, ''MXFP4'')]"

definition basic_info :: "(ctype \<times> string) list" where
  "basic_info =
    [(C_fp32_t, ''Float32''), (C_fp16_t, ''Float16''), (C_int64_t, ''Int64''),
     (C_uint64_t, ''UInt64''), (C_int32_t, ''Int32''), (C_uint32_t, ''UInt32''),
     (C_int16_t, ''Int16''), (C_uint16_t, ''UInt16''), (C_int8_t, ''Int8''), (C_uint8_t, ''UInt8''),
     (C_uint8_per_tensor_t, ''UInt8PerTensor''), (C_uint8_per_channel_t, ''UInt8PerChannel''),
     (C_int8_per_tensor_t, ''Int8PerTensor''), (C_int8_per_channel_t, ''Int8PerChannel''),
     (C_uint16_per_tensor_t, ''UInt16PerTensor''), (C_uint16_per_channel_t, ''UInt16PerChannel''),
     (C_int16_per_tensor_t, ''Int16PerTensor''), (C_int16_per_channel_t, ''Int16PerChannel''),
     (C_int4_t, ''Int4''), (C_uint4_t, ''UInt4''), (C_complex_fp64_t, ''ComplexFP64''),
     (C_complex_fp32_t, ''ComplexFP32'')]"

definition info_lanes :: "ctype \<Rightarrow> nat" where
  "info_lanes c = (case map_of quant_info c of Some (n, s) \<Rightarrow> n | None \<Rightarrow> 1)"

definition info_name :: "ctype \<Rightarrow> string" where
  "info_name c = (case map_of quant_info c of Some (n, s) \<Rightarrow> s
     | None \<Rightarrow> (case map_of basic_info c of Some s \<Rightarrow> s))"

definition self_type_info :: "(dtype \<times> ctype) list" where
  "self_type_info =
    [(kFloat32, C_fp32_t), (kFloat16, C_fp16_t), (kInt8, C_int8_t), (kUInt8, C_uint8_t),
     (kBool, C_uint8_t), (kInt16, C_int16_t), (kUInt16, C_uint16_t), (kInt32, C_int32_t),
     (kUInt32, C_uint32_t), (kInt64, C_int64_t), (kUInt64, C_uint64_t),
     (kUInt8PerTensorSym, C_uint8_per_tensor_t), (kUInt8PerChannelSym, C_uint8_per_channel_t),
     (kInt8PerTensorSym, C_int8_per_tensor_t), (kInt8PerChannelSym, C_int8_per_channel_t),
     (kUInt16PerTensorSym, C_uint16_per_tensor_t),
     (kUInt16PerChannelSym, C_uint16_per_channel_t), (kInt16PerTensorSym, C_int16_per_tensor_t),
     (kInt16PerChannelSym, C_int16_per_channel_t), (kInt8PerTensorAsy, C_int8_per_tensor_t),
     (kInt8PerChannelAsy, C_int8_per_channel_t), (kUInt8PerTensorAsy, C_uint8_per_tensor_t),
     (kUInt8PerChannelAsy, C_uint8_per_channel_t), (kInt16PerTensorAsy, C_int16_per_tensor_t),
     (kInt16PerChannelAsy, C_int16_per_channel_t), (kUInt16PerTensorAsy, C_uint16_per_tensor_t),
     (kUInt16PerChannelAsy, C_uint16_per_channel_t), (kInt4, C_int4_t), (kUInt4, C_uint4_t),
     (kGGUF_Q4_0, C_block_q4_0_t), (kGGUF_Q4_K, C_block_q4_K_t), (kGGUF_Q6_K, C_block_q6_K_t),
     (kGGUF_Q8_0, C_block_q8_0_t), (kGGUF_Q8_Pertensor, C_block_q8_per_tensor_t),
     (kGGUF_Q8_K, C_block_q8_K_t), (kGGUF_Q4_0_4_4, C_block_q4_0x4_t),
     (kGGUF_Q4_0_4_8, C_block_q4_0x8_t), (kGGUF_Q8_0_4_4, C_block_q8_0x4_t),
     (kGGUF_Q2_K, C_block_q2_K_t), (kGGUF_Q3_K, C_block_q3_K_t),
     (kGGUF_IQ2_XXS, C_block_iq2_xxs_t), (kMXFP4, C_mxfp4_t),
     (kComplexFloat64, C_complex_fp64_t), (kComplexFloat32, C_complex_fp32_t)]"

text \<open>
  The \<^verbatim>\<open>switch\<close> statements of \<^verbatim>\<open>DataTypes.cpp\<close>. A type without a case gets a message on the console
  (\<^verbatim>\<open>NYI\<close>) and the value after the \<^verbatim>\<open>switch\<close>.
\<close>

definition lanes_cases :: "dtype list" where
  "lanes_cases =
    [kFloat32, kFloat16, kGGUF_Q4_0, kGGUF_Q8_0, kGGUF_Q8_Pertensor, kGGUF_Q4_K, kGGUF_Q6_K,
     kGGUF_Q8_K, kInt8, kInt16, kInt32, kGGUF_Q4_0_4_4, kGGUF_Q4_0_4_8, kGGUF_Q8_0_4_4,
     kGGUF_Q3_K, kGGUF_Q2_K, kGGUF_IQ2_XXS, kUInt8, kBool, kUInt16, kUInt32, kInt64, kUInt64,
     kMXFP4, kComplexFloat32, kComplexFloat64, kInt16PerTensorSym, kInt8PerTensorSym,
     kUInt8PerTensorSym, kUInt16PerTensorAsy, kUInt16PerTensorSym]"

definition bytes_cases :: "dtype list" where
  "bytes_cases =
    [kFloat32, kFloat16, kGGUF_Q4_0, kGGUF_Q8_0, kGGUF_Q8_Pertensor, kGGUF_Q4_K, kGGUF_Q6_K,
     kGGUF_Q8_K, kInt8, kInt16, kInt32, kGGUF_Q4_0_4_4, kGGUF_Q4_0_4_8, kGGUF_Q8_0_4_4,
     kGGUF_Q3_K, kGGUF_Q2_K, kGGUF_IQ2_XXS, kUInt8, kBool, kUInt16, kUInt32, kInt64, kUInt64,
     kMXFP4, kComplexFloat32, kComplexFloat64, kInt16PerTensorSym, kUInt16PerTensorSym,
     kUInt16PerTensorAsy, kInt8PerTensorSym, kUInt8PerTensorSym, kInt4, kUInt4]"

definition name_cases :: "dtype list" where
  "name_cases =
    [kFloat32, kFloat16, kGGUF_Q4_0, kGGUF_Q8_0, kGGUF_Q8_Pertensor, kGGUF_Q4_K, kGGUF_Q6_K,
     kGGUF_Q8_K, kInt8, kInt16, kInt32, kGGUF_Q4_0_4_4, kGGUF_Q4_0_4_8, kGGUF_Q8_0_4_4,
     kGGUF_Q3_K, kGGUF_Q2_K, kGGUF_IQ2_XXS, kUInt8, kUInt16, kUInt32, kInt64, kUInt64, kMXFP4,
     kComplexFloat32, kComplexFloat64, kInt16PerTensorSym, kUInt16PerTensorSym,
     kUInt16PerTensorAsy, kInt8PerTensorSym, kUInt8PerTensorSym, kInt4, kUInt4]"

definition lanesOfType :: "dtype \<Rightarrow> nat" where
  "lanesOfType d =
     (if d \<in> set lanes_cases then info_lanes (the (map_of self_type_info d))
      else if d = kByte then info_lanes (the (map_of self_type_info kUInt8))
      else 1)"

definition bytesOfType :: "dtype \<Rightarrow> nat" where
  "bytesOfType d =
     (if d \<in> set bytes_cases then sizeof (the (map_of self_type_info d))
      else if d = kByte then sizeof (the (map_of self_type_info kUInt8))
      else 1)"

definition nameOfType :: "dtype \<Rightarrow> string" where
  "nameOfType d =
     (if d \<in> set name_cases then info_name (the (map_of self_type_info d))
      else if d = kByte then info_name (the (map_of self_type_info kUInt8))
      else if d = kBool then ''Bool''
      else ''Unknow'')"

subsection \<open>Devices\<close>

datatype device =
    kDeviceTypes_Start | kCPU | kCUDA | kOpenCL | kQNN | kCUDAHost | kAscend | kAscendHost |
    kDynamicDeviceType_Start | kDeviceTypes_End

fun deviceTypes2Str :: "device \<Rightarrow> string" where
  "deviceTypes2Str kDeviceTypes_Start = ''DeviceTypes_Start''"
| "deviceTypes2Str kCPU = ''CPU''"
| "deviceTypes2Str kCUDA = ''CUDA''"
| "deviceTypes2Str kOpenCL = ''OpenCL''"
| "deviceTypes2Str kQNN = ''QNN''"
| "deviceTypes2Str kAscend = ''Ascend''"
| "deviceTypes2Str kAscendHost = ''AscendHost''"
| "deviceTypes2Str kDeviceTypes_End = ''DeviceTypes_End''"
| "deviceTypes2Str _ = ''Unknown''"

definition str2DeviceType :: "string \<Rightarrow> device" where
  "str2DeviceType s =
     (if s = ''CPU'' then kCPU
      else if s = ''CUDA'' then kCUDA
      else if s = ''OpenCL'' then kOpenCL
      else if s = ''QNN'' then kQNN
      else if s = ''Ascend'' then kAscend
      else if s = ''AscendHost'' then kAscendHost
      else kDeviceTypes_End)"

subsection \<open>Operations\<close>

text \<open>
  \<^verbatim>\<open>OpTypes\<close> is an \<^verbatim>\<open>enum class\<close> over \<^verbatim>\<open>int32_t\<close>: a backend registers its own values above
  \<^verbatim>\<open>kDynamicOp_Start\<close>, so an operation type is its number, and \<open>op_enum\<close> names the numbers.
\<close>

type_synonym optype = int

definition op_enum :: "(string \<times> optype) list" where
  "op_enum =
    [(''kOpType_Start'', 0), (''kFill'', 1), (''kAdd'', 2), (''kSub'', 3), (''kMul'', 4),
     (''kDiv'', 5), (''kMatMul'', 6), (''kEmbedding'', 7), (''kLinear'', 8), (''kRoPE'', 9),
     (''kSoftmax'', 10), (''kSTFT'', 11), (''kISTFT'', 12), (''kTranspose'', 13),
     (''kRMSNorm'', 14), (''kSiLU'', 15), (''kKVCache'', 16), (''kCausalMask'', 17),
     (''kCastType'', 18), (''kX2X'', 19), (''kSplit'', 20), (''kView'', 21),
     (''kFlashAttention2'', 22), (''kRepeat'', 23), (''kPermute'', 24), (''kConv3D'', 25),
     (''kConv2D'', 26), (''kConv1D'', 27), (''kGELU'', 28), (''kLayerNorm'', 29),
     (''kMultimodalRoPE'', 30), (''kVisionRoPE'', 31), (''kQuickGELU'', 32), (''kCopy'', 33),
     (''kClone'', 34), (''kNeg'', 35), (''kConcat'', 36), (''kReLU'', 37), (''kReLU2'', 38),
     (''kReduceMax'', 39), (''kReduceMin'', 40), (''kReduceSum'', 41), (''kContiguous'', 42),
     (''kReshape'', 43), (''kSlice'', 44), (''kParam'', 45), (''kIndex'', 46), (''kAbs'', 47),
     (''kLog'', 48), (''kTopK'', 49), (''kMean'', 50), (''kClip'', 51), (''kExp'', 52),
     (''kSin'', 53), (''kCos'', 54), (''kGraphBegin'', 55), (''kGraphEnd'', 56),
     (''kPagedAttn'', 57), (''kRadixAttn'', 58), (''kScatter2Shards'', 59),
     (''kLayerNorm2D'', 60), (''kPad'', 61), (''kInterpolate'', 62), (''kEinsum'', 63),
     (''kStack'', 64), (''kMaskedScatter'', 65), (''kScatter'', 66), (''kGather'', 67),
     (''kArgsort'', 68), (''kAvgPool1d'', 69), (''kFlashAttention2WithSinkAndSwa'', 70),
     (''kRadixAttnWithSinkAndSwaDiffDim'', 71), (''kRadixAttnRelax'', 72), (''kEqual'', 73),
     (''kWhere'', 74), (''kSigmoid'', 75), (''kDynamicOp_Start'', 4096), (''kOpType_End'', 4097)]"

text \<open>The \<^verbatim>\<open>case\<close> labels of \<^verbatim>\<open>optype2Str\<close>, by their values.\<close>

definition op_cases :: "(optype \<times> string) list" where
  "op_cases =
    [(0, ''OpType_Start''), (1, ''Fill''), (2, ''Add''), (3, ''Sub''), (4, ''Mul''),
     (5, ''Div''), (47, ''Abs''), (48, ''Log''), (6, ''MatMul''), (7, ''Embedding''),
     (8, ''Linear''), (9, ''RoPE''), (10, ''Softmax''), (11, ''STFT''), (12, ''ISTFT''),
     (13, ''Transpose''), (14, ''RMSNorm''), (15, ''SiLU''), (16, ''KVCache''),
     (17, ''CausalMask''), (18, ''CastType''), (19, ''X2X''), (20, ''Split''), (21, ''View''),
     (22, ''FlashAttention2''), (23, ''Repeat''), (24, ''Permute''), (25, ''Conv3D''),
     (26, ''Conv2D''), (27, ''Conv1D''), (28, ''GELU''), (29, ''LayerNorm''),
     (30, ''MultimodalRoPE''), (31, ''VisionRoPE''), (32, ''QuickGELU''), (33, ''Copy''),
     (34, ''Clone''), (35, ''Neg''), (36, ''Concat''), (37, ''ReLU''), (38, ''ReLU2''),
     (39, ''ReduceMax''), (40, ''ReduceMin''), (41, ''ReduceSum''), (42, ''Contiguous''),
     (43, ''Reshape''), (44, ''Slice''), (46, ''Index''), (49, ''TopK''), (50, ''Mean''),
     (51, ''Clip''), (52, ''Exp''), (53, ''Sin''), (54, ''Cos''), (45, ''Param''),
     (55, ''GraphBegin''), (56, ''GraphEnd''), (57, ''PagedAttn''), (58, ''RadixAttn''),
     (59, ''Scatter2Shards''), (60, ''LayerNorm2D''), (61, ''Pad''), (62, ''Interpolate''),
     (64, ''Stack''), (63, ''Einsum''), (65, ''MaskedScatter''), (66, ''Scatter''),
     (67, ''Gather''), (68, ''Argsort''), (69, ''AvgPool1d''),
     (70, ''FlashAttention2WithSinkAndSwa''), (71, ''RadixAttnWithSinkAndSwaDiffDim''),
     (72, ''RadixAttnRelax''), (73, ''Equal''), (74, ''Where''), (75, ''Sigmoid''),
     (4096, ''DynamicOp_Start''), (4097, ''OpType_End'')]"

definition optype2Str :: "optype \<Rightarrow> string" where
  "optype2Str t = (case map_of op_cases t of Some s \<Rightarrow> s | None \<Rightarrow> ''Unknown'')"

subsection \<open>Facts about the tables\<close>

definition all_dtypes :: "dtype list" where
  "all_dtypes = map fst dtype_tags"

lemma all_dtypes_complete: "d \<in> set all_dtypes"
  by (cases d) (simp_all add: all_dtypes_def dtype_tags_def)

lemma map_of_swap:
  "distinct (map snd xs) \<Longrightarrow> map_of (map (\<lambda>(a, b). (b, a)) xs) b = Some a \<longleftrightarrow> (a, b) \<in> set xs"
  by (subst map_of_eq_Some_iff) (force simp: comp_def case_prod_beta image_iff)+

lemma dtype_tags_distinct: "distinct (map fst dtype_tags)" "distinct (map snd dtype_tags)"
  unfolding dtype_tags_def by simp_all

lemma dtype_tag_entry: "(d, dtype_tag d) \<in> set dtype_tags"
proof -
  have "d \<in> set (map fst dtype_tags)" using all_dtypes_complete [of d] by (simp add: all_dtypes_def)
  then obtain t where "map_of dtype_tags d = Some t" by (metis map_of_eq_None_iff not_None_eq set_map)
  then show ?thesis using map_of_SomeD by (simp add: dtype_tag_def)
qed

lemma dtype_of_tag_iff: "dtype_of_tag t = Some d \<longleftrightarrow> dtype_tag d = t"
proof -
  have "dtype_of_tag t = Some d \<longleftrightarrow> (d, t) \<in> set dtype_tags"
    unfolding dtype_of_tag_def by (rule map_of_swap [OF dtype_tags_distinct(2)])
  also have "\<dots> \<longleftrightarrow> dtype_tag d = t"
    using dtype_tag_entry [of d] dtype_tags_distinct(1) by (metis eq_key_imp_eq_value)
  finally show ?thesis .
qed

lemma dtype_tag_inject: "dtype_tag d = dtype_tag e \<longleftrightarrow> d = e"
  by (metis dtype_of_tag_iff option.inject)

instantiation dtype :: linorder
begin

definition less_eq_dtype :: "dtype \<Rightarrow> dtype \<Rightarrow> bool" where
  "less_eq_dtype d e \<longleftrightarrow> dtype_tag d \<le> dtype_tag e"

definition less_dtype :: "dtype \<Rightarrow> dtype \<Rightarrow> bool" where
  "less_dtype d e \<longleftrightarrow> dtype_tag d < dtype_tag e"

instance
  by standard (auto simp: less_eq_dtype_def less_dtype_def dtype_tag_inject)

end

lemmas dtype_tables = dtype_tags_def all_dtypes_def self_type_info_def lanes_cases_def
  bytes_cases_def name_cases_def quant_info_def basic_info_def block_layout_def small_layout_def
  scalar_layout_def QK_K_def K_SCALE_SIZE_def QK4_0_def QK8_0_def

lemma lanes_positive: "0 < lanesOfType d"
  by (cases d) (simp_all add: lanesOfType_def info_lanes_def dtype_tables)

lemma bytes_positive: "0 < bytesOfType d"
  by (cases d) (simp_all add: bytesOfType_def sizeof_def dtype_tables)

text \<open>The file tag of a data type identifies it: reading back a written tag gives the same type.\<close>

theorem dtype_tag_roundtrip: "dtype_of_tag (dtype_tag d) = Some d"
  by (simp add: dtype_of_tag_iff)

text \<open>
  \<^verbatim>\<open>bytesOfType\<close> agrees with the size of the declared C++ type for every data type that has one,
  but for the five 16-bit quantized types without a \<^verbatim>\<open>case\<close>: these count as one byte per element.
\<close>

theorem bytesOfType_wrong_exactly:
  "{d. \<exists>c. map_of self_type_info d = Some c \<and> bytesOfType d \<noteq> sizeof c} =
   {kInt16PerChannelSym, kUInt16PerChannelSym, kInt16PerTensorAsy, kInt16PerChannelAsy,
    kUInt16PerChannelAsy}" (is "?L = ?R")
proof -
  have "d \<in> ?L \<longleftrightarrow> d \<in> ?R" for d
    by (cases d) (simp_all add: bytesOfType_def sizeof_def dtype_tables)
  then show ?thesis by blast
qed

text \<open>
  A device name written by \<^verbatim>\<open>deviceTypes2Str\<close> is read back by \<^verbatim>\<open>str2DeviceType\<close> as the same
  device exactly for the seven devices both tables know; pinned CUDA memory is not among them.
\<close>

theorem device_name_roundtrip:
  "str2DeviceType (deviceTypes2Str d) = d \<longleftrightarrow>
     d \<in> {kCPU, kCUDA, kOpenCL, kQNN, kAscend, kAscendHost, kDeviceTypes_End}"
  by (cases d) (simp_all add: str2DeviceType_def)

lemma op_cases_distinct: "distinct (map fst op_cases)" "distinct (map snd op_cases)"
  unfolding op_cases_def by simp_all

lemma op_enum_cases: "\<forall>t \<in> set (map snd op_enum). t \<in> set (map fst op_cases)"
  unfolding op_cases_def op_enum_def by simp

text \<open>Two operation types with an enumerator are never printed the same way.\<close>

theorem optype2Str_inject:
  assumes "t \<in> set (map snd op_enum)" "u \<in> set (map snd op_enum)" "optype2Str t = optype2Str u"
  shows "t = u"
proof -
  have "t \<in> fst ` set op_cases" "u \<in> fst ` set op_cases" using assms(1,2) op_enum_cases by auto
  then obtain r s where rs: "(t, r) \<in> set op_cases" "(u, s) \<in> set op_cases" by force
  then have "map_of op_cases t = Some r" "map_of op_cases u = Some s"
    using op_cases_distinct(1) by simp_all
  with assms(3) have "r = s" by (simp add: optype2Str_def)
  then show ?thesis using rs op_cases_distinct(2) unfolding distinct_map
    by (metis inj_on_eq_iff prod.inject snd_conv)
qed

lemma optype2Str_inject_witness: "optype2Str 21 \<noteq> optype2Str 43"
proof -
  have "21 \<in> set (map snd op_enum)" "43 \<in> set (map snd op_enum)"
    by (simp_all add: op_enum_def)
  with optype2Str_inject show ?thesis by fastforce
qed

end
