(* ===== verification/Tensor_View.thy ===== *)
theory Tensor_View
  imports Data_Types
begin

text \<open>
  Tensors as views of a storage: \<^verbatim>\<open>mllm/core/TensorStorage.cpp\<close>, \<^verbatim>\<open>TensorViewImpl.{hpp,cpp}\<close> and the
  constructors of \<^verbatim>\<open>Tensor.cpp\<close>. A shape and a stride are lists of \<^verbatim>\<open>int32_t\<close>; arithmetic on them is
  checked for signed overflow, arithmetic on \<^verbatim>\<open>size_t\<close> is modulo \<open>2 ^ 64\<close>. The arrays of a view have
  sixteen entries: a write outside them is undefined.
\<close>

subsection \<open>State\<close>

record tstore =
  ts_uuid :: nat
  ts_size :: int
  ts_dtype :: dtype
  ts_device :: device

record view =
  v_shape :: "int list"
  v_stride :: "int list"
  v_offset :: int
  v_store :: tstore

text \<open>A tensor is a pointer to a view; \<open>None\<close> is \<^verbatim>\<open>Tensor::nil()\<close>.\<close>

type_synonym tensor = "view option"

definition max_rank :: nat where
  "max_rank = 16"

subsection \<open>Operations\<close>

definition numel_of :: "int list \<Rightarrow> int" where
  "numel_of shape = fold (\<lambda>d cnt. u64 (cnt * d)) shape 1"

definition TensorStorage_create :: "int list \<Rightarrow> dtype \<Rightarrow> device \<Rightarrow> nat \<Rightarrow> tstore outcome" where
  "TensorStorage_create shape dt dev u =
     (let cnt = numel_of shape; lanes = int (lanesOfType dt)
      in obind (rt_assert (cnt mod lanes = 0)) (\<lambda>_.
           Inr \<lparr>ts_uuid = u, ts_size = u64 (cnt div lanes * int (bytesOfType dt)),
                ts_dtype = dt, ts_device = dev\<rparr>))"

text \<open>
  The loop over the strides runs from the last dimension to the second one; \<open>acc_strides\<close> returns the
  product of the dimensions it has seen and their strides.
\<close>

fun acc_strides :: "int list \<Rightarrow> (int \<times> int list) outcome" where
  "acc_strides [] = Inr (1, [])"
| "acc_strides (d # ds) =
     obind (acc_strides ds) (\<lambda>(a, ss). obind (i32 (a * d)) (\<lambda>a'. Inr (a', a # ss)))"

definition view_strides :: "int list \<Rightarrow> int list outcome" where
  "view_strides shape =
     (case shape of
        [] \<Rightarrow> Inl Undefined
      | d # ds \<Rightarrow> obind (acc_strides ds) (\<lambda>(a, ss). Inr (a # ss)))"

definition view_create :: "int \<Rightarrow> int list \<Rightarrow> tstore \<Rightarrow> view outcome" where
  "view_create off shape st =
     (if max_rank < length shape then Inl Undefined
      else obind (view_strides shape) (\<lambda>ss.
             Inr \<lparr>v_shape = shape, v_stride = ss, v_offset = off, v_store = st\<rparr>))"

definition view_create0 :: "int list \<Rightarrow> tstore \<Rightarrow> view outcome" where
  "view_create0 shape st = view_create 0 shape st"

definition view_create_strided :: "int \<Rightarrow> int list \<Rightarrow> int list \<Rightarrow> tstore \<Rightarrow> view outcome" where
  "view_create_strided off shape stride st =
     (if max_rank < length shape \<or> max_rank < length stride \<or> length stride < length shape
      then Inl Undefined
      else Inr \<lparr>v_shape = shape, v_stride = take (length shape) stride, v_offset = off, v_store = st\<rparr>)"

definition view_clone :: "view \<Rightarrow> view" where
  "view_clone v =
     \<lparr>v_shape = v_shape v, v_stride = v_stride v, v_offset = v_offset v, v_store = v_store v\<rparr>"

definition tensor_empty :: "int list \<Rightarrow> dtype \<Rightarrow> device \<Rightarrow> nat \<Rightarrow> tensor outcome" where
  "tensor_empty shape dt dev u =
     obind (TensorStorage_create shape dt dev u) (\<lambda>st.
       obind (view_create0 shape st) (\<lambda>v. Inr (Some v)))"

definition impl :: "tensor \<Rightarrow> view outcome" where
  "impl t = (case t of None \<Rightarrow> Inl Undefined | Some v \<Rightarrow> Inr v)"

definition v_dtype :: "view \<Rightarrow> dtype" where "v_dtype v = ts_dtype (v_store v)"
definition v_device :: "view \<Rightarrow> device" where "v_device v = ts_device (v_store v)"

definition numel :: "view \<Rightarrow> int" where
  "numel v = numel_of (v_shape v)"

definition tensor_emptyLike :: "tensor \<Rightarrow> nat \<Rightarrow> tensor outcome" where
  "tensor_emptyLike t u =
     obind (impl t) (\<lambda>v. tensor_empty (v_shape v) (v_dtype v) (v_device v) u)"

definition tensor_size :: "view \<Rightarrow> int \<Rightarrow> int outcome" where
  "tensor_size v i = vec_at (v_shape v) (if i < 0 then int (length (v_shape v)) + i else i)"

fun check_strides :: "int \<Rightarrow> (int \<times> int) list \<Rightarrow> bool outcome" where
  "check_strides e [] = Inr True"
| "check_strides e ((d, s) # ps) =
     (if s \<noteq> e then Inr False else obind (i32 (e * d)) (\<lambda>e'. check_strides e' ps))"

definition isContiguous :: "view \<Rightarrow> bool outcome" where
  "isContiguous v =
     (if v_shape v = [] then Inr True else check_strides 1 (rev (zip (v_shape v) (v_stride v))))"

definition isContiguousN :: "view \<Rightarrow> int \<Rightarrow> bool outcome" where
  "isContiguousN v n =
     (if n \<le> 0 then Inr True
      else if v_shape v = [] then Inr True
      else (let m = (if int (length (v_shape v)) < n then length (v_shape v) else nat n)
            in check_strides 1 (take m (rev (zip (v_shape v) (v_stride v))))))"

text \<open>Addresses: \<open>base\<close> is the pointer of the storage.\<close>

definition byte_offset :: "dtype \<Rightarrow> int \<Rightarrow> int" where
  "byte_offset dt off = u64 (u64 off div int (lanesOfType dt) * int (bytesOfType dt))"

definition barePtr :: "int \<Rightarrow> view \<Rightarrow> int" where
  "barePtr base v = base + byte_offset (v_dtype v) (v_offset v)"

definition elem_offset :: "int list \<Rightarrow> int list \<Rightarrow> int outcome" where
  "elem_offset idx stride =
     ofold (\<lambda>(i, s) a. obind (i32 (i * s)) (\<lambda>p. i32 (a + p))) (zip idx stride) 0"

definition offsettedPtr :: "int \<Rightarrow> view \<Rightarrow> int list \<Rightarrow> int outcome" where
  "offsettedPtr base v idx =
     obind (rt_assert (length idx = length (v_shape v))) (\<lambda>_.
       obind (elem_offset idx (v_stride v)) (\<lambda>off.
         Inr (barePtr base v + byte_offset (v_dtype v) off)))"

subsection \<open>Row-major addressing\<close>

fun rm_strides :: "int list \<Rightarrow> int list" where
  "rm_strides [] = []"
| "rm_strides (d # ds) = prod_list ds # rm_strides ds"

fun dot :: "int list \<Rightarrow> int list \<Rightarrow> int" where
  "dot (i # is) (s # ss) = i * s + dot is ss"
| "dot _ _ = 0"

definition in_range :: "int list \<Rightarrow> int list \<Rightarrow> bool" where
  "in_range idx shape = list_all2 (\<lambda>i d. 0 \<le> i \<and> i < d) idx shape"

lemma in_range_simps [simp]:
  "in_range [] ds \<longleftrightarrow> ds = []" "in_range is [] \<longleftrightarrow> is = []"
  "in_range (i # is) (d # ds) \<longleftrightarrow> 0 \<le> i \<and> i < d \<and> in_range is ds"
  by (auto simp: in_range_def)

lemma in_range_length: "in_range is ds \<Longrightarrow> length is = length ds"
  unfolding in_range_def by (rule list_all2_lengthD)

lemma length_rm_strides [simp]: "length (rm_strides ds) = length ds"
  by (induction ds) simp_all

lemma dot_bounds: "in_range is ds \<Longrightarrow> 0 \<le> dot is (rm_strides ds) \<and> dot is (rm_strides ds) < prod_list ds"
proof (induction "is" ds rule: list_induct2')
  case (4 i "is" d ds)
  then have b: "0 \<le> dot is (rm_strides ds)" "dot is (rm_strides ds) < prod_list ds" "0 \<le> i" "i < d" by auto
  have "i * prod_list ds + dot is (rm_strides ds) < (i + 1) * prod_list ds"
    using b by (simp add: distrib_right)
  also have "\<dots> \<le> d * prod_list ds" using b by (intro mult_right_mono) auto
  finally show ?case using b by simp
qed auto

lemma dot_inject:
  "in_range is ds \<Longrightarrow> in_range js ds \<Longrightarrow> dot is (rm_strides ds) = dot js (rm_strides ds) \<Longrightarrow> is = js"
proof (induction ds arbitrary: "is" js)
  case (Cons d ds)
  then obtain i is' j js' where ij: "is = i # is'" "js = j # js'"
    by (metis in_range_length length_Suc_conv)
  let ?P = "prod_list ds" and ?a = "dot is' (rm_strides ds)" and ?b = "dot js' (rm_strides ds)"
  have r: "in_range is' ds" "in_range js' ds" using Cons.prems ij by auto
  note ba = dot_bounds [OF r(1)] and bb = dot_bounds [OF r(2)]
  have eq: "i * ?P + ?a = j * ?P + ?b" using Cons.prems(3) ij by simp
  have "i = (i * ?P + ?a) div ?P" using ba by (simp add: div_add1_eq)
  moreover have "j = (j * ?P + ?b) div ?P" using bb by (simp add: div_add1_eq)
  ultimately have "i = j" using eq by simp
  with eq Cons.IH [OF r] ij show ?case by simp
qed auto

text \<open>A shape that a tensor can have: positive dimensions, fewer than \<open>2 ^ 31\<close> elements.\<close>

definition shape_ok :: "int list \<Rightarrow> bool" where
  "shape_ok ds \<longleftrightarrow> ds \<noteq> [] \<and> length ds \<le> max_rank \<and> (\<forall>d \<in> set ds. 0 < d) \<and> prod_list ds < 2 ^ 31"

lemma prod_list_pos: "\<forall>d \<in> set ds. 0 < d \<Longrightarrow> 0 < prod_list (ds :: int list)"
  by (induction ds) simp_all

lemma prod_list_tail_le:
  assumes "\<forall>x \<in> set (d # ds). 0 < x"
  shows "prod_list ds \<le> prod_list (d # ds :: int list)"
  using assms prod_list_pos [of ds] mult_right_mono [of 1 d "prod_list ds"] by simp

lemma acc_strides_Inr: "acc_strides ds = Inr (a, ss) \<Longrightarrow> a = prod_list ds \<and> ss = rm_strides ds"
  by (induction ds arbitrary: a ss) (auto simp: outcome_simps)

lemma acc_strides_total:
  "\<forall>d \<in> set ds. 0 < d \<Longrightarrow> prod_list ds < 2 ^ 31 \<Longrightarrow> acc_strides ds = Inr (prod_list ds, rm_strides ds)"
proof (induction ds)
  case (Cons d ds)
  have "prod_list ds \<le> prod_list (d # ds)" by (rule prod_list_tail_le) (use Cons.prems in auto)
  then have "acc_strides ds = Inr (prod_list ds, rm_strides ds)" using Cons by simp
  moreover have "0 < prod_list (d # ds)" by (rule prod_list_pos) (use Cons.prems in auto)
  ultimately show ?case using Cons.prems(2) by (simp add: i32_def mult.commute)
qed simp

lemma view_strides_Inr: "view_strides shape = Inr ss \<Longrightarrow> ss = rm_strides shape \<and> shape \<noteq> []"
  by (cases shape) (auto simp: view_strides_def outcome_simps dest: acc_strides_Inr)

lemma view_strides_total: "shape_ok shape \<Longrightarrow> view_strides shape = Inr (rm_strides shape)"
proof (cases shape)
  case (Cons d ds)
  assume ok: "shape_ok shape"
  then have "prod_list ds \<le> prod_list shape"
    unfolding Cons by (intro prod_list_tail_le) (simp add: shape_ok_def)
  with ok have "acc_strides ds = Inr (prod_list ds, rm_strides ds)"
    by (intro acc_strides_total) (auto simp: shape_ok_def Cons)
  then show ?thesis by (simp add: view_strides_def Cons)
qed (simp add: shape_ok_def)

lemma view_create_total:
  "shape_ok shape \<Longrightarrow> view_create off shape st =
     Inr \<lparr>v_shape = shape, v_stride = rm_strides shape, v_offset = off, v_store = st\<rparr>"
  using view_strides_total by (simp add: view_create_def shape_ok_def)

lemma fold_u64: "fold (\<lambda>d cnt. u64 (cnt * d)) ds c = (if ds = [] then c else u64 (c * prod_list ds))"
  by (induction ds arbitrary: c) (simp_all add: u64_def mod_mult_left_eq mult.assoc)

lemma numel_of_eq: "numel_of ds = u64 (prod_list ds)"
  unfolding numel_of_def fold_u64 by (simp add: u64_def)

lemma numel_of_shape_ok: "shape_ok ds \<Longrightarrow> numel_of ds = prod_list ds"
  using prod_list_pos [of ds] by (simp add: numel_of_eq shape_ok_def u64_def)

lemma check_strides_snoc:
  "check_strides e (ps @ [(d, s)]) = (case check_strides e ps of Inl f \<Rightarrow> Inl f | Inr b \<Rightarrow>
     (if \<not> b then Inr False
      else if s \<noteq> e * prod_list (map fst ps) then Inr False
      else obind (i32 (e * prod_list (map fst ps) * d)) (\<lambda>_. Inr True)))"
proof (induction e ps rule: check_strides.induct)
  case (2 e d' s' ps)
  show ?case
  proof (cases "i32 (e * d')")
    case (Inr x)
    then have "x = e * d'" by (simp add: i32_Inr)
    with 2 Inr show ?thesis by (simp add: mult.assoc split: sum.split)
  qed simp
qed simp

lemma prod_list_rev_zip:
  "length ss = length ds \<Longrightarrow> prod_list (map fst (rev (zip ds ss))) = (prod_list ds :: int)"
  by (simp add: rev_map [symmetric] prod_list.rev)

lemma check_strides_iff:
  assumes "length ss = length ds" "\<forall>d \<in> set ds. 0 < d" "prod_list ds < 2 ^ 31"
  shows "check_strides 1 (rev (zip ds ss)) = Inr (ss = rm_strides ds)"
  using assms
proof (induction ds arbitrary: ss)
  case (Cons d ds)
  then obtain s ss' where ss: "ss = s # ss'" "length ss' = length ds" by (cases ss) auto
  have le: "prod_list ds \<le> prod_list (d # ds)" by (rule prod_list_tail_le) (use Cons.prems in auto)
  have IH: "check_strides 1 (rev (zip ds ss')) = Inr (ss' = rm_strides ds)"
    using Cons ss le by auto
  have pos: "0 < prod_list (d # ds)" by (rule prod_list_pos) (use Cons.prems in auto)
  have i: "i32 (prod_list ds * d) = Inr (prod_list ds * d)"
    using pos Cons.prems(3) by (simp add: i32_def mult.commute)
  show ?case
    by (simp add: ss(1) check_strides_snoc IH prod_list_rev_zip ss(2) i)
qed simp

lemma isContiguous_iff:
  assumes "shape_ok (v_shape v)" "length (v_stride v) = length (v_shape v)"
  shows "isContiguous v = Inr (v_stride v = rm_strides (v_shape v))"
  using assms check_strides_iff [of "v_stride v" "v_shape v"] by (simp add: isContiguous_def shape_ok_def)

subsection \<open>The address of an element\<close>

lemma elem_offset_fold:
  "elem_offset idx ss = ofold (\<lambda>(i, s) a. obind (i32 (i * s)) (\<lambda>p. i32 (a + p))) (zip idx ss) 0"
  by (simp add: elem_offset_def)

lemma elem_offset_acc:
  assumes "in_range is ds" "\<forall>d \<in> set ds. 0 < d" "0 \<le> a" "a + prod_list ds \<le> 2 ^ 31"
  shows "ofold (\<lambda>(i, s) a. obind (i32 (i * s)) (\<lambda>p. i32 (a + p))) (zip is (rm_strides ds)) a
    = Inr (a + dot is (rm_strides ds))"
  using assms
proof (induction ds arbitrary: "is" a)
  case (Cons d ds)
  then obtain i is' where is': "is = i # is'" by (metis in_range_length length_Suc_conv)
  let ?P = "prod_list ds"
  have r: "in_range is' ds" "0 \<le> i" "i < d" using Cons.prems(1) is' by auto
  have P: "0 < ?P" using Cons.prems(2) by (intro prod_list_pos) simp
  have "(i + 1) * ?P \<le> d * ?P" using r P by (intro mult_right_mono) auto
  then have le: "i * ?P + ?P \<le> d * ?P" by (simp add: distrib_right)
  have ge: "0 \<le> i * ?P" using r P by simp
  have b: "a + i * ?P + ?P \<le> 2 ^ 31" using le Cons.prems(4) by simp
  have "i32 (i * ?P) = Inr (i * ?P)" "i32 (a + i * ?P) = Inr (a + i * ?P)"
    using ge b P Cons.prems(3) by (simp_all add: i32_def)
  moreover have "ofold (\<lambda>(i, s) a. obind (i32 (i * s)) (\<lambda>p. i32 (a + p))) (zip is' (rm_strides ds))
      (a + i * ?P) = Inr (a + i * ?P + dot is' (rm_strides ds))"
    using Cons.prems ge b by (intro Cons.IH r(1)) auto
  ultimately show ?case by (simp add: is')
qed simp

lemma elem_offset_rm:
  "in_range is ds \<Longrightarrow> shape_ok ds \<Longrightarrow> elem_offset is (rm_strides ds) = Inr (dot is (rm_strides ds))"
  using elem_offset_acc [of "is" ds 0] by (simp add: elem_offset_def shape_ok_def)

lemma tensor_empty_ok:
  assumes "shape_ok shape" "lanesOfType dt = 1"
  shows "tensor_empty shape dt dev u = Inr (Some \<lparr>v_shape = shape, v_stride = rm_strides shape,
    v_offset = 0, v_store = \<lparr>ts_uuid = u, ts_size = u64 (prod_list shape * int (bytesOfType dt)),
      ts_dtype = dt, ts_device = dev\<rparr>\<rparr>)"
  using assms by (simp add: tensor_empty_def TensorStorage_create_def numel_of_shape_ok
      view_create0_def view_create_total)

lemma bytes_bound: "bytesOfType d \<le> 292"
  by (cases d) (simp_all add: bytesOfType_def sizeof_def dtype_tables)

lemma shape_ok_total: "shape_ok ds \<Longrightarrow> 0 < prod_list ds \<and> prod_list ds < 2 ^ 31"
  using prod_list_pos by (auto simp: shape_ok_def)

lemma byte_offset_small:
  assumes "lanesOfType dt = 1" "0 \<le> off" "off < 2 ^ 31"
  shows "byte_offset dt off = off * int (bytesOfType dt)"
proof -
  have "int (bytesOfType dt) \<le> 292" using bytes_bound [of dt] by simp
  then have "off * int (bytesOfType dt) \<le> 2 ^ 31 * 292" using assms by (intro mult_mono) auto
  then show ?thesis using assms by (simp add: byte_offset_def u64_id)
qed

lemma elem_in_storage:
  assumes ok: "shape_ok shape" and l: "lanesOfType dt = 1" and r: "in_range idx shape"
    and v: "tensor_empty shape dt dev u = Inr (Some v)"
  shows "offsettedPtr base v idx = Inr (base + dot idx (rm_strides shape) * int (bytesOfType dt))"
    "dot idx (rm_strides shape) * int (bytesOfType dt) + int (bytesOfType dt) \<le> ts_size (v_store v)"
proof -
  let ?k = "dot idx (rm_strides shape)" and ?B = "int (bytesOfType dt)"
  have ve: "v = \<lparr>v_shape = shape, v_stride = rm_strides shape, v_offset = 0, v_store =
      \<lparr>ts_uuid = u, ts_size = u64 (prod_list shape * ?B), ts_dtype = dt, ts_device = dev\<rparr>\<rparr>"
    using v tensor_empty_ok [OF ok l] by simp
  have k: "0 \<le> ?k" "?k < prod_list shape" using dot_bounds [OF r] by auto
  have P: "prod_list shape < 2 ^ 31" using shape_ok_total [OF ok] by simp
  have "byte_offset dt 0 = 0" "byte_offset dt ?k = ?k * ?B"
    using byte_offset_small [OF l] k P by simp_all
  then show "offsettedPtr base v idx = Inr (base + ?k * ?B)"
    using in_range_length [OF r] elem_offset_rm [OF r ok]
    by (simp add: offsettedPtr_def barePtr_def v_dtype_def ve)
  have B: "0 < ?B" "?B \<le> 292" using bytes_positive [of dt] bytes_bound [of dt] by simp_all
  have "prod_list shape * ?B \<le> 2 ^ 31 * 292" using P B shape_ok_total [OF ok] by (intro mult_mono) auto
  then have "ts_size (v_store v) = prod_list shape * ?B"
    using shape_ok_total [OF ok] B by (simp add: ve u64_id)
  moreover have "(?k + 1) * ?B \<le> prod_list shape * ?B" using k B by (intro mult_right_mono) auto
  ultimately show "?k * ?B + ?B \<le> ts_size (v_store v)" by (simp add: distrib_right)
qed

subsection \<open>Properties\<close>

text \<open>
  C6: in a freshly made tensor of unquantized elements every index within the shape has its own
  element: the addresses of two different indices are at least an element apart, and all elements
  lie within the bytes of the storage.
\<close>

theorem elements_addressable:
  assumes "shape_ok shape" "lanesOfType dt = 1" "in_range idx shape" "in_range jdx shape"
    and "tensor_empty shape dt dev u = Inr (Some v)"
  shows "\<exists>a b. offsettedPtr base v idx = Inr a \<and> offsettedPtr base v jdx = Inr b \<and>
    base \<le> a \<and> a + int (bytesOfType dt) \<le> base + ts_size (v_store v) \<and>
    (idx \<noteq> jdx \<longrightarrow> a + int (bytesOfType dt) \<le> b \<or> b + int (bytesOfType dt) \<le> a)"
proof -
  let ?i = "dot idx (rm_strides shape)" and ?j = "dot jdx (rm_strides shape)" and ?B = "int (bytesOfType dt)"
  note e = elem_in_storage [OF assms(1,2) _ assms(5)]
  have "?i \<noteq> ?j" if "idx \<noteq> jdx" using dot_inject [OF assms(3,4)] that by blast
  moreover have "?i * ?B + ?B \<le> ?j * ?B" if "?i < ?j"
    using mult_right_mono [of "?i + 1" ?j ?B] that by (simp add: distrib_right)
  moreover have "?j * ?B + ?B \<le> ?i * ?B" if "?j < ?i"
    using mult_right_mono [of "?j + 1" ?i ?B] that by (simp add: distrib_right)
  ultimately have "idx \<noteq> jdx \<longrightarrow> ?i * ?B + ?B \<le> ?j * ?B \<or> ?j * ?B + ?B \<le> ?i * ?B" by linarith
  moreover have "0 \<le> ?i * ?B" using dot_bounds [OF assms(3)] by simp
  ultimately show ?thesis
    using e(1) [OF assms(3)] e(1) [OF assms(4)] e(2) [OF assms(3)]
    by (intro exI [of _ "base + ?i * ?B"] exI [of _ "base + ?j * ?B"]) auto
qed

lemma elements_addressable_witness:
  "\<exists>v a b. tensor_empty [2, 3] kFloat32 kCPU 7 = Inr (Some v) \<and> offsettedPtr 64 v [1, 2] = Inr a \<and>
     offsettedPtr 64 v [0, 2] = Inr b \<and> (a + 4 \<le> b \<or> b + 4 \<le> a)"
proof -
  have ok: "shape_ok [2, 3]" "lanesOfType kFloat32 = 1" "in_range [1, 2] [2, 3]" "in_range [0, 2] [2, 3]"
    "bytesOfType kFloat32 = 4"
    by (simp_all add: shape_ok_def max_rank_def lanesOfType_def info_lanes_def bytesOfType_def
        sizeof_def dtype_tables)
  obtain v where v: "tensor_empty [2, 3] kFloat32 kCPU 7 = Inr (Some v)"
    using tensor_empty_ok [OF ok(1,2)] by blast
  from elements_addressable [OF ok(1-4) v, of 64] v ok(5) show ?thesis by auto
qed

text \<open>
  \<^verbatim>\<open>isContiguous\<close> decides exactly whether the strides are the row-major ones, and on all
  dimensions \<^verbatim>\<open>isContiguousN\<close> gives the same answer.
\<close>

theorem isContiguous_exact:
  assumes "shape_ok (v_shape v)" "length (v_stride v) = length (v_shape v)"
    and "int (length (v_shape v)) \<le> n"
  shows "isContiguous v = Inr (v_stride v = rm_strides (v_shape v)) \<and>
    isContiguousN v n = isContiguous v"
proof -
  have ne: "v_shape v \<noteq> []" using assms(1) by (simp add: shape_ok_def)
  then have "0 < n" using assms(3) by (cases "v_shape v") auto
  with ne have "isContiguousN v n = isContiguous v"
    using assms(2,3) by (simp add: isContiguousN_def isContiguous_def)
  with isContiguous_iff [OF assms(1,2)] show ?thesis by simp
qed

lemma isContiguous_exact_witness:
  "isContiguous \<lparr>v_shape = [2, 3], v_stride = [1, 2], v_offset = 0, v_store =
     \<lparr>ts_uuid = 0, ts_size = 24, ts_dtype = kFloat32, ts_device = kCPU\<rparr>\<rparr> = Inr False"
  using isContiguous_exact [of "\<lparr>v_shape = [2, 3], v_stride = [1, 2], v_offset = 0, v_store =
     \<lparr>ts_uuid = 0, ts_size = 24, ts_dtype = kFloat32, ts_device = kCPU\<rparr>\<rparr>" 2]
  by (simp add: shape_ok_def max_rank_def)

end
