(* ===== verification/View_Ops.thy ===== *)
theory View_Ops
  imports Tensor_View "HOL-Library.Signed_Division"
begin

text \<open>
  The operations that return another view of the same storage, \<^verbatim>\<open>mllm/core/aops/ViewOp.cpp\<close>,
  \<^verbatim>\<open>SliceOp.cpp\<close> and \<^verbatim>\<open>SplitOp.cpp\<close>, and the methods of \<^verbatim>\<open>Tensor.cpp\<close> that build on them. An
  operation is its \<^verbatim>\<open>reshape\<close> method: inputs and options to outputs. \<open>u\<close> is the identifier the
  context hands to the next storage.
\<close>

subsection \<open>ViewOp\<close>

definition i64 :: "int \<Rightarrow> int outcome" where
  "i64 x = (if - (2 ^ 63) \<le> x \<and> x < 2 ^ 63 then Inr x else Inl Undefined)"

definition to_i64 :: "int \<Rightarrow> int" where
  "to_i64 x = (x + 2 ^ 63) mod 2 ^ 64 - 2 ^ 63"

text \<open>The loop over the requested shape: the position of the dimension to infer (-1 if none) and the product of the others.\<close>

fun view_scan :: "int list \<Rightarrow> nat \<Rightarrow> int \<Rightarrow> int \<Rightarrow> (int \<times> int) outcome" where
  "view_scan [] i infer product = Inr (infer, product)"
| "view_scan (d # ds) i infer product =
     (if d = -1 then obind (rt_assert (infer = -1)) (\<lambda>_. view_scan ds (Suc i) (int i) product)
      else obind (rt_assert (0 \<le> d)) (\<lambda>_. view_scan ds (Suc i) infer (u64 (product * d))))"

definition view_infer :: "int list \<Rightarrow> int \<Rightarrow> int \<Rightarrow> int \<Rightarrow> int list outcome" where
  "view_infer to_shape n infer product =
     (if infer \<noteq> -1 then
        obind (rt_assert (product \<noteq> 0)) (\<lambda>_.
          obind (rt_assert (n mod product = 0)) (\<lambda>_.
            Inr (to_shape[nat infer := to_i32 (n div product)])))
      else Inr to_shape)"

definition view_shape :: "int list \<Rightarrow> int \<Rightarrow> int list outcome" where
  "view_shape to_shape n =
     obind (view_scan to_shape 0 (-1) 1) (\<lambda>(infer, product).
       obind (view_infer to_shape n infer product) (\<lambda>actual.
         obind (ofold (\<lambda>d a. i32 (a * d)) actual 1) (\<lambda>new_numel.
           obind (rt_assert (to_i64 n = new_numel)) (\<lambda>_. Inr actual))))"

text \<open>From the last dimension; a dimension of size one leaves the expected stride as it is.\<close>

fun view_contiguous :: "int \<Rightarrow> (int \<times> int) list \<Rightarrow> bool" where
  "view_contiguous c [] = True"
| "view_contiguous c ((d, s) # ps) =
     (if s \<noteq> c then False else view_contiguous (if d \<noteq> 1 then c * d else c) ps)"

fun view_new_strides :: "int list \<Rightarrow> (int \<times> int list) outcome" where
  "view_new_strides [] = Inr (1, [])"
| "view_new_strides (d # ds) =
     obind (view_new_strides ds) (\<lambda>(a, ss). obind (i64 (a * d)) (\<lambda>a'. Inr (a', to_i32 a # ss)))"

text \<open>The exit code of the last branch is the value of the failed condition, zero.\<close>

definition ViewOp_reshape :: "int list \<Rightarrow> bool \<Rightarrow> nat \<Rightarrow> tensor \<Rightarrow> tensor outcome" where
  "ViewOp_reshape to_shape enable_ssa u t =
     obind (impl t) (\<lambda>it.
       obind (view_shape to_shape (numel it)) (\<lambda>actual.
         if v_shape it = actual then
           obind (view_create_strided (v_offset it) (v_shape it) (v_stride it) (v_store it)) (\<lambda>w. Inr (Some w))
         else if view_contiguous 1 (rev (zip (v_shape it) (v_stride it))) then
           obind (view_new_strides actual) (\<lambda>(_, ss).
             obind (view_create_strided (v_offset it) actual ss (v_store it)) (\<lambda>w.
               if \<not> enable_ssa then Inr (Some w) else tensor_emptyLike (Some w) u))
         else Inl (Exit kSuccess)))"

subsection \<open>Tensor methods on top of it\<close>

definition tensor_view :: "int list \<Rightarrow> bool \<Rightarrow> nat \<Rightarrow> tensor \<Rightarrow> tensor outcome" where
  "tensor_view shape enable_ssa u t = ViewOp_reshape shape enable_ssa u t"

definition unsqueeze :: "int \<Rightarrow> bool \<Rightarrow> nat \<Rightarrow> tensor \<Rightarrow> tensor outcome" where
  "unsqueeze dim enable_ssa u t =
     obind (impl t) (\<lambda>it.
       let shape = v_shape it;
           d = (if dim < 0 then int (length shape) + dim + 1 else dim)
       in if 0 \<le> d \<and> d \<le> int (length shape)
          then tensor_view (take (nat d) shape @ [1] @ drop (nat d) shape) enable_ssa u t
          else Inl Undefined)"

definition squeeze :: "int \<Rightarrow> bool \<Rightarrow> nat \<Rightarrow> tensor \<Rightarrow> tensor outcome" where
  "squeeze dim enable_ssa u t =
     obind (impl t) (\<lambda>it.
       let shape = v_shape it in
       if dim = 0x7fffffff then
         (let ns = filter (\<lambda>d. d \<noteq> 1) shape
          in tensor_view (if ns = [] \<and> shape \<noteq> [] then [1] else ns) enable_ssa u t)
       else
         (let d = (if dim < 0 then dim + int (length shape) else dim)
          in if d < 0 \<or> int (length shape) \<le> d then Inr t
             else if shape ! nat d = 1
                  then tensor_view (take (nat d) shape @ drop (Suc (nat d)) shape) enable_ssa u t
                  else Inr t))"

definition flatten_tail :: "int list \<Rightarrow> int outcome" where
  "flatten_tail ds = ofold (\<lambda>d a. i32 (a * d)) ds 1"

definition tensor_flatten :: "int \<Rightarrow> bool \<Rightarrow> nat \<Rightarrow> tensor \<Rightarrow> tensor outcome" where
  "tensor_flatten dim enable_ssa u t =
     obind (impl t) (\<lambda>it.
       let shape = v_shape it; ndim = int (length shape) in
       if dim = 0x7fffffff then obind (flatten_tail shape) (\<lambda>total. tensor_view [total] False u t)
       else if ndim = 0 then tensor_view [1] enable_ssa u t
       else
         (let d = (if dim < 0 then dim + ndim else dim)
          in if d < 0 \<or> ndim \<le> d then Inl (Throw ''flatten dim out of range'')
             else obind (flatten_tail (drop (nat d) shape)) (\<lambda>n.
                    tensor_view (take (nat d) shape @ [n]) enable_ssa u t)))"

subsection \<open>SliceOp\<close>

definition kAll :: int where "kAll = 0x7FFFFFF1"

record slice_pair =
  sl_start :: int
  sl_end :: int
  sl_step :: int

definition slice_of_index :: "int \<Rightarrow> slice_pair outcome" where
  "slice_of_index v =
     obind (i32 (v + 1)) (\<lambda>e.
       Inr (if v = kAll then \<lparr>sl_start = kAll, sl_end = kAll, sl_step = 1\<rparr>
            else \<lparr>sl_start = v, sl_end = e, sl_step = 1\<rparr>))"

text \<open>
  One dimension of size \<open>d\<close>: the normalised start and the number of elements. A step below one only
  prints a message; the division by a zero step is undefined, and happens only on a non-empty range.
\<close>

definition slice_normalise :: "int \<Rightarrow> slice_pair \<Rightarrow> (int \<times> int) outcome" where
  "slice_normalise d p =
     (let s0 = (if sl_start p = kAll then 0 else sl_start p);
          e0 = (if sl_end p = kAll then d else sl_end p)
      in obind (if s0 < 0 \<and> e0 \<noteq> kAll then obind (i32 (e0 - s0)) (\<lambda>w. Inr (w = 1)) else Inr False) (\<lambda>one.
         obind (if one then obind (i32 (s0 + d)) (\<lambda>s. obind (i32 (e0 + d)) (\<lambda>e. Inr (s, e)))
                else Inr (s0, e0)) (\<lambda>(s1, e1).
         obind (if s1 < 0 then i32 (s1 + d) else Inr s1) (\<lambda>s2.
         obind (if e1 < 0 then i32 (e1 + d) else Inr e1) (\<lambda>e2. Inr (s2, e2))))))"

definition slice_count :: "int \<Rightarrow> int \<Rightarrow> int \<Rightarrow> int outcome" where
  "slice_count s e step =
     (if s < e then
        obind (i32 (e - s)) (\<lambda>w. obind (i32 (w + step)) (\<lambda>w1. obind (i32 (w1 - 1)) (\<lambda>w2.
          if step = 0 then Inl Undefined else Inr (w2 sdiv step))))
      else Inr 0)"

fun slice_dims ::
  "(int \<times> int \<times> slice_pair) list \<Rightarrow> int \<Rightarrow> (int \<times> (int \<times> int) list) outcome" where
  "slice_dims [] off = Inr (off, [])"
| "slice_dims ((d, st, p) # ds) off =
     obind (slice_normalise d p) (\<lambda>(s, e).
       obind (slice_count s e (sl_step p)) (\<lambda>n.
         obind (i32 (s * st)) (\<lambda>m.
           obind (i32 (off + m)) (\<lambda>off'.
             obind (i32 (st * sl_step p)) (\<lambda>st'.
               obind (slice_dims ds off') (\<lambda>(off'', rest). Inr (off'', (n, st') # rest)))))))"

definition SliceOp_reshape :: "slice_pair list \<Rightarrow> bool \<Rightarrow> nat \<Rightarrow> tensor \<Rightarrow> tensor outcome" where
  "SliceOp_reshape indices enable_ssa u t =
     obind (impl t) (\<lambda>it.
       obind (rt_assert (length indices = length (v_shape it))) (\<lambda>_.
         obind (slice_dims (zip (v_shape it) (zip (v_stride it) indices)) (v_offset it)) (\<lambda>(off, ds).
           obind (view_create_strided off (map fst ds) (map snd ds) (v_store it)) (\<lambda>w.
             if \<not> enable_ssa then Inr (Some w) else tensor_emptyLike (Some w) u))))"

subsection \<open>SplitOp\<close>

text \<open>The sizes of the sections: one size repeated, or the listed sizes.\<close>

definition split_sections :: "int list \<Rightarrow> int \<Rightarrow> int list outcome" where
  "split_sections sizes d =
     (if length sizes = 1 then
        (let s = sizes ! 0 in
         if s = 0 then Inl Undefined
         else obind (rt_assert (d smod s = 0)) (\<lambda>_. Inr (replicate (nat (d sdiv s)) s)))
      else
        obind (ofold (\<lambda>s c. i32 (c + s)) sizes 0) (\<lambda>cnt.
          obind (rt_assert (cnt = d)) (\<lambda>_. Inr sizes)))"

fun split_views :: "int \<Rightarrow> view \<Rightarrow> int list \<Rightarrow> int \<Rightarrow> tensor list outcome" where
  "split_views dim it [] pos = Inr []"
| "split_views dim it (s # ss) pos =
     obind (vec_set (v_shape it) dim s) (\<lambda>shape.
       obind (vec_at (v_stride it) dim) (\<lambda>st.
         obind (i32 (pos * st)) (\<lambda>m.
           obind (i32 (v_offset it + m)) (\<lambda>off.
             obind (view_create_strided off shape (v_stride it) (v_store it)) (\<lambda>w.
               obind (i32 (pos + s)) (\<lambda>pos'.
                 obind (split_views dim it ss pos') (\<lambda>ws. Inr (Some w # ws))))))))"

definition SplitOp_reshape :: "int \<Rightarrow> int list \<Rightarrow> tensor \<Rightarrow> tensor list outcome" where
  "SplitOp_reshape dim sizes t =
     obind (impl t) (\<lambda>it.
       let d = (if dim < 0 then int (length (v_shape it)) + dim else dim)
       in obind (vec_at (v_shape it) d) (\<lambda>n.
            obind (split_sections sizes n) (\<lambda>sections. split_views d it sections 0)))"

subsection \<open>What a view keeps\<close>

lemma view_scan_spec:
  "view_scan ds i infer product = Inr (q, p) \<Longrightarrow> -1 \<le> infer \<Longrightarrow>
     q = infer \<and> (\<forall>d \<in> set ds. 0 \<le> d) \<or>
     infer = -1 \<and> (\<exists>k < length ds. q = int (i + k) \<and> ds ! k = -1 \<and>
       (\<forall>j < length ds. j \<noteq> k \<longrightarrow> 0 \<le> ds ! j))"
proof (induction ds i infer product rule: view_scan.induct)
  case (2 d ds i infer product)
  show ?case
  proof (cases "d = -1")
    case True
    with 2 have "infer = -1" "q = int i" "\<forall>d \<in> set ds. 0 \<le> d" by (auto simp: outcome_simps)
    with True show ?thesis
      by (intro disjI2 conjI exI [of _ 0]) (auto simp: nth_Cons split: nat.splits)
  next
    case False
    with 2 have d: "0 \<le> d" and
      IH: "q = infer \<and> (\<forall>d \<in> set ds. 0 \<le> d) \<or>
        infer = -1 \<and> (\<exists>k < length ds. q = int (Suc i + k) \<and> ds ! k = -1 \<and>
          (\<forall>j < length ds. j \<noteq> k \<longrightarrow> 0 \<le> ds ! j))"
      by (auto simp: outcome_simps)
    from IH show ?thesis
    proof
      assume "infer = -1 \<and> (\<exists>k < length ds. q = int (Suc i + k) \<and> ds ! k = -1 \<and>
          (\<forall>j < length ds. j \<noteq> k \<longrightarrow> 0 \<le> ds ! j))"
      then obtain k where "infer = -1" "k < length ds" "q = int (Suc i + k)" "ds ! k = -1"
        "\<forall>j < length ds. j \<noteq> k \<longrightarrow> 0 \<le> ds ! j" by blast
      with d show ?thesis
        by (intro disjI2 conjI exI [of _ "Suc k"]) (auto simp: nth_Cons split: nat.splits)
    qed (use d in simp)
  qed
qed simp

lemma view_scan_product:
  "view_scan ds i infer product = Inr (q, p) \<Longrightarrow> 0 \<le> product \<Longrightarrow> 0 \<le> p"
  by (induction ds i infer product rule: view_scan.induct)
    (auto simp: outcome_simps u64_def split: if_splits)

lemma ofold_prod: "ofold (\<lambda>d a. i32 (a * d)) ds c = Inr m \<Longrightarrow> m = c * prod_list ds"
proof (induction ds arbitrary: c)
  case (Cons d ds)
  from Cons.prems have "ofold (\<lambda>d a. i32 (a * d)) ds (c * d) = Inr m" by (auto simp: outcome_simps)
  from Cons.IH [OF this] show ?case by (simp add: mult.assoc)
qed simp

lemma view_shape_Inr:
  assumes "view_shape to_shape n = Inr actual" "0 < n" "n < 2 ^ 31"
  shows "prod_list actual = n" "length actual = length to_shape" "\<forall>d \<in> set actual. 0 < d"
    "\<forall>k < length to_shape. to_shape ! k \<noteq> -1 \<longrightarrow> actual ! k = to_shape ! k"
proof -
  obtain q p m where scan: "view_scan to_shape 0 (-1) 1 = Inr (q, p)"
    and infer: "view_infer to_shape n q p = Inr actual"
    and m: "ofold (\<lambda>d a. i32 (a * d)) actual 1 = Inr m" "to_i64 n = m"
    using assms(1) by (auto simp: view_shape_def outcome_simps)
  have "to_i64 n = n" using assms(2,3) by (simp add: to_i64_def)
  then show prod: "prod_list actual = n" using ofold_prod [OF m(1)] m(2) by simp
  have p: "0 \<le> p" using view_scan_product [OF scan] by simp
  have main: "length actual = length to_shape \<and> (\<forall>d \<in> set actual. 0 \<le> d) \<and>
      (\<forall>k < length to_shape. to_shape ! k \<noteq> -1 \<longrightarrow> actual ! k = to_shape ! k)"
  proof (cases "q = -1")
    case True
    with view_scan_spec [OF scan] infer show ?thesis by (auto simp: view_infer_def)
  next
    case False
    with view_scan_spec [OF scan] obtain j where
      j: "j < length to_shape" "q = int j" "to_shape ! j = -1"
        "\<forall>i < length to_shape. i \<noteq> j \<longrightarrow> 0 \<le> to_shape ! i" by auto
    from infer False have a: "actual = to_shape[j := to_i32 (n div p)]" "p \<noteq> 0"
      by (auto simp: view_infer_def outcome_simps j(2))
    have v: "0 \<le> n div p" using assms(2) p by (simp add: div_int_pos_iff)
    have "n div p \<le> n" using zdiv_mono2 [of n 1 p] assms(2) p a(2) by simp
    then have "to_i32 (n div p) = n div p" using v assms(3) by (simp add: to_i32_id)
    then show ?thesis using a(1) j v by (auto simp: in_set_conv_nth nth_list_update)
  qed
  then show "length actual = length to_shape"
    "\<forall>k < length to_shape. to_shape ! k \<noteq> -1 \<longrightarrow> actual ! k = to_shape ! k" by auto
  have "0 \<notin> set actual" using prod assms(2) by (metis less_irrefl prod_list_zero_iff)
  with main show "\<forall>d \<in> set actual. 0 < d" by (metis less_le)
qed

lemma view_new_strides_Inr:
  "view_new_strides ds = Inr (a, ss) \<Longrightarrow> a = prod_list ds \<and> ss = map to_i32 (rm_strides ds)"
  by (induction ds arbitrary: a ss) (auto simp: outcome_simps i64_def mult.commute split: if_splits)

lemma rm_strides_bound:
  "\<forall>d \<in> set ds. 0 < d \<Longrightarrow> s \<in> set (rm_strides ds) \<Longrightarrow> 0 < s \<and> s \<le> prod_list ds"
proof (induction ds)
  case (Cons d ds)
  have "prod_list ds \<le> prod_list (d # ds)" by (rule prod_list_tail_le) (use Cons.prems in auto)
  moreover have "0 < prod_list ds" by (rule prod_list_pos) (use Cons.prems in auto)
  moreover have "s = prod_list ds \<or> 0 < s \<and> s \<le> prod_list ds" using Cons by auto
  ultimately show ?case by (metis order_trans)
qed simp

lemma view_new_strides_small:
  assumes "view_new_strides ds = Inr (a, ss)" "\<forall>d \<in> set ds. 0 < d" "prod_list ds < 2 ^ 31"
  shows "ss = rm_strides ds"
proof -
  have "to_i32 s = s" if "s \<in> set (rm_strides ds)" for s
    using rm_strides_bound [OF assms(2) that] assms(3) by (simp add: to_i32_id)
  then show ?thesis using view_new_strides_Inr [OF assms(1)] by (simp add: map_idI)
qed

lemma view_contiguous_snoc:
  "view_contiguous c (ps @ [(d, s)]) \<longleftrightarrow> view_contiguous c ps \<and> s = c * prod_list (map fst ps)"
  by (induction c ps rule: view_contiguous.induct) (auto simp: mult.assoc)

lemma view_contiguous_iff:
  "length ss = length ds \<Longrightarrow> view_contiguous 1 (rev (zip ds ss)) \<longleftrightarrow> ss = rm_strides ds"
proof (induction ds arbitrary: ss)
  case (Cons d ds)
  then obtain s ss' where "ss = s # ss'" "length ss' = length ds" by (cases ss) auto
  with Cons.IH show ?case by (auto simp: view_contiguous_snoc prod_list_rev_zip)
qed simp

lemma take_rm [simp]: "take (length ds) (rm_strides ds) = rm_strides ds"
  by simp

text \<open>The views a \<^verbatim>\<open>view\<close> call can return.\<close>

lemma ViewOp_reshape_Inr:
  assumes "ViewOp_reshape to_shape False u (Some it) = Inr r" "shape_ok (v_shape it)"
    "length (v_stride it) = length (v_shape it)"
  obtains w where "r = Some w" "v_store w = v_store it" "v_offset w = v_offset it"
    "prod_list (v_shape w) = prod_list (v_shape it)" "length (v_shape w) = length to_shape"
    "\<forall>d \<in> set (v_shape w). 0 < d" "length (v_shape w) \<le> max_rank"
    "\<forall>k < length to_shape. to_shape ! k \<noteq> -1 \<longrightarrow> v_shape w ! k = to_shape ! k"
    "v_shape w = v_shape it \<and> v_stride w = v_stride it \<or>
     v_stride it = rm_strides (v_shape it) \<and> v_stride w = rm_strides (v_shape w)"
proof -
  have n: "0 < prod_list (v_shape it)" "prod_list (v_shape it) < 2 ^ 31"
    using shape_ok_total [OF assms(2)] by auto
  have "numel it = prod_list (v_shape it)" by (simp add: numel_def numel_of_shape_ok assms(2))
  then have eq: "ViewOp_reshape to_shape False u (Some it) =
      obind (view_shape to_shape (prod_list (v_shape it))) (\<lambda>actual.
        if v_shape it = actual then
           obind (view_create_strided (v_offset it) (v_shape it) (v_stride it) (v_store it)) (\<lambda>w. Inr (Some w))
         else if view_contiguous 1 (rev (zip (v_shape it) (v_stride it))) then
           obind (view_new_strides actual) (\<lambda>(_, ss).
             obind (view_create_strided (v_offset it) actual ss (v_store it)) (\<lambda>w. Inr (Some w)))
         else Inl (Exit kSuccess))"
    by (simp add: ViewOp_reshape_def impl_def cong: if_cong)
  obtain actual where act: "view_shape to_shape (prod_list (v_shape it)) = Inr actual"
    and rest: "(if v_shape it = actual then
           obind (view_create_strided (v_offset it) (v_shape it) (v_stride it) (v_store it)) (\<lambda>w. Inr (Some w))
         else if view_contiguous 1 (rev (zip (v_shape it) (v_stride it))) then
           obind (view_new_strides actual) (\<lambda>(_, ss).
             obind (view_create_strided (v_offset it) actual ss (v_store it)) (\<lambda>w. Inr (Some w)))
         else Inl (Exit kSuccess)) = Inr r"
    using assms(1) unfolding eq obind_Inr_iff by blast
  note a = view_shape_Inr [OF act n]
  show thesis
  proof (cases "v_shape it = actual")
    case True
    with rest obtain w where "r = Some w" "w = \<lparr>v_shape = actual, v_stride = v_stride it,
        v_offset = v_offset it, v_store = v_store it\<rparr>" "length actual \<le> max_rank"
      using assms(3) by (auto simp: view_create_strided_def split: if_splits)
    with a True show thesis by (intro that [of w]) simp_all
  next
    case False
    with rest have "view_contiguous 1 (rev (zip (v_shape it) (v_stride it)))" by (auto split: if_splits)
    then have rm: "v_stride it = rm_strides (v_shape it)" using view_contiguous_iff assms(3) by blast
    from rest False obtain b ss w where s: "view_new_strides actual = Inr (b, ss)" "r = Some w"
      "view_create_strided (v_offset it) actual ss (v_store it) = Inr w"
      by (auto simp: outcome_simps split: if_splits)
    have "ss = rm_strides actual" using view_new_strides_small [OF s(1) a(3)] a(1) n by simp
    with s(3) have "w = \<lparr>v_shape = actual, v_stride = rm_strides actual, v_offset = v_offset it,
        v_store = v_store it\<rparr>" "length actual \<le> max_rank"
      by (auto simp: view_create_strided_def split: if_splits)
    with a rm s(2) show thesis by (intro that [of w]) simp_all
  qed
qed

text \<open>
  C13: in the default mode (\<^verbatim>\<open>enable_ssa\<close> off), a \<^verbatim>\<open>view\<close> of a row-major tensor that returns
  shares the storage, has as many elements as before and the requested dimensions, and keeps the row-major order:
  an index of the old shape and an index of the new one at the same row-major position have the same address.
\<close>

theorem view_keeps_elements:
  assumes "shape_ok (v_shape it)" "v_stride it = rm_strides (v_shape it)"
    and "ViewOp_reshape to_shape False u (Some it) = Inr r"
  shows "\<exists>w. r = Some w \<and> v_store w = v_store it \<and>
    prod_list (v_shape w) = prod_list (v_shape it) \<and>
    (\<forall>k < length to_shape. to_shape ! k \<noteq> -1 \<longrightarrow> v_shape w ! k = to_shape ! k) \<and>
    (\<forall>idx jdx. in_range idx (v_shape it) \<longrightarrow> in_range jdx (v_shape w) \<longrightarrow>
       dot idx (rm_strides (v_shape it)) = dot jdx (rm_strides (v_shape w)) \<longrightarrow>
       offsettedPtr base w jdx = offsettedPtr base it idx)"
proof -
  from assms obtain w where w: "r = Some w" "v_store w = v_store it" "v_offset w = v_offset it"
    "prod_list (v_shape w) = prod_list (v_shape it)" "length (v_shape w) = length to_shape"
    "\<forall>d \<in> set (v_shape w). 0 < d" "length (v_shape w) \<le> max_rank"
    "\<forall>k < length to_shape. to_shape ! k \<noteq> -1 \<longrightarrow> v_shape w ! k = to_shape ! k"
    "v_stride w = rm_strides (v_shape w)"
    by (elim ViewOp_reshape_Inr) auto
  have "offsettedPtr base w jdx = offsettedPtr base it idx"
    if r: "in_range idx (v_shape it)" "in_range jdx (v_shape w)"
      "dot idx (rm_strides (v_shape it)) = dot jdx (rm_strides (v_shape w))" for idx jdx
  proof -
    have "elem_offset idx (v_stride it) = Inr (dot idx (rm_strides (v_shape it)))"
      using elem_offset_rm [OF r(1) assms(1)] assms(2) by simp
    moreover have "elem_offset jdx (v_stride w) = Inr (dot jdx (rm_strides (v_shape w)))"
      using elem_offset_acc [OF r(2) w(6), of 0] w(4,9) shape_ok_total [OF assms(1)]
      by (simp add: elem_offset_def)
    ultimately show ?thesis
      using r(3) w(2,3) in_range_length [OF r(1)] in_range_length [OF r(2)]
      by (simp add: offsettedPtr_def barePtr_def v_dtype_def)
  qed
  with w show ?thesis by blast
qed

definition demo_store :: tstore where
  "demo_store = \<lparr>ts_uuid = 1, ts_size = 24, ts_dtype = kFloat32, ts_device = kCPU\<rparr>"

definition demo_view :: view where
  "demo_view = \<lparr>v_shape = [2, 3], v_stride = [3, 1], v_offset = 0, v_store = demo_store\<rparr>"

lemmas view_eval = demo_view_def demo_store_def shape_ok_def max_rank_def ViewOp_reshape_def
  view_shape_def view_infer_def numel_def numel_of_def u64_def to_i32_def to_i64_def i32_def i64_def
  impl_def view_create_strided_def SliceOp_reshape_def slice_normalise_def slice_count_def kAll_def
  SplitOp_reshape_def split_sections_def vec_at_def vec_set_def

lemma view_keeps_elements_witness:
  "\<exists>w. ViewOp_reshape [-1, 2] False 9 (Some demo_view) = Inr (Some w) \<and>
     offsettedPtr 64 w [1, 1] = offsettedPtr 64 demo_view [1, 0]"
proof -
  have d: "shape_ok (v_shape demo_view)" "v_stride demo_view = rm_strides (v_shape demo_view)"
    by (simp_all add: demo_view_def shape_ok_def max_rank_def)
  obtain w where w: "ViewOp_reshape [-1, 2] False 9 (Some demo_view) = Inr (Some w)" "v_shape w = [3, 2]"
    by (simp add: view_eval)
  have "in_range [1, 0] (v_shape demo_view)" "in_range [1, 1] (v_shape w)"
    "dot [1, 0] (rm_strides (v_shape demo_view)) = dot [1, 1] (rm_strides (v_shape w))"
    by (simp_all add: w(2) demo_view_def)
  with view_keeps_elements [OF d w(1), of 64] w(1) show ?thesis by auto
qed

lemma view_scan_two:
  "2 \<le> count_list ds (-1) \<or> infer \<noteq> -1 \<and> 1 \<le> count_list ds (-1) \<Longrightarrow>
     view_scan ds i infer p = Inl (Exit kAssert)"
proof (induction ds i infer p rule: view_scan.induct)
  case (2 d ds i infer p)
  show ?case
  proof (cases "d = -1")
    case True
    show ?thesis
    proof (cases "infer = -1")
      case inf: True
      with True "2.prems" have "1 \<le> count_list ds (-1)" by simp
      with "2.IH"(1) [OF True] inf True show ?thesis by simp
    qed (use True in simp)
  next
    case False
    show ?thesis
    proof (cases "0 \<le> d")
      case True
      with "2.IH"(2) [OF False] "2.prems" False show ?thesis by simp
    qed (use False in simp)
  qed
qed simp

text \<open>A shape that leaves two dimensions to be inferred is rejected by the run-time assertion.\<close>

theorem view_rejects_two_inferred:
  assumes "2 \<le> count_list to_shape (-1)"
  shows "ViewOp_reshape to_shape enable_ssa u (Some it) = Inl (Exit kAssert)"
  using view_scan_two [of to_shape "-1" 0 1] assms by (simp add: ViewOp_reshape_def impl_def view_shape_def)

lemma view_rejects_two_inferred_witness:
  "ViewOp_reshape [-1, 2, -1] False 9 (Some demo_view) = Inl (Exit kAssert)"
  by (rule view_rejects_two_inferred) simp

subsection \<open>What a slice keeps\<close>

definition slice_start :: "slice_pair \<Rightarrow> int" where
  "slice_start p = (if sl_start p = kAll then 0 else sl_start p)"

definition slice_end :: "int \<Rightarrow> slice_pair \<Rightarrow> int" where
  "slice_end d p = (if sl_end p = kAll then d else sl_end p)"

definition slice_in_bounds :: "int \<Rightarrow> slice_pair \<Rightarrow> bool" where
  "slice_in_bounds d p \<longleftrightarrow>
     0 \<le> slice_start p \<and> 0 \<le> slice_end d p \<and> slice_end d p \<le> d \<and> 1 \<le> sl_step p"

definition slice_index :: "slice_pair list \<Rightarrow> int list \<Rightarrow> int list" where
  "slice_index ps js = map2 (\<lambda>p j. slice_start p + j * sl_step p) ps js"

lemma slice_index_simps [simp]:
  "slice_index [] js = []" "slice_index ps [] = []"
  "slice_index (p # ps) (j # js) = (slice_start p + j * sl_step p) # slice_index ps js"
  by (simp_all add: slice_index_def)

lemma slice_normalise_in_bounds:
  "slice_in_bounds d p \<Longrightarrow> slice_normalise d p = Inr (slice_start p, slice_end d p)"
  by (simp add: slice_normalise_def slice_in_bounds_def slice_start_def slice_end_def Let_def
      split: if_splits)

lemma slice_count_bound:
  assumes "slice_count s e step = Inr n" "1 \<le> step" "0 \<le> j" "j < n"
  shows "s + j * step < e"
proof -
  have lt: "s < e" and n: "n = (e - s + step - 1) sdiv step"
    using assms by (auto simp: slice_count_def outcome_simps split: if_splits)
  have "n = (e - s + step - 1) div step"
    using n lt assms(2) by (simp add: signed_divide_int_def sgn_if)
  then have "n * step + (e - s + step - 1) mod step = e - s + step - 1"
    by (simp only: div_mult_mod_eq)
  moreover have "0 \<le> (e - s + step - 1) mod step" using assms(2) by (intro pos_mod_sign) simp
  ultimately have "n * step \<le> e - s + step - 1" by linarith
  moreover have "(j + 1) * step \<le> n * step" using assms(2,4) by (intro mult_right_mono) auto
  ultimately have "j * step + step \<le> e - s + step - 1" by (simp add: distrib_right)
  then show ?thesis by linarith
qed

lemma slice_dims_elements:
  assumes "length ss = length ds" "length ps = length ds"
    "\<forall>i < length ds. slice_in_bounds (ds ! i) (ps ! i)"
    "slice_dims (zip ds (zip ss ps)) off = Inr (off', xs)" "in_range js (map fst xs)"
  shows "in_range (slice_index ps js) ds \<and> off' + dot js (map snd xs) = off + dot (slice_index ps js) ss"
  using assms
proof (induction ds arbitrary: ss ps off xs js)
  case (Cons d ds)
  obtain st ss' where ss: "ss = st # ss'" using Cons.prems(1) by (cases ss) auto
  obtain p ps' where ps: "ps = p # ps'" using Cons.prems(2) by (cases ps) auto
  have b: "slice_in_bounds d p" "\<forall>i < length ds. slice_in_bounds (ds ! i) (ps' ! i)"
    using Cons.prems(3) by (auto simp: ps All_less_Suc2)
  obtain n rest where xs: "xs = (n, st * sl_step p) # rest"
    and n: "slice_count (slice_start p) (slice_end d p) (sl_step p) = Inr n"
    and tl: "slice_dims (zip ds (zip ss' ps')) (off + slice_start p * st) = Inr (off', rest)"
    using Cons.prems(4) by (auto simp: ss ps slice_normalise_in_bounds [OF b(1)] outcome_simps)
  obtain j js' where js: "js = j # js'" using Cons.prems(5) xs by (cases js) auto
  then have j: "0 \<le> j" "j < n" "in_range js' (map fst rest)" using Cons.prems(5) xs by auto
  have IH: "in_range (slice_index ps' js') ds \<and>
      off' + dot js' (map snd rest) = off + slice_start p * st + dot (slice_index ps' js') ss'"
    using Cons.prems(1,2) by (intro Cons.IH [OF _ _ b(2) tl j(3)]) (simp_all add: ss ps)
  have "1 \<le> sl_step p" "0 \<le> slice_start p" "slice_end d p \<le> d" using b(1) by (auto simp: slice_in_bounds_def)
  then have "0 \<le> slice_start p + j * sl_step p" "slice_start p + j * sl_step p < d"
    using slice_count_bound [OF n _ j(1,2)] j(1) by auto
  with IH show ?case by (simp add: js xs ps ss algebra_simps)
qed auto

text \<open>
  C14: in the default mode (\<^verbatim>\<open>enable_ssa\<close> off), for one range per dimension, ranges within the shape and
  steps of at least one, a slice that is returned is a view of the same storage in
  which every element is the element of the original at \<open>start + index * step\<close>, and that index is in
  the original shape.
\<close>

theorem slice_selects:
  assumes "length (v_stride it) = length (v_shape it)" "length ps = length (v_shape it)"
    and "\<forall>i < length (v_shape it). slice_in_bounds (v_shape it ! i) (ps ! i)"
    and "SliceOp_reshape ps False u (Some it) = Inr (Some w)" "in_range js (v_shape w)"
  shows "v_store w = v_store it \<and> in_range (slice_index ps js) (v_shape it) \<and>
    v_offset w + dot js (v_stride w) = v_offset it + dot (slice_index ps js) (v_stride it)"
proof -
  have eq: "SliceOp_reshape ps False u (Some it) =
      obind (slice_dims (zip (v_shape it) (zip (v_stride it) ps)) (v_offset it)) (\<lambda>(off, ds).
        obind (view_create_strided off (map fst ds) (map snd ds) (v_store it)) (\<lambda>w. Inr (Some w)))"
    using assms(2) by (simp add: SliceOp_reshape_def impl_def cong: if_cong)
  from assms(4) obtain off ds where
    d: "slice_dims (zip (v_shape it) (zip (v_stride it) ps)) (v_offset it) = Inr (off, ds)"
    and w: "view_create_strided off (map fst ds) (map snd ds) (v_store it) = Inr w"
    unfolding eq by (auto simp: outcome_simps)
  have w': "w = \<lparr>v_shape = map fst ds, v_stride = map snd ds, v_offset = off, v_store = v_store it\<rparr>"
    using w by (auto simp: view_create_strided_def split: if_splits)
  have "in_range js (map fst ds)" using assms(5) w' by simp
  from slice_dims_elements [OF assms(1-3) d this] show ?thesis by (simp add: w')
qed

lemma slice_selects_witness:
  "\<exists>w. SliceOp_reshape [\<lparr>sl_start = 1, sl_end = 2, sl_step = 1\<rparr>, \<lparr>sl_start = 0, sl_end = kAll, sl_step = 2\<rparr>]
       False 9 (Some demo_view) = Inr (Some w) \<and>
     v_offset w + dot [0, 1] (v_stride w) = dot [1, 2] (v_stride demo_view)"
proof -
  let ?ps = "[\<lparr>sl_start = 1, sl_end = 2, sl_step = 1\<rparr>, \<lparr>sl_start = 0, sl_end = kAll, sl_step = 2\<rparr>]"
  obtain w where w: "SliceOp_reshape ?ps False 9 (Some demo_view) = Inr (Some w)" "v_shape w = [1, 2]"
    by (simp add: view_eval signed_divide_int_def)
  have "\<forall>i < length (v_shape demo_view). slice_in_bounds (v_shape demo_view ! i) (?ps ! i)"
    by (simp add: demo_view_def slice_in_bounds_def slice_start_def slice_end_def kAll_def All_less_Suc2)
  from slice_selects [OF _ _ this w(1), of "[0, 1]"] w
  show ?thesis by (simp add: demo_view_def slice_start_def kAll_def)
qed

text \<open>
  A range is not compared with the shape. Slicing columns 0 to 5 of a 2 x 3 tensor returns a
  2 x 5 view whose last element lies behind the end of the storage.
\<close>

theorem slice_out_of_bounds:
  "case SliceOp_reshape [\<lparr>sl_start = 0, sl_end = 2, sl_step = 1\<rparr>, \<lparr>sl_start = 0, sl_end = 5, sl_step = 1\<rparr>]
     False 9 (Some demo_view) of
     Inr (Some w) \<Rightarrow> v_shape w = [2, 5] \<and>
       (case offsettedPtr 64 w [1, 4] of Inr a \<Rightarrow> 64 + ts_size demo_store \<le> a | Inl e \<Rightarrow> False)
   | _ \<Rightarrow> False"
  by (simp add: view_eval signed_divide_int_def offsettedPtr_def elem_offset_def barePtr_def
      byte_offset_def v_dtype_def lanesOfType_def info_lanes_def bytesOfType_def sizeof_def dtype_tables)

subsection \<open>What a split keeps\<close>

lemma split_views_Inr:
  assumes "split_views d it ss pos = Inr ws" "length (v_stride it) = length (v_shape it)"
  shows "length ws = length ss \<and> (\<forall>k < length ss. \<exists>w. ws ! k = Some w \<and> v_store w = v_store it \<and>
    v_shape w = (v_shape it)[nat d := ss ! k] \<and> v_stride w = v_stride it \<and>
    v_offset w = v_offset it + (pos + sum_list (take k ss)) * (v_stride it ! nat d))"
  using assms
proof (induction d it ss pos arbitrary: ws rule: split_views.induct)
  case (2 d it s ss pos)
  obtain w rest where
    w: "view_create_strided (v_offset it + pos * (v_stride it ! nat d)) ((v_shape it)[nat d := s])
      (v_stride it) (v_store it) = Inr w"
    and rest: "split_views d it ss (pos + s) = Inr rest" and ws: "ws = Some w # rest"
    using "2.prems"(1) by (auto simp: outcome_simps)
  have IH: "length rest = length ss \<and> (\<forall>k < length ss. \<exists>w. rest ! k = Some w \<and> v_store w = v_store it \<and>
      v_shape w = (v_shape it)[nat d := ss ! k] \<and> v_stride w = v_stride it \<and>
      v_offset w = v_offset it + (pos + s + sum_list (take k ss)) * (v_stride it ! nat d))"
    using "2.IH" rest "2.prems" by (auto simp: outcome_simps)
  have "v_store w = v_store it \<and> v_shape w = (v_shape it)[nat d := s] \<and> v_stride w = v_stride it \<and>
      v_offset w = v_offset it + pos * (v_stride it ! nat d)"
    using w "2.prems"(2) by (auto simp: view_create_strided_def split: if_splits)
  with IH show ?case by (simp add: ws All_less_Suc2 add.assoc)
qed simp

lemma ofold_sum: "ofold (\<lambda>s c. i32 (c + s)) ss c = Inr m \<Longrightarrow> m = c + sum_list ss"
proof (induction ss arbitrary: c)
  case (Cons s ss)
  from Cons.prems have "ofold (\<lambda>s c. i32 (c + s)) ss (c + s) = Inr m" by (auto simp: outcome_simps)
  from Cons.IH [OF this] show ?case by simp
qed simp

lemma split_sections_sum:
  assumes "split_sections sizes n = Inr ss" "\<forall>s \<in> set sizes. 0 < s" "0 \<le> n"
  shows "sum_list ss = n"
proof (cases "length sizes = 1")
  case True
  then obtain s where s: "sizes = [s]" by (cases sizes) auto
  with assms have "0 < s" "n smod s = 0" and ss: "ss = replicate (nat (n sdiv s)) s"
    by (auto simp: split_sections_def outcome_simps split: if_splits)
  then have "n sdiv s = n div s" "n mod s = 0" "0 \<le> n div s"
    using assms(3) by (simp_all add: signed_divide_int_def signed_modulo_int_def sgn_if abs_if
        pos_imp_zdiv_nonneg_iff split: if_splits)
  then show ?thesis by (auto simp: ss sum_list_replicate)
next
  case False
  with assms(1) show ?thesis
    using ofold_sum by (fastforce simp: split_sections_def outcome_simps)
qed

text \<open>
  C15: the views of a split tile the split dimension: they share the storage and the strides, section
  \<open>k\<close> starts right after the ones before it, and together they have the size of the dimension.
\<close>

theorem split_tiles:
  assumes "length (v_stride it) = length (v_shape it)" "\<forall>d \<in> set (v_shape it). 0 \<le> d"
    and "\<forall>s \<in> set sizes. 0 < s" "0 \<le> dim" "SplitOp_reshape dim sizes (Some it) = Inr ws"
  shows "\<exists>ss. length ws = length ss \<and> sum_list ss = v_shape it ! nat dim \<and>
    (\<forall>k < length ss. \<exists>w. ws ! k = Some w \<and> v_store w = v_store it \<and>
       v_shape w = (v_shape it)[nat dim := ss ! k] \<and> v_stride w = v_stride it \<and>
       v_offset w = v_offset it + sum_list (take k ss) * (v_stride it ! nat dim))"
proof -
  obtain ss where dim: "dim < int (length (v_shape it))"
    and ss: "split_sections sizes (v_shape it ! nat dim) = Inr ss"
    and ws: "split_views dim it ss 0 = Inr ws"
    using assms(4,5) by (auto simp: SplitOp_reshape_def impl_def Let_def outcome_simps)
  have "0 \<le> v_shape it ! nat dim" using assms(2,4) dim by (simp add: nat_less_iff)
  from split_sections_sum [OF ss assms(3) this] split_views_Inr [OF ws assms(1)]
  show ?thesis by auto
qed

lemma split_tiles_witness:
  "\<exists>ws ss. SplitOp_reshape 1 [1, 2] (Some demo_view) = Inr ws \<and> length ws = length ss \<and> sum_list ss = (3::int)"
proof -
  have d: "length (v_stride demo_view) = length (v_shape demo_view)"
    "\<forall>d \<in> set (v_shape demo_view). 0 \<le> d" "\<forall>s \<in> set [1, 2 :: int]. 0 < s" "(0::int) \<le> 1"
    by (simp_all add: demo_view_def)
  obtain ws where ws: "SplitOp_reshape 1 [1, 2] (Some demo_view) = Inr ws"
    by (simp add: view_eval)
  from split_tiles [OF d ws] ws show ?thesis by (auto simp: demo_view_def)
qed

end
