(* ===== verification/Shape_Ops.thy ===== *)
theory Shape_Ops
  imports View_Ops
begin

text \<open>
  Shape inference of the operations in \<^verbatim>\<open>mllm/core/aops\<close> that allocate their outputs: rearranging,
  joining, reducing and elementwise operations. Each \<^verbatim>\<open>reshape\<close> method is a function from the options
  and the input tensors to the output tensors; the outputs get the storage identifiers \<open>u\<close>, \<open>u + 1\<close>
  and so on.
\<close>

subsection \<open>Access to the inputs\<close>

definition inp :: "tensor list \<Rightarrow> nat \<Rightarrow> view outcome" where
  "inp ts k = obind (vec_at ts (int k)) impl"

definition one_output :: "int list \<Rightarrow> view \<Rightarrow> nat \<Rightarrow> tensor list outcome" where
  "one_output shape v u =
     obind (tensor_empty shape (v_dtype v) (v_device v) u) (\<lambda>o1. Inr [o1])"

definition like_input :: "nat \<Rightarrow> nat \<Rightarrow> tensor list \<Rightarrow> tensor list outcome" where
  "like_input k u ts = obind (inp ts k) (\<lambda>v. one_output (v_shape v) v u)"

text \<open>\<^verbatim>\<open>if (dim < 0) dim += shape.size()\<close>\<close>

definition wrap_dim :: "int \<Rightarrow> 'a list \<Rightarrow> int" where
  "wrap_dim dim shape = (if dim < 0 then dim + int (length shape) else dim)"

subsection \<open>Rearranging\<close>

fun reshape_scan :: "int list \<Rightarrow> nat \<Rightarrow> int \<Rightarrow> int \<Rightarrow> (int \<times> int) outcome" where
  "reshape_scan [] i infer product = Inr (infer, product)"
| "reshape_scan (d # ds) i infer product =
     (if d = -1 then obind (rt_assert (infer = -1)) (\<lambda>_. reshape_scan ds (Suc i) (int i) product)
      else reshape_scan ds (Suc i) infer (u64 (product * d)))"

definition ReshapeOp_reshape :: "int list \<Rightarrow> nat \<Rightarrow> tensor list \<Rightarrow> tensor list outcome" where
  "ReshapeOp_reshape new_shape u ts =
     obind (inp ts 0) (\<lambda>it.
       obind (reshape_scan new_shape 0 (-1) 1) (\<lambda>(infer, product).
         obind (view_infer new_shape (numel it) infer product) (\<lambda>actual.
           obind (rt_assert (numel it = numel_of actual)) (\<lambda>_. one_output actual it u))))"

text \<open>The reference to \<^verbatim>\<open>outputs[0]\<close> at the top of the method is never used.\<close>

definition PermuteOp_reshape :: "int list \<Rightarrow> nat \<Rightarrow> tensor list \<Rightarrow> tensor list outcome" where
  "PermuteOp_reshape axis u ts =
     obind (inp ts 0) (\<lambda>it.
       obind (omap (\<lambda>i. obind (vec_at axis (int i)) (vec_at (v_shape it))) [0..<length (v_shape it)])
         (\<lambda>shape. one_output shape it u))"

definition TransposeOp_reshape :: "int \<Rightarrow> int \<Rightarrow> nat \<Rightarrow> tensor list \<Rightarrow> tensor list outcome" where
  "TransposeOp_reshape dim0 dim1 u ts =
     obind (inp ts 0) (\<lambda>it.
       let shape = v_shape it; d0 = wrap_dim dim0 shape; d1 = wrap_dim dim1 shape; n = int (length shape)
       in obind (rt_assert (0 \<le> d0 \<and> d0 < n)) (\<lambda>_.
            obind (rt_assert (0 \<le> d1 \<and> d1 < n)) (\<lambda>_.
              one_output (shape[nat d0 := shape ! nat d1, nat d1 := shape ! nat d0]) it u)))"

definition RepeatOp_reshape :: "int \<Rightarrow> int \<Rightarrow> nat \<Rightarrow> tensor list \<Rightarrow> tensor list outcome" where
  "RepeatOp_reshape dim n u ts =
     obind (inp ts 0) (\<lambda>it.
       obind (vec_at (v_shape it) dim) (\<lambda>d.
         obind (i32 (d * n)) (\<lambda>d'.
           obind (vec_set (v_shape it) dim d') (\<lambda>shape. one_output shape it u))))"

definition pad_amount :: "int list \<Rightarrow> nat \<Rightarrow> int" where
  "pad_amount pad k = (if k < length pad then pad ! k else 0)"

fun pad_dims :: "int list \<Rightarrow> int list \<Rightarrow> int list outcome" where
  "pad_dims pad [] = Inr []"
| "pad_dims pad (d # ds) =
     (let k = length ds * 2 in
      obind (i32 (pad_amount pad k + pad_amount pad (k + 1))) (\<lambda>p.
        obind (i32 (d + p)) (\<lambda>d'. obind (pad_dims pad ds) (\<lambda>ds'. Inr (d' # ds')))))"

definition PadOp_reshape :: "int list \<Rightarrow> nat \<Rightarrow> tensor list \<Rightarrow> tensor list outcome" where
  "PadOp_reshape pad u ts =
     (if ts = [] then Inl (Throw ''PadOp::reshape: inputs empty'')
      else obind (inp ts 0) (\<lambda>it. obind (pad_dims pad (v_shape it)) (\<lambda>shape. one_output shape it u)))"

definition GatherOp_reshape :: "int \<Rightarrow> nat \<Rightarrow> tensor list \<Rightarrow> tensor list outcome" where
  "GatherOp_reshape dim u ts =
     obind (inp ts 0) (\<lambda>table. obind (inp ts 1) (\<lambda>indices.
       let shape = v_shape table; d = wrap_dim dim shape
       in obind (rt_assert (0 \<le> d \<and> d < int (length shape))) (\<lambda>_.
            one_output (take (nat d) shape @ v_shape indices @ drop (Suc (nat d)) shape) table u)))"

definition TopKOp_reshape :: "int \<Rightarrow> int \<Rightarrow> nat \<Rightarrow> tensor list \<Rightarrow> tensor list outcome" where
  "TopKOp_reshape k dim u ts =
     obind (vec_at ts 0) (\<lambda>t.
       case t of None \<Rightarrow> Inr []
       | Some it \<Rightarrow>
           obind (vec_set (v_shape it) (wrap_dim dim (v_shape it)) k) (\<lambda>shape.
             obind (tensor_empty shape (v_dtype it) (v_device it) u) (\<lambda>values.
               obind (tensor_empty shape kInt32 (v_device it) (Suc u)) (\<lambda>indices. Inr [values, indices]))))"

subsection \<open>Joining\<close>

fun concat_check :: "view \<Rightarrow> view list \<Rightarrow> nat list \<Rightarrow> int \<Rightarrow> unit outcome" where
  "concat_check v vs [] at_dim = Inr ()"
| "concat_check v vs (d # ds) at_dim =
     (if int d = at_dim then concat_check v vs ds at_dim
      else obind (ofold (\<lambda>w _. obind (vec_at (v_shape w) (int d)) (\<lambda>x.
                    if x \<noteq> v_shape v ! d then Inl (Exit kCoreError) else Inr ())) vs ())
             (\<lambda>_. concat_check v vs ds at_dim))"

text \<open>A dimension below \<open>- rank\<close> is not rejected; the subscript below is then out of range.\<close>

definition ConcatOp_reshape :: "int \<Rightarrow> nat \<Rightarrow> tensor list \<Rightarrow> tensor list outcome" where
  "ConcatOp_reshape dim u ts =
     (if ts = [] then Inl (Exit kCoreError)
      else obind (omap impl ts) (\<lambda>vs.
        let v = hd vs; n_dims = length (v_shape v); at_dim = wrap_dim dim (v_shape v)
        in if int n_dims \<le> at_dim then Inl (Exit kCoreError)
           else obind (concat_check v (tl vs) [0..<n_dims] at_dim) (\<lambda>_.
                obind (ofold (\<lambda>w a. obind (vec_at (v_shape w) at_dim) (\<lambda>x. i32 (a + x))) vs 0) (\<lambda>total.
                obind (vec_set (v_shape v) at_dim total) (\<lambda>shape. one_output shape v u)))))"

definition StackOp_reshape :: "int \<Rightarrow> nat \<Rightarrow> tensor list \<Rightarrow> tensor list outcome" where
  "StackOp_reshape dim u ts =
     (if ts = [] then Inl (Exit kCoreError)
      else obind (omap impl ts) (\<lambda>vs.
        let v = hd vs; n_dims = int (length (v_shape v));
            at_dim = (if dim < 0 then dim + (n_dims + 1) else dim)
        in if at_dim < 0 \<or> n_dims < at_dim then Inl (Exit kCoreError)
           else if \<exists>w \<in> set (tl vs). v_shape w \<noteq> v_shape v then Inl (Exit kCoreError)
           else one_output (take (nat at_dim) (v_shape v) @ [int (length ts)] @
                  drop (nat at_dim) (v_shape v)) v u))"

subsection \<open>Reducing\<close>

definition reduce_shape :: "int \<Rightarrow> bool \<Rightarrow> int list \<Rightarrow> int list outcome" where
  "reduce_shape dim keep_dim shape =
     (if dim = 0x7fffffff then Inr (if keep_dim then replicate (length shape) 1 else [1])
      else
        (let d = wrap_dim dim shape
         in if keep_dim then vec_set shape d 1
            else Inr (map (\<lambda>i. shape ! i) (filter (\<lambda>i. int i \<noteq> d) [0..<length shape]))))"

definition ReduceMaxOp_reshape :: "int \<Rightarrow> bool \<Rightarrow> nat \<Rightarrow> tensor list \<Rightarrow> tensor list outcome" where
  "ReduceMaxOp_reshape dim keep_dim u ts =
     obind (vec_at ts 0) (\<lambda>t. case t of None \<Rightarrow> Inr []
       | Some it \<Rightarrow> obind (reduce_shape dim keep_dim (v_shape it)) (\<lambda>shape. one_output shape it u))"

definition ReduceMinOp_reshape :: "int \<Rightarrow> bool \<Rightarrow> nat \<Rightarrow> tensor list \<Rightarrow> tensor list outcome" where
  "ReduceMinOp_reshape dim keep_dim u ts =
     obind (vec_at ts 0) (\<lambda>t. case t of None \<Rightarrow> Inr []
       | Some it \<Rightarrow> obind (reduce_shape dim keep_dim (v_shape it)) (\<lambda>shape. one_output shape it u))"

definition ReduceSumOp_reshape :: "int \<Rightarrow> bool \<Rightarrow> nat \<Rightarrow> tensor list \<Rightarrow> tensor list outcome" where
  "ReduceSumOp_reshape dim keep_dim u ts =
     obind (vec_at ts 0) (\<lambda>t. case t of None \<Rightarrow> Inr []
       | Some it \<Rightarrow> obind (reduce_shape dim keep_dim (v_shape it)) (\<lambda>shape. one_output shape it u))"

definition MeanOp_reshape :: "int \<Rightarrow> bool \<Rightarrow> nat \<Rightarrow> tensor list \<Rightarrow> tensor list outcome" where
  "MeanOp_reshape dim keep_dim u ts =
     obind (vec_at ts 0) (\<lambda>t. case t of None \<Rightarrow> Inr []
       | Some it \<Rightarrow> obind (reduce_shape dim keep_dim (v_shape it)) (\<lambda>shape. one_output shape it u))"

definition ArgsortOp_reshape :: "nat \<Rightarrow> tensor list \<Rightarrow> tensor list outcome" where
  "ArgsortOp_reshape u ts =
     obind (vec_at ts 0) (\<lambda>t. case t of None \<Rightarrow> Inr []
       | Some it \<Rightarrow> obind (tensor_empty (v_shape it) kInt32 (v_device it) u) (\<lambda>o1. Inr [o1]))"

subsection \<open>Matrix product\<close>

text \<open>The loop bound \<open>size_a - 2\<close> is a \<^verbatim>\<open>size_t\<close>: below two dimensions it wraps around.\<close>

definition MatMulOp_reshape :: "bool \<Rightarrow> bool \<Rightarrow> nat \<Rightarrow> tensor list \<Rightarrow> tensor list outcome" where
  "MatMulOp_reshape transpose_a transpose_b u ts =
     obind (inp ts 0) (\<lambda>va. obind (inp ts 1) (\<lambda>vb.
       let a = v_shape va; b = v_shape vb; na = int (length a); nb = int (length b) in
       if na < 2 then Inl Undefined
       else if \<not> transpose_a \<and> \<not> transpose_b then
         obind (vec_at b (nb - 2)) (\<lambda>k. obind (vec_at b (nb - 1)) (\<lambda>n.
           obind (rt_assert (a ! nat (na - 1) = k)) (\<lambda>_.
             one_output (take (nat (na - 2)) a @ [a ! nat (na - 2), n]) va u)))
       else if \<not> transpose_a \<and> transpose_b then
         obind (vec_at b (nb - 1)) (\<lambda>k.
           obind (rt_assert (a ! nat (na - 1) = k)) (\<lambda>_. obind (vec_at b (nb - 2)) (\<lambda>n.
             one_output (take (nat (na - 2)) a @ [a ! nat (na - 2), n]) va u)))
       else one_output (take (nat (na - 2)) a) va u))"

subsection \<open>Elementwise operations\<close>

definition broadcast_dim :: "nat \<Rightarrow> nat \<Rightarrow> int list \<Rightarrow> int" where
  "broadcast_dim max_dims i shape =
     (let dim = int (length shape) - int max_dims + int i in if 0 \<le> dim then shape ! nat dim else 1)"

definition broadcast_step :: "int \<Rightarrow> int \<Rightarrow> int outcome" where
  "broadcast_step sz out =
     (if sz = 1 then Inr out
      else if out = 1 then Inr sz
      else if out \<noteq> sz then Inl (Exit kShapeError)
      else Inr out)"

definition broadcastShapes :: "int list list \<Rightarrow> int list outcome" where
  "broadcastShapes shapes =
     (if shapes = [] then Inr []
      else
        (let max_dims = foldr (\<lambda>s m. max m (length s)) shapes 0
         in omap (\<lambda>i. ofold (\<lambda>s out. broadcast_step (broadcast_dim max_dims i s) out) shapes 1)
              [0..<max_dims]))"

definition EqualOp_broadcast :: "int list list \<Rightarrow> int list outcome" where
  "EqualOp_broadcast shapes = broadcastShapes shapes"

definition ElewiseOp_reshape :: "bool \<Rightarrow> nat \<Rightarrow> tensor list \<Rightarrow> tensor list outcome" where
  "ElewiseOp_reshape inplace u ts =
     (if inplace then obind (vec_at ts 0) (\<lambda>t. Inr [t])
      else
        obind (omap impl ts) (\<lambda>vs.
          obind (broadcastShapes (map v_shape vs)) (\<lambda>bs.
            obind (inp ts 0) (\<lambda>v.
              let shape = (if bs = [] then v_shape v else bs)
              in obind (tensor_empty shape (v_dtype v) (v_device v) u) (\<lambda>o0.
                   obind (inp ts 1) (\<lambda>w.
                     if v_dtype w = kComplexFloat32 \<or> v_dtype w = kComplexFloat64
                     then obind (tensor_empty shape (v_dtype w) (v_device v) (Suc u)) (\<lambda>o1. Inr [o1])
                     else Inr [o0]))))))"

definition UnaryOp_reshape :: "optype \<Rightarrow> nat \<Rightarrow> tensor list \<Rightarrow> tensor list outcome" where
  "UnaryOp_reshape op u ts =
     obind (inp ts 0) (\<lambda>v.
       if map_of op_enum ''kAbs'' = Some op \<and> (v_dtype v = kComplexFloat32 \<or> v_dtype v = kComplexFloat64)
       then obind (tensor_empty (v_shape v) kFloat32 (v_device v) u) (\<lambda>o0. Inr [o0])
       else one_output (v_shape v) v u)"

definition EqualOp_reshape :: "nat \<Rightarrow> tensor list \<Rightarrow> tensor list outcome" where
  "EqualOp_reshape u ts =
     obind (omap impl ts) (\<lambda>vs.
       obind (EqualOp_broadcast (map v_shape vs)) (\<lambda>bs.
         obind (inp ts 0) (\<lambda>v.
           obind (tensor_empty (if bs = [] then v_shape v else bs) kBool (v_device v) u) (\<lambda>o0. Inr [o0]))))"

subsection \<open>Lemmas\<close>

lemma inp_0 [simp]: "inp (Some v # ts) 0 = Inr v"
  by (simp add: inp_def vec_at_def impl_def)

lemma inp_1 [simp]: "inp (t # Some v # ts) (Suc 0) = Inr v"
  by (simp add: inp_def vec_at_def impl_def)

lemma vec_at_0 [simp]: "vec_at (x # xs) 0 = Inr x"
  by (simp add: vec_at_def)

lemma tensor_empty_Inr:
  "tensor_empty shape dt dev u = Inr t \<Longrightarrow>
     \<exists>v. t = Some v \<and> v_shape v = shape \<and> v_stride v = rm_strides shape \<and> v_offset v = 0 \<and>
       v_dtype v = dt \<and> v_device v = dev \<and> ts_uuid (v_store v) = u"
  by (auto simp: tensor_empty_def view_create0_def view_create_def TensorStorage_create_def Let_def
      v_dtype_def v_device_def outcome_simps dest!: view_strides_Inr split: if_splits)

lemma one_output_Inr:
  "one_output shape it u = Inr os \<Longrightarrow>
     \<exists>v. os = [Some v] \<and> v_shape v = shape \<and> v_stride v = rm_strides shape \<and> v_offset v = 0 \<and>
       v_dtype v = v_dtype it \<and> v_device v = v_device it \<and> ts_uuid (v_store v) = u"
  by (auto simp: one_output_def outcome_simps dest!: tensor_empty_Inr)

lemma prod_list_swap:
  assumes "i < length xs" "j < length xs"
  shows "prod_list (xs[i := xs ! j, j := xs ! i]) = (prod_list xs :: int)"
proof -
  have "mset (xs[i := xs ! j, j := xs ! i]) = mset xs" by (rule mset_swap [OF assms(2,1)])
  then show ?thesis by (metis prod_mset_prod_list)
qed

lemma mset_permuted:
  assumes "mset axis = mset [0..<length xs]"
  shows "mset (map (\<lambda>i. xs ! i) axis) = mset xs"
proof -
  have "mset (map (\<lambda>i. xs ! i) axis) = image_mset (\<lambda>i. xs ! i) (mset [0..<length xs])"
    using assms by simp
  also have "\<dots> = mset (map (\<lambda>i. xs ! i) [0..<length xs])" by (simp only: mset_map)
  finally show ?thesis by (simp add: map_nth)
qed

lemma omap_upt_Inr:
  "omap f [0..<n] = Inr ys \<longleftrightarrow> length ys = n \<and> (\<forall>i < n. f i = Inr (ys ! i))"
  by (auto simp: omap_Inr)

subsection \<open>Properties\<close>

text \<open>Transposing the same two dimensions again gives back the original shape.\<close>

theorem transpose_twice:
  assumes "TransposeOp_reshape dim0 dim1 u [Some it] = Inr [Some v]"
    and "TransposeOp_reshape dim0 dim1 u' [Some v] = Inr [Some w]"
  shows "v_shape w = v_shape it"
proof -
  let ?d0 = "nat (wrap_dim dim0 (v_shape it))" and ?d1 = "nat (wrap_dim dim1 (v_shape it))"
  have r: "?d0 < length (v_shape it)" "?d1 < length (v_shape it)"
    and v: "v_shape v = (v_shape it)[?d0 := v_shape it ! ?d1, ?d1 := v_shape it ! ?d0]"
    using assms(1) by (auto simp: TransposeOp_reshape_def Let_def outcome_simps dest!: one_output_Inr)
  then have "length (v_shape v) = length (v_shape it)" by simp
  then have "v_shape w = (v_shape v)[?d0 := v_shape v ! ?d1, ?d1 := v_shape v ! ?d0]"
    using assms(2) by (auto simp: TransposeOp_reshape_def Let_def wrap_dim_def outcome_simps
        dest!: one_output_Inr)
  then show ?thesis
    using r unfolding v by (intro nth_equalityI) (auto simp: nth_list_update)
qed

lemma demo_one_output [simp]:
  "lanesOfType kFloat32 = 1" "bytesOfType kFloat32 = 4"
  by (simp_all add: lanesOfType_def info_lanes_def bytesOfType_def sizeof_def dtype_tables)

lemma transpose_twice_witness:
  "\<exists>v w. TransposeOp_reshape (-1) 0 5 [Some demo_view] = Inr [Some v] \<and>
     TransposeOp_reshape (-1) 0 6 [Some v] = Inr [Some w] \<and> v_shape w = [2, 3]"
proof -
  have "\<exists>v w. TransposeOp_reshape (-1) 0 5 [Some demo_view] = Inr [Some v] \<and>
      TransposeOp_reshape (-1) 0 6 [Some v] = Inr [Some w]"
    by (simp add: TransposeOp_reshape_def demo_view_def demo_store_def wrap_dim_def one_output_def
        tensor_empty_ok shape_ok_def max_rank_def v_dtype_def v_device_def)
  then obtain v w where vw: "TransposeOp_reshape (-1) 0 5 [Some demo_view] = Inr [Some v]"
    "TransposeOp_reshape (-1) 0 6 [Some v] = Inr [Some w]" by blast
  from transpose_twice [OF vw] vw show ?thesis by (auto simp: demo_view_def)
qed

lemmas demo_eval = demo_view_def demo_store_def wrap_dim_def one_output_def tensor_empty_ok
  shape_ok_def max_rank_def v_dtype_def v_device_def inp_def vec_at_def vec_set_def impl_def i32_def

text \<open>A permutation of the axes permutes the shape, so the number of elements stays the same.\<close>

theorem permute_permutes:
  assumes "mset axis = mset (map int [0..<length (v_shape it)])"
    and "PermuteOp_reshape axis u [Some it] = Inr os"
  shows "\<exists>v. os = [Some v] \<and> mset (v_shape v) = mset (v_shape it) \<and>
    prod_list (v_shape v) = prod_list (v_shape it) \<and>
    (\<forall>i < length (v_shape it). v_shape v ! i = v_shape it ! nat (axis ! i))"
proof -
  let ?xs = "v_shape it"
  have len: "length axis = length ?xs" using arg_cong [OF assms(1), of size] by simp
  obtain ys where ys: "length ys = length ?xs"
      "\<forall>i < length ?xs. obind (vec_at axis (int i)) (vec_at ?xs) = Inr (ys ! i)"
    and out: "one_output ys it u = Inr os"
    using assms(2) by (auto simp: PermuteOp_reshape_def obind_Inr_iff omap_upt_Inr)
  have nth: "ys ! i = ?xs ! nat (axis ! i)" if "i < length ?xs" for i
    using ys(2) that len by (auto simp: outcome_simps)
  then have "ys = map (\<lambda>i. ?xs ! i) (map nat axis)"
    using ys(1) len by (intro nth_equalityI) auto
  moreover have "mset (map nat axis) = mset [0..<length ?xs]"
    using arg_cong [OF assms(1), of "image_mset nat"] by (simp add: multiset.map_comp comp_def)
  ultimately have m: "mset ys = mset ?xs" using mset_permuted by metis
  then have "prod_list ys = prod_list ?xs" by (metis prod_mset_prod_list)
  with one_output_Inr [OF out] m nth show ?thesis by auto
qed

lemma permute_permutes_witness:
  "\<exists>v. PermuteOp_reshape [1, 0] 5 [Some demo_view] = Inr [Some v] \<and> v_shape v ! 0 = 3"
proof -
  have "\<exists>os. PermuteOp_reshape [1, 0] 5 [Some demo_view] = Inr os"
    by (simp add: PermuteOp_reshape_def demo_eval upt_rec)
  then obtain os where os: "PermuteOp_reshape [1, 0] 5 [Some demo_view] = Inr os" by blast
  have "mset [1, 0] = mset (map int [0..<length (v_shape demo_view)])"
    by (simp add: demo_view_def upt_rec add_mset_commute)
  from permute_permutes [OF this os] os show ?thesis by (auto simp: demo_view_def)
qed

subsubsection \<open>Broadcasting\<close>

lemma broadcast_fold_one:
  "ofold (\<lambda>s out. broadcast_step (h s) out) ss out = Inr r \<Longrightarrow> r = 1 \<Longrightarrow> out = 1"
  by (induction ss arbitrary: out) (auto simp: broadcast_step_def outcome_simps split: if_splits)

lemma broadcast_fold_keep:
  "ofold (\<lambda>s out. broadcast_step (h s) out) ss out = Inr r \<Longrightarrow> out \<noteq> 1 \<Longrightarrow> r = out"
  by (induction ss arbitrary: out) (auto simp: broadcast_step_def outcome_simps split: if_splits)

lemma broadcast_fold_spec:
  "ofold (\<lambda>s out. broadcast_step (h s) out) ss 1 = Inr r \<longleftrightarrow>
     (\<forall>s \<in> set ss. h s = 1 \<or> h s = r) \<and> (r = 1 \<or> (\<exists>s \<in> set ss. h s = r))"
proof (induction ss)
  case (Cons s ss)
  have fix_out: "ofold (\<lambda>s out. broadcast_step (h s) out) ss out = Inr r \<longleftrightarrow>
      (\<forall>s \<in> set ss. h s = 1 \<or> h s = out) \<and> r = out" if "out \<noteq> 1" for out
    using that by (induction ss) (auto simp: broadcast_step_def)
  show ?case
  proof (cases "h s = 1")
    case True
    then show ?thesis using Cons by (auto simp: broadcast_step_def)
  next
    case False
    then show ?thesis using fix_out [OF False] by (auto simp: broadcast_step_def)
  qed
qed auto

lemma broadcast_fold_error:
  "ofold (\<lambda>s out. broadcast_step (h s) out) ss out = Inl e \<Longrightarrow> e = Exit kShapeError"
  by (induction ss arbitrary: out) (auto simp: broadcast_step_def outcome_simps split: if_splits)

lemma omap_Inl: "omap f xs = Inl e \<Longrightarrow> \<exists>x \<in> set xs. f x = Inl e"
  by (induction xs) (auto simp: outcome_simps)

definition rank_max :: "int list list \<Rightarrow> nat" where
  "rank_max shapes = foldr (\<lambda>s m. max m (length s)) shapes 0"

text \<open>The size of a shape in the dimension \<open>j\<close> counted from the last, 1 where it has none.\<close>

definition from_last :: "int list \<Rightarrow> nat \<Rightarrow> int" where
  "from_last s j = (if j < length s then rev s ! j else 1)"

lemma rank_max_Max: "shapes \<noteq> [] \<Longrightarrow> rank_max shapes = Max (length ` set shapes)"
proof (induction shapes)
  case (Cons s ss)
  then show ?case by (cases ss) (auto simp: rank_max_def max.commute)
qed simp

lemma broadcast_dim_from_last:
  "length s \<le> n \<Longrightarrow> i < n \<Longrightarrow> broadcast_dim n i s = from_last s (n - 1 - i)"
  by (auto simp: broadcast_dim_def from_last_def Let_def rev_nth intro!: arg_cong [of _ _ "nth s"])

lemma all_from_last: "(\<forall>i < n. P (n - 1 - i)) \<longleftrightarrow> (\<forall>j < (n :: nat). P j)"
proof
  assume a: "\<forall>i < n. P (n - 1 - i)"
  show "\<forall>j < n. P j"
  proof (intro allI impI)
    fix j assume j: "j < n"
    then have "P (n - 1 - (n - 1 - j))" using spec [OF a, of "n - 1 - j"] by simp
    moreover have "n - 1 - (n - 1 - j) = j" using j by simp
    ultimately show "P j" by simp
  qed
qed auto

text \<open>
  C17: the broadcast of several shapes is exactly the shape of their largest rank in which, dimension by
  dimension counted from the last, every size is 1 or the common size of the inputs that are not 1, an input
  with fewer dimensions counting as 1; it fails with a shape error where there is no such shape.
\<close>

theorem broadcast_exact:
  assumes "shapes \<noteq> []"
  shows "(broadcastShapes shapes = Inr c \<longleftrightarrow> length c = Max (length ` set shapes) \<and>
      (\<forall>j < length c.
        (\<forall>s \<in> set shapes. from_last s j = 1 \<or> from_last s j = from_last c j) \<and>
        (from_last c j = 1 \<or> (\<exists>s \<in> set shapes. from_last s j = from_last c j)))) \<and>
    (broadcastShapes shapes \<in> range Inr \<or> broadcastShapes shapes = Inl (Exit kShapeError))"
proof -
  let ?n = "rank_max shapes"
  let ?f = "\<lambda>i. ofold (\<lambda>s out. broadcast_step (broadcast_dim ?n i s) out) shapes 1"
  let ?P = "\<lambda>j. (\<forall>s \<in> set shapes. from_last s j = 1 \<or> from_last s j = from_last c j) \<and>
    (from_last c j = 1 \<or> (\<exists>s \<in> set shapes. from_last s j = from_last c j))"
  have eq: "broadcastShapes shapes = omap ?f [0..<?n]"
    using assms by (simp add: broadcastShapes_def rank_max_def Let_def)
  have "broadcastShapes shapes \<in> range Inr \<or> broadcastShapes shapes = Inl (Exit kShapeError)"
  proof (cases "broadcastShapes shapes")
    case (Inl e)
    then obtain i where "?f i = Inl e" unfolding eq using omap_Inl by blast
    then have "e = Exit kShapeError" by (rule broadcast_fold_error)
    then show ?thesis using Inl by simp
  qed simp
  moreover have le: "length s \<le> ?n" if "s \<in> set shapes" for s
    using that rank_max_Max [OF assms] by simp
  have "?f i = Inr (c ! i) \<longleftrightarrow> ?P (?n - 1 - i)" if i: "i < ?n" and l: "length c = ?n" for i
  proof -
    have "from_last c (?n - 1 - i) = c ! i" using i l by (auto simp: from_last_def rev_nth)
    moreover have "broadcast_dim ?n i s = from_last s (?n - 1 - i)" if "s \<in> set shapes" for s
      by (rule broadcast_dim_from_last [OF le [OF that] i])
    ultimately show ?thesis unfolding broadcast_fold_spec by auto
  qed
  then have "broadcastShapes shapes = Inr c \<longleftrightarrow> length c = ?n \<and> (\<forall>i < ?n. ?P (?n - 1 - i))"
    unfolding eq omap_upt_Inr by blast
  then have "broadcastShapes shapes = Inr c \<longleftrightarrow> length c = ?n \<and> (\<forall>j < length c. ?P j)"
    unfolding all_from_last [of ?n ?P] by auto
  ultimately show ?thesis unfolding rank_max_Max [OF assms] by blast
qed

lemma broadcast_exact_witness:
  "broadcastShapes [[2, 1], [3]] = Inr [2, 3] \<and> broadcastShapes [[2, 1], [3]] \<noteq> Inr [2, 1]"
  using broadcast_exact [of "[[2, 1], [3]]" "[2, 3]"] broadcast_exact [of "[[2, 1], [3]]" "[2, 1]"]
  by (auto simp: from_last_def less_2_cases_iff numeral_2_eq_2 All_less_Suc)

subsubsection \<open>Joining what was split\<close>

lemma concat_total:
  assumes "ofold (\<lambda>w a. obind (vec_at (v_shape w) d) (\<lambda>x. i32 (a + x))) vs c = Inr m" "0 \<le> d"
  shows "m = c + sum_list (map (\<lambda>w. v_shape w ! nat d) vs)"
  using assms(1)
proof (induction vs arbitrary: c)
  case (Cons w vs)
  then have "ofold (\<lambda>w a. obind (vec_at (v_shape w) d) (\<lambda>x. i32 (a + x))) vs (c + v_shape w ! nat d) = Inr m"
    by (auto simp: outcome_simps)
  from Cons.IH [OF this] show ?case by simp
qed simp

lemma ConcatOp_reshape_Inr:
  assumes "ConcatOp_reshape dim u ts = Inr os" "0 \<le> dim"
  obtains vs v where "omap impl ts = Inr vs" "vs \<noteq> []" "dim < int (length (v_shape (hd vs)))" "os = [Some v]"
    "v_shape v = (v_shape (hd vs))[nat dim := sum_list (map (\<lambda>w. v_shape w ! nat dim) vs)]"
proof -
  obtain vs where vs: "omap impl ts = Inr vs" "ts \<noteq> []"
    using assms by (auto simp: ConcatOp_reshape_def outcome_simps split: if_splits)
  then have ne: "vs \<noteq> []" by (auto simp: omap_Inr)
  have d: "wrap_dim dim (v_shape (hd vs)) = dim" using assms(2) by (simp add: wrap_dim_def)
  obtain total where lt: "dim < int (length (v_shape (hd vs)))"
    and t: "ofold (\<lambda>w a. obind (vec_at (v_shape w) dim) (\<lambda>x. i32 (a + x))) vs 0 = Inr total"
    and out: "one_output ((v_shape (hd vs))[nat dim := total]) (hd vs) u = Inr os"
    using assms(1) vs by (auto simp: ConcatOp_reshape_def Let_def d outcome_simps split: if_splits)
  from one_output_Inr [OF out] obtain v where "os = [Some v]" "v_shape v = (v_shape (hd vs))[nat dim := total]"
    by blast
  with vs(1) ne lt concat_total [OF t assms(2)] show thesis by (intro that) auto
qed

text \<open>Concatenating the sections of a split along the same dimension gives back the original shape.\<close>

theorem concat_of_split:
  assumes "length (v_stride it) = length (v_shape it)" "\<forall>d \<in> set (v_shape it). 0 \<le> d"
    and "\<forall>s \<in> set sizes. 0 < s" "0 \<le> dim" "SplitOp_reshape dim sizes (Some it) = Inr ws"
    and "ConcatOp_reshape dim u ws = Inr os"
  shows "\<exists>v. os = [Some v] \<and> v_shape v = v_shape it"
proof -
  obtain ss where dim: "dim < int (length (v_shape it))"
    and ss: "split_sections sizes (v_shape it ! nat dim) = Inr ss"
    and ws: "split_views dim it ss 0 = Inr ws"
    using assms(4,5) by (auto simp: SplitOp_reshape_def impl_def Let_def outcome_simps)
  have "0 \<le> v_shape it ! nat dim" using assms(2,4) dim by (simp add: nat_less_iff)
  from split_sections_sum [OF ss assms(3) this] have sum: "sum_list ss = v_shape it ! nat dim" .
  note views = split_views_Inr [OF ws assms(1)]
  from ConcatOp_reshape_Inr [OF assms(6,4)] obtain vs v where
    vs: "omap impl ws = Inr vs" "vs \<noteq> []" and v: "os = [Some v]"
      "v_shape v = (v_shape (hd vs))[nat dim := sum_list (map (\<lambda>w. v_shape w ! nat dim) vs)]" by blast
  have len: "length vs = length ss" and nth: "\<forall>k < length ss. ws ! k = Some (vs ! k)"
    using vs(1) views by (auto simp: omap_Inr impl_def split: option.splits)
  have sh: "v_shape (vs ! k) = (v_shape it)[nat dim := ss ! k]" if "k < length ss" for k
    using views nth that by auto
  have nd: "nat dim < length (v_shape it)" using dim assms(4) by (simp add: nat_less_iff)
  have "map (\<lambda>w. v_shape w ! nat dim) vs = ss"
    using sh nd len by (intro nth_equalityI) simp_all
  moreover have "v_shape (hd vs) = (v_shape it)[nat dim := ss ! 0]"
  proof -
    have "0 < length ss" using vs(2) len by (metis length_greater_0_conv)
    then show ?thesis using sh [of 0] vs(2) by (simp add: hd_conv_nth)
  qed
  ultimately have "v_shape v = v_shape it" using v(2) sum by simp
  with v(1) show ?thesis by blast
qed

lemma concat_of_split_witness:
  "\<exists>ws v. SplitOp_reshape 1 [1, 2] (Some demo_view) = Inr ws \<and>
     ConcatOp_reshape 1 5 ws = Inr [Some v] \<and> v_shape v = [2, 3]"
proof -
  have d: "length (v_stride demo_view) = length (v_shape demo_view)"
    "\<forall>d \<in> set (v_shape demo_view). 0 \<le> d" "\<forall>s \<in> set [1, 2 :: int]. 0 < s" "(0::int) \<le> 1"
    by (simp_all add: demo_view_def)
  let ?v = "\<lambda>n off. \<lparr>v_shape = [2, n], v_stride = [3, 1], v_offset = off, v_store = demo_store\<rparr>"
  let ?ws = "[Some (?v 1 0), Some (?v 2 1)]"
  have s: "SplitOp_reshape 1 [1, 2] (Some demo_view) = Inr ?ws"
    by (simp add: view_eval)
  have "\<exists>os. ConcatOp_reshape 1 5 ?ws = Inr os"
    by (simp add: demo_eval ConcatOp_reshape_def Let_def upt_conv_Cons numeral_2_eq_2)
  then obtain ws os where w: "SplitOp_reshape 1 [1, 2] (Some demo_view) = Inr ws"
    "ConcatOp_reshape 1 5 ws = Inr os" using s by blast
  from concat_of_split [OF d w] w show ?thesis by (auto simp: demo_view_def)
qed

lemma omap_impl_Some: "omap impl (map Some vs) = Inr vs"
  by (induction vs) (simp_all add: impl_def)

lemma concat_check_equal:
  "\<forall>w \<in> set vs. v_shape w = v_shape v \<Longrightarrow> \<forall>d \<in> set ds. d < length (v_shape v) \<Longrightarrow>
     concat_check v vs ds at_dim = Inr ()"
proof (induction ds)
  case (Cons d ds)
  have "d < length (v_shape v)" using Cons.prems(2) by simp
  then have "\<forall>w \<in> set vs. vec_at (v_shape w) (int d) = Inr (v_shape v ! d)"
    using Cons.prems(1) by (auto simp: vec_at_def)
  then have "ofold (\<lambda>w _. obind (vec_at (v_shape w) (int d)) (\<lambda>x.
      if x \<noteq> v_shape v ! d then Inl (Exit kCoreError) else Inr ())) vs () = Inr ()"
    by (induction vs) simp_all
  with Cons show ?case by simp
qed simp

text \<open>
  A dimension below \<open>- rank\<close> is the documented error of \<^verbatim>\<open>stack\<close>, but passes the checks of
  \<^verbatim>\<open>concat\<close> on tensors of equal shape and ends in a subscript out of range.
\<close>

theorem concat_unchecked_dim:
  assumes "\<forall>w \<in> set vs. v_shape w = v_shape v" "dim < - int (length (v_shape v)) - 1"
  shows "ConcatOp_reshape dim u (map Some (v # vs)) = Inl Undefined \<and>
    StackOp_reshape dim u (map Some (v # vs)) = Inl (Exit kCoreError)"
proof -
  have im: "omap impl (map Some (v # vs)) = Inr (v # vs)"
    by (rule omap_impl_Some)
  have neg: "wrap_dim dim (v_shape v) < 0" using assms(2) by (simp add: wrap_dim_def)
  have chk: "concat_check v vs [0..<length (v_shape v)] d = Inr ()" for d
    by (rule concat_check_equal [OF assms(1)]) simp
  have "ofold (\<lambda>w a. obind (vec_at (v_shape w) (wrap_dim dim (v_shape v))) (\<lambda>x. i32 (a + x))) (v # vs) 0 =
      Inl Undefined"
    using neg by (simp add: vec_at_def)
  then have "ConcatOp_reshape dim u (map Some (v # vs)) = Inl Undefined"
    using neg by (simp only: ConcatOp_reshape_def im Let_def obind.simps list.sel chk) simp
  moreover have "StackOp_reshape dim u (map Some (v # vs)) = Inl (Exit kCoreError)"
    using assms(2) by (simp only: StackOp_reshape_def im Let_def obind.simps list.sel) simp
  ultimately show ?thesis by blast
qed

lemma concat_unchecked_dim_witness:
  "ConcatOp_reshape (-4) 5 [Some demo_view, Some demo_view] = Inl Undefined"
  using concat_unchecked_dim [of "[demo_view]" demo_view "-4" 5] by (simp add: demo_view_def)

text \<open>
  A reduction over a dimension outside the shape goes unnoticed: without \<^verbatim>\<open>keep_dim\<close> the result
  has the shape of the input, with it the subscript is out of range.
\<close>

theorem reduce_unchecked_dim:
  assumes "dim \<noteq> 0x7fffffff" "dim < - int (length shape) \<or> int (length shape) \<le> dim"
  shows "reduce_shape dim False shape = Inr shape \<and> reduce_shape dim True shape = Inl Undefined"
proof -
  have d: "wrap_dim dim shape < 0 \<or> int (length shape) \<le> wrap_dim dim shape"
    using assms(2) by (auto simp: wrap_dim_def)
  have "filter (\<lambda>i. int i \<noteq> wrap_dim dim shape) [0..<length shape] = [0..<length shape]"
    by (rule filter_True) (use d in auto)
  moreover have "vec_set shape (wrap_dim dim shape) 1 = Inl Undefined"
    using d by (auto simp: vec_set_def)
  ultimately show ?thesis using assms(1) by (simp add: reduce_shape_def Let_def map_nth)
qed

lemma reduce_unchecked_dim_witness: "reduce_shape 5 False [2, 3] = Inr [2, 3]"
  using reduce_unchecked_dim [of 5 "[2, 3]"] by simp

end
