(* ===== verification/Layer_Ops.thy ===== *)
theory Layer_Ops
  imports Shape_Ops
begin

text \<open>
  The options of the operations in \<^verbatim>\<open>mllm/core/aops\<close> that are layers of a network (convolution,
  pooling, Fourier transform, attention, linear, embedding, normalisation) with their tables of
  implementations, and the shape inference of each. Conversions through \<^verbatim>\<open>float\<close> are parameters.
\<close>

subsection \<open>Options common to all operations\<close>

record base_options =
  bo_inplace :: bool
  bo_redirect :: bool
  bo_threads :: int
  bo_inputs_dtypes :: "dtype list"
  bo_outputs_dtypes :: "dtype list"
  bo_inputs_constant :: "nat list"
  bo_outputs_constant :: "nat list"

definition set_grown :: "'a \<Rightarrow> 'a list \<Rightarrow> nat \<Rightarrow> 'a \<Rightarrow> 'a list" where
  "set_grown dflt xs pos x =
     (if length xs \<le> pos then xs @ replicate (pos + 1 - length xs) dflt else xs)[pos := x]"

definition setInputsDtype :: "nat \<Rightarrow> dtype \<Rightarrow> base_options \<Rightarrow> base_options" where
  "setInputsDtype pos dt b = b\<lparr>bo_inputs_dtypes := set_grown kFloat32 (bo_inputs_dtypes b) pos dt\<rparr>"

definition setOutputsDtype :: "nat \<Rightarrow> dtype \<Rightarrow> base_options \<Rightarrow> base_options" where
  "setOutputsDtype pos dt b = b\<lparr>bo_outputs_dtypes := set_grown kFloat32 (bo_outputs_dtypes b) pos dt\<rparr>"

definition setInputsConstant :: "nat \<Rightarrow> nat \<Rightarrow> base_options \<Rightarrow> base_options" where
  "setInputsConstant pos c b = b\<lparr>bo_inputs_constant := set_grown 0 (bo_inputs_constant b) pos c\<rparr>"

definition setOutputsConstant :: "nat \<Rightarrow> nat \<Rightarrow> base_options \<Rightarrow> base_options" where
  "setOutputsConstant pos c b = b\<lparr>bo_outputs_constant := set_grown 0 (bo_outputs_constant b) pos c\<rparr>"

definition getInputsConstant :: "nat \<Rightarrow> base_options \<Rightarrow> nat" where
  "getInputsConstant pos b =
     (if length (bo_inputs_constant b) \<le> pos then 0 else bo_inputs_constant b ! pos)"

definition getOutputsConstant :: "nat \<Rightarrow> base_options \<Rightarrow> nat" where
  "getOutputsConstant pos b =
     (if length (bo_outputs_constant b) \<le> pos then 0 else bo_outputs_constant b ! pos)"

subsection \<open>Tables of implementations\<close>

datatype (plugins only: code) linear_impl =
    kLinearImplTypes_Start
  | kDefault
  | kBLAS
  | kGGUF
  | kMllmBlas
  | kMllmBlas_KAI_SGEMM_NT_NT_NEON
  | kMllmBlas_KAI_SGEMM_NT_T_SME
  | kKleidiai_Start
  | kKaiLinear_fp16_fp16_fp16p_mxk_kxn
  | kKaiLinear_f32_qai8dxp_qsi4c32p_mxk_nxk_qai8dxp1x8_qsi4c32p4x8_1x4x32
  | kKaiLinear_f32_qai8dxp_qsi4c32p_mxk_nxk_qai8dxp1x8_qsi4c32p8x8_1x8x32
  | kKaiLinear_f32_qai8dxp_qsi4c32p_mxk_nxk_qai8dxp4x8_qsi4c32p4x8_8x4x32
  | kKaiLinear_f32_qai8dxp_qsi4c32p_mxk_nxk_qai8dxp4x8_qsi4c32p4x8_16x4x32
  | kKaiLinear_f32_qai8dxp_qsi4c32p_mxk_nxk_qai8dxp4x8_qsi4c32p8x8_4x8x32
  | kKaiLinear_f32_qai8dxp_qsi4c32p_mxk_nxk_qai8dxp1x4_qsi4c32p4x4_1x4
  | KaiLinear_f16_qsi8d32p_qai4c32p_mxk_nxk_qsi8d32p1x8_qai4c32p4x8_1x4
  | KaiLinear_f16_qsi8d32p_qai4c32p_mxk_nxk_qsi8d32p4x4_qai4c32p4x4_8x4
  | KaiLinear_f16_qsi8d32p_qai4c32p_mxk_nxk_qsi8d32p4x8_qai4c32p4x8_8x4_i8mm
  | kKaiLinear_f32_qsi8d32p_qai4c32p_mxk_nxk_qsi8d32p1vlx4_qai4c32p4vlx4_1vlx4vl_sme2_mopa
  | kKaiLinear_f32_qsi8d32p_qai4c32p_mxk_nxk_qsi8d32p1x4_qai4c32p4vlx4_1x4vl_sme2_dot
  | kKaiLinear_f32_qsi8d32p_qai4c32p_mxk_nxk_qsi8d32p1x4_qai4c32p4x4_1x4_neon_dotprod
  | kKaiLinear_f32_qsi8d32p_qai4c32p_mxk_nxk_qsi8d32p1x8_qai4c32p4x8_1x4_neon_dotprod
  | kKaiLinear_f32_qsi8d32p_qai4c32p_mxk_nxk_qsi8d32p4x4_qai4c32p4x4_8x4_neon_dotprod
  | kKaiLinear_f32_qsi8d32p_qai4c32p_mxk_nxk_qsi8d32p4x8_qai4c32p4x8_8x4_neon_i8mm
  | kKleidiai_End
  | kGGUF_Start
  | kGGUF_End
  | kQNN_Start
  | kQNN_tensor_symm_w8a16
  | kQNN_tensor_symm_w8a8
  | kQNN_LPBQ_w4a16o16_G32
  | kQNN_LPBQ_w4a16o16_G64
  | kQNN_End
  | kLinearImplTypes_End

definition linear_impl_names :: "(string \<times> linear_impl) list" where
  "linear_impl_names =
    [(''Default'',
      kDefault),
     (''BLAS'',
      kBLAS),
     (''GGUF'',
      kGGUF),
     (''MllmBlas'',
      kMllmBlas),
     (''MllmBlas_KAI_SGEMM_NT_NT_NEON'',
      kMllmBlas_KAI_SGEMM_NT_NT_NEON),
     (''MllmBlas_KAI_SGEMM_NT_T_SME'',
      kMllmBlas_KAI_SGEMM_NT_T_SME),
     (''KaiLinear_fp16_fp16_fp16p_mxk_kxn'',
      kKaiLinear_fp16_fp16_fp16p_mxk_kxn),
     (''KaiLinear_f32_qai8dxp_qsi4c32p_mxk_nxk_qai8dxp1x8_qsi4c32p4x8_1x4x32'',
      kKaiLinear_f32_qai8dxp_qsi4c32p_mxk_nxk_qai8dxp1x8_qsi4c32p4x8_1x4x32),
     (''KaiLinear_f32_qai8dxp_qsi4c32p_mxk_nxk_qai8dxp1x8_qsi4c32p8x8_1x8x32'',
      kKaiLinear_f32_qai8dxp_qsi4c32p_mxk_nxk_qai8dxp1x8_qsi4c32p8x8_1x8x32),
     (''KaiLinear_f32_qai8dxp_qsi4c32p_mxk_nxk_qai8dxp4x8_qsi4c32p4x8_8x4x32'',
      kKaiLinear_f32_qai8dxp_qsi4c32p_mxk_nxk_qai8dxp4x8_qsi4c32p4x8_8x4x32),
     (''KaiLinear_f32_qai8dxp_qsi4c32p_mxk_nxk_qai8dxp4x8_qsi4c32p4x8_16x4x32'',
      kKaiLinear_f32_qai8dxp_qsi4c32p_mxk_nxk_qai8dxp4x8_qsi4c32p4x8_16x4x32),
     (''KaiLinear_f32_qai8dxp_qsi4c32p_mxk_nxk_qai8dxp4x8_qsi4c32p8x8_4x8x32'',
      kKaiLinear_f32_qai8dxp_qsi4c32p_mxk_nxk_qai8dxp4x8_qsi4c32p8x8_4x8x32),
     (''KaiLinear_f32_qai8dxp_qsi4c32p_mxk_nxk_qai8dxp1x4_qsi4c32p4x4_1x4'',
      kKaiLinear_f32_qai8dxp_qsi4c32p_mxk_nxk_qai8dxp1x4_qsi4c32p4x4_1x4),
     (''KaiLinear_f16_qsi8d32p_qai4c32p_mxk_nxk_qsi8d32p1x8_qai4c32p4x8_1x4'',
      KaiLinear_f16_qsi8d32p_qai4c32p_mxk_nxk_qsi8d32p1x8_qai4c32p4x8_1x4),
     (''KaiLinear_f16_qsi8d32p_qai4c32p_mxk_nxk_qsi8d32p4x4_qai4c32p4x4_8x4'',
      KaiLinear_f16_qsi8d32p_qai4c32p_mxk_nxk_qsi8d32p4x4_qai4c32p4x4_8x4),
     (''KaiLinear_f16_qsi8d32p_qai4c32p_mxk_nxk_qsi8d32p4x8_qai4c32p4x8_8x4_i8mm'',
      KaiLinear_f16_qsi8d32p_qai4c32p_mxk_nxk_qsi8d32p4x8_qai4c32p4x8_8x4_i8mm),
     (''KaiLinear_f32_qsi8d32p_qai4c32p_mxk_nxk_qsi8d32p1vlx4_qai4c32p4vlx4_1vlx4vl_sme2_mopa'',
      kKaiLinear_f32_qsi8d32p_qai4c32p_mxk_nxk_qsi8d32p1vlx4_qai4c32p4vlx4_1vlx4vl_sme2_mopa),
     (''KaiLinear_f32_qsi8d32p_qai4c32p_mxk_nxk_qsi8d32p1x4_qai4c32p4vlx4_1x4vl_sme2_dot'',
      kKaiLinear_f32_qsi8d32p_qai4c32p_mxk_nxk_qsi8d32p1x4_qai4c32p4vlx4_1x4vl_sme2_dot),
     (''KaiLinear_f32_qsi8d32p_qai4c32p_mxk_nxk_qsi8d32p1x4_qai4c32p4x4_1x4_neon_dotprod'',
      kKaiLinear_f32_qsi8d32p_qai4c32p_mxk_nxk_qsi8d32p1x4_qai4c32p4x4_1x4_neon_dotprod),
     (''KaiLinear_f32_qsi8d32p_qai4c32p_mxk_nxk_qsi8d32p1x8_qai4c32p4x8_1x4_neon_dotprod'',
      kKaiLinear_f32_qsi8d32p_qai4c32p_mxk_nxk_qsi8d32p1x8_qai4c32p4x8_1x4_neon_dotprod),
     (''KaiLinear_f32_qsi8d32p_qai4c32p_mxk_nxk_qsi8d32p4x4_qai4c32p4x4_8x4_neon_dotprod'',
      kKaiLinear_f32_qsi8d32p_qai4c32p_mxk_nxk_qsi8d32p4x4_qai4c32p4x4_8x4_neon_dotprod),
     (''KaiLinear_f32_qsi8d32p_qai4c32p_mxk_nxk_qsi8d32p4x8_qai4c32p4x8_8x4_neon_i8mm'',
      kKaiLinear_f32_qsi8d32p_qai4c32p_mxk_nxk_qsi8d32p4x8_qai4c32p4x8_8x4_neon_i8mm),
     (''QNN Linear per-tensor symmectrical W8A16'',
      kQNN_tensor_symm_w8a16),
     (''QNN Linear per-tensor symmectrical W8A8'',
      kQNN_tensor_symm_w8a8),
     (''QNN_LPBQ_w4a16o16_G32'',
      kQNN_LPBQ_w4a16o16_G32),
     (''QNN_LPBQ_w4a16o16_G64'',
      kQNN_LPBQ_w4a16o16_G64)]"

definition linear_impl_strings :: "(linear_impl \<times> string) list" where
  "linear_impl_strings =
    [(kDefault,
      ''Default''),
     (kBLAS,
      ''BLAS''),
     (kGGUF,
      ''GGUF''),
     (kMllmBlas,
      ''MllmBlas''),
     (kMllmBlas_KAI_SGEMM_NT_NT_NEON,
      ''MllmBlas_KAI_SGEMM_NT_NT_NEON''),
     (kMllmBlas_KAI_SGEMM_NT_T_SME,
      ''MllmBlas_KAI_SGEMM_NT_T_SME''),
     (kKaiLinear_fp16_fp16_fp16p_mxk_kxn,
      ''KaiLinear_fp16_fp16_fp16p_mxk_kxn''),
     (kKaiLinear_f32_qai8dxp_qsi4c32p_mxk_nxk_qai8dxp1x8_qsi4c32p4x8_1x4x32,
      ''KaiLinear_f32_qai8dxp_qsi4c32p_mxk_nxk_qai8dxp1x8_qsi4c32p4x8_1x4x32''),
     (kKaiLinear_f32_qai8dxp_qsi4c32p_mxk_nxk_qai8dxp1x8_qsi4c32p8x8_1x8x32,
      ''KaiLinear_f32_qai8dxp_qsi4c32p_mxk_nxk_qai8dxp1x8_qsi4c32p8x8_1x8x32''),
     (kKaiLinear_f32_qai8dxp_qsi4c32p_mxk_nxk_qai8dxp4x8_qsi4c32p4x8_8x4x32,
      ''KaiLinear_f32_qai8dxp_qsi4c32p_mxk_nxk_qai8dxp4x8_qsi4c32p4x8_8x4x32''),
     (kKaiLinear_f32_qai8dxp_qsi4c32p_mxk_nxk_qai8dxp4x8_qsi4c32p4x8_16x4x32,
      ''KaiLinear_f32_qai8dxp_qsi4c32p_mxk_nxk_qai8dxp4x8_qsi4c32p4x8_16x4x32''),
     (kKaiLinear_f32_qai8dxp_qsi4c32p_mxk_nxk_qai8dxp4x8_qsi4c32p8x8_4x8x32,
      ''KaiLinear_f32_qai8dxp_qsi4c32p_mxk_nxk_qai8dxp4x8_qsi4c32p8x8_4x8x32''),
     (kKaiLinear_f32_qai8dxp_qsi4c32p_mxk_nxk_qai8dxp1x4_qsi4c32p4x4_1x4,
      ''KaiLinear_f32_qai8dxp_qsi4c32p_mxk_nxk_qai8dxp1x4_qsi4c32p4x4_1x4''),
     (KaiLinear_f16_qsi8d32p_qai4c32p_mxk_nxk_qsi8d32p1x8_qai4c32p4x8_1x4,
      ''KaiLinear_f16_qsi8d32p_qai4c32p_mxk_nxk_qsi8d32p1x8_qai4c32p4x8_1x4''),
     (KaiLinear_f16_qsi8d32p_qai4c32p_mxk_nxk_qsi8d32p4x4_qai4c32p4x4_8x4,
      ''KaiLinear_f16_qsi8d32p_qai4c32p_mxk_nxk_qsi8d32p4x4_qai4c32p4x4_8x4''),
     (KaiLinear_f16_qsi8d32p_qai4c32p_mxk_nxk_qsi8d32p4x8_qai4c32p4x8_8x4_i8mm,
      ''KaiLinear_f16_qsi8d32p_qai4c32p_mxk_nxk_qsi8d32p4x8_qai4c32p4x8_8x4_i8mm''),
     (kKaiLinear_f32_qsi8d32p_qai4c32p_mxk_nxk_qsi8d32p1vlx4_qai4c32p4vlx4_1vlx4vl_sme2_mopa,
      ''KaiLinear_f32_qsi8d32p_qai4c32p_mxk_nxk_qsi8d32p1vlx4_qai4c32p4vlx4_1vlx4vl_sme2_mopa''),
     (kKaiLinear_f32_qsi8d32p_qai4c32p_mxk_nxk_qsi8d32p1x4_qai4c32p4vlx4_1x4vl_sme2_dot,
      ''KaiLinear_f32_qsi8d32p_qai4c32p_mxk_nxk_qsi8d32p1x4_qai4c32p4vlx4_1x4vl_sme2_dot''),
     (kKaiLinear_f32_qsi8d32p_qai4c32p_mxk_nxk_qsi8d32p1x4_qai4c32p4x4_1x4_neon_dotprod,
      ''KaiLinear_f32_qsi8d32p_qai4c32p_mxk_nxk_qsi8d32p1x4_qai4c32p4x4_1x4_neon_dotprod''),
     (kKaiLinear_f32_qsi8d32p_qai4c32p_mxk_nxk_qsi8d32p1x8_qai4c32p4x8_1x4_neon_dotprod,
      ''KaiLinear_f32_qsi8d32p_qai4c32p_mxk_nxk_qsi8d32p1x8_qai4c32p4x8_1x4_neon_dotprod''),
     (kKaiLinear_f32_qsi8d32p_qai4c32p_mxk_nxk_qsi8d32p4x4_qai4c32p4x4_8x4_neon_dotprod,
      ''KaiLinear_f32_qsi8d32p_qai4c32p_mxk_nxk_qsi8d32p4x4_qai4c32p4x4_8x4_neon_dotprod''),
     (kKaiLinear_f32_qsi8d32p_qai4c32p_mxk_nxk_qsi8d32p4x8_qai4c32p4x8_8x4_neon_i8mm,
      ''KaiLinear_f32_qsi8d32p_qai4c32p_mxk_nxk_qsi8d32p4x8_qai4c32p4x8_8x4_neon_i8mm''),
     (kQNN_tensor_symm_w8a16,
      ''QNN Linear per-tensor symmectrical W8A16''),
     (kQNN_tensor_symm_w8a8,
      ''QNN Linear per-tensor symmectrical W8A8''),
     (kQNN_LPBQ_w4a16o16_G32,
      ''QNN_LPBQ_w4a16o16_G32''),
     (kQNN_LPBQ_w4a16o16_G64,
      ''QNN_LPBQ_w4a16o16_G64'')]"

definition str2LinearImplTypes :: "string \<Rightarrow> linear_impl" where
  "str2LinearImplTypes s = (case map_of linear_impl_names s of Some t \<Rightarrow> t | None \<Rightarrow> kDefault)"

definition LinearImplTypes2Str :: "linear_impl \<Rightarrow> string" where
  "LinearImplTypes2Str t = (case map_of linear_impl_strings t of Some s \<Rightarrow> s | None \<Rightarrow> ''Default'')"

datatype conv2d_impl = kConv2DDefault | kConv2D_w4a16o16_G16 | kConv2D_w4a16o16_G32
  | kConv2D_w4a16o16_G64

definition str2Conv2DOpImplType :: "string \<Rightarrow> conv2d_impl" where
  "str2Conv2DOpImplType s =
     (case map_of [(''Default'', kConv2DDefault), (''QNN_LPBQ_w4a16o16_G16'', kConv2D_w4a16o16_G16),
        (''QNN_LPBQ_w4a16o16_G32'', kConv2D_w4a16o16_G32),
        (''QNN_LPBQ_w4a16o16_G64'', kConv2D_w4a16o16_G64)] s of
        Some t \<Rightarrow> t | None \<Rightarrow> kConv2DDefault)"

fun Conv2DOpImplType2Str :: "conv2d_impl \<Rightarrow> string" where
  "Conv2DOpImplType2Str kConv2DDefault = ''Default''"
| "Conv2DOpImplType2Str kConv2D_w4a16o16_G16 = ''QNN_LPBQ_w4a16o16_G16''"
| "Conv2DOpImplType2Str kConv2D_w4a16o16_G32 = ''QNN_LPBQ_w4a16o16_G32''"
| "Conv2DOpImplType2Str kConv2D_w4a16o16_G64 = ''QNN_LPBQ_w4a16o16_G64''"

subsection \<open>Convolutions and pooling\<close>

text \<open>The quotient of two \<^verbatim>\<open>int\<close>s is rounded toward zero.\<close>

definition i32_div :: "int \<Rightarrow> int \<Rightarrow> int outcome" where
  "i32_div a b = (if b = 0 then Inl Undefined else i32 (a sdiv b))"

definition i32_rem :: "int \<Rightarrow> int \<Rightarrow> int outcome" where
  "i32_rem a b = (if b = 0 then Inl Undefined else obind (i32 (a sdiv b)) (\<lambda>_. i32 (a smod b)))"

definition conv_out :: "int \<Rightarrow> int \<Rightarrow> int \<Rightarrow> int \<Rightarrow> int \<Rightarrow> int outcome" where
  "conv_out dim ksize stride padding dilation =
     obind (i32 (2 * padding)) (\<lambda>p2. obind (i32 (dim + p2)) (\<lambda>padded.
     obind (i32 (ksize - 1)) (\<lambda>k1. obind (i32 (dilation * k1)) (\<lambda>reach.
     obind (i32 (padded - reach)) (\<lambda>a. obind (i32 (a - 1)) (\<lambda>b.
     obind (i32_div b stride) (\<lambda>q. i32 (q + 1))))))))"

definition conv2d_out :: "int \<Rightarrow> int \<Rightarrow> int \<Rightarrow> int \<Rightarrow> int \<Rightarrow> int outcome" where
  "conv2d_out dim ksize stride padding dilation =
     obind (i32 (ksize - 1)) (\<lambda>k1. obind (i32 (dilation * k1)) (\<lambda>reach.
     obind (i32 (reach + 1)) (\<lambda>dilated.
     obind (i32 (2 * padding)) (\<lambda>p2. obind (i32 (dim + p2)) (\<lambda>padded.
     obind (i32 (padded - dilated)) (\<lambda>b.
     obind (i32_div b stride) (\<lambda>q. i32 (q + 1))))))))"

record conv1d_options =
  c1_in_channels :: int
  c1_out_channels :: int
  c1_kernel_size :: int
  c1_stride :: int
  c1_bias :: bool
  c1_padding :: int
  c1_groups :: int
  c1_dilation :: int

definition Conv1DOp_reshape :: "conv1d_options \<Rightarrow> nat \<Rightarrow> tensor list \<Rightarrow> tensor list outcome" where
  "Conv1DOp_reshape opt u ts =
     obind (inp ts 0) (\<lambda>i.
       case v_shape i of
         [batch, in_channels, sequence] \<Rightarrow>
           obind (rt_assert (in_channels = c1_in_channels opt)) (\<lambda>_.
           obind (i32_rem in_channels (c1_groups opt)) (\<lambda>r.
           obind (rt_assert (r = 0)) (\<lambda>_.
           obind (i32_rem (c1_out_channels opt) (c1_groups opt)) (\<lambda>r.
           obind (rt_assert (r = 0)) (\<lambda>_.
           obind (conv_out sequence (c1_kernel_size opt) (c1_stride opt) (c1_padding opt)
                    (c1_dilation opt)) (\<lambda>seq_out.
             one_output [batch, c1_out_channels opt, seq_out] i u))))))
       | _ \<Rightarrow> Inl (Exit kCoreError))"

record conv2d_options =
  c2_in_channels :: int
  c2_out_channels :: int
  c2_kernel_size :: "int list"
  c2_stride :: "int list"
  c2_padding :: "int list"
  c2_dilation :: "int list"
  c2_bias :: bool
  c2_impl_type :: conv2d_impl

definition channels_last :: "conv2d_impl \<Rightarrow> bool" where
  "channels_last t \<longleftrightarrow>
     t = kConv2D_w4a16o16_G32 \<or> t = kConv2D_w4a16o16_G64 \<or> t = kConv2D_w4a16o16_G16"

definition Conv2DOp_reshape :: "conv2d_options \<Rightarrow> nat \<Rightarrow> tensor list \<Rightarrow> tensor list outcome" where
  "Conv2DOp_reshape opt u ts =
     obind (inp ts 0) (\<lambda>i.
       case v_shape i of
         [batch, s1, s2, s3] \<Rightarrow>
           (let (in_channels, in_height, in_width) =
              (if channels_last (c2_impl_type opt) then (s3, s1, s2) else (s1, s2, s3))
            in obind (rt_assert (in_channels = c2_in_channels opt)) (\<lambda>_.
               obind (rt_assert (length (c2_kernel_size opt) = 2)) (\<lambda>_.
               obind (rt_assert (length (c2_stride opt) = 2)) (\<lambda>_.
               obind (rt_assert (length (c2_padding opt) = 2)) (\<lambda>_.
               obind (rt_assert (length (c2_dilation opt) = 2)) (\<lambda>_.
               obind (conv2d_out in_height (c2_kernel_size opt ! 0) (c2_stride opt ! 0)
                        (c2_padding opt ! 0) (c2_dilation opt ! 0)) (\<lambda>h_out.
               obind (conv2d_out in_width (c2_kernel_size opt ! 1) (c2_stride opt ! 1)
                        (c2_padding opt ! 1) (c2_dilation opt ! 1)) (\<lambda>w_out.
                 one_output (if channels_last (c2_impl_type opt)
                             then [batch, h_out, w_out, c2_out_channels opt]
                             else [batch, c2_out_channels opt, h_out, w_out]) i u))))))))
       | _ \<Rightarrow> Inl (Exit kCoreError))"

record conv3d_options =
  c3_in_channels :: int
  c3_out_channels :: int
  c3_kernel_size :: "int list"
  c3_stride :: "int list"
  c3_bias :: bool

definition Conv3DOp_reshape :: "conv3d_options \<Rightarrow> nat \<Rightarrow> tensor list \<Rightarrow> tensor list outcome" where
  "Conv3DOp_reshape opt u ts =
     obind (inp ts 0) (\<lambda>i.
       case v_shape i of
         [batch, in_channels, in_depth, in_height, in_width] \<Rightarrow>
           obind (rt_assert (in_channels = c3_in_channels opt)) (\<lambda>_.
           obind (vec_at (c3_kernel_size opt) 0) (\<lambda>k0. obind (vec_at (c3_stride opt) 0) (\<lambda>s0.
           obind (conv_out in_depth k0 s0 0 1) (\<lambda>d_out.
           obind (vec_at (c3_kernel_size opt) 1) (\<lambda>k1. obind (vec_at (c3_stride opt) 1) (\<lambda>s1.
           obind (conv_out in_height k1 s1 0 1) (\<lambda>h_out.
           obind (vec_at (c3_kernel_size opt) 2) (\<lambda>k2. obind (vec_at (c3_stride opt) 2) (\<lambda>s2.
           obind (conv_out in_width k2 s2 0 1) (\<lambda>w_out.
             one_output [batch, c3_out_channels opt, d_out, h_out, w_out] i u))))))))))
       | _ \<Rightarrow> Inl (Exit kCoreError))"

record avgpool1d_options =
  ap_kernel_size :: int
  ap_stride :: int
  ap_padding :: int
  ap_ceil_mode :: bool

text \<open>
  \<open>fceil a b\<close> stands for \<^verbatim>\<open>static_cast<int>(std::ceil(static_cast<float>(a) / b))\<close>.
\<close>

definition AvgPool1dOp_reshape ::
  "(int \<Rightarrow> int \<Rightarrow> int) \<Rightarrow> avgpool1d_options \<Rightarrow> nat \<Rightarrow> tensor list \<Rightarrow> tensor list outcome" where
  "AvgPool1dOp_reshape fceil opt u ts =
     obind (inp ts 0) (\<lambda>i.
       case v_shape i of
         [batch, channels, len] \<Rightarrow>
           obind (i32 (2 * ap_padding opt)) (\<lambda>p2. obind (i32 (len + p2)) (\<lambda>padded.
           obind (i32 (padded - ap_kernel_size opt)) (\<lambda>a.
           obind (if ap_ceil_mode opt then Inr (fceil a (ap_stride opt))
                  else i32_div a (ap_stride opt)) (\<lambda>q.
           obind (i32 (q + 1)) (\<lambda>pooled_length.
             one_output [batch, channels, pooled_length] i u)))))
       | _ \<Rightarrow> Inl (Exit kCoreError))"

subsection \<open>Fourier transform\<close>

record stft_options =
  sf_n_fft :: int
  sf_hop_length :: int
  sf_win_length :: int
  sf_onesided :: bool
  sf_center :: bool
  sf_pad_mode :: string
  sf_return_complex :: bool

text \<open>The defaults are written back into the options of the operation.\<close>

definition stft_defaults :: "'a stft_options_scheme \<Rightarrow> 'a stft_options_scheme" where
  "stft_defaults opt =
     (let opt = (if sf_hop_length opt = 0 then opt\<lparr>sf_hop_length := sf_n_fft opt sdiv 4\<rparr> else opt)
      in if sf_win_length opt = 0 \<or> sf_n_fft opt < sf_win_length opt
         then opt\<lparr>sf_win_length := sf_n_fft opt\<rparr> else opt)"

definition stft_pad_mode :: "'a stft_options_scheme \<Rightarrow> 'a stft_options_scheme" where
  "stft_pad_mode opt =
     (if sf_center opt \<and> sf_pad_mode opt \<noteq> ''reflect'' \<and> sf_pad_mode opt \<noteq> ''constant''
      then opt\<lparr>sf_pad_mode := ''reflect''\<rparr> else opt)"

definition last_is :: "tensor list \<Rightarrow> nat \<Rightarrow> int \<Rightarrow> unit outcome" where
  "last_is ts k n =
     obind (rt_assert (k < length ts)) (\<lambda>_. obind (inp ts k) (\<lambda>w.
       if v_shape w = [] then Inl Undefined else rt_assert (last (v_shape w) = n)))"

definition stft_frames :: "bool \<Rightarrow> int \<Rightarrow> int \<Rightarrow> int \<Rightarrow> int \<Rightarrow> int outcome" where
  "stft_frames center n_fft hop win signal =
     obind (if center then i32 (signal + 2 * (n_fft sdiv 2)) else Inr signal) (\<lambda>len.
     obind (i32 (len - win)) (\<lambda>a. obind (i32_div a hop) (\<lambda>q. i32 (1 + q))))"

definition STFTOp_reshape ::
  "stft_options \<Rightarrow> nat \<Rightarrow> tensor list \<Rightarrow> (stft_options \<times> tensor list) outcome" where
  "STFTOp_reshape opt u ts =
     obind (rt_assert (0 < sf_n_fft opt)) (\<lambda>_. obind (rt_assert (sf_onesided opt)) (\<lambda>_.
     (let opt = stft_defaults opt
      in obind (inp ts 0) (\<lambda>i.
         obind (rt_assert (length (v_shape i) = 1 \<or> length (v_shape i) = 2)) (\<lambda>_.
         obind (last_is ts 1 (sf_win_length opt)) (\<lambda>_.
         (let opt = stft_pad_mode opt;
              batch_size = (if length (v_shape i) = 1 then 1 else v_shape i ! 0);
              signal = (if length (v_shape i) = 1 then v_shape i ! 0 else v_shape i ! 1)
          in obind (stft_frames (sf_center opt) (sf_n_fft opt) (sf_hop_length opt)
                     (sf_win_length opt) signal) (\<lambda>n_frames.
             (let freq_bins = (if sf_onesided opt then sf_n_fft opt sdiv 2 + 1 else sf_n_fft opt)
              in obind (if sf_return_complex opt
                        then tensor_empty [batch_size, freq_bins, n_frames]
                               (if v_dtype i = kFloat32 then kComplexFloat32 else kComplexFloat64)
                               (v_device i) u
                        else tensor_empty [batch_size, freq_bins, n_frames, 2] (v_dtype i)
                               (v_device i) u) (\<lambda>o1. Inr (opt, [o1])))))))))))"

record istft_options = stft_options +
  sf_normalized :: bool
  sf_length :: int

definition istft_length :: "int \<Rightarrow> int \<Rightarrow> int \<Rightarrow> int outcome" where
  "istft_length n_frames hop n_fft =
     obind (i32 (n_frames - 1)) (\<lambda>a. obind (i32 (a * hop)) (\<lambda>b. i32 (b + n_fft)))"

definition istft_trim :: "istft_options \<Rightarrow> int \<Rightarrow> int outcome" where
  "istft_trim opt signal =
     (if sf_center opt then i32 (signal - 2 * (sf_n_fft opt sdiv 2))
      else if sf_pad_mode opt = ''same'' then
        obind (i32 (sf_win_length opt - sf_hop_length opt)) (\<lambda>d.
        obind (i32 (2 * (d sdiv 2))) (\<lambda>p. i32 (signal - p)))
      else Inr signal)"

definition ISTFTOp_reshape ::
  "istft_options \<Rightarrow> nat \<Rightarrow> tensor list \<Rightarrow> (istft_options \<times> tensor list) outcome" where
  "ISTFTOp_reshape opt u ts =
     obind (rt_assert (0 < sf_n_fft opt)) (\<lambda>_. obind (rt_assert (sf_onesided opt)) (\<lambda>_.
     (let opt = stft_defaults opt
      in obind (inp ts 0) (\<lambda>i.
         obind (rt_assert (length (v_shape i) = 3 \<or> length (v_shape i) = 4)) (\<lambda>_.
         obind (last_is ts 1 (sf_win_length opt)) (\<lambda>_.
         (let opt = stft_pad_mode opt
          in obind (istft_length (v_shape i ! 2) (sf_hop_length opt) (sf_n_fft opt)) (\<lambda>signal.
             (let opt = opt\<lparr>sf_length := signal\<rparr>
              in obind (istft_trim opt signal) (\<lambda>signal_length.
                 obind (tensor_empty [v_shape i ! 0, signal_length] kFloat32 (v_device i) u)
                   (\<lambda>o1. Inr (opt, [o1]))))))))))))"

subsection \<open>Resampling\<close>

fun set_last :: "int list \<Rightarrow> nat \<Rightarrow> (nat \<times> int) list \<Rightarrow> int list" where
  "set_last shape offset [] = shape"
| "set_last shape offset ((i, n) # ns) = set_last (shape[offset + i := n]) offset ns"

text \<open>
  A scale factor is the function \<^verbatim>\<open>[](int d) { return static_cast<int>(d * factor); }\<close>.
\<close>

definition InterpolateOp_reshape ::
  "int list \<Rightarrow> (int \<Rightarrow> int) list \<Rightarrow> nat \<Rightarrow> tensor list \<Rightarrow> tensor list outcome" where
  "InterpolateOp_reshape sizes scales u ts =
     obind (vec_at ts 0) (\<lambda>input. case input of
       None \<Rightarrow> Inr []
     | Some i \<Rightarrow>
         obind (if sizes \<noteq> [] then
                  obind (rt_assert (length sizes \<le> length (v_shape i))) (\<lambda>_.
                    Inr (set_last (v_shape i) (length (v_shape i) - length sizes)
                           (enumerate 0 sizes)))
                else if scales \<noteq> [] then
                  obind (rt_assert (length scales \<le> length (v_shape i))) (\<lambda>_.
                    let offset = length (v_shape i) - length scales
                    in Inr (set_last (v_shape i) offset
                         (map (\<lambda>(k, f). (k, f (v_shape i ! (offset + k)))) (enumerate 0 scales))))
                else Inr (v_shape i)) (\<lambda>shape. one_output shape i u))"

subsection \<open>Attention\<close>

definition need_inputs :: "nat \<Rightarrow> tensor list \<Rightarrow> unit outcome" where
  "need_inputs n ts = (if n \<le> length ts then Inr () else Inl Undefined)"

datatype paged_attn_impl = kPagedDefault | kPagedAllFp32

definition PagedAttnOp_reshape ::
  "paged_attn_impl \<Rightarrow> bool \<Rightarrow> nat \<Rightarrow> tensor list \<Rightarrow> tensor list outcome" where
  "PagedAttnOp_reshape impl_type need_attn_weights u ts =
     obind (need_inputs 4 ts) (\<lambda>_. obind (inp ts 3) (\<lambda>index.
     obind (rt_assert (length (v_shape index) = 1)) (\<lambda>_.
     obind (rt_assert (v_dtype index = kInt32)) (\<lambda>_. obind (inp ts 0) (\<lambda>q.
     obind (vec_at (v_shape q) 0) (\<lambda>b. obind (vec_at (v_shape q) 1) (\<lambda>sq.
     obind (vec_at (v_shape q) 2) (\<lambda>h. obind (vec_at (v_shape q) 3) (\<lambda>d.
     (let out_dtype = (case impl_type of kPagedAllFp32 \<Rightarrow> kFloat32 | kPagedDefault \<Rightarrow> v_dtype q)
      in obind (tensor_empty [b, sq, h, d] out_dtype (v_device q) u) (\<lambda>o1.
         if need_attn_weights
         then obind (tensor_empty [b, h, sq, v_shape index ! 0] out_dtype (v_device q) (u + 1))
                (\<lambda>o2. Inr [o1, o2])
         else Inr [o1, None])))))))))))"

definition KVCacheOp_reshape :: "int \<Rightarrow> nat \<Rightarrow> tensor list \<Rightarrow> tensor list outcome" where
  "KVCacheOp_reshape kv_head u ts =
     obind (inp ts 0) (\<lambda>k. obind (vec_at (v_shape k) 0) (\<lambda>b. obind (vec_at (v_shape k) 2) (\<lambda>s.
     obind (vec_at (v_shape k) 3) (\<lambda>d.
     obind (tensor_empty [b, kv_head, s, d] kFloat32 kCPU u) (\<lambda>o1.
     obind (tensor_empty [b, kv_head, s, d] kFloat32 kCPU (u + 1)) (\<lambda>o2. Inr [o1, o2]))))))"

definition same_tensor :: "tensor list \<Rightarrow> tensor list outcome" where
  "same_tensor ts = obind (vec_at ts 0) (\<lambda>t. Inr [t])"

definition RoPEOp_reshape :: "base_options \<Rightarrow> nat \<Rightarrow> tensor list \<Rightarrow> tensor list outcome" where
  "RoPEOp_reshape opt u ts =
     (if bo_inplace opt then same_tensor ts
      else obind (rt_assert (length ts = 3)) (\<lambda>_. obind (inp ts 0) (\<lambda>i.
             obind (rt_assert (length (v_shape i) = 4)) (\<lambda>_. one_output (v_shape i) i u))))"

record radix_options =
  ra_B :: int
  ra_q_head :: int
  ra_kv_head :: int
  ra_D_QK :: int
  ra_D_V :: int
  ra_cur_seq_len :: int
  ra_sliding_window :: int
  ra_s_aux_enable :: bool

definition rank_is :: "tensor list \<Rightarrow> nat \<Rightarrow> nat \<Rightarrow> unit outcome" where
  "rank_is ts k r = obind (inp ts k) (\<lambda>v. rt_assert (length (v_shape v) = r))"

text \<open>\<^verbatim>\<open>RadixAttnOp\<close> binds references to three inputs and reads the first.\<close>

definition RadixAttnOp_reshape :: "nat \<Rightarrow> tensor list \<Rightarrow> tensor list outcome" where
  "RadixAttnOp_reshape u ts = obind (need_inputs 3 ts) (\<lambda>_. like_input 0 u ts)"

definition RadixAttnRelaxOp_reshape :: "radix_options \<Rightarrow> nat \<Rightarrow> tensor list \<Rightarrow> tensor list outcome" where
  "RadixAttnRelaxOp_reshape opt u ts =
     obind (rt_assert (3 \<le> length ts)) (\<lambda>_. obind (rank_is ts 0 4) (\<lambda>_.
     obind (rank_is ts 1 1) (\<lambda>_. obind (rank_is ts 2 1) (\<lambda>_. obind (inp ts 0) (\<lambda>q.
     obind (tensor_size q 1) (\<lambda>s. one_output [ra_B opt, s, ra_q_head opt, ra_D_V opt] q u))))))"

definition check_s_aux :: "bool \<Rightarrow> view \<Rightarrow> tensor list \<Rightarrow> unit outcome" where
  "check_s_aux enabled q ts =
     (if enabled then
        obind (rt_assert (length ts = 4)) (\<lambda>_. obind (inp ts 3) (\<lambda>s_aux.
        obind (rt_assert (length (v_shape s_aux) = 1)) (\<lambda>_.
        obind (tensor_size s_aux 0) (\<lambda>a. obind (tensor_size q 2) (\<lambda>b. rt_assert (a = b))))))
      else Inr ())"

definition RadixAttnSwaSinkOp_reshape ::
  "radix_options \<Rightarrow> nat \<Rightarrow> tensor list \<Rightarrow> tensor list outcome" where
  "RadixAttnSwaSinkOp_reshape opt u ts =
     obind (rt_assert (ra_sliding_window opt \<noteq> -1)) (\<lambda>_.
     obind (rt_assert (3 \<le> length ts)) (\<lambda>_. obind (rank_is ts 0 4) (\<lambda>_.
     obind (rank_is ts 1 1) (\<lambda>_. obind (rank_is ts 2 1) (\<lambda>_. obind (inp ts 0) (\<lambda>q.
     obind (check_s_aux (ra_s_aux_enable opt) q ts) (\<lambda>_.
     obind (tensor_size q 1) (\<lambda>s. one_output [ra_B opt, s, ra_q_head opt, ra_D_V opt] q u))))))))"

definition FlashAttention2SwaSinkOp_reshape ::
  "radix_options \<Rightarrow> nat \<Rightarrow> tensor list \<Rightarrow> tensor list outcome" where
  "FlashAttention2SwaSinkOp_reshape opt u ts =
     obind (rt_assert (ra_sliding_window opt \<noteq> -1)) (\<lambda>_.
     obind (rt_assert (3 \<le> length ts)) (\<lambda>_. obind (rank_is ts 0 4) (\<lambda>_.
     obind (rank_is ts 1 4) (\<lambda>_. obind (rank_is ts 2 4) (\<lambda>_. obind (inp ts 0) (\<lambda>q.
     obind (inp ts 1) (\<lambda>k. obind (inp ts 2) (\<lambda>v.
     obind (tensor_size k 2) (\<lambda>hk. obind (tensor_size v 2) (\<lambda>hv.
     obind (rt_assert (hk = hv)) (\<lambda>_. obind (tensor_size q (-1)) (\<lambda>dq.
     obind (tensor_size k (-1)) (\<lambda>dk. obind (rt_assert (dq = dk)) (\<lambda>_.
     obind (check_s_aux (ra_s_aux_enable opt) q ts) (\<lambda>_.
     obind (tensor_size v 0) (\<lambda>b. obind (tensor_size q 1) (\<lambda>s. obind (tensor_size q 2) (\<lambda>h.
     obind (tensor_size v 3) (\<lambda>d. one_output [b, s, h, d] v u)))))))))))))))))))"

subsection \<open>Embedding, linear, normalisation and activation\<close>

definition embedding_dtype :: "dtype \<Rightarrow> dtype" where
  "embedding_dtype w =
     (if w = kGGUF_Q4_0 \<or> w = kGGUF_Q4_K then kFloat32
      else if w = kUInt16 then kUInt16PerTensorAsy else w)"

definition EmbeddingOp_reshape :: "int \<Rightarrow> tensor \<Rightarrow> nat \<Rightarrow> tensor list \<Rightarrow> tensor list outcome" where
  "EmbeddingOp_reshape hidden_size weight u ts =
     obind (inp ts 0) (\<lambda>i. obind (vec_at (v_shape i) 0) (\<lambda>b. obind (vec_at (v_shape i) 1) (\<lambda>s.
     obind (impl weight) (\<lambda>w.
     obind (tensor_empty [b, s, hidden_size] (embedding_dtype (v_dtype w)) (v_device i) u)
       (\<lambda>o1. Inr [o1])))))"

record linear_options = base_options +
  li_in_channels :: int
  li_out_channels :: int
  li_bias :: bool
  li_impl_type :: linear_impl

definition LinearOp_reshape :: "linear_options \<Rightarrow> nat \<Rightarrow> tensor list \<Rightarrow> tensor list outcome" where
  "LinearOp_reshape opt u ts =
     (if bo_redirect opt then obind (vec_at ts 1) (\<lambda>t. Inr [t])
      else obind (inp ts 0) (\<lambda>i.
        if v_shape i = [] then Inl Undefined
        else obind (rt_assert (last (v_shape i) = li_in_channels opt)) (\<lambda>_.
               one_output (butlast (v_shape i) @ [li_out_channels opt]) i u)))"

definition inplace_or_like :: "base_options \<Rightarrow> nat \<Rightarrow> tensor list \<Rightarrow> tensor list outcome" where
  "inplace_or_like opt u ts = (if bo_inplace opt then same_tensor ts else like_input 0 u ts)"

definition RMSNormOp_reshape :: "base_options \<Rightarrow> nat \<Rightarrow> tensor list \<Rightarrow> tensor list outcome" where
  "RMSNormOp_reshape = inplace_or_like"

definition SiLUOp_reshape :: "base_options \<Rightarrow> nat \<Rightarrow> tensor list \<Rightarrow> tensor list outcome" where
  "SiLUOp_reshape = inplace_or_like"

definition SigmoidOp_reshape :: "base_options \<Rightarrow> nat \<Rightarrow> tensor list \<Rightarrow> tensor list outcome" where
  "SigmoidOp_reshape = inplace_or_like"

definition GELUOp_reshape :: "nat \<Rightarrow> tensor list \<Rightarrow> tensor list outcome" where
  "GELUOp_reshape = like_input 0"

definition QuickGELUOp_reshape :: "nat \<Rightarrow> tensor list \<Rightarrow> tensor list outcome" where
  "QuickGELUOp_reshape = like_input 0"

definition ReLUOp_reshape :: "nat \<Rightarrow> tensor list \<Rightarrow> tensor list outcome" where
  "ReLUOp_reshape = like_input 0"

definition SoftmaxOp_reshape :: "nat \<Rightarrow> tensor list \<Rightarrow> tensor list outcome" where
  "SoftmaxOp_reshape = like_input 0"

definition CausalMaskOp_reshape :: "nat \<Rightarrow> tensor list \<Rightarrow> tensor list outcome" where
  "CausalMaskOp_reshape = like_input 0"

definition CloneOp_reshape :: "nat \<Rightarrow> tensor list \<Rightarrow> tensor list outcome" where
  "CloneOp_reshape = like_input 0"

definition ContiguousOp_reshape :: "nat \<Rightarrow> tensor list \<Rightarrow> tensor list outcome" where
  "ContiguousOp_reshape = like_input 0"

definition VisionRoPEOp_reshape :: "nat \<Rightarrow> tensor list \<Rightarrow> tensor list outcome" where
  "VisionRoPEOp_reshape = like_input 0"

definition MultimodalRoPEOp_reshape :: "nat \<Rightarrow> tensor list \<Rightarrow> tensor list outcome" where
  "MultimodalRoPEOp_reshape = like_input 0"

definition FlashAttention2Op_reshape :: "nat \<Rightarrow> tensor list \<Rightarrow> tensor list outcome" where
  "FlashAttention2Op_reshape = like_input 0"

definition LayerNormOp_reshape :: "nat \<Rightarrow> tensor list \<Rightarrow> tensor list outcome" where
  "LayerNormOp_reshape = like_input 0"

definition LayerNorm2DOp_reshape :: "nat \<Rightarrow> tensor list \<Rightarrow> tensor list outcome" where
  "LayerNorm2DOp_reshape = like_input 0"

definition CastTypeOp_reshape :: "dtype \<Rightarrow> nat \<Rightarrow> tensor list \<Rightarrow> tensor list outcome" where
  "CastTypeOp_reshape dt u ts =
     obind (inp ts 0) (\<lambda>i. obind (tensor_empty (v_shape i) dt (v_device i) u) (\<lambda>o1. Inr [o1]))"

definition X2XOp_reshape :: "device \<Rightarrow> nat \<Rightarrow> tensor list \<Rightarrow> tensor list outcome" where
  "X2XOp_reshape dev u ts =
     obind (inp ts 0) (\<lambda>i. obind (tensor_empty (v_shape i) (v_dtype i) dev u) (\<lambda>o1. Inr [o1]))"

definition WhereOp_reshape :: "nat \<Rightarrow> tensor list \<Rightarrow> tensor list outcome" where
  "WhereOp_reshape u ts =
     obind (vec_at ts 1) (\<lambda>t. obind (tensor_emptyLike t u) (\<lambda>o1. Inr [o1]))"

definition FillOp_reshape :: "tensor list \<Rightarrow> tensor list outcome" where
  "FillOp_reshape = same_tensor"

definition MaskedScatterOp_reshape :: "tensor list \<Rightarrow> tensor list outcome" where
  "MaskedScatterOp_reshape = same_tensor"

definition ParamOp_reshape :: "tensor \<Rightarrow> tensor list" where
  "ParamOp_reshape weight = [weight]"

subsection \<open>The tables of implementations are inverse to each other\<close>

lemma linear_impl_tables:
  "linear_impl_strings = map (\<lambda>(s, t). (t, s)) linear_impl_names"
  by (simp add: linear_impl_strings_def linear_impl_names_def)

lemma linear_impl_distinct:
  "distinct (map fst linear_impl_names)" "distinct (map snd linear_impl_names)"
  by (simp_all add: linear_impl_names_def)

text \<open>
  Writing an implementation of \<^verbatim>\<open>Linear\<close> as a string and reading it back gives the same
  implementation when the tables name it, and the default one otherwise.
\<close>

theorem linear_impl_roundtrip:
  "str2LinearImplTypes (LinearImplTypes2Str t) =
     (if t \<in> snd ` set linear_impl_names then t else kDefault)"
proof (cases "t \<in> snd ` set linear_impl_names")
  case True
  then obtain s where st: "(s, t) \<in> set linear_impl_names" by auto
  then have ts: "(t, s) \<in> set linear_impl_strings"
    by (auto simp: linear_impl_tables intro: rev_image_eqI)
  have "distinct (map fst linear_impl_strings)"
    using linear_impl_distinct(2) by (simp add: linear_impl_tables comp_def split_def)
  then have "map_of linear_impl_strings t = Some s" using ts by simp
  moreover have "map_of linear_impl_names s = Some t"
    using linear_impl_distinct(1) st by simp
  ultimately show ?thesis using True by (simp add: str2LinearImplTypes_def LinearImplTypes2Str_def)
next
  case False
  then have "t \<notin> fst ` set linear_impl_strings"
    by (auto simp: linear_impl_tables intro: rev_image_eqI)
  then have "map_of linear_impl_strings t = None" by (simp add: map_of_eq_None_iff)
  moreover have "map_of linear_impl_names ''Default'' = Some kDefault"
    by (simp add: linear_impl_names_def)
  ultimately show ?thesis using False by (simp add: str2LinearImplTypes_def LinearImplTypes2Str_def)
qed

lemma conv2d_impl_roundtrip: "str2Conv2DOpImplType (Conv2DOpImplType2Str t) = t"
  by (cases t) (simp_all add: str2Conv2DOpImplType_def)

subsection \<open>Output sizes count windows\<close>

lemma i32_div_Inr [outcome_simps]:
  "i32_div a b = Inr q \<longleftrightarrow> b \<noteq> 0 \<and> q = a sdiv b \<and> - (2 ^ 31) \<le> q \<and> q < 2 ^ 31"
  by (auto simp: i32_div_def i32_Inr)

lemma sdiv_nonneg: "0 \<le> a \<Longrightarrow> 0 < b \<Longrightarrow> a sdiv b = a div (b :: int)"
  by (simp add: signed_divide_int_def sgn_if)

lemma sdiv_small_neg: "a < 0 \<Longrightarrow> - b < a \<Longrightarrow> a sdiv b = (0 :: int)"
  by (simp add: signed_divide_int_def sgn_if)

lemma pos_imp_zdiv_ge: "0 < s \<Longrightarrow> i * s \<le> x \<longleftrightarrow> i \<le> x div (s :: int)"
proof
  assume "0 < s" "i * s \<le> x"
  then show "i \<le> x div s" using zdiv_mono1 [of "i * s" x s] by simp
next
  assume s: "0 < s" and "i \<le> x div s"
  then have "i * s \<le> (x div s) * s" by (simp add: mult_right_mono)
  moreover have "(x div s) * s \<le> x"
    using s by (simp add: minus_mod_eq_div_mult [symmetric])
  ultimately show "i * s \<le> x" by (rule order_trans)
qed

lemma smod_one: "a smod (1 :: int) = 0"
  using smod_sdiv_mult_eq [of a 1] by simp

lemma sdiv_small: "1 sdiv (2 :: int) = 0"
  by (simp add: signed_divide_int_def)

text \<open>The positions \<open>i\<close> at which a window that reaches \<open>span\<close> elements past its first one fits.\<close>

definition windows :: "int \<Rightarrow> int \<Rightarrow> int \<Rightarrow> int set" where
  "windows len stride span = {i. 0 \<le> i \<and> i * stride + span < len}"

lemma windows_card:
  assumes "0 < stride" "0 \<le> len - span - 1"
  shows "int (card (windows len stride span)) = (len - span - 1) div stride + 1"
proof -
  have "windows len stride span = {0 .. (len - span - 1) div stride}"
  proof (rule set_eqI)
    fix i
    have "i * stride + span < len \<longleftrightarrow> i * stride \<le> len - span - 1" by linarith
    also have "\<dots> \<longleftrightarrow> i \<le> (len - span - 1) div stride"
      using pos_imp_zdiv_ge [OF assms(1)] by blast
    finally show "i \<in> windows len stride span \<longleftrightarrow> i \<in> {0 .. (len - span - 1) div stride}"
      by (auto simp: windows_def)
  qed
  then show ?thesis using assms by (simp add: pos_imp_zdiv_nonneg_iff)
qed

lemma windows_none: "0 < stride \<Longrightarrow> len - span - 1 < 0 \<Longrightarrow> windows len stride span = {}"
  unfolding windows_def by (auto simp: not_less) (smt (verit) mult_nonneg_nonneg)

lemma conv_out_Inr:
  "conv_out dim k s p dl = Inr n \<Longrightarrow> s \<noteq> 0 \<and> n = (dim + 2 * p - dl * (k - 1) - 1) sdiv s + 1"
  by (auto simp: conv_out_def outcome_simps)

lemma conv2d_out_Inr:
  "conv2d_out dim k s p dl = Inr n \<Longrightarrow> s \<noteq> 0 \<and> n = (dim + 2 * p - (dl * (k - 1) + 1)) sdiv s + 1"
  by (auto simp: conv2d_out_def outcome_simps)

text \<open>
  The output of a one-dimensional convolution has one element for every position of the dilated
  kernel inside the padded input.
\<close>

theorem conv1d_counts_windows:
  assumes "v_shape i = [b, c, len]" "0 < c1_stride opt"
    and "c1_dilation opt * (c1_kernel_size opt - 1) < len + 2 * c1_padding opt"
    and "Conv1DOp_reshape opt u [Some i] = Inr os"
  shows "\<exists>v. os = [Some v] \<and> v_shape v = [b, c1_out_channels opt,
    int (card (windows (len + 2 * c1_padding opt) (c1_stride opt)
      (c1_dilation opt * (c1_kernel_size opt - 1))))]"
proof -
  obtain n where n: "conv_out len (c1_kernel_size opt) (c1_stride opt) (c1_padding opt)
      (c1_dilation opt) = Inr n" and os: "one_output [b, c1_out_channels opt, n] i u = Inr os"
    using assms(4) by (auto simp: Conv1DOp_reshape_def inp_def impl_def assms(1) outcome_simps)
  have "n = int (card (windows (len + 2 * c1_padding opt) (c1_stride opt)
      (c1_dilation opt * (c1_kernel_size opt - 1))))"
    using conv_out_Inr [OF n] assms(2,3) by (simp add: windows_card sdiv_nonneg)
  with one_output_Inr [OF os] show ?thesis by auto
qed

definition demo_signal :: view where
  "demo_signal = \<lparr>v_shape = [1, 2, 10], v_stride = [20, 10, 1], v_offset = 0, v_store = demo_store\<rparr>"

definition demo_conv :: conv1d_options where
  "demo_conv = \<lparr>c1_in_channels = 2, c1_out_channels = 4, c1_kernel_size = 3, c1_stride = 2,
     c1_bias = False, c1_padding = 1, c1_groups = 1, c1_dilation = 1\<rparr>"

lemma conv1d_counts_windows_witness:
  "\<exists>v. Conv1DOp_reshape demo_conv 5 [Some demo_signal] = Inr [Some v] \<and>
     v_shape v = [1, 4, int (card (windows 12 2 2))]"
proof -
  have "\<exists>os. Conv1DOp_reshape demo_conv 5 [Some demo_signal] = Inr os"
    by (simp add: Conv1DOp_reshape_def demo_conv_def demo_signal_def demo_eval conv_out_def
        i32_div_def i32_rem_def smod_one)
  then obtain os where os: "Conv1DOp_reshape demo_conv 5 [Some demo_signal] = Inr os" by blast
  have "v_shape demo_signal = [1, 2, 10]" "0 < c1_stride demo_conv"
    "c1_dilation demo_conv * (c1_kernel_size demo_conv - 1) < 10 + 2 * c1_padding demo_conv"
    by (simp_all add: demo_signal_def demo_conv_def)
  from conv1d_counts_windows [OF this os] os show ?thesis by (auto simp: demo_conv_def)
qed

text \<open>
  The quotient is rounded toward zero, so a kernel that is larger than the padded input by less
  than one stride still gets one output element, although it fits nowhere.
\<close>

theorem conv_kernel_too_large:
  assumes "conv_out dim k s p dl = Inr n" "0 < s"
    and "dim + 2 * p \<le> dl * (k - 1)" "dl * (k - 1) + 1 < dim + 2 * p + s"
  shows "n = 1 \<and> windows (dim + 2 * p) s (dl * (k - 1)) = {}"
proof -
  have "(dim + 2 * p - dl * (k - 1) - 1) sdiv s = 0" by (rule sdiv_small_neg) (use assms in auto)
  moreover have "windows (dim + 2 * p) s (dl * (k - 1)) = {}"
    by (rule windows_none) (use assms in auto)
  ultimately show ?thesis using conv_out_Inr [OF assms(1)] by simp
qed

lemma conv_kernel_too_large_witness: "windows 3 2 3 = {} \<and> conv_out 3 4 2 0 1 = Inr 1"
proof -
  have "conv_out 3 4 2 0 1 = Inr 1" by (simp add: conv_out_def i32_def i32_div_def sdiv_small)
  from conv_kernel_too_large [OF this] this show ?thesis by simp
qed

subsection \<open>The inverse Fourier transform restores the length\<close>

lemma tensor_empty_shape: "tensor_empty shape dt dev u = Inr (Some v) \<Longrightarrow> v_shape v = shape"
  by (auto dest: tensor_empty_Inr)

lemma stft_frames_Inr:
  "stft_frames True n hop win len = Inr q \<Longrightarrow>
     hop \<noteq> 0 \<and> q = 1 + (len + 2 * (n sdiv 2) - win) sdiv hop"
  by (auto simp: stft_frames_def outcome_simps)

lemma stft_fields [simp]:
  "sf_n_fft (stft_defaults opt) = sf_n_fft opt" "sf_center (stft_defaults opt) = sf_center opt"
  "sf_n_fft (stft_pad_mode opt) = sf_n_fft opt" "sf_center (stft_pad_mode opt) = sf_center opt"
  "sf_hop_length (stft_pad_mode opt) = sf_hop_length opt"
  "sf_win_length (stft_pad_mode opt) = sf_win_length opt"
  by (simp_all add: stft_defaults_def stft_pad_mode_def Let_def)

lemma STFTOp_shape:
  assumes "STFTOp_reshape opt u ts = Inr (opt', [Some s])" "sf_center opt" "inp ts 0 = Inr x"
    and "v_shape x = [b, len]"
  defines "d \<equiv> stft_defaults opt"
  shows "sf_hop_length d \<noteq> 0 \<and> length (v_shape s) \<ge> 3 \<and> v_shape s ! 0 = b \<and>
    v_shape s ! 2 = 1 + (len + 2 * (sf_n_fft opt sdiv 2) - sf_win_length d) sdiv sf_hop_length d"
proof -
  obtain q where q: "stft_frames True (sf_n_fft opt) (sf_hop_length d) (sf_win_length d) len = Inr q"
    and s: "v_shape s = [b, if sf_onesided (stft_pad_mode d) then sf_n_fft opt sdiv 2 + 1
        else sf_n_fft opt, q] \<or>
      v_shape s = [b, if sf_onesided (stft_pad_mode d) then sf_n_fft opt sdiv 2 + 1
        else sf_n_fft opt, q, 2]"
    using assms(1-4) unfolding STFTOp_reshape_def d_def
    by (auto simp: outcome_simps Let_def dest!: tensor_empty_shape split: if_splits)
  from stft_frames_Inr [OF q] s show ?thesis by auto
qed

lemma ISTFTOp_shape:
  assumes "ISTFTOp_reshape opt u ts = Inr (opt', [Some y])" "sf_center opt" "inp ts 0 = Inr s"
  shows "v_shape y = [v_shape s ! 0, (v_shape s ! 2 - 1) * sf_hop_length (stft_defaults opt) +
    sf_n_fft opt - 2 * (sf_n_fft opt sdiv 2)]"
  using assms unfolding ISTFTOp_reshape_def
  by (auto simp: outcome_simps Let_def istft_length_def istft_trim_def dest!: tensor_empty_shape)

text \<open>
  The centred inverse transform of a centred transform with the same \<^verbatim>\<open>n_fft\<close> and hop gives back
  the batch and the length of the signal, less the samples after the last frame, plus the padding
  of the window to \<^verbatim>\<open>n_fft\<close>.
\<close>

theorem istft_restores_length:
  assumes "STFTOp_reshape opt u ts = Inr (opt', [Some s])" "inp ts 0 = Inr x" "v_shape x = [b, len]"
    and "ISTFTOp_reshape iopt u' ts' = Inr (iopt', [Some y])" "inp ts' 0 = Inr s"
    and "sf_center opt" "sf_center iopt" "sf_n_fft iopt = sf_n_fft opt"
    and "sf_hop_length (stft_defaults iopt) = sf_hop_length (stft_defaults opt)"
    and "0 < sf_hop_length (stft_defaults opt)"
    and "sf_win_length (stft_defaults opt) \<le> len + 2 * (sf_n_fft opt sdiv 2)"
  shows "v_shape y = [b, len
     - (len + 2 * (sf_n_fft opt sdiv 2) - sf_win_length (stft_defaults opt))
         mod sf_hop_length (stft_defaults opt)
     + (sf_n_fft opt - sf_win_length (stft_defaults opt))]"
proof -
  let ?hop = "sf_hop_length (stft_defaults opt)" and ?win = "sf_win_length (stft_defaults opt)"
  let ?a = "len + 2 * (sf_n_fft opt sdiv 2) - ?win"
  have "v_shape s ! 0 = b" "v_shape s ! 2 - 1 = ?a div ?hop"
    using STFTOp_shape [OF assms(1,6,2,3)] assms(10,11) by (simp_all add: sdiv_nonneg)
  moreover have "?a div ?hop * ?hop = ?a - ?a mod ?hop" by (simp add: minus_mod_eq_div_mult)
  ultimately show ?thesis
    using ISTFTOp_shape [OF assms(4,7,5)] assms(8,9) by simp
qed

definition demo_wave :: view where
  "demo_wave = \<lparr>v_shape = [1, 10], v_stride = [10, 1], v_offset = 0, v_store = demo_store\<rparr>"

definition demo_window :: view where
  "demo_window = \<lparr>v_shape = [4], v_stride = [1], v_offset = 0, v_store = demo_store\<rparr>"

definition demo_stft :: istft_options where
  "demo_stft = \<lparr>sf_n_fft = 4, sf_hop_length = 2, sf_win_length = 4, sf_onesided = True,
     sf_center = True, sf_pad_mode = ''reflect'', sf_return_complex = False,
     sf_normalized = False, sf_length = 0\<rparr>"

lemma istft_restores_length_witness:
  "\<exists>opt' s iopt' y.
     STFTOp_reshape (stft_options.truncate demo_stft) 5 [Some demo_wave, Some demo_window] =
       Inr (opt', [Some s]) \<and>
     ISTFTOp_reshape demo_stft 6 [Some s, Some demo_window] = Inr (iopt', [Some y]) \<and>
     v_shape y = [1, 10]"
proof -
  let ?o = "stft_options.truncate demo_stft"
  have sd: "4 sdiv 2 = (2::int)" "10 sdiv 2 = (5::int)" by (simp_all add: signed_divide_int_def)
  have "\<exists>s iopt' y.
      STFTOp_reshape ?o 5 [Some demo_wave, Some demo_window] = Inr (?o, [Some s]) \<and>
      ISTFTOp_reshape demo_stft 6 [Some s, Some demo_window] = Inr (iopt', [Some y])"
    by (simp add: STFTOp_reshape_def ISTFTOp_reshape_def stft_options.truncate_def demo_stft_def
        stft_defaults_def stft_pad_mode_def last_is_def stft_frames_def demo_wave_def
        demo_window_def demo_eval istft_length_def istft_trim_def i32_div_def sd)
  then obtain s iopt' y where
    r: "STFTOp_reshape ?o 5 [Some demo_wave, Some demo_window] = Inr (?o, [Some s])"
       "ISTFTOp_reshape demo_stft 6 [Some s, Some demo_window] = Inr (iopt', [Some y])" by blast
  have "inp [Some demo_wave, Some demo_window] 0 = Inr demo_wave" "v_shape demo_wave = [1, 10]"
    "inp [Some s, Some demo_window] 0 = Inr s"
    "sf_center ?o" "sf_center demo_stft" "sf_n_fft demo_stft = sf_n_fft ?o"
    "sf_hop_length (stft_defaults demo_stft) = sf_hop_length (stft_defaults ?o)"
    "0 < sf_hop_length (stft_defaults ?o)"
    "sf_win_length (stft_defaults ?o) \<le> 10 + 2 * (sf_n_fft ?o sdiv 2)"
    by (simp_all add: inp_def vec_at_def impl_def demo_wave_def stft_options.truncate_def
        demo_stft_def stft_defaults_def sd)
  note h = this
  have "v_shape y = [1, 10]"
    using istft_restores_length [OF r(1) h(1,2) r(2) h(3-)]
    by (simp add: stft_options.truncate_def demo_stft_def stft_defaults_def sd)
  with r show ?thesis by blast
qed

subsection \<open>Where an output forgets its input\<close>

text \<open>
  The outputs of \<^verbatim>\<open>KVCache\<close> are single precision tensors of the CPU, whatever the type and the
  device of the keys and values that are cached.
\<close>

theorem kvcache_forgets_dtype:
  assumes "KVCacheOp_reshape kv_head u (Some k # ts) = Inr os"
  shows "\<exists>a b. os = [Some a, Some b] \<and> v_shape a = v_shape b \<and> v_shape a ! 1 = kv_head \<and>
    v_dtype a = kFloat32 \<and> v_device a = kCPU \<and> v_dtype b = kFloat32 \<and> v_device b = kCPU"
  using assms
  by (auto simp: KVCacheOp_reshape_def outcome_simps inp_def impl_def v_dtype_def v_device_def
      dest!: tensor_empty_Inr)

lemma kvcache_forgets_dtype_witness:
  "\<exists>a b. KVCacheOp_reshape 2 5 [Some \<lparr>v_shape = [1, 4, 3, 8], v_stride = [96, 24, 8, 1],
      v_offset = 0, v_store = \<lparr>ts_uuid = 1, ts_size = 192, ts_dtype = kFloat16, ts_device = kCUDA\<rparr>\<rparr>] =
        Inr [Some a, Some b] \<and> v_dtype a = kFloat32"
proof -
  let ?k = "\<lparr>v_shape = [1, 4, 3, 8], v_stride = [96, 24, 8, 1], v_offset = 0, v_store =
    \<lparr>ts_uuid = 1, ts_size = 192, ts_dtype = kFloat16, ts_device = kCUDA\<rparr>\<rparr>"
  have "\<exists>os. KVCacheOp_reshape 2 5 [Some ?k] = Inr os"
    by (simp add: KVCacheOp_reshape_def demo_eval)
  then obtain os where os: "KVCacheOp_reshape 2 5 [Some ?k] = Inr os" by blast
  from kvcache_forgets_dtype [OF os] os show ?thesis by auto
qed

end
