(* ===== verification/Index_Op.thy ===== *)
theory Index_Op
  imports Shape_Ops
begin

text \<open>
  Advanced indexing, \<^verbatim>\<open>mllm/core/aops/IndexOp.cpp\<close>: the shape of \<^verbatim>\<open>x[{...}]\<close> for slices, index vectors
  and index tensors, and the kernel that copies the selected elements. Memory is a function from
  addresses to bytes; \<open>base\<close> gives the address of each storage.
\<close>

subsection \<open>Memory\<close>

type_synonym memory = "int \<Rightarrow> 8 word"

definition memcpy :: "int \<Rightarrow> int \<Rightarrow> int \<Rightarrow> memory \<Rightarrow> memory" where
  "memcpy dst src n m = (\<lambda>a. if dst \<le> a \<and> a < dst + n then m (src + (a - dst)) else m a)"

definition read_i32 :: "memory \<Rightarrow> int \<Rightarrow> int" where
  "read_i32 m p =
     to_i32 (uint (m p) + 2 ^ 8 * uint (m (p + 1)) + 2 ^ 16 * uint (m (p + 2)) + 2 ^ 24 * uint (m (p + 3)))"

definition constAt_i32 :: "(nat \<Rightarrow> int) \<Rightarrow> memory \<Rightarrow> view \<Rightarrow> int list \<Rightarrow> int outcome" where
  "constAt_i32 base m v idx =
     obind (offsettedPtr (base (ts_uuid (v_store v))) v idx) (\<lambda>p. Inr (read_i32 m p))"

subsection \<open>The index expressions\<close>

datatype index_blob = IdxSlice slice_pair | IdxVector "int list" | IdxTensor tensor

fun is_slice :: "index_blob \<Rightarrow> bool" where
  "is_slice (IdxSlice p) = True"
| "is_slice _ = False"

definition slice_begin :: "slice_pair \<Rightarrow> int" where
  "slice_begin p = (if sl_start p = kAll then 0 else sl_start p)"

fun count_dims :: "index_blob \<Rightarrow> int outcome" where
  "count_dims (IdxSlice p) = Inr 1"
| "count_dims (IdxVector is) = Inr 1"
| "count_dims (IdxTensor t) = obind (impl t) (\<lambda>v. Inr (int (length (v_shape v))))"

fun blob_shape :: "int list \<Rightarrow> nat \<Rightarrow> index_blob \<Rightarrow> int list outcome" where
  "blob_shape shape i (IdxSlice p) =
     obind (if sl_end p = kAll then vec_at shape (int i) else Inr (sl_end p)) (\<lambda>e.
     obind (i32 (e - slice_begin p)) (\<lambda>w. obind (i32 (w + sl_step p)) (\<lambda>w1.
     obind (i32 (w1 - 1)) (\<lambda>w2.
       if sl_step p = 0 then Inl Undefined
       else obind (i32 (w2 sdiv sl_step p)) (\<lambda>n. Inr [n])))))"
| "blob_shape shape i (IdxVector is) = Inr [int (length is)]"
| "blob_shape shape i (IdxTensor t) = obind (impl t) (\<lambda>v. Inr (v_shape v))"

fun calculateOutputShape :: "int list \<Rightarrow> nat \<Rightarrow> index_blob list \<Rightarrow> int list outcome" where
  "calculateOutputShape shape i [] = Inr []"
| "calculateOutputShape shape i (b # bs) =
     obind (blob_shape shape i b) (\<lambda>s.
       obind (calculateOutputShape shape (Suc i) bs) (\<lambda>r. Inr (s @ r)))"

definition IndexOp_reshape :: "index_blob list \<Rightarrow> nat \<Rightarrow> tensor list \<Rightarrow> tensor list outcome" where
  "IndexOp_reshape indices u ts =
     obind (inp ts 0) (\<lambda>input.
       if list_all is_slice indices then Inr [None]
       else obind (omap count_dims indices) (\<lambda>cs.
            obind (rt_assert (sum_list cs = int (length (v_shape input)))) (\<lambda>_.
            obind (calculateOutputShape (v_shape input) 0 indices) (\<lambda>shape.
              one_output shape input u))))"

subsection \<open>Linear positions\<close>

text \<open>Both routines work on the reversed shape, the way the loops run.\<close>

fun unravel_rev :: "int list \<Rightarrow> int \<Rightarrow> int list outcome" where
  "unravel_rev [] t = Inr []"
| "unravel_rev (d # ds) t =
     (if d = 0 then Inl Undefined
      else obind (unravel_rev ds (t div u64 d)) (\<lambda>r. Inr (to_i32 (t mod u64 d) # r)))"

definition unravel :: "int list \<Rightarrow> int \<Rightarrow> int list outcome" where
  "unravel shape t = obind (unravel_rev (rev shape) t) (\<lambda>r. Inr (rev r))"

definition linear_offset :: "int list \<Rightarrow> int list \<Rightarrow> int" where
  "linear_offset idx shape =
     fst (fold (\<lambda>(i, d) (off, m). (u64 (off + i * m), u64 (m * d))) (rev (zip idx shape)) (0, 1))"

text \<open>
  The position inside an index tensor: the first output index of the group is multiplied by the
  stride of the last dimension of the tensor, and so on.
\<close>

fun index_linear ::
  "int list \<Rightarrow> int list \<Rightarrow> nat \<Rightarrow> int \<Rightarrow> int \<Rightarrow> (int \<times> nat) option" where
  "index_linear [] oi out_dim idx stride = Some (idx, out_dim)"
| "index_linear (d # ds) oi out_dim idx stride =
     (if length oi \<le> out_dim then None
      else index_linear ds oi (Suc out_dim) (u64 (idx + oi ! out_dim * stride)) (u64 (stride * d)))"

definition tensor_position :: "int list \<Rightarrow> int list \<Rightarrow> nat \<Rightarrow> (int list \<times> nat) option outcome" where
  "tensor_position shape oi out_dim =
     (case index_linear (rev shape) oi out_dim 0 1 of
        None \<Rightarrow> Inr None
      | Some (idx, out_dim') \<Rightarrow> obind (unravel shape idx) (\<lambda>pos. Inr (Some (pos, out_dim'))))"

subsection \<open>The kernel\<close>

text \<open>One index expression: the index into dimension \<open>j\<close> and the next output dimension.\<close>

fun blob_value ::
  "(nat \<Rightarrow> int) \<Rightarrow> memory \<Rightarrow> int list \<Rightarrow> nat \<Rightarrow> index_blob \<Rightarrow> (int \<times> nat) option outcome" where
  "blob_value base m oi out_dim (IdxSlice p) =
     obind (vec_at oi (int out_dim)) (\<lambda>o1. obind (i32 (o1 * sl_step p)) (\<lambda>x.
     obind (i32 (slice_begin p + x)) (\<lambda>v. Inr (Some (v, Suc out_dim)))))"
| "blob_value base m oi out_dim (IdxVector is) =
     (if length oi \<le> out_dim \<or> int (length is) \<le> u64 (oi ! out_dim) then Inr None
      else Inr (Some (is ! nat (oi ! out_dim), Suc out_dim)))"
| "blob_value base m oi out_dim (IdxTensor t) =
     obind (impl t) (\<lambda>v. obind (tensor_position (v_shape v) oi out_dim) (\<lambda>r. case r of
       None \<Rightarrow> Inr None
     | Some (pos, out_dim') \<Rightarrow>
         obind (constAt_i32 base m v pos) (\<lambda>x. Inr (Some (x, out_dim')))))"

text \<open>
  The input position of an output position, \<open>None\<close> if it is not valid. Dimensions without an index
  expression keep the initial 0.
\<close>

fun input_position ::
  "(nat \<Rightarrow> int) \<Rightarrow> memory \<Rightarrow> int list \<Rightarrow> int list \<Rightarrow> nat \<Rightarrow> index_blob list \<Rightarrow> int list option outcome" where
  "input_position base m oi [] out_dim bs = Inr (Some [])"
| "input_position base m oi (d # ds) out_dim [] = Inr (Some (replicate (Suc (length ds)) 0))"
| "input_position base m oi (d # ds) out_dim (b # bs) =
     obind (blob_value base m oi out_dim b) (\<lambda>r. case r of
       None \<Rightarrow> Inr None
     | Some (v, out_dim') \<Rightarrow>
         if v < 0 \<or> d \<le> v then Inr None
         else obind (input_position base m oi ds out_dim' bs) (\<lambda>r. case r of
                None \<Rightarrow> Inr None
              | Some vs \<Rightarrow> Inr (Some (v # vs))))"

definition copy_element ::
  "(nat \<Rightarrow> int) \<Rightarrow> view \<Rightarrow> view \<Rightarrow> int \<Rightarrow> index_blob list \<Rightarrow> int \<Rightarrow> memory \<Rightarrow> memory outcome" where
  "copy_element base input output es indices i m =
     obind (unravel (v_shape output) i) (\<lambda>oi.
     obind (input_position base m oi (v_shape input) 0 indices) (\<lambda>r. case r of
       None \<Rightarrow> Inr m
     | Some ii \<Rightarrow>
         Inr (memcpy
           (barePtr (base (ts_uuid (v_store output))) output + linear_offset oi (v_shape output) * es)
           (barePtr (base (ts_uuid (v_store input))) input + linear_offset ii (v_shape input) * es)
           es m)))"

definition need_tensors :: "index_blob list \<Rightarrow> unit outcome" where
  "need_tensors bs =
     ofold (\<lambda>b _. case b of IdxTensor t \<Rightarrow> obind (impl t) (\<lambda>_. Inr ()) | _ \<Rightarrow> Inr ()) bs ()"

text \<open>\<^verbatim>\<open>Tensor::bytes\<close> is the size of the storage, also for a view of a part of it.\<close>

definition IndexOp_forward ::
  "(nat \<Rightarrow> int) \<Rightarrow> index_blob list \<Rightarrow> tensor list \<Rightarrow> tensor list \<Rightarrow> memory \<Rightarrow> memory outcome" where
  "IndexOp_forward base indices ts os m =
     obind (inp ts 0) (\<lambda>input.
       if list_all is_slice indices then Inr m
       else obind (isContiguous input) (\<lambda>c. obind (rt_assert c) (\<lambda>_.
            obind (inp os 0) (\<lambda>output. obind (isContiguous output) (\<lambda>c. obind (rt_assert c) (\<lambda>_.
            (let n = numel input
             in if n = 0 then Inl Undefined
                else obind (need_tensors indices) (\<lambda>_.
                       ofold (copy_element base input output (ts_size (v_store input) div n) indices)
                         (map int [0..<nat (numel_of (v_shape output))]) m))))))))"

text \<open>\<^verbatim>\<open>processTensorIndices\<close> is not called. It reads an index tensor at the output position itself.\<close>

fun take_indices :: "int list \<Rightarrow> nat \<Rightarrow> nat \<Rightarrow> (int list \<times> nat) option" where
  "take_indices oi 0 out_dim = Some ([], out_dim)"
| "take_indices oi (Suc k) out_dim =
     (if length oi \<le> out_dim then None
      else map_option (\<lambda>(r, d). (oi ! out_dim # r, d)) (take_indices oi k (Suc out_dim)))"

fun processTensorIndices ::
  "(nat \<Rightarrow> int) \<Rightarrow> memory \<Rightarrow> int list \<Rightarrow> int list \<Rightarrow> nat \<Rightarrow> nat \<Rightarrow> index_blob list \<Rightarrow> int list \<Rightarrow>
     (bool \<times> int list) outcome" where
  "processTensorIndices base m shape oi j out_dim [] ii = Inr (True, ii)"
| "processTensorIndices base m shape oi j out_dim (IdxTensor t # bs) ii =
     obind (impl t) (\<lambda>v. case take_indices oi (length (v_shape v)) out_dim of
       None \<Rightarrow> Inr (False, ii)
     | Some (pos, out_dim') \<Rightarrow>
         obind (constAt_i32 base m v pos) (\<lambda>x.
         obind (vec_set ii (int j) x) (\<lambda>ii'.
         if x < 0 then Inr (False, ii')
         else obind (vec_at shape (int j)) (\<lambda>d.
           if d \<le> x then Inr (False, ii')
           else processTensorIndices base m shape oi (Suc j) out_dim' bs ii'))))"
| "processTensorIndices base m shape oi j out_dim (_ # bs) ii =
     processTensorIndices base m shape oi (Suc j) (Suc out_dim) bs ii"

subsection \<open>Linear positions and index vectors\<close>

fun rdot :: "int list \<Rightarrow> int list \<Rightarrow> int" where
  "rdot (i # is) (d # ds) = i + d * rdot is ds"
| "rdot _ _ = 0"

lemma in_range_snoc: "in_range (is @ [i]) (ds @ [d]) \<longleftrightarrow> in_range is ds \<and> 0 \<le> i \<and> i < d"
proof (cases "length is = length ds")
  case True
  then show ?thesis by (simp add: in_range_def list_all2_append)
next
  case False
  then show ?thesis using in_range_length by fastforce
qed

lemma in_range_rev: "in_range (rev is) (rev ds) \<longleftrightarrow> in_range is ds"
  by (simp add: in_range_def)

lemma rm_strides_snoc: "rm_strides (ds @ [d]) = map (\<lambda>s. s * d) (rm_strides ds) @ [1]"
  by (induction ds) simp_all

lemma dot_snoc:
  "length is = length ss \<Longrightarrow> dot (is @ [i]) (map (\<lambda>s. s * d) ss @ [1]) = dot is ss * d + i"
  by (induction "is" ss rule: list_induct2) (simp_all add: distrib_right)

lemma rdot_dot: "length is = length ds \<Longrightarrow> rdot is ds = dot (rev is) (rm_strides (rev ds))"
proof (induction "is" ds rule: list_induct2)
  case (Cons i "is" d ds)
  then have "dot (rev is @ [i]) (map (\<lambda>s. s * d) (rm_strides (rev ds)) @ [1]) =
      dot (rev is) (rm_strides (rev ds)) * d + i"
    by (intro dot_snoc) simp
  with Cons show ?case by (simp add: rm_strides_snoc)
qed simp

lemma rdot_rev: "in_range oi ds \<Longrightarrow> rdot (rev oi) (rev ds) = dot oi (rm_strides ds)"
  using rdot_dot [of "rev oi" "rev ds"] by (simp add: in_range_length)

lemma rdot_nonneg: "in_range is ds \<Longrightarrow> 0 \<le> rdot is ds"
  by (induction "is" ds rule: list_induct2') auto

lemma unravel_rev_rdot:
  "in_range is ds \<Longrightarrow> \<forall>d \<in> set ds. d < 2 ^ 31 \<Longrightarrow> unravel_rev ds (rdot is ds) = Inr is"
proof (induction "is" ds rule: list_induct2')
  case (4 i "is" d ds)
  then have d: "0 \<le> i" "i < d" "d < 2 ^ 31" and r: "in_range is ds" by auto
  have "(i + d * rdot is ds) div d = rdot is ds" "(i + d * rdot is ds) mod d = i"
    using d by (simp_all add: div_add1_eq)
  moreover have "u64 d = d" "to_i32 i = i" using d by (simp_all add: u64_def to_i32_def)
  ultimately show ?case using 4 d r by simp
qed auto

lemma dims_bounded: "shape_ok ds \<Longrightarrow> \<forall>d \<in> set ds. d < 2 ^ 31"
proof
  fix d assume ok: "shape_ok ds" and d: "d \<in> set ds"
  obtain as bs where ds: "ds = as @ d # bs" using split_list [OF d] by blast
  have p: "0 < prod_list as" "0 < prod_list bs" "0 < d"
    using ok by (auto simp: ds shape_ok_def intro!: prod_list_pos)
  have "d * 1 \<le> d * (prod_list as * prod_list bs)"
    using p by (intro mult_left_mono) (simp_all add: int_one_le_iff_zero_less zero_less_mult_iff)
  also have "\<dots> = prod_list ds" by (simp add: ds)
  finally show "d < 2 ^ 31" using ok by (simp add: shape_ok_def)
qed

lemma unravel_dot:
  assumes "in_range oi shape" "shape_ok shape"
  shows "unravel shape (dot oi (rm_strides shape)) = Inr oi"
proof -
  have "unravel_rev (rev shape) (rdot (rev oi) (rev shape)) = Inr (rev oi)"
    using assms dims_bounded [OF assms(2)] by (intro unravel_rev_rdot) (simp_all add: in_range_rev)
  then show ?thesis by (simp add: unravel_def rdot_rev [OF assms(1)])
qed

lemma dot_surj:
  assumes "\<forall>d \<in> set ds. 0 < d" "0 \<le> t" "t < prod_list ds"
  shows "\<exists>is. in_range is ds \<and> dot is (rm_strides ds) = t"
  using assms
proof (induction ds arbitrary: t)
  case (Cons d ds)
  let ?P = "prod_list ds"
  have P: "0 < ?P" using Cons.prems(1) by (intro prod_list_pos) simp
  obtain "is" where is': "in_range is ds" "dot is (rm_strides ds) = t mod ?P"
    using Cons.IH [of "t mod ?P"] Cons.prems(1) P by auto
  have "t div ?P * ?P \<le> t" using P by (simp add: minus_mod_eq_div_mult [symmetric])
  then have "t div ?P * ?P < d * ?P" using Cons.prems(3) by simp
  then have "0 \<le> t div ?P" "t div ?P < d"
    using Cons.prems(2) P by (simp_all add: pos_imp_zdiv_nonneg_iff)
  with is' show ?case by (intro exI [of _ "t div ?P # is"]) simp
qed auto

lemma linear_fold:
  assumes "in_range is ds" "0 \<le> off" "off < m" "m * prod_list ds < 2 ^ 64"
    and "\<forall>d \<in> set ds. 0 < d"
  shows "fst (fold (\<lambda>(i, d) (off, m). (u64 (off + i * m), u64 (m * d))) (zip is ds) (off, m)) =
    off + m * rdot is ds"
  using assms
proof (induction "is" ds arbitrary: off m rule: list_induct2')
  case (4 i "is" d ds)
  then have d: "0 \<le> i" "i < d" and r: "in_range is ds" and m: "0 < m" by auto
  have P: "0 < prod_list ds" using 4(6) by (intro prod_list_pos) simp
  have "m * d * 1 \<le> m * d * prod_list ds" using m d P by (intro mult_left_mono) simp_all
  then have md: "m * d < 2 ^ 64" using 4(5) by (simp add: mult.assoc)
  have "i * m \<le> (d - 1) * m" using d m by (intro mult_right_mono) simp_all
  then have o1: "off + i * m < m * d" using 4(4) by (simp add: algebra_simps)
  have o2: "0 \<le> off + i * m" using 4(3) d m by simp
  have u: "u64 (off + i * m) = off + i * m" "u64 (m * d) = m * d"
    using o1 o2 md m d by (simp_all add: u64_def)
  have "fst (fold (\<lambda>(i, d) (off, m). (u64 (off + i * m), u64 (m * d))) (zip is ds) (off + i * m, m * d))
      = off + i * m + m * d * rdot is ds"
    using 4 o1 o2 r by (intro 4(1)) (auto simp: mult.assoc)
  then show ?case unfolding zip_Cons_Cons fold_Cons comp_apply prod.case u by (simp add: algebra_simps)
qed auto

lemma linear_offset_dot:
  assumes "in_range idx shape" "shape_ok shape"
  shows "linear_offset idx shape = dot idx (rm_strides shape)"
proof -
  have "prod_list (rev shape) = prod_list shape" by (induction shape) (simp_all add: mult.commute)
  then have "fst (fold (\<lambda>(i, d) (off, m). (u64 (off + i * m), u64 (m * d)))
      (zip (rev idx) (rev shape)) (0, 1)) = 0 + 1 * rdot (rev idx) (rev shape)"
    using assms by (intro linear_fold) (auto simp: in_range_rev shape_ok_def)
  then show ?thesis
    using rdot_rev [OF assms(1)] in_range_length [OF assms(1)] by (simp add: linear_offset_def zip_rev)
qed

subsection \<open>What the kernel copies\<close>

definition no_tensors :: "index_blob list \<Rightarrow> bool" where
  "no_tensors bs \<longleftrightarrow> (\<forall>b \<in> set bs. \<forall>t. b \<noteq> IdxTensor t)"

text \<open>The bytes of element \<open>i\<close> of a tensor that starts at \<open>p\<close> and has elements of \<open>es\<close> bytes.\<close>

definition cell :: "int \<Rightarrow> int \<Rightarrow> int \<Rightarrow> int set" where
  "cell p es i = {p + i * es ..< p + i * es + es}"

lemma cells_disjoint: "i \<noteq> j \<Longrightarrow> cell p es i \<inter> cell p es j = {}"
proof -
  assume "i \<noteq> j"
  then consider "i + 1 \<le> j" | "j + 1 \<le> i" by linarith
  then show ?thesis
  proof cases
    case 1
    then have "0 \<le> es \<Longrightarrow> (i + 1) * es \<le> j * es" by (rule mult_right_mono)
    then show ?thesis by (cases "0 \<le> es") (auto simp: cell_def distrib_right)
  next
    case 2
    then have "0 \<le> es \<Longrightarrow> (j + 1) * es \<le> i * es" by (rule mult_right_mono)
    then show ?thesis by (cases "0 \<le> es") (auto simp: cell_def distrib_right)
  qed
qed

lemma cell_in_region:
  assumes "a \<in> cell p es i" "0 \<le> i" "i < n"
  shows "p \<le> a \<and> a < p + n * es"
proof -
  have es: "0 < es" using assms(1) by (auto simp: cell_def)
  have "0 \<le> i * es" "(i + 1) * es \<le> n * es" using assms es by (auto intro: mult_right_mono)
  then show ?thesis using assms(1) by (auto simp: cell_def distrib_right)
qed

lemma memcpy_outside: "a \<notin> {dst ..< dst + n} \<Longrightarrow> memcpy dst src n m a = m a"
  by (auto simp: memcpy_def)

definition out_addr :: "(nat \<Rightarrow> int) \<Rightarrow> view \<Rightarrow> int" where
  "out_addr base y = barePtr (base (ts_uuid (v_store y))) y"

lemma copy_element_dest:
  assumes y: "shape_ok (v_shape y)" and i: "0 \<le> i" "i < prod_list (v_shape y)"
    and c: "copy_element base x y es bs i m = Inr m'" and a: "a \<notin> cell (out_addr base y) es i"
  shows "m' a = m a"
proof -
  obtain oi where oi: "in_range oi (v_shape y)" "dot oi (rm_strides (v_shape y)) = i"
    using dot_surj [OF _ i] y by (auto simp: shape_ok_def)
  have "unravel (v_shape y) i = Inr oi" using unravel_dot [OF oi(1) y] oi(2) by simp
  moreover have "linear_offset oi (v_shape y) = i" using linear_offset_dot [OF oi(1) y] oi(2) by simp
  ultimately show ?thesis using c a
    by (auto simp: copy_element_def outcome_simps out_addr_def cell_def memcpy_outside
        split: option.splits)
qed

lemma copies_frame:
  assumes y: "shape_ok (v_shape y)"
  shows "ofold (copy_element base x y es bs) is m = Inr m' \<Longrightarrow>
    \<forall>i \<in> set is. 0 \<le> i \<and> i < prod_list (v_shape y) \<and> a \<notin> cell (out_addr base y) es i \<Longrightarrow> m' a = m a"
proof (induction "is" arbitrary: m)
  case (Cons i "is")
  from Cons.prems(1) obtain m1 where m1: "copy_element base x y es bs i m = Inr m1"
    and r: "ofold (copy_element base x y es bs) is m1 = Inr m'" by (auto simp: outcome_simps)
  have "m1 a = m a" by (rule copy_element_dest [OF y _ _ m1]) (use Cons.prems(2) in auto)
  moreover have "m' a = m1 a" by (rule Cons.IH [OF r]) (use Cons.prems(2) in auto)
  ultimately show ?case by simp
qed simp

text \<open>The step that writes element \<open>i\<close>: nothing before it or behind it touches the cell.\<close>

lemma copies_step:
  assumes y: "shape_ok (v_shape y)"
    and f: "ofold (copy_element base x y es bs) (map int [0..<n]) m = Inr m'"
    and n: "int n = prod_list (v_shape y)" and i: "0 \<le> i" "i < int n"
  obtains m1 m2 where "copy_element base x y es bs i m1 = Inr m2"
    "\<forall>a \<in> cell (out_addr base y) es i. m1 a = m a \<and> m' a = m2 a"
    "\<forall>a. (\<forall>j. 0 \<le> j \<longrightarrow> j < int n \<longrightarrow> a \<notin> cell (out_addr base y) es j) \<longrightarrow> m1 a = m a"
proof -
  let ?c = "copy_element base x y es bs"
  define t where "t = nat i"
  have t: "t < n" "int t = i" using i by (simp_all add: t_def nat_less_iff)
  then have "[0..<n] = [0..<t] @ t # [Suc t..<n]"
    using upt_add_eq_append [of 0 t "n - t"] by (simp add: upt_conv_Cons)
  then have sp: "map int [0..<n] = map int [0..<t] @ i # map int [Suc t..<n]"
    using t(2) by (metis list.simps(9) map_append)
  obtain m1 m2 where m1: "ofold ?c (map int [0..<t]) m = Inr m1" and m2: "?c i m1 = Inr m2"
    and m3: "ofold ?c (map int [Suc t..<n]) m2 = Inr m'"
    using f unfolding sp by (auto simp: ofold_append outcome_simps)
  have other: "a \<notin> cell (out_addr base y) es j" if "a \<in> cell (out_addr base y) es i" "j \<noteq> i" for a j
    using cells_disjoint [OF that(2), of "out_addr base y" es] that(1) by blast
  have "m1 a = m a" if "\<forall>j. 0 \<le> j \<longrightarrow> j < i \<longrightarrow> a \<notin> cell (out_addr base y) es j" for a
    by (rule copies_frame [OF y m1]) (use that t n in auto)
  moreover have "m' a = m2 a" if "a \<in> cell (out_addr base y) es i" for a
    by (rule copies_frame [OF y m3]) (use other [OF that] t n in auto)
  ultimately show ?thesis using that [OF m2] other i by force
qed

subsection \<open>The positions that the expressions name\<close>

text \<open>The index that an expression names for the index \<open>i\<close> of the output in its dimension.\<close>

fun named_index :: "index_blob \<Rightarrow> int \<Rightarrow> int" where
  "named_index (IdxSlice p) i = (if sl_start p = kAll then 0 else sl_start p) + i * sl_step p"
| "named_index (IdxVector is) i = is ! nat i"
| "named_index (IdxTensor t) i = 0"

definition named_position :: "index_blob list \<Rightarrow> int list \<Rightarrow> int list" where
  "named_position bs oi = map (\<lambda>(b, i). named_index b i) (zip bs oi)"

text \<open>A dimension that comes from a vector of indices has its length.\<close>

fun vector_fits :: "index_blob \<Rightarrow> int \<Rightarrow> bool" where
  "vector_fits (IdxVector is) d \<longleftrightarrow> d = int (length is)"
| "vector_fits _ d \<longleftrightarrow> True"

lemma output_shape_fits:
  "no_tensors bs \<Longrightarrow> calculateOutputShape s i bs = Inr r \<Longrightarrow> list_all2 vector_fits bs r"
proof (induction s i bs arbitrary: r rule: calculateOutputShape.induct)
  case (2 shape i b bs)
  then obtain q r' where q: "blob_shape shape i b = Inr q" "calculateOutputShape shape (Suc i) bs = Inr r'" "r = q @ r'"
    by (auto simp: outcome_simps)
  have "no_tensors bs" "\<forall>t. b \<noteq> IdxTensor t" using 2(2) by (simp_all add: no_tensors_def)
  moreover from this(2) obtain d where "q = [d]" "vector_fits b d"
    using q(1) by (cases b) (auto simp: outcome_simps split: if_splits)
  ultimately show ?case using 2(1) [OF _ q(2)] q(3) by simp
qed simp

lemma blob_value_named:
  assumes "\<forall>t. b \<noteq> IdxTensor t" "vector_fits b d" "k < length oi" "0 \<le> oi ! k" "oi ! k < d" "d < 2 ^ 31"
    and "blob_value base m oi k b = Inr r"
  shows "r = Some (named_index b (oi ! k), Suc k)"
proof (cases b)
  case (IdxVector "is")
  then have "u64 (oi ! k) = oi ! k" using assms(4-6) by (simp add: u64_def)
  then show ?thesis using assms IdxVector by auto
qed (use assms in \<open>auto simp: outcome_simps vec_at_def i32_def slice_begin_def split: if_splits\<close>)

lemma input_position_named:
  assumes "no_tensors bs" "list_all2 vector_fits bs (drop k sh)" "length ds = length bs" "in_range oi sh"
    and "\<forall>d \<in> set sh. d < 2 ^ 31" "input_position base m oi ds k bs = Inr r"
  shows "r = (if in_range (named_position bs (drop k oi)) ds then Some (named_position bs (drop k oi)) else None)"
  using assms
proof (induction base m oi ds k bs arbitrary: r rule: input_position.induct)
  case (3 base m oi d ds k b bs)
  have len: "k < length sh" "length oi = length sh"
    using 3(3) in_range_length [OF 3(5)] by (cases "k < length sh"; simp)+
  have dk: "drop k sh = sh ! k # drop (Suc k) sh" "drop k oi = oi ! k # drop (Suc k) oi"
    using len by (simp_all add: Cons_nth_drop_Suc)
  have oi: "0 \<le> oi ! k" "oi ! k < sh ! k" "sh ! k < 2 ^ 31"
    using 3(5) 3(6) len by (auto simp: in_range_def list_all2_conv_all_nth)
  have b: "\<forall>t. b \<noteq> IdxTensor t" "no_tensors bs" "vector_fits b (sh ! k)" "list_all2 vector_fits bs (drop (Suc k) sh)"
    using 3(2,3) dk(1) by (auto simp: no_tensors_def)
  obtain q where q: "blob_value base m oi k b = Inr q"
    using 3(7) by (cases "blob_value base m oi k b") auto
  have v: "blob_value base m oi k b = Inr (Some (named_index b (oi ! k), Suc k))"
    using q blob_value_named [OF b(1,3) _ oi q] len by simp
  let ?v = "named_index b (oi ! k)"
  have n: "named_position (b # bs) (drop k oi) = ?v # named_position bs (drop (Suc k) oi)"
    by (simp add: named_position_def dk(2))
  show ?case
  proof (cases "?v < 0 \<or> d \<le> ?v")
    case True
    then show ?thesis using 3(7) v n by auto
  next
    case False
    then obtain p where p: "input_position base m oi ds (Suc k) bs = Inr p"
      "r = (case p of None \<Rightarrow> None | Some vs \<Rightarrow> Some (?v # vs))"
      using 3(7) v by (auto simp: outcome_simps split: option.splits)
    have "p = (if in_range (named_position bs (drop (Suc k) oi)) ds then Some (named_position bs (drop (Suc k) oi)) else None)"
      by (rule 3(1) [OF False b(2,4) _ 3(5,6) p(1)]) (use 3(4) in simp)
    then show ?thesis using p(2) False n by auto
  qed
qed (auto simp: named_position_def)


definition index_in :: view where
  "index_in = \<lparr>v_shape = [3, 2], v_stride = [2, 1], v_offset = 0, v_store =
     \<lparr>ts_uuid = 0, ts_size = 6, ts_dtype = kInt8, ts_device = kCPU\<rparr>\<rparr>"

definition index_wide :: view where
  "index_wide = \<lparr>v_shape = [3, 4], v_stride = [4, 1], v_offset = 0, v_store =
     \<lparr>ts_uuid = 0, ts_size = 12, ts_dtype = kInt8, ts_device = kCPU\<rparr>\<rparr>"

definition index_out :: view where
  "index_out = \<lparr>v_shape = [2, 2], v_stride = [2, 1], v_offset = 0, v_store =
     \<lparr>ts_uuid = 1, ts_size = 4, ts_dtype = kInt8, ts_device = kCPU\<rparr>\<rparr>"

definition index_rows :: "index_blob list" where
  "index_rows = [IdxVector [2, 7], IdxSlice \<lparr>sl_start = 1, sl_end = kAll, sl_step = 2\<rparr>]"

lemma int8_layout [simp]: "lanesOfType kInt8 = 1" "bytesOfType kInt8 = 1"
  by (simp_all add: lanesOfType_def info_lanes_def bytesOfType_def sizeof_def dtype_tables)

lemmas index_eval = index_in_def index_wide_def index_out_def index_rows_def shape_ok_def max_rank_def
  no_tensors_def out_addr_def barePtr_def byte_offset_def v_dtype_def u64_def vec_at_def i32_def
  slice_begin_def kAll_def


subsection \<open>Index tensors of rank two\<close>

text \<open>
  An index tensor of shape \<open>[r, c]\<close> is not read at the output position \<open>[a, b]\<close> but at
  \<open>[(b + a div c) mod r, a mod c]\<close>: the loop pairs the first output index with the last stride.
\<close>

theorem index_tensor_transposed:
  assumes "0 \<le> a" "a < r" "0 \<le> b" "b < c" "r * c < 2 ^ 31"
  shows "tensor_position [r, c] [a, b] 0 = Inr (Some ([(b + a div c) mod r, a mod c], 2))"
proof -
  have rc: "0 < r" "0 < c" using assms by auto
  have "r * 1 \<le> r * c" "1 * c \<le> r * c" using rc by (auto intro: mult_left_mono mult_right_mono)
  then have lt: "r < 2 ^ 31" "c < 2 ^ 31" using assms(5) by auto
  have "b * c \<le> c * c" using assms rc by (intro mult_right_mono) auto
  also have "\<dots> \<le> 2 ^ 31 * 2 ^ 31" using lt rc by (intro mult_mono) auto
  finally have "b * c \<le> 2 ^ 62" by simp
  then have u: "u64 a = a" "u64 c = c" "u64 r = r" "u64 (a + b * c) = a + b * c"
    using assms lt rc by (simp_all add: u64_def)
  have m: "(a + b * c) div c = b + a div c" "(a + b * c) mod c = a mod c"
    using rc by (simp_all add: div_add1_eq)
  have "a mod c < 2 ^ 31" "(b + a div c) mod r < 2 ^ 31"
    using lt pos_mod_bound [OF rc(2), of a] pos_mod_bound [OF rc(1), of "b + a div c"] by linarith+
  then have t: "to_i32 (a mod c) = a mod c" "to_i32 ((b + a div c) mod r) = (b + a div c) mod r"
    using rc pos_mod_sign [of c a] pos_mod_sign [of r "b + a div c"]
    by (auto intro!: to_i32_id intro: order_trans [of _ 0])
  show ?thesis using rc by (simp add: tensor_position_def unravel_def u m t numeral_2_eq_2)
qed

lemma index_tensor_transposed_witness:
  "tensor_position [2, 3] [0, 1] 0 = Inr (Some ([1, 0], 2)) \<and>
     take_indices [0, 1] 2 0 = Some ([0, 1], 2)"
  using index_tensor_transposed [of 0 2 1 3] by (simp add: numeral_2_eq_2)

text \<open>
  On a contiguous view of a part of a storage the size of an element is computed from the size of
  the whole storage: the first row of a tensor of six bytes is copied in steps of three bytes.
\<close>

theorem index_element_size_of_part:
  "\<exists>m'. IndexOp_forward (\<lambda>u. 100 * int u) [IdxVector [0], IdxVector [1]]
     [Some (index_in\<lparr>v_shape := [1, 2]\<rparr>)] [Some (index_out\<lparr>v_shape := [1, 1], v_stride := [1, 1]\<rparr>)]
     of_int = Inr m' \<and> m' 100 = 3 \<and> m' 101 = 4 \<and> m' 102 = 5"
proof -
  have "linear_offset [0, 1] [1, 2] = 1" "linear_offset [0, 0] [1, 1] = 0"
    by (simp_all add: linear_offset_def u64_def)
  then show ?thesis
    by (simp add: IndexOp_forward_def inp_def impl_def isContiguous_def numel_def numel_of_def
        need_tensors_def index_eval upt_conv_Cons copy_element_def unravel_def to_i32_def Let_def
        memcpy_def)
qed

end
