(* ===== verification/Element_Copy.thy ===== *)
theory Element_Copy
  imports Index_Op Layer_Ops
begin

text \<open>
  What the data-movement kernels share: the bytes of an element of a view, a calculus for programs
  that only move bytes (each written byte is a copy of a byte of the initial memory), and the two
  ways between the position of an element in row-major order and its index.
\<close>

subsection \<open>The bytes of an element\<close>

definition elem_size :: "view \<Rightarrow> int" where
  "elem_size v = int (bytesOfType (v_dtype v))"

text \<open>The bytes that \<^verbatim>\<open>at\<close> refers to.\<close>

definition elem :: "(nat \<Rightarrow> int) \<Rightarrow> memory \<Rightarrow> view \<Rightarrow> int list \<Rightarrow> 8 word list outcome" where
  "elem base m v idx =
     obind (offsettedPtr (base (ts_uuid (v_store v))) v idx) (\<lambda>p.
       Inr (map (\<lambda>k. m (p + int k)) [0..<bytesOfType (v_dtype v)]))"

text \<open>The number of elements from the first to the last element of a view, gaps included.\<close>

definition span :: "view \<Rightarrow> int" where
  "span v = dot (map (\<lambda>d. d - 1) (v_shape v)) (v_stride v) + 1"

definition view_ok :: "view \<Rightarrow> bool" where
  "view_ok v \<longleftrightarrow> shape_ok (v_shape v) \<and> length (v_stride v) = length (v_shape v) \<and>
     (\<forall>s \<in> set (v_stride v). 0 \<le> s) \<and> span v < 2 ^ 31 \<and> lanesOfType (v_dtype v) = 1"

definition packed :: "view \<Rightarrow> bool" where
  "packed v \<longleftrightarrow> shape_ok (v_shape v) \<and> v_stride v = rm_strides (v_shape v) \<and> lanesOfType (v_dtype v) = 1"

definition elem_addr :: "(nat \<Rightarrow> int) \<Rightarrow> view \<Rightarrow> int list \<Rightarrow> int" where
  "elem_addr base v idx = out_addr base v + dot idx (v_stride v) * elem_size v"

definition footprint :: "(nat \<Rightarrow> int) \<Rightarrow> view \<Rightarrow> int set" where
  "footprint base v = {out_addr base v ..< out_addr base v + span v * elem_size v}"

lemma elem_size_bounds: "0 < elem_size v" "elem_size v \<le> 292"
  using bytes_positive [of "v_dtype v"] bytes_bound [of "v_dtype v"] by (simp_all add: elem_size_def)

lemma dot_le_last:
  "in_range is ds \<Longrightarrow> length ss = length ds \<Longrightarrow> \<forall>s \<in> set ss. 0 \<le> s \<Longrightarrow>
     0 \<le> dot is ss \<and> dot is ss \<le> dot (map (\<lambda>d. d - 1) ds) ss"
proof (induction "is" ds arbitrary: ss rule: list_induct2')
  case (4 i "is" d ds)
  then obtain s ss' where ss: "ss = s # ss'" "length ss' = length ds" by (cases ss) auto
  with 4 have "0 \<le> dot is ss' \<and> dot is ss' \<le> dot (map (\<lambda>d. d - 1) ds) ss'" by auto
  moreover have "0 \<le> i * s" "i * s \<le> (d - 1) * s" using 4(2,4) ss by (auto intro: mult_right_mono)
  ultimately show ?case using ss by simp
qed auto

lemma dot_last_rm: "dot (map (\<lambda>d. d - 1) ds) (rm_strides ds) + 1 = prod_list ds"
  by (induction ds) (simp_all add: algebra_simps)

lemma rm_strides_nonneg: "\<forall>d \<in> set ds. 0 < d \<Longrightarrow> \<forall>s \<in> set (rm_strides ds). 0 \<le> s"
  by (induction ds) (auto intro!: less_imp_le prod_list_pos)

lemma packed_span: "packed v \<Longrightarrow> span v = prod_list (v_shape v)"
  by (simp add: packed_def span_def dot_last_rm)

lemma packed_ok: "packed v \<Longrightarrow> view_ok v"
  using packed_span [of v] rm_strides_nonneg [of "v_shape v"]
  by (auto simp: view_ok_def packed_def shape_ok_def)

lemma isContiguous_packed:
  "view_ok v \<Longrightarrow> isContiguous v = Inr (packed v)"
  using isContiguous_iff [of v] by (simp add: view_ok_def packed_def)

lemma elem_offset_ge:
  assumes "in_range is ds" "length ss = length ds" "\<forall>s \<in> set ss. 0 \<le> s" "0 \<le> a"
    and "a + dot (map (\<lambda>d. d - 1) ds) ss < 2 ^ 31"
  shows "ofold (\<lambda>(i, s) a. obind (i32 (i * s)) (\<lambda>p. i32 (a + p))) (zip is ss) a = Inr (a + dot is ss)"
  using assms
proof (induction "is" ds arbitrary: ss a rule: list_induct2')
  case (4 i "is" d ds)
  then obtain s ss' where ss: "ss = s # ss'" "length ss' = length ds" by (cases ss) auto
  have r: "in_range is ds" "0 \<le> i" "i < d" and nn: "\<forall>s \<in> set ss'. 0 \<le> s" "0 \<le> s"
    using 4(2,4) ss by auto
  note le = dot_le_last [OF r(1) ss(2) nn(1)]
  have m: "0 \<le> i * s" "i * s \<le> (d - 1) * s" using r nn by (auto intro: mult_right_mono)
  have b: "a + (d - 1) * s + dot (map (\<lambda>d. d - 1) ds) ss' < 2 ^ 31" using 4(6) ss by simp
  have "i32 (i * s) = Inr (i * s)" "i32 (a + i * s) = Inr (a + i * s)"
    using m b le 4(5) by (auto simp: i32_def)
  moreover have "ofold (\<lambda>(i, s) a. obind (i32 (i * s)) (\<lambda>p. i32 (a + p))) (zip is ss') (a + i * s) =
      Inr (a + i * s + dot is ss')"
    by (rule 4(1)) (use r ss nn m b 4(5) in auto)
  ultimately show ?case by (simp add: ss(1))
qed simp_all

lemma view_elem_offset:
  "view_ok v \<Longrightarrow> in_range idx (v_shape v) \<Longrightarrow> elem_offset idx (v_stride v) = Inr (dot idx (v_stride v))"
  using elem_offset_ge [of idx "v_shape v" "v_stride v" 0] by (simp add: elem_offset_def view_ok_def span_def)

lemma view_dot_bounds:
  "view_ok v \<Longrightarrow> in_range idx (v_shape v) \<Longrightarrow> 0 \<le> dot idx (v_stride v) \<and> dot idx (v_stride v) < span v"
  using dot_le_last [of idx "v_shape v" "v_stride v"] by (auto simp: view_ok_def span_def)

lemma view_ptr:
  assumes "view_ok v" "in_range idx (v_shape v)"
  shows "offsettedPtr (base (ts_uuid (v_store v))) v idx = Inr (elem_addr base v idx)"
proof -
  have "0 \<le> dot idx (v_stride v)" "dot idx (v_stride v) < 2 ^ 31"
    using view_dot_bounds [OF assms] assms(1) by (auto simp: view_ok_def)
  then have "byte_offset (v_dtype v) (dot idx (v_stride v)) = dot idx (v_stride v) * elem_size v"
    using byte_offset_small assms(1) by (simp add: view_ok_def elem_size_def)
  then show ?thesis
    using assms in_range_length [OF assms(2)] view_elem_offset [OF assms]
    by (simp add: offsettedPtr_def elem_addr_def out_addr_def)
qed

lemma elem_eq:
  "view_ok v \<Longrightarrow> in_range idx (v_shape v) \<Longrightarrow> elem base m v idx =
     Inr (map (\<lambda>k. m (elem_addr base v idx + int k)) [0..<bytesOfType (v_dtype v)])"
  by (simp add: elem_def view_ptr)

lemma elem_in_footprint:
  assumes "view_ok v" "in_range idx (v_shape v)" "0 \<le> k" "k < elem_size v"
  shows "elem_addr base v idx + k \<in> footprint base v"
proof -
  have "elem_addr base v idx + k \<in> cell (out_addr base v) (elem_size v) (dot idx (v_stride v))"
    using assms by (simp add: cell_def elem_addr_def)
  from cell_in_region [OF this, of "span v"] view_dot_bounds [OF assms(1,2)]
  show ?thesis by (simp add: footprint_def)
qed

subsection \<open>Programs that move bytes\<close>

text \<open>
  \<open>moves m0 D F A p\<close>: from every memory that agrees with \<open>m0\<close> outside the region \<open>D\<close> that the kernel
  writes, the program \<open>p\<close> ends, and afterwards every address \<open>a\<close> of \<open>A\<close> holds the byte \<open>F a\<close> computed
  from the memory it started in, every other address what it held. Programs with the same \<open>F\<close>
  compose if \<open>F\<close> reads nothing of the region: \<open>apart F D\<close>.
\<close>

type_synonym source = "int \<Rightarrow> memory \<Rightarrow> 8 word"

definition agree :: "int set \<Rightarrow> memory \<Rightarrow> memory \<Rightarrow> bool" where
  "agree D m m' \<longleftrightarrow> (\<forall>b. b \<notin> D \<longrightarrow> m b = m' b)"

definition moved :: "source \<Rightarrow> int set \<Rightarrow> memory \<Rightarrow> memory \<Rightarrow> bool" where
  "moved F A m m' \<longleftrightarrow> (\<forall>a. m' a = (if a \<in> A then F a m else m a))"

definition moves ::
  "memory \<Rightarrow> int set \<Rightarrow> source \<Rightarrow> int set \<Rightarrow> (memory \<Rightarrow> memory outcome) \<Rightarrow> bool" where
  "moves m0 D F A p \<longleftrightarrow> A \<subseteq> D \<and> (\<forall>m. agree D m m0 \<longrightarrow> (\<exists>m'. p m = Inr m' \<and> moved F A m m'))"

definition apart :: "source \<Rightarrow> int set \<Rightarrow> bool" where
  "apart F D \<longleftrightarrow> (\<forall>a \<in> D. \<forall>m m'. agree D m m' \<longrightarrow> F a m = F a m')"

lemma movesI:
  "A \<subseteq> D \<Longrightarrow> (\<And>m. agree D m m0 \<Longrightarrow> \<exists>m'. p m = Inr m' \<and> moved F A m m') \<Longrightarrow> moves m0 D F A p"
  by (simp add: moves_def)

lemma moves_run: "moves m D F A p \<Longrightarrow> \<exists>m'. p m = Inr m' \<and> moved F A m m'"
  by (simp add: moves_def agree_def)

lemma moved_agree: "moved F A m m1 \<Longrightarrow> A \<subseteq> D \<Longrightarrow> agree D m1 m"
  by (auto simp: moved_def agree_def)

lemma moved_comp:
  assumes "moved F A m m1" "moved F B m1 m2" "A \<subseteq> D" "B \<subseteq> D" "apart F D"
  shows "moved F (A \<union> B) m m2"
proof -
  have "agree D m1 m" by (rule moved_agree [OF assms(1,3)])
  then have "\<forall>a \<in> B. F a m1 = F a m" using assms(4,5) unfolding apart_def by blast
  then show ?thesis using assms(1,2) by (auto simp: moved_def)
qed

lemma moves_skip: "moves m0 D F {} Inr"
  by (simp add: moves_def moved_def)

lemma moves_memcpy:
  "{dst ..< dst + n} \<subseteq> D \<Longrightarrow>
     (\<And>a. dst \<le> a \<Longrightarrow> a < dst + n \<Longrightarrow> F a = (\<lambda>m. m (src + (a - dst)))) \<Longrightarrow>
     moves m0 D F {dst ..< dst + n} (\<lambda>m. Inr (memcpy dst src n m))"
  by (auto simp: moves_def moved_def memcpy_def)

lemma moves_seq:
  assumes "moves m0 D F A p" "moves m0 D F B q" "apart F D"
  shows "moves m0 D F (A \<union> B) (\<lambda>m. obind (p m) q)"
proof (rule movesI)
  show "A \<union> B \<subseteq> D" using assms(1,2) by (simp add: moves_def)
  fix m assume m: "agree D m m0"
  obtain m1 where m1: "p m = Inr m1" "moved F A m m1" using assms(1) m by (auto simp: moves_def)
  have "agree D m1 m0"
    using moved_agree [OF m1(2), of D] m assms(1) by (simp add: moves_def agree_def)
  then obtain m2 where m2: "q m1 = Inr m2" "moved F B m1 m2" using assms(2) by (auto simp: moves_def)
  have "moved F (A \<union> B) m m2"
    by (rule moved_comp [OF m1(2) m2(2) _ _ assms(3)]) (use assms in \<open>simp_all add: moves_def\<close>)
  with m1(1) m2(1) show "\<exists>m'. obind (p m) q = Inr m' \<and> moved F (A \<union> B) m m'" by auto
qed

lemma moves_ofold:
  assumes "\<And>x. x \<in> set xs \<Longrightarrow> moves m0 D F (A x) (step x)" "apart F D"
  shows "moves m0 D F (\<Union>x \<in> set xs. A x) (ofold step xs)"
  using assms(1)
proof (induction xs)
  case Nil
  then show ?case by (simp add: moves_def moved_def)
next
  case (Cons x xs)
  have "moves m0 D F (A x \<union> (\<Union>x \<in> set xs. A x)) (\<lambda>m. obind (step x m) (ofold step xs))"
    by (rule moves_seq [OF _ _ assms(2)]) (use Cons in auto)
  then show ?case by (simp add: moves_def)
qed

lemma moves_cong:
  "moves m0 D F A q \<Longrightarrow> (\<And>m. agree D m m0 \<Longrightarrow> p m = q m) \<Longrightarrow> moves m0 D F A p"
  by (simp add: moves_def)

subsection \<open>Moving elements\<close>

text \<open>
  Byte \<open>k\<close> of element \<open>j\<close> of the output that starts at \<open>p\<close> is \<open>s j k\<close>; an element
  that is copied has \<open>s j = bytes_from a\<close> with the address \<open>a\<close> it comes from.
\<close>

definition elem_src :: "int \<Rightarrow> int \<Rightarrow> (int \<Rightarrow> source) \<Rightarrow> source" where
  "elem_src p es s a = s ((a - p) div es) ((a - p) mod es)"

definition bytes_from :: "int \<Rightarrow> source" where
  "bytes_from a k m = m (a + k)"

definition cells :: "int \<Rightarrow> int \<Rightarrow> int \<Rightarrow> int \<Rightarrow> int set" where
  "cells p es j c = {p + j * es ..< p + (j + c) * es}"

lemma elem_src_at: "0 \<le> k \<Longrightarrow> k < es \<Longrightarrow> elem_src p es s (p + j * es + k) = s j k"
  by (simp add: elem_src_def div_add1_eq)

lemma moves_block:
  assumes es: "0 < es" and D: "cells p es j c \<subseteq> D"
    and s: "\<And>t. 0 \<le> t \<Longrightarrow> t < c \<Longrightarrow> s (j + t) = bytes_from (src + t * es)"
    and d: "dst = p + j * es" and n: "n = c * es"
  shows "moves m0 D (elem_src p es s) (cells p es j c) (\<lambda>m. Inr (memcpy dst src n m))"
proof -
  have r: "cells p es j c = {dst ..< dst + n}" by (simp add: cells_def d n algebra_simps)
  have "moves m0 D (elem_src p es s) {dst ..< dst + n} (\<lambda>m. Inr (memcpy dst src n m))"
  proof (rule moves_memcpy)
    show "{dst ..< dst + n} \<subseteq> D" using D r by simp
    fix a assume a: "dst \<le> a" "a < dst + n"
    let ?q = "a - dst" let ?t = "?q div es" let ?k = "?q mod es"
    have q: "a = p + (j + ?t) * es + ?k" by (simp add: d distrib_right)
    have k: "0 \<le> ?k" "?k < es" using es by simp_all
    have q0: "0 \<le> ?q" "?q < c * es" using a n by simp_all
    then have t: "0 \<le> ?t" using es by (simp add: pos_imp_zdiv_nonneg_iff)
    have "?t * es \<le> ?q" using es by (simp add: minus_mod_eq_div_mult [symmetric])
    then have "?t * es < c * es" using q0 by linarith
    then have t2: "?t < c" using es by simp
    have "elem_src p es s a = s (j + ?t) ?k" by (subst q) (rule elem_src_at [OF k])
    also have "\<dots> = (\<lambda>m. m (src + (?t * es + ?k)))"
      using s [OF t t2] by (simp add: bytes_from_def add.assoc fun_eq_iff)
    also have "?t * es + ?k = ?q" by (simp only: div_mult_mod_eq)
    finally show "elem_src p es s a = (\<lambda>m. m (src + (a - dst)))" .
  qed
  then show ?thesis by (simp only: r)
qed

lemma cells_subset: "0 \<le> es \<Longrightarrow> i \<le> j \<Longrightarrow> j + c \<le> i + n \<Longrightarrow> cells p es j c \<subseteq> cells p es i n"
  using mult_right_mono [of i j es] mult_right_mono [of "j + c" "i + n" es] by (auto simp: cells_def)

lemma int_div_less:
  assumes "0 < (c :: int)"
  shows "q div c < n \<longleftrightarrow> q < n * c"
proof -
  have q: "q div c * c \<le> q" "q < (q div c + 1) * c"
    using pos_mod_bound [OF assms, of q] pos_mod_sign [OF assms, of q] div_mult_mod_eq [of q c]
    unfolding distrib_right by linarith+
  have "(q div c + 1) * c \<le> n * c" if "q div c < n"
    using assms that by (intro mult_right_mono) simp_all
  moreover have "n * c \<le> q div c * c" if "n \<le> q div c" using assms that by (intro mult_right_mono) simp_all
  ultimately show ?thesis using q by linarith
qed

lemma mem_cells:
  assumes "0 < es"
  shows "a \<in> cells p es j c \<longleftrightarrow> j \<le> (a - p) div es \<and> (a - p) div es < j + c"
proof -
  have "j * es \<le> a - p \<longleftrightarrow> j \<le> (a - p) div es" "a - p < (j + c) * es \<longleftrightarrow> (a - p) div es < j + c"
    using int_div_less [OF assms, of "a - p"] by (simp_all add: not_less [symmetric])
  moreover have "a \<in> cells p es j c \<longleftrightarrow> j * es \<le> a - p \<and> a - p < (j + c) * es"
    by (auto simp: cells_def)
  ultimately show ?thesis by simp
qed

lemma block_of:
  assumes "0 < c" "0 \<le> q" "q < n * (c :: int)"
  shows "\<exists>i. 0 \<le> i \<and> i < n \<and> i * c \<le> q \<and> q < i * c + c"
proof -
  let ?i = "q div c"
  have "?i * c + q mod c = q" by simp
  moreover have "0 \<le> q mod c" "q mod c < c" using assms(1) by simp_all
  moreover have "0 \<le> ?i" using assms by (simp add: pos_imp_zdiv_nonneg_iff)
  moreover have "?i < n" using assms int_div_less by simp
  ultimately show ?thesis by (intro exI [of _ ?i]) linarith
qed

lemma cells_blocks:
  assumes es: "0 < es" and c: "0 \<le> c"
  shows "(\<Union>i \<in> set [0..n - 1]. cells p es (j + i * c) c) = cells p es j (n * c)"
proof -
  have sub: "cells p es (j + i * c) c \<subseteq> cells p es j (n * c)" if "0 \<le> i" "i < n" for i
  proof (rule cells_subset)
    have "(i + 1) * c \<le> n * c" using that c by (intro mult_right_mono) auto
    then show "j + i * c + c \<le> j + n * c" by (simp add: distrib_right)
  qed (use es c that in auto)
  have "\<exists>i \<in> set [0..n - 1]. a \<in> cells p es (j + i * c) c" if "a \<in> cells p es j (n * c)" for a
  proof -
    let ?q = "(a - p) div es - j"
    have q: "0 \<le> ?q" "?q < n * c" using that mem_cells [OF es] by auto
    then have "0 < c" using c by (cases "c = 0") auto
    from block_of [OF this q] obtain i where i: "0 \<le> i" "i < n" "i * c \<le> ?q" "?q < i * c + c" by blast
    then have "a \<in> cells p es (j + i * c) c" by (simp add: mem_cells [OF es])
    with i show ?thesis by (intro bexI [of _ i]) simp_all
  qed
  then have "cells p es j (n * c) \<subseteq> (\<Union>i \<in> set [0..n - 1]. cells p es (j + i * c) c)" by blast
  moreover have "(\<Union>i \<in> set [0..n - 1]. cells p es (j + i * c) c) \<subseteq> cells p es j (n * c)"
    by (rule UN_least) (use sub in simp)
  ultimately show ?thesis by (rule subset_antisym [rotated])
qed

text \<open>A loop over consecutive blocks of \<open>c\<close> elements.\<close>

lemma moves_loop:
  assumes "0 < es" "0 \<le> c" "apart F D"
    and "\<And>i. 0 \<le> i \<Longrightarrow> i < n \<Longrightarrow> moves m0 D F (cells p es (j + i * c) c) (step i)"
  shows "moves m0 D F (cells p es j (n * c)) (ofold step [0..n - 1])"
proof -
  have "moves m0 D F (\<Union>i \<in> set [0..n - 1]. cells p es (j + i * c) c) (ofold step [0..n - 1])"
    by (rule moves_ofold [OF _ assms(3)]) (use assms(4) in auto)
  then show ?thesis by (simp only: cells_blocks [OF assms(1,2)])
qed

text \<open>The same loop over other sets of elements: \<open>A i\<close> are the elements that step \<open>i\<close> writes.\<close>

definition elems :: "int \<Rightarrow> int \<Rightarrow> int set \<Rightarrow> int set" where
  "elems p es J = (\<Union>j \<in> J. cell p es j)"

lemma mem_elems: "0 < es \<Longrightarrow> a \<in> elems p es J \<longleftrightarrow> (a - p) div es \<in> J"
proof -
  assume es: "0 < es"
  have "a \<in> cell p es j \<longleftrightarrow> (a - p) div es = j" for j
    using mem_cells [OF es, of a p j 1] by (auto simp: cell_def cells_def distrib_right)
  then show ?thesis by (auto simp: elems_def)
qed

lemma elems_cells: "0 < es \<Longrightarrow> elems p es {j ..< j + c} = cells p es j c"
  by (auto simp: mem_elems mem_cells)

lemma elems_UN: "(\<Union>x \<in> X. elems p es (A x)) = elems p es (\<Union>x \<in> X. A x)"
  by (auto simp: elems_def)

lemma elems_Un: "elems p es A \<union> elems p es B = elems p es (A \<union> B)"
  by (auto simp: elems_def)

lemma elems_mono: "A \<subseteq> B \<Longrightarrow> elems p es A \<subseteq> elems p es B"
  by (auto simp: elems_def)

lemma moves_each:
  assumes "\<And>x. x \<in> set xs \<Longrightarrow> moves m0 D F (elems p es (A x)) (step x)" "apart F D"
  shows "moves m0 D F (elems p es (\<Union>x \<in> set xs. A x)) (ofold step xs)"
  using moves_ofold [of xs m0 D F "\<lambda>x. elems p es (A x)" step] assms by (simp add: elems_UN)

lemma moves_elem:
  assumes "0 < es" "cells p es j 1 \<subseteq> D" "s j = bytes_from src" "dst = p + j * es"
  shows "moves m0 D (elem_src p es s) (elems p es {j}) (\<lambda>m. Inr (memcpy dst src es m))"
proof -
  have "moves m0 D (elem_src p es s) (cells p es j 1) (\<lambda>m. Inr (memcpy dst src es m))"
  proof (rule moves_block [OF assms(1,2) _ assms(4)])
    fix t :: int assume "0 \<le> t" "t < 1"
    then have "t = 0" by simp
    then show "s (j + t) = bytes_from (src + t * es)" by (simp add: assms(3))
  qed simp
  moreover have "elems p es {j} = cells p es j 1" by (simp add: elems_def cell_def cells_def distrib_right add.assoc)
  ultimately show ?thesis by simp
qed

text \<open>No element reads what another one writes.\<close>

lemma apart_cells:
  assumes "0 < es" "\<And>j k. 0 \<le> j \<Longrightarrow> j < n \<Longrightarrow> 0 \<le> k \<Longrightarrow> k < es \<Longrightarrow> g j + k \<notin> cells p es 0 n"
  shows "apart (elem_src p es (\<lambda>j. bytes_from (g j))) (cells p es 0 n)"
  unfolding apart_def
proof (intro ballI allI impI)
  fix a m m' assume a: "a \<in> cells p es 0 n" and "agree (cells p es 0 n) m m'"
  moreover have "g ((a - p) div es) + (a - p) mod es \<notin> cells p es 0 n"
    by (rule assms(2)) (use a assms(1) in \<open>simp_all add: mem_cells\<close>)
  ultimately show "elem_src p es (\<lambda>j. bytes_from (g j)) a m = elem_src p es (\<lambda>j. bytes_from (g j)) a m'"
    by (simp add: elem_src_def bytes_from_def agree_def)
qed

subsection \<open>Positions and indices\<close>

text \<open>The index of the element at position \<open>t\<close> of the row-major order.\<close>

fun unflat :: "int list \<Rightarrow> int \<Rightarrow> int list" where
  "unflat [] t = []"
| "unflat (d # ds) t = t div prod_list ds # unflat ds (t mod prod_list ds)"

abbreviation flat :: "int list \<Rightarrow> int list \<Rightarrow> int" where
  "flat idx ds \<equiv> dot idx (rm_strides ds)"

lemma length_unflat [simp]: "length (unflat ds t) = length ds"
  by (induction ds arbitrary: t) simp_all

lemma unflat_flat: "in_range idx ds \<Longrightarrow> unflat ds (flat idx ds) = idx"
proof (induction idx ds rule: list_induct2')
  case (4 i "is" d ds)
  then have r: "in_range is ds" by simp
  note b = dot_bounds [OF r]
  then have "(i * prod_list ds + flat is ds) div prod_list ds = i"
    "(i * prod_list ds + flat is ds) mod prod_list ds = flat is ds"
    by (simp_all add: div_add1_eq)
  with 4 r show ?case by simp
qed auto

lemma unflat_range:
  assumes "\<forall>d \<in> set ds. 0 < d" "0 \<le> t" "t < prod_list ds"
  shows "in_range (unflat ds t) ds" "flat (unflat ds t) ds = t"
proof -
  obtain "is" where i: "in_range is ds" "flat is ds = t" using dot_surj [OF assms] by blast
  then have "unflat ds t = is" using unflat_flat by blast
  with i show "in_range (unflat ds t) ds" "flat (unflat ds t) ds = t" by simp_all
qed

lemma in_range_append:
  "length a = length A \<Longrightarrow> in_range (a @ b) (A @ B) \<longleftrightarrow> in_range a A \<and> in_range b B"
  by (simp add: in_range_def list_all2_append)

lemma flat_append:
  "length a = length A \<Longrightarrow> flat (a @ b) (A @ B) = flat a A * prod_list B + flat b B"
  by (induction a A rule: list_induct2) (simp_all add: algebra_simps)

lemma prod_list_append: "prod_list (A @ B) = prod_list A * (prod_list B :: int)"
  by (induction A) simp_all

text \<open>A row-major tensor seen as three-dimensional around one of its dimensions.\<close>

definition at3 :: "int \<Rightarrow> int \<Rightarrow> int \<Rightarrow> int \<Rightarrow> int \<Rightarrow> int" where
  "at3 d n a i b = (a * d + i) * n + b"

lemma flat_at3:
  "length a = length A \<Longrightarrow> flat (a @ i # b) (A @ d # B) = at3 d (prod_list B) (flat a A) i (flat b B)"
  by (simp add: flat_append at3_def algebra_simps)

lemma at3_parts:
  assumes "0 \<le> i" "i < d" "0 \<le> b" "b < n"
  shows "at3 d n u i b div (d * n) = u" "at3 d n u i b div n mod d = i" "at3 d n u i b mod n = b"
proof -
  have n: "at3 d n u i b div n = u * d + i" using assms by (simp add: at3_def div_add1_eq)
  then show "at3 d n u i b div n mod d = i" using assms by simp
  have "at3 d n u i b div (d * n) = at3 d n u i b div n div d"
    using assms zdiv_zmult2_eq [of d "at3 d n u i b" n] by (simp add: mult.commute)
  also have "\<dots> = u" using n assms by (simp add: div_add1_eq)
  finally show "at3 d n u i b div (d * n) = u" .
  show "at3 d n u i b mod n = b" using assms by (simp add: at3_def)
qed

text \<open>What a finished kernel says about one element.\<close>

lemma elem_moved:
  assumes y: "packed y" and x: "view_ok x" and dt: "bytesOfType (v_dtype x) = bytesOfType (v_dtype y)"
    and mv: "moved (elem_src (out_addr base y) (elem_size y) s) A m m'"
    and A: "cells (out_addr base y) (elem_size y) 0 (prod_list (v_shape y)) \<subseteq> A"
    and oi: "in_range oi (v_shape y)" and ii: "in_range ii (v_shape x)"
    and s: "s (flat oi (v_shape y)) = bytes_from (elem_addr base x ii)"
  shows "elem base m' y oi = elem base m x ii"
proof -
  have st: "v_stride y = rm_strides (v_shape y)" using y by (simp add: packed_def)
  have es: "0 < elem_size y" by (rule elem_size_bounds)
  have "m' (elem_addr base y oi + int k) = m (elem_addr base x ii + int k)"
    if k: "k < bytesOfType (v_dtype y)" for k
  proof -
    let ?a = "elem_addr base y oi + int k"
    have k': "0 \<le> int k" "int k < elem_size y" using k by (simp_all add: elem_size_def)
    have "?a \<in> footprint base y" by (rule elem_in_footprint [OF packed_ok [OF y] oi k'])
    then have "?a \<in> A" using A packed_span [OF y] by (auto simp: footprint_def cells_def)
    then have "m' ?a = elem_src (out_addr base y) (elem_size y) s ?a m"
      using mv by (simp add: moved_def)
    also have "\<dots> = s (flat oi (v_shape y)) (int k) m"
      using elem_src_at [OF k', of "out_addr base y" s "flat oi (v_shape y)"] by (simp add: elem_addr_def st)
    finally show ?thesis using s by (simp add: bytes_from_def)
  qed
  then show ?thesis by (simp add: elem_eq [OF packed_ok [OF y] oi] elem_eq [OF x ii] dt)
qed

lemma elem_unmoved:
  assumes "view_ok x" "in_range ii (v_shape x)" "moved F A m m'" "A \<inter> footprint base x = {}"
  shows "elem base m' x ii = elem base m x ii"
proof -
  have "elem_addr base x ii + int k \<notin> A" if "k < bytesOfType (v_dtype x)" for k
    using elem_in_footprint [OF assms(1,2), of "int k" base] assms(4) that by (auto simp: elem_size_def)
  then show ?thesis using assms(3) by (simp add: elem_eq [OF assms(1,2)] moved_def)
qed

subsection \<open>Kernels that pick each output element from an input\<close>

text \<open>
  \<open>f\<close> names, for every index of the output \<open>y\<close>, the input view and the index in it that the element
  comes from.
\<close>

type_synonym picker = "int list \<Rightarrow> view \<times> int list"

definition pick_addr :: "(nat \<Rightarrow> int) \<Rightarrow> picker \<Rightarrow> int list \<Rightarrow> int" where
  "pick_addr base f oi = elem_addr base (fst (f oi)) (snd (f oi))"

definition pick :: "(nat \<Rightarrow> int) \<Rightarrow> view \<Rightarrow> picker \<Rightarrow> source" where
  "pick base y f = elem_src (out_addr base y) (elem_size y)
     (\<lambda>j. bytes_from (pick_addr base f (unflat (v_shape y) j)))"

definition picks_ok :: "(nat \<Rightarrow> int) \<Rightarrow> view \<Rightarrow> picker \<Rightarrow> bool" where
  "picks_ok base y f \<longleftrightarrow> packed y \<and> (\<forall>oi. in_range oi (v_shape y) \<longrightarrow>
     view_ok (fst (f oi)) \<and> in_range (snd (f oi)) (v_shape (fst (f oi))) \<and>
     v_dtype (fst (f oi)) = v_dtype y \<and> footprint base (fst (f oi)) \<inter> footprint base y = {})"

lemma packed_cells:
  "packed y \<Longrightarrow> cells (out_addr base y) (elem_size y) 0 (prod_list (v_shape y)) = footprint base y"
  by (simp add: footprint_def cells_def packed_span)

lemma packed_addr:
  "packed v \<Longrightarrow> elem_addr base v idx = out_addr base v + flat idx (v_shape v) * elem_size v"
  by (simp add: packed_def elem_addr_def)

lemma apart_pick:
  assumes "picks_ok base y f"
  shows "apart (pick base y f) (footprint base y)"
proof -
  have y: "packed y" using assms by (simp add: picks_ok_def)
  let ?g = "\<lambda>j. pick_addr base f (unflat (v_shape y) j)"
  have "?g j + k \<notin> cells (out_addr base y) (elem_size y) 0 (prod_list (v_shape y))"
    if j: "0 \<le> j" "j < prod_list (v_shape y)" and k: "0 \<le> k" "k < elem_size y" for j k
  proof -
    have r: "in_range (unflat (v_shape y) j) (v_shape y)"
      using j y by (intro unflat_range) (simp_all add: packed_def shape_ok_def)
    with assms have f: "view_ok (fst (f (unflat (v_shape y) j)))"
      "in_range (snd (f (unflat (v_shape y) j))) (v_shape (fst (f (unflat (v_shape y) j))))"
      "elem_size (fst (f (unflat (v_shape y) j))) = elem_size y"
      "footprint base (fst (f (unflat (v_shape y) j))) \<inter> footprint base y = {}"
      by (simp_all add: picks_ok_def elem_size_def)
    have "?g j + k \<in> footprint base (fst (f (unflat (v_shape y) j)))"
      unfolding pick_addr_def by (rule elem_in_footprint) (use f k in auto)
    then show ?thesis using f(4) packed_cells [OF y] by blast
  qed
  from apart_cells [OF elem_size_bounds(1) this] show ?thesis
    by (simp add: pick_def packed_cells [OF y])
qed

text \<open>A block of consecutive elements copied from consecutive elements.\<close>

lemma pick_block:
  assumes y: "packed y" and J: "0 \<le> J" "J + c \<le> prod_list (v_shape y)"
    and s: "\<And>t. 0 \<le> t \<Longrightarrow> t < c \<Longrightarrow> \<exists>oi. in_range oi (v_shape y) \<and> flat oi (v_shape y) = J + t \<and>
      pick_addr base f oi = src + t * elem_size y"
    and d: "dst = out_addr base y + J * elem_size y" and n: "n = c * elem_size y"
  shows "moves m0 (footprint base y) (pick base y f) (cells (out_addr base y) (elem_size y) J c)
    (\<lambda>m. Inr (memcpy dst src n m))"
  unfolding pick_def
proof (rule moves_block [OF elem_size_bounds(1) _ _ d n])
  show "cells (out_addr base y) (elem_size y) J c \<subseteq> footprint base y"
    unfolding packed_cells [OF y, symmetric]
    by (rule cells_subset) (use J elem_size_bounds(1) [of y] in auto)
  fix t assume "0 \<le> t" "t < c"
  from s [OF this] obtain oi where "in_range oi (v_shape y)" "flat oi (v_shape y) = J + t"
    "pick_addr base f oi = src + t * elem_size y" by blast
  then show "bytes_from (pick_addr base f (unflat (v_shape y) (J + t))) = bytes_from (src + t * elem_size y)"
    by (metis unflat_flat)
qed

text \<open>A single element.\<close>

lemma pick_elem:
  assumes y: "packed y" and oi: "in_range oi (v_shape y)" and "pick_addr base f oi = src"
    and "dst = elem_addr base y oi" "n = elem_size y"
  shows "moves m0 (footprint base y) (pick base y f)
    (elems (out_addr base y) (elem_size y) {flat oi (v_shape y)}) (\<lambda>m. Inr (memcpy dst src n m))"
  unfolding pick_def assms(5)
proof (rule moves_elem [OF elem_size_bounds(1)])
  show "cells (out_addr base y) (elem_size y) (flat oi (v_shape y)) 1 \<subseteq> footprint base y"
    unfolding packed_cells [OF y, symmetric]
    by (rule cells_subset) (use dot_bounds [OF oi] elem_size_bounds(1) [of y] in auto)
qed (use assms unflat_flat [OF oi] packed_addr [OF y] in simp_all)

lemma block_le:
  assumes "0 \<le> i" "i < n" "0 \<le> (c :: int)"
  shows "0 \<le> i * c" "i * c + c \<le> n * c"
  using mult_right_mono [of "i + 1" n c] assms by (simp_all add: distrib_right)

lemma in_range_mid:
  assumes "length a = length A"
  shows "in_range (a @ i # b) (A @ d # B) \<longleftrightarrow> in_range a A \<and> 0 \<le> i \<and> i < d \<and> in_range b B"
  using assms by (simp add: in_range_append)

lemma in_range_split:
  assumes "in_range oi (A @ d # B)"
  obtains a i b where "oi = a @ i # b" "length a = length A" "in_range a A" "0 \<le> i" "i < d" "in_range b B"
proof -
  have l: "length oi = length A + Suc (length B)" using in_range_length [OF assms] by simp
  let ?a = "take (length A) oi" and ?r = "drop (length A) oi"
  obtain i b where r: "?r = i # b" using l by (cases ?r) auto
  have e: "oi = ?a @ i # b" using append_take_drop_id [of "length A" oi] r by simp
  have "length ?a = length A" using l by simp
  with assms e in_range_mid [OF this, of i b d B] that show ?thesis by metis
qed

text \<open>
  The contract of these kernels: on arguments \<open>c\<close> and a memory that are \<open>ready\<close>, the run ends with every
  output element picked as \<open>from_input\<close> says.
\<close>

locale element_kernel =
  fixes ready :: "(nat \<Rightarrow> int) \<Rightarrow> 'a \<Rightarrow> memory \<Rightarrow> bool"
    and dest :: "'a \<Rightarrow> view"
    and from_input :: "'a \<Rightarrow> picker"
    and run :: "(nat \<Rightarrow> int) \<Rightarrow> 'a \<Rightarrow> memory \<Rightarrow> memory outcome"
  assumes picks: "ready base c m \<Longrightarrow> picks_ok base (dest c) (from_input c)"
    and runs: "ready base c m \<Longrightarrow> moves m (footprint base (dest c)) (pick base (dest c) (from_input c))
      (footprint base (dest c)) (run base c)"
begin

lemma ends: "ready base c m \<Longrightarrow> \<exists>m'. run base c m = Inr m'"
  using moves_run [OF runs] by blast

lemma result_moved:
  assumes "ready base c m" "run base c m = Inr m'"
  shows "moved (pick base (dest c) (from_input c)) (footprint base (dest c)) m m'"
proof -
  obtain m1 where "run base c m = Inr m1" "moved (pick base (dest c) (from_input c)) (footprint base (dest c)) m m1"
    using moves_run [OF runs [OF assms(1)]] by blast
  with assms(2) show ?thesis by simp
qed

lemma copies:
  assumes ok: "ready base c m" and m': "run base c m = Inr m'" and oi: "in_range oi (v_shape (dest c))"
    and f: "from_input c oi = (x, ii)"
  shows "elem base m' (dest c) oi = elem base m x ii"
proof -
  have p: "picks_ok base (dest c) (from_input c)" by (rule picks [OF ok])
  then have y: "packed (dest c)" by (simp add: picks_ok_def)
  have x: "view_ok x" "in_range ii (v_shape x)" "v_dtype x = v_dtype (dest c)"
    using p oi f unfolding picks_ok_def by (metis fst_conv snd_conv)+
  note mv = result_moved [OF ok m', unfolded pick_def]
  show ?thesis
    by (rule elem_moved [OF y x(1) _ mv _ oi x(2)])
      (use x(3) f in \<open>simp_all add: packed_cells [OF y] unflat_flat [OF oi] pick_addr_def\<close>)
qed

lemma keeps:
  assumes "ready base c m" "run base c m = Inr m'" "view_ok v" "in_range ii (v_shape v)"
    and "footprint base (dest c) \<inter> footprint base v = {}"
  shows "elem base m' v ii = elem base m v ii"
  by (rule elem_unmoved [OF assms(3,4) result_moved [OF assms(1,2)] assms(5)])

end

end
