(* ===== verification/Join_Kernels.thy ===== *)
theory Join_Kernels
  imports Element_Copy
begin

text \<open>
  The kernels that repeat, join and select along a dimension,
  \<^verbatim>\<open>mllm/backends/cpu/ops/{RepeatOp,ConcatOp,StackOp,GatherOp}.cpp\<close>. A type that a kernel does not
  support only prints a message: the output keeps the bytes it was allocated with.
\<close>

subsection \<open>Types and loop bounds\<close>

definition float_width :: "dtype \<Rightarrow> int option" where
  "float_width dt = (if dt = kFloat32 then Some 4 else if dt = kFloat16 then Some 2 else None)"

text \<open>\<^verbatim>\<open>for (int i = lo; i < shape.size(); ++i)\<close>: a negative \<open>lo\<close> is compared as a \<^verbatim>\<open>size_t\<close>.\<close>

definition dims_from :: "int \<Rightarrow> int list \<Rightarrow> int list" where
  "dims_from lo shape = (if lo < 0 then [] else [lo..int (length shape) - 1])"

definition int_product :: "int list \<Rightarrow> int list \<Rightarrow> int outcome" where
  "int_product shape ds = ofold (\<lambda>i a. obind (vec_at shape i) (\<lambda>d. i32 (a * d))) ds 1"

definition int64_product :: "int list \<Rightarrow> int list \<Rightarrow> int outcome" where
  "int64_product shape ds = ofold (\<lambda>i a. obind (vec_at shape i) (\<lambda>d. i64 (a * d))) ds 1"

subsection \<open>RepeatOp\<close>

text \<open>\<open>xp\<close> and \<open>yp\<close> are the addresses of the data, \<open>es\<close> the size of an element.\<close>

definition repeat_loops ::
  "int \<Rightarrow> int \<Rightarrow> int \<Rightarrow> int \<Rightarrow> int \<Rightarrow> int \<Rightarrow> int \<Rightarrow> memory \<Rightarrow> memory outcome" where
  "repeat_loops es xp yp outer_num dim_size inner_num multiplier =
     (let x_step = u64 (dim_size * inner_num); y_step = u64 (u64 (dim_size * multiplier) * inner_num)
      in ofold (\<lambda>outer.
           let x_outer = xp + u64 (outer * x_step) * es; y_outer = yp + u64 (outer * y_step) * es
           in ofold (\<lambda>d.
                let src = x_outer + u64 (d * inner_num) * es;
                    dest = y_outer + u64 (u64 (d * multiplier) * inner_num) * es
                in ofold (\<lambda>k m. Inr (memcpy (dest + u64 (k * inner_num) * es) src (inner_num * es) m))
                     [0..multiplier - 1])
              [0..dim_size - 1])
         [0..outer_num - 1])"

definition RepeatOp_forward ::
  "(nat \<Rightarrow> int) \<Rightarrow> int \<Rightarrow> int \<Rightarrow> tensor list \<Rightarrow> tensor list \<Rightarrow> memory \<Rightarrow> memory outcome" where
  "RepeatOp_forward base dim repeat_times ts os m =
     obind (inp ts 0) (\<lambda>x. obind (inp os 0) (\<lambda>y.
       if dim < 0 \<or> int (length (v_shape x)) \<le> dim
       then Inl (Throw ''CPURepeatOp::forward - invalid repeat dimension'')
       else (case float_width (v_dtype x) of
               None \<Rightarrow> Inr m
             | Some es \<Rightarrow>
                 repeat_loops es (out_addr base x) (out_addr base y)
                   (numel_of (take (nat dim) (v_shape x))) (u64 (v_shape x ! nat dim))
                   (numel_of (drop (Suc (nat dim)) (v_shape x))) (u64 repeat_times) m)))"

subsection \<open>ConcatOp\<close>

text \<open>The loop with 64-bit quotients and remainders of the element-wise path.\<close>

fun unravel64_rev :: "int list \<Rightarrow> int \<Rightarrow> int list outcome" where
  "unravel64_rev [] t = Inr []"
| "unravel64_rev (d # ds) t =
     (if d = 0 then Inl Undefined
      else obind (unravel64_rev ds (t sdiv d)) (\<lambda>r. Inr (to_i32 (t smod d) # r)))"

definition unravel64 :: "int list \<Rightarrow> int \<Rightarrow> int list outcome" where
  "unravel64 shape t = obind (unravel64_rev (rev shape) t) (\<lambda>r. Inr (rev r))"

text \<open>\<open>*offsettedPtr(y, oi) = *offsettedPtr(x, ii)\<close>\<close>

definition assign_element ::
  "(nat \<Rightarrow> int) \<Rightarrow> int \<Rightarrow> view \<Rightarrow> int list \<Rightarrow> view \<Rightarrow> int list \<Rightarrow> memory \<Rightarrow> memory outcome" where
  "assign_element base es y oi x ii m =
     obind (offsettedPtr (base (ts_uuid (v_store x))) x ii) (\<lambda>src.
     obind (offsettedPtr (base (ts_uuid (v_store y))) y oi) (\<lambda>dst. Inr (memcpy dst src es m)))"

definition concat_slice ::
  "int \<Rightarrow> int \<Rightarrow> int \<Rightarrow> int \<Rightarrow> int \<Rightarrow> int \<Rightarrow> int \<Rightarrow> int \<Rightarrow> memory \<Rightarrow> memory outcome" where
  "concat_slice es out src_ptr dim_total base_size off chunk sl m =
     obind (i32 (sl * chunk)) (\<lambda>s. obind (i32 (dim_total * base_size)) (\<lambda>row.
     obind (i32 (sl * row)) (\<lambda>d. obind (i32 (off * base_size)) (\<lambda>b.
       Inr (memcpy (out + d * es + b * es) (src_ptr + s * es) (u64 (u64 chunk * es)) m)))))"

fun concat_blocks ::
  "(nat \<Rightarrow> int) \<Rightarrow> int \<Rightarrow> int \<Rightarrow> int \<Rightarrow> int \<Rightarrow> int \<Rightarrow> int \<Rightarrow> view list \<Rightarrow> int \<Rightarrow> memory \<Rightarrow> memory outcome" where
  "concat_blocks base es out dim base_size num_slices dim_total [] off m = Inr m"
| "concat_blocks base es out dim base_size num_slices dim_total (x # xs) off m =
     obind (vec_at (v_shape x) dim) (\<lambda>c. obind (i32 (c * base_size)) (\<lambda>chunk.
     obind (ofold (concat_slice es out (out_addr base x) dim_total base_size off chunk) [0..num_slices - 1] m) (\<lambda>m1.
     obind (i32 (off + c)) (\<lambda>off'. concat_blocks base es out dim base_size num_slices dim_total xs off' m1))))"

fun concat_offsets :: "int \<Rightarrow> view list \<Rightarrow> int \<Rightarrow> int list outcome" where
  "concat_offsets dim [] off = Inr []"
| "concat_offsets dim (x # xs) off =
     obind (vec_at (v_shape x) dim) (\<lambda>c. obind (i32 (off + c)) (\<lambda>off'.
       obind (concat_offsets dim xs off') (\<lambda>r. Inr (off # r))))"

definition concat_element ::
  "(nat \<Rightarrow> int) \<Rightarrow> int \<Rightarrow> int \<Rightarrow> view \<Rightarrow> view \<Rightarrow> int \<Rightarrow> int \<Rightarrow> memory \<Rightarrow> memory outcome" where
  "concat_element base es dim y x off j m =
     obind (unravel64 (v_shape x) j) (\<lambda>ii. obind (vec_at ii dim) (\<lambda>i. obind (i32 (off + i)) (\<lambda>i'.
     obind (vec_set ii dim i') (\<lambda>oi. assign_element base es y oi x ii m))))"

definition concat_elements ::
  "(nat \<Rightarrow> int) \<Rightarrow> int \<Rightarrow> int \<Rightarrow> view \<Rightarrow> (view \<times> int) list \<Rightarrow> memory \<Rightarrow> memory outcome" where
  "concat_elements base es dim y =
     ofold (\<lambda>(x, off). ofold (concat_element base es dim y x off) [0..numel x - 1])"

definition all_contiguous :: "view list \<Rightarrow> bool outcome" where
  "all_contiguous xs = obind (omap isContiguous xs) (\<lambda>cs. Inr (list_all id cs))"

definition ConcatOp_forward ::
  "(nat \<Rightarrow> int) \<Rightarrow> int \<Rightarrow> tensor list \<Rightarrow> tensor list \<Rightarrow> memory \<Rightarrow> memory outcome" where
  "ConcatOp_forward base opt_dim ts os m =
     obind (omap impl ts) (\<lambda>xs. obind (all_contiguous xs) (\<lambda>all_c. obind (inp ts 0) (\<lambda>x0.
       let dim = wrap_dim opt_dim (v_shape x0) in
       if all_c then
         obind (int_product (v_shape x0) (dims_from (dim + 1) (v_shape x0))) (\<lambda>base_size.
         obind (int_product (v_shape x0) [0..dim - 1]) (\<lambda>num_slices.
         obind (ofold (\<lambda>x a. obind (vec_at (v_shape x) dim) (\<lambda>c. i32 (a + c))) xs 0) (\<lambda>dim_total.
         obind (inp os 0) (\<lambda>y. case float_width (v_dtype y) of
             None \<Rightarrow> Inr m
           | Some es \<Rightarrow> concat_blocks base es (out_addr base y) dim base_size num_slices dim_total xs 0 m))))
       else
         obind (concat_offsets dim xs 0) (\<lambda>offs.
         obind (inp os 0) (\<lambda>y. case float_width (v_dtype y) of
             None \<Rightarrow> Inr m
           | Some es \<Rightarrow> concat_elements base es dim y (zip xs offs) m)))))"

subsection \<open>StackOp\<close>

definition stack_slice ::
  "int \<Rightarrow> int \<Rightarrow> int \<Rightarrow> int \<Rightarrow> int \<Rightarrow> int \<Rightarrow> int \<Rightarrow> memory \<Rightarrow> memory outcome" where
  "stack_slice es out src_ptr N inner_size k sl m =
     obind (i32 (sl * inner_size)) (\<lambda>s. obind (i32 (sl * N)) (\<lambda>a. obind (i32 (a + k)) (\<lambda>b.
     obind (i32 (b * inner_size)) (\<lambda>d.
       Inr (memcpy (out + d * es) (src_ptr + s * es) (u64 (u64 inner_size * es)) m)))))"

definition stack_element ::
  "(nat \<Rightarrow> int) \<Rightarrow> int \<Rightarrow> int \<Rightarrow> view \<Rightarrow> int \<Rightarrow> view \<Rightarrow> int \<Rightarrow> memory \<Rightarrow> memory outcome" where
  "stack_element base es dim y k x j m =
     obind (unravel64 (v_shape x) j) (\<lambda>ii.
     obind (omap (vec_at ii) [0..dim - 1]) (\<lambda>pre. obind (omap (vec_at ii) (dims_from dim (v_shape x))) (\<lambda>post.
       assign_element base es y (pre @ k # post) x ii m)))"

definition StackOp_forward ::
  "(nat \<Rightarrow> int) \<Rightarrow> int \<Rightarrow> tensor list \<Rightarrow> tensor list \<Rightarrow> memory \<Rightarrow> memory outcome" where
  "StackOp_forward base opt_dim ts os m =
     obind (omap impl ts) (\<lambda>xs. obind (all_contiguous xs) (\<lambda>all_c. obind (inp ts 0) (\<lambda>x0.
       let rank = int (length (v_shape x0)); dim = (if opt_dim < 0 then opt_dim + (rank + 1) else opt_dim);
           N = int (length ts); ks = zip [0..N - 1] xs in
       if all_c then
         obind (int_product (v_shape x0) [0..dim - 1]) (\<lambda>num_slices.
         obind (int_product (v_shape x0) [dim..rank - 1]) (\<lambda>inner_size.
         obind (inp os 0) (\<lambda>y. case float_width (v_dtype y) of
             None \<Rightarrow> Inr m
           | Some es \<Rightarrow> ofold (\<lambda>(k, x). ofold (stack_slice es (out_addr base y) (out_addr base x) N inner_size k)
               [0..num_slices - 1]) ks m)))
       else
         obind (inp os 0) (\<lambda>y. case float_width (v_dtype y) of
             None \<Rightarrow> Inr m
           | Some es \<Rightarrow> ofold (\<lambda>(k, x). ofold (stack_element base es dim y k x) [0..numel x - 1]) ks m))))"

subsection \<open>GatherOp\<close>

text \<open>
  An IEEE single read as its 32 bits, converted to \<^verbatim>\<open>int64_t\<close>: the fraction is cut off, and the
  conversion is undefined for a number out of range, an infinity or a NaN.
\<close>

definition read_u32 :: "memory \<Rightarrow> int \<Rightarrow> int" where
  "read_u32 m p = uint (m p) + 2 ^ 8 * uint (m (p + 1)) + 2 ^ 16 * uint (m (p + 2)) + 2 ^ 24 * uint (m (p + 3))"

definition f32_to_i64 :: "int \<Rightarrow> int outcome" where
  "f32_to_i64 b =
     (let ex = b div 2 ^ 23 mod 2 ^ 8; mant = 2 ^ 23 + b mod 2 ^ 23;
          a = (if ex < 127 then 0
               else if ex \<le> 150 then mant div 2 ^ nat (150 - ex) else mant * 2 ^ nat (ex - 150));
          v = (if b div 2 ^ 31 = 0 then a else - a)
      in if ex = 255 then Inl Undefined else i64 v)"

definition gather_width :: "dtype \<Rightarrow> int" where
  "gather_width dt = (case float_width dt of Some w \<Rightarrow> w | None \<Rightarrow> 4)"

text \<open>The index read from an \<^verbatim>\<open>int32_t\<close> or a \<^verbatim>\<open>float\<close>; a negative one counts from the end.\<close>

definition gather_index :: "bool \<Rightarrow> int \<Rightarrow> int \<Rightarrow> int \<Rightarrow> memory \<Rightarrow> int outcome" where
  "gather_index is_int ip dim_size i m =
     obind (if is_int then Inr (read_i32 m (ip + i * 4)) else f32_to_i64 (read_u32 m (ip + i * 4))) (\<lambda>idx.
       if idx < 0 then i64 (idx + dim_size) else Inr idx)"

definition gather_step ::
  "int \<Rightarrow> int \<Rightarrow> int \<Rightarrow> (int \<Rightarrow> memory \<Rightarrow> int outcome) \<Rightarrow> int \<Rightarrow> int \<Rightarrow> int \<Rightarrow> int \<Rightarrow> int \<Rightarrow>
     memory \<Rightarrow> memory outcome" where
  "gather_step es tp yp index dim_size n_idx inner_size a i m =
     obind (index i m) (\<lambda>idx.
       if idx < 0 \<or> dim_size \<le> idx then Inr m
       else obind (i64 (a * dim_size)) (\<lambda>r. obind (i64 (r + idx)) (\<lambda>r1. obind (i64 (r1 * inner_size)) (\<lambda>s.
            obind (i64 (a * n_idx)) (\<lambda>q. obind (i64 (q + i)) (\<lambda>q1. obind (i64 (q1 * inner_size)) (\<lambda>d.
              Inr (memcpy (yp + to_i64 (u64 (d * es))) (tp + to_i64 (u64 (s * es))) (u64 (inner_size * es)) m))))))))"

definition GatherOp_forward ::
  "(nat \<Rightarrow> int) \<Rightarrow> int \<Rightarrow> tensor list \<Rightarrow> tensor list \<Rightarrow> memory \<Rightarrow> memory outcome" where
  "GatherOp_forward base opt_dim ts os m =
     obind (inp ts 0) (\<lambda>table. obind (inp ts 1) (\<lambda>indices. obind (inp os 0) (\<lambda>y.
       let dim = wrap_dim opt_dim (v_shape table) in
       obind (int64_product (v_shape table) [0..dim - 1]) (\<lambda>outer_size.
       obind (int64_product (v_shape table) (dims_from (dim + 1) (v_shape table))) (\<lambda>inner_size.
       obind (vec_at (v_shape table) dim) (\<lambda>dim_size.
         let n_idx = to_i64 (numel indices); es = gather_width (v_dtype table);
             is_int = (v_dtype indices = kInt32) in
         if \<not> is_int \<and> v_dtype indices \<noteq> kFloat32 then Inr m
         else ofold (\<lambda>a. ofold (gather_step es (out_addr base table) (out_addr base y)
                  (gather_index is_int (out_addr base indices) dim_size) dim_size n_idx inner_size a)
                [0..n_idx - 1]) [0..outer_size - 1] m))))))"

subsection \<open>What RepeatOp computes\<close>

lemma float_width_bytes: "float_width dt = Some w \<Longrightarrow> w = int (bytesOfType dt)"
  by (auto simp: float_width_def bytesOfType_def sizeof_def dtype_tables split: if_splits)

lemma u64_small: "0 \<le> a \<Longrightarrow> a \<le> n \<Longrightarrow> n < 2 ^ 31 \<Longrightarrow> u64 a = a"
  by (simp add: u64_id)

lemma numel_of_u64: "numel_of ds = u64 (prod_list ds)"
  by (rule numel_of_eq)

definition repeat_ready :: "(nat \<Rightarrow> int) \<Rightarrow> int \<times> int \<times> view \<times> view \<Rightarrow> bool" where
  "repeat_ready base = (\<lambda>(dim, n, x, y). packed x \<and> packed y \<and> 0 \<le> dim \<and> dim < int (length (v_shape x)) \<and>
     0 < n \<and> v_shape y = (v_shape x)[nat dim := v_shape x ! nat dim * n] \<and> v_dtype y = v_dtype x \<and>
     float_width (v_dtype x) \<noteq> None \<and> footprint base x \<inter> footprint base y = {})"

definition repeat_input :: "int \<times> int \<times> view \<times> view \<Rightarrow> picker" where
  "repeat_input = (\<lambda>(dim, n, x, y) oi. (x, oi[nat dim := oi ! nat dim div n]))"

lemma packed_shape: "packed v \<Longrightarrow> shape_ok (v_shape v)"
  by (simp add: packed_def)

lemma shape_dims: "shape_ok ds \<Longrightarrow> d \<in> set ds \<Longrightarrow> 0 < d"
  by (simp add: shape_ok_def)

lemma shape_at:
  assumes "0 \<le> dim" "dim < int (length ds)"
  obtains A D B where "ds = A @ D # B" "nat dim = length A"
proof (rule that)
  show "ds = take (nat dim) ds @ ds ! nat dim # drop (Suc (nat dim)) ds"
    using assms by (intro id_take_nth_drop) simp
  show "nat dim = length (take (nat dim) ds)" using assms by simp
qed

lemma shape_parts:
  assumes "shape_ok (A @ D # B)"
  shows "\<forall>d \<in> set A. 0 < d" "0 < D" "\<forall>d \<in> set B. 0 < d" "0 < prod_list A" "0 < prod_list B"
    "prod_list A \<le> prod_list A * (D * prod_list B)" "D \<le> prod_list A * (D * prod_list B)"
    "prod_list B \<le> prod_list A * (D * prod_list B)" "D * prod_list B \<le> prod_list A * (D * prod_list B)"
    "prod_list A * D \<le> prod_list A * (D * prod_list B)" "prod_list A * (D * prod_list B) < 2 ^ 31"
proof -
  show pos: "\<forall>d \<in> set A. 0 < d" "0 < D" "\<forall>d \<in> set B. 0 < d" using assms by (auto simp: shape_ok_def)
  then show P: "0 < prod_list A" "0 < prod_list B" by (simp_all add: prod_list_pos)
  have DB: "1 * prod_list B \<le> D * prod_list B" "D * 1 \<le> D * prod_list B" "1 \<le> D * prod_list B"
    using P pos mult_pos_pos [of D "prod_list B"]
    by (simp_all only: mult_right_mono mult_left_mono int_one_le_iff_zero_less less_imp_le)
  then have A: "1 * (D * prod_list B) \<le> prod_list A * (D * prod_list B)"
    using P by (intro mult_right_mono) linarith+
  show "prod_list A \<le> prod_list A * (D * prod_list B)"
    using mult_left_mono [OF DB(3), of "prod_list A"] P by simp
  show "D * prod_list B \<le> prod_list A * (D * prod_list B)" using A by simp
  then show "D \<le> prod_list A * (D * prod_list B)" "prod_list B \<le> prod_list A * (D * prod_list B)"
    using DB by linarith+
  show "prod_list A * D \<le> prod_list A * (D * prod_list B)" using DB(2) P by (intro mult_left_mono) simp_all
  show "prod_list A * (D * prod_list B) < 2 ^ 31" using assms by (simp add: shape_ok_def)
qed

lemma repeat_readyD:
  assumes "repeat_ready base (dim, n, x, y)"
  obtains A D B where "v_shape x = A @ D # B" "nat dim = length A" "v_shape y = A @ D * n # B"
    "packed x" "packed y" "0 < n" "v_dtype y = v_dtype x" "elem_size x = elem_size y"
    "footprint base x \<inter> footprint base y = {}"
proof -
  from assms have "0 \<le> dim" "dim < int (length (v_shape x))" by (simp_all add: repeat_ready_def)
  then obtain A D B where "v_shape x = A @ D # B" "nat dim = length A" by (rule shape_at)
  with assms that [of A D B] show ?thesis by (simp add: repeat_ready_def elem_size_def)
qed

lemma repeat_picks:
  assumes "repeat_ready base (dim, n, x, y)"
  shows "picks_ok base y (repeat_input (dim, n, x, y))"
proof -
  from assms obtain A D B where h: "v_shape x = A @ D # B" "nat dim = length A" "v_shape y = A @ D * n # B"
    "packed x" "packed y" "0 < n" "v_dtype y = v_dtype x" "footprint base x \<inter> footprint base y = {}"
    by (rule repeat_readyD) blast
  have "in_range (oi[nat dim := oi ! nat dim div n]) (v_shape x)" if oi: "in_range oi (v_shape y)" for oi
  proof -
    from oi h(3) obtain a i b where i: "oi = a @ i # b" "length a = length A" "in_range a A" "0 \<le> i"
      "i < D * n" "in_range b B" by (auto elim: in_range_split)
    then show ?thesis
      using h(1,2,6) by (simp add: in_range_mid pos_imp_zdiv_nonneg_iff int_div_less nth_append list_update_append)
  qed
  then show ?thesis using h by (simp add: picks_ok_def repeat_input_def packed_ok)
qed

lemma repeat_moves:
  assumes ok: "repeat_ready base (dim, n, x, y)"
    and xs: "v_shape x = A @ D # B" "nat dim = length A"
  shows "moves m0 (footprint base y) (pick base y (repeat_input (dim, n, x, y))) (footprint base y)
    (repeat_loops (elem_size y) (out_addr base x) (out_addr base y) (prod_list A) D (prod_list B) n)"
proof -
  let ?P = "prod_list A" and ?I = "prod_list B" and ?es = "elem_size y" and ?yp = "out_addr base y"
  let ?f = "repeat_input (dim, n, x, y)"
  have h: "packed x" "packed y" "0 < n" "v_shape y = A @ D * n # B" "elem_size x = ?es"
    using ok xs by (simp_all add: repeat_ready_def elem_size_def)
  have pos: "\<forall>d \<in> set A. 0 < d" "0 < D" "\<forall>d \<in> set B. 0 < d"
    using packed_shape [OF h(1)] xs by (auto simp: shape_ok_def)
  then have P: "0 < ?P" "0 < ?I" by (simp_all add: prod_list_pos)
  have N: "prod_list (v_shape y) = ?P * (D * (n * ?I))" by (simp add: h(4) ac_simps)
  have lt: "?P * (D * (n * ?I)) < 2 ^ 31" using packed_shape [OF h(2)] N by (simp add: shape_ok_def)
  have es: "0 < ?es" by (rule elem_size_bounds)
  have ap: "apart (pick base y ?f) (footprint base y)" by (rule apart_pick [OF repeat_picks [OF ok]])
  have c: "0 \<le> n * ?I" "0 \<le> D * (n * ?I)" "0 \<le> ?I" using P pos h(3) by simp_all
  have nI: "?I \<le> n * ?I" "D * ?I \<le> D * (n * ?I)" "D * n \<le> D * (n * ?I)" "n * ?I \<le> D * (n * ?I)"
    using P pos h(3) by simp_all
  have all: "D * (n * ?I) \<le> ?P * (D * (n * ?I))" using mult_right_mono [of 1 ?P] P c by simp
  have z0: "0 \<le> D * ?I" "0 \<le> D * n" using P pos h(3) by simp_all
  have steps: "u64 (D * ?I) = D * ?I" "u64 (D * n) = D * n" "u64 (D * n * ?I) = D * (n * ?I)"
    using nI all c z0 lt
    by (simp_all only: mult.assoc) (rule u64_small [of _ "?P * (D * (n * ?I))"]; linarith)+
  have "moves m0 (footprint base y) (pick base y ?f) (cells ?yp ?es 0 (?P * (D * (n * ?I))))
    (repeat_loops ?es (out_addr base x) ?yp ?P D ?I n)"
    unfolding repeat_loops_def Let_def steps
  proof (intro moves_loop [OF es _ ap] c)
    fix u d k assume u: "0 \<le> u" "u < ?P" and d: "0 \<le> d" "d < D" and k: "0 \<le> k" "k < n"
    note bu = block_le [OF u c(2)] and bd = block_le [OF d c(1)] and bk = block_le [OF k c(3)]
    show "moves m0 (footprint base y) (pick base y ?f) (cells ?yp ?es (0 + u * (D * (n * ?I)) + d * (n * ?I) + k * ?I) ?I)
      (\<lambda>m. Inr (memcpy (?yp + u64 (u * (D * (n * ?I))) * ?es + u64 (u64 (d * n) * ?I) * ?es + u64 (k * ?I) * ?es)
        (out_addr base x + u64 (u * (D * ?I)) * ?es + u64 (d * ?I) * ?es) (?I * ?es) m))"
    proof (rule pick_block [OF h(2)])
      let ?J = "0 + u * (D * (n * ?I)) + d * (n * ?I) + k * ?I"
      have "?J + ?I \<le> ?P * (D * (n * ?I))" using bu bd bk by linarith
      then show "?J + ?I \<le> prod_list (v_shape y)" by (simp only: N)
      show "0 \<le> ?J" using bu bd bk by linarith
      have z: "0 \<le> u * (D * ?I)" "0 \<le> d * ?I" "0 \<le> d * n" using u d h(3) P pos by simp_all
      have w: "u * (D * ?I) \<le> u * (D * (n * ?I))" "d * ?I \<le> d * (n * ?I)" "d * n \<le> d * (n * ?I)"
        using u d h(3) P pos nI by (auto intro!: mult_left_mono)
      have v: "u64 (u * (D * (n * ?I))) = u * (D * (n * ?I))" "u64 (d * n) = d * n"
        "u64 (d * n * ?I) = d * (n * ?I)" "u64 (k * ?I) = k * ?I" "u64 (u * (D * ?I)) = u * (D * ?I)"
        "u64 (d * ?I) = d * ?I"
        using bu bd bk z w lt all c nI
        by (simp_all only: mult.assoc) (rule u64_small [of _ "?P * (D * (n * ?I))"]; linarith)+
      show "?yp + u64 (u * (D * (n * ?I))) * ?es + u64 (u64 (d * n) * ?I) * ?es + u64 (k * ?I) * ?es =
          ?yp + ?J * ?es"
        by (simp add: v distrib_right)
      fix t assume t: "0 \<le> t" "t < ?I"
      let ?a = "unflat A u" and ?b = "unflat B t"
      have a: "in_range ?a A" "flat ?a A = u" using unflat_range [OF pos(1) u] by simp_all
      have b: "in_range ?b B" "flat ?b B = t" using unflat_range [OF pos(3) t] by simp_all
      have i: "0 \<le> d * n + k" "d * n + k < D * n" using d k block_le [OF d, of n] h(3) by simp_all
      have f: "?f (?a @ (d * n + k) # ?b) = (x, ?a @ d # ?b)"
        using k by (simp add: repeat_input_def xs(2) list_update_append nth_append div_add1_eq)
      show "\<exists>oi. in_range oi (v_shape y) \<and> flat oi (v_shape y) = ?J + t \<and> pick_addr base ?f oi =
          out_addr base x + u64 (u * (D * ?I)) * ?es + u64 (d * ?I) * ?es + t * ?es"
      proof (intro exI conjI)
        show "in_range (?a @ (d * n + k) # ?b) (v_shape y)" using a b i by (simp add: h(4) in_range_mid)
        show "flat (?a @ (d * n + k) # ?b) (v_shape y) = ?J + t"
          using a b by (simp add: h(4) flat_at3 at3_def algebra_simps)
        have "pick_addr base ?f (?a @ (d * n + k) # ?b) = out_addr base x + ((u * D + d) * ?I + t) * ?es"
          using a b unfolding pick_addr_def f by (simp add: packed_addr [OF h(1)] xs(1) h(5) flat_at3 at3_def)
        then show "pick_addr base ?f (?a @ (d * n + k) # ?b) =
            out_addr base x + u64 (u * (D * ?I)) * ?es + u64 (d * ?I) * ?es + t * ?es"
          unfolding v by (simp add: algebra_simps)
      qed
    qed simp
  qed
  then show ?thesis using packed_cells [OF h(2)] N by simp
qed

lemma repeat_runs:
  assumes ok: "repeat_ready base (dim, n, x, y)" and n: "n < 2 ^ 31"
  shows "RepeatOp_forward base dim n [Some x] [Some y] =
    repeat_loops (elem_size y) (out_addr base x) (out_addr base y) (prod_list (take (nat dim) (v_shape x)))
      (v_shape x ! nat dim) (prod_list (drop (Suc (nat dim)) (v_shape x))) n"
proof -
  from ok obtain A D B where h: "v_shape x = A @ D # B" "nat dim = length A" "packed x" "0 < n"
    "v_dtype y = v_dtype x"
    by (rule repeat_readyD) blast
  have "shape_ok (A @ D # B)" using packed_shape [OF h(3)] h(1) by simp
  note s = shape_parts [OF this]
  have u: "u64 (prod_list A) = prod_list A" "u64 (prod_list B) = prod_list B" "u64 D = D"
    using s by (auto intro!: u64_small [of _ "prod_list A * (D * prod_list B)"])
  from ok obtain w where w: "float_width (v_dtype x) = Some w" "0 \<le> dim" "dim < int (length (v_shape x))"
    by (auto simp: repeat_ready_def)
  have "w = elem_size y" using float_width_bytes [OF w(1)] h(5) by (simp add: elem_size_def)
  moreover have "u64 n = n" using h(4) n by (simp add: u64_def)
  ultimately show ?thesis using w u
    by (simp add: fun_eq_iff RepeatOp_forward_def inp_def impl_def h(1,2) numel_of_eq)
qed

definition repeat_fits :: "(nat \<Rightarrow> int) \<Rightarrow> int \<times> int \<times> view \<times> view \<Rightarrow> bool" where
  "repeat_fits base c \<longleftrightarrow> repeat_ready base c \<and> fst (snd c) < 2 ^ 31"

interpretation repeat_kernel: element_kernel "\<lambda>base c m. repeat_fits base c" "\<lambda>(dim, n, x, y). y" repeat_input
  "\<lambda>base (dim, n, x, y). RepeatOp_forward base dim n [Some x] [Some y]"
proof unfold_locales
  fix base and c :: "int \<times> int \<times> view \<times> view" and m
  obtain dim n x y where c: "c = (dim, n, x, y)" by (cases c) auto
  assume "repeat_fits base c"
  then have ok: "repeat_ready base (dim, n, x, y)" "n < 2 ^ 31" by (simp_all add: repeat_fits_def c)
  then show "picks_ok base (case c of (dim, n, x, y) \<Rightarrow> y) (repeat_input c)" by (simp add: c repeat_picks)
  from ok(1) obtain A D B where "v_shape x = A @ D # B" "nat dim = length A" by (rule repeat_readyD)
  with repeat_moves [OF ok(1) this, of m] repeat_runs [OF ok]
  show "moves m (footprint base (case c of (dim, n, x, y) \<Rightarrow> y))
      (pick base (case c of (dim, n, x, y) \<Rightarrow> y) (repeat_input c))
      (footprint base (case c of (dim, n, x, y) \<Rightarrow> y))
      ((case c of (dim, n, x, y) \<Rightarrow> RepeatOp_forward base dim n [Some x] [Some y]))"
    by (simp add: c)
qed

subsection \<open>Bands along a dimension\<close>

text \<open>The positions of the elements whose index in the middle dimension is in \<open>[lo, hi)\<close>.\<close>

definition band :: "int \<Rightarrow> int \<Rightarrow> int \<Rightarrow> int \<Rightarrow> int \<Rightarrow> int set" where
  "band P T I lo hi = {at3 T I u i b | u i b. 0 \<le> u \<and> u < P \<and> lo \<le> i \<and> i < hi \<and> 0 \<le> b \<and> b < I}"

lemma band_Un: "lo \<le> mid \<Longrightarrow> mid \<le> hi \<Longrightarrow> band P T I lo mid \<union> band P T I mid hi = band P T I lo hi"
proof (intro set_eqI iffI)
  fix j assume le: "lo \<le> mid" "mid \<le> hi"
  show "j \<in> band P T I lo hi" if "j \<in> band P T I lo mid \<union> band P T I mid hi"
    using that le unfolding band_def by fastforce
  show "j \<in> band P T I lo mid \<union> band P T I mid hi" if "j \<in> band P T I lo hi"
  proof -
    from that obtain u i b where j: "j = at3 T I u i b" "0 \<le> u" "u < P" "lo \<le> i" "i < hi" "0 \<le> b" "b < I"
      unfolding band_def by blast
    then have "j \<in> band P T I lo mid" if "i < mid" using that unfolding band_def by blast
    moreover have "j \<in> band P T I mid hi" if "mid \<le> i"
      using that j unfolding band_def by blast
    ultimately show ?thesis by force
  qed
qed

lemma band_empty: "hi \<le> lo \<Longrightarrow> band P T I lo hi = {}"
  by (auto simp: band_def)

lemma band_all:
  assumes "0 < T" "0 < I"
  shows "band P T I 0 T = {0 ..< P * (T * I)}"
proof (intro set_eqI iffI)
  fix j assume "j \<in> band P T I 0 T"
  then obtain u i b where j: "j = at3 T I u i b" "0 \<le> u" "u < P" "0 \<le> i" "i < T" "0 \<le> b" "b < I"
    by (auto simp: band_def)
  have "u * T + i < P * T" "0 \<le> u * T + i" using block_le [of u P T] j by simp_all
  from block_le [OF this(2,1), of I] j show "j \<in> {0 ..< P * (T * I)}"
    by (simp add: at3_def mult.assoc)
next
  fix j assume j: "j \<in> {0 ..< P * (T * I)}"
  let ?u = "j div I div T" and ?i = "j div I mod T" and ?b = "j mod I"
  have "j div I < P * T" using j assms(2) by (simp add: int_div_less ac_simps)
  then have "?u < P" using assms(1) by (simp add: int_div_less)
  moreover have "0 \<le> ?u" "0 \<le> ?i" "?i < T" "0 \<le> ?b" "?b < I"
    using j assms by (simp_all add: pos_imp_zdiv_nonneg_iff)
  moreover have "j = at3 T I ?u ?i ?b" by (simp add: at3_def)
  ultimately show "j \<in> band P T I 0 T" unfolding band_def by blast
qed

text \<open>In one slice of the leading dimensions the band is a block of consecutive elements.\<close>

lemma band_slice:
  assumes "0 < I"
  shows "{u * (T * I) + lo * I ..< u * (T * I) + lo * I + c * I} =
    {at3 T I u i b | i b. lo \<le> i \<and> i < lo + c \<and> 0 \<le> b \<and> b < I}"
proof (intro set_eqI iffI)
  fix j assume j: "j \<in> {u * (T * I) + lo * I ..< u * (T * I) + lo * I + c * I}"
  let ?t = "j - (u * (T * I) + lo * I)"
  have "j = at3 T I u (lo + ?t div I) (?t mod I)"
    using div_mult_mod_eq [of ?t I] by (simp add: at3_def algebra_simps)
  moreover have "0 \<le> ?t div I" "?t div I < c" "0 \<le> ?t mod I" "?t mod I < I"
    using j assms by (simp_all add: pos_imp_zdiv_nonneg_iff int_div_less)
  ultimately show "j \<in> {at3 T I u i b | i b. lo \<le> i \<and> i < lo + c \<and> 0 \<le> b \<and> b < I}" by force
next
  fix j assume "j \<in> {at3 T I u i b | i b. lo \<le> i \<and> i < lo + c \<and> 0 \<le> b \<and> b < I}"
  then obtain i b where j: "j = at3 T I u i b" "lo \<le> i" "i < lo + c" "0 \<le> b" "b < I" by blast
  have "0 \<le> (i - lo) * I" "(i - lo) * I + I \<le> c * I" using block_le [of "i - lo" c I] j assms by simp_all
  moreover have "j = u * (T * I) + lo * I + (i - lo) * I + b" by (simp add: j(1) at3_def algebra_simps)
  ultimately show "j \<in> {u * (T * I) + lo * I ..< u * (T * I) + lo * I + c * I}" using j by simp
qed

lemma band_slices:
  assumes "0 < I"
  shows "(\<Union>u \<in> set [0..P - 1]. {u * (T * I) + lo * I ..< u * (T * I) + lo * I + c * I}) =
    band P T I lo (lo + c)"
  unfolding band_slice [OF assms]
proof (intro set_eqI iffI)
  fix j assume "j \<in> band P T I lo (lo + c)"
  then obtain u i b where j: "j = at3 T I u i b" "0 \<le> u" "u < P" "lo \<le> i" "i < lo + c" "0 \<le> b" "b < I"
    unfolding band_def by blast
  then have "u \<in> set [0..P - 1]" by simp
  with j show "j \<in> (\<Union>u \<in> set [0..P - 1]. {at3 T I u i b | i b. lo \<le> i \<and> i < lo + c \<and> 0 \<le> b \<and> b < I})"
    by blast
qed (auto simp: band_def, blast)

lemma unravel64_rev_rdot:
  "in_range is ds \<Longrightarrow> \<forall>d \<in> set ds. d < 2 ^ 31 \<Longrightarrow> unravel64_rev ds (rdot is ds) = Inr is"
proof (induction "is" ds rule: list_induct2')
  case (4 i "is" d ds)
  then have d: "0 \<le> i" "i < d" "d < 2 ^ 31" and r: "in_range is ds" by auto
  have n: "0 \<le> i + d * rdot is ds" using d rdot_nonneg [OF r] by simp
  have "(i + d * rdot is ds) div d = rdot is ds" "(i + d * rdot is ds) mod d = i"
    using d by (simp_all add: div_add1_eq)
  then have "(i + d * rdot is ds) sdiv d = rdot is ds" "(i + d * rdot is ds) smod d = i"
    using d n sdiv_nonneg [OF n, of d] smod_sdiv_mult_eq [of "i + d * rdot is ds" d]
    by (simp_all add: minus_mult_div_eq_mod [symmetric] mult.commute)
  moreover have "to_i32 i = i" using d by (simp add: to_i32_def)
  ultimately show ?case using 4 d r by simp
qed auto

lemma unravel64_unflat:
  assumes "shape_ok ds" "0 \<le> t" "t < prod_list ds"
  shows "unravel64 ds t = Inr (unflat ds t)"
proof -
  have r: "in_range (unflat ds t) ds" "flat (unflat ds t) ds = t"
    using assms by (intro unflat_range; simp add: shape_ok_def)+
  have "unravel64_rev (rev ds) (rdot (rev (unflat ds t)) (rev ds)) = Inr (rev (unflat ds t))"
    using r(1) dims_bounded [OF assms(1)] by (intro unravel64_rev_rdot) (simp_all add: in_range_rev)
  then show ?thesis by (simp add: unravel64_def rdot_rev [OF r(1)] r(2))
qed

subsection \<open>What ConcatOp computes\<close>

text \<open>The input that holds position \<open>i\<close> of the joined dimension, and the position in it.\<close>

fun locate :: "int list \<Rightarrow> int \<Rightarrow> nat \<times> int" where
  "locate [] i = (0, i)"
| "locate (c # cs) i = (if i < c then (0, i) else (Suc (fst (locate cs (i - c))), snd (locate cs (i - c))))"

lemma locate_range:
  "0 \<le> i \<Longrightarrow> i < sum_list cs \<Longrightarrow> fst (locate cs i) < length cs \<and> 0 \<le> snd (locate cs i) \<and>
     snd (locate cs i) < cs ! fst (locate cs i)"
  by (induction cs i rule: locate.induct) auto

lemma locate_at:
  "k < length cs \<Longrightarrow> \<forall>c \<in> set cs. 0 \<le> c \<Longrightarrow> 0 \<le> r \<Longrightarrow> r < cs ! k \<Longrightarrow>
     locate cs (sum_list (take k cs) + r) = (k, r)"
proof (induction cs arbitrary: k)
  case (Cons c cs)
  show ?case
  proof (cases k)
    case (Suc j)
    have "0 \<le> sum_list (take j cs)" using Cons.prems(2) by (intro sum_list_nonneg) (auto dest: in_set_takeD)
    with Suc Cons.IH [of j] Cons.prems show ?thesis by simp
  qed (use Cons.prems in simp)
qed simp

definition concat_ready :: "(nat \<Rightarrow> int) \<Rightarrow> int \<times> view list \<times> view \<Rightarrow> bool" where
  "concat_ready base = (\<lambda>(dim, xs, y). xs \<noteq> [] \<and> packed y \<and> float_width (v_dtype y) \<noteq> None \<and>
     (let d = wrap_dim dim (v_shape (hd xs)) in
      0 \<le> d \<and> d < int (length (v_shape (hd xs))) \<and>
      v_shape y = (v_shape (hd xs))[nat d := (\<Sum>x \<leftarrow> xs. v_shape x ! nat d)] \<and>
      (\<forall>x \<in> set xs. view_ok x \<and> v_dtype x = v_dtype y \<and> footprint base x \<inter> footprint base y = {} \<and>
        v_shape x = (v_shape (hd xs))[nat d := v_shape x ! nat d])))"

definition concat_input :: "int \<times> view list \<times> view \<Rightarrow> picker" where
  "concat_input = (\<lambda>(dim, xs, y) oi.
     let d = nat (wrap_dim dim (v_shape (hd xs))); (k, i) = locate (map (\<lambda>x. v_shape x ! d) xs) (oi ! d)
     in (xs ! k, oi[d := i]))"

lemma concat_readyD:
  assumes "concat_ready base (dim, xs, y)"
  obtains A B where "nat (wrap_dim dim (v_shape (hd xs))) = length A" "0 \<le> wrap_dim dim (v_shape (hd xs))"
    "\<And>x. x \<in> set xs \<Longrightarrow> v_shape x = A @ v_shape x ! length A # B"
    "v_shape y = A @ (\<Sum>x \<leftarrow> xs. v_shape x ! length A) # B"
    "\<And>x. x \<in> set xs \<Longrightarrow> view_ok x \<and> v_dtype x = v_dtype y \<and> footprint base x \<inter> footprint base y = {}"
    "packed y" "xs \<noteq> []" "float_width (v_dtype y) = Some (elem_size y)"
proof -
  let ?d = "wrap_dim dim (v_shape (hd xs))"
  have d: "0 \<le> ?d" "?d < int (length (v_shape (hd xs)))" using assms by (simp_all add: concat_ready_def Let_def)
  then obtain A D B where s: "v_shape (hd xs) = A @ D # B" "nat ?d = length A" by (rule shape_at)
  have sx: "v_shape x = A @ v_shape x ! length A # B" if x: "x \<in> set xs" for x
  proof -
    have "v_shape x = (v_shape (hd xs))[length A := v_shape x ! length A]"
      using assms x by (simp add: concat_ready_def Let_def s(2))
    also have "\<dots> = A @ v_shape x ! length A # B" unfolding s(1) by simp
    finally show ?thesis .
  qed
  have sy: "v_shape y = A @ (\<Sum>x \<leftarrow> xs. v_shape x ! length A) # B"
  proof -
    have "v_shape y = (v_shape (hd xs))[length A := (\<Sum>x \<leftarrow> xs. v_shape x ! length A)]"
      using assms by (simp add: concat_ready_def Let_def s(2))
    then show ?thesis unfolding s(1) by simp
  qed
  have fw: "float_width (v_dtype y) = Some (elem_size y)"
    using assms float_width_bytes [of "v_dtype y"] by (auto simp: concat_ready_def elem_size_def)
  show thesis by (rule that [OF s(2) d(1) sx sy _ _ _ fw]) (use assms in \<open>auto simp: concat_ready_def Let_def\<close>)
qed

lemma concat_input_at:
  assumes "nat (wrap_dim dim (v_shape (hd xs))) = length A" "length a = length A"
  shows "concat_input (dim, xs, y) (a @ i # b) =
    (let (k, i') = locate (map (\<lambda>x. v_shape x ! length A) xs) i in (xs ! k, a @ i' # b))"
proof -
  have "(a @ i # b) ! length A = i" "(a @ i # b)[length A := i'] = a @ i' # b" for i'
    by (simp_all flip: assms(2))
  then show ?thesis by (simp add: concat_input_def Let_def split_def assms(1))
qed

lemma concat_picks:
  assumes ok: "concat_ready base (dim, xs, y)"
  shows "picks_ok base y (concat_input (dim, xs, y))"
proof -
  from ok obtain A B where h: "nat (wrap_dim dim (v_shape (hd xs))) = length A"
    "\<And>x. x \<in> set xs \<Longrightarrow> v_shape x = A @ v_shape x ! length A # B"
    "v_shape y = A @ (\<Sum>x \<leftarrow> xs. v_shape x ! length A) # B"
    "\<And>x. x \<in> set xs \<Longrightarrow> view_ok x \<and> v_dtype x = v_dtype y \<and> footprint base x \<inter> footprint base y = {}"
    "packed y"
    by (rule concat_readyD) blast
  let ?cs = "map (\<lambda>x. v_shape x ! length A) xs"
  have "view_ok (fst (concat_input (dim, xs, y) oi)) \<and>
      in_range (snd (concat_input (dim, xs, y) oi)) (v_shape (fst (concat_input (dim, xs, y) oi))) \<and>
      v_dtype (fst (concat_input (dim, xs, y) oi)) = v_dtype y \<and>
      footprint base (fst (concat_input (dim, xs, y) oi)) \<inter> footprint base y = {}"
    if oi: "in_range oi (v_shape y)" for oi
  proof -
    from oi h(3) obtain a i b where i: "oi = a @ i # b" "length a = length A" "in_range a A" "0 \<le> i"
      "i < sum_list ?cs" "in_range b B" by (auto elim: in_range_split)
    let ?k = "fst (locate ?cs i)" and ?r = "snd (locate ?cs i)"
    have k: "?k < length xs" "0 \<le> ?r" "?r < v_shape (xs ! ?k) ! length A"
      using locate_range [OF i(4,5)] by auto
    then have m: "xs ! ?k \<in> set xs" by simp
    have "in_range (a @ ?r # b) (v_shape (xs ! ?k))"
      by (subst h(2) [OF m]) (use i k in \<open>simp add: in_range_mid\<close>)
    then show ?thesis using h(4) [OF m] by (simp add: i(1) concat_input_at [OF h(1) i(2)] split_def Let_def)
  qed
  then show ?thesis using h(5) by (simp add: picks_ok_def)
qed

lemma i32_small: "0 \<le> a \<Longrightarrow> a \<le> n \<Longrightarrow> n < 2 ^ 31 \<Longrightarrow> i32 a = Inr a"
  by (simp add: i32_def)

lemma flat_concat:
  assumes "length a = length A" "v_shape y = A @ T # B"
  shows "flat (a @ i # b) (v_shape y) = at3 T (prod_list B) (flat a A) i (flat b B)"
  by (simp add: assms(2) flat_at3 [OF assms(1)])

text \<open>One slice of one input, and one element of one input, land where \<open>concat_input\<close> says.\<close>

lemma concat_slice_moves:
  assumes ok: "concat_ready base (dim, xs, y)"
    and d: "nat (wrap_dim dim (v_shape (hd xs))) = length A"
    and sx: "\<And>x. x \<in> set xs \<Longrightarrow> v_shape x = A @ v_shape x ! length A # B"
    and sy: "v_shape y = A @ T # B" "T = (\<Sum>x \<leftarrow> xs. v_shape x ! length A)"
    and k: "k < length xs" "x = xs ! k" "c = v_shape x ! length A" "packed x"
    and off: "off = (\<Sum>x \<leftarrow> take k xs. v_shape x ! length A)"
    and sl: "0 \<le> sl" "sl < prod_list A"
  shows "moves m0 (footprint base y) (pick base y (concat_input (dim, xs, y)))
    (cells (out_addr base y) (elem_size y) (sl * (T * prod_list B) + off * prod_list B) (c * prod_list B))
    (concat_slice (elem_size y) (out_addr base y) (out_addr base x) T (prod_list B) off (c * prod_list B) sl)"
proof -
  let ?I = "prod_list B" and ?es = "elem_size y" and ?f = "concat_input (dim, xs, y)"
  let ?cs = "map (\<lambda>x. v_shape x ! length A) xs" and ?N = "prod_list A * (T * prod_list B)"
  have y: "packed y" using ok by (simp add: concat_ready_def)
  have x: "x \<in> set xs" using k by simp
  have sx': "v_shape x = A @ c # B" using sx [OF x] k by simp
  have dt: "elem_size x = ?es" using ok x by (auto simp: concat_ready_def Let_def elem_size_def)
  note s = shape_parts [of A T B, folded sy(1), OF packed_shape [OF y]]
    and sc = shape_parts [of A c B, folded sx', OF packed_shape [OF k(4)]]
  have c0: "\<forall>c \<in> set ?cs. 0 \<le> c"
  proof
    fix e assume "e \<in> set ?cs"
    then obtain z where z: "z \<in> set xs" "e = v_shape z ! length A" by auto
    then have "view_ok z" using ok by (auto simp: concat_ready_def Let_def)
    then have "shape_ok (A @ e # B)" using sx [OF z(1)] z(2) by (simp add: view_ok_def)
    then show "0 \<le> e" by (auto dest: shape_parts(2))
  qed
  have off0: "off = sum_list (take k ?cs)" by (simp add: off take_map)
  have T: "T = sum_list (take k ?cs) + c + sum_list (drop (Suc k) ?cs)"
    using id_take_nth_drop [of k ?cs] k by (metis (no_types) add.assoc length_map nth_map sum_list.Cons sum_list.append sy(2))
  have "0 \<le> sum_list (take k ?cs)" by (rule sum_list_nonneg) (use c0 in \<open>blast dest: in_set_takeD\<close>)
  moreover have "0 \<le> sum_list (drop (Suc k) ?cs)"
    by (rule sum_list_nonneg) (use c0 in \<open>blast dest: in_set_dropD\<close>)
  ultimately have b: "0 \<le> off" "off + c \<le> T" using T off0 by simp_all
  have I: "0 < ?I" "0 \<le> T * ?I" using s by simp_all
  have oI: "0 \<le> off * ?I" "off * ?I + c * ?I \<le> T * ?I" "0 \<le> c * ?I"
    using b I mult_right_mono [of "off + c" T ?I] sc(2) by (simp_all add: distrib_right)
  note bs = block_le [OF sl I(2)]
  have slc: "0 \<le> sl * (c * ?I)" "sl * (c * ?I) \<le> sl * (T * ?I)"
    using sl oI by (auto intro!: mult_left_mono)
  have J: "sl * (T * ?I) + off * ?I + c * ?I \<le> ?N" using bs oI by linarith
  have i: "i32 (sl * (c * ?I)) = Inr (sl * (c * ?I))" "i32 (T * ?I) = Inr (T * ?I)"
    "i32 (sl * (T * ?I)) = Inr (sl * (T * ?I))" "i32 (off * ?I) = Inr (off * ?I)"
    using slc bs oI I s(9,11) by (rule_tac i32_small [of _ ?N]; linarith)+
  have es: "0 < ?es" "?es \<le> 292" by (rule elem_size_bounds)+
  have ci: "u64 (c * ?I) = c * ?I" using oI J bs s(11) by (intro u64_small [of _ ?N]) auto
  have "c * ?I * ?es \<le> 2 ^ 31 * 292" using oI J bs s(11) es by (intro mult_mono) auto
  then have u: "u64 (u64 (c * ?I) * ?es) = c * ?I * ?es" unfolding ci using oI es by (simp add: u64_id)
  have "moves m0 (footprint base y) (pick base y ?f)
      (cells (out_addr base y) ?es (sl * (T * ?I) + off * ?I) (c * ?I))
      (\<lambda>m. Inr (memcpy (out_addr base y + sl * (T * ?I) * ?es + off * ?I * ?es)
        (out_addr base x + sl * (c * ?I) * ?es) (c * ?I * ?es) m))"
  proof (rule pick_block [OF y])
    show "0 \<le> sl * (T * ?I) + off * ?I" using bs oI by simp
    show "sl * (T * ?I) + off * ?I + c * ?I \<le> prod_list (v_shape y)" using J by (simp add: sy(1) prod_list_append)
    fix t assume t: "0 \<le> t" "t < c * ?I"
    let ?i = "t div ?I" and ?a = "unflat A sl" and ?b = "unflat B (t mod ?I)"
    have i: "0 \<le> ?i" "?i < c" using t I by (simp_all add: pos_imp_zdiv_nonneg_iff int_div_less)
    have a: "in_range ?a A" "flat ?a A = sl" using unflat_range [OF s(1) sl] by simp_all
    have b': "in_range ?b B" "flat ?b B = t mod ?I"
      using unflat_range [OF s(3), of "t mod ?I"] I by simp_all
    have "locate ?cs (off + ?i) = (k, ?i)" unfolding off0 using k i c0 by (intro locate_at) simp_all
    then have f: "?f (?a @ (off + ?i) # ?b) = (x, ?a @ ?i # ?b)"
      by (simp add: concat_input_at [OF d] k(2))
    show "\<exists>oi. in_range oi (v_shape y) \<and> flat oi (v_shape y) = sl * (T * ?I) + off * ?I + t \<and>
        pick_addr base ?f oi = out_addr base x + sl * (c * ?I) * ?es + t * ?es"
    proof (intro exI conjI)
      show "in_range (?a @ (off + ?i) # ?b) (v_shape y)" using a b' i b by (simp add: sy(1) in_range_mid)
      show "flat (?a @ (off + ?i) # ?b) (v_shape y) = sl * (T * ?I) + off * ?I + t"
        using a b' div_mult_mod_eq [of t ?I] by (simp add: sy(1) flat_at3 at3_def algebra_simps)
      have "pick_addr base ?f (?a @ (off + ?i) # ?b) = out_addr base x + (sl * (c * ?I) + (?i * ?I + t mod ?I)) * ?es"
        using a b' unfolding pick_addr_def f
        by (simp add: packed_addr [OF k(4)] sx' dt flat_at3 at3_def algebra_simps)
      then show "pick_addr base ?f (?a @ (off + ?i) # ?b) = out_addr base x + sl * (c * ?I) * ?es + t * ?es"
        by (simp only: div_mult_mod_eq distrib_right add.assoc)
    qed
  qed (simp_all add: distrib_right add.assoc)
  then show ?thesis by (simp add: moves_def concat_slice_def i u)
qed

lemma concat_off_split:
  assumes "xs = ys @ x # zs"
  shows "length ys < length xs" "xs ! length ys = x" "take (length ys) xs = ys"
  using assms by simp_all

text \<open>The contiguous path, from any input on.\<close>

lemma concat_blocks_moves:
  assumes ok: "concat_ready base (dim, xs, y)"
    and d: "nat (wrap_dim dim (v_shape (hd xs))) = length A" "0 \<le> wrap_dim dim (v_shape (hd xs))"
    and sx: "\<And>x. x \<in> set xs \<Longrightarrow> v_shape x = A @ v_shape x ! length A # B"
    and sy: "v_shape y = A @ T # B" "T = (\<Sum>x \<leftarrow> xs. v_shape x ! length A)"
    and p: "\<forall>x \<in> set xs. packed x"
  shows "xs = ys @ zs \<Longrightarrow> off = (\<Sum>x \<leftarrow> ys. v_shape x ! length A) \<Longrightarrow>
    moves m0 (footprint base y) (pick base y (concat_input (dim, xs, y)))
      (elems (out_addr base y) (elem_size y) (band (prod_list A) T (prod_list B) off T))
      (concat_blocks base (elem_size y) (out_addr base y) (wrap_dim dim (v_shape (hd xs))) (prod_list B)
        (prod_list A) T zs off)"
proof (induction zs arbitrary: ys off)
  case Nil
  then have "off = T" by (simp add: sy(2))
  then show ?case by (simp add: band_empty elems_def moves_skip [unfolded moves_def] moves_def moved_def)
next
  case (Cons x zs)
  let ?f = "concat_input (dim, xs, y)" and ?I = "prod_list B" and ?P = "prod_list A" and ?es = "elem_size y"
  let ?c = "v_shape x ! length A" and ?D = "footprint base y" and ?p = "out_addr base y"
  have y: "packed y" using ok by (simp add: concat_ready_def)
  note k = concat_off_split [OF Cons.prems(1)]
  have x: "x \<in> set xs" "packed x" using k p by auto
  have ap: "apart (pick base y ?f) ?D" by (rule apart_pick [OF concat_picks [OF ok]])
  have I: "0 < ?I" using shape_parts(5) [of A T B] packed_shape [OF y] sy(1) by simp
  have nn: "0 \<le> v_shape z ! length A" if "z \<in> set xs" for z
  proof -
    have "shape_ok (A @ v_shape z ! length A # B)" using sx [OF that] packed_shape p that by metis
    then show ?thesis by (auto dest: shape_parts(2))
  qed
  have off: "0 \<le> off" unfolding Cons.prems(2) by (rule sum_list_nonneg) (use nn Cons.prems(1) in auto)
  have T: "T = off + ?c + (\<Sum>x \<leftarrow> zs. v_shape x ! length A)" by (simp add: sy(2) Cons.prems)
  have rest: "0 \<le> (\<Sum>x \<leftarrow> zs. v_shape x ! length A)" by (rule sum_list_nonneg) (use nn Cons.prems(1) in auto)
  have c: "0 \<le> ?c" using nn [OF x(1)] .
  have "moves m0 ?D (pick base y ?f) (\<Union>u \<in> set [0..?P - 1]. elems ?p ?es
      {u * (T * ?I) + off * ?I ..< u * (T * ?I) + off * ?I + ?c * ?I})
    (ofold (concat_slice ?es ?p (out_addr base x) T ?I off (?c * ?I)) [0..?P - 1])"
  proof (rule moves_ofold [OF _ ap])
    fix u assume "u \<in> set [0..?P - 1]"
    then have u: "0 \<le> u" "u < ?P" by auto
    have "moves m0 ?D (pick base y ?f) (cells ?p ?es (u * (T * ?I) + off * ?I) (?c * ?I))
        (concat_slice ?es ?p (out_addr base x) T ?I off (?c * ?I) u)"
      by (rule concat_slice_moves [OF ok d(1) sx sy k(1) k(2)[symmetric] refl x(2) _ u])
        (simp_all add: k(3) Cons.prems(2))
    then show "moves m0 ?D (pick base y ?f)
        (elems ?p ?es {u * (T * ?I) + off * ?I ..< u * (T * ?I) + off * ?I + ?c * ?I})
        (concat_slice ?es ?p (out_addr base x) T ?I off (?c * ?I) u)"
      by (simp only: elems_cells [OF elem_size_bounds(1)])
  qed
  then have one: "moves m0 ?D (pick base y ?f) (elems ?p ?es (band ?P T ?I off (off + ?c)))
    (ofold (concat_slice ?es ?p (out_addr base x) T ?I off (?c * ?I)) [0..?P - 1])"
    by (simp only: elems_UN band_slices [OF I])
  have "moves m0 ?D (pick base y ?f) (elems ?p ?es (band ?P T ?I (off + ?c) T))
    (concat_blocks base ?es ?p (wrap_dim dim (v_shape (hd xs))) ?I ?P T zs (off + ?c))"
    by (rule Cons.IH [of "ys @ [x]"]) (simp_all add: Cons.prems)
  from moves_seq [OF one this ap] have both: "moves m0 ?D (pick base y ?f)
      (elems ?p ?es (band ?P T ?I off T))
      (\<lambda>m. obind (ofold (concat_slice ?es ?p (out_addr base x) T ?I off (?c * ?I)) [0..?P - 1] m)
        (concat_blocks base ?es ?p (wrap_dim dim (v_shape (hd xs))) ?I ?P T zs (off + ?c)))"
    using T c rest by (simp add: elems_Un band_Un)
  have "shape_ok (A @ T # B)" using packed_shape [OF y] sy(1) by simp
  note s = shape_parts [OF this]
  have at: "vec_at (v_shape x) (wrap_dim dim (v_shape (hd xs))) = Inr ?c"
    using d by (subst (1 2) sx [OF x(1)]) (simp add: vec_at_def nat_eq_iff)
  have "?c * ?I \<le> T * ?I" using T off rest I by (intro mult_right_mono) simp_all
  then have i: "i32 (?c * ?I) = Inr (?c * ?I)" using mult_nonneg_nonneg [OF c, of ?I] I s(9,11)
    by (intro i32_small [of _ "?P * (T * ?I)"]) linarith+
  have o: "i32 (off + ?c) = Inr (off + ?c)" using T off rest c s(7,11)
    by (intro i32_small [of _ "?P * (T * ?I)"]) linarith+
  from both show ?case by (simp add: at i o)
qed

lemma ofold_Cons: "ofold f (x # xs) = (\<lambda>s. obind (f x s) (ofold f xs))"
  by (rule ext) simp

text \<open>The element-wise path, from any input on.\<close>

lemma concat_element_moves:
  assumes ok: "concat_ready base (dim, xs, y)"
    and d: "nat (wrap_dim dim (v_shape (hd xs))) = length A" "0 \<le> wrap_dim dim (v_shape (hd xs))"
    and sx: "\<And>x. x \<in> set xs \<Longrightarrow> v_shape x = A @ v_shape x ! length A # B"
    and sy: "v_shape y = A @ T # B" "T = (\<Sum>x \<leftarrow> xs. v_shape x ! length A)"
    and k: "xs = ys @ x # zs" "c = v_shape x ! length A"
    and off: "off = (\<Sum>x \<leftarrow> ys. v_shape x ! length A)"
    and a: "in_range a A" and i: "0 \<le> i" "i < c" and b: "in_range b B"
  shows "moves m0 (footprint base y) (pick base y (concat_input (dim, xs, y)))
    (elems (out_addr base y) (elem_size y) {at3 T (prod_list B) (flat a A) (off + i) (flat b B)})
    (concat_element base (elem_size y) (wrap_dim dim (v_shape (hd xs))) y x off (flat (a @ i # b) (v_shape x)))"
proof -
  let ?f = "concat_input (dim, xs, y)" and ?dim = "wrap_dim dim (v_shape (hd xs))"
  let ?cs = "map (\<lambda>x. v_shape x ! length A) xs"
  note k' = concat_off_split [OF k(1)]
  have y: "packed y" using ok by (simp add: concat_ready_def)
  have xs: "view_ok z \<and> elem_size z = elem_size y" if "z \<in> set xs" for z
    using ok that by (auto simp: concat_ready_def Let_def elem_size_def)
  have x: "x \<in> set xs" "view_ok x" using xs k by auto
  have sx': "v_shape x = A @ c # B" using sx [OF x(1)] k by simp
  have la: "length a = length A" by (rule in_range_length [OF a])
  have nn: "0 \<le> v_shape z ! length A" if "z \<in> set xs" for z
  proof -
    have "shape_ok (A @ v_shape z ! length A # B)" using sx [OF that] xs [OF that] by (metis view_ok_def)
    then show ?thesis by (auto dest: shape_parts(2))
  qed
  have o0: "0 \<le> off" "0 \<le> (\<Sum>x \<leftarrow> zs. v_shape x ! length A)"
    unfolding off by (rule sum_list_nonneg; use nn k(1) in auto)+
  have T: "T = off + c + (\<Sum>x \<leftarrow> zs. v_shape x ! length A)" by (simp add: sy(2) k off)
  have ii: "in_range (a @ i # b) (v_shape x)" using a i b la by (simp add: sx' in_range_mid)
  have oi: "in_range (a @ (off + i) # b) (v_shape y)" using a i b la o0 T by (simp add: sy(1) in_range_mid)
  have sx_ok: "shape_ok (v_shape x)" using x(2) by (simp add: view_ok_def)
  have un: "unravel64 (v_shape x) (flat (a @ i # b) (v_shape x)) = Inr (a @ i # b)"
    using unravel64_unflat [OF sx_ok] dot_bounds [OF ii] unflat_flat [OF ii] by simp
  have "?dim = int (length A)" using d by simp
  then have at: "vec_at (a @ i # b) ?dim = Inr i" "\<And>v. vec_set (a @ i # b) ?dim v = Inr (a @ v # b)"
    by (simp_all add: vec_at_def vec_set_def nth_append list_update_append la)
  have "shape_ok (A @ T # B)" using packed_shape [OF y] sy(1) by simp
  note s = shape_parts [OF this]
  have i32: "i32 (off + i) = Inr (off + i)"
    using o0 i T s(7,11) by (intro i32_small [of _ "prod_list A * (T * prod_list B)"]) linarith+
  have "locate ?cs (sum_list (take (length ys) ?cs) + i) = (length ys, i)"
  proof (rule locate_at)
    show "\<forall>c \<in> set ?cs. 0 \<le> c" using nn by auto
  qed (use k k' i in \<open>simp_all add: nth_append\<close>)
  then have loc: "locate ?cs (off + i) = (length ys, i)" by (simp add: off k(1))
  have f: "?f (a @ (off + i) # b) = (x, a @ i # b)"
    using loc k'(2) by (simp add: concat_input_at [OF d(1) la])
  have "moves m0 (footprint base y) (pick base y ?f)
      (elems (out_addr base y) (elem_size y) {flat (a @ (off + i) # b) (v_shape y)})
      (\<lambda>m. Inr (memcpy (elem_addr base y (a @ (off + i) # b)) (elem_addr base x (a @ i # b)) (elem_size y) m))"
    by (rule pick_elem [OF y oi]) (simp_all add: pick_addr_def f)
  then show ?thesis
    by (simp add: moves_def concat_element_def un at i32 assign_element_def view_ptr [OF x(2) ii]
        view_ptr [OF packed_ok [OF y] oi] sy(1) flat_at3 [OF la])
qed

lemma concat_input_moves:
  assumes ok: "concat_ready base (dim, xs, y)"
    and d: "nat (wrap_dim dim (v_shape (hd xs))) = length A" "0 \<le> wrap_dim dim (v_shape (hd xs))"
    and sx: "\<And>x. x \<in> set xs \<Longrightarrow> v_shape x = A @ v_shape x ! length A # B"
    and sy: "v_shape y = A @ T # B" "T = (\<Sum>x \<leftarrow> xs. v_shape x ! length A)"
    and k: "xs = ys @ x # zs" and off: "off = (\<Sum>x \<leftarrow> ys. v_shape x ! length A)"
  shows "moves m0 (footprint base y) (pick base y (concat_input (dim, xs, y)))
    (elems (out_addr base y) (elem_size y) (band (prod_list A) T (prod_list B) off (off + v_shape x ! length A)))
    (ofold (concat_element base (elem_size y) (wrap_dim dim (v_shape (hd xs))) y x off) [0..numel x - 1])"
proof -
  let ?F = "pick base y (concat_input (dim, xs, y))" and ?c = "v_shape x ! length A"
  let ?step = "concat_element base (elem_size y) (wrap_dim dim (v_shape (hd xs))) y x off"
  let ?pos = "\<lambda>j. flat ((unflat (v_shape x) j)[length A := off + unflat (v_shape x) j ! length A]) (v_shape y)"
  have x: "x \<in> set xs" "view_ok x" using ok k by (auto simp: concat_ready_def Let_def)
  have sx': "v_shape x = A @ ?c # B" using sx [OF x(1)] .
  have sok: "shape_ok (v_shape x)" using x(2) by (simp add: view_ok_def)
  have "shape_ok (A @ ?c # B)" using sok sx' by simp
  note s = shape_parts [OF this]
  have n: "numel x = prod_list (v_shape x)" using numel_of_shape_ok [OF sok] by (simp add: numel_def)
  have idx: "\<exists>a i b. unflat (v_shape x) j = a @ i # b \<and> length a = length A \<and> in_range a A \<and> 0 \<le> i \<and>
      i < ?c \<and> in_range b B \<and> flat (a @ i # b) (v_shape x) = j" if "0 \<le> j" "j < prod_list (v_shape x)" for j
  proof -
    have r: "in_range (unflat (v_shape x) j) (v_shape x)" "flat (unflat (v_shape x) j) (v_shape x) = j"
      using unflat_range [of "v_shape x" j] that sok by (simp_all add: shape_ok_def)
    have "in_range (unflat (v_shape x) j) (A @ ?c # B)" using r(1) sx' by simp
    then obtain a i b where "unflat (v_shape x) j = a @ i # b" "length a = length A" "in_range a A" "0 \<le> i"
      "i < ?c" "in_range b B" by (rule in_range_split)
    with r(2) show ?thesis by metis
  qed
  have pos: "?pos j = at3 T (prod_list B) (flat a A) (off + i) (flat b B)"
    if "unflat (v_shape x) j = a @ i # b" "length a = length A" for j a i b
    using that by (simp add: sy(1) flat_at3 flip: that(2))
  have "moves m0 (footprint base y) ?F
      (elems (out_addr base y) (elem_size y) (\<Union>j \<in> set [0..numel x - 1]. {?pos j})) (ofold ?step [0..numel x - 1])"
  proof (rule moves_each [OF _ apart_pick [OF concat_picks [OF ok]]])
    fix j assume "j \<in> set [0..numel x - 1]"
    then have "0 \<le> j" "j < prod_list (v_shape x)" by (auto simp: n)
    from idx [OF this] obtain a i b where h: "unflat (v_shape x) j = a @ i # b" "length a = length A"
      "in_range a A" "0 \<le> i" "i < ?c" "in_range b B" "flat (a @ i # b) (v_shape x) = j" by blast
    from concat_element_moves [OF ok d sx sy k refl off h(3,4,5,6), of m0]
    show "moves m0 (footprint base y) ?F (elems (out_addr base y) (elem_size y) {?pos j}) (?step j)"
      by (simp only: pos [OF h(1,2)] h(7))
  qed
  moreover have "(\<Union>j \<in> set [0..numel x - 1]. {?pos j}) = band (prod_list A) T (prod_list B) off (off + ?c)"
  proof (intro set_eqI iffI)
    fix q assume "q \<in> (\<Union>j \<in> set [0..numel x - 1]. {?pos j})"
    then obtain j where j: "q = ?pos j" "0 \<le> j" "j < prod_list (v_shape x)" by (auto simp: n)
    from idx [OF j(2,3)] obtain a i b where h: "unflat (v_shape x) j = a @ i # b" "length a = length A"
      "in_range a A" "0 \<le> i" "i < ?c" "in_range b B" by blast
    have "q = at3 T (prod_list B) (flat a A) (off + i) (flat b B)" using j(1) pos [OF h(1,2)] by simp
    then show "q \<in> band (prod_list A) T (prod_list B) off (off + ?c)"
      using dot_bounds [OF h(3)] dot_bounds [OF h(6)] h(4,5) unfolding band_def by force
  next
    fix q assume "q \<in> band (prod_list A) T (prod_list B) off (off + ?c)"
    then obtain u i b where q: "q = at3 T (prod_list B) u i b" "0 \<le> u" "u < prod_list A" "off \<le> i"
      "i < off + ?c" "0 \<le> b" "b < prod_list B" unfolding band_def by blast
    let ?a = "unflat A u" and ?b = "unflat B b"
    have ab: "in_range ?a A" "flat ?a A = u" "in_range ?b B" "flat ?b B = b"
      using unflat_range [OF s(1) q(2,3)] unflat_range [OF s(3) q(6,7)] by simp_all
    have r: "in_range (?a @ (i - off) # ?b) (v_shape x)" using ab q by (subst sx') (simp add: in_range_mid)
    let ?j = "flat (?a @ (i - off) # ?b) (v_shape x)"
    have "?pos ?j = q" using pos [of ?j ?a "i - off" ?b] unflat_flat [OF r] ab q(1) by simp
    moreover have "?j \<in> set [0..numel x - 1]" using dot_bounds [OF r] by (simp add: n)
    ultimately show "q \<in> (\<Union>j \<in> set [0..numel x - 1]. {?pos j})" by blast
  qed
  ultimately show ?thesis by simp
qed

lemma concat_elements_moves:
  assumes ok: "concat_ready base (dim, xs, y)"
    and d: "nat (wrap_dim dim (v_shape (hd xs))) = length A" "0 \<le> wrap_dim dim (v_shape (hd xs))"
    and sx: "\<And>x. x \<in> set xs \<Longrightarrow> v_shape x = A @ v_shape x ! length A # B"
    and sy: "v_shape y = A @ T # B" "T = (\<Sum>x \<leftarrow> xs. v_shape x ! length A)"
  shows "xs = ys @ zs \<Longrightarrow> off = (\<Sum>x \<leftarrow> ys. v_shape x ! length A) \<Longrightarrow>
    \<exists>offs. concat_offsets (wrap_dim dim (v_shape (hd xs))) zs off = Inr offs \<and>
      moves m0 (footprint base y) (pick base y (concat_input (dim, xs, y)))
        (elems (out_addr base y) (elem_size y) (band (prod_list A) T (prod_list B) off T))
        (concat_elements base (elem_size y) (wrap_dim dim (v_shape (hd xs))) y (zip zs offs))"
proof (induction zs arbitrary: ys off)
  case Nil
  then have "off = T" by (simp add: sy(2))
  then show ?case by (simp add: band_empty elems_def concat_elements_def moves_def moved_def)
next
  case (Cons x zs)
  let ?dim = "wrap_dim dim (v_shape (hd xs))" and ?c = "v_shape x ! length A"
  have y: "packed y" using ok by (simp add: concat_ready_def)
  have xs: "view_ok z" if "z \<in> set xs" for z using ok that by (auto simp: concat_ready_def Let_def)
  have x: "x \<in> set xs" using Cons.prems(1) by simp
  have nn: "0 \<le> v_shape z ! length A" if "z \<in> set xs" for z
  proof -
    have "shape_ok (A @ v_shape z ! length A # B)" using sx [OF that] xs [OF that] by (metis view_ok_def)
    then show ?thesis by (auto dest: shape_parts(2))
  qed
  have o0: "0 \<le> off" "0 \<le> (\<Sum>x \<leftarrow> zs. v_shape x ! length A)" "0 \<le> ?c"
    using nn [OF x] unfolding Cons.prems(2)
    by (simp_all) (rule sum_list_nonneg; use nn Cons.prems(1) in auto)+
  have T: "T = off + ?c + (\<Sum>x \<leftarrow> zs. v_shape x ! length A)" by (simp add: sy(2) Cons.prems)
  obtain offs where offs: "concat_offsets ?dim zs (off + ?c) = Inr offs" and
    mv: "moves m0 (footprint base y) (pick base y (concat_input (dim, xs, y)))
      (elems (out_addr base y) (elem_size y) (band (prod_list A) T (prod_list B) (off + ?c) T))
      (concat_elements base (elem_size y) ?dim y (zip zs offs))"
    using Cons.IH [of "ys @ [x]" "off + ?c"] Cons.prems by auto
  from moves_seq [OF concat_input_moves [OF ok d sx sy Cons.prems] mv apart_pick [OF concat_picks [OF ok]]]
  have "moves m0 (footprint base y) (pick base y (concat_input (dim, xs, y)))
      (elems (out_addr base y) (elem_size y) (band (prod_list A) T (prod_list B) off T))
      (concat_elements base (elem_size y) ?dim y (zip (x # zs) (off # offs)))"
    using o0 T by (simp add: concat_elements_def elems_Un band_Un ofold_Cons)
  moreover have "vec_at (v_shape x) ?dim = Inr ?c"
    using d by (subst (1 2) sx [OF x]) (simp add: vec_at_def nat_eq_iff)
  moreover have "shape_ok (A @ T # B)" using packed_shape [OF y] sy(1) by simp
  then have "i32 (off + ?c) = Inr (off + ?c)"
    using o0 T shape_parts(7,11) [of A T B]
    by (intro i32_small [of _ "prod_list A * (T * prod_list B)"]) linarith+
  ultimately show ?case using offs by (intro exI [of _ "off # offs"]) simp
qed

lemma int_product_eq:
  assumes "\<forall>d \<in> set ds. 0 < d" "prod_list ds < 2 ^ 31" "0 \<le> p" "p + int (length ds) \<le> int (length shape)"
    and "ds = map (\<lambda>i. shape ! nat i) [p..p + int (length ds) - 1]"
  shows "int_product shape [p..p + int (length ds) - 1] = Inr (prod_list ds)"
proof -
  have "ofold (\<lambda>i a. obind (vec_at shape i) (\<lambda>d. i32 (a * d))) is a = Inr (a * prod_list (map (\<lambda>i. shape ! nat i) is))"
    if "\<forall>i \<in> set is. 0 \<le> i \<and> i < int (length shape) \<and> 0 < shape ! nat i" "0 < a"
      "a * prod_list (map (\<lambda>i. shape ! nat i) is) < 2 ^ 31" for "is" a
    using that
  proof (induction "is" arbitrary: a)
    case (Cons i "is")
    let ?d = "shape ! nat i" and ?r = "prod_list (map (\<lambda>i. shape ! nat i) is)"
    have "0 < ?r" by (rule prod_list_pos) (use Cons.prems(1) in auto)
    then have pos: "0 < ?d" "0 < ?r" "0 < a * ?d" using Cons.prems(1,2) by auto
    have "a * ?d * 1 \<le> a * ?d * ?r" using pos by (intro mult_left_mono) (simp_all add: int_one_le_iff_zero_less)
    then have "i32 (a * ?d) = Inr (a * ?d)" using Cons.prems(3) pos by (simp add: i32_def mult.assoc)
    moreover have "vec_at shape i = Inr ?d" using Cons.prems(1) by (simp add: vec_at_def)
    ultimately show ?case using Cons.IH [of "a * ?d"] Cons.prems pos by (simp add: mult.assoc)
  qed simp
  note fold = this [of "[p..p + int (length ds) - 1]" 1]
  have "set ds = (\<lambda>i. shape ! nat i) ` set [p..p + int (length ds) - 1]" by (subst assms(5)) simp
  then have "\<forall>i \<in> set [p..p + int (length ds) - 1]. 0 < shape ! nat i" using assms(1) by blast
  then have "\<forall>i \<in> set [p..p + int (length ds) - 1]. 0 \<le> i \<and> i < int (length shape) \<and> 0 < shape ! nat i"
    using assms(3,4) by auto
  from fold [OF this] assms(2) show ?thesis unfolding int_product_def by (simp flip: assms(5))
qed

lemma map_upto_nth:
  assumes "shape = A @ ds @ C"
  shows "map (\<lambda>i. shape ! nat i) [int (length A)..int (length A) + int (length ds) - 1] = ds"
proof (rule nth_equalityI)
  fix k assume "k < length (map (\<lambda>i. shape ! nat i) [int (length A)..int (length A) + int (length ds) - 1])"
  then have k: "k < length ds" by simp
  have "nat (int (length A) + int k) = length A + k" by simp
  with k show "map (\<lambda>i. shape ! nat i) [int (length A)..int (length A) + int (length ds) - 1] ! k = ds ! k"
    by (simp add: assms nth_append)
qed simp

lemma int_product_part:
  assumes "shape = A @ ds @ C" "\<forall>d \<in> set ds. 0 < d" "prod_list ds < 2 ^ 31"
    and "p = int (length A)" "q = int (length A) + int (length ds) - 1"
  shows "int_product shape [p..q] = Inr (prod_list ds)"
  unfolding assms(4,5) by (rule int_product_eq) (use assms map_upto_nth [OF assms(1)] in simp_all)

lemma dims_from_part:
  "shape = A @ D # B \<Longrightarrow> dims_from (int (length A) + 1) shape =
     [int (length (A @ [D]))..int (length (A @ [D])) + int (length B) - 1]"
  by (simp add: dims_from_def algebra_simps)

lemma omap_isContiguous:
  "\<forall>x \<in> set xs. view_ok x \<Longrightarrow> all_contiguous xs = Inr (list_all packed xs)"
proof -
  assume ok: "\<forall>x \<in> set xs. view_ok x"
  then have "omap isContiguous xs = Inr (map packed xs)"
    by (induction xs) (simp_all add: isContiguous_packed)
  then show ?thesis by (simp add: all_contiguous_def list_all_iff)
qed

lemma omap_impl [simp]: "omap impl (map Some xs) = Inr xs"
  by (induction xs) (simp_all add: impl_def)

lemma concat_moves:
  assumes ok: "concat_ready base (dim, xs, y)"
  shows "moves m0 (footprint base y) (pick base y (concat_input (dim, xs, y))) (footprint base y)
    (ConcatOp_forward base dim (map Some xs) [Some y])"
proof -
  let ?dim = "wrap_dim dim (v_shape (hd xs))"
  from ok obtain A B where h: "nat ?dim = length A" "0 \<le> ?dim"
    "\<And>x. x \<in> set xs \<Longrightarrow> v_shape x = A @ v_shape x ! length A # B"
    "v_shape y = A @ (\<Sum>x \<leftarrow> xs. v_shape x ! length A) # B"
    "\<And>x. x \<in> set xs \<Longrightarrow> view_ok x \<and> v_dtype x = v_dtype y \<and> footprint base x \<inter> footprint base y = {}"
    "packed y" "xs \<noteq> []" "float_width (v_dtype y) = Some (elem_size y)"
    by (rule concat_readyD) blast
  let ?T = "\<Sum>x \<leftarrow> xs. v_shape x ! length A"
  let ?F = "pick base y (concat_input (dim, xs, y))"
  have "shape_ok (A @ ?T # B)" using packed_shape [OF h(6)] h(4) by simp
  note s = shape_parts [OF this]
  have lt: "prod_list A < 2 ^ 31" "prod_list B < 2 ^ 31" using s(6,8,11) by linarith+
  have all: "elems (out_addr base y) (elem_size y) (band (prod_list A) ?T (prod_list B) 0 ?T) = footprint base y"
    unfolding band_all [OF s(2,5)] packed_cells [OF h(6), symmetric]
    using elems_cells [OF elem_size_bounds(1) [of y], of _ 0] by (simp add: h(4) prod_list_append ac_simps)
  obtain x0 xs' where x0: "xs = x0 # xs'" using h(7) by (cases xs) auto
  have i0: "inp (map Some xs) 0 = Inr x0" by (simp add: x0)
  have ac: "all_contiguous xs = Inr (list_all packed xs)" using h(5) by (intro omap_isContiguous) simp
  have dimA: "?dim = int (length A)" using h(1,2) by simp
  show ?thesis
  proof (cases "list_all packed xs")
    case True
    have sx0: "v_shape x0 = A @ v_shape x0 ! length A # B" using h(3) x0 by simp
    have bs: "int_product (v_shape x0) (dims_from (?dim + 1) (v_shape x0)) = Inr (prod_list B)"
      unfolding dimA dims_from_part [OF sx0]
      by (rule int_product_part [where A = "A @ [v_shape x0 ! length A]" and C = "[]"])
        (use sx0 s(3) lt in auto)
    have ns: "int_product (v_shape x0) [0..?dim - 1] = Inr (prod_list A)"
      by (rule int_product_part [where A = "[]" and C = "v_shape x0 ! length A # B"]) (use sx0 s(1) lt dimA in auto)
    have "ofold (\<lambda>x a. obind (vec_at (v_shape x) ?dim) (\<lambda>c. i32 (a + c))) zs a = Inr (a + (\<Sum>x \<leftarrow> zs. v_shape x ! length A))"
      if "set zs \<subseteq> set xs" "0 \<le> a" "a + (\<Sum>x \<leftarrow> zs. v_shape x ! length A) \<le> ?T" for zs a
      using that
    proof (induction zs arbitrary: a)
      case (Cons z zs)
      have z: "z \<in> set xs" using Cons.prems(1) by simp
      have nn: "0 \<le> v_shape w ! length A" if "w \<in> set xs" for w
      proof -
        have "shape_ok (A @ v_shape w ! length A # B)" using h(3,5) [OF that] by (metis view_ok_def)
        then show ?thesis by (auto dest: shape_parts(2))
      qed
      have le: "a + v_shape z ! length A + (\<Sum>x \<leftarrow> zs. v_shape x ! length A) \<le> ?T"
        using Cons.prems(3) by simp
      have "0 \<le> (\<Sum>x \<leftarrow> zs. v_shape x ! length A)" by (rule sum_list_nonneg) (use nn Cons.prems(1) in auto)
      then have "i32 (a + v_shape z ! length A) = Inr (a + v_shape z ! length A)"
        using Cons.prems(2) le nn [OF z] s(7,11)
        by (intro i32_small [of _ "prod_list A * (?T * prod_list B)"]) linarith+
      moreover have "vec_at (v_shape z) ?dim = Inr (v_shape z ! length A)"
        using dimA by (subst (1 2) h(3) [OF z]) (simp add: vec_at_def)
      ultimately show ?case using Cons.IH [of "a + v_shape z ! length A"] Cons.prems nn [OF z] by (simp add: add.assoc)
    qed simp
    from this [of xs 0] have tt: "ofold (\<lambda>x a. obind (vec_at (v_shape x) ?dim) (\<lambda>c. i32 (a + c))) xs 0 = Inr ?T"
      by simp
    have "moves m0 (footprint base y) ?F (footprint base y)
      (concat_blocks base (elem_size y) (out_addr base y) ?dim (prod_list B) (prod_list A) ?T xs 0)"
      using concat_blocks_moves [OF ok h(1,2,3,4) refl, of "[]" xs 0 m0] True all by (simp add: list_all_iff)
    then show ?thesis
      using True bs ns tt by (simp add: moves_def ConcatOp_forward_def ac i0 x0 [symmetric] h(8) Let_def)
        (simp add: x0)
  next
    case False
    obtain offs where "concat_offsets ?dim xs 0 = Inr offs" "moves m0 (footprint base y) ?F (footprint base y)
        (concat_elements base (elem_size y) ?dim y (zip xs offs))"
      using concat_elements_moves [OF ok h(1,2,3,4) refl, of "[]" xs 0 m0] all by auto
    with False show ?thesis
      by (simp add: moves_def ConcatOp_forward_def ac i0 h(8) Let_def) (simp add: x0)
  qed
qed

interpretation concat_kernel: element_kernel "\<lambda>base c m. concat_ready base c" "\<lambda>(dim, xs, y). y" concat_input
  "\<lambda>base (dim, xs, y). ConcatOp_forward base dim (map Some xs) [Some y]"
  by unfold_locales (auto simp: concat_picks concat_moves)

subsection \<open>What StackOp computes\<close>

definition stack_dim :: "int \<Rightarrow> view list \<Rightarrow> int" where
  "stack_dim dim xs = (if dim < 0 then dim + (int (length (v_shape (hd xs))) + 1) else dim)"

definition stack_ready :: "(nat \<Rightarrow> int) \<Rightarrow> int \<times> view list \<times> view \<Rightarrow> bool" where
  "stack_ready base = (\<lambda>(dim, xs, y). xs \<noteq> [] \<and> packed y \<and> float_width (v_dtype y) \<noteq> None \<and>
     0 \<le> stack_dim dim xs \<and> stack_dim dim xs \<le> int (length (v_shape (hd xs))) \<and>
     v_shape y = take (nat (stack_dim dim xs)) (v_shape (hd xs)) @ int (length xs) #
       drop (nat (stack_dim dim xs)) (v_shape (hd xs)) \<and>
     (\<forall>x \<in> set xs. view_ok x \<and> v_dtype x = v_dtype y \<and> footprint base x \<inter> footprint base y = {} \<and>
       v_shape x = v_shape (hd xs)))"

definition stack_input :: "int \<times> view list \<times> view \<Rightarrow> picker" where
  "stack_input = (\<lambda>(dim, xs, y) oi. let d = nat (stack_dim dim xs) in
     (xs ! nat (oi ! d), take d oi @ drop (Suc d) oi))"

lemma stack_readyD:
  assumes "stack_ready base (dim, xs, y)"
  obtains A B where "stack_dim dim xs = int (length A)" "\<And>x. x \<in> set xs \<Longrightarrow> v_shape x = A @ B"
    "v_shape y = A @ int (length xs) # B"
    "\<And>x. x \<in> set xs \<Longrightarrow> view_ok x \<and> v_dtype x = v_dtype y \<and> footprint base x \<inter> footprint base y = {}"
    "packed y" "xs \<noteq> []" "float_width (v_dtype y) = Some (elem_size y)"
proof -
  let ?A = "take (nat (stack_dim dim xs)) (v_shape (hd xs))" and ?B = "drop (nat (stack_dim dim xs)) (v_shape (hd xs))"
  note h = assms [unfolded stack_ready_def prod.case]
  show thesis
  proof (rule that [of ?A ?B])
    show "stack_dim dim xs = int (length ?A)" proof -
      have "0 \<le> stack_dim dim xs" "stack_dim dim xs \<le> int (length (v_shape (hd xs)))" using h by blast+
      then show ?thesis by simp
    qed
    have "v_shape x = v_shape (hd xs)" if "x \<in> set xs" for x using h that by blast
    then show "v_shape x = ?A @ ?B" if "x \<in> set xs" for x using that by (metis append_take_drop_id)
    show "v_shape y = ?A @ int (length xs) # ?B" "packed y" "xs \<noteq> []" using h by blast+
    show "view_ok x \<and> v_dtype x = v_dtype y \<and> footprint base x \<inter> footprint base y = {}" if "x \<in> set xs" for x
      using h that by blast
    obtain w where "float_width (v_dtype y) = Some w" using h by blast
    then show "float_width (v_dtype y) = Some (elem_size y)"
      using float_width_bytes [of "v_dtype y" w] by (simp add: elem_size_def)
  qed
qed

lemma stack_input_at:
  assumes "stack_dim dim xs = int (length A)" "length a = length A"
  shows "stack_input (dim, xs, y) (a @ k # b) = (xs ! nat k, a @ b)"
  using assms by (simp add: stack_input_def nth_append)

lemma stack_picks:
  assumes ok: "stack_ready base (dim, xs, y)"
  shows "picks_ok base y (stack_input (dim, xs, y))"
proof -
  from ok obtain A B where h: "stack_dim dim xs = int (length A)" "\<And>x. x \<in> set xs \<Longrightarrow> v_shape x = A @ B"
    "v_shape y = A @ int (length xs) # B"
    "\<And>x. x \<in> set xs \<Longrightarrow> view_ok x \<and> v_dtype x = v_dtype y \<and> footprint base x \<inter> footprint base y = {}"
    "packed y" by (rule stack_readyD) blast
  have "view_ok (fst (stack_input (dim, xs, y) oi)) \<and>
      in_range (snd (stack_input (dim, xs, y) oi)) (v_shape (fst (stack_input (dim, xs, y) oi))) \<and>
      v_dtype (fst (stack_input (dim, xs, y) oi)) = v_dtype y \<and>
      footprint base (fst (stack_input (dim, xs, y) oi)) \<inter> footprint base y = {}"
    if "in_range oi (v_shape y)" for oi
  proof -
    from that h(3) obtain a k b where k: "oi = a @ k # b" "length a = length A" "in_range a A" "0 \<le> k"
      "k < int (length xs)" "in_range b B" by (auto elim: in_range_split)
    then have m: "xs ! nat k \<in> set xs" by simp
    show ?thesis using h(2,4) [OF m] k by (simp add: k(1) stack_input_at [OF h(1)] in_range_append)
  qed
  then show ?thesis using h(5) by (simp add: picks_ok_def)
qed

lemma stack_slice_moves:
  assumes ok: "stack_ready base (dim, xs, y)" and d: "stack_dim dim xs = int (length A)"
    and sx: "\<And>x. x \<in> set xs \<Longrightarrow> v_shape x = A @ B" and sy: "v_shape y = A @ N # B" "N = int (length xs)"
    and k: "0 \<le> k" "k < N" "x = xs ! nat k" "packed x" and sl: "0 \<le> sl" "sl < prod_list A"
  shows "moves m0 (footprint base y) (pick base y (stack_input (dim, xs, y)))
    (cells (out_addr base y) (elem_size y) (sl * (N * prod_list B) + k * prod_list B) (1 * prod_list B))
    (stack_slice (elem_size y) (out_addr base y) (out_addr base x) N (prod_list B) k sl)"
proof -
  let ?I = "prod_list B" and ?es = "elem_size y" and ?f = "stack_input (dim, xs, y)"
  let ?M = "prod_list A * (N * prod_list B)"
  have y: "packed y" using ok by (simp add: stack_ready_def)
  have x: "x \<in> set xs" using k sy(2) by simp
  have dt: "elem_size x = ?es" using ok x by (auto simp: stack_ready_def Let_def elem_size_def)
  have "shape_ok (A @ N # B)" using packed_shape [OF y] sy by simp
  note s = shape_parts [OF this]
  have I: "0 < ?I" "0 \<le> N * ?I" "0 \<le> N" using s k by simp_all
  have kI: "0 \<le> k * ?I" "k * ?I + ?I \<le> N * ?I" using block_le [OF k(1,2), of ?I] I by simp_all
  note bs = block_le [OF sl I(2)] and bn = block_le [OF sl I(3)]
  have N1: "?I \<le> N * ?I" using kI by linarith
  have slI: "0 \<le> sl * ?I" "sl * ?I \<le> sl * (N * ?I)" using sl I N1 by (auto intro!: mult_left_mono)
  have b: "(sl * N + k) * ?I = sl * (N * ?I) + k * ?I" by (simp add: algebra_simps)
  have i: "i32 (sl * ?I) = Inr (sl * ?I)" "i32 (sl * N) = Inr (sl * N)" "i32 (sl * N + k) = Inr (sl * N + k)"
    "i32 (sl * (N * ?I) + k * ?I) = Inr (sl * (N * ?I) + k * ?I)"
    using slI bs bn kI I k(1,2) s(9-11) by (rule_tac i32_small [of _ ?M]; linarith)+
  have es: "0 < ?es" "?es \<le> 292" by (rule elem_size_bounds)+
  have ci: "u64 ?I = ?I" using I s(8,11) by (intro u64_small [of _ ?M]) simp_all
  have "?I * ?es \<le> 2 ^ 31 * 292" using I s(8,11) es by (intro mult_mono) linarith+
  then have u: "u64 (u64 ?I * ?es) = ?I * ?es" unfolding ci using I es by (simp add: u64_id)
  have "moves m0 (footprint base y) (pick base y ?f)
      (cells (out_addr base y) ?es (sl * (N * ?I) + k * ?I) ?I)
      (\<lambda>m. Inr (memcpy (out_addr base y + (sl * (N * ?I) + k * ?I) * ?es)
        (out_addr base x + sl * ?I * ?es) (?I * ?es) m))"
  proof (rule pick_block [OF y _ _ _ refl refl])
    show "0 \<le> sl * (N * ?I) + k * ?I" using bs kI by simp
    show "sl * (N * ?I) + k * ?I + ?I \<le> prod_list (v_shape y)"
      using bs kI by (simp add: sy(1) prod_list_append)
    fix t assume t: "0 \<le> t" "t < ?I"
    let ?a = "unflat A sl" and ?b = "unflat B t"
    have a: "in_range ?a A" "flat ?a A = sl" using unflat_range [OF s(1) sl] by simp_all
    have b': "in_range ?b B" "flat ?b B = t" using unflat_range [OF s(3) t] by simp_all
    have f: "?f (?a @ k # ?b) = (x, ?a @ ?b)" by (simp add: stack_input_at [OF d] k(3))
    show "\<exists>oi. in_range oi (v_shape y) \<and> flat oi (v_shape y) = sl * (N * ?I) + k * ?I + t \<and>
        pick_addr base ?f oi = out_addr base x + sl * ?I * ?es + t * ?es"
    proof (intro exI conjI)
      show "in_range (?a @ k # ?b) (v_shape y)" using a b' k by (simp add: sy(1) in_range_mid)
      show "flat (?a @ k # ?b) (v_shape y) = sl * (N * ?I) + k * ?I + t"
        using a b' by (simp add: sy(1) flat_at3 at3_def algebra_simps)
      show "pick_addr base ?f (?a @ k # ?b) = out_addr base x + sl * ?I * ?es + t * ?es"
        using a b' unfolding pick_addr_def f
        by (simp add: packed_addr [OF k(4)] sx [OF x] dt flat_append algebra_simps)
    qed
  qed
  then show ?thesis by (simp add: moves_def stack_slice_def i u b)
qed

lemma omap_nth: "(\<And>i. i \<in> set is \<Longrightarrow> 0 \<le> i \<and> i < int (length xs)) \<Longrightarrow>
    omap (vec_at xs) is = Inr (map (\<lambda>i. xs ! nat i) is)"
  by (induction "is") (simp_all add: vec_at_def)

lemma stack_element_moves:
  assumes ok: "stack_ready base (dim, xs, y)" and d: "stack_dim dim xs = int (length A)"
    and sx: "\<And>x. x \<in> set xs \<Longrightarrow> v_shape x = A @ B" and sy: "v_shape y = A @ N # B" "N = int (length xs)"
    and k: "0 \<le> k" "k < N" "x = xs ! nat k" and a: "in_range a A" and b: "in_range b B"
  shows "moves m0 (footprint base y) (pick base y (stack_input (dim, xs, y)))
    (elems (out_addr base y) (elem_size y) {at3 N (prod_list B) (flat a A) k (flat b B)})
    (stack_element base (elem_size y) (stack_dim dim xs) y k x (flat (a @ b) (v_shape x)))"
proof -
  let ?f = "stack_input (dim, xs, y)"
  have y: "packed y" using ok by (simp add: stack_ready_def)
  have x: "x \<in> set xs" using k sy(2) by simp
  then have xo: "view_ok x" using ok by (auto simp: stack_ready_def Let_def)
  have l: "length a = length A" "length b = length B" using in_range_length a b by auto
  have ii: "in_range (a @ b) (v_shape x)" using a b l by (simp add: sx [OF x] in_range_append)
  have oi: "in_range (a @ k # b) (v_shape y)" using a b k l by (simp add: sy(1) in_range_mid)
  have sx_ok: "shape_ok (v_shape x)" using xo by (simp add: view_ok_def)
  have un: "unravel64 (v_shape x) (flat (a @ b) (v_shape x)) = Inr (a @ b)"
    using unravel64_unflat [OF sx_ok] dot_bounds [OF ii] unflat_flat [OF ii] by simp
  have pre: "omap (vec_at (a @ b)) [0..stack_dim dim xs - 1] = Inr a"
    using map_upto_nth [of "a @ b" "[]" a b] l by (subst omap_nth) (simp_all add: d)
  have post: "omap (vec_at (a @ b)) (dims_from (stack_dim dim xs) (v_shape x)) = Inr b"
  proof -
    have e: "dims_from (stack_dim dim xs) (v_shape x) = [int (length a)..int (length a) + int (length b) - 1]"
      by (simp add: dims_from_def d sx [OF x] l)
    show ?thesis
      unfolding e using map_upto_nth [of "a @ b" a b "[]"] by (subst omap_nth) simp_all
  qed
  have f: "?f (a @ k # b) = (x, a @ b)" by (simp add: stack_input_at [OF d l(1)] k(3))
  have "moves m0 (footprint base y) (pick base y ?f)
      (elems (out_addr base y) (elem_size y) {flat (a @ k # b) (v_shape y)})
      (\<lambda>m. Inr (memcpy (elem_addr base y (a @ k # b)) (elem_addr base x (a @ b)) (elem_size y) m))"
    by (rule pick_elem [OF y oi]) (simp_all add: pick_addr_def f)
  then show ?thesis
    by (simp add: moves_def stack_element_def un pre post assign_element_def view_ptr [OF xo ii]
        view_ptr [OF packed_ok [OF y] oi] sy(1) flat_at3 [OF l(1)])
qed

lemma stack_input_moves:
  assumes ok: "stack_ready base (dim, xs, y)" and d: "stack_dim dim xs = int (length A)"
    and sx: "\<And>x. x \<in> set xs \<Longrightarrow> v_shape x = A @ B" and sy: "v_shape y = A @ N # B" "N = int (length xs)"
    and k: "0 \<le> k" "k < N" "x = xs ! nat k"
  shows "moves m0 (footprint base y) (pick base y (stack_input (dim, xs, y)))
    (elems (out_addr base y) (elem_size y) (band (prod_list A) N (prod_list B) k (k + 1)))
    (ofold (stack_element base (elem_size y) (stack_dim dim xs) y k x) [0..numel x - 1])"
proof -
  let ?F = "pick base y (stack_input (dim, xs, y))" and ?I = "prod_list B"
  let ?step = "stack_element base (elem_size y) (stack_dim dim xs) y k x"
  let ?pos = "\<lambda>j. at3 N ?I (j div ?I) k (j mod ?I)"
  have x: "x \<in> set xs" using k sy(2) by simp
  then have xo: "view_ok x" using ok by (auto simp: stack_ready_def Let_def)
  have y: "packed y" using ok by (simp add: stack_ready_def)
  have "shape_ok (A @ N # B)" using packed_shape [OF y] sy by simp
  note s = shape_parts [OF this]
  have n: "numel x = prod_list A * ?I"
    using numel_of_shape_ok [of "v_shape x"] xo by (simp add: numel_def view_ok_def sx [OF x] prod_list_append)
  have "moves m0 (footprint base y) ?F
      (elems (out_addr base y) (elem_size y) (\<Union>j \<in> set [0..numel x - 1]. {?pos j})) (ofold ?step [0..numel x - 1])"
  proof (rule moves_each [OF _ apart_pick [OF stack_picks [OF ok]]])
    fix j assume "j \<in> set [0..numel x - 1]"
    then have j: "0 \<le> j" "j < prod_list A * ?I" by (auto simp: n)
    let ?a = "unflat A (j div ?I)" and ?b = "unflat B (j mod ?I)"
    have q: "0 \<le> j div ?I" "j div ?I < prod_list A" using j s by (simp_all add: pos_imp_zdiv_nonneg_iff int_div_less)
    have ab: "in_range ?a A" "flat ?a A = j div ?I" "in_range ?b B" "flat ?b B = j mod ?I"
      using unflat_range [OF s(1) q] unflat_range [OF s(3), of "j mod ?I"] s(5) by simp_all
    have "flat (?a @ ?b) (v_shape x) = j" using ab by (simp add: sx [OF x] flat_append)
    with stack_element_moves [OF ok d sx sy k ab(1,3), of m0] ab
    show "moves m0 (footprint base y) ?F (elems (out_addr base y) (elem_size y) {?pos j}) (?step j)"
      by simp
  qed
  moreover have "(\<Union>j \<in> set [0..numel x - 1]. {?pos j}) = band (prod_list A) N ?I k (k + 1)"
  proof (intro set_eqI iffI)
    fix q assume "q \<in> (\<Union>j \<in> set [0..numel x - 1]. {?pos j})"
    then obtain j where j: "q = ?pos j" "0 \<le> j" "j < prod_list A * ?I" by (auto simp: n)
    then have "0 \<le> j div ?I" "j div ?I < prod_list A" "0 \<le> j mod ?I" "j mod ?I < ?I"
      using s by (simp_all add: pos_imp_zdiv_nonneg_iff int_div_less)
    then show "q \<in> band (prod_list A) N ?I k (k + 1)" using j(1) unfolding band_def by force
  next
    fix q assume "q \<in> band (prod_list A) N ?I k (k + 1)"
    then obtain u i b where q: "q = at3 N ?I u i b" "0 \<le> u" "u < prod_list A" "k \<le> i"
      "i < k + 1" "0 \<le> b" "b < ?I" unfolding band_def by blast
    then have "i = k" by simp
    let ?j = "u * ?I + b"
    have "?j div ?I = u" "?j mod ?I = b" using q by (simp_all add: div_add1_eq)
    then have "?pos ?j = q" using q(1) \<open>i = k\<close> by simp
    moreover have "?j \<in> set [0..numel x - 1]" using block_le [OF q(2,3), of ?I] q s(5) by (simp add: n)
    ultimately show "q \<in> (\<Union>j \<in> set [0..numel x - 1]. {?pos j})" by blast
  qed
  ultimately show ?thesis by simp
qed

lemma band_UN: "(\<Union>k \<in> set [0..N - 1]. band P T I k (k + 1)) = band P T I 0 N"
proof (intro set_eqI iffI)
  fix q assume "q \<in> band P T I 0 N"
  then obtain u i b where q: "q = at3 T I u i b" "0 \<le> u" "u < P" "0 \<le> i" "i < N" "0 \<le> b" "b < I"
    unfolding band_def by blast
  then have "q \<in> band P T I i (i + 1)" unfolding band_def by force
  with q show "q \<in> (\<Union>k \<in> set [0..N - 1]. band P T I k (k + 1))" by auto
qed (auto simp: band_def; force)

lemma set_zip_upto: "(k, x) \<in> set (zip [0..int (length xs) - 1] xs) \<longleftrightarrow>
    0 \<le> k \<and> k < int (length xs) \<and> x = xs ! nat k"
proof
  assume "(k, x) \<in> set (zip [0..int (length xs) - 1] xs)"
  then obtain i where "i < length xs" "[0..int (length xs) - 1] ! i = k" "xs ! i = x"
    by (auto simp: set_zip)
  then show "0 \<le> k \<and> k < int (length xs) \<and> x = xs ! nat k" by auto
next
  assume k: "0 \<le> k \<and> k < int (length xs) \<and> x = xs ! nat k"
  then have "nat k < length xs" by (simp add: nat_less_iff)
  moreover have "[0..int (length xs) - 1] ! nat k = k" using k by simp
  ultimately have "nat k < length xs" "[0..int (length xs) - 1] ! nat k = k" .
  with k show "(k, x) \<in> set (zip [0..int (length xs) - 1] xs)"
    by (auto simp: set_zip intro!: exI [of _ "nat k"])
qed

lemma stack_loop:
  assumes ap: "apart F D" and step: "\<And>k x. 0 \<le> k \<Longrightarrow> k < int (length xs) \<Longrightarrow> x = xs ! nat k \<Longrightarrow>
      moves m0 D F (elems p es (band P (int (length xs)) I k (k + 1))) (step k x)"
  shows "moves m0 D F (elems p es (band P (int (length xs)) I 0 (int (length xs))))
    (ofold (\<lambda>(k, x). step k x) (zip [0..int (length xs) - 1] xs))"
proof -
  let ?ks = "zip [0..int (length xs) - 1] xs" and ?N = "int (length xs)"
  have "moves m0 D F (\<Union>e \<in> set ?ks. elems p es (band P ?N I (fst e) (fst e + 1)))
      (ofold (\<lambda>(k, x). step k x) ?ks)"
  proof (rule moves_ofold [OF _ ap])
    fix e assume "e \<in> set ?ks"
    then have "(fst e, snd e) \<in> set ?ks" by simp
    then show "moves m0 D F (elems p es (band P ?N I (fst e) (fst e + 1))) (case e of (k, x) \<Rightarrow> step k x)"
      unfolding set_zip_upto split_def by (intro step) simp_all
  qed
  moreover have "fst ` set ?ks = set [0..?N - 1]"
  proof -
    have "map fst ?ks = [0..?N - 1]" by simp
    then show ?thesis by (metis set_map)
  qed
  then have "(\<Union>e \<in> set ?ks. elems p es (band P ?N I (fst e) (fst e + 1))) =
      (\<Union>k \<in> set [0..?N - 1]. elems p es (band P ?N I k (k + 1)))"
    by (metis (no_types, lifting) SUP_cong image_image)
  ultimately show ?thesis by (simp only: elems_UN band_UN)
qed

lemma stack_moves:
  assumes ok: "stack_ready base (dim, xs, y)"
  shows "moves m0 (footprint base y) (pick base y (stack_input (dim, xs, y))) (footprint base y)
    (StackOp_forward base dim (map Some xs) [Some y])"
proof -
  from ok obtain A B where h: "stack_dim dim xs = int (length A)" "\<And>x. x \<in> set xs \<Longrightarrow> v_shape x = A @ B"
    "v_shape y = A @ int (length xs) # B"
    "\<And>x. x \<in> set xs \<Longrightarrow> view_ok x \<and> v_dtype x = v_dtype y \<and> footprint base x \<inter> footprint base y = {}"
    "packed y" "xs \<noteq> []" "float_width (v_dtype y) = Some (elem_size y)"
    by (rule stack_readyD) blast
  let ?F = "pick base y (stack_input (dim, xs, y))" and ?N = "int (length xs)" and ?I = "prod_list B"
  let ?p = "out_addr base y" and ?es = "elem_size y"
  have "shape_ok (A @ ?N # B)" using packed_shape [OF h(5)] h(3) by simp
  note s = shape_parts [OF this]
  have lt: "prod_list A < 2 ^ 31" "?I < 2 ^ 31" using s(6,8,11) by linarith+
  have all: "elems ?p ?es (band (prod_list A) ?N ?I 0 ?N) = footprint base y"
    unfolding band_all [OF s(2,5)] packed_cells [OF h(5), symmetric]
    using elems_cells [OF elem_size_bounds(1) [of y], of _ 0] by (simp add: h(3) prod_list_append ac_simps)
  have ap: "apart ?F (footprint base y)" by (rule apart_pick [OF stack_picks [OF ok]])
  obtain x0 xs' where x0: "xs = x0 # xs'" using h(6) by (cases xs) auto
  have i0: "inp (map Some xs) 0 = Inr x0" by (simp add: x0)
  have s0: "v_shape x0 = A @ B" using h(2) x0 by simp
  have dim: "(if dim < 0 then dim + (int (length (v_shape x0)) + 1) else dim) = int (length A)"
    using h(1) unfolding stack_dim_def x0 list.sel .
  have ac: "all_contiguous xs = Inr (list_all packed xs)" using h(4) by (intro omap_isContiguous) simp
  show ?thesis
  proof (cases "list_all packed xs")
    case True
    have ns: "int_product (v_shape x0) [0..int (length A) - 1] = Inr (prod_list A)"
      by (rule int_product_part [where A = "[]" and C = B]) (use s0 s(1) lt in auto)
    have iz: "int_product (v_shape x0) [int (length A)..int (length (v_shape x0)) - 1] = Inr ?I"
      by (rule int_product_part [where A = A and C = "[]"]) (use s0 s(3) lt in auto)
    have "moves m0 (footprint base y) ?F (elems ?p ?es (band (prod_list A) ?N ?I 0 ?N))
      (ofold (\<lambda>(k, x). ofold (stack_slice ?es ?p (out_addr base x) ?N ?I k) [0..prod_list A - 1])
        (zip [0..?N - 1] xs))"
    proof (rule stack_loop [OF ap])
      fix k x assume k: "0 \<le> k" "k < ?N" "x = xs ! nat k"
      then have x: "packed x" using True by (simp add: list_all_iff)
      have "moves m0 (footprint base y) ?F (\<Union>u \<in> set [0..prod_list A - 1]. elems ?p ?es
          {u * (?N * ?I) + k * ?I ..< u * (?N * ?I) + k * ?I + 1 * ?I})
        (ofold (stack_slice ?es ?p (out_addr base x) ?N ?I k) [0..prod_list A - 1])"
      proof (rule moves_ofold [OF _ ap])
        fix u assume "u \<in> set [0..prod_list A - 1]"
        then have u: "0 \<le> u" "u < prod_list A" by auto
        from stack_slice_moves [OF ok h(1,2,3) refl k x u, of m0]
        show "moves m0 (footprint base y) ?F
            (elems ?p ?es {u * (?N * ?I) + k * ?I ..< u * (?N * ?I) + k * ?I + 1 * ?I})
            (stack_slice ?es ?p (out_addr base x) ?N ?I k u)"
          by (simp only: elems_cells [OF elem_size_bounds(1)])
      qed
      then show "moves m0 (footprint base y) ?F (elems ?p ?es (band (prod_list A) ?N ?I k (k + 1)))
          (ofold (stack_slice ?es ?p (out_addr base x) ?N ?I k) [0..prod_list A - 1])"
        by (simp only: elems_UN band_slices [OF s(5)])
    qed
    with True ns iz h(7) show ?thesis
      by (simp add: moves_def StackOp_forward_def ac i0 dim all Let_def)
  next
    case False
    have "moves m0 (footprint base y) ?F (elems ?p ?es (band (prod_list A) ?N ?I 0 ?N))
      (ofold (\<lambda>(k, x). ofold (stack_element base ?es (stack_dim dim xs) y k x) [0..numel x - 1])
        (zip [0..?N - 1] xs))"
      by (rule stack_loop [OF ap]) (rule stack_input_moves [OF ok h(1,2,3) refl])
    with False h(7) show ?thesis
      by (simp add: moves_def StackOp_forward_def ac i0 dim all h(1) Let_def)
  qed
qed

interpretation stack_kernel: element_kernel "\<lambda>base c m. stack_ready base c" "\<lambda>(dim, xs, y). y" stack_input
  "\<lambda>base (dim, xs, y). StackOp_forward base dim (map Some xs) [Some y]"
  by unfold_locales (auto simp: stack_picks stack_moves)

subsection \<open>What GatherOp computes\<close>

text \<open>\<open>vals\<close> are the values of the indices, the negative ones counted from the end.\<close>

definition gather_ready ::
  "(nat \<Rightarrow> int) \<Rightarrow> int \<times> view \<times> view \<times> view \<times> int list \<Rightarrow> memory \<Rightarrow> bool" where
  "gather_ready base = (\<lambda>(dim, table, ix, y, vals) m.
     packed table \<and> packed ix \<and> packed y \<and> v_dtype y = v_dtype table \<and>
     gather_width (v_dtype table) = elem_size table \<and> (v_dtype ix = kInt32 \<or> v_dtype ix = kFloat32) \<and>
     0 \<le> wrap_dim dim (v_shape table) \<and> wrap_dim dim (v_shape table) < int (length (v_shape table)) \<and>
     v_shape y = take (nat (wrap_dim dim (v_shape table))) (v_shape table) @ v_shape ix @
       drop (Suc (nat (wrap_dim dim (v_shape table)))) (v_shape table) \<and>
     int (length vals) = prod_list (v_shape ix) \<and>
     (\<forall>i < length vals. gather_index (v_dtype ix = kInt32) (out_addr base ix)
        (v_shape table ! nat (wrap_dim dim (v_shape table))) (int i) m = Inr (vals ! i)) \<and>
     (\<forall>v \<in> set vals. 0 \<le> v \<and> v < v_shape table ! nat (wrap_dim dim (v_shape table))) \<and>
     footprint base table \<inter> footprint base y = {} \<and> footprint base ix \<inter> footprint base y = {})"

definition gather_input :: "int \<times> view \<times> view \<times> view \<times> int list \<Rightarrow> picker" where
  "gather_input = (\<lambda>(dim, table, ix, y, vals) oi.
     let d = nat (wrap_dim dim (v_shape table)); r = length (v_shape ix);
         k = flat (take r (drop d oi)) (v_shape ix)
     in (table, take d oi @ vals ! nat k # drop (d + r) oi))"

lemma gather_input_at:
  assumes "nat (wrap_dim dim (v_shape table)) = length a" "length k = length (v_shape ix)"
  shows "gather_input (dim, table, ix, y, vals) (a @ k @ b) = (table, a @ vals ! nat (flat k (v_shape ix)) # b)"
  using assms by (simp add: gather_input_def)

lemma gather_readyD:
  assumes "gather_ready base (dim, table, ix, y, vals) m"
  obtains A D B where "wrap_dim dim (v_shape table) = int (length A)" "v_shape table = A @ D # B"
    "v_shape y = A @ v_shape ix @ B" "packed table" "packed ix" "packed y" "v_dtype y = v_dtype table"
    "gather_width (v_dtype table) = elem_size y" "elem_size table = elem_size y"
    "v_dtype ix = kInt32 \<or> v_dtype ix = kFloat32" "int (length vals) = prod_list (v_shape ix)"
    "\<And>i. i < length vals \<Longrightarrow>
       gather_index (v_dtype ix = kInt32) (out_addr base ix) D (int i) m = Inr (vals ! i)"
    "\<And>i. i < length vals \<Longrightarrow> 0 \<le> vals ! i \<and> vals ! i < D"
    "footprint base table \<inter> footprint base y = {}" "footprint base ix \<inter> footprint base y = {}"
proof -
  note h = assms [unfolded gather_ready_def prod.case]
  then have d: "0 \<le> wrap_dim dim (v_shape table)" "wrap_dim dim (v_shape table) < int (length (v_shape table))"
    by blast+
  then obtain A D B where s: "v_shape table = A @ D # B" "nat (wrap_dim dim (v_shape table)) = length A"
    by (rule shape_at)
  have D: "v_shape table ! length A = D" using s(1) by simp
  have e: "elem_size table = elem_size y" using h by (simp add: elem_size_def)
  show thesis
  proof (rule that [OF _ s(1)])
    show "wrap_dim dim (v_shape table) = int (length A)" using s(2) d by simp
    show "v_shape y = A @ v_shape ix @ B"
    proof -
      have "v_shape y = take (length A) (v_shape table) @ v_shape ix @ drop (Suc (length A)) (v_shape table)"
        using h unfolding s(2) by blast
      then show ?thesis by (simp add: s(1))
    qed
    show "gather_index (v_dtype ix = kInt32) (out_addr base ix) D (int i) m = Inr (vals ! i)"
      if "i < length vals" for i
      using h that unfolding s(2) D by blast
    show "0 \<le> vals ! i \<and> vals ! i < D" if "i < length vals" for i
      using h nth_mem [OF that] unfolding s(2) D by blast
    show "gather_width (v_dtype table) = elem_size y" using h e by metis
  qed (use h e in blast)+
qed

lemma in_range_three:
  assumes "in_range oi (A @ K @ B)"
  obtains a k b where "oi = a @ k @ b" "in_range a A" "in_range k K" "in_range b B"
proof -
  have l: "length oi = length A + length K + length B" using in_range_length [OF assms] by simp
  let ?a = "take (length A) oi" and ?k = "take (length K) (drop (length A) oi)"
    and ?b = "drop (length A + length K) oi"
  have e: "oi = ?a @ ?k @ ?b"
    by (metis add.commute append_take_drop_id drop_drop)
  have "in_range ?a A \<and> in_range (?k @ ?b) (K @ B)"
    using assms e l by (metis in_range_append length_take min_absorb2 le_add1 add.assoc)
  moreover from this have "in_range ?k K \<and> in_range ?b B" using l by (subst (asm) in_range_append) simp_all
  ultimately show ?thesis using e that by blast
qed

lemma gather_picks:
  assumes ok: "gather_ready base (dim, table, ix, y, vals) m"
  shows "picks_ok base y (gather_input (dim, table, ix, y, vals))"
proof -
  from ok obtain A D B where h: "wrap_dim dim (v_shape table) = int (length A)" "v_shape table = A @ D # B"
    "v_shape y = A @ v_shape ix @ B" "packed table" "packed y" "v_dtype y = v_dtype table"
    "int (length vals) = prod_list (v_shape ix)" "\<And>i. i < length vals \<Longrightarrow> 0 \<le> vals ! i \<and> vals ! i < D"
    "footprint base table \<inter> footprint base y = {}"
    by (rule gather_readyD) blast
  have "fst (gather_input (dim, table, ix, y, vals) oi) = table \<and>
      in_range (snd (gather_input (dim, table, ix, y, vals) oi)) (v_shape table)"
    if "in_range oi (v_shape y)" for oi
  proof -
    from that h(3) obtain a k b where k: "oi = a @ k @ b" "in_range a A" "in_range k (v_shape ix)" "in_range b B"
      by (auto elim: in_range_three)
    have l: "length a = length A" "length k = length (v_shape ix)" using in_range_length k by auto
    have "nat (flat k (v_shape ix)) < length vals" using dot_bounds [OF k(3)] h(7) by (simp add: nat_less_iff)
    from h(8) [OF this] show ?thesis
      using k l gather_input_at [of dim table a k ix y vals b] h(1) by (simp add: h(2) in_range_mid)
  qed
  then show ?thesis using h(4,5,6,9) by (simp add: picks_ok_def packed_ok)
qed

lemma i64_small: "0 \<le> a \<Longrightarrow> a < 2 ^ 31 \<Longrightarrow> i64 a = Inr a"
  by (simp add: i64_def)

lemma to_i64_small: "0 \<le> a \<Longrightarrow> a < 2 ^ 62 \<Longrightarrow> to_i64 (u64 a) = a"
  by (simp add: to_i64_def u64_def)

lemma int64_product_eq: "int_product shape is = Inr v \<Longrightarrow> int64_product shape is = Inr v"
proof -
  have "ofold (\<lambda>i a. obind (vec_at shape i) (\<lambda>d. i32 (a * d))) is a = Inr v \<Longrightarrow>
      ofold (\<lambda>i a. obind (vec_at shape i) (\<lambda>d. i64 (a * d))) is a = Inr v" for a
  proof (induction "is" arbitrary: a)
    case (Cons i "is")
    from Cons.prems obtain d where d: "vec_at shape i = Inr d" "i32 (a * d) = Inr (a * d)"
      "ofold (\<lambda>i a. obind (vec_at shape i) (\<lambda>d. i32 (a * d))) is (a * d) = Inr v"
      by (auto simp: obind_Inr_iff i32_Inr)
    then have "i64 (a * d) = Inr (a * d)" by (simp add: i64_def i32_Inr)
    with d Cons.IH show ?case by simp
  qed simp
  then show "int_product shape is = Inr v \<Longrightarrow> int64_product shape is = Inr v"
    by (simp add: int_product_def int64_product_def)
qed

lemma gather_index_agree:
  assumes ix: "packed ix" "elem_size ix = 4" and i: "0 \<le> i" "i < prod_list (v_shape ix)"
    and m: "agree D m m0" "footprint base ix \<inter> D = {}"
  shows "gather_index b (out_addr base ix) n i m = gather_index b (out_addr base ix) n i m0"
proof -
  have "m (out_addr base ix + i * 4 + k) = m0 (out_addr base ix + i * 4 + k)" if "0 \<le> k" "k < 4" for k
  proof -
    have "out_addr base ix + i * 4 + k \<in> footprint base ix"
      using i that by (simp add: footprint_def packed_span [OF ix(1)] ix(2))
    then show ?thesis using m unfolding agree_def by blast
  qed
  from this [of 0] this [of 1] this [of 2] this [of 3] show ?thesis
    by (simp add: gather_index_def read_i32_def read_u32_def)
qed

lemma bytes_small:
  assumes "0 \<le> q" "q < 2 ^ 31"
  shows "u64 (q * elem_size v) = q * elem_size v" "to_i64 (q * elem_size v) = q * elem_size v"
proof -
  have b: "q * elem_size v \<le> 2 ^ 31 * 292" "0 \<le> q * elem_size v"
    using mult_mono [of q "2 ^ 31" "elem_size v" 292] assms elem_size_bounds [of v] by simp_all
  then have "q * elem_size v < 2 ^ 62" by simp
  with b show "u64 (q * elem_size v) = q * elem_size v" "to_i64 (q * elem_size v) = q * elem_size v"
    by (simp_all add: u64_id to_i64_def)
qed

lemma gather_step_moves:
  assumes ok: "gather_ready base (dim, table, ix, y, vals) m0"
    and h: "wrap_dim dim (v_shape table) = int (length A)" "v_shape table = A @ D # B"
      "v_shape y = A @ v_shape ix @ B"
    and n: "n = prod_list (v_shape ix)" and u: "0 \<le> u" "u < prod_list A" and i: "0 \<le> i" "i < n"
  shows "moves m0 (footprint base y) (pick base y (gather_input (dim, table, ix, y, vals)))
    (cells (out_addr base y) (elem_size y) (0 + u * (n * prod_list B) + i * prod_list B) (prod_list B))
    (gather_step (elem_size y) (out_addr base table) (out_addr base y)
      (gather_index (v_dtype ix = kInt32) (out_addr base ix) D) D n (prod_list B) u i)"
proof -
  let ?I = "prod_list B" and ?es = "elem_size y" and ?f = "gather_input (dim, table, ix, y, vals)"
  let ?v = "vals ! nat i" and ?J = "u * (n * prod_list B) + i * prod_list B"
  from ok obtain A' D' B' where g: "wrap_dim dim (v_shape table) = int (length A')" "v_shape table = A' @ D' # B'"
    "packed table" "packed ix" "packed y" "elem_size table = ?es" "v_dtype ix = kInt32 \<or> v_dtype ix = kFloat32"
    "int (length vals) = prod_list (v_shape ix)"
    "\<And>i. i < length vals \<Longrightarrow>
       gather_index (v_dtype ix = kInt32) (out_addr base ix) D' (int i) m0 = Inr (vals ! i)"
    "\<And>i. i < length vals \<Longrightarrow> 0 \<le> vals ! i \<and> vals ! i < D'" "footprint base ix \<inter> footprint base y = {}"
    by (rule gather_readyD) blast
  have "length A' = length A" using g(1) h(1) by simp
  then have D: "D' = D" using g(2) h(2) by simp
  have i': "nat i < length vals" "int (nat i) = i" using i n g(8) by linarith+
  have v: "0 \<le> ?v" "?v < D" using g(10) [OF i'(1)] by (simp_all add: D)
  have e4: "elem_size ix = 4"
    using g(7) by (auto simp: elem_size_def bytesOfType_def sizeof_def dtype_tables)
  have idx: "gather_index (v_dtype ix = kInt32) (out_addr base ix) D i m = Inr ?v"
    if "agree (footprint base y) m m0" for m
    using gather_index_agree [OF g(4) e4 i(1) _ that g(11)] i(2) n g(9) [OF i'(1)] i'(2) by (simp add: D)
  have "shape_ok (A @ D # B)" using packed_shape [OF g(3)] h(2) by simp
  note st = shape_parts [OF this]
  have yl: "prod_list A * (n * ?I) < 2 ^ 31"
    using packed_shape [OF g(5)] by (simp add: h(3) n prod_list_append shape_ok_def)
  have I: "0 < ?I" "0 \<le> n * ?I" "0 \<le> D * ?I" "0 \<le> D" "0 \<le> n" using st i by simp_all
  note bu = block_le [OF u I(2)] and bi = block_le [OF i, of ?I]
    and bt = block_le [OF u I(3)] and bv = block_le [OF v, of ?I] and bD = block_le [OF u I(4)]
    and bn = block_le [OF u I(5)]
  have nA: "prod_list A * n \<le> prod_list A * (n * ?I)"
    using st(4) I mult_left_mono [of 1 ?I n] by (intro mult_left_mono) simp_all
  have fac: "(u * D + ?v) * ?I = u * (D * ?I) + ?v * ?I" "(u * n + i) * ?I = ?J" by (simp_all add: algebra_simps)
  have s0: "0 \<le> u * (D * ?I) + ?v * ?I" "u * (D * ?I) + ?v * ?I < 2 ^ 31" "0 \<le> ?J" "?J < 2 ^ 31"
    "u * (D * ?I) + ?v * ?I \<le> 2 ^ 31" "?J \<le> 2 ^ 31"
    using bt bv bu bi I st(11) yl by linarith+
  have i64: "i64 (u * D) = Inr (u * D)" "i64 (u * D + ?v) = Inr (u * D + ?v)"
    "i64 (u * (D * ?I) + ?v * ?I) = Inr (u * (D * ?I) + ?v * ?I)"
    "i64 (u * n) = Inr (u * n)" "i64 (u * n + i) = Inr (u * n + i)" "i64 ?J = Inr ?J"
    using bD bt bv bu bi bn s0 st(10,11) v i nA yl I by (rule_tac i64_small; linarith)+
  have "?I < 2 ^ 31" "0 \<le> ?I" using I st(8,11) by linarith+
  note c = bytes_small [OF s0(1,2), of y] bytes_small [OF s0(3,4), of y] bytes_small [OF this(2,1), of y]
  have "moves m0 (footprint base y) (pick base y ?f) (cells (out_addr base y) ?es (0 + ?J) ?I)
      (\<lambda>m. Inr (memcpy (out_addr base y + (0 + ?J) * ?es)
        (out_addr base table + (u * (D * ?I) + ?v * ?I) * ?es) (?I * ?es) m))"
  proof (rule pick_block [OF g(5) _ _ _ refl refl])
    show "0 \<le> 0 + ?J" using s0 by simp
    have "?J + ?I \<le> prod_list A * (n * ?I)" using bu bi I by linarith
    then show "0 + ?J + ?I \<le> prod_list (v_shape y)" by (simp add: h(3) n prod_list_append)
    fix t assume t: "0 \<le> t" "t < ?I"
    let ?a = "unflat A u" and ?k = "unflat (v_shape ix) i" and ?b = "unflat B t"
    have a: "in_range ?a A" "flat ?a A = u" using unflat_range [OF st(1) u] by simp_all
    have b: "in_range ?b B" "flat ?b B = t" using unflat_range [OF st(3) t] by simp_all
    have k: "in_range ?k (v_shape ix)" "flat ?k (v_shape ix) = i"
      using unflat_range [of "v_shape ix" i] packed_shape [OF g(4)] i n by (simp_all add: shape_ok_def)
    have f: "?f (?a @ ?k @ ?b) = (table, ?a @ ?v # ?b)"
      using k(2) h(1) by (subst gather_input_at) simp_all
    show "\<exists>oi. in_range oi (v_shape y) \<and> flat oi (v_shape y) = 0 + ?J + t \<and>
        pick_addr base ?f oi = out_addr base table + (u * (D * ?I) + ?v * ?I) * ?es + t * ?es"
    proof (intro exI conjI)
      show "in_range (?a @ ?k @ ?b) (v_shape y)" using a b k by (simp add: h(3) in_range_append)
      show "flat (?a @ ?k @ ?b) (v_shape y) = 0 + ?J + t"
        using a b k by (simp add: h(3) flat_append prod_list_append n algebra_simps)
      show "pick_addr base ?f (?a @ ?k @ ?b) = out_addr base table + (u * (D * ?I) + ?v * ?I) * ?es + t * ?es"
        using a b v unfolding pick_addr_def f
        by (simp add: packed_addr [OF g(3)] h(2) g(6) flat_at3 at3_def algebra_simps)
    qed
  qed
  then show ?thesis
    unfolding add.assoc by (rule moves_cong) (use v in \<open>simp add: gather_step_def idx fac i64 c\<close>)
qed

lemma gather_moves:
  assumes ok: "gather_ready base (dim, table, ix, y, vals) m0"
  shows "moves m0 (footprint base y) (pick base y (gather_input (dim, table, ix, y, vals))) (footprint base y)
    (GatherOp_forward base dim [Some table, Some ix] [Some y])"
proof -
  from ok obtain A D B where h: "wrap_dim dim (v_shape table) = int (length A)" "v_shape table = A @ D # B"
    "v_shape y = A @ v_shape ix @ B" "packed table" "packed ix" "packed y" "v_dtype y = v_dtype table"
    "gather_width (v_dtype table) = elem_size y"
    "v_dtype ix = kInt32 \<or> v_dtype ix = kFloat32"
    by (rule gather_readyD) blast
  let ?n = "prod_list (v_shape ix)" and ?F = "pick base y (gather_input (dim, table, ix, y, vals))"
  have "shape_ok (A @ D # B)" using packed_shape [OF h(4)] h(2) by simp
  note s = shape_parts [OF this]
  have lt: "prod_list A < 2 ^ 31" "prod_list B < 2 ^ 31" using s(6,8,11) by linarith+
  have n: "0 < ?n" "?n < 2 ^ 31" using shape_ok_total [OF packed_shape [OF h(5)]] by simp_all
  have cnt: "to_i64 (numel ix) = ?n"
    using numel_of_shape_ok [OF packed_shape [OF h(5)]] n by (simp add: numel_def to_i64_def)
  have os: "int64_product (v_shape table) [0..int (length A) - 1] = Inr (prod_list A)"
    by (rule int64_product_eq, rule int_product_part [where A = "[]" and C = "D # B"])
      (use h(2) s(1) lt in auto)
  have iz: "int64_product (v_shape table) (dims_from (int (length A) + 1) (v_shape table)) = Inr (prod_list B)"
    unfolding dims_from_part [OF h(2)]
    by (rule int64_product_eq, rule int_product_part [where A = "A @ [D]" and C = "[]"])
      (use h(2) s(3) lt in auto)
  have at: "vec_at (v_shape table) (int (length A)) = Inr D" by (simp add: vec_at_def h(2))
  have ap: "apart ?F (footprint base y)" by (rule apart_pick [OF gather_picks [OF ok]])
  have "moves m0 (footprint base y) ?F
      (cells (out_addr base y) (elem_size y) 0 (prod_list A * (?n * prod_list B)))
      (ofold (\<lambda>a. ofold (gather_step (elem_size y) (out_addr base table) (out_addr base y)
          (gather_index (v_dtype ix = kInt32) (out_addr base ix) D) D ?n (prod_list B) a) [0..?n - 1])
        [0..prod_list A - 1])"
  proof (intro moves_loop [OF elem_size_bounds(1) _ ap])
    show "0 \<le> ?n * prod_list B" "0 \<le> prod_list B" using n s by simp_all
  qed (rule gather_step_moves [OF ok h(1,2,3) refl])
  moreover have "cells (out_addr base y) (elem_size y) 0 (prod_list A * (?n * prod_list B)) = footprint base y"
    unfolding packed_cells [OF h(6), symmetric] by (simp add: h(3) prod_list_append)
  ultimately show ?thesis
    using h(9) by (auto simp: moves_def GatherOp_forward_def h(1,8) os iz at cnt Let_def)
qed

interpretation gather_kernel: element_kernel gather_ready "\<lambda>(dim, table, ix, y, vals). y" gather_input
  "\<lambda>base (dim, table, ix, y, vals). GatherOp_forward base dim [Some table, Some ix] [Some y]"
  by unfold_locales (auto simp: gather_picks gather_moves)

end
