(* ===== verification/Join_Results.thy ===== *)
theory Join_Results
  imports Join_Kernels
begin

text \<open>
  What the joining operators do to the elements, from the shape inference of
  \<^verbatim>\<open>mllm/core/aops\<close> to the memory after the kernel.
\<close>

subsection \<open>The outputs that the shape inference allocates\<close>

lemma float_lanes: "float_width dt \<noteq> None \<Longrightarrow> lanesOfType dt = 1"
  by (auto simp: float_width_def lanesOfType_def info_lanes_def dtype_tables split: if_splits)

lemma packed_output:
  "shape_ok (v_shape y) \<Longrightarrow> v_stride y = rm_strides (v_shape y) \<Longrightarrow> float_width (v_dtype y) \<noteq> None \<Longrightarrow> packed y"
  by (simp add: packed_def float_lanes)

lemma ConcatOp_output:
  assumes "ConcatOp_reshape dim u (map Some xs) = Inr [Some y]"
  shows "xs \<noteq> []" "0 \<le> wrap_dim dim (v_shape (hd xs))"
    "wrap_dim dim (v_shape (hd xs)) < int (length (v_shape (hd xs)))"
    "v_shape y = (v_shape (hd xs))[nat (wrap_dim dim (v_shape (hd xs))) :=
       (\<Sum>x \<leftarrow> xs. v_shape x ! nat (wrap_dim dim (v_shape (hd xs))))]"
    "v_stride y = rm_strides (v_shape y)" "v_dtype y = v_dtype (hd xs)"
proof -
  let ?d = "wrap_dim dim (v_shape (hd xs))"
  show ne: "xs \<noteq> []" using assms by (auto simp: ConcatOp_reshape_def)
  obtain n where t: "ofold (\<lambda>w a. obind (vec_at (v_shape w) ?d) (\<lambda>x. i32 (a + x))) xs 0 = Inr n"
    and lt: "?d < int (length (v_shape (hd xs)))"
    and s: "\<exists>shape. vec_set (v_shape (hd xs)) ?d n = Inr shape \<and> one_output shape (hd xs) u = Inr [Some y]"
    using assms ne unfolding ConcatOp_reshape_def by (auto simp: Let_def outcome_simps split: if_splits)
  show d: "0 \<le> ?d" using t ne by (cases xs) (auto simp: outcome_simps)
  show "?d < int (length (v_shape (hd xs)))" by (rule lt)
  have "n = (\<Sum>x \<leftarrow> xs. v_shape x ! nat ?d)" using concat_total [OF t d] by simp
  with s show "v_shape y = (v_shape (hd xs))[nat ?d := (\<Sum>x \<leftarrow> xs. v_shape x ! nat ?d)]"
    "v_stride y = rm_strides (v_shape y)" "v_dtype y = v_dtype (hd xs)"
    by (auto simp: outcome_simps dest!: one_output_Inr)
qed

lemma StackOp_output:
  assumes "StackOp_reshape dim u (map Some xs) = Inr [Some y]"
  shows "xs \<noteq> []" "0 \<le> stack_dim dim xs" "stack_dim dim xs \<le> int (length (v_shape (hd xs)))"
    "v_shape y = take (nat (stack_dim dim xs)) (v_shape (hd xs)) @ int (length xs) #
       drop (nat (stack_dim dim xs)) (v_shape (hd xs))"
    "\<And>x. x \<in> set xs \<Longrightarrow> v_shape x = v_shape (hd xs)"
    "v_stride y = rm_strides (v_shape y)" "v_dtype y = v_dtype (hd xs)"
proof -
  show ne: "xs \<noteq> []" using assms by (auto simp: StackOp_reshape_def)
  have d: "(if dim < 0 then dim + (int (length (v_shape (hd xs))) + 1) else dim) = stack_dim dim xs"
    by (simp add: stack_dim_def)
  have h: "\<not> (stack_dim dim xs < 0 \<or> int (length (v_shape (hd xs))) < stack_dim dim xs)"
    "\<not> (\<exists>w \<in> set (tl xs). v_shape w \<noteq> v_shape (hd xs))"
    "one_output (take (nat (stack_dim dim xs)) (v_shape (hd xs)) @ int (length xs) #
       drop (nat (stack_dim dim xs)) (v_shape (hd xs))) (hd xs) u = Inr [Some y]"
    using assms ne unfolding StackOp_reshape_def by (auto simp: Let_def d split: if_splits)
  then show "0 \<le> stack_dim dim xs" "stack_dim dim xs \<le> int (length (v_shape (hd xs)))" by auto
  show "v_shape x = v_shape (hd xs)" if "x \<in> set xs" for x
    using h(2) that ne by (cases xs) auto
  show "v_shape y = take (nat (stack_dim dim xs)) (v_shape (hd xs)) @ int (length xs) #
       drop (nat (stack_dim dim xs)) (v_shape (hd xs))"
    "v_stride y = rm_strides (v_shape y)" "v_dtype y = v_dtype (hd xs)"
    using one_output_Inr [OF h(3)] by auto
qed

subsection \<open>Concatenation\<close>

definition joinable :: "(nat \<Rightarrow> int) \<Rightarrow> nat \<Rightarrow> view list \<Rightarrow> view \<Rightarrow> bool" where
  "joinable base d xs y \<longleftrightarrow> (\<forall>x \<in> set xs. view_ok x \<and> v_dtype x = v_dtype y \<and>
     footprint base x \<inter> footprint base y = {} \<and> v_shape x = (v_shape (hd xs))[d := v_shape x ! d])"

lemma concat_output_ready:
  assumes "ConcatOp_reshape dim u (map Some xs) = Inr [Some y]" "shape_ok (v_shape y)"
    and "float_width (v_dtype y) \<noteq> None" "joinable base (nat (wrap_dim dim (v_shape (hd xs)))) xs y"
  shows "concat_ready base (dim, xs, y)"
  unfolding concat_ready_def prod.case Let_def
  using ConcatOp_output [OF assms(1)] packed_output [OF assms(2) _ assms(3)] assms(3,4)
  unfolding joinable_def by blast

lemma concat_element_at:
  assumes "concat_ready base (dim, xs, y)" "ConcatOp_forward base dim (map Some xs) [Some y] m = Inr m'"
    and "k < length xs" "in_range (a @ i # b) (v_shape (xs ! k))"
    and "length a = nat (wrap_dim dim (v_shape (hd xs)))"
  shows "elem base m' y (a @ ((\<Sum>x \<leftarrow> take k xs. v_shape x ! length a) + i) # b) = elem base m (xs ! k) (a @ i # b)"
proof -
  from assms(1) obtain A B where h: "nat (wrap_dim dim (v_shape (hd xs))) = length A"
    "\<And>x. x \<in> set xs \<Longrightarrow> v_shape x = A @ v_shape x ! length A # B"
    "v_shape y = A @ (\<Sum>x \<leftarrow> xs. v_shape x ! length A) # B"
    "\<And>x. x \<in> set xs \<Longrightarrow> view_ok x \<and> v_dtype x = v_dtype y \<and> footprint base x \<inter> footprint base y = {}"
    by (rule concat_readyD) blast
  let ?cs = "map (\<lambda>x. v_shape x ! length A) xs" and ?off = "\<Sum>x \<leftarrow> take k xs. v_shape x ! length a"
  have l: "length a = length A" using assms(5) h(1) by simp
  have off: "?off = sum_list (take k ?cs)" by (simp add: l take_map)
  have x: "xs ! k \<in> set xs" using assms(3) by simp
  have "in_range (a @ i # b) (A @ v_shape (xs ! k) ! length A # B)" using assms(4) h(2) [OF x] by simp
  then have r: "in_range a A" "0 \<le> i" "i < ?cs ! k" "in_range b B" using l assms(3) by (simp_all add: in_range_mid)
  have c0: "0 \<le> c" if "c \<in> set ?cs" for c
  proof -
    from that obtain z where z: "z \<in> set xs" "c = v_shape z ! length A" by auto
    have "shape_ok (A @ c # B)" using h(2,4) [OF z(1)] z(2) by (metis view_ok_def)
    then show ?thesis by (auto dest: shape_parts(2))
  qed
  have "locate ?cs (sum_list (take k ?cs) + i) = (k, i)"
    by (rule locate_at) (use assms(3) r c0 in simp_all)
  then have f: "concat_input (dim, xs, y) (a @ (?off + i) # b) = (xs ! k, a @ i # b)"
    by (simp add: concat_input_at [OF h(1) l] off)
  have T: "sum_list ?cs = sum_list (take k ?cs) + ?cs ! k + sum_list (drop (Suc k) ?cs)"
  proof -
    have "?cs = take k ?cs @ ?cs ! k # drop (Suc k) ?cs" using assms(3) by (intro id_take_nth_drop) simp
    then have "sum_list ?cs = sum_list (take k ?cs @ ?cs ! k # drop (Suc k) ?cs)" by (rule arg_cong)
    then show ?thesis by (simp only: sum_list.append sum_list.Cons add.assoc)
  qed
  have "0 \<le> sum_list (take k ?cs)" by (rule sum_list_nonneg) (rule c0, erule in_set_takeD)
  moreover have "0 \<le> sum_list (drop (Suc k) ?cs)" by (rule sum_list_nonneg) (rule c0, erule in_set_dropD)
  moreover note T r off
  ultimately have "0 \<le> ?off + i" "?off + i < sum_list ?cs" by linarith+
  with r l have "in_range (a @ (?off + i) # b) (v_shape y)" by (simp add: h(3) in_range_mid)
  from concat_kernel.copies [of base "(dim, xs, y)" m m' "a @ (?off + i) # b" "xs ! k" "a @ i # b"] this f assms(1,2)
  show ?thesis by simp
qed

text \<open>
  Concatenation puts every element of every input at its index, shifted along the joined dimension
  by the sizes of the inputs before it: on the path that copies blocks and on the path for views that
  are not contiguous.
\<close>

theorem concat_places:
  assumes "ConcatOp_reshape dim u (map Some xs) = Inr [Some y]" "shape_ok (v_shape y)"
    and "float_width (v_dtype y) \<noteq> None" "d = nat (wrap_dim dim (v_shape (hd xs)))" "joinable base d xs y"
    and "k < length xs" "in_range (a @ i # b) (v_shape (xs ! k))" "length a = d"
  shows "\<exists>m'. ConcatOp_forward base dim (map Some xs) [Some y] m = Inr m' \<and>
    elem base m' y (a @ ((\<Sum>x \<leftarrow> take k xs. v_shape x ! d) + i) # b) = elem base m (xs ! k) (a @ i # b)"
proof -
  have ok: "concat_ready base (dim, xs, y)" 
    using concat_output_ready [OF assms(1-3), of base] assms(5) unfolding assms(4) by blast
  obtain m' where m': "ConcatOp_forward base dim (map Some xs) [Some y] m = Inr m'"
    using concat_kernel.ends [of base "(dim, xs, y)" m] ok by auto
  have "length a = nat (wrap_dim dim (v_shape (hd xs)))" using assms(4,8) by simp
  from concat_element_at [OF ok m' assms(6,7) this] m' show ?thesis by (simp add: assms(8))
qed

lemma locate_sum: "sum_list (take (fst (locate cs i)) cs) + snd (locate cs i) = i"
proof (induction cs i rule: locate.induct)
  case (2 c cs i)
  then show ?case by (cases "i < c") (simp_all add: algebra_simps)
qed simp

lemma split_sections_set: "split_sections sizes n = Inr ss \<Longrightarrow> set ss \<subseteq> set sizes"
  by (cases sizes) (auto simp: split_sections_def Let_def outcome_simps split: if_splits)

lemma dot_append: "length a = length S \<Longrightarrow> dot (a @ r) (S @ R) = dot a S + dot r R"
  by (induction a S rule: list_induct2) simp_all

text \<open>The address of an element does not change when the view is cut along a dimension.\<close>

lemma section_elem:
  assumes it: "view_ok it" "0 \<le> v_offset it" "v_offset it + span it < 2 ^ 31"
    and sh: "v_shape it = A @ T # B"
    and w: "v_store w = v_store it" "v_stride w = v_stride it" "v_shape w = A @ c # B"
      "v_offset w = v_offset it + off * (v_stride it ! length A)"
    and c: "0 \<le> off" "0 < c" "off + c \<le> T"
  shows "view_ok w" "footprint base w \<subseteq> footprint base it"
    "\<And>a i b. length a = length A \<Longrightarrow> elem_addr base w (a @ i # b) = elem_addr base it (a @ (off + i) # b)"
proof -
  have l: "length (v_stride it) = length (A @ T # B)" using it(1) sh by (simp add: view_ok_def)
  define S s R where S_def: "S = take (length A) (v_stride it)" and "s = v_stride it ! length A"
    and R_def: "R = drop (Suc (length A)) (v_stride it)"
  have "v_stride it = S @ s # R"
    unfolding S_def s_def R_def using l by (intro id_take_nth_drop) simp
  moreover have "length S = length A" "length R = length B" using l by (simp_all add: S_def R_def)
  ultimately have S: "v_stride it = S @ s # R" "length S = length A" "length R = length B" by blast+
  have nn: "0 \<le> s" "\<forall>x \<in> set S. 0 \<le> x" "\<forall>x \<in> set R. 0 \<le> x" using it(1) by (simp_all add: view_ok_def S(1))
  have dims: "\<forall>d \<in> set A. 0 < d" "\<forall>d \<in> set B. 0 < d" "0 < T"
    using it(1) by (auto simp: view_ok_def shape_ok_def sh)
  let ?m = "map (\<lambda>d. d - 1)"
  have sp: "span it = dot (?m A) S + (T - 1) * s + dot (?m B) R + 1"
    "span w = dot (?m A) S + (c - 1) * s + dot (?m B) R + 1"
    by (simp_all add: span_def sh w S dot_append)
  have ms: "off * s + (c - 1) * s \<le> (T - 1) * s" "0 \<le> off * s" "0 \<le> (c - 1) * s"
    using mult_right_mono [of "off + (c - 1)" "T - 1" s] mult_nonneg_nonneg [of "c - 1" s] nn c
    by (simp_all add: distrib_right)
  have rng: "in_range (?m A) A" "in_range (?m B) B"
    using dims(1,2) by (simp_all add: in_range_def list_all2_conv_all_nth)
  have d0: "0 \<le> dot (?m A) S" "0 \<le> dot (?m B) R"
    using dot_le_last [OF rng(1), of S] dot_le_last [OF rng(2), of R] S nn by simp_all
  have le: "off * s + span w \<le> span it" "span it < 2 ^ 31" using sp ms it(1) by (auto simp: view_ok_def)
  have ow: "v_offset w = v_offset it + off * s" by (simp add: w s_def)
  have es: "elem_size w = elem_size it" "v_dtype w = v_dtype it" by (simp_all add: elem_size_def v_dtype_def w)
  have lanes: "lanesOfType (v_dtype it) = 1" using it(1) by (simp add: view_ok_def)
  have b: "byte_offset (v_dtype it) (v_offset it) = v_offset it * elem_size it"
    "byte_offset (v_dtype it) (v_offset w) = (v_offset it + off * s) * elem_size it"
    using byte_offset_small [OF lanes, of "v_offset it"] byte_offset_small [OF lanes, of "v_offset w"]
      it(2,3) le ms sp d0 by (simp_all add: ow elem_size_def)
  have base: "out_addr base w = out_addr base it + off * s * elem_size it"
    using b by (simp add: out_addr_def barePtr_def w(1) es(2) distrib_right)
  have "c * (prod_list A * prod_list B) \<le> T * (prod_list A * prod_list B)"
    using c dims by (intro mult_right_mono) (simp_all add: prod_list_pos less_imp_le)
  then have "shape_ok (v_shape w)"
    using it(1) c by (simp add: view_ok_def shape_ok_def sh w ac_simps)
  then show "view_ok w"
    using it(1) le ms(2) by (simp add: view_ok_def w sh es(2))
  have "off * s * elem_size it + span w * elem_size it \<le> span it * elem_size it" "0 \<le> off * s * elem_size it"
    using mult_right_mono [OF le(1), of "elem_size it"] ms(2) elem_size_bounds [of it]
    by (simp_all add: distrib_right)
  then show "footprint base w \<subseteq> footprint base it" by (auto simp: footprint_def base es(1))
  fix a b :: "int list" and i assume "length a = length A"
  then show "elem_addr base w (a @ i # b) = elem_addr base it (a @ (off + i) # b)"
    using S by (simp add: elem_addr_def base es(1) w dot_append algebra_simps)
qed

lemma split_views_of:
  assumes it: "view_ok it" "0 \<le> v_offset it" "v_offset it + span it < 2 ^ 31"
    and dim: "0 \<le> dim" "nat dim = length A" "v_shape it = A @ T # B" and sz: "\<forall>s \<in> set sizes. 0 < s"
    and split: "SplitOp_reshape dim sizes (Some it) = Inr ws"
  obtains xs ss where "ws = map Some xs" "length xs = length ss" "sum_list ss = T" "\<forall>s \<in> set ss. 0 < s"
    "\<And>k. k < length ss \<Longrightarrow> view_ok (xs ! k) \<and> footprint base (xs ! k) \<subseteq> footprint base it \<and>
       v_dtype (xs ! k) = v_dtype it \<and> v_shape (xs ! k) = A @ ss ! k # B"
    "\<And>k a i b. k < length ss \<Longrightarrow> length a = length A \<Longrightarrow>
       elem_addr base (xs ! k) (a @ i # b) = elem_addr base it (a @ (sum_list (take k ss) + i) # b)"
proof -
  have st: "length (v_stride it) = length (v_shape it)" using it(1) by (simp add: view_ok_def)
  obtain ss where ss: "split_sections sizes (v_shape it ! nat dim) = Inr ss"
    and ws: "split_views dim it ss 0 = Inr ws"
    using split dim(1) by (auto simp: SplitOp_reshape_def impl_def Let_def outcome_simps)
  have T: "v_shape it ! nat dim = T" by (simp add: dim)
  have "T \<in> set (v_shape it)" by (simp add: dim(3))
  then have "0 < T" using it(1) by (auto simp: view_ok_def shape_ok_def)
  then have sum: "sum_list ss = T" using split_sections_sum [OF ss sz] T by simp
  have pos: "\<forall>s \<in> set ss. 0 < s" using split_sections_set [OF ss] sz by blast
  note v = split_views_Inr [OF ws st]
  define xs where "xs = map the ws"
  have wx: "ws = map Some xs"
    using v by (auto simp: xs_def intro!: nth_equalityI)
  have len: "length xs = length ss" using v by (simp add: xs_def)
  have x: "v_store (xs ! k) = v_store it \<and> v_shape (xs ! k) = A @ ss ! k # B \<and>
      v_stride (xs ! k) = v_stride it \<and> v_offset (xs ! k) = v_offset it + sum_list (take k ss) * (v_stride it ! length A)"
    if "k < length ss" for k
    using v that len by (auto simp: wx dim(2,3))
  have off: "0 \<le> sum_list (take k ss)" "0 < ss ! k" "sum_list (take k ss) + ss ! k \<le> T" if "k < length ss" for k
  proof -
    show "0 \<le> sum_list (take k ss)" by (rule sum_list_nonneg) (use pos in \<open>auto dest!: in_set_takeD intro: less_imp_le\<close>)
    show "0 < ss ! k" using pos that by simp
    have "0 \<le> sum_list (drop (Suc k) ss)"
      by (rule sum_list_nonneg) (use pos in \<open>auto dest!: in_set_dropD intro: less_imp_le\<close>)
    moreover have "sum_list ss = sum_list (take k ss @ ss ! k # drop (Suc k) ss)"
      by (rule arg_cong [OF id_take_nth_drop [OF that]])
    ultimately show "sum_list (take k ss) + ss ! k \<le> T" using sum by simp
  qed
  show thesis
  proof (rule that [OF wx len sum pos])
    fix k assume k: "k < length ss"
    note se = section_elem [OF it dim(3), of "xs ! k" "ss ! k" "sum_list (take k ss)"]
    show "view_ok (xs ! k) \<and> footprint base (xs ! k) \<subseteq> footprint base it \<and>
        v_dtype (xs ! k) = v_dtype it \<and> v_shape (xs ! k) = A @ ss ! k # B"
      using se(1,2) x [OF k] off [OF k] by (simp add: v_dtype_def)
    fix a b :: "int list" and i assume "length a = length A"
    then show "elem_addr base (xs ! k) (a @ i # b) = elem_addr base it (a @ (sum_list (take k ss) + i) # b)"
      using se(3) x [OF k] off [OF k] by simp
  qed
qed

text \<open>
  C33: splitting a tensor of fp32 or fp16 along a dimension, counted from the first one, into sections of
  positive size and concatenating them gives back the tensor: the same shape, and at every index the same
  bytes, although the sections are strided views of the original storage.
\<close>

theorem concat_restores_split:
  assumes "view_ok it" "0 \<le> v_offset it" "v_offset it + span it < 2 ^ 31" "float_width (v_dtype it) \<noteq> None"
    and "0 \<le> dim" "\<forall>s \<in> set sizes. 0 < s" "SplitOp_reshape dim sizes (Some it) = Inr ws"
    and "ConcatOp_reshape dim u ws = Inr [Some y]" "footprint base it \<inter> footprint base y = {}"
    and "in_range idx (v_shape it)"
  shows "\<exists>m'. ConcatOp_forward base dim ws [Some y] m = Inr m' \<and> v_shape y = v_shape it \<and>
    elem base m' y idx = elem base m it idx"
proof -
  have "dim < int (length (v_shape it))"
    using assms(5,7) by (auto simp: SplitOp_reshape_def impl_def Let_def outcome_simps)
  then obtain A T B where sh: "v_shape it = A @ T # B" "nat dim = length A"
    using shape_at [OF assms(5)] by blast
  obtain xs ss where s: "ws = map Some xs" "length xs = length ss" "sum_list ss = T" "\<forall>s \<in> set ss. 0 < s"
    "\<And>k. k < length ss \<Longrightarrow> view_ok (xs ! k) \<and> footprint base (xs ! k) \<subseteq> footprint base it \<and>
       v_dtype (xs ! k) = v_dtype it \<and> v_shape (xs ! k) = A @ ss ! k # B"
    "\<And>k a i b. k < length ss \<Longrightarrow> length a = length A \<Longrightarrow>
       elem_addr base (xs ! k) (a @ i # b) = elem_addr base it (a @ (sum_list (take k ss) + i) # b)"
    by (rule split_views_of [OF assms(1-3,5) sh(2,1) assms(6,7), of base]) blast
  have d: "wrap_dim dim (v_shape (hd xs)) = dim" using assms(5) by (simp add: wrap_dim_def)
  note out = ConcatOp_output [OF assms(8) [unfolded s(1)], unfolded d]
  have h: "v_shape (hd xs) = A @ ss ! 0 # B" "v_dtype (hd xs) = v_dtype it"
    using s(5) [of 0] s(2) out(1) by (cases ss; simp add: hd_conv_nth)+
  have cs: "map (\<lambda>x. v_shape x ! length A) xs = ss"
    using s(2,5) by (intro nth_equalityI) simp_all
  have sy: "v_shape y = v_shape it" using out(4) by (simp add: h(1) sh cs s(3))
  have fw: "float_width (v_dtype y) \<noteq> None" "v_dtype y = v_dtype it" using out(6) h(2) assms(4) by simp_all
  have "joinable base (nat dim) xs y"
    unfolding joinable_def
  proof
    fix x assume "x \<in> set xs"
    then obtain k where "k < length ss" "x = xs ! k" using s(2) by (metis in_set_conv_nth)
    with s(5) [of k] h fw(2) assms(9) sh(2)
    show "view_ok x \<and> v_dtype x = v_dtype y \<and> footprint base x \<inter> footprint base y = {} \<and>
        v_shape x = (v_shape (hd xs))[nat dim := v_shape x ! nat dim]" by auto
  qed
  then have ok: "concat_ready base (dim, xs, y)"
    using concat_output_ready [OF assms(8) [unfolded s(1)]] sy assms(1) fw(1) d by (simp add: view_ok_def)
  obtain m' where m': "ConcatOp_forward base dim (map Some xs) [Some y] m = Inr m'"
    using concat_kernel.ends [of base "(dim, xs, y)" m] ok by auto
  from assms(10) sh(1) obtain a j b where idx: "idx = a @ j # b" "length a = length A" "0 \<le> j" "j < T"
    "in_range a A" "in_range b B" by (auto elim: in_range_split)
  let ?k = "fst (locate ss j)" and ?i = "snd (locate ss j)"
  have k: "?k < length ss" "0 \<le> ?i" "?i < ss ! ?k" using locate_range [OF idx(3)] idx(4) s(3) by simp_all
  have j: "sum_list (take ?k ss) + ?i = j"
by (rule locate_sum)
  have r: "in_range (a @ ?i # b) (v_shape (xs ! ?k))" using s(5) [OF k(1)] k idx by (simp add: in_range_mid)
  have "elem base m' y (a @ ((\<Sum>x \<leftarrow> take ?k xs. v_shape x ! length a) + ?i) # b) =
      elem base m (xs ! ?k) (a @ ?i # b)"
    using concat_element_at [OF ok m' _ r] k s(2) idx(2) d sh(2) by simp
  moreover have "(\<Sum>x \<leftarrow> take ?k xs. v_shape x ! length a) = sum_list (take ?k ss)"
    by (simp add: idx(2) take_map [symmetric] cs)
  moreover have "elem base m (xs ! ?k) (a @ ?i # b) = elem base m it idx"
    using s(5,6) [OF k(1)] idx(2) r assms(1,10) j
    by (simp add: elem_eq idx(1))
  ultimately have "elem base m' y idx = elem base m it idx" using j idx(1) by simp
  with m' sy s(1) show ?thesis by blast
qed

definition join_base :: "nat \<Rightarrow> int" where
  "join_base u = 1000 * int u"

lemmas kernel_eval = view_ok_def packed_def span_def footprint_def elem_size_def out_addr_def barePtr_def
  byte_offset_def u64_def join_base_def v_dtype_def shape_ok_def max_rank_def float_width_def

lemma concat_restores_split_witness:
  "\<exists>ws y m'. SplitOp_reshape 1 [1, 2] (Some demo_view) = Inr ws \<and>
     ConcatOp_forward join_base 1 ws [Some y] of_int = Inr m' \<and>
     elem join_base m' y [1, 2] = elem join_base of_int demo_view [1, 2]"
proof -
  let ?v = "\<lambda>n off. \<lparr>v_shape = [2, n], v_stride = [3, 1], v_offset = off, v_store = demo_store\<rparr>"
  let ?ws = "[Some (?v 1 0), Some (?v 2 1)]"
  have s: "SplitOp_reshape 1 [1, 2] (Some demo_view) = Inr ?ws" by (simp add: view_eval)
  obtain y where y: "ConcatOp_reshape 1 5 ?ws = Inr [Some y]" "y = \<lparr>v_shape = [2, 3], v_stride = [3, 1],
      v_offset = 0, v_store = \<lparr>ts_uuid = 5, ts_size = 24, ts_dtype = kFloat32, ts_device = kCPU\<rparr>\<rparr>"
    by (simp add: demo_eval ConcatOp_reshape_def Let_def upt_conv_Cons numeral_2_eq_2 u64_def)
  have h: "view_ok demo_view" "0 \<le> v_offset demo_view" "v_offset demo_view + span demo_view < 2 ^ 31"
    "float_width (v_dtype demo_view) \<noteq> None" "in_range [1, 2] (v_shape demo_view)"
    "\<forall>s \<in> set [1, 2 :: int]. 0 < s" "(0 :: int) \<le> 1"
    by (simp_all add: kernel_eval demo_view_def demo_store_def)
  have "footprint join_base demo_view \<inter> footprint join_base y = {}"
    by (simp add: kernel_eval demo_view_def demo_store_def y(2))
  from concat_restores_split [OF h(1-4,7,6) s y(1) this h(5), of of_int] s show ?thesis by blast
qed

subsection \<open>Stacking\<close>

text \<open>
  Stacking puts element \<open>a @ b\<close> of input \<open>k\<close> at index \<open>a @ k # b\<close>, on both paths.
\<close>

theorem stack_places:
  assumes "StackOp_reshape dim u (map Some xs) = Inr [Some y]" "shape_ok (v_shape y)"
    and "float_width (v_dtype y) \<noteq> None"
    and "\<forall>x \<in> set xs. view_ok x \<and> v_dtype x = v_dtype y \<and> footprint base x \<inter> footprint base y = {}"
    and "k < length xs" "in_range (a @ b) (v_shape (xs ! k))" "int (length a) = stack_dim dim xs"
  shows "\<exists>m'. StackOp_forward base dim (map Some xs) [Some y] m = Inr m' \<and>
    elem base m' y (a @ int k # b) = elem base m (xs ! k) (a @ b)"
proof -
  note out = StackOp_output [OF assms(1)]
  have ok: "stack_ready base (dim, xs, y)"
    unfolding stack_ready_def prod.case
    using out packed_output [OF assms(2) out(6) assms(3)] assms(3,4) by blast
  then obtain A B where h: "stack_dim dim xs = int (length A)" "\<And>x. x \<in> set xs \<Longrightarrow> v_shape x = A @ B"
    "v_shape y = A @ int (length xs) # B"
    by (rule stack_readyD) blast
  have l: "length a = length A" using assms(7) h(1) by simp
  have "in_range (a @ b) (A @ B)" using assms(6) h(2) [of "xs ! k"] assms(5) by simp
  then have "in_range (a @ int k # b) (v_shape y)"
    using l assms(5) by (simp add: h(3) in_range_mid in_range_append)
  moreover have "stack_input (dim, xs, y) (a @ int k # b) = (xs ! k, a @ b)"
    by (simp add: stack_input_at [OF h(1) l])
  moreover obtain m' where "StackOp_forward base dim (map Some xs) [Some y] m = Inr m'"
    using stack_kernel.ends [of base "(dim, xs, y)" m] ok by auto
  ultimately show ?thesis using stack_kernel.copies [of base "(dim, xs, y)" m m'] ok by auto
qed

subsection \<open>Repeating\<close>

text \<open>After a repeat, index \<open>i\<close> of the repeated dimension holds the input's index \<open>i div n\<close>.\<close>

theorem repeat_places:
  assumes "RepeatOp_reshape dim n u [Some x] = Inr [Some y]" "packed x" "shape_ok (v_shape y)"
    and "float_width (v_dtype x) \<noteq> None" "0 < n" "n < 2 ^ 31" "footprint base x \<inter> footprint base y = {}"
    and "in_range (a @ i # b) (v_shape y)" "int (length a) = dim"
  shows "\<exists>m'. RepeatOp_forward base dim n [Some x] [Some y] m = Inr m' \<and>
    elem base m' y (a @ i # b) = elem base m x (a @ i div n # b)"
proof -
  have d: "0 \<le> dim" "dim < int (length (v_shape x))" "v_shape y = (v_shape x)[nat dim := v_shape x ! nat dim * n]"
    "v_stride y = rm_strides (v_shape y)" "v_dtype y = v_dtype x"
    using assms(1) by (auto simp: RepeatOp_reshape_def outcome_simps dest!: one_output_Inr)
  have y: "packed y" using packed_output [OF assms(3) d(4)] assms(4) d(5) by simp
  have ok: "repeat_fits base (dim, n, x, y)"
    using assms d y by (simp add: repeat_fits_def repeat_ready_def)
  have f: "repeat_input (dim, n, x, y) (a @ i # b) = (x, a @ i div n # b)"
    using assms(9) by (simp add: repeat_input_def nth_append list_update_append flip: assms(9))
  obtain m' where m': "RepeatOp_forward base dim n [Some x] [Some y] m = Inr m'"
    using repeat_kernel.ends [of base "(dim, n, x, y)" m] ok by auto
  from repeat_kernel.copies [of base "(dim, n, x, y)" m m', OF ok] m' f assms(8) show ?thesis by simp
qed

subsection \<open>Gathering\<close>

text \<open>
  What the four bytes of an index say, without the code: an \<^verbatim>\<open>int32_t\<close> is the number that they encode in
  two's complement, a \<^verbatim>\<open>float\<close> the number with the fraction cut off. A finite IEEE single with the exponent
  field \<open>e\<close> and the significand \<open>s\<close> has the magnitude \<open>s * 2 ^ max 1 e / 2 ^ 150\<close>.
\<close>

definition le_word :: "8 word list \<Rightarrow> int" where
  "le_word bs = (\<Sum>i < length bs. uint (bs ! i) * 256 ^ i)"

definition int32_is :: "int \<Rightarrow> int \<Rightarrow> bool" where
  "int32_is w v \<longleftrightarrow> - (2 ^ 31) \<le> v \<and> v < 2 ^ 31 \<and> v mod 2 ^ 32 = w"

definition float_cut_is :: "int \<Rightarrow> int \<Rightarrow> bool" where
  "float_cut_is w v \<longleftrightarrow>
     (let e = w div 2 ^ 23 mod 2 ^ 8; f = w mod 2 ^ 23; s = (if e = 0 then f else 2 ^ 23 + f)
      in e \<noteq> 255 \<and> (if w < 2 ^ 31 then 0 \<le> v else v \<le> 0) \<and>
         \<bar>v\<bar> * 2 ^ 150 \<le> s * 2 ^ nat (max 1 e) \<and> s * 2 ^ nat (max 1 e) < (\<bar>v\<bar> + 1) * 2 ^ 150)"

definition index_is :: "dtype \<Rightarrow> 8 word list outcome \<Rightarrow> int \<Rightarrow> bool" where
  "index_is dt element v \<longleftrightarrow> (\<exists>bs. element = Inr bs \<and> length bs = 4 \<and>
     (if dt = kInt32 then int32_is (le_word bs) v else dt = kFloat32 \<and> float_cut_is (le_word bs) v))"

lemma div_between: "q * b \<le> a \<Longrightarrow> a < (q + 1) * b \<Longrightarrow> a div b = (q :: int)"
  by (rule int_div_pos_eq [where r = "a - b * q"]) (simp_all add: algebra_simps)

lemma float_cut_value:
  assumes "0 \<le> w" "w < 2 ^ 32" "float_cut_is w v" "\<bar>v\<bar> < 2 ^ 62"
  shows "f32_to_i64 w = Inr v"
proof -
  define e f where "e = w div 2 ^ 23 mod 2 ^ 8" and "f = w mod 2 ^ 23"
  let ?m = "2 ^ 23 + f" and ?s = "if e = 0 then f else 2 ^ 23 + f"
  let ?a = "if e < 127 then 0 else if e \<le> 150 then ?m div 2 ^ nat (150 - e) else ?m * 2 ^ nat (e - 150)"
  have h: "e \<noteq> 255" "if w < 2 ^ 31 then 0 \<le> v else v \<le> 0" "\<bar>v\<bar> * 2 ^ 150 \<le> ?s * 2 ^ nat (max 1 e)"
    "?s * 2 ^ nat (max 1 e) < (\<bar>v\<bar> + 1) * 2 ^ 150"
    using assms(3) unfolding float_cut_is_def Let_def e_def [symmetric] f_def [symmetric] by blast+
  have r: "0 \<le> e" "0 \<le> f" "f < 2 ^ 23" by (simp_all add: e_def f_def)
  have q: "?s * 2 ^ nat (max 1 e) div 2 ^ 150 = \<bar>v\<bar>"
    by (rule div_between [OF h(3,4)])
  have "?a = ?s * 2 ^ nat (max 1 e) div 2 ^ 150"
  proof -
    consider "e < 127" | "127 \<le> e" "e \<le> 150" | "150 < e" by linarith
    then show ?thesis
    proof cases
      case 1
      have "?s * 2 ^ nat (max 1 e) < 2 ^ 24 * 2 ^ 126"
        using r 1 by (intro mult_less_le_imp_less power_increasing) auto
      moreover have "0 \<le> ?s * 2 ^ nat (max 1 e)" using r by simp
      ultimately show ?thesis using 1 by (simp add: div_pos_pos_trivial)
    next
      case 2
      have b: "(2 :: int) ^ 150 = 2 ^ nat (150 - e) * 2 ^ nat e" using 2 by (simp flip: power_add nat_add_distrib)
      have "?m * 2 ^ nat e div (2 ^ nat (150 - e) * 2 ^ nat e) = ?m div 2 ^ nat (150 - e)"
        by (rule div_mult_mult2) simp
      moreover have "?a = ?m div 2 ^ nat (150 - e)" "?s = ?m" "max 1 e = e" using 2 by simp_all
      ultimately show ?thesis unfolding b by (simp only:)
    next
      case 3
      have "nat e = nat (e - 150) + 150" using 3 by simp
      then have b: "(2 :: int) ^ nat e = 2 ^ nat (e - 150) * 2 ^ 150" by (simp only: power_add)
      have "?m * (2 ^ nat (e - 150) * 2 ^ 150) div 2 ^ 150 = ?m * 2 ^ nat (e - 150)"
        unfolding mult.assoc [symmetric] by (rule nonzero_mult_div_cancel_right) simp
      moreover have "?a = ?m * 2 ^ nat (e - 150)" "?s = ?m" "max 1 e = e" using 3 by simp_all
      ultimately show ?thesis unfolding b [symmetric] by (simp only:)
    qed
  qed
  then have a: "?a = \<bar>v\<bar>" using q by simp
  have "w div 2 ^ 31 = 0 \<longleftrightarrow> w < 2 ^ 31" using assms(1) by (auto simp: div_pos_pos_trivial zdiv_eq_0_iff)
  then have "(if w div 2 ^ 31 = 0 then ?a else - ?a) = v" using h(2) unfolding a by (auto split: if_splits)
  moreover have "i64 v = Inr v" using assms(4) by (auto simp: i64_def)
  ultimately show ?thesis
    using h(1) unfolding f32_to_i64_def Let_def e_def f_def by presburger
qed

lemma le_word4:
  "le_word [a, b, c, d] = uint a + 2 ^ 8 * uint b + 2 ^ 16 * uint c + 2 ^ 24 * uint d"
  "0 \<le> le_word [a, b, c, d]" "le_word [a, b, c, d] < 2 ^ 32"
  using uint_lt2p [of a] uint_lt2p [of b] uint_lt2p [of c] uint_lt2p [of d]
  by (simp_all add: le_word_def lessThan_Suc eval_nat_numeral)

lemma int32_value: "int32_is w v \<Longrightarrow> to_i32 w = v"
proof -
  assume h: "int32_is w v"
  have "(v mod 2 ^ 32 + 2 ^ 31) mod 2 ^ 32 = (v + 2 ^ 31) mod 2 ^ 32" by (rule mod_add_left_eq)
  moreover have "(v + 2 ^ 31) mod 2 ^ 32 = v + 2 ^ 31" using h by (intro mod_pos_pos_trivial) (simp_all add: int32_is_def)
  ultimately show ?thesis using h by (simp add: int32_is_def to_i32_def)
qed

lemma index_read:
  assumes "packed ix" "in_range k (v_shape ix)" "index_is (v_dtype ix) (elem base m ix k) v"
    and "- D \<le> v" "v < D" "D < 2 ^ 31"
  shows "gather_index (v_dtype ix = kInt32) (out_addr base ix) D (flat k (v_shape ix)) m =
    Inr (if v < 0 then D + v else v)"
proof -
  let ?p = "out_addr base ix + flat k (v_shape ix) * 4"
  obtain bs where b: "elem base m ix k = Inr bs" "length bs = 4"
    "if v_dtype ix = kInt32 then int32_is (le_word bs) v else v_dtype ix = kFloat32 \<and> float_cut_is (le_word bs) v"
    using assms(3) by (auto simp: index_is_def)
  then have dt: "bytesOfType (v_dtype ix) = 4"
    by (auto simp: bytesOfType_def sizeof_def dtype_tables split: if_splits)
  have e: "elem_size ix = 4" by (simp add: elem_size_def dt)
  have bs: "bs = [m ?p, m (?p + 1), m (?p + 2), m (?p + 3)]"
    using b(1) elem_eq [OF packed_ok [OF assms(1)] assms(2), of base m] packed_addr [OF assms(1), of base k]
    by (simp add: dt e eval_nat_numeral)
  have w: "le_word bs = read_u32 m ?p" "0 \<le> le_word bs" "le_word bs < 2 ^ 32"
    unfolding bs by (simp_all only: le_word4(1) read_u32_def) (use le_word4(2,3) in \<open>simp_all only: le_word4(1)\<close>)
  have v: "\<bar>v\<bar> < 2 ^ 62" "i64 (v + D) = Inr (D + v)" using assms(4-6) by (auto simp: i64_def)
  have "read_i32 m ?p = to_i32 (read_u32 m ?p)" by (simp add: read_i32_def read_u32_def)
  then have "(if v_dtype ix = kInt32 then Inr (read_i32 m ?p) else f32_to_i64 (read_u32 m ?p)) = (Inr v :: int outcome)"
    using b(3) w int32_value [of "le_word bs" v] float_cut_value [of "le_word bs" v] v(1) by (auto split: if_splits)
  then show ?thesis using v(2) by (simp add: gather_index_def)
qed

text \<open>
  C35: With indices that are packed and all name a slice of the table (from minus the size of the dimension to the
  size minus one), gathering from a packed table of fp32, fp16 or int32 puts at \<open>a @ k @ b\<close> of its output the
  element \<open>a @ i # b\<close> of the table, where \<open>i\<close> is the number that the bytes of the index \<open>k\<close> encode
  (two's complement, or an IEEE single with its fraction cut off), counted from the end of the dimension when it
  is below zero.
\<close>

theorem gather_places:
  assumes "GatherOp_reshape dim u [Some table, Some ix] = Inr [Some y]" "packed table" "packed ix"
    and "shape_ok (v_shape y)" "v_dtype table \<in> {kFloat32, kFloat16, kInt32}"
    and "footprint base table \<inter> footprint base y = {}" "footprint base ix \<inter> footprint base y = {}"
    and "d = nat (wrap_dim dim (v_shape table))" "D = v_shape table ! d"
    and "\<And>k. in_range k (v_shape ix) \<Longrightarrow> index_is (v_dtype ix) (elem base m ix k) (val k) \<and> - D \<le> val k \<and> val k < D"
    and "length a = d" "in_range k (v_shape ix)" "in_range (a @ k @ b) (v_shape y)"
  shows "\<exists>m'. GatherOp_forward base dim [Some table, Some ix] [Some y] m = Inr m' \<and>
    elem base m' y (a @ k @ b) = elem base m table (a @ (if val k < 0 then D + val k else val k) # b)"
proof -
  let ?d = "wrap_dim dim (v_shape table)" and ?n = "prod_list (v_shape ix)"
  let ?g = "gather_index (v_dtype ix = kInt32) (out_addr base ix) D"
  have y: "v_shape y = take d (v_shape table) @ v_shape ix @ drop (Suc d) (v_shape table)"
    "v_stride y = rm_strides (v_shape y)" "v_dtype y = v_dtype table"
    and r: "0 \<le> ?d" "?d < int (length (v_shape table))"
    using assms(1,8) by (auto simp: GatherOp_reshape_def Let_def outcome_simps dest!: one_output_Inr)
  have lanes: "lanesOfType (v_dtype table) = 1" "gather_width (v_dtype table) = elem_size table"
    using assms(5) by (auto simp: lanesOfType_def info_lanes_def gather_width_def elem_size_def bytesOfType_def
        sizeof_def float_width_def dtype_tables)
  have "v_shape table = take d (v_shape table) @ D # drop (Suc d) (v_shape table)"
    unfolding assms(9) by (rule id_take_nth_drop) (use r assms(8) in simp)
  then have "shape_ok (take d (v_shape table) @ D # drop (Suc d) (v_shape table))"
    using packed_shape [OF assms(2)] by (rule subst)
  note parts = shape_parts [OF this]
  have D: "0 < D" "D < 2 ^ 31" using parts(2,7,11) by linarith+
  define pos where "pos k = (if val k < 0 then D + val k else val k)" for k
  have g: "?g (flat k (v_shape ix)) m = Inr (pos k)" if "in_range k (v_shape ix)" for k
    using index_read [OF assms(3) that _ _ _ D(2), of base m "val k"] assms(10) [OF that] by (simp add: pos_def)
  define vals where "vals = map (\<lambda>i. pos (unflat (v_shape ix) i)) [0..?n - 1]"
  have n: "0 < ?n" "\<forall>c \<in> set (v_shape ix). 0 < c"
    using shape_ok_total [OF packed_shape [OF assms(3)]] packed_shape [OF assms(3)] by (simp_all add: shape_ok_def)
  have vals: "int (length vals) = ?n" "\<And>i. i < length vals \<Longrightarrow> vals ! i = pos (unflat (v_shape ix) (int i))"
    using n(1) by (simp_all add: vals_def)
  have u: "in_range (unflat (v_shape ix) i) (v_shape ix) \<and> flat (unflat (v_shape ix) i) (v_shape ix) = i"
    if "0 \<le> i" "i < ?n" for i
    using unflat_range [OF n(2) that] by blast
  have "gather_ready base (dim, table, ix, y, vals) m"
    unfolding gather_ready_def prod.case assms(8,9) [symmetric]
  proof (intro conjI allI impI ballI)
    show "packed y" using y(2,3) assms(4) lanes by (simp add: packed_def)
    show "v_dtype ix = kInt32 \<or> v_dtype ix = kFloat32"
      using assms(10) [OF assms(12)] by (auto simp: index_is_def split: if_splits)
    fix i assume i: "i < length vals"
    then have "int i < ?n" using vals(1) by linarith
    with u [of "int i"] g show "?g (int i) m = Inr (vals ! i)" by (metis of_nat_0_le_iff vals(2) [OF i])
  next
    fix w assume "w \<in> set vals"
    then obtain i where "w = pos (unflat (v_shape ix) i)" "0 \<le> i" "i < ?n" by (auto simp: vals_def)
    with u [of i] assms(10) [of "unflat (v_shape ix) i"] show "0 \<le> w" "w < D" by (auto simp: pos_def)
  qed (use assms y r lanes vals in simp_all)
  note ready = this
  have fk: "nat (flat k (v_shape ix)) < length vals" "unflat (v_shape ix) (flat k (v_shape ix)) = k"
    "0 \<le> flat k (v_shape ix)"
    using dot_bounds [OF assms(12)] vals(1) unflat_flat [OF assms(12)] by (simp_all add: nat_less_iff)
  have "vals ! nat (flat k (v_shape ix)) = (if val k < 0 then D + val k else val k)"
    using vals(2) [OF fk(1)] fk by (simp add: pos_def)
  moreover have "gather_input (dim, table, ix, y, vals) (a @ k @ b) = (table, a @ vals ! nat (flat k (v_shape ix)) # b)"
    by (rule gather_input_at) (use assms(8,11) in_range_length [OF assms(12)] in simp_all)
  moreover obtain m' where "GatherOp_forward base dim [Some table, Some ix] [Some y] m = Inr m'"
    using gather_kernel.ends [of base "(dim, table, ix, y, vals)" m] ready by auto
  ultimately show ?thesis
    using gather_kernel.copies [of base "(dim, table, ix, y, vals)" m m', OF ready] assms(13) by simp
qed

definition gather_table :: view where
  "gather_table = \<lparr>v_shape = [3, 2], v_stride = [2, 1], v_offset = 0, v_store =
     \<lparr>ts_uuid = 0, ts_size = 24, ts_dtype = kFloat32, ts_device = kCPU\<rparr>\<rparr>"

definition gather_ix :: view where
  "gather_ix = \<lparr>v_shape = [2], v_stride = [1], v_offset = 0, v_store =
     \<lparr>ts_uuid = 1, ts_size = 8, ts_dtype = kInt32, ts_device = kCPU\<rparr>\<rparr>"

definition gather_out :: view where
  "gather_out = \<lparr>v_shape = [2, 2], v_stride = [2, 1], v_offset = 0, v_store =
     \<lparr>ts_uuid = 2, ts_size = 16, ts_dtype = kFloat32, ts_device = kCPU\<rparr>\<rparr>"

definition gather_memory :: memory where
  "gather_memory a = (if a = 1000 then 2 else if 1000 < a \<and> a < 1004 then 0
     else if 1004 \<le> a \<and> a < 1008 then 255 else of_int a)"

lemma int32_layout [simp]: "lanesOfType kInt32 = 1" "bytesOfType kInt32 = 4"
  by (simp_all add: lanesOfType_def info_lanes_def bytesOfType_def sizeof_def dtype_tables)

lemma gather_places_witness:
  "\<exists>m'. GatherOp_forward join_base 0 [Some gather_table, Some gather_ix] [Some gather_out] gather_memory = Inr m' \<and>
     elem join_base m' gather_out [1, 1] = elem join_base gather_memory gather_table [2, 1]"
proof -
  let ?val = "\<lambda>k :: int list. if k = [0] then 2 else - 1 :: int"
  have p: "packed gather_table" "packed gather_ix" "shape_ok (v_shape gather_out)"
    "v_dtype gather_table \<in> {kFloat32, kFloat16, kInt32}" "in_range [1] (v_shape gather_ix)"
    "in_range ([] @ [1] @ [1]) (v_shape gather_out)" "length ([] :: int list) = 0"
    by (simp_all add: kernel_eval gather_table_def gather_ix_def gather_out_def)
  have f: "footprint join_base gather_table \<inter> footprint join_base gather_out = {}"
    "footprint join_base gather_ix \<inter> footprint join_base gather_out = {}"
    by (simp_all add: kernel_eval gather_table_def gather_ix_def gather_out_def)
  have s: "0 = nat (wrap_dim 0 (v_shape gather_table))" "3 = v_shape gather_table ! 0"
    by (simp_all add: wrap_dim_def gather_table_def)
  have r: "GatherOp_reshape 0 2 [Some gather_table, Some gather_ix] = Inr [Some gather_out]" by code_simp
  have v: "index_is (v_dtype gather_ix) (elem join_base gather_memory gather_ix k) (?val k) \<and> - 3 \<le> ?val k \<and> ?val k < 3"
    if "in_range k (v_shape gather_ix)" for k
  proof -
    have "k = [0] \<or> k = [1]" using that by (auto simp: gather_ix_def in_range_def list_all2_Cons2)
    moreover have "elem join_base gather_memory gather_ix [0] = Inr [2, 0, 0, 0]"
      "elem join_base gather_memory gather_ix [1] = Inr [255, 255, 255, 255]"
      "v_dtype gather_ix = kInt32"
      by code_simp+
    moreover have "uint (2 :: 8 word) = 2" "uint (255 :: 8 word) = 255" by simp_all
    ultimately show ?thesis by (auto simp: index_is_def le_word4 int32_is_def)
  qed
  from gather_places [where val = ?val, OF r p(1,2,3,4) f s v p(7,5,6)] show ?thesis by simp
qed

end
