(* ===== verification/Layout_Kernels.thy ===== *)
theory Layout_Kernels
  imports Join_Results
begin

text \<open>
  The kernels that change the layout of a tensor, \<^verbatim>\<open>mllm/backends/cpu/ops/{ContiguousOp,PermuteOp,CloneOp,
  CopyOp}.cpp\<close> and \<^verbatim>\<open>kernels/common/permute-inl.hpp\<close>, as they are built for x86.
\<close>

subsection \<open>ContiguousOp\<close>

text \<open>One copy of the loop over a one-dimensional view; the main loop does eight of them at a time.\<close>

fun copy_one :: "int \<Rightarrow> int \<Rightarrow> int \<times> int \<times> memory \<Rightarrow> int \<times> int \<times> memory" where
  "copy_one es sb (dst, src, m) = (dst + es, src + sb, memcpy dst src es m)"

definition copy_strided :: "int \<Rightarrow> int \<Rightarrow> int \<Rightarrow> int \<Rightarrow> int \<Rightarrow> memory \<Rightarrow> memory" where
  "copy_strided es sb n dst src m =
     (let remainder = n smod 8; limit = n - remainder
      in snd (snd ((((copy_one es sb) ^^ 8) ^^ nat (limit div 8))
                     (((copy_one es sb) ^^ nat remainder) (dst, src, m)))))"

text \<open>A sum of products of \<^verbatim>\<open>int32_t\<close> in an \<^verbatim>\<open>int64_t\<close>.\<close>

definition offset_sum :: "(int \<times> int) list \<Rightarrow> int outcome" where
  "offset_sum ps = ofold (\<lambda>(i, s) a. obind (i32 (i * s)) (\<lambda>p. i64 (a + p))) ps 0"

text \<open>Rows that are contiguous: one \<^verbatim>\<open>memcpy\<close> for each index of the other dimensions.\<close>

fun copy_rows ::
  "int \<Rightarrow> view \<Rightarrow> int \<Rightarrow> int \<Rightarrow> nat \<Rightarrow> int \<Rightarrow> int \<Rightarrow> memory \<Rightarrow> memory outcome" where
  "copy_rows es x src inner_bytes 0 idx dst m = Inr m"
| "copy_rows es x src inner_bytes (Suc n) idx dst m =
     obind (unravel (butlast (v_shape x)) idx) (\<lambda>is.
     obind (offset_sum (rev (zip is (butlast (v_stride x))))) (\<lambda>off.
       copy_rows es x src inner_bytes n (idx + 1) (dst + inner_bytes)
         (memcpy dst (src + u64 (off * es)) inner_bytes m)))"

text \<open>The index of the next element, the last dimension first.\<close>

fun next_index_rev :: "int list \<Rightarrow> int list \<Rightarrow> int list" where
  "next_index_rev (i # is) (d # ds) = (if i + 1 < d then (i + 1) # is else 0 # next_index_rev is ds)"
| "next_index_rev is ds = is"

definition next_index :: "int list \<Rightarrow> int list \<Rightarrow> int list" where
  "next_index is ds = rev (next_index_rev (rev is) (rev ds))"

fun copy_elements ::
  "int \<Rightarrow> int list \<Rightarrow> int list \<Rightarrow> int \<Rightarrow> nat \<Rightarrow> int list \<Rightarrow> int \<Rightarrow> memory \<Rightarrow> memory outcome" where
  "copy_elements es shape sb src 0 is dst m = Inr m"
| "copy_elements es shape sb src (Suc n) is dst m =
     obind (offset_sum (zip is sb)) (\<lambda>off.
       copy_elements es shape sb src n (next_index is shape) (dst + es) (memcpy dst (src + off) es m))"

definition ContiguousOp_forward ::
  "(nat \<Rightarrow> int) \<Rightarrow> tensor list \<Rightarrow> tensor list \<Rightarrow> memory \<Rightarrow> memory outcome" where
  "ContiguousOp_forward base ts os m =
     obind (inp ts 0) (\<lambda>x. obind (inp os 0) (\<lambda>y.
       let es = elem_size x; n = numel y; total_bytes = u64 (n * es);
           dst = out_addr base y; src = out_addr base x; ndim = length (v_shape x)
       in if n = 0 then Inr m
          else obind (isContiguous x) (\<lambda>c.
            if ndim = 0 \<or> c then Inr (memcpy dst src total_bytes m)
            else if ndim = 1 then
              Inr (copy_strided es (to_i32 (u64 (v_stride x ! 0 * es))) (v_shape x ! 0) dst src m)
            else if v_stride x ! (ndim - 1) = 1 then
              (let inner = u64 (v_shape x ! (ndim - 1))
               in if inner = 0 then Inl Undefined
                  else copy_rows es x src (u64 (inner * es)) (nat (n div inner)) 0 dst m)
            else copy_elements es (v_shape x) (map (\<lambda>s. to_i32 (u64 (s * es))) (v_stride x)) src (nat n)
                   (replicate ndim 0) dst m)))"

subsection \<open>CopyOp and CloneOp\<close>

text \<open>\<^verbatim>\<open>Tensor::bytes\<close> is the size of the storage of the input. The second input of a copy is its target.\<close>

definition CopyOp_forward :: "(nat \<Rightarrow> int) \<Rightarrow> tensor list \<Rightarrow> memory \<Rightarrow> memory outcome" where
  "CopyOp_forward base ts m =
     obind (inp ts 0) (\<lambda>i0. obind (inp ts 1) (\<lambda>i1.
       Inr (memcpy (out_addr base i1) (out_addr base i0) (ts_size (v_store i0)) m)))"

definition CloneOp_forward :: "(nat \<Rightarrow> int) \<Rightarrow> tensor list \<Rightarrow> tensor list \<Rightarrow> memory \<Rightarrow> memory outcome" where
  "CloneOp_forward base ts os m =
     obind (inp ts 0) (\<lambda>i. obind (inp os 0) (\<lambda>y. obind (isContiguous i) (\<lambda>c. obind (rt_assert c) (\<lambda>_.
       Inr (memcpy (out_addr base y) (out_addr base i) (ts_size (v_store i)) m)))))"

subsection \<open>PermuteOp\<close>

definition permuted_shape :: "int list \<Rightarrow> int list \<Rightarrow> int list outcome" where
  "permuted_shape in_shape perm = omap (vec_at in_shape) perm"

definition scatter_index :: "int list \<Rightarrow> int list \<Rightarrow> int list \<Rightarrow> int list outcome" where
  "scatter_index perm oc ic = ofold (\<lambda>(p, c) ic. vec_set ic p c) (zip perm oc) ic"

text \<open>\<open>in_coord\<close> keeps the entries of the previous round that the permutation does not write.\<close>

fun permute_loop ::
  "int \<Rightarrow> int \<Rightarrow> int \<Rightarrow> int list \<Rightarrow> int list \<Rightarrow> int list \<Rightarrow> nat \<Rightarrow> int \<Rightarrow> int list \<Rightarrow> memory \<Rightarrow> memory outcome" where
  "permute_loop es xp yp out_shape in_strides perm 0 i ic m = Inr m"
| "permute_loop es xp yp out_shape in_strides perm (Suc n) i ic m =
     obind (unravel64 out_shape i) (\<lambda>oc. obind (scatter_index perm oc ic) (\<lambda>ic.
     obind (elem_offset ic in_strides) (\<lambda>off.
       permute_loop es xp yp out_shape in_strides perm n (i + 1) ic
         (memcpy (yp + i * es) (xp + off * es) es m))))"

definition permute_generic ::
  "int \<Rightarrow> int \<Rightarrow> int \<Rightarrow> int list \<Rightarrow> int list \<Rightarrow> memory \<Rightarrow> memory outcome" where
  "permute_generic es xp yp in_shape perm m =
     (let ndim = int (length perm) in
      obind (permuted_shape in_shape perm) (\<lambda>out_shape.
      obind (omap (vec_at in_shape) [0..ndim - 1]) (\<lambda>dims.
      obind (view_strides dims) (\<lambda>in_strides. obind (view_strides out_shape) (\<lambda>_.
      obind (int_product in_shape [0..ndim - 1]) (\<lambda>n.
        permute_loop es xp yp out_shape in_strides perm (nat n) 0 (replicate (length perm) 0) m))))))"

definition permutable :: "dtype set" where
  "permutable = {kFloat32, kFloat16, kInt8, kUInt8, kInt16, kUInt16, kInt32, kUInt32, kInt64, kUInt64}"

definition PermuteOp_forward ::
  "(nat \<Rightarrow> int) \<Rightarrow> int list \<Rightarrow> tensor list \<Rightarrow> tensor list \<Rightarrow> memory \<Rightarrow> memory outcome" where
  "PermuteOp_forward base axis ts os m =
     obind (inp ts 0) (\<lambda>x. obind (inp os 0) (\<lambda>y.
       if v_dtype x \<in> permutable
       then permute_generic (elem_size x) (out_addr base x) (out_addr base y) (v_shape x) axis m
       else Inr m))"

subsection \<open>Copies in row-major order\<close>

text \<open>A kernel that writes the elements of its output one after the other.\<close>

lemma pick_sequence:
  assumes ok: "picks_ok base y f"
    and s: "\<And>j. 0 \<le> j \<Longrightarrow> j < prod_list (v_shape y) \<Longrightarrow> src j = pick_addr base f (unflat (v_shape y) j)"
  shows "moves m0 (footprint base y) (pick base y f) (footprint base y)
    (ofold (\<lambda>j m. Inr (memcpy (out_addr base y + j * elem_size y) (src j) (elem_size y) m)) [0..prod_list (v_shape y) - 1])"
proof -
  have y: "packed y" using ok by (simp add: picks_ok_def)
  let ?n = "prod_list (v_shape y)"
  have "moves m0 (footprint base y) (pick base y f) (cells (out_addr base y) (elem_size y) 0 (?n * 1))
      (ofold (\<lambda>j m. Inr (memcpy (out_addr base y + j * elem_size y) (src j) (elem_size y) m)) [0..?n - 1])"
  proof (rule moves_loop [OF elem_size_bounds(1) _ apart_pick [OF ok]])
    fix j assume j: "0 \<le> j" "j < ?n"
    have "in_range (unflat (v_shape y) j) (v_shape y)" "flat (unflat (v_shape y) j) (v_shape y) = j"
      using unflat_range [OF _ j] packed_shape [OF y] by (simp_all add: shape_ok_def)
    then show "moves m0 (footprint base y) (pick base y f) (cells (out_addr base y) (elem_size y) (0 + j * 1) 1)
        (\<lambda>m. Inr (memcpy (out_addr base y + j * elem_size y) (src j) (elem_size y) m))"
      by (intro pick_block [OF y, where src = "src j"] exI [of _ "unflat (v_shape y) j"])
        (use j s [OF j] in auto)
  qed simp
  then show ?thesis using packed_cells [OF y] by simp
qed

lemma obind_done: "obind r (ofold f []) = r"
  by (cases r) simp_all

lemma ofold_upto_Suc:
  "ofold f [0..int n] m = obind (ofold f [0..int n - 1] m) (f (int n))"
  by (cases "ofold f [0..int n - 1] m") (simp_all add: upto_rec2 ofold_append obind_done)

lemma copy_one_iter:
  "ofold (\<lambda>j m. Inr (memcpy (d + j * es) (s + j * sb) es m)) [0..int n - 1] m =
     Inr (snd (snd ((copy_one es sb ^^ n) (d, s, m)))) \<and>
   (\<exists>m'. (copy_one es sb ^^ n) (d, s, m) = (d + int n * es, s + int n * sb, m'))"
proof (induction n)
  case (Suc n)
  then obtain m' where m': "(copy_one es sb ^^ n) (d, s, m) = (d + int n * es, s + int n * sb, m')" by blast
  with Suc show ?case by (simp add: ofold_upto_Suc algebra_simps)
qed simp

lemma copy_strided_loop:
  assumes "0 \<le> n"
  shows "Inr (copy_strided es sb n d s m) =
    ofold (\<lambda>j m. Inr (memcpy (d + j * es) (s + j * sb) es m)) [0..n - 1] m"
proof -
  let ?f = "copy_one es sb"
  have r: "n smod 8 = n mod 8" using assms by (auto simp: smod_int_alt_def sgn_if)
  have "8 * nat ((n - n mod 8) div 8) + nat (n mod 8) = nat n"
    using assms by (simp add: minus_mod_eq_mult_div nat_div_distrib nat_mod_distrib)
  then have "((?f ^^ 8) ^^ nat ((n - n mod 8) div 8)) ((?f ^^ nat (n mod 8)) (d, s, m)) = (?f ^^ nat n) (d, s, m)"
    by (metis comp_apply funpow_add funpow_mult)
  then show ?thesis
    using copy_one_iter [where n = "nat n" and d = d and s = s and es = es and sb = sb and m = m] assms
    by (simp add: copy_strided_def r Let_def)
qed

lemma sum_of_products:
  "\<forall>(i, s) \<in> set ps. 0 \<le> i * s \<Longrightarrow> 0 \<le> a \<Longrightarrow> a + (\<Sum>(i, s) \<leftarrow> ps. i * s) < 2 ^ 31 \<Longrightarrow>
     ofold (\<lambda>(i, s) a. obind (i32 (i * s)) (\<lambda>p. i64 (a + p))) ps a = Inr (a + (\<Sum>(i, s) \<leftarrow> ps. i * s))"
proof (induction ps arbitrary: a)
  case (Cons p ps)
  obtain i s where p: "p = (i, s)" by (cases p)
  have "0 \<le> (\<Sum>(i, s) \<leftarrow> ps. i * s)" by (rule sum_list_nonneg) (use Cons.prems(1) in auto)
  with Cons.prems p have b: "0 \<le> i * s" "i * s < 2 ^ 31" "0 \<le> a + i * s" "a + i * s < 2 ^ 31" by auto
  then have "i32 (i * s) = Inr (i * s)" "i64 (a + i * s) = Inr (a + i * s)" by (simp_all add: i32_def i64_def)
  with Cons.IH [of "a + i * s"] Cons.prems p b show ?case by (simp add: add.assoc)
qed simp

lemma dot_sum: "dot is ss = (\<Sum>(i, s) \<leftarrow> zip is ss. i * s)"
  by (induction "is" ss rule: list_induct2') simp_all

lemma products_nonneg:
  "in_range is ds \<Longrightarrow> \<forall>s \<in> set ss. 0 \<le> s \<Longrightarrow> \<forall>(i, s) \<in> set (zip is ss). 0 \<le> i * s"
proof -
  assume r: "in_range is ds" and s: "\<forall>s \<in> set ss. 0 \<le> s"
  have "\<forall>i \<in> set is. 0 \<le> i" using r by (induction "is" ds rule: list_induct2') auto
  with s show ?thesis by (auto dest: set_zip_leftD set_zip_rightD intro!: mult_nonneg_nonneg)
qed

lemma offset_sum_eq:
  assumes "in_range is ds" "\<forall>s \<in> set ss. 0 \<le> s" "dot is ss < 2 ^ 31"
  shows "offset_sum (zip is ss) = Inr (dot is ss)" "offset_sum (rev (zip is ss)) = Inr (dot is ss)"
proof -
  have s: "(\<Sum>(i, s) \<leftarrow> rev ps. i * s) = (\<Sum>(i, s) \<leftarrow> ps. i * s)" for ps :: "(int \<times> int) list"
    by (induction ps) simp_all
  show "offset_sum (zip is ss) = Inr (dot is ss)" "offset_sum (rev (zip is ss)) = Inr (dot is ss)"
    using sum_of_products [of "zip is ss" 0] sum_of_products [of "rev (zip is ss)" 0]
      products_nonneg [OF assms(1,2)] assms(3)
    by (simp_all add: offset_sum_def dot_sum s)
qed

subsection \<open>ContiguousOp\<close>

definition contiguous_ready :: "(nat \<Rightarrow> int) \<Rightarrow> view \<times> view \<Rightarrow> bool" where
  "contiguous_ready base = (\<lambda>(x, y). view_ok x \<and> packed y \<and> v_shape y = v_shape x \<and> v_dtype y = v_dtype x \<and>
     span x * elem_size x < 2 ^ 31 \<and> footprint base x \<inter> footprint base y = {})"

definition same_index :: "view \<times> view \<Rightarrow> picker" where
  "same_index = (\<lambda>(x, y) oi. (x, oi))"

lemma contiguous_picks: "contiguous_ready base (x, y) \<Longrightarrow> picks_ok base y (same_index (x, y))"
  by (simp add: contiguous_ready_def picks_ok_def same_index_def)

lemma contiguous_readyD:
  assumes "contiguous_ready base (x, y)"
  shows "view_ok x" "packed y" "v_shape y = v_shape x" "v_dtype y = v_dtype x" "elem_size y = elem_size x"
    "span x * elem_size x < 2 ^ 31" "shape_ok (v_shape x)" "length (v_stride x) = length (v_shape x)"
    "\<forall>s \<in> set (v_stride x). 0 \<le> s" "span x < 2 ^ 31"
  using assms by (simp_all add: contiguous_ready_def elem_size_def view_ok_def)

text \<open>The whole input at once.\<close>

lemma contiguous_block:
  assumes ok: "contiguous_ready base (x, y)" and x: "packed x"
  shows "moves m0 (footprint base y) (pick base y (same_index (x, y))) (footprint base y)
    (\<lambda>m. Inr (memcpy (out_addr base y) (out_addr base x) (prod_list (v_shape x) * elem_size x) m))"
proof -
  note h = contiguous_readyD [OF ok]
  have "moves m0 (footprint base y) (pick base y (same_index (x, y)))
      (cells (out_addr base y) (elem_size y) 0 (prod_list (v_shape y)))
      (\<lambda>m. Inr (memcpy (out_addr base y) (out_addr base x) (prod_list (v_shape x) * elem_size x) m))"
  proof (rule pick_block [OF h(2)])
    fix t assume "0 \<le> t" "t < prod_list (v_shape y)"
    then have "in_range (unflat (v_shape y) t) (v_shape y)" "flat (unflat (v_shape y) t) (v_shape y) = t"
      using h(3,7) by (auto simp: shape_ok_def intro!: unflat_range)
    then show "\<exists>oi. in_range oi (v_shape y) \<and> flat oi (v_shape y) = 0 + t \<and>
        pick_addr base (same_index (x, y)) oi = out_addr base x + t * elem_size y"
      by (intro exI [of _ "unflat (v_shape y) t"])
        (use h(3,5) in \<open>simp_all add: pick_addr_def same_index_def packed_addr [OF x]\<close>)
  qed (use h in simp_all)
  then show ?thesis using packed_cells [OF h(2)] by simp
qed

text \<open>One element at a time: the address is the one the index has in the input.\<close>

lemma contiguous_sequence:
  assumes ok: "contiguous_ready base (x, y)"
    and s: "\<And>j. 0 \<le> j \<Longrightarrow> j < prod_list (v_shape x) \<Longrightarrow> src j = elem_addr base x (unflat (v_shape x) j)"
  shows "moves m0 (footprint base y) (pick base y (same_index (x, y))) (footprint base y)
    (ofold (\<lambda>j m. Inr (memcpy (out_addr base y + j * elem_size x) (src j) (elem_size x) m)) [0..prod_list (v_shape x) - 1])"
  using pick_sequence [OF contiguous_picks [OF ok], of src m0] s contiguous_readyD(3,5) [OF ok]
  by (simp add: pick_addr_def same_index_def)

lemma contiguous_line:
  assumes ok: "contiguous_ready base (x, y)" and x: "v_shape x = [d]" "v_stride x = [s]"
  shows "moves m0 (footprint base y) (pick base y (same_index (x, y))) (footprint base y)
    (\<lambda>m. Inr (copy_strided (elem_size x) (to_i32 (u64 (s * elem_size x))) d (out_addr base y) (out_addr base x) m))"
proof -
  note h = contiguous_readyD [OF ok]
  have d: "0 < d" "0 \<le> s" using h(7,9) x by (simp_all add: shape_ok_def)
  define es where "es = elem_size x"
  have es: "0 < es" by (simp add: es_def elem_size_bounds)
  have sp: "((d - 1) * s + 1) * es < 2 ^ 31" using h(6) x by (simp add: span_def es_def)
  let ?sb = "to_i32 (u64 (s * es))"
  have a: "out_addr base x + j * ?sb = elem_addr base x (unflat (v_shape x) j)"
    if j: "0 \<le> j" "j < prod_list (v_shape x)" for j
  proof (cases "d = 1")
    case True
    then have "j = 0" using j x by simp
    then show ?thesis by (simp add: x elem_addr_def)
  next
    case False
    then have "s * es \<le> ((d - 1) * s + 1) * es"
      using d es mult_right_mono [of 1 "d - 1" s] by (intro mult_right_mono) simp_all
    moreover have "0 \<le> s * es" using d es by simp
    ultimately have "?sb = s * es" using sp by (simp add: u64_def to_i32_def)
    then show ?thesis using j by (simp add: x elem_addr_def es_def algebra_simps)
  qed
  show ?thesis
    using contiguous_sequence [OF ok a, of m0] d copy_strided_loop [of d es ?sb]
    by (simp add: x es_def mult.commute)
qed

lemma unravel_unflat:
  assumes "shape_ok ds" "0 \<le> t" "t < prod_list ds"
  shows "unravel ds t = Inr (unflat ds t)"
proof -
  have r: "in_range (unflat ds t) ds" "flat (unflat ds t) ds = t"
    using assms by (intro unflat_range; simp add: shape_ok_def)+
  from unravel_dot [OF r(1) assms(1)] show ?thesis by (simp only: r(2))
qed

lemma copy_rows_loop:
  assumes "\<And>i. idx \<le> i \<Longrightarrow> i < idx + int n \<Longrightarrow> unravel (butlast (v_shape x)) i = Inr (ix i) \<and>
      offset_sum (rev (zip (ix i) (butlast (v_stride x)))) = Inr (off i)"
  shows "copy_rows es x src ib n idx (dst + idx * ib) m =
    ofold (\<lambda>i m. Inr (memcpy (dst + i * ib) (src + u64 (off i * es)) ib m)) [idx..idx + int n - 1] m"
  using assms
proof (induction n arbitrary: idx m)
  case (Suc n)
  have u: "[idx..idx + int (Suc n) - 1] = idx # [idx + 1..idx + 1 + int n - 1]" by (simp add: upto_rec1)
  have i: "unravel (butlast (v_shape x)) idx = Inr (ix idx)"
    "offset_sum (rev (zip (ix idx) (butlast (v_stride x)))) = Inr (off idx)" using Suc.prems [of idx] by simp_all
  show ?case using Suc.IH [of "idx + 1"] Suc.prems unfolding u by (simp add: i distrib_right add.assoc)
qed simp

lemma contiguous_rows:
  assumes ok: "contiguous_ready base (x, y)" and x: "v_shape x = A @ [d]" "v_stride x = S @ [1]" "A \<noteq> []"
  shows "moves m0 (footprint base y) (pick base y (same_index (x, y))) (footprint base y)
    (copy_rows (elem_size x) x (out_addr base x) (d * elem_size x) (nat (prod_list A)) 0 (out_addr base y))"
proof -
  note h = contiguous_readyD [OF ok]
  have sA: "shape_ok (A @ d # [])" using h(7) x(1) by simp
  note s = shape_parts [OF sA]
  have "prod_list A < 2 ^ 31" using s(6,11) by linarith
  then have A: "shape_ok A" using s(1) x(3) sA by (simp add: shape_ok_def)
  have l: "length S = length A" using h(8) x by simp
  define off where "off i = dot (unflat A i) S" for i
  have r: "in_range (unflat A i) A" "flat (unflat A i) A = i" if "0 \<le> i" "i < prod_list A" for i
    using unflat_range [OF s(1) that] by simp_all
  have b: "0 \<le> off i" "off i < 2 ^ 31" if "0 \<le> i" "i < prod_list A" for i
  proof -
    have "in_range (unflat A i @ [0]) (v_shape x)" using r(1) [OF that] s(2) by (simp add: x(1) in_range_mid)
    from view_dot_bounds [OF h(1) this] h(10) show "0 \<le> off i" "off i < 2 ^ 31"
      by (simp_all add: x(2) dot_append l off_def)
  qed
  have o: "unravel (butlast (v_shape x)) i = Inr (unflat A i) \<and>
      offset_sum (rev (zip (unflat A i) (butlast (v_stride x)))) = Inr (off i)" if "0 \<le> i" "i < prod_list A" for i
    using unravel_unflat [OF A that] offset_sum_eq(2) [OF r(1) [OF that], of S] b [OF that] h(9)
    by (simp add: x off_def)
  have "moves m0 (footprint base y) (pick base y (same_index (x, y)))
      (cells (out_addr base y) (elem_size y) 0 (prod_list A * d))
      (ofold (\<lambda>i m. Inr (memcpy (out_addr base y + i * (d * elem_size x))
         (out_addr base x + u64 (off i * elem_size x)) (d * elem_size x) m)) [0..prod_list A - 1])"
  proof (rule moves_loop [OF elem_size_bounds(1) _ apart_pick [OF contiguous_picks [OF ok]]])
    fix i assume i: "0 \<le> i" "i < prod_list A"
    show "moves m0 (footprint base y) (pick base y (same_index (x, y)))
      (cells (out_addr base y) (elem_size y) (0 + i * d) d)
      (\<lambda>m. Inr (memcpy (out_addr base y + i * (d * elem_size x)) (out_addr base x + u64 (off i * elem_size x))
        (d * elem_size x) m))"
    proof (rule pick_block [OF h(2)])
      show "0 \<le> 0 + i * d" "0 + i * d + d \<le> prod_list (v_shape y)"
        using block_le [OF i, of d] s(2) by (simp_all add: h(3) x(1) prod_list_append)
      fix t assume t: "0 \<le> t" "t < d"
      have "in_range (unflat A i @ [t]) (v_shape x)" using r(1) [OF i] t by (simp add: x(1) in_range_mid)
      moreover have "flat (unflat A i @ [t]) (v_shape x) = 0 + i * d + t"
        by (simp add: x(1) flat_append r(2) [OF i])
      moreover have "u64 (off i * elem_size x) = off i * elem_size x" by (rule bytes_small [OF b [OF i]])
      ultimately show "\<exists>oi. in_range oi (v_shape y) \<and> flat oi (v_shape y) = 0 + i * d + t \<and>
          pick_addr base (same_index (x, y)) oi = out_addr base x + u64 (off i * elem_size x) + t * elem_size y"
        by (intro exI [of _ "unflat A i @ [t]"])
          (simp add: h(3,5) pick_addr_def same_index_def elem_addr_def x(2) dot_append l off_def distrib_right)
    qed (simp_all add: h(5))
  qed (use s(2) in simp)
  moreover have "copy_rows (elem_size x) x (out_addr base x) (d * elem_size x) (nat (prod_list A)) 0 (out_addr base y) m =
      ofold (\<lambda>i m. Inr (memcpy (out_addr base y + i * (d * elem_size x))
         (out_addr base x + u64 (off i * elem_size x)) (d * elem_size x) m)) [0..prod_list A - 1] m" for m
    using copy_rows_loop [of 0 "nat (prod_list A)" x "unflat A" off "elem_size x" "out_addr base x"
        "d * elem_size x" "out_addr base y" m] o s(4) by simp
  ultimately show ?thesis
    using packed_cells [OF h(2)] by (simp add: moves_def h(3) x(1) prod_list_append)
qed

text \<open>The next index in row-major order.\<close>

lemma next_index_rev_rdot:
  "in_range is ds \<Longrightarrow> rdot is ds + 1 < prod_list ds \<Longrightarrow>
     in_range (next_index_rev is ds) ds \<and> rdot (next_index_rev is ds) ds = rdot is ds + 1"
proof (induction "is" ds rule: next_index_rev.induct)
  case (1 i "is" d ds)
  show ?case
  proof (cases "i + 1 < d")
    case False
    with 1(2) have i: "i = d - 1" "in_range is ds" "0 < d" by auto
    then have "d * (rdot is ds + 1) < d * prod_list ds" using 1(3) by (simp add: algebra_simps)
    with i(3) have "rdot is ds + 1 < prod_list ds" by simp
    from 1(1) [OF False i(2) this] False i show ?thesis by (simp add: algebra_simps)
  qed (use 1(2) in simp)
qed auto

lemma next_index_unflat:
  assumes "shape_ok ds" "0 \<le> j" "j + 1 < prod_list ds"
  shows "next_index (unflat ds j) ds = unflat ds (j + 1)"
proof -
  have r: "in_range (unflat ds j) ds" "flat (unflat ds j) ds = j"
    using assms by (auto simp: shape_ok_def intro!: unflat_range)
  let ?k = "next_index_rev (rev (unflat ds j)) (rev ds)"
  have "in_range ?k (rev ds)" "rdot ?k (rev ds) = j + 1"
    using next_index_rev_rdot [of "rev (unflat ds j)" "rev ds"] r assms(3) rdot_rev [OF r(1)]
    by (simp_all add: in_range_rev prod_list.rev)
  then have "in_range (rev ?k) ds" "flat (rev ?k) ds = j + 1"
    using in_range_rev [of "rev ?k" ds] rdot_rev [of "rev ?k" ds] by simp_all
  then show ?thesis using unflat_flat [of "rev ?k" ds] by (simp add: next_index_def)
qed

lemma copy_elements_loop:
  assumes sh: "shape_ok shape" and j: "0 \<le> j" "j + int n \<le> prod_list shape"
    and "\<And>i. j \<le> i \<Longrightarrow> i < j + int n \<Longrightarrow> offset_sum (zip (unflat shape i) sb) = Inr (off i)"
  shows "copy_elements es shape sb src n (unflat shape j) (dst + j * es) m =
    ofold (\<lambda>i m. Inr (memcpy (dst + i * es) (src + off i) es m)) [j..j + int n - 1] m"
  using assms
proof (induction n arbitrary: j m)
  case (Suc n)
  have u: "[j..j + int (Suc n) - 1] = j # [j + 1..j + 1 + int n - 1]" by (simp add: upto_rec1)
  have i: "offset_sum (zip (unflat shape j) sb) = Inr (off j)" using Suc.prems(4) [of j] by simp
  show ?case
  proof (cases n)
    case 0
    then show ?thesis by (simp add: i)
  next
    case (Suc k)
    then have "next_index (unflat shape j) shape = unflat shape (j + 1)"
      using next_index_unflat [OF sh] Suc.prems(2,3) by simp
    then show ?thesis
      using Suc.IH [of "j + 1"] Suc.prems unfolding u by (simp add: i distrib_right add.assoc)
  qed
qed simp

lemma unflat_zero: "unflat ds 0 = replicate (length ds) 0"
  by (induction ds) simp_all

lemma dot_scale: "dot is (map (\<lambda>s. s * c) ss) = dot is ss * c"
  by (induction "is" ss rule: list_induct2') (simp_all add: distrib_right)

lemma byte_products:
  assumes "in_range idx ds" "length ss = length ds" "\<forall>s \<in> set ss. 0 \<le> s" "0 < es"
    and "dot (map (\<lambda>d. d - 1) ds) ss * es < 2 ^ 31"
  shows "map (\<lambda>(i, s). i * s) (zip idx (map (\<lambda>s. to_i32 (u64 (s * es))) ss)) =
    map (\<lambda>(i, s). i * (s * es)) (zip idx ss)"
  using assms
proof (induction idx ds arbitrary: ss rule: list_induct2')
  case (4 i idx d ds)
  then obtain s ss' where ss: "ss = s # ss'" "length ss' = length ds" by (cases ss) auto
  have r: "in_range idx ds" "0 \<le> i" "i < d" and nn: "\<forall>s \<in> set ss'. 0 \<le> s" "0 \<le> s"
    using 4(2,4) ss by auto
  let ?r = "dot (map (\<lambda>d. d - 1) ds) ss'"
  have "0 \<le> ?r" using dot_le_last [OF r(1) ss(2) nn(1)] by linarith
  then have re: "0 \<le> ?r * es" using 4(5) by simp
  have m: "0 \<le> (d - 1) * s * es" using r nn 4(5) by simp
  have t: "(d - 1) * s * es + ?r * es < 2 ^ 31" using 4(6) ss by (simp add: distrib_right)
  have "i * to_i32 (u64 (s * es)) = i * (s * es)"
  proof (cases "d = 1")
    case False
    then have "1 * (s * es) \<le> (d - 1) * (s * es)" using r nn 4(5) by (intro mult_right_mono) simp_all
    then have "s * es < 2 ^ 31" using t re by (simp only: mult.assoc mult_1)
    then show ?thesis using nn 4(5) by (simp add: u64_def to_i32_def)
  qed (use r in simp)
  moreover have "?r * es < 2 ^ 31" using t m by linarith
  ultimately show ?case using 4(1) [OF r(1) ss(2) nn(1) 4(5)] by (simp add: ss(1))
qed simp_all

lemma byte_strides:
  assumes ok: "view_ok x" and small: "span x * elem_size x < 2 ^ 31" and idx: "in_range idx (v_shape x)"
  shows "offset_sum (zip idx (map (\<lambda>s. to_i32 (u64 (s * elem_size x))) (v_stride x))) =
    Inr (dot idx (v_stride x) * elem_size x)"
proof -
  let ?sb = "map (\<lambda>s. to_i32 (u64 (s * elem_size x))) (v_stride x)" and ?ps = "zip idx (v_stride x)"
  have h: "length (v_stride x) = length (v_shape x)" "\<forall>s \<in> set (v_stride x). 0 \<le> s"
    using ok by (simp_all add: view_ok_def)
  have es: "0 < elem_size x" by (rule elem_size_bounds)
  have p: "map (\<lambda>(i, s). i * s) (zip idx ?sb) = map (\<lambda>(i, s). i * (s * elem_size x)) ?ps"
    by (rule byte_products [OF idx h es]) (use small es in \<open>simp add: span_def distrib_right\<close>)
  have "(\<Sum>(i, s) \<leftarrow> ps. i * (s * elem_size x)) = (\<Sum>(i, s) \<leftarrow> ps. i * s) * elem_size x"
    for ps :: "(int \<times> int) list"
    by (induction ps) (auto simp: distrib_right)
  then have sum: "(\<Sum>(i, s) \<leftarrow> zip idx ?sb. i * s) = dot idx (v_stride x) * elem_size x"
    using p by (simp add: dot_sum)
  have "0 \<le> i * s" if "(i, s) \<in> set (zip idx ?sb)" for i s
  proof -
    from that have "i * s \<in> set (map (\<lambda>(i, s). i * s) (zip idx ?sb))" by force
    then show ?thesis using products_nonneg [OF idx h(2)] es unfolding p by (auto simp: mult.assoc [symmetric])
  qed
  then have "\<forall>(i, s) \<in> set (zip idx ?sb). 0 \<le> i * s" by auto
  moreover have "dot idx (v_stride x) * elem_size x < span x * elem_size x"
    using view_dot_bounds [OF ok idx] es by simp
  ultimately show ?thesis
    using sum_of_products [of "zip idx ?sb" 0] small by (simp add: offset_sum_def sum)
qed

lemma contiguous_elements:
  assumes ok: "contiguous_ready base (x, y)"
  shows "moves m0 (footprint base y) (pick base y (same_index (x, y))) (footprint base y)
    (copy_elements (elem_size x) (v_shape x) (map (\<lambda>s. to_i32 (u64 (s * elem_size x))) (v_stride x))
      (out_addr base x) (nat (prod_list (v_shape x))) (replicate (length (v_shape x)) 0) (out_addr base y))"
    (is "moves _ _ _ _ ?p")
proof -
  note h = contiguous_readyD [OF ok]
  let ?n = "prod_list (v_shape x)" and ?off = "\<lambda>i. dot (unflat (v_shape x) i) (v_stride x) * elem_size x"
  have pos: "0 < ?n" using h(7) by (simp add: shape_ok_def prod_list_pos)
  have "offset_sum (zip (unflat (v_shape x) i) (map (\<lambda>s. to_i32 (u64 (s * elem_size x))) (v_stride x))) =
      Inr (?off i)" if "0 \<le> i" "i < ?n" for i
    by (rule byte_strides [OF h(1,6)]) (use unflat_range(1) that h(7) in \<open>simp add: shape_ok_def\<close>)
  then have "?p m = ofold (\<lambda>i m. Inr (memcpy (out_addr base y + i * elem_size x)
      (out_addr base x + ?off i) (elem_size x) m)) [0..?n - 1] m" for m
    using copy_elements_loop [OF h(7), of 0 "nat ?n" _ ?off "elem_size x" "out_addr base x" "out_addr base y" m] pos
    by (simp add: unflat_zero)
  moreover have "moves m0 (footprint base y) (pick base y (same_index (x, y))) (footprint base y)
    (ofold (\<lambda>i m. Inr (memcpy (out_addr base y + i * elem_size x)
      (out_addr base x + ?off i) (elem_size x) m)) [0..?n - 1])"
    by (rule contiguous_sequence [OF ok]) (simp add: elem_addr_def)
  ultimately show ?thesis by (simp add: moves_def)
qed

lemma contiguous_runs:
  assumes ok: "contiguous_ready base (x, y)"
  shows "moves m0 (footprint base y) (pick base y (same_index (x, y))) (footprint base y)
    (ContiguousOp_forward base [Some x] [Some y])"
proof -
  note h = contiguous_readyD [OF ok]
  let ?n = "prod_list (v_shape x)" and ?es = "elem_size x"
  have n: "numel y = ?n" "0 < ?n" "?n < 2 ^ 31"
    using h(7) by (simp_all add: numel_def h(3) numel_of_shape_ok shape_ok_def prod_list_pos)
  have tb: "u64 (?n * ?es) = ?n * ?es" by (rule bytes_small) (use n in simp_all)
  have ne: "v_shape x \<noteq> []" using h(7) by (simp add: shape_ok_def)
  have run: "ContiguousOp_forward base [Some x] [Some y] m =
    (if packed x then Inr (memcpy (out_addr base y) (out_addr base x) (?n * ?es) m)
     else if length (v_shape x) = 1 then
       Inr (copy_strided ?es (to_i32 (u64 (v_stride x ! 0 * ?es))) (v_shape x ! 0) (out_addr base y) (out_addr base x) m)
     else if v_stride x ! (length (v_shape x) - 1) = 1 then
       (let inner = u64 (v_shape x ! (length (v_shape x) - 1))
        in if inner = 0 then Inl Undefined
           else copy_rows ?es x (out_addr base x) (u64 (inner * ?es)) (nat (?n div inner)) 0 (out_addr base y) m)
     else copy_elements ?es (v_shape x) (map (\<lambda>s. to_i32 (u64 (s * ?es))) (v_stride x)) (out_addr base x)
       (nat ?n) (replicate (length (v_shape x)) 0) (out_addr base y) m)" for m
    using n ne by (simp add: ContiguousOp_forward_def inp_def impl_def isContiguous_packed [OF h(1)] tb Let_def)
  consider (block) "packed x" | (line) d s where "\<not> packed x" "v_shape x = [d]" "v_stride x = [s]"
    | (rows) A d S where "\<not> packed x" "A \<noteq> []" "v_shape x = A @ [d]" "v_stride x = S @ [1]" "length S = length A"
    | (elements) "\<not> packed x" "length (v_shape x) \<noteq> 1" "v_stride x ! (length (v_shape x) - 1) \<noteq> 1"
  proof (cases "packed x")
    case False
    obtain A d where A: "v_shape x = A @ [d]" using ne by (cases "v_shape x" rule: rev_exhaust) auto
    then obtain S s where S: "v_stride x = S @ [s]" "length S = length A"
      using h(8) by (cases "v_stride x" rule: rev_exhaust) auto
    show thesis
    proof (cases "A = []")
      case True
      with False A S that(2) show thesis by simp
    next
      case A0: False
      show thesis
      proof (cases "s = 1")
        case True
        with False A0 A S that(3) show thesis by blast
      next
        case s: False
        have "length (v_shape x) \<noteq> 1" "v_stride x ! (length (v_shape x) - 1) \<noteq> 1"
          using A A0 S s by (simp_all add: nth_append)
        with False that(4) show thesis by blast
      qed
    qed
  qed (use that(1) in blast)
  then show ?thesis
  proof cases
    case block
    then show ?thesis using contiguous_block [OF ok, of m0] by (simp add: moves_def run)
  next
    case line
    then show ?thesis using contiguous_line [OF ok line(2,3), of m0] by (simp add: moves_def run)
  next
    case (rows A d S)
    have d: "0 < d" "d < 2 ^ 31" using h(7) dims_bounded [OF h(7)] by (auto simp: rows shape_ok_def)
    then have u: "u64 d = d" "u64 (d * ?es) = d * ?es" using bytes_small [of d x] by (simp_all add: u64_id)
    have "?n div d = prod_list A" using d by (simp add: rows prod_list_append)
    then show ?thesis
      using contiguous_rows [OF ok rows(3,4,2), of m0] d u rows
      by (simp add: moves_def run nth_append)
  next
    case elements
    then show ?thesis using contiguous_elements [OF ok, of m0] by (simp add: moves_def run)
  qed
qed

interpretation contiguous_kernel: element_kernel "\<lambda>base c m. contiguous_ready base c" snd same_index
  "\<lambda>base (x, y). ContiguousOp_forward base [Some x] [Some y]"
proof unfold_locales
  fix base and c :: "view \<times> view" and m
  obtain x y where c: "c = (x, y)" by (cases c) auto
  assume "contiguous_ready base c"
  then have ok: "contiguous_ready base (x, y)" by (simp add: c)
  show "picks_ok base (snd c) (same_index c)" by (simp add: c contiguous_picks [OF ok])
  show "moves m (footprint base (snd c)) (pick base (snd c) (same_index c)) (footprint base (snd c))
      (case c of (x, y) \<Rightarrow> ContiguousOp_forward base [Some x] [Some y])"
    using contiguous_runs [OF ok, of m] by (simp add: c)
qed

subsection \<open>PermuteOp\<close>

text \<open>The input index of an output index.\<close>

definition unpermute :: "int list \<Rightarrow> int list \<Rightarrow> int list" where
  "unpermute axis oi = map (\<lambda>k. the (map_of (zip axis oi) (int k))) [0..<length axis]"

definition axis_ok :: "int list \<Rightarrow> nat \<Rightarrow> bool" where
  "axis_ok axis n \<longleftrightarrow> mset axis = mset (map int [0..<n])"

lemma axis_okD:
  assumes "axis_ok axis n"
  shows "length axis = n" "distinct axis" "set axis = int ` {0..<n}"
proof -
  have m: "mset axis = mset (map int [0..<n])" using assms by (simp add: axis_ok_def)
  show "length axis = n" using arg_cong [OF m, of size] by simp
  show "distinct axis" using mset_eq_imp_distinct_iff [OF m] by (simp add: distinct_map)
  show "set axis = int ` {0..<n}" using arg_cong [OF m, of set_mset] by simp
qed

lemma scatter_pairs:
  "distinct (map fst ps) \<Longrightarrow> \<forall>p \<in> fst ` set ps. 0 \<le> p \<and> p < int (length ic) \<Longrightarrow>
     ofold (\<lambda>(p, c) ic. vec_set ic p c) ps ic =
       Inr (map (\<lambda>k. case map_of ps (int k) of Some c \<Rightarrow> c | None \<Rightarrow> ic ! k) [0..<length ic])"
proof (induction ps arbitrary: ic)
  case Nil
  then show ?case by (simp add: map_nth)
next
  case (Cons pc ps)
  obtain p c where pc: "pc = (p, c)" by (cases pc)
  have p: "0 \<le> p" "p < int (length ic)" "map_of ps p = None"
    using Cons.prems by (auto simp: pc map_of_eq_None_iff)
  have "ofold (\<lambda>(p, c) ic. vec_set ic p c) ps (ic[nat p := c]) =
      Inr (map (\<lambda>k. case map_of ps (int k) of Some c' \<Rightarrow> c' | None \<Rightarrow> ic[nat p := c] ! k) [0..<length ic])"
    using Cons.IH [of "ic[nat p := c]"] Cons.prems by simp
  also have "map (\<lambda>k. case map_of ps (int k) of Some c' \<Rightarrow> c' | None \<Rightarrow> ic[nat p := c] ! k) [0..<length ic] =
      map (\<lambda>k. case map_of (pc # ps) (int k) of Some c' \<Rightarrow> c' | None \<Rightarrow> ic ! k) [0..<length ic]"
    using p by (intro map_cong) (auto simp: pc nth_list_update split: option.split)
  finally show ?case using p by (simp add: pc vec_set_def)
qed

lemma scatter_index_eq:
  assumes "axis_ok axis n" "length oi = n" "length ic = n"
  shows "scatter_index axis oi ic = Inr (unpermute axis oi)"
proof -
  note a = axis_okD [OF assms(1)]
  have "\<exists>c. map_of (zip axis oi) (int k) = Some c" if "k < n" for k
  proof -
    have "int k \<in> set axis" "length axis = length oi" using a assms(2) that by simp_all
    then show ?thesis using map_of_zip_is_None [of axis oi "int k"] by (metis not_None_eq)
  qed
  moreover have "ofold (\<lambda>(p, c) ic. vec_set ic p c) (zip axis oi) ic =
      Inr (map (\<lambda>k. case map_of (zip axis oi) (int k) of Some c \<Rightarrow> c | None \<Rightarrow> ic ! k) [0..<length ic])"
    by (rule scatter_pairs) (use a assms set_zip_leftD in \<open>fastforce+\<close>)
  ultimately show ?thesis
    using a(1) assms(3) by (force simp: scatter_index_def unpermute_def)
qed

lemma unpermute_permuted:
  assumes "axis_ok axis n" "length ii = n"
  shows "unpermute axis (map (\<lambda>p. ii ! nat p) axis) = ii"
proof (rule nth_equalityI)
  note a = axis_okD [OF assms(1)]
  show "length (unpermute axis (map (\<lambda>p. ii ! nat p) axis)) = length ii" using a assms by (simp add: unpermute_def)
  fix k assume "k < length (unpermute axis (map (\<lambda>p. ii ! nat p) axis))"
  then show "unpermute axis (map (\<lambda>p. ii ! nat p) axis) ! k = ii ! k"
    using a by (simp add: unpermute_def map_of_zip_map)
qed

lemma unpermute_nth:
  assumes "axis_ok axis n" "length oi = n" "d < n"
  shows "unpermute axis oi ! nat (axis ! d) = oi ! d"
proof -
  note a = axis_okD [OF assms(1)]
  have "axis ! d \<in> int ` {0..<n}" using a assms(3) nth_mem [of d axis] by simp
  moreover have "map_of (zip axis oi) (axis ! d) = Some (oi ! d)"
    using a assms map_of_zip_nth [of axis oi d] by simp
  ultimately show ?thesis using a by (auto simp: unpermute_def)
qed

lemma unpermute_range:
  assumes "axis_ok axis (length xs)" "in_range oi (map (\<lambda>p. xs ! nat p) axis)"
  shows "in_range (unpermute axis oi) xs"
proof -
  note a = axis_okD [OF assms(1)]
  have l: "length oi = length xs" using in_range_length [OF assms(2)] a by simp
  have "0 \<le> unpermute axis oi ! k \<and> unpermute axis oi ! k < xs ! k" if k: "k < length xs" for k
  proof -
    have "int k \<in> set axis" using a k by simp
    then obtain d where d: "d < length xs" "axis ! d = int k" using a by (metis in_set_conv_nth)
    have "0 \<le> oi ! d" "oi ! d < xs ! nat (axis ! d)"
      using list_all2_nthD [OF assms(2) [unfolded in_range_def], of d] l d(1) a(1) by simp_all
    then show ?thesis using unpermute_nth [OF assms(1) l d(1)] d a by simp
  qed
  then show ?thesis using a by (simp add: in_range_def list_all2_conv_all_nth unpermute_def)
qed

lemma permute_loop_eq:
  assumes ax: "axis_ok axis n" and y: "shape_ok ys" "length ys = n" and j: "0 \<le> j" "j + int k \<le> prod_list ys"
    and ic: "length ic = n"
    and off: "\<And>i. j \<le> i \<Longrightarrow> i < j + int k \<Longrightarrow> elem_offset (unpermute axis (unflat ys i)) ss = Inr (off i)"
  shows "permute_loop es xp yp ys ss axis k j ic m =
    ofold (\<lambda>i m. Inr (memcpy (yp + i * es) (xp + off i * es) es m)) [j..j + int k - 1] m"
  using j ic off
proof (induction k arbitrary: j ic m)
  case (Suc k)
  have u: "[j..j + int (Suc k) - 1] = j # [j + 1..j + 1 + int k - 1]" by (simp add: upto_rec1)
  have "unravel64 ys j = Inr (unflat ys j)" using Suc.prems by (intro unravel64_unflat [OF y(1)]) simp_all
  moreover have "scatter_index axis (unflat ys j) ic = Inr (unpermute axis (unflat ys j))"
    by (rule scatter_index_eq [OF ax]) (use y Suc.prems in simp_all)
  moreover have "length (unpermute axis (unflat ys j)) = n" using axis_okD [OF ax] by (simp add: unpermute_def)
  ultimately show ?case using Suc.IH [of "j + 1"] Suc.prems unfolding u by (simp add: add.assoc)
qed simp

lemma nth_map_id: "map (\<lambda>i. xs ! nat i) [0..int (length xs) - 1] = xs"
  by (intro nth_equalityI) (simp_all add: nth_upto)

text \<open>The values computed in front of the loop.\<close>

lemma permute_setup:
  assumes ax: "axis_ok axis (length xs)" and x: "shape_ok xs" and y: "ys = map (\<lambda>p. xs ! nat p) axis"
  shows "permuted_shape xs axis = Inr ys" "omap (vec_at xs) [0..int (length axis) - 1] = Inr xs"
    "int_product xs [0..int (length axis) - 1] = Inr (prod_list xs)" "prod_list ys = prod_list xs" "shape_ok ys"
proof -
  note a = axis_okD [OF ax]
  show "permuted_shape xs axis = Inr ys"
    unfolding permuted_shape_def y by (rule omap_nth) (use a in auto)
  show "omap (vec_at xs) [0..int (length axis) - 1] = Inr xs"
    using omap_nth [of "[0..int (length axis) - 1]" xs] nth_map_id [of xs] a by simp
  show "int_product xs [0..int (length axis) - 1] = Inr (prod_list xs)"
    using int_product_part [of xs "[]" xs "[]" 0 "int (length axis) - 1"] x a by (simp add: shape_ok_def)
  have m: "mset ys = mset xs"
  proof -
    have "mset (map nat axis) = mset [0..<length xs]"
      using arg_cong [of _ _ "image_mset nat", OF ax [unfolded axis_ok_def]] by (simp add: multiset.map_comp comp_def)
    from mset_permuted [OF this] show ?thesis by (simp add: y comp_def)
  qed
  show n: "prod_list ys = prod_list xs" using m by (metis prod_mset_prod_list)
  have "set ys = set xs" "length ys = length xs" by (metis m set_mset_mset, metis m size_mset)
  then show "shape_ok ys" using x n by (auto simp: shape_ok_def)
qed

lemma permute_offset:
  assumes ax: "axis_ok axis (length xs)" and x: "shape_ok xs" and oi: "in_range oi (map (\<lambda>p. xs ! nat p) axis)"
  shows "elem_offset (unpermute axis oi) (rm_strides xs) = Inr (dot (unpermute axis oi) (rm_strides xs))"
    "0 \<le> dot (unpermute axis oi) (rm_strides xs)" "dot (unpermute axis oi) (rm_strides xs) < 2 ^ 31"
proof -
  have r: "in_range (unpermute axis oi) xs" by (rule unpermute_range [OF ax oi])
  show "elem_offset (unpermute axis oi) (rm_strides xs) = Inr (dot (unpermute axis oi) (rm_strides xs))"
    unfolding elem_offset_def
    using elem_offset_ge [OF r, of "rm_strides xs" 0] rm_strides_nonneg [of xs] dot_last_rm [of xs] x
    by (simp add: shape_ok_def)
  show "0 \<le> dot (unpermute axis oi) (rm_strides xs)" "dot (unpermute axis oi) (rm_strides xs) < 2 ^ 31"
    using dot_bounds [OF r] x by (auto simp: shape_ok_def)
qed

lemma permute_elements:
  assumes ax: "axis_ok axis (length xs)" and x: "shape_ok xs" and y: "ys = map (\<lambda>p. xs ! nat p) axis"
  shows "permute_loop es xp yp ys (rm_strides xs) axis (nat (prod_list xs)) 0 (replicate (length axis) 0) m =
    ofold (\<lambda>i m. Inr (memcpy (yp + i * es) (xp + dot (unpermute axis (unflat ys i)) (rm_strides xs) * es) es m))
      [0..prod_list ys - 1] m"
proof -
  note a = axis_okD [OF ax] and s = permute_setup [OF ax x y]
  have pos: "0 < prod_list ys" using s(5) by (simp add: shape_ok_def prod_list_pos)
  have off: "elem_offset (unpermute axis (unflat ys i)) (rm_strides xs) =
      Inr (dot (unpermute axis (unflat ys i)) (rm_strides xs))" if i: "0 \<le> i" "i < prod_list ys" for i
    by (rule permute_offset(1) [OF ax x]) (use unflat_range(1) [OF _ i] s(5) y in \<open>simp add: shape_ok_def\<close>)
  have "permute_loop es xp yp ys (rm_strides xs) axis (nat (prod_list ys)) 0 (replicate (length axis) 0) m =
    ofold (\<lambda>i m. Inr (memcpy (yp + i * es) (xp + dot (unpermute axis (unflat ys i)) (rm_strides xs) * es) es m))
      [0..0 + int (nat (prod_list ys)) - 1] m"
    by (rule permute_loop_eq [OF ax s(5)]) (use a y pos off in simp_all)
  then show ?thesis using s(4) pos by simp
qed

lemma permute_generic_eq:
  assumes ax: "axis_ok axis (length xs)" and x: "shape_ok xs" and y: "ys = map (\<lambda>p. xs ! nat p) axis"
  shows "permute_generic es xp yp xs axis m =
    ofold (\<lambda>i m. Inr (memcpy (yp + i * es) (xp + dot (unpermute axis (unflat ys i)) (rm_strides xs) * es) es m))
      [0..prod_list ys - 1] m"
  using permute_setup [OF assms] permute_elements [OF assms] view_strides_total [OF x]
    view_strides_total [OF permute_setup(5) [OF assms]]
  by (simp add: permute_generic_def Let_def)

definition permute_ready :: "(nat \<Rightarrow> int) \<Rightarrow> int list \<times> view \<times> view \<Rightarrow> bool" where
  "permute_ready base = (\<lambda>(axis, x, y). packed x \<and> packed y \<and> axis_ok axis (length (v_shape x)) \<and>
     v_shape y = map (\<lambda>p. v_shape x ! nat p) axis \<and> v_dtype y = v_dtype x \<and> v_dtype x \<in> permutable \<and>
     footprint base x \<inter> footprint base y = {})"

definition permute_input :: "int list \<times> view \<times> view \<Rightarrow> picker" where
  "permute_input = (\<lambda>(axis, x, y) oi. (x, unpermute axis oi))"

lemma permute_picks: "permute_ready base (axis, x, y) \<Longrightarrow> picks_ok base y (permute_input (axis, x, y))"
  by (simp add: permute_ready_def picks_ok_def permute_input_def packed_ok unpermute_range)

lemma permute_moves:
  assumes ok: "permute_ready base (axis, x, y)"
  shows "moves m0 (footprint base y) (pick base y (permute_input (axis, x, y))) (footprint base y)
    (permute_generic (elem_size x) (out_addr base x) (out_addr base y) (v_shape x) axis)"
proof -
  have h: "packed x" "packed y" "axis_ok axis (length (v_shape x))" "elem_size y = elem_size x"
    "v_shape y = map (\<lambda>p. v_shape x ! nat p) axis"
    using ok by (simp_all add: permute_ready_def elem_size_def)
  have "permute_generic (elem_size x) (out_addr base x) (out_addr base y) (v_shape x) axis = ofold (\<lambda>i m. Inr (memcpy (out_addr base y + i * elem_size y)
      (out_addr base x + dot (unpermute axis (unflat (v_shape y) i)) (rm_strides (v_shape x)) * elem_size y)
      (elem_size y) m)) [0..prod_list (v_shape y) - 1]"
    by (rule ext) (simp only: permute_generic_eq [OF h(3) packed_shape [OF h(1)] h(5)] h(4))
  then show ?thesis
    using pick_sequence [OF permute_picks [OF ok], of _ m0]
    by (simp add: pick_addr_def permute_input_def packed_addr [OF h(1)] h(4))
qed

interpretation permute_kernel: element_kernel "\<lambda>base c m. permute_ready base c" "\<lambda>(axis, x, y). y" permute_input
  "\<lambda>base (axis, x, y). PermuteOp_forward base axis [Some x] [Some y]"
proof unfold_locales
  fix base and c :: "int list \<times> view \<times> view" and m
  obtain axis x y where c: "c = (axis, x, y)" by (cases c) auto
  assume "permute_ready base c"
  then have ok: "permute_ready base (axis, x, y)" by (simp add: c)
  show "picks_ok base (case c of (axis, x, y) \<Rightarrow> y) (permute_input c)" by (simp add: c permute_picks [OF ok])
  have "PermuteOp_forward base axis [Some x] [Some y] =
      permute_generic (elem_size x) (out_addr base x) (out_addr base y) (v_shape x) axis"
    using ok by (simp add: fun_eq_iff PermuteOp_forward_def permute_ready_def inp_def impl_def)
  with permute_moves [OF ok, of m]
  show "moves m (footprint base (case c of (axis, x, y) \<Rightarrow> y)) (pick base (case c of (axis, x, y) \<Rightarrow> y) (permute_input c))
      (footprint base (case c of (axis, x, y) \<Rightarrow> y))
      (case c of (axis, x, y) \<Rightarrow> PermuteOp_forward base axis [Some x] [Some y])"
    by (simp add: c)
qed

subsection \<open>Results\<close>

text \<open>
  C34: a contiguous copy of a view that spans less than 2 GB, with any strides, gaps and order of the dimensions
  within that span, has the same shape, row-major strides and at every index the element of the view, on each of
  the four paths of the kernel.
\<close>

theorem contiguous_copies_view:
  assumes "ContiguousOp_reshape u [Some x] = Inr [Some y]" "view_ok x" "span x * elem_size x < 2 ^ 31"
    and "footprint base x \<inter> footprint base y = {}" "in_range idx (v_shape x)"
  shows "\<exists>m'. ContiguousOp_forward base [Some x] [Some y] m = Inr m' \<and> v_shape y = v_shape x \<and>
    isContiguous y = Inr True \<and> elem base m' y idx = elem base m x idx"
proof -
  have y: "v_shape y = v_shape x" "v_stride y = rm_strides (v_shape y)" "v_dtype y = v_dtype x"
    using assms(1) by (auto simp: ContiguousOp_reshape_def like_input_def outcome_simps dest!: one_output_Inr)
  have p: "packed y" using y assms(2) by (simp add: packed_def view_ok_def)
  have ok: "contiguous_ready base (x, y)" using assms y p by (simp add: contiguous_ready_def)
  obtain m' where m': "ContiguousOp_forward base [Some x] [Some y] m = Inr m'"
    using contiguous_kernel.ends [of base "(x, y)" m] ok by auto
  have "elem base m' y idx = elem base m x idx"
    using contiguous_kernel.copies [of base "(x, y)" m m' idx x idx] ok m' y assms(5) by (simp add: same_index_def)
  with m' y p isContiguous_packed [OF packed_ok [OF p]] show ?thesis by simp
qed

definition column_view :: view where
  "column_view = \<lparr>v_shape = [3, 2], v_stride = [1, 3], v_offset = 0, v_store = demo_store\<rparr>"

lemma contiguous_copies_view_witness:
  "\<exists>y m'. ContiguousOp_reshape 5 [Some column_view] = Inr [Some y] \<and>
     ContiguousOp_forward join_base [Some column_view] [Some y] of_int = Inr m' \<and>
     elem join_base m' y [2, 1] = elem join_base of_int column_view [2, 1]"
proof -
  obtain y where y: "ContiguousOp_reshape 5 [Some column_view] = Inr [Some y]" "y = \<lparr>v_shape = [3, 2],
      v_stride = [2, 1], v_offset = 0, v_store = \<lparr>ts_uuid = 5, ts_size = 24, ts_dtype = kFloat32, ts_device = kCPU\<rparr>\<rparr>"
    by (simp add: ContiguousOp_reshape_def like_input_def column_view_def demo_eval u64_def)
  have h: "view_ok column_view" "span column_view * elem_size column_view < 2 ^ 31"
    "in_range [2, 1] (v_shape column_view)"
    by (simp_all add: kernel_eval column_view_def demo_store_def)
  have "footprint join_base column_view \<inter> footprint join_base y = {}"
    by (simp add: kernel_eval column_view_def demo_store_def y(2))
  from contiguous_copies_view [OF y(1) h(1,2) this h(3), of of_int] y(1) show ?thesis by blast
qed

text \<open>
  The strides in bytes are kept in 32 bits. With a stride of two gigabytes the second element of a view is read
  two gigabytes below its first one.
\<close>

lemma contiguous_stride_wraps:
  assumes "v_shape x = [2]" "v_stride x = [2 ^ 29]" "v_dtype x = kFloat32" "v_shape y = [2]"
    and "out_addr base y \<le> out_addr base x - 2 ^ 31 - 4 \<or> out_addr base x < out_addr base y"
  shows "\<exists>m'. ContiguousOp_forward base [Some x] [Some y] m = Inr m' \<and>
    m' (out_addr base y + 4) = m (out_addr base x - 2 ^ 31)"
proof -
  have c: "isContiguous x = Inr False"
    using assms(1,2) by (simp add: isContiguous_def numel_def)
  have "numel y = 2" using assms(4) by (simp add: numel_def numel_of_def u64_def)
  moreover have "elem_size x = 4" using assms(3) by (simp add: elem_size_def)
  moreover have "(2 :: int) smod 8 = 2" by (simp add: smod_int_alt_def)
  ultimately show ?thesis
    using assms c by (auto simp: ContiguousOp_forward_def inp_def impl_def Let_def copy_strided_def
        numeral_2_eq_2 u64_def to_i32_def memcpy_def)
qed

text \<open>
  The permuted tensor holds the element with input index \<open>ii\<close> at the index whose entries are those of \<open>ii\<close>
  in the order of the axes.
\<close>

theorem permute_places:
  assumes "PermuteOp_reshape axis u [Some x] = Inr [Some y]" "packed x" "v_dtype x \<in> permutable"
    and "mset axis = mset (map int [0..<length (v_shape x)])" "footprint base x \<inter> footprint base y = {}"
    and "in_range ii (v_shape x)"
  shows "\<exists>m'. PermuteOp_forward base axis [Some x] [Some y] m = Inr m' \<and>
    elem base m' y (map (\<lambda>p. ii ! nat p) axis) = elem base m x ii"
proof -
  let ?xs = "v_shape x"
  have ax: "axis_ok axis (length ?xs)" using assms(4) by (simp add: axis_ok_def)
  note a = axis_okD [OF ax]
  have y: "v_shape y = map (\<lambda>p. ?xs ! nat p) axis \<and> v_stride y = rm_strides (v_shape y) \<and> v_dtype y = v_dtype x"
  proof -
    obtain ys where ys: "length ys = length ?xs"
        "\<forall>i < length ?xs. obind (vec_at axis (int i)) (vec_at ?xs) = Inr (ys ! i)" "one_output ys x u = Inr [Some y]"
      using assms(1) by (auto simp: PermuteOp_reshape_def obind_Inr_iff omap_upt_Inr)
    have "ys ! i = ?xs ! nat (axis ! i)" if "i < length ?xs" for i
      using ys(2) that a by (auto simp: outcome_simps)
    then have "ys = map (\<lambda>p. ?xs ! nat p) axis" using ys(1) a by (intro nth_equalityI) simp_all
    with one_output_Inr [OF ys(3)] show ?thesis by auto
  qed
  have px: "shape_ok ?xs" "lanesOfType (v_dtype x) = 1" using assms(2) by (simp_all add: packed_def)
  have "shape_ok (v_shape y)" using permute_setup(5) [OF ax px(1)] y by simp
  with y px have ok: "permute_ready base (axis, x, y)"
    using assms ax by (simp add: permute_ready_def packed_def)
  obtain m' where m': "PermuteOp_forward base axis [Some x] [Some y] m = Inr m'"
    using permute_kernel.ends [of base "(axis, x, y)" m] ok by auto
  let ?oi = "map (\<lambda>p. ii ! nat p) axis"
  have "nat (axis ! i) < length ?xs" if "i < length ?xs" for i
    using nth_mem [of i axis] a that by auto
  then have "in_range ?oi (v_shape y)"
    using assms(6) a y by (auto simp: in_range_def list_all2_conv_all_nth)
  moreover have "permute_input (axis, x, y) ?oi = (x, ii)"
    using unpermute_permuted [OF ax in_range_length [OF assms(6)]] by (simp add: permute_input_def)
  ultimately show ?thesis
    using permute_kernel.copies [of base "(axis, x, y)" m m' ?oi x ii] ok m' by simp
qed

lemma permute_places_witness:
  "\<exists>y m'. PermuteOp_reshape [1, 0] 5 [Some demo_view] = Inr [Some y] \<and>
     PermuteOp_forward join_base [1, 0] [Some demo_view] [Some y] of_int = Inr m' \<and>
     elem join_base m' y [2, 1] = elem join_base of_int demo_view [1, 2]"
proof -
  obtain y where y: "PermuteOp_reshape [1, 0] 5 [Some demo_view] = Inr [Some y]" "y = \<lparr>v_shape = [3, 2],
      v_stride = [2, 1], v_offset = 0, v_store = \<lparr>ts_uuid = 5, ts_size = 24, ts_dtype = kFloat32, ts_device = kCPU\<rparr>\<rparr>"
    by (simp add: PermuteOp_reshape_def demo_eval upt_rec u64_def)
  have h: "packed demo_view" "v_dtype demo_view \<in> permutable" "in_range [1, 2] (v_shape demo_view)"
    "mset [1, 0] = mset (map int [0..<length (v_shape demo_view)])"
    by (simp_all add: kernel_eval demo_view_def demo_store_def permutable_def upt_rec add_mset_commute)
  have "footprint join_base demo_view \<inter> footprint join_base y = {}"
    by (simp add: kernel_eval demo_view_def demo_store_def y(2))
  from permute_places [OF y(1) h(1,2,4) this h(3), of of_int] y(1) show ?thesis by auto
qed

text \<open>Cloning copies a tensor that fills its storage; for a view of a part it writes the whole size of the storage.\<close>

lemma clone_writes_storage:
  assumes "packed x" "0 \<le> k" "k < ts_size (v_store x)"
  shows "\<exists>m'. CloneOp_forward base [Some x] [Some y] m = Inr m' \<and>
    m' (out_addr base y + k) = m (out_addr base x + k)"
  using assms isContiguous_packed [OF packed_ok [OF assms(1)]]
  by (simp add: CloneOp_forward_def inp_def impl_def rt_assert_def memcpy_def)

end
