(* ===== verification/Transpose_Kernels.thy ===== *)
theory Transpose_Kernels
  imports Layout_Kernels
begin

text \<open>
  Transposition, \<^verbatim>\<open>mllm/backends/cpu/ops/TransposeOp.cpp\<close> with the kernels of
  \<^verbatim>\<open>mllm/backends/cpu/kernels/x86/transpose.cpp\<close>, as they are built with SSE2. A vector register is the
  list of its lanes, a lane a function from the number of a byte to the byte.
\<close>

subsection \<open>Vector registers\<close>

type_synonym lane = "int \<Rightarrow> 8 word"

definition lane_at :: "int \<Rightarrow> memory \<Rightarrow> lane" where
  "lane_at p m = (\<lambda>b. m (p + b))"

text \<open>\<^verbatim>\<open>_mm_loadu_ps\<close>, \<^verbatim>\<open>_mm_loadu_si128\<close> and the stores, for \<open>n\<close> lanes of \<open>es\<close> bytes.\<close>

definition mm_loadu :: "nat \<Rightarrow> int \<Rightarrow> int \<Rightarrow> memory \<Rightarrow> lane list" where
  "mm_loadu n es p m = map (\<lambda>k. lane_at (p + int k * es) m) [0..<n]"

definition mm_storeu :: "int \<Rightarrow> int \<Rightarrow> lane list \<Rightarrow> memory \<Rightarrow> memory" where
  "mm_storeu es p r m =
     (\<lambda>a. if p \<le> a \<and> a < p + int (length r) * es then (r ! nat ((a - p) div es)) ((a - p) mod es) else m a)"

definition mm_unpacklo_ps :: "lane list \<Rightarrow> lane list \<Rightarrow> lane list" where
  "mm_unpacklo_ps a b = [a ! 0, b ! 0, a ! 1, b ! 1]"

definition mm_unpackhi_ps :: "lane list \<Rightarrow> lane list \<Rightarrow> lane list" where
  "mm_unpackhi_ps a b = [a ! 2, b ! 2, a ! 3, b ! 3]"

definition mm_movelh_ps :: "lane list \<Rightarrow> lane list \<Rightarrow> lane list" where
  "mm_movelh_ps a b = [a ! 0, a ! 1, b ! 0, b ! 1]"

definition mm_movehl_ps :: "lane list \<Rightarrow> lane list \<Rightarrow> lane list" where
  "mm_movehl_ps a b = [b ! 2, b ! 3, a ! 2, a ! 3]"

definition mm_unpacklo_epi64 :: "lane list \<Rightarrow> lane list \<Rightarrow> lane list" where
  "mm_unpacklo_epi64 a b = [a ! 0, b ! 0]"

definition mm_unpackhi_epi64 :: "lane list \<Rightarrow> lane list \<Rightarrow> lane list" where
  "mm_unpackhi_epi64 a b = [a ! 1, b ! 1]"

text \<open>\<^verbatim>\<open>_mm_set_ps\<close> and \<^verbatim>\<open>_mm_set_epi64x\<close> take the highest lane first.\<close>

definition mm_set :: "lane list \<Rightarrow> lane list" where
  "mm_set ls = rev ls"

subsection \<open>Loops\<close>

text \<open>\<^verbatim>\<open>for (i = 0; i + n <= limit; i += n)\<close> and the loop over the rest.\<close>

definition vector_steps :: "nat \<Rightarrow> int \<Rightarrow> int list" where
  "vector_steps n limit = map (\<lambda>k. int n * k) [0..limit div int n - 1]"

definition rest_steps :: "nat \<Rightarrow> int \<Rightarrow> int list" where
  "rest_steps n limit = [limit - limit mod int n..limit - 1]"

text \<open>The address of element \<open>[i, j]\<close> of a matrix with \<open>w\<close> columns.\<close>

definition cell_addr :: "int \<Rightarrow> int \<Rightarrow> int \<Rightarrow> int \<Rightarrow> int \<Rightarrow> int" where
  "cell_addr es X w i j = X + u64 (i * w + j) * es"

subsection \<open>Two dimensions\<close>

definition block_fp32 :: "int \<Rightarrow> int \<Rightarrow> int \<Rightarrow> int \<Rightarrow> int \<Rightarrow> int \<Rightarrow> memory \<Rightarrow> memory" where
  "block_fp32 X Y H W i j m =
     (let r0 = mm_loadu 4 4 (cell_addr 4 X W i j) m;
          r1 = mm_loadu 4 4 (cell_addr 4 X W (i + 1) j) m;
          r2 = mm_loadu 4 4 (cell_addr 4 X W (i + 2) j) m;
          r3 = mm_loadu 4 4 (cell_addr 4 X W (i + 3) j) m;
          t0 = mm_unpacklo_ps r0 r1; t1 = mm_unpackhi_ps r0 r1;
          t2 = mm_unpacklo_ps r2 r3; t3 = mm_unpackhi_ps r2 r3;
          col0 = mm_movelh_ps t0 t2; col1 = mm_movehl_ps t2 t0;
          col2 = mm_movelh_ps t1 t3; col3 = mm_movehl_ps t3 t1
      in mm_storeu 4 (cell_addr 4 Y H (j + 3) i) col3
           (mm_storeu 4 (cell_addr 4 Y H (j + 2) i) col2
             (mm_storeu 4 (cell_addr 4 Y H (j + 1) i) col1
               (mm_storeu 4 (cell_addr 4 Y H j i) col0 m))))"

definition block_int64 :: "int \<Rightarrow> int \<Rightarrow> int \<Rightarrow> int \<Rightarrow> int \<Rightarrow> int \<Rightarrow> memory \<Rightarrow> memory" where
  "block_int64 X Y H W i j m =
     (let r0 = mm_loadu 2 8 (cell_addr 8 X W i j) m;
          r1 = mm_loadu 2 8 (cell_addr 8 X W (i + 1) j) m;
          col0 = mm_unpacklo_epi64 r0 r1; col1 = mm_unpackhi_epi64 r0 r1
      in mm_storeu 8 (cell_addr 8 Y H (j + 1) i) col1 (mm_storeu 8 (cell_addr 8 Y H j i) col0 m))"

text \<open>A column that is left over, in the rows of a block; a single element.\<close>

definition rest_column ::
  "nat \<Rightarrow> int \<Rightarrow> int \<Rightarrow> int \<Rightarrow> int \<Rightarrow> int \<Rightarrow> int \<Rightarrow> int \<Rightarrow> memory \<Rightarrow> memory" where
  "rest_column n es X Y H W i j m =
     mm_storeu es (cell_addr es Y H j i)
       (mm_set (map (\<lambda>k. lane_at (cell_addr es X W (i + int k) j) m) (rev [0..<n]))) m"

definition transpose_cell :: "int \<Rightarrow> int \<Rightarrow> int \<Rightarrow> int \<Rightarrow> int \<Rightarrow> int \<Rightarrow> int \<Rightarrow> memory \<Rightarrow> memory outcome" where
  "transpose_cell es X Y H W j i m = Inr (memcpy (cell_addr es Y H j i) (cell_addr es X W i j) es m)"

definition transpose_hw_wh ::
  "nat \<Rightarrow> int \<Rightarrow> (int \<Rightarrow> int \<Rightarrow> int \<Rightarrow> int \<Rightarrow> int \<Rightarrow> int \<Rightarrow> memory \<Rightarrow> memory) \<Rightarrow> int \<Rightarrow> int \<Rightarrow> int \<Rightarrow> int \<Rightarrow>
     memory \<Rightarrow> memory outcome" where
  "transpose_hw_wh n es block X Y H W m =
     obind (ofold (\<lambda>i m. obind (ofold (\<lambda>j m. Inr (block X Y H W i j m)) (vector_steps n W) m)
                           (ofold (\<lambda>j m. Inr (rest_column n es X Y H W i j m)) (rest_steps n W)))
              (vector_steps n H) m)
       (ofold (\<lambda>j. ofold (transpose_cell es X Y H W j) (rest_steps n H)) [0..W - 1])"

definition transpose_hw_wh_fp32 :: "int \<Rightarrow> int \<Rightarrow> int \<Rightarrow> int \<Rightarrow> memory \<Rightarrow> memory outcome" where
  "transpose_hw_wh_fp32 = transpose_hw_wh 4 4 block_fp32"

definition transpose_hw_wh_int64 :: "int \<Rightarrow> int \<Rightarrow> int \<Rightarrow> int \<Rightarrow> memory \<Rightarrow> memory outcome" where
  "transpose_hw_wh_int64 = transpose_hw_wh 2 8 block_int64"

subsection \<open>The last two dimensions\<close>

definition transpose_last_dims_fp32 :: "int \<Rightarrow> int \<Rightarrow> int \<Rightarrow> int \<Rightarrow> int \<Rightarrow> memory \<Rightarrow> memory outcome" where
  "transpose_last_dims_fp32 input output batch dim0 dim1 =
     ofold (\<lambda>b. transpose_hw_wh_fp32 (input + u64 (b * dim0 * dim1) * 4) (output + u64 (b * dim0 * dim1) * 4)
                  dim0 dim1) [0..batch - 1]"

definition transpose_last_dims_int64 :: "int \<Rightarrow> int \<Rightarrow> int \<Rightarrow> int \<Rightarrow> int \<Rightarrow> memory \<Rightarrow> memory outcome" where
  "transpose_last_dims_int64 input output batch dim0 dim1 =
     ofold (\<lambda>b. transpose_hw_wh_int64 (input + u64 (b * dim0 * dim1) * 8) (output + u64 (b * dim0 * dim1) * 8)
                  dim0 dim1) [0..batch - 1]"

subsection \<open>The middle two of four dimensions\<close>

text \<open>A row is copied in registers and the rest one by one.\<close>

definition copy_row :: "nat \<Rightarrow> int \<Rightarrow> int \<Rightarrow> int \<Rightarrow> int \<Rightarrow> memory \<Rightarrow> memory outcome" where
  "copy_row n es dst src d m =
     obind (ofold (\<lambda>j m. Inr (mm_storeu es (dst + j * es) (mm_loadu n es (src + j * es) m) m)) (vector_steps n d) m)
       (ofold (\<lambda>j m. Inr (memcpy (dst + j * es) (src + j * es) es m)) (rest_steps n d))"

definition transpose_bshd_bhsd ::
  "nat \<Rightarrow> int \<Rightarrow> int \<Rightarrow> int \<Rightarrow> int \<Rightarrow> int \<Rightarrow> int \<Rightarrow> int \<Rightarrow> memory \<Rightarrow> memory outcome" where
  "transpose_bshd_bhsd n es X Y B S H D =
     ofold (\<lambda>b. ofold (\<lambda>h. ofold (\<lambda>s.
       copy_row n es (Y + u64 (b * H * S * D + h * S * D + s * D) * es)
         (X + u64 (b * S * H * D + s * H * D + h * D) * es) D) [0..S - 1]) [0..H - 1]) [0..B - 1]"

definition transpose_bshd_bhsd_fp32 :: "int \<Rightarrow> int \<Rightarrow> int \<Rightarrow> int \<Rightarrow> int \<Rightarrow> int \<Rightarrow> memory \<Rightarrow> memory outcome" where
  "transpose_bshd_bhsd_fp32 = transpose_bshd_bhsd 4 4"

definition transpose_bshd_bhsd_int64 :: "int \<Rightarrow> int \<Rightarrow> int \<Rightarrow> int \<Rightarrow> int \<Rightarrow> int \<Rightarrow> memory \<Rightarrow> memory outcome" where
  "transpose_bshd_bhsd_int64 = transpose_bshd_bhsd 2 8"

subsection \<open>Any permutation\<close>

definition row_offsets :: "int list \<Rightarrow> int list \<Rightarrow> int list \<Rightarrow> int list \<Rightarrow> (int \<times> int) outcome" where
  "row_offsets perm coord in_strides out_strides =
     ofold (\<lambda>i (a, b).
       obind (vec_at perm i) (\<lambda>orig_dim. obind (vec_at coord i) (\<lambda>c.
       obind (vec_at in_strides orig_dim) (\<lambda>s. obind (vec_at out_strides i) (\<lambda>t.
       obind (i32 (c * s)) (\<lambda>cs. obind (i32 (a + cs)) (\<lambda>a'.
       obind (i32 (c * t)) (\<lambda>ct. obind (i32 (b + ct)) (\<lambda>b'. Inr (a', b')))))))))) [0..int (length coord) - 1] (0, 0)"

definition permute_row ::
  "int \<Rightarrow> int \<Rightarrow> int list \<Rightarrow> int list \<Rightarrow> int list \<Rightarrow> int list \<Rightarrow> int \<Rightarrow> int \<Rightarrow> memory \<Rightarrow> memory outcome" where
  "permute_row xp yp out_shape perm in_strides out_strides inner r m =
     obind (unravel64 (butlast out_shape) r) (\<lambda>coord.
     obind (row_offsets perm coord in_strides out_strides) (\<lambda>(a, b).
       copy_row 4 4 (yp + b * 4) (xp + a * 4) inner m))"

definition permute_fp32 :: "int \<Rightarrow> int \<Rightarrow> int list \<Rightarrow> int list \<Rightarrow> memory \<Rightarrow> memory outcome" where
  "permute_fp32 xp yp in_shape perm m =
     (let ndim = int (length perm) in
      obind (permuted_shape in_shape perm) (\<lambda>out_shape.
      obind (omap (vec_at in_shape) [0..ndim - 1]) (\<lambda>dims.
      obind (view_strides dims) (\<lambda>in_strides. obind (view_strides out_shape) (\<lambda>out_strides.
      obind (int_product in_shape [0..ndim - 1]) (\<lambda>total_elements.
      obind (vec_at perm (ndim - 1)) (\<lambda>p. obind (vec_at out_shape (ndim - 1)) (\<lambda>inner.
        if p = ndim - 1 \<and> 4 \<le> inner then
          ofold (permute_row xp yp out_shape perm in_strides out_strides inner) [0..total_elements sdiv inner - 1] m
        else
          permute_loop 4 xp yp out_shape in_strides perm (nat total_elements) 0 (replicate (length perm) 0) m))))))))"

subsection \<open>TransposeOp\<close>

definition swapped_axis :: "nat \<Rightarrow> int \<Rightarrow> int \<Rightarrow> int list outcome" where
  "swapped_axis n dim0 dim1 =
     (let axis = map int [0..<n] in
      obind (vec_at axis dim0) (\<lambda>a. obind (vec_at axis dim1) (\<lambda>b.
      obind (vec_set axis dim0 b) (\<lambda>axis'. vec_set axis' dim1 a))))"

text \<open>\<^verbatim>\<open>batch\<close> of the third case starts at 0 and is multiplied by the sizes of the dimensions.\<close>

definition TransposeOp_forward ::
  "(nat \<Rightarrow> int) \<Rightarrow> int \<Rightarrow> int \<Rightarrow> tensor list \<Rightarrow> tensor list \<Rightarrow> memory \<Rightarrow> memory outcome" where
  "TransposeOp_forward base opt_dim0 opt_dim1 ts os m =
     obind (inp ts 0) (\<lambda>x. obind (inp os 0) (\<lambda>y.
       let shape = v_shape x; dim0 = wrap_dim opt_dim0 shape; dim1 = wrap_dim opt_dim1 shape;
           X = out_addr base x; Y = out_addr base y; n = length shape; d = (\<lambda>k. u64 (shape ! k))
       in obind (i32 (dim0 + dim1)) (\<lambda>dims.
         if n = 2 \<and> dims = 1 then
           (case v_dtype x of
              kFloat32 \<Rightarrow> transpose_hw_wh_fp32 X Y (d 0) (d 1) m
            | kInt64 \<Rightarrow> transpose_hw_wh_int64 X Y (d 0) (d 1) m
            | _ \<Rightarrow> Inr m)
         else if n = 4 \<and> (dim0 = 1 \<and> dim1 = 2 \<or> dim0 = 2 \<and> dim1 = 1) then
           (case v_dtype x of
              kFloat32 \<Rightarrow> transpose_bshd_bhsd_fp32 X Y (d 0) (d 1) (d 2) (d 3) m
            | kInt64 \<Rightarrow> transpose_bshd_bhsd_int64 X Y (d 0) (d 1) (d 2) (d 3) m
            | _ \<Rightarrow> Inr m)
         else if n \<noteq> 2 \<and> dims = 1 then
           (if n < 2 then Inl Undefined
            else obind (ofold (\<lambda>s batch. i32 (batch * s)) (take (n - 2) shape) 0) (\<lambda>batch.
              case v_dtype x of
                kFloat32 \<Rightarrow> transpose_last_dims_fp32 X Y (u64 batch) (d 0) (d 1) m
              | kInt64 \<Rightarrow> transpose_last_dims_int64 X Y (u64 batch) (d 0) (d 1) m
              | _ \<Rightarrow> Inr m))
         else
           obind (swapped_axis n dim0 dim1) (\<lambda>axis.
           (case v_dtype x of
              kFloat32 \<Rightarrow> permute_fp32 X Y shape axis m
            | kInt64 \<Rightarrow> permute_generic 8 X Y shape axis m
            | _ \<Rightarrow> Inr m)))))"

subsection \<open>A register at a time\<close>

lemma vector_steps_cover:
  assumes "0 < n" "0 \<le> limit"
  shows "(\<Union>i \<in> set (vector_steps n limit). {i ..< i + int n}) = {0 ..< limit - limit mod int n}"
proof -
  have e: "limit - limit mod int n = limit div int n * int n" by (simp add: minus_mod_eq_div_mult)
  have "(\<Union>k \<in> set [0..limit div int n - 1]. cells 0 1 (0 + k * int n) (int n)) = cells 0 1 0 (limit div int n * int n)"
    by (rule cells_blocks) simp_all
  then show ?thesis unfolding e by (simp add: cells_def vector_steps_def mult.commute)
qed

lemma vector_steps_range:
  assumes "i \<in> set (vector_steps n limit)"
  shows "0 \<le> i" "i + int n \<le> limit"
proof -
  have "i \<in> (\<lambda>k. int n * k) ` {0..limit div int n - 1}" using assms by (simp add: vector_steps_def)
  then obtain k where k: "i = int n * k" and "k \<in> {0..limit div int n - 1}" by (rule imageE)
  then have r: "0 \<le> k" "k < limit div int n" by simp_all
  have "0 < n" using r by (cases n) simp_all
  then have "int n * (limit div int n) \<le> limit" by (simp add: minus_mod_eq_mult_div [symmetric])
  moreover have "int n * k + int n \<le> int n * (limit div int n)" "0 \<le> int n * k"
    using block_le [OF r, of "int n"] by (simp_all add: mult.commute)
  ultimately show "0 \<le> i" "i + int n \<le> limit" using k by linarith+
qed

lemma rest_steps_range:
  assumes "0 < n" "0 \<le> limit" "i \<in> set (rest_steps n limit)"
  shows "0 \<le> i" "i < limit"
  using assms zmod_le_nonneg_dividend [of limit "int n"] by (auto simp: rest_steps_def)

lemma steps_cover:
  assumes "0 < n" "0 \<le> limit"
  shows "{0 ..< limit - limit mod int n} \<union> set (rest_steps n limit) = {0 ..< limit}"
proof -
  have "0 \<le> limit mod int n" "limit mod int n \<le> limit"
    using assms by (simp_all add: zmod_le_nonneg_dividend)
  then show ?thesis by (auto simp: rest_steps_def)
qed

lemma store_load:
  assumes "0 < es"
  shows "mm_storeu es dst (mm_loadu n es src m) m = memcpy dst src (int n * es) m"
proof
  fix a
  have "mm_loadu n es src m ! nat ((a - dst) div es) = lane_at (src + (a - dst) div es * es) m"
    if "dst \<le> a" "a < dst + int n * es"
  proof -
    have "(a - dst) div es < int n" "0 \<le> (a - dst) div es"
      using that int_div_less [OF assms, of "a - dst" "int n"] assms by (simp_all add: pos_imp_zdiv_nonneg_iff)
    then have "nat ((a - dst) div es) < n" by (simp add: nat_less_iff)
    with \<open>0 \<le> (a - dst) div es\<close> show ?thesis by (simp add: mm_loadu_def)
  qed
  then show "mm_storeu es dst (mm_loadu n es src m) m a = memcpy dst src (int n * es) m a"
    by (simp add: mm_storeu_def memcpy_def lane_at_def mm_loadu_def algebra_simps)
qed

lemma moved_store:
  assumes mv: "moved F A m m1" and es: "0 < es" and len: "length r = n"
    and r: "\<And>k b. k < n \<Longrightarrow> 0 \<le> b \<Longrightarrow> b < es \<Longrightarrow> (r ! k) b = F (p + int k * es + b) m"
  shows "moved F (A \<union> {p ..< p + int n * es}) m (mm_storeu es p r m1)"
  unfolding moved_def
proof
  fix a
  show "mm_storeu es p r m1 a = (if a \<in> A \<union> {p ..< p + int n * es} then F a m else m a)"
  proof (cases "p \<le> a \<and> a < p + int n * es")
    case True
    let ?q = "a - p"
    have q: "?q div es < int n" "0 \<le> ?q div es" "0 \<le> ?q mod es" "?q mod es < es"
      using True int_div_less [OF es, of ?q "int n"] es by (simp_all add: pos_imp_zdiv_nonneg_iff)
    have "p + int (nat (?q div es)) * es + ?q mod es = a" using q(2) by (simp add: add.assoc)
    then have "(r ! nat (?q div es)) (?q mod es) = F a m" using r [of "nat (?q div es)" "?q mod es"] q by simp
    then show ?thesis using True by (simp add: mm_storeu_def len)
  next
    case False
    then show ?thesis using mv by (auto simp: mm_storeu_def len moved_def)
  qed
qed

text \<open>A row of \<open>d\<close> elements.\<close>

lemma moves_row:
  assumes es: "0 < es" and n: "0 < n" and D: "cells p es J d \<subseteq> D" and d: "0 \<le> d" and ap: "apart (elem_src p es s) D"
    and s: "\<And>t. 0 \<le> t \<Longrightarrow> t < d \<Longrightarrow> s (J + t) = bytes_from (src + t * es)" and dst: "dst = p + J * es"
  shows "moves m0 D (elem_src p es s) (cells p es J d) (copy_row n es dst src d)"
proof -
  let ?F = "elem_src p es s"
  have part: "moves m0 D ?F (elems p es {J + j ..< J + j + c}) (\<lambda>m. Inr (memcpy (dst + j * es) (src + j * es) (c * es) m))"
    if "0 \<le> j" "j + c \<le> d" for j c
  proof -
    have "moves m0 D ?F (cells p es (J + j) c) (\<lambda>m. Inr (memcpy (dst + j * es) (src + j * es) (c * es) m))"
    proof (rule moves_block [OF es])
      show "cells p es (J + j) c \<subseteq> D"
        using cells_subset [of es J "J + j" c d p] es that D by auto
      fix t assume "0 \<le> t" "t < c"
      then show "s (J + j + t) = bytes_from (src + j * es + t * es)"
        using s [of "j + t"] that by (simp add: add.assoc distrib_right)
    qed (simp_all add: dst distrib_right)
    then show ?thesis by (simp add: elems_cells [OF es])
  qed
  have "moves m0 D ?F (elems p es (\<Union>j \<in> set (vector_steps n d). {J + j ..< J + j + int n}))
      (ofold (\<lambda>j m. Inr (mm_storeu es (dst + j * es) (mm_loadu n es (src + j * es) m) m)) (vector_steps n d))"
    by (rule moves_each [OF _ ap]) (use part vector_steps_range in \<open>simp add: store_load [OF es]\<close>)
  moreover have "moves m0 D ?F (elems p es (\<Union>j \<in> set (rest_steps n d). {J + j ..< J + j + 1}))
      (ofold (\<lambda>j m. Inr (memcpy (dst + j * es) (src + j * es) es m)) (rest_steps n d))"
  proof (rule moves_each [OF _ ap])
    fix j assume "j \<in> set (rest_steps n d)"
    from rest_steps_range [OF n d this] part [of j 1]
    show "moves m0 D ?F (elems p es {J + j ..< J + j + 1}) (\<lambda>m. Inr (memcpy (dst + j * es) (src + j * es) es m))"
      by simp
  qed
  ultimately have "moves m0 D ?F (elems p es ((\<Union>j \<in> set (vector_steps n d). {J + j ..< J + j + int n}) \<union>
      (\<Union>j \<in> set (rest_steps n d). {J + j ..< J + j + 1}))) (copy_row n es dst src d)"
    using moves_seq [OF _ _ ap] unfolding copy_row_def elems_Un [symmetric] by blast
  moreover have "(\<Union>j \<in> set (vector_steps n d). {J + j ..< J + j + int n}) \<union>
      (\<Union>j \<in> set (rest_steps n d). {J + j ..< J + j + 1}) = {J ..< J + d}"
  proof -
    have "(\<Union>j \<in> set (vector_steps n d). {J + j ..< J + j + int n}) = (+) J ` {0 ..< d - d mod int n}"
      unfolding vector_steps_cover [OF n d, symmetric] by (simp add: image_UN ac_simps)
    moreover have "(\<Union>j \<in> set (rest_steps n d). {J + j ..< J + j + 1}) = (+) J ` set (rest_steps n d)"
      by auto
    ultimately have "(\<Union>j \<in> set (vector_steps n d). {J + j ..< J + j + int n}) \<union>
        (\<Union>j \<in> set (rest_steps n d). {J + j ..< J + j + 1}) =
        (+) J ` ({0 ..< d - d mod int n} \<union> set (rest_steps n d))" by (simp only: image_Un)
    then show ?thesis unfolding steps_cover [OF n d] by (simp add: add.commute)
  qed
  ultimately show ?thesis by (simp add: elems_cells [OF es])
qed

subsection \<open>Matrices\<close>

text \<open>The positions of a rectangle of the output, which has \<open>H\<close> columns.\<close>

definition rect :: "int \<Rightarrow> int set \<Rightarrow> int set \<Rightarrow> int set" where
  "rect H I J = {j * H + i | i j. i \<in> I \<and> j \<in> J}"

definition mat_src :: "int \<Rightarrow> int \<Rightarrow> int \<Rightarrow> int \<Rightarrow> int \<Rightarrow> source" where
  "mat_src es X H W t = bytes_from (X + (t mod H * W + t div H) * es)"

lemma rect_Un: "rect H I J \<union> rect H I J' = rect H I (J \<union> J')" "rect H I J \<union> rect H I' J = rect H (I \<union> I') J"
  by (auto simp: rect_def)

lemma rect_UN: "(\<Union>x \<in> X. rect H I (J x)) = rect H I (\<Union>x \<in> X. J x)" "(\<Union>x \<in> X. rect H (K x) L) = rect H (\<Union>x \<in> X. K x) L"
  by (auto simp: rect_def)

lemma rect_bound:
  assumes "I \<subseteq> {0 ..< H}" "J \<subseteq> {0 ..< W}"
  shows "rect H I J \<subseteq> {0 ..< 0 + H * W}"
proof
  fix t assume "t \<in> rect H I J"
  then obtain i j where t: "t = j * H + i" "i \<in> I" "j \<in> J" by (auto simp: rect_def)
  with assms have b: "0 \<le> i" "i < H" "0 \<le> j" "j < W" by auto
  have "0 \<le> j * H" "j * H + H \<le> W * H" using block_le [OF b(3,4), of H] b by simp_all
  with t(1) b show "t \<in> {0 ..< 0 + H * W}" by (simp add: mult.commute)
qed

lemma rect_all:
  assumes "0 < H"
  shows "rect H {0 ..< H} {0 ..< W} = {0 ..< 0 + H * W}"
proof
  show "{0 ..< 0 + H * W} \<subseteq> rect H {0 ..< H} {0 ..< W}"
  proof
    fix t assume "t \<in> {0 ..< 0 + H * W}"
    then have "t = t div H * H + t mod H" "0 \<le> t div H" "t div H < W" "0 \<le> t mod H" "t mod H < H"
      using assms int_div_less [OF assms, of t W] by (simp_all add: pos_imp_zdiv_nonneg_iff mult.commute)
    then show "t \<in> rect H {0 ..< H} {0 ..< W}" unfolding rect_def by fastforce
  qed
qed (rule rect_bound; simp)

lemma mat_src_at:
  assumes "0 \<le> i" "i < H"
  shows "mat_src es X H W (j * H + i) = bytes_from (X + (i * W + j) * es)"
  using assms by (simp add: mat_src_def div_add1_eq)

lemma cell_addr_eq:
  assumes "0 \<le> i" "i < h" "0 \<le> j" "j < w" "h * w < 2 ^ 31"
  shows "cell_addr es X w i j = X + (i * w + j) * es"
proof -
  have "0 \<le> i * w" "i * w + w \<le> h * w" using block_le [OF assms(1,2), of w] assms by simp_all
  then have "u64 (i * w + j) = i * w + j" using assms by (simp add: u64_def)
  then show ?thesis by (simp add: cell_addr_def)
qed

text \<open>A register stored into row \<open>j\<close> of the output: a part of column \<open>j\<close> of the input.\<close>

lemma store_column:
  assumes dims: "0 < H" "0 < W" "H * W < 2 ^ 31" and es: "0 < es"
    and mv: "moved (elem_src Y es (mat_src es X H W)) A m m1"
    and ij: "0 \<le> i" "i + int n \<le> H" "0 \<le> j" "j < W" "0 < n" and len: "length r = n"
    and r: "\<And>k. k < n \<Longrightarrow> r ! k = lane_at (X + ((i + int k) * W + j) * es) m"
  shows "moved (elem_src Y es (mat_src es X H W)) (A \<union> elems Y es (rect H {i ..< i + int n} {j})) m
    (mm_storeu es (cell_addr es Y H j i) r m1)"
proof -
  let ?p = "Y + (j * H + i) * es"
  have p: "cell_addr es Y H j i = ?p"
    using cell_addr_eq [of j W i H es Y] ij dims by (simp add: mult.commute)
  have "rect H I {j} = (+) (j * H) ` I" for I by (auto simp: rect_def)
  then have "rect H {i ..< i + int n} {j} = {j * H + i ..< j * H + i + int n}"
    by (simp add: ac_simps)
  then have e: "elems Y es (rect H {i ..< i + int n} {j}) = {?p ..< ?p + int n * es}"
    using elems_cells [OF es, of Y "j * H + i" "int n"] by (simp add: cells_def distrib_right add.assoc)
  show ?thesis unfolding e p
  proof (rule moved_store [OF mv es len])
    fix k b assume k: "k < n" and b: "0 \<le> b" "b < es"
    have q: "?p + int k * es + b = Y + (j * H + (i + int k)) * es + b" by (simp add: algebra_simps)
    show "(r ! k) b = elem_src Y es (mat_src es X H W) (?p + int k * es + b) m"
      unfolding q using elem_src_at [OF b, of Y "mat_src es X H W" "j * H + (i + int k)"]
        mat_src_at [of "i + int k" H es X W j] r [OF k] k ij
      by (simp add: bytes_from_def lane_at_def)
  qed
qed

text \<open>The contract of a block: \<open>n\<close> rows and columns are transposed.\<close>

locale transpose_block =
  fixes n :: nat and es :: int and block :: "int \<Rightarrow> int \<Rightarrow> int \<Rightarrow> int \<Rightarrow> int \<Rightarrow> int \<Rightarrow> memory \<Rightarrow> memory"
  assumes lanes: "0 < n" and width: "0 < es"
    and block: "0 < H \<Longrightarrow> 0 < W \<Longrightarrow> H * W < 2 ^ 31 \<Longrightarrow> 0 \<le> i \<Longrightarrow> i + int n \<le> H \<Longrightarrow> 0 \<le> j \<Longrightarrow> j + int n \<le> W \<Longrightarrow>
      moved (elem_src Y es (mat_src es X H W)) (elems Y es (rect H {i ..< i + int n} {j ..< j + int n})) m
        (block X Y H W i j m)"
begin

lemma rest_column_moved:
  assumes "0 < H" "0 < W" "H * W < 2 ^ 31" "0 \<le> i" "i + int n \<le> H" "0 \<le> j" "j < W"
  shows "moved (elem_src Y es (mat_src es X H W)) (elems Y es (rect H {i ..< i + int n} {j})) m
    (rest_column n es X Y H W i j m)"
proof -
  let ?r = "mm_set (map (\<lambda>k. lane_at (cell_addr es X W (i + int k) j) m) (rev [0..<n]))"
  have r: "?r = map (\<lambda>k. lane_at (cell_addr es X W (i + int k) j) m) [0..<n]" by (simp add: mm_set_def rev_map)
  have "moved (elem_src Y es (mat_src es X H W)) {} m m" by (simp add: moved_def)
  from store_column [OF assms(1-3) width this assms(4-7) lanes, of ?r] show ?thesis
    unfolding rest_column_def r using cell_addr_eq [of "i + int k" H j W es X for k] assms by simp
qed

lemma rows_moved:
  assumes dims: "0 < H" "0 < W" "H * W < 2 ^ 31" and i: "0 \<le> i" "i + int n \<le> H"
    and D: "D = elems Y es {0 ..< 0 + H * W}" and ap: "apart (elem_src Y es (mat_src es X H W)) D"
  shows "moves m0 D (elem_src Y es (mat_src es X H W)) (elems Y es (rect H {i ..< i + int n} {0 ..< W}))
    (\<lambda>m. obind (ofold (\<lambda>j m. Inr (block X Y H W i j m)) (vector_steps n W) m)
           (ofold (\<lambda>j m. Inr (rest_column n es X Y H W i j m)) (rest_steps n W)))"
proof -
  let ?F = "elem_src Y es (mat_src es X H W)" and ?I = "{i ..< i + int n}"
  have inD: "elems Y es (rect H ?I J) \<subseteq> D" if "J \<subseteq> {0 ..< W}" for J
    unfolding D by (rule elems_mono [OF rect_bound [OF _ that]]) (use i in auto)
  have "moves m0 D ?F (elems Y es (\<Union>j \<in> set (vector_steps n W). rect H ?I {j ..< j + int n}))
      (ofold (\<lambda>j m. Inr (block X Y H W i j m)) (vector_steps n W))"
  proof (rule moves_each [OF _ ap])
    fix j assume "j \<in> set (vector_steps n W)"
    note j = vector_steps_range [OF this]
    show "moves m0 D ?F (elems Y es (rect H ?I {j ..< j + int n})) (\<lambda>m. Inr (block X Y H W i j m))"
      by (rule movesI) (use inD [of "{j ..< j + int n}"] j block [OF dims i j] in auto)
  qed
  moreover have "moves m0 D ?F (elems Y es (\<Union>j \<in> set (rest_steps n W). rect H ?I {j}))
      (ofold (\<lambda>j m. Inr (rest_column n es X Y H W i j m)) (rest_steps n W))"
  proof (rule moves_each [OF _ ap])
    fix j assume "j \<in> set (rest_steps n W)"
    note j = rest_steps_range [OF lanes _ this]
    show "moves m0 D ?F (elems Y es (rect H ?I {j})) (\<lambda>m. Inr (rest_column n es X Y H W i j m))"
      by (rule movesI) (use inD [of "{j}"] j rest_column_moved [OF dims i] dims in auto)
  qed
  ultimately have "moves m0 D ?F (elems Y es (\<Union>j \<in> set (vector_steps n W). rect H ?I {j ..< j + int n}) \<union>
        elems Y es (\<Union>j \<in> set (rest_steps n W). rect H ?I {j}))
      (\<lambda>m. obind (ofold (\<lambda>j m. Inr (block X Y H W i j m)) (vector_steps n W) m)
        (ofold (\<lambda>j m. Inr (rest_column n es X Y H W i j m)) (rest_steps n W)))"
    by (rule moves_seq [OF _ _ ap])
  then show ?thesis
    using vector_steps_cover [OF lanes, of W] steps_cover [OF lanes, of W] dims
    by (simp add: elems_Un rect_UN rect_Un)
qed

lemma transposes:
  assumes dims: "0 < H" "0 < W" "H * W < 2 ^ 31"
    and D: "D = cells Y es 0 (H * W)" and ap: "apart (elem_src Y es (mat_src es X H W)) D"
  shows "moves m0 D (elem_src Y es (mat_src es X H W)) D (transpose_hw_wh n es block X Y H W)"
proof -
  let ?F = "elem_src Y es (mat_src es X H W)"
  have De: "D = elems Y es {0 ..< 0 + H * W}" unfolding D by (rule elems_cells [OF width, symmetric])
  let ?rows = "\<lambda>i m. obind (ofold (\<lambda>j m. Inr (block X Y H W i j m)) (vector_steps n W) m)
    (ofold (\<lambda>j m. Inr (rest_column n es X Y H W i j m)) (rest_steps n W))"
  have "moves m0 D ?F (elems Y es (\<Union>i \<in> set (vector_steps n H). rect H {i ..< i + int n} {0 ..< W}))
      (ofold ?rows (vector_steps n H))"
  proof (rule moves_each [OF _ ap])
    fix i assume "i \<in> set (vector_steps n H)"
    from rows_moved [OF dims vector_steps_range [OF this] De ap]
    show "moves m0 D ?F (elems Y es (rect H {i ..< i + int n} {0 ..< W})) (?rows i)" .
  qed
  moreover have "moves m0 D ?F (elems Y es (\<Union>j \<in> set [0..W - 1]. rect H (set (rest_steps n H)) {j}))
      (ofold (\<lambda>j. ofold (transpose_cell es X Y H W j) (rest_steps n H)) [0..W - 1])"
  proof (rule moves_each [OF _ ap])
    fix j assume j: "j \<in> set [0..W - 1]"
    have "moves m0 D ?F (elems Y es (\<Union>i \<in> set (rest_steps n H). {j * H + i}))
        (ofold (transpose_cell es X Y H W j) (rest_steps n H))"
    proof (rule moves_each [OF _ ap])
      fix i assume "i \<in> set (rest_steps n H)"
      note i = rest_steps_range [OF lanes _ this]
      have "j * H + i \<in> rect H {0 ..< H} {0 ..< W}" using i dims j by (force simp: rect_def)
      then have "{j * H + i} \<subseteq> {0 ..< 0 + H * W}" by (simp only: rect_all [OF dims(1)]) simp
      then have "cells Y es (j * H + i) 1 \<subseteq> D"
        unfolding De elems_cells [OF width, symmetric] by (intro elems_mono) auto
      then show "moves m0 D ?F (elems Y es {j * H + i}) (transpose_cell es X Y H W j i)"
        unfolding transpose_cell_def
        by (rule moves_elem [OF width])
          (use i j dims mat_src_at [of i H es X W j] cell_addr_eq [of i H j W es X] cell_addr_eq [of j W i H es Y]
            in \<open>simp_all add: mult.commute [of W]\<close>)
    qed
    moreover have "(\<Union>i \<in> set (rest_steps n H). {j * H + i}) = rect H (set (rest_steps n H)) {j}"
      by (auto simp: rect_def)
    ultimately show "moves m0 D ?F (elems Y es (rect H (set (rest_steps n H)) {j}))
        (ofold (transpose_cell es X Y H W j) (rest_steps n H))" by simp
  qed
  ultimately have "moves m0 D ?F (elems Y es (\<Union>i \<in> set (vector_steps n H). rect H {i ..< i + int n} {0 ..< W}) \<union>
        elems Y es (\<Union>j \<in> set [0..W - 1]. rect H (set (rest_steps n H)) {j}))
      (\<lambda>m. obind (ofold ?rows (vector_steps n H) m)
        (ofold (\<lambda>j. ofold (transpose_cell es X Y H W j) (rest_steps n H)) [0..W - 1]))"
    by (rule moves_seq [OF _ _ ap])
  moreover have "{0..W - 1} = {0 ..< W}" by auto
  ultimately show ?thesis
    using vector_steps_cover [OF lanes, of H] steps_cover [OF lanes, of H] dims De rect_all [OF dims(1), of W]
    by (simp add: elems_Un rect_UN rect_Un transpose_hw_wh_def [abs_def])
qed

end

text \<open>Column \<open>j\<close> of \<open>n\<close> rows of the input, and a block as the columns stored one after the other.\<close>

definition column :: "nat \<Rightarrow> int \<Rightarrow> int \<Rightarrow> int \<Rightarrow> int \<Rightarrow> int \<Rightarrow> memory \<Rightarrow> lane list" where
  "column n es X W i j m = map (\<lambda>k. lane_at (X + ((i + int k) * W + j) * es) m) [0..<n]"

lemma store_columns:
  assumes dims: "0 < H" "0 < W" "H * W < 2 ^ 31" and es: "0 < es"
    and ij: "0 \<le> i" "i + int n \<le> H" "0 \<le> j" "j + int c \<le> W" "0 < n"
  shows "moved (elem_src Y es (mat_src es X H W)) (elems Y es (rect H {i ..< i + int n} {j ..< j + int c})) m
    (fold (\<lambda>c. mm_storeu es (cell_addr es Y H (j + int c) i) (column n es X W i (j + int c) m)) [0..<c] m)"
  using ij(4)
proof (induction c)
  case 0
  then show ?case by (simp add: rect_def elems_def moved_def)
next
  case (Suc c)
  then have c: "0 \<le> j + int c" "j + int c < W" "j + int c \<le> W" using ij(3) by simp_all
  have "{j ..< j + int c} \<union> {j + int c} = {j ..< j + int (Suc c)}" by auto
  with store_column [OF dims es Suc.IH [OF c(3)] ij(1,2) c(1,2) ij(5), of "column n es X W i (j + int c) m"]
  show ?case by (simp add: column_def elems_Un rect_Un)
qed

lemma loaded_lane:
  assumes "c < n" "0 \<le> i" "i < H" "0 \<le> j" "j < W" "H * W < 2 ^ 31"
  shows "mm_loadu n es (cell_addr es X W i j) m ! c = lane_at (X + (i * W + (j + int c)) * es) m"
  using assms by (simp add: mm_loadu_def cell_addr_eq [OF assms(2-6)] algebra_simps)

interpretation fp32: transpose_block 4 4 block_fp32
proof unfold_locales
  fix H W i j X Y :: int and m
  assume h: "0 < H" "0 < W" "H * W < 2 ^ 31" "0 \<le> i" "i + int 4 \<le> H" "0 \<le> j" "j + int 4 \<le> W"
  have l: "mm_loadu 4 4 (cell_addr 4 X W (i + k) j) m ! c = lane_at (X + ((i + k) * W + (j + int c)) * 4) m"
    if "k \<in> {0, 1, 2, 3}" "c < 4" for k c
    using that h by (intro loaded_lane [of _ _ _ H]) auto
  have "block_fp32 X Y H W i j m =
      fold (\<lambda>c. mm_storeu 4 (cell_addr 4 Y H (j + int c) i) (column 4 4 X W i (j + int c) m)) [0..<4] m"
    using l [of 0] by (simp add: block_fp32_def Let_def column_def upt_rec mm_movelh_ps_def mm_movehl_ps_def
        mm_unpacklo_ps_def mm_unpackhi_ps_def l numeral_2_eq_2 numeral_3_eq_3)
  with store_columns [OF h(1-3) _ h(4-6) h(7), of 4 Y X m]
  show "moved (elem_src Y 4 (mat_src 4 X H W)) (elems Y 4 (rect H {i ..< i + int 4} {j ..< j + int 4})) m
      (block_fp32 X Y H W i j m)" by simp
qed simp_all

interpretation int64: transpose_block 2 8 block_int64
proof unfold_locales
  fix H W i j X Y :: int and m
  assume h: "0 < H" "0 < W" "H * W < 2 ^ 31" "0 \<le> i" "i + int 2 \<le> H" "0 \<le> j" "j + int 2 \<le> W"
  have l: "mm_loadu 2 8 (cell_addr 8 X W (i + k) j) m ! c = lane_at (X + ((i + k) * W + (j + int c)) * 8) m"
    if "k \<in> {0, 1}" "c < 2" for k c
    using that h by (intro loaded_lane [of _ _ _ H]) auto
  have "block_int64 X Y H W i j m =
      fold (\<lambda>c. mm_storeu 8 (cell_addr 8 Y H (j + int c) i) (column 2 8 X W i (j + int c) m)) [0..<2] m"
    using l [of 0] by (simp add: block_int64_def Let_def column_def upt_rec mm_unpacklo_epi64_def
        mm_unpackhi_epi64_def l)
  with store_columns [OF h(1-3) _ h(4-6) h(7), of 8 Y X m]
  show "moved (elem_src Y 8 (mat_src 8 X H W)) (elems Y 8 (rect H {i ..< i + int 2} {j ..< j + int 2})) m
      (block_int64 X Y H W i j m)" by simp
qed simp_all

text \<open>
  The kernels for the last two dimensions transpose every matrix of the batch that they are given.
\<close>

lemma div_lt: "0 < h \<Longrightarrow> t < w * h \<Longrightarrow> t div h < (w :: int)"
proof (rule ccontr)
  assume h: "0 < h" "t < w * h" "\<not> t div h < w"
  then have "w * h \<le> t div h * h" by (intro mult_right_mono) simp_all
  then show False using h(1,2) div_mult_mod_eq [of t h] pos_mod_sign [OF h(1), of t] by linarith
qed

lemma transpose_batch:
  assumes dims: "0 < H" "0 < W" "0 \<le> N" "N * (H * W) < 2 ^ 31" and es: "0 < es"
    and ap: "{X ..< X + N * (H * W) * es} \<inter> {Y ..< Y + N * (H * W) * es} = {}"
    and block: "\<And>X Y m0. H * W < 2 ^ 31 \<Longrightarrow> apart (elem_src Y es (mat_src es X H W)) (cells Y es 0 (H * W)) \<Longrightarrow>
      moves m0 (cells Y es 0 (H * W)) (elem_src Y es (mat_src es X H W)) (cells Y es 0 (H * W)) (tr X Y)"
    and q: "0 \<le> q" "q < N" "0 \<le> i" "i < H" "0 \<le> j" "j < W" "0 \<le> k" "k < es"
  shows "\<exists>m'. ofold (\<lambda>b. tr (X + u64 (b * H * W) * es) (Y + u64 (b * H * W) * es)) [0..N - 1] m = Inr m' \<and>
    m' (Y + ((q * W + j) * H + i) * es + k) = m (X + ((q * H + i) * W + j) * es + k)"
proof -
  let ?n = "H * W" and ?g = "\<lambda>t. X + (t div (H * W) * (H * W) + (t mod (H * W) mod H * W + t mod (H * W) div H)) * es"
  let ?F = "elem_src Y es (\<lambda>t. bytes_from (?g t))" and ?D = "cells Y es 0 (N * (H * W))"
  have n: "0 < ?n" using dims by simp
  have inner: "0 \<le> t mod ?n mod H * W + t mod ?n div H" "t mod ?n mod H * W + t mod ?n div H < ?n" for t
  proof -
    have "t mod ?n < ?n" "0 \<le> t mod ?n" using n by simp_all
    then have d: "t mod ?n div H < W" "0 \<le> t mod ?n div H"
      using dims by (simp_all add: div_lt mult.commute pos_imp_zdiv_nonneg_iff)
    have "t mod ?n mod H < H" "0 \<le> t mod ?n mod H" using dims by simp_all
    from block_le [OF this(2,1), of W] dims d
    show "0 \<le> t mod ?n mod H * W + t mod ?n div H" "t mod ?n mod H * W + t mod ?n div H < ?n" by linarith+
  qed
  have apF: "apart ?F ?D"
  proof (rule apart_cells [OF es])
    fix t k assume t: "0 \<le> t" "t < N * ?n" "0 \<le> k" "k < es"
    let ?u = "t div ?n * ?n + (t mod ?n mod H * W + t mod ?n div H)"
    have b: "0 \<le> t div ?n" "t div ?n < N"
      using t n by (simp_all add: div_lt pos_imp_zdiv_nonneg_iff)
    have u: "0 \<le> ?u" "?u < N * ?n" using block_le [OF b, of ?n] n inner [of t] by linarith+
    have "0 \<le> ?u * es + k" "?u * es + k < N * ?n * es"
      using block_le [OF u, of es] u es t by simp_all
    then have "?g t + k \<in> {X ..< X + N * ?n * es}" by (simp add: add.assoc)
    then show "?g t + k \<notin> ?D" using ap by (auto simp: cells_def)
  qed
  have step: "moves m0 ?D ?F (cells Y es (0 + b * ?n) ?n) (tr (X + u64 (b * H * W) * es) (Y + u64 (b * H * W) * es))"
    if b: "0 \<le> b" "b < N" for b m0
  proof -
    let ?X = "X + b * ?n * es" and ?Y = "Y + b * ?n * es"
    note bl = block_le [OF b less_imp_le [OF n]]
    have "0 \<le> b * ?n" "b * ?n < 2 ^ 31" using bl n dims(4) by linarith+
    then have u: "u64 (b * H * W) = b * ?n" by (simp add: u64_def mult.assoc)
    have c: "cells ?Y es 0 ?n = cells Y es (b * ?n) ?n" by (simp add: cells_def algebra_simps)
    have sub: "cells ?Y es 0 ?n \<subseteq> ?D" using bl unfolding c by (auto simp: mem_cells [OF es])
    have F: "elem_src ?Y es (mat_src es ?X H W) a m = ?F a m" if "a \<in> cells ?Y es 0 ?n" for a m
    proof -
      let ?j = "(a - Y) div es" and ?r = "(a - Y) div es - b * ?n"
      have "a - ?Y = (a - Y) + (- (b * ?n)) * es" by simp
      then have d: "(a - ?Y) div es = ?r" "(a - ?Y) mod es = (a - Y) mod es"
        using es by (simp_all only: div_mult_self1 mod_mult_self1)
      have r: "0 \<le> ?r" "?r < ?n" using that unfolding c by (simp_all add: mem_cells [OF es])
      then have "(b * ?n + ?r) div ?n = b" "(b * ?n + ?r) mod ?n = ?r"
        by (simp_all only: div_mult_self3 mod_mult_self3 div_pos_pos_trivial mod_pos_pos_trivial)
      then have j: "?j div ?n = b" "?j mod ?n = ?r" by simp_all
      show ?thesis unfolding elem_src_def mat_src_def d j by (simp only: distrib_right add.assoc)
    qed
    have "apart (elem_src ?Y es (mat_src es ?X H W)) (cells ?Y es 0 ?n)"
      using apF F sub unfolding apart_def agree_def by (smt (verit) subsetD)
    note mv = block [OF _ this]
    show ?thesis
    proof (rule movesI)
      show "cells Y es (0 + b * ?n) ?n \<subseteq> ?D" using sub by (simp add: c)
      fix m
      have "?n < 2 ^ 31" using bl dims n b by linarith
      from mv [OF this, of m] obtain m' where "tr ?X ?Y m = Inr m'"
        "moved (elem_src ?Y es (mat_src es ?X H W)) (cells ?Y es 0 ?n) m m'"
        by (auto simp: moves_def agree_def)
      then show "\<exists>m'. tr (X + u64 (b * H * W) * es) (Y + u64 (b * H * W) * es) m = Inr m' \<and>
          moved ?F (cells Y es (0 + b * ?n) ?n) m m'"
        using F by (auto simp: u moved_def c)
    qed
  qed
  have "moves m ?D ?F ?D (ofold (\<lambda>b. tr (X + u64 (b * H * W) * es) (Y + u64 (b * H * W) * es)) [0..N - 1])"
    by (rule moves_loop [OF es _ apF step]) (use n in simp)
  then obtain m' where m': "ofold (\<lambda>b. tr (X + u64 (b * H * W) * es) (Y + u64 (b * H * W) * es)) [0..N - 1] m = Inr m'"
    "moved ?F ?D m m'" by (auto simp: moves_def agree_def)
  let ?t = "q * ?n + (j * H + i)"
  have r: "0 \<le> j * H + i" "j * H + i < ?n" using block_le [OF q(5,6), of H] q dims by (simp_all add: mult.commute)
  have t: "0 \<le> ?t" "?t < N * ?n" using block_le [OF q(1,2), of ?n] r by linarith+
  have d: "?t div ?n = q" "?t mod ?n = j * H + i" using r n
    by (simp_all only: div_mult_self3 mod_mult_self3 div_pos_pos_trivial mod_pos_pos_trivial add_0_right)
  have e: "(j * H + i) mod H = i" "(j * H + i) div H = j" using q dims
    by (simp_all only: div_mult_self3 mod_mult_self3 div_pos_pos_trivial mod_pos_pos_trivial add_0_right)
  have "?g ?t = X + (q * ?n + (i * W + j)) * es" unfolding d e ..
  then have g: "?g ?t = X + ((q * H + i) * W + j) * es" by (simp add: algebra_simps)
  have "Y + ?t * es + k \<in> ?D" using t q(7,8) es unfolding mem_cells [OF es] by simp
  then have "m' (Y + ?t * es + k) = ?F (Y + ?t * es + k) m" using m'(2) by (simp add: moved_def)
  then have "m' (Y + ?t * es + k) = m (X + ((q * H + i) * W + j) * es + k)"
    unfolding elem_src_at [OF q(7,8)] bytes_from_def g .
  moreover have "?t = (q * W + j) * H + i" by (simp add: algebra_simps)
  ultimately show ?thesis using m'(1) by metis
qed

lemma transpose_last_dims_places:
  assumes "0 < H" "0 < W" "0 \<le> N" "N * (H * W) < 2 ^ 31" "0 \<le> q" "q < N" "0 \<le> i" "i < H" "0 \<le> j" "j < W"
  shows "{X ..< X + N * (H * W) * 4} \<inter> {Y ..< Y + N * (H * W) * 4} = {} \<Longrightarrow> 0 \<le> k \<Longrightarrow> k < 4 \<Longrightarrow>
      \<exists>m'. transpose_last_dims_fp32 X Y N H W m = Inr m' \<and>
        m' (Y + ((q * W + j) * H + i) * 4 + k) = m (X + ((q * H + i) * W + j) * 4 + k)"
    and "{X ..< X + N * (H * W) * 8} \<inter> {Y ..< Y + N * (H * W) * 8} = {} \<Longrightarrow> 0 \<le> k \<Longrightarrow> k < 8 \<Longrightarrow>
      \<exists>m'. transpose_last_dims_int64 X Y N H W m = Inr m' \<and>
        m' (Y + ((q * W + j) * H + i) * 8 + k) = m (X + ((q * H + i) * W + j) * 8 + k)"
  unfolding transpose_last_dims_fp32_def transpose_last_dims_int64_def transpose_hw_wh_fp32_def
    transpose_hw_wh_int64_def
  by (rule transpose_batch [OF assms(1-4)];
      (rule fp32.transposes int64.transposes)?; (simp only: assms refl zero_less_numeral)?)+

subsection \<open>The kernel\<close>

definition transpose_ready :: "(nat \<Rightarrow> int) \<Rightarrow> int \<times> int \<times> view \<times> view \<Rightarrow> bool" where
  "transpose_ready base = (\<lambda>(dim0, dim1, x, y). let a = wrap_dim dim0 (v_shape x); b = wrap_dim dim1 (v_shape x) in
     packed x \<and> packed y \<and> 0 \<le> a \<and> a < int (length (v_shape x)) \<and> 0 \<le> b \<and> b < int (length (v_shape x)) \<and>
     v_shape y = (v_shape x)[nat a := v_shape x ! nat b, nat b := v_shape x ! nat a] \<and>
     (length (v_shape x) = 2 \<or> a + b \<noteq> 1) \<and> v_dtype y = v_dtype x \<and> v_dtype x \<in> {kFloat32, kInt64} \<and>
     footprint base x \<inter> footprint base y = {})"

text \<open>The input index: two entries of the output index are exchanged.\<close>

definition swap_index :: "int \<Rightarrow> int \<Rightarrow> 'a list \<Rightarrow> 'a list" where
  "swap_index a b xs = xs[nat a := xs ! nat b, nat b := xs ! nat a]"

definition transpose_input :: "int \<times> int \<times> view \<times> view \<Rightarrow> picker" where
  "transpose_input = (\<lambda>(dim0, dim1, x, y) oi.
     (x, swap_index (wrap_dim dim0 (v_shape x)) (wrap_dim dim1 (v_shape x)) oi))"

lemma swap_index_range:
  assumes "nat a < length xs" "nat b < length xs" "in_range oi (swap_index a b xs)"
  shows "in_range (swap_index a b oi) xs"
  using assms by (auto simp: swap_index_def in_range_def list_all2_conv_all_nth nth_list_update)

lemma transpose_picks:
  assumes "transpose_ready base (dim0, dim1, x, y)"
  shows "picks_ok base y (transpose_input (dim0, dim1, x, y))"
  using assms swap_index_range [of _ "v_shape x"]
  by (auto simp: transpose_ready_def Let_def picks_ok_def transpose_input_def packed_ok swap_index_def [symmetric])

text \<open>Two dimensions.\<close>

lemma transpose_matrix:
  assumes ok: "transpose_ready base (dim0, dim1, x, y)" and x: "v_shape x = [H, W]"
    and d: "wrap_dim dim0 (v_shape x) + wrap_dim dim1 (v_shape x) = 1"
  shows "pick base y (transpose_input (dim0, dim1, x, y)) =
      elem_src (out_addr base y) (elem_size y) (mat_src (elem_size y) (out_addr base x) H W)"
    "footprint base y = cells (out_addr base y) (elem_size y) 0 (H * W)" "0 < H" "0 < W" "H * W < 2 ^ 31"
proof -
  let ?a = "wrap_dim dim0 (v_shape x)" and ?b = "wrap_dim dim1 (v_shape x)"
  have h: "packed x" "packed y" "0 \<le> ?a" "?a < 2" "0 \<le> ?b" "?b < 2" "v_shape y = swap_index ?a ?b [H, W]"
    "elem_size x = elem_size y"
    using ok x by (auto simp: transpose_ready_def Let_def elem_size_def swap_index_def)
  have ab: "?a = 0 \<and> ?b = 1 \<or> ?a = 1 \<and> ?b = 0" using h d by linarith
  have sw: "swap_index ?a ?b [u, v] = [v, u]" for u v :: int using ab by (auto simp: swap_index_def)
  have y: "v_shape y = [W, H]" using h(7) sw by simp
  show "0 < H" "0 < W" "H * W < 2 ^ 31" using packed_shape [OF h(1)] x by (simp_all add: shape_ok_def)
  show "footprint base y = cells (out_addr base y) (elem_size y) 0 (H * W)"
    using packed_cells [OF h(2), of base] y by (simp add: mult.commute)
  have "bytes_from (pick_addr base (transpose_input (dim0, dim1, x, y)) (unflat (v_shape y) j)) =
      mat_src (elem_size y) (out_addr base x) H W j" for j
    by (simp add: y pick_addr_def transpose_input_def sw [unfolded x] packed_addr [OF h(1)] x h(8) mat_src_def)
  then show "pick base y (transpose_input (dim0, dim1, x, y)) =
      elem_src (out_addr base y) (elem_size y) (mat_src (elem_size y) (out_addr base x) H W)"
    by (simp add: pick_def)
qed

text \<open>Four dimensions: the rows of the last one keep their elements.\<close>

definition middle_ready :: "(nat \<Rightarrow> int) \<Rightarrow> view \<Rightarrow> view \<Rightarrow> int \<Rightarrow> int \<Rightarrow> int \<Rightarrow> int \<Rightarrow> bool" where
  "middle_ready base x y B S H D \<longleftrightarrow> packed x \<and> packed y \<and> v_shape x = [B, S, H, D] \<and> v_shape y = [B, H, S, D] \<and>
     v_dtype y = v_dtype x"

lemma u64_room: "0 \<le> a \<Longrightarrow> a + d \<le> n \<Longrightarrow> 0 < d \<Longrightarrow> n < 2 ^ 31 \<Longrightarrow> u64 a = a"
  by (simp add: u64_id)

lemma middle_addr:
  assumes mr: "middle_ready base x y B S H D" and r: "0 \<le> b" "b < B" "0 \<le> h" "h < H" "0 \<le> s" "s < S"
  shows "u64 (b * H * S * D + h * S * D + s * D) = b * (H * (S * D)) + h * (S * D) + s * D"
    "u64 (b * S * H * D + s * H * D + h * D) = flat [b, s, h, 0] (v_shape x)"
    "0 < D" "b * (H * (S * D)) + h * (S * D) + s * D + D \<le> prod_list (v_shape y)"
    "0 \<le> b * (H * (S * D)) + h * (S * D) + s * D"
proof -
  have sx: "shape_ok [B, S, H, D]" "shape_ok [B, H, S, D]"
    using mr packed_shape [of x] packed_shape [of y] by (auto simp: middle_ready_def)
  then show D: "0 < D" by (simp add: shape_ok_def)
  have rx: "in_range [b, s, h, 0] [B, S, H, D]" and ry: "in_range [b, h, s, D - 1] [B, H, S, D]"
    "in_range [b, h, s, 0] [B, H, S, D]" using r D by simp_all
  have f: "flat [b, h, s, t] [B, H, S, D] = b * (H * (S * D)) + h * (S * D) + s * D + t" for t by simp
  have g: "flat [b, s, h, 0] [B, S, H, D] = b * S * H * D + s * H * D + h * D" by (simp add: mult.assoc)
  have lt: "prod_list [B, H, S, D] < 2 ^ 31" "prod_list [B, S, H, D] < 2 ^ 31" using sx by (simp_all add: shape_ok_def)
  have ky: "flat [b, h, s, D - 1] [B, H, S, D] < prod_list [B, H, S, D]" "0 \<le> flat [b, h, s, 0] [B, H, S, D]"
    using dot_bounds [OF ry(1)] dot_bounds [OF ry(2)] by blast+
  have kx: "flat [b, s, h, 0] [B, S, H, D] < prod_list [B, S, H, D]" "0 \<le> flat [b, s, h, 0] [B, S, H, D]"
    using dot_bounds [OF rx] by blast+
  have y: "v_shape y = [B, H, S, D]" "v_shape x = [B, S, H, D]" using mr by (simp_all add: middle_ready_def)
  show n: "b * (H * (S * D)) + h * (S * D) + s * D + D \<le> prod_list (v_shape y)"
    using ky(1) unfolding f y by linarith
  show z: "0 \<le> b * (H * (S * D)) + h * (S * D) + s * D" using ky(2) unfolding f by linarith
  have "u64 (b * (H * (S * D)) + h * (S * D) + s * D) = b * (H * (S * D)) + h * (S * D) + s * D"
    by (rule u64_room [OF z n [unfolded y(1)] D lt(1)])
  then show "u64 (b * H * S * D + h * S * D + s * D) = b * (H * (S * D)) + h * (S * D) + s * D"
    by (simp only: mult.assoc)
  have "u64 (flat [b, s, h, 0] [B, S, H, D]) = flat [b, s, h, 0] [B, S, H, D]"
    by (rule u64_small [OF kx(2) less_imp_le [OF kx(1)] lt(2)])
  then show "u64 (b * S * H * D + s * H * D + h * D) = flat [b, s, h, 0] (v_shape x)" by (simp only: g y)
qed

lemma middle_moves:
  assumes mr: "middle_ready base x y B S H D" and n: "0 < n"
    and p: "picks_ok base y f" and f: "\<And>b h s t. f [b, h, s, t] = (x, [b, s, h, t])"
  shows "moves m0 (footprint base y) (pick base y f) (footprint base y)
    (transpose_bshd_bhsd n (elem_size y) (out_addr base x) (out_addr base y) B S H D)"
proof -
  have h: "packed x" "packed y" "v_shape x = [B, S, H, D]" "v_shape y = [B, H, S, D]" "elem_size x = elem_size y"
    using mr by (simp_all add: middle_ready_def elem_size_def)
  have pos: "0 < B" "0 < S" "0 < H" "0 < D" using packed_shape [OF h(1)] h(3) by (simp_all add: shape_ok_def)
  have D: "footprint base y = cells (out_addr base y) (elem_size y) 0 (B * (H * (S * D)))"
    using packed_cells [OF h(2), of base] h(4) by simp
  have "moves m0 (footprint base y) (pick base y f)
      (cells (out_addr base y) (elem_size y) 0 (B * (H * (S * D))))
      (transpose_bshd_bhsd n (elem_size y) (out_addr base x) (out_addr base y) B S H D)"
    unfolding transpose_bshd_bhsd_def
  proof (intro moves_loop [OF elem_size_bounds(1) _ apart_pick [OF p]])
    fix b k s assume r: "0 \<le> b" "b < B" "0 \<le> k" "k < H" "0 \<le> s" "s < S"
    note ad = middle_addr [OF mr r]
    let ?J = "0 + b * (H * (S * D)) + k * (S * D) + s * D"
    have yr: "in_range [b, k, s, t] (v_shape y)" "flat [b, k, s, t] (v_shape y) = ?J + t"
      if "0 \<le> t" "t < D" for t
      using r that by (simp_all add: h(4))
    show "moves m0 (footprint base y) (pick base y f) (cells (out_addr base y) (elem_size y) ?J D)
        (copy_row n (elem_size y) (out_addr base y + u64 (b * H * S * D + k * S * D + s * D) * elem_size y)
          (out_addr base x + u64 (b * S * H * D + s * H * D + k * D) * elem_size y) D)"
      unfolding pick_def
    proof (rule moves_row [OF elem_size_bounds(1) n])
      show "cells (out_addr base y) (elem_size y) ?J D \<subseteq> footprint base y"
        unfolding packed_cells [OF h(2), symmetric]
        by (rule cells_subset) (use ad elem_size_bounds(1) [of y] in auto)
      show "apart (elem_src (out_addr base y) (elem_size y)
          (\<lambda>j. bytes_from (pick_addr base f (unflat (v_shape y) j)))) (footprint base y)"
        using apart_pick [OF p] by (simp add: pick_def)
      fix t assume t: "0 \<le> t" "t < D"
      have "unflat (v_shape y) (?J + t) = [b, k, s, t]" using unflat_flat [OF yr(1) [OF t]] yr(2) [OF t] by simp
      moreover have "pick_addr base f [b, k, s, t] =
          out_addr base x + flat [b, s, k, 0] (v_shape x) * elem_size y + t * elem_size y"
        by (simp add: pick_addr_def f packed_addr [OF h(1)] h(3,5) distrib_right)
      ultimately show "bytes_from (pick_addr base f (unflat (v_shape y) (?J + t))) =
          bytes_from (out_addr base x + u64 (b * S * H * D + s * H * D + k * D) * elem_size y + t * elem_size y)"
        by (simp only: ad(2))
    qed (use pos ad(1) in simp_all)
  qed (use pos in simp_all)
  then show ?thesis by (simp only: D [symmetric])
qed

text \<open>Any permutation: if the last dimension stays, its rows are copied in one go.\<close>

lemma dot_nth: "length is = length ss \<Longrightarrow> dot is ss = (\<Sum>k < length is. is ! k * ss ! k)"
  by (induction "is" ss rule: list_induct2) (simp_all add: sum.lessThan_Suc_shift del: sum.lessThan_Suc)

lemma dot_unpermute:
  assumes "axis_ok axis n" "length oi = n" "length ss = n"
  shows "dot (unpermute axis oi) ss = (\<Sum>i < n. oi ! i * ss ! nat (axis ! i))"
proof -
  note a = axis_okD [OF assms(1)]
  have r: "nat (axis ! i) < n" "0 \<le> axis ! i" if "i < n" for i using nth_mem [of i axis] a that by auto
  have b: "bij_betw (\<lambda>i. nat (axis ! i)) {..<n} {..<n}"
  proof (rule bij_betwI')
    fix i j assume "i \<in> {..<n}" "j \<in> {..<n}"
    then show "nat (axis ! i) = nat (axis ! j) \<longleftrightarrow> i = j"
      using r a nth_eq_iff_index_eq [of axis i j] by (metis int_nat_eq lessThan_iff)
  next
    fix k assume "k \<in> {..<n}"
    then have "int k \<in> set axis" using a by simp
    then obtain i where "i < n" "axis ! i = int k" using a by (metis in_set_conv_nth)
    then show "\<exists>i \<in> {..<n}. k = nat (axis ! i)" by (intro bexI [of _ i]) simp_all
  qed (use r in auto)
  have l: "length (unpermute axis oi) = n" using a by (simp add: unpermute_def)
  have "dot (unpermute axis oi) ss = (\<Sum>k < n. unpermute axis oi ! k * ss ! k)" using l assms dot_nth by simp
  also have "\<dots> = (\<Sum>i < n. unpermute axis oi ! nat (axis ! i) * ss ! nat (axis ! i))"
    by (rule sum.reindex_bij_betw [OF b, symmetric])
  also have "\<dots> = (\<Sum>i < n. oi ! i * ss ! nat (axis ! i))"
    by (rule sum.cong) (use unpermute_nth [OF assms(1,2)] in simp_all)
  finally show ?thesis .
qed

lemma row_offsets_eq:
  assumes ax: "\<forall>i < length coord. 0 \<le> axis ! i \<and> axis ! i < int (length is)" "length coord \<le> length axis"
      "length coord \<le> length os"
    and nn: "\<forall>i < length coord. 0 \<le> coord ! i * is ! nat (axis ! i) \<and> 0 \<le> coord ! i * os ! i"
    and lt: "(\<Sum>i < length coord. coord ! i * is ! nat (axis ! i)) < 2 ^ 31" "(\<Sum>i < length coord. coord ! i * os ! i) < 2 ^ 31"
  shows "row_offsets axis coord is os =
    Inr (\<Sum>i < length coord. coord ! i * is ! nat (axis ! i), \<Sum>i < length coord. coord ! i * os ! i)"
proof -
  let ?f = "\<lambda>i. coord ! i * is ! nat (axis ! i)" and ?g = "\<lambda>i. coord ! i * os ! i"
  let ?step = "\<lambda>i (a, b). obind (vec_at axis i) (\<lambda>orig_dim. obind (vec_at coord i) (\<lambda>c.
       obind (vec_at is orig_dim) (\<lambda>s. obind (vec_at os i) (\<lambda>t.
       obind (i32 (c * s)) (\<lambda>cs. obind (i32 (a + cs)) (\<lambda>a'.
       obind (i32 (c * t)) (\<lambda>ct. obind (i32 (b + ct)) (\<lambda>b'. Inr (a', b')))))))))"
  have le: "sum h {..<k} \<le> sum h {..<length coord}" "0 \<le> sum h {..<k}"
    if "\<forall>i < length coord. 0 \<le> h i" "k \<le> length coord" for h :: "nat \<Rightarrow> int" and k
    using that by (auto intro!: sum_mono2 sum_nonneg)
  have "ofold ?step [0..int k - 1] (0, 0) = Inr (sum ?f {..<k}, sum ?g {..<k})" if "k \<le> length coord" for k
    using that
  proof (induction k)
    case (Suc k)
    have s: "sum ?f {..<k} + ?f k \<le> sum ?f {..<length coord}" "0 \<le> sum ?f {..<k}"
      "sum ?g {..<k} + ?g k \<le> sum ?g {..<length coord}" "0 \<le> sum ?g {..<k}" "0 \<le> ?f k" "0 \<le> ?g k"
      using le [of ?f "Suc k"] le [of ?g "Suc k"] le [of ?f k] le [of ?g k] nn Suc.prems by auto
    then have "i32 (?f k) = Inr (?f k)" "i32 (sum ?f {..<k} + ?f k) = Inr (sum ?f {..<k} + ?f k)"
      "i32 (?g k) = Inr (?g k)" "i32 (sum ?g {..<k} + ?g k) = Inr (sum ?g {..<k} + ?g k)"
      using lt unfolding i32_def by auto
    moreover have "vec_at axis (int k) = Inr (axis ! k)" "vec_at coord (int k) = Inr (coord ! k)"
      "vec_at is (axis ! k) = Inr (is ! nat (axis ! k))" "vec_at os (int k) = Inr (os ! k)"
      using ax Suc.prems by (simp_all add: vec_at_def)
    ultimately show ?case using Suc by (simp add: ofold_upto_Suc)
  qed simp
  then show ?thesis by (simp add: row_offsets_def)
qed

lemma unravel64_unflat':
  assumes "shape_ok (A @ d # B)" "0 \<le> t" "t < prod_list A"
  shows "unravel64 A t = Inr (unflat A t)"
proof (cases "A = []")
  case True
  then show ?thesis by (simp add: unravel64_def)
next
  case False
  have "prod_list A < 2 ^ 31" using shape_parts(6,11) [OF assms(1)] by linarith
  then have "shape_ok A" using assms(1) shape_parts(1) [OF assms(1)] False by (simp add: shape_ok_def)
  from unravel64_unflat [OF this assms(2,3)] show ?thesis .
qed

text \<open>A row of the output is a row of the input.\<close>

lemma permuted_row:
  assumes ax: "axis_ok axis (Suc l)" "axis ! l = int l" and x: "shape_ok xs" "length xs = Suc l"
    and y: "map (\<lambda>p. xs ! nat p) axis = A @ [d]" and r: "0 \<le> r" "r < prod_list A"
  defines "a \<equiv> dot (unpermute axis (unflat A r @ [0])) (rm_strides xs)"
  shows "row_offsets axis (unflat A r) (rm_strides xs) (rm_strides (A @ [d])) = Inr (a, r * d)"
    "\<And>t. dot (unpermute axis (unflat A r @ [t])) (rm_strides xs) = a + t"
proof -
  let ?c = "unflat A r" and ?ss = "rm_strides xs" and ?os = "rm_strides (A @ [d])"
  note ak = axis_okD [OF ax(1)]
  have lA: "length A = l" using arg_cong [OF y, of length] ak by simp
  have oy: "shape_ok (A @ [d])" using permute_setup(5) [OF _ x(1) y [symmetric]] ax x by simp
  then have sy: "shape_ok (A @ d # [])" by simp
  have d: "0 < d" "\<forall>e \<in> set A. 0 < e" using shape_parts(1,2) [OF sy] by simp_all
  have rc: "in_range ?c A" "flat ?c A = r" using unflat_range [OF d(2) r] by simp_all
  have ls: "length ?ss = Suc l" "length ?os = Suc l" using x lA by simp_all
  obtain ds e where ds: "xs = ds @ [e]" "length ds = l" using x(2) by (cases xs rule: rev_exhaust) auto
  have one: "?ss ! l = 1" "?os ! l = 1" using ds lA by (simp_all add: rm_strides_snoc nth_append)
  have ev: "dot (unpermute axis (?c @ [t])) ?ss = (\<Sum>i < l. ?c ! i * ?ss ! nat (axis ! i)) + t" for t
  proof -
    have "dot (unpermute axis (?c @ [t])) ?ss = (\<Sum>i < Suc l. (?c @ [t]) ! i * ?ss ! nat (axis ! i))"
      by (rule dot_unpermute [OF ax(1)]) (simp_all add: lA x(2))
    also have "\<dots> = (\<Sum>i < l. (?c @ [t]) ! i * ?ss ! nat (axis ! i)) + t" by (simp add: nth_append lA ax(2) one)
    also have "(\<Sum>i < l. (?c @ [t]) ! i * ?ss ! nat (axis ! i)) = (\<Sum>i < l. ?c ! i * ?ss ! nat (axis ! i))"
      by (rule sum.cong) (simp_all add: nth_append lA)
    finally show ?thesis .
  qed
  then have a: "a = (\<Sum>i < l. ?c ! i * ?ss ! nat (axis ! i))" by (simp add: a_def)
  with ev show "\<And>t. dot (unpermute axis (?c @ [t])) ?ss = a + t" by simp
  have fl: "flat (?c @ [0]) (A @ [d]) = r * d" using rc by (simp add: flat_append)
  have "flat (?c @ [0]) (A @ [d]) = (\<Sum>i < Suc l. (?c @ [0]) ! i * ?os ! i)"
    using dot_nth [of "?c @ [0]" ?os] lA by simp
  also have "\<dots> = (\<Sum>i < l. ?c ! i * ?os ! i)"
    by (simp add: nth_append lA)
  finally have b: "r * d = (\<Sum>i < l. ?c ! i * ?os ! i)" using fl by simp
  have rg: "in_range (?c @ [0]) (A @ [d])" using rc d by (simp add: in_range_append)
  have ab: "0 \<le> a" "a < 2 ^ 31"
    unfolding a_def using permute_offset(2,3) [OF _ x(1) rg [folded y]] ax x by simp_all
  have "r * d < prod_list (A @ [d])" using dot_bounds [OF rg] unfolding fl by blast
  then have bb: "r * d < 2 ^ 31" using oy unfolding shape_ok_def by linarith
  have ci: "0 \<le> ?c ! i" if "i < l" for i
    using list_all2_nthD [OF rc(1) [unfolded in_range_def], of i] that lA by simp
  have nn: "0 \<le> ?ss ! k" "0 \<le> ?os ! k" if "k < Suc l" for k
    using rm_strides_nonneg [of xs] rm_strides_nonneg [of "A @ [d]"] x(1) oy ls that by (simp_all add: shape_ok_def)
  have ai: "0 \<le> axis ! i \<and> axis ! i < int (Suc l)" if "i < Suc l" for i
    using nth_mem [of i axis] ak that by auto
  have "row_offsets axis ?c ?ss ?os =
      Inr (\<Sum>i < length ?c. ?c ! i * ?ss ! nat (axis ! i), \<Sum>i < length ?c. ?c ! i * ?os ! i)"
  proof (rule row_offsets_eq)
    show "\<forall>i < length ?c. 0 \<le> axis ! i \<and> axis ! i < int (length ?ss)" using ai ls lA by auto
    show "\<forall>i < length ?c. 0 \<le> ?c ! i * ?ss ! nat (axis ! i) \<and> 0 \<le> ?c ! i * ?os ! i"
    proof (intro allI impI conjI mult_nonneg_nonneg)
      fix i assume "i < length ?c"
      with ai [of i] nn [of "nat (axis ! i)"] nn [of i] ci [of i] lA
      show "0 \<le> ?c ! i" "0 \<le> ?ss ! nat (axis ! i)" "0 \<le> ?c ! i" "0 \<le> ?os ! i" by auto
    qed
  qed (use ak ls lA a ab b bb in simp_all)
  then show "row_offsets axis ?c ?ss ?os = Inr (a, r * d)" using a b lA by simp
qed

lemma permute_fp32_moves:
  assumes ok: "permute_ready base (axis, x, y)" and dt: "v_dtype x = kFloat32"
  shows "moves m0 (footprint base y) (pick base y (permute_input (axis, x, y))) (footprint base y)
    (permute_fp32 (out_addr base x) (out_addr base y) (v_shape x) axis)"
proof -
  let ?xs = "v_shape x" and ?ys = "v_shape y" and ?f = "permute_input (axis, x, y)"
  have h: "packed x" "packed y" "axis_ok axis (length ?xs)" "?ys = map (\<lambda>p. ?xs ! nat p) axis"
    "elem_size x = 4" "elem_size y = 4" "v_dtype y = v_dtype x"
    using ok dt by (simp_all add: permute_ready_def elem_size_def)
  note a = axis_okD [OF h(3)] and sx = packed_shape [OF h(1)]
  note st = permute_setup [OF h(3) sx h(4)]
  have ne: "?xs \<noteq> []" using sx by (simp add: shape_ok_def)
  then obtain l where l: "length ?xs = Suc l" by (cases ?xs) auto
  have "length ?ys = Suc l" using h(4) a l by simp
  then obtain A d where Ad: "?ys = A @ [d]" "length A = l" by (cases ?ys rule: rev_exhaust) auto
  have al: "length axis = Suc l" using a l by simp
  have run: "permute_fp32 (out_addr base x) (out_addr base y) ?xs axis m =
      (if axis ! l = int l \<and> 4 \<le> d
       then ofold (permute_row (out_addr base x) (out_addr base y) ?ys axis (rm_strides ?xs) (rm_strides ?ys) d)
              [0..prod_list ?xs sdiv d - 1] m
       else permute_loop 4 (out_addr base x) (out_addr base y) ?ys (rm_strides ?xs) axis (nat (prod_list ?xs)) 0
              (replicate (length axis) 0) m)" for m
    using st(1-3) view_strides_total [OF sx] view_strides_total [OF st(5)]
    by (simp add: permute_fp32_def Let_def al vec_at_def Ad nth_append)
  show ?thesis
  proof (cases "axis ! l = int l \<and> 4 \<le> d")
    case False
    have "permute_fp32 (out_addr base x) (out_addr base y) ?xs axis =
        permute_generic 4 (out_addr base x) (out_addr base y) ?xs axis"
      by (rule ext) (simp only: run False if_False permute_elements [OF h(3) sx h(4)] permute_generic_eq [OF h(3) sx h(4)])
    then show ?thesis using permute_moves [OF ok, of m0] by (simp add: h(5))
  next
    case True
    have sA: "shape_ok (A @ d # [])" using st(5) Ad by simp
    note sp = shape_parts [OF sA]
    have n: "prod_list ?xs sdiv d = prod_list A"
    proof -
      have "(prod_list A * d) sdiv d = (prod_list A * d) div d"
        by (rule sdiv_nonneg) (use True sp(4) in simp_all)
      also have "\<dots> = prod_list A" using True by simp
      finally show ?thesis using st(4) by (simp add: Ad prod_list_append)
    qed
    have "moves m0 (footprint base y) (pick base y ?f) (cells (out_addr base y) (elem_size y) 0 (prod_list A * d))
      (ofold (permute_row (out_addr base x) (out_addr base y) ?ys axis (rm_strides ?xs) (rm_strides ?ys) d)
              [0..prod_list A - 1])"
    proof (rule moves_loop [OF elem_size_bounds(1) _ apart_pick [OF permute_picks [OF ok]]])
      fix r assume r: "0 \<le> r" "r < prod_list A"
      let ?a = "dot (unpermute axis (unflat A r @ [0])) (rm_strides ?xs)"
      note pr = permuted_row [OF h(3) [unfolded l] conjunct1 [OF True] sx l h(4) [symmetric, unfolded Ad] r]
      have row: "permute_row (out_addr base x) (out_addr base y) ?ys axis (rm_strides ?xs) (rm_strides ?ys) d r =
          copy_row 4 4 (out_addr base y + r * d * 4) (out_addr base x + ?a * 4) d"
        using pr(1) unravel64_unflat' [OF sA r] by (simp add: fun_eq_iff permute_row_def Ad)
      show "moves m0 (footprint base y) (pick base y ?f) (cells (out_addr base y) (elem_size y) (0 + r * d) d)
          (permute_row (out_addr base x) (out_addr base y) ?ys axis (rm_strides ?xs) (rm_strides ?ys) d r)"
        unfolding pick_def row
      proof (subst h(6) [symmetric], rule moves_row [OF elem_size_bounds(1)])
        show "cells (out_addr base y) (elem_size y) (0 + r * d) d \<subseteq> footprint base y"
          unfolding packed_cells [OF h(2), symmetric]
          by (rule cells_subset) (use block_le [OF r, of d] sp(2) elem_size_bounds(1) [of y] Ad in \<open>auto simp: prod_list_append\<close>)
        show "apart (elem_src (out_addr base y) (elem_size y) (\<lambda>j. bytes_from (pick_addr base ?f (unflat ?ys j)))) (footprint base y)"
          using apart_pick [OF permute_picks [OF ok]] by (simp add: pick_def)
        fix t assume t: "0 \<le> t" "t < d"
        have rc: "in_range (unflat A r) A" "flat (unflat A r) A = r" using unflat_range [OF sp(1) r] by simp_all
        have "in_range (unflat A r @ [t]) ?ys" "flat (unflat A r @ [t]) ?ys = 0 + r * d + t"
          using rc t by (simp_all add: Ad in_range_append flat_append)
        then have "unflat ?ys (0 + r * d + t) = unflat A r @ [t]" using unflat_flat by metis
        then show "bytes_from (pick_addr base ?f (unflat ?ys (0 + r * d + t))) = bytes_from (out_addr base x + ?a * 4 + t * elem_size y)"
          by (simp add: pick_addr_def permute_input_def packed_addr [OF h(1)] h(5,6) pr(2) [of t] distrib_right add.assoc)
      qed (use sp(2) h(6) in simp_all)
    qed (use sp(2) in simp)
    moreover have "permute_fp32 (out_addr base x) (out_addr base y) ?xs axis =
        ofold (permute_row (out_addr base x) (out_addr base y) ?ys axis (rm_strides ?xs) (rm_strides ?ys) d)
          [0..prod_list A - 1]"
      by (rule ext) (simp only: run n True if_True simp_thms)
    moreover have "cells (out_addr base y) (elem_size y) 0 (prod_list A * d) = footprint base y"
      using packed_cells [OF h(2), of base] Ad by (simp add: prod_list_append)
    ultimately show ?thesis by simp
  qed
qed

text \<open>Exchanging two axes is a permutation.\<close>

lemma swapped_axis_eq:
  assumes "0 \<le> a" "a < int n" "0 \<le> b" "b < int n"
  shows "swapped_axis n a b = Inr (swap_index a b (map int [0..<n]))"
    "axis_ok (swap_index a b (map int [0..<n])) n"
    "length xs = n \<Longrightarrow> map (\<lambda>p. xs ! nat p) (swap_index a b (map int [0..<n])) = swap_index a b xs"
proof -
  show "swapped_axis n a b = Inr (swap_index a b (map int [0..<n]))"
    using assms by (simp add: swapped_axis_def swap_index_def vec_at_def vec_set_def Let_def nat_less_iff)
  show "axis_ok (swap_index a b (map int [0..<n])) n"
    unfolding axis_ok_def swap_index_def by (rule mset_swap) (use assms in auto)
  show "length xs = n \<Longrightarrow> map (\<lambda>p. xs ! nat p) (swap_index a b (map int [0..<n])) = swap_index a b xs"
    using assms by (intro nth_equalityI) (auto simp: swap_index_def nth_list_update nat_less_iff)
qed

lemma unpermute_swap:
  assumes "0 \<le> a" "a < int n" "0 \<le> b" "b < int n" "length oi = n"
  shows "unpermute (swap_index a b (map int [0..<n])) oi = swap_index a b oi"
proof -
  note s = swapped_axis_eq [OF assms(1-4)]
  have "length (swap_index a b oi) = n" using assms by (simp add: swap_index_def)
  from s(3) [OF this] have "map (\<lambda>p. swap_index a b oi ! nat p) (swap_index a b (map int [0..<n])) = oi"
    using assms by (auto simp: swap_index_def nth_list_update nat_less_iff intro!: nth_equalityI)
  with unpermute_permuted [OF s(2) \<open>length (swap_index a b oi) = n\<close>] show ?thesis by simp
qed

lemma transpose_permute:
  assumes ok: "transpose_ready base (dim0, dim1, x, y)"
  defines "a \<equiv> wrap_dim dim0 (v_shape x)" and "b \<equiv> wrap_dim dim1 (v_shape x)" and "n \<equiv> length (v_shape x)"
  shows "permute_ready base (swap_index a b (map int [0..<n]), x, y)"
    "pick base y (permute_input (swap_index a b (map int [0..<n]), x, y)) = pick base y (transpose_input (dim0, dim1, x, y))"
proof -
  have r: "0 \<le> a" "a < int n" "0 \<le> b" "b < int n"
    using ok by (simp_all add: transpose_ready_def Let_def a_def b_def n_def)
  note s = swapped_axis_eq [OF r]
  have y: "v_shape y = swap_index a b (v_shape x)"
    using ok by (simp add: transpose_ready_def Let_def a_def b_def swap_index_def)
  show "permute_ready base (swap_index a b (map int [0..<n]), x, y)"
    using ok s(2) s(3) [of "v_shape x"] y
    by (auto simp: permute_ready_def transpose_ready_def Let_def n_def [symmetric] permutable_def)
  have "length (unflat (v_shape y) j) = n" for j by (simp add: y swap_index_def n_def)
  from unpermute_swap [OF r this]
  show "pick base y (permute_input (swap_index a b (map int [0..<n]), x, y)) = pick base y (transpose_input (dim0, dim1, x, y))"
    by (simp add: pick_def pick_addr_def permute_input_def transpose_input_def a_def [symmetric] b_def [symmetric])
qed

lemma transpose_middle:
  assumes ok: "transpose_ready base (dim0, dim1, x, y)" and n: "length (v_shape x) = 4"
    and d: "wrap_dim dim0 (v_shape x) = 1 \<and> wrap_dim dim1 (v_shape x) = 2 \<or>
      wrap_dim dim0 (v_shape x) = 2 \<and> wrap_dim dim1 (v_shape x) = 1" and l: "0 < l"
  shows "moves m0 (footprint base y) (pick base y (transpose_input (dim0, dim1, x, y))) (footprint base y)
    (transpose_bshd_bhsd l (elem_size y) (out_addr base x) (out_addr base y)
      (v_shape x ! 0) (v_shape x ! 1) (v_shape x ! 2) (v_shape x ! 3))"
proof -
  let ?a = "wrap_dim dim0 (v_shape x)" and ?b = "wrap_dim dim1 (v_shape x)"
  obtain B S H D where x: "v_shape x = [B, S, H, D]"
    using n by (auto simp: length_Suc_conv eval_nat_numeral)
  have sw: "swap_index ?a ?b [p, q, r, s] = [p, r, q, s]" for p q r s :: int
    using d by (auto simp: swap_index_def eval_nat_numeral)
  have y: "v_shape y = swap_index ?a ?b (v_shape x)"
    using ok by (simp add: transpose_ready_def Let_def swap_index_def)
  have "v_shape y = [B, H, S, D]" unfolding y using sw [of B S H D] by (simp add: x)
  then have mr: "middle_ready base x y B S H D"
    using ok x by (simp add: transpose_ready_def Let_def middle_ready_def)
  have f: "transpose_input (dim0, dim1, x, y) [p, q, r, s] = (x, [p, r, q, s])" for p q r s
    by (simp add: transpose_input_def sw)
  from middle_moves [OF mr l transpose_picks [OF ok] f, of m0] show ?thesis
    by (simp add: x eval_nat_numeral)
qed

lemma transpose_runs:
  assumes ok: "transpose_ready base (dim0, dim1, x, y)"
  shows "moves m0 (footprint base y) (pick base y (transpose_input (dim0, dim1, x, y))) (footprint base y)
    (TransposeOp_forward base dim0 dim1 [Some x] [Some y])"
proof -
  let ?a = "wrap_dim dim0 (v_shape x)" and ?b = "wrap_dim dim1 (v_shape x)" and ?n = "length (v_shape x)"
  let ?X = "out_addr base x" and ?Y = "out_addr base y"
  have h: "packed x" "packed y" "0 \<le> ?a" "?a < int ?n" "0 \<le> ?b" "?b < int ?n" "?n = 2 \<or> ?a + ?b \<noteq> 1"
    "v_dtype x = kFloat32 \<or> v_dtype x = kInt64" "elem_size y = elem_size x"
    using ok by (auto simp: transpose_ready_def Let_def elem_size_def)
  have es: "v_dtype x = kFloat32 \<Longrightarrow> elem_size y = 4" "v_dtype x = kInt64 \<Longrightarrow> elem_size y = 8"
    using h(9) by (simp_all add: elem_size_def bytesOfType_def sizeof_def dtype_tables)
  have u: "u64 (v_shape x ! k) = v_shape x ! k" if "k < ?n" for k
  proof -
    have "v_shape x ! k \<in> set (v_shape x)" using that by simp
    then have "0 < v_shape x ! k" "v_shape x ! k < 2 ^ 31"
      using dims_bounded [OF packed_shape [OF h(1)]] shape_dims [OF packed_shape [OF h(1)]] by blast+
    then show ?thesis by (simp add: u64_id)
  qed
  have s16: "?n \<le> 16" using packed_shape [OF h(1)] by (simp add: shape_ok_def max_rank_def)
  have i: "i32 (?a + ?b) = Inr (?a + ?b)" "i32 1 = Inr 1" "i32 3 = Inr 3" using h(3-6) s16 by (simp_all add: i32_def)
  note ev = inp_def impl_def Let_def i
  consider (two) "?n = 2" "?a + ?b = 1" | (four) "?n = 4" "?a = 1 \<and> ?b = 2 \<or> ?a = 2 \<and> ?b = 1"
    | (any) "?n \<noteq> 2 \<or> ?a + ?b \<noteq> 1" "\<not> (?n = 4 \<and> (?a = 1 \<and> ?b = 2 \<or> ?a = 2 \<and> ?b = 1))" by blast
  then show ?thesis
  proof cases
    case two
    obtain H W where x: "v_shape x = [H, W]" using two(1) by (auto simp: length_Suc_conv eval_nat_numeral)
    note mt = transpose_matrix [OF ok x two(2)]
    have ap: "apart (elem_src ?Y (elem_size y) (mat_src (elem_size y) ?X H W)) (footprint base y)"
      using apart_pick [OF transpose_picks [OF ok]] by (simp only: mt(1))
    have ux: "u64 (v_shape x ! 0) = H" "u64 (v_shape x ! 1) = W" using u [of 0] u [of 1] x by simp_all
    show ?thesis
      using h(8)
    proof
      assume dt: "v_dtype x = kFloat32"
      have "TransposeOp_forward base dim0 dim1 [Some x] [Some y] = transpose_hw_wh 4 4 block_fp32 ?X ?Y H W"
        using two dt ux by (simp add: fun_eq_iff TransposeOp_forward_def ev transpose_hw_wh_fp32_def) 
      then show ?thesis
        using fp32.transposes [OF mt(3-5), of "footprint base y" ?Y ?X m0] ap mt(1,2) es(1) [OF dt] by simp
    next
      assume dt: "v_dtype x = kInt64"
      have "TransposeOp_forward base dim0 dim1 [Some x] [Some y] = transpose_hw_wh 2 8 block_int64 ?X ?Y H W"
        using two dt ux by (simp add: fun_eq_iff TransposeOp_forward_def ev transpose_hw_wh_int64_def)
      then show ?thesis
        using int64.transposes [OF mt(3-5), of "footprint base y" ?Y ?X m0] ap mt(1,2) es(2) [OF dt] by simp
    qed
  next
    case four
    have ux: "u64 (v_shape x ! k) = v_shape x ! k" if "k < 4" for k using u four(1) that by simp
    show ?thesis
      using h(8)
    proof
      assume dt: "v_dtype x = kFloat32"
      have "TransposeOp_forward base dim0 dim1 [Some x] [Some y] =
          transpose_bshd_bhsd 4 4 ?X ?Y (v_shape x ! 0) (v_shape x ! 1) (v_shape x ! 2) (v_shape x ! 3)"
        using four dt by (auto simp: fun_eq_iff TransposeOp_forward_def ev ux transpose_bshd_bhsd_fp32_def)
      then show ?thesis using transpose_middle [OF ok four, of 4 m0] es(1) [OF dt] by simp
    next
      assume dt: "v_dtype x = kInt64"
      have "TransposeOp_forward base dim0 dim1 [Some x] [Some y] =
          transpose_bshd_bhsd 2 8 ?X ?Y (v_shape x ! 0) (v_shape x ! 1) (v_shape x ! 2) (v_shape x ! 3)"
        using four dt by (auto simp: fun_eq_iff TransposeOp_forward_def ev ux transpose_bshd_bhsd_int64_def)
      then show ?thesis using transpose_middle [OF ok four, of 2 m0] es(2) [OF dt] by simp
    qed
  next
    case any
    let ?ax = "swap_index ?a ?b (map int [0..<?n])"
    note pr = transpose_permute [OF ok] and sa = swapped_axis_eq(1) [OF h(3-6)]
    have ne: "?a + ?b \<noteq> 1" using any(1) h(7) by blast
    show ?thesis
      using h(8)
    proof
      assume dt: "v_dtype x = kFloat32"
      have "TransposeOp_forward base dim0 dim1 [Some x] [Some y] = permute_fp32 ?X ?Y (v_shape x) ?ax"
        using any(2) ne dt sa by (auto simp: fun_eq_iff TransposeOp_forward_def ev)
      then show ?thesis using permute_fp32_moves [OF pr(1) dt, of m0] by (simp only: pr(2))
    next
      assume dt: "v_dtype x = kInt64"
      have "TransposeOp_forward base dim0 dim1 [Some x] [Some y] = permute_generic 8 ?X ?Y (v_shape x) ?ax"
        using any(2) ne dt sa by (auto simp: fun_eq_iff TransposeOp_forward_def ev)
      moreover have "elem_size x = 8" using es(2) [OF dt] h(9) by simp
      ultimately show ?thesis using permute_moves [OF pr(1), of m0] by (simp only: pr(2))
    qed
  qed
qed

interpretation transpose_kernel: element_kernel "\<lambda>base c m. transpose_ready base c" "\<lambda>(dim0, dim1, x, y). y"
  transpose_input "\<lambda>base (dim0, dim1, x, y). TransposeOp_forward base dim0 dim1 [Some x] [Some y]"
proof unfold_locales
  fix base and c :: "int \<times> int \<times> view \<times> view" and m
  obtain dim0 dim1 x y where c: "c = (dim0, dim1, x, y)" by (cases c) auto
  assume "transpose_ready base c"
  then have ok: "transpose_ready base (dim0, dim1, x, y)" by (simp add: c)
  show "picks_ok base (case c of (dim0, dim1, x, y) \<Rightarrow> y) (transpose_input c)" by (simp add: c transpose_picks [OF ok])
  show "moves m (footprint base (case c of (dim0, dim1, x, y) \<Rightarrow> y))
      (pick base (case c of (dim0, dim1, x, y) \<Rightarrow> y) (transpose_input c))
      (footprint base (case c of (dim0, dim1, x, y) \<Rightarrow> y))
      (case c of (dim0, dim1, x, y) \<Rightarrow> TransposeOp_forward base dim0 dim1 [Some x] [Some y])"
    using transpose_runs [OF ok, of m] by (simp add: c)
qed

text \<open>
  Exchanging the first two dimensions of a tensor with more than two copies nothing: the size of the batch starts
  at 0 and is multiplied by the sizes.
\<close>

lemma transpose_first_two:
  assumes "2 < length (v_shape x)" "wrap_dim dim0 (v_shape x) + wrap_dim dim1 (v_shape x) = 1"
    and "0 \<le> wrap_dim dim0 (v_shape x)" "0 \<le> wrap_dim dim1 (v_shape x)"
  shows "TransposeOp_forward base dim0 dim1 [Some x] [Some y] m = Inr m"
proof -
  let ?a = "wrap_dim dim0 (v_shape x)" and ?b = "wrap_dim dim1 (v_shape x)"
  have z: "ofold (\<lambda>s batch. i32 (batch * s)) ds 0 = Inr 0" for ds
    by (induction ds) (simp_all add: i32_def)
  have "i32 1 = Inr 1" "u64 0 = 0" by (simp_all add: i32_def u64_def)
  moreover have "\<not> (?a = 1 \<and> ?b = 2 \<or> ?a = 2 \<and> ?b = 1)" using assms(2) by auto
  ultimately show ?thesis
    using assms(1,2) z [of "take (length (v_shape x) - 2) (v_shape x)"]
    by (auto simp: TransposeOp_forward_def inp_def impl_def Let_def transpose_last_dims_fp32_def
        transpose_last_dims_int64_def split: dtype.split)
qed

text \<open>Everything but the first two dimensions of a tensor with more than two.\<close>

lemma transpose_swaps:
  assumes "TransposeOp_reshape dim0 dim1 u [Some x] = Inr [Some y]" "packed x" "v_dtype x \<in> {kFloat32, kInt64}"
    and "footprint base x \<inter> footprint base y = {}" "a = nat (wrap_dim dim0 (v_shape x))" "b = nat (wrap_dim dim1 (v_shape x))"
    and "length (v_shape x) = 2 \<or> a + b \<noteq> 1" "in_range ii (v_shape x)"
  shows "\<exists>m'. TransposeOp_forward base dim0 dim1 [Some x] [Some y] m = Inr m' \<and>
    elem base m' y (ii[a := ii ! b, b := ii ! a]) = elem base m x ii"
proof -
  let ?a = "wrap_dim dim0 (v_shape x)" and ?b = "wrap_dim dim1 (v_shape x)"
  have y: "v_shape y = (v_shape x)[nat ?a := v_shape x ! nat ?b, nat ?b := v_shape x ! nat ?a] \<and>
      v_stride y = rm_strides (v_shape y) \<and> v_dtype y = v_dtype x"
    and r: "0 \<le> ?a" "?a < int (length (v_shape x))" "0 \<le> ?b" "?b < int (length (v_shape x))"
    using assms(1) by (auto simp: TransposeOp_reshape_def Let_def outcome_simps dest!: one_output_Inr)
  note s = swapped_axis_eq [OF r]
  have sx: "shape_ok (v_shape x)" by (rule packed_shape [OF assms(2)])
  have "v_shape y = swap_index ?a ?b (v_shape x)" using y by (simp add: swap_index_def)
  then have "shape_ok (v_shape y)" using permute_setup(5) [OF s(2) sx s(3) [OF refl, symmetric]] by simp
  then have "packed y" using y assms(2) by (simp add: packed_def)
  then have ok: "transpose_ready base (dim0, dim1, x, y)"
    using assms y r by (auto simp: transpose_ready_def Let_def nat_add_distrib [symmetric])
  obtain m' where m': "TransposeOp_forward base dim0 dim1 [Some x] [Some y] m = Inr m'"
    using transpose_kernel.ends [of base "(dim0, dim1, x, y)" m] ok by auto
  let ?oi = "swap_index ?a ?b ii"
  have l: "length ii = length (v_shape x)" by (rule in_range_length [OF assms(8)])
  have twice: "swap_index ?a ?b ?oi = ii"
    using r l by (intro nth_equalityI) (auto simp: swap_index_def nth_list_update)
  have "in_range ?oi (v_shape y)"
    using swap_index_range [of ?a "v_shape y" ?b ii] y r assms(8) l
    by (auto simp: swap_index_def in_range_def list_all2_conv_all_nth nth_list_update)
  then have "elem base m' y ?oi = elem base m x ii"
    using transpose_kernel.copies [of base "(dim0, dim1, x, y)" m m' ?oi x ii] ok m' twice
    by (simp add: transpose_input_def)
  with m' show ?thesis by (simp add: assms(5,6) swap_index_def)
qed

text \<open>
  C36: Transposing a packed tensor of fp32 or int64 on x86 does not throw. Its result holds every element of the
  input at the index with two entries exchanged, whichever of the vectorised kernels does the work (blocks in
  registers, rows in registers, or elements one by one), except that exchanging dimensions 0 and 1 of a tensor with
  more than two dimensions changes no byte at all: that case runs the kernel for the last two dimensions over a
  batch of size 0.
\<close>

theorem transpose_places:
  assumes "TransposeOp_reshape dim0 dim1 u [Some x] = Inr [Some y]" "packed x" "v_dtype x \<in> {kFloat32, kInt64}"
    and "footprint base x \<inter> footprint base y = {}" "a = nat (wrap_dim dim0 (v_shape x))" "b = nat (wrap_dim dim1 (v_shape x))"
    and "in_range ii (v_shape x)"
  shows "\<exists>m'. TransposeOp_forward base dim0 dim1 [Some x] [Some y] m = Inr m' \<and>
    (if 2 < length (v_shape x) \<and> {a, b} = {0, 1} then m' = m
     else elem base m' y (ii[a := ii ! b, b := ii ! a]) = elem base m x ii)"
proof -
  let ?a = "wrap_dim dim0 (v_shape x)" and ?b = "wrap_dim dim1 (v_shape x)"
  have r: "0 \<le> ?a" "?a < int (length (v_shape x))" "0 \<le> ?b" "?b < int (length (v_shape x))"
    using assms(1) by (auto simp: TransposeOp_reshape_def Let_def outcome_simps)
  have ab: "{a, b} = {0, 1} \<longleftrightarrow> ?a + ?b = 1" using r assms(5,6) by (auto simp: doubleton_eq_iff)
  show ?thesis
  proof (cases "2 < length (v_shape x) \<and> {a, b} = {0, 1}")
    case True
    then have "?a + ?b = 1" "2 < length (v_shape x)" using ab by simp_all
    from transpose_first_two [OF this(2,1) r(1,3), of base y m] True show ?thesis by simp
  next
    case False
    have "int a = ?a" "int b = ?b" using r assms(5,6) by simp_all
    with False ab r have "length (v_shape x) = 2 \<or> a + b \<noteq> 1" by linarith
    from transpose_swaps [OF assms(1-6) this assms(7), of m] show ?thesis by (simp only: False if_False)
  qed
qed

lemma transpose_places_witness:
  "\<exists>y m'. TransposeOp_reshape (- 1) 0 5 [Some demo_view] = Inr [Some y] \<and>
     TransposeOp_forward join_base (- 1) 0 [Some demo_view] [Some y] of_int = Inr m' \<and>
     elem join_base m' y [2, 1] = elem join_base of_int demo_view [1, 2]"
proof -
  obtain y where y: "TransposeOp_reshape (- 1) 0 5 [Some demo_view] = Inr [Some y]" "y = \<lparr>v_shape = [3, 2],
      v_stride = [2, 1], v_offset = 0, v_store = \<lparr>ts_uuid = 5, ts_size = 24, ts_dtype = kFloat32, ts_device = kCPU\<rparr>\<rparr>"
    by (simp add: TransposeOp_reshape_def demo_eval u64_def)
  have h: "packed demo_view" "v_dtype demo_view \<in> {kFloat32, kInt64}" "in_range [1, 2] (v_shape demo_view)"
    "(1 :: nat) = nat (wrap_dim (- 1) (v_shape demo_view))" "(0 :: nat) = nat (wrap_dim 0 (v_shape demo_view))"
    "length (v_shape demo_view) = 2"
    by (simp_all add: kernel_eval demo_view_def demo_store_def wrap_dim_def)
  have "footprint join_base demo_view \<inter> footprint join_base y = {}"
    by (simp add: kernel_eval demo_view_def demo_store_def y(2))
  from transpose_places [OF y(1) h(1,2) this h(4,5,3), of of_int] y(1) h(6) show ?thesis by auto
qed

end
