(* ===== verification/Kv_Cache.thy ===== *)
theory Kv_Cache
  imports Join_Results
begin

text \<open>
  The caches of keys and values, \<^verbatim>\<open>mllm/nn/lmcache/{StaticCache,DynamicCache}.{hpp,cpp}\<close> and the operation
  \<^verbatim>\<open>mllm/backends/cpu/ops/KVCacheOp.cpp\<close>. Tensors of the cache are views of storages at the addresses
  \<open>base\<close>; memory is a function from addresses to bytes. On a device other than the CPU, filling and
  copying are operations of its backend, the parameters \<open>fill\<close> and \<open>copy2\<close>.
\<close>

subsection \<open>StaticCache\<close>

record kv_cache =
  kc_device :: device
  kc_k_dtype :: dtype
  kc_v_dtype :: dtype
  kc_max :: int
  kc_layers :: int
  kc_q_heads :: int
  kc_kv_heads :: int
  kc_dims :: int
  kc_fa2 :: bool
  kc_k :: "tensor list"
  kc_v :: "tensor list"
  kc_cnt :: "int list"

text \<open>\<^verbatim>\<open>Tensor::zeros\<close>: \<^verbatim>\<open>empty\<close>, \<^verbatim>\<open>alloc\<close> and \<^verbatim>\<open>FillOp\<close>; other types only print a message.\<close>

definition fillable :: "dtype set" where
  "fillable = {kFloat32, kFloat16, kInt64, kInt32, kInt16, kInt8, kUInt64, kUInt32, kUInt16, kUInt8}"

definition fill_zeros :: "(nat \<Rightarrow> int) \<Rightarrow> view \<Rightarrow> memory \<Rightarrow> memory outcome" where
  "fill_zeros base v m =
     (if v_dtype v \<in> fillable
      then Inr (\<lambda>a. if out_addr base v \<le> a \<and> a < out_addr base v + numel v * elem_size v then 0 else m a)
      else Inr m)"

definition tensor_zeros ::
  "(nat \<Rightarrow> int) \<Rightarrow> (view \<Rightarrow> memory \<Rightarrow> memory outcome) \<Rightarrow> int list \<Rightarrow> dtype \<Rightarrow> device \<Rightarrow> nat \<Rightarrow> memory \<Rightarrow>
     (tensor \<times> memory) outcome" where
  "tensor_zeros base fill shape dt dev u m =
     obind (tensor_empty shape dt dev u) (\<lambda>t. obind (impl t) (\<lambda>v.
     obind (if dev = kCPU then fill_zeros base v m else fill v m) (\<lambda>m'. Inr (t, m'))))"

definition cache_shape :: "bool \<Rightarrow> int \<Rightarrow> int \<Rightarrow> int \<Rightarrow> int \<Rightarrow> int list" where
  "cache_shape fa2 max_len q_heads kv_heads dims =
     (if fa2 then [1, max_len, kv_heads, dims] else [1, q_heads, max_len, dims])"

fun cache_layers ::
  "(nat \<Rightarrow> int) \<Rightarrow> (view \<Rightarrow> memory \<Rightarrow> memory outcome) \<Rightarrow> int list \<Rightarrow> dtype \<Rightarrow> dtype \<Rightarrow> device \<Rightarrow> nat \<Rightarrow> nat \<Rightarrow>
     memory \<Rightarrow> (tensor list \<times> tensor list \<times> memory) outcome" where
  "cache_layers base fill shape kdt vdt dev 0 u m = Inr ([], [], m)"
| "cache_layers base fill shape kdt vdt dev (Suc n) u m =
     obind (tensor_zeros base fill shape kdt dev u m) (\<lambda>(k, m1).
     obind (tensor_zeros base fill shape vdt dev (u + 1) m1) (\<lambda>(v, m2).
     obind (cache_layers base fill shape kdt vdt dev n (u + 2) m2) (\<lambda>(ks, vs, m3). Inr (k # ks, v # vs, m3))))"

definition StaticCache_new ::
  "(nat \<Rightarrow> int) \<Rightarrow> (view \<Rightarrow> memory \<Rightarrow> memory outcome) \<Rightarrow> int \<Rightarrow> int \<Rightarrow> int \<Rightarrow> int \<Rightarrow> int \<Rightarrow> dtype \<Rightarrow> dtype \<Rightarrow>
     device \<Rightarrow> bool \<Rightarrow> nat \<Rightarrow> memory \<Rightarrow> (kv_cache \<times> memory) outcome" where
  "StaticCache_new base fill max_len layers q_heads kv_heads dims kdt vdt dev fa2 u m =
     obind (cache_layers base fill (cache_shape fa2 max_len q_heads kv_heads dims) kdt vdt dev (nat layers) u m)
       (\<lambda>(ks, vs, m'). Inr (\<lparr>kc_device = dev, kc_k_dtype = kdt, kc_v_dtype = vdt, kc_max = max_len,
          kc_layers = layers, kc_q_heads = q_heads, kc_kv_heads = kv_heads, kc_dims = dims, kc_fa2 = fa2,
          kc_k = ks, kc_v = vs, kc_cnt = replicate (nat layers) 0\<rparr>, m'))"

definition setCurrentSeqCnt :: "int \<Rightarrow> kv_cache \<Rightarrow> kv_cache outcome" where
  "setCurrentSeqCnt seq c =
     obind (ofold (\<lambda>l cnt. vec_set cnt l seq) [0..kc_layers c - 1] (kc_cnt c)) (\<lambda>cnt. Inr (c\<lparr>kc_cnt := cnt\<rparr>))"

definition clearCache :: "kv_cache \<Rightarrow> kv_cache outcome" where
  "clearCache c =
     obind (ofold (\<lambda>l cnt. vec_set cnt l 0) [0..kc_layers c - 1] (kc_cnt c)) (\<lambda>cnt. Inr (c\<lparr>kc_cnt := cnt\<rparr>))"

definition getCurrentSeqCnt :: "kv_cache \<Rightarrow> int \<Rightarrow> int outcome" where
  "getCurrentSeqCnt c l = vec_at (kc_cnt c) l"

definition getLayerNums :: "kv_cache \<Rightarrow> int" where
  "getLayerNums c = kc_layers c"

definition getKCacheBuffer :: "kv_cache \<Rightarrow> int \<Rightarrow> tensor outcome" where
  "getKCacheBuffer c l = vec_at (kc_k c) l"

definition getVCacheBuffer :: "kv_cache \<Rightarrow> int \<Rightarrow> tensor outcome" where
  "getVCacheBuffer c l = vec_at (kc_v c) l"

text \<open>\<^verbatim>\<open>kAll\<close> and a range, in a subscript.\<close>

definition all_of :: slice_pair where
  "all_of = \<lparr>sl_start = kAll, sl_end = kAll, sl_step = 1\<rparr>"

definition range_of :: "int \<Rightarrow> int \<Rightarrow> slice_pair" where
  "range_of a b = \<lparr>sl_start = a, sl_end = b, sl_step = 1\<rparr>"

definition subscript :: "slice_pair list \<Rightarrow> tensor \<Rightarrow> tensor outcome" where
  "subscript ps t = SliceOp_reshape ps False 0 t"

text \<open>What has been written of one layer: the first \<open>n\<close> positions.\<close>

definition filled :: "bool \<Rightarrow> int \<Rightarrow> tensor \<Rightarrow> tensor outcome" where
  "filled fa2 n t =
     (if fa2 then subscript [all_of, range_of kAll n, all_of, all_of] t
      else subscript [all_of, all_of, range_of kAll n, all_of] t)"

definition getKVCache :: "kv_cache \<Rightarrow> int \<Rightarrow> tensor list outcome" where
  "getKVCache c l =
     obind (vec_at (kc_k c) l) (\<lambda>k. obind (vec_at (kc_cnt c) l) (\<lambda>n. obind (filled (kc_fa2 c) n k) (\<lambda>k'.
     obind (vec_at (kc_v c) l) (\<lambda>v. obind (filled (kc_fa2 c) n v) (\<lambda>v'. Inr [k', v'])))))"

text \<open>The number of bytes of \<open>n\<close> elements, rounded down to whole blocks.\<close>

definition row_bytes :: "dtype \<Rightarrow> int \<Rightarrow> int" where
  "row_bytes dt n = u64 (u64 n * int (bytesOfType dt)) div int (lanesOfType dt)"

text \<open>The rows of head \<open>h\<close> go to one of the heads of the cache that share it.\<close>

definition copy_head ::
  "(nat \<Rightarrow> int) \<Rightarrow> kv_cache \<Rightarrow> view \<Rightarrow> view \<Rightarrow> int \<Rightarrow> view \<Rightarrow> view \<Rightarrow> int \<Rightarrow> int \<Rightarrow> int \<Rightarrow> int \<Rightarrow> memory \<Rightarrow>
     memory outcome" where
  "copy_head base c kc vc cnt k v inputs_seq_len repeat_times h r m =
     obind (i32 (h * repeat_times)) (\<lambda>p. obind (i32 (p + r)) (\<lambda>q.
     obind (offsettedPtr (base (ts_uuid (v_store kc))) kc [0, q, cnt, 0]) (\<lambda>k_cache_ptr.
     obind (offsettedPtr (base (ts_uuid (v_store vc))) vc [0, q, cnt, 0]) (\<lambda>v_cache_ptr.
     obind (offsettedPtr (base (ts_uuid (v_store k))) k [0, h, 0, 0]) (\<lambda>k_ptr.
     obind (offsettedPtr (base (ts_uuid (v_store v))) v [0, h, 0, 0]) (\<lambda>v_ptr.
     obind (i32 (inputs_seq_len * kc_dims c)) (\<lambda>n.
       Inr (memcpy v_cache_ptr v_ptr (row_bytes (kc_v_dtype c) n)
             (memcpy k_cache_ptr k_ptr (row_bytes (kc_k_dtype c) n) m)))))))))"

text \<open>The same on another device, by subscripts and \<^verbatim>\<open>copy2\<close>, which copies its object into its argument.\<close>

definition copy_head_by_slices ::
  "(view \<Rightarrow> view \<Rightarrow> memory \<Rightarrow> memory outcome) \<Rightarrow> tensor \<Rightarrow> tensor \<Rightarrow> int \<Rightarrow> tensor \<Rightarrow> tensor \<Rightarrow> int \<Rightarrow> int \<Rightarrow> int \<Rightarrow>
     int \<Rightarrow> memory \<Rightarrow> memory outcome" where
  "copy_head_by_slices copy2 kc vc cnt k v inputs_seq_len repeat_times h r m =
     obind (slice_of_index h) (\<lambda>ph. obind (i32 (h * repeat_times)) (\<lambda>p. obind (i32 (p + r)) (\<lambda>q.
     obind (slice_of_index q) (\<lambda>pq. obind (i32 (cnt + inputs_seq_len)) (\<lambda>e.
       let one = (\<lambda>x xc m. obind (obind (subscript [all_of, ph, all_of, all_of] x) impl) (\<lambda>src.
                   obind (obind (subscript [all_of, pq, range_of cnt e, all_of] xc) impl) (\<lambda>dst. copy2 src dst m)))
       in obind (one k kc m) (one v vc))))))"

definition copy_heads ::
  "(nat \<Rightarrow> int) \<Rightarrow> (view \<Rightarrow> view \<Rightarrow> memory \<Rightarrow> memory outcome) \<Rightarrow> kv_cache \<Rightarrow> view \<Rightarrow> view \<Rightarrow> int \<Rightarrow> view \<Rightarrow> view \<Rightarrow>
     int \<Rightarrow> memory \<Rightarrow> memory outcome" where
  "copy_heads base copy2 c kc vc cnt k v inputs_seq_len m =
     (if kc_kv_heads c = 0 then Inl Undefined
      else let repeat_times = kc_q_heads c sdiv kc_kv_heads c in
        ofold (\<lambda>h. ofold (\<lambda>r.
            if kc_device c = kCPU then copy_head base c kc vc cnt k v inputs_seq_len repeat_times h r
            else copy_head_by_slices copy2 (Some kc) (Some vc) cnt (Some k) (Some v) inputs_seq_len repeat_times h r)
          [0..repeat_times - 1]) [0..kc_kv_heads c - 1] m)"

definition updateKVCache ::
  "(nat \<Rightarrow> int) \<Rightarrow> (view \<Rightarrow> view \<Rightarrow> memory \<Rightarrow> memory outcome) \<Rightarrow> kv_cache \<Rightarrow> int \<Rightarrow> tensor \<Rightarrow> tensor \<Rightarrow> memory \<Rightarrow>
     (tensor list \<times> kv_cache \<times> memory) outcome" where
  "updateKVCache base copy2 c l k v m =
     obind (impl k) (\<lambda>kv. obind (impl v) (\<lambda>vv.
     if kc_fa2 c then
       obind (vec_at (v_shape kv) 2) (\<lambda>a. obind (rt_assert (a = kc_kv_heads c)) (\<lambda>_.
       obind (vec_at (v_shape vv) 2) (\<lambda>b. obind (rt_assert (b = kc_kv_heads c)) (\<lambda>_.
       obind (getKVCache c l) (\<lambda>out. Inr (out, c, m))))))
     else
       obind (vec_at (v_shape kv) 1) (\<lambda>a. obind (rt_assert (a = kc_kv_heads c)) (\<lambda>_.
       obind (vec_at (v_shape vv) 1) (\<lambda>b. obind (rt_assert (b = kc_kv_heads c)) (\<lambda>_.
       obind (vec_at (v_shape kv) 2) (\<lambda>inputs_seq_len.
       obind (obind (vec_at (kc_k c) l) impl) (\<lambda>kc. obind (obind (vec_at (kc_v c) l) impl) (\<lambda>vc.
       obind (vec_at (kc_cnt c) l) (\<lambda>cnt.
       obind (copy_heads base copy2 c kc vc cnt kv vv inputs_seq_len m) (\<lambda>m'.
       obind (i32 (cnt + inputs_seq_len)) (\<lambda>cnt'. obind (vec_set (kc_cnt c) l cnt') (\<lambda>cnts.
         let c' = c\<lparr>kc_cnt := cnts\<rparr> in
         obind (getKVCache c' l) (\<lambda>out. Inr (out, c', m')))))))))))))))"

text \<open>
  The place of the next \<open>s\<close> positions, as a tensor over memory that is managed by hand: a view and the
  address of its storage.
\<close>

definition write_location ::
  "(nat \<Rightarrow> int) \<Rightarrow> kv_cache \<Rightarrow> int \<Rightarrow> int \<Rightarrow> tensor \<Rightarrow> (view \<times> int) outcome" where
  "write_location base c cnt s t =
     obind (i32 (kc_kv_heads c * kc_dims c)) (\<lambda>w. obind (i32 (cnt + s)) (\<lambda>e. obind (impl t) (\<lambda>x.
     obind (obind (subscript [all_of, range_of cnt e, all_of, all_of] t) impl) (\<lambda>k.
     obind (TensorStorage_create [1, s, w] (v_dtype x) (v_device x) (ts_uuid (v_store x))) (\<lambda>st.
     obind (view_create0 [1, s, w] st) (\<lambda>out. Inr (out, out_addr base k)))))))"

definition preGetKVWriteLocation ::
  "(nat \<Rightarrow> int) \<Rightarrow> kv_cache \<Rightarrow> int \<Rightarrow> int \<Rightarrow> ((view \<times> int) list \<times> kv_cache) outcome" where
  "preGetKVWriteLocation base c l s =
     (if \<not> kc_fa2 c then Inl (Exit kCoreError)
      else obind (vec_at (kc_k c) l) (\<lambda>kt. obind (vec_at (kc_v c) l) (\<lambda>vt. obind (vec_at (kc_cnt c) l) (\<lambda>cnt.
           obind (write_location base c cnt s kt) (\<lambda>k. obind (write_location base c cnt s vt) (\<lambda>v.
           obind (i32 (cnt + s)) (\<lambda>cnt'. obind (vec_set (kc_cnt c) l cnt') (\<lambda>cnts.
             Inr ([k, v], c\<lparr>kc_cnt := cnts\<rparr>)))))))))"

subsection \<open>SubStaticCache\<close>

text \<open>A cache on the positions of another one from \<open>sb_start\<close> on; the parent is an argument.\<close>

record sub_cache =
  sb_k :: "tensor list"
  sb_v :: "tensor list"
  sb_cnt :: "int list"
  sb_start :: int
  sb_len :: int
  sb_max :: int

definition SubStaticCache_new :: "kv_cache \<Rightarrow> int \<Rightarrow> int \<Rightarrow> sub_cache outcome" where
  "SubStaticCache_new c start len =
     (if getLayerNums c < 0 then Inl (Throw ''vector::_M_default_append'')
      else obind (i32 (kc_max c - start)) (\<lambda>mx. obind (rt_assert (\<not> kc_fa2 c)) (\<lambda>_.
        let part = (\<lambda>buffer l. obind (buffer c l) (subscript [all_of, all_of, range_of start kAll, all_of])) in
        obind (omap (part getKCacheBuffer) [0..getLayerNums c - 1]) (\<lambda>ks.
        obind (omap (part getVCacheBuffer) [0..getLayerNums c - 1]) (\<lambda>vs.
          Inr \<lparr>sb_k = ks, sb_v = vs, sb_cnt = replicate (nat (getLayerNums c)) len, sb_start = start, sb_len = len,
            sb_max = mx\<rparr>)))))"

definition sub_getCurrentSeqCnt :: "sub_cache \<Rightarrow> int \<Rightarrow> int outcome" where
  "sub_getCurrentSeqCnt b l = vec_at (sb_cnt b) l"

definition sub_clearCache :: "kv_cache \<Rightarrow> sub_cache \<Rightarrow> sub_cache outcome" where
  "sub_clearCache c b =
     obind (ofold (\<lambda>l cnt. vec_set cnt l (sb_len b)) [0..getLayerNums c - 1] (sb_cnt b)) (\<lambda>cnt. Inr (b\<lparr>sb_cnt := cnt\<rparr>))"

definition sub_updateKVCache ::
  "(nat \<Rightarrow> int) \<Rightarrow> (view \<Rightarrow> view \<Rightarrow> memory \<Rightarrow> memory outcome) \<Rightarrow> kv_cache \<Rightarrow> sub_cache \<Rightarrow> int \<Rightarrow> tensor \<Rightarrow> tensor \<Rightarrow>
     memory \<Rightarrow> (tensor list \<times> sub_cache \<times> memory) outcome" where
  "sub_updateKVCache base copy2 c b l k v m =
     obind (impl k) (\<lambda>kv. obind (impl v) (\<lambda>vv. obind (vec_at (v_shape kv) 2) (\<lambda>inputs_seq_len.
     obind (vec_at (sb_cnt b) l) (\<lambda>cnt. obind (i32 (cnt + inputs_seq_len)) (\<lambda>cnt'.
     if sb_max b < cnt' then Inl (Throw ''SubStaticCache: sequence length exceeds sub-cache capacity'')
     else
       obind (vec_at (v_shape kv) 1) (\<lambda>a. obind (rt_assert (a = kc_kv_heads c)) (\<lambda>_.
       obind (vec_at (v_shape vv) 1) (\<lambda>b'. obind (rt_assert (b' = kc_kv_heads c)) (\<lambda>_.
       obind (vec_at (sb_k b) l) (\<lambda>kt. obind (impl kt) (\<lambda>kc.
       obind (vec_at (sb_v b) l) (\<lambda>vt. obind (impl vt) (\<lambda>vc.
       obind (copy_heads base copy2 c kc vc cnt kv vv inputs_seq_len m) (\<lambda>m'.
       obind (vec_set (sb_cnt b) l cnt') (\<lambda>cnts.
       obind (filled False cnt' kt) (\<lambda>k'. obind (filled False cnt' vt) (\<lambda>v'.
         Inr ([k', v'], b\<lparr>sb_cnt := cnts\<rparr>, m'))))))))))))))))))"

subsection \<open>KVCacheOp of the CPU\<close>

text \<open>The operation owns a cache of one layer and may be given one to share, \<open>ko_shared\<close>.\<close>

record kv_op =
  ko_cache :: kv_cache
  ko_shared :: "kv_cache option"
  ko_layer :: int
  ko_kv_head :: int

definition CPUKVCacheOp_new ::
  "(nat \<Rightarrow> int) \<Rightarrow> (view \<Rightarrow> memory \<Rightarrow> memory outcome) \<Rightarrow> int \<Rightarrow> int \<Rightarrow> int \<Rightarrow> int \<Rightarrow> bool \<Rightarrow> nat \<Rightarrow> memory \<Rightarrow>
     (kv_op \<times> memory) outcome" where
  "CPUKVCacheOp_new base fill layer q_head kv_head head_dim fa2 u m =
     obind (StaticCache_new base fill 1024 1 q_head kv_head head_dim kFloat32 kFloat32 kCPU fa2 u m) (\<lambda>(c, m').
       Inr (\<lparr>ko_cache = c, ko_shared = None, ko_layer = layer, ko_kv_head = kv_head\<rparr>, m'))"

definition cache_to_use :: "kv_op \<Rightarrow> kv_cache \<times> int" where
  "cache_to_use op = (case ko_shared op of Some c \<Rightarrow> (c, ko_layer op) | None \<Rightarrow> (ko_cache op, 0))"

definition store_cache :: "kv_op \<Rightarrow> kv_cache \<Rightarrow> kv_op" where
  "store_cache op c = (case ko_shared op of Some _ \<Rightarrow> op\<lparr>ko_shared := Some c\<rparr> | None \<Rightarrow> op\<lparr>ko_cache := c\<rparr>)"

definition CPUKVCacheOp_reshape :: "kv_op \<Rightarrow> nat \<Rightarrow> tensor list \<Rightarrow> tensor list outcome" where
  "CPUKVCacheOp_reshape op u ts =
     obind (inp ts 0) (\<lambda>k. obind (vec_at (v_shape k) 0) (\<lambda>b. obind (vec_at (v_shape k) 2) (\<lambda>s.
     obind (vec_at (v_shape k) 3) (\<lambda>d. obind (getCurrentSeqCnt (fst (cache_to_use op)) (snd (cache_to_use op))) (\<lambda>n.
     obind (i32 (s + n)) (\<lambda>len.
     obind (tensor_empty [b, ko_kv_head op, len, d] kFloat32 kCPU u) (\<lambda>o1.
     obind (tensor_empty [b, ko_kv_head op, len, d] kFloat32 kCPU (u + 1)) (\<lambda>o2. Inr [o1, o2]))))))))"

definition CPUKVCacheOp_forward ::
  "(nat \<Rightarrow> int) \<Rightarrow> (view \<Rightarrow> view \<Rightarrow> memory \<Rightarrow> memory outcome) \<Rightarrow> kv_op \<Rightarrow> tensor list \<Rightarrow> tensor list \<Rightarrow> memory \<Rightarrow>
     (tensor list \<times> kv_op \<times> memory) outcome" where
  "CPUKVCacheOp_forward base copy2 op ts os m =
     obind (rt_assert (length ts = 2)) (\<lambda>_. obind (rt_assert (length os = 2)) (\<lambda>_.
     obind (updateKVCache base copy2 (fst (cache_to_use op)) (snd (cache_to_use op)) (ts ! 0) (ts ! 1) m)
       (\<lambda>(out, c, m'). Inr (out, store_cache op c, m'))))"

definition op_clearCache :: "kv_op \<Rightarrow> kv_op outcome" where
  "op_clearCache op = obind (clearCache (fst (cache_to_use op))) (\<lambda>c. Inr (store_cache op c))"

definition op_setCurrentSeqCnt :: "int \<Rightarrow> kv_op \<Rightarrow> kv_op outcome" where
  "op_setCurrentSeqCnt seq op = obind (setCurrentSeqCnt seq (fst (cache_to_use op))) (\<lambda>c. Inr (store_cache op c))"

definition op_getCurrentSeqCnt :: "kv_op \<Rightarrow> int outcome" where
  "op_getCurrentSeqCnt op = getCurrentSeqCnt (fst (cache_to_use op)) (snd (cache_to_use op))"

definition setStaticCache :: "kv_cache option \<Rightarrow> kv_op \<Rightarrow> kv_op" where
  "setStaticCache c op = op\<lparr>ko_shared := c\<rparr>"

definition getStaticCache :: "kv_op \<Rightarrow> kv_cache" where
  "getStaticCache op = (case ko_shared op of Some c \<Rightarrow> c | None \<Rightarrow> ko_cache op)"

subsection \<open>DynamicCache\<close>

record dyn_cache =
  dc_layers :: int
  dc_q_heads :: int
  dc_kv_heads :: int
  dc_dims :: int
  dc_fa2 :: bool
  dc_k :: "tensor list"
  dc_v :: "tensor list"

definition DynamicCache_new :: "int \<Rightarrow> int \<Rightarrow> int \<Rightarrow> int \<Rightarrow> bool \<Rightarrow> dyn_cache" where
  "DynamicCache_new layers q_heads kv_heads dims fa2 =
     \<lparr>dc_layers = layers, dc_q_heads = q_heads, dc_kv_heads = kv_heads, dc_dims = dims, dc_fa2 = fa2,
      dc_k = replicate (nat layers) None, dc_v = replicate (nat layers) None\<rparr>"

text \<open>\<^verbatim>\<open>Tensor::repeat\<close> and \<^verbatim>\<open>functional::concat\<close>: shape, allocation, kernel.\<close>

definition tensor_repeat ::
  "(nat \<Rightarrow> int) \<Rightarrow> int \<Rightarrow> int \<Rightarrow> nat \<Rightarrow> tensor \<Rightarrow> memory \<Rightarrow> (tensor \<times> memory) outcome" where
  "tensor_repeat base multiplier dim u t m =
     (if multiplier = 1 then Inr (t, m)
      else obind (impl t) (\<lambda>v. let d = wrap_dim dim (v_shape v) in
        obind (RepeatOp_reshape d multiplier u [t]) (\<lambda>os.
        obind (RepeatOp_forward base d multiplier [t] os m) (\<lambda>m'. obind (vec_at os 0) (\<lambda>y. Inr (y, m'))))))"

definition tensor_concat ::
  "(nat \<Rightarrow> int) \<Rightarrow> tensor list \<Rightarrow> int \<Rightarrow> nat \<Rightarrow> memory \<Rightarrow> (tensor \<times> memory) outcome" where
  "tensor_concat base ts dim u m =
     obind (ConcatOp_reshape dim u ts) (\<lambda>os.
     obind (ConcatOp_forward base dim ts os m) (\<lambda>m'. obind (vec_at os 0) (\<lambda>y. Inr (y, m'))))"

definition dyn_updateKVCache ::
  "(nat \<Rightarrow> int) \<Rightarrow> nat \<Rightarrow> dyn_cache \<Rightarrow> int \<Rightarrow> tensor \<Rightarrow> tensor \<Rightarrow> memory \<Rightarrow>
     (tensor list \<times> dyn_cache \<times> memory) outcome" where
  "dyn_updateKVCache base u c l k v m =
     obind (impl k) (\<lambda>kv. obind (vec_at (v_shape kv) 1) (\<lambda>a. obind (rt_assert (a = dc_kv_heads c)) (\<lambda>_.
     obind (impl v) (\<lambda>vv. obind (vec_at (v_shape vv) 1) (\<lambda>b. obind (rt_assert (b = dc_kv_heads c)) (\<lambda>_.
     obind (if dc_fa2 c then Inr ((k, v), m)
            else if dc_kv_heads c = 0 then Inl Undefined
            else let n = dc_q_heads c sdiv dc_kv_heads c in
                 obind (tensor_repeat base n 1 u k m) (\<lambda>(k', m1).
                 obind (tensor_repeat base n 1 (u + 1) v m1) (\<lambda>(v', m2). Inr ((k', v'), m2)))) (\<lambda>((k, v), m).
     obind (vec_at (dc_k c) l) (\<lambda>kc. obind (vec_at (dc_v c) l) (\<lambda>vc.
     if kc = None \<and> vc = None then
       obind (vec_set (dc_k c) l k) (\<lambda>ks. obind (vec_set (dc_v c) l v) (\<lambda>vs.
         Inr ([k, v], c\<lparr>dc_k := ks, dc_v := vs\<rparr>, m)))
     else
       obind (tensor_concat base [kc, k] 2 (u + 2) m) (\<lambda>(k', m1). obind (vec_set (dc_k c) l k') (\<lambda>ks.
       obind (tensor_concat base [vc, v] 2 (u + 3) m1) (\<lambda>(v', m2). obind (vec_set (dc_v c) l v') (\<lambda>vs.
         Inr ([k', v'], c\<lparr>dc_k := ks, dc_v := vs\<rparr>, m2))))))))))))))"

definition dyn_getCurrentSeqCnt :: "dyn_cache \<Rightarrow> int outcome" where
  "dyn_getCurrentSeqCnt c =
     (case dc_k c of Some v # _ \<Rightarrow> vec_at (v_shape v) 2 | _ \<Rightarrow> Inr 0)"

subsection \<open>Writing the rows of one tensor\<close>

text \<open>
  The cache \<open>y\<close> has \<open>P = H * rt\<close> heads of \<open>T\<close> rows with \<open>I\<close> elements, the input \<open>x\<close> has \<open>H\<close> heads of \<open>S\<close> rows
  that lie one behind the other.
\<close>

definition fits ::
  "(nat \<Rightarrow> int) \<Rightarrow> view \<Rightarrow> view \<Rightarrow> int \<Rightarrow> int \<Rightarrow> int \<Rightarrow> int \<Rightarrow> int \<Rightarrow> int \<Rightarrow> bool" where
  "fits base y x H rt T I S cnt \<longleftrightarrow> packed y \<and> v_shape y = [1, H * rt, T, I] \<and> view_ok x \<and> v_shape x = [1, H, S, I] \<and>
     drop 2 (v_stride x) = [I, 1] \<and> v_dtype x = v_dtype y \<and> 0 < rt \<and> 0 \<le> cnt \<and> cnt + S \<le> T"

text \<open>Where position \<open>j\<close> of the cache gets its bytes from.\<close>

definition row_src :: "(nat \<Rightarrow> int) \<Rightarrow> view \<Rightarrow> int \<Rightarrow> int \<Rightarrow> int \<Rightarrow> int \<Rightarrow> int \<Rightarrow> source" where
  "row_src base x rt T I cnt j =
     bytes_from (elem_addr base x [0, j div (T * I) div rt, j div I mod T - cnt, j mod I])"

lemma fitsD:
  assumes "fits base y x H rt T I S cnt"
  shows "packed y" "v_shape y = [1, H * rt, T, I]" "view_ok x" "v_shape x = [1, H, S, I]" "elem_size x = elem_size y"
    "0 < rt" "0 \<le> cnt" "cnt + S \<le> T" "0 < H" "0 < S" "0 < I" "0 < T" "H * rt * (T * I) < 2 ^ 31" "S * I < 2 ^ 31"
    "v_dtype x = v_dtype y" "\<exists>a b. v_stride x = [a, b, I, 1]"
proof -
  show h: "packed y" "v_shape y = [1, H * rt, T, I]" "view_ok x" "v_shape x = [1, H, S, I]" "elem_size x = elem_size y"
    "0 < rt" "0 \<le> cnt" "cnt + S \<le> T" "v_dtype x = v_dtype y"
    using assms by (simp_all add: fits_def elem_size_def)
  have d2: "drop 2 (v_stride x) = [I, 1]" using assms by (simp add: fits_def)
  have sx: "shape_ok [1, H, S, I]" "shape_ok [1, H * rt, T, I]" using h(3,4) packed_shape [OF h(1)] h(2) by (simp_all add: view_ok_def)
  then show pos: "0 < H" "0 < S" "0 < I" "0 < T" "H * rt * (T * I) < 2 ^ 31" by (simp_all add: shape_ok_def)
  have "1 * (S * I) \<le> H * (S * I)" using pos by (intro mult_right_mono) simp_all
  moreover have "H * (S * I) < 2 ^ 31" using sx(1) by (simp add: shape_ok_def)
  ultimately show "S * I < 2 ^ 31" by linarith
  have "length (v_stride x) = 4" using h(3,4) by (simp add: view_ok_def)
  then show "\<exists>a b. v_stride x = [a, b, I, 1]" using d2 by (auto simp: length_Suc_conv eval_nat_numeral)
qed

lemma row_src_at:
  assumes "0 < I" "0 \<le> i" "i < T" "0 \<le> b" "b < I"
  shows "row_src base x rt T I cnt (at3 T I q i b) = bytes_from (elem_addr base x [0, q div rt, i - cnt, b])"
  using at3_parts [of i T b I q] assms by (simp add: row_src_def)

text \<open>The band of positions that are written lies in the cache and is read from the input.\<close>

lemma band_in_cache:
  assumes f: "fits base y x H rt T I S cnt" and r: "0 \<le> lo" "hi \<le> T"
  shows "elems (out_addr base y) (elem_size y) (band (H * rt) T I lo hi) \<subseteq> footprint base y"
proof -
  note h = fitsD [OF f]
  have "band (H * rt) T I lo hi \<subseteq> band (H * rt) T I 0 T" using r by (fastforce simp: band_def)
  then have "band (H * rt) T I lo hi \<subseteq> {0 ..< 0 + H * rt * (T * I)}" using band_all [OF h(12,11), of "H * rt"] by simp
  from elems_mono [OF this, of "out_addr base y" "elem_size y"] show ?thesis
    unfolding elems_cells [OF elem_size_bounds(1)] using packed_cells [OF h(1), of base] h(2) by (simp add: mult.assoc)
qed

lemma band_source:
  assumes f: "fits base y x H rt T I S cnt"
    and a: "a \<in> elems (out_addr base y) (elem_size y) (band (H * rt) T I cnt (cnt + S))"
  shows "\<exists>c \<in> footprint base x. elem_src (out_addr base y) (elem_size y) (row_src base x rt T I cnt) a = (\<lambda>m. m c)"
proof -
  note h = fitsD [OF f]
  let ?es = "elem_size y" and ?q = "a - out_addr base y"
  have es: "0 < ?es" by (rule elem_size_bounds)
  have "?q div ?es \<in> band (H * rt) T I cnt (cnt + S)" using a by (simp add: mem_elems [OF es])
  then obtain u i b where j: "?q div ?es = at3 T I u i b" "0 \<le> u" "u < H * rt" "cnt \<le> i" "i < cnt + S" "0 \<le> b" "b < I"
    by (auto simp: band_def)
  have "u div rt < H" "0 \<le> u div rt" using j h(6) by (simp_all add: int_div_less pos_imp_zdiv_nonneg_iff)
  then have r: "in_range [0, u div rt, i - cnt, b] (v_shape x)" using j h(4) by simp
  have k: "0 \<le> ?q mod ?es" "?q mod ?es < elem_size x" using es h(5) by simp_all
  have "elem_src (out_addr base y) ?es (row_src base x rt T I cnt) a =
      bytes_from (elem_addr base x [0, u div rt, i - cnt, b]) (?q mod ?es)"
    using row_src_at [of I i T b] j h(7,8,11) by (simp add: elem_src_def)
  moreover have "elem_addr base x [0, u div rt, i - cnt, b] + ?q mod ?es \<in> footprint base x"
    by (rule elem_in_footprint [OF h(3) r k])
  ultimately show ?thesis by (auto simp: bytes_from_def fun_eq_iff)
qed

lemma head_pointers:
  assumes f: "fits base y x H rt T I S cnt" and i: "0 \<le> i" "i < H" "0 \<le> r" "r < rt"
  shows "offsettedPtr (base (ts_uuid (v_store y))) y [0, i * rt + r, cnt, 0] =
      Inr (out_addr base y + ((i * rt + r) * (T * I) + cnt * I) * elem_size y)"
    "offsettedPtr (base (ts_uuid (v_store x))) x [0, i, 0, 0] = Inr (elem_addr base x [0, i, 0, 0])"
    "i32 (i * rt) = Inr (i * rt)" "i32 (i * rt + r) = Inr (i * rt + r)"
proof -
  note h = fitsD [OF f]
  have q: "0 \<le> i * rt" "i * rt + r < H * rt" using block_le [OF i(1,2), of rt] i h(6) by simp_all
  then have "in_range [0, i * rt + r, cnt, 0] (v_shape y)" using i h by simp
  from view_ptr [OF packed_ok [OF h(1)] this, of base]
  show "offsettedPtr (base (ts_uuid (v_store y))) y [0, i * rt + r, cnt, 0] =
      Inr (out_addr base y + ((i * rt + r) * (T * I) + cnt * I) * elem_size y)"
    by (simp add: packed_addr [OF h(1)] h(2))
  have "in_range [0, i, 0, 0] (v_shape x)" using i h by simp
  from view_ptr [OF h(3) this, of base]
  show "offsettedPtr (base (ts_uuid (v_store x))) x [0, i, 0, 0] = Inr (elem_addr base x [0, i, 0, 0])" .
  have "H * rt * 1 \<le> H * rt * (T * I)" using h by (intro mult_left_mono) (simp_all add: int_one_le_iff_zero_less)
  then have P: "H * rt < 2 ^ 31" using h(13) by linarith
  show "i32 (i * rt) = Inr (i * rt)" "i32 (i * rt + r) = Inr (i * rt + r)"
    by (rule i32_small [of _ "H * rt"]; use q i P in linarith)+
qed

lemma head_moves:
  assumes f: "fits base y x H rt T I S cnt" and i: "0 \<le> i" "i < H" "0 \<le> r" "r < rt"
    and D: "elems (out_addr base y) (elem_size y) (band (H * rt) T I cnt (cnt + S)) \<subseteq> D"
  shows "moves m0 D (elem_src (out_addr base y) (elem_size y) (row_src base x rt T I cnt))
    (elems (out_addr base y) (elem_size y)
      {(i * rt + r) * (T * I) + cnt * I ..< (i * rt + r) * (T * I) + cnt * I + S * I})
    (\<lambda>m. Inr (memcpy (out_addr base y + ((i * rt + r) * (T * I) + cnt * I) * elem_size y) (elem_addr base x [0, i, 0, 0])
      (S * I * elem_size y) m))"
  unfolding elems_cells [OF elem_size_bounds(1)]
proof (rule moves_block [OF elem_size_bounds(1)])
  note h = fitsD [OF f]
  let ?q = "i * rt + r"
  have "i * rt + r < H * rt" "0 \<le> i * rt" using block_le [OF i(1,2), of rt] i h(6) by simp_all
  then have "?q \<in> set [0..H * rt - 1]" using i by simp
  then have "{?q * (T * I) + cnt * I ..< ?q * (T * I) + cnt * I + S * I} \<subseteq> band (H * rt) T I cnt (cnt + S)"
    using band_slices [OF h(11), where P = "H * rt" and T = T and lo = cnt and c = S] by blast
  from subset_trans [OF elems_mono [OF this] D]
  show "cells (out_addr base y) (elem_size y) (?q * (T * I) + cnt * I) (S * I) \<subseteq> D"
    unfolding elems_cells [OF elem_size_bounds(1)] .
  fix t assume t: "0 \<le> t" "t < S * I"
  have td: "0 \<le> t div I" "t div I < S" "0 \<le> t mod I" "t mod I < I" using t h(11) by (simp_all add: int_div_less pos_imp_zdiv_nonneg_iff)
  have "?q * (T * I) + cnt * I + t = at3 T I ?q (cnt + t div I) (t mod I)"
    using div_mult_mod_eq [of t I] by (simp add: at3_def algebra_simps)
  moreover have "?q div rt = i" using i by (simp add: div_add1_eq)
  ultimately have s: "row_src base x rt T I cnt (?q * (T * I) + cnt * I + t) = bytes_from (elem_addr base x [0, i, t div I, t mod I])"
    using row_src_at [of I "cnt + t div I" T "t mod I"] td h(7,8,11) by simp
  obtain a b where st: "v_stride x = [a, b, I, 1]" using h(16) by blast
  have "elem_addr base x [0, i, t div I, t mod I] = elem_addr base x [0, i, 0, 0] + t * elem_size y"
    using div_mult_mod_eq [of t I] by (simp add: elem_addr_def st h(5) distrib_right [symmetric] del: div_mult_mod_eq)
  with s show "row_src base x rt T I cnt (?q * (T * I) + cnt * I + t) = bytes_from (elem_addr base x [0, i, 0, 0] + t * elem_size y)"
    by simp
qed simp_all

subsection \<open>Writing keys and values\<close>

text \<open>Keys and values go to two tensors; the source of an address depends on the tensor it lies in.\<close>

definition both_src ::
  "(nat \<Rightarrow> int) \<Rightarrow> view \<Rightarrow> source \<Rightarrow> source \<Rightarrow> source" where
  "both_src base kc Fk Fv a = (if a \<in> footprint base kc then Fk a else Fv a)"

lemma moves_source_cong:
  "moves m0 D F A p \<Longrightarrow> (\<And>a. a \<in> A \<Longrightarrow> F a = F' a) \<Longrightarrow> moves m0 D F' A p"
  unfolding moves_def moved_def by metis

lemma apart_sources:
  assumes "\<And>a. a \<in> D \<Longrightarrow> \<exists>c. c \<notin> D \<and> F a = (\<lambda>m. m c)"
  shows "apart F D"
  unfolding apart_def agree_def using assms by metis

definition kv_fits ::
  "(nat \<Rightarrow> int) \<Rightarrow> view \<Rightarrow> view \<Rightarrow> view \<Rightarrow> view \<Rightarrow> int \<Rightarrow> int \<Rightarrow> int \<Rightarrow> int \<Rightarrow> int \<Rightarrow> int \<Rightarrow> bool" where
  "kv_fits base kc vc k v H rt T I S cnt \<longleftrightarrow> fits base kc k H rt T I S cnt \<and> fits base vc v H rt T I S cnt \<and>
     footprint base kc \<inter> footprint base vc = {} \<and>
     (footprint base k \<union> footprint base v) \<inter> (footprint base kc \<union> footprint base vc) = {}"

definition kv_src ::
  "(nat \<Rightarrow> int) \<Rightarrow> view \<Rightarrow> view \<Rightarrow> view \<Rightarrow> view \<Rightarrow> int \<Rightarrow> int \<Rightarrow> int \<Rightarrow> int \<Rightarrow> source" where
  "kv_src base kc vc k v rt T I cnt =
     both_src base kc (elem_src (out_addr base kc) (elem_size kc) (row_src base k rt T I cnt))
       (elem_src (out_addr base vc) (elem_size vc) (row_src base v rt T I cnt))"

definition kv_dest ::
  "(nat \<Rightarrow> int) \<Rightarrow> view \<Rightarrow> view \<Rightarrow> int \<Rightarrow> int \<Rightarrow> int \<Rightarrow> int \<Rightarrow> int \<Rightarrow> int set" where
  "kv_dest base kc vc P T I S cnt =
     elems (out_addr base kc) (elem_size kc) (band P T I cnt (cnt + S)) \<union>
     elems (out_addr base vc) (elem_size vc) (band P T I cnt (cnt + S))"

lemma kv_dest_footprints:
  assumes "kv_fits base kc vc k v H rt T I S cnt"
  shows "elems (out_addr base kc) (elem_size kc) (band (H * rt) T I cnt (cnt + S)) \<subseteq> footprint base kc"
    "elems (out_addr base vc) (elem_size vc) (band (H * rt) T I cnt (cnt + S)) \<subseteq> footprint base vc"
proof -
  have h: "fits base kc k H rt T I S cnt" "fits base vc v H rt T I S cnt" using assms by (simp_all add: kv_fits_def)
  from band_in_cache [OF h(1)] band_in_cache [OF h(2)] fitsD(7,8) [OF h(1)]
  show "elems (out_addr base kc) (elem_size kc) (band (H * rt) T I cnt (cnt + S)) \<subseteq> footprint base kc"
    "elems (out_addr base vc) (elem_size vc) (band (H * rt) T I cnt (cnt + S)) \<subseteq> footprint base vc" by simp_all
qed

lemma kv_apart:
  assumes f: "kv_fits base kc vc k v H rt T I S cnt"
  shows "apart (kv_src base kc vc k v rt T I cnt) (kv_dest base kc vc (H * rt) T I S cnt)"
proof (rule apart_sources)
  note fp = kv_dest_footprints [OF f]
  have h: "fits base kc k H rt T I S cnt" "fits base vc v H rt T I S cnt" "footprint base kc \<inter> footprint base vc = {}"
    "(footprint base k \<union> footprint base v) \<inter> (footprint base kc \<union> footprint base vc) = {}"
    using f by (simp_all add: kv_fits_def)
  have out: "c \<notin> kv_dest base kc vc (H * rt) T I S cnt" if "c \<in> footprint base k \<union> footprint base v" for c
    using that fp h(4) unfolding kv_dest_def by blast
  fix a assume "a \<in> kv_dest base kc vc (H * rt) T I S cnt"
  then consider (k) "a \<in> elems (out_addr base kc) (elem_size kc) (band (H * rt) T I cnt (cnt + S))"
    | (v) "a \<in> elems (out_addr base vc) (elem_size vc) (band (H * rt) T I cnt (cnt + S))"
    by (auto simp: kv_dest_def)
  then show "\<exists>c. c \<notin> kv_dest base kc vc (H * rt) T I S cnt \<and> kv_src base kc vc k v rt T I cnt a = (\<lambda>m. m c)"
  proof cases
    case k
    then have "a \<in> footprint base kc" using fp by blast
    with band_source [OF h(1) k] out show ?thesis by (auto simp: kv_src_def both_src_def)
  next
    case v
    then have "a \<notin> footprint base kc" using fp h(3) by blast
    with band_source [OF h(2) v] out show ?thesis by (auto simp: kv_src_def both_src_def)
  qed
qed

lemma head_blocks:
  assumes "0 < (rt :: int)"
  shows "(\<Union>i \<in> set [0..H - 1]. \<Union>r \<in> set [0..rt - 1]. f (i * rt + r)) = (\<Union>u \<in> set [0..H * rt - 1]. f u)"
proof (intro set_eqI iffI)
  fix a assume "a \<in> (\<Union>u \<in> set [0..H * rt - 1]. f u)"
  then obtain u where u: "0 \<le> u" "u < H * rt" "a \<in> f u" by auto
  have "0 \<le> u div rt" "u div rt < H" "0 \<le> u mod rt" "u mod rt < rt" "u div rt * rt + u mod rt = u"
    using u assms by (simp_all add: int_div_less pos_imp_zdiv_nonneg_iff)
  with u(3) show "a \<in> (\<Union>i \<in> set [0..H - 1]. \<Union>r \<in> set [0..rt - 1]. f (i * rt + r))"
    by (intro UN_I [of "u div rt"] UN_I [of "u mod rt"]) simp_all
next
  fix a assume "a \<in> (\<Union>i \<in> set [0..H - 1]. \<Union>r \<in> set [0..rt - 1]. f (i * rt + r))"
  then obtain i r where i: "0 \<le> i" "i < H" "0 \<le> r" "r < rt" "a \<in> f (i * rt + r)" by auto
  then have "0 \<le> i * rt" "i * rt + r < H * rt" using block_le [OF i(1,2), of rt] assms by simp_all
  with i show "a \<in> (\<Union>u \<in> set [0..H * rt - 1]. f u)" by (intro UN_I [of "i * rt + r"]) simp_all
qed

lemma copy_head_moves:
  assumes f: "kv_fits base kc vc k v H rt T I S cnt" and i: "0 \<le> i" "i < H" "0 \<le> r" "r < rt"
    and c: "kc_dims c = I" "kc_k_dtype c = v_dtype kc" "kc_v_dtype c = v_dtype vc"
  shows "moves m0 (kv_dest base kc vc (H * rt) T I S cnt) (kv_src base kc vc k v rt T I cnt)
    (elems (out_addr base kc) (elem_size kc)
       {(i * rt + r) * (T * I) + cnt * I ..< (i * rt + r) * (T * I) + cnt * I + S * I} \<union>
     elems (out_addr base vc) (elem_size vc)
       {(i * rt + r) * (T * I) + cnt * I ..< (i * rt + r) * (T * I) + cnt * I + S * I})
    (copy_head base c kc vc cnt k v S rt i r)"
    (is "moves m0 ?D ?F (?Ak \<union> ?Av) _")
proof -
  note fp = kv_dest_footprints [OF f]
  have h: "fits base kc k H rt T I S cnt" "fits base vc v H rt T I S cnt" "footprint base kc \<inter> footprint base vc = {}"
    using f by (simp_all add: kv_fits_def)
  let ?kp = "out_addr base kc + ((i * rt + r) * (T * I) + cnt * I) * elem_size kc"
  let ?vp = "out_addr base vc + ((i * rt + r) * (T * I) + cnt * I) * elem_size vc"
  let ?pk = "\<lambda>m. Inr (memcpy ?kp (elem_addr base k [0, i, 0, 0]) (S * I * elem_size kc) m)"
  let ?pv = "\<lambda>m. Inr (memcpy ?vp (elem_addr base v [0, i, 0, 0]) (S * I * elem_size vc) m)"
  have sub: "{(i * rt + r) * (T * I) + cnt * I ..< (i * rt + r) * (T * I) + cnt * I + S * I} \<subseteq> band (H * rt) T I cnt (cnt + S)"
  proof -
    have "i * rt + r < H * rt" "0 \<le> i * rt" using block_le [OF i(1,2), of rt] i fitsD(6) [OF h(1)] by simp_all
    then have "i * rt + r \<in> set [0..H * rt - 1]" using i by simp
    then show ?thesis
      using band_slices [OF fitsD(11) [OF h(1)], where P = "H * rt" and T = T and lo = cnt and c = S] by blast
  qed
  have mk: "moves m0 ?D (elem_src (out_addr base kc) (elem_size kc) (row_src base k rt T I cnt)) ?Ak ?pk"
    by (rule head_moves [OF h(1) i]) (simp add: kv_dest_def)
  have ink: "a \<in> footprint base kc" if "a \<in> ?Ak" for a using that elems_mono [OF sub] fp(1) by blast
  have k: "moves m0 ?D ?F ?Ak ?pk"
    by (rule moves_source_cong [OF mk]) (use ink in \<open>simp add: kv_src_def both_src_def\<close>)
  have mv: "moves m0 ?D (elem_src (out_addr base vc) (elem_size vc) (row_src base v rt T I cnt)) ?Av ?pv"
    by (rule head_moves [OF h(2) i]) (simp add: kv_dest_def)
  have inv: "a \<notin> footprint base kc" if "a \<in> ?Av" for a using that elems_mono [OF sub] fp(2) h(3) by blast
  have v: "moves m0 ?D ?F ?Av ?pv"
    by (rule moves_source_cong [OF mv]) (use inv in \<open>simp add: kv_src_def both_src_def\<close>)
  have SI: "0 \<le> S * I" "S * I < 2 ^ 31" using fitsD(10,11,14) [OF h(1)] by simp_all
  have "row_bytes (v_dtype y) (S * I) = S * I * elem_size y" if "packed y" for y
    using bytes_small(1) [OF SI, of y] SI that
    by (simp add: row_bytes_def packed_def elem_size_def u64_id)
  then have rb: "row_bytes (v_dtype kc) (S * I) = S * I * elem_size kc" "row_bytes (v_dtype vc) (S * I) = S * I * elem_size vc"
    using fitsD(1) [OF h(1)] fitsD(1) [OF h(2)] by simp_all
  have "i32 (S * I) = Inr (S * I)" using SI by (simp add: i32_def)
  then have "copy_head base c kc vc cnt k v S rt i r = (\<lambda>m. obind (?pk m) ?pv)"
    by (simp add: fun_eq_iff copy_head_def head_pointers [OF h(1) i] head_pointers [OF h(2) i] c rb)
  with moves_seq [OF k v kv_apart [OF f]] show ?thesis by simp
qed

lemma copy_heads_moves:
  assumes f: "kv_fits base kc vc k v H rt T I S cnt"
    and c: "kc_dims c = I" "kc_k_dtype c = v_dtype kc" "kc_v_dtype c = v_dtype vc" "kc_device c = kCPU"
      "kc_kv_heads c = H" "kc_q_heads c = H * rt"
  shows "moves m0 (kv_dest base kc vc (H * rt) T I S cnt) (kv_src base kc vc k v rt T I cnt)
    (kv_dest base kc vc (H * rt) T I S cnt) (copy_heads base copy2 c kc vc cnt k v S)"
proof -
  let ?D = "kv_dest base kc vc (H * rt) T I S cnt" and ?F = "kv_src base kc vc k v rt T I cnt"
  let ?A = "\<lambda>u. elems (out_addr base kc) (elem_size kc) {u * (T * I) + cnt * I ..< u * (T * I) + cnt * I + S * I} \<union>
     elems (out_addr base vc) (elem_size vc) {u * (T * I) + cnt * I ..< u * (T * I) + cnt * I + S * I}"
  have h: "fits base kc k H rt T I S cnt" using f by (simp add: kv_fits_def)
  note fk = fitsD [OF h]
  have "(H * rt) sdiv H = rt"
  proof -
    have "(H * rt) sdiv H = (H * rt) div H" by (rule sdiv_nonneg) (use fk in simp_all)
    then show ?thesis using fk by simp
  qed
  then have run: "copy_heads base copy2 c kc vc cnt k v S =
      ofold (\<lambda>i. ofold (copy_head base c kc vc cnt k v S rt i) [0..rt - 1]) [0..H - 1]"
    using fk c by (simp add: fun_eq_iff copy_heads_def Let_def)
  have "moves m0 ?D ?F (\<Union>i \<in> set [0..H - 1]. \<Union>r \<in> set [0..rt - 1]. ?A (i * rt + r))
      (ofold (\<lambda>i. ofold (copy_head base c kc vc cnt k v S rt i) [0..rt - 1]) [0..H - 1])"
    by (intro moves_ofold kv_apart [OF f] copy_head_moves [OF f _ _ _ _ c(1-3)]) simp_all
  moreover have "(\<Union>i \<in> set [0..H - 1]. \<Union>r \<in> set [0..rt - 1]. ?A (i * rt + r)) = ?D"
  proof -
    have "(\<Union>i \<in> set [0..H - 1]. \<Union>r \<in> set [0..rt - 1]. ?A (i * rt + r)) = (\<Union>u \<in> set [0..H * rt - 1]. ?A u)"
      by (rule head_blocks [OF fk(6)])
    also have "\<dots> = ?D"
      unfolding UN_Un_distrib elems_UN band_slices [OF fk(11)] kv_dest_def ..
    finally show ?thesis .
  qed
  ultimately show ?thesis by (simp only: run)
qed

subsection \<open>What an update leaves in memory\<close>

lemma at3_band:
  assumes "0 \<le> q" "q < P" "0 \<le> t" "t < T" "0 \<le> d" "d < I" "0 \<le> lo" "hi \<le> T"
  shows "at3 T I q t d \<in> band P T I lo hi \<longleftrightarrow> lo \<le> t \<and> t < hi"
proof
  assume "at3 T I q t d \<in> band P T I lo hi"
  then obtain u i b where j: "at3 T I q t d = at3 T I u i b" "lo \<le> i" "i < hi" "0 \<le> b" "b < I"
    by (auto simp: band_def)
  have "t = at3 T I q t d div I mod T" using at3_parts(2) [of t T d I q] assms by simp
  also have "\<dots> = i" unfolding j(1) using at3_parts(2) [of i T b I u] j assms by simp
  finally show "lo \<le> t \<and> t < hi" using j by simp
qed (use assms in \<open>auto simp: band_def\<close>)

lemma written_element:
  assumes f: "fits base y x H rt T I S cnt" and r: "in_range [0, q, t, d] (v_shape y)"
    and mv: "\<And>a. a \<in> footprint base y \<Longrightarrow>
      m' a = (if a \<in> elems (out_addr base y) (elem_size y) (band (H * rt) T I cnt (cnt + S))
              then elem_src (out_addr base y) (elem_size y) (row_src base x rt T I cnt) a m else m a)"
  shows "elem base m' y [0, q, t, d] =
    (if cnt \<le> t \<and> t < cnt + S then elem base m x [0, q div rt, t - cnt, d] else elem base m y [0, q, t, d])"
proof -
  note h = fitsD [OF f]
  have g: "0 \<le> q" "q < H * rt" "0 \<le> t" "t < T" "0 \<le> d" "d < I" using r h(2) by simp_all
  let ?j = "at3 T I q t d" and ?es = "elem_size y"
  have ad: "elem_addr base y [0, q, t, d] = out_addr base y + ?j * ?es"
    by (simp add: packed_addr [OF h(1)] h(2) at3_def algebra_simps)
  have inb: "elem_addr base y [0, q, t, d] + b \<in> elems (out_addr base y) ?es (band (H * rt) T I cnt (cnt + S)) \<longleftrightarrow>
      cnt \<le> t \<and> t < cnt + S" if b: "0 \<le> b" "b < ?es" for b
  proof -
    have "(elem_addr base y [0, q, t, d] + b - out_addr base y) div ?es = ?j" using b by (simp add: ad div_add1_eq)
    then show ?thesis
      using mem_elems [OF elem_size_bounds(1), of "elem_addr base y [0, q, t, d] + b" "out_addr base y" y]
        at3_band [OF g, of cnt "cnt + S"] h(7,8) by simp
  qed
  have fpr: "elem_addr base y [0, q, t, d] + b \<in> footprint base y" if "0 \<le> b" "b < ?es" for b
    by (rule elem_in_footprint [OF packed_ok [OF h(1)] r that])
  have dt: "bytesOfType (v_dtype x) = bytesOfType (v_dtype y)" by (simp add: h(15))
  show ?thesis
  proof (cases "cnt \<le> t \<and> t < cnt + S")
    case True
    have "q div rt < H" "0 \<le> q div rt" using g h(6) by (simp_all add: int_div_less pos_imp_zdiv_nonneg_iff)
    then have rx: "in_range [0, q div rt, t - cnt, d] (v_shape x)" using True g h(4) by simp
    have "m' (elem_addr base y [0, q, t, d] + int b) = m (elem_addr base x [0, q div rt, t - cnt, d] + int b)"
      if "b < bytesOfType (v_dtype y)" for b
    proof -
      have b: "0 \<le> int b" "int b < ?es" using that by (simp_all add: elem_size_def)
      have "m' (elem_addr base y [0, q, t, d] + int b) =
          elem_src (out_addr base y) ?es (row_src base x rt T I cnt) (out_addr base y + ?j * ?es + int b) m"
        using mv [OF fpr [OF b]] inb [OF b] True by (simp add: ad)
      also have "\<dots> = row_src base x rt T I cnt ?j (int b) m" by (simp add: elem_src_at [OF b])
      finally show ?thesis using row_src_at [of I t T d base x rt cnt q] g h(11) by (simp add: bytes_from_def)
    qed
    with True show ?thesis by (simp add: elem_eq [OF packed_ok [OF h(1)] r] elem_eq [OF h(3) rx] dt)
  next
    case False
    have "m' (elem_addr base y [0, q, t, d] + int b) = m (elem_addr base y [0, q, t, d] + int b)"
      if "b < bytesOfType (v_dtype y)" for b
      using mv [OF fpr [of "int b"]] inb [of "int b"] False that by (simp add: elem_size_def)
    with False show ?thesis by (simp only: elem_eq [OF packed_ok [OF h(1)] r] if_False) simp
  qed
qed

lemma kv_written:
  assumes f: "kv_fits base kc vc k v H rt T I S cnt"
    and mv: "moved (kv_src base kc vc k v rt T I cnt) (kv_dest base kc vc (H * rt) T I S cnt) m m'"
    and r: "in_range [0, q, t, d] [1, H * rt, T, I]"
  shows "elem base m' kc [0, q, t, d] =
      (if cnt \<le> t \<and> t < cnt + S then elem base m k [0, q div rt, t - cnt, d] else elem base m kc [0, q, t, d])"
    "elem base m' vc [0, q, t, d] =
      (if cnt \<le> t \<and> t < cnt + S then elem base m v [0, q div rt, t - cnt, d] else elem base m vc [0, q, t, d])"
proof -
  note fp = kv_dest_footprints [OF f]
  have h: "fits base kc k H rt T I S cnt" "fits base vc v H rt T I S cnt" "footprint base kc \<inter> footprint base vc = {}"
    using f by (simp_all add: kv_fits_def)
  have m': "m' a = (if a \<in> kv_dest base kc vc (H * rt) T I S cnt then kv_src base kc vc k v rt T I cnt a m else m a)" for a
    using mv by (simp add: moved_def)
  show "elem base m' kc [0, q, t, d] =
      (if cnt \<le> t \<and> t < cnt + S then elem base m k [0, q div rt, t - cnt, d] else elem base m kc [0, q, t, d])"
  proof (rule written_element [OF h(1)])
    fix a assume a: "a \<in> footprint base kc"
    then have "a \<notin> elems (out_addr base vc) (elem_size vc) (band (H * rt) T I cnt (cnt + S))" using fp h(3) by blast
    then show "m' a = (if a \<in> elems (out_addr base kc) (elem_size kc) (band (H * rt) T I cnt (cnt + S))
        then elem_src (out_addr base kc) (elem_size kc) (row_src base k rt T I cnt) a m else m a)"
      using a by (simp add: m' kv_dest_def kv_src_def both_src_def)
  qed (use r fitsD(2) [OF h(1)] in simp)
  show "elem base m' vc [0, q, t, d] =
      (if cnt \<le> t \<and> t < cnt + S then elem base m v [0, q div rt, t - cnt, d] else elem base m vc [0, q, t, d])"
  proof (rule written_element [OF h(2)])
    fix a assume a: "a \<in> footprint base vc"
    then have "a \<notin> elems (out_addr base kc) (elem_size kc) (band (H * rt) T I cnt (cnt + S))" "a \<notin> footprint base kc"
      using fp h(3) by blast+
    then show "m' a = (if a \<in> elems (out_addr base vc) (elem_size vc) (band (H * rt) T I cnt (cnt + S))
        then elem_src (out_addr base vc) (elem_size vc) (row_src base v rt T I cnt) a m else m a)"
      by (simp add: m' kv_dest_def kv_src_def both_src_def)
  qed (use r fitsD(2) [OF h(2)] in simp)
qed

subsection \<open>The log of a cache\<close>

text \<open>
  What a cache promises: a list of tokens that only grows. A token is, for each of the \<open>P\<close> heads of the queries, the
  elements of its row; head \<open>q\<close> is found at head \<open>q div rt\<close> of the tensor.
\<close>

definition token :: "(nat \<Rightarrow> int) \<Rightarrow> memory \<Rightarrow> view \<Rightarrow> int \<Rightarrow> int \<Rightarrow> int \<Rightarrow> int \<Rightarrow> 8 word list outcome list list" where
  "token base m x rt P I t = map (\<lambda>q. map (\<lambda>d. elem base m x [0, q div rt, t, d]) [0..I - 1]) [0..P - 1]"

definition tokens :: "(nat \<Rightarrow> int) \<Rightarrow> memory \<Rightarrow> view \<Rightarrow> int \<Rightarrow> int \<Rightarrow> int \<Rightarrow> int \<Rightarrow> 8 word list outcome list list list" where
  "tokens base m x rt P I n = map (token base m x rt P I) [0..n - 1]"

lemma token_eqI:
  assumes "\<And>q d. 0 \<le> q \<Longrightarrow> q < P \<Longrightarrow> 0 \<le> d \<Longrightarrow> d < I \<Longrightarrow>
    elem base m x [0, q div rt, t, d] = elem base m' x' [0, q div rt', t', d]"
  shows "token base m x rt P I t = token base m' x' rt' P I t'"
  using assms by (simp add: token_def)

lemma upto_append: "0 \<le> (a :: int) \<Longrightarrow> 0 \<le> b \<Longrightarrow> [0..a + b - 1] = [0..a - 1] @ map ((+) a) [0..b - 1]"
proof -
  assume ab: "0 \<le> a" "0 \<le> b"
  have "[0..a + b - 1] = [0..a - 1] @ [a..a + b - 1]"
    using ab upto_split2 [of 0 "a - 1" "a + b - 1"] by (cases "a = 0") simp_all
  moreover have "map ((+) a) [0..b - 1] = [a..a + b - 1]"
    by (rule nth_equalityI) (use ab in \<open>simp_all add: nth_upto\<close>)
  ultimately show ?thesis by simp
qed

lemma tokens_append:
  assumes "0 \<le> a" "0 \<le> b"
    and "\<And>t. 0 \<le> t \<Longrightarrow> t < a \<Longrightarrow> token base m' y 1 P I t = token base m x rt P I t"
    and "\<And>t. 0 \<le> t \<Longrightarrow> t < b \<Longrightarrow> token base m' y 1 P I (a + t) = token base m x' rt' P I t"
  shows "tokens base m' y 1 P I (a + b) = tokens base m x rt P I a @ tokens base m x' rt' P I b"
  using assms by (simp add: tokens_def upto_append)

lemma kv_tokens:
  assumes f: "kv_fits base kc vc k v H rt T I S cnt"
    and mv: "moved (kv_src base kc vc k v rt T I cnt) (kv_dest base kc vc (H * rt) T I S cnt) m m'"
  shows "tokens base m' kc 1 (H * rt) I (cnt + S) = tokens base m kc 1 (H * rt) I cnt @ tokens base m k rt (H * rt) I S"
    "tokens base m' vc 1 (H * rt) I (cnt + S) = tokens base m vc 1 (H * rt) I cnt @ tokens base m v rt (H * rt) I S"
proof -
  have h: "fits base kc k H rt T I S cnt" using f by (simp add: kv_fits_def)
  note hd = fitsD [OF h]
  note w = kv_written [OF f mv]
  show "tokens base m' kc 1 (H * rt) I (cnt + S) = tokens base m kc 1 (H * rt) I cnt @ tokens base m k rt (H * rt) I S"
    by (rule tokens_append; (rule token_eqI)?) (use w(1) hd(7,8,10) in auto)
  show "tokens base m' vc 1 (H * rt) I (cnt + S) = tokens base m vc 1 (H * rt) I cnt @ tokens base m v rt (H * rt) I S"
    by (rule tokens_append; (rule token_eqI)?) (use w(2) hd(7,8,10) in auto)
qed

subsection \<open>Updating a layer\<close>

text \<open>The result of an update: the first \<open>n\<close> rows of every head of the cache.\<close>

definition first_rows :: "int \<Rightarrow> view \<Rightarrow> view" where
  "first_rows n y = y\<lparr>v_shape := (v_shape y)[2 := n]\<rparr>"

lemma slice_whole:
  assumes "0 < d" "d < kAll" "0 \<le> s" "s < 2 ^ 31"
  shows "slice_dims ((d, s, all_of) # ds) 0 = obind (slice_dims ds 0) (\<lambda>(a, r). Inr (a, (d, s) # r))"
  using assms by (simp add: slice_normalise_def slice_count_def all_of_def kAll_def i32_def sdiv_nonneg)

lemma slice_prefix:
  assumes "0 < n" "n < kAll" "0 \<le> s" "s < 2 ^ 31"
  shows "slice_dims ((d, s, range_of kAll n) # ds) 0 = obind (slice_dims ds 0) (\<lambda>(a, r). Inr (a, (n, s) # r))"
  using assms by (simp add: slice_normalise_def slice_count_def range_of_def kAll_def i32_def sdiv_nonneg)

lemma filled_rows:
  assumes y: "packed y" "v_shape y = [1, P, T, I]" "v_offset y = 0" and lt: "P * (T * I) < kAll" and n: "0 < n" "n \<le> T"
  shows "filled False n (Some y) = Inr (Some (first_rows n y))"
proof -
  have "shape_ok [1, P, T, I]" using packed_shape [OF y(1)] y(2) by simp
  then have pos: "0 < P" "0 < T" "0 < I" by (simp_all add: shape_ok_def)
  then have TI: "0 < T * I" by simp
  have "1 * (T * I) \<le> P * (T * I)" "P * 1 \<le> P * (T * I)" "1 * I \<le> T * I" "T * 1 \<le> T * I"
    by (rule mult_right_mono mult_left_mono; use pos TI in linarith)+
  then have b: "P < kAll" "T < kAll" "I < kAll" "T * I < kAll" "n < kAll" using lt n by linarith+
  have k: "kAll < 2 ^ 31" "1 < kAll" by (simp_all add: kAll_def)
  have z: "0 \<le> P * (T * I)" "0 \<le> T * I" "0 \<le> I" using TI pos by simp_all
  have w: "P * (T * I) < 2 ^ 31" "T * I < 2 ^ 31" "I < 2 ^ 31" using lt b k by linarith+
  have st: "v_stride y = [P * (T * I), T * I, I, 1]" using y by (simp add: packed_def)
  have d: "slice_dims [(1, P * (T * I), all_of), (P, T * I, all_of), (T, I, range_of kAll n), (I, 1, all_of)] 0 =
      Inr (0, [(1, P * (T * I)), (P, T * I), (n, I), (I, 1)])"
    using b k lt pos n z w by (simp add: slice_whole slice_prefix del: slice_dims.simps(2))
  show ?thesis
    using d y(2,3) st
    by (simp add: filled_def subscript_def SliceOp_reshape_def impl_def rt_assert_def view_create_strided_def
        max_rank_def first_rows_def)
qed

text \<open>A layer of a cache in eager mode on the CPU, with \<open>kc\<close> and \<open>vc\<close> the tensors of the layer.\<close>

definition layer_ok :: "(nat \<Rightarrow> int) \<Rightarrow> kv_cache \<Rightarrow> int \<Rightarrow> view \<Rightarrow> view \<Rightarrow> bool" where
  "layer_ok base c l kc vc \<longleftrightarrow> \<not> kc_fa2 c \<and> kc_device c = kCPU \<and> 0 < kc_kv_heads c \<and> 0 < kc_q_heads c \<and>
     kc_kv_heads c dvd kc_q_heads c \<and> vec_at (kc_k c) l = Inr (Some kc) \<and> vec_at (kc_v c) l = Inr (Some vc) \<and>
     0 \<le> l \<and> l < int (length (kc_cnt c)) \<and> 0 \<le> kc_cnt c ! nat l \<and> kc_cnt c ! nat l \<le> kc_max c \<and>
     packed kc \<and> v_shape kc = [1, kc_q_heads c, kc_max c, kc_dims c] \<and> v_offset kc = 0 \<and> v_dtype kc = kc_k_dtype c \<and>
     packed vc \<and> v_shape vc = [1, kc_q_heads c, kc_max c, kc_dims c] \<and> v_offset vc = 0 \<and> v_dtype vc = kc_v_dtype c \<and>
     kc_q_heads c * (kc_max c * kc_dims c) < kAll \<and> footprint base kc \<inter> footprint base vc = {}"

text \<open>An input: \<open>n\<close> rows of every head, one behind the other, outside of the cache.\<close>

definition input_ok :: "(nat \<Rightarrow> int) \<Rightarrow> kv_cache \<Rightarrow> view \<Rightarrow> view \<Rightarrow> dtype \<Rightarrow> int \<Rightarrow> view \<Rightarrow> bool" where
  "input_ok base c kc vc dt n x \<longleftrightarrow> view_ok x \<and> v_shape x = [1, kc_kv_heads c, n, kc_dims c] \<and>
     drop 2 (v_stride x) = [kc_dims c, 1] \<and> v_dtype x = dt \<and>
     footprint base x \<inter> (footprint base kc \<union> footprint base vc) = {}"

abbreviation group_size :: "kv_cache \<Rightarrow> int" where
  "group_size c \<equiv> kc_q_heads c div kc_kv_heads c"

lemma update_fits:
  assumes c: "layer_ok base c l kc vc" and k: "input_ok base c kc vc (kc_k_dtype c) n k"
    and v: "input_ok base c kc vc (kc_v_dtype c) n v" and cap: "kc_cnt c ! nat l + n \<le> kc_max c"
  shows "kv_fits base kc vc k v (kc_kv_heads c) (group_size c) (kc_max c) (kc_dims c) n (kc_cnt c ! nat l)"
    "kc_q_heads c = kc_kv_heads c * group_size c"
proof -
  show q: "kc_q_heads c = kc_kv_heads c * group_size c" using c by (simp add: layer_ok_def)
  have "0 < group_size c" using c by (simp add: layer_ok_def zdvd_imp_le pos_imp_zdiv_pos_iff)
  then show "kv_fits base kc vc k v (kc_kv_heads c) (group_size c) (kc_max c) (kc_dims c) n (kc_cnt c ! nat l)"
    using c k v cap q unfolding kv_fits_def fits_def layer_ok_def input_ok_def by auto
qed

lemma updateKVCache_run:
  assumes c: "layer_ok base c l kc vc" and k: "input_ok base c kc vc (kc_k_dtype c) n k"
    and v: "input_ok base c kc vc (kc_v_dtype c) n v" and cap: "kc_cnt c ! nat l + n \<le> kc_max c"
  defines "cnt \<equiv> kc_cnt c ! nat l" and "c' \<equiv> c\<lparr>kc_cnt := (kc_cnt c)[nat l := kc_cnt c ! nat l + n]\<rparr>"
  shows "\<exists>m'. updateKVCache base copy2 c l (Some k) (Some v) m =
      Inr ([Some (first_rows (cnt + n) kc), Some (first_rows (cnt + n) vc)], c', m') \<and>
    moved (kv_src base kc vc k v (group_size c) (kc_max c) (kc_dims c) cnt)
      (kv_dest base kc vc (kc_q_heads c) (kc_max c) (kc_dims c) n cnt) m m' \<and> layer_ok base c' l kc vc"
proof -
  note uf = update_fits [OF c k v cap]
  have f: "fits base kc k (kc_kv_heads c) (group_size c) (kc_max c) (kc_dims c) n cnt"
    using uf(1) by (simp add: kv_fits_def cnt_def)
  note fd = fitsD [OF f]
  have L: "kc_device c = kCPU" "kc_k_dtype c = v_dtype kc" "kc_v_dtype c = v_dtype vc" using c by (simp_all add: layer_ok_def)
  obtain m' where m': "copy_heads base copy2 c kc vc cnt k v n m = Inr m'"
    "moved (kv_src base kc vc k v (group_size c) (kc_max c) (kc_dims c) cnt)
      (kv_dest base kc vc (kc_q_heads c) (kc_max c) (kc_dims c) n cnt) m m'"
    using moves_run [OF copy_heads_moves [OF uf(1) refl L(2,3,1) refl uf(2)]] uf(2) by (auto simp: cnt_def)
  have ok': "layer_ok base c' l kc vc"
  proof -
    have "nat l < length (kc_cnt c)" using c by (simp add: layer_ok_def nat_less_iff)
    then show ?thesis using c cap fd(10) by (simp add: layer_ok_def c'_def)
  qed
  have mx: "kc_max c < kAll"
  proof -
    have "1 * (kc_max c * kc_dims c) \<le> kc_q_heads c * (kc_max c * kc_dims c)" "kc_max c * 1 \<le> kc_max c * kc_dims c"
      by (rule mult_right_mono mult_left_mono; use fd c in \<open>simp add: layer_ok_def\<close>)+
    then show ?thesis using c unfolding layer_ok_def by linarith
  qed
  have cnt': "i32 (cnt + n) = Inr (cnt + n)"
    using mx cap fd(7,10) by (simp add: i32_def cnt_def kAll_def)
  have out: "filled False (cnt + n) (Some y) = Inr (Some (first_rows (cnt + n) y))" if "y = kc \<or> y = vc" for y
    by (rule filled_rows [of _ "kc_q_heads c" "kc_max c" "kc_dims c"])
      (use that c cap fd(7,10) in \<open>auto simp: layer_ok_def cnt_def\<close>)
  have lk: "vec_at (kc_k c) l = Inr (Some kc)" "vec_at (kc_v c) l = Inr (Some vc)" "\<not> kc_fa2 c"
    "0 \<le> l" "l < int (length (kc_cnt c))"
    using c by (simp_all add: layer_ok_def)
  then have lc: "vec_at (kc_cnt c) l = Inr cnt" by (simp add: vec_at_def cnt_def)
  have nl: "nat l < length (kc_cnt c)" using lk(4,5) by simp
  have sh: "v_shape k = [1, kc_kv_heads c, n, kc_dims c]" "v_shape v = [1, kc_kv_heads c, n, kc_dims c]"
    using k v by (simp_all add: input_ok_def)
  have at: "vec_at [1, kc_kv_heads c, n, kc_dims c] 1 = Inr (kc_kv_heads c)" "vec_at [1, kc_kv_heads c, n, kc_dims c] 2 = Inr n"
    by (simp_all add: vec_at_def)
  have "getKVCache c' l = Inr [Some (first_rows (cnt + n) kc), Some (first_rows (cnt + n) vc)]"
    using lk nl out by (simp add: getKVCache_def c'_def vec_at_def [of _ l, where xs = "list_update _ _ _"] cnt_def)
  moreover have "vec_set (kc_cnt c) l (cnt + n) = Inr ((kc_cnt c)[nat l := cnt + n])" using lk by (simp add: vec_set_def)
  ultimately have "updateKVCache base copy2 c l (Some k) (Some v) m =
      Inr ([Some (first_rows (cnt + n) kc), Some (first_rows (cnt + n) vc)], c', m')"
    using lk lc m'(1) cnt' by (simp add: updateKVCache_def impl_def sh at rt_assert_def Let_def c'_def cnt_def)
  with m'(2) ok' show ?thesis by blast
qed

end
