(* ===== verification/Kv_Growth.thy ===== *)
theory Kv_Growth
  imports Kv_Cache
begin

subsection \<open>Fresh storages\<close>

text \<open>
  Storages are numbered in the order of their allocation and have their bytes in \<open>arena\<close>s that do not overlap.
  A tensor is \<open>placed\<close> when its storage was allocated before storage \<open>u\<close> and it lies in it.
\<close>

definition arena :: "(nat \<Rightarrow> int) \<Rightarrow> int \<Rightarrow> nat \<Rightarrow> int set" where
  "arena base B u = {base u ..< base u + B}"

definition heap :: "(nat \<Rightarrow> int) \<Rightarrow> int \<Rightarrow> bool" where
  "heap base B \<longleftrightarrow> (\<forall>u w. u \<noteq> w \<longrightarrow> arena base B u \<inter> arena base B w = {})"

definition placed :: "(nat \<Rightarrow> int) \<Rightarrow> int \<Rightarrow> nat \<Rightarrow> view \<Rightarrow> bool" where
  "placed base B u x \<longleftrightarrow> ts_uuid (v_store x) < u \<and> footprint base x \<subseteq> arena base B (ts_uuid (v_store x))"

definition below :: "(nat \<Rightarrow> int) \<Rightarrow> int \<Rightarrow> nat \<Rightarrow> memory \<Rightarrow> memory \<Rightarrow> bool" where
  "below base B u m m' \<longleftrightarrow> (\<forall>w < u. \<forall>a \<in> arena base B w. m' a = m a)"

lemma below_trans: "below base B u m m1 \<Longrightarrow> below base B w m1 m2 \<Longrightarrow> u \<le> w \<Longrightarrow> below base B u m m2"
  unfolding below_def by (metis order_less_le_trans)

lemma placed_mono: "placed base B u x \<Longrightarrow> u \<le> w \<Longrightarrow> placed base B w x"
  by (auto simp: placed_def)

lemma placed_apart:
  assumes "heap base B" "placed base B u x" "placed base B w y" "ts_uuid (v_store x) \<noteq> ts_uuid (v_store y)"
  shows "footprint base x \<inter> footprint base y = {}"
  using assms unfolding heap_def placed_def by blast

text \<open>The tensor that \<^verbatim>\<open>Tensor::empty\<close> makes for shape inference.\<close>

definition fresh_view :: "int list \<Rightarrow> dtype \<Rightarrow> device \<Rightarrow> nat \<Rightarrow> view" where
  "fresh_view shape dt dev u = \<lparr>v_shape = shape, v_stride = rm_strides shape, v_offset = 0,
     v_store = \<lparr>ts_uuid = u, ts_size = u64 (prod_list shape * int (bytesOfType dt)), ts_dtype = dt, ts_device = dev\<rparr>\<rparr>"

lemma fresh_view_simps [simp]:
  "v_shape (fresh_view s dt dev u) = s" "v_stride (fresh_view s dt dev u) = rm_strides s"
  "v_dtype (fresh_view s dt dev u) = dt" "v_device (fresh_view s dt dev u) = dev"
  "ts_uuid (v_store (fresh_view s dt dev u)) = u" "v_offset (fresh_view s dt dev u) = 0"
  by (simp_all add: fresh_view_def v_dtype_def v_device_def)

lemma fresh_view_made:
  "shape_ok s \<Longrightarrow> float_width (v_dtype v) \<noteq> None \<Longrightarrow> one_output s v u = Inr [Some (fresh_view s (v_dtype v) (v_device v) u)]"
  by (simp add: one_output_def tensor_empty_ok float_lanes fresh_view_def)

lemma fresh_view_packed: "shape_ok s \<Longrightarrow> lanesOfType dt = 1 \<Longrightarrow> packed (fresh_view s dt dev u)"
  by (simp add: packed_def)

lemma float_bytes: "float_width dt \<noteq> None \<Longrightarrow> int (bytesOfType dt) \<le> 4"
  using float_width_bytes [of dt] by (auto simp: float_width_def split: if_splits)

lemma fresh_view_placed:
  assumes "shape_ok s" "lanesOfType dt = 1" "prod_list s * int (bytesOfType dt) \<le> B"
  shows "placed base B (Suc u) (fresh_view s dt dev u)"
proof -
  let ?y = "fresh_view s dt dev u"
  have "span ?y = prod_list s" using packed_span [OF fresh_view_packed [OF assms(1,2)]] by simp
  moreover have "out_addr base ?y = base u" by (simp add: out_addr_def barePtr_def byte_offset_def u64_def)
  ultimately have "footprint base ?y = {base u ..< base u + prod_list s * elem_size ?y}" by (simp only: footprint_def)
  with assms(3) show ?thesis by (auto simp: placed_def arena_def elem_size_def)
qed

lemma fresh_below:
  assumes "heap base B" "placed base B (Suc u) y" "ts_uuid (v_store y) = u" "moved F (footprint base y) m m'"
  shows "below base B u m m'"
  unfolding below_def
proof (intro allI impI ballI)
  fix w a assume w: "w < u" "a \<in> arena base B w"
  then have "w \<noteq> u" by simp
  then have "arena base B w \<inter> arena base B u = {}" using assms(1) by (simp add: heap_def)
  moreover have "footprint base y \<subseteq> arena base B u" using assms(2,3) by (simp add: placed_def)
  ultimately have "a \<notin> footprint base y" using w(2) by blast
  then show "m' a = m a" using assms(4) by (simp add: moved_def)
qed

subsection \<open>Repeating the heads and appending rows\<close>

text \<open>A packed tensor of \<open>P\<close> heads with \<open>n\<close> rows of \<open>I\<close> elements.\<close>

definition rows_view :: "(nat \<Rightarrow> int) \<Rightarrow> int \<Rightarrow> nat \<Rightarrow> dtype \<Rightarrow> int \<Rightarrow> int \<Rightarrow> int \<Rightarrow> view \<Rightarrow> bool" where
  "rows_view base B u dt P n I x \<longleftrightarrow> packed x \<and> v_shape x = [1, P, n, I] \<and> v_dtype x = dt \<and> placed base B u x"

lemma rows_view_mono: "rows_view base B u dt P n I x \<Longrightarrow> u \<le> w \<Longrightarrow> rows_view base B w dt P n I x"
  by (auto simp: rows_view_def dest: placed_mono)

lemma rows_view_pos: "rows_view base B u dt P n I x \<Longrightarrow> 0 < P \<and> 0 < n \<and> 0 < I"
  using packed_shape [of x] by (auto simp: rows_view_def shape_ok_def)

lemma rows_view_fresh:
  assumes "0 < P" "0 < n" "0 < I" "P * (n * I) < 2 ^ 31" "P * (n * I) * 4 \<le> B" "float_width dt \<noteq> None"
  shows "rows_view base B (Suc u) dt P n I (fresh_view [1, P, n, I] dt dev u)" "shape_ok [1, P, n, I]"
proof -
  show s: "shape_ok [1, P, n, I]" using assms by (simp add: shape_ok_def max_rank_def)
  have N: "prod_list [1, P, n, I] = P * (n * I)" "0 \<le> P * (n * I)" using assms by simp_all
  have "P * (n * I) * int (bytesOfType dt) \<le> P * (n * I) * 4"
    by (rule mult_left_mono [OF float_bytes [OF assms(6)] N(2)])
  then have "P * (n * I) * int (bytesOfType dt) \<le> B" using assms(5) by linarith
  then show "rows_view base B (Suc u) dt P n I (fresh_view [1, P, n, I] dt dev u)"
    using fresh_view_packed [OF s float_lanes [OF assms(6)]] fresh_view_placed [OF s float_lanes [OF assms(6)]]
    unfolding rows_view_def N by simp
qed

lemma tokens_cong:
  assumes x: "view_ok x" "v_shape x = [1, H, n, I]" and m': "\<And>a. a \<in> footprint base x \<Longrightarrow> m' a = m a"
    and rt: "0 < rt" and N: "N \<le> n"
  shows "tokens base m' x rt (H * rt) I N = tokens base m x rt (H * rt) I N"
proof -
  have "token base m' x rt (H * rt) I t = token base m x rt (H * rt) I t" if t: "t \<in> set [0..N - 1]" for t
  proof (rule token_eqI)
    fix q d assume "0 \<le> q" "q < H * rt" "0 \<le> d" "d < I"
    then have r: "in_range [0, q div rt, t, d] (v_shape x)"
      using t N rt x(2) by (simp add: pos_imp_zdiv_nonneg_iff int_div_less)
    have "m' (elem_addr base x [0, q div rt, t, d] + int k) = m (elem_addr base x [0, q div rt, t, d] + int k)"
      if "k < bytesOfType (v_dtype x)" for k
      using m' elem_in_footprint [OF x(1) r, of "int k" base] that by (simp add: elem_size_def)
    then show "elem base m' x [0, q div rt, t, d] = elem base m x [0, q div rt, t, d]" by (simp add: elem_eq [OF x(1) r])
  qed
  then show ?thesis by (simp add: tokens_def)
qed

lemma tokens_below:
  assumes x: "rows_view base B u dt H n I x" and b: "below base B u m m'" and rt: "0 < rt"
  shows "tokens base m' x rt (H * rt) I n = tokens base m x rt (H * rt) I n"
  by (rule tokens_cong [OF packed_ok, of _ _ n])
    (use x b rt in \<open>auto simp: rows_view_def placed_def below_def\<close>)

lemma repeat_heads:
  assumes x: "rows_view base B u dt H n I x" and h: "heap base B" and dt: "float_width dt \<noteq> None"
    and rt: "0 < rt" and lt: "H * rt * (n * I) < 2 ^ 31" "H * rt * (n * I) * 4 \<le> B"
  shows "\<exists>y m'. tensor_repeat base rt 1 u (Some x) m = Inr (Some y, m') \<and> rows_view base B (Suc u) dt (H * rt) n I y \<and>
    below base B u m m' \<and> tokens base m' y 1 (H * rt) I n = tokens base m x rt (H * rt) I n"
proof (cases "rt = 1")
  case True
  then show ?thesis using rows_view_mono [OF x, of "Suc u"] by (simp add: tensor_repeat_def below_def)
next
  case False
  have s: "packed x" "v_shape x = [1, H, n, I]" "placed base B u x" "v_dtype x = dt" using x by (simp_all add: rows_view_def)
  have p: "0 < H" "0 < n" "0 < I" using rows_view_pos [OF x] by simp_all
  then have P: "0 < H * rt" using rt by simp
  let ?y = "fresh_view [1, H * rt, n, I] dt (v_device x) u"
  note fr = rows_view_fresh [OF P p(2,3) lt dt]
  have y: "rows_view base B (Suc u) dt (H * rt) n I ?y" by (rule fr)
  have nI: "0 < n * I" using p by simp
  have "H * rt * 1 \<le> H * rt * (n * I)" "1 * rt \<le> H * rt" using P p(1) rt nI by (intro mult_left_mono mult_right_mono; simp)+
  then have b: "H * rt < 2 ^ 31" "rt < 2 ^ 31" using lt(1) by linarith+
  have i: "i32 (H * rt) = Inr (H * rt)" by (rule i32_small [of _ "H * rt"]) (use P b in linarith)+
  have r: "RepeatOp_reshape 1 rt u [Some x] = Inr [Some ?y]"
    using fresh_view_made [of "[1, H * rt, n, I]" x u] fr(2) dt
    by (simp add: RepeatOp_reshape_def inp_def impl_def s(2,4) vec_at_def vec_set_def i)
  have "ts_uuid (v_store x) \<noteq> ts_uuid (v_store ?y)" using s(3) by (simp add: placed_def)
  then have ap: "footprint base x \<inter> footprint base ?y = {}"
    using placed_apart [OF h s(3), of "Suc u" ?y] y by (simp add: rows_view_def)
  have ok: "repeat_fits base (1, rt, x, ?y)"
    using s y dt rt ap b(2) by (simp add: repeat_fits_def repeat_ready_def rows_view_def)
  obtain m' where m': "RepeatOp_forward base 1 rt [Some x] [Some ?y] m = Inr m'"
    using repeat_kernel.ends [of base "(1, rt, x, ?y)" m] ok by auto
  have run: "tensor_repeat base rt 1 u (Some x) m = Inr (Some ?y, m')"
    using False by (simp add: tensor_repeat_def impl_def wrap_dim_def r m' vec_at_def)
  have bl: "below base B u m m'"
    by (rule fresh_below [OF h _ _ repeat_kernel.result_moved [of base "(1, rt, x, ?y)" m m', simplified]])
      (use y ok m' in \<open>simp_all add: rows_view_def\<close>)
  have "tokens base m' ?y 1 (H * rt) I n = tokens base m x rt (H * rt) I n"
  proof -
    have "token base m' ?y 1 (H * rt) I t = token base m x rt (H * rt) I t" if t: "t \<in> set [0..n - 1]" for t
    proof (rule token_eqI)
      fix q d assume "0 \<le> q" "q < H * rt" "0 \<le> d" "d < I"
      then have "in_range [0, q, t, d] (v_shape ?y)" using t by simp
      then show "elem base m' ?y [0, q div 1, t, d] = elem base m x [0, q div rt, t, d]"
        using repeat_kernel.copies [of base "(1, rt, x, ?y)" m m' "[0, q, t, d]" x "[0, q div rt, t, d]"] ok m'
        by (simp add: repeat_input_def)
    qed
    then show ?thesis by (simp add: tokens_def)
  qed
  with run y bl show ?thesis by blast
qed


lemma append_rows:
  assumes x: "rows_view base B u dt P a I x" and y: "rows_view base B u dt P b I y" and h: "heap base B"
    and dt: "float_width dt \<noteq> None" and lt: "P * ((a + b) * I) < 2 ^ 31" "P * ((a + b) * I) * 4 \<le> B"
  shows "\<exists>z m'. tensor_concat base [Some x, Some y] 2 u m = Inr (Some z, m') \<and>
    rows_view base B (Suc u) dt P (a + b) I z \<and> below base B u m m' \<and>
    tokens base m' z 1 P I (a + b) = tokens base m x 1 P I a @ tokens base m y 1 P I b"
proof -
  have s: "packed x" "v_shape x = [1, P, a, I]" "placed base B u x" "v_dtype x = dt"
    "packed y" "v_shape y = [1, P, b, I]" "placed base B u y" "v_dtype y = dt"
    using x y by (simp_all add: rows_view_def)
  have p: "0 < P" "0 < a" "0 < b" "0 < I" using rows_view_pos [OF x] rows_view_pos [OF y] by simp_all
  let ?z = "fresh_view [1, P, a + b, I] dt (v_device x) u"
  have ab: "0 < a + b" using p by simp
  note fr = rows_view_fresh [OF p(1) ab p(4) lt dt]
  have z: "rows_view base B (Suc u) dt P (a + b) I ?z" by (rule fr)
  have le: "c \<le> c * I" "c * I \<le> P * (c * I)" if "0 < c" for c :: int
    using that p mult_left_mono [of 1 I c] mult_right_mono [of 1 P "c * I"] by simp_all
  from le_less_trans [OF order_trans [OF le] lt(1)] ab have lab: "a + b < 2 ^ 31" by simp
  have i: "i32 a = Inr a" "i32 (a + b) = Inr (a + b)" by (rule i32_small [of _ "a + b"]; use p lab in linarith)+
  have r: "ConcatOp_reshape 2 u (map Some [x, y]) = Inr [Some ?z]"
    using fresh_view_made [of "[1, P, a + b, I]" x u] fr(2) dt
    by (simp add: ConcatOp_reshape_def impl_def s vec_at_def vec_set_def i wrap_dim_def Let_def eval_nat_numeral upt_conv_Cons)
  have "ts_uuid (v_store x) \<noteq> ts_uuid (v_store ?z)" "ts_uuid (v_store y) \<noteq> ts_uuid (v_store ?z)"
    using s(3,7) by (simp_all add: placed_def)
  then have ap: "footprint base x \<inter> footprint base ?z = {}" "footprint base y \<inter> footprint base ?z = {}"
    using placed_apart [OF h s(3), of "Suc u" ?z] placed_apart [OF h s(7), of "Suc u" ?z] z by (simp_all add: rows_view_def)
  have w: "wrap_dim 2 ds = 2" for ds :: "int list" by (simp add: wrap_dim_def)
  have ok: "concat_ready base (2, [x, y], ?z)"
    by (rule concat_output_ready [OF r])
      (use dt ap s packed_ok [OF s(1)] packed_ok [OF s(5)] fr(2) in \<open>simp_all add: joinable_def w eval_nat_numeral\<close>)
  obtain m' where m': "ConcatOp_forward base 2 (map Some [x, y]) [Some ?z] m = Inr m'"
    using concat_kernel.ends [of base "(2, [x, y], ?z)" m] ok by auto
  have run: "tensor_concat base [Some x, Some y] 2 u m = Inr (Some ?z, m')"
    using r m' by (simp add: tensor_concat_def vec_at_def)
  have bl: "below base B u m m'"
    by (rule fresh_below [OF h _ _ concat_kernel.result_moved [of base "(2, [x, y], ?z)" m m', simplified]])
      (use z ok m' in \<open>simp_all add: rows_view_def\<close>)
  note at = concat_element_at [OF ok m', unfolded w, simplified]
  have "tokens base m' ?z 1 P I (a + b) = tokens base m x 1 P I a @ tokens base m y 1 P I b"
  proof (rule tokens_append)
    show "token base m' ?z 1 P I t = token base m x 1 P I t" if "0 \<le> t" "t < a" for t
      by (rule token_eqI) (use at [of 0 "[0, q]" t "[d]" for q d] that s in simp)
    show "token base m' ?z 1 P I (a + t) = token base m y 1 P I t" if "0 \<le> t" "t < b" for t
      by (rule token_eqI) (use at [of 1 "[0, q]" t "[d]" for q d] that s in simp)
  qed (use p in simp_all)
  with run z bl show ?thesis by blast
qed

end
