(* ===== verification/Kv_Log.thy ===== *)
theory Kv_Log
  imports Kv_Growth
begin

text \<open>
  The caches as logs of tokens. The contract \<open>append_log\<close> has the updates of \<^verbatim>\<open>StaticCache\<close> and
  of \<^verbatim>\<open>DynamicCache\<close> as its instances.
\<close>

subsection \<open>The contract\<close>

text \<open>
  Writers append what they are given, as long as there is room; \<open>content\<close> is what an input holds,
  \<open>seen\<close> what a reader finds in the result of an update.
\<close>

locale append_log =
  fixes ok :: "'s \<Rightarrow> bool"
    and room :: "'s \<Rightarrow> int"
    and accepts :: "'s \<Rightarrow> 'x \<Rightarrow> bool"
    and amount :: "'x \<Rightarrow> int"
    and content :: "'s \<Rightarrow> 'x \<Rightarrow> 't list"
    and log :: "'s \<Rightarrow> 't list"
    and seen :: "'s \<Rightarrow> 'y \<Rightarrow> 't list"
    and update :: "'x \<Rightarrow> 's \<Rightarrow> ('y \<times> 's) outcome"
  assumes amount: "accepts s x \<Longrightarrow> 0 \<le> amount x"
    and step: "ok s \<Longrightarrow> accepts s x \<Longrightarrow> amount x \<le> room s \<Longrightarrow> \<exists>out s'. update x s = Inr (out, s') \<and> ok s' \<and>
      room s' = room s - amount x \<and> log s' = log s @ content s x \<and> seen s' out = log s' \<and>
      (\<forall>y. accepts s y \<longrightarrow> accepts s' y \<and> content s' y = content s y)"
begin

lemma feed:
  assumes "ok s" "\<forall>x \<in> set xs. accepts s x" "sum_list (map amount xs) \<le> room s"
  shows "\<exists>out s'. ofold (\<lambda>x (_, s). update x s) xs (start, s) = Inr (out, s') \<and> ok s' \<and>
    log s' = log s @ concat (map (content s) xs) \<and> room s' = room s - sum_list (map amount xs) \<and>
    (xs \<noteq> [] \<longrightarrow> seen s' out = log s')"
  using assms
proof (induction xs arbitrary: start s)
  case Nil
  then show ?case by simp
next
  case (Cons x xs)
  have "0 \<le> sum_list (map amount xs)" by (rule sum_list_nonneg) (use Cons.prems(2) amount in auto)
  then have "amount x \<le> room s" using Cons.prems(3) by simp
  from step [OF Cons.prems(1) _ this] Cons.prems(2)
  obtain out s1 where s1: "update x s = Inr (out, s1)" "ok s1" "room s1 = room s - amount x"
    "log s1 = log s @ content s x" "seen s1 out = log s1"
    "\<And>y. accepts s y \<Longrightarrow> accepts s1 y \<and> content s1 y = content s y"
    by auto
  have "\<forall>x \<in> set xs. accepts s1 x" "sum_list (map amount xs) \<le> room s1"
    using Cons.prems(2,3) s1(3,6) by auto
  from Cons.IH [OF s1(2) this, of out] obtain out' s' where s': "ofold (\<lambda>x (_, s). update x s) xs (out, s1) = Inr (out', s')"
    "ok s'" "log s' = log s1 @ concat (map (content s1) xs)" "room s' = room s1 - sum_list (map amount xs)"
    "xs \<noteq> [] \<longrightarrow> seen s' out' = log s'"
    by blast
  have "concat (map (content s1) xs) = concat (map (content s) xs)"
    using Cons.prems(2) s1(6) by (auto intro!: arg_cong [of _ _ concat])
  moreover have "seen s' out' = log s'" using s' s1(1,5) by (cases xs) auto
  ultimately show ?case using s1(1,3,4) s' by simp
qed

end

text \<open>
  What is found in a pair of tensors: for every position the token of the keys and the token of the
  values. A tensor with fewer than \<open>P\<close> heads serves each head to a group of them.
\<close>

definition entries :: "(nat \<Rightarrow> int) \<Rightarrow> memory \<Rightarrow> int \<Rightarrow> view \<Rightarrow> view \<Rightarrow>
     (8 word list outcome list list \<times> 8 word list outcome list list) list" where
  "entries base m P x y =
     (let rows = \<lambda>z. tokens base m z (P div v_shape z ! 1) P (v_shape z ! 3) (v_shape z ! 2) in zip (rows x) (rows y))"

definition entries_of :: "(nat \<Rightarrow> int) \<Rightarrow> memory \<Rightarrow> int \<Rightarrow> tensor list \<Rightarrow>
     (8 word list outcome list list \<times> 8 word list outcome list list) list" where
  "entries_of base m P ts = (case ts of [Some x, Some y] \<Rightarrow> entries base m P x y | _ \<Rightarrow> [])"

lemma length_tokens [simp]: "length (tokens base m x rt P I n) = nat n"
  by (simp add: tokens_def)

lemma entries_eq:
  "v_shape x = [1, H, n, I] \<Longrightarrow> v_shape y = [1, H, n, I] \<Longrightarrow>
     entries base m P x y = zip (tokens base m x (P div H) P I n) (tokens base m y (P div H) P I n)"
  by (simp add: entries_def eval_nat_numeral)


subsection \<open>StaticCache\<close>

lemma first_rows_simps [simp]:
  "elem base m (first_rows n y) = elem base m y" "tokens base m (first_rows n y) = tokens base m y"
  "v_shape y = [1, P, T, I] \<Longrightarrow> v_shape (first_rows n y) = [1, P, n, I]"
proof -
  show e: "elem base m (first_rows n y) = elem base m y"
    by (simp add: fun_eq_iff elem_def first_rows_def offsettedPtr_def barePtr_def byte_offset_def v_dtype_def)
  show "tokens base m (first_rows n y) = tokens base m y" by (simp add: fun_eq_iff tokens_def token_def e)
  show "v_shape y = [1, P, T, I] \<Longrightarrow> v_shape (first_rows n y) = [1, P, n, I]" by (simp add: first_rows_def)
qed

definition static_log :: "(nat \<Rightarrow> int) \<Rightarrow> int \<Rightarrow> kv_cache \<times> memory \<Rightarrow>
     (8 word list outcome list list \<times> 8 word list outcome list list) list" where
  "static_log base l = (\<lambda>(c, m). case (kc_k c ! nat l, kc_v c ! nat l) of
     (Some x, Some y) \<Rightarrow> entries base m (kc_q_heads c) (first_rows (kc_cnt c ! nat l) x) (first_rows (kc_cnt c ! nat l) y)
   | _ \<Rightarrow> [])"

text \<open>Updates change nothing of a cache \<open>c0\<close> but its counts.\<close>

definition static_ok :: "(nat \<Rightarrow> int) \<Rightarrow> int \<Rightarrow> kv_cache \<Rightarrow> kv_cache \<times> memory \<Rightarrow> bool" where
  "static_ok base l c0 = (\<lambda>(c, m). c\<lparr>kc_cnt := kc_cnt c0\<rparr> = c0 \<and> (\<exists>kc vc. layer_ok base c l kc vc))"

definition static_room :: "int \<Rightarrow> kv_cache \<times> memory \<Rightarrow> int" where
  "static_room l = (\<lambda>(c, m). kc_max c - kc_cnt c ! nat l)"

definition static_accepts :: "(nat \<Rightarrow> int) \<Rightarrow> int \<Rightarrow> kv_cache \<times> memory \<Rightarrow> view \<times> view \<Rightarrow> bool" where
  "static_accepts base l = (\<lambda>(c, m) (k, v). \<exists>kc vc. kc_k c ! nat l = Some kc \<and> kc_v c ! nat l = Some vc \<and>
     input_ok base c kc vc (kc_k_dtype c) (v_shape k ! 2) k \<and> input_ok base c kc vc (kc_v_dtype c) (v_shape k ! 2) v)"

definition static_update :: "(nat \<Rightarrow> int) \<Rightarrow> (view \<Rightarrow> view \<Rightarrow> memory \<Rightarrow> memory outcome) \<Rightarrow> int \<Rightarrow> view \<times> view \<Rightarrow>
     kv_cache \<times> memory \<Rightarrow> (tensor list \<times> kv_cache \<times> memory) outcome" where
  "static_update base copy2 l = (\<lambda>(k, v) (c, m). updateKVCache base copy2 c l (Some k) (Some v) m)"

lemma layer_at:
  assumes "layer_ok base c l kc vc"
  shows "kc_k c ! nat l = Some kc" "kc_v c ! nat l = Some vc" "v_shape kc = [1, kc_q_heads c, kc_max c, kc_dims c]"
    "v_shape vc = [1, kc_q_heads c, kc_max c, kc_dims c]" "nat l < length (kc_cnt c)" "0 < kc_q_heads c"
    "0 < kc_kv_heads c" "kc_kv_heads c * group_size c = kc_q_heads c" "0 < group_size c"
  using assms by (auto simp: layer_ok_def vec_at_def zdvd_imp_le pos_imp_zdiv_pos_iff split: if_splits)

lemma input_positive: "input_ok base c kc vc dt n x \<Longrightarrow> 0 < n"
  by (auto simp: input_ok_def view_ok_def shape_ok_def)

lemma input_entries_cong:
  assumes c: "layer_ok base c l kc vc" and x: "input_ok base c kc vc kd n x" "input_ok base c kc vc vd n y"
    and m': "\<And>a. a \<notin> footprint base kc \<union> footprint base vc \<Longrightarrow> m' a = m a"
  shows "entries base m' (kc_q_heads c) x y = entries base m (kc_q_heads c) x y"
proof -
  note L = layer_at [OF c]
  have s: "v_shape x = [1, kc_kv_heads c, n, kc_dims c]" "v_shape y = [1, kc_kv_heads c, n, kc_dims c]"
    "view_ok x" "view_ok y" using x by (simp_all add: input_ok_def)
  have d: "m' a = m a" if "a \<in> footprint base x \<or> a \<in> footprint base y" for a
    using that m' x unfolding input_ok_def by blast
  have "tokens base m' x (group_size c) (kc_q_heads c) (kc_dims c) n = tokens base m x (group_size c) (kc_q_heads c) (kc_dims c) n"
    using tokens_cong [OF s(3,1) _ L(9) order_refl, of base m' m] d by (simp add: L(8))
  moreover have "tokens base m' y (group_size c) (kc_q_heads c) (kc_dims c) n =
      tokens base m y (group_size c) (kc_q_heads c) (kc_dims c) n"
    using tokens_cong [OF s(4,2) _ L(9) order_refl, of base m' m] d by (simp add: L(8))
  ultimately show ?thesis by (simp add: entries_eq [OF s(1,2)])
qed

lemma static_step:
  assumes c: "layer_ok base c l kc vc" and k: "input_ok base c kc vc (kc_k_dtype c) n k"
    and v: "input_ok base c kc vc (kc_v_dtype c) n v" and cap: "kc_cnt c ! nat l + n \<le> kc_max c"
  shows "\<exists>k' v' c' m'. updateKVCache base copy2 c l (Some k) (Some v) m = Inr ([Some k', Some v'], c', m') \<and>
    layer_ok base c' l kc vc \<and> c' = c\<lparr>kc_cnt := (kc_cnt c)[nat l := kc_cnt c ! nat l + n]\<rparr> \<and>
    k' = first_rows (kc_cnt c ! nat l + n) kc \<and> v' = first_rows (kc_cnt c ! nat l + n) vc \<and>
    static_log base l (c', m') = static_log base l (c, m) @ entries base m (kc_q_heads c) k v \<and>
    (\<forall>a. a \<notin> footprint base kc \<union> footprint base vc \<longrightarrow> m' a = m a)"
proof -
  let ?cnt = "kc_cnt c ! nat l" and ?P = "kc_q_heads c" and ?I = "kc_dims c"
  note L = layer_at [OF c] and uf = update_fits [OF c k v cap]
  note e = uf(2) [symmetric]
  obtain m' where m': "updateKVCache base copy2 c l (Some k) (Some v) m =
      Inr ([Some (first_rows (?cnt + n) kc), Some (first_rows (?cnt + n) vc)], c\<lparr>kc_cnt := (kc_cnt c)[nat l := ?cnt + n]\<rparr>, m')"
    "moved (kv_src base kc vc k v (group_size c) (kc_max c) ?I ?cnt) (kv_dest base kc vc ?P (kc_max c) ?I n ?cnt) m m'"
    "layer_ok base (c\<lparr>kc_cnt := (kc_cnt c)[nat l := ?cnt + n]\<rparr>) l kc vc"
    using updateKVCache_run [OF c k v cap] by blast
  note t = kv_tokens [OF uf(1), unfolded e, OF m'(2)]
  have s: "v_shape k = [1, kc_kv_heads c, n, ?I]" "v_shape v = [1, kc_kv_heads c, n, ?I]"
    using k v by (simp_all add: input_ok_def)
  have l: "length (tokens base m kc 1 ?P ?I ?cnt) = length (tokens base m vc 1 ?P ?I ?cnt)" by simp
  have "static_log base l (c\<lparr>kc_cnt := (kc_cnt c)[nat l := ?cnt + n]\<rparr>, m') =
      static_log base l (c, m) @ entries base m ?P k v"
    using L(1-6) t zip_append [OF l] by (simp add: static_log_def entries_eq entries_eq [OF s])
  moreover have "m' a = m a" if "a \<notin> footprint base kc \<union> footprint base vc" for a
  proof -
    have "a \<notin> kv_dest base kc vc ?P (kc_max c) ?I n ?cnt"
      using kv_dest_footprints [OF uf(1), unfolded e] that by (auto simp: kv_dest_def)
    then show ?thesis using m'(2) by (simp add: moved_def)
  qed
  ultimately show ?thesis using m'(1,3) by blast
qed


interpretation static: append_log "static_ok base l c0" "static_room l" "static_accepts base l" "\<lambda>(k, v). v_shape k ! 2"
  "\<lambda>(c, m) (k, v). entries base m (kc_q_heads c) k v" "static_log base l" "\<lambda>(c, m). entries_of base m (kc_q_heads c)"
  "static_update base copier l" for base copier l c0
proof unfold_locales
  fix s :: "kv_cache \<times> memory" and x :: "view \<times> view"
  obtain c m where s: "s = (c, m)" by (cases s) auto
  obtain k v where x: "x = (k, v)" by (cases x) auto
  { assume "static_accepts base l s x"
    then show "0 \<le> (case x of (k, v) \<Rightarrow> v_shape k ! 2)"
      by (auto simp: static_accepts_def s x dest!: input_positive) }
  assume "static_ok base l c0 s" "static_accepts base l s x" and cap: "(case x of (k, v) \<Rightarrow> v_shape k ! 2) \<le> static_room l s"
  then obtain kc vc where c: "layer_ok base c l kc vc" and c0: "c\<lparr>kc_cnt := kc_cnt c0\<rparr> = c0" by (auto simp: static_ok_def s)
  note L = layer_at [OF c]
  let ?n = "v_shape k ! 2"
  have i: "input_ok base c kc vc (kc_k_dtype c) ?n k" "input_ok base c kc vc (kc_v_dtype c) ?n v"
    using \<open>static_accepts base l s x\<close> L(1,2) by (auto simp: static_accepts_def s x)
  have "kc_cnt c ! nat l + ?n \<le> kc_max c" using cap by (simp add: static_room_def s x)
  from static_step [OF c i this, of copier m] obtain k' v' c' m' where
    u: "updateKVCache base copier c l (Some k) (Some v) m = Inr ([Some k', Some v'], c', m')"
    and c': "layer_ok base c' l kc vc" "c' = c\<lparr>kc_cnt := (kc_cnt c)[nat l := kc_cnt c ! nat l + ?n]\<rparr>"
    and o': "k' = first_rows (kc_cnt c ! nat l + ?n) kc" "v' = first_rows (kc_cnt c ! nat l + ?n) vc"
    and g: "static_log base l (c', m') = static_log base l (c, m) @ entries base m (kc_q_heads c) k v"
    and m': "\<And>a. a \<notin> footprint base kc \<union> footprint base vc \<Longrightarrow> m' a = m a"
    by blast
  have "static_accepts base l (c', m') y \<and> (case y of (k, v) \<Rightarrow> entries base m' (kc_q_heads c') k v) =
      (case y of (k, v) \<Rightarrow> entries base m (kc_q_heads c) k v)" if y: "static_accepts base l (c, m) y" for y
  proof -
    obtain k1 v1 where y1: "y = (k1, v1)" by (cases y) auto
    have "input_ok base c kc vc (kc_k_dtype c) (v_shape k1 ! 2) k1" "input_ok base c kc vc (kc_v_dtype c) (v_shape k1 ! 2) v1"
      using y L(1,2) by (auto simp: static_accepts_def y1)
    from input_entries_cong [OF c this m'] show ?thesis using y by (simp add: y1 c'(2) static_accepts_def input_ok_def)
  qed
  moreover have "entries_of base m' (kc_q_heads c') [Some k', Some v'] = static_log base l (c', m')"
    using L(1,2,5) by (simp add: entries_of_def static_log_def c'(2) o')
  ultimately show "\<exists>out s'. static_update base copier l x s = Inr (out, s') \<and> static_ok base l c0 s' \<and>
      static_room l s' = static_room l s - (case x of (k, v) \<Rightarrow> v_shape k ! 2) \<and>
      static_log base l s' = static_log base l s @ (case s of (c, m) \<Rightarrow> \<lambda>(k, v). entries base m (kc_q_heads c) k v) x \<and>
      (case s' of (c, m) \<Rightarrow> entries_of base m (kc_q_heads c)) out = static_log base l s' \<and>
      (\<forall>y. static_accepts base l s y \<longrightarrow> static_accepts base l s' y \<and>
         (case s' of (c, m) \<Rightarrow> \<lambda>(k, v). entries base m (kc_q_heads c) k v) y =
         (case s of (c, m) \<Rightarrow> \<lambda>(k, v). entries base m (kc_q_heads c) k v) y)"
    using u c'(1) g L(5) c0
    by (intro exI [of _ "[Some k', Some v']"] exI [of _ "(c', m')"])
      (auto simp: s x static_update_def static_ok_def static_room_def c'(2))
qed


subsection \<open>DynamicCache\<close>

text \<open>
  \<open>dyn_layer\<close>: the layer is empty, or it holds \<open>n\<close> rows for every head of the queries. \<open>T\<close> bounds the
  number of rows so that products of dimensions stay within an \<^verbatim>\<open>int32_t\<close> and storages within \<open>B\<close> bytes.
\<close>

definition dyn_rows :: "dyn_cache \<Rightarrow> int \<Rightarrow> int" where
  "dyn_rows c l = (case dc_k c ! nat l of Some x \<Rightarrow> v_shape x ! 2 | None \<Rightarrow> 0)"

definition dyn_config :: "(nat \<Rightarrow> int) \<Rightarrow> int \<Rightarrow> int \<Rightarrow> dtype \<Rightarrow> dtype \<Rightarrow> int \<Rightarrow> dyn_cache \<Rightarrow> bool" where
  "dyn_config base B T kd vd l c \<longleftrightarrow> \<not> dc_fa2 c \<and> 0 < dc_kv_heads c \<and> 0 < dc_q_heads c \<and> dc_kv_heads c dvd dc_q_heads c \<and>
     float_width kd \<noteq> None \<and> float_width vd \<noteq> None \<and> dc_q_heads c * (T * dc_dims c) < 2 ^ 31 \<and>
     dc_q_heads c * (T * dc_dims c) * 4 \<le> B \<and> heap base B \<and> 0 \<le> l \<and> l < int (length (dc_k c)) \<and>
     l < int (length (dc_v c))"

definition dyn_layer :: "(nat \<Rightarrow> int) \<Rightarrow> int \<Rightarrow> dtype \<Rightarrow> dtype \<Rightarrow> int \<Rightarrow> dyn_cache \<Rightarrow> nat \<Rightarrow> bool" where
  "dyn_layer base B kd vd l c u \<longleftrightarrow>
     (case (dc_k c ! nat l, dc_v c ! nat l) of
        (Some x, Some y) \<Rightarrow> rows_view base B u kd (dc_q_heads c) (dyn_rows c l) (dc_dims c) x \<and>
          rows_view base B u vd (dc_q_heads c) (dyn_rows c l) (dc_dims c) y
      | (None, None) \<Rightarrow> True
      | _ \<Rightarrow> False)"

definition dyn_log :: "(nat \<Rightarrow> int) \<Rightarrow> int \<Rightarrow> dyn_cache \<times> nat \<times> memory \<Rightarrow>
     (8 word list outcome list list \<times> 8 word list outcome list list) list" where
  "dyn_log base l = (\<lambda>(c, u, m). case (dc_k c ! nat l, dc_v c ! nat l) of
     (Some x, Some y) \<Rightarrow> entries base m (dc_q_heads c) x y | _ \<Rightarrow> [])"

definition dyn_ok :: "(nat \<Rightarrow> int) \<Rightarrow> int \<Rightarrow> int \<Rightarrow> int \<Rightarrow> dtype \<Rightarrow> dtype \<Rightarrow> int \<Rightarrow> dyn_cache \<times> nat \<times> memory \<Rightarrow> bool" where
  "dyn_ok base B T P kd vd l = (\<lambda>(c, u, m). dc_q_heads c = P \<and> dyn_config base B T kd vd l c \<and> dyn_layer base B kd vd l c u)"

definition dyn_accepts :: "(nat \<Rightarrow> int) \<Rightarrow> int \<Rightarrow> dtype \<Rightarrow> dtype \<Rightarrow> dyn_cache \<times> nat \<times> memory \<Rightarrow> view \<times> view \<Rightarrow> bool" where
  "dyn_accepts base B kd vd = (\<lambda>(c, u, m) (k, v).
     rows_view base B u kd (dc_kv_heads c) (v_shape k ! 2) (dc_dims c) k \<and>
     rows_view base B u vd (dc_kv_heads c) (v_shape k ! 2) (dc_dims c) v)"

definition dyn_update :: "(nat \<Rightarrow> int) \<Rightarrow> int \<Rightarrow> view \<times> view \<Rightarrow> dyn_cache \<times> nat \<times> memory \<Rightarrow>
     (tensor list \<times> dyn_cache \<times> nat \<times> memory) outcome" where
  "dyn_update base l = (\<lambda>(k, v) (c, u, m).
     obind (dyn_updateKVCache base u c l (Some k) (Some v) m) (\<lambda>(out, c', m'). Inr (out, c', u + 4, m')))"

lemma entries_below:
  assumes "rows_view base B u kd H n I x" "rows_view base B u vd H n I y" "below base B u m m'" "0 < rt"
  shows "entries base m' (H * rt) x y = entries base m (H * rt) x y"
proof -
  have s: "v_shape x = [1, H, n, I]" "v_shape y = [1, H, n, I]" using assms(1,2) by (simp_all add: rows_view_def)
  have "H * rt div H = rt" using rows_view_pos [OF assms(1)] by simp
  then show ?thesis
    using tokens_below [OF assms(1,3,4)] tokens_below [OF assms(2,3,4)] by (simp add: entries_eq [OF s])
qed

lemma repeat_pair:
  assumes k: "rows_view base B u kd H n I k" and v: "rows_view base B u vd H n I v" and h: "heap base B"
    and dt: "float_width kd \<noteq> None" "float_width vd \<noteq> None" and rt: "0 < rt"
    and lt: "H * rt * (n * I) < 2 ^ 31" "H * rt * (n * I) * 4 \<le> B"
  shows "\<exists>k' v' m1 m2. tensor_repeat base rt 1 u (Some k) m = Inr (Some k', m1) \<and>
    tensor_repeat base rt 1 (u + 1) (Some v) m1 = Inr (Some v', m2) \<and> below base B u m m2 \<and>
    rows_view base B (u + 2) kd (H * rt) n I k' \<and> rows_view base B (u + 2) vd (H * rt) n I v' \<and>
    entries base m2 (H * rt) k' v' = entries base m (H * rt) k v"
proof -
  obtain k' m1 where 1: "tensor_repeat base rt 1 u (Some k) m = Inr (Some k', m1)"
    "rows_view base B (Suc u) kd (H * rt) n I k'" "below base B u m m1"
    "tokens base m1 k' 1 (H * rt) I n = tokens base m k rt (H * rt) I n"
    using repeat_heads [OF k h dt(1) rt lt] by blast
  have v1: "rows_view base B (Suc u) vd H n I v" by (rule rows_view_mono [OF v]) simp
  obtain v' m2 where 2: "tensor_repeat base rt 1 (Suc u) (Some v) m1 = Inr (Some v', m2)"
    "rows_view base B (Suc (Suc u)) vd (H * rt) n I v'" "below base B (Suc u) m1 m2"
    "tokens base m2 v' 1 (H * rt) I n = tokens base m1 v rt (H * rt) I n"
    using repeat_heads [OF v1 h dt(2) rt lt] by blast
  have k2: "rows_view base B (Suc (Suc u)) kd (H * rt) n I k'" by (rule rows_view_mono [OF 1(2)]) simp
  have b: "below base B u m m2" by (rule below_trans [OF 1(3) 2(3)]) simp
  have s: "v_shape k = [1, H, n, I]" "v_shape v = [1, H, n, I]" "v_shape k' = [1, H * rt, n, I]" "v_shape v' = [1, H * rt, n, I]"
    using k v k2 2(2) by (simp_all add: rows_view_def)
  have p: "0 < H" "0 < H * rt" using rows_view_pos [OF k] rt by simp_all
  have "tokens base m2 k' 1 (H * rt) I n = tokens base m k rt (H * rt) I n"
    using tokens_below [OF 1(2) 2(3), of 1] 1(4) by simp
  moreover have "tokens base m2 v' 1 (H * rt) I n = tokens base m v rt (H * rt) I n"
    using 2(4) tokens_below [OF v 1(3) rt] by simp
  ultimately have "entries base m2 (H * rt) k' v' = entries base m (H * rt) k v"
    using p rt by (simp add: entries_eq [OF s(1,2)] entries_eq [OF s(3,4)])
  then show ?thesis using 1(1) 2(1) b k2 2(2) by auto
qed

lemma append_pair:
  assumes k: "rows_view base B u kd P a I kc" "rows_view base B u kd P b I k"
    and v: "rows_view base B u vd P a I vc" "rows_view base B u vd P b I v" and h: "heap base B"
    and dt: "float_width kd \<noteq> None" "float_width vd \<noteq> None"
    and lt: "P * ((a + b) * I) < 2 ^ 31" "P * ((a + b) * I) * 4 \<le> B"
  shows "\<exists>k' v' m1 m2. tensor_concat base [Some kc, Some k] 2 u m = Inr (Some k', m1) \<and>
    tensor_concat base [Some vc, Some v] 2 (u + 1) m1 = Inr (Some v', m2) \<and> below base B u m m2 \<and>
    rows_view base B (u + 2) kd P (a + b) I k' \<and> rows_view base B (u + 2) vd P (a + b) I v' \<and>
    entries base m2 P k' v' = entries base m P kc vc @ entries base m P k v"
proof -
  obtain k' m1 where 1: "tensor_concat base [Some kc, Some k] 2 u m = Inr (Some k', m1)"
    "rows_view base B (Suc u) kd P (a + b) I k'" "below base B u m m1"
    "tokens base m1 k' 1 P I (a + b) = tokens base m kc 1 P I a @ tokens base m k 1 P I b"
    using append_rows [OF k h dt(1) lt] by blast
  have v1: "rows_view base B (Suc u) vd P a I vc" "rows_view base B (Suc u) vd P b I v"
    by (rule rows_view_mono [OF v(1)] rows_view_mono [OF v(2)]; simp)+
  obtain v' m2 where 2: "tensor_concat base [Some vc, Some v] 2 (Suc u) m1 = Inr (Some v', m2)"
    "rows_view base B (Suc (Suc u)) vd P (a + b) I v'" "below base B (Suc u) m1 m2"
    "tokens base m2 v' 1 P I (a + b) = tokens base m1 vc 1 P I a @ tokens base m1 v 1 P I b"
    using append_rows [OF v1 h dt(2) lt] by blast
  have k2: "rows_view base B (Suc (Suc u)) kd P (a + b) I k'" by (rule rows_view_mono [OF 1(2)]) simp
  have b: "below base B u m m2" by (rule below_trans [OF 1(3) 2(3)]) simp
  have s: "v_shape kc = [1, P, a, I]" "v_shape vc = [1, P, a, I]" "v_shape k = [1, P, b, I]" "v_shape v = [1, P, b, I]"
    "v_shape k' = [1, P, a + b, I]" "v_shape v' = [1, P, a + b, I]"
    using k v k2 2(2) by (simp_all add: rows_view_def)
  have p: "0 < P" using rows_view_pos [OF k(1)] by simp
  have "tokens base m2 k' 1 P I (a + b) = tokens base m kc 1 P I a @ tokens base m k 1 P I b"
    using tokens_below [OF 1(2) 2(3), of 1] 1(4) by simp
  moreover have "tokens base m2 v' 1 P I (a + b) = tokens base m vc 1 P I a @ tokens base m v 1 P I b"
    using 2(4) tokens_below [OF v(1) 1(3), of 1] tokens_below [OF v(2) 1(3), of 1] by simp
  moreover have "length (tokens base m kc 1 P I a) = length (tokens base m vc 1 P I a)" by simp
  ultimately have "entries base m2 P k' v' = entries base m P kc vc @ entries base m P k v"
    using p by (simp add: entries_eq [OF s(1,2)] entries_eq [OF s(3,4)] entries_eq [OF s(5,6)])
  then show ?thesis using 1(1) 2(1) b k2 2(2) by auto
qed


lemma dyn_step:
  assumes c: "dyn_config base B T kd vd l c" "dyn_layer base B kd vd l c u"
    and k: "rows_view base B u kd (dc_kv_heads c) n (dc_dims c) k" and v: "rows_view base B u vd (dc_kv_heads c) n (dc_dims c) v"
    and cap: "dyn_rows c l + n \<le> T"
  shows "\<exists>k' v' c' m'. dyn_updateKVCache base u c l (Some k) (Some v) m = Inr ([Some k', Some v'], c', m') \<and>
    c' = c\<lparr>dc_k := (dc_k c)[nat l := Some k'], dc_v := (dc_v c)[nat l := Some v']\<rparr> \<and>
    dyn_layer base B kd vd l c' (u + 4) \<and> dyn_rows c' l = dyn_rows c l + n \<and> below base B u m m' \<and>
    entries base m' (dc_q_heads c) k' v' = dyn_log base l (c, u, m) @ entries base m (dc_q_heads c) k v"
proof -
  let ?H = "dc_kv_heads c" and ?P = "dc_q_heads c" and ?I = "dc_dims c" and ?rt = "dc_q_heads c div dc_kv_heads c"
  have g: "\<not> dc_fa2 c" "0 < ?H" "0 < ?P" "float_width kd \<noteq> None" "float_width vd \<noteq> None" "heap base B"
    "?P * (T * ?I) < 2 ^ 31" "?P * (T * ?I) * 4 \<le> B" "0 \<le> l" "l < int (length (dc_k c))" "l < int (length (dc_v c))"
    "?H * ?rt = ?P" "0 < ?rt"
    using c(1) by (auto simp: dyn_config_def zdvd_imp_le pos_imp_zdiv_pos_iff)
  have p: "0 < n" "0 < ?I" using rows_view_pos [OF k] by simp_all
  have r0: "0 \<le> dyn_rows c l"
    using c(2) rows_view_pos by (auto simp: dyn_layer_def dyn_rows_def split: option.splits) fastforce
  have lt: "?P * (j * ?I) < 2 ^ 31" "?P * (j * ?I) * 4 \<le> B" if "j \<le> T" for j
  proof -
    have "?P * (j * ?I) \<le> ?P * (T * ?I)" using that p g(3) by (simp add: mult_le_cancel_left mult_le_cancel_right)
    then show "?P * (j * ?I) < 2 ^ 31" "?P * (j * ?I) * 4 \<le> B" using g(7,8) by linarith+
  qed
  have nT: "n \<le> T" using cap r0 by simp
  obtain k1 v1 m1 m2 where 1: "tensor_repeat base ?rt 1 u (Some k) m = Inr (Some k1, m1)"
    "tensor_repeat base ?rt 1 (u + 1) (Some v) m1 = Inr (Some v1, m2)" "below base B u m m2"
    "rows_view base B (u + 2) kd ?P n ?I k1" "rows_view base B (u + 2) vd ?P n ?I v1"
    "entries base m2 ?P k1 v1 = entries base m ?P k v"
    using repeat_pair [OF k v g(6,4,5,13), unfolded g(12), OF lt [OF nT], of m] by blast
  have s: "v_shape k = [1, ?H, n, ?I]" "v_shape v = [1, ?H, n, ?I]" using k v by (simp_all add: rows_view_def)
  have q: "?P sdiv ?H = ?rt" using g(2,3) by (simp add: sdiv_nonneg)
  have at: "vec_at (dc_k c) l = Inr (dc_k c ! nat l)" "vec_at (dc_v c) l = Inr (dc_v c ! nat l)"
    "vec_set (dc_k c) l z = Inr ((dc_k c)[nat l := z])" "vec_set (dc_v c) l z = Inr ((dc_v c)[nat l := z])" for z
    using g(9-11) by (simp_all add: vec_at_def vec_set_def)
  have nl: "nat l < length (dc_k c)" "nat l < length (dc_v c)" using g(9-11) by simp_all
  have h1: "vec_at [1, ?H, n, ?I] 1 = Inr ?H" by (simp add: vec_at_def)
  have e1: "dyn_updateKVCache base u c l (Some k) (Some v) m =
      (if dc_k c ! nat l = None \<and> dc_v c ! nat l = None then
         Inr ([Some k1, Some v1], c\<lparr>dc_k := (dc_k c)[nat l := Some k1], dc_v := (dc_v c)[nat l := Some v1]\<rparr>, m2)
       else
         obind (tensor_concat base [dc_k c ! nat l, Some k1] 2 (u + 2) m2) (\<lambda>(k', m3).
         obind (tensor_concat base [dc_v c ! nat l, Some v1] 2 (u + 3) m3) (\<lambda>(v', m4).
           Inr ([k', v'], c\<lparr>dc_k := (dc_k c)[nat l := k'], dc_v := (dc_v c)[nat l := v']\<rparr>, m4))))"
    unfolding dyn_updateKVCache_def
    using g(1,2) 1(1,2) by (simp add: impl_def s h1 rt_assert_def q at Let_def)
  show ?thesis
  proof (cases "dc_k c ! nat l")
    case None
    then have nv: "dc_v c ! nat l = None" using c(2) by (simp add: dyn_layer_def split: option.splits)
    have "rows_view base B (u + 4) kd ?P n ?I k1" "rows_view base B (u + 4) vd ?P n ?I v1"
      by (rule rows_view_mono [OF 1(4)] rows_view_mono [OF 1(5)]; simp)+
    then show ?thesis
      using None nv e1 1(3,6) nl
      by (intro exI [of _ k1] exI [of _ v1]) (auto simp: dyn_layer_def dyn_rows_def dyn_log_def rows_view_def)
  next
    case (Some x)
    then obtain y where y: "dc_v c ! nat l = Some y" "rows_view base B u kd ?P (dyn_rows c l) ?I x"
      "rows_view base B u vd ?P (dyn_rows c l) ?I y"
      using c(2) by (auto simp: dyn_layer_def split: option.splits)
    have xy: "rows_view base B (u + 2) kd ?P (dyn_rows c l) ?I x" "rows_view base B (u + 2) vd ?P (dyn_rows c l) ?I y"
      by (rule rows_view_mono [OF y(2)] rows_view_mono [OF y(3)]; simp)+
    have u: "u + 2 + 1 = u + 3" "u + 2 + 2 = u + 4" by simp_all
    obtain k' v' m3 m4 where 2: "tensor_concat base [Some x, Some k1] 2 (u + 2) m2 = Inr (Some k', m3)"
      "tensor_concat base [Some y, Some v1] 2 (u + 3) m3 = Inr (Some v', m4)" "below base B (u + 2) m2 m4"
      "rows_view base B (u + 4) kd ?P (dyn_rows c l + n) ?I k'" "rows_view base B (u + 4) vd ?P (dyn_rows c l + n) ?I v'"
      "entries base m4 ?P k' v' = entries base m2 ?P x y @ entries base m2 ?P k1 v1"
      using append_pair [OF xy(1) 1(4) xy(2) 1(5) g(6,4,5) lt [OF cap], of m2, unfolded u] by blast
    have "below base B u m m4" by (rule below_trans [OF 1(3) 2(3)]) simp
    moreover have "entries base m2 ?P x y = entries base m ?P x y"
      using entries_below [OF y(2,3) 1(3), of 1] by simp
    ultimately show ?thesis
      using Some y(1) e1 2 1(6) nl
      by (intro exI [of _ k'] exI [of _ v']) (auto simp: dyn_layer_def dyn_rows_def dyn_log_def rows_view_def)
  qed
qed


interpretation dynamic: append_log "dyn_ok base B T P kd vd l" "\<lambda>(c, u, m). T - dyn_rows c l" "dyn_accepts base B kd vd"
  "\<lambda>(k, v). v_shape k ! 2" "\<lambda>(c, u, m) (k, v). entries base m (dc_q_heads c) k v" "dyn_log base l"
  "\<lambda>(c, u, m). entries_of base m (dc_q_heads c)" "dyn_update base l" for base B T P kd vd l
proof unfold_locales
  fix s :: "dyn_cache \<times> nat \<times> memory" and x :: "view \<times> view"
  obtain c u m where s: "s = (c, u, m)" by (cases s) auto
  obtain k v where x: "x = (k, v)" by (cases x) auto
  let ?n = "v_shape k ! 2"
  { assume "dyn_accepts base B kd vd s x"
    then show "0 \<le> (case x of (k, v) \<Rightarrow> v_shape k ! 2)"
      by (auto simp: dyn_accepts_def s x dest!: rows_view_pos) }
  assume "dyn_ok base B T P kd vd l s" "dyn_accepts base B kd vd s x"
    and cap: "(case x of (k, v) \<Rightarrow> v_shape k ! 2) \<le> (case s of (c, u, m) \<Rightarrow> T - dyn_rows c l)"
  then have c: "dyn_config base B T kd vd l c" "dyn_layer base B kd vd l c u"
    and i: "rows_view base B u kd (dc_kv_heads c) ?n (dc_dims c) k" "rows_view base B u vd (dc_kv_heads c) ?n (dc_dims c) v"
    by (simp_all add: dyn_ok_def dyn_accepts_def s x)
  have rm: "dyn_rows c l + ?n \<le> T" using cap by (simp add: s x)
  have cP: "dc_q_heads c = P" using \<open>dyn_ok base B T P kd vd l s\<close> by (simp add: dyn_ok_def s)
  from dyn_step [OF c i rm, of m] obtain k' v' c' m' where
    f: "dyn_updateKVCache base u c l (Some k) (Some v) m = Inr ([Some k', Some v'], c', m')"
    and c': "c' = c\<lparr>dc_k := (dc_k c)[nat l := Some k'], dc_v := (dc_v c)[nat l := Some v']\<rparr>"
      "dyn_layer base B kd vd l c' (u + 4)" "dyn_rows c' l = dyn_rows c l + ?n" "below base B u m m'"
    and g: "entries base m' (dc_q_heads c) k' v' = dyn_log base l (c, u, m) @ entries base m (dc_q_heads c) k v"
    by blast
  have P: "dc_q_heads c = dc_kv_heads c * (dc_q_heads c div dc_kv_heads c)" "0 < dc_q_heads c div dc_kv_heads c"
    using c(1) by (auto simp: dyn_config_def zdvd_imp_le pos_imp_zdiv_pos_iff)
  have "dyn_accepts base B kd vd (c', u + 4, m') y \<and> (case y of (k, v) \<Rightarrow> entries base m' (dc_q_heads c) k v) =
      (case y of (k, v) \<Rightarrow> entries base m (dc_q_heads c) k v)" if y: "dyn_accepts base B kd vd (c, u, m) y" for y
  proof -
    obtain k1 v1 where y1: "y = (k1, v1)" by (cases y) auto
    have r: "rows_view base B u kd (dc_kv_heads c) (v_shape k1 ! 2) (dc_dims c) k1"
      "rows_view base B u vd (dc_kv_heads c) (v_shape k1 ! 2) (dc_dims c) v1"
      using y by (simp_all add: dyn_accepts_def y1)
    from entries_below [OF r c'(4) P(2)] have "entries base m' (dc_q_heads c) k1 v1 = entries base m (dc_q_heads c) k1 v1"
      using P(1) by simp
    then show ?thesis using r rows_view_mono [OF r(1), of "u + 4"] rows_view_mono [OF r(2), of "u + 4"]
      by (simp add: y1 c'(1) dyn_accepts_def)
  qed
  moreover have "entries base m' (dc_q_heads c) k' v' = dyn_log base l (c', u + 4, m')"
    using c(1) by (simp add: dyn_log_def c'(1) dyn_config_def nat_less_iff)
  moreover have "dyn_config base B T kd vd l c'" using c(1) by (simp add: dyn_config_def c'(1))
  ultimately show "\<exists>out s'. dyn_update base l x s = Inr (out, s') \<and> dyn_ok base B T P kd vd l s' \<and>
      (case s' of (c, u, m) \<Rightarrow> T - dyn_rows c l) = (case s of (c, u, m) \<Rightarrow> T - dyn_rows c l) - (case x of (k, v) \<Rightarrow> v_shape k ! 2) \<and>
      dyn_log base l s' = dyn_log base l s @ (case s of (c, u, m) \<Rightarrow> \<lambda>(k, v). entries base m (dc_q_heads c) k v) x \<and>
      (case s' of (c, u, m) \<Rightarrow> entries_of base m (dc_q_heads c)) out = dyn_log base l s' \<and>
      (\<forall>y. dyn_accepts base B kd vd s y \<longrightarrow> dyn_accepts base B kd vd s' y \<and>
         (case s' of (c, u, m) \<Rightarrow> \<lambda>(k, v). entries base m (dc_q_heads c) k v) y =
         (case s of (c, u, m) \<Rightarrow> \<lambda>(k, v). entries base m (dc_q_heads c) k v) y)"
    using f c'(2,3) g cP
    by (intro exI [of _ "[Some k', Some v']"] exI [of _ "(c', u + 4, m')"])
      (auto simp: s x dyn_update_def dyn_ok_def entries_of_def c'(1))
qed

end
