(* ===== verification/Kv_Results.thy ===== *)
theory Kv_Results
  imports Kv_Log
begin

text \<open>What the caches of keys and values promise, from their construction on.\<close>

subsection \<open>A new cache\<close>

lemma fill_zeros_total: "\<exists>m'. fill_zeros base v m = Inr m'"
  by (simp add: fill_zeros_def)

lemma cache_layers_made:
  assumes "shape_ok s" "lanesOfType kd = 1" "lanesOfType vd = 1"
  shows "\<exists>m'. cache_layers base fill s kd vd kCPU n u m =
    Inr (map (\<lambda>i. Some (fresh_view s kd kCPU (u + 2 * i))) [0..<n], map (\<lambda>i. Some (fresh_view s vd kCPU (u + 2 * i + 1))) [0..<n], m')"
proof (induction n arbitrary: u m)
  case 0
  then show ?case by simp
next
  case (Suc n)
  have z: "\<exists>m'. tensor_zeros base fill s dt kCPU w m = Inr (Some (fresh_view s dt kCPU w), m')" if "dt = kd \<or> dt = vd" for dt w m
  proof -
    have "lanesOfType dt = 1" using that assms(2,3) by auto
    from tensor_empty_ok [OF assms(1) this] fill_zeros_total [of base "fresh_view s dt kCPU w" m]
    show ?thesis by (auto simp: tensor_zeros_def fresh_view_def impl_def)
  qed
  obtain m1 where 1: "tensor_zeros base fill s kd kCPU u m = Inr (Some (fresh_view s kd kCPU u), m1)" using z by blast
  obtain m2 where 2: "tensor_zeros base fill s vd kCPU (u + 1) m1 = Inr (Some (fresh_view s vd kCPU (u + 1)), m2)" using z by blast
  have e: "map f [0..<Suc n] = f 0 # map (\<lambda>i. f (Suc i)) [0..<n]" for f :: "nat \<Rightarrow> view option"
    by (simp add: upt_conv_Cons map_Suc_upt [symmetric] del: upt_Suc)
  show ?case using Suc.IH [of "u + 2" m2] 1 2 by (auto simp: e simp del: upt_Suc)
qed

text \<open>The tensors of the cache are storages of at most \<open>B\<close> bytes, with dimensions an \<^verbatim>\<open>int32_t\<close> subscript can reach.\<close>

definition cache_config :: "(nat \<Rightarrow> int) \<Rightarrow> int \<Rightarrow> int \<Rightarrow> int \<Rightarrow> int \<Rightarrow> int \<Rightarrow> int \<Rightarrow> dtype \<Rightarrow> dtype \<Rightarrow> bool" where
  "cache_config base B max_len layers q_heads kv_heads dims kd vd \<longleftrightarrow> heap base B \<and>
     lanesOfType kd = 1 \<and> lanesOfType vd = 1 \<and> 0 < kv_heads \<and> 0 < q_heads \<and> kv_heads dvd q_heads \<and> 0 < max_len \<and>
     0 < dims \<and> 0 \<le> layers \<and> q_heads * (max_len * dims) < kAll \<and>
     q_heads * (max_len * dims) * int (bytesOfType kd) \<le> B \<and> q_heads * (max_len * dims) * int (bytesOfType vd) \<le> B"

lemma StaticCache_new_ok:
  assumes "cache_config base B max_len layers q_heads kv_heads dims kd vd"
  shows "\<exists>c m'. StaticCache_new base fill max_len layers q_heads kv_heads dims kd vd kCPU False u m = Inr (c, m') \<and>
    kc_q_heads c = q_heads \<and> kc_kv_heads c = kv_heads \<and> kc_dims c = dims \<and> kc_max c = max_len \<and>
    kc_k_dtype c = kd \<and> kc_v_dtype c = vd \<and> kc_cnt c = replicate (nat layers) 0 \<and>
    (\<forall>l. 0 \<le> l \<longrightarrow> l < layers \<longrightarrow>
      layer_ok base c l (fresh_view [1, q_heads, max_len, dims] kd kCPU (u + 2 * nat l))
        (fresh_view [1, q_heads, max_len, dims] vd kCPU (u + 2 * nat l + 1)))"
proof -
  have h: "heap base B" and d: "lanesOfType kd = 1" "lanesOfType vd = 1"
    and p: "0 < kv_heads" "0 < q_heads" "kv_heads dvd q_heads" "0 < max_len" "0 < dims" "0 \<le> layers"
    and lt: "q_heads * (max_len * dims) < kAll" "q_heads * (max_len * dims) * int (bytesOfType kd) \<le> B"
      "q_heads * (max_len * dims) * int (bytesOfType vd) \<le> B"
    using assms by (simp_all add: cache_config_def)
  let ?s = "[1, q_heads, max_len, dims]"
  have "prod_list ?s < 2 ^ 31" using lt(1) by (simp add: kAll_def)
  then have s: "shape_ok ?s" using p by (simp add: shape_ok_def max_rank_def)
  obtain m' where m': "cache_layers base fill ?s kd vd kCPU (nat layers) u m =
      Inr (map (\<lambda>i. Some (fresh_view ?s kd kCPU (u + 2 * i))) [0..<nat layers],
        map (\<lambda>i. Some (fresh_view ?s vd kCPU (u + 2 * i + 1))) [0..<nat layers], m')"
    using cache_layers_made [OF s d, of base fill "nat layers" u m] by blast
  have pk: "packed (fresh_view ?s kd kCPU w)" "packed (fresh_view ?s vd kCPU w)" for w
    by (rule fresh_view_packed [OF s d(1)] fresh_view_packed [OF s d(2)])+
  have N: "prod_list ?s = q_heads * (max_len * dims)" by simp
  have pl: "placed base B (Suc w) (fresh_view ?s kd kCPU w)" "placed base B (Suc w) (fresh_view ?s vd kCPU w)" for w
    by (rule fresh_view_placed [OF s d(1)] fresh_view_placed [OF s d(2)]; simp only: N lt(2,3))+
  have ap: "footprint base (fresh_view ?s kd kCPU w) \<inter> footprint base (fresh_view ?s vd kCPU (w + 1)) = {}" for w
    using placed_apart [OF h pl(1) [of w] pl(2) [of "w + 1"]] by simp
  let ?c = "\<lparr>kc_device = kCPU, kc_k_dtype = kd, kc_v_dtype = vd, kc_max = max_len,
          kc_layers = layers, kc_q_heads = q_heads, kc_kv_heads = kv_heads, kc_dims = dims, kc_fa2 = False,
          kc_k = map (\<lambda>i. Some (fresh_view ?s kd kCPU (u + 2 * i))) [0..<nat layers],
          kc_v = map (\<lambda>i. Some (fresh_view ?s vd kCPU (u + 2 * i + 1))) [0..<nat layers],
          kc_cnt = replicate (nat layers) 0\<rparr>"
  have "StaticCache_new base fill max_len layers q_heads kv_heads dims kd vd kCPU False u m = Inr (?c, m')"
    using m' by (simp add: StaticCache_new_def cache_shape_def)
  moreover have "layer_ok base ?c l (fresh_view ?s kd kCPU (u + 2 * nat l)) (fresh_view ?s vd kCPU (u + 2 * nat l + 1))"
    if "0 \<le> l" "l < layers" for l
    using that p lt(1) pk ap [of "u + 2 * nat l"] by (simp add: layer_ok_def vec_at_def)
  ultimately show ?thesis by (intro exI [of _ ?c] exI [of _ m']) simp
qed


text \<open>Inputs in storages that were allocated before those of the cache.\<close>

lemma placed_accepts:
  assumes h: "heap base B" and c: "layer_ok base c l kc vc"
    and k: "rows_view base B u (kc_k_dtype c) (kc_kv_heads c) (v_shape k ! 2) (kc_dims c) k"
    and v: "rows_view base B u (kc_v_dtype c) (kc_kv_heads c) (v_shape k ! 2) (kc_dims c) v"
    and p: "placed base B w kc" "placed base B w vc" "u \<le> ts_uuid (v_store kc)" "u \<le> ts_uuid (v_store vc)"
  shows "static_accepts base l (c, m) (k, v)"
proof -
  have "input_ok base c kc vc dt n x" if x: "rows_view base B u dt (kc_kv_heads c) n (kc_dims c) x" for x dt n
  proof -
    have s: "packed x" "v_shape x = [1, kc_kv_heads c, n, kc_dims c]" "v_dtype x = dt" "placed base B u x"
      using x by (simp_all add: rows_view_def)
    then have "footprint base x \<inter> (footprint base kc \<union> footprint base vc) = {}"
      using placed_apart [OF h s(4) p(1)] placed_apart [OF h s(4) p(2)] p(3,4) by (auto simp: placed_def)
    then show ?thesis using s packed_ok [OF s(1)] by (simp add: input_ok_def packed_def)
  qed
  then show ?thesis using layer_at(1,2) [OF c] k v by (simp add: static_accepts_def)
qed

lemma new_cache_accepts:
  assumes "cache_config base B max_len layers q_heads kv_heads dims kd vd"
    and "StaticCache_new base fill max_len layers q_heads kv_heads dims kd vd kCPU False u m0 = Inr (c, m)"
    and "0 \<le> l" "l < layers"
    and "rows_view base B u kd kv_heads (v_shape k ! 2) dims k" "rows_view base B u vd kv_heads (v_shape k ! 2) dims v"
  shows "static_accepts base l (c, m) (k, v)"
proof -
  let ?s = "[1, q_heads, max_len, dims]"
  have g: "heap base B" "lanesOfType kd = 1" "lanesOfType vd = 1" "shape_ok ?s"
    "prod_list ?s * int (bytesOfType kd) \<le> B" "prod_list ?s * int (bytesOfType vd) \<le> B"
    using assms(1) by (simp_all add: cache_config_def shape_ok_def max_rank_def kAll_def)
  have c: "layer_ok base c l (fresh_view ?s kd kCPU (u + 2 * nat l)) (fresh_view ?s vd kCPU (u + 2 * nat l + 1))"
    "kc_k_dtype c = kd" "kc_v_dtype c = vd" "kc_kv_heads c = kv_heads" "kc_dims c = dims"
    using StaticCache_new_ok [OF assms(1), of fill u m0] assms(2-4) by auto
  have "placed base B (u + 2 * nat l + 2) (fresh_view ?s kd kCPU (u + 2 * nat l))"
    "placed base B (u + 2 * nat l + 2) (fresh_view ?s vd kCPU (u + 2 * nat l + 1))"
    using fresh_view_placed [OF g(4,2,5), of base "u + 2 * nat l" kCPU]
      fresh_view_placed [OF g(4,3,6), of base "u + 2 * nat l + 1" kCPU]
    by (auto elim: placed_mono)
  from placed_accepts [OF g(1) c(1) _ _ this] assms(5,6) c(2-5) show ?thesis by simp
qed

lemma entries_none: "v_shape x = [1, P, n, I] \<Longrightarrow> n \<le> 0 \<Longrightarrow> entries base m P x y = []"
  by (simp add: entries_def tokens_def eval_nat_numeral)

lemma new_static_log:
  assumes "layer_ok base c l kc vc" "kc_cnt c ! nat l = 0"
  shows "static_log base l (c, m) = []"
  using layer_at [OF assms(1)] assms(2) by (simp add: static_log_def entries_none [of _ "kc_q_heads c" 0 "kc_dims c"])

subsection \<open>A static cache is a log\<close>

text \<open>
  C11: A cache in eager mode on the CPU, from its construction on: after any sequence of updates of a
  layer that fit into it, the tensors the last update returns hold the tokens of all inputs, in their
  order, each row of a head of the input once for every head of the queries it serves; the count of the
  layer is the number of the tokens.
\<close>

theorem static_cache_logs:
  assumes "cache_config base B max_len layers q_heads kv_heads dims kd vd"
    and "StaticCache_new base fill max_len layers q_heads kv_heads dims kd vd kCPU False u m0 = Inr (c, m)"
    and "0 \<le> l" "l < layers" "kvs \<noteq> []" "\<forall>kv \<in> set kvs. static_accepts base l (c, m) kv"
    and "(\<Sum>(k, v) \<leftarrow> kvs. v_shape k ! 2) \<le> max_len"
  shows "\<exists>out c' m'. ofold (\<lambda>(k, v) (_, c, m). updateKVCache base copy2 c l (Some k) (Some v) m) kvs ([], c, m) =
      Inr (out, c', m') \<and>
    entries_of base m' q_heads out = concat (map (\<lambda>(k, v). entries base m q_heads k v) kvs) \<and>
    getCurrentSeqCnt c' l = Inr (\<Sum>(k, v) \<leftarrow> kvs. v_shape k ! 2)"
proof -
  obtain kc vc where c: "layer_ok base c l kc vc" "kc_cnt c ! nat l = 0" "kc_q_heads c = q_heads" "kc_max c = max_len"
    using StaticCache_new_ok [OF assms(1), of fill u m0] assms(2-4) by auto
  have ok: "static_ok base l c (c, m)" using c(1) by (auto simp: static_ok_def)
  have rm: "(\<Sum>(k, v) \<leftarrow> kvs. v_shape k ! 2) \<le> static_room l (c, m)" using assms(7) c(2,4) by (simp add: static_room_def)
  have f: "(\<lambda>x (_ :: tensor list, s). static_update base copy2 l x s) = (\<lambda>(k, v) (_, c, m). updateKVCache base copy2 c l (Some k) (Some v) m)"
    by (auto simp: fun_eq_iff static_update_def)
  obtain out c' m' where s': "ofold (\<lambda>(k, v) (_, c, m). updateKVCache base copy2 c l (Some k) (Some v) m) kvs ([], c, m) =
      Inr (out, c', m')" "static_ok base l c (c', m')"
    "static_log base l (c', m') = concat (map (\<lambda>(k, v). entries base m q_heads k v) kvs)"
    "static_room l (c', m') = static_room l (c, m) - (\<Sum>(k, v) \<leftarrow> kvs. v_shape k ! 2)"
    "entries_of base m' (kc_q_heads c') out = static_log base l (c', m')"
    using static.feed [OF ok assms(6) rm, where copier = copy2 and start = "[]"] assms(5) new_static_log [OF c(1,2)] c(3)
    unfolding f by auto
  have same: "kc_q_heads c' = kc_q_heads (c'\<lparr>kc_cnt := kc_cnt c\<rparr>)" "kc_max c' = kc_max (c'\<lparr>kc_cnt := kc_cnt c\<rparr>)" by simp_all
  then have q: "kc_q_heads c' = q_heads" "kc_max c' = max_len" using s'(2) c(3,4) by (simp_all only: static_ok_def prod.case)
  then have "kc_cnt c' ! nat l = (\<Sum>(k, v) \<leftarrow> kvs. v_shape k ! 2)" using s'(4) c(2,4) by (simp add: static_room_def)
  moreover have "l < int (length (kc_cnt c'))" using s'(2) by (auto simp: static_ok_def layer_ok_def)
  ultimately have "getCurrentSeqCnt c' l = Inr (\<Sum>(k, v) \<leftarrow> kvs. v_shape k ! 2)"
    using assms(3) by (simp add: getCurrentSeqCnt_def vec_at_def)
  with s'(1,3,5) q show ?thesis by auto
qed


text \<open>One layer, two heads of queries, one of keys, room for two positions; two updates.\<close>

abbreviation demo_row :: "nat \<Rightarrow> view" where
  "demo_row u \<equiv> fresh_view [1, 1, 1, 1] kFloat32 kCPU u"

lemma demo_heap: "heap join_base 1000"
  by (auto simp: heap_def arena_def join_base_def)

lemma demo_config: "cache_config join_base 1000 2 1 2 1 1 kFloat32 kFloat32"
  by (simp add: cache_config_def demo_heap kAll_def)

lemma demo_rows: "rows_view join_base 1000 (Suc u) kFloat32 1 1 1 (demo_row u)"
  by (rule rows_view_fresh) (simp_all add: float_width_def)

lemma static_cache_logs_witness:
  "\<exists>c m out c' m'. StaticCache_new join_base (\<lambda>_. Inr) 2 1 2 1 1 kFloat32 kFloat32 kCPU False 4 of_int = Inr (c, m) \<and>
     ofold (\<lambda>(k, v) (_, c, m). updateKVCache join_base (\<lambda>_ _. Inr) c 0 (Some k) (Some v) m)
       [(demo_row 0, demo_row 1), (demo_row 2, demo_row 3)] ([], c, m) = Inr (out, c', m') \<and>
     entries_of join_base m' 2 out = entries join_base m 2 (demo_row 0) (demo_row 1) @ entries join_base m 2 (demo_row 2) (demo_row 3) \<and>
     getCurrentSeqCnt c' 0 = Inr 2"
proof -
  obtain c m where n: "StaticCache_new join_base (\<lambda>_. Inr) 2 1 2 1 1 kFloat32 kFloat32 kCPU False 4 of_int = Inr (c, m)"
    using StaticCache_new_ok [OF demo_config, of "\<lambda>_. Inr" 4 of_int] by blast
  have r: "rows_view join_base 1000 4 kFloat32 1 1 1 (demo_row u)" if "u < 4" for u
    using rows_view_mono [OF demo_rows, of u 4] that by simp
  have a: "static_accepts join_base 0 (c, m) (demo_row u, demo_row w)" if "u < 4" "w < 4" for u w
    using new_cache_accepts [OF demo_config n, of 0 "demo_row u" "demo_row w"] r that by simp
  from static_cache_logs [OF demo_config n, of 0 "[(demo_row 0, demo_row 1), (demo_row 2, demo_row 3)]" "\<lambda>_ _. Inr"] a n
  show ?thesis by auto
qed


subsection \<open>The two caches agree\<close>

text \<open>
  C12: A static cache and a dynamic cache of the same heads, fed with the same keys and values, return
  tensors with the same tokens, as long as the static one has room: the copies with an explicit
  loop over the heads and rows, and repeating the heads and concatenating, come to the same. Both caches are
  on the CPU and in the eager mode, without flash attention, for fp32 and fp16.
\<close>

theorem caches_agree:
  assumes "cache_config base B max_len layers q_heads kv_heads dims kd vd"
    and "float_width kd \<noteq> None" "float_width vd \<noteq> None" "q_heads * (max_len * dims) * 4 \<le> B"
    and "StaticCache_new base fill max_len layers q_heads kv_heads dims kd vd kCPU False u m0 = Inr (c, m)"
    and "0 \<le> l" "l < layers" "kvs \<noteq> []" "(\<Sum>(k, v) \<leftarrow> kvs. v_shape k ! 2) \<le> max_len"
    and "\<forall>(k, v) \<in> set kvs. rows_view base B u kd kv_heads (v_shape k ! 2) dims k \<and>
      rows_view base B u vd kv_heads (v_shape k ! 2) dims v"
  shows "\<exists>out1 c' m1 out2 d' u' m2.
    ofold (\<lambda>(k, v) (_, c, m). updateKVCache base copy2 c l (Some k) (Some v) m) kvs ([], c, m) = Inr (out1, c', m1) \<and>
    ofold (\<lambda>(k, v) (_, d, u, m). obind (dyn_updateKVCache base u d l (Some k) (Some v) m)
        (\<lambda>(out, d', m'). Inr (out, d', u + 4, m'))) kvs ([], DynamicCache_new layers q_heads kv_heads dims False, u, m) =
      Inr (out2, d', u', m2) \<and>
    entries_of base m1 q_heads out1 = entries_of base m2 q_heads out2"
proof -
  obtain kc vc where c: "layer_ok base c l kc vc" "kc_cnt c ! nat l = 0" "kc_q_heads c = q_heads" "kc_max c = max_len"
    using StaticCache_new_ok [OF assms(1), of fill u m0] assms(5-7) by auto
  let ?sum = "\<Sum>(k, v) \<leftarrow> kvs. v_shape k ! 2" and ?d = "DynamicCache_new layers q_heads kv_heads dims False"
  have ok: "static_ok base l c (c, m)" using c(1) by (auto simp: static_ok_def)
  have rm: "?sum \<le> static_room l (c, m)" using assms(9) c(2,4) by (simp add: static_room_def)
  have acc: "\<forall>kv \<in> set kvs. static_accepts base l (c, m) kv"
    using new_cache_accepts [OF assms(1,5-7)] assms(10) by fastforce
  have f: "(\<lambda>x (_ :: tensor list, s). static_update base copy2 l x s) = (\<lambda>(k, v) (_, c, m). updateKVCache base copy2 c l (Some k) (Some v) m)"
    "(\<lambda>x (_ :: tensor list, s). dyn_update base l x s) = (\<lambda>(k, v) (_, d, u, m). obind (dyn_updateKVCache base u d l (Some k) (Some v) m)
        (\<lambda>(out, d', m'). Inr (out, d', u + 4, m')))"
    by (auto simp: fun_eq_iff static_update_def dyn_update_def)
  obtain out1 c' m1 where 1: "ofold (\<lambda>(k, v) (_, c, m). updateKVCache base copy2 c l (Some k) (Some v) m) kvs ([], c, m) =
      Inr (out1, c', m1)" "static_ok base l c (c', m1)"
    "static_log base l (c', m1) = concat (map (\<lambda>(k, v). entries base m q_heads k v) kvs)"
    "entries_of base m1 (kc_q_heads c') out1 = static_log base l (c', m1)"
    using static.feed [OF ok acc rm, where copier = copy2 and start = "[]"] assms(8) new_static_log [OF c(1,2)] c(3)
    unfolding f by auto
  have "kc_q_heads c' = kc_q_heads (c'\<lparr>kc_cnt := kc_cnt c\<rparr>)" by simp
  then have q1: "kc_q_heads c' = q_heads" using 1(2) c(3) by (simp only: static_ok_def prod.case)
  have "kAll < 2 ^ 31" by (simp add: kAll_def)
  then have dok: "dyn_ok base B max_len q_heads kd vd l (?d, u, m)"
    using assms(1-4,6,7) by (simp add: dyn_ok_def dyn_config_def dyn_layer_def DynamicCache_new_def cache_config_def)
  have dacc: "\<forall>kv \<in> set kvs. dyn_accepts base B kd vd (?d, u, m) kv"
    using assms(10) by (auto simp: dyn_accepts_def DynamicCache_new_def)
  have d0: "dyn_rows ?d l = 0" "dyn_log base l (?d, u, m) = []" "dc_q_heads ?d = q_heads"
    using assms(6,7) by (simp_all add: dyn_rows_def dyn_log_def DynamicCache_new_def)
  have drm: "?sum \<le> (case (?d, u, m) of (c, u, m) \<Rightarrow> max_len - dyn_rows c l)" using assms(9) d0(1) by simp
  obtain out2 d' u' m2 where 2: "ofold (\<lambda>(k, v) (_, d, u, m). obind (dyn_updateKVCache base u d l (Some k) (Some v) m)
        (\<lambda>(out, d', m'). Inr (out, d', u + 4, m'))) kvs ([], ?d, u, m) = Inr (out2, d', u', m2)"
    "dyn_ok base B max_len q_heads kd vd l (d', u', m2)"
    "dyn_log base l (d', u', m2) = concat (map (\<lambda>(k, v). entries base m q_heads k v) kvs)"
    "entries_of base m2 (dc_q_heads d') out2 = dyn_log base l (d', u', m2)"
    using dynamic.feed [OF dok dacc drm, where start = "[]"] assms(8) d0(2,3) unfolding f by auto
  have "dc_q_heads d' = q_heads" using 2(2) by (simp add: dyn_ok_def)
  with 1 2 q1 show ?thesis by auto
qed

lemma caches_agree_witness:
  "\<exists>c m out1 c' m1 out2 d' u' m2. StaticCache_new join_base (\<lambda>_. Inr) 2 1 2 1 1 kFloat32 kFloat32 kCPU False 4 of_int = Inr (c, m) \<and>
     ofold (\<lambda>(k, v) (_, c, m). updateKVCache join_base (\<lambda>_ _. Inr) c 0 (Some k) (Some v) m)
       [(demo_row 0, demo_row 1), (demo_row 2, demo_row 3)] ([], c, m) = Inr (out1, c', m1) \<and>
     ofold (\<lambda>(k, v) (_, d, u, m). obind (dyn_updateKVCache join_base u d 0 (Some k) (Some v) m)
         (\<lambda>(out, d', m'). Inr (out, d', u + 4, m')))
       [(demo_row 0, demo_row 1), (demo_row 2, demo_row 3)] ([], DynamicCache_new 1 2 1 1 False, 4, m) = Inr (out2, d', u', m2) \<and>
     entries_of join_base m1 2 out1 = entries_of join_base m2 2 out2"
proof -
  obtain c m where n: "StaticCache_new join_base (\<lambda>_. Inr) 2 1 2 1 1 kFloat32 kFloat32 kCPU False 4 of_int = Inr (c, m)"
    using StaticCache_new_ok [OF demo_config, of "\<lambda>_. Inr" 4 of_int] by blast
  have r: "rows_view join_base 1000 4 kFloat32 1 1 1 (demo_row u)" if "u < 4" for u
    using rows_view_mono [OF demo_rows, of u 4] that by simp
  from caches_agree [OF demo_config _ _ _ n, of 0 "[(demo_row 0, demo_row 1), (demo_row 2, demo_row 3)]" "\<lambda>_ _. Inr"] r n
  show ?thesis by (simp add: float_width_def)
qed


subsection \<open>A full cache\<close>

text \<open>
  A static cache does not check its capacity. In one with room for one position, which is full, another
  update succeeds: the row for head 0 overwrites what head 1 has stored, and the row for head 1 is
  written behind the storage, bytes 4000 to 4007.
\<close>

definition full_cache :: kv_cache where
  "full_cache = \<lparr>kc_device = kCPU, kc_k_dtype = kFloat32, kc_v_dtype = kFloat32, kc_max = 1, kc_layers = 1,
     kc_q_heads = 2, kc_kv_heads = 1, kc_dims = 1, kc_fa2 = False,
     kc_k = [Some (fresh_view [1, 2, 1, 1] kFloat32 kCPU 4)], kc_v = [Some (fresh_view [1, 2, 1, 1] kFloat32 kCPU 5)],
     kc_cnt = [1]\<rparr>"

lemma full_cache_overwritten:
  "\<exists>out c' m'. updateKVCache join_base copy2 full_cache 0 (Some (demo_row 0)) (Some (demo_row 1)) m = Inr (out, c', m') \<and>
     kc_cnt c' = [2] \<and> m' 4004 = m 0 \<and> m' 4008 = m 0"
proof -
  have u: "[0..1 :: int] = [0, 1]" by (simp add: upto.simps)
  show ?thesis
    by (simp add: updateKVCache_def full_cache_def impl_def vec_at_def vec_set_def rt_assert_def copy_heads_def copy_head_def
      i32_def offsettedPtr_def elem_offset_def barePtr_def byte_offset_def u64_def join_base_def fresh_view_def v_dtype_def
      row_bytes_def Let_def sdiv_nonneg getKVCache_def filled_def subscript_def SliceOp_reshape_def slice_normalise_def
      slice_count_def all_of_def range_of_def kAll_def view_create_strided_def max_rank_def memcpy_def u)
qed

end
