(* ===== verification/Radix_Tree.thy ===== *)
theory Radix_Tree
  imports Prelude
begin

text \<open>
  The radix tree of the prefix cache, \<^verbatim>\<open>mllm/engine/prefix_cache/RadixTree.{hpp,cpp}\<close>: sequences of
  token ids with, per transformer block, the cache addresses of every token. \<open>insert\<close> may split a
  node, \<open>search\<close> returns the addresses of the tokens it matched. The children of a node are a list
  in the order in which the hash map is traversed. Two keys of that map are equal if their tokens are, but the
  extra key enters the hash: a map that meets two equal keys with different hashes breaks the requirements
  of its container, and this is undefined.
\<close>

subsection \<open>Vector views\<close>

text \<open>A view shares a vector; \<open>vv_list\<close> is the sequence it shows.\<close>

record 'a vview =
  vv_offset :: int
  vv_length :: int
  vv_data :: "'a list"

definition vv_of :: "'a list \<Rightarrow> 'a vview" where
  "vv_of xs = \<lparr>vv_offset = 0, vv_length = int (length xs), vv_data = xs\<rparr>"

definition vv_make :: "'a list \<Rightarrow> int \<Rightarrow> int \<Rightarrow> 'a vview outcome" where
  "vv_make xs off len =
     (if off < 0 \<or> len < 0 \<or> int (length xs) < off + len
      then Inl (Throw ''VectorView: invalid offset/length'')
      else Inr \<lparr>vv_offset = off, vv_length = len, vv_data = xs\<rparr>)"

definition vv_subview :: "'a vview \<Rightarrow> int \<Rightarrow> int \<Rightarrow> 'a vview outcome" where
  "vv_subview v off len =
     (if off < 0 \<or> len < 0 \<or> vv_length v < off + len then Inl (Throw ''subview: out of range'')
      else vv_make (vv_data v) (vv_offset v + off) len)"

definition vv_index :: "'a vview \<Rightarrow> int \<Rightarrow> 'a outcome" where
  "vv_index v i = vec_at (vv_data v) (vv_offset v + i)"

definition vv_at :: "'a vview \<Rightarrow> int \<Rightarrow> 'a outcome" where
  "vv_at v i =
     (if i < 0 \<or> vv_length v \<le> i then Inl (Throw ''VectorView::at'') else vv_index v i)"

fun vv_eq_from :: "'a vview \<Rightarrow> 'a vview \<Rightarrow> nat \<Rightarrow> nat \<Rightarrow> bool outcome" where
  "vv_eq_from a b i 0 = Inr True"
| "vv_eq_from a b i (Suc n) =
     obind (vv_index a (int i)) (\<lambda>x. obind (vv_index b (int i)) (\<lambda>y.
       if x \<noteq> y then Inr False else vv_eq_from a b (Suc i) n))"

definition vv_equal :: "'a vview \<Rightarrow> 'a vview \<Rightarrow> bool outcome" where
  "vv_equal a b =
     (if vv_length a \<noteq> vv_length b then Inr False else vv_eq_from a b 0 (nat (vv_length a)))"

definition vv_ok :: "'a vview \<Rightarrow> bool" where
  "vv_ok v \<longleftrightarrow> 0 \<le> vv_offset v \<and> 0 \<le> vv_length v \<and>
     vv_offset v + vv_length v \<le> int (length (vv_data v))"

definition vv_list :: "'a vview \<Rightarrow> 'a list" where
  "vv_list v = take (nat (vv_length v)) (drop (nat (vv_offset v)) (vv_data v))"

text \<open>The same operation on the sequence itself.\<close>

definition subview :: "'a list \<Rightarrow> nat \<Rightarrow> nat \<Rightarrow> 'a list outcome" where
  "subview xs off len =
     (if length xs < off + len then Inl (Throw ''subview: out of range'')
      else Inr (take len (drop off xs)))"

lemma vv_of_list: "vv_ok (vv_of xs) \<and> vv_list (vv_of xs) = xs"
  by (simp add: vv_of_def vv_ok_def vv_list_def)

lemma vv_length_list: "vv_ok v \<Longrightarrow> length (vv_list v) = nat (vv_length v)"
  by (auto simp: vv_ok_def vv_list_def)

lemma vv_subview_list:
  assumes "vv_ok v"
  shows "case vv_subview v (int off) (int len) of
      Inl e \<Rightarrow> subview (vv_list v) off len = Inl e
    | Inr w \<Rightarrow> vv_ok w \<and> subview (vv_list v) off len = Inr (vv_list w)"
proof (cases "vv_length v < int off + int len")
  case True
  then show ?thesis using assms vv_length_list [OF assms]
    by (auto simp: vv_subview_def subview_def vv_ok_def)
next
  case False
  then have "nat (vv_offset v + int off) = nat (vv_offset v) + off"
    "\<not> int (length (vv_data v)) < vv_offset v + int off + int len"
    "off + len \<le> nat (vv_length v)"
    using assms by (auto simp: vv_ok_def)
  moreover from this have "take len (drop off (vv_list v)) =
      take len (drop (nat (vv_offset v) + off) (vv_data v))"
    by (simp add: vv_list_def drop_take take_take min_def add.commute)
  ultimately show ?thesis using False assms vv_length_list [OF assms]
    by (auto simp: vv_subview_def vv_make_def subview_def vv_ok_def vv_list_def)
qed

lemma vv_index_list:
  "vv_ok v \<Longrightarrow> i < length (vv_list v) \<Longrightarrow> vv_index v (int i) = Inr (vv_list v ! i)"
  by (auto simp: vv_index_def vv_ok_def vv_list_def vec_at_def nat_add_distrib)

subsection \<open>The tree\<close>

text \<open>
  The values are the addresses of the keys and of the values, one list per block. The back pointer
  to the parent and the time stamps are left out, like the counter of hits that nothing writes.
\<close>

type_synonym addr = "32 word"

datatype rnode = RNode (r_tokens: "int list") (r_extra: int) (r_k: "addr list list")
  (r_v: "addr list list") (r_ref: int) (r_children: "rnode list")

record rtree =
  rt_blocks :: nat
  rt_root :: rnode
  rt_count :: int

definition new_tree :: "nat \<Rightarrow> rtree" where
  "new_tree blocks = \<lparr>rt_blocks = blocks, rt_root = RNode [-1] 0 [] [] 0 [], rt_count = 1\<rparr>"

definition tree_clear :: "rtree \<Rightarrow> rtree" where
  "tree_clear t = (case rt_root t of RNode ts e k v r cs \<Rightarrow>
     t\<lparr>rt_root := RNode ts e k v r [], rt_count := 1\<rparr>)"

fun common :: "int list \<Rightarrow> int list \<Rightarrow> nat" where
  "common (x # xs) (y # ys) = (if x = y then Suc (common xs ys) else 0)"
| "common _ _ = 0"

definition matchedLength :: "int list \<Rightarrow> int \<Rightarrow> rnode \<Rightarrow> nat" where
  "matchedLength rest extra c = (if extra \<noteq> r_extra c then 0 else common rest (r_tokens c))"

text \<open>The first child with a match, split off from the others.\<close>

fun find_child :: "int list \<Rightarrow> int \<Rightarrow> rnode list \<Rightarrow> (rnode list \<times> rnode \<times> rnode list) option" where
  "find_child rest extra [] = None"
| "find_child rest extra (c # cs) =
     (if matchedLength rest extra c \<noteq> 0 then Some ([], c, cs)
      else case find_child rest extra cs of
             None \<Rightarrow> None
           | Some (as, d, bs) \<Rightarrow> Some (c # as, d, bs))"

lemma find_child_SomeD:
  "find_child rest extra cs = Some (as, c, bs) \<Longrightarrow>
     cs = as @ c # bs \<and> 0 < matchedLength rest extra c \<and> (\<forall>a \<in> set as. matchedLength rest extra a = 0)"
  by (induction cs arbitrary: as) (auto split: if_splits option.splits)

lemma find_child_None: "find_child rest extra cs = None \<longleftrightarrow> (\<forall>c \<in> set cs. matchedLength rest extra c = 0)"
  by (induction cs) (auto split: option.splits)

lemma find_child_app:
  "\<forall>a \<in> set as. matchedLength rest extra a = 0 \<Longrightarrow> 0 < matchedLength rest extra c \<Longrightarrow>
     find_child rest extra (as @ c # bs) = Some (as, c, bs)"
  by (induction as) auto

lemma matchedLength_le: "matchedLength rest extra c \<le> length rest"
proof -
  have "common xs ys \<le> length xs" for xs ys by (induction xs ys rule: common.induct) auto
  then show ?thesis by (simp add: matchedLength_def)
qed

lemma common_le: "common xs ys \<le> length xs \<and> common xs ys \<le> length ys"
  by (induction xs ys rule: common.induct) auto

lemma common_take: "take (common xs ys) xs = take (common xs ys) ys"
  by (induction xs ys rule: common.induct) auto

subsection \<open>Searching\<close>

text \<open>
  The path below a node, each node with the number of its tokens that matched. A child that matches
  only in part is still descended into.
\<close>

function (sequential) descend :: "rnode \<Rightarrow> int list \<Rightarrow> int \<Rightarrow> (rnode \<times> nat) list" where
  "descend n [] extra = []"
| "descend n rest extra =
     (case find_child rest extra (r_children n) of
        None \<Rightarrow> []
      | Some (as, c, bs) \<Rightarrow>
          let ml = matchedLength rest extra c in (c, ml) # descend c (drop ml rest) extra)"
  by pat_completeness auto

termination
  by (relation "measure (\<lambda>(n, rest, e). length rest)") (auto dest!: find_child_SomeD)

definition take_addrs :: "addr list list \<Rightarrow> nat \<Rightarrow> nat \<Rightarrow> addr list outcome" where
  "take_addrs ks b len = omap (\<lambda>e. obind (vec_at ks (int b)) (\<lambda>a. vec_at a (int e))) [0..<len]"

definition flatten_path ::
  "(rnode \<Rightarrow> addr list list) \<Rightarrow> (rnode \<times> nat) list \<Rightarrow> nat \<Rightarrow> addr list outcome" where
  "flatten_path sel path b =
     obind (omap (\<lambda>(n, len). take_addrs (sel n) b len) path) (\<lambda>as. Inr (concat as))"

record search_result =
  sr_success :: bool
  sr_matched :: nat
  sr_path :: "(rnode \<times> nat) list"
  sr_k :: "addr list list"
  sr_v :: "addr list list"

definition tree_search :: "rtree \<Rightarrow> int list \<Rightarrow> int \<Rightarrow> search_result outcome" where
  "tree_search t tokens extra =
     (let path = (rt_root t, 0) # descend (rt_root t) tokens extra;
          matched = sum_list (map snd path); bs = [0..<rt_blocks t]
      in if matched \<noteq> 0 then
           obind (omap (flatten_path r_k path) bs) (\<lambda>k. obind (omap (flatten_path r_v path) bs) (\<lambda>v.
             Inr \<lparr>sr_success = True, sr_matched = matched, sr_path = path, sr_k = k, sr_v = v\<rparr>))
         else Inr \<lparr>sr_success = False, sr_matched = 0, sr_path = path,
                   sr_k = replicate (rt_blocks t) [], sr_v = replicate (rt_blocks t) []\<rparr>)"

subsection \<open>Inserting\<close>

definition block_views ::
  "nat \<Rightarrow> addr list list \<Rightarrow> addr list list \<Rightarrow> nat \<Rightarrow> nat \<Rightarrow> (addr list \<times> addr list) list outcome" where
  "block_views blocks ks vs off len =
     omap (\<lambda>b. obind (vec_at ks (int b)) (\<lambda>a. obind (subview a off len) (\<lambda>k.
               obind (vec_at vs (int b)) (\<lambda>a. obind (subview a off len) (\<lambda>v. Inr (k, v)))))) [0..<blocks]"

text \<open>
  The upper node keeps its identity; the lower one takes over the children. An exception while the
  lower values are cut leaves the node as it was.
\<close>

definition clash :: "rnode list \<Rightarrow> int list \<Rightarrow> int \<Rightarrow> bool" where
  "clash cs ts extra \<longleftrightarrow> (\<exists>d \<in> set cs. r_tokens d = ts \<and> r_extra d \<noteq> extra)"

text \<open>A map keeps the entry it has for a key.\<close>

definition emplace :: "rnode list \<Rightarrow> rnode \<Rightarrow> rnode list outcome" where
  "emplace cs d =
     (if clash cs (r_tokens d) (r_extra d) then Inl Undefined
      else Inr (if \<exists>c \<in> set cs. r_tokens c = r_tokens d then cs else cs @ [d]))"

definition split_node :: "nat \<Rightarrow> rnode \<Rightarrow> nat \<Rightarrow> rnode outcome" where
  "split_node blocks n pos =
     (let sz = length (r_tokens n) in
      obind (block_views blocks (r_k n) (r_v n) pos (sz - pos)) (\<lambda>lo.
      obind (emplace [] (RNode (drop pos (r_tokens n)) (r_extra n) (map fst lo) (map snd lo) 0 (r_children n))) (\<lambda>cs.
      obind (block_views blocks (r_k n) (r_v n) 0 pos) (\<lambda>up.
        Inr (RNode (take pos (r_tokens n)) (r_extra n) (map fst up @ drop blocks (r_k n))
               (map snd up @ drop blocks (r_v n)) (r_ref n) cs)))))"

text \<open>
  After a split the parent looks up the old key of the child \<open>c\<close>, erases it and adds the child under its
  new key. Its place among the other children does not matter, as at most one of them matches.
\<close>

definition rekey :: "rnode list \<Rightarrow> rnode \<Rightarrow> rnode \<Rightarrow> rnode list \<Rightarrow> rnode list outcome" where
  "rekey as c c' bs =
     (if r_tokens c' = r_tokens c then Inr (as @ c' # bs)
      else if clash (as @ bs) (r_tokens c) (r_extra c) then Inl Undefined
      else obind (emplace (as @ bs) c') (\<lambda>cs. Inr (if cs = as @ bs then cs else as @ c' # bs)))"

definition add_leaf ::
  "nat \<Rightarrow> rnode \<Rightarrow> int list \<Rightarrow> int \<Rightarrow> nat \<Rightarrow> addr list list \<Rightarrow> addr list list \<Rightarrow> rnode outcome" where
  "add_leaf blocks n rest extra matched vk vv =
     obind (block_views blocks vk vv matched (length rest)) (\<lambda>kv.
       case n of RNode ts e nk nv r cs \<Rightarrow>
         obind (emplace cs (RNode rest extra (map fst kv) (map snd kv) 0 [])) (\<lambda>cs'.
           Inr (RNode ts e nk nv r cs')))"

definition bump :: "rnode \<Rightarrow> rnode" where
  "bump n = (case n of RNode ts e k v r cs \<Rightarrow> RNode ts e k v (r + 1) cs)"

definition with_children :: "rnode \<Rightarrow> rnode list \<Rightarrow> rnode" where
  "with_children n cs = (case n of RNode ts e k v r _ \<Rightarrow> RNode ts e k v r cs)"

text \<open>
  What happens at the deepest node: \<open>em\<close> of its tokens matched on the way to it. The result is the
  node, the nodes created and the exception, if any: a split stays when the leaf fails.
\<close>

definition insert_here ::
  "nat \<Rightarrow> rnode \<Rightarrow> nat \<Rightarrow> int list \<Rightarrow> int \<Rightarrow> nat \<Rightarrow> addr list list \<Rightarrow> addr list list \<Rightarrow>
     rnode \<times> int \<times> fault option" where
  "insert_here blocks n em rest extra matched vk vv =
     (let split = (0 < em \<and> em < length (r_tokens n))
      in case (if split then split_node blocks n em else Inr n) of
           Inl e \<Rightarrow> (n, 0, Some e)
         | Inr n1 \<Rightarrow>
             (case add_leaf blocks n1 rest extra matched vk vv of
                Inl e \<Rightarrow> (n1, if split then 1 else 0, Some e)
              | Inr n2 \<Rightarrow> (n2, if split then 2 else 1, None)))"

function (sequential) insert_node ::
  "nat \<Rightarrow> rnode \<Rightarrow> nat \<Rightarrow> int list \<Rightarrow> int \<Rightarrow> nat \<Rightarrow> addr list list \<Rightarrow> addr list list \<Rightarrow>
     rnode \<times> int \<times> fault option" where
  "insert_node blocks n em [] extra matched vk vv = (bump n, 0, None)"
| "insert_node blocks n em rest extra matched vk vv =
     (case find_child rest extra (r_children n) of
        None \<Rightarrow> insert_here blocks n em rest extra matched vk vv
      | Some (as, c, bs) \<Rightarrow>
          let ml = matchedLength rest extra c;
              (c', created, err) = insert_node blocks c ml (drop ml rest) extra (matched + ml) vk vv
          in case rekey as c c' bs of
               Inl e \<Rightarrow> (n, created, Some e)
             | Inr cs \<Rightarrow> (with_children n cs, created, err))"
  by pat_completeness auto

termination
  by (relation "measure (\<lambda>(bl, n, em, rest, e, m, vk, vv). length rest)") (auto dest!: find_child_SomeD)

definition tree_insert ::
  "rtree \<Rightarrow> int list \<Rightarrow> int \<Rightarrow> addr list list \<Rightarrow> addr list list \<Rightarrow> rtree \<times> bool outcome" where
  "tree_insert t tokens extra vk vv =
     (if tokens = [] then (t, Inr True)
      else let (r, created, err) = insert_node (rt_blocks t) (rt_root t) 0 tokens extra 0 vk vv
           in (t\<lparr>rt_root := r, rt_count := rt_count t + created\<rparr>,
               case err of None \<Rightarrow> Inr True | Some e \<Rightarrow> Inl e))"

subsection \<open>The invariant of the tree\<close>

definition vals_ok :: "nat \<Rightarrow> nat \<Rightarrow> addr list list \<Rightarrow> bool" where
  "vals_ok blocks n ks \<longleftrightarrow> length ks = blocks \<and> (\<forall>a \<in> set ks. length a = n)"

definition kids_ok :: "rnode list \<Rightarrow> bool" where
  "kids_ok cs \<longleftrightarrow> distinct (map (\<lambda>c. (r_extra c, hd (r_tokens c))) cs)"

fun node_ok :: "nat \<Rightarrow> rnode \<Rightarrow> bool" where
  "node_ok blocks (RNode ts e k v r cs) \<longleftrightarrow> ts \<noteq> [] \<and> vals_ok blocks (length ts) k \<and>
     vals_ok blocks (length ts) v \<and> kids_ok cs \<and> (\<forall>c \<in> set cs. node_ok blocks c)"

fun nodes :: "rnode \<Rightarrow> int" where
  "nodes (RNode ts e k v r cs) = 1 + sum_list (map nodes cs)"

definition inner_ok :: "nat \<Rightarrow> rnode \<Rightarrow> bool" where
  "inner_ok blocks n \<longleftrightarrow> kids_ok (r_children n) \<and> (\<forall>c \<in> set (r_children n). node_ok blocks c)"

definition tree_ok :: "rtree \<Rightarrow> bool" where
  "tree_ok t \<longleftrightarrow> inner_ok (rt_blocks t) (rt_root t) \<and> rt_count t = nodes (rt_root t)"

text \<open>All nodes but the root have the extra key \<open>e\<close>.\<close>

fun all_extra :: "int \<Rightarrow> rnode \<Rightarrow> bool" where
  "all_extra e (RNode ts x k v r cs) \<longleftrightarrow> x = e \<and> (\<forall>c \<in> set cs. all_extra e c)"

definition kids_extra :: "int \<Rightarrow> rnode \<Rightarrow> bool" where
  "kids_extra e n \<longleftrightarrow> (\<forall>c \<in> set (r_children n). all_extra e c)"

definition one_key :: "int \<Rightarrow> rtree \<Rightarrow> bool" where
  "one_key e t \<longleftrightarrow> kids_extra e (rt_root t)"

lemma all_extra_iff: "all_extra e n \<longleftrightarrow> r_extra n = e \<and> kids_extra e n"
  by (cases n) (simp add: kids_extra_def)

lemma clash_one_key: "\<forall>c \<in> set cs. all_extra e c \<Longrightarrow> \<not> clash cs ts e"
  by (auto simp: clash_def all_extra_iff)

text \<open>Values that cover a sequence of \<open>n\<close> tokens.\<close>

definition long_enough :: "nat \<Rightarrow> nat \<Rightarrow> addr list list \<Rightarrow> bool" where
  "long_enough blocks n ks \<longleftrightarrow> blocks \<le> length ks \<and> (\<forall>b < blocks. n \<le> length (ks ! b))"

lemma node_ok_iff:
  "node_ok blocks n \<longleftrightarrow> r_tokens n \<noteq> [] \<and> vals_ok blocks (length (r_tokens n)) (r_k n) \<and>
     vals_ok blocks (length (r_tokens n)) (r_v n) \<and> inner_ok blocks n"
  by (cases n) (auto simp: inner_ok_def)

lemma node_ok_tokens: "node_ok blocks n \<Longrightarrow> r_tokens n \<noteq> []"
  by (cases n) simp

lemma nodes_eq: "nodes n = 1 + sum_list (map nodes (r_children n))"
  by (cases n) simp

lemma node_sel_simps [simp]:
  "r_tokens (bump n) = r_tokens n" "r_extra (bump n) = r_extra n" "r_k (bump n) = r_k n"
  "r_v (bump n) = r_v n" "r_children (bump n) = r_children n"
  "r_tokens (with_children n cs) = r_tokens n" "r_extra (with_children n cs) = r_extra n"
  "r_k (with_children n cs) = r_k n" "r_v (with_children n cs) = r_v n"
  "r_children (with_children n cs) = cs"
  by (cases n; simp add: bump_def with_children_def)+

lemma common_self [simp]: "common xs xs = length xs"
  by (induction xs) simp_all

lemma common_drop: "common (drop (common xs ys) xs) (drop (common xs ys) ys) = 0"
  by (induction xs ys rule: common.induct) auto

lemma common_take_self: "common xs (take (common xs ys) ys) = common xs ys"
  by (induction xs ys rule: common.induct) auto

lemma common_hd: "xs \<noteq> [] \<Longrightarrow> ys \<noteq> [] \<Longrightarrow> 0 < common xs ys \<longleftrightarrow> hd xs = hd ys"
  by (cases xs; cases ys) auto

text \<open>At most one child matches, so the order of the children does not matter.\<close>

lemma kids_unique:
  assumes "kids_ok cs" "c \<in> set cs" "d \<in> set cs" "\<forall>c \<in> set cs. r_tokens c \<noteq> []" "rest \<noteq> []"
    and "0 < matchedLength rest extra c" "0 < matchedLength rest extra d"
  shows "c = d"
proof -
  have "r_extra c = extra" "r_extra d = extra" "hd (r_tokens c) = hd rest" "hd (r_tokens d) = hd rest"
    using assms(2-7) common_hd [OF assms(5)] by (simp_all add: matchedLength_def split: if_splits)
  then have "(r_extra c, hd (r_tokens c)) = (r_extra d, hd (r_tokens d))" by simp
  with assms(1-3) show ?thesis by (simp add: kids_ok_def distinct_map inj_on_def)
qed

lemma kids_ok_replace:
  "kids_ok (as @ c # bs) \<Longrightarrow> r_extra d = r_extra c \<Longrightarrow> hd (r_tokens d) = hd (r_tokens c) \<Longrightarrow>
     kids_ok (as @ d # bs)"
  by (simp add: kids_ok_def)

lemma kids_ok_snoc:
  assumes "kids_ok cs" "\<forall>c \<in> set cs. matchedLength rest extra c = 0 \<and> r_tokens c \<noteq> []" "rest \<noteq> []"
    and "r_extra d = extra" "r_tokens d = rest"
  shows "kids_ok (cs @ [d])"
proof -
  have "(extra, hd rest) \<notin> (\<lambda>c. (r_extra c, hd (r_tokens c))) ` set cs"
    using assms(2) common_hd [OF assms(3)] by (fastforce simp: matchedLength_def)
  then show ?thesis using assms(1,4,5) by (simp add: kids_ok_def)
qed

subsection \<open>What a path yields\<close>

definition gather :: "(rnode \<Rightarrow> addr list list) \<Rightarrow> nat \<Rightarrow> (rnode \<times> nat) list \<Rightarrow> addr list" where
  "gather sel b path = concat (map (\<lambda>(n, len). take len (sel n ! b)) path)"

definition path_len :: "(rnode \<times> nat) list \<Rightarrow> nat" where
  "path_len path = sum_list (map snd path)"

lemma omap_all: "\<forall>x \<in> set xs. f x = Inr (g x) \<Longrightarrow> omap f xs = Inr (map g xs)"
  by (induction xs) simp_all

lemma take_addrs_ok:
  assumes "vals_ok blocks n ks" "b < blocks" "len \<le> n"
  shows "take_addrs ks b len = Inr (take len (ks ! b))"
proof -
  have l: "length (ks ! b) = n" "b < length ks" using assms by (auto simp: vals_ok_def)
  have "take_addrs ks b len = Inr (map (\<lambda>e. ks ! b ! e) [0..<len])"
    unfolding take_addrs_def using assms(3) l by (intro omap_all) (auto simp: vec_at_def)
  also have "map (\<lambda>e. ks ! b ! e) [0..<len] = take len (ks ! b)"
    using assms(3) l by (simp add: list_eq_iff_nth_eq)
  finally show ?thesis .
qed

lemma descend_nodes:
  "inner_ok blocks n \<Longrightarrow> \<forall>(c, len) \<in> set (descend n rest extra).
     node_ok blocks c \<and> 0 < len \<and> len \<le> length (r_tokens c)"
proof (induction n rest extra rule: descend.induct)
  case (2 n x xs extra)
  let ?rest = "x # xs"
  show ?case
  proof (cases "find_child ?rest extra (r_children n)")
    case (Some r)
    obtain as c bs where r: "r = (as, c, bs)" by (cases r)
    note s = Some [unfolded r]
    note f = find_child_SomeD [OF s]
    have c: "node_ok blocks c" using 2(2) f by (simp add: inner_ok_def)
    have "matchedLength ?rest extra c \<le> length (r_tokens c)"
      using common_le by (simp add: matchedLength_def)
    with 2(1) [OF s refl refl refl] c f show ?thesis
      using Some r by (auto simp: Let_def node_ok_iff)
  qed simp
qed simp

lemma flatten_path_ok:
  assumes "\<forall>(c, len) \<in> set path. vals_ok blocks (length (r_tokens c)) (sel c) \<and> len \<le> length (r_tokens c)"
    and "b < blocks"
  shows "flatten_path sel path b = Inr (gather sel b path)"
proof -
  have "omap (\<lambda>(n, len). take_addrs (sel n) b len) path = Inr (map (\<lambda>(n, len). take len (sel n ! b)) path)"
    by (rule omap_all) (use assms take_addrs_ok in fastforce)
  then show ?thesis by (simp add: flatten_path_def gather_def)
qed

lemma flatten_root:
  assumes "inner_ok blocks n" "b < blocks" "\<And>c. node_ok blocks c \<Longrightarrow> vals_ok blocks (length (r_tokens c)) (sel c)"
  shows "flatten_path sel ((n, 0) # descend n rest extra) b = Inr (gather sel b (descend n rest extra))"
proof -
  have "flatten_path sel (descend n rest extra) b = Inr (gather sel b (descend n rest extra))"
    by (rule flatten_path_ok [OF _ assms(2)])
      (use descend_nodes [OF assms(1)] assms(3) in fastforce)
  then show ?thesis by (auto simp: flatten_path_def take_addrs_def outcome_simps)
qed

lemma search_ok:
  assumes "tree_ok t"
  and p_def: "p = descend (rt_root t) tokens extra"
  shows "tree_search t tokens extra = Inr \<lparr>sr_success = (path_len p \<noteq> 0), sr_matched = path_len p,
    sr_path = (rt_root t, 0) # p, sr_k = map (\<lambda>b. gather r_k b p) [0..<rt_blocks t],
    sr_v = map (\<lambda>b. gather r_v b p) [0..<rt_blocks t]\<rparr>"
proof -
  have ok: "inner_ok (rt_blocks t) (rt_root t)" using assms(1) by (simp add: tree_ok_def)
  have k: "omap (flatten_path r_k ((rt_root t, 0) # p)) [0..<rt_blocks t] =
      Inr (map (\<lambda>b. gather r_k b p) [0..<rt_blocks t])"
    unfolding p_def by (intro omap_all) (auto intro!: flatten_root [OF ok] simp: node_ok_iff)
  have v: "omap (flatten_path r_v ((rt_root t, 0) # p)) [0..<rt_blocks t] =
      Inr (map (\<lambda>b. gather r_v b p) [0..<rt_blocks t])"
    unfolding p_def by (intro omap_all) (auto intro!: flatten_root [OF ok] simp: node_ok_iff)
  have z: "p = []" if "path_len p = 0"
    using that descend_nodes [OF ok, of tokens extra] by (cases p) (auto simp: p_def path_len_def)
  show ?thesis
  proof (cases "path_len p = 0")
    case True
    then show ?thesis using z
      by (simp add: tree_search_def path_len_def p_def [symmetric] gather_def map_replicate_const)
  next
    case False
    then show ?thesis using k v by (simp add: tree_search_def path_len_def p_def [symmetric] Let_def)
  qed
qed

subsection \<open>What an insertion does\<close>

lemma block_views_ok:
  assumes "long_enough blocks (off + len) ks" "long_enough blocks (off + len) vs"
  shows "block_views blocks ks vs off len =
    Inr (map (\<lambda>b. (take len (drop off (ks ! b)), take len (drop off (vs ! b)))) [0..<blocks])"
  unfolding block_views_def
  by (rule omap_all) (use assms in \<open>auto simp: long_enough_def vec_at_def subview_def\<close>)

lemma vals_long: "vals_ok blocks n ks \<Longrightarrow> m \<le> n \<Longrightarrow> long_enough blocks m ks"
  by (auto simp: vals_ok_def long_enough_def)

lemma vals_map: "\<forall>b < blocks. length (f b) = n \<Longrightarrow> vals_ok blocks n (map f [0..<blocks])"
  by (auto simp: vals_ok_def)

lemma split_node_ok:
  assumes n: "node_ok blocks n" and p: "0 < pos" "pos < length (r_tokens n)"
  shows "\<exists>up lo. split_node blocks n pos = Inr up \<and> node_ok blocks up \<and> nodes up = nodes n + 1 \<and>
    r_tokens up = take pos (r_tokens n) \<and> r_extra up = r_extra n \<and> r_children up = [lo] \<and>
    r_tokens lo = drop pos (r_tokens n) \<and> r_extra lo = r_extra n \<and> r_children lo = r_children n \<and>
    (\<forall>b < blocks. r_k up ! b = take pos (r_k n ! b) \<and> r_v up ! b = take pos (r_v n ! b))"
proof -
  let ?sz = "length (r_tokens n)"
  let ?cut = "\<lambda>off len ks. map (\<lambda>b. take len (drop off (ks ! b))) [0..<blocks]"
  have v: "vals_ok blocks ?sz (r_k n)" "vals_ok blocks ?sz (r_v n)" using n by (simp_all add: node_ok_iff)
  have bl: "\<And>b. b < blocks \<Longrightarrow> length (r_k n ! b) = ?sz \<and> length (r_v n ! b) = ?sz"
    "length (r_k n) = blocks" "length (r_v n) = blocks"
    using v by (auto simp: vals_ok_def)
  define lo where "lo = RNode (drop pos (r_tokens n)) (r_extra n) (?cut pos (?sz - pos) (r_k n))
    (?cut pos (?sz - pos) (r_v n)) 0 (r_children n)"
  define up where "up = RNode (take pos (r_tokens n)) (r_extra n) (?cut 0 pos (r_k n))
    (?cut 0 pos (r_v n)) (r_ref n) [lo]"
  have "block_views blocks (r_k n) (r_v n) pos (?sz - pos) =
      Inr (map (\<lambda>b. (take (?sz - pos) (drop pos (r_k n ! b)), take (?sz - pos) (drop pos (r_v n ! b)))) [0..<blocks])"
    "block_views blocks (r_k n) (r_v n) 0 pos =
      Inr (map (\<lambda>b. (take pos (drop 0 (r_k n ! b)), take pos (drop 0 (r_v n ! b)))) [0..<blocks])"
    using block_views_ok [of blocks pos "?sz - pos" "r_k n" "r_v n"]
      block_views_ok [of blocks 0 pos "r_k n" "r_v n"] vals_long [OF v(1)] vals_long [OF v(2)] p
    by simp_all
  then have "split_node blocks n pos = Inr up"
    by (simp add: split_node_def emplace_def clash_def Let_def up_def lo_def bl comp_def)
  moreover have lo: "node_ok blocks lo"
    using n p bl by (auto simp: lo_def node_ok_iff [of _ n] inner_ok_def intro!: vals_map)
  have "node_ok blocks up"
    using n p bl lo by (auto simp: up_def node_ok_iff [of _ n] inner_ok_def kids_ok_def intro!: vals_map)
  moreover have "nodes up = nodes n + 1" by (simp add: up_def lo_def nodes_eq [of n])
  ultimately show ?thesis using bl by (auto simp: up_def lo_def)
qed

lemma add_leaf_ok:
  assumes n: "inner_ok blocks n" and r: "rest \<noteq> []"
    and no: "find_child rest extra (r_children n) = None"
    and k: "long_enough blocks (matched + length rest) vk" "long_enough blocks (matched + length rest) vv"
    and cl: "\<not> clash (r_children n) rest extra"
  shows "\<exists>n' leaf. add_leaf blocks n rest extra matched vk vv = Inr n' \<and> inner_ok blocks n' \<and>
    r_children n' = r_children n @ [leaf] \<and> all_extra extra leaf \<and> nodes n' = nodes n + 1 \<and> r_tokens n' = r_tokens n \<and> r_extra n' = r_extra n \<and> r_k n' = r_k n \<and>
    r_v n' = r_v n \<and> descend n' rest extra = [(leaf, length rest)] \<and>
    (\<forall>b < blocks. take (length rest) (r_k leaf ! b) = take (length rest) (drop matched (vk ! b)) \<and>
      take (length rest) (r_v leaf ! b) = take (length rest) (drop matched (vv ! b)))"
proof -
  let ?cut = "\<lambda>ks. map (\<lambda>b. take (length rest) (drop matched (ks ! b))) [0..<blocks]"
  define leaf where "leaf = RNode rest extra (?cut vk) (?cut vv) 0 []"
  define n' where "n' = with_children n (r_children n @ [leaf])"
  have m0: "\<forall>c \<in> set (r_children n). matchedLength rest extra c = 0"
    using no by (simp add: find_child_None)
  have "r_tokens c \<noteq> rest" if "c \<in> set (r_children n)" for c
    using m0 cl that r by (auto simp: matchedLength_def clash_def)
  then have "emplace (r_children n) leaf = Inr (r_children n @ [leaf])"
    using cl by (auto simp: emplace_def leaf_def)
  then have "add_leaf blocks n rest extra matched vk vv = Inr n'"
    by (cases n) (simp add: add_leaf_def block_views_ok [OF k] n'_def leaf_def with_children_def comp_def)
  moreover have lok: "node_ok blocks leaf"
    using k r by (auto simp: leaf_def kids_ok_def long_enough_def intro!: vals_map)
  have "kids_ok (r_children n @ [leaf])"
    by (rule kids_ok_snoc [OF _ _ r]) (use n m0 node_ok_tokens in \<open>auto simp: inner_ok_def leaf_def\<close>)
  then have "inner_ok blocks n'" using n lok by (auto simp: n'_def inner_ok_def)
  moreover have "nodes n' = nodes n + 1"
    unfolding nodes_eq [of n'] nodes_eq [of n] by (simp add: n'_def leaf_def)
  moreover have ml: "matchedLength rest extra leaf = length rest"
    by (simp add: matchedLength_def leaf_def)
  have "find_child rest extra (r_children n @ [leaf]) = Some (r_children n, leaf, [])"
    by (rule find_child_app) (use m0 ml r in auto)
  then have "descend n' rest extra = [(leaf, length rest)]"
    using r ml by (cases rest) (simp_all add: n'_def)
  moreover have "r_tokens n' = r_tokens n" "r_extra n' = r_extra n" "r_k n' = r_k n" "r_v n' = r_v n"
    by (simp_all add: n'_def)
  moreover have "\<forall>b < blocks. take (length rest) (r_k leaf ! b) = take (length rest) (drop matched (vk ! b)) \<and>
      take (length rest) (r_v leaf ! b) = take (length rest) (drop matched (vv ! b))"
    by (simp add: leaf_def)
  moreover have "r_children n' = r_children n @ [leaf]" "all_extra extra leaf" by (simp_all add: n'_def leaf_def)
  ultimately show ?thesis
    by - (rule exI [of _ n'], rule exI [of _ leaf], intro conjI, assumption+)
qed

text \<open>What the descent yields after an insertion below \<open>n\<close>.\<close>

definition descent_grows ::
  "nat \<Rightarrow> rnode \<Rightarrow> rnode \<Rightarrow> int list \<Rightarrow> int \<Rightarrow> nat \<Rightarrow> addr list list \<Rightarrow> addr list list \<Rightarrow> bool" where
  "descent_grows blocks n n' rest extra matched vk vv \<longleftrightarrow>
     (let p = descend n rest extra; p' = descend n' rest extra; m = path_len p in
      path_len p' = length rest \<and>
      (\<forall>b < blocks. gather r_k b p' = gather r_k b p @ take (length rest - m) (drop (matched + m) (vk ! b)) \<and>
         gather r_v b p' = gather r_v b p @ take (length rest - m) (drop (matched + m) (vv ! b))))"

lemma add_leaf_clash:
  assumes "long_enough blocks (matched + length rest) vk" "long_enough blocks (matched + length rest) vv"
    and "clash (r_children n) rest extra"
  shows "add_leaf blocks n rest extra matched vk vv = Inl Undefined"
  using assms(3) by (cases n) (simp add: add_leaf_def block_views_ok [OF assms(1,2)] emplace_def)

text \<open>How much of the node itself survives: at least the \<open>em\<close> tokens that matched.\<close>

definition node_keeps :: "nat \<Rightarrow> nat \<Rightarrow> rnode \<Rightarrow> rnode \<Rightarrow> bool" where
  "node_keeps blocks em n n' \<longleftrightarrow> r_extra n' = r_extra n \<and>
     (r_tokens n' = r_tokens n \<and> r_k n' = r_k n \<and> r_v n' = r_v n \<or>
      0 < em \<and> em < length (r_tokens n) \<and> r_tokens n' = take em (r_tokens n) \<and>
      (\<forall>b < blocks. r_k n' ! b = take em (r_k n ! b) \<and> r_v n' ! b = take em (r_v n ! b)))"

text \<open>What an insertion below \<open>n\<close> that meets no other extra key gives.\<close>

definition insert_good ::
  "nat \<Rightarrow> rnode \<Rightarrow> nat \<Rightarrow> int list \<Rightarrow> int \<Rightarrow> nat \<Rightarrow> addr list list \<Rightarrow> addr list list \<Rightarrow> rnode \<Rightarrow> int \<Rightarrow> bool" where
  "insert_good blocks n em rest extra matched vk vv n' cr \<longleftrightarrow>
     inner_ok blocks n' \<and> nodes n' = nodes n + cr \<and> node_keeps blocks em n n' \<and>
     (0 < em \<longrightarrow> node_ok blocks n') \<and> (kids_extra extra n \<longrightarrow> kids_extra extra n') \<and>
     descent_grows blocks n n' rest extra matched vk vv"

definition insert_ends :: "int \<Rightarrow> rnode \<Rightarrow> fault option \<Rightarrow> bool \<Rightarrow> bool" where
  "insert_ends extra n err good \<longleftrightarrow> err = None \<and> good \<or> err = Some Undefined \<and> \<not> kids_extra extra n"

lemma insert_here_ok:
  assumes n: "inner_ok blocks n" and r: "rest \<noteq> []"
    and em: "0 < em \<Longrightarrow> node_ok blocks n \<and> em \<le> length (r_tokens n) \<and> common rest (drop em (r_tokens n)) = 0 \<and>
      r_extra n = extra"
    and no: "find_child rest extra (r_children n) = None"
    and k: "long_enough blocks (matched + length rest) vk" "long_enough blocks (matched + length rest) vv"
  shows "\<exists>n' cr err. insert_here blocks n em rest extra matched vk vv = (n', cr, err) \<and>
    insert_ends extra n err (insert_good blocks n em rest extra matched vk vv n' cr)"
proof -
  have d: "descend n rest extra = []" using no by (cases rest) simp_all
  show ?thesis
  proof (cases "0 < em \<and> em < length (r_tokens n)")
    case True
    then have nok: "node_ok blocks n" and cm: "common rest (drop em (r_tokens n)) = 0" and x: "r_extra n = extra"
      using em by auto
    obtain up lo where up: "split_node blocks n em = Inr up" "node_ok blocks up" "nodes up = nodes n + 1"
      "r_tokens up = take em (r_tokens n)" "r_extra up = r_extra n" "r_children up = [lo]"
      "r_tokens lo = drop em (r_tokens n)" "r_extra lo = r_extra n" "r_children lo = r_children n"
      "\<forall>b < blocks. r_k up ! b = take em (r_k n ! b) \<and> r_v up ! b = take em (r_v n ! b)"
      using split_node_ok [OF nok] True by blast
    have iu: "inner_ok blocks up" using up(2) by (simp add: node_ok_iff)
    have no': "find_child rest extra (r_children up) = None"
      using cm up(6,7) by (simp add: find_child_None matchedLength_def)
    have cl: "\<not> clash (r_children up) rest extra" using up(6,8) x by (simp add: clash_def)
    obtain n' leaf where n': "add_leaf blocks up rest extra matched vk vv = Inr n'" "inner_ok blocks n'"
      "r_children n' = r_children up @ [leaf]" "all_extra extra leaf"
      "nodes n' = nodes up + 1" "r_tokens n' = r_tokens up" "r_extra n' = r_extra up"
      "r_k n' = r_k up" "r_v n' = r_v up" "descend n' rest extra = [(leaf, length rest)]"
      "\<forall>b < blocks. take (length rest) (r_k leaf ! b) = take (length rest) (drop matched (vk ! b)) \<and>
        take (length rest) (r_v leaf ! b) = take (length rest) (drop matched (vv ! b))"
      using add_leaf_ok [OF iu r no' k cl] by blast
    have "insert_here blocks n em rest extra matched vk vv = (n', 2, None)"
      using True up(1) n'(1) by (simp add: insert_here_def)
    moreover have "node_ok blocks n'" using up(2) n' by (simp add: node_ok_iff)
    moreover have "kids_extra extra n \<longrightarrow> kids_extra extra n'"
      using n'(3,4) up(6,8,9) x by (simp add: kids_extra_def all_extra_iff [of _ lo])
    ultimately show ?thesis using n' up d True
      by (simp add: insert_ends_def insert_good_def node_keeps_def descent_grows_def path_len_def gather_def Let_def)
  next
    case False
    show ?thesis
    proof (cases "clash (r_children n) rest extra")
      case True
      then have "\<not> kids_extra extra n" using clash_one_key [of "r_children n" extra rest] by (auto simp: kids_extra_def)
      moreover have "insert_here blocks n em rest extra matched vk vv = (n, 0, Some Undefined)"
        unfolding insert_here_def Let_def if_not_P [OF False] using add_leaf_clash [OF k True] by simp
      ultimately show ?thesis by (simp add: insert_ends_def)
    next
      case cl: False
      obtain n' leaf where n': "add_leaf blocks n rest extra matched vk vv = Inr n'" "inner_ok blocks n'"
        "r_children n' = r_children n @ [leaf]" "all_extra extra leaf"
        "nodes n' = nodes n + 1" "r_tokens n' = r_tokens n" "r_extra n' = r_extra n"
        "r_k n' = r_k n" "r_v n' = r_v n" "descend n' rest extra = [(leaf, length rest)]"
        "\<forall>b < blocks. take (length rest) (r_k leaf ! b) = take (length rest) (drop matched (vk ! b)) \<and>
          take (length rest) (r_v leaf ! b) = take (length rest) (drop matched (vv ! b))"
        using add_leaf_ok [OF n r no k cl] by blast
      have "insert_here blocks n em rest extra matched vk vv = (n', 1, None)"
        unfolding insert_here_def Let_def if_not_P [OF False] using n'(1) by simp
      moreover have "0 < em \<longrightarrow> node_ok blocks n'" using em n' by (simp add: node_ok_iff)
      moreover have "kids_extra extra n \<longrightarrow> kids_extra extra n'" using n'(3,4) by (simp add: kids_extra_def)
      ultimately show ?thesis using n' d
        by (simp add: insert_ends_def insert_good_def node_keeps_def descent_grows_def path_len_def gather_def Let_def)
    qed
  qed
qed

lemma matched_after_keep:
  assumes "node_keeps blocks (matchedLength rest extra c) c c'" "0 < matchedLength rest extra c"
  shows "matchedLength rest extra c' = matchedLength rest extra c"
proof -
  let ?m = "common rest (r_tokens c)"
  have e: "extra = r_extra c" using assms(2) by (simp add: matchedLength_def split: if_splits)
  then have m: "matchedLength rest extra c = ?m" "r_extra c' = extra"
    using assms(1) by (simp_all add: matchedLength_def node_keeps_def)
  have "r_tokens c' = r_tokens c \<or> r_tokens c' = take ?m (r_tokens c)"
    using assms(1) unfolding m(1) node_keeps_def by blast
  then have "common rest (r_tokens c') = ?m" by (auto simp: common_take_self)
  then show ?thesis using m by (simp add: matchedLength_def)
qed

lemma keep_take:
  assumes "node_keeps blocks em c c'" "b < blocks"
  shows "take em (r_k c' ! b) = take em (r_k c ! b) \<and> take em (r_v c' ! b) = take em (r_v c ! b)"
  using assms by (auto simp: node_keeps_def)

lemma descend_step:
  "rest \<noteq> [] \<Longrightarrow> find_child rest extra (r_children n) = Some (as, c, bs) \<Longrightarrow>
     descend n rest extra = (c, matchedLength rest extra c) #
       descend c (drop (matchedLength rest extra c) rest) extra"
  by (cases rest) (simp_all add: Let_def)

lemma descent_grows_step:
  assumes r: "rest \<noteq> []" and f: "find_child rest extra (r_children n) = Some (as, c, bs)"
    and kp: "node_keeps blocks (matchedLength rest extra c) c c'"
    and ch: "r_children n' = as @ c' # bs"
    and g: "descent_grows blocks c c' (drop (matchedLength rest extra c) rest) extra
      (matched + matchedLength rest extra c) vk vv"
  shows "descent_grows blocks n n' rest extra matched vk vv"
proof -
  let ?ml = "matchedLength rest extra c"
  note s = find_child_SomeD [OF f]
  have ml: "matchedLength rest extra c' = ?ml" by (rule matched_after_keep [OF kp]) (use s in blast)
  have "find_child rest extra (r_children n') = Some (as, c', bs)"
    unfolding ch by (rule find_child_app) (use s ml in auto)
  note d' = descend_step [OF r this, unfolded ml] and d = descend_step [OF r f]
  have le: "?ml \<le> length rest" by (rule matchedLength_le)
  show ?thesis using g keep_take [OF kp] le
    unfolding descent_grows_def d d' Let_def
    by (simp add: path_len_def gather_def ac_simps)
qed

lemma inner_ok_replace:
  assumes n: "inner_ok blocks n" "r_children n = as @ c # bs"
    and c': "node_ok blocks c'" and kp: "node_keeps blocks em c c'" "0 < em"
  shows "inner_ok blocks (with_children n (as @ c' # bs))"
proof -
  have "r_tokens c \<noteq> []" using n node_ok_tokens by (auto simp: inner_ok_def)
  then have "hd (r_tokens c') = hd (r_tokens c)" "r_extra c' = r_extra c"
    using kp by (auto simp: node_keeps_def)
  then have "kids_ok (as @ c' # bs)"
    using kids_ok_replace [of as c bs c'] n by (simp add: inner_ok_def)
  then show ?thesis using n c' by (auto simp: inner_ok_def)
qed

lemma nodes_replace:
  "r_children n = as @ c # bs \<Longrightarrow> nodes c' = nodes c + cr \<Longrightarrow>
     nodes (with_children n (as @ c' # bs)) = nodes n + cr"
  by (simp add: nodes_eq [of n] nodes_eq [of "with_children _ _"])

text \<open>The parent of a node that was split takes it back under its new key, unless another extra key is met.\<close>

lemma rekey_ok:
  assumes k: "kids_ok (as @ c # bs)" "r_extra c' = r_extra c" "hd (r_tokens c') = hd (r_tokens c)"
    and ne: "r_tokens c' \<noteq> []" "\<forall>d \<in> set (as @ c # bs). r_tokens d \<noteq> []"
  shows "rekey as c c' bs = Inr (as @ c' # bs) \<or>
    rekey as c c' bs = Inl Undefined \<and> (\<exists>d \<in> set (as @ bs). r_extra d \<noteq> r_extra c)"
proof (cases "clash (as @ bs) (r_tokens c) (r_extra c) \<or> clash (as @ bs) (r_tokens c') (r_extra c')")
  case True
  then have "\<exists>d \<in> set (as @ bs). r_extra d \<noteq> r_extra c" using k(2) by (auto simp: clash_def)
  then show ?thesis using True by (auto simp: rekey_def emplace_def)
next
  case False
  have "r_tokens d \<noteq> r_tokens c'" if d: "d \<in> set (as @ bs)" for d
  proof
    assume e: "r_tokens d = r_tokens c'"
    then have "r_extra d = r_extra c" using False d k(2) by (auto simp: clash_def)
    with e have "(r_extra d, hd (r_tokens d)) = (r_extra c, hd (r_tokens c))" using k(3) by simp
    then have "(r_extra c, hd (r_tokens c)) \<in> (\<lambda>c. (r_extra c, hd (r_tokens c))) ` set (as @ bs)"
      using d by (metis (no_types, lifting) imageI)
    then show False using k(1) by (auto simp: kids_ok_def)
  qed
  then have "\<not> (\<exists>d \<in> set (as @ bs). r_tokens d = r_tokens c')" by blast
  then have "emplace (as @ bs) c' = Inr ((as @ bs) @ [c'])" using False by (simp add: emplace_def)
  then show ?thesis using False by (simp add: rekey_def)
qed

lemma insert_node_ok:
  assumes "inner_ok blocks n"
    and "0 < em \<Longrightarrow> node_ok blocks n \<and> em \<le> length (r_tokens n) \<and> common rest (drop em (r_tokens n)) = 0 \<and>
      r_extra n = extra"
    and "long_enough blocks (matched + length rest) vk" "long_enough blocks (matched + length rest) vv"
  shows "\<exists>n' cr err. insert_node blocks n em rest extra matched vk vv = (n', cr, err) \<and>
    insert_ends extra n err (insert_good blocks n em rest extra matched vk vv n' cr)"
  using assms
proof (induction blocks n em rest extra matched vk vv rule: insert_node.induct)
  case (1 blocks n em extra matched vk vv)
  have "inner_ok blocks (bump n)" using 1(1) by (simp add: inner_ok_def)
  moreover have "node_ok blocks n \<Longrightarrow> node_ok blocks (bump n)" by (cases n) (simp add: bump_def)
  moreover have "nodes (bump n) = nodes n" by (cases n) (simp add: bump_def)
  ultimately show ?case using 1(2)
    by (auto simp: insert_ends_def insert_good_def kids_extra_def node_keeps_def descent_grows_def path_len_def gather_def)
next
  case (2 blocks n em x xs extra matched vk vv)
  let ?rest = "x # xs"
  show ?case
  proof (cases "find_child ?rest extra (r_children n)")
    case None
    then show ?thesis using insert_here_ok [OF 2(2) _ 2(3) None 2(4,5)] by simp
  next
    case (Some r)
    obtain as c bs where r: "r = (as, c, bs)" by (cases r)
    note f = Some [unfolded r]
    note s = find_child_SomeD [OF f]
    let ?ml = "matchedLength ?rest extra c"
    have c: "node_ok blocks c" using 2(2) s by (simp add: inner_ok_def)
    then have ic: "inner_ok blocks c" by (simp add: node_ok_iff)
    have x: "r_extra c = extra" and ml: "?ml = common ?rest (r_tokens c)"
      using s by (simp_all add: matchedLength_def split: if_splits)
    have cd: "node_ok blocks c \<and> ?ml \<le> length (r_tokens c) \<and>
        common (drop ?ml ?rest) (drop ?ml (r_tokens c)) = 0 \<and> r_extra c = extra"
      unfolding ml using c x common_le common_drop by blast
    have len: "matched + ?ml + length (drop ?ml ?rest) = matched + length ?rest"
      using matchedLength_le [of ?rest extra c] by simp
    have l: "long_enough blocks (matched + ?ml + length (drop ?ml ?rest)) vk"
      "long_enough blocks (matched + ?ml + length (drop ?ml ?rest)) vv"
      using 2(4,5) by (simp_all only: len)
    obtain c' cr err where c': "insert_node blocks c ?ml (drop ?ml ?rest) extra (matched + ?ml) vk vv = (c', cr, err)"
      "insert_ends extra c err (insert_good blocks c ?ml (drop ?ml ?rest) extra (matched + ?ml) vk vv c' cr)"
      using 2(1) [OF f refl refl refl ic cd l] by (elim exE conjE) rule
    show ?thesis
    proof (cases err)
      case (Some e)
      then have "e = Undefined" "\<not> kids_extra extra n"
        using c'(2) s by (auto simp: insert_ends_def kids_extra_def all_extra_iff [of _ c])
      moreover have "\<exists>n'. insert_node blocks n em ?rest extra matched vk vv = (n', cr, Some Undefined)"
        using c'(1) f Some calculation(1) by (auto simp: Let_def rekey_def emplace_def split: sum.splits)
      ultimately show ?thesis by (fastforce simp: insert_ends_def)
    next
      case None
      then have g: "insert_good blocks c ?ml (drop ?ml ?rest) extra (matched + ?ml) vk vv c' cr"
        using c'(2) by (simp add: insert_ends_def)
      then have c'ok: "node_ok blocks c'" "node_keeps blocks ?ml c c'" using s by (simp_all add: insert_good_def)
      have ne: "r_tokens d \<noteq> []" if "d \<in> set (r_children n)" for d
        using 2(2) that node_ok_tokens by (auto simp: inner_ok_def)
      have k: "kids_ok (as @ c # bs)" "r_extra c' = r_extra c" "hd (r_tokens c') = hd (r_tokens c)"
        using 2(2) s c'ok(2) by (auto simp: inner_ok_def node_keeps_def)
      let ?n' = "with_children n (as @ c' # bs)"
      from rekey_ok [OF k node_ok_tokens [OF c'ok(1)]] ne s
      have "rekey as c c' bs = Inr (as @ c' # bs) \<or>
        rekey as c c' bs = Inl Undefined \<and> (\<exists>d \<in> set (as @ bs). r_extra d \<noteq> r_extra c)" by simp
      then show ?thesis
      proof (elim disjE conjE)
        assume "rekey as c c' bs = Inl Undefined" "\<exists>d \<in> set (as @ bs). r_extra d \<noteq> r_extra c"
        moreover from this obtain d where "d \<in> set (as @ bs)" "\<not> all_extra extra d" using x all_extra_iff by blast
        then have "\<not> kids_extra extra n" using s by (auto simp: kids_extra_def)
        ultimately show ?thesis using c'(1) f by (simp add: Let_def insert_ends_def)
      next
        assume k: "rekey as c c' bs = Inr (as @ c' # bs)"
        have "inner_ok blocks ?n'"
          by (rule inner_ok_replace [OF 2(2) _ _ c'ok(2)]) (use s c'ok(1) in auto)
        moreover have "nodes ?n' = nodes n + cr" by (rule nodes_replace) (use s g in \<open>auto simp: insert_good_def\<close>)
        moreover have "descent_grows blocks n ?n' ?rest extra matched vk vv"
          by (rule descent_grows_step [OF _ f c'ok(2)]) (use g in \<open>simp_all add: insert_good_def\<close>)
        moreover have "insert_node blocks n em ?rest extra matched vk vv = (?n', cr, None)"
          using c'(1) k None by (simp add: f Let_def)
        moreover have "0 < em \<longrightarrow> node_ok blocks ?n'"
          using 2(3) calculation(1) by (simp add: node_ok_iff)
        moreover have "kids_extra extra n \<longrightarrow> kids_extra extra ?n'"
          using g s c'ok(2) all_extra_iff [of extra c] all_extra_iff [of extra c']
          by (simp add: insert_good_def kids_extra_def [of _ n] kids_extra_def [of _ ?n'] node_keeps_def)
        ultimately show ?thesis by (simp add: insert_ends_def insert_good_def node_keeps_def)
      qed
    qed
  qed
qed

subsection \<open>The index as a whole\<close>

lemma tree_insert_ok:
  assumes "tree_ok t" "tokens \<noteq> []"
    and "long_enough (rt_blocks t) (length tokens) vk" "long_enough (rt_blocks t) (length tokens) vv"
  shows "\<exists>t' r. tree_insert t tokens extra vk vv = (t', r) \<and>
    (r = Inr True \<and> tree_ok t' \<and> rt_blocks t' = rt_blocks t \<and> (one_key extra t \<longrightarrow> one_key extra t') \<and>
       descent_grows (rt_blocks t) (rt_root t) (rt_root t') tokens extra 0 vk vv \<or>
     r = Inl Undefined \<and> \<not> one_key extra t)"
proof -
  have i: "inner_ok (rt_blocks t) (rt_root t)" using assms(1) by (simp add: tree_ok_def)
  obtain n' cr err where n': "insert_node (rt_blocks t) (rt_root t) 0 tokens extra 0 vk vv = (n', cr, err)"
    "insert_ends extra (rt_root t) err (insert_good (rt_blocks t) (rt_root t) 0 tokens extra 0 vk vv n' cr)"
    using insert_node_ok [OF i, of 0 tokens extra 0 vk vv] assms(3,4) by auto
  then show ?thesis using assms(1,2)
    by (auto simp: tree_insert_def tree_ok_def insert_ends_def insert_good_def one_key_def)
qed

lemma tree_insert_one_key:
  assumes "tree_ok t" "tokens \<noteq> []" "one_key extra t"
    and "long_enough (rt_blocks t) (length tokens) vk" "long_enough (rt_blocks t) (length tokens) vv"
  shows "\<exists>t'. tree_insert t tokens extra vk vv = (t', Inr True) \<and> tree_ok t' \<and> rt_blocks t' = rt_blocks t \<and>
    one_key extra t'"
  using tree_insert_ok [OF assms(1,2,4,5), of extra] assms(3) by blast


lemma search_extends:
  assumes "tree_ok t" "tokens \<noteq> []" "long_enough (rt_blocks t) (length tokens) vk"
    and "long_enough (rt_blocks t) (length tokens) vv"
    and "tree_insert t tokens extra vk vv = (t', Inr r)" "tree_search t tokens extra = Inr old"
  shows "\<exists>new. tree_search t' tokens extra = Inr new \<and> sr_matched new = length tokens \<and>
    (\<forall>b < rt_blocks t.
       sr_k new ! b = sr_k old ! b @ drop (sr_matched old) (take (length tokens) (vk ! b)) \<and>
       sr_v new ! b = sr_v old ! b @ drop (sr_matched old) (take (length tokens) (vv ! b)))"
proof -
  let ?p = "descend (rt_root t) tokens extra"
  have t': "tree_ok t'" "rt_blocks t' = rt_blocks t"
    "descent_grows (rt_blocks t) (rt_root t) (rt_root t') tokens extra 0 vk vv"
    using tree_insert_ok [OF assms(1-4), of extra] assms(5) by auto
  have cut: "take (length tokens - m) (drop m a) = drop m (take (length tokens) a)" for m and a :: "addr list"
    by (simp add: drop_take)
  show ?thesis
    using search_ok [OF assms(1) refl, of tokens extra] search_ok [OF t'(1) refl, of tokens extra]
      t' assms(6) by (simp add: descent_grows_def Let_def cut)
qed

text \<open>
  C19: after an insertion that the maps of children allow (no two children with equal tokens and different
  extra keys) a search for the same sequence matches all of it. It returns the addresses that a search before
  the insertion would have returned, followed by the inserted addresses of the tokens that search did not match.
\<close>

theorem search_after_insert:
  assumes "tree_ok t" "tokens \<noteq> []" "long_enough (rt_blocks t) (length tokens) vk"
    and "long_enough (rt_blocks t) (length tokens) vv"
    and "tree_insert t tokens extra vk vv = (t', Inr r)" "tree_search t tokens extra = Inr old"
  shows "\<exists>new. tree_search t' tokens extra = Inr new \<and> sr_matched new = length tokens \<and>
    (\<forall>b < rt_blocks t.
       sr_k new ! b = sr_k old ! b @ drop (sr_matched old) (take (length tokens) (vk ! b)) \<and>
       sr_v new ! b = sr_v old ! b @ drop (sr_matched old) (take (length tokens) (vv ! b)))"
  using assms by (rule search_extends)

text \<open>Concrete insertions and searches.\<close>

lemma new_tree_ok [simp]: "tree_ok (new_tree blocks)"
  by (simp add: new_tree_def tree_ok_def inner_ok_def kids_ok_def)

lemma new_tree_one_key [simp]: "one_key e (new_tree blocks)"
  by (simp add: new_tree_def one_key_def kids_extra_def)

lemma tree_clear_ok: "tree_ok (tree_clear t)"
  by (cases "rt_root t") (simp add: tree_clear_def tree_ok_def inner_ok_def kids_ok_def)

lemma long_enough_single: "long_enough (Suc 0) n [a] \<longleftrightarrow> n \<le> length a"
  by (simp add: long_enough_def)

lemma new_tree_blocks [simp]: "rt_blocks (new_tree blocks) = blocks"
  by (simp add: new_tree_def)


theorem search_after_insert_witness:
  "\<exists>t' new. tree_insert (new_tree 1) [1, 2] 0 [[5, 6]] [[7, 8]] = (t', Inr True) \<and>
     tree_search t' [1, 2] 0 = Inr new \<and> sr_matched new = 2 \<and> sr_k new ! 0 = [5, 6] \<and> sr_v new ! 0 = [7, 8]"
proof -
  obtain t' where t': "tree_insert (new_tree 1) [1, 2] 0 [[5, 6]] [[7, 8]] = (t', Inr True)"
    using tree_insert_one_key [of "new_tree 1" "[1, 2]" 0 "[[5, 6]]" "[[7, 8]]"]
    by (auto simp: long_enough_single)
  have "tree_search (new_tree 1) [1, 2] 0 =
      Inr \<lparr>sr_success = False, sr_matched = 0, sr_path = [(rt_root (new_tree 1), 0)], sr_k = [[]], sr_v = [[]]\<rparr>"
    by (simp add: tree_search_def new_tree_def Let_def)
  from search_after_insert [OF _ _ _ _ t' this] t' show ?thesis
    by (auto simp: long_enough_single)
qed

text \<open>
  C32: A search can skip tokens: a node that matches only in part is still descended into. After
  \<open>xs @ ys\<close> and then \<open>xs @ ys @ [z]\<close> are inserted, a search for \<open>xs @ [z]\<close>, which was never
  inserted, reports all of its tokens as matched and answers for \<open>z\<close> with the addresses of a token
  that was computed after \<open>ys\<close>.
\<close>

theorem search_skips_tokens:
  assumes "xs \<noteq> []" "ys \<noteq> []" "z \<noteq> hd ys"
    and "length vk = length xs + length ys" "length vv = length xs + length ys"
  shows "\<exists>t1 t2 r. tree_insert (new_tree 1) (xs @ ys) extra [vk] [vv] = (t1, Inr True) \<and>
    tree_insert t1 (xs @ ys @ [z]) extra [vk @ [a]] [vv @ [b]] = (t2, Inr True) \<and>
    tree_search t2 (xs @ [z]) extra = Inr r \<and> sr_matched r = length xs + 1 \<and>
    sr_k r ! 0 = take (length xs) vk @ [a] \<and> sr_v r ! 0 = take (length xs) vv @ [b]"
proof -
  have com: "common (xs @ as) (xs @ bs) = length xs + common as bs" for as bs by (induction xs) simp_all
  have full: "common (xs @ ys @ [z]) (xs @ ys) = length xs + length ys"
  proof -
    have "common (ys @ [z]) ys = length ys" by (induction ys) simp_all
    then show ?thesis by (simp add: com)
  qed
  let ?n1 = "RNode (xs @ ys) extra [vk] [vv] 0 []" and ?l = "RNode [z] extra [[a]] [[b]] 0 []"
  let ?n2 = "RNode (xs @ ys) extra [vk] [vv] 0 [?l]"
  let ?t1 = "\<lparr>rt_blocks = 1, rt_root = RNode [-1] 0 [] [] 0 [?n1], rt_count = 2\<rparr>"
  let ?t2 = "\<lparr>rt_blocks = 1, rt_root = RNode [-1] 0 [] [] 0 [?n2], rt_count = 3\<rparr>"
  have cut: "subview (vk @ [a]) (length xs + length ys) 1 = Inr [a]"
    "subview (vv @ [b]) (length xs + length ys) 1 = Inr [b]" using assms(4,5) by (simp_all add: subview_def)
  have all: "subview vk 0 (length xs + length ys) = Inr vk"
    "subview vv 0 (length xs + length ys) = Inr vv" using assms(4,5) by (simp_all add: subview_def)
  obtain x xs' where xs: "xs = x # xs'" using assms(1) by (cases xs) auto
  have t1: "tree_insert (new_tree 1) (xs @ ys) extra [vk] [vv] = (?t1, Inr True)"
    using all by (simp add: tree_insert_def new_tree_def xs insert_here_def Let_def add_leaf_def
        emplace_def clash_def block_views_def vec_at_def)
  have "insert_node 1 ?n1 (length xs + length ys) [z] extra (length xs + length ys) [vk @ [a]] [vv @ [b]] =
      (?n2, 1, None)"
    using cut by (simp add: insert_here_def add_leaf_def emplace_def clash_def block_views_def vec_at_def)
  then have t2: "tree_insert ?t1 (xs @ ys @ [z]) extra [vk @ [a]] [vv @ [b]] = (?t2, Inr True)"
    using full by (simp add: tree_insert_def xs matchedLength_def Let_def with_children_def rekey_def)
  have "common [z] ys = 0" using assms(2,3) by (cases ys) auto
  then have d: "descend (rt_root ?t2) (xs @ [z]) extra = [(?n2, length xs), (?l, 1)]"
    using com [of "[z]" ys] by (simp add: xs matchedLength_def Let_def)
  have "tree_ok ?t2" using assms
    by (simp add: tree_ok_def inner_ok_def kids_ok_def vals_ok_def)
  from search_ok [OF this refl, of "xs @ [z]" extra, unfolded d] t1 t2 show ?thesis
    by (simp add: path_len_def gather_def)
qed

theorem search_skips_tokens_witness:
  "\<exists>t1 t2 r. tree_insert (new_tree 1) [1, 2, 3, 4] 0 [[10, 11, 12, 13]] [[20, 21, 22, 23]] = (t1, Inr True) \<and>
    tree_insert t1 [1, 2, 3, 4, 9] 0 [[10, 11, 12, 13, 14]] [[20, 21, 22, 23, 24]] = (t2, Inr True) \<and>
    tree_search t2 [1, 2, 9] 0 = Inr r \<and> sr_matched r = 3 \<and> sr_k r ! 0 = [10, 11, 14]"
  using search_skips_tokens [of "[1, 2]" "[3, 4]" 9 "[10, 11, 12, 13]" "[20, 21, 22, 23]" 0 14 24]
  by (auto simp: numeral_3_eq_3)

text \<open>
  One sequence under two extra keys is more than the map of the root can hold: the second leaf has the
  tokens of the first, but another hash.
\<close>

lemma two_keys_undefined:
  assumes "tokens \<noteq> []" "extra' \<noteq> extra" "long_enough n (length tokens) vk" "long_enough n (length tokens) vv"
  shows "\<exists>t t'. tree_insert (new_tree n) tokens extra vk vv = (t, Inr True) \<and>
    tree_insert t tokens extra' vk vv = (t', Inl Undefined)"
proof -
  obtain x xs where x: "tokens = x # xs" using assms(1) by (cases tokens) auto
  obtain t where t: "tree_insert (new_tree n) tokens extra vk vv = (t, Inr True)" "rt_blocks t = n"
    using tree_insert_one_key [of "new_tree n" tokens extra vk vv] assms by auto
  from t(1) obtain k v where r: "rt_root t = RNode [-1] 0 [] [] 0 [RNode tokens extra k v 0 []]"
    by (auto simp: tree_insert_def new_tree_def x insert_here_def add_leaf_def emplace_def clash_def Let_def
        obind_Inr_iff split: sum.splits)
  have none: "find_child tokens extra' (r_children (rt_root t)) = None"
    using r assms(2) by (simp add: matchedLength_def)
  have "add_leaf n (rt_root t) tokens extra' 0 vk vv = Inl Undefined"
    by (rule add_leaf_clash) (use assms r in \<open>simp_all add: clash_def\<close>)
  then have "insert_node n (rt_root t) 0 tokens extra' 0 vk vv = (rt_root t, 0, Some Undefined)"
    using none by (simp add: x insert_here_def)
  then have "tree_insert t tokens extra' vk vv = (t, Inl Undefined)"
    using t(2) assms(1) by (cases t) (simp add: tree_insert_def)
  then show ?thesis using t(1) by blast
qed

subsection \<open>The interface of the index\<close>

text \<open>What a client of the index relies on; \<open>found\<close> is the answer of a search for one block.\<close>

locale prefix_index =
  fixes insert_seq :: "'t \<Rightarrow> int list \<Rightarrow> int \<Rightarrow> addr list list \<Rightarrow> addr list list \<Rightarrow> 't \<times> bool outcome"
    and search :: "'t \<Rightarrow> int list \<Rightarrow> int \<Rightarrow> search_result outcome"
    and blocks :: "'t \<Rightarrow> nat"
    and invar :: "'t \<Rightarrow> bool"
    and keyed :: "int \<Rightarrow> 't \<Rightarrow> bool"
  assumes search_total: "invar t \<Longrightarrow> \<exists>r. search t tokens extra = Inr r"
    and insert_total: "invar t \<Longrightarrow> tokens \<noteq> [] \<Longrightarrow> keyed extra t \<Longrightarrow> long_enough (blocks t) (length tokens) vk \<Longrightarrow>
      long_enough (blocks t) (length tokens) vv \<Longrightarrow>
      \<exists>t'. insert_seq t tokens extra vk vv = (t', Inr True) \<and> invar t' \<and> blocks t' = blocks t \<and> keyed extra t'"
    and insert_search: "invar t \<Longrightarrow> tokens \<noteq> [] \<Longrightarrow> long_enough (blocks t) (length tokens) vk \<Longrightarrow>
      long_enough (blocks t) (length tokens) vv \<Longrightarrow> insert_seq t tokens extra vk vv = (t', Inr r) \<Longrightarrow>
      search t tokens extra = Inr old \<Longrightarrow>
      \<exists>new. search t' tokens extra = Inr new \<and> sr_matched new = length tokens \<and>
        (\<forall>b < blocks t.
           sr_k new ! b = sr_k old ! b @ drop (sr_matched old) (take (length tokens) (vk ! b)) \<and>
           sr_v new ! b = sr_v old ! b @ drop (sr_matched old) (take (length tokens) (vv ! b)))"
begin

text \<open>The addresses of the first insertion stay: a second one of the same sequence adds nothing.\<close>

lemma insert_twice:
  assumes "invar t" "tokens \<noteq> []" "keyed extra t"
    and "long_enough (blocks t) (length tokens) vk" "long_enough (blocks t) (length tokens) vv"
    and "long_enough (blocks t) (length tokens) wk" "long_enough (blocks t) (length tokens) wv"
  shows "\<exists>t1 t2 once twice. insert_seq t tokens extra vk vv = (t1, Inr True) \<and>
    insert_seq t1 tokens extra wk wv = (t2, Inr True) \<and> search t1 tokens extra = Inr once \<and>
    search t2 tokens extra = Inr twice \<and> sr_matched twice = length tokens \<and>
    (\<forall>b < blocks t. sr_k twice ! b = sr_k once ! b \<and> sr_v twice ! b = sr_v once ! b)"
proof -
  obtain old where old: "search t tokens extra = Inr old" using search_total [OF assms(1)] by blast
  obtain t1 where t1: "insert_seq t tokens extra vk vv = (t1, Inr True)" "invar t1" "blocks t1 = blocks t" "keyed extra t1"
    using insert_total [OF assms(1-5)] by blast
  obtain once where once: "search t1 tokens extra = Inr once" "sr_matched once = length tokens"
    using insert_search [OF assms(1,2,4,5) t1(1) old] by blast
  obtain t2 where t2: "insert_seq t1 tokens extra wk wv = (t2, Inr True)"
    using insert_total [OF t1(2) assms(2) t1(4)] assms(6,7) t1(3) by metis
  obtain twice where "search t2 tokens extra = Inr twice" "sr_matched twice = length tokens"
    "\<forall>b < blocks t. sr_k twice ! b = sr_k once ! b \<and> sr_v twice ! b = sr_v once ! b"
    using insert_search [OF t1(2) assms(2) _ _ t2 once(1)] assms(6,7) t1(3) once(2) by auto
  with t1(1) t2 once(1) show ?thesis by blast
qed

end

interpretation radix: prefix_index tree_insert tree_search rt_blocks tree_ok one_key
proof unfold_locales
  fix t tokens extra
  assume "tree_ok t"
  from search_ok [OF this refl] show "\<exists>r. tree_search t tokens extra = Inr r" by blast
qed (rule tree_insert_one_key search_extends; assumption)+

end
