(* ===== verification/Zen_FS.thy ===== *)
theory Zen_FS
  imports Tensor_View
begin

text \<open>
  The paged store of the prefix cache: \<^verbatim>\<open>mllm/engine/prefix_cache/TLB.{hpp,cpp}\<close> and
  \<^verbatim>\<open>ZenFS.{hpp,cpp}\<close>. A virtual address has 32 bits: blob, page, lane. Every blob has one bit per lane
  (a token) that says whether the lane is free. The first blob is in memory, the others are mapped;
  the results of \<^verbatim>\<open>mmap\<close> and the address of the first tensor are parameters. The blobs are an
  association list in the order in which the hash map is traversed.
\<close>

subsection \<open>Addresses\<close>

type_synonym vp_addr = "32 word"

definition getBlobAddr :: "vp_addr \<Rightarrow> nat \<Rightarrow> nat \<Rightarrow> vp_addr" where
  "getBlobAddr a page_bits lane_bits = drop_bit (page_bits + lane_bits) a"

definition getPageAddr :: "vp_addr \<Rightarrow> nat \<Rightarrow> nat \<Rightarrow> vp_addr" where
  "getPageAddr a page_bits lane_bits =
     (let m = push_bit page_bits 1 - 1 :: 64 word in ucast (ucast (drop_bit lane_bits a) AND m))"

definition getLaneAddr :: "vp_addr \<Rightarrow> nat \<Rightarrow> nat \<Rightarrow> vp_addr" where
  "getLaneAddr a page_bits lane_bits =
     (let m = push_bit lane_bits 1 - 1 :: 64 word in ucast (ucast a AND m))"

text \<open>The lookaside buffer. \<^verbatim>\<open>emplace\<close> keeps an existing entry.\<close>

type_synonym tlb = "vp_addr \<rightharpoonup> int"

definition tlb_insert :: "tlb \<Rightarrow> vp_addr \<Rightarrow> int \<Rightarrow> tlb" where
  "tlb_insert t a d = (case t a of None \<Rightarrow> t(a \<mapsto> d) | Some _ \<Rightarrow> t)"

definition tlb_remove :: "tlb \<Rightarrow> vp_addr \<Rightarrow> tlb" where
  "tlb_remove t a = t(a := None)"

definition tlb_lookup :: "tlb \<Rightarrow> vp_addr \<Rightarrow> int" where
  "tlb_lookup t a = (case t a of Some d \<Rightarrow> d | None \<Rightarrow> 0)"

subsection \<open>The state\<close>

datatype zen_mmap_type = kAnonymous | kFile

datatype zen_blob_type = kInMemory | kOnDiskMMAP | kZSTDCompressed

record zen_options =
  zo_record :: bool
  zo_dir :: string
  zo_blob_bits :: nat
  zo_page_bits :: nat
  zo_lane_bits :: nat
  zo_k_ele :: nat
  zo_v_ele :: nat
  zo_k_dtype :: dtype
  zo_v_dtype :: dtype
  zo_mmap :: zen_mmap_type

text \<open>
  \<open>bl_data\<close> is the address of the tensor's data, \<open>None\<close> for the nil tensor; \<open>bl_map\<close> the size of the
  mapping.
\<close>

record blob =
  bl_data :: "int option"
  bl_type :: zen_blob_type
  bl_map :: "nat option"
  bl_bits :: "64 word list"

record zenfs =
  z_opts :: zen_options
  z_token :: nat
  z_blobs :: "(vp_addr \<times> blob) list"

definition lane_count_bits :: "zen_options \<Rightarrow> nat" where
  "lane_count_bits o1 = zo_page_bits o1 + zo_lane_bits o1"

text \<open>\<open>1 << (page_bits + lane_bits)\<close>, an \<^verbatim>\<open>int\<close>.\<close>

definition lane_total :: "zen_options \<Rightarrow> int" where
  "lane_total o1 = to_i32 (2 ^ lane_count_bits o1)"

definition bitmap :: "zen_options \<Rightarrow> nat \<Rightarrow> 64 word list" where
  "bitmap o1 unit = replicate (nat (u64 (u64 (lane_total o1) + int unit - 1) div int unit)) (NOT 0)"

definition token_mem_size :: "zen_options \<Rightarrow> nat" where
  "token_mem_size o1 =
     nat (u64 (int (bytesOfType (zo_k_dtype o1)) * int (zo_k_ele o1))) div lanesOfType (zo_k_dtype o1)"

definition blob_shape_of :: "zen_options \<Rightarrow> int list" where
  "blob_shape_of o1 = [lane_total o1, to_i32 (int (zo_k_ele o1))]"

definition blob_insert :: "vp_addr \<Rightarrow> blob \<Rightarrow> (vp_addr \<times> blob) list \<Rightarrow> (vp_addr \<times> blob) list" where
  "blob_insert k b bs = (case map_of bs k of None \<Rightarrow> bs @ [(k, b)] | Some _ \<Rightarrow> bs)"

subsection \<open>Starting\<close>

text \<open>The time stamp in the index and the creation of the directory are left out.\<close>

definition zen_initialize :: "zen_options \<Rightarrow> int \<Rightarrow> zenfs outcome" where
  "zen_initialize o1 base =
     (if zo_k_ele o1 \<noteq> zo_v_ele o1 then Inl (Exit kCoreError)
      else if zo_k_dtype o1 \<noteq> zo_v_dtype o1 then Inl (Exit kCoreError)
      else obind (rt_assert (lane_count_bits o1 < 32)) (\<lambda>_.
           obind (tensor_empty (blob_shape_of o1) (zo_k_dtype o1) kCPU 0) (\<lambda>t.
             Inr \<lparr>z_opts = o1, z_token = token_mem_size o1,
                  z_blobs = [(0, \<lparr>bl_data = Some base, bl_type = kInMemory, bl_map = None,
                                  bl_bits = bitmap o1 64\<rparr>)]\<rparr>)))"

subsection \<open>Mapping a blob\<close>

text \<open>\<^verbatim>\<open>mkstemp\<close> rejects a template that does not end with six X.\<close>

definition mkstemp_template :: "string \<Rightarrow> bool" where
  "mkstemp_template p \<longleftrightarrow> 6 \<le> length p \<and> drop (length p - 6) p = ''XXXXXX''"

definition initFileBacked :: "string \<Rightarrow> 'm option \<Rightarrow> 'm option" where
  "initFileBacked path mapped = (if mkstemp_template path then mapped else None)"

definition initAnonymous :: "int option \<Rightarrow> int option" where
  "initAnonymous mapped = mapped"

definition blob_path :: "string \<Rightarrow> nat \<Rightarrow> string" where
  "blob_path dir n = dir @ ''/blob_'' @ to_string n @ ''.kv''"

definition blob_bytes :: "zen_options \<Rightarrow> dtype \<Rightarrow> nat" where
  "blob_bytes o1 lanes_of =
     nat (u64 (u64 (u64 (lane_total o1) * int (zo_k_ele o1)) * int (bytesOfType (zo_k_dtype o1))))
       div lanesOfType lanes_of"

definition add_blob :: "zenfs \<Rightarrow> int \<Rightarrow> nat \<Rightarrow> nat \<Rightarrow> zenfs outcome" where
  "add_blob z base bytes unit =
     (let o1 = z_opts z in
      obind (tensor_empty (blob_shape_of o1) (zo_k_dtype o1) kCPU 0) (\<lambda>t.
        Inr (z\<lparr>z_blobs := blob_insert (of_nat (length (z_blobs z)))
               \<lparr>bl_data = Some base, bl_type = kOnDiskMMAP, bl_map = Some bytes, bl_bits = bitmap o1 unit\<rparr>
               (z_blobs z)\<rparr>)))"

definition createBlobOnDisk :: "int option \<Rightarrow> zenfs \<Rightarrow> zenfs outcome" where
  "createBlobOnDisk mapped z =
     (case initFileBacked (blob_path (zo_dir (z_opts z)) (length (z_blobs z))) mapped of
        None \<Rightarrow> Inl (Exit kCoreError)
      | Some base \<Rightarrow> add_blob z base (blob_bytes (z_opts z) (zo_v_dtype (z_opts z))) 8)"

definition createBlobOnAnonymousFile :: "int option \<Rightarrow> zenfs \<Rightarrow> zenfs outcome" where
  "createBlobOnAnonymousFile mapped z =
     (case initAnonymous mapped of
        None \<Rightarrow> Inl (Exit kCoreError)
      | Some base \<Rightarrow> add_blob z base (blob_bytes (z_opts z) (zo_k_dtype (z_opts z))) 64)"

subsection \<open>Allocation\<close>

text \<open>\<^verbatim>\<open>__builtin_ctzll\<close>: the lowest bit that is set.\<close>

definition ctz :: "64 word \<Rightarrow> nat" where
  "ctz w = length (takeWhile (\<lambda>n. \<not> bit w n) [0..<64])"

fun find_lane :: "64 word list \<Rightarrow> nat \<Rightarrow> (nat \<times> 64 word list) option" where
  "find_lane [] i = None"
| "find_lane (w # ws) i =
     (if w \<noteq> 0 then let b = ctz w in Some (i * 64 + b, (w AND NOT (push_bit b 1)) # ws)
      else map_option (\<lambda>(n, ws'). (n, w # ws')) (find_lane ws (Suc i)))"

definition findFreeAddrInBlob :: "zen_options \<Rightarrow> vp_addr \<Rightarrow> blob \<Rightarrow> vp_addr \<times> blob" where
  "findFreeAddrInBlob o1 bid b =
     (case find_lane (bl_bits b) 0 of
        None \<Rightarrow> (-1, b)
      | Some (n, ws) \<Rightarrow>
          (push_bit (lane_count_bits o1) bid OR word_of_int (to_i32 (int n)), b\<lparr>bl_bits := ws\<rparr>))"

fun scan_blobs ::
  "zen_options \<Rightarrow> (vp_addr \<times> blob) list \<Rightarrow> vp_addr option \<times> (vp_addr \<times> blob) list" where
  "scan_blobs o1 [] = (None, [])"
| "scan_blobs o1 ((k, b) # bs) =
     (let (a, b') = findFreeAddrInBlob o1 k b
      in if a \<noteq> -1 then (Some a, (k, b') # bs)
         else let (r, bs') = scan_blobs o1 bs in (r, (k, b') # bs'))"

definition zen_create :: "int option \<Rightarrow> zenfs \<Rightarrow> zenfs outcome" where
  "zen_create mapped z =
     (if z_blobs z = [] then Inr z
      else case zo_mmap (z_opts z) of
             kFile \<Rightarrow> createBlobOnDisk mapped z
           | kAnonymous \<Rightarrow> createBlobOnAnonymousFile mapped z)"

definition zen_scan :: "zenfs \<Rightarrow> vp_addr option \<times> zenfs" where
  "zen_scan z = (let (r, bs) = scan_blobs (z_opts z) (z_blobs z) in (r, z\<lparr>z_blobs := bs\<rparr>))"

definition zen_malloc :: "int option \<Rightarrow> zenfs \<Rightarrow> (zenfs \<times> vp_addr) outcome" where
  "zen_malloc mapped z =
     (case zen_scan z of
        (Some a, z1) \<Rightarrow> Inr (z1, a)
      | (None, z1) \<Rightarrow> obind (zen_create mapped z1) (\<lambda>z2.
          case zen_scan z2 of (Some a, z3) \<Rightarrow> Inr (z3, a) | (None, z3) \<Rightarrow> Inl (Exit kCoreError)))"

definition zen_free :: "zenfs \<Rightarrow> vp_addr \<Rightarrow> zenfs" where
  "zen_free z a =
     (let o1 = z_opts z; bid = getBlobAddr a (zo_page_bits o1) (zo_lane_bits o1);
          lane = getLaneAddr a (zo_page_bits o1) (zo_lane_bits o1);
          w = unat (lane div 64); b = unat (lane mod 64)
      in z\<lparr>z_blobs := map (\<lambda>(k, s). if k = bid \<and> w < length (bl_bits s)
           then (k, s\<lparr>bl_bits := (bl_bits s)[w := (bl_bits s ! w) OR push_bit b 1]\<rparr>) else (k, s)) (z_blobs z)\<rparr>)"

text \<open>The result is the address in memory, 0 for the null pointer.\<close>

definition zen_access :: "zenfs \<Rightarrow> vp_addr \<Rightarrow> int outcome" where
  "zen_access z a =
     (let o1 = z_opts z; bid = getBlobAddr a (zo_page_bits o1) (zo_lane_bits o1);
          page = getPageAddr a (zo_page_bits o1) (zo_lane_bits o1);
          lane = getLaneAddr a (zo_page_bits o1) (zo_lane_bits o1)
      in case map_of (z_blobs z) bid of
           None \<Rightarrow> Inr 0
         | Some s \<Rightarrow> (case bl_data s of
             None \<Rightarrow> Inl Undefined
           | Some d \<Rightarrow> if d = 0 then Inr 0
               else Inr (d + u64 (uint (page * word_of_int (to_i32 (2 ^ zo_lane_bits o1)) + lane) * int (z_token z)))))"

text \<open>The range that is prefetched or purged: an offset into the mapping and a size.\<close>

definition zen_hint :: "zenfs \<Rightarrow> vp_addr \<Rightarrow> (int \<times> int) option" where
  "zen_hint z a =
     (let o1 = z_opts z; bid = getBlobAddr a (zo_page_bits o1) (zo_lane_bits o1);
          page = getPageAddr a (zo_page_bits o1) (zo_lane_bits o1);
          lane = getLaneAddr a (zo_page_bits o1) (zo_lane_bits o1);
          off = u64 (u64 (uint page * int (z_token z)) + u64 (uint lane * int (z_token z)))
      in case map_of (z_blobs z) bid of
           None \<Rightarrow> None
         | Some s \<Rightarrow> (case bl_map s of
             None \<Rightarrow> None
           | Some n \<Rightarrow> if bl_type s \<noteq> kOnDiskMMAP \<or> int n < u64 (off + int (z_token z)) then None
                       else Some (off, int (z_token z))))"

subsection \<open>Stopping and starting again\<close>

text \<open>
  What \<^verbatim>\<open>index.json\<close> holds: the options and, per blob, its number, its type and its file. When it is
  read back, \<open>alloc\<close> and \<open>mapped\<close> give the address of a new tensor and, for a file that exists, its
  mapping and its size.
\<close>

record zen_index =
  zi_opts :: zen_options
  zi_blobs :: "(vp_addr \<times> zen_blob_type \<times> bool) list"

definition zen_finalize :: "zenfs \<Rightarrow> zen_index option" where
  "zen_finalize z =
     (if zo_record (z_opts z) then
        Some \<lparr>zi_opts = z_opts z,
              zi_blobs = map (\<lambda>(k, s). (k, bl_type s, bl_map s \<noteq> None)) (z_blobs z)\<rparr>
      else None)"

definition recover_blob ::
  "zen_options \<Rightarrow> (vp_addr \<Rightarrow> int option) \<Rightarrow> (vp_addr \<Rightarrow> (int \<times> nat) option) \<Rightarrow>
     vp_addr \<times> zen_blob_type \<times> bool \<Rightarrow> (vp_addr \<times> blob) outcome" where
  "recover_blob o1 alloc mapped e =
     (case e of (k, ty, has_file) \<Rightarrow>
       obind (case ty of
           kInMemory \<Rightarrow> obind (tensor_empty (blob_shape_of o1) (zo_k_dtype o1) kCPU 0) (\<lambda>t. Inr (alloc k, None))
         | kOnDiskMMAP \<Rightarrow>
             (case (if has_file then initFileBacked (blob_path (zo_dir o1) (unat k)) (mapped k) else None) of
                None \<Rightarrow> Inr (None, None)
              | Some (base, bytes) \<Rightarrow> Inr (Some base, Some bytes))
         | kZSTDCompressed \<Rightarrow> Inr (None, None)) (\<lambda>(d, m).
       Inr (k, \<lparr>bl_data = d, bl_type = ty, bl_map = m, bl_bits = bitmap o1 64\<rparr>)))"

definition zen_recover ::
  "string \<Rightarrow> zen_index option \<Rightarrow> (vp_addr \<Rightarrow> int option) \<Rightarrow> (vp_addr \<Rightarrow> (int \<times> nat) option) \<Rightarrow>
     zenfs outcome" where
  "zen_recover dir index alloc mapped =
     (case index of
        None \<Rightarrow> Inl (Exit kCoreError)
      | Some i \<Rightarrow>
          let o1 = (zi_opts i)\<lparr>zo_dir := dir, zo_record := True\<rparr>
          in obind (omap (recover_blob o1 alloc mapped) (zi_blobs i)) (\<lambda>bs.
               Inr \<lparr>z_opts = o1, z_token = token_mem_size o1,
                    z_blobs = fold (\<lambda>(k, s) acc. blob_insert k s acc) bs []\<rparr>))"

subsection \<open>Address arithmetic\<close>

lemma getPageAddr_eq: "p < 32 \<Longrightarrow> getPageAddr a p l = take_bit p (drop_bit l a)"
  by (rule bit_word_eqI)
    (auto simp: getPageAddr_def Let_def bit_simps push_bit_eq_mult simp flip: mask_eq_exp_minus_1)

lemma getLaneAddr_eq: "l < 32 \<Longrightarrow> getLaneAddr a p l = take_bit l a"
  by (rule bit_word_eqI)
    (auto simp: getLaneAddr_def Let_def bit_simps push_bit_eq_mult simp flip: mask_eq_exp_minus_1)

lemma unat_drop_bit32: "unat (drop_bit n (a :: 32 word)) = unat a div 2 ^ n"
  using Bit_Operations.drop_bit_eq_div [of n "unat a"] by (simp only: unat_drop_bit_eq)

lemma unat_take_bit32: "unat (take_bit n a) = take_bit n (unat (a :: 32 word))"
  by (rule bit_eqI) (simp add: bit_unsigned_iff bit_simps)

lemma drop_bit_of_nat_below:
  assumes "k < 2 ^ (32 - n)" "n \<le> 32"
  shows "drop_bit n (push_bit n (of_nat k :: 32 word)) = of_nat k"
proof (rule bit_word_eqI)
  fix m
  assume "m < LENGTH(32)"
  moreover have "\<not> bit k m" if "32 - n \<le> m"
  proof -
    have "take_bit (32 - n) k = k" using assms(1) by (rule take_bit_nat_eq_self)
    then show ?thesis using that bit_take_bit_iff [of "32 - n" k m] by simp
  qed
  ultimately show "bit (drop_bit n (push_bit n (of_nat k :: 32 word))) m = bit (of_nat k :: 32 word) m"
    using assms(2) by (cases "m < 32 - n") (auto simp: bit_simps not_le less_diff_conv)
qed

lemma lane_word:
  assumes "i < 2 ^ n" "n < 31"
  shows "word_of_int (to_i32 (int i)) = (of_nat i :: 32 word)" "take_bit n (of_nat i :: 32 word) = of_nat i"
    "drop_bit n (of_nat i :: 32 word) = 0" "unat (of_nat i :: 32 word) = i"
proof -
  have "(2::nat) ^ n \<le> 2 ^ 30" using assms(2) by (intro power_increasing) auto
  then have i: "i < 2 ^ 30" using assms(1) by linarith
  then have "int i < 2 ^ 30" by (simp flip: of_nat_power_eq_of_nat_cancel_iff)
  then show "word_of_int (to_i32 (int i)) = (of_nat i :: 32 word)" by (simp add: to_i32_id)
  show u: "unat (of_nat i :: 32 word) = i" using i by (simp add: unat_of_nat)
  show "take_bit n (of_nat i :: 32 word) = of_nat i"
    using assms(1) u by (simp add: word_unat_eq_iff unat_take_bit32 take_bit_nat_eq_self)
  show "drop_bit n (of_nat i :: 32 word) = 0"
    using assms(1) u by (simp only: word_unat_eq_iff unat_drop_bit32) simp
qed

lemma compose_split:
  assumes "k < 2 ^ (32 - n)" "i < 2 ^ n" "n < 31"
    and a_def: "a = push_bit n (of_nat k) OR word_of_int (to_i32 (int i))"
  shows "drop_bit n a = (of_nat k :: 32 word)" "unat (take_bit n a) = i"
  using drop_bit_of_nat_below [OF assms(1)] assms(3) lane_word [OF assms(2,3)]
  by (simp_all add: a_def take_bit_push_bit)

lemma same_address:
  "drop_bit n a = drop_bit n b \<Longrightarrow> unat (take_bit n a) = unat (take_bit n b) \<Longrightarrow> a = (b :: 32 word)"
  by (metis bits_ident word_unat_eq_iff)

lemma not_minus_one:
  assumes "k + 1 < 2 ^ (32 - n)" "n < 31" "drop_bit n a = (of_nat k :: 32 word)"
  shows "a \<noteq> -1"
proof
  assume "a = -1"
  then have "drop_bit n (-1) = (of_nat k :: 32 word)" using assms(3) by simp
  then have "unat (drop_bit n (-1 :: 32 word)) = unat (of_nat k :: 32 word)" by simp
  moreover have "unat (drop_bit n (-1 :: 32 word)) = 4294967295 div 2 ^ n"
    by (simp only: unat_drop_bit32) (simp add: unsigned_minus_1_eq_mask mask_eq_exp_minus_1)
  moreover have "4294967295 div 2 ^ n = (2 :: nat) ^ (32 - n) - 1"
  proof (rule div_nat_eqI)
    have xy: "(2 :: nat) ^ (32 - n) * 2 ^ n = 4294967296" using assms(2) by (simp flip: power_add)
    have "2 ^ n * ((2 :: nat) ^ (32 - n) - 1) = 4294967296 - 2 ^ n"
      using xy by (simp add: algebra_simps)
    moreover have "(1 :: nat) \<le> 2 ^ n" by simp
    ultimately show "2 ^ n * ((2 :: nat) ^ (32 - n) - 1) \<le> 4294967295" by linarith
    show "4294967295 < 2 ^ n * Suc ((2 :: nat) ^ (32 - n) - 1)"
      using xy by (simp add: mult.commute)
  qed
  moreover have "(2 :: nat) ^ (32 - n) \<le> 2 ^ 32" by (intro power_increasing) auto
  then have "unat (of_nat k :: 32 word) = k" using assms(1) by (simp add: unat_of_nat)
  ultimately show False using assms(1) by simp
qed

subsection \<open>Finding a lane\<close>

definition lane_free :: "64 word list \<Rightarrow> nat \<Rightarrow> bool" where
  "lane_free ws i = bit (ws ! (i div 64)) (i mod 64)"

lemma lane_free_Cons: "lane_free (w # ws) i = (if i < 64 then bit w i else lane_free ws (i - 64))"
  by (auto simp: lane_free_def not_less le_mod_geq le_div_geq)

lemma ctz_bit: "w \<noteq> 0 \<Longrightarrow> bit w (ctz w) \<and> ctz w < 64"
proof -
  assume "w \<noteq> 0"
  then obtain n where "bit w n" by (auto simp: bit_eq_iff)
  then have "n < 64" "bit w n" using bit_imp_le_length [of w n] by auto
  then have "\<exists>n \<in> set [0..<64]. \<not> \<not> bit w n" by auto
  then have "length (takeWhile (\<lambda>n. \<not> bit w n) [0..<64]) < length [0..<64]"
    by (metis takeWhile_eq_all_conv length_takeWhile_le le_neq_implies_less takeWhile_eq_take take_all_iff)
  from this nth_length_takeWhile [OF this] show ?thesis by (simp add: ctz_def)
qed

lemma find_lane_Some:
  "find_lane ws i = Some (m, ws') \<Longrightarrow> \<exists>j. m = i * 64 + j \<and> j < 64 * length ws \<and> lane_free ws j \<and>
     length ws' = length ws \<and> (\<forall>l < 64 * length ws. lane_free ws' l \<longleftrightarrow> lane_free ws l \<and> l \<noteq> j)"
proof (induction ws i arbitrary: m ws' rule: find_lane.induct)
  case (2 w ws i)
  show ?case
  proof (cases "w = 0")
    case False
    then show ?thesis using 2(2) ctz_bit [OF False]
      by (intro exI [of _ "ctz w"]) (auto simp: Let_def lane_free_Cons bit_simps)
  next
    case True
    then obtain vs where vs: "find_lane ws (Suc i) = Some (m, vs)" "ws' = w # vs" using 2(2) by auto
    from 2(1) [OF _ this(1)] True obtain j where "m = Suc i * 64 + j" "j < 64 * length ws" "lane_free ws j"
      "length vs = length ws" "\<forall>l < 64 * length ws. lane_free vs l \<longleftrightarrow> lane_free ws l \<and> l \<noteq> j" by blast
    then show ?thesis using True vs(2) by (intro exI [of _ "64 + j"]) (auto simp: lane_free_Cons)
  qed
qed simp

lemma find_lane_None: "find_lane ws i = None \<Longrightarrow> l < 64 * length ws \<Longrightarrow> \<not> lane_free ws l"
  by (induction ws i arbitrary: l rule: find_lane.induct)
    (auto simp: Let_def lane_free_Cons split: if_splits)

subsection \<open>The invariant and the addresses in use\<close>

definition blob_ok :: "nat \<Rightarrow> vp_addr \<Rightarrow> blob \<Rightarrow> bool" where
  "blob_ok n k s \<longleftrightarrow> 64 * length (bl_bits s) = 2 ^ n \<and> bl_data s \<noteq> None \<and>
     (\<exists>i. i + 1 < 2 ^ (32 - n) \<and> k = of_nat i)"

definition zen_ok :: "zenfs \<Rightarrow> bool" where
  "zen_ok z \<longleftrightarrow> (let n = lane_count_bits (z_opts z) in
     6 \<le> n \<and> n < 31 \<and> z_blobs z \<noteq> [] \<and> length (z_blobs z) < 2 ^ (32 - n) \<and>
     map fst (z_blobs z) = map of_nat [0..<length (z_blobs z)] \<and>
     (\<forall>(k, s) \<in> set (z_blobs z). blob_ok n k s))"

text \<open>The blob an address belongs to and whether its lane is in use.\<close>

definition z_find :: "zenfs \<Rightarrow> vp_addr \<Rightarrow> blob option" where
  "z_find z a = map_of (z_blobs z) (drop_bit (lane_count_bits (z_opts z)) a)"

definition z_taken :: "zenfs \<Rightarrow> vp_addr set" where
  "z_taken z = {a. \<exists>s. z_find z a = Some s \<and>
     \<not> lane_free (bl_bits s) (unat (take_bit (lane_count_bits (z_opts z)) a))}"

text \<open>The blobs fit in the 32 bits of an address; the last number is left to the invalid address.\<close>

definition z_fits :: "zenfs \<Rightarrow> bool" where
  "z_fits z \<longleftrightarrow> length (z_blobs z) < 2 ^ (32 - lane_count_bits (z_opts z))"

text \<open>What handing out the address \<open>a\<close> does to its blob.\<close>

definition lane_given :: "nat \<Rightarrow> blob \<Rightarrow> blob \<Rightarrow> vp_addr \<Rightarrow> bool" where
  "lane_given n s s' a \<longleftrightarrow> (let i = unat (take_bit n a) in
     lane_free (bl_bits s) i \<and> s' = s\<lparr>bl_bits := bl_bits s'\<rparr> \<and> length (bl_bits s') = length (bl_bits s) \<and>
     (\<forall>j < 2 ^ n. lane_free (bl_bits s') j \<longleftrightarrow> lane_free (bl_bits s) j \<and> j \<noteq> i))"

lemma lane_lt: "unat (take_bit n (a :: 32 word)) < 2 ^ n"
  by (simp add: unat_take_bit32)

lemma lane_lt_int: "uint (take_bit n (a :: 32 word)) < 2 ^ n"
proof -
  have "int (unat (take_bit n a)) < int (2 ^ n)" using lane_lt [of n a] by (simp only: of_nat_less_iff)
  then show ?thesis by simp
qed

lemma findFree_ok:
  assumes "blob_ok n k s" "n < 31" "lane_count_bits o1 = n" "findFreeAddrInBlob o1 k s = (a, s')"
  shows "if a = -1 then s' = s \<and> (\<forall>j < 2 ^ n. \<not> lane_free (bl_bits s) j)
    else drop_bit n a = k \<and> lane_given n s s' a"
proof (cases "find_lane (bl_bits s) 0")
  case None
  have "\<forall>j < 2 ^ n. \<not> lane_free (bl_bits s) j"
    using find_lane_None [OF None] assms(1) by (simp add: blob_ok_def)
  then show ?thesis using assms(4) None by (simp add: findFreeAddrInBlob_def)
next
  case (Some r)
  then obtain m ws where r: "find_lane (bl_bits s) 0 = Some (m, ws)" by (cases r) auto
  obtain i where i: "i + 1 < 2 ^ (32 - n)" "k = of_nat i" using assms(1) by (auto simp: blob_ok_def)
  from find_lane_Some [OF r] have m: "m < 2 ^ n" "lane_free (bl_bits s) m" "length ws = length (bl_bits s)"
    "\<forall>l < 2 ^ n. lane_free ws l \<longleftrightarrow> lane_free (bl_bits s) l \<and> l \<noteq> m"
    using assms(1) by (auto simp: blob_ok_def)
  have a: "a = push_bit n (of_nat i) OR word_of_int (to_i32 (int m))" "s' = s\<lparr>bl_bits := ws\<rparr>"
    using assms(3,4) r i by (auto simp: findFreeAddrInBlob_def)
  have lt: "i < 2 ^ (32 - n)" using i by simp
  note ad = compose_split [OF lt m(1) assms(2) a(1)]
  have "a \<noteq> -1" using not_minus_one [OF i(1) assms(2) ad(1)] .
  then show ?thesis using ad m a(2) i(2) by (simp add: lane_given_def Let_def)
qed

lemma scan_ok:
  assumes "\<forall>(k, s) \<in> set bs. blob_ok n k s" "distinct (map fst bs)" "n < 31" "lane_count_bits o1 = n"
    and "scan_blobs o1 bs = (r, bs')"
  shows "case r of
      None \<Rightarrow> bs' = bs \<and> (\<forall>(k, s) \<in> set bs. \<forall>j < 2 ^ n. \<not> lane_free (bl_bits s) j)
    | Some a \<Rightarrow> \<exists>xs k s s' ys. bs = xs @ (k, s) # ys \<and> bs' = xs @ (k, s') # ys \<and>
        drop_bit n a = k \<and> lane_given n s s' a"
  using assms
proof (induction o1 bs arbitrary: r bs' rule: scan_blobs.induct)
  case (2 o1 k s bs)
  obtain a s' where f: "findFreeAddrInBlob o1 k s = (a, s')" by force
  have b: "blob_ok n k s" using 2(2) by simp
  note fo = findFree_ok [OF b 2(4,5) f]
  show ?case
  proof (cases "a = -1")
    case False
    then have "drop_bit n a = k \<and> lane_given n s s' a" "r = Some a" "bs' = (k, s') # bs"
      using fo 2(6) f by auto
    then show ?thesis by (auto intro!: exI [of _ "[]"])
  next
    case True
    obtain r1 b1 where g: "scan_blobs o1 bs = (r1, b1)" by force
    then have rb: "r = r1" "bs' = (k, s) # b1" using 2(6) f True fo by auto
    have ih: "case r1 of
      None \<Rightarrow> b1 = bs \<and> (\<forall>(k, s) \<in> set bs. \<forall>j < 2 ^ n. \<not> lane_free (bl_bits s) j)
    | Some a \<Rightarrow> \<exists>xs k s s' ys. bs = xs @ (k, s) # ys \<and> b1 = xs @ (k, s') # ys \<and>
        drop_bit n a = k \<and> lane_given n s s' a"
      using 2(1) [OF f [symmetric] refl _ _ _ 2(4,5) g] True 2(2,3) by simp
    show ?thesis
    proof (cases r1)
      case None
      then show ?thesis using ih rb True fo by auto
    next
      case (Some c)
      then obtain xs k1 s1 s1' ys where "bs = xs @ (k1, s1) # ys" "b1 = xs @ (k1, s1') # ys"
        "drop_bit n c = k1" "lane_given n s1 s1' c" using ih by auto
      then show ?thesis using Some rb
        by (auto intro!: exI [of _ "(k, s) # xs"])
    qed
  qed
qed simp

subsection \<open>Allocation\<close>

text \<open>Blobs stay where they are.\<close>

definition data_kept :: "zenfs \<Rightarrow> zenfs \<Rightarrow> bool" where
  "data_kept z z' \<longleftrightarrow> z_opts z' = z_opts z \<and> z_token z' = z_token z \<and>
     (\<forall>a s. z_find z a = Some s \<longrightarrow> (\<exists>s'. z_find z' a = Some s' \<and> bl_data s' = bl_data s))"

lemma data_kept_refl [simp]: "data_kept z z"
  by (simp add: data_kept_def)

lemma data_kept_trans: "data_kept z z1 \<Longrightarrow> data_kept z1 z2 \<Longrightarrow> data_kept z z2"
  unfolding data_kept_def by metis

lemma zen_keys_distinct:
  assumes "zen_ok z"
  shows "distinct (map fst (z_blobs z))"
proof -
  have "(2 :: nat) ^ (32 - lane_count_bits (z_opts z)) \<le> 2 ^ 32" by (intro power_increasing) auto
  then have l: "length (z_blobs z) \<le> 2 ^ 32" using assms by (simp add: zen_ok_def Let_def)
  have "inj_on (of_nat :: nat \<Rightarrow> vp_addr) (set [0..<length (z_blobs z)])"
    using l by (auto intro!: inj_onI simp: word_unat_eq_iff unat_of_nat)
  then show ?thesis using assms by (simp add: zen_ok_def Let_def distinct_map)
qed

lemma map_of_middle:
  "distinct (map fst (xs @ (k, s) # ys)) \<Longrightarrow>
     map_of (xs @ (k, s') # ys) = (map_of (xs @ (k, s) # ys))(k \<mapsto> s')"
  by (induction xs) (auto simp: fun_eq_iff map_of_eq_None_iff)

lemma lane_given_step:
  assumes ok: "zen_ok z" and bs: "z_blobs z = xs @ (k, s) # ys"
    and z': "z' = z\<lparr>z_blobs := xs @ (k, s') # ys\<rparr>"
    and n: "n = lane_count_bits (z_opts z)" and a: "drop_bit n a = k" "lane_given n s s' a"
  shows "zen_ok z' \<and> a \<notin> z_taken z \<and> z_taken z' = insert a (z_taken z) \<and> data_kept z z' \<and> z_find z a \<noteq> None"
proof -
  have d: "distinct (map fst (xs @ (k, s) # ys))" using zen_keys_distinct [OF ok] bs by simp
  have o1: "z_opts z' = z_opts z" "z_token z' = z_token z" by (simp_all add: z')
  have find': "z_find z' b = (if drop_bit n b = k then Some s' else z_find z b)" for b
    using map_of_middle [OF d, of s'] by (simp add: z_find_def z' bs n)
  have find: "z_find z b = Some s" if "drop_bit n b = k" for b
    using d that by (simp add: z_find_def bs n map_of_eq_None_iff [symmetric] map_add_Some_iff)
  have lg: "lane_free (bl_bits s) (unat (take_bit n a))" "s' = s\<lparr>bl_bits := bl_bits s'\<rparr>"
    "length (bl_bits s') = length (bl_bits s)"
    "\<forall>j < 2 ^ n. lane_free (bl_bits s') j \<longleftrightarrow> lane_free (bl_bits s) j \<and> j \<noteq> unat (take_bit n a)"
    using a(2) unfolding lane_given_def Let_def by blast+
  have dat: "bl_data s' = bl_data s" using lg(2) by (metis blob.ext_inject blob.surjective blob.update_convs(4))
  have "blob_ok n k s" using ok bs by (simp add: zen_ok_def Let_def n)
  then have "blob_ok n k s'" using lg(3) dat by (simp add: blob_ok_def)
  moreover have "map fst (xs @ (k, s') # ys) = map of_nat [0..<length (xs @ (k, s') # ys)]"
    using ok bs by (simp add: zen_ok_def Let_def)
  ultimately have "zen_ok z'" using ok bs by (auto simp: zen_ok_def Let_def z' n)
  moreover have "a \<notin> z_taken z" using find [OF a(1)] lg(1) by (simp add: z_taken_def n)
  moreover have "b \<in> z_taken z' \<longleftrightarrow> b = a \<or> b \<in> z_taken z" for b
  proof (cases "drop_bit n b = k")
    case True
    then have "b = a \<longleftrightarrow> unat (take_bit n b) = unat (take_bit n a)" using same_address a(1) by metis
    then show ?thesis using True find find' lg(4) lane_lt [of n b] o1
      by (auto simp: z_taken_def n)
  next
    case False
    then have "b \<noteq> a" using a(1) by blast
    then show ?thesis using False find' o1 by (simp add: z_taken_def n)
  qed
  moreover have "data_kept z z'"
    using find' find dat o1 by (auto simp: data_kept_def n)
  moreover have "z_find z a \<noteq> None" using find [OF a(1)] by simp
  ultimately show ?thesis by blast
qed

lemma zen_scan_ok:
  assumes ok: "zen_ok z" and s: "zen_scan z = (r, z')"
  shows "case r of None \<Rightarrow> z' = z \<and> z_taken z = {a. z_find z a \<noteq> None}
    | Some a \<Rightarrow> zen_ok z' \<and> a \<notin> z_taken z \<and> z_taken z' = insert a (z_taken z) \<and> data_kept z z' \<and>
        z_find z a \<noteq> None"
proof -
  let ?n = "lane_count_bits (z_opts z)"
  obtain bs where sc: "scan_blobs (z_opts z) (z_blobs z) = (r, bs)" and z': "z' = z\<lparr>z_blobs := bs\<rparr>"
    using s by (auto simp: zen_scan_def split: prod.splits)
  have b: "\<forall>(k, s) \<in> set (z_blobs z). blob_ok ?n k s" "?n < 31" using ok by (simp_all add: zen_ok_def Let_def)
  note so = scan_ok [OF b(1) zen_keys_distinct [OF ok] b(2) refl sc]
  show ?thesis
  proof (cases r)
    case None
    then have bs: "bs = z_blobs z" "\<forall>(k, s) \<in> set (z_blobs z). \<forall>j < 2 ^ ?n. \<not> lane_free (bl_bits s) j"
      using so by auto
    have "a \<in> z_taken z" if "z_find z a = Some s" for a s
      using bs(2) map_of_SomeD [of "z_blobs z" _ s] that lane_lt [of ?n a]
      by (fastforce simp: z_taken_def z_find_def)
    then have "z_taken z = {a. z_find z a \<noteq> None}" by (auto simp: z_taken_def)
    then show ?thesis using None bs(1) z' by simp
  next
    case (Some a)
    then obtain xs k s s' ys where "z_blobs z = xs @ (k, s) # ys" "bs = xs @ (k, s') # ys"
      "drop_bit ?n a = k" "lane_given ?n s s' a" using so by auto
    from lane_given_step [OF ok this(1) _ refl this(3,4)] this(2) z' Some show ?thesis by simp
  qed
qed

lemma bitmap_ok:
  assumes "6 \<le> lane_count_bits o1" "lane_count_bits o1 < 31" "n = lane_count_bits o1"
  shows "64 * length (bitmap o1 64) = 2 ^ n" "i < 2 ^ n \<Longrightarrow> lane_free (bitmap o1 64) i"
proof -
  define m where "m = n - 6"
  have m: "n = m + 6" "m < 25" using assms by (simp_all add: m_def)
  have p: "(2::int) ^ n = 64 * 2 ^ m" using m by (simp add: power_add)
  have "(2::int) ^ n < 2 ^ 31" using assms by (intro power_strict_increasing) auto
  then have "to_i32 (2 ^ n) = 2 ^ n" by (intro to_i32_id) (auto intro: order_trans [of _ 0])
  then have "lane_total o1 = 64 * 2 ^ m" using p assms(3) by (simp add: lane_total_def)
  moreover have "(64 :: int) * 2 ^ m < 2 ^ 31" using \<open>2 ^ n < 2 ^ 31\<close> p by simp
  ultimately have t: "lane_total o1 = 64 * 2 ^ m" "u64 (64 * 2 ^ m) = 64 * 2 ^ m"
    "u64 (64 * 2 ^ m + 64 - 1) = 64 * 2 ^ m + 63"
    by (simp_all add: u64_def)
  then have len: "length (bitmap o1 64) = 2 ^ m"
    by (simp add: bitmap_def nat_power_eq)
  then show "64 * length (bitmap o1 64) = 2 ^ n" using m by (simp add: power_add)
  assume "i < 2 ^ n"
  then have "i div 64 < length (bitmap o1 64)" using len m by (simp add: power_add less_mult_imp_div_less)
  then show "lane_free (bitmap o1 64) i"
    by (simp add: lane_free_def bitmap_def bit_simps)
qed

lemma add_blob_ok:
  assumes ok: "zen_ok z" and c: "add_blob z base bytes 64 = Inr z'" and r: "z_fits z'"
  shows "zen_ok z' \<and> z_taken z' = z_taken z \<and> data_kept z z' \<and>
    z_find z' a = (if drop_bit (lane_count_bits (z_opts z)) a = of_nat (length (z_blobs z))
      then Some \<lparr>bl_data = Some base, bl_type = kOnDiskMMAP, bl_map = Some bytes, bl_bits = bitmap (z_opts z) 64\<rparr>
      else z_find z a)"
proof -
  let ?n = "lane_count_bits (z_opts z)" and ?k = "of_nat (length (z_blobs z)) :: vp_addr"
  let ?s = "\<lparr>bl_data = Some base, bl_type = kOnDiskMMAP, bl_map = Some bytes, bl_bits = bitmap (z_opts z) 64\<rparr>"
  have n: "6 \<le> ?n" "?n < 31" using ok by (simp_all add: zen_ok_def Let_def)
  have "(2 :: nat) ^ (32 - ?n) \<le> 2 ^ 32" by (intro power_increasing) auto
  then have l: "length (z_blobs z) < 2 ^ 32" using ok by (simp add: zen_ok_def Let_def)
  have new: "map_of (z_blobs z) ?k = None"
  proof -
    have "?k \<notin> of_nat ` {0..<length (z_blobs z)}"
      using l by (auto simp: word_unat_eq_iff unat_of_nat)
    moreover have "fst ` set (z_blobs z) = of_nat ` {0..<length (z_blobs z)}"
    proof -
      have "map fst (z_blobs z) = map of_nat [0..<length (z_blobs z)]"
        using ok by (simp add: zen_ok_def Let_def)
      from arg_cong [OF this, of set] show ?thesis by simp
    qed
    ultimately show ?thesis by (simp add: map_of_eq_None_iff)
  qed
  have z': "z' = z\<lparr>z_blobs := z_blobs z @ [(?k, ?s)]\<rparr>"
    using c new by (auto simp: add_blob_def Let_def blob_insert_def obind_Inr_iff)
  have find: "z_find z' a = (if drop_bit ?n a = ?k then Some ?s else z_find z a)" for a
    using new by (auto simp: z_find_def z' map_add_def split: option.splits)
  have "blob_ok ?n ?k ?s" using bitmap_ok [OF n refl] r by (auto simp: blob_ok_def z_fits_def z')
  then have "zen_ok z'" using ok r by (auto simp: zen_ok_def Let_def z' z_fits_def)
  moreover have "b \<in> z_taken z' \<longleftrightarrow> b \<in> z_taken z" for b
    using find [of b] bitmap_ok(2) [OF n refl lane_lt, of b] new
    by (auto simp: z_taken_def z' z_find_def)
  moreover have "data_kept z z'"
    using find new by (auto simp: data_kept_def z' z_find_def)
  ultimately show ?thesis using find by blast
qed

text \<open>No path of a blob is a template, so a file is never mapped.\<close>

lemma blob_path_no_template: "\<not> mkstemp_template (blob_path dir n)"
proof
  let ?q = "dir @ ''/blob_'' @ to_string n"
  assume "mkstemp_template (blob_path dir n)"
  then have "last (drop (length (blob_path dir n) - 6) (blob_path dir n)) = CHR ''X''"
    by (simp add: mkstemp_template_def)
  moreover have "drop (length (blob_path dir n) - 6) (blob_path dir n) \<noteq> []"
    by (simp add: blob_path_def)
  ultimately have "last (blob_path dir n) = CHR ''X''" by (simp add: last_drop)
  then show False by (simp add: blob_path_def)
qed

lemma create_ok:
  assumes "zen_ok z" "zen_create mapped z = Inr z'" "z_fits z'"
  shows "zen_ok z' \<and> z_taken z' = z_taken z \<and> data_kept z z' \<and> zo_mmap (z_opts z) = kAnonymous"
proof -
  have "z_blobs z \<noteq> []" using assms(1) by (simp add: zen_ok_def Let_def)
  then obtain base bytes where a: "zo_mmap (z_opts z) = kAnonymous" "add_blob z base bytes 64 = Inr z'"
    using assms(2) blob_path_no_template
    by (auto simp: zen_create_def createBlobOnDisk_def createBlobOnAnonymousFile_def initFileBacked_def
        initAnonymous_def split: zen_mmap_type.splits option.splits if_splits)
  from add_blob_ok [OF assms(1) this(2) assms(3)] a(1) show ?thesis by blast
qed

lemma scan_length: "zen_scan z = (r, z1) \<Longrightarrow> length (z_blobs z1) = length (z_blobs z) \<and> z_opts z1 = z_opts z"
proof -
  have "length (snd (scan_blobs o1 bs)) = length bs" for o1 bs
    by (induction bs) (auto simp: Let_def split_beta)
  from this [of "z_opts z" "z_blobs z"] show "zen_scan z = (r, z1) \<Longrightarrow> ?thesis"
    by (auto simp: zen_scan_def split_beta)
qed

lemma malloc_ok:
  assumes "zen_ok z" "zen_malloc mapped z = Inr (z', a)" "z_fits z'"
  shows "zen_ok z' \<and> a \<notin> z_taken z \<and> z_taken z' = insert a (z_taken z) \<and> data_kept z z'"
proof -
  obtain r z1 where s: "zen_scan z = (r, z1)" by force
  note so = zen_scan_ok [OF assms(1) s]
  show ?thesis
  proof (cases r)
    case (Some b)
    then show ?thesis using so assms(2) s by (simp add: zen_malloc_def)
  next
    case None
    then have z1: "z1 = z" using so by simp
    have m: "obind (zen_create mapped z) (\<lambda>z2. case zen_scan z2 of (Some a, z3) \<Rightarrow> Inr (z3, a)
        | (None, z3) \<Rightarrow> Inl (Exit kCoreError)) = Inr (z', a)"
      using assms(2) s None z1 by (simp add: zen_malloc_def)
    then obtain z2 where z2: "zen_create mapped z = Inr z2" by (cases "zen_create mapped z") auto
    obtain r2 z3 where s2: "zen_scan z2 = (r2, z3)" by force
    then have z2: "zen_create mapped z = Inr z2" "zen_scan z2 = (Some a, z')"
      using m z2 by (auto split: option.splits)
    have "z_fits z2" using assms(3) scan_length [OF z2(2)] by (simp add: z_fits_def)
    note c = create_ok [OF assms(1) z2(1) this]
    have "zen_ok z2" using c by blast
    from zen_scan_ok [OF this z2(2)] c show ?thesis using data_kept_trans by auto
  qed
qed

lemma initialize_ok:
  assumes "zen_initialize o1 base = Inr z" "6 \<le> lane_count_bits o1" "lane_count_bits o1 < 31"
  shows "zen_ok z \<and> z_taken z = {} \<and> z_opts z = o1 \<and> z_token z = token_mem_size o1 \<and> length (z_blobs z) = 1"
proof -
  let ?s = "\<lparr>bl_data = Some base, bl_type = kInMemory, bl_map = None, bl_bits = bitmap o1 64\<rparr>"
  have z: "z = \<lparr>z_opts = o1, z_token = token_mem_size o1, z_blobs = [(0, ?s)]\<rparr>"
    using assms(1) by (auto simp: zen_initialize_def obind_Inr_iff split: if_splits)
  have p: "(1 :: nat) < 2 ^ (32 - lane_count_bits o1)" using assms(3) by (intro one_less_power) auto
  have "blob_ok (lane_count_bits o1) 0 ?s"
    using bitmap_ok [OF assms(2,3) refl] p by (auto simp: blob_ok_def intro!: exI [of _ "0 :: nat"])
  then have "zen_ok z" using assms(2,3) p by (simp add: zen_ok_def z)
  moreover have "z_taken z = {}"
    using bitmap_ok(2) [OF assms(2,3) refl lane_lt] by (auto simp: z_taken_def z_find_def z)
  ultimately show ?thesis using z by simp
qed

text \<open>Allocations one after the other, each with the result of \<^verbatim>\<open>mmap\<close> should it map a blob.\<close>

fun zen_mallocs :: "int option list \<Rightarrow> zenfs \<Rightarrow> (zenfs \<times> vp_addr list) outcome" where
  "zen_mallocs [] z = Inr (z, [])"
| "zen_mallocs (m # ms) z =
     obind (zen_malloc m z) (\<lambda>(z1, a). obind (zen_mallocs ms z1) (\<lambda>(z2, as). Inr (z2, a # as)))"

lemma malloc_grows:
  assumes "zen_malloc mapped z = Inr (z', a)"
  shows "length (z_blobs z) \<le> length (z_blobs z') \<and> z_opts z' = z_opts z"
proof -
  have add: "length (z_blobs z) \<le> length (z_blobs z1) \<and> z_opts z1 = z_opts z"
    if "add_blob z b n u = Inr z1" for z b n u z1
    using that by (auto simp: add_blob_def Let_def obind_Inr_iff blob_insert_def split: option.splits)
  have cr: "length (z_blobs z) \<le> length (z_blobs z1) \<and> z_opts z1 = z_opts z"
    if "zen_create m z = Inr z1" for m z z1
    using that add by (auto simp: zen_create_def createBlobOnDisk_def createBlobOnAnonymousFile_def
        split: if_splits zen_mmap_type.splits option.splits)
  obtain r z1 where s: "zen_scan z = (r, z1)" by force
  show ?thesis
  proof (cases r)
    case (Some b)
    then show ?thesis using assms s scan_length [OF s] by (auto simp: zen_malloc_def)
  next
    case None
    then obtain z2 where z2: "zen_create mapped z1 = Inr z2"
      using assms s by (cases "zen_create mapped z1") (auto simp: zen_malloc_def)
    obtain r2 z3 where s2: "zen_scan z2 = (r2, z3)" by force
    then have "z3 = z'" using assms s z2 None by (auto simp: zen_malloc_def split: option.splits)
    then show ?thesis using scan_length [OF s] cr [OF z2] scan_length [OF s2] by auto
  qed
qed

lemma mallocs_grow:
  "zen_mallocs ms z = Inr (z', as) \<Longrightarrow> length (z_blobs z) \<le> length (z_blobs z') \<and> z_opts z' = z_opts z"
  by (induction ms z arbitrary: z' "as" rule: zen_mallocs.induct)
    (fastforce simp: obind_Inr_iff dest!: malloc_grows)+

lemma fits_before: "z_fits z' \<Longrightarrow> length (z_blobs z) \<le> length (z_blobs z') \<and> z_opts z' = z_opts z \<Longrightarrow> z_fits z"
  by (auto simp: z_fits_def)

lemma mallocs_ok:
  assumes "zen_ok z" "zen_mallocs ms z = Inr (z', as)" "z_fits z'"
  shows "zen_ok z' \<and> distinct as \<and> set as \<inter> z_taken z = {} \<and> z_taken z' = z_taken z \<union> set as \<and> data_kept z z'"
  using assms
proof (induction ms z arbitrary: z' "as" rule: zen_mallocs.induct)
  case (2 m ms z)
  obtain z1 a as1 where s: "zen_malloc m z = Inr (z1, a)" "zen_mallocs ms z1 = Inr (z', as1)" "as = a # as1"
    using 2(3) by (auto simp: obind_Inr_iff)
  note m = malloc_ok [OF 2(2) s(1) fits_before [OF 2(4) mallocs_grow [OF s(2)]]]
  with 2(1) [OF _ s(2) 2(4)] m have
    "zen_ok z' \<and> distinct as1 \<and> set as1 \<inter> z_taken z1 = {} \<and> z_taken z' = z_taken z1 \<union> set as1 \<and> data_kept z1 z'"
    by blast
  then show ?case using m s(3) data_kept_trans by auto
qed simp

text \<open>
  C18: addresses handed out since the start are pairwise different, however many they are, as long as the
  blobs that hold them fit in the 32 bits of an address: the lanes in use are exactly those that were handed out.
  Page and lane together have 6 to 30 bits, and the last number of a blob is left to the invalid address.
\<close>

theorem zen_mallocs_fresh:
  assumes "zen_initialize o1 base = Inr z" "6 \<le> lane_count_bits o1" "lane_count_bits o1 < 31"
    and "zen_mallocs ms z = Inr (z', as)" "length (z_blobs z') < 2 ^ (32 - lane_count_bits o1)"
  shows "distinct as \<and> z_taken z' = set as"
proof -
  note i = initialize_ok [OF assms(1-3)]
  then have "z_fits z'" using mallocs_grow [OF assms(4)] assms(5) by (simp add: z_fits_def)
  moreover have "zen_ok z" using i by blast
  ultimately show ?thesis using mallocs_ok [OF _ assms(4)] i by simp
qed

text \<open>
  With blobs in files the store never grows: \<^verbatim>\<open>mkstemp\<close> needs a path that ends with XXXXXX, and the
  path of a blob ends with \<^verbatim>\<open>.kv\<close>. Once the lanes of the blob in memory are in use every allocation
  ends the process.
\<close>

theorem file_mode_never_grows:
  assumes "zen_ok z" "zo_mmap (z_opts z) = kFile" "z_taken z = {a. z_find z a \<noteq> None}"
  shows "zen_malloc mapped z = Inl (Exit kCoreError)"
proof -
  obtain r z1 where s: "zen_scan z = (r, z1)" by force
  have rz: "r = None \<and> z1 = z"
    using zen_scan_ok [OF assms(1) s] assms(3) by (cases r) auto
  have "z_blobs z \<noteq> []" using assms(1) by (simp add: zen_ok_def Let_def)
  then have "zen_create mapped z = Inl (Exit kCoreError)"
    using assms(2) blob_path_no_template by (simp add: zen_create_def createBlobOnDisk_def initFileBacked_def)
  then show ?thesis using s rz by (simp add: zen_malloc_def)
qed

subsection \<open>Access\<close>

lemma join_page_lane:
  "take_bit p (drop_bit l a) * 2 ^ l + take_bit l a = (take_bit (p + l) a :: 32 word)"
proof -
  have "push_bit l (take_bit p (drop_bit l a)) AND take_bit l a = (0 :: 32 word)"
    by (rule bit_word_eqI) (auto simp: bit_simps)
  then have "push_bit l (take_bit p (drop_bit l a)) + take_bit l a =
      (push_bit l (take_bit p (drop_bit l a)) OR take_bit l a :: 32 word)"
    by (rule disjunctive_add_eq_or)
  also have "\<dots> = take_bit (p + l) a"
    by (rule bit_word_eqI) (auto simp: bit_simps)
  finally show ?thesis by (simp add: push_bit_eq_mult)
qed

definition z_range :: "zenfs \<Rightarrow> int" where
  "z_range z = 2 ^ lane_count_bits (z_opts z) * int (z_token z)"

text \<open>The data of two blobs do not overlap and all of them fit in the address space.\<close>

definition data_apart :: "zenfs \<Rightarrow> bool" where
  "data_apart z \<longleftrightarrow> z_range z < 2 ^ 64 \<and> (\<forall>a s d. z_find z a = Some s \<and> bl_data s = Some d \<longrightarrow> 0 < d) \<and>
     (\<forall>a b s t d e. z_find z a = Some s \<and> z_find z b = Some t \<and> bl_data s = Some d \<and> bl_data t = Some e \<and>
        drop_bit (lane_count_bits (z_opts z)) a \<noteq> drop_bit (lane_count_bits (z_opts z)) b \<longrightarrow>
        d + z_range z \<le> e \<or> e + z_range z \<le> d)"

lemma access_eq:
  assumes "zen_ok z" "z_range z < 2 ^ 64" "z_find z a = Some s" "bl_data s = Some d" "d \<noteq> 0"
  shows "zen_access z a = Inr (d + int (unat (take_bit (lane_count_bits (z_opts z)) a)) * int (z_token z))"
proof -
  let ?p = "zo_page_bits (z_opts z)" and ?l = "zo_lane_bits (z_opts z)" and ?n = "lane_count_bits (z_opts z)"
  have n: "?n = ?p + ?l" "?n < 31" using assms(1) by (simp_all add: zen_ok_def Let_def lane_count_bits_def)
  have "(2::int) ^ ?l < 2 ^ 31" using n by (intro power_strict_increasing) auto
  then have "word_of_int (to_i32 (2 ^ ?l)) = (2 ^ ?l :: 32 word)"
    by (subst to_i32_id) (auto intro: order_trans [of _ 0])
  then have w: "getPageAddr a ?p ?l * word_of_int (to_i32 (2 ^ ?l)) + getLaneAddr a ?p ?l = take_bit ?n a"
    using join_page_lane [of ?p ?l a] n by (simp add: getPageAddr_eq getLaneAddr_eq)
  have "int (unat (take_bit ?n a)) * int (z_token z) \<le> z_range z"
    unfolding z_range_def using lane_lt_int [of ?n a] by (intro mult_right_mono) simp_all
  then have "u64 (uint (take_bit ?n a) * int (z_token z)) = int (unat (take_bit ?n a)) * int (z_token z)"
    using assms(2) by (subst u64_id) auto
  then show ?thesis using assms(3-5) w
    by (simp add: zen_access_def Let_def z_find_def getBlobAddr_def n(1))
qed

text \<open>
  C23: the tokens behind two different addresses do not overlap in memory, in the same blob or in two
  blobs, provided the blobs themselves do not overlap, which is what the allocator and \<^verbatim>\<open>mmap\<close> promise.
\<close>

theorem zen_access_disjoint:
  assumes "zen_ok z" "data_apart z" "z_find z a \<noteq> None" "z_find z b \<noteq> None" "a \<noteq> b"
  shows "\<exists>x y. zen_access z a = Inr x \<and> zen_access z b = Inr y \<and>
    (x + int (z_token z) \<le> y \<or> y + int (z_token z) \<le> x)"
proof -
  let ?n = "lane_count_bits (z_opts z)" and ?t = "int (z_token z)"
  let ?i = "\<lambda>a. int (unat (take_bit ?n (a :: vp_addr)))"
  have ok: "\<exists>d. bl_data s = Some d \<and> 0 < d" if "z_find z a = Some s" for a s
  proof -
    have "(drop_bit ?n a, s) \<in> set (z_blobs z)" using that by (auto simp: z_find_def map_of_SomeD)
    then have "bl_data s \<noteq> None" using assms(1) by (auto simp: zen_ok_def Let_def blob_ok_def)
    then show ?thesis using assms(2) that by (auto simp: data_apart_def)
  qed
  obtain s t where st: "z_find z a = Some s" "z_find z b = Some t" using assms(3,4) by blast
  obtain d e where de: "bl_data s = Some d" "0 < d" "bl_data t = Some e" "0 < e" using ok st by blast
  have r: "z_range z < 2 ^ 64" using assms(2) by (simp add: data_apart_def)
  have x: "zen_access z a = Inr (d + ?i a * ?t)" "zen_access z b = Inr (e + ?i b * ?t)"
    using access_eq [OF assms(1) r] st de by simp_all
  have step: "i * ?t + ?t \<le> j * ?t" if "i < j" for i j
  proof -
    have "(i + 1) * ?t \<le> j * ?t" using that by (intro mult_right_mono) auto
    then show ?thesis by (simp add: algebra_simps)
  qed
  have lt: "?i c < 2 ^ ?n" for c using lane_lt_int [of ?n c] by simp
  have nn: "0 \<le> ?i c * ?t" for c by simp
  have "d + ?i a * ?t + ?t \<le> e + ?i b * ?t \<or> e + ?i b * ?t + ?t \<le> d + ?i a * ?t"
  proof (cases "drop_bit ?n a = drop_bit ?n b")
    case True
    then have "d = e" using st de by (simp add: z_find_def)
    moreover have "unat (take_bit ?n a) \<noteq> unat (take_bit ?n b)"
      using True assms(5) same_address [of ?n a b] by blast
    then have "?i a \<noteq> ?i b" by (simp only: of_nat_eq_iff not_False_eq_True)
    ultimately show ?thesis using step [of "?i a" "?i b"] step [of "?i b" "?i a"] by linarith
  next
    case False
    then have "d + z_range z \<le> e \<or> e + z_range z \<le> d" using assms(2) st de unfolding data_apart_def by blast
    then show ?thesis using step [OF lt [of a]] step [OF lt [of b]] nn [of a] nn [of b]
      unfolding z_range_def by linarith
  qed
  then show ?thesis using x by blast
qed

subsection \<open>Release\<close>

definition page_zero :: "zenfs \<Rightarrow> vp_addr \<Rightarrow> vp_addr" where
  "page_zero z a = push_bit (lane_count_bits (z_opts z)) (drop_bit (lane_count_bits (z_opts z)) a) OR
     take_bit (zo_lane_bits (z_opts z)) a"

lemma page_zero_parts:
  "zo_lane_bits (z_opts z) \<le> lane_count_bits (z_opts z) \<and>
   drop_bit (lane_count_bits (z_opts z)) (page_zero z a) = drop_bit (lane_count_bits (z_opts z)) a \<and>
   take_bit (lane_count_bits (z_opts z)) (page_zero z a) = take_bit (zo_lane_bits (z_opts z)) a"
proof -
  let ?n = "lane_count_bits (z_opts z)" and ?l = "zo_lane_bits (z_opts z)"
  have l: "?l \<le> ?n" by (simp add: lane_count_bits_def)
  have "drop_bit ?n (page_zero z a) = drop_bit ?n a"
    by (rule bit_word_eqI) (use l in \<open>auto simp: page_zero_def bit_simps dest: bit_imp_le_length\<close>)
  moreover have "take_bit ?n (page_zero z a) = take_bit ?l a"
    by (rule bit_word_eqI) (use l in \<open>auto simp: page_zero_def bit_simps\<close>)
  ultimately show ?thesis using l by blast
qed

lemma lane_free_set:
  assumes "i < 64 * length ws" "j < 64 * length ws"
  shows "lane_free (ws[i div 64 := (ws ! (i div 64)) OR push_bit (i mod 64) 1]) j \<longleftrightarrow> lane_free ws j \<or> j = i"
proof (cases "j div 64 = i div 64")
  case True
  have "i div 64 < length ws" using assms(1) by (simp add: less_mult_imp_div_less mult.commute)
  moreover have "j = i \<longleftrightarrow> j mod 64 = i mod 64" using True by (metis div_mult_mod_eq)
  moreover have "j mod 64 < 64" by simp
  ultimately show ?thesis using True by (auto simp: lane_free_def bit_simps)
qed (auto simp: lane_free_def)

lemma map_of_map_keyed: "map_of (map (\<lambda>(k, s). (k, f k s)) xs) k = map_option (f k) (map_of xs k)"
  by (induction xs) auto

lemma free_find:
  assumes "zen_ok z" and n_def: "n = lane_count_bits (z_opts z)"
    and i_def: "i = unat (take_bit (zo_lane_bits (z_opts z)) a)"
  shows "z_find (zen_free z a) b = map_option (\<lambda>s. if drop_bit n b = drop_bit n a
     then s\<lparr>bl_bits := (bl_bits s)[i div 64 := (bl_bits s ! (i div 64)) OR push_bit (i mod 64) 1]\<rparr> else s) (z_find z b)"
proof -
  let ?l = "zo_lane_bits (z_opts z)"
  let ?f = "\<lambda>k s. if k = drop_bit n a \<and> i div 64 < length (bl_bits s)
     then s\<lparr>bl_bits := (bl_bits s)[i div 64 := (bl_bits s ! (i div 64)) OR push_bit (i mod 64) 1]\<rparr> else s"
  have l: "?l \<le> n" "?l < 32" using assms(1) by (simp_all add: n_def zen_ok_def Let_def lane_count_bits_def)
  have q: "unat (getLaneAddr a (zo_page_bits (z_opts z)) ?l div 64) = i div 64"
    "unat (getLaneAddr a (zo_page_bits (z_opts z)) ?l mod 64) = i mod 64"
    using l by (simp_all add: getLaneAddr_eq i_def unat_div unat_mod)
  have fr: "z_blobs (zen_free z a) = map (\<lambda>(k, s). (k, ?f k s)) (z_blobs z)"
    "z_opts (zen_free z a) = z_opts z"
    unfolding zen_free_def Let_def q getBlobAddr_def n_def lane_count_bits_def
    by (auto intro!: map_cong)
  have find: "z_find (zen_free z a) b = map_option (?f (drop_bit n b)) (z_find z b)"
    by (simp only: z_find_def fr map_of_map_keyed n_def)
  show ?thesis
  proof (cases "z_find z b")
    case (Some s)
    then have "(drop_bit n b, s) \<in> set (z_blobs z)" by (simp add: z_find_def n_def map_of_SomeD)
    then have "64 * length (bl_bits s) = 2 ^ n" using assms(1) by (auto simp: zen_ok_def Let_def blob_ok_def n_def)
    moreover have "i < 2 ^ n"
      using lane_lt [of ?l a] power_increasing [OF l(1), of "2 :: nat"] unfolding i_def by linarith
    ultimately have "i div 64 < length (bl_bits s)" by (simp add: less_mult_imp_div_less mult.commute)
    then show ?thesis using find Some by simp
  qed (simp add: find)
qed

text \<open>
  A release sets the bit of the lane within the page and forgets the page: it gives back the
  address with the same lane in page 0. The address itself stays in use, and the other one, if it is in
  use, will be handed out a second time.
\<close>

theorem free_ignores_page:
  assumes "zen_ok z" "a \<in> z_taken z"
  shows "z_taken (zen_free z a) = z_taken z - {page_zero z a} \<and>
    (a \<in> z_taken (zen_free z a) \<longleftrightarrow> getPageAddr a (zo_page_bits (z_opts z)) (zo_lane_bits (z_opts z)) \<noteq> 0)"
proof -
  let ?n = "lane_count_bits (z_opts z)" and ?l = "zo_lane_bits (z_opts z)" and ?p = "zo_page_bits (z_opts z)"
  let ?i = "unat (take_bit ?l a)"
  have o1: "z_opts (zen_free z a) = z_opts z" by (simp add: zen_free_def Let_def)
  note pz = page_zero_parts [of z a]
  have "b \<in> z_taken (zen_free z a) \<longleftrightarrow> b \<in> z_taken z \<and> b \<noteq> page_zero z a" for b
  proof (cases "z_find z b")
    case None
    then show ?thesis by (simp add: z_taken_def free_find [OF assms(1) refl refl])
  next
    case (Some s)
    then have "(drop_bit ?n b, s) \<in> set (z_blobs z)" by (simp add: z_find_def map_of_SomeD)
    then have len: "64 * length (bl_bits s) = 2 ^ ?n" using assms(1) by (auto simp: zen_ok_def Let_def blob_ok_def)
    have lt: "unat (take_bit ?n b) < 64 * length (bl_bits s)" using lane_lt [of ?n b] len by simp
    have il: "?i < 64 * length (bl_bits s)" using lane_lt [of ?n "page_zero z a"] len pz by simp
    have "b = page_zero z a \<longleftrightarrow> drop_bit ?n b = drop_bit ?n a \<and> unat (take_bit ?n b) = ?i"
      using pz same_address [of ?n b "page_zero z a"] by auto
    then show ?thesis using Some lane_free_set [OF il lt]
      by (auto simp: z_taken_def free_find [OF assms(1) refl refl] o1)
  qed
  then have t: "z_taken (zen_free z a) = z_taken z - {page_zero z a}" by blast
  have "a = page_zero z a \<longleftrightarrow> take_bit ?n a = take_bit ?l a"
    using pz same_address [of ?n a "page_zero z a"] by metis
  also have "\<dots> \<longleftrightarrow> take_bit ?p (drop_bit ?l a) = 0"
  proof
    assume e: "take_bit ?n a = take_bit ?l a"
    show "take_bit ?p (drop_bit ?l a) = 0"
    proof (rule bit_word_eqI)
      fix m
      show "bit (take_bit ?p (drop_bit ?l a)) m = bit (0 :: 32 word) m"
        using arg_cong [OF e, of "\<lambda>w. bit w (?l + m)"] by (auto simp: bit_simps lane_count_bits_def)
    qed
  next
    assume "take_bit ?p (drop_bit ?l a) = 0"
    then show "take_bit ?n a = take_bit ?l a"
      using join_page_lane [of ?p ?l a] by (simp add: lane_count_bits_def)
  qed
  also have "\<dots> \<longleftrightarrow> getPageAddr a ?p ?l = 0"
    using assms(1) by (simp add: zen_ok_def Let_def lane_count_bits_def getPageAddr_eq)
  finally show ?thesis using t assms(2) by auto
qed

subsection \<open>Hints and recovery\<close>

lemma lane_index_split:
  "unat (take_bit (p + l) (a :: 32 word)) = unat (take_bit p (drop_bit l a)) * 2 ^ l + unat (take_bit l a)"
  by (simp only: unat_take_bit32 unat_drop_bit32)
    (simp add: take_bit_eq_mod add.commute [of p] power_add mod_mult2_eq)

text \<open>
  A hint is given for the wrong bytes: the offset that is prefetched or purged multiplies the page
  by the size of a token instead of the size of a page. It is the offset of the token only in page 0,
  or when a page has one lane.
\<close>

theorem hint_exact_iff:
  assumes "zen_ok z" "z_range z < 2 ^ 64" "0 < z_token z"
    and "z_find z a = Some s" "bl_data s = Some d" "d \<noteq> 0" "zen_hint z a = Some (off, len)"
  shows "zen_access z a = Inr (d + off) \<longleftrightarrow>
    getPageAddr a (zo_page_bits (z_opts z)) (zo_lane_bits (z_opts z)) = 0 \<or> zo_lane_bits (z_opts z) = 0"
proof -
  let ?p = "zo_page_bits (z_opts z)" and ?l = "zo_lane_bits (z_opts z)" and ?n = "lane_count_bits (z_opts z)"
  let ?t = "int (z_token z)"
  let ?pg = "int (unat (take_bit ?p (drop_bit ?l a)))" and ?ln = "int (unat (take_bit ?l a))"
  have n: "?n = ?p + ?l" "?p < 32" "?l < 32"
    using assms(1) by (simp_all add: zen_ok_def Let_def lane_count_bits_def)
  have idx: "int (unat (take_bit ?n a)) = ?pg * 2 ^ ?l + ?ln"
    unfolding n(1) lane_index_split by simp
  have "?pg \<le> ?pg * 2 ^ ?l" by (simp add: mult_le_cancel_left1)
  then have "?pg + ?ln \<le> 2 ^ ?n" using idx lane_lt_int [of ?n a] by simp
  then have sm: "(?pg + ?ln) * ?t < 2 ^ 64"
    using assms(2) mult_right_mono [of "?pg + ?ln" "2 ^ ?n" ?t] unfolding z_range_def by linarith
  have nn: "0 \<le> ?pg * ?t" "0 \<le> ?ln * ?t" by simp_all
  have sm': "?pg * ?t + ?ln * ?t < 2 ^ 64" using sm by (simp only: distrib_right)
  have u: "u64 (?pg * ?t) = ?pg * ?t" "u64 (?ln * ?t) = ?ln * ?t" "u64 (?pg * ?t + ?ln * ?t) = ?pg * ?t + ?ln * ?t"
    by (rule u64_id; use nn sm' in linarith)+
  have "off = u64 (u64 (?pg * ?t) + u64 (?ln * ?t))"
    using assms(7) n by (auto simp: zen_hint_def Let_def getPageAddr_eq getLaneAddr_eq
        split: option.splits if_splits)
  also have "\<dots> = (?pg + ?ln) * ?t"
    using u by (simp only: distrib_right)
  finally have off: "off = (?pg + ?ln) * ?t" .
  have "zen_access z a = Inr (d + off) \<longleftrightarrow> (?pg * 2 ^ ?l + ?ln) * ?t = (?pg + ?ln) * ?t"
    using access_eq [OF assms(1,2,4,5,6)] off idx by simp
  also have "\<dots> \<longleftrightarrow> ?pg * 2 ^ ?l = ?pg" using assms(3) by simp
  also have "\<dots> \<longleftrightarrow> ?pg = 0 \<or> ?l = 0"
  proof (cases ?l)
    case (Suc k)
    have "(1 :: int) \<le> 2 ^ k" by simp
    then have "(2 :: int) ^ ?l \<noteq> 1" unfolding Suc power_Suc by linarith
    then show ?thesis using Suc by simp
  qed simp
  finally show ?thesis using n by (simp add: getPageAddr_eq unsigned_eq_0_iff)
qed

text \<open>
  Recovery loses what is in use: the bits of the lanes are not in the index, and every lane of a
  recovered store counts as free, so that the next allocation hands out an address whose token was
  saved.
\<close>

theorem recover_frees_lanes:
  assumes "zen_ok z" "zen_finalize z = Some i" "zen_recover dir (Some i) alloc mapped = Inr z'"
  shows "z_taken z' = {} \<and> map fst (z_blobs z') = map fst (z_blobs z)"
proof -
  let ?o = "(z_opts z)\<lparr>zo_dir := dir, zo_record := True\<rparr>"
  have i: "zi_opts i = z_opts z" "zi_blobs i = map (\<lambda>(k, s). (k, bl_type s, bl_map s \<noteq> None)) (z_blobs z)"
    using assms(2) by (auto simp: zen_finalize_def split: if_splits)
  obtain bs where bs: "omap (recover_blob ?o alloc mapped) (zi_blobs i) = Inr bs"
    and z': "z_opts z' = ?o" "z_blobs z' = fold (\<lambda>(k, s) acc. blob_insert k s acc) bs []"
    using assms(3) i(1) by (auto simp: zen_recover_def Let_def obind_Inr_iff)
  have n: "lane_count_bits ?o = lane_count_bits (z_opts z)" by (simp add: lane_count_bits_def)
  have n31: "6 \<le> lane_count_bits ?o" "lane_count_bits ?o < 31"
    using assms(1) n by (simp_all add: zen_ok_def Let_def)
  have rec: "fst e' = fst e \<and> bl_bits (snd e') = bitmap ?o 64"
    if "recover_blob ?o alloc mapped e = Inr e'" for e e'
    using that by (auto simp: recover_blob_def obind_Inr_iff split: prod.splits)
  have fs: "map fst bs = map fst (z_blobs z)"
  proof (rule nth_equalityI)
    fix j
    assume "j < length (map fst bs)"
    then have j: "j < length (z_blobs z)" using bs i(2) by (simp add: omap_Inr)
    then have "recover_blob ?o alloc mapped (zi_blobs i ! j) = Inr (bs ! j)" using bs i(2) by (simp add: omap_Inr)
    from rec [OF this] show "map fst bs ! j = map fst (z_blobs z) ! j"
      using j \<open>j < length (map fst bs)\<close> by (simp add: i(2) split_beta)
  qed (use bs i(2) in \<open>simp add: omap_Inr\<close>)
  have bits: "\<forall>e \<in> set bs. bl_bits (snd e) = bitmap ?o 64"
  proof
    fix e
    assume "e \<in> set bs"
    then obtain j where j: "j < length bs" "e = bs ! j" by (auto simp: in_set_conv_nth)
    then have "recover_blob ?o alloc mapped (zi_blobs i ! j) = Inr e" using bs by (simp add: omap_Inr)
    from rec [OF this] show "bl_bits (snd e) = bitmap ?o 64" by simp
  qed
  have "fold (\<lambda>(k, s) acc. blob_insert k s acc) xs acc = acc @ xs"
    if "distinct (map fst (acc @ xs))" for xs acc
    using that
  proof (induction xs arbitrary: acc)
    case (Cons e xs)
    obtain k s where e: "e = (k, s)" by force
    then have "map_of acc k = None" using Cons.prems by (auto simp: map_of_eq_None_iff)
    then show ?case using Cons e by (simp add: blob_insert_def)
  qed simp
  then have zb: "z_blobs z' = bs" using z'(2) fs zen_keys_distinct [OF assms(1)] by simp
  have "a \<notin> z_taken z'" for a
    using bits bitmap_ok(2) [OF n31 refl lane_lt, of a] map_of_SomeD [of bs]
    by (fastforce simp: z_taken_def z_find_def zb z'(1))
  then show ?thesis using fs zb by auto
qed

subsection \<open>Progress, and concrete stores\<close>

text \<open>An allocation succeeds while a lane is free, and afterwards if a blob can be mapped.\<close>

lemma malloc_total:
  assumes "zen_ok z" "z_find z a \<noteq> None" "a \<notin> z_taken z"
  shows "\<exists>z' b. zen_malloc mapped z = Inr (z', b)"
proof -
  obtain r z1 where s: "zen_scan z = (r, z1)" by force
  have "r \<noteq> None" using zen_scan_ok [OF assms(1) s] assms(2,3) by (cases r) auto
  then show ?thesis using s by (auto simp: zen_malloc_def)
qed

lemma find_kept: "data_kept z z' \<Longrightarrow> z_find z a \<noteq> None \<Longrightarrow> z_find z' a \<noteq> None"
  by (auto simp: data_kept_def)

definition small_options :: "zen_mmap_type \<Rightarrow> zen_options" where
  "small_options m = \<lparr>zo_record = True, zo_dir = ''kv'', zo_blob_bits = 26, zo_page_bits = 2, zo_lane_bits = 4,
     zo_k_ele = 8, zo_v_ele = 8, zo_k_dtype = kInt8, zo_v_dtype = kInt8, zo_mmap = m\<rparr>"

definition small_store :: "zen_mmap_type \<Rightarrow> zenfs" where
  "small_store m = \<lparr>z_opts = small_options m, z_token = 8,
     z_blobs = [(0, \<lparr>bl_data = Some 4096, bl_type = kInMemory, bl_map = None, bl_bits = [-1]\<rparr>)]\<rparr>"

lemma byte_layout: "lanesOfType kInt8 = 1" "bytesOfType kInt8 = 1"
  by (simp_all add: lanesOfType_def info_lanes_def bytesOfType_def sizeof_def dtype_tables)

lemma small_lanes [simp]: "lane_count_bits (small_options m) = 6"
  by (simp add: lane_count_bits_def small_options_def)

lemma small_initialize: "zen_initialize (small_options m) 4096 = Inr (small_store m)"
proof -
  have sh: "blob_shape_of (small_options m) = [64, 8]"
    by (simp add: blob_shape_of_def lane_total_def small_options_def lane_count_bits_def to_i32_def)
  have "shape_ok [64, 8]" by (simp add: shape_ok_def max_rank_def)
  from tensor_empty_ok [OF this, of kInt8] obtain t where
    t: "tensor_empty [64, 8] kInt8 kCPU 0 = Inr t" by (auto simp: byte_layout)
  have b: "bitmap (small_options m) 64 = [-1]"
    by (simp add: bitmap_def lane_total_def to_i32_def u64_def)
  show ?thesis
    using t sh b by (simp add: zen_initialize_def small_store_def token_mem_size_def u64_def)
      (simp add: small_options_def byte_layout)
qed

lemma small_ok: "zen_ok (small_store m)" "z_taken (small_store m) = {}" "z_opts (small_store m) = small_options m"
  "z_token (small_store m) = 8"
  using initialize_ok [OF small_initialize, of m] by (simp_all add: small_store_def)

lemma small_find: "drop_bit 6 a = 0 \<Longrightarrow> z_find (small_store m) a \<noteq> None"
  by (simp add: z_find_def small_store_def)

text \<open>The blob in memory is filled lane by lane; then another one is mapped.\<close>

lemma malloc_free_lane:
  assumes "zen_ok z" "z_find z a \<noteq> None" "a \<notin> z_taken z"
  shows "\<exists>z' b. zen_malloc mapped z = Inr (z', b) \<and> length (z_blobs z') = length (z_blobs z)"
proof -
  obtain r z1 where s: "zen_scan z = (r, z1)" by force
  have "r \<noteq> None" using zen_scan_ok [OF assms(1) s] assms(2,3) by (cases r) auto
  then show ?thesis using s scan_length [OF s] by (auto simp: zen_malloc_def)
qed

lemma fits_one: "zen_ok z \<Longrightarrow> length (z_blobs z') = length (z_blobs z) \<Longrightarrow> z_opts z' = z_opts z \<Longrightarrow> z_fits z'"
  by (simp add: zen_ok_def z_fits_def Let_def)

lemma first_blob: "card {a :: vp_addr. drop_bit 6 a = 0} = 64"
proof -
  have "{a :: vp_addr. drop_bit 6 a = 0} = of_nat ` {..<64}"
  proof (rule set_eqI, rule iffI)
    fix a :: vp_addr
    assume "a \<in> {a. drop_bit 6 a = 0}"
    then have "unat a div 64 = 0" using unat_drop_bit32 [of 6 a] by simp
    then have "unat a < 64" by (simp add: div_eq_0_iff)
    then show "a \<in> of_nat ` {..<64}" by (intro image_eqI [of _ _ "unat a"]) simp_all
  next
    fix a :: vp_addr
    assume "a \<in> of_nat ` {..<64}"
    then obtain i where "i < 64" "a = of_nat i" by auto
    then show "a \<in> {a. drop_bit 6 a = 0}" using lane_word(3) [of i 6] by simp
  qed
  moreover have "inj_on (of_nat :: nat \<Rightarrow> vp_addr) {..<64}"
    by (rule inj_onI) (auto simp: word_unat_eq_iff unat_of_nat)
  ultimately show ?thesis by (simp add: card_image)
qed

lemma mallocs_snoc:
  "zen_mallocs (xs @ [x]) z = obind (zen_mallocs xs z) (\<lambda>(z1, as). obind (zen_malloc x z1) (\<lambda>(z2, a). Inr (z2, as @ [a])))"
  by (induction xs z rule: zen_mallocs.induct) (simp_all add: obind_assoc case_prod_unfold)

lemma fill_small:
  "m \<le> 64 \<Longrightarrow> \<exists>z' as. zen_mallocs (replicate m None) (small_store k) = Inr (z', as) \<and> length as = m \<and>
     length (z_blobs z') = 1 \<and> z_opts z' = small_options k"
proof (induction m)
  case 0
  then show ?case by (simp add: small_ok small_store_def)
next
  case (Suc m)
  obtain z1 as where z1: "zen_mallocs (replicate m None) (small_store k) = Inr (z1, as)" "length as = m"
    "length (z_blobs z1) = 1" "z_opts z1 = small_options k" using Suc by auto
  have "z_fits z1" using z1(3,4) by (simp add: z_fits_def)
  note ok = mallocs_ok [OF small_ok(1) z1(1) this, unfolded small_ok(2)]
  have "card (set as) < card {a :: vp_addr. drop_bit 6 a = 0}"
    using card_length [of "as"] z1(2) Suc(2) by (simp add: first_blob)
  then have "\<not> {a :: vp_addr. drop_bit 6 a = 0} \<subseteq> set as" using card_mono [of "set as"] by (metis List.finite_set not_le)
  then obtain a :: vp_addr where a: "drop_bit 6 a = 0" "a \<notin> set as" by blast
  have "z_find z1 a \<noteq> None" using find_kept small_find [OF a(1)] ok by blast
  then obtain z2 b where z2: "zen_malloc None z1 = Inr (z2, b)" "length (z_blobs z2) = 1"
    using malloc_free_lane [of z1 a None] a(2) ok z1(3) by auto
  moreover have "z_opts z2 = small_options k" using malloc_grows [OF z2(1)] z1(4) by simp
  ultimately show ?case using z1(1,2) mallocs_snoc [of "replicate m None" None] by (simp add: replicate_append_same)
qed

lemma one_blob_full:
  assumes "zen_ok z" "length (z_blobs z) = 1" "lane_count_bits (z_opts z) = 6" "card (z_taken z) = 64"
  shows "z_taken z = {a. z_find z a \<noteq> None}"
proof -
  have "map fst (z_blobs z) = map of_nat [0..<length (z_blobs z)]" using assms(1) by (simp add: zen_ok_def Let_def)
  then obtain s where "z_blobs z = [(0, s)]" using assms(2) by (cases "z_blobs z") auto
  then have f: "{a. z_find z a \<noteq> None} = {a. drop_bit 6 a = 0}" using assms(3) by (auto simp: z_find_def)
  have "z_taken z \<subseteq> {a. z_find z a \<noteq> None}" by (auto simp: z_taken_def)
  then show ?thesis using card_subset_eq [of "{a :: vp_addr. drop_bit 6 a = 0}" "z_taken z"] assms(4) first_blob
    unfolding f by simp
qed

lemma malloc_maps:
  assumes ok: "zen_ok z" and full: "z_taken z = {a. z_find z a \<noteq> None}" and m: "zo_mmap (z_opts z) = kAnonymous"
    and t: "tensor_empty (blob_shape_of (z_opts z)) (zo_k_dtype (z_opts z)) kCPU 0 = Inr t"
    and r: "length (z_blobs z) + 1 < 2 ^ (32 - lane_count_bits (z_opts z))"
  shows "\<exists>z' a. zen_malloc (Some base) z = Inr (z', a) \<and> length (z_blobs z') = length (z_blobs z) + 1"
proof -
  let ?n = "lane_count_bits (z_opts z)" and ?l = "length (z_blobs z)"
  obtain r1 z1 where s: "zen_scan z = (r1, z1)" by force
  have n1: "r1 = None" "z1 = z" using zen_scan_ok [OF ok s] full by (cases r1; auto)+
  obtain bytes where c: "zen_create (Some base) z = add_blob z base bytes 64"
    using ok m by (simp add: zen_create_def createBlobOnAnonymousFile_def initAnonymous_def zen_ok_def Let_def)
  obtain z2 where z2: "add_blob z base bytes 64 = Inr z2" using t by (simp add: add_blob_def Let_def)
  have le: "?l \<le> length (z_blobs z2) \<and> length (z_blobs z2) \<le> ?l + 1 \<and> z_opts z2 = z_opts z"
    using z2 by (auto simp: add_blob_def Let_def obind_Inr_iff blob_insert_def split: option.splits)
  then have "z_fits z2" using r by (auto simp: z_fits_def)
  note ab = add_blob_ok [OF ok z2 this]
  define a0 where "a0 = push_bit ?n (of_nat ?l :: vp_addr)"
  have nb: "?n < 31" using ok by (simp add: zen_ok_def Let_def)
  have d: "drop_bit ?n a0 = of_nat ?l" unfolding a0_def by (rule drop_bit_of_nat_below) (use r nb in auto)
  have "z_find z2 a0 \<noteq> None" using ab [of a0] d by simp
  moreover have "z_find z a0 = None"
  proof (rule ccontr)
    assume "z_find z a0 \<noteq> None"
    then have "of_nat ?l \<in> fst ` set (z_blobs z)" using map_of_SomeD by (force simp: z_find_def d)
    moreover have "map fst (z_blobs z) = map of_nat [0..<?l]" using ok by (simp add: zen_ok_def Let_def)
    from arg_cong [OF this, of set] have "fst ` set (z_blobs z) = of_nat ` {0..<?l}" by simp
    ultimately obtain i where i: "i < ?l" "(of_nat ?l :: vp_addr) = of_nat i" by auto
    have "(2 :: nat) ^ (32 - ?n) \<le> 2 ^ 32" by (intro power_increasing) auto
    then have "?l < 2 ^ 32" using r by linarith
    then show False using i by (simp add: word_unat_eq_iff unat_of_nat)
  qed
  ultimately have new: "z_find z2 a0 \<noteq> None" "a0 \<notin> z_taken z2" using ab full by auto
  have ok2: "zen_ok z2" using ab by blast
  obtain r3 z3 where s3: "zen_scan z2 = (r3, z3)" by force
  then obtain b where b: "r3 = Some b" using zen_scan_ok [OF ok2 s3] new by (cases r3) auto
  have "z_find z2 a0 \<noteq> z_find z a0" using new(1) \<open>z_find z a0 = None\<close> by simp
  then have "length (z_blobs z2) \<noteq> ?l"
    using z2 by (auto simp: add_blob_def Let_def obind_Inr_iff blob_insert_def z_find_def split: option.splits)
  then have "length (z_blobs z3) = ?l + 1" using le scan_length [OF s3] by linarith
  then show ?thesis using s n1 c z2 s3 b by (simp add: zen_malloc_def)
qed

lemma small_mmap: "zo_mmap (small_options m) = m"
  by (simp add: small_options_def)

lemma small_shape: "\<exists>t. tensor_empty (blob_shape_of (small_options m)) (zo_k_dtype (small_options m)) kCPU 0 = Inr t"
proof -
  have sh: "blob_shape_of (small_options m) = [64, 8]" "zo_k_dtype (small_options m) = kInt8"
    by (simp_all add: blob_shape_of_def lane_total_def small_options_def lane_count_bits_def to_i32_def)
  have "shape_ok [64, 8]" by (simp add: shape_ok_def max_rank_def)
  from tensor_empty_ok [OF this, of kInt8] show ?thesis by (auto simp: byte_layout sh)
qed

theorem zen_mallocs_fresh_witness:
  "\<exists>z z' as. zen_initialize (small_options kAnonymous) 4096 = Inr z \<and>
     zen_mallocs (replicate 64 None @ [Some 65536]) z = Inr (z', as) \<and> length as = 65 \<and> length (z_blobs z') = 2 \<and>
     distinct as \<and> z_taken z' = set as"
proof -
  let ?k = "kAnonymous"
  obtain z1 as where z1: "zen_mallocs (replicate 64 None) (small_store ?k) = Inr (z1, as)" "length as = 64"
    "length (z_blobs z1) = 1" "z_opts z1 = small_options ?k" using fill_small [of 64 ?k] by auto
  have "z_fits z1" using z1(3,4) by (simp add: z_fits_def)
  note ok = mallocs_ok [OF small_ok(1) z1(1) this, unfolded small_ok(2)]
  have "z_taken z1 = {a. z_find z1 a \<noteq> None}" by (rule one_blob_full) (use ok z1 distinct_card [of "as"] in auto)
  then obtain z2 a where z2: "zen_malloc (Some 65536) z1 = Inr (z2, a)" "length (z_blobs z2) = 2"
    using malloc_maps [of z1 _ 65536] small_shape [of ?k] ok z1(3,4) by (auto simp: small_mmap)
  have m: "zen_mallocs (replicate 64 None @ [Some 65536]) (small_store ?k) = Inr (z2, as @ [a])"
    using z1(1) z2(1) by (simp add: mallocs_snoc)
  from zen_mallocs_fresh [OF small_initialize _ _ m] z1(2) z2(2) m small_initialize show ?thesis by auto
qed

text \<open>A store whose only blob is full.\<close>

definition full_store :: "zen_mmap_type \<Rightarrow> zen_blob_type \<Rightarrow> zenfs" where
  "full_store m ty = \<lparr>z_opts = small_options m, z_token = 8,
     z_blobs = [(0, \<lparr>bl_data = Some 4096, bl_type = ty,
       bl_map = (if ty = kOnDiskMMAP then Some 512 else None), bl_bits = [0]\<rparr>)]\<rparr>"

lemma full_ok: "zen_ok (full_store m ty)" "z_opts (full_store m ty) = small_options m" "z_token (full_store m ty) = 8"
proof -
  have "\<exists>i. Suc i < 67108864 \<and> (0 :: vp_addr) = of_nat i" by (rule exI [of _ 0]) simp
  then show "zen_ok (full_store m ty)" by (simp add: zen_ok_def full_store_def blob_ok_def)
qed (simp_all add: full_store_def)

lemma full_taken: "z_taken (full_store m ty) = {a. z_find (full_store m ty) a \<noteq> None}"
proof -
  have "unat (take_bit 6 (a :: 32 word)) < 64" for a using lane_lt [of 6 a] by simp
  then have "\<not> lane_free [0] (unat (take_bit 6 (a :: 32 word)))" for a
    using div_less [of "unat (take_bit 6 a)" 64] by (simp add: lane_free_def)
  then show ?thesis by (auto simp: z_taken_def z_find_def full_store_def)
qed

theorem file_mode_never_grows_witness:
  "zen_malloc (Some 65536) (full_store kFile kInMemory) = Inl (Exit kCoreError)"
  by (rule file_mode_never_grows [OF full_ok(1) _ full_taken]) (simp add: full_ok small_options_def)

theorem zen_access_disjoint_witness:
  "zen_access (full_store kAnonymous kInMemory) 0x12 = Inr 4240 \<and>
   zen_access (full_store kAnonymous kInMemory) 0x13 = Inr 4248 \<and>
   (\<exists>x y. zen_access (full_store kAnonymous kInMemory) 0x12 = Inr x \<and>
     zen_access (full_store kAnonymous kInMemory) 0x13 = Inr y \<and> (x + 8 \<le> y \<or> y + 8 \<le> x))"
proof -
  let ?z = "full_store kAnonymous kInMemory"
  have r: "z_range ?z = 512" by (simp add: z_range_def full_ok)
  have f: "z_find ?z a = (if drop_bit 6 a = 0 then Some \<lparr>bl_data = Some 4096, bl_type = kInMemory,
      bl_map = None, bl_bits = [0]\<rparr> else None)" for a
    by (simp add: z_find_def full_store_def)
  have "data_apart ?z" using f by (auto simp: data_apart_def r full_ok split: if_splits)
  from zen_access_disjoint [OF full_ok(1) this, of "0x12" "0x13"] f
  show ?thesis using access_eq [OF full_ok(1), of kAnonymous kInMemory, unfolded r]
    by (simp add: full_ok)
qed

theorem free_ignores_page_witness:
  "z_taken (zen_free (full_store kAnonymous kInMemory) 0x13) = z_taken (full_store kAnonymous kInMemory) - {3} \<and>
   0x13 \<in> z_taken (zen_free (full_store kAnonymous kInMemory) 0x13)"
proof -
  have "0x13 \<in> z_taken (full_store kAnonymous kInMemory)"
    by (simp add: full_taken) (simp add: z_find_def full_store_def)
  moreover have "getPageAddr 0x13 2 4 = 1" by (simp add: getPageAddr_eq)
  ultimately show ?thesis using free_ignores_page [OF full_ok(1), of "0x13"]
    by (simp add: page_zero_def full_ok) (simp add: small_options_def)
qed

theorem hint_exact_iff_witness:
  "zen_hint (full_store kAnonymous kOnDiskMMAP) 0x13 = Some (32, 8) \<and>
   zen_access (full_store kAnonymous kOnDiskMMAP) 0x13 \<noteq> Inr (4096 + 32)"
proof -
  let ?z = "full_store kAnonymous kOnDiskMMAP"
  have h: "zen_hint ?z 0x13 = Some (32, 8)"
    by (simp add: zen_hint_def full_store_def small_options_def getBlobAddr_def getPageAddr_eq getLaneAddr_eq u64_def)
  have f: "z_find ?z 0x13 = Some \<lparr>bl_data = Some 4096, bl_type = kOnDiskMMAP, bl_map = Some 512, bl_bits = [0]\<rparr>"
    by (simp add: z_find_def full_store_def)
  have p: "getPageAddr 0x13 (zo_page_bits (z_opts ?z)) (zo_lane_bits (z_opts ?z)) = 1" "zo_lane_bits (z_opts ?z) = 4"
    by (simp_all add: full_ok small_options_def getPageAddr_eq)
  from hint_exact_iff [OF full_ok(1) _ _ f _ _ h] p show ?thesis using h
    by (simp add: z_range_def full_ok)
qed

theorem recover_frees_lanes_witness:
  "\<exists>i z'. zen_finalize (full_store kAnonymous kInMemory) = Some i \<and>
     zen_recover ''kv'' (Some i) (\<lambda>_. Some 4096) (\<lambda>_. None) = Inr z' \<and>
     z_taken (full_store kAnonymous kInMemory) \<noteq> {} \<and> z_taken z' = {}"
proof -
  let ?z = "full_store kAnonymous kInMemory"
  let ?o = "small_options kAnonymous"
  have i: "zen_finalize ?z = Some \<lparr>zi_opts = ?o, zi_blobs = [(0, kInMemory, False)]\<rparr>"
    by (simp add: zen_finalize_def full_store_def) (simp add: small_options_def)
  have o1: "?o\<lparr>zo_dir := ''kv'', zo_record := True\<rparr> = ?o" by (simp add: small_options_def)
  obtain t where "tensor_empty (blob_shape_of ?o) (zo_k_dtype ?o) kCPU 0 = Inr t"
    using small_initialize [of kAnonymous] by (auto simp: zen_initialize_def obind_Inr_iff split: if_splits)
  then obtain z' where z': "zen_recover ''kv'' (zen_finalize ?z) (\<lambda>_. Some 4096) (\<lambda>_. None) = Inr z'"
    by (simp add: i zen_recover_def o1 recover_blob_def Let_def)
  have "0 \<in> z_taken ?z" by (simp add: full_taken) (simp add: z_find_def full_store_def)
  with recover_frees_lanes [OF full_ok(1) i z'[unfolded i]] i z' show ?thesis by auto
qed

subsection \<open>The interface of a store of tokens\<close>

text \<open>What a client of the store relies on: fresh addresses that keep their place in memory.\<close>

locale token_store =
  fixes give :: "'m \<Rightarrow> 's \<Rightarrow> ('s \<times> vp_addr) outcome"
    and place :: "'s \<Rightarrow> vp_addr \<Rightarrow> int outcome"
    and release :: "'s \<Rightarrow> vp_addr \<Rightarrow> 's"
    and taken :: "'s \<Rightarrow> vp_addr set"
    and known :: "'s \<Rightarrow> vp_addr set"
    and invar :: "'s \<Rightarrow> bool"
    and fits :: "'s \<Rightarrow> bool"
  assumes give_fresh: "invar s \<Longrightarrow> give m s = Inr (s', a) \<Longrightarrow> fits s' \<Longrightarrow>
      a \<notin> taken s \<and> taken s' = insert a (taken s) \<and> invar s' \<and> known s \<subseteq> known s'"
    and give_place: "invar s \<Longrightarrow> give m s = Inr (s', a) \<Longrightarrow> fits s' \<Longrightarrow> b \<in> known s \<Longrightarrow> place s' b = place s b"
    and place_total: "invar s \<Longrightarrow> b \<in> known s \<Longrightarrow> \<exists>p. place s b = Inr p"
    and taken_known: "invar s \<Longrightarrow> taken s \<subseteq> known s"
    and release_place: "invar s \<Longrightarrow> place (release s a) b = place s b"
    and release_taken: "invar s \<Longrightarrow> invar (release s a) \<and> taken (release s a) \<subseteq> taken s \<and> known (release s a) = known s"
begin

lemma given_place: "invar s \<Longrightarrow> give m s = Inr (s', a) \<Longrightarrow> fits s' \<Longrightarrow> a \<in> known s' \<and> (\<exists>p. place s' a = Inr p)"
  using give_fresh place_total taken_known by blast

end

lemma access_kept:
  assumes "data_kept z z'" "z_find z b \<noteq> None"
  shows "zen_access z' b = zen_access z b"
proof -
  have o1: "z_opts z' = z_opts z" "z_token z' = z_token z" using assms(1) by (simp_all add: data_kept_def)
  obtain s where s: "z_find z b = Some s" using assms(2) by blast
  then obtain s' where "z_find z' b = Some s'" "bl_data s' = bl_data s"
    using assms(1) unfolding data_kept_def by blast
  then show ?thesis using s
    by (simp add: zen_access_def Let_def z_find_def o1 getBlobAddr_def lane_count_bits_def split: option.split)
qed

lemma free_kept:
  assumes "zen_ok z"
  shows "data_kept z (zen_free z a)"
proof -
  have "z_opts (zen_free z a) = z_opts z \<and> z_token (zen_free z a) = z_token z"
    by (simp add: zen_free_def Let_def)
  then show ?thesis by (auto simp: data_kept_def free_find [OF assms refl refl])
qed

lemma free_access:
  assumes "zen_ok z"
  shows "zen_access (zen_free z a) b = zen_access z b"
proof (cases "z_find z b")
  case None
  moreover from this have "z_find (zen_free z a) b = None" by (simp add: free_find [OF assms refl refl])
  moreover have "z_opts (zen_free z a) = z_opts z" by (simp add: zen_free_def Let_def)
  ultimately show ?thesis
    by (simp add: zen_access_def Let_def z_find_def getBlobAddr_def lane_count_bits_def)
qed (use access_kept [OF free_kept [OF assms]] in simp)

lemma free_ok:
  assumes "zen_ok z"
  shows "zen_ok (zen_free z a) \<and> z_taken (zen_free z a) \<subseteq> z_taken z"
proof -
  have o1: "z_opts (zen_free z a) = z_opts z" "length (z_blobs (zen_free z a)) = length (z_blobs z)"
    by (simp_all add: zen_free_def Let_def)
  have k: "map fst (z_blobs (zen_free z a)) = map fst (z_blobs z)"
    by (simp add: zen_free_def Let_def) (auto intro!: map_cong)
  have "blob_ok n k s'" if ks: "(k, s') \<in> set (z_blobs (zen_free z a))" and n: "n = lane_count_bits (z_opts z)" for n k s'
  proof -
    obtain s where "(k, s) \<in> set (z_blobs z)" "length (bl_bits s') = length (bl_bits s)" "bl_data s' = bl_data s"
      using ks by (auto simp: zen_free_def Let_def split: if_splits)
    then show ?thesis using assms n by (fastforce simp: zen_ok_def Let_def blob_ok_def)
  qed
  then have "zen_ok (zen_free z a)" using assms o1 k
    by (simp add: zen_ok_def Let_def split_beta) (metis length_0_conv prod.collapse)
  moreover have "b \<in> z_taken z" if bt: "b \<in> z_taken (zen_free z a)" for b
  proof (rule ccontr)
    let ?n = "lane_count_bits (z_opts z)" and ?i = "unat (take_bit (zo_lane_bits (z_opts z)) a)"
    assume nt: "b \<notin> z_taken z"
    obtain s where s: "z_find z b = Some s"
      using bt free_find [OF assms refl refl, of a b] by (cases "z_find z b") (simp_all add: z_taken_def)
    then have "(drop_bit ?n b, s) \<in> set (z_blobs z)" by (simp add: z_find_def map_of_SomeD)
    then have len: "64 * length (bl_bits s) = 2 ^ ?n" using assms by (auto simp: zen_ok_def Let_def blob_ok_def)
    have il: "?i < 64 * length (bl_bits s)" using lane_lt [of ?n "page_zero z a"] len page_zero_parts [of z a] by simp
    show False using bt s nt free_find [OF assms refl refl, of a b] lane_free_set [OF il] lane_lt [of ?n b] len
      by (auto simp: z_taken_def o1 split: if_splits)
  qed
  ultimately show ?thesis by blast
qed

definition z_known :: "zenfs \<Rightarrow> vp_addr set" where
  "z_known z = {a. z_find z a \<noteq> None}"

lemma known_kept: "data_kept z z' \<Longrightarrow> z_known z \<subseteq> z_known z'"
  using find_kept by (auto simp: z_known_def)

interpretation zen: token_store zen_malloc zen_access zen_free z_taken z_known zen_ok z_fits
proof unfold_locales
  fix z m z' a b
  assume a: "zen_ok z" "zen_malloc m z = Inr (z', a)" "z_fits z'" "b \<in> z_known z"
  with malloc_ok [OF a(1-3)] show "zen_access z' b = zen_access z b"
    using access_kept by (simp add: z_known_def)
next
  fix z b
  assume z: "zen_ok z" "b \<in> z_known z"
  then obtain s where s: "z_find z b = Some s" by (auto simp: z_known_def)
  then have "(drop_bit (lane_count_bits (z_opts z)) b, s) \<in> set (z_blobs z)"
    by (simp add: z_find_def map_of_SomeD)
  then obtain d where "bl_data s = Some d" using z(1) by (auto simp: zen_ok_def Let_def blob_ok_def)
  then show "\<exists>p. zen_access z b = Inr p" using s
    by (simp add: zen_access_def Let_def z_find_def getBlobAddr_def lane_count_bits_def)
next
  fix z m z' a
  assume "zen_ok z" "zen_malloc m z = Inr (z', a)" "z_fits z'"
  from malloc_ok [OF this] known_kept
  show "a \<notin> z_taken z \<and> z_taken z' = insert a (z_taken z) \<and> zen_ok z' \<and> z_known z \<subseteq> z_known z'" by blast
next
  fix z a
  assume z: "zen_ok z"
  have "z_known (zen_free z a) = z_known z"
    by (simp add: z_known_def free_find [OF z refl refl])
  with free_ok [OF z]
  show "zen_ok (zen_free z a) \<and> z_taken (zen_free z a) \<subseteq> z_taken z \<and> z_known (zen_free z a) = z_known z" by blast
qed (auto simp: free_access z_known_def z_taken_def)

subsection \<open>Small blobs\<close>

text \<open>
  With fewer than six bits for page and lane a blob still has a word of 64 bits. When its lanes are
  in use the store goes on with addresses of a blob that does not exist, whose memory is the null
  pointer.
\<close>

theorem small_blob_runs_over:
  assumes "z_blobs z = [(0, s)]" "bl_bits s = [w]" "lane_count_bits (z_opts z) < 6"
    and "\<forall>i < 2 ^ lane_count_bits (z_opts z). \<not> lane_free [w] i" "w \<noteq> 0"
  shows "\<exists>z' a. zen_malloc mapped z = Inr (z', a) \<and> zen_access z' a = Inr 0"
proof -
  let ?n = "lane_count_bits (z_opts z)" and ?m = "ctz w"
  let ?a = "of_nat ?m :: vp_addr" and ?w = "w AND NOT (push_bit ?m 1)"
  have m: "bit w ?m" "?m < 64" using ctz_bit [OF assms(5)] by blast+
  then have "lane_free [w] ?m" by (simp add: lane_free_def)
  then have big: "2 ^ ?n \<le> ?m" using assms(4) by (meson not_le)
  have a: "word_of_int (to_i32 (int ?m)) = ?a" "unat ?a = ?m" using lane_word [of ?m 6] m by simp_all
  then have "?a \<noteq> -1" using m by (auto simp: word_unat_eq_iff unsigned_minus_1_eq_mask mask_eq_exp_minus_1)
  then have "zen_scan z = (Some ?a, z\<lparr>z_blobs := [(0, s\<lparr>bl_bits := [?w]\<rparr>)]\<rparr>)"
    using assms(1,2,5) a by (simp add: zen_scan_def findFreeAddrInBlob_def Let_def)
  then have "zen_malloc mapped z = Inr (z\<lparr>z_blobs := [(0, s\<lparr>bl_bits := [?w]\<rparr>)]\<rparr>, ?a)"
    by (simp add: zen_malloc_def)
  moreover have "unat (drop_bit ?n ?a) \<noteq> 0"
    using big unat_drop_bit32 [of ?n ?a] a(2) by (simp add: div_eq_0_iff)
  then have "drop_bit ?n ?a \<noteq> 0" by (metis unat_0)
  then have "zen_access (z\<lparr>z_blobs := [(0, s\<lparr>bl_bits := [?w]\<rparr>)]\<rparr>) ?a = Inr 0"
    by (simp add: zen_access_def Let_def getBlobAddr_def lane_count_bits_def)
  ultimately show ?thesis by blast
qed

definition tiny_store :: zenfs where
  "tiny_store = \<lparr>z_opts = (small_options kAnonymous)\<lparr>zo_page_bits := 0, zo_lane_bits := 1\<rparr>, z_token = 8,
     z_blobs = [(0, \<lparr>bl_data = Some 4096, bl_type = kInMemory, bl_map = None, bl_bits = [4]\<rparr>)]\<rparr>"

theorem small_blob_runs_over_witness:
  "\<exists>z' a. zen_malloc None tiny_store = Inr (z', a) \<and> zen_access z' a = Inr 0"
proof (rule small_blob_runs_over [where w = 4
      and s = "\<lparr>bl_data = Some 4096, bl_type = kInMemory, bl_map = None, bl_bits = [4]\<rparr>"])
  have "\<not> lane_free [4] i" if "i < 2" for i
    using that bit_numeral_Bit0_iff by (auto simp: lane_free_def less_2_cases_iff)
  then show "\<forall>i < 2 ^ lane_count_bits (z_opts tiny_store). \<not> lane_free [4] i"
    by (simp add: tiny_store_def lane_count_bits_def)
qed (simp_all add: tiny_store_def lane_count_bits_def)

end
