(* ===== verification/Prefix_Cache.thy ===== *)
theory Prefix_Cache
  imports Radix_Tree Zen_FS
begin

text \<open>
  The prefix cache on top of the index and the store: \<^verbatim>\<open>mllm/engine/prefix_cache/Allocator.{hpp,cpp}\<close>
  (allocators per device behind one lookaside buffer), \<^verbatim>\<open>Cache.{hpp,cpp}\<close>, and the cache of the
  transformer layers with its sliding window, \<^verbatim>\<open>mllm/nn/lmcache/PrefixCache.{hpp,cpp}\<close>.
\<close>

subsection \<open>Allocators per device\<close>

datatype alloc_impl = HiCPU zenfs | GPU

record pc_allocator =
  pa_tlb :: tlb
  pa_impls :: "(device \<times> alloc_impl) list"

definition INVALID_VP_ADDR :: vp_addr where
  "INVALID_VP_ADDR = 0xFFFFFFFF"

definition impl_alloc :: "int option \<Rightarrow> alloc_impl \<Rightarrow> (alloc_impl \<times> vp_addr) outcome" where
  "impl_alloc mapped i =
     (case i of
        HiCPU z \<Rightarrow> obind (zen_malloc mapped z) (\<lambda>(z', a). Inr (HiCPU z', a))
      | GPU \<Rightarrow> Inr (GPU, INVALID_VP_ADDR))"

definition impl_physicalAddr :: "alloc_impl \<Rightarrow> vp_addr \<Rightarrow> int outcome" where
  "impl_physicalAddr i a = (case i of HiCPU z \<Rightarrow> zen_access z a | GPU \<Rightarrow> Inr 0)"

definition impl_free :: "alloc_impl \<Rightarrow> vp_addr \<Rightarrow> alloc_impl" where
  "impl_free i a = (case i of HiCPU z \<Rightarrow> HiCPU (zen_free z a) | GPU \<Rightarrow> GPU)"

text \<open>What a prefetch or a purge touches.\<close>

definition impl_hint :: "alloc_impl \<Rightarrow> vp_addr \<Rightarrow> (int \<times> int) option" where
  "impl_hint i a = (case i of HiCPU z \<Rightarrow> zen_hint z a | GPU \<Rightarrow> None)"

text \<open>A device without an allocator is a null pointer.\<close>

definition pa_impl :: "pc_allocator \<Rightarrow> device \<Rightarrow> alloc_impl outcome" where
  "pa_impl p d = (case map_of (pa_impls p) d of None \<Rightarrow> Inl Undefined | Some i \<Rightarrow> Inr i)"

definition pa_set :: "pc_allocator \<Rightarrow> device \<Rightarrow> alloc_impl \<Rightarrow> pc_allocator" where
  "pa_set p d i = p\<lparr>pa_impls := (d, i) # filter (\<lambda>e. fst e \<noteq> d) (pa_impls p)\<rparr>"

definition new_allocator :: "bool \<Rightarrow> bool \<Rightarrow> zen_options \<Rightarrow> int \<Rightarrow> pc_allocator outcome" where
  "new_allocator enable_cuda enable_cpu o1 base =
     (let p = \<lparr>pa_tlb = (\<lambda>_. None), pa_impls = (if enable_cuda then [(kCUDA, GPU)] else [])\<rparr>
      in if enable_cpu then obind (zen_initialize o1 base) (\<lambda>z. Inr (pa_set p kCPU (HiCPU z))) else Inr p)"

definition pa_alloc :: "int option \<Rightarrow> device \<Rightarrow> pc_allocator \<Rightarrow> (pc_allocator \<times> vp_addr) outcome" where
  "pa_alloc mapped d p =
     obind (pa_impl p d) (\<lambda>i. obind (impl_alloc mapped i) (\<lambda>(i', a).
       obind (impl_physicalAddr i' a) (\<lambda>x.
         Inr ((pa_set p d i')\<lparr>pa_tlb := tlb_insert (pa_tlb p) a x\<rparr>, a))))"

definition pa_physicalAddr :: "pc_allocator \<Rightarrow> vp_addr \<Rightarrow> int" where
  "pa_physicalAddr p a = tlb_lookup (pa_tlb p) a"

definition pa_free :: "device \<Rightarrow> pc_allocator \<Rightarrow> vp_addr \<Rightarrow> pc_allocator outcome" where
  "pa_free d p a =
     obind (pa_impl p d) (\<lambda>i. Inr ((pa_set p d (impl_free i a))\<lparr>pa_tlb := tlb_remove (pa_tlb p) a\<rparr>))"

definition pa_hint :: "device \<Rightarrow> pc_allocator \<Rightarrow> vp_addr \<Rightarrow> (int \<times> int) option outcome" where
  "pa_hint d p a = obind (pa_impl p d) (\<lambda>i. Inr (impl_hint i a))"

subsection \<open>Cache\<close>

record cache =
  ca_tree :: rtree
  ca_alloc :: pc_allocator

definition promote_values :: "nat \<Rightarrow> addr list list \<Rightarrow> addr list list outcome" where
  "promote_values n ks = omap (\<lambda>i. vec_at ks (int i)) [0..<n]"

definition cache_promote ::
  "cache \<Rightarrow> int list \<Rightarrow> addr list list \<Rightarrow> addr list list \<Rightarrow> int \<Rightarrow> cache outcome" where
  "cache_promote c tokens ks vs extra =
     obind (promote_values (rt_blocks (ca_tree c)) ks) (\<lambda>vk.
     obind (promote_values (rt_blocks (ca_tree c)) vs) (\<lambda>vv.
       case tree_insert (ca_tree c) tokens extra vk vv of
         (t, Inl e) \<Rightarrow> Inl e | (t, Inr _) \<Rightarrow> Inr (c\<lparr>ca_tree := t\<rparr>)))"

definition cache_find :: "cache \<Rightarrow> int list \<Rightarrow> search_result outcome" where
  "cache_find c tokens = tree_search (ca_tree c) tokens 0"

subsection \<open>The cache of the layers\<close>

record pc_options =
  po_layers :: nat
  po_k_ele :: nat
  po_v_ele :: nat
  po_k_dtype :: dtype
  po_v_dtype :: dtype
  po_hybrid :: "bool option"
  po_window :: "nat option"
  po_window_layers :: "bool list option"
  po_dir :: string
  po_blob_bits :: nat
  po_page_bits :: nat
  po_lane_bits :: nat
  po_mem_type :: zen_mmap_type

record layer_cache =
  lc_opts :: pc_options
  lc_tree :: rtree
  lc_caches :: "(zenfs \<times> zenfs) list"

definition plain_zen :: "pc_options \<Rightarrow> nat \<Rightarrow> zen_options" where
  "plain_zen o1 ele = \<lparr>zo_record = False, zo_dir = po_dir o1, zo_blob_bits = po_blob_bits o1,
     zo_page_bits = po_page_bits o1, zo_lane_bits = po_lane_bits o1, zo_k_ele = ele, zo_v_ele = ele,
     zo_k_dtype = po_k_dtype o1, zo_v_dtype = po_v_dtype o1, zo_mmap = po_mem_type o1\<rparr>"

definition full_layer :: "pc_options \<Rightarrow> int \<times> int \<Rightarrow> (zenfs \<times> zenfs) outcome" where
  "full_layer o1 bases =
     obind (zen_initialize (plain_zen o1 (po_k_ele o1)) (fst bases)) (\<lambda>k.
     obind (zen_initialize (plain_zen o1 (po_v_ele o1)) (snd bases)) (\<lambda>v. Inr (k, v)))"

text \<open>The base addresses of the first blobs are a parameter.\<close>

definition initFullAttention :: "pc_options \<Rightarrow> (nat \<Rightarrow> int \<times> int) \<Rightarrow> (zenfs \<times> zenfs) list outcome" where
  "initFullAttention o1 bases = omap (\<lambda>l. full_layer o1 (bases l)) [0..<po_layers o1]"

fun log2_floor :: "nat \<Rightarrow> nat" where
  "log2_floor n = (if n < 2 then 0 else Suc (log2_floor (n div 2)))"

definition window_zen :: "pc_options \<Rightarrow> nat \<Rightarrow> nat \<Rightarrow> zen_options" where
  "window_zen o1 bits ele = \<lparr>zo_record = False, zo_dir = po_dir o1, zo_blob_bits = nat (u64 (32 - int bits)),
     zo_page_bits = 0, zo_lane_bits = bits, zo_k_ele = ele, zo_v_ele = ele,
     zo_k_dtype = po_k_dtype o1, zo_v_dtype = po_v_dtype o1, zo_mmap = po_mem_type o1\<rparr>"

definition window_layer :: "pc_options \<Rightarrow> nat \<Rightarrow> int \<times> int \<Rightarrow> (zenfs \<times> zenfs) outcome" where
  "window_layer o1 bits bases =
     obind (zen_initialize (window_zen o1 bits (po_k_ele o1)) (fst bases)) (\<lambda>k.
     obind (zen_initialize (window_zen o1 bits (po_v_ele o1)) (snd bases)) (\<lambda>v. Inr (k, v)))"

text \<open>
  \<^verbatim>\<open>std::optional::value\<close> throws. The logarithm of a window of 0 does not fit in \<^verbatim>\<open>size_t\<close>; for
  windows of an \<^verbatim>\<open>int\<close> the double is exact enough for its integral part.
\<close>

definition initSlidingWindowAttention ::
  "pc_options \<Rightarrow> (nat \<Rightarrow> int \<times> int) \<Rightarrow> (zenfs \<times> zenfs) list outcome" where
  "initSlidingWindowAttention o1 bases =
     (case po_window_layers o1 of
        None \<Rightarrow> Inl (Exit kAssert)
      | Some ls \<Rightarrow>
          (case po_window o1 of
             None \<Rightarrow> Inl (Throw ''bad_optional_access'')
           | Some w \<Rightarrow> if w = 0 then Inl Undefined
               else omap (\<lambda>l. obind (vec_at ls (int l)) (\<lambda>b.
                      if b then window_layer o1 (log2_floor w) (bases l) else full_layer o1 (bases l)))
                    [0..<po_layers o1]))"

definition new_layer_cache :: "pc_options \<Rightarrow> (nat \<Rightarrow> int \<times> int) \<Rightarrow> layer_cache outcome" where
  "new_layer_cache o1 bases =
     obind (if po_hybrid o1 = Some True then initSlidingWindowAttention o1 bases else initFullAttention o1 bases)
       (\<lambda>cs. Inr \<lparr>lc_opts = o1, lc_tree = new_tree (po_layers o1), lc_caches = cs\<rparr>)"

definition lc_promote ::
  "layer_cache \<Rightarrow> int list \<Rightarrow> addr list list \<Rightarrow> addr list list \<Rightarrow> int \<Rightarrow> layer_cache outcome" where
  "lc_promote c tokens ks vs extra =
     obind (promote_values (po_layers (lc_opts c)) ks) (\<lambda>vk.
     obind (promote_values (po_layers (lc_opts c)) vs) (\<lambda>vv.
       case tree_insert (lc_tree c) tokens extra vk vv of
         (t, Inl e) \<Rightarrow> Inl e | (t, Inr _) \<Rightarrow> Inr (c\<lparr>lc_tree := t\<rparr>)))"

definition lc_find :: "layer_cache \<Rightarrow> int list \<Rightarrow> search_result outcome" where
  "lc_find c tokens = tree_search (lc_tree c) tokens 0"

definition alloc_key :: "int option \<Rightarrow> nat \<Rightarrow> layer_cache \<Rightarrow> (layer_cache \<times> vp_addr) outcome" where
  "alloc_key mapped l c =
     obind (vec_at (lc_caches c) (int l)) (\<lambda>(k, v). obind (zen_malloc mapped k) (\<lambda>(k', a).
       Inr (c\<lparr>lc_caches := (lc_caches c)[l := (k', v)]\<rparr>, a)))"

definition alloc_value :: "int option \<Rightarrow> nat \<Rightarrow> layer_cache \<Rightarrow> (layer_cache \<times> vp_addr) outcome" where
  "alloc_value mapped l c =
     obind (vec_at (lc_caches c) (int l)) (\<lambda>(k, v). obind (zen_malloc mapped v) (\<lambda>(v', a).
       Inr (c\<lparr>lc_caches := (lc_caches c)[l := (k, v')]\<rparr>, a)))"

text \<open>\<^verbatim>\<open>freeKey\<close> and \<^verbatim>\<open>freeValue\<close> ignore the invalid address.\<close>

definition free_valid :: "zenfs \<Rightarrow> vp_addr \<Rightarrow> zenfs" where
  "free_valid z a = (if a = INVALID_VP_ADDR then z else zen_free z a)"

definition phys_key :: "layer_cache \<Rightarrow> nat \<Rightarrow> vp_addr \<Rightarrow> int outcome" where
  "phys_key c l a = obind (vec_at (lc_caches c) (int l)) (\<lambda>(k, v). zen_access k a)"

definition phys_value :: "layer_cache \<Rightarrow> nat \<Rightarrow> vp_addr \<Rightarrow> int outcome" where
  "phys_value c l a = obind (vec_at (lc_caches c) (int l)) (\<lambda>(k, v). zen_access v a)"

subsection \<open>The sliding window\<close>

text \<open>The first \<open>e\<close> tokens of a node leave the window.\<close>

fun evict_addrs :: "nat \<Rightarrow> addr list \<Rightarrow> zenfs \<Rightarrow> (addr list \<times> zenfs) outcome" where
  "evict_addrs 0 as z = Inr (as, z)"
| "evict_addrs (Suc e) [] z = Inl Undefined"
| "evict_addrs (Suc e) (a # as) z =
     obind (evict_addrs e as (free_valid z a)) (\<lambda>(as', z'). Inr (INVALID_VP_ADDR # as', z'))"

definition with_values :: "rnode \<Rightarrow> addr list list \<Rightarrow> addr list list \<Rightarrow> rnode" where
  "with_values n ks vs = (case n of RNode ts e k v r cs \<Rightarrow> RNode ts e ks vs r cs)"

definition evict_node :: "nat \<Rightarrow> nat \<Rightarrow> rnode \<Rightarrow> zenfs \<times> zenfs \<Rightarrow> (rnode \<times> zenfs \<times> zenfs) outcome" where
  "evict_node l e n zs =
     (if e = 0 then Inr (n, zs)
      else obind (vec_at (r_k n) (int l)) (\<lambda>ks. obind (vec_at (r_v n) (int l)) (\<lambda>vs.
           obind (evict_addrs e ks (fst zs)) (\<lambda>(ks', zk). obind (evict_addrs e vs (snd zs)) (\<lambda>(vs', zv).
             Inr (with_values n ((r_k n)[l := ks']) ((r_v n)[l := vs']), zk, zv))))))"

text \<open>
  The path is walked from its end; \<open>cnt\<close> is the number of tokens behind the node. The nodes of the
  path are those that \<open>descend\<close> visits.
\<close>

definition evict_count :: "nat \<Rightarrow> nat \<Rightarrow> nat \<Rightarrow> nat" where
  "evict_count w cnt ml = (if w < cnt + ml then min ml (cnt + ml - w) else 0)"

function (sequential) evict_walk ::
  "nat \<Rightarrow> nat \<Rightarrow> rnode \<Rightarrow> int list \<Rightarrow> zenfs \<times> zenfs \<Rightarrow> (rnode \<times> (zenfs \<times> zenfs) \<times> nat) outcome" where
  "evict_walk w l n [] zs = Inr (n, zs, 0)"
| "evict_walk w l n rest zs =
     (case find_child rest 0 (r_children n) of
        None \<Rightarrow> Inr (n, zs, 0)
      | Some (as, c, bs) \<Rightarrow>
          let ml = matchedLength rest 0 c in
          obind (evict_walk w l c (drop ml rest) zs) (\<lambda>(c1, zs1, cnt).
          obind (evict_node l (evict_count w cnt ml) c1 zs1) (\<lambda>(c2, zs2).
            Inr (with_children n (as @ c2 # bs), zs2, cnt + ml))))"
  by pat_completeness auto

termination
  by (relation "measure (\<lambda>(w, l, n, rest, zs). length rest)") (auto dest!: find_child_SomeD)

definition evict_layer ::
  "nat \<Rightarrow> bool list \<Rightarrow> search_result \<Rightarrow> int list \<Rightarrow> nat \<Rightarrow> layer_cache \<Rightarrow> layer_cache outcome" where
  "evict_layer w ls r tokens l c =
     obind (vec_at ls (int l)) (\<lambda>b.
       if b \<and> sr_success r \<and> w < sr_matched r then
         obind (vec_at (lc_caches c) (int l)) (\<lambda>zs.
         obind (evict_walk w l (rt_root (lc_tree c)) tokens zs) (\<lambda>(n, zs', cnt).
           Inr (c\<lparr>lc_tree := (lc_tree c)\<lparr>rt_root := n\<rparr>, lc_caches := (lc_caches c)[l := zs']\<rparr>)))
       else Inr c)"

definition evictSlidingWindowLayerOn :: "layer_cache \<Rightarrow> int list \<Rightarrow> layer_cache outcome" where
  "evictSlidingWindowLayerOn c tokens =
     (let o1 = lc_opts c in
      if po_hybrid o1 \<noteq> Some True then Inr c
      else case po_window o1 of
             None \<Rightarrow> Inl (Throw ''bad_optional_access'')
           | Some w \<Rightarrow>
               if length tokens \<le> w then Inr c
               else obind (lc_find c tokens) (\<lambda>r.
                    case po_window_layers o1 of
                      None \<Rightarrow> if po_layers o1 = 0 then Inr c else Inl (Throw ''bad_optional_access'')
                    | Some ls \<Rightarrow> ofold (evict_layer w ls r tokens) [0..<po_layers o1] c))"

subsection \<open>What leaves the window\<close>

text \<open>All but the last \<open>w\<close> addresses become invalid.\<close>

definition cut :: "nat \<Rightarrow> addr list \<Rightarrow> addr list" where
  "cut w xs = replicate (length xs - w) INVALID_VP_ADDR @ drop (length xs - w) xs"

lemma cut_step:
  assumes "m \<le> length x"
  shows "cut w (take m x @ g) =
    take m (replicate (evict_count w (length g) m) INVALID_VP_ADDR @ drop (evict_count w (length g) m) x) @ cut w g"
proof (cases "length g \<le> w")
  case True
  define e where "e = m + length g - w"
  have "evict_count w (length g) m = e" "e \<le> m" "length (take m x @ g) - w = e" "length (take m x) = m"
    using True assms by (auto simp: evict_count_def min_def e_def)
  then show ?thesis using True unfolding cut_def by (simp only:) (simp add: drop_take)
next
  case False
  then have "evict_count w (length g) m = m" "m + length g - w = m + (length g - w)"
    by (auto simp: evict_count_def min_def)
  then show ?thesis using False assms by (simp add: cut_def min_def flip: replicate_add)
qed

lemma evict_addrs_ok:
  "e \<le> length as \<Longrightarrow> \<exists>z'. evict_addrs e as z = Inr (replicate e INVALID_VP_ADDR @ drop e as, z')"
proof (induction e "as" z rule: evict_addrs.induct)
  case (3 e a "as" z)
  then obtain z' where "evict_addrs e as (free_valid z a) = Inr (replicate e INVALID_VP_ADDR @ drop e as, z')"
    by auto
  then show ?case by simp
qed simp_all

lemma with_values_simps [simp]:
  "r_tokens (with_values n ks vs) = r_tokens n" "r_extra (with_values n ks vs) = r_extra n"
  "r_children (with_values n ks vs) = r_children n" "r_k (with_values n ks vs) = ks"
  "r_v (with_values n ks vs) = vs"
  by (cases n; simp add: with_values_def)+

lemma nodes_with_values: "nodes (with_values n ks vs) = nodes n"
  by (cases n) (simp add: with_values_def)

definition evicted :: "nat \<Rightarrow> addr list \<Rightarrow> addr list" where
  "evicted e as = replicate e INVALID_VP_ADDR @ drop e as"

lemma vals_ok_update:
  "vals_ok blocks n ks \<Longrightarrow> length a = n \<Longrightarrow> vals_ok blocks n (ks[l := a])"
  using set_update_subset_insert by (fastforce simp: vals_ok_def)

lemma evict_node_ok:
  assumes n: "node_ok blocks n" and l: "l < blocks" and e: "e \<le> length (r_tokens n)"
  shows "\<exists>n' zs'. evict_node l e n zs = Inr (n', zs') \<and> node_ok blocks n' \<and> nodes n' = nodes n \<and>
    r_tokens n' = r_tokens n \<and> r_extra n' = r_extra n \<and> r_children n' = r_children n \<and>
    r_k n' = (r_k n)[l := evicted e (r_k n ! l)] \<and> r_v n' = (r_v n)[l := evicted e (r_v n ! l)]"
proof (cases "e = 0")
  case True
  then show ?thesis using n by (simp add: evict_node_def evicted_def)
next
  case False
  have v: "vals_ok blocks (length (r_tokens n)) (r_k n)" "vals_ok blocks (length (r_tokens n)) (r_v n)"
    "r_tokens n \<noteq> []" "inner_ok blocks n" using n by (simp_all add: node_ok_iff)
  then have len: "l < length (r_k n)" "l < length (r_v n)" "length (r_k n ! l) = length (r_tokens n)"
    "length (r_v n ! l) = length (r_tokens n)" using l by (auto simp: vals_ok_def)
  obtain zk where zk: "evict_addrs e (r_k n ! l) (fst zs) = Inr (evicted e (r_k n ! l), zk)"
    using evict_addrs_ok [of e "r_k n ! l" "fst zs"] e len by (auto simp: evicted_def)
  obtain zv where zv: "evict_addrs e (r_v n ! l) (snd zs) = Inr (evicted e (r_v n ! l), zv)"
    using evict_addrs_ok [of e "r_v n ! l" "snd zs"] e len by (auto simp: evicted_def)
  let ?n = "with_values n ((r_k n)[l := evicted e (r_k n ! l)]) ((r_v n)[l := evicted e (r_v n ! l)])"
  have r: "evict_node l e n zs = Inr (?n, zk, zv)"
    using False len zk zv by (simp add: evict_node_def vec_at_def)
  have "length (evicted e (r_k n ! l)) = length (r_tokens n)"
    "length (evicted e (r_v n ! l)) = length (r_tokens n)" using e len by (simp_all add: evicted_def)
  moreover have "inner_ok blocks ?n" using v(4) by (simp add: inner_ok_def)
  ultimately have "node_ok blocks ?n" using v(1-3) vals_ok_update by (simp add: node_ok_iff [of _ ?n])
  then show ?thesis using r by (simp add: nodes_with_values)
qed

lemma descend_children: "r_children n = r_children n' \<Longrightarrow> descend n rest extra = descend n' rest extra"
  by (cases rest) simp_all

lemma gather_length:
  assumes "\<forall>(c, len) \<in> set p. len \<le> length (sel c ! b)"
  shows "length (gather sel b p) = path_len p"
  using assms by (induction p) (auto simp: gather_def path_len_def)

lemma gather_descend_length:
  assumes "inner_ok blocks n" "b < blocks"
  shows "length (gather r_k b (descend n rest extra)) = path_len (descend n rest extra) \<and>
    length (gather r_v b (descend n rest extra)) = path_len (descend n rest extra)"
proof -
  have "\<forall>(c, len) \<in> set (descend n rest extra). len \<le> length (r_k c ! b) \<and> len \<le> length (r_v c ! b)"
    using descend_nodes [OF assms(1), of rest extra] assms(2)
    by (fastforce simp: node_ok_iff [of blocks] vals_ok_def)
  then show ?thesis by (auto intro!: gather_length)
qed

definition window_cut :: "nat \<Rightarrow> nat \<Rightarrow> nat \<Rightarrow> rnode \<Rightarrow> rnode \<Rightarrow> int list \<Rightarrow> bool" where
  "window_cut blocks w l n n' rest \<longleftrightarrow> (let p = descend n rest 0; p' = descend n' rest 0 in
     path_len p' = path_len p \<and> (\<forall>b < blocks.
       gather r_k b p' = (if b = l then cut w (gather r_k b p) else gather r_k b p) \<and>
       gather r_v b p' = (if b = l then cut w (gather r_v b p) else gather r_v b p)))"

lemma evict_walk_ok:
  assumes "inner_ok blocks n" "l < blocks"
  shows "\<exists>n' zs'. evict_walk w l n rest zs = Inr (n', zs', path_len (descend n rest 0)) \<and>
    inner_ok blocks n' \<and> nodes n' = nodes n \<and> r_tokens n' = r_tokens n \<and> r_extra n' = r_extra n \<and>
    r_k n' = r_k n \<and> r_v n' = r_v n \<and> window_cut blocks w l n n' rest"
  using assms
proof (induction w l n rest zs rule: evict_walk.induct)
  case (1 w l n zs)
  then show ?case by (simp add: window_cut_def path_len_def gather_def cut_def)
next
  case (2 w l n x xs zs)
  let ?rest = "x # xs"
  show ?case
  proof (cases "find_child ?rest 0 (r_children n)")
    case None
    then show ?thesis using 2(2) by (simp add: window_cut_def path_len_def gather_def cut_def)
  next
    case (Some r)
    obtain as c bs where r: "r = (as, c, bs)" by (cases r)
    note f = Some [unfolded r]
    note s = find_child_SomeD [OF f]
    let ?ml = "matchedLength ?rest 0 c"
    let ?q = "descend c (drop ?ml ?rest) 0" and ?e = "evict_count w (path_len (descend c (drop ?ml ?rest) 0)) ?ml"
    have c: "node_ok blocks c" using 2(2) s by (simp add: inner_ok_def)
    then have ic: "inner_ok blocks c" by (simp add: node_ok_iff)
    have mll: "?ml \<le> length (r_tokens c)" using common_le by (simp add: matchedLength_def)
    obtain c1 zs1 where c1: "evict_walk w l c (drop ?ml ?rest) zs = Inr (c1, zs1, path_len ?q)"
      "inner_ok blocks c1" "nodes c1 = nodes c" "r_tokens c1 = r_tokens c" "r_extra c1 = r_extra c"
      "r_k c1 = r_k c" "r_v c1 = r_v c" "window_cut blocks w l c c1 (drop ?ml ?rest)"
      using 2(1) [OF f refl refl refl ic 2(3)] by (elim exE conjE) rule
    have nc1: "node_ok blocks c1"
      using c c1(2,4-7) by (simp add: node_ok_iff [of _ c] node_ok_iff [of _ c1])
    have el: "?e \<le> length (r_tokens c1)" using mll c1(4) by (auto simp: evict_count_def min_def)
    obtain c2 zs2 where c2: "evict_node l ?e c1 zs1 = Inr (c2, zs2)" "node_ok blocks c2" "nodes c2 = nodes c1"
      "r_tokens c2 = r_tokens c" "r_extra c2 = r_extra c" "r_children c2 = r_children c1"
      "r_k c2 = (r_k c)[l := evicted ?e (r_k c ! l)]" "r_v c2 = (r_v c)[l := evicted ?e (r_v c ! l)]"
      using evict_node_ok [OF nc1 2(3) el, of zs1] c1(4-7) by (elim exE conjE) auto
    let ?n' = "with_children n (as @ c2 # bs)"
    have ev: "evict_walk w l n ?rest zs = Inr (?n', zs2, path_len ?q + ?ml)"
      using c1(1) c2(1) by (simp add: f Let_def)
    have hd: "hd (r_tokens c2) = hd (r_tokens c)" using c2(4) by simp
    have "kids_ok (as @ c2 # bs)"
      using kids_ok_replace [of as c bs c2] 2(2) s c2(5) hd by (simp add: inner_ok_def)
    then have i: "inner_ok blocks ?n'" using 2(2) s c2(2) by (auto simp: inner_ok_def)
    have nn: "nodes ?n' = nodes n" using nodes_replace [of n as c bs c2 0] s c1(3) c2(3) by simp
    have ml2: "matchedLength ?rest 0 c2 = ?ml" using c2(4,5) by (simp add: matchedLength_def)
    have ne: "?rest \<noteq> []" by simp
    have f': "find_child ?rest 0 (r_children ?n') = Some (as, c2, bs)"
      using find_child_app [of as ?rest 0 c2 bs] s ml2 by simp
    have d: "descend n ?rest 0 = (c, ?ml) # ?q" using descend_step [OF ne f] .
    have d': "descend ?n' ?rest 0 = (c2, ?ml) # descend c1 (drop ?ml ?rest) 0"
      using descend_step [OF ne f'] descend_children [OF c2(6)] unfolding ml2 by simp
    have gl: "length (gather r_k l ?q) = path_len ?q" "length (gather r_v l ?q) = path_len ?q"
      using gather_descend_length [OF ic 2(3)] by simp_all
    have lk: "l < length (r_k c)" "l < length (r_v c)" "?ml \<le> length (r_k c ! l)" "?ml \<le> length (r_v c ! l)"
      using c 2(3) mll by (auto simp: node_ok_iff [of _ c] vals_ok_def)
    have cuts: "cut w (take ?ml (r_k c ! l) @ gather r_k l ?q) = take ?ml (evicted ?e (r_k c ! l)) @ cut w (gather r_k l ?q)"
      "cut w (take ?ml (r_v c ! l) @ gather r_v l ?q) = take ?ml (evicted ?e (r_v c ! l)) @ cut w (gather r_v l ?q)"
      using cut_step [OF lk(3), of w "gather r_k l ?q"] cut_step [OF lk(4), of w "gather r_v l ?q"] gl
      by (simp_all add: evicted_def)
    have w: "path_len (descend c1 (drop ?ml ?rest) 0) = path_len ?q"
      "\<forall>b < blocks. gather r_k b (descend c1 (drop ?ml ?rest) 0) = (if b = l then cut w (gather r_k b ?q) else gather r_k b ?q)"
      "\<forall>b < blocks. gather r_v b (descend c1 (drop ?ml ?rest) 0) = (if b = l then cut w (gather r_v b ?q) else gather r_v b ?q)"
      using c1(8) by (simp_all add: window_cut_def Let_def)
    have gc: "gather sel b ((m, k) # q) = take k (sel m ! b) @ gather sel b q" for sel b m k q
      by (simp add: gather_def)
    have pc: "path_len ((m, k) # q) = k + path_len q" for m :: rnode and k q
      by (simp add: path_len_def)
    have "window_cut blocks w l n ?n' ?rest"
      unfolding window_cut_def d d' Let_def gc pc
      using w cuts c2(7,8) lk(1,2) 2(3) by auto
    moreover have "evict_walk w l n ?rest zs = Inr (?n', zs2, path_len (descend n ?rest 0))"
      unfolding ev d pc by simp
    ultimately show ?thesis using i nn by simp
  qed
qed

definition lc_ok :: "layer_cache \<Rightarrow> bool" where
  "lc_ok c \<longleftrightarrow> tree_ok (lc_tree c) \<and> rt_blocks (lc_tree c) = po_layers (lc_opts c) \<and>
     length (lc_caches c) = po_layers (lc_opts c)"

text \<open>The layers of \<open>ls\<close> below \<open>m\<close> are cut, the others stay.\<close>

definition layers_cut :: "nat \<Rightarrow> bool list \<Rightarrow> nat \<Rightarrow> int list \<Rightarrow> layer_cache \<Rightarrow> layer_cache \<Rightarrow> bool" where
  "layers_cut w ls m tokens c c' \<longleftrightarrow>
     (let p = descend (rt_root (lc_tree c)) tokens 0; p' = descend (rt_root (lc_tree c')) tokens 0 in
      path_len p' = path_len p \<and> (\<forall>b < po_layers (lc_opts c).
        gather r_k b p' = (if b < m \<and> ls ! b then cut w (gather r_k b p) else gather r_k b p) \<and>
        gather r_v b p' = (if b < m \<and> ls ! b then cut w (gather r_v b p) else gather r_v b p)))"

lemma cut_short: "length xs \<le> w \<Longrightarrow> cut w xs = xs"
  by (simp add: cut_def)

lemma evict_layer_ok:
  assumes c: "lc_ok c" and l: "l < po_layers (lc_opts c)" "l < length ls"
    and r: "sr_success r = (sr_matched r \<noteq> 0)" "sr_matched r = path_len (descend (rt_root (lc_tree c)) tokens 0)"
  shows "\<exists>c'. evict_layer w ls r tokens l c = Inr c' \<and> lc_ok c' \<and> lc_opts c' = lc_opts c \<and>
    (let p = descend (rt_root (lc_tree c)) tokens 0; p' = descend (rt_root (lc_tree c')) tokens 0 in
     path_len p' = path_len p \<and> (\<forall>b < po_layers (lc_opts c).
       gather r_k b p' = (if b = l \<and> ls ! l then cut w (gather r_k b p) else gather r_k b p) \<and>
       gather r_v b p' = (if b = l \<and> ls ! l then cut w (gather r_v b p) else gather r_v b p)))"
proof -
  let ?n = "rt_root (lc_tree c)" and ?L = "po_layers (lc_opts c)"
  have i: "inner_ok ?L ?n" "length (lc_caches c) = ?L" "rt_count (lc_tree c) = nodes ?n"
    "rt_blocks (lc_tree c) = ?L" using c unfolding lc_ok_def tree_ok_def by metis+
  show ?thesis
  proof (cases "ls ! l \<and> w < sr_matched r")
    case True
    then have g: "ls ! l \<and> sr_success r \<and> w < sr_matched r" using r(1) by simp
    obtain n' zs' where n': "evict_walk w l ?n tokens (lc_caches c ! l) =
        Inr (n', zs', path_len (descend ?n tokens 0))"
      "inner_ok ?L n'" "nodes n' = nodes ?n" "window_cut ?L w l ?n n' tokens"
      using evict_walk_ok [OF i(1) l(1), of w tokens "lc_caches c ! l"] by blast
    let ?c = "c\<lparr>lc_tree := (lc_tree c)\<lparr>rt_root := n'\<rparr>, lc_caches := (lc_caches c)[l := zs']\<rparr>"
    have "evict_layer w ls r tokens l c = Inr ?c"
      using g l i(2) n'(1) by (simp add: evict_layer_def vec_at_def)
    moreover have "lc_ok ?c" using i n' by (simp add: lc_ok_def tree_ok_def)
    ultimately show ?thesis using n'(4) True by (auto simp: window_cut_def Let_def)
  next
    case False
    then have "evict_layer w ls r tokens l c = Inr c" using l by (auto simp: evict_layer_def vec_at_def)
    moreover have "cut w (gather r_k l (descend ?n tokens 0)) = gather r_k l (descend ?n tokens 0) \<and>
      cut w (gather r_v l (descend ?n tokens 0)) = gather r_v l (descend ?n tokens 0)" if "ls ! l"
      using False that r(2) gather_descend_length [OF i(1) l(1), of tokens 0] by (auto intro!: cut_short)
    ultimately show ?thesis using c by (auto simp: Let_def)
  qed
qed

lemma evict_layers_ok:
  assumes c: "lc_ok c" and m: "m \<le> po_layers (lc_opts c)" "m \<le> length ls"
    and r: "sr_success r = (sr_matched r \<noteq> 0)" "sr_matched r = path_len (descend (rt_root (lc_tree c)) tokens 0)"
  shows "\<exists>c'. ofold (evict_layer w ls r tokens) [0..<m] c = Inr c' \<and> lc_ok c' \<and> lc_opts c' = lc_opts c \<and>
    layers_cut w ls m tokens c c'"
  using m
proof (induction m)
  case 0
  then show ?case using c by (simp add: layers_cut_def Let_def)
next
  case (Suc m)
  then obtain c1 where c1: "ofold (evict_layer w ls r tokens) [0..<m] c = Inr c1" "lc_ok c1"
    "lc_opts c1 = lc_opts c" "layers_cut w ls m tokens c c1" by auto
  have r1: "sr_matched r = path_len (descend (rt_root (lc_tree c1)) tokens 0)"
    using c1(4) r(2) by (simp add: layers_cut_def Let_def)
  have l: "m < po_layers (lc_opts c1)" "m < length ls" using Suc c1(3) by simp_all
  obtain c2 where c2: "evict_layer w ls r tokens m c1 = Inr c2" "lc_ok c2" "lc_opts c2 = lc_opts c1"
    "let p = descend (rt_root (lc_tree c1)) tokens 0; p' = descend (rt_root (lc_tree c2)) tokens 0 in
     path_len p' = path_len p \<and> (\<forall>b < po_layers (lc_opts c1).
       gather r_k b p' = (if b = m \<and> ls ! m then cut w (gather r_k b p) else gather r_k b p) \<and>
       gather r_v b p' = (if b = m \<and> ls ! m then cut w (gather r_v b p) else gather r_v b p))"
    using evict_layer_ok [OF c1(2) l r(1) r1] by blast
  have "ofold (evict_layer w ls r tokens) [0..<Suc m] c = Inr c2"
    using c1(1) c2(1) by (simp add: ofold_append)
  moreover have "layers_cut w ls (Suc m) tokens c c2"
    using c1(3,4) c2(4) by (auto simp: layers_cut_def Let_def less_Suc_eq)
  ultimately show ?case using c1(3) c2(2,3) by simp
qed

text \<open>
  C21: for a sequence longer than the window, eviction invalidates in every layer with a sliding window
  the addresses of all but the last \<open>w\<close> of the matched tokens, and changes nothing else: the same
  tokens match, and the other layers keep their addresses.
\<close>

theorem evict_cuts_window:
  assumes "lc_ok c" "po_hybrid (lc_opts c) = Some True" "po_window (lc_opts c) = Some w"
    and "po_window_layers (lc_opts c) = Some ls" "po_layers (lc_opts c) \<le> length ls"
    and "w < length tokens" "lc_find c tokens = Inr old"
  shows "\<exists>c' new. evictSlidingWindowLayerOn c tokens = Inr c' \<and> lc_ok c' \<and> lc_find c' tokens = Inr new \<and>
    sr_matched new = sr_matched old \<and> (\<forall>l < po_layers (lc_opts c).
      sr_k new ! l = (if ls ! l then cut w (sr_k old ! l) else sr_k old ! l) \<and>
      sr_v new ! l = (if ls ! l then cut w (sr_v old ! l) else sr_v old ! l))"
proof -
  have t: "tree_ok (lc_tree c)" using assms(1) by (simp add: lc_ok_def)
  note so = search_ok [OF t refl, of tokens 0]
  then have old: "sr_success old = (sr_matched old \<noteq> 0)"
    "sr_matched old = path_len (descend (rt_root (lc_tree c)) tokens 0)"
    using assms(7) by (auto simp: lc_find_def)
  obtain c' where c': "ofold (evict_layer w ls old tokens) [0..<po_layers (lc_opts c)] c = Inr c'"
    "lc_ok c'" "lc_opts c' = lc_opts c" "layers_cut w ls (po_layers (lc_opts c)) tokens c c'"
    using evict_layers_ok [OF assms(1) order_refl assms(5) old] by blast
  have "evictSlidingWindowLayerOn c tokens = Inr c'"
    using assms(2-4,6,7) c'(1) by (simp add: evictSlidingWindowLayerOn_def Let_def)
  moreover have t': "tree_ok (lc_tree c')" "rt_blocks (lc_tree c') = po_layers (lc_opts c)"
    "rt_blocks (lc_tree c) = po_layers (lc_opts c)" using c'(2,3) assms(1) by (simp_all add: lc_ok_def)
  note so' = search_ok [OF t'(1) refl, of tokens 0]
  ultimately show ?thesis using so assms(7) c'(2,4) t'
    by (auto simp: lc_find_def layers_cut_def Let_def)
qed

text \<open>A cache with one layer that holds three tokens.\<close>

definition one_layer :: pc_options where
  "one_layer = \<lparr>po_layers = 1, po_k_ele = 8, po_v_ele = 8, po_k_dtype = kInt8, po_v_dtype = kInt8,
     po_hybrid = Some True, po_window = Some 1, po_window_layers = Some [True], po_dir = ''kv'', po_blob_bits = 20,
     po_page_bits = 2, po_lane_bits = 4, po_mem_type = kAnonymous\<rparr>"

theorem evict_cuts_window_witness:
  "\<exists>t c' new. tree_insert (new_tree 1) [1, 2, 3] 0 [[5, 6, 7]] [[8, 9, 10]] = (t, Inr True) \<and>
     evictSlidingWindowLayerOn \<lparr>lc_opts = one_layer, lc_tree = t,
       lc_caches = [(full_store kAnonymous kInMemory, full_store kAnonymous kInMemory)]\<rparr> [1, 2, 3] = Inr c' \<and>
     lc_find c' [1, 2, 3] = Inr new \<and> sr_k new ! 0 = [INVALID_VP_ADDR, INVALID_VP_ADDR, 7] \<and>
     sr_v new ! 0 = [INVALID_VP_ADDR, INVALID_VP_ADDR, 10]"
proof -
  let ?z = "full_store kAnonymous kInMemory"
  obtain t where t: "tree_insert (new_tree 1) [1, 2, 3] 0 [[5, 6, 7]] [[8, 9, 10]] = (t, Inr True)" "tree_ok t"
    "rt_blocks t = 1"
    using tree_insert_one_key [of "new_tree 1" "[1, 2, 3]" 0 "[[5, 6, 7]]" "[[8, 9, 10]]"]
    by (auto simp: long_enough_single)
  have "tree_search (new_tree 1) [1, 2, 3] 0 =
      Inr \<lparr>sr_success = False, sr_matched = 0, sr_path = [(rt_root (new_tree 1), 0)], sr_k = [[]], sr_v = [[]]\<rparr>"
    by (simp add: tree_search_def new_tree_def Let_def)
  from search_extends [OF _ _ _ _ t(1) this] obtain old where
    old: "tree_search t [1, 2, 3] 0 = Inr old" "sr_k old ! 0 = [5, 6, 7]" "sr_v old ! 0 = [8, 9, 10]"
    by (auto simp: long_enough_single)
  let ?c = "\<lparr>lc_opts = one_layer, lc_tree = t, lc_caches = [(?z, ?z)]\<rparr>"
  have "lc_ok ?c" using t by (simp add: lc_ok_def one_layer_def)
  from evict_cuts_window [OF this, of 1 "[True]" "[1, 2, 3]" old] old t(1)
  show ?thesis by (auto simp: one_layer_def lc_find_def cut_def numeral_2_eq_2)
qed

subsection \<open>The lookaside buffer\<close>

definition coherent :: "('s \<Rightarrow> vp_addr \<Rightarrow> int outcome) \<Rightarrow> ('s \<Rightarrow> vp_addr set) \<Rightarrow> tlb \<Rightarrow> 's \<Rightarrow> bool" where
  "coherent place known t s \<longleftrightarrow> (\<forall>a x. t a = Some x \<longrightarrow> a \<in> known s \<and> place s a = Inr x)"

context token_store begin

lemma coherent_give:
  assumes "invar s" "give m s = Inr (s', a)" "fits s'" "place s' a = Inr x" "coherent place known t s"
  shows "coherent place known (tlb_insert t a x) s'"
proof -
  have "t b = Some y \<longrightarrow> b \<in> known s' \<and> place s' b = Inr y" for b y
    using assms(5) give_fresh [OF assms(1-3)] give_place [OF assms(1-3)] unfolding coherent_def by fastforce
  moreover have "a \<in> known s'" using given_place [OF assms(1-3)] by blast
  ultimately show ?thesis using assms(4) by (auto simp: coherent_def tlb_insert_def split: option.splits if_splits)
qed

lemma coherent_release:
  assumes "invar s" "coherent place known t s"
  shows "coherent place known (tlb_remove t a) (release s b)"
  using assms release_place [OF assms(1)] release_taken [OF assms(1)] by (auto simp: coherent_def tlb_remove_def)

end

text \<open>
  The states of an allocator of the CPU, each with the addresses that were handed out and not freed since.
  \<open>cpu_fits\<close> says that its blobs fit in the 32 bits of an address.
\<close>

definition cpu_fits :: "pc_allocator \<Rightarrow> bool" where
  "cpu_fits p = (case map_of (pa_impls p) kCPU of Some (HiCPU z) \<Rightarrow> z_fits z | _ \<Rightarrow> False)"

inductive pa_run :: "zen_options \<Rightarrow> int \<Rightarrow> pc_allocator \<Rightarrow> vp_addr set \<Rightarrow> bool" for o1 base where
  pa_start: "new_allocator False True o1 base = Inr p \<Longrightarrow> pa_run o1 base p {}"
| pa_alloc_step: "pa_run o1 base p live \<Longrightarrow> pa_alloc m kCPU p = Inr (p', a) \<Longrightarrow> pa_run o1 base p' (insert a live)"
| pa_free_step: "pa_run o1 base p live \<Longrightarrow> pa_free kCPU p a = Inr p' \<Longrightarrow> pa_run o1 base p' (live - {a})"

definition pa_store :: "pc_allocator \<Rightarrow> zenfs \<Rightarrow> bool" where
  "pa_store p z \<longleftrightarrow> map_of (pa_impls p) kCPU = Some (HiCPU z)"

lemma pa_alloc_store:
  assumes "pa_store p z" "pa_alloc m kCPU p = Inr (p', a)"
  obtains z' x where "zen_malloc m z = Inr (z', a)" "zen_access z' a = Inr x" "pa_store p' z'"
    "pa_tlb p' = tlb_insert (pa_tlb p) a x"
  using assms
  by (auto simp: pa_store_def pa_alloc_def pa_impl_def impl_alloc_def impl_physicalAddr_def obind_Inr_iff pa_set_def)

lemma pa_free_store:
  assumes "pa_store p z" "pa_free kCPU p a = Inr p'"
  shows "pa_store p' (zen_free z a) \<and> pa_tlb p' = tlb_remove (pa_tlb p) a"
  using assms by (auto simp: pa_store_def pa_free_def pa_impl_def impl_free_def pa_set_def)

lemma pa_run_ok:
  assumes "pa_run o1 base p live" "6 \<le> lane_count_bits o1" "lane_count_bits o1 < 31"
  shows "\<exists>z. pa_store p z \<and> (z_fits z \<longrightarrow> zen_ok z \<and> coherent zen_access z_known (pa_tlb p) z \<and> dom (pa_tlb p) = live)"
  using assms
proof (induction rule: pa_run.induct)
  case (pa_start p)
  then obtain z where z: "zen_initialize o1 base = Inr z" "p = pa_set \<lparr>pa_tlb = (\<lambda>_. None), pa_impls = []\<rparr> kCPU (HiCPU z)"
    by (auto simp: new_allocator_def Let_def obind_Inr_iff)
  then show ?case using initialize_ok [OF z(1) pa_start(2,3)] by (simp add: pa_store_def pa_set_def coherent_def)
next
  case (pa_alloc_step p live m p' a)
  then obtain z where z: "pa_store p z"
    "z_fits z \<Longrightarrow> zen_ok z \<and> coherent zen_access z_known (pa_tlb p) z \<and> dom (pa_tlb p) = live" by blast
  obtain z' x where m: "zen_malloc m z = Inr (z', a)" "zen_access z' a = Inr x" "pa_store p' z'"
    "pa_tlb p' = tlb_insert (pa_tlb p) a x"
    by (rule pa_alloc_store [OF z(1) pa_alloc_step(2)])
  have "zen_ok z' \<and> coherent zen_access z_known (pa_tlb p') z' \<and> dom (pa_tlb p') = insert a live" if f: "z_fits z'"
  proof -
    have k: "zen_ok z" "coherent zen_access z_known (pa_tlb p) z" "dom (pa_tlb p) = live"
      using z(2) fits_before [OF f malloc_grows [OF m(1)]] by simp_all
    have "dom (tlb_insert (pa_tlb p) a x) = insert a (dom (pa_tlb p))"
      by (auto simp: tlb_insert_def split: option.splits)
    then show ?thesis using zen.coherent_give [OF k(1) m(1) f m(2) k(2)] zen.give_fresh [OF k(1) m(1) f] k(3) m(4)
      by simp
  qed
  then show ?case using m(3) by blast
next
  case (pa_free_step p live a p')
  then obtain z where z: "pa_store p z"
    "z_fits z \<Longrightarrow> zen_ok z \<and> coherent zen_access z_known (pa_tlb p) z \<and> dom (pa_tlb p) = live" by blast
  note f = pa_free_store [OF z(1) pa_free_step(2)]
  have "z_fits (zen_free z a) = z_fits z" by (simp add: z_fits_def zen_free_def Let_def)
  moreover have "dom (tlb_remove (pa_tlb p) a) = dom (pa_tlb p) - {a}" by (auto simp: tlb_remove_def)
  ultimately show ?case using z(2) f zen.coherent_release zen.release_taken by (intro exI [of _ "zen_free z a"]) auto
qed

text \<open>
  C22: the lookaside buffer knows exactly the addresses in use: after any allocations and releases on the
  CPU, an address that was handed out and not freed since is translated to where the store keeps
  the token, and every other address, in particular one that was freed, to the null pointer. Page and lane
  together have 6 to 30 bits, and the blobs fit in the 32 bits of an address.
\<close>

theorem tlb_agrees:
  assumes "pa_run o1 base p live" "6 \<le> lane_count_bits o1" "lane_count_bits o1 < 31" "cpu_fits p"
    and "pa_impl p kCPU = Inr i"
  shows "dom (pa_tlb p) = live \<and> (if a \<in> live then impl_physicalAddr i a = Inr (pa_physicalAddr p a)
    else pa_physicalAddr p a = 0)"
proof -
  obtain z where z: "pa_store p z"
    "z_fits z \<longrightarrow> zen_ok z \<and> coherent zen_access z_known (pa_tlb p) z \<and> dom (pa_tlb p) = live"
    using pa_run_ok [OF assms(1-3)] by blast
  then have "z_fits z" "i = HiCPU z" using assms(4,5) by (simp_all add: pa_store_def cpu_fits_def pa_impl_def)
  then have k: "coherent zen_access z_known (pa_tlb p) z" "dom (pa_tlb p) = live" "i = HiCPU z" using z(2) by simp_all
  show ?thesis
  proof (cases "pa_tlb p a")
    case None
    then have "a \<notin> live" using k(2) by blast
    then show ?thesis using None k(2) by (simp add: pa_physicalAddr_def tlb_lookup_def)
  next
    case (Some x)
    then have "a \<in> live" using k(2) by blast
    then show ?thesis using Some k by (simp add: pa_physicalAddr_def tlb_lookup_def impl_physicalAddr_def coherent_def)
  qed
qed

theorem tlb_agrees_witness:
  "\<exists>p q a i. pa_run (small_options kAnonymous) 4096 p {a} \<and> pa_impl p kCPU = Inr i \<and>
     impl_physicalAddr i a = Inr (pa_physicalAddr p a) \<and> pa_free kCPU p a = Inr q \<and> pa_physicalAddr q a = 0"
proof -
  let ?o = "small_options kAnonymous" and ?z = "small_store kAnonymous"
  let ?p = "pa_set \<lparr>pa_tlb = (\<lambda>_. None), pa_impls = []\<rparr> kCPU (HiCPU ?z)"
  have s: "pa_run ?o 4096 ?p {}"
    by (rule pa_start) (simp add: new_allocator_def small_initialize)
  obtain z' a where m: "zen_malloc None ?z = Inr (z', a)" "length (z_blobs z') = length (z_blobs ?z)"
    using malloc_free_lane [OF small_ok(1) small_find, of 0 kAnonymous None] small_ok(2) by auto
  have f: "z_fits z'" by (rule fits_one [OF small_ok(1) m(2)]) (use malloc_grows [OF m(1)] in simp)
  obtain x where x: "zen_access z' a = Inr x" using zen.given_place [OF small_ok(1) m(1) f] by blast
  let ?q = "(pa_set ?p kCPU (HiCPU z'))\<lparr>pa_tlb := tlb_insert (\<lambda>_. None) a x\<rparr>"
  have q: "pa_run ?o 4096 ?q {a}"
    by (rule pa_alloc_step [OF s, of None ?q a])
      (use m x in \<open>simp_all add: pa_set_def pa_alloc_def pa_impl_def impl_alloc_def impl_physicalAddr_def\<close>)
  have i: "pa_impl ?q kCPU = Inr (HiCPU z')" "cpu_fits ?q"
    using f by (simp_all add: pa_impl_def pa_set_def cpu_fits_def)
  obtain q' where q': "pa_free kCPU ?q a = Inr q'" by (simp add: pa_free_def i)
  have "pa_run ?o 4096 q' ({a} - {a})" by (rule pa_free_step [OF q q'])
  moreover have "pa_impl q' kCPU = Inr (HiCPU (zen_free z' a))" "cpu_fits q'"
    using q' f by (auto simp: pa_free_def i impl_free_def pa_impl_def pa_set_def cpu_fits_def z_fits_def zen_free_def Let_def)
  ultimately have "pa_physicalAddr q' a = 0" using tlb_agrees [of ?o 4096 q' "{a} - {a}" _ a] by simp
  moreover have "impl_physicalAddr (HiCPU z') a = Inr (pa_physicalAddr ?q a)"
    using tlb_agrees [OF q _ _ i(2,1), of a] by simp
  ultimately show ?thesis using q q' i(1) by blast
qed

subsection \<open>Promoting and finding\<close>

lemma promote_values_ok:
  assumes "n \<le> length ks"
  shows "promote_values n ks = Inr (take n ks)"
proof -
  have "promote_values n ks = Inr (map (\<lambda>i. ks ! i) [0..<n])"
    unfolding promote_values_def by (rule omap_all) (use assms in \<open>simp add: vec_at_def\<close>)
  also have "map (\<lambda>i. ks ! i) [0..<n] = take n ks" using assms by (simp add: list_eq_iff_nth_eq)
  finally show ?thesis .
qed

lemma long_enough_take: "long_enough n m ks \<Longrightarrow> long_enough n m (take n ks)"
  by (simp add: long_enough_def)

text \<open>
  What is promoted is found: after a promotion with the default key, in a cache that uses no other, a search for the same tokens
  matches all of them and answers, in every block, with the addresses it knew before followed by the
  promoted ones.
\<close>

lemma promote_then_find:
  assumes "tree_ok (ca_tree c)" "tokens \<noteq> []" "one_key 0 (ca_tree c)" "long_enough (rt_blocks (ca_tree c)) (length tokens) ks"
    and "long_enough (rt_blocks (ca_tree c)) (length tokens) vs" "cache_find c tokens = Inr old"
  shows "\<exists>c' new. cache_promote c tokens ks vs 0 = Inr c' \<and> cache_find c' tokens = Inr new \<and>
    sr_matched new = length tokens \<and> (\<forall>b < rt_blocks (ca_tree c).
      sr_k new ! b = sr_k old ! b @ drop (sr_matched old) (take (length tokens) (ks ! b)) \<and>
      sr_v new ! b = sr_v old ! b @ drop (sr_matched old) (take (length tokens) (vs ! b)))"
proof -
  let ?n = "rt_blocks (ca_tree c)"
  note l = long_enough_take [OF assms(4)] long_enough_take [OF assms(5)]
  obtain t where t: "tree_insert (ca_tree c) tokens 0 (take ?n ks) (take ?n vs) = (t, Inr True)"
    using radix.insert_total [OF assms(1-3) l] by blast
  have "cache_promote c tokens ks vs 0 = Inr (c\<lparr>ca_tree := t\<rparr>)"
    using t promote_values_ok assms(4,5) by (simp add: cache_promote_def long_enough_def)
  then show ?thesis
    using radix.insert_search [OF assms(1,2) l t] assms(6) by (auto simp: cache_find_def)
qed

definition one_cache :: cache where
  "one_cache = \<lparr>ca_tree = new_tree 1, ca_alloc = \<lparr>pa_tlb = (\<lambda>_. None), pa_impls = []\<rparr>\<rparr>"

lemma promote_then_find_example:
  "\<exists>c' new. cache_promote one_cache [1, 2] [[5, 6]] [[7, 8]] 0 = Inr c' \<and>
     cache_find c' [1, 2] = Inr new \<and> sr_matched new = 2 \<and> sr_k new ! 0 = [5, 6] \<and> sr_v new ! 0 = [7, 8]"
proof -
  have "cache_find one_cache [1, 2] =
      Inr \<lparr>sr_success = False, sr_matched = 0, sr_path = [(rt_root (new_tree 1), 0)], sr_k = [[]], sr_v = [[]]\<rparr>"
    by (simp add: cache_find_def one_cache_def tree_search_def new_tree_def Let_def)
  from promote_then_find [OF _ _ _ _ _ this, of "[[5, 6]]" "[[7, 8]]"] show ?thesis
    by (auto simp: one_cache_def long_enough_single)
qed

text \<open>
  What is promoted under a key of its own (a LoRA adapter, a salt) is never found: \<open>find\<close> has no such
  argument and searches under key 0.
\<close>

theorem find_ignores_extra:
  assumes "ca_tree c = new_tree n" "extra \<noteq> 0" "tokens \<noteq> []"
    and "long_enough n (length tokens) ks" "long_enough n (length tokens) vs"
  shows "\<exists>c' r. cache_promote c tokens ks vs extra = Inr c' \<and> cache_find c' tokens = Inr r \<and> \<not> sr_success r"
proof -
  note l = long_enough_take [OF assms(4)] long_enough_take [OF assms(5)]
  obtain x xs where tk: "tokens = x # xs" using assms(3) by (cases tokens) auto
  obtain t where t: "tree_insert (new_tree n) tokens extra (take n ks) (take n vs) = (t, Inr True)" "tree_ok t"
    using radix.insert_total [of "new_tree n" tokens extra "take n ks" "take n vs"] assms(1,3) l by auto
  then obtain k v where r: "r_children (rt_root t) = [RNode tokens extra k v 0 []]"
    by (auto simp: tree_insert_def new_tree_def tk insert_here_def add_leaf_def emplace_def clash_def
        Let_def obind_Inr_iff
        split: sum.splits)
  have "descend (rt_root t) tokens 0 = []" using r assms(2) by (simp add: tk matchedLength_def)
  moreover have "cache_promote c tokens ks vs extra = Inr (c\<lparr>ca_tree := t\<rparr>)"
    using t promote_values_ok assms(1,4,5) by (simp add: cache_promote_def long_enough_def)
  ultimately show ?thesis using search_ok [OF t(2) refl, of tokens 0]
    by (simp add: cache_find_def path_len_def)
qed

theorem find_ignores_extra_witness:
  "\<exists>c' r. cache_promote one_cache [1, 2] [[5, 6]] [[7, 8]] 3 = Inr c' \<and> cache_find c' [1, 2] = Inr r \<and> \<not> sr_success r"
  by (rule find_ignores_extra [of _ 1]) (simp_all add: one_cache_def long_enough_single)

end
