(* ===== verification/Sym_Expr.thy ===== *)
theory Sym_Expr
  imports Prelude "HOL-Library.Signed_Division"
begin

text \<open>
  Symbolic expressions for shapes, \<^verbatim>\<open>mllm/compile/symbolic_expr\<close>: the tokens, the lexer (a state machine over a
  string stream), the recursive descent parser with its queue of tokens read ahead, the tree, its
  evaluation and its text. Arithmetic on \<^verbatim>\<open>float\<close> and its conversions are the parameter \<open>F\<close>. The parser may run for
  ever, so its functions have fuel; \<open>None\<close> is the lack of it.
\<close>

subsection \<open>Tokens\<close>

datatype tok_type = TInt | TFP | TOperators | TKeywords | TIdentifier | TDelimiter | TEof | TNone

datatype tok_value =
    VNone | VI32 | VF32 | VCeil | VFloor | VAbs | VPlus | VMinus | VMultiply | VDivide | VMod
  | VOpen | VClose | VUnused

text \<open>
  What the code uses of \<^verbatim>\<open>float\<close>: conversions from and to \<^verbatim>\<open>int32_t\<close> (undefined where the value has none), the
  operations, \<^verbatim>\<open>atof\<close>, and the text that a stream writes.
\<close>

record 'f fops =
  fo_zero :: 'f
  fo_of_int :: "int \<Rightarrow> 'f"
  fo_to_int :: "'f \<Rightarrow> int option"
  fo_add :: "'f \<Rightarrow> 'f \<Rightarrow> 'f"
  fo_sub :: "'f \<Rightarrow> 'f \<Rightarrow> 'f"
  fo_mul :: "'f \<Rightarrow> 'f \<Rightarrow> 'f"
  fo_div :: "'f \<Rightarrow> 'f \<Rightarrow> 'f"
  fo_ceil :: "'f \<Rightarrow> 'f"
  fo_floor :: "'f \<Rightarrow> 'f"
  fo_abs :: "'f \<Rightarrow> 'f"
  fo_read :: "string \<Rightarrow> 'f"
  fo_show :: "'f \<Rightarrow> string"

record 'f stoken =
  t_type :: tok_type
  t_value :: tok_value
  t_int :: int
  t_fp :: 'f
  t_str :: string
  t_name :: string

definition plain_token :: "'f fops \<Rightarrow> tok_type \<Rightarrow> tok_value \<Rightarrow> 'f stoken" where
  "plain_token F ty v = \<lparr>t_type = ty, t_value = v, t_int = 0, t_fp = fo_zero F, t_str = '''', t_name = ''''\<rparr>"

definition default_token :: "'f fops \<Rightarrow> 'f stoken" where
  "default_token F = plain_token F TNone VUnused"

definition token_dic :: "(string \<times> tok_type \<times> tok_value \<times> int) list" where
  "token_dic =
     [(''+'', TOperators, VPlus, 10), (''-'', TOperators, VMinus, 10), (''%'', TOperators, VMod, 10),
      (''*'', TOperators, VMultiply, 20), (''/'', TOperators, VDivide, 20),
      (''ceil'', TKeywords, VCeil, -1), (''floor'', TKeywords, VFloor, -1), (''abs'', TKeywords, VAbs, -1),
      (''('', TDelimiter, VOpen, -1), ('')'', TDelimiter, VClose, -1)]"

definition lookup :: "string \<Rightarrow> tok_type \<times> tok_value \<times> int" where
  "lookup name = (case map_of token_dic name of None \<Rightarrow> (TIdentifier, VUnused, -1) | Some e \<Rightarrow> e)"

definition haveToken :: "string \<Rightarrow> bool" where
  "haveToken name \<longleftrightarrow> map_of token_dic name \<noteq> None"

definition getPrecedence :: "'f stoken \<Rightarrow> int" where
  "getPrecedence t = snd (snd (lookup (t_name t)))"

subsection \<open>The lexer\<close>

datatype lex_state = kNone | kEof | kIdentifier | kNumber | kOperations

text \<open>The stream is what is left of it and its end flag; the end is read as \<^verbatim>\<open>(char)(-1)\<close>.\<close>

record 'f lexer =
  lx_rest :: string
  lx_eof :: bool
  lx_state :: lex_state
  lx_char :: char
  lx_token :: "'f stoken"
  lx_buffer :: string

definition end_char :: char where
  "end_char = char_of (255 :: nat)"

definition lexer_new :: "'f fops \<Rightarrow> string \<Rightarrow> 'f lexer" where
  "lexer_new F src = \<lparr>lx_rest = src, lx_eof = False, lx_state = kNone, lx_char = char_of (0 :: nat),
     lx_token = default_token F, lx_buffer = ''''\<rparr>"

definition resetWithNewString :: "string \<Rightarrow> 'f lexer \<Rightarrow> 'f lexer" where
  "resetWithNewString src lx =
     lx\<lparr>lx_rest := src, lx_eof := False, lx_state := kNone, lx_char := char_of (0 :: nat), lx_buffer := ''''\<rparr>"

definition getNextChar :: "'f lexer \<Rightarrow> 'f lexer" where
  "getNextChar lx =
     (case lx_rest lx of
        [] \<Rightarrow> lx\<lparr>lx_char := end_char, lx_eof := True\<rparr>
      | c # cs \<Rightarrow> lx\<lparr>lx_char := c, lx_rest := cs\<rparr>)"

definition addToCharBuffer :: "'f lexer \<Rightarrow> 'f lexer" where
  "addToCharBuffer lx = lx\<lparr>lx_buffer := lx_buffer lx @ [lx_char lx]\<rparr>"

definition clearCharBuffer :: "'f lexer \<Rightarrow> 'f lexer" where
  "clearCharBuffer lx = lx\<lparr>lx_buffer := ''''\<rparr>"

text \<open>\<^verbatim>\<open>isalpha\<close> and \<^verbatim>\<open>isdigit\<close> are undefined on a negative \<^verbatim>\<open>char\<close> other than the end.\<close>

definition bad_char :: "char \<Rightarrow> bool" where
  "bad_char c \<longleftrightarrow> 128 \<le> (of_char c :: nat) \<and> c \<noteq> end_char"

definition is_alpha :: "char \<Rightarrow> bool" where
  "is_alpha c = (let n = of_char c :: nat in 65 \<le> n \<and> n \<le> 90 \<or> 97 \<le> n \<and> n \<le> 122)"

definition is_digit :: "char \<Rightarrow> bool" where
  "is_digit c = (let n = of_char c :: nat in 48 \<le> n \<and> n \<le> 57)"

lemma of_char_end [simp]: "(of_char end_char :: nat) = 255"
  by (simp add: end_char_def)

lemma char_neqI: "(of_char c :: nat) \<noteq> of_char d \<Longrightarrow> c \<noteq> d"
  by auto

lemma end_char_class [simp]: "\<not> is_alpha end_char" "\<not> is_digit end_char" "end_char \<noteq> CHR ''_''" "end_char \<noteq> CHR ''.''"
  "CHR ''_'' \<noteq> end_char" "CHR ''.'' \<noteq> end_char" "\<not> bad_char end_char"
  by (simp_all add: is_alpha_def is_digit_def bad_char_def char_neqI)

definition step_char :: "'f lexer \<Rightarrow> 'f lexer" where
  "step_char lx = getNextChar (addToCharBuffer lx)"

definition lx_size :: "'f lexer \<Rightarrow> nat" where
  "lx_size lx = length (lx_rest lx) + (if lx_char lx = end_char then 0 else 1)"

lemma step_char_size:
  assumes "is_alpha (lx_char lx) \<or> is_digit (lx_char lx) \<or> lx_char lx = CHR ''_'' \<or> lx_char lx = CHR ''.''"
  shows "lx_size (step_char lx) < lx_size lx"
proof -
  have "lx_char lx \<noteq> end_char" using assms by auto
  then show ?thesis by (auto simp: lx_size_def step_char_def getNextChar_def addToCharBuffer_def split: list.splits)
qed

function identifier_loop :: "'f lexer \<Rightarrow> 'f lexer outcome" where
  "identifier_loop lx =
     (if bad_char (lx_char lx) then Inl Undefined
      else if is_alpha (lx_char lx) \<or> is_digit (lx_char lx) \<or> lx_char lx = CHR ''_'' then identifier_loop (step_char lx)
      else Inr lx)"
  by auto

termination
  by (relation "measure lx_size") (auto intro: step_char_size)

text \<open>The call \<^verbatim>\<open>exit(-1)\<close> has no name among the exit codes; it is a \<open>Throw\<close> with its text.\<close>

function number_loop :: "bool \<Rightarrow> bool \<Rightarrow> bool \<Rightarrow> 'f lexer \<Rightarrow> (bool \<times> bool \<times> 'f lexer) outcome" where
  "number_loop has_one_dot is_int is_float lx =
     (if has_one_dot \<and> lx_char lx = CHR ''.'' then Inl (Throw ''exit(-1)'')
      else if lx_char lx = CHR ''.'' then number_loop has_one_dot False True (step_char lx)
      else if bad_char (lx_char lx) then Inl Undefined
      else if is_digit (lx_char lx) then number_loop has_one_dot is_int is_float (step_char lx)
      else Inr (is_int, is_float, lx))"
  by auto

termination
  by (relation "measure (\<lambda>(_, _, _, lx). lx_size lx)") (auto intro: step_char_size)

declare identifier_loop.simps [simp del] number_loop.simps [simp del]

text \<open>\<^verbatim>\<open>atoi\<close> of digits; a value beyond \<^verbatim>\<open>int\<close> is undefined.\<close>

definition digits_value :: "string \<Rightarrow> int" where
  "digits_value s = foldl (\<lambda>a c. 10 * a + (int (of_char c) - 48)) 0 s"

definition atoi :: "string \<Rightarrow> int outcome" where
  "atoi s = (if digits_value s < 2 ^ 31 then Inr (digits_value s) else Inl Undefined)"

definition handleInt :: "'f fops \<Rightarrow> 'f lexer \<Rightarrow> 'f lexer outcome" where
  "handleInt F lx = obind (atoi (lx_buffer lx)) (\<lambda>v.
     Inr (lx\<lparr>lx_token := (plain_token F TInt VI32)\<lparr>t_int := v, t_name := lx_buffer lx\<rparr>\<rparr>))"

definition handleFP :: "'f fops \<Rightarrow> 'f lexer \<Rightarrow> 'f lexer" where
  "handleFP F lx =
     lx\<lparr>lx_token := (plain_token F TFP VF32)\<lparr>t_fp := fo_read F (lx_buffer lx), t_name := lx_buffer lx\<rparr>\<rparr>"

definition handleNumberState :: "'f fops \<Rightarrow> 'f lexer \<Rightarrow> 'f lexer outcome" where
  "handleNumberState F lx =
     (let dot = (lx_char lx = CHR ''.'') in
      obind (number_loop dot (\<not> dot) dot (step_char lx)) (\<lambda>(is_int, is_float, lx).
      obind (if is_int then handleInt F lx else Inr lx) (\<lambda>lx.
        Inr (clearCharBuffer (if is_float then handleFP F lx else lx)))))"

definition handleEOFState :: "'f fops \<Rightarrow> 'f lexer \<Rightarrow> 'f lexer" where
  "handleEOFState F lx = lx\<lparr>lx_token := plain_token F TEof VNone, lx_eof := False, lx_state := kNone\<rparr>"

definition handleIdentifierState :: "'f fops \<Rightarrow> 'f lexer \<Rightarrow> 'f lexer outcome" where
  "handleIdentifierState F lx =
     obind (identifier_loop (step_char lx)) (\<lambda>lx.
       let name = lx_buffer lx in
       Inr (clearCharBuffer (lx\<lparr>lx_token :=
         (if haveToken name then
            case lookup name of (ty, v, p) \<Rightarrow> (plain_token F ty v)\<lparr>t_name := name\<rparr>
          else (plain_token F TIdentifier VUnused)\<lparr>t_str := name, t_name := name\<rparr>)\<rparr>)))"

definition handleOperationState :: "'f fops \<Rightarrow> 'f lexer \<Rightarrow> 'f lexer" where
  "handleOperationState F lx =
     (let lx = addToCharBuffer lx in
      case lookup (lx_buffer lx) of (ty, v, p) \<Rightarrow>
        getNextChar (clearCharBuffer (lx\<lparr>lx_token := (plain_token F ty v)\<lparr>t_name := lx_buffer lx\<rparr>\<rparr>)))"

definition next_state :: "'f lexer \<Rightarrow> 'f lexer outcome" where
  "next_state lx =
     (if lx_eof lx then Inr (lx\<lparr>lx_state := kEof\<rparr>)
      else if bad_char (lx_char lx) then Inl Undefined
      else Inr (lx\<lparr>lx_state :=
        if is_alpha (lx_char lx) \<or> lx_char lx = CHR ''_'' then kIdentifier
        else if is_digit (lx_char lx) \<or> lx_char lx = CHR ''.'' then kNumber
        else if lx_char lx = CHR '' '' then kNone
        else kOperations\<rparr>))"

definition handle_state :: "'f fops \<Rightarrow> 'f lexer \<Rightarrow> 'f lexer outcome" where
  "handle_state F lx =
     obind (case lx_state lx of
              kEof \<Rightarrow> Inr (handleEOFState F lx)
            | kIdentifier \<Rightarrow> handleIdentifierState F lx
            | kNumber \<Rightarrow> handleNumberState F lx
            | kOperations \<Rightarrow> Inr (handleOperationState F lx)
            | kNone \<Rightarrow> Inr (getNextChar lx)) (\<lambda>lx. next_state (lx\<lparr>lx_state := kNone\<rparr>))"

lemma none_measure:
  assumes "lx_state lx = kNone" "handle_state F lx = Inr lx'"
  shows "2 * length (lx_rest lx') + (if lx_state lx' = kNone then 1 else 0) < 2 * length (lx_rest lx) + (1 :: nat)"
  using assms by (auto simp: handle_state_def next_state_def getNextChar_def split: list.splits if_splits)

text \<open>The loop: it ends behind the first state other than \<open>kNone\<close>.\<close>

function lex_next :: "'f fops \<Rightarrow> 'f lexer \<Rightarrow> ('f stoken \<times> 'f lexer) outcome" where
  "lex_next F lx =
     (case handle_state F lx of
        Inl e \<Rightarrow> Inl e
      | Inr lx' \<Rightarrow> if lx_state lx \<noteq> kNone then Inr (lx_token lx', lx') else lex_next F lx')"
  by auto

termination
  by (relation "measure (\<lambda>(F, lx). 2 * length (lx_rest lx) + (if lx_state lx = kNone then 1 else 0))")
    (use none_measure in \<open>fastforce simp del: One_nat_def\<close>)+

declare lex_next.simps [simp del]

subsection \<open>The tree\<close>

text \<open>The pointers to the operands may be null.\<close>

datatype 'f ast =
    BinaryExprAST tok_value "'f ast option" "'f ast option"
  | UnaryExprAST tok_value "'f ast option"
  | VarAST string
  | IntLiteralAST int
  | FPLiteralAST 'f

subsection \<open>The parser\<close>

record 'f parser =
  ps_buffer :: "'f stoken list"
  ps_cur :: "'f stoken"
  ps_lexer :: "'f lexer"

type_synonym 'a run = "'a outcome option"

fun rbind :: "'a run \<Rightarrow> ('a \<Rightarrow> 'b run) \<Rightarrow> 'b run" where
  "rbind None f = None"
| "rbind (Some (Inl e)) f = Some (Inl e)"
| "rbind (Some (Inr a)) f = f a"

definition parser_new :: "'f fops \<Rightarrow> 'f lexer \<Rightarrow> 'f parser" where
  "parser_new F lx = \<lparr>ps_buffer = [], ps_cur = default_token F, ps_lexer = lx\<rparr>"

definition lookOneMoreToken :: "'f fops \<Rightarrow> 'f parser \<Rightarrow> ('f stoken \<times> 'f parser) outcome" where
  "lookOneMoreToken F ps =
     obind (lex_next F (ps_lexer ps)) (\<lambda>(t, lx). Inr (t, ps\<lparr>ps_lexer := lx, ps_buffer := ps_buffer ps @ [t]\<rparr>))"

definition getNextToken :: "'f fops \<Rightarrow> 'f parser \<Rightarrow> ('f stoken \<times> 'f parser) outcome" where
  "getNextToken F ps =
     (case ps_buffer ps of
        t # ts \<Rightarrow> Inr (t, ps\<lparr>ps_buffer := ts, ps_cur := t\<rparr>)
      | [] \<Rightarrow> obind (lex_next F (ps_lexer ps)) (\<lambda>(t, lx). Inr (t, ps\<lparr>ps_lexer := lx, ps_cur := t\<rparr>)))"

definition parseVarExpr :: "'f parser \<Rightarrow> 'f ast option" where
  "parseVarExpr ps = Some (VarAST (t_str (ps_cur ps)))"

definition parseNumberLiteralExpr :: "'f parser \<Rightarrow> 'f ast option" where
  "parseNumberLiteralExpr ps =
     (if t_type (ps_cur ps) = TInt then Some (IntLiteralAST (t_int (ps_cur ps)))
      else if t_type (ps_cur ps) = TFP then Some (FPLiteralAST (t_fp (ps_cur ps)))
      else None)"

fun parseExpr :: "'f fops \<Rightarrow> nat \<Rightarrow> 'f ast option \<Rightarrow> 'f parser \<Rightarrow> ('f ast option \<times> 'f parser) run"
  and parseGroupedExpr :: "'f fops \<Rightarrow> nat \<Rightarrow> 'f parser \<Rightarrow> ('f ast option \<times> 'f parser) run"
  and grouped_loop :: "'f fops \<Rightarrow> nat \<Rightarrow> 'f ast option \<Rightarrow> 'f stoken \<Rightarrow> 'f parser \<Rightarrow> ('f ast option \<times> 'f parser) run"
  and parseBinaryExpr :: "'f fops \<Rightarrow> nat \<Rightarrow> 'f ast option \<Rightarrow> 'f parser \<Rightarrow> ('f ast option \<times> 'f parser) run"
  and parseUnaryExpr :: "'f fops \<Rightarrow> nat \<Rightarrow> 'f parser \<Rightarrow> ('f ast option \<times> 'f parser) run" where
  "parseExpr F 0 prev ps = None"
| "parseExpr F (Suc n) prev ps =
     (case t_type (ps_cur ps) of
        TInt \<Rightarrow> Some (Inr (parseNumberLiteralExpr ps, ps))
      | TFP \<Rightarrow> Some (Inr (parseNumberLiteralExpr ps, ps))
      | TKeywords \<Rightarrow> parseUnaryExpr F n ps
      | TDelimiter \<Rightarrow> parseGroupedExpr F n ps
      | TOperators \<Rightarrow> parseBinaryExpr F n prev ps
      | TIdentifier \<Rightarrow> Some (Inr (parseVarExpr ps, ps))
      | _ \<Rightarrow> Some (Inr (None, ps)))"
| "parseGroupedExpr F 0 ps = None"
| "parseGroupedExpr F (Suc n) ps =
     rbind (Some (getNextToken F ps)) (\<lambda>(tok, ps). grouped_loop F n None tok ps)"
| "grouped_loop F 0 ret tok ps = None"
| "grouped_loop F (Suc n) ret tok ps =
     (if t_value tok \<noteq> VClose then
        rbind (parseExpr F n ret ps) (\<lambda>(ret, ps).
        rbind (Some (getNextToken F ps)) (\<lambda>(tok, ps). grouped_loop F n ret tok ps))
      else Some (Inr (ret, ps)))"
| "parseBinaryExpr F 0 prev ps = None"
| "parseBinaryExpr F (Suc n) prev ps =
     (let binary_op = ps_cur ps in
      rbind (Some (getNextToken F ps)) (\<lambda>(_, ps).
      rbind (parseExpr F n prev ps) (\<lambda>(rhs, ps).
      rbind (Some (lookOneMoreToken F ps)) (\<lambda>(next_op, ps).
      rbind (if t_type next_op = TOperators \<and> getPrecedence binary_op < getPrecedence next_op
             then rbind (Some (getNextToken F ps)) (\<lambda>(_, ps). parseBinaryExpr F n rhs ps)
             else Some (Inr (rhs, ps))) (\<lambda>(rhs, ps).
        Some (Inr (Some (BinaryExprAST (t_value binary_op) prev rhs), ps)))))))"
| "parseUnaryExpr F 0 ps = None"
| "parseUnaryExpr F (Suc n) ps =
     (let unary_op = ps_cur ps in
      rbind (Some (getNextToken F ps)) (\<lambda>(_, ps).
      rbind (parseGroupedExpr F n ps) (\<lambda>(group, ps).
        Some (Inr (Some (UnaryExprAST (t_value unary_op) group), ps)))))"

fun parse_loop :: "'f fops \<Rightarrow> nat \<Rightarrow> 'f ast option \<Rightarrow> 'f stoken \<Rightarrow> 'f parser \<Rightarrow> 'f ast option run" where
  "parse_loop F 0 ret tok ps = None"
| "parse_loop F (Suc n) ret tok ps =
     (if t_type tok \<noteq> TEof then
        rbind (parseExpr F n ret ps) (\<lambda>(ret, ps).
        rbind (Some (getNextToken F ps)) (\<lambda>(tok, ps). parse_loop F n ret tok ps))
      else Some (Inr ret))"

definition parse :: "'f fops \<Rightarrow> nat \<Rightarrow> 'f parser \<Rightarrow> 'f ast option run" where
  "parse F n ps = rbind (Some (getNextToken F ps)) (\<lambda>(tok, ps). parse_loop F n None tok ps)"

subsection \<open>Expressions\<close>

definition SymExpr_parse :: "'f fops \<Rightarrow> nat \<Rightarrow> string \<Rightarrow> 'f ast option run" where
  "SymExpr_parse F n src = parse F n (parser_new F (lexer_new F src))"

definition SymExpr_int :: "int \<Rightarrow> 'f ast option" where "SymExpr_int v = Some (IntLiteralAST v)"
definition SymExpr_float :: "'f \<Rightarrow> 'f ast option" where "SymExpr_float v = Some (FPLiteralAST v)"
definition SymExpr_ceil :: "'f ast option \<Rightarrow> 'f ast option" where "SymExpr_ceil e = Some (UnaryExprAST VCeil e)"
definition SymExpr_floor :: "'f ast option \<Rightarrow> 'f ast option" where "SymExpr_floor e = Some (UnaryExprAST VFloor e)"
definition SymExpr_abs :: "'f ast option \<Rightarrow> 'f ast option" where "SymExpr_abs e = Some (UnaryExprAST VAbs e)"
definition SymExpr_plus :: "'f ast option \<Rightarrow> 'f ast option \<Rightarrow> 'f ast option" where
  "SymExpr_plus a b = Some (BinaryExprAST VPlus a b)"
definition SymExpr_minus :: "'f ast option \<Rightarrow> 'f ast option \<Rightarrow> 'f ast option" where
  "SymExpr_minus a b = Some (BinaryExprAST VMinus a b)"
definition SymExpr_times :: "'f ast option \<Rightarrow> 'f ast option \<Rightarrow> 'f ast option" where
  "SymExpr_times a b = Some (BinaryExprAST VMultiply a b)"
definition SymExpr_divide :: "'f ast option \<Rightarrow> 'f ast option \<Rightarrow> 'f ast option" where
  "SymExpr_divide a b = Some (BinaryExprAST VDivide a b)"
definition SymExpr_mod :: "'f ast option \<Rightarrow> 'f ast option \<Rightarrow> 'f ast option" where
  "SymExpr_mod a b = Some (BinaryExprAST VMod a b)"

text \<open>A method of a null pointer is undefined.\<close>

definition deref :: "'a option \<Rightarrow> 'a outcome" where
  "deref p = (case p of None \<Rightarrow> Inl Undefined | Some a \<Rightarrow> Inr a)"

lemma deref_simps [simp]: "deref None = Inl Undefined" "deref (Some a) = Inr a"
  by (simp_all add: deref_def)

definition to_int32 :: "'f fops \<Rightarrow> 'f \<Rightarrow> int outcome" where
  "to_int32 F x = deref (fo_to_int F x)"

definition float_mod :: "'f fops \<Rightarrow> 'f \<Rightarrow> 'f \<Rightarrow> 'f outcome" where
  "float_mod F x y = obind (to_int32 F x) (\<lambda>a. obind (to_int32 F y) (\<lambda>b.
     if b = 0 \<or> (a = - (2 ^ 31) \<and> b = - 1) then Inl Undefined else Inr (fo_of_int F (a smod b))))"

text \<open>The member \<^verbatim>\<open>value_\<close> is written by the methods \<^verbatim>\<open>eval\<close> only; for an operation without a case it stays 0.\<close>

definition binary_value :: "'f fops \<Rightarrow> tok_value \<Rightarrow> 'f \<Rightarrow> 'f \<Rightarrow> 'f outcome" where
  "binary_value F v x y =
     (case v of VPlus \<Rightarrow> Inr (fo_add F x y) | VMinus \<Rightarrow> Inr (fo_sub F x y) | VMultiply \<Rightarrow> Inr (fo_mul F x y)
      | VDivide \<Rightarrow> Inr (fo_div F x y) | VMod \<Rightarrow> float_mod F x y | _ \<Rightarrow> Inr (fo_zero F))"

definition unary_value :: "'f fops \<Rightarrow> tok_value \<Rightarrow> 'f \<Rightarrow> 'f" where
  "unary_value F v x =
     (case v of VCeil \<Rightarrow> fo_ceil F x | VFloor \<Rightarrow> fo_floor F x | VAbs \<Rightarrow> fo_abs F x | _ \<Rightarrow> fo_zero F)"

fun ast_eval :: "'f fops \<Rightarrow> (string \<rightharpoonup> 'f) \<Rightarrow> 'f ast \<Rightarrow> 'f outcome" where
  "ast_eval F env (BinaryExprAST v (Some a) (Some b)) =
     obind (ast_eval F env a) (\<lambda>x. obind (ast_eval F env b) (\<lambda>y. binary_value F v x y))"
| "ast_eval F env (BinaryExprAST v None b) = Inl Undefined"
| "ast_eval F env (BinaryExprAST v (Some a) None) = obind (ast_eval F env a) (\<lambda>x. Inl Undefined)"
| "ast_eval F env (UnaryExprAST v (Some a)) = obind (ast_eval F env a) (\<lambda>x. Inr (unary_value F v x))"
| "ast_eval F env (UnaryExprAST v None) = Inl Undefined"
| "ast_eval F env (VarAST x) = deref (env x)"
| "ast_eval F env (IntLiteralAST n) = Inr (fo_of_int F n)"
| "ast_eval F env (FPLiteralAST x) = Inr x"

fun ast_isStatic :: "'f ast \<Rightarrow> bool \<Rightarrow> bool outcome" where
  "ast_isStatic (BinaryExprAST v (Some a) (Some b)) flag = obind (ast_isStatic a flag) (ast_isStatic b)"
| "ast_isStatic (BinaryExprAST v None b) flag = Inl Undefined"
| "ast_isStatic (BinaryExprAST v (Some a) None) flag = obind (ast_isStatic a flag) (\<lambda>f. Inl Undefined)"
| "ast_isStatic (UnaryExprAST v (Some a)) flag = ast_isStatic a flag"
| "ast_isStatic (UnaryExprAST v None) flag = Inl Undefined"
| "ast_isStatic (VarAST x) flag = Inr False"
| "ast_isStatic (IntLiteralAST n) flag = Inr flag"
| "ast_isStatic (FPLiteralAST x) flag = Inr flag"

definition is_binary :: "'f ast \<Rightarrow> bool" where
  "is_binary e = (case e of BinaryExprAST _ _ _ \<Rightarrow> True | _ \<Rightarrow> False)"

definition binary_text :: "tok_value \<Rightarrow> string" where
  "binary_text v = (case v of VPlus \<Rightarrow> '' + '' | VMinus \<Rightarrow> '' - '' | VMultiply \<Rightarrow> '' * '' | VDivide \<Rightarrow> '' / ''
     | VMod \<Rightarrow> '' % '' | _ \<Rightarrow> '''')"

definition unary_text :: "tok_value \<Rightarrow> string" where
  "unary_text v = (case v of VCeil \<Rightarrow> ''ceil'' | VFloor \<Rightarrow> ''floor'' | VAbs \<Rightarrow> ''abs'' | _ \<Rightarrow> '''')"

definition int_text :: "int \<Rightarrow> string" where
  "int_text n = (if n < 0 then CHR ''-'' # to_string (nat (- n)) else to_string (nat n))"

definition in_parens :: "bool \<Rightarrow> string \<Rightarrow> string" where
  "in_parens p s = (if p then ''('' @ s @ '')'' else s)"

fun ast_str :: "'f fops \<Rightarrow> 'f ast \<Rightarrow> string outcome" where
  "ast_str F (BinaryExprAST v (Some a) (Some b)) =
     obind (ast_str F a) (\<lambda>s. obind (ast_str F b) (\<lambda>t.
       Inr (in_parens (is_binary a) s @ binary_text v @ in_parens (is_binary b) t)))"
| "ast_str F (BinaryExprAST v None b) = Inl Undefined"
| "ast_str F (BinaryExprAST v (Some a) None) = obind (ast_str F a) (\<lambda>s. Inl Undefined)"
| "ast_str F (UnaryExprAST v (Some a)) = obind (ast_str F a) (\<lambda>s. Inr (unary_text v @ ''('' @ s @ '')''))"
| "ast_str F (UnaryExprAST v None) = Inl Undefined"
| "ast_str F (VarAST x) = Inr x"
| "ast_str F (IntLiteralAST n) = Inr (int_text n)"
| "ast_str F (FPLiteralAST x) = Inr (fo_show F x)"

definition SymExpr_eval :: "'f fops \<Rightarrow> (string \<rightharpoonup> 'f) \<Rightarrow> 'f ast option \<Rightarrow> 'f outcome" where
  "SymExpr_eval F env e = obind (deref e) (ast_eval F env)"

definition SymExpr_evalAsInt :: "'f fops \<Rightarrow> (string \<rightharpoonup> 'f) \<Rightarrow> 'f ast option \<Rightarrow> int outcome" where
  "SymExpr_evalAsInt F env e = obind (SymExpr_eval F env e) (to_int32 F)"

definition SymExpr_isStatic :: "'f ast option \<Rightarrow> bool outcome" where
  "SymExpr_isStatic e = obind (deref e) (\<lambda>a. ast_isStatic a True)"

definition SymExpr_str :: "'f fops \<Rightarrow> 'f ast option \<Rightarrow> string outcome" where
  "SymExpr_str F e = obind (deref e) (ast_str F)"

end
