(* ===== verification/Sym_Lex.thy ===== *)
theory Sym_Lex
  imports Sym_Expr
begin

text \<open>What the lexer of symbolic expressions reads from a text.\<close>

subsection \<open>Moving over the stream\<close>

definition ascii :: "string \<Rightarrow> bool" where
  "ascii s \<longleftrightarrow> (\<forall>c \<in> set s. (of_char c :: nat) < 128)"

lemma ascii_simps [simp]: "ascii []" "ascii (c # s) \<longleftrightarrow> (of_char c :: nat) < 128 \<and> ascii s" "ascii (s @ t) \<longleftrightarrow> ascii s \<and> ascii t"
  by (auto simp: ascii_def)

lemma ascii_good: "(of_char c :: nat) < 128 \<Longrightarrow> \<not> bad_char c \<and> c \<noteq> end_char"
  by (auto simp: bad_char_def)

definition ident_char :: "char \<Rightarrow> bool" where
  "ident_char c \<longleftrightarrow> is_alpha c \<or> is_digit c \<or> c = CHR ''_''"

lemma ident_char_ascii: "ident_char c \<Longrightarrow> (of_char c :: nat) < 128" "is_digit c \<Longrightarrow> (of_char c :: nat) < 128"
  by (auto simp: ident_char_def is_alpha_def is_digit_def Let_def)

definition skip :: "string \<Rightarrow> string" where
  "skip s = dropWhile ((=) (CHR '' '')) s"

lemma skip_simps [simp]: "skip [] = []" "skip (CHR '' '' # s) = skip s" "c \<noteq> CHR '' '' \<Longrightarrow> skip (c # s) = c # s"
  by (simp_all add: skip_def)

lemma skip_ascii: "ascii s \<Longrightarrow> ascii (skip s)"
  by (auto simp: ascii_def skip_def dest: set_dropWhileD)

text \<open>The lexer with its character at the start of \<open>s\<close>.\<close>

definition seek :: "'f lexer \<Rightarrow> string \<Rightarrow> 'f lexer" where
  "seek lx s = (case s of [] \<Rightarrow> lx\<lparr>lx_char := end_char, lx_rest := [], lx_eof := True\<rparr>
     | c # cs \<Rightarrow> lx\<lparr>lx_char := c, lx_rest := cs\<rparr>)"

lemma getNextChar_seek: "getNextChar lx = seek lx (lx_rest lx)"
  by (simp add: getNextChar_def seek_def split: list.splits)

lemma seek_fields [simp]:
  "lx_buffer (seek lx s) = lx_buffer lx" "lx_state (seek lx s) = lx_state lx" "lx_token (seek lx s) = lx_token lx"
  "lx_rest (seek lx s) = tl s" "lx_char (seek lx s) = (if s = [] then end_char else hd s)"
  "lx_eof (seek lx s) \<longleftrightarrow> s = [] \<or> lx_eof lx"
  by (simp_all add: seek_def split: list.splits)

lemma step_char_seek: "step_char (seek lx (c # cs)) = seek (lx\<lparr>lx_buffer := lx_buffer lx @ [c]\<rparr>) cs"
  by (simp add: step_char_def getNextChar_seek addToCharBuffer_def seek_def split: list.splits)

lemma end_not_ident [simp]: "\<not> ident_char end_char"
  by (simp add: ident_char_def)

definition ends :: "(char \<Rightarrow> bool) \<Rightarrow> string \<Rightarrow> bool" where
  "ends P r \<longleftrightarrow> (case r of [] \<Rightarrow> True | c # _ \<Rightarrow> \<not> P c)"

lemma ends_simps [simp]: "ends P []" "ends P (c # r) \<longleftrightarrow> \<not> P c"
  by (simp_all add: ends_def)

lemma identifier_loop_reads:
  assumes "\<forall>c \<in> set x. ident_char c" "ends ident_char r" "ascii r"
  shows "identifier_loop (seek lx (x @ r)) = Inr (seek (lx\<lparr>lx_buffer := lx_buffer lx @ x\<rparr>) r)"
  using assms
proof (induction x arbitrary: lx)
  case Nil
  then have "\<not> bad_char (lx_char (seek lx r))" "\<not> ident_char (lx_char (seek lx r))"
    by (cases r; simp add: ascii_good)+
  then show ?case by (subst identifier_loop.simps) (simp add: ident_char_def)
next
  case (Cons c x)
  then have c: "ident_char c" "\<not> bad_char c" using ident_char_ascii ascii_good by auto
  have "identifier_loop (seek lx (c # x @ r)) = identifier_loop (step_char (seek lx (c # x @ r)))"
    by (subst identifier_loop.simps) (use c in \<open>simp add: ident_char_def\<close>)
  then show ?case using Cons.IH [of "lx\<lparr>lx_buffer := lx_buffer lx @ [c]\<rparr>"] Cons.prems by (simp add: step_char_seek)
qed

definition number_char :: "char \<Rightarrow> bool" where
  "number_char c \<longleftrightarrow> is_digit c \<or> c = CHR ''.''"

lemma number_char_ascii: "number_char c \<Longrightarrow> (of_char c :: nat) < 128"
  by (auto simp: number_char_def ident_char_ascii)

lemma end_not_number [simp]: "\<not> number_char end_char"
  by (simp add: number_char_def)

lemma dot_no_digit [simp]: "\<not> is_digit (CHR ''.'')"
  by (simp add: is_digit_def)

lemma number_loop_reads:
  assumes "\<forall>c \<in> set x. number_char c" "ends number_char r" "ascii r" "\<not> (dot \<and> CHR ''.'' \<in> set x)"
  shows "number_loop dot i f (seek lx (x @ r)) =
    Inr (if CHR ''.'' \<in> set x then False else i, if CHR ''.'' \<in> set x then True else f,
      seek (lx\<lparr>lx_buffer := lx_buffer lx @ x\<rparr>) r)"
  using assms
proof (induction x arbitrary: lx i f)
  case Nil
  then have "\<not> bad_char (lx_char (seek lx r))" "\<not> number_char (lx_char (seek lx r))"
    by (cases r; simp add: ascii_good)+
  then show ?case by (subst number_loop.simps) (simp add: number_char_def)
next
  case (Cons c x)
  then have c: "number_char c" "\<not> bad_char c" using number_char_ascii ascii_good by auto
  let ?f = "if c = CHR ''.'' then True else f" and ?i = "if c = CHR ''.'' then False else i"
  have "number_loop dot i f (seek lx (c # x @ r)) = number_loop dot ?i ?f (step_char (seek lx (c # x @ r)))"
    by (subst number_loop.simps) (use c Cons.prems(4) in \<open>auto simp: number_char_def\<close>)
  then show ?case using Cons.IH [where lx = "lx\<lparr>lx_buffer := lx_buffer lx @ [c]\<rparr>" and i = ?i and f = ?f] Cons.prems by (simp add: step_char_seek)
qed

subsection \<open>Where the lexer stands\<close>

definition char_state :: "char \<Rightarrow> lex_state" where
  "char_state c = (if is_alpha c \<or> c = CHR ''_'' then kIdentifier
     else if is_digit c \<or> c = CHR ''.'' then kNumber else if c = CHR '' '' then kNone else kOperations)"

lemma char_state_none: "char_state c = kNone \<longleftrightarrow> c = CHR '' ''"
  by (auto simp: char_state_def is_alpha_def is_digit_def)

lemma skip_state:
  "char_state c = kNone \<Longrightarrow> skip (c # s) = skip s" "char_state c \<noteq> kNone \<Longrightarrow> skip (c # s) = c # s"
  by (simp_all add: char_state_none)

text \<open>The lexer is about to read \<open>s\<close>, which does not begin with a blank.\<close>

definition lexer_at :: "'f lexer \<Rightarrow> string \<Rightarrow> bool" where
  "lexer_at lx s \<longleftrightarrow> lx_buffer lx = '''' \<and> ascii (lx_rest lx) \<and>
     (case lx_state lx of
        kNone \<Rightarrow> \<not> lx_eof lx \<and> skip (lx_rest lx) = s
      | kEof \<Rightarrow> s = [] \<and> lx_char lx = end_char
      | st \<Rightarrow> \<not> lx_eof lx \<and> (of_char (lx_char lx) :: nat) < 128 \<and> s = lx_char lx # lx_rest lx \<and> st = char_state (lx_char lx))"

lemma char_state_not_eof [simp]: "char_state c \<noteq> kEof"
  by (simp add: char_state_def)

lemma lexer_at_char:
  assumes "lx_buffer lx = ''''" "\<not> lx_eof lx" "ascii (c # r)"
  shows "lexer_at ((seek lx (c # r))\<lparr>lx_state := char_state c\<rparr>) (skip (c # r))"
  using assms by (cases "char_state c") (auto simp: lexer_at_def skip_state)

lemma next_state_char:
  assumes "\<not> lx_eof lx" "ascii (c # r)"
  shows "next_state ((seek lx (c # r))\<lparr>lx_state := kNone\<rparr>) = Inr ((seek lx (c # r))\<lparr>lx_state := char_state c\<rparr>)"
  using assms ascii_good [of c] by (simp add: next_state_def char_state_def)

lemma next_state_at:
  assumes "ascii r" "lx_buffer lx = ''''" "\<not> lx_eof lx"
  shows "\<exists>lx'. next_state ((seek lx r)\<lparr>lx_state := kNone\<rparr>) = Inr lx' \<and> lexer_at lx' (skip r) \<and> lx_token lx' = lx_token lx"
proof (cases r)
  case Nil
  then show ?thesis using assms by (simp add: next_state_def lexer_at_def)
next
  case (Cons c cs)
  with next_state_char [of lx c cs] lexer_at_char [of lx c cs] assms show ?thesis by simp
qed

lemma lex_ready:
  assumes "lexer_at lx s"
  shows "\<exists>lx'. lex_next F lx = lex_next F lx' \<and> lexer_at lx' s \<and> lx_state lx' \<noteq> kNone"
proof (cases "lx_state lx = kNone")
  case False
  then show ?thesis using assms by blast
next
  case True
  then have h: "lx_buffer lx = ''''" "ascii (lx_rest lx)" "\<not> lx_eof lx" "skip (lx_rest lx) = s"
    using assms by (simp_all add: lexer_at_def)
  obtain r where r: "lx_rest lx = r" by simp
  show ?thesis using True h r
  proof (induction r arbitrary: lx)
    case Nil
    let ?lx = "(seek lx [])\<lparr>lx_state := kEof\<rparr>"
    have "handle_state F lx = Inr ?lx" using Nil by (simp add: handle_state_def getNextChar_seek next_state_def)
    then have "lex_next F lx = lex_next F ?lx" using Nil by (subst lex_next.simps) simp
    moreover have "lexer_at ?lx s" using Nil by (simp add: lexer_at_def)
    ultimately show ?case by (intro exI [of _ ?lx]) simp
  next
    case (Cons c r)
    let ?lx = "(seek lx (c # r))\<lparr>lx_state := char_state c\<rparr>"
    have a: "ascii (c # r)" "skip (c # r) = s" using Cons.prems(3,5,6) by simp_all
    have "handle_state F lx = Inr ?lx"
      using Cons.prems(1,6) next_state_char [OF Cons.prems(4) a(1)] by (simp add: handle_state_def getNextChar_seek)
    then have e: "lex_next F lx = lex_next F ?lx" using Cons.prems(1) by (subst lex_next.simps) simp
    have at: "lexer_at ?lx s" using lexer_at_char [OF Cons.prems(2,4) a(1)] a(2) by simp
    show ?case
    proof (cases "char_state c = kNone")
      case True
      then have "skip r = s" using a(2) by (simp add: skip_state)
      then have "\<exists>lx'. lex_next F ?lx = lex_next F lx' \<and> lexer_at lx' s \<and> lx_state lx' \<noteq> kNone"
        by (intro Cons.IH) (use Cons.prems(2,4) a(1) True in simp_all)
      then show ?thesis using e by simp
    next
      case False
      then show ?thesis using e at by (intro exI [of _ ?lx]) simp
    qed
  qed
qed


subsection \<open>Reading one token\<close>

definition handler :: "'f fops \<Rightarrow> 'f lexer \<Rightarrow> 'f lexer outcome" where
  "handler F lx = (case lx_state lx of kIdentifier \<Rightarrow> handleIdentifierState F lx | kNumber \<Rightarrow> handleNumberState F lx
     | _ \<Rightarrow> Inr (handleOperationState F lx))"

lemma lex_by_handler:
  assumes at: "lexer_at lx (c # s)" and r: "ascii r"
    and h: "\<And>lx. lx_buffer lx = '''' \<Longrightarrow> \<not> lx_eof lx \<Longrightarrow> lx_state lx = char_state c \<Longrightarrow> lx_char lx = c \<Longrightarrow>
      lx_rest lx = s \<Longrightarrow> \<exists>lx1. handler F lx = Inr (seek lx1 r) \<and> lx_buffer lx1 = '''' \<and> \<not> lx_eof lx1 \<and> lx_token lx1 = t"
  shows "\<exists>lx'. lex_next F lx = Inr (t, lx') \<and> lexer_at lx' (skip r)"
proof -
  obtain l where l: "lex_next F lx = lex_next F l" "lexer_at l (c # s)" "lx_state l \<noteq> kNone"
    using lex_ready [OF at] by blast
  then have st: "lx_buffer l = ''''" "\<not> lx_eof l" "lx_state l = char_state c" "lx_char l = c" "lx_rest l = s"
    by (cases "lx_state l"; simp add: lexer_at_def)+
  obtain lx1 where x: "handler F l = Inr (seek lx1 r)" "lx_buffer lx1 = ''''" "\<not> lx_eof lx1" "lx_token lx1 = t"
    using h [OF st] by blast
  obtain l' where l': "next_state ((seek lx1 r)\<lparr>lx_state := kNone\<rparr>) = Inr l'" "lexer_at l' (skip r)" "lx_token l' = t"
    using next_state_at [OF r x(2,3)] x(4) by auto
  have "lx_state l \<noteq> kEof" using st(3) by simp
  then have "handle_state F l = obind (handler F l) (\<lambda>lx. next_state (lx\<lparr>lx_state := kNone\<rparr>))"
    using l(3) by (cases "lx_state l") (simp_all add: handle_state_def handler_def)
  then have "handle_state F l = Inr l'" using x(1) l'(1) by simp
  then have "lex_next F l = Inr (t, l')" using l(3) l'(3) by (subst lex_next.simps) simp
  then show ?thesis using l(1) l'(2) by simp
qed

definition name_token :: "'f fops \<Rightarrow> string \<Rightarrow> 'f stoken" where
  "name_token F x = (case lookup x of (ty, v, p) \<Rightarrow> (plain_token F ty v)\<lparr>t_name := x\<rparr>)"

definition var_token :: "'f fops \<Rightarrow> string \<Rightarrow> 'f stoken" where
  "var_token F x = (plain_token F TIdentifier VUnused)\<lparr>t_str := x, t_name := x\<rparr>"

definition int_token :: "'f fops \<Rightarrow> string \<Rightarrow> 'f stoken" where
  "int_token F x = (plain_token F TInt VI32)\<lparr>t_int := digits_value x, t_name := x\<rparr>"

definition fp_token :: "'f fops \<Rightarrow> string \<Rightarrow> 'f stoken" where
  "fp_token F x = (plain_token F TFP VF32)\<lparr>t_fp := fo_read F x, t_name := x\<rparr>"

definition eof_token :: "'f fops \<Rightarrow> 'f stoken" where
  "eof_token F = plain_token F TEof VNone"

lemma step_char_here: "lx_char lx = c \<Longrightarrow> lx_rest lx = r \<Longrightarrow> step_char lx = seek (lx\<lparr>lx_buffer := lx_buffer lx @ [c]\<rparr>) r"
  by (auto simp: step_char_def getNextChar_seek addToCharBuffer_def)

lemma clear_seek: "clearCharBuffer (seek lx r) = seek (lx\<lparr>lx_buffer := ''''\<rparr>) r"
  by (simp add: clearCharBuffer_def seek_def split: list.splits)

lemma token_seek: "(seek lx r)\<lparr>lx_token := t\<rparr> = seek (lx\<lparr>lx_token := t\<rparr>) r"
  by (simp add: seek_def split: list.splits)

lemma lex_operation:
  assumes at: "lexer_at lx (c # r)" and r: "ascii r" and c: "char_state c = kOperations"
  shows "\<exists>lx'. lex_next F lx = Inr (name_token F [c], lx') \<and> lexer_at lx' (skip r)"
proof (rule lex_by_handler [OF at r])
  fix lx :: "'a lexer"
  assume h: "lx_buffer lx = ''''" "\<not> lx_eof lx" "lx_state lx = char_state c" "lx_char lx = c" "lx_rest lx = r"
  have "handleOperationState F lx = seek (lx\<lparr>lx_token := name_token F [c]\<rparr>) r"
    using h by (auto simp: handleOperationState_def addToCharBuffer_def clearCharBuffer_def getNextChar_seek name_token_def
        Let_def seek_def split: prod.splits list.splits)
  then show "\<exists>lx1. handler F lx = Inr (seek lx1 r) \<and> lx_buffer lx1 = '''' \<and> \<not> lx_eof lx1 \<and> lx_token lx1 = name_token F [c]"
    using h c by (intro exI [of _ "lx\<lparr>lx_token := name_token F [c]\<rparr>"]) (simp add: handler_def)
qed

lemma lex_identifier:
  assumes at: "lexer_at lx (c # x @ r)" and r: "ascii r" "ends ident_char r" and c: "char_state c = kIdentifier"
    and x: "\<forall>c \<in> set x. ident_char c"
  shows "\<exists>lx'. lex_next F lx = Inr (if haveToken (c # x) then name_token F (c # x) else var_token F (c # x), lx') \<and>
    lexer_at lx' (skip r)"
proof (rule lex_by_handler [OF at r(1)])
  fix lx :: "'a lexer"
  let ?t = "if haveToken (c # x) then name_token F (c # x) else var_token F (c # x)"
  assume h: "lx_buffer lx = ''''" "\<not> lx_eof lx" "lx_state lx = char_state c" "lx_char lx = c" "lx_rest lx = x @ r"
  have "handleIdentifierState F lx = Inr (seek (lx\<lparr>lx_token := ?t, lx_buffer := ''''\<rparr>) r)"
    using h(1) identifier_loop_reads [OF x r(2,1), of "lx\<lparr>lx_buffer := [c]\<rparr>"]
    by (simp add: handleIdentifierState_def step_char_here [OF h(4,5)] Let_def token_seek clear_seek name_token_def var_token_def)
  then show "\<exists>lx1. handler F lx = Inr (seek lx1 r) \<and> lx_buffer lx1 = '''' \<and> \<not> lx_eof lx1 \<and> lx_token lx1 = ?t"
    using h c by (intro exI [of _ "lx\<lparr>lx_token := ?t, lx_buffer := ''''\<rparr>"]) (simp add: handler_def)
qed

lemma lex_number:
  assumes at: "lexer_at lx (c # x @ r)" and r: "ascii r" "ends number_char r" and c: "number_char c"
    and x: "\<forall>c \<in> set x. number_char c" "c = CHR ''.'' \<longrightarrow> CHR ''.'' \<notin> set x"
    and t: "t = (if CHR ''.'' \<in> set (c # x) then fp_token F (c # x) else int_token F (c # x))"
    and v: "CHR ''.'' \<in> set (c # x) \<or> digits_value (c # x) < 2 ^ 31"
  shows "\<exists>lx'. lex_next F lx = Inr (t, lx') \<and> lexer_at lx' (skip r)"
proof (rule lex_by_handler [OF at r(1)])
  fix lx :: "'a lexer"
  assume h: "lx_buffer lx = ''''" "\<not> lx_eof lx" "lx_state lx = char_state c" "lx_char lx = c" "lx_rest lx = x @ r"
  have st: "char_state c = kNumber" using c by (auto simp: char_state_def number_char_def is_alpha_def is_digit_def Let_def)
  let ?d = "c = CHR ''.''"
  have "\<not> (?d \<and> CHR ''.'' \<in> set x)" using x(2) by blast
  note loop = number_loop_reads [OF x(1) r(2,1) this, of "\<not> ?d" ?d "lx\<lparr>lx_buffer := [c]\<rparr>"]
  have "handleNumberState F lx = Inr (seek (lx\<lparr>lx_token := t, lx_buffer := ''''\<rparr>) r)"
    using h(1,4) loop v
    by (auto simp: handleNumberState_def step_char_here [OF h(4,5)] Let_def handleInt_def handleFP_def atoi_def token_seek
        clear_seek t int_token_def fp_token_def)
  then show "\<exists>lx1. handler F lx = Inr (seek lx1 r) \<and> lx_buffer lx1 = '''' \<and> \<not> lx_eof lx1 \<and> lx_token lx1 = t"
    using h st by (intro exI [of _ "lx\<lparr>lx_token := t, lx_buffer := ''''\<rparr>"]) (simp add: handler_def)
qed

lemma lex_end:
  assumes at: "lexer_at lx []"
  shows "\<exists>lx'. lex_next F lx = Inr (eof_token F, lx')"
proof -
  obtain l where l: "lex_next F lx = lex_next F l" "lexer_at l []" "lx_state l \<noteq> kNone"
    using lex_ready [OF at] by blast
  then have "lx_state l = kEof" by (cases "lx_state l") (auto simp: lexer_at_def)
  moreover have "\<exists>l'. next_state ((handleEOFState F l)\<lparr>lx_state := kNone\<rparr>) = Inr l' \<and> lx_token l' = eof_token F"
    using l(2) calculation by (simp add: lexer_at_def next_state_def handleEOFState_def eof_token_def)
  ultimately show ?thesis unfolding l(1) by (subst lex_next.simps) (auto simp: handle_state_def)
qed


subsection \<open>Reading a text\<close>

text \<open>The lexer gives the tokens \<open>ts\<close>, one after the other.\<close>

fun yields :: "'f fops \<Rightarrow> 'f lexer \<Rightarrow> 'f stoken list \<Rightarrow> bool" where
  "yields F lx [] \<longleftrightarrow> True"
| "yields F lx (t # ts) \<longleftrightarrow> (\<exists>lx'. lex_next F lx = Inr (t, lx') \<and> yields F lx' ts)"

definition reads :: "'f fops \<Rightarrow> string \<Rightarrow> 'f stoken list \<Rightarrow> bool" where
  "reads F s ts \<longleftrightarrow> ascii s \<and> (\<forall>lx. lexer_at lx (skip s) \<longrightarrow> yields F lx ts)"

lemma reads_end: "reads F [] [eof_token F]"
  unfolding reads_def using lex_end by fastforce

lemma reads_blank: "reads F s ts \<Longrightarrow> reads F (CHR '' '' # s) ts"
  by (simp add: reads_def)

lemma reads_operation: "reads F r ts \<Longrightarrow> (of_char c :: nat) < 128 \<Longrightarrow> char_state c = kOperations \<Longrightarrow>
    reads F (c # r) (name_token F [c] # ts)"
  using lex_operation by (fastforce simp: reads_def skip_state)

lemma reads_identifier:
  assumes "reads F r ts" "ends ident_char r" "char_state c = kIdentifier" "\<forall>c \<in> set x. ident_char c"
    and "t = (if haveToken (c # x) then name_token F (c # x) else var_token F (c # x))"
  shows "reads F (c # x @ r) (t # ts)"
proof -
  have "ascii x" using assms(4) ident_char_ascii by (auto simp: ascii_def)
  moreover have "(of_char c :: nat) < 128"
    using assms(3) ident_char_ascii(1) [of c] by (auto simp: char_state_def ident_char_def split: if_splits)
  ultimately show ?thesis
    using assms lex_identifier [of _ c x r F] by (fastforce simp: reads_def skip_state)
qed

lemma reads_number:
  assumes "reads F r ts" "ends number_char r" "number_char c" "\<forall>c \<in> set x. number_char c"
    and "c = CHR ''.'' \<longrightarrow> CHR ''.'' \<notin> set x"
    and "t = (if CHR ''.'' \<in> set (c # x) then fp_token F (c # x) else int_token F (c # x))"
    and "CHR ''.'' \<in> set (c # x) \<or> digits_value (c # x) < 2 ^ 31"
  shows "reads F (c # x @ r) (t # ts)"
proof -
  have "ascii x" using assms(4) number_char_ascii by (auto simp: ascii_def)
  moreover have "char_state c = kNumber" using assms(3) by (auto simp: char_state_def number_char_def is_alpha_def is_digit_def Let_def)
  ultimately show ?thesis
    using assms number_char_ascii [OF assms(3)] lex_number [of _ c x r t F] by (fastforce simp: reads_def skip_state)
qed

lemma lexer_new_yields: "reads F s ts \<Longrightarrow> yields F (lexer_new F s) ts"
  by (simp add: reads_def lexer_at_def lexer_new_def)

subsection \<open>The text of numbers\<close>

lemma digit_of_nat: "n < 10 \<Longrightarrow> is_digit (char_of (48 + n :: nat))" "n < 10 \<Longrightarrow> of_char (char_of (48 + n :: nat)) = 48 + n"
  by (simp_all add: is_digit_def of_char_of Let_def)

lemma to_string_eqs:
  "n < 10 \<Longrightarrow> to_string n = [char_of (48 + n)]"
  "\<not> n < 10 \<Longrightarrow> to_string n = to_string (n div 10) @ [char_of (48 + n mod 10)]"
  by (subst to_string.simps; simp)+

declare to_string.simps [simp del]

lemma to_string_digits: "\<forall>c \<in> set (to_string n). is_digit c"
proof (induction n rule: to_string.induct)
  case (1 n)
  then show ?case by (cases "n < 10") (auto simp: to_string_eqs digit_of_nat)
qed

lemma to_string_nonempty [simp]: "to_string n \<noteq> []"
  by (cases "n < 10") (simp_all add: to_string_eqs)

lemma digits_value_append: "digits_value (s @ [c]) = 10 * digits_value s + (int (of_char c) - 48)"
  by (simp add: digits_value_def)

lemma digits_value_to_string: "digits_value (to_string n) = int n"
proof (induction n rule: to_string.induct)
  case (1 n)
  show ?case
  proof (cases "n < 10")
    case True
    then show ?thesis by (simp add: to_string_eqs digits_value_def of_char_of)
  next
    case False
    then have "digits_value (to_string (n div 10)) = int (n div 10)" by (rule 1)
    moreover have "int (of_char (char_of (48 + n mod 10))) - 48 = int (n mod 10)" by (simp add: of_char_of)
    moreover have "10 * int (n div 10) + int (n mod 10) = int n" by presburger
    ultimately show ?thesis by (simp only: to_string_eqs(2) [OF False] digits_value_append)
  qed
qed

end
