(* ===== verification/Sym_Parse.thy ===== *)
theory Sym_Parse
  imports Sym_Lex
begin

text \<open>The parser of symbolic expressions undoes their printing, and what it makes of texts without parentheses.\<close>

subsection \<open>Enough fuel\<close>

definition settles :: "(nat \<Rightarrow> 'a run) \<Rightarrow> 'a \<Rightarrow> bool" where
  "settles f a \<longleftrightarrow> (\<exists>N. \<forall>n \<ge> N. f n = Some (Inr a))"

lemma settles_const: "settles (\<lambda>n. Some (Inr a)) a"
  by (simp add: settles_def)

lemma settles_Suc: "settles (\<lambda>n. f (Suc n)) a \<Longrightarrow> settles f a"
  unfolding settles_def by (metis Suc_le_D Suc_le_mono)

lemma settles_bind:
  assumes "settles f a" "settles (\<lambda>n. g n a) b"
  shows "settles (\<lambda>n. rbind (f n) (g n)) b"
proof -
  obtain N M where "\<forall>n \<ge> N. f n = Some (Inr a)" "\<forall>n \<ge> M. g n a = Some (Inr b)" using assms by (auto simp: settles_def)
  then have "\<forall>n \<ge> max N M. rbind (f n) (g n) = Some (Inr b)" by simp
  then show ?thesis unfolding settles_def by blast
qed

subsection \<open>Texts that are printed\<close>

definition op_name :: "tok_value \<Rightarrow> string" where
  "op_name v = (case v of VPlus \<Rightarrow> ''+'' | VMinus \<Rightarrow> ''-'' | VMultiply \<Rightarrow> ''*'' | VDivide \<Rightarrow> ''/'' | VMod \<Rightarrow> ''%'' | _ \<Rightarrow> '''')"

definition binary_ops :: "tok_value set" where
  "binary_ops = {VPlus, VMinus, VMultiply, VDivide, VMod}"

definition unary_ops :: "tok_value set" where
  "unary_ops = {VCeil, VFloor, VAbs}"

text \<open>Names of variables, and numbers with one dot.\<close>

definition var_name :: "string \<Rightarrow> bool" where
  "var_name x \<longleftrightarrow> (case x of [] \<Rightarrow> False | c # _ \<Rightarrow> is_alpha c \<or> c = CHR ''_'') \<and> (\<forall>c \<in> set x. ident_char c) \<and> \<not> haveToken x"

definition fp_text :: "string \<Rightarrow> bool" where
  "fp_text x \<longleftrightarrow> (\<forall>c \<in> set x. number_char c) \<and> length (filter ((=) (CHR ''.'')) x) = 1"

text \<open>
  Trees as the operators of \<^verbatim>\<open>SymExpr\<close> make them: no null pointers, literals that are not negative, and
  floats whose text has a dot and is read back as the same number.
\<close>

fun printable :: "'f fops \<Rightarrow> 'f ast \<Rightarrow> bool" where
  "printable F (BinaryExprAST v (Some a) (Some b)) \<longleftrightarrow> v \<in> binary_ops \<and> printable F a \<and> printable F b"
| "printable F (UnaryExprAST v (Some a)) \<longleftrightarrow> v \<in> unary_ops \<and> printable F a"
| "printable F (VarAST x) \<longleftrightarrow> var_name x"
| "printable F (IntLiteralAST n) \<longleftrightarrow> 0 \<le> n \<and> n < 2 ^ 31"
| "printable F (FPLiteralAST x) \<longleftrightarrow> fp_text (fo_show F x) \<and> fo_read F (fo_show F x) = x"
| "printable F _ \<longleftrightarrow> False"

definition parens :: "'f fops \<Rightarrow> bool \<Rightarrow> 'f stoken list \<Rightarrow> 'f stoken list" where
  "parens F p ts = (if p then name_token F ''('' # ts @ [name_token F '')''] else ts)"

fun toks :: "'f fops \<Rightarrow> 'f ast \<Rightarrow> 'f stoken list" where
  "toks F (BinaryExprAST v (Some a) (Some b)) =
     parens F (is_binary a) (toks F a) @ name_token F (op_name v) # parens F (is_binary b) (toks F b)"
| "toks F (UnaryExprAST v (Some a)) = name_token F (unary_text v) # name_token F ''('' # toks F a @ [name_token F '')'']"
| "toks F (VarAST x) = [var_token F x]"
| "toks F (IntLiteralAST n) = [int_token F (int_text n)]"
| "toks F (FPLiteralAST x) = [fp_token F (fo_show F x)]"
| "toks F _ = []"

abbreviation word_ends :: "string \<Rightarrow> bool" where
  "word_ends r \<equiv> ends (\<lambda>c. ident_char c \<or> number_char c) r"

lemma word_endsD: "word_ends r \<Longrightarrow> ends ident_char r" "word_ends r \<Longrightarrow> ends number_char r"
  by (simp_all add: ends_def split: list.splits)

lemma reads_open: "reads F r ts \<Longrightarrow> reads F (CHR ''('' # r) (name_token F ''('' # ts)"
  by (rule reads_operation) (simp_all add: char_state_def is_alpha_def is_digit_def)

lemma reads_close: "reads F r ts \<Longrightarrow> reads F (CHR '')'' # r) (name_token F '')'' # ts)"
  by (rule reads_operation) (simp_all add: char_state_def is_alpha_def is_digit_def)

lemma reads_binary:
  assumes "reads F r ts" "v \<in> binary_ops"
  shows "reads F (binary_text v @ r) (name_token F (op_name v) # ts)" "word_ends (binary_text v @ s)"
proof -
  obtain c where c: "op_name v = [c]" "binary_text v = [CHR '' '', c, CHR '' '']" "(of_char c :: nat) < 128"
    "char_state c = kOperations"
    using assms(2) by (auto simp: binary_ops_def op_name_def binary_text_def char_state_def is_alpha_def is_digit_def)
  show "reads F (binary_text v @ r) (name_token F (op_name v) # ts)"
    using reads_blank [OF reads_operation [OF reads_blank [OF assms(1)] c(3,4)]] c(1,2) by simp
  show "word_ends (binary_text v @ s)" using c(2) by (simp add: ident_char_def number_char_def is_alpha_def is_digit_def)
qed

lemma reads_unary:
  assumes "reads F r ts" "v \<in> unary_ops" "ends ident_char r"
  shows "reads F (unary_text v @ r) (name_token F (unary_text v) # ts)"
proof -
  obtain c x where x: "unary_text v = c # x" "char_state c = kIdentifier" "\<forall>c \<in> set x. ident_char c" "haveToken (c # x)"
    using assms(2) by (auto simp: unary_ops_def unary_text_def char_state_def is_alpha_def ident_char_def haveToken_def token_dic_def)
  show ?thesis using reads_identifier [OF assms(1,3) x(2,3) refl] x by simp
qed

lemma reads_var:
  assumes "reads F r ts" "var_name x" "ends ident_char r"
  shows "reads F (x @ r) (var_token F x # ts)"
proof -
  obtain c y where x: "x = c # y" "char_state c = kIdentifier" "\<forall>c \<in> set y. ident_char c" "\<not> haveToken (c # y)"
    using assms(2) by (auto simp: var_name_def char_state_def split: list.splits)
  show ?thesis using reads_identifier [OF assms(1,3) x(2,3) refl] x(1,4) by simp
qed

lemma reads_int:
  assumes "reads F r ts" "0 \<le> n" "n < 2 ^ 31" "ends number_char r"
  shows "reads F (int_text n @ r) (int_token F (int_text n) # ts)"
proof -
  obtain c x where x: "to_string (nat n) = c # x" by (cases "to_string (nat n)") auto
  then have d: "\<forall>k \<in> set (c # x). is_digit k" using to_string_digits [of "nat n"] by simp
  then have nd: "CHR ''.'' \<notin> set (c # x)" using dot_no_digit by blast
  have "digits_value (c # x) < 2 ^ 31" using digits_value_to_string [of "nat n"] x assms(2,3) by simp
  then show ?thesis using reads_number [OF assms(1,4), of c x "int_token F (c # x)"] d nd assms(2) x
    by (auto simp: int_text_def number_char_def)
qed

lemma reads_fp:
  assumes "reads F r ts" "fp_text x" "ends number_char r"
  shows "reads F (x @ r) (fp_token F x # ts)"
proof -
  obtain c y where x: "x = c # y" using assms(2) by (cases x) (auto simp: fp_text_def)
  have mem: "CHR ''.'' \<in> set z \<longleftrightarrow> filter ((=) (CHR ''.'')) z \<noteq> []" for z :: string
    by (auto simp: filter_empty_conv)
  have "CHR ''.'' \<in> set (c # y)" unfolding mem using assms(2) x by (auto simp: fp_text_def)
  moreover have "c = CHR ''.'' \<longrightarrow> CHR ''.'' \<notin> set y"
    unfolding mem using assms(2) x by (auto simp: fp_text_def)
  ultimately show ?thesis
    using reads_number [OF assms(1,3), of c y "fp_token F x"] assms(2) x by (simp add: fp_text_def)
qed

lemma reads_parens:
  assumes "\<And>r ts. reads F r ts \<Longrightarrow> word_ends r \<Longrightarrow> reads F (s @ r) (us @ ts)" "reads F r ts" "word_ends r"
  shows "reads F (in_parens p s @ r) (parens F p us @ ts)"
proof -
  have "word_ends (CHR '')'' # r)" by (simp add: ident_char_def number_char_def is_alpha_def is_digit_def)
  from reads_open [OF assms(1) [OF reads_close [OF assms(2)] this]] assms show ?thesis
    by (simp add: in_parens_def parens_def)
qed

lemma reads_str:
  assumes "printable F e"
  shows "\<exists>s. ast_str F e = Inr s \<and> (\<forall>r ts. reads F r ts \<longrightarrow> word_ends r \<longrightarrow> reads F (s @ r) (toks F e @ ts))"
  using assms
proof (induction F e rule: toks.induct)
  case (1 F v a b)
  then obtain s t where s: "ast_str F a = Inr s" "ast_str F b = Inr t"
    "\<And>r ts. reads F r ts \<Longrightarrow> word_ends r \<Longrightarrow> reads F (s @ r) (toks F a @ ts)"
    "\<And>r ts. reads F r ts \<Longrightarrow> word_ends r \<Longrightarrow> reads F (t @ r) (toks F b @ ts)" "v \<in> binary_ops"
    by auto
  have "reads F (in_parens (is_binary a) s @ binary_text v @ in_parens (is_binary b) t @ r)
      (parens F (is_binary a) (toks F a) @ name_token F (op_name v) # parens F (is_binary b) (toks F b) @ ts)"
    if "reads F r ts" "word_ends r" for r ts
    by (rule reads_parens [OF s(3) reads_binary(1) [OF reads_parens [OF s(4) that] s(5)] reads_binary(2) [OF that(1) s(5)]])
  then show ?case using s(1,2) by simp
next
  case (2 F v a)
  then obtain s where s: "ast_str F a = Inr s"
    "\<And>r ts. reads F r ts \<Longrightarrow> word_ends r \<Longrightarrow> reads F (s @ r) (toks F a @ ts)" "v \<in> unary_ops"
    by auto
  have "reads F (unary_text v @ in_parens True s @ r) (name_token F (unary_text v) # parens F True (toks F a) @ ts)"
    if "reads F r ts" "word_ends r" for r ts
  proof (rule reads_unary [OF reads_parens [OF s(2) that] s(3)])
    have "\<not> ident_char (CHR ''('')" by (simp add: ident_char_def is_alpha_def is_digit_def)
    then show "ends ident_char (in_parens True s @ r)" by (simp add: in_parens_def)
  qed
  then show ?case using s(1) by (simp add: in_parens_def parens_def)
qed (auto simp: reads_var reads_int reads_fp word_endsD)


subsection \<open>The parser on the tokens of a text\<close>

text \<open>No token is read ahead, and the lexer still gives \<open>ts\<close>.\<close>

definition ready :: "'f fops \<Rightarrow> 'f parser \<Rightarrow> 'f stoken list \<Rightarrow> bool" where
  "ready F ps ts \<longleftrightarrow> ps_buffer ps = [] \<and> yields F (ps_lexer ps) ts"

lemma next_ready:
  assumes "ready F ps (t # ts)"
  obtains ps' where "getNextToken F ps = Inr (t, ps')" "ps_cur ps' = t" "ready F ps' ts"
  using assms by (auto simp: ready_def getNextToken_def)

lemma look_ready:
  assumes "ready F ps (t # ts)"
  obtains p1 p2 where "lookOneMoreToken F ps = Inr (t, p1)" "getNextToken F p1 = Inr (t, p2)" "ps_cur p2 = t" "ready F p2 ts"
  using assms by (auto simp: ready_def lookOneMoreToken_def getNextToken_def)

text \<open>
  Both loops, that of \<^verbatim>\<open>parse\<close> and that of \<^verbatim>\<open>parseGroupedExpr\<close>, arrive at the token \<open>T\<close> with the result \<open>e\<close>.
\<close>

inductive arrives :: "'f fops \<Rightarrow> 'f stoken \<Rightarrow> 'f ast option \<Rightarrow> 'f parser \<Rightarrow> 'f ast option \<Rightarrow> 'f stoken \<Rightarrow> 'f parser \<Rightarrow> bool"
  for F T e ps' where
  here: "arrives F T e ps' e T ps'"
| step: "t_value tok \<noteq> VClose \<Longrightarrow> t_type tok \<noteq> TEof \<Longrightarrow> settles (\<lambda>n. parseExpr F n ret ps) (r, p1) \<Longrightarrow>
    getNextToken F p1 = Inr (tok', p2) \<Longrightarrow> arrives F T e ps' r tok' p2 \<Longrightarrow> arrives F T e ps' ret tok ps"

text \<open>What the two loops have in common: a round parses one expression and goes to the next token.\<close>

locale token_loop =
  fixes F :: "'f fops"
    and loop :: "nat \<Rightarrow> 'f ast option \<Rightarrow> 'f stoken \<Rightarrow> 'f parser \<Rightarrow> 'r run"
    and stops :: "'f stoken \<Rightarrow> bool"
    and answer :: "'f ast option \<Rightarrow> 'f parser \<Rightarrow> 'r"
  assumes at_stop: "stops tok \<Longrightarrow> loop (Suc n) ret tok ps = Some (Inr (answer ret ps))"
    and round: "\<not> stops tok \<Longrightarrow> loop (Suc n) ret tok ps = rbind (parseExpr F n ret ps) (\<lambda>(ret, ps).
      rbind (Some (getNextToken F ps)) (\<lambda>(tok, ps). loop n ret tok ps))"
    and stop_tokens: "stops tok \<Longrightarrow> t_value tok = VClose \<or> t_type tok = TEof"
begin

lemma settles_at:
  assumes "arrives F T e ps' ret tok ps" "stops T"
  shows "settles (\<lambda>n. loop n ret tok ps) (answer e ps')"
  using assms
proof induction
  case here
  then show ?case by - (rule settles_Suc, simp add: at_stop settles_const)
next
  case (step tok ret ps r p1 tok' p2)
  have "\<not> stops tok" using step.hyps(1,2) stop_tokens by blast
  with settles_bind [OF step.hyps(3), of "\<lambda>n (ret, ps). rbind (Some (getNextToken F ps)) (\<lambda>(tok, ps). loop n ret tok ps)"]
    step.IH [OF step.prems] step.hyps(4)
  show ?case by - (rule settles_Suc, simp add: round)
qed

end

interpretation group_loop: token_loop F "grouped_loop F" "\<lambda>tok. t_value tok = VClose" Pair for F :: "'f fops"
  by unfold_locales simp_all

interpretation text_loop: token_loop F "parse_loop F" "\<lambda>tok. t_type tok = TEof" "\<lambda>e ps. e" for F :: "'f fops"
  by unfold_locales simp_all

text \<open>The loops read the whole text of \<open>e\<close>; \<open>T\<close> is what follows.\<close>

definition loops_read :: "'f fops \<Rightarrow> 'f ast \<Rightarrow> bool" where
  "loops_read F e \<longleftrightarrow> (\<forall>T rest ps. t_type T \<noteq> TOperators \<longrightarrow> ready F ps (toks F e @ T # rest) \<longrightarrow>
     (\<exists>tok p1 ps'. getNextToken F ps = Inr (tok, p1) \<and> arrives F T (Some e) ps' None tok p1 \<and> ready F ps' rest))"

lemma loops_readD:
  "loops_read F e \<Longrightarrow> t_type T \<noteq> TOperators \<Longrightarrow> ready F ps (toks F e @ T # rest) \<Longrightarrow>
     \<exists>tok p1 ps'. getNextToken F ps = Inr (tok, p1) \<and> arrives F T (Some e) ps' None tok p1 \<and> ready F ps' rest"
  by (simp add: loops_read_def)

definition operand_read :: "'f fops \<Rightarrow> 'f ast \<Rightarrow> bool" where
  "operand_read F e \<longleftrightarrow> (\<forall>prev rest ps. ps_cur ps = hd (parens F (is_binary e) (toks F e)) \<longrightarrow>
     ready F ps (tl (parens F (is_binary e) (toks F e)) @ rest) \<longrightarrow>
     (\<exists>ps'. settles (\<lambda>n. parseExpr F n prev ps) (Some e, ps') \<and> ready F ps' rest))"

lemma token_fields [simp]:
  "t_type (name_token F ''('') = TDelimiter" "t_value (name_token F ''('') = VOpen"
  "t_type (name_token F '')'') = TDelimiter" "t_value (name_token F '')'') = VClose"
  "t_type (var_token F x) = TIdentifier" "t_value (var_token F x) = VUnused" "t_str (var_token F x) = x"
  "t_type (int_token F x) = TInt" "t_value (int_token F x) = VI32" "t_int (int_token F x) = digits_value x"
  "t_type (fp_token F x) = TFP" "t_value (fp_token F x) = VF32" "t_fp (fp_token F x) = fo_read F x"
  "t_type (eof_token F) = TEof" "t_value (eof_token F) = VNone"
  "v \<in> binary_ops \<Longrightarrow> t_type (name_token F (op_name v)) = TOperators"
  "v \<in> binary_ops \<Longrightarrow> t_value (name_token F (op_name v)) = v"
  "v \<in> unary_ops \<Longrightarrow> t_type (name_token F (unary_text v)) = TKeywords"
  "v \<in> unary_ops \<Longrightarrow> t_value (name_token F (unary_text v)) = v"
  by (auto simp: name_token_def var_token_def int_token_def fp_token_def eof_token_def plain_token_def lookup_def
      token_dic_def binary_ops_def unary_ops_def op_name_def unary_text_def)

lemma grouped_reads:
  assumes "loops_read F e" "ready F ps (toks F e @ name_token F '')'' # rest)"
  shows "\<exists>ps'. settles (\<lambda>n. parseGroupedExpr F n ps) (Some e, ps') \<and> ready F ps' rest"
proof -
  obtain tok p1 ps' where "getNextToken F ps = Inr (tok, p1)" "arrives F (name_token F '')'') (Some e) ps' None tok p1"
    "ready F ps' rest"
    using loops_readD [OF assms(1) _ assms(2)] by auto
  then have "settles (\<lambda>n. parseGroupedExpr F n ps) (Some e, ps')"
    using group_loop.settles_at [of F "name_token F '')''" "Some e" ps' None tok p1] by - (rule settles_Suc [of "\<lambda>n. parseGroupedExpr F n ps"], simp)
  with \<open>ready F ps' rest\<close> show ?thesis by blast
qed

lemma loops_read_operand:
  assumes "operand_read F e" "\<not> is_binary e" "toks F e \<noteq> []" "t_value (hd (toks F e)) \<noteq> VClose" "t_type (hd (toks F e)) \<noteq> TEof"
  shows "loops_read F e"
  unfolding loops_read_def
proof (intro allI impI)
  fix T rest ps
  assume "ready F ps (toks F e @ T # rest)"
  then have "ready F ps (hd (toks F e) # tl (toks F e) @ T # rest)" using assms(3) by (cases "toks F e") simp_all
  then obtain p1 where 1: "getNextToken F ps = Inr (hd (toks F e), p1)" "ps_cur p1 = hd (toks F e)"
    "ready F p1 (tl (toks F e) @ T # rest)"
    by (rule next_ready)
  then obtain p2 where 2: "settles (\<lambda>n. parseExpr F n None p1) (Some e, p2)" "ready F p2 (T # rest)"
    using assms(1,2) unfolding operand_read_def parens_def by fastforce
  obtain p3 where 3: "getNextToken F p2 = Inr (T, p3)" "ps_cur p3 = T" "ready F p3 rest" using 2(2) by (rule next_ready)
  have "arrives F T (Some e) p3 None (hd (toks F e)) p1"
    by (rule arrives.step [OF assms(4,5) 2(1) 3(1) arrives.here])
  with 1 3 show "\<exists>tok p1 ps'. getNextToken F ps = Inr (tok, p1) \<and> arrives F T (Some e) ps' None tok p1 \<and> ready F ps' rest"
    by blast
qed

lemma operand_read_binary:
  assumes "loops_read F e" "is_binary e"
  shows "operand_read F e"
  unfolding operand_read_def
proof (intro allI impI)
  fix prev rest ps
  assume "ps_cur ps = hd (parens F (is_binary e) (toks F e))" "ready F ps (tl (parens F (is_binary e) (toks F e)) @ rest)"
  then have c: "ps_cur ps = name_token F ''(''" "ready F ps (toks F e @ name_token F '')'' # rest)"
    using assms(2) by (simp_all add: parens_def)
  from grouped_reads [OF assms(1) c(2)] obtain ps' where "settles (\<lambda>n. parseGroupedExpr F n ps) (Some e, ps')" "ready F ps' rest"
    by blast
  moreover from this(1) have "settles (\<lambda>n. parseExpr F n prev ps) (Some e, ps')"
    by - (rule settles_Suc [of "\<lambda>n. parseExpr F n prev ps"], simp add: c(1))
  ultimately show "\<exists>ps'. settles (\<lambda>n. parseExpr F n prev ps) (Some e, ps') \<and> ready F ps' rest" by blast
qed

lemma operand_read_unary:
  assumes "loops_read F e" "v \<in> unary_ops"
  shows "operand_read F (UnaryExprAST v (Some e))"
  unfolding operand_read_def
proof (intro allI impI)
  fix prev rest ps
  let ?u = "UnaryExprAST v (Some e)"
  assume "ps_cur ps = hd (parens F (is_binary ?u) (toks F ?u))" "ready F ps (tl (parens F (is_binary ?u) (toks F ?u)) @ rest)"
  then have c: "ps_cur ps = name_token F (unary_text v)" "ready F ps (name_token F ''('' # toks F e @ name_token F '')'' # rest)"
    by (simp_all add: parens_def is_binary_def)
  from c(2) obtain p1 where 1: "getNextToken F ps = Inr (name_token F ''('', p1)" "ready F p1 (toks F e @ name_token F '')'' # rest)"
    by (rule next_ready)
  from grouped_reads [OF assms(1) 1(2)] obtain ps' where 2: "settles (\<lambda>n. parseGroupedExpr F n p1) (Some e, ps')" "ready F ps' rest"
    by blast
  from settles_bind [OF 2(1), of "\<lambda>n (g, ps). Some (Inr (Some (UnaryExprAST v g), ps))"]
  have "settles (\<lambda>n. parseUnaryExpr F n ps) (Some ?u, ps')"
    by - (rule settles_Suc [of "\<lambda>n. parseUnaryExpr F n ps"], simp add: c(1) 1(1) assms(2) settles_const)
  then have "settles (\<lambda>n. parseExpr F n prev ps) (Some ?u, ps')"
    by - (rule settles_Suc [of "\<lambda>n. parseExpr F n prev ps"], simp add: c(1) assms(2))
  then show "\<exists>ps'. settles (\<lambda>n. parseExpr F n prev ps) (Some ?u, ps') \<and> ready F ps' rest" using 2(2) by blast
qed


text \<open>An operator behind the operand \<open>a\<close>: the parser reads one operand and looks at the token \<open>T\<close> after it.\<close>

lemma binary_reads:
  assumes b: "operand_read F b" and v: "v \<in> binary_ops" and ne: "toks F b \<noteq> []"
    and ps: "ps_cur ps = name_token F (op_name v)" "ready F ps (parens F (is_binary b) (toks F b) @ T # rest)"
    and T: "t_type T = TOperators \<longrightarrow> getPrecedence T \<le> getPrecedence (name_token F (op_name v))"
  obtains p1 p2 where "settles (\<lambda>n. parseBinaryExpr F n prev ps) (Some (BinaryExprAST v prev (Some b)), p1)"
    "getNextToken F p1 = Inr (T, p2)" "ps_cur p2 = T" "ready F p2 rest"
proof -
  let ?ts = "parens F (is_binary b) (toks F b)" and ?op = "name_token F (op_name v)"
  have "?ts \<noteq> []" using ne by (simp add: parens_def)
  then have "ready F ps (hd ?ts # tl ?ts @ T # rest)" using ps(2) by (cases ?ts) simp_all
  then obtain q where q: "getNextToken F ps = Inr (hd ?ts, q)" "ps_cur q = hd ?ts" "ready F q (tl ?ts @ T # rest)"
    by (rule next_ready)
  then obtain q1 where q1: "settles (\<lambda>n. parseExpr F n prev q) (Some b, q1)" "ready F q1 (T # rest)"
    using b unfolding operand_read_def by blast
  obtain p1 p2 where p: "lookOneMoreToken F q1 = Inr (T, p1)" "getNextToken F p1 = Inr (T, p2)" "ps_cur p2 = T" "ready F p2 rest"
    using look_ready [OF q1(2)] by blast
  have low: "\<not> (t_type T = TOperators \<and> getPrecedence ?op < getPrecedence T)" using T by auto
  let ?k = "\<lambda>n (rhs, ps). rbind (Some (lookOneMoreToken F ps)) (\<lambda>(next_op, ps).
      rbind (if t_type next_op = TOperators \<and> getPrecedence ?op < getPrecedence next_op
             then rbind (Some (getNextToken F ps)) (\<lambda>(_, ps). parseBinaryExpr F n rhs ps)
             else Some (Inr (rhs, ps))) (\<lambda>(rhs, ps).
        Some (Inr (Some (BinaryExprAST (t_value ?op) prev rhs), ps))))"
  have "settles (\<lambda>n. ?k n (Some b, q1)) (Some (BinaryExprAST v prev (Some b)), p1)"
    using low v by (auto simp: p(1) settles_const)
  from settles_bind [where g = ?k, OF q1(1) this]
  have "settles (\<lambda>n. parseBinaryExpr F n prev ps) (Some (BinaryExprAST v prev (Some b)), p1)"
    by - (rule settles_Suc [of "\<lambda>n. parseBinaryExpr F n prev ps"], simp add: ps(1) q(1) Let_def)
  then show ?thesis using p(2-4) that by blast
qed

lemma toks_first:
  assumes "printable F e"
  shows "toks F e \<noteq> []" "t_value (hd (toks F e)) \<noteq> VClose" "t_type (hd (toks F e)) \<noteq> TEof"
proof -
  have "toks F e \<noteq> [] \<and> t_value (hd (toks F e)) \<noteq> VClose \<and> t_type (hd (toks F e)) \<noteq> TEof"
    using assms
  proof (induction F e rule: toks.induct)
    case (2 F v a)
    then have "v \<noteq> VClose" by (auto simp: unary_ops_def)
    then show ?case using 2 by simp
  qed (auto simp: parens_def hd_append)
  then show "toks F e \<noteq> []" "t_value (hd (toks F e)) \<noteq> VClose" "t_type (hd (toks F e)) \<noteq> TEof" by simp_all
qed

lemma operand_first:
  assumes "printable F e"
  shows "parens F p (toks F e) \<noteq> []" "t_value (hd (parens F p (toks F e))) \<noteq> VClose" "t_type (hd (parens F p (toks F e))) \<noteq> TEof"
  using toks_first [OF assms] by (simp_all add: parens_def)

text \<open>One operand, read by the loops from its first token on.\<close>

lemma arrives_operand:
  assumes e: "operand_read F e" "printable F e"
    and ps: "ps_cur ps = hd (parens F (is_binary e) (toks F e))" "ready F ps (tl (parens F (is_binary e) (toks F e)) @ t # ts)"
    and k: "\<And>p. ps_cur p = t \<Longrightarrow> ready F p ts \<Longrightarrow> \<exists>ps'. arrives F T r ps' (Some e) t p \<and> ready F ps' rest"
  shows "\<exists>ps'. arrives F T r ps' prev (hd (parens F (is_binary e) (toks F e))) ps \<and> ready F ps' rest"
proof -
  obtain p1 where 1: "settles (\<lambda>n. parseExpr F n prev ps) (Some e, p1)" "ready F p1 (t # ts)"
    using e(1) ps unfolding operand_read_def by blast
  obtain p2 where 2: "getNextToken F p1 = Inr (t, p2)" "ps_cur p2 = t" "ready F p2 ts" using 1(2) by (rule next_ready)
  obtain ps' where "arrives F T r ps' (Some e) t p2" "ready F ps' rest" using k 2(2,3) by blast
  then show ?thesis using arrives.step [OF operand_first(2,3) [OF e(2)] 1(1) 2(1)] by blast
qed

lemma arrives_binary:
  assumes b: "operand_read F b" "printable F b" and v: "v \<in> binary_ops"
    and ps: "ps_cur ps = name_token F (op_name v)" "ready F ps (parens F (is_binary b) (toks F b) @ t # ts)"
    and t: "t_type t = TOperators \<longrightarrow> getPrecedence t \<le> getPrecedence (name_token F (op_name v))"
    and k: "\<And>p. ps_cur p = t \<Longrightarrow> ready F p ts \<Longrightarrow> \<exists>ps'. arrives F T r ps' (Some (BinaryExprAST v prev (Some b))) t p \<and> ready F ps' rest"
  shows "\<exists>ps'. arrives F T r ps' prev (name_token F (op_name v)) ps \<and> ready F ps' rest"
proof -
  let ?op = "name_token F (op_name v)"
  obtain p1 p2 where 1: "settles (\<lambda>n. parseBinaryExpr F n prev ps) (Some (BinaryExprAST v prev (Some b)), p1)"
    "getNextToken F p1 = Inr (t, p2)" "ps_cur p2 = t" "ready F p2 ts"
    using binary_reads [OF b(1) v toks_first(1) [OF b(2)] ps t] by blast
  have "settles (\<lambda>n. parseExpr F n prev ps) (Some (BinaryExprAST v prev (Some b)), p1)"
    using 1(1) by - (rule settles_Suc [of "\<lambda>n. parseExpr F n prev ps"], simp add: ps(1) v)
  moreover have "t_value ?op \<noteq> VClose" "t_type ?op \<noteq> TEof" using v by (auto simp: binary_ops_def)
  moreover obtain ps' where "arrives F T r ps' (Some (BinaryExprAST v prev (Some b))) t p2" "ready F ps' rest" using k 1(3,4) by blast
  ultimately show ?thesis using arrives.step 1(2) by blast
qed

lemma loops_read_binary:
  assumes a: "operand_read F a" "printable F a" and b: "operand_read F b" "printable F b" and v: "v \<in> binary_ops"
  shows "loops_read F (BinaryExprAST v (Some a) (Some b))"
  unfolding loops_read_def
proof (intro allI impI)
  fix T rest ps
  let ?ta = "parens F (is_binary a) (toks F a)" and ?e = "BinaryExprAST v (Some a) (Some b)"
  assume T: "t_type T \<noteq> TOperators" and r: "ready F ps (toks F ?e @ T # rest)"
  have "?ta \<noteq> []" by (rule operand_first(1) [OF a(2)])
  then have "ready F ps (hd ?ta # tl ?ta @ name_token F (op_name v) # parens F (is_binary b) (toks F b) @ T # rest)"
    using r by (cases ?ta) simp_all
  then obtain p1 where 1: "getNextToken F ps = Inr (hd ?ta, p1)" "ps_cur p1 = hd ?ta"
    "ready F p1 (tl ?ta @ name_token F (op_name v) # parens F (is_binary b) (toks F b) @ T # rest)"
    by (rule next_ready)
  have "\<exists>ps'. arrives F T (Some ?e) ps' None (hd ?ta) p1 \<and> ready F ps' rest"
  proof (rule arrives_operand [OF a 1(2,3)])
    fix p assume "ps_cur p = name_token F (op_name v)" "ready F p (parens F (is_binary b) (toks F b) @ T # rest)"
    then show "\<exists>ps'. arrives F T (Some ?e) ps' (Some a) (name_token F (op_name v)) p \<and> ready F ps' rest"
      by (rule arrives_binary [OF b v]) (use T arrives.here in blast)+
  qed
  then show "\<exists>tok p1 ps'. getNextToken F ps = Inr (tok, p1) \<and> arrives F T (Some ?e) ps' None tok p1 \<and> ready F ps' rest"
    using 1(1) by blast
qed

lemma operand_read_atom:
  assumes "\<not> is_binary e" "toks F e = [t]" "\<And>n prev ps. ps_cur ps = t \<Longrightarrow> parseExpr F (Suc n) prev ps = Some (Inr (Some e, ps))"
  shows "operand_read F e"
  unfolding operand_read_def
proof (intro allI impI)
  fix prev rest ps
  assume "ps_cur ps = hd (parens F (is_binary e) (toks F e))" "ready F ps (tl (parens F (is_binary e) (toks F e)) @ rest)"
  then have c: "ps_cur ps = t" "ready F ps rest" using assms(1,2) by (simp_all add: parens_def)
  have "settles (\<lambda>n. parseExpr F n prev ps) (Some e, ps)"
    by (rule settles_Suc [of "\<lambda>n. parseExpr F n prev ps"]) (simp only: assms(3) [OF c(1)] settles_const)
  with c(2) show "\<exists>ps'. settles (\<lambda>n. parseExpr F n prev ps) (Some e, ps') \<and> ready F ps' rest" by blast
qed

lemma printable_read: "printable F e \<Longrightarrow> loops_read F e \<and> operand_read F e"
proof (induction F e rule: toks.induct)
  case (1 F v a b)
  then have "loops_read F (BinaryExprAST v (Some a) (Some b))" by (intro loops_read_binary) simp_all
  then show ?case by (simp add: operand_read_binary is_binary_def)
next
  case (2 F v a)
  then have "operand_read F (UnaryExprAST v (Some a))" by (intro operand_read_unary) simp_all
  then show ?case using loops_read_operand [OF _ _ toks_first [OF 2(2)]] by (simp add: is_binary_def)
next
  case (3 F x)
  have "operand_read F (VarAST x)"
    by (rule operand_read_atom [where t = "var_token F x"]) (simp_all add: is_binary_def parseVarExpr_def)
  then show ?case using loops_read_operand [OF _ _ toks_first [OF 3]] by (simp add: is_binary_def)
next
  case (4 F n)
  then have "digits_value (int_text n) = n" by (simp add: int_text_def digits_value_to_string)
  then have "operand_read F (IntLiteralAST n)"
    by (intro operand_read_atom [where t = "int_token F (int_text n)"]) (simp_all add: is_binary_def parseNumberLiteralExpr_def)
  then show ?case using loops_read_operand [OF _ _ toks_first [OF 4]] by (simp add: is_binary_def)
next
  case (5 F x)
  then have "operand_read F (FPLiteralAST x)"
    by (intro operand_read_atom [where t = "fp_token F (fo_show F x)"]) (simp_all add: is_binary_def parseNumberLiteralExpr_def)
  then show ?case using loops_read_operand [OF _ _ toks_first [OF 5]] by (simp add: is_binary_def)
qed simp_all

lemma parse_reads:
  assumes "reads F s ts" "\<And>ps. ready F ps ts \<Longrightarrow>
    \<exists>tok p1 ps'. getNextToken F ps = Inr (tok, p1) \<and> arrives F (eof_token F) r ps' None tok p1"
  shows "\<exists>N. \<forall>n \<ge> N. SymExpr_parse F n s = Some (Inr r)"
proof -
  let ?ps = "parser_new F (lexer_new F s)"
  have "ready F ?ps ts" using lexer_new_yields [OF assms(1)] by (simp add: ready_def parser_new_def)
  then obtain tok p1 ps' where 1: "getNextToken F ?ps = Inr (tok, p1)" "arrives F (eof_token F) r ps' None tok p1"
    using assms(2) by blast
  from 1(2) have "settles (\<lambda>n. parse_loop F n None tok p1) r" by (rule text_loop.settles_at) simp
  then show ?thesis by (simp add: SymExpr_parse_def parse_def 1(1) settles_def)
qed

subsection \<open>Texts without parentheses\<close>

text \<open>Operands with operators between them; an operand that is itself binary stands in parentheses.\<close>

type_synonym 'f operands = "(tok_value \<times> 'f ast) list"

definition operand_text :: "'f fops \<Rightarrow> 'f ast \<Rightarrow> string outcome" where
  "operand_text F e = obind (ast_str F e) (\<lambda>s. Inr (in_parens (is_binary e) s))"

fun chain_text :: "'f fops \<Rightarrow> 'f ast \<Rightarrow> 'f operands \<Rightarrow> string outcome" where
  "chain_text F e [] = operand_text F e"
| "chain_text F e ((v, x) # r) =
     obind (operand_text F e) (\<lambda>s. obind (chain_text F x r) (\<lambda>t. Inr (s @ binary_text v @ t)))"

definition op_prec :: "tok_value \<Rightarrow> int" where
  "op_prec v = (if v = VMultiply \<or> v = VDivide then 20 else 10)"

text \<open>What the parser makes of them: behind each operator it looks one operator further, and not more.\<close>

fun chain :: "'f ast \<Rightarrow> 'f operands \<Rightarrow> 'f ast" where
  "chain acc [] = acc"
| "chain acc [(v, x)] = BinaryExprAST v (Some acc) (Some x)"
| "chain acc ((v, x) # (v', y) # r) =
     (if op_prec v < op_prec v' then chain (BinaryExprAST v (Some acc) (Some (BinaryExprAST v' (Some x) (Some y)))) r
      else chain (BinaryExprAST v (Some acc) (Some x)) ((v', y) # r))"

fun chain_toks :: "'f fops \<Rightarrow> 'f operands \<Rightarrow> 'f stoken list" where
  "chain_toks F [] = []"
| "chain_toks F ((v, x) # r) = name_token F (op_name v) # parens F (is_binary x) (toks F x) @ chain_toks F r"

definition chain_ok :: "'f fops \<Rightarrow> 'f operands \<Rightarrow> bool" where
  "chain_ok F r \<longleftrightarrow> (\<forall>(v, x) \<in> set r. v \<in> binary_ops \<and> printable F x)"

lemma getPrecedence_op: "v \<in> binary_ops \<Longrightarrow> getPrecedence (name_token F (op_name v)) = op_prec v"
  by (auto simp: getPrecedence_def name_token_def plain_token_def lookup_def token_dic_def binary_ops_def op_name_def op_prec_def)

lemma reads_operand:
  assumes "printable F e"
  shows "\<exists>s. operand_text F e = Inr s \<and>
    (\<forall>r ts. reads F r ts \<longrightarrow> word_ends r \<longrightarrow> reads F (s @ r) (parens F (is_binary e) (toks F e) @ ts))"
proof -
  obtain s where s: "ast_str F e = Inr s" "\<And>r ts. reads F r ts \<Longrightarrow> word_ends r \<Longrightarrow> reads F (s @ r) (toks F e @ ts)"
    using reads_str [OF assms] by blast
  then show ?thesis using reads_parens [OF s(2)] by (auto simp: operand_text_def)
qed

lemma reads_chain:
  assumes "printable F e" "chain_ok F r"
  shows "\<exists>s. chain_text F e r = Inr s \<and>
    reads F s (parens F (is_binary e) (toks F e) @ chain_toks F r @ [eof_token F])"
  using assms
proof (induction F e r rule: chain_text.induct)
  case (1 F e)
  then show ?case using reads_operand [of F e] reads_end [of F] by fastforce
next
  case (2 F e v x r)
  then obtain t where t: "chain_text F x r = Inr t"
    "reads F t (parens F (is_binary x) (toks F x) @ chain_toks F r @ [eof_token F])" "v \<in> binary_ops"
    by (auto simp: chain_ok_def)
  obtain s where s: "operand_text F e = Inr s"
    "\<And>r ts. reads F r ts \<Longrightarrow> word_ends r \<Longrightarrow> reads F (s @ r) (parens F (is_binary e) (toks F e) @ ts)"
    using reads_operand [OF 2(2)] by blast
  from s(2) [OF reads_binary [OF t(2,3)]] s(1) t(1) show ?case by simp
qed

text \<open>An operator that binds less than the one after the next operand.\<close>

lemma arrives_binary_high:
  assumes x: "operand_read F x" "printable F x" and y: "operand_read F y" "printable F y"
    and v: "v \<in> binary_ops" "v' \<in> binary_ops" "op_prec v < op_prec v'"
    and ps: "ps_cur ps = name_token F (op_name v)"
      "ready F ps (parens F (is_binary x) (toks F x) @ name_token F (op_name v') # parens F (is_binary y) (toks F y) @ t # ts)"
    and t: "t_type t = TOperators \<longrightarrow> getPrecedence t \<le> op_prec v'"
    and k: "\<And>p. ps_cur p = t \<Longrightarrow> ready F p ts \<Longrightarrow>
      \<exists>ps'. arrives F T r ps' (Some (BinaryExprAST v prev (Some (BinaryExprAST v' (Some x) (Some y))))) t p \<and> ready F ps' rest"
  shows "\<exists>ps'. arrives F T r ps' prev (name_token F (op_name v)) ps \<and> ready F ps' rest"
proof -
  let ?tx = "parens F (is_binary x) (toks F x)" and ?op = "name_token F (op_name v)" and ?op' = "name_token F (op_name v')"
    and ?e = "BinaryExprAST v prev (Some (BinaryExprAST v' (Some x) (Some y)))"
  have "?tx \<noteq> []" by (rule operand_first(1) [OF x(2)])
  then have "ready F ps (hd ?tx # tl ?tx @ ?op' # parens F (is_binary y) (toks F y) @ t # ts)" using ps(2) by (cases ?tx) simp_all
  then obtain q where q: "getNextToken F ps = Inr (hd ?tx, q)" "ps_cur q = hd ?tx"
    "ready F q (tl ?tx @ ?op' # parens F (is_binary y) (toks F y) @ t # ts)"
    by (rule next_ready)
  then obtain q1 where q1: "settles (\<lambda>n. parseExpr F n prev q) (Some x, q1)"
    "ready F q1 (?op' # parens F (is_binary y) (toks F y) @ t # ts)"
    using x(1) unfolding operand_read_def by blast
  obtain p1 p2 where p: "lookOneMoreToken F q1 = Inr (?op', p1)" "getNextToken F p1 = Inr (?op', p2)" "ps_cur p2 = ?op'"
    "ready F p2 (parens F (is_binary y) (toks F y) @ t # ts)"
    using look_ready [OF q1(2)] by blast
  have t': "t_type t = TOperators \<longrightarrow> getPrecedence t \<le> getPrecedence ?op'" using t v(2) by (simp add: getPrecedence_op)
  obtain r1 r2 where r: "settles (\<lambda>n. parseBinaryExpr F n (Some x) p2) (Some (BinaryExprAST v' (Some x) (Some y)), r1)"
    "getNextToken F r1 = Inr (t, r2)" "ps_cur r2 = t" "ready F r2 ts"
    using binary_reads [OF y(1) v(2) toks_first(1) [OF y(2)] p(3,4) t'] by blast
  let ?k = "\<lambda>n (rhs, ps). rbind (Some (lookOneMoreToken F ps)) (\<lambda>(next_op, ps).
      rbind (if t_type next_op = TOperators \<and> getPrecedence ?op < getPrecedence next_op
             then rbind (Some (getNextToken F ps)) (\<lambda>(_, ps). parseBinaryExpr F n rhs ps)
             else Some (Inr (rhs, ps))) (\<lambda>(rhs, ps).
        Some (Inr (Some (BinaryExprAST (t_value ?op) prev rhs), ps))))"
  from settles_bind [OF r(1), where g = "\<lambda>n (rhs, ps). Some (Inr (Some (BinaryExprAST v prev rhs), ps))"]
  have "settles (\<lambda>n. ?k n (Some x, q1)) (Some ?e, r1)"
    using v by (simp add: p(1,2) getPrecedence_op settles_const)
  from settles_bind [where g = ?k, OF q1(1) this]
  have "settles (\<lambda>n. parseBinaryExpr F n prev ps) (Some ?e, r1)"
    by - (rule settles_Suc [of "\<lambda>n. parseBinaryExpr F n prev ps"], simp add: ps(1) q(1) Let_def)
  then have "settles (\<lambda>n. parseExpr F n prev ps) (Some ?e, r1)"
    by - (rule settles_Suc [of "\<lambda>n. parseExpr F n prev ps"], simp add: ps(1) v(1))
  moreover have "t_value ?op \<noteq> VClose" "t_type ?op \<noteq> TEof" using v by (auto simp: binary_ops_def)
  moreover obtain ps' where "arrives F T r ps' (Some ?e) t r2" "ready F ps' rest" using k r(3,4) by blast
  ultimately show ?thesis using arrives.step r(2) by blast
qed

lemma chain_next:
  assumes "chain_ok F r" "\<And>v x r'. r = (v, x) # r' \<Longrightarrow> op_prec v \<le> p"
  obtains t ts where "chain_toks F r @ [eof_token F] = t # ts" "t_type t = TOperators \<longrightarrow> getPrecedence t \<le> p"
proof (cases r)
  case Nil
  then show ?thesis using that by simp
next
  case (Cons a r')
  obtain v x where a: "a = (v, x)" by (cases a)
  have "v \<in> binary_ops" using assms(1) Cons a by (simp add: chain_ok_def)
  then show ?thesis using that assms(2) Cons a by (simp add: getPrecedence_op)
qed

lemma arrives_chain:
  assumes "chain_ok F r" "chain_toks F r @ [eof_token F] = t # ts" "ps_cur ps = t" "ready F ps ts"
  shows "\<exists>ps'. arrives F (eof_token F) (Some (chain acc r)) ps' (Some acc) t ps \<and> ready F ps' []"
  using assms
proof (induction acc r arbitrary: t ts ps rule: chain.induct)
  case (1 acc)
  then show ?case using arrives.here by fastforce
next
  case (2 acc v x)
  then have x: "v \<in> binary_ops" "printable F x" by (simp_all add: chain_ok_def)
  have "\<exists>ps'. arrives F (eof_token F) (Some (chain acc [(v, x)])) ps' (Some acc) (name_token F (op_name v)) ps \<and> ready F ps' []"
  proof (rule arrives_binary [OF _ x(2,1), where t = "eof_token F" and ts = "[]"])
    show "ps_cur ps = name_token F (op_name v)" "ready F ps (parens F (is_binary x) (toks F x) @ [eof_token F])"
      using 2(2-4) by auto
    show "\<exists>ps'. arrives F (eof_token F) (Some (chain acc [(v, x)])) ps' (Some (BinaryExprAST v (Some acc) (Some x))) (eof_token F) p \<and>
        ready F ps' []" if "ready F p []" for p
      using that arrives.here [of F "eof_token F" "Some (chain acc [(v, x)])" p] by auto
  qed (use printable_read [OF x(2)] in simp_all)
  then show ?case using 2(2) by auto
next
  case (3 acc v x v' y r)
  have x: "v \<in> binary_ops" "v' \<in> binary_ops" "printable F x" "printable F y" "chain_ok F r" "chain_ok F ((v', y) # r)"
    using 3(3) by (simp_all add: chain_ok_def)
  have o1: "operand_read F x" "operand_read F y" using printable_read [OF x(3)] printable_read [OF x(4)] by simp_all
  show ?case
  proof (cases "op_prec v < op_prec v'")
    case True
    have le: "op_prec w \<le> op_prec v'" for w using True by (simp add: op_prec_def split: if_splits)
    then obtain t' ts' where t': "chain_toks F r @ [eof_token F] = t' # ts'" "t_type t' = TOperators \<longrightarrow> getPrecedence t' \<le> op_prec v'"
      by (rule chain_next [OF x(5), of "op_prec v'"]) (use le in auto)
    have "\<exists>ps'. arrives F (eof_token F) (Some (chain acc ((v, x) # (v', y) # r))) ps' (Some acc) (name_token F (op_name v)) ps \<and>
        ready F ps' []"
    proof (rule arrives_binary_high [OF o1(1) x(3) o1(2) x(4) x(1,2) True, where t = t' and ts = ts'])
      show "ready F ps (parens F (is_binary x) (toks F x) @ name_token F (op_name v') # parens F (is_binary y) (toks F y) @ t' # ts')"
        using 3(4-6) t'(1) by auto
      show "ps_cur ps = name_token F (op_name v)" using 3(4,5) by auto
    qed (use 3(1) [OF True x(5) t'(1)] True t'(2) in auto)
    then show ?thesis using 3(4) by auto
  next
    case False
    then have le: "op_prec v' \<le> op_prec v" by simp
    obtain t' ts' where t': "chain_toks F ((v', y) # r) @ [eof_token F] = t' # ts'" "t_type t' = TOperators \<longrightarrow> getPrecedence t' \<le> op_prec v"
      by (rule chain_next [OF x(6), of "op_prec v"]) (use le in auto)
    have "\<exists>ps'. arrives F (eof_token F) (Some (chain acc ((v, x) # (v', y) # r))) ps' (Some acc) (name_token F (op_name v)) ps \<and>
        ready F ps' []"
    proof (rule arrives_binary [OF o1(1) x(3) x(1), where t = t' and ts = ts'])
      show "ready F ps (parens F (is_binary x) (toks F x) @ t' # ts')" using 3(4-6) t'(1) by auto
      show "ps_cur ps = name_token F (op_name v)" using 3(4,5) by auto
    qed (use 3(2) [OF False x(6) t'(1)] False t'(2) x(1) in \<open>auto simp: getPrecedence_op\<close>)
    then show ?thesis using 3(4) by auto
  qed
qed

lemma parse_chain:
  assumes "printable F e" "chain_ok F r"
  shows "\<exists>s N. chain_text F e r = Inr s \<and> (\<forall>n \<ge> N. SymExpr_parse F n s = Some (Inr (Some (chain e r))))"
proof -
  obtain s where s: "chain_text F e r = Inr s" "reads F s (parens F (is_binary e) (toks F e) @ chain_toks F r @ [eof_token F])"
    using reads_chain [OF assms] by blast
  let ?te = "parens F (is_binary e) (toks F e)"
  obtain t ts where t: "chain_toks F r @ [eof_token F] = t # ts" by (cases "chain_toks F r") auto
  have "\<exists>tok p1 ps'. getNextToken F ps = Inr (tok, p1) \<and> arrives F (eof_token F) (Some (chain e r)) ps' None tok p1"
    if "ready F ps (?te @ chain_toks F r @ [eof_token F])" for ps
  proof -
    have "ready F ps (hd ?te # tl ?te @ t # ts)" using that t operand_first(1) [OF assms(1)] by (cases ?te) simp_all
    then obtain p1 where 1: "getNextToken F ps = Inr (hd ?te, p1)" "ps_cur p1 = hd ?te" "ready F p1 (tl ?te @ t # ts)"
      by (rule next_ready)
    have "\<exists>ps'. arrives F (eof_token F) (Some (chain e r)) ps' None (hd ?te) p1 \<and> ready F ps' []"
      by (rule arrives_operand [OF _ assms(1) 1(2,3)]) (use printable_read [OF assms(1)] arrives_chain [OF assms(2) t] in auto)
    with 1(1) show ?thesis by blast
  qed
  from parse_reads [OF s(2) this] s(1) show ?thesis by blast
qed

end
