(* ===== verification/Sym_Results.thy ===== *)
theory Sym_Results
  imports Sym_Parse
begin

text \<open>What symbolic expressions promise: texts, precedence, evaluation, and texts that have no parse.\<close>

subsection \<open>Printing and parsing\<close>

text \<open>
  C37: Parsing the text of an expression gives the expression back, provided it was built by the
  operations of the class from names that are no keywords, literals that are not negative and floats whose
  text has a dot and is read back: with enough calls the parser ends and the tree is the same.
\<close>

theorem parse_str:
  assumes "printable F e"
  shows "\<exists>s N. SymExpr_str F (Some e) = Inr s \<and> (\<forall>n \<ge> N. SymExpr_parse F n s = Some (Inr (Some e)))"
proof -
  obtain s where s: "ast_str F e = Inr s" "reads F (s @ []) (toks F e @ [eof_token F])"
    using reads_str [OF assms] reads_end [of F] by fastforce
  have "\<exists>tok p1 ps'. getNextToken F ps = Inr (tok, p1) \<and> arrives F (eof_token F) (Some e) ps' None tok p1"
    if "ready F ps (toks F e @ [eof_token F])" for ps
    using loops_readD [OF conjunct1 [OF printable_read [OF assms]] _ that] by auto
  from parse_reads [OF _ this] s show ?thesis by (auto simp: SymExpr_str_def)
qed

text \<open>An instance of the arithmetic, on integers, for the examples.\<close>

definition int_fops :: "int fops" where
  "int_fops = \<lparr>fo_zero = 0, fo_of_int = id, fo_to_int = Some, fo_add = (+), fo_sub = (-), fo_mul = (*), fo_div = (div),
     fo_ceil = id, fo_floor = id, fo_abs = abs, fo_read = digits_value, fo_show = int_text\<rparr>"

lemmas name_eval = var_name_def ident_char_def is_alpha_def is_digit_def haveToken_def token_dic_def

lemma parse_str_witness:
  "\<exists>N. SymExpr_parse int_fops N ''B + (C * floor(D))'' = Some (Inr (SymExpr_plus (Some (VarAST ''B''))
     (SymExpr_times (Some (VarAST ''C'')) (SymExpr_floor (Some (VarAST ''D''))))))"
proof -
  let ?e = "BinaryExprAST VPlus (Some (VarAST ''B'')) (Some (BinaryExprAST VMultiply (Some (VarAST ''C''))
    (Some (UnaryExprAST VFloor (Some (VarAST ''D''))))))"
  have "printable int_fops ?e" by (simp add: name_eval binary_ops_def unary_ops_def)
  moreover have "SymExpr_str int_fops (Some ?e) = Inr ''B + (C * floor(D))''"
    by (simp add: SymExpr_str_def is_binary_def in_parens_def binary_text_def unary_text_def)
  ultimately show ?thesis using parse_str [of int_fops ?e] by (auto simp: SymExpr_plus_def SymExpr_times_def SymExpr_floor_def)
qed

subsection \<open>Precedence\<close>

text \<open>
  The usual reading by the precedence of the operators, from the left: sums of products, where \<^verbatim>\<open>%\<close> has the
  precedence of a sum, as in the table of the code.
\<close>

fun products :: "'f ast \<Rightarrow> 'f operands \<Rightarrow> 'f ast \<times> 'f operands" where
  "products t [] = (t, [])"
| "products t ((v, x) # r) = (if op_prec v = 20 then products (BinaryExprAST v (Some t) (Some x)) r else (t, (v, x) # r))"

lemma products_length: "length (snd (products t r)) \<le> length r"
  by (induction t r rule: products.induct) auto

function sums :: "'f ast \<Rightarrow> 'f operands \<Rightarrow> 'f ast" where
  "sums t [] = t"
| "sums t ((v, x) # r) = sums (BinaryExprAST v (Some t) (Some (fst (products x r)))) (snd (products x r))"
  by pat_completeness auto

termination
  by (relation "measure (\<lambda>(t, r). length r)") (auto simp: products_length less_Suc_eq_le)

definition usual_reading :: "'f ast \<Rightarrow> 'f operands \<Rightarrow> 'f ast" where
  "usual_reading e r = sums (fst (products e r)) (snd (products e r))"

text \<open>No sum is followed by two products.\<close>

fun single_products :: "'f operands \<Rightarrow> bool" where
  "single_products ((u, x) # (v, y) # (w, z) # r) \<longleftrightarrow>
     \<not> (op_prec u = 10 \<and> op_prec v = 20 \<and> op_prec w = 20) \<and> single_products ((v, y) # (w, z) # r)"
| "single_products _ \<longleftrightarrow> True"

lemma op_prec_cases: "op_prec v = 10 \<or> op_prec v = 20"
  by (simp add: op_prec_def)

lemma single_products_tl: "single_products (a # r) \<Longrightarrow> single_products r"
  by (cases a; cases r; cases "tl r"; cases "hd r"; cases "hd (tl r)") auto

lemma chain_usual:
  assumes "single_products r"
  shows "chain e r = usual_reading e r"
  using assms
proof (induction e r rule: chain.induct)
  case (1 acc)
  then show ?case by (simp add: usual_reading_def)
next
  case (2 acc v x)
  then show ?case by (simp add: usual_reading_def)
next
  case (3 acc v x v' y r)
  have s: "single_products ((v', y) # r)" "single_products r" using single_products_tl 3(3) by blast+
  show ?case
  proof (cases "op_prec v < op_prec v'")
    case True
    then have p: "op_prec v = 10" "op_prec v' = 20" using op_prec_cases [of v] op_prec_cases [of v'] by auto
    have "products z r = (z, r)" for z
      using 3(3) p op_prec_cases by (cases r; cases "hd r") fastforce+
    then show ?thesis using 3(1) [OF True s(2)] True p by (simp add: usual_reading_def)
  next
    case False
    show ?thesis
    proof (cases "op_prec v = 20")
      case True
      then show ?thesis using 3(2) [OF False s(1)] False by (simp add: usual_reading_def)
    next
      case low: False
      then have "op_prec v' \<noteq> 20" using False op_prec_cases [of v] by auto
      then show ?thesis using 3(2) [OF False s(1)] False low by (simp add: usual_reading_def)
    qed
  qed
qed

text \<open>
  C38: Operands with operators between them are read by the precedence of the operators and from the left,
  if no operator of the lower precedence is followed by two of the higher.
\<close>

theorem parse_precedence:
  assumes "printable F e" "chain_ok F r" "single_products r"
  shows "\<exists>s N. chain_text F e r = Inr s \<and> (\<forall>n \<ge> N. SymExpr_parse F n s = Some (Inr (Some (usual_reading e r))))"
  using parse_chain [OF assms(1,2)] chain_usual [OF assms(3)] by metis

lemma parse_precedence_witness:
  "\<exists>N. SymExpr_parse int_fops N ''a * b + c * d - e'' = Some (Inr (SymExpr_minus (SymExpr_plus
     (SymExpr_times (Some (VarAST ''a'')) (Some (VarAST ''b''))) (SymExpr_times (Some (VarAST ''c'')) (Some (VarAST ''d''))))
     (Some (VarAST ''e''))))"
proof -
  let ?r = "[(VMultiply, VarAST ''b''), (VPlus, VarAST ''c''), (VMultiply, VarAST ''d''), (VMinus, VarAST ''e'')]"
  have "printable int_fops (VarAST ''a'')" "chain_ok int_fops ?r" "single_products ?r"
    by (simp_all add: chain_ok_def name_eval binary_ops_def op_prec_def)
  from parse_precedence [OF this] obtain s N where s: "chain_text int_fops (VarAST ''a'') ?r = Inr s"
    "SymExpr_parse int_fops N s = Some (Inr (Some (usual_reading (VarAST ''a'') ?r)))"
    by blast
  have "chain_text int_fops (VarAST ''a'') ?r = Inr ''a * b + c * d - e''"
    by (simp add: operand_text_def is_binary_def in_parens_def binary_text_def)
  moreover have "Some (usual_reading (VarAST ''a'') ?r) = SymExpr_minus (SymExpr_plus
     (SymExpr_times (Some (VarAST ''a'')) (Some (VarAST ''b''))) (SymExpr_times (Some (VarAST ''c'')) (Some (VarAST ''d''))))
     (Some (VarAST ''e''))"
    by (simp add: usual_reading_def op_prec_def SymExpr_minus_def SymExpr_plus_def SymExpr_times_def)
  ultimately show ?thesis using s by (metis sum.inject(2))
qed

text \<open>Otherwise the second product takes the whole sum as its left operand.\<close>

lemma product_of_sum:
  "\<exists>N. \<forall>n \<ge> N. SymExpr_parse int_fops n ''a + b * c * d'' = Some (Inr (SymExpr_times (SymExpr_plus
     (Some (VarAST ''a'')) (SymExpr_times (Some (VarAST ''b'')) (Some (VarAST ''c'')))) (Some (VarAST ''d''))))"
proof -
  let ?r = "[(VPlus, VarAST ''b''), (VMultiply, VarAST ''c''), (VMultiply, VarAST ''d'')]"
  have "printable int_fops (VarAST ''a'')" "chain_ok int_fops ?r"
    by (simp_all add: chain_ok_def name_eval binary_ops_def)
  from parse_chain [OF this] obtain s N where s: "chain_text int_fops (VarAST ''a'') ?r = Inr s"
    "\<forall>n \<ge> N. SymExpr_parse int_fops n s = Some (Inr (Some (chain (VarAST ''a'') ?r)))"
    by blast
  have "chain_text int_fops (VarAST ''a'') ?r = Inr ''a + b * c * d''"
    by (simp add: operand_text_def is_binary_def in_parens_def binary_text_def)
  moreover have "Some (chain (VarAST ''a'') ?r) = SymExpr_times (SymExpr_plus
     (Some (VarAST ''a'')) (SymExpr_times (Some (VarAST ''b'')) (Some (VarAST ''c'')))) (Some (VarAST ''d''))"
    by (simp add: op_prec_def SymExpr_plus_def SymExpr_times_def)
  ultimately show ?thesis using s by (metis sum.inject(2))
qed

subsection \<open>Static expressions\<close>

text \<open>The variables of a tree, and trees without null pointers.\<close>

fun sym_vars :: "'f ast \<Rightarrow> string set" where
  "sym_vars (BinaryExprAST v (Some a) (Some b)) = sym_vars a \<union> sym_vars b"
| "sym_vars (UnaryExprAST v (Some a)) = sym_vars a"
| "sym_vars (VarAST x) = {x}"
| "sym_vars _ = {}"

fun complete :: "'f ast \<Rightarrow> bool" where
  "complete (BinaryExprAST v (Some a) (Some b)) \<longleftrightarrow> complete a \<and> complete b"
| "complete (UnaryExprAST v (Some a)) \<longleftrightarrow> complete a"
| "complete (BinaryExprAST v _ _) \<longleftrightarrow> False"
| "complete (UnaryExprAST v None) \<longleftrightarrow> False"
| "complete _ \<longleftrightarrow> True"

text \<open>Without \<^verbatim>\<open>%\<close>, whose operands are converted to integers and whose divisor may be zero.\<close>

fun no_mod :: "'f ast \<Rightarrow> bool" where
  "no_mod (BinaryExprAST v (Some a) (Some b)) \<longleftrightarrow> v \<noteq> VMod \<and> no_mod a \<and> no_mod b"
| "no_mod (UnaryExprAST v (Some a)) \<longleftrightarrow> no_mod a"
| "no_mod _ \<longleftrightarrow> True"

lemma isStatic_vars: "complete e \<Longrightarrow> ast_isStatic e flag = Inr (flag \<and> sym_vars e = {})"
  by (induction e arbitrary: flag rule: sym_vars.induct) auto

lemma eval_cong: "complete e \<Longrightarrow> (\<And>x. x \<in> sym_vars e \<Longrightarrow> env x = env' x) \<Longrightarrow> ast_eval F env e = ast_eval F env' e"
  by (induction e rule: sym_vars.induct) auto

lemma binary_value_total: "v \<noteq> VMod \<Longrightarrow> \<exists>z. binary_value F v x y = Inr z"
  by (cases v) (simp_all add: binary_value_def)

lemma eval_total: "complete e \<Longrightarrow> no_mod e \<Longrightarrow> sym_vars e \<subseteq> dom env \<Longrightarrow> \<exists>v. ast_eval F env e = Inr v"
  by (induction e rule: sym_vars.induct) (use binary_value_total in fastforce)+

lemma eval_bound: "ast_eval F env e = Inr v \<Longrightarrow> sym_vars e \<subseteq> dom env"
  by (induction e arbitrary: v rule: sym_vars.induct)
    (fastforce simp: deref_def obind_Inr_iff split: option.splits)+

text \<open>
  C39: A tree without null pointers and without the operator \<^verbatim>\<open>%\<close> is static, by the method of the class, exactly if
  evaluation gives one and the same value for every dictionary of variables, the empty one included.
\<close>

theorem isStatic_sound:
  assumes "complete e" "no_mod e"
  shows "SymExpr_isStatic (Some e) = Inr True \<longleftrightarrow> (\<exists>v. \<forall>env. SymExpr_eval F env (Some e) = Inr v)"
proof
  assume "SymExpr_isStatic (Some e) = Inr True"
  then have none: "sym_vars e = {}" using isStatic_vars [OF assms(1)] by (simp add: SymExpr_isStatic_def)
  then obtain v where "ast_eval F Map.empty e = Inr v" using eval_total [OF assms, of Map.empty F] by auto
  then have "ast_eval F env e = Inr v" for env using eval_cong [OF assms(1), of env Map.empty F] none by simp
  then show "\<exists>v. \<forall>env. SymExpr_eval F env (Some e) = Inr v" by (simp add: SymExpr_eval_def)
next
  assume "\<exists>v. \<forall>env. SymExpr_eval F env (Some e) = Inr v"
  then obtain v where "ast_eval F Map.empty e = Inr v" by (auto simp: SymExpr_eval_def)
  from eval_bound [OF this] show "SymExpr_isStatic (Some e) = Inr True"
    using isStatic_vars [OF assms(1)] by (simp add: SymExpr_isStatic_def)
qed

lemma isStatic_sound_witness:
  "\<exists>v. \<forall>env. SymExpr_eval int_fops env (SymExpr_plus (SymExpr_floor (Some (IntLiteralAST 7))) (Some (IntLiteralAST 2))) = Inr v"
proof -
  let ?e = "BinaryExprAST VPlus (Some (UnaryExprAST VFloor (Some (IntLiteralAST 7)))) (Some (IntLiteralAST 2)) :: int ast"
  have "complete ?e" "no_mod ?e" "SymExpr_isStatic (Some ?e) = Inr True" by (simp_all add: SymExpr_isStatic_def)
  then show ?thesis using isStatic_sound [of ?e int_fops] by (simp add: SymExpr_plus_def SymExpr_floor_def)
qed

subsection \<open>Parentheses that are not closed\<close>

text \<open>No closing parenthesis is left in the lexer, or among the tokens that were read.\<close>

definition unclosed_lexer :: "'f lexer \<Rightarrow> bool" where
  "unclosed_lexer lx \<longleftrightarrow> CHR '')'' \<notin> set (lx_char lx # lx_rest lx @ lx_buffer lx) \<and> t_value (lx_token lx) \<noteq> VClose"

definition unclosed :: "'f parser \<Rightarrow> bool" where
  "unclosed ps \<longleftrightarrow> unclosed_lexer (ps_lexer ps) \<and> (\<forall>t \<in> set (ps_cur ps # ps_buffer ps). t_value t \<noteq> VClose)"

lemma close_end [simp]: "CHR '')'' \<noteq> end_char" "CHR '')'' \<noteq> char_of (0 :: nat)"
  by (simp_all add: char_neqI)

lemma lookup_close: "lookup x = (ty, VClose, p) \<Longrightarrow> x = '')''"
  by (auto simp: lookup_def token_dic_def split: if_splits)

lemma unclosed_chars [simp]:
  "unclosed_lexer lx \<Longrightarrow> unclosed_lexer (getNextChar lx)" "unclosed_lexer lx \<Longrightarrow> unclosed_lexer (addToCharBuffer lx)"
  "unclosed_lexer lx \<Longrightarrow> unclosed_lexer (clearCharBuffer lx)" "unclosed_lexer lx \<Longrightarrow> unclosed_lexer (step_char lx)"
  "unclosed_lexer (lx\<lparr>lx_state := st\<rparr>) = unclosed_lexer lx"
  by (auto simp: unclosed_lexer_def getNextChar_def addToCharBuffer_def clearCharBuffer_def step_char_def split: list.splits)

lemma unclosed_token: "unclosed_lexer lx \<Longrightarrow> t_value t \<noteq> VClose \<Longrightarrow> unclosed_lexer (lx\<lparr>lx_token := t\<rparr>)"
  by (simp add: unclosed_lexer_def)

lemma identifier_loop_unclosed: "identifier_loop lx = Inr lx' \<Longrightarrow> unclosed_lexer lx \<Longrightarrow> unclosed_lexer lx'"
proof (induction lx rule: identifier_loop.induct)
  case (1 lx)
  then show ?case by (subst (asm) (2) identifier_loop.simps) (auto split: if_splits)
qed

lemma number_loop_unclosed: "number_loop d i f lx = Inr (i', f', lx') \<Longrightarrow> unclosed_lexer lx \<Longrightarrow> unclosed_lexer lx'"
proof (induction d i f lx rule: number_loop.induct)
  case (1 d i f lx)
  then show ?case by (subst (asm) (3) number_loop.simps) (auto split: if_splits)
qed

lemma handle_unclosed:
  assumes "unclosed_lexer lx"
  shows "handleIdentifierState F lx = Inr lx' \<Longrightarrow> unclosed_lexer lx'" "handleNumberState F lx = Inr lx' \<Longrightarrow> unclosed_lexer lx'"
    "unclosed_lexer (handleOperationState F lx)" "unclosed_lexer (handleEOFState F lx)"
proof -
  have buffer: "t_value ((plain_token F (fst (lookup x)) (fst (snd (lookup x))))\<lparr>t_name := y\<rparr>) \<noteq> VClose" if "CHR '')'' \<notin> set x" for x y
    using that lookup_close [of x] by (cases "lookup x") (auto simp: plain_token_def)
  have rest: "CHR '')'' \<notin> set (lx_buffer lx)" if "unclosed_lexer lx" for lx :: "'a lexer"
    using that by (simp add: unclosed_lexer_def)
  show "unclosed_lexer lx'" if i: "handleIdentifierState F lx = Inr lx'"
  proof -
    obtain k where k: "identifier_loop (step_char lx) = Inr k" using i
      by (cases "identifier_loop (step_char lx)") (auto simp: handleIdentifierState_def)
    then have u: "unclosed_lexer k" using identifier_loop_unclosed [OF k] assms by simp
    show ?thesis using i k buffer [OF rest [OF u]] unclosed_token [OF u]
      by (auto simp: handleIdentifierState_def Let_def plain_token_def split: if_splits prod.splits)
  qed
  show "unclosed_lexer lx'" if n: "handleNumberState F lx = Inr lx'"
  proof -
    obtain i f k where k: "number_loop (lx_char lx = CHR ''.'') (lx_char lx \<noteq> CHR ''.'') (lx_char lx = CHR ''.'') (step_char lx) = Inr (i, f, k)"
      using n by (auto simp: handleNumberState_def obind_Inr_iff Let_def)
    then have u: "unclosed_lexer k" using number_loop_unclosed [OF k] assms by simp
    have i: "unclosed_lexer k'" if "handleInt F k = Inr k'" for k'
      using that unclosed_token [OF u] by (auto simp: handleInt_def obind_Inr_iff plain_token_def)
    have f: "unclosed_lexer (handleFP F k')" if "unclosed_lexer k'" for k'
      using unclosed_token [OF that] by (simp add: handleFP_def plain_token_def)
    show ?thesis using n k u i f by (auto simp: handleNumberState_def obind_Inr_iff Let_def split: if_splits)
  qed
  let ?k = "addToCharBuffer lx"
  have u: "unclosed_lexer ?k" using assms by simp
  show "unclosed_lexer (handleOperationState F lx)"
    using buffer [OF rest [OF u]] unclosed_token [OF u] by (cases "lookup (lx_buffer ?k)") (simp add: handleOperationState_def Let_def)
  have "unclosed_lexer (lx\<lparr>lx_token := plain_token F TEof VNone\<rparr>)" using unclosed_token [OF assms] by (simp add: plain_token_def)
  then show "unclosed_lexer (handleEOFState F lx)" by (simp add: handleEOFState_def unclosed_lexer_def)
qed

lemma handle_state_unclosed:
  assumes "handle_state F lx = Inr lx'" "unclosed_lexer lx"
  shows "unclosed_lexer lx'"
  using assms handle_unclosed [OF assms(2)]
  by (auto simp: handle_state_def next_state_def obind_Inr_iff split: lex_state.splits if_splits)

lemma lex_next_unclosed: "lex_next F lx = Inr (t, lx') \<Longrightarrow> unclosed_lexer lx \<Longrightarrow> t_value t \<noteq> VClose \<and> unclosed_lexer lx'"
proof (induction F lx rule: lex_next.induct)
  case (1 F lx)
  show ?case using 1(2,3) handle_state_unclosed [of F lx] 1(1)
    by (subst (asm) (1) lex_next.simps) (auto simp: unclosed_lexer_def split: sum.splits if_splits)
qed

lemma next_unclosed:
  "unclosed ps \<Longrightarrow> getNextToken F ps = Inr (t, ps') \<Longrightarrow> t_value t \<noteq> VClose \<and> unclosed ps'"
  "unclosed ps \<Longrightarrow> lookOneMoreToken F ps = Inr (t, ps') \<Longrightarrow> unclosed ps'"
  using lex_next_unclosed [of F "ps_lexer ps"]
  by (auto simp: unclosed_def getNextToken_def lookOneMoreToken_def obind_Inr_iff split: list.splits)

lemma rbind_Inr_iff: "rbind m f = Some (Inr b) \<longleftrightarrow> (\<exists>a. m = Some (Inr a) \<and> f a = Some (Inr b))"
  by (cases m; cases "the m") auto

lemma parse_unclosed:
  "unclosed ps \<Longrightarrow> parseExpr F n prev ps = Some (Inr (r, ps')) \<Longrightarrow> unclosed ps'"
  "unclosed ps \<Longrightarrow> parseGroupedExpr F n ps \<noteq> Some (Inr (r, ps'))"
  "unclosed ps \<Longrightarrow> t_value tok \<noteq> VClose \<Longrightarrow> grouped_loop F n prev tok ps \<noteq> Some (Inr (r, ps'))"
  "unclosed ps \<Longrightarrow> parseBinaryExpr F n prev ps = Some (Inr (r, ps')) \<Longrightarrow> unclosed ps'"
  "unclosed ps \<Longrightarrow> parseUnaryExpr F n ps = Some (Inr (r, ps')) \<Longrightarrow> unclosed ps'"
proof (induction n arbitrary: prev tok ps r ps')
  case (Suc n)
  {
    case 1
    then show ?case using Suc.IH(2) [OF 1(1)] Suc.IH(4) [OF 1(1)] Suc.IH(5) [OF 1(1)]
      by (cases "t_type (ps_cur ps)") auto
  next
    case 2
    show ?case
    proof
      assume "parseGroupedExpr F (Suc n) ps = Some (Inr (r, ps'))"
      then obtain t p where "getNextToken F ps = Inr (t, p)" "grouped_loop F n None t p = Some (Inr (r, ps'))"
        by (auto simp: rbind_Inr_iff)
      then show False using Suc.IH(3) next_unclosed(1) [OF 2] by blast
    qed
  next
    case 3
    show ?case
    proof
      assume "grouped_loop F (Suc n) prev tok ps = Some (Inr (r, ps'))"
      then obtain x q t p where "parseExpr F n prev ps = Some (Inr (x, q))" "getNextToken F q = Inr (t, p)"
        "grouped_loop F n x t p = Some (Inr (r, ps'))"
        using 3(2) by (auto simp: rbind_Inr_iff)
      then show False using Suc.IH(3) Suc.IH(1) [OF 3(1)] next_unclosed(1) by blast
    qed
  next
    case 4
    obtain t p x q t' p' where s: "getNextToken F ps = Inr (t, p)" "parseExpr F n prev p = Some (Inr (x, q))"
      "lookOneMoreToken F q = Inr (t', p')"
      and e: "ps' = p' \<or> (\<exists>u k y. getNextToken F p' = Inr (u, k) \<and> parseBinaryExpr F n x k = Some (Inr (y, ps')))"
      using 4(2) by (auto simp: rbind_Inr_iff Let_def split: if_splits)
    have "unclosed p'" using next_unclosed(1) [OF 4(1) s(1)] Suc.IH(1) [OF _ s(2)] next_unclosed(2) [OF _ s(3)] by blast
    then show ?case using e next_unclosed(1) Suc.IH(4) by blast
  next
    case 5
    then obtain t p x where "getNextToken F ps = Inr (t, p)" "parseGroupedExpr F n p = Some (Inr (x, ps'))"
      by (auto simp: rbind_Inr_iff Let_def)
    then show ?case using Suc.IH(2) next_unclosed(1) [OF 5(1)] by blast
  }
qed simp_all

text \<open>
  C40: A text that opens with a parenthesis and has no closing one is never parsed, however long the parser
  runs; in particular the end of the text does not stop it.
\<close>

theorem unclosed_never_parsed:
  assumes "CHR '')'' \<notin> set s"
  shows "SymExpr_parse F n (CHR ''('' # s) \<noteq> Some (Inr e)"
proof
  assume r: "SymExpr_parse F n (CHR ''('' # s) = Some (Inr e)"
  let ?ps = "parser_new F (lexer_new F (CHR ''('' # s))"
  have u: "unclosed ?ps"
    using assms by (simp add: unclosed_def unclosed_lexer_def parser_new_def lexer_new_def default_token_def plain_token_def)
  obtain t p where t: "getNextToken F ?ps = Inr (t, p)" "parse_loop F n None t p = Some (Inr e)"
    using r by (auto simp: SymExpr_parse_def parse_def rbind_Inr_iff)
  have c: "char_of (0 :: nat) \<noteq> CHR ''(''" "\<not> bad_char (CHR ''('')" "\<not> is_alpha (CHR ''('')" "\<not> is_digit (CHR ''('')"
    by (simp_all add: char_neqI bad_char_def is_alpha_def is_digit_def)
  have l: "lookup ''('' = (TDelimiter, VOpen, -1)" by (simp add: lookup_def token_dic_def)
  have ty: "t_type t = TDelimiter" "t_value t = VOpen" "ps_cur p = t"
    using t(1) c l
    by (auto simp: getNextToken_def parser_new_def lexer_new_def obind_Inr_iff lex_next.simps [of F "\<lparr>lx_rest = _, lx_eof = _, lx_state = kNone, lx_char = _, lx_token = _, lx_buffer = _\<rparr>"]
      lex_next.simps [of F "\<lparr>lx_rest = _, lx_eof = _, lx_state = kOperations, lx_char = _, lx_token = _, lx_buffer = _\<rparr>"]
      handle_state_def next_state_def getNextChar_def handleOperationState_def addToCharBuffer_def clearCharBuffer_def plain_token_def Let_def
      split: list.splits if_splits sum.splits)
  obtain m where m: "n = Suc m" using t(2) by (cases n) auto
  obtain x p' where "parseExpr F m None p = Some (Inr (x, p'))" using t(2) m ty by (auto simp: rbind_Inr_iff)
  then obtain k where "m = Suc k" "parseGroupedExpr F k p = Some (Inr (x, p'))" using ty by (cases m) auto
  then show False using parse_unclosed(2) next_unclosed(1) [OF u t(1)] by blast
qed

lemma unclosed_never_parsed_witness: "\<forall>n e. SymExpr_parse int_fops n ''(a + 1'' \<noteq> Some (Inr e)"
proof (intro allI)
  fix n and e :: "int ast option"
  show "SymExpr_parse int_fops n ''(a + 1'' \<noteq> Some (Inr e)"
    using unclosed_never_parsed [of "''a + 1''" int_fops n e] by simp
qed

end
