(* ===== verification/Parameter_File.thy ===== *)
theory Parameter_File
  imports Tensor_View
begin

text \<open>
  Model files: \<^verbatim>\<open>mllm/core/ParameterFile.{hpp,cpp}\<close> with \<^verbatim>\<open>core/schema/ModelFileV1.hpp\<close> and
  \<^verbatim>\<open>ModelFileV2.hpp\<close>. A file is a list of bytes; integers are little endian. A parameter is a tensor with
  its bytes: either bytes of its own, or a position in the mapped file. An access outside the file, or
  past the memory of a tensor, is undefined. A type tag outside the enumeration is not modelled
  (\<open>Undefined\<close>). \<open>u\<close> is the next number of \<^verbatim>\<open>getUUID\<close>.
\<close>

type_synonym octets = "8 word list"

subsection \<open>Integers in files\<close>

fun le_put :: "nat \<Rightarrow> nat \<Rightarrow> octets" where
  "le_put 0 v = []"
| "le_put (Suc k) v = word_of_nat v # le_put k (v div 256)"

fun le_get :: "octets \<Rightarrow> nat" where
  "le_get [] = 0"
| "le_get (b # bs) = unat b + 256 * le_get bs"

definition put_i32 :: "int \<Rightarrow> octets" where
  "put_i32 x = le_put 4 (nat (x mod 2 ^ 32))"

definition get_i32 :: "octets \<Rightarrow> int" where
  "get_i32 bs = to_i32 (int (le_get bs))"

text \<open>\<open>n\<close> bytes from position \<open>i\<close>.\<close>

definition rd :: "octets \<Rightarrow> nat \<Rightarrow> nat \<Rightarrow> octets outcome" where
  "rd f i n = (if i + n \<le> length f then Inr (take n (drop i f)) else Inl Undefined)"

lemma length_le_put [simp]: "length (le_put k v) = k"
  by (induction k v rule: le_put.induct) simp_all

lemma le_get_put: "le_get (le_put k v) = v mod 256 ^ k"
proof (induction k v rule: le_put.induct)
  case (2 k v)
  have "unat (word_of_nat v :: 8 word) = v mod 256" by (simp add: unat_of_nat)
  then show ?case using 2 by (simp add: mod_mult2_eq)
qed simp

lemma le_get_put_id: "v < 256 ^ k \<Longrightarrow> le_get (le_put k v) = v"
  by (simp add: le_get_put)

lemma length_put_i32 [simp]: "length (put_i32 x) = 4"
  by (simp add: put_i32_def)

lemma get_put_i32: "- (2 ^ 31) \<le> x \<Longrightarrow> x < 2 ^ 31 \<Longrightarrow> get_i32 (put_i32 x) = x"
proof -
  assume x: "- (2 ^ 31) \<le> x" "x < 2 ^ 31"
  have "nat (x mod 2 ^ 32) < 256 ^ 4" by simp
  then have "int (le_get (put_i32 x)) = x mod 2 ^ 32" by (simp add: put_i32_def le_get_put_id)
  then show ?thesis using x unfolding get_i32_def to_i32_def by (simp add: mod_add_left_eq mod_pos_pos_trivial)
qed

lemma rd_append: "i = length a \<Longrightarrow> n = length b \<Longrightarrow> rd (a @ b @ c) i n = Inr b"
  by (simp add: rd_def)

subsection \<open>State\<close>

datatype location = Owned octets | Mapped nat

record param =
  pm_store_name :: octets
  pm_view :: view
  pm_loc :: location

record pfile =
  pf_version :: int
  pf_mapped :: "octets option"
  pf_data :: "(octets, param) symtab"

definition pf_create :: "int \<Rightarrow> pfile" where
  "pf_create v = \<lparr>pf_version = v, pf_mapped = None, pf_data = []\<rparr>"

definition setMappedFile :: "octets \<Rightarrow> pfile \<Rightarrow> pfile" where
  "setMappedFile f p = p\<lparr>pf_mapped := Some f\<rparr>"

definition pf_push :: "octets \<Rightarrow> param \<Rightarrow> pfile \<Rightarrow> pfile outcome" where
  "pf_push name t p =
     (if st_has (pf_data p) name then Inl (Exit kIOError)
      else obind (st_reg (pf_data p) name t) (\<lambda>d. Inr (p\<lparr>pf_data := d\<rparr>)))"

definition pf_pull :: "octets \<Rightarrow> pfile \<Rightarrow> param outcome" where
  "pf_pull name p = (if \<not> st_has (pf_data p) name then Inl (Exit kIOError) else st_get (pf_data p) name)"

definition pf_has :: "octets \<Rightarrow> pfile \<Rightarrow> bool" where
  "pf_has name p = st_has (pf_data p) name"

definition pf_remove :: "octets \<Rightarrow> pfile \<Rightarrow> pfile" where
  "pf_remove name p = p\<lparr>pf_data := st_remove (pf_data p) name\<rparr>"

text \<open>\<^verbatim>\<open>Tensor::bytes\<close> is the size of the storage; the bytes of a parameter start at its pointer.\<close>

definition pm_bytes :: "param \<Rightarrow> nat" where
  "pm_bytes t = nat (ts_size (v_store (pm_view t)))"

definition pm_content :: "octets option \<Rightarrow> param \<Rightarrow> octets outcome" where
  "pm_content m t =
     (case pm_loc t of
        Owned b \<Rightarrow> rd b 0 (pm_bytes t)
      | Mapped i \<Rightarrow> (case m of None \<Rightarrow> Inl Undefined | Some f \<Rightarrow> rd f i (pm_bytes t)))"

definition dtype_cast :: "int \<Rightarrow> dtype outcome" where
  "dtype_cast t = (case dtype_of_tag t of None \<Rightarrow> Inl Undefined | Some d \<Rightarrow> Inr d)"

definition new_tensor :: "int list \<Rightarrow> dtype \<Rightarrow> nat \<Rightarrow> view outcome" where
  "new_tensor shape dt u =
     obind (TensorStorage_create shape dt kCPU u) (\<lambda>s. view_create0 shape s)"

text \<open>
  Memory for a tensor that is read from a stream: \<open>n\<close> bytes from position \<open>i\<close>. More bytes than the tensor
  has are written past its end.
\<close>

definition load_owned :: "octets \<Rightarrow> nat \<Rightarrow> nat \<Rightarrow> view \<Rightarrow> location outcome" where
  "load_owned f i n v =
     (if int n > ts_size (v_store v) then Inl Undefined else obind (rd f i n) (\<lambda>b. Inr (Owned b)))"

subsection \<open>Version 1\<close>

definition V1_MAGIC :: int where "V1_MAGIC = 20012"

text \<open>Name, number of bytes, position, type tag.\<close>

record desc1 =
  d1_name :: octets
  d1_len :: nat
  d1_offset :: nat
  d1_dtype :: int

definition read_desc1 :: "octets \<Rightarrow> nat \<Rightarrow> (desc1 \<times> nat) outcome" where
  "read_desc1 f i =
     obind (rd f i 4) (\<lambda>n.
     obind (if get_i32 n < 0 then Inl (Throw ''length_error'') else rd f (i + 4) (nat (get_i32 n))) (\<lambda>name.
     let j = i + 4 + nat (get_i32 n)
     in obind (rd f j 8) (\<lambda>len. obind (rd f (j + 8) 8) (\<lambda>off. obind (rd f (j + 16) 4) (\<lambda>dt.
          Inr (\<lparr>d1_name = name, d1_len = le_get len, d1_offset = le_get off, d1_dtype = get_i32 dt\<rparr>, j + 20))))))"

lemma read_desc1_moves: "read_desc1 f i = Inr (d, j) \<Longrightarrow> i < j"
  by (auto simp: read_desc1_def Let_def obind_Inr_iff split: if_splits)

function read_descs1 :: "octets \<Rightarrow> nat \<Rightarrow> nat \<Rightarrow> desc1 list outcome" where
  "read_descs1 f i end_pos =
     (if i < end_pos then
        (case read_desc1 f i of
           Inl e \<Rightarrow> Inl e
         | Inr (d, j) \<Rightarrow> obind (read_descs1 f j end_pos) (\<lambda>ds. Inr (d # ds)))
      else Inr [])"
  by pat_completeness auto
termination
  by (relation "measure (\<lambda>(f, i, end_pos). end_pos - i)") (auto dest!: read_desc1_moves)

declare read_descs1.simps [simp del]

definition load1 :: "bool \<Rightarrow> octets \<Rightarrow> desc1 \<Rightarrow> nat \<Rightarrow> param outcome" where
  "load1 use_mmap f d u =
     obind (dtype_cast (d1_dtype d)) (\<lambda>dt.
     let shape = [to_i32 (u64 (int (d1_len d div bytesOfType dt * lanesOfType dt)))]
     in obind (new_tensor shape dt u) (\<lambda>v.
        obind (if use_mmap then Inr (Mapped (d1_offset d)) else load_owned f (d1_offset d) (d1_len d) v) (\<lambda>l.
        Inr \<lparr>pm_store_name = d1_name d, pm_view = v, pm_loc = l\<rparr>)))"

text \<open>The parameters in turn: \<open>parse\<close> gets the description from \<open>e\<close>.\<close>

fun load_all :: "('e \<Rightarrow> 'd outcome) \<Rightarrow> ('d \<Rightarrow> octets) \<Rightarrow> ('d \<Rightarrow> nat \<Rightarrow> param outcome) \<Rightarrow> 'e list \<Rightarrow> nat \<Rightarrow>
    pfile \<Rightarrow> pfile outcome" where
  "load_all parse name load [] u p = Inr p"
| "load_all parse name load (e # es) u p =
     obind (parse e) (\<lambda>d. obind (load d u) (\<lambda>t. obind (pf_push (name d) t p) (\<lambda>p'.
       load_all parse name load es (u + 1) p')))"

definition read_v1 :: "bool \<Rightarrow> octets \<Rightarrow> nat \<Rightarrow> pfile outcome" where
  "read_v1 use_mmap f u =
     obind (rd f 0 12) (\<lambda>h.
     obind (rt_assert (get_i32 (take 4 h) = V1_MAGIC)) (\<lambda>_.
     let n = le_get (drop 4 h)
     in obind (read_descs1 (if use_mmap then f else take (12 + n) f) 12 (12 + n)) (\<lambda>ds.
        load_all Inr d1_name (load1 use_mmap f) ds u
          (if use_mmap then setMappedFile f (pf_create 1) else pf_create 1))))"

definition desc1_size :: "octets \<Rightarrow> nat" where
  "desc1_size name = 4 + length name + 8 + 8 + 4"

fun write_descs1 :: "(octets \<times> param) list \<Rightarrow> nat \<Rightarrow> octets" where
  "write_descs1 [] off = []"
| "write_descs1 ((name, t) # ps) off =
     le_put 4 (length name) @ take (length name mod 2 ^ 32) name @ le_put 8 (pm_bytes t) @ le_put 8 off @
     put_i32 (dtype_tag (v_dtype (pm_view t))) @ write_descs1 ps (off + pm_bytes t)"

definition write_v1 :: "bool \<Rightarrow> pfile \<Rightarrow> octets outcome" where
  "write_v1 is_open p =
     (if \<not> is_open then Inl (Exit kIOError)
      else
        (let total = (\<Sum>(name, t)\<leftarrow>pf_data p. desc1_size (pm_store_name t))
         in obind (omap (\<lambda>(name, t). pm_content (pf_mapped p) t) (pf_data p)) (\<lambda>datas.
            Inr (put_i32 V1_MAGIC @ le_put 8 total @ write_descs1 (pf_data p) (12 + total) @ concat datas))))"

subsection \<open>Version 2\<close>

definition V2_MAGIC :: int where "V2_MAGIC = 0x519A"
definition V2_VERSION :: int where "V2_VERSION = 2"
definition V2_NAME :: nat where "V2_NAME = 256"
definition V2_SHAPE :: nat where "V2_SHAPE = 16"

definition header2_size :: nat where "header2_size = 532"
definition desc2_size :: nat where "desc2_size = 352"

record desc2 =
  d2_id :: nat
  d2_type :: int
  d2_size :: nat
  d2_offset :: nat
  d2_rank :: nat
  d2_shape :: "int list"
  d2_name :: octets

text \<open>A field of a packed structure; \<^verbatim>\<open>_param_name_view\<close> ends at the first zero byte.\<close>

definition field :: "octets \<Rightarrow> nat \<Rightarrow> nat \<Rightarrow> octets" where
  "field b i n = take n (drop i b)"

definition parse_desc2 :: "octets \<Rightarrow> desc2" where
  "parse_desc2 b =
     \<lparr>d2_id = le_get (field b 0 4), d2_type = get_i32 (field b 4 4), d2_size = le_get (field b 8 8),
      d2_offset = le_get (field b 16 8), d2_rank = le_get (field b 24 8),
      d2_shape = map (\<lambda>j. get_i32 (field b (32 + 4 * j) 4)) [0..<V2_SHAPE],
      d2_name = takeWhile (\<lambda>c. c \<noteq> 0) (field b 96 V2_NAME)\<rparr>"

definition load2 :: "bool \<Rightarrow> octets \<Rightarrow> desc2 \<Rightarrow> nat \<Rightarrow> param outcome" where
  "load2 use_mmap f d u =
     obind (rt_assert (d2_rank d \<le> V2_SHAPE)) (\<lambda>_.
     obind (dtype_cast (d2_type d)) (\<lambda>dt.
     obind (new_tensor (take (d2_rank d) (d2_shape d)) dt u) (\<lambda>v.
     obind (if use_mmap then Inr (Mapped (d2_offset d)) else load_owned f (d2_offset d) (d2_size d) v) (\<lambda>l.
     obind (rt_assert (int (d2_size d) \<ge> ts_size (v_store v))) (\<lambda>_.
     Inr \<lparr>pm_store_name = d2_name d, pm_view = v, pm_loc = l\<rparr>)))))"

definition rd_desc2 :: "octets \<Rightarrow> nat \<Rightarrow> nat \<Rightarrow> desc2 outcome" where
  "rd_desc2 f base i = obind (rd f (base + i * desc2_size) desc2_size) (\<lambda>b. Inr (parse_desc2 b))"

definition read_v2 :: "bool \<Rightarrow> octets \<Rightarrow> nat \<Rightarrow> pfile outcome" where
  "read_v2 use_mmap f u =
     obind (rd f 0 header2_size) (\<lambda>h.
     obind (rt_assert (get_i32 (field h 0 4) = V2_MAGIC)) (\<lambda>_.
     obind (rt_assert (get_i32 (field h 4 4) = V2_VERSION)) (\<lambda>_.
     let n = le_get (field h 520 4); base = le_get (field h 524 8)
     in if use_mmap then load_all (rd_desc2 f base) d2_name (load2 True f) [0..<n] u (setMappedFile f (pf_create 2))
        else obind (omap (rd_desc2 f base) [0..<n]) (\<lambda>ds. load_all Inr d2_name (load2 False f) ds u (pf_create 2)))))"

text \<open>
  \<open>cname\<close> is the name up to its first zero byte, as \<^verbatim>\<open>strncpy\<close> copies it. The number of a parameter is a
  difference of pointers to parts of larger objects: \<open>step\<close> times the index.
\<close>

definition cname :: "octets \<Rightarrow> octets" where
  "cname name = takeWhile (\<lambda>c. c \<noteq> 0) name"

definition pad_to :: "nat \<Rightarrow> octets \<Rightarrow> octets" where
  "pad_to n b = take n b @ replicate (n - length b) 0"

definition write_desc2 :: "nat \<Rightarrow> octets \<Rightarrow> param \<Rightarrow> nat \<Rightarrow> octets" where
  "write_desc2 pid name t off =
     le_put 4 pid @ put_i32 (dtype_tag (v_dtype (pm_view t))) @ le_put 8 (pm_bytes t) @ le_put 8 off @
     le_put 8 (length (v_shape (pm_view t))) @
     pad_to 64 (concat (map put_i32 (take V2_SHAPE (v_shape (pm_view t))))) @
     pad_to 255 (cname name) @ [0]"

fun write_descs2 :: "nat \<Rightarrow> (octets \<times> param) list \<Rightarrow> nat \<Rightarrow> nat \<Rightarrow> octets" where
  "write_descs2 step [] i off = []"
| "write_descs2 step ((name, t) # ps) i off =
     write_desc2 (step * i) name t off @ write_descs2 step ps (i + 1) (off + pm_bytes t)"

definition write_v2 :: "nat \<Rightarrow> bool \<Rightarrow> pfile \<Rightarrow> octets outcome" where
  "write_v2 step is_open p =
     (if \<not> is_open then Inl (Exit kIOError)
      else
        (let n = length (pf_data p)
         in obind (omap (\<lambda>(name, t). pm_content (pf_mapped p) t) (pf_data p)) (\<lambda>datas.
            Inr (put_i32 V2_MAGIC @ put_i32 V2_VERSION @ replicate 512 0 @ le_put 4 n @ le_put 8 header2_size @
                 write_descs2 step (pf_data p) 0 (header2_size + n * desc2_size) @ concat datas))))"

subsection \<open>Reading what was written\<close>

text \<open>What a program sees of a parameter: its name, shape, type and bytes.\<close>

definition seen :: "octets option \<Rightarrow> octets \<times> param \<Rightarrow> octets \<times> int list \<times> dtype \<times> octets outcome" where
  "seen m = (\<lambda>(name, t). (name, v_shape (pm_view t), v_dtype (pm_view t), pm_content m t))"

definition whole_tensor :: "view \<Rightarrow> bool" where
  "whole_tensor v \<longleftrightarrow> shape_ok (v_shape v) \<and> (\<exists>u. new_tensor (v_shape v) (v_dtype v) u = Inr v)"

lemma new_tensor_uuid:
  "new_tensor sh dt u0 = Inr v \<Longrightarrow> new_tensor sh dt u = Inr (v\<lparr>v_store := (v_store v)\<lparr>ts_uuid := u\<rparr>\<rparr>)"
  by (auto simp: new_tensor_def obind_Inr_iff TensorStorage_create_def Let_def
      rt_assert_def view_create0_def view_create_def split: if_splits)

lemma new_tensor_again:
  "whole_tensor v \<Longrightarrow> new_tensor (v_shape v) (v_dtype v) u = Inr (v\<lparr>v_store := (v_store v)\<lparr>ts_uuid := u\<rparr>\<rparr>)"
  by (auto simp: whole_tensor_def dest: new_tensor_uuid)

lemma tag_range: "0 \<le> dtype_tag d \<and> dtype_tag d < 2 ^ 31"
proof -
  have "\<forall>t \<in> snd ` set dtype_tags. 0 \<le> t \<and> t < 2 ^ 31" by (simp add: dtype_tags_def)
  then show ?thesis using dtype_tag_entry [of d] by force
qed

lemma tag_read: "dtype_cast (get_i32 (put_i32 (dtype_tag d))) = Inr d"
  using tag_range [of d] dtype_of_tag_iff [of "dtype_tag d" d]
  by (simp add: get_put_i32 dtype_cast_def)

lemma rd_middle: "length a = i \<Longrightarrow> length b = n \<Longrightarrow> f = a @ b @ c \<Longrightarrow> rd f i n = Inr b"
  by (simp add: rd_append)

text \<open>The bytes of a parameter lie after those of the parameters before it.\<close>

lemma rd_data:
  "list_all2 (\<lambda>t d. length d = sz t) ts datas \<Longrightarrow> k < length ts \<Longrightarrow> f = pre @ concat datas @ post \<Longrightarrow>
     rd f (length pre + sum_list (map sz (take k ts))) (sz (ts ! k)) = Inr (datas ! k)"
proof (induction ts datas arbitrary: k pre rule: list_all2_induct)
  case (Cons t ts d datas)
  show ?case
  proof (cases k)
    case 0
    then show ?thesis using Cons.hyps(1) Cons.prems(2) by (auto intro: rd_append)
  next
    case (Suc j)
    then have "rd f (length (pre @ d) + sum_list (map sz (take j ts))) (sz (ts ! j)) = Inr (datas ! j)"
      using Cons.prems by (intro Cons.IH) simp_all
    then show ?thesis using Suc Cons.hyps(1) by (simp add: add.assoc)
  qed
qed simp

text \<open>The fields of a description of version 2.\<close>

lemma take_put_i32s:
  "j < length xs \<Longrightarrow> take 4 (drop (4 * j) (concat (map put_i32 xs) @ z)) = put_i32 (xs ! j)"
proof (induction xs arbitrary: j)
  case (Cons x xs)
  then show ?case by (cases j) simp_all
qed simp

lemma length_put_i32s [simp]: "length (concat (map put_i32 xs)) = 4 * length xs"
  by (induction xs) simp_all

lemma length_pad_to [simp]: "length (pad_to n b) = n"
  by (simp add: pad_to_def)

lemma length_write_desc2 [simp]: "length (write_desc2 pid name t off) = desc2_size"
  by (simp add: write_desc2_def desc2_size_def)

definition name_fits :: "octets \<Rightarrow> bool" where
  "name_fits name \<longleftrightarrow> length name \<le> 255 \<and> 0 \<notin> set name"

lemma name_read: "name_fits name \<Longrightarrow> takeWhile (\<lambda>c. c \<noteq> 0) (pad_to 255 (cname name) @ [0]) = name"
proof -
  assume n: "name_fits name"
  then have c: "cname name = name" by (auto simp: cname_def name_fits_def takeWhile_eq_all_conv)
  have "takeWhile (\<lambda>c. c \<noteq> 0) (name @ replicate k 0 @ [0]) = name" for k
    using n by (subst takeWhile_append2) (auto simp: name_fits_def, cases k, auto)
  then show ?thesis using n by (simp add: c pad_to_def name_fits_def)
qed

lemma parse_write_desc2:
  fixes t pid off name
  defines "d \<equiv> parse_desc2 (write_desc2 pid name t off)"
  assumes "name_fits name" "shape_ok (v_shape (pm_view t))" "pm_bytes t < 2 ^ 64" "off < 2 ^ 64"
  shows "d2_name d = name" "dtype_cast (d2_type d) = Inr (v_dtype (pm_view t))" "d2_size d = pm_bytes t"
    "d2_offset d = off" "d2_rank d = length (v_shape (pm_view t))"
    "take (d2_rank d) (d2_shape d) = v_shape (pm_view t)"
proof -
  let ?sh = "v_shape (pm_view t)"
  have r: "length ?sh \<le> 16" using assms(3) by (simp add: shape_ok_def max_rank_def)
  have pow: "(256 :: nat) ^ 8 = 2 ^ 64" by simp
  note w = parse_desc2_def write_desc2_def field_def V2_NAME_def V2_SHAPE_def
  show "d2_name d = name" using name_read [OF assms(2)] by (simp add: d_def w)
  show "dtype_cast (d2_type d) = Inr (v_dtype (pm_view t))" by (simp add: d_def w tag_read)
  show "d2_size d = pm_bytes t" "d2_offset d = off" using assms(4,5) by (simp_all add: d_def w le_get_put)
  show rank: "d2_rank d = length ?sh" using r by (simp add: d_def w le_get_put)
  have "get_i32 (take 4 (drop (4 * j) (pad_to 64 (concat (map put_i32 ?sh))))) = ?sh ! j" if "j < length ?sh" for j
  proof -
    have "0 < ?sh ! j \<and> ?sh ! j < 2 ^ 31"
    proof
      show "0 < ?sh ! j" using that assms(3) by (simp add: shape_ok_def)
      have "?sh ! j dvd prod_list ?sh" using that by (simp add: prod_list_dvd)
      with assms(3) show "?sh ! j < 2 ^ 31"
        using zdvd_imp_le shape_ok_total by fastforce
    qed
    moreover have "take 4 (drop (4 * j) (pad_to 64 (concat (map put_i32 ?sh)))) = put_i32 (?sh ! j)"
    proof -
      have "pad_to 64 (concat (map put_i32 ?sh)) = concat (map put_i32 ?sh) @ replicate (64 - 4 * length ?sh) 0"
        using r by (simp add: pad_to_def)
      then show ?thesis by (simp only: take_put_i32s [OF that])
    qed
    ultimately show ?thesis by (simp add: get_put_i32)
  qed
  moreover have "d2_shape d ! j = get_i32 (take 4 (drop (4 * j) (pad_to 64 (concat (map put_i32 ?sh)))))" if "j < 16" for j
  proof -
    obtain a c where "write_desc2 pid name t off = a @ pad_to 64 (concat (map put_i32 ?sh)) @ c" "length a = 32"
    proof
      show "write_desc2 pid name t off =
          (le_put 4 pid @ put_i32 (dtype_tag (v_dtype (pm_view t))) @ le_put 8 (pm_bytes t) @ le_put 8 off @
           le_put 8 (length ?sh)) @ pad_to 64 (concat (map put_i32 ?sh)) @ pad_to 255 (cname name) @ [0]"
        using r by (simp add: write_desc2_def V2_SHAPE_def)
    qed simp
    with that show ?thesis by (simp add: d_def parse_desc2_def field_def V2_SHAPE_def)
  qed
  moreover have "length (d2_shape d) = 16" by (simp add: d_def parse_desc2_def V2_SHAPE_def)
  ultimately show "take (d2_rank d) (d2_shape d) = ?sh"
    using r rank by (intro nth_equalityI) simp_all
qed

lemma rd_write_descs2:
  "k < length ps \<Longrightarrow> f = pre @ write_descs2 step ps i off @ post \<Longrightarrow> length pre = base + i * desc2_size \<Longrightarrow>
     rd f (base + (i + k) * desc2_size) desc2_size =
     Inr (write_desc2 (step * (i + k)) (fst (ps ! k)) (snd (ps ! k)) (off + sum_list (map (\<lambda>x. pm_bytes (snd x)) (take k ps))))"
proof (induction ps arbitrary: k i off pre)
  case (Cons nt ps)
  obtain name t where nt: "nt = (name, t)" by force
  show ?case
  proof (cases k)
    case 0
    then show ?thesis using Cons.prems by (simp add: nt rd_append)
  next
    case (Suc j)
    have "rd f (base + (Suc i + j) * desc2_size) desc2_size =
        Inr (write_desc2 (step * (Suc i + j)) (fst (ps ! j)) (snd (ps ! j))
          (off + pm_bytes t + sum_list (map (\<lambda>x. pm_bytes (snd x)) (take j ps))))"
      using Cons.prems Suc
      by (intro Cons.IH [of j "pre @ write_desc2 (step * i) name t off"]) (simp_all add: nt)
    then show ?thesis by (simp add: Suc nt add.assoc)
  qed
qed simp

lemma load_all_items:
  assumes "list_all2 (\<lambda>e x. \<exists>d. parse e = Inr d \<and> name d = fst x \<and>
      (\<forall>u. \<exists>t. load d u = Inr t \<and> seen m (fst x, t) = x)) es items"
    and "distinct (map fst items)" "\<forall>x \<in> set items. \<not> st_has (pf_data p) (fst x)"
  shows "\<exists>new p'. load_all parse name load es u p = Inr p' \<and> pf_mapped p' = pf_mapped p \<and> pf_version p' = pf_version p \<and>
    pf_data p' = rev new @ pf_data p \<and> map (seen m) new = items"
  using assms
proof (induction es items arbitrary: u p rule: list_all2_induct)
  case (Cons e es x items)
  from Cons.hyps obtain d t where d: "parse e = Inr d" "name d = fst x" "load d u = Inr t" "seen m (fst x, t) = x"
    by blast
  define p1 where "p1 = p\<lparr>pf_data := (fst x, t) # pf_data p\<rparr>"
  have push: "pf_push (fst x) t p = Inr p1"
    using Cons.prems(2) by (simp add: pf_push_def st_reg_def p1_def)
  have "\<forall>y \<in> set items. \<not> st_has (pf_data p1) (fst y)"
  proof
    fix y
    assume "y \<in> set items"
    then have "fst y \<in> set (map fst items)" "\<not> st_has (pf_data p) (fst y)" using Cons.prems(2) by auto
    moreover from this(1) have "fst y \<noteq> fst x"
      using Cons.prems(1) unfolding list.map distinct.simps by metis
    ultimately show "\<not> st_has (pf_data p1) (fst y)" by (simp add: p1_def st_has_def)
  qed
  then obtain new p' where n: "load_all parse name load es (u + 1) p1 = Inr p'" "pf_mapped p' = pf_mapped p1"
    "pf_version p' = pf_version p1" "pf_data p' = rev new @ pf_data p1" "map (seen m) new = items"
    using Cons.IH [of p1 "u + 1"] Cons.prems(1) by auto
  then show ?case using d push by (intro exI [of _ "(fst x, t) # new"]) (simp add: p1_def)
qed simp

text \<open>A file that can be written in version 2 without loss.\<close>

definition storable :: "pfile \<Rightarrow> octets list \<Rightarrow> bool" where
  "storable p datas \<longleftrightarrow>
     distinct (map fst (pf_data p)) \<and> omap (\<lambda>(name, t). pm_content (pf_mapped p) t) (pf_data p) = Inr datas \<and>
     (\<forall>(name, t) \<in> set (pf_data p). name_fits name \<and> whole_tensor (pm_view t)) \<and>
     length (pf_data p) < 2 ^ 32 \<and>
     header2_size + length (pf_data p) * desc2_size + sum_list (map (\<lambda>x. pm_bytes (snd x)) (pf_data p)) < 2 ^ 64"

lemma content_length: "pm_content m t = Inr b \<Longrightarrow> length b = pm_bytes t"
  by (auto simp: pm_content_def rd_def split: location.splits option.splits if_splits)

lemma new_tensor_size:
  "new_tensor sh dt u = Inr v \<Longrightarrow>
     ts_size (v_store v) = u64 (numel_of sh div int (lanesOfType dt) * int (bytesOfType dt)) \<and>
     numel_of sh mod int (lanesOfType dt) = 0 \<and> 0 \<le> ts_size (v_store v)"
  by (auto simp: new_tensor_def obind_Inr_iff TensorStorage_create_def Let_def u64_def
      rt_assert_def view_create0_def view_create_def split: if_splits)

lemma whole_size: "whole_tensor v \<Longrightarrow> 0 \<le> ts_size (v_store v)"
  by (auto simp: whole_tensor_def dest: new_tensor_size)

lemma load2_written:
  assumes "whole_tensor (pm_view t)" "dtype_cast (d2_type d) = Inr (v_dtype (pm_view t))" "d2_size d = pm_bytes t"
    "d2_rank d = length (v_shape (pm_view t))" "take (d2_rank d) (d2_shape d) = v_shape (pm_view t)"
    "rd f (d2_offset d) (pm_bytes t) = Inr b" "pm_content m0 t = Inr b"
  shows "\<exists>t'. load2 use_mmap f d u = Inr t' \<and> seen (if use_mmap then Some f else None) (name, t') = seen m0 (name, t)"
proof -
  let ?v = "(pm_view t)\<lparr>v_store := (v_store (pm_view t))\<lparr>ts_uuid := u\<rparr>\<rparr>"
  have r: "d2_rank d \<le> V2_SHAPE"
    using assms(1,4) by (simp add: whole_tensor_def shape_ok_def max_rank_def V2_SHAPE_def)
  have z: "int (pm_bytes t) = ts_size (v_store (pm_view t))" using whole_size [OF assms(1)] by (simp add: pm_bytes_def)
  have n: "new_tensor (take (d2_rank d) (d2_shape d)) (v_dtype (pm_view t)) u = Inr ?v"
    using new_tensor_again [OF assms(1)] assms(5) by simp
  define loc where "loc = (if use_mmap then Mapped (d2_offset d) else Owned b)"
  have l: "(if use_mmap then Inr (Mapped (d2_offset d)) else load_owned f (d2_offset d) (d2_size d) ?v) = Inr loc"
    using assms(3,6) z by (simp add: load_owned_def loc_def)
  have "load2 use_mmap f d u = Inr \<lparr>pm_store_name = d2_name d, pm_view = ?v, pm_loc = loc\<rparr>"
    unfolding load2_def using r assms(2,3) n l z by simp
  moreover have "length b = pm_bytes t" using assms(7) by (rule content_length)
  ultimately show ?thesis
    using assms(6,7) by (auto simp: seen_def loc_def pm_content_def pm_bytes_def v_dtype_def rd_def)
qed

definition header2 :: "nat \<Rightarrow> octets" where
  "header2 n = put_i32 V2_MAGIC @ put_i32 V2_VERSION @ replicate 512 0 @ le_put 4 n @ le_put 8 header2_size"

lemma length_header2 [simp]: "length (header2 n) = header2_size"
  by (simp add: header2_def header2_size_def)

lemma header2_fields:
  "n < 2 ^ 32 \<Longrightarrow> get_i32 (field (header2 n) 0 4) = V2_MAGIC \<and> get_i32 (field (header2 n) 4 4) = V2_VERSION \<and>
     le_get (field (header2 n) 520 4) = n \<and> le_get (field (header2 n) 524 8) = header2_size"
  by (simp add: header2_def field_def get_put_i32 le_get_put V2_MAGIC_def V2_VERSION_def header2_size_def)

lemma length_write_descs2 [simp]: "length (write_descs2 step ps i off) = length ps * desc2_size"
  by (induction ps arbitrary: i off) auto

text \<open>The description at each index of a written file leads to the parameter at that index.\<close>

lemma written_desc2:
  assumes "storable p datas" "k < length (pf_data p)"
    and "f = header2 (length (pf_data p)) @
      write_descs2 step (pf_data p) 0 (header2_size + length (pf_data p) * desc2_size) @ concat datas"
  shows "\<exists>d. rd_desc2 f header2_size k = Inr d \<and> d2_name d = fst (pf_data p ! k) \<and>
    (\<forall>u. \<exists>t. load2 use_mmap f d u = Inr t \<and>
      seen (if use_mmap then Some f else None) (fst (pf_data p ! k), t) = seen (pf_mapped p) (pf_data p ! k))"
proof -
  let ?ps = "pf_data p" and ?n = "length (pf_data p)"
  obtain name t where nt: "?ps ! k = (name, t)" by force
  define off where "off = header2_size + ?n * desc2_size + sum_list (map (\<lambda>x. pm_bytes (snd x)) (take k ?ps))"
  define d where "d = parse_desc2 (write_desc2 (step * k) name t off)"
  have mem: "(name, t) \<in> set ?ps" using assms(2) nt by (metis nth_mem)
  then have ok: "name_fits name" "whole_tensor (pm_view t)" using assms(1) by (auto simp: storable_def)
  have datas: "length datas = ?n" "\<forall>i < ?n. pm_content (pf_mapped p) (snd (?ps ! i)) = Inr (datas ! i)"
    using assms(1) by (auto simp: storable_def omap_Inr split_def)
  then have l2: "list_all2 (\<lambda>x b. length b = pm_bytes (snd x)) ?ps datas"
    by (auto simp: list_all2_conv_all_nth intro: content_length)
  have sums: "sum_list (map (\<lambda>x. pm_bytes (snd x)) (take k ?ps)) + pm_bytes t \<le> sum_list (map (\<lambda>x. pm_bytes (snd x)) ?ps)"
  proof -
    have "?ps = take k ?ps @ (name, t) # drop (Suc k) ?ps" using id_take_nth_drop [OF assms(2)] nt by simp
    then have "sum_list (map (\<lambda>x. pm_bytes (snd x)) ?ps) =
        sum_list (map (\<lambda>x. pm_bytes (snd x)) (take k ?ps @ (name, t) # drop (Suc k) ?ps))" by simp
    then show ?thesis by simp
  qed
  then have bounds: "off < 2 ^ 64" "pm_bytes t < 2 ^ 64" using assms(1) unfolding storable_def off_def by linarith+
  have rdd: "rd f (header2_size + k * desc2_size) desc2_size = Inr (write_desc2 (step * k) name t off)"
    using rd_write_descs2 [OF assms(2), of f "header2 ?n" step 0 _ "concat datas" header2_size] assms(3) nt
    by (simp add: off_def)
  have "rd f off (pm_bytes t) = Inr (datas ! k)"
    using rd_data [OF l2 assms(2), of f "header2 ?n @ write_descs2 step ?ps 0 (header2_size + ?n * desc2_size)" "[]"]
      assms(3) nt by (simp add: off_def)
  moreover note parse_write_desc2 [OF ok(1) _ bounds(2,1), of "step * k", folded d_def]
  moreover have "shape_ok (v_shape (pm_view t))" using ok(2) by (simp add: whole_tensor_def)
  moreover have "pm_content (pf_mapped p) t = Inr (datas ! k)" using datas assms(2) nt by auto
  ultimately have "\<exists>t'. load2 use_mmap f d u = Inr t' \<and>
      seen (if use_mmap then Some f else None) (name, t') = seen (pf_mapped p) (name, t)" for u
    by (intro load2_written [OF ok(2)]) simp_all
  moreover have "d2_name d = name"
    using parse_write_desc2(1) [OF ok(1) _ bounds(2,1), of "step * k", folded d_def] ok(2) by (simp add: whole_tensor_def)
  ultimately show ?thesis using rdd nt by (auto simp: rd_desc2_def d_def)
qed

text \<open>
  C24: Reading a file of version 2 that the writer wrote, mapped or not, gives the parameters that were
  written: the same names, shapes, types and bytes. The names have at most 255 bytes and no zero byte,
  and each tensor is a whole storage.
\<close>

theorem v2_roundtrip:
  assumes "storable p datas"
  shows "\<exists>f p'. write_v2 step True p = Inr f \<and> read_v2 use_mmap f u = Inr p' \<and> pf_version p' = 2 \<and>
    map (seen (pf_mapped p')) (rev (pf_data p')) = map (seen (pf_mapped p)) (pf_data p)"
proof -
  let ?ps = "pf_data p" and ?n = "length (pf_data p)"
  define f where "f = header2 ?n @ write_descs2 step ?ps 0 (header2_size + ?n * desc2_size) @ concat datas"
  have w: "write_v2 step True p = Inr f"
    using assms by (simp add: write_v2_def storable_def f_def header2_def Let_def)
  define m where "m = (if use_mmap then Some f else None)"
  define p0 where "p0 = (if use_mmap then setMappedFile f (pf_create 2) else pf_create 2)"
  have p0: "pf_mapped p0 = m" "pf_version p0 = 2" "pf_data p0 = []"
    by (simp_all add: p0_def m_def setMappedFile_def pf_create_def)
  let ?items = "map (seen (pf_mapped p)) ?ps"
  have fst_items: "map fst ?items = map fst ?ps" by (simp add: seen_def split_def)
  then have dis: "distinct (map fst ?items)" "\<forall>x \<in> set ?items. \<not> st_has (pf_data p0) (fst x)"
    unfolding fst_items using assms by (simp_all add: storable_def p0 st_has_def)
  have fk: "fst (seen (pf_mapped p) x) = fst x" for x by (simp add: seen_def split_def)
  have each: "\<exists>d. rd_desc2 f header2_size k = Inr d \<and> d2_name d = fst (?items ! k) \<and>
      (\<forall>u. \<exists>t. load2 use_mmap f d u = Inr t \<and> seen m (fst (?items ! k), t) = ?items ! k)" if "k < ?n" for k
    using written_desc2 [OF assms that f_def, of use_mmap] that by (simp add: m_def fk)
  have h: "rd f 0 header2_size = Inr (header2 ?n)" unfolding f_def by (rule rd_middle [of "[]"]) simp_all
  have n: "?n < 2 ^ 32" using assms by (simp add: storable_def)
  have "\<exists>new p'. read_v2 use_mmap f u = Inr p' \<and> pf_mapped p' = pf_mapped p0 \<and> pf_version p' = pf_version p0 \<and>
      pf_data p' = rev new @ pf_data p0 \<and> map (seen m) new = ?items"
  proof (cases use_mmap)
    case True
    have "list_all2 (\<lambda>e x. \<exists>d. rd_desc2 f header2_size e = Inr d \<and> d2_name d = fst x \<and>
        (\<forall>u. \<exists>t. load2 True f d u = Inr t \<and> seen m (fst x, t) = x)) [0..<?n] ?items"
      using each True by (auto simp: list_all2_conv_all_nth)
    from load_all_items [OF this dis, of u] show ?thesis
      using h header2_fields [OF n] True by (simp add: read_v2_def p0_def Let_def)
  next
    case False
    have "\<forall>k < ?n. \<exists>d. rd_desc2 f header2_size k = Inr d" using each by blast
    then obtain ds where ds: "omap (rd_desc2 f header2_size) [0..<?n] = Inr ds"
      using omap_Inr [of "rd_desc2 f header2_size" "[0..<?n]" "map (\<lambda>k. projr (rd_desc2 f header2_size k)) [0..<?n]"]
      by (force)
    then have "length ds = ?n \<and> (\<forall>k < ?n. rd_desc2 f header2_size k = Inr (ds ! k))" by (simp add: omap_Inr)
    then have "list_all2 (\<lambda>e x. \<exists>d. Inr e = Inr d \<and> d2_name d = fst x \<and>
        (\<forall>u. \<exists>t. load2 False f d u = Inr t \<and> seen m (fst x, t) = x)) ds ?items"
      using each False by (fastforce simp: list_all2_conv_all_nth)
    from load_all_items [OF this dis, of u] show ?thesis
      using h header2_fields [OF n] False ds by (simp add: read_v2_def p0_def Let_def)
  qed
  then obtain new p' where r: "read_v2 use_mmap f u = Inr p'" "pf_mapped p' = m" "pf_version p' = 2"
    "pf_data p' = rev new" "map (seen m) new = ?items" by (auto simp: p0)
  then show ?thesis using w by (intro exI [of _ f] exI [of _ p']) (simp add: r)
qed

text \<open>A tensor of eight bytes, and a file with it.\<close>

definition small_view :: view where
  "small_view = \<lparr>v_shape = [2, 4], v_stride = [4, 1], v_offset = 0,
     v_store = \<lparr>ts_uuid = 0, ts_size = 8, ts_dtype = kUInt8, ts_device = kCPU\<rparr>\<rparr>"

definition small_file :: "octets \<Rightarrow> octets \<Rightarrow> pfile" where
  "small_file name store_name =
     \<lparr>pf_version = 0, pf_mapped = None,
      pf_data = [(name, \<lparr>pm_store_name = store_name, pm_view = small_view, pm_loc = Owned [1, 2, 3, 4, 5, 6, 7, 8]\<rparr>)]\<rparr>"

lemma small_type: "bytesOfType kUInt8 = 1" "lanesOfType kUInt8 = 1"
  by (simp_all add: bytesOfType_def lanesOfType_def sizeof_def info_lanes_def dtype_tables)

lemma small_whole: "whole_tensor small_view"
proof -
  have "new_tensor [2, 4] kUInt8 0 = Inr small_view"
    by (simp add: new_tensor_def TensorStorage_create_def small_type numel_of_def u64_def view_create0_def view_create_def
        max_rank_def view_strides_def i32_def small_view_def)
  then show ?thesis
    by (auto simp: whole_tensor_def shape_ok_def small_view_def max_rank_def v_dtype_def)
qed

lemma small_storable: "storable (small_file [0x77] s) [[1, 2, 3, 4, 5, 6, 7, 8]]"
  using small_whole
  by (simp add: storable_def small_file_def name_fits_def pm_content_def pm_bytes_def rd_def small_view_def
      header2_size_def desc2_size_def)

theorem v2_roundtrip_witness:
  "\<exists>f p'. write_v2 3 True (small_file [0x77] []) = Inr f \<and> read_v2 True f 7 = Inr p' \<and> pf_version p' = 2 \<and>
    map (seen (pf_mapped p')) (rev (pf_data p')) = [([0x77], [2, 4], kUInt8, Inr [1, 2, 3, 4, 5, 6, 7, 8])]"
  using v2_roundtrip [OF small_storable [of "[]"], where step = 3 and use_mmap = True and u = 7]
  by (simp add: small_file_def seen_def pm_content_def pm_bytes_def rd_def small_view_def v_dtype_def)

subsection \<open>Version 1\<close>

fun descs1 :: "(octets \<times> param) list \<Rightarrow> nat \<Rightarrow> desc1 list" where
  "descs1 [] off = []"
| "descs1 ((name, t) # ps) off =
     \<lparr>d1_name = name, d1_len = pm_bytes t, d1_offset = off, d1_dtype = dtype_tag (v_dtype (pm_view t))\<rparr> #
     descs1 ps (off + pm_bytes t)"

lemma read_write_desc1:
  assumes "length name < 2 ^ 31" "pm_bytes t < 2 ^ 64" "off < 2 ^ 64" "length pre = i"
    and "f = pre @ le_put 4 (length name) @ take (length name mod 2 ^ 32) name @ le_put 8 (pm_bytes t) @ le_put 8 off @
      put_i32 (dtype_tag (v_dtype (pm_view t))) @ post"
  shows "read_desc1 f i = Inr (\<lparr>d1_name = name, d1_len = pm_bytes t, d1_offset = off,
    d1_dtype = dtype_tag (v_dtype (pm_view t))\<rparr>, i + desc1_size name)"
proof -
  let ?n = "length name"
  have n: "get_i32 (le_put 4 ?n) = int ?n"
    using assms(1) by (simp add: get_i32_def le_get_put to_i32_id)
  have f: "f = pre @ le_put 4 ?n @ name @ le_put 8 (pm_bytes t) @ le_put 8 off @ put_i32 (dtype_tag (v_dtype (pm_view t))) @ post"
    using assms(1,5) by simp
  have "rd f i 4 = Inr (le_put 4 ?n)" by (rule rd_middle [OF assms(4) _ f]) simp
  moreover have "rd f (i + 4) ?n = Inr name"
    by (rule rd_middle [of "pre @ le_put 4 ?n"]) (simp_all add: f assms(4))
  moreover have "rd f (i + 4 + ?n) 8 = Inr (le_put 8 (pm_bytes t))"
    by (rule rd_middle [of "pre @ le_put 4 ?n @ name"]) (simp_all add: f assms(4))
  moreover have "rd f (i + 4 + ?n + 8) 8 = Inr (le_put 8 off)"
    by (rule rd_middle [of "pre @ le_put 4 ?n @ name @ le_put 8 (pm_bytes t)"]) (simp_all add: f assms(4))
  moreover have "rd f (i + 4 + ?n + 16) 4 = Inr (put_i32 (dtype_tag (v_dtype (pm_view t))))"
    by (rule rd_middle [of "pre @ le_put 4 ?n @ name @ le_put 8 (pm_bytes t) @ le_put 8 off"]) (simp_all add: f assms(4))
  ultimately show ?thesis
    using tag_range [of "v_dtype (pm_view t)"] assms(2,3)
    by (simp add: read_desc1_def n get_put_i32 le_get_put desc1_size_def del: length_append)
qed

lemma read_write_descs1:
  "\<forall>(name, t) \<in> set ps. length name < 2 ^ 31 \<Longrightarrow> off + sum_list (map (\<lambda>x. pm_bytes (snd x)) ps) < 2 ^ 64 \<Longrightarrow>
     length pre = i \<Longrightarrow> f = pre @ write_descs1 ps off @ post \<Longrightarrow>
     read_descs1 f i (i + sum_list (map (\<lambda>x. desc1_size (fst x)) ps)) = Inr (descs1 ps off)"
proof (induction ps arbitrary: off pre i)
  case Nil
  then show ?case by (subst read_descs1.simps) simp
next
  case (Cons nt ps)
  obtain name t where nt: "nt = (name, t)" by force
  define e where "e = le_put 4 (length name) @ take (length name mod 2 ^ 32) name @ le_put 8 (pm_bytes t) @ le_put 8 off @
      put_i32 (dtype_tag (v_dtype (pm_view t)))"
  have f: "f = pre @ e @ write_descs1 ps (off + pm_bytes t) @ post" using Cons.prems(4) by (simp add: nt e_def)
  have "length e = desc1_size name" using Cons.prems(1) by (simp add: nt e_def desc1_size_def)
  then have IH: "read_descs1 f (i + desc1_size name)
      (i + desc1_size name + sum_list (map (\<lambda>x. desc1_size (fst x)) ps)) = Inr (descs1 ps (off + pm_bytes t))"
    using Cons.prems f by (intro Cons.IH [of _ "pre @ e"]) (simp_all add: nt)
  have "read_desc1 f i = Inr (\<lparr>d1_name = name, d1_len = pm_bytes t, d1_offset = off,
      d1_dtype = dtype_tag (v_dtype (pm_view t))\<rparr>, i + desc1_size name)"
    using Cons.prems f by (intro read_write_desc1 [of name t off pre]) (simp_all add: nt e_def)
  moreover have "0 < desc1_size name" by (simp add: desc1_size_def)
  ultimately show ?case using IH by (subst read_descs1.simps) (simp add: nt add.assoc)
qed

text \<open>A whole tensor: its size, and the flat tensor that version 1 makes of it.\<close>

lemma whole_bytes:
  assumes "whole_tensor v"
  shows "ts_size (v_store v) = prod_list (v_shape v) div int (lanesOfType (v_dtype v)) * int (bytesOfType (v_dtype v))"
    "prod_list (v_shape v) mod int (lanesOfType (v_dtype v)) = 0"
    "u64 (prod_list (v_shape v) div int (lanesOfType (v_dtype v)) * int (bytesOfType (v_dtype v))) =
      prod_list (v_shape v) div int (lanesOfType (v_dtype v)) * int (bytesOfType (v_dtype v))"
proof -
  obtain u where u: "new_tensor (v_shape v) (v_dtype v) u = Inr v" and ok: "shape_ok (v_shape v)"
    using assms by (auto simp: whole_tensor_def)
  let ?L = "int (lanesOfType (v_dtype v))" and ?B = "int (bytesOfType (v_dtype v))" and ?P = "prod_list (v_shape v)"
  have P: "0 < ?P" "?P < 2 ^ 31" using shape_ok_total [OF ok] by simp_all
  have "?P div ?L \<le> ?P" "0 \<le> ?P div ?L"
    using P lanes_positive [of "v_dtype v"] zdiv_mono2 [of ?P 1 ?L] by (simp_all add: pos_imp_zdiv_nonneg_iff)
  moreover from this have "?P div ?L * ?B \<le> 2 ^ 31 * 292"
    using P bytes_bound [of "v_dtype v"] by (intro mult_mono) linarith+
  ultimately have "?P div ?L * ?B < 2 ^ 64" "0 \<le> ?P div ?L * ?B" by simp_all
  then show "u64 (?P div ?L * ?B) = ?P div ?L * ?B" by (simp add: u64_id)
  moreover have "ts_size (v_store v) = u64 (numel_of (v_shape v) div ?L * ?B)" "numel_of (v_shape v) mod ?L = 0"
    using new_tensor_size [OF u] by simp_all
  ultimately show "ts_size (v_store v) = ?P div ?L * ?B" "?P mod ?L = 0" by (simp_all add: numel_of_shape_ok [OF ok])
qed

definition seen_flat :: "octets option \<Rightarrow> octets \<times> param \<Rightarrow> octets \<times> int list \<times> dtype \<times> octets outcome" where
  "seen_flat m = (\<lambda>(name, t). (name, [prod_list (v_shape (pm_view t))], v_dtype (pm_view t), pm_content m t))"

lemma load1_written:
  assumes "whole_tensor (pm_view t)" "d1_dtype d = dtype_tag (v_dtype (pm_view t))" "d1_len d = pm_bytes t"
    "rd f (d1_offset d) (pm_bytes t) = Inr b" "pm_content m0 t = Inr b"
  shows "\<exists>t'. load1 use_mmap f d u = Inr t' \<and> seen (if use_mmap then Some f else None) (name, t') = seen_flat m0 (name, t)"
proof -
  let ?dt = "v_dtype (pm_view t)" and ?P = "prod_list (v_shape (pm_view t))"
  let ?L = "int (lanesOfType ?dt)" and ?B = "int (bytesOfType ?dt)"
  note w = whole_bytes [OF assms(1)]
  have P: "0 < ?P" "?P < 2 ^ 31" using shape_ok_total assms(1) by (auto simp: whole_tensor_def)
  have bytes: "int (pm_bytes t) = ?P div ?L * ?B" using w(1) whole_size [OF assms(1)] by (simp add: pm_bytes_def)
  have "int (pm_bytes t div bytesOfType ?dt * lanesOfType ?dt) = ?P div ?L * ?B div ?B * ?L"
    by (simp add: zdiv_int bytes)
  also have "\<dots> = ?P div ?L * ?L" using bytes_positive [of ?dt] by simp
  also have "\<dots> = ?P" using w(2) div_mult_mod_eq [of ?P ?L] by simp
  finally have sh: "to_i32 (u64 (int (d1_len d div bytesOfType ?dt * lanesOfType ?dt))) = ?P"
    using P assms(3) by (simp add: u64_id to_i32_id)
  have cast: "dtype_cast (d1_dtype d) = Inr ?dt" using dtype_of_tag_iff [of "dtype_tag ?dt" ?dt] assms(2) by (simp add: dtype_cast_def)
  define v where "v = \<lparr>v_shape = [?P], v_stride = [1], v_offset = 0,
    v_store = \<lparr>ts_uuid = u, ts_size = int (pm_bytes t), ts_dtype = ?dt, ts_device = kCPU\<rparr>\<rparr>"
  have "shape_ok [?P]" using P by (simp add: shape_ok_def max_rank_def)
  then have new: "new_tensor [?P] ?dt u = Inr v"
    using w(2,3) by (simp add: new_tensor_def TensorStorage_create_def numel_of_shape_ok view_create0_def view_create_total
        v_def bytes)
  define loc where "loc = (if use_mmap then Mapped (d1_offset d) else Owned b)"
  have "(if use_mmap then Inr (Mapped (d1_offset d)) else load_owned f (d1_offset d) (d1_len d) v) = Inr loc"
    using assms(3,4) by (simp add: load_owned_def loc_def v_def)
  then have "load1 use_mmap f d u = Inr \<lparr>pm_store_name = d1_name d, pm_view = v, pm_loc = loc\<rparr>"
    using cast sh new by (simp add: load1_def Let_def)
  moreover have "length b = pm_bytes t" using assms(5) by (rule content_length)
  ultimately show ?thesis
    using assms(4,5) by (auto simp: seen_def seen_flat_def loc_def pm_content_def pm_bytes_def v_def v_dtype_def rd_def)
qed

text \<open>A file that version 1 can write: every storage has the name of its parameter.\<close>

definition storable1 :: "pfile \<Rightarrow> octets list \<Rightarrow> bool" where
  "storable1 p datas \<longleftrightarrow>
     distinct (map fst (pf_data p)) \<and> omap (\<lambda>(name, t). pm_content (pf_mapped p) t) (pf_data p) = Inr datas \<and>
     (\<forall>(name, t) \<in> set (pf_data p). length name < 2 ^ 31 \<and> whole_tensor (pm_view t) \<and> pm_store_name t = name) \<and>
     12 + sum_list (map (\<lambda>x. desc1_size (fst x)) (pf_data p)) + sum_list (map (\<lambda>x. pm_bytes (snd x)) (pf_data p)) < 2 ^ 64"

lemma length_descs1 [simp]: "length (descs1 ps off) = length ps"
  by (induction ps off rule: descs1.induct) simp_all

lemma nth_descs1:
  "k < length ps \<Longrightarrow> descs1 ps off ! k = \<lparr>d1_name = fst (ps ! k), d1_len = pm_bytes (snd (ps ! k)),
     d1_offset = off + sum_list (map (\<lambda>x. pm_bytes (snd x)) (take k ps)),
     d1_dtype = dtype_tag (v_dtype (pm_view (snd (ps ! k))))\<rparr>"
  by (induction ps off arbitrary: k rule: descs1.induct) (auto simp: nth_Cons' take_Cons' add.assoc)

lemma length_write_descs1:
  "\<forall>(name, t) \<in> set ps. length name < 2 ^ 31 \<Longrightarrow>
     length (write_descs1 ps off) = sum_list (map (\<lambda>x. desc1_size (fst x)) ps)"
  by (induction ps off rule: write_descs1.induct) (auto simp: desc1_size_def)

text \<open>
  C29: Reading a file of version 1 that the writer wrote, mapped or not, gives the parameters that were
  written with their names, types and bytes; their shapes become flat. Every storage must have the name
  of its parameter.
\<close>

theorem v1_roundtrip:
  assumes "storable1 p datas"
  shows "\<exists>f p'. write_v1 True p = Inr f \<and> read_v1 use_mmap f u = Inr p' \<and> pf_version p' = 1 \<and>
    map (seen (pf_mapped p')) (rev (pf_data p')) = map (seen_flat (pf_mapped p)) (pf_data p)"
proof -
  let ?ps = "pf_data p"
  define total where "total = sum_list (map (\<lambda>x. desc1_size (fst x)) ?ps)"
  define D where "D = write_descs1 ?ps (12 + total)"
  define f where "f = (put_i32 V1_MAGIC @ le_put 8 total) @ D @ concat datas"
  have names: "\<forall>(name, t) \<in> set ?ps. length name < 2 ^ 31" using assms by (auto simp: storable1_def)
  have "(\<Sum>(name, t)\<leftarrow>?ps. desc1_size (pm_store_name t)) = total"
    unfolding total_def using assms by (intro arg_cong [where f = sum_list] map_cong) (auto simp: storable1_def)
  then have w: "write_v1 True p = Inr f"
    using assms by (simp add: write_v1_def storable1_def f_def D_def)
  have lenD: "length D = total" unfolding D_def total_def by (rule length_write_descs1 [OF names])
  have big: "12 + total + sum_list (map (\<lambda>x. pm_bytes (snd x)) ?ps) < 2 ^ 64" using assms by (simp add: storable1_def total_def)
  have h: "rd f 0 12 = Inr (put_i32 V1_MAGIC @ le_put 8 total)" unfolding f_def by (rule rd_middle [of "[]"]) simp_all
  have magic: "get_i32 (put_i32 V1_MAGIC) = V1_MAGIC" by (simp add: get_put_i32 V1_MAGIC_def)
  have n: "le_get (le_put 8 total) = total" using big by (simp add: le_get_put)
  have ds: "read_descs1 (if use_mmap then f else take (12 + total) f) 12 (12 + total) = Inr (descs1 ?ps (12 + total))"
  proof -
    have "(if use_mmap then f else take (12 + total) f) =
        (put_i32 V1_MAGIC @ le_put 8 total) @ D @ (if use_mmap then concat datas else [])"
      using lenD by (simp add: f_def)
    from read_write_descs1 [OF names _ _ this [unfolded D_def], of 12] big show ?thesis by (simp add: total_def)
  qed
  define m where "m = (if use_mmap then Some f else None)"
  define p0 where "p0 = (if use_mmap then setMappedFile f (pf_create 1) else pf_create 1)"
  have p0: "pf_mapped p0 = m" "pf_version p0 = 1" "pf_data p0 = []"
    by (simp_all add: p0_def m_def setMappedFile_def pf_create_def)
  let ?items = "map (seen_flat (pf_mapped p)) ?ps"
  have fk: "fst (seen_flat (pf_mapped p) x) = fst x" for x by (simp add: seen_flat_def split_def)
  have fst_items: "map fst ?items = map fst ?ps" by (simp add: seen_flat_def split_def)
  have dis: "distinct (map fst ?items)" "\<forall>x \<in> set ?items. \<not> st_has (pf_data p0) (fst x)"
    unfolding fst_items using assms by (simp_all add: storable1_def p0 st_has_def)
  have conts: "length datas = length ?ps" "\<forall>i < length ?ps. pm_content (pf_mapped p) (snd (?ps ! i)) = Inr (datas ! i)"
    using assms by (auto simp: storable1_def omap_Inr split_def)
  then have l2: "list_all2 (\<lambda>x b. length b = pm_bytes (snd x)) ?ps datas"
    by (auto simp: list_all2_conv_all_nth intro: content_length)
  have each: "\<exists>t. load1 use_mmap f (descs1 ?ps (12 + total) ! k) v = Inr t \<and> seen m (fst (?ps ! k), t) = ?items ! k"
    if k: "k < length ?ps" for k v
  proof -
    obtain name t where nt: "?ps ! k = (name, t)" by force
    have "(name, t) \<in> set ?ps" using k nt by (metis nth_mem)
    then have wt: "whole_tensor (pm_view t)" using assms by (auto simp: storable1_def)
    have c: "pm_content (pf_mapped p) t = Inr (datas ! k)" using conts(2) k nt by auto
    have "rd f (d1_offset (descs1 ?ps (12 + total) ! k)) (pm_bytes t) = Inr (datas ! k)"
      using rd_data [OF l2 k, of f "put_i32 V1_MAGIC @ le_put 8 total @ D" "[]"] lenD nt
      by (simp add: f_def add.assoc nth_descs1 [OF k])
    from load1_written [OF wt _ _ this c, of use_mmap v name] show ?thesis
      using k by (simp add: nth_descs1 [OF k] nt m_def)
  qed
  have "list_all2 (\<lambda>e x. \<exists>d. Inr e = Inr d \<and> d1_name d = fst x \<and>
      (\<forall>u. \<exists>t. load1 use_mmap f d u = Inr t \<and> seen m (fst x, t) = x)) (descs1 ?ps (12 + total)) ?items"
    unfolding list_all2_conv_all_nth using each by (auto simp: nth_descs1 fk)
  from load_all_items [OF this dis, of u] obtain new p' where
    "load_all Inr d1_name (load1 use_mmap f) (descs1 ?ps (12 + total)) u p0 = Inr p'" "pf_mapped p' = m"
    "pf_version p' = 1" "pf_data p' = rev new" "map (seen m) new = ?items" by (auto simp: p0)
  moreover have "read_v1 use_mmap f u = load_all Inr d1_name (load1 use_mmap f) (descs1 ?ps (12 + total)) u p0"
    using ds by (cases use_mmap) (simp_all add: read_v1_def Let_def p0_def h magic n)
  ultimately show ?thesis using w by (intro exI [of _ f] exI [of _ p']) simp
qed

theorem v1_roundtrip_witness:
  "\<exists>f p'. write_v1 True (small_file [0x77] [0x77]) = Inr f \<and> read_v1 False f 7 = Inr p' \<and> pf_version p' = 1 \<and>
    map (seen (pf_mapped p')) (rev (pf_data p')) = [([0x77], [8], kUInt8, Inr [1, 2, 3, 4, 5, 6, 7, 8])]"
proof -
  have "storable1 (small_file [0x77] [0x77]) [[1, 2, 3, 4, 5, 6, 7, 8]]"
    using small_whole
    by (simp add: storable1_def small_file_def pm_content_def pm_bytes_def rd_def small_view_def desc1_size_def)
  from v1_roundtrip [OF this, where use_mmap = False and u = 7] show ?thesis
    by (simp add: small_file_def seen_flat_def pm_content_def pm_bytes_def rd_def small_view_def v_dtype_def)
qed

text \<open>
  When the storage of a tensor has another name than the parameter, the descriptions are longer than
  the header says, and the bytes that are read back are shifted: here by the one byte of the name.
\<close>

theorem v1_unnamed_storage:
  "\<exists>f p'. write_v1 True (small_file [0x77] []) = Inr f \<and> read_v1 True f 7 = Inr p' \<and>
    map (seen (pf_mapped p')) (pf_data p') = [([0x77], [8], kUInt8, Inr [0, 1, 2, 3, 4, 5, 6, 7])]"
proof -
  have tag: "dtype_tag kUInt8 = 129" by (simp add: dtype_tag_def dtype_tags_def)
  define f where "f = put_i32 V1_MAGIC @ le_put 8 24 @ (le_put 4 1 @ [0x77] @ le_put 8 8 @ le_put 8 36 @ put_i32 129) @
    [1, 2, 3, 4, 5, 6, 7, 8]"
  have w: "write_v1 True (small_file [0x77] []) = Inr f"
    by (simp add: write_v1_def small_file_def pm_content_def pm_bytes_def rd_def small_view_def desc1_size_def f_def
        v_dtype_def tag)
  have d: "read_desc1 f 12 = Inr (\<lparr>d1_name = [0x77], d1_len = 8, d1_offset = 36, d1_dtype = 129\<rparr>, 37)"
    using read_write_desc1 [of "[0x77]" "\<lparr>pm_store_name = [], pm_view = small_view, pm_loc = Owned []\<rparr>" 36
        "put_i32 V1_MAGIC @ le_put 8 24" 12 f "[1, 2, 3, 4, 5, 6, 7, 8]"]
    by (simp add: f_def pm_bytes_def small_view_def v_dtype_def tag desc1_size_def)
  have ds: "read_descs1 f 12 36 = Inr [\<lparr>d1_name = [0x77], d1_len = 8, d1_offset = 36, d1_dtype = 129\<rparr>]"
    by (subst read_descs1.simps) (simp add: d, subst read_descs1.simps, simp)
  have h: "rd f 0 12 = Inr (put_i32 V1_MAGIC @ le_put 8 24)" unfolding f_def by (rule rd_middle [of "[]"]) simp_all
  have "le_put (numeral k) v = word_of_nat v # le_put (pred_numeral k) (v div 256)" for k v
    by (subst numeral_eq_Suc) simp
  then have put: "put_i32 129 = [0x81, 0, 0, 0]" by (simp add: put_i32_def)
  have "f = (put_i32 V1_MAGIC @ le_put 8 24 @ le_put 4 1 @ [0x77] @ le_put 8 8 @ le_put 8 36 @ [0x81, 0, 0]) @
      [0, 1, 2, 3, 4, 5, 6, 7] @ [8]"
    by (simp add: f_def put)
  from rd_middle [OF _ _ this] have c: "rd f 36 8 = Inr [0, 1, 2, 3, 4, 5, 6, 7]" by simp
  have cast: "dtype_cast 129 = Inr kUInt8" by (simp add: dtype_cast_def dtype_of_tag_def dtype_tags_def)
  have "new_tensor [8] kUInt8 7 = Inr \<lparr>v_shape = [8], v_stride = [1], v_offset = 0,
      v_store = \<lparr>ts_uuid = 7, ts_size = 8, ts_dtype = kUInt8, ts_device = kCPU\<rparr>\<rparr>"
    by (simp add: new_tensor_def TensorStorage_create_def small_type numel_of_def u64_def view_create0_def view_create_def
        max_rank_def view_strides_def)
  then have "load1 True f \<lparr>d1_name = [0x77], d1_len = 8, d1_offset = 36, d1_dtype = 129\<rparr> 7 =
      Inr \<lparr>pm_store_name = [0x77], pm_view = \<lparr>v_shape = [8], v_stride = [1], v_offset = 0,
        v_store = \<lparr>ts_uuid = 7, ts_size = 8, ts_dtype = kUInt8, ts_device = kCPU\<rparr>\<rparr>, pm_loc = Mapped 36\<rparr>"
    by (simp add: load1_def cast small_type u64_def to_i32_def)
  moreover have "get_i32 (put_i32 V1_MAGIC) = V1_MAGIC" "le_get (le_put 8 24) = 24"
    by (simp_all add: get_put_i32 V1_MAGIC_def le_get_put)
  ultimately show ?thesis
    using w h ds c
    by (simp add: read_v1_def Let_def setMappedFile_def pf_create_def pf_push_def st_has_def st_reg_def seen_def
        pm_content_def pm_bytes_def v_dtype_def)
qed

text \<open>From a stream, a description that claims more bytes than the tensor has writes past its memory.\<close>

lemma v2_oversized:
  "d2_rank d \<le> V2_SHAPE \<Longrightarrow> dtype_cast (d2_type d) = Inr dt \<Longrightarrow>
     new_tensor (take (d2_rank d) (d2_shape d)) dt u = Inr v \<Longrightarrow> ts_size (v_store v) < int (d2_size d) \<Longrightarrow>
     load2 False f d u = Inl Undefined"
  by (simp add: load2_def load_owned_def)

subsection \<open>The table of parameters\<close>

lemma pf_push_lookup: "pf_push name t p = Inr p' \<Longrightarrow> pf_pull name p' = Inr t \<and> (\<forall>n. n \<noteq> name \<longrightarrow> pf_pull n p' = pf_pull n p)"
  by (auto simp: pf_push_def pf_pull_def st_reg_def st_has_def st_get_def split: if_splits)

lemma pf_push_twice: "pf_has name p \<Longrightarrow> pf_push name t p = Inl (Exit kIOError)"
  by (simp add: pf_has_def pf_push_def)

lemma pf_removed: "\<not> pf_has name (pf_remove name p)"
  by (simp add: pf_has_def pf_remove_def st_has_def st_remove_def map_of_filter_neq)

text \<open>What the loop over the parameters guarantees for every table it returns.\<close>

lemma load_all_sound:
  assumes "load_all parse name load es u p = Inr p'" "st_ok (pf_data p)"
    and "\<And>d u t. load d u = Inr t \<Longrightarrow> Q t" "\<forall>x \<in> set (pf_data p). Q (snd x)"
  shows "st_ok (pf_data p') \<and> length (pf_data p') = length (pf_data p) + length es \<and> (\<forall>x \<in> set (pf_data p'). Q (snd x))"
  using assms(1,2,4)
proof (induction es arbitrary: u p)
  case (Cons e es)
  then obtain d t p1 where s: "parse e = Inr d" "load d u = Inr t" "pf_push (name d) t p = Inr p1"
    "load_all parse name load es (u + 1) p1 = Inr p'" by (auto simp: obind_Inr_iff)
  then have p1: "pf_data p1 = (name d, t) # pf_data p" "\<not> st_has (pf_data p) (name d)"
    by (auto simp: pf_push_def st_reg_def split: if_splits)
  then have "st_ok (pf_data p1)" using Cons.prems(2) by (simp add: st_ok_def st_has_def map_of_eq_None_iff)
  from Cons.IH [OF s(4) this] p1 Cons.prems(3) assms(3) [OF s(2)] show ?case by simp
qed simp

lemma new_tensor_rank: "new_tensor sh dt u = Inr v \<Longrightarrow> 0 < length (v_shape v) \<and> length (v_shape v) \<le> V2_SHAPE"
  by (auto simp: new_tensor_def obind_Inr_iff view_create0_def view_create_def max_rank_def V2_SHAPE_def
      dest!: view_strides_Inr split: if_splits)

lemma load2_sound: "load2 use_mmap f d u = Inr t \<Longrightarrow> 0 < length (v_shape (pm_view t)) \<and> length (v_shape (pm_view t)) \<le> V2_SHAPE"
  unfolding load2_def obind_Inr_iff by (elim exE conjE) (auto dest: new_tensor_rank)

text \<open>
  A file that is read as version 2 has the right magic number and version; the result has as many
  parameters as the header says, each name once, and every tensor has between 1 and 16 dimensions.
\<close>

theorem v2_accepts_valid:
  assumes "read_v2 use_mmap f u = Inr p"
  shows "get_i32 (field f 0 4) = V2_MAGIC \<and> get_i32 (field f 4 4) = V2_VERSION \<and>
    length (pf_data p) = le_get (field f 520 4) \<and> distinct (map fst (pf_data p)) \<and>
    list_all (\<lambda>(name, t). 0 < length (v_shape (pm_view t)) \<and> length (v_shape (pm_view t)) \<le> V2_SHAPE) (pf_data p)"
proof -
  obtain h where h: "rd f 0 header2_size = Inr h" "get_i32 (field h 0 4) = V2_MAGIC" "get_i32 (field h 4 4) = V2_VERSION"
    using assms by (auto simp: read_v2_def obind_Inr_iff rt_assert_def split: if_splits)
  then have fh: "field h i n = field f i n" if "i + n \<le> 532" for i n
    using that by (auto simp: rd_def field_def header2_size_def drop_take min_absorb1 split: if_splits)
  let ?n = "le_get (field h 520 4)"
  note l = load_all_sound [where Q = "\<lambda>t. 0 < length (v_shape (pm_view t)) \<and> length (v_shape (pm_view t)) \<le> V2_SHAPE",
      OF _ _ load2_sound]
  have "st_ok (pf_data p) \<and> length (pf_data p) = ?n \<and>
      (\<forall>x \<in> set (pf_data p). 0 < length (v_shape (pm_view (snd x))) \<and> length (v_shape (pm_view (snd x))) \<le> V2_SHAPE)"
  proof (cases use_mmap)
    case True
    then have "load_all (rd_desc2 f (le_get (field h 524 8))) d2_name (load2 True f) [0..<?n] u (setMappedFile f (pf_create 2)) = Inr p"
      using assms h by (simp add: read_v2_def Let_def)
    from l [OF this] show ?thesis by (simp add: setMappedFile_def pf_create_def st_ok_def)
  next
    case False
    then obtain ds where "omap (rd_desc2 f (le_get (field h 524 8))) [0..<?n] = Inr ds"
      "load_all Inr d2_name (load2 False f) ds u (pf_create 2) = Inr p"
      using assms h by (auto simp: read_v2_def Let_def obind_Inr_iff)
    with l [OF this(2)] show ?thesis by (simp add: pf_create_def st_ok_def omap_Inr)
  qed
  with h fh show ?thesis by (simp add: st_ok_def list_all_iff split_def)
qed

theorem v2_accepts_valid_witness:
  "get_i32 (field (header2 0) 0 4) = V2_MAGIC \<and> get_i32 (field (header2 0) 4 4) = V2_VERSION"
proof -
  have "rd (header2 0) 0 header2_size = Inr (header2 0)" by (simp add: rd_def)
  then have "read_v2 False (header2 0) 7 = Inr (pf_create 2)"
    using header2_fields [of 0] by (simp add: read_v2_def Let_def)
  from v2_accepts_valid [OF this] show ?thesis by simp
qed

end
