(* ===== verification/Unicode_Text.thy ===== *)
theory Unicode_Text
  imports Prelude
begin

text \<open>
  The text conversions of the tokenizers, \<^verbatim>\<open>mllm/preprocessor/tokenizers/Unicode.{hpp,cpp}\<close>: UTF-8 to
  wide strings and back, and the table from bytes to printable characters of byte level BPE. A
  \<^verbatim>\<open>wchar_t\<close> has 32 bits, compared unsigned; the locale functions are not modelled.
\<close>

type_synonym byte = "8 word"
type_synonym wchar = "32 word"
type_synonym wstr = "32 word list"

subsection \<open>UTF-8\<close>

definition wide_char_bytes :: "wchar \<Rightarrow> byte list" where
  "wide_char_bytes wc =
     (if wc \<le> 0x7F then [ucast wc]
      else if wc \<le> 0x7FF then
        [ucast (0xC0 OR (drop_bit 6 wc AND 0x1F)), ucast (0x80 OR (wc AND 0x3F))]
      else if wc \<le> 0xFFFF then
        [ucast (0xE0 OR (drop_bit 12 wc AND 0x0F)), ucast (0x80 OR (drop_bit 6 wc AND 0x3F)),
         ucast (0x80 OR (wc AND 0x3F))]
      else if wc \<le> 0x10FFFF then
        [ucast (0xF0 OR (drop_bit 18 wc AND 0x07)), ucast (0x80 OR (drop_bit 12 wc AND 0x3F)),
         ucast (0x80 OR (drop_bit 6 wc AND 0x3F)), ucast (0x80 OR (wc AND 0x3F))]
      else [])"

definition wideString2Utf8String :: "wstr \<Rightarrow> byte list" where
  "wideString2Utf8String s = concat (map wide_char_bytes s)"

text \<open>A sequence that is cut off at the end of the string ends the loop.\<close>

fun utf8string2WideString :: "byte list \<Rightarrow> wstr" where
  "utf8string2WideString [] = []"
| "utf8string2WideString (b # bs) =
     (if b AND 0x80 = 0 then ucast b # utf8string2WideString bs
      else if b AND 0xE0 = 0xC0 then
        (case bs of
           b1 # r \<Rightarrow> (push_bit 6 (ucast (b AND 0x1F)) OR ucast (b1 AND 0x3F)) # utf8string2WideString r
         | _ \<Rightarrow> [])
      else if b AND 0xF0 = 0xE0 then
        (case bs of
           b1 # b2 # r \<Rightarrow>
             (push_bit 12 (ucast (b AND 0x0F)) OR push_bit 6 (ucast (b1 AND 0x3F)) OR ucast (b2 AND 0x3F)) #
               utf8string2WideString r
         | _ \<Rightarrow> [])
      else if b AND 0xF8 = 0xF0 then
        (case bs of
           b1 # b2 # b3 # r \<Rightarrow>
             (push_bit 18 (ucast (b AND 0x07)) OR push_bit 12 (ucast (b1 AND 0x3F)) OR
              push_bit 6 (ucast (b2 AND 0x3F)) OR ucast (b3 AND 0x3F)) # utf8string2WideString r
         | _ \<Rightarrow> [])
      else utf8string2WideString bs)"

text \<open>Bits of a byte and of a character, one at a time.\<close>

lemma below_8: "n < 8 \<Longrightarrow> n = 0 \<or> n = 1 \<or> n = 2 \<or> n = 3 \<or> n = 4 \<or> n = 5 \<or> n = 6 \<or> n = (7 :: nat)"
  by arith

lemma byte_eqI:
  assumes "bit a 0 = bit b 0" "bit a 1 = bit b 1" "bit a 2 = bit b 2" "bit a 3 = bit b 3"
    "bit a 4 = bit b 4" "bit a 5 = bit b 5" "bit a 6 = bit b 6" "bit a 7 = bit b 7"
  shows "a = (b :: byte)"
proof (rule bit_word_eqI)
  fix n
  assume "n < LENGTH(8)"
  then have "n < 8" by simp
  from below_8 [OF this] assms show "bit a n = bit b n" by (elim disjE) simp_all
qed

lemma lead_bytes:
  fixes x :: wchar
  shows "ucast (0xC0 OR (x AND 0x1F)) AND 0x80 = (0x80 :: byte)" "ucast (0xC0 OR (x AND 0x1F)) AND 0xE0 = (0xC0 :: byte)"
    "ucast (0xE0 OR (x AND 0x0F)) AND 0x80 = (0x80 :: byte)" "ucast (0xE0 OR (x AND 0x0F)) AND 0xE0 = (0xE0 :: byte)"
    "ucast (0xE0 OR (x AND 0x0F)) AND 0xF0 = (0xE0 :: byte)"
    "ucast (0xF0 OR (x AND 0x07)) AND 0x80 = (0x80 :: byte)" "ucast (0xF0 OR (x AND 0x07)) AND 0xE0 = (0xE0 :: byte)"
    "ucast (0xF0 OR (x AND 0x07)) AND 0xF0 = (0xF0 :: byte)" "ucast (0xF0 OR (x AND 0x07)) AND 0xF8 = (0xF0 :: byte)"
  by (rule byte_eqI; simp add: bit_simps)+

lemma payload_bytes:
  fixes x :: wchar
  shows "ucast (ucast (0xC0 OR (x AND 0x1F)) AND 0x1F :: byte) = take_bit 5 x"
    "ucast (ucast (0xE0 OR (x AND 0x0F)) AND 0x0F :: byte) = take_bit 4 x"
    "ucast (ucast (0xF0 OR (x AND 0x07)) AND 0x07 :: byte) = take_bit 3 x"
    "ucast (ucast (0x80 OR (x AND 0x3F)) AND 0x3F :: byte) = take_bit 6 x"
proof -
  have "ucast (0xC0 OR (x AND 0x1F)) AND 0x1F = (ucast (take_bit 5 x) :: byte)"
    "ucast (0xE0 OR (x AND 0x0F)) AND 0x0F = (ucast (take_bit 4 x) :: byte)"
    "ucast (0xF0 OR (x AND 0x07)) AND 0x07 = (ucast (take_bit 3 x) :: byte)"
    "ucast (0x80 OR (x AND 0x3F)) AND 0x3F = (ucast (take_bit 6 x) :: byte)"
    by (rule byte_eqI; simp add: bit_simps)+
  moreover have "ucast (ucast (take_bit k x) :: byte) = take_bit k x" if "k \<le> 8" for k
    by (rule bit_word_eqI) (use that in \<open>auto simp: bit_simps\<close>)
  ultimately show "ucast (ucast (0xC0 OR (x AND 0x1F)) AND 0x1F :: byte) = take_bit 5 x"
    "ucast (ucast (0xE0 OR (x AND 0x0F)) AND 0x0F :: byte) = take_bit 4 x"
    "ucast (ucast (0xF0 OR (x AND 0x07)) AND 0x07 :: byte) = take_bit 3 x"
    "ucast (ucast (0x80 OR (x AND 0x3F)) AND 0x3F :: byte) = take_bit 6 x" by simp_all
qed

lemma join_bits:
  "push_bit k (take_bit m (drop_bit k x)) OR take_bit k x = (take_bit (k + m) x :: wchar)"
  by (rule bit_word_eqI) (auto simp: bit_simps)

lemma small_take_bit: "x \<le> w \<Longrightarrow> unat w < 2 ^ k \<Longrightarrow> take_bit k x = (x :: wchar)"
proof -
  assume "x \<le> w" "unat w < 2 ^ k"
  then have "unat x < 2 ^ k" by (simp add: word_le_nat_alt)
  then have "take_bit k (unat x) = unat x" by (rule take_bit_nat_eq_self)
  moreover have "unat (take_bit k x) = take_bit k (unat x)"
    by (rule bit_eqI) (simp add: bit_unsigned_iff bit_simps)
  ultimately show ?thesis by (simp add: word_unat_eq_iff)
qed

lemma decode_char:
  assumes "wc \<le> 0x10FFFF"
  shows "utf8string2WideString (wide_char_bytes wc @ rest) = wc # utf8string2WideString rest"
proof -
  consider "wc \<le> 0x7F" | "\<not> wc \<le> 0x7F" "wc \<le> 0x7FF" | "\<not> wc \<le> 0x7F" "\<not> wc \<le> 0x7FF" "wc \<le> 0xFFFF"
    | "\<not> wc \<le> 0x7F" "\<not> wc \<le> 0x7FF" "\<not> wc \<le> 0xFFFF" by blast
  then show ?thesis
  proof cases
    case 1
    then have t: "take_bit 7 wc = wc" by (rule small_take_bit) simp
    have "ucast (take_bit 7 wc) AND 0x80 = (0 :: byte)" by (rule byte_eqI; simp add: bit_simps)
    moreover have "ucast (ucast (take_bit 7 wc) :: byte) = take_bit 7 wc"
      by (rule bit_word_eqI) (auto simp: bit_simps)
    ultimately show ?thesis using 1 by (simp add: wide_char_bytes_def t)
  next
    case 2
    have "take_bit 11 wc = wc" using 2(2) by (rule small_take_bit) simp
    then show ?thesis using 2 join_bits [of 6 5 wc]
      by (simp add: wide_char_bytes_def lead_bytes payload_bytes)
  next
    case 3
    have "take_bit 16 wc = wc" using 3(3) by (rule small_take_bit) simp
    then show ?thesis using 3 join_bits [of 6 6 wc] join_bits [of 12 4 wc]
      by (simp add: wide_char_bytes_def lead_bytes payload_bytes or.assoc)
  next
    case 4
    have "take_bit 21 wc = wc" using assms by (rule small_take_bit) simp
    then show ?thesis using 4 assms join_bits [of 6 6 wc] join_bits [of 12 6 wc] join_bits [of 18 3 wc]
      by (simp add: wide_char_bytes_def lead_bytes payload_bytes or.assoc)
  qed
qed

subsection \<open>What a text encoding promises\<close>

locale text_codec =
  fixes enc :: "'c list \<Rightarrow> 'b list" and dec :: "'b list \<Rightarrow> 'c list" and ok :: "'c \<Rightarrow> bool"
  assumes enc_append: "enc (s @ t) = enc s @ enc t"
    and dec_enc: "list_all ok s \<Longrightarrow> dec (enc s) = s"
begin

lemma enc_Nil: "enc [] = []"
  using enc_append [of "[]" "[]"] by simp

lemma enc_concat: "concat (map enc parts) = enc (concat parts)"
  by (induction parts) (simp_all add: enc_Nil enc_append)

lemma dec_pieces: "list_all ok (concat parts) \<Longrightarrow> dec (concat (map enc parts)) = concat parts"
  by (simp add: enc_concat dec_enc)

lemma enc_inj: "list_all ok s \<Longrightarrow> list_all ok t \<Longrightarrow> enc s = enc t \<Longrightarrow> s = t"
  by (metis dec_enc)

end

abbreviation valid_char :: "wchar \<Rightarrow> bool" where
  "valid_char wc \<equiv> wc \<le> 0x10FFFF"

interpretation wide: text_codec wideString2Utf8String utf8string2WideString valid_char
proof unfold_locales
  fix s :: wstr
  assume "list_all valid_char s"
  then show "utf8string2WideString (wideString2Utf8String s) = s"
    by (induction s) (simp_all add: wideString2Utf8String_def decode_char)
qed (simp add: wideString2Utf8String_def)

text \<open>
  A wide string of Unicode code points survives the conversion to UTF-8 and back.
\<close>

theorem utf8_roundtrip:
  assumes "\<forall>wc \<in> set s. wc \<le> 0x10FFFF"
  shows "utf8string2WideString (wideString2Utf8String s) = s"
  using assms by (intro wide.dec_enc) (simp add: list_all_iff)

theorem utf8_roundtrip_witness:
  "utf8string2WideString (wideString2Utf8String [0x48, 0xE9, 0x4E2D, 0x1F600]) = [0x48, 0xE9, 0x4E2D, 0x1F600]"
  by (rule utf8_roundtrip) simp

lemma wide_char_bytes_nonempty: "wc \<le> 0x10FFFF \<Longrightarrow> wide_char_bytes wc \<noteq> []"
  by (simp add: wide_char_bytes_def)

text \<open>Larger values have no encoding and are dropped.\<close>

lemma wide_drops_invalid:
  "wideString2Utf8String s = wideString2Utf8String (filter (\<lambda>wc. wc \<le> 0x10FFFF) s)"
proof (induction s)
  case (Cons wc s)
  have "\<not> wc \<le> 0x10FFFF \<Longrightarrow> \<not> wc \<le> 0x7F \<and> \<not> wc \<le> 0x7FF \<and> \<not> wc \<le> 0xFFFF"
    using order_trans [of wc "0x7F" "0x10FFFF"] order_trans [of wc "0x7FF" "0x10FFFF"]
      order_trans [of wc "0xFFFF" "0x10FFFF"] by auto
  then show ?case using Cons by (auto simp: wideString2Utf8String_def wide_char_bytes_def)
qed simp

subsection \<open>Bytes as printable characters\<close>

definition printable_bytes :: "nat list" where
  "printable_bytes = [33..<127] @ [161..<173] @ [174..<256]"

text \<open>The loop over all bytes: those that are not printable get the numbers from 256 on.\<close>

fun other_bytes :: "nat list \<Rightarrow> nat list \<Rightarrow> nat list \<Rightarrow> nat \<Rightarrow> nat list \<times> nat list" where
  "other_bytes [] bs cs n = (bs, cs)"
| "other_bytes (b # rest) bs cs n =
     (if b \<in> set bs then other_bytes rest bs cs n
      else other_bytes rest (bs @ [b]) (cs @ [256 + n]) (n + 1))"

definition makeBytes2UnicodeMap :: "(nat \<times> wchar) list" where
  "makeBytes2UnicodeMap =
     (case other_bytes [0..<256] printable_bytes printable_bytes 0 of
        (bs, cs) \<Rightarrow> zip bs (map of_nat cs))"

lemma other_bytes_spec:
  assumes "distinct xs" "length cs = length bs" "distinct bs" "distinct cs" "\<forall>c \<in> set cs. c < 256 + n"
    and "other_bytes xs bs cs n = (bs', cs')" "\<forall>b \<in> set xs \<union> set bs. b < 256" "n + length xs \<le> m"
  shows "length cs' = length bs' \<and> distinct bs' \<and> distinct cs' \<and> (\<forall>c \<in> set cs'. c < 256 + m) \<and>
    set bs' = set bs \<union> set xs \<and> (\<exists>us vs. bs' = bs @ us \<and> cs' = cs @ vs)"
  using assms
proof (induction xs bs cs n arbitrary: bs' cs' rule: other_bytes.induct)
  case (2 b rest bs cs n)
  show ?case
  proof (cases "b \<in> set bs")
    case True
    then show ?thesis using 2(1) [OF True, of bs' cs'] 2(3-) by auto
  next
    case False
    have "\<forall>c \<in> set (cs @ [256 + n]). c < 256 + (n + 1)" "256 + n \<notin> set cs" using 2(7) by auto
    then show ?thesis using 2(2) [OF False, of bs' cs'] 2(3-) False by auto
  qed
qed auto

lemma in_zip_map: "b \<in> set xs \<Longrightarrow> (b, f b) \<in> set (zip xs (map f xs))"
  by (induction xs) auto

text \<open>
  The table of byte level BPE is a bijection: all 256 bytes have an entry, no two the same
  character, and printable bytes stand for themselves.
\<close>

theorem bytes_map_bijective:
  "fst ` set makeBytes2UnicodeMap = {0..<256} \<and> distinct (map fst makeBytes2UnicodeMap) \<and>
   distinct (map snd makeBytes2UnicodeMap) \<and>
   map (map_of makeBytes2UnicodeMap) printable_bytes = map (\<lambda>b. Some (of_nat b)) printable_bytes"
proof -
  obtain bs cs where r: "other_bytes [0..<256] printable_bytes printable_bytes 0 = (bs, cs)" by force
  have p: "distinct printable_bytes" "\<forall>b \<in> set printable_bytes. b < 256"
    by (auto simp: printable_bytes_def simp del: upt_rec_numeral)
  have s: "length cs = length bs" "distinct bs" "distinct cs" "\<forall>c \<in> set cs. c < 512"
    "set bs = {0..<256}" "\<exists>us vs. bs = printable_bytes @ us \<and> cs = printable_bytes @ vs"
  proof -
    have a: "\<forall>b \<in> set [0..<256] \<union> set printable_bytes. b < 256" "set printable_bytes \<union> {0..<256} = {0..<256}"
      using p(2) by auto
    then have "length cs = length bs \<and> distinct bs \<and> distinct cs \<and> (\<forall>c \<in> set cs. c < 256 + 256) \<and>
        set bs = set printable_bytes \<union> set [0..<256] \<and> (\<exists>us vs. bs = printable_bytes @ us \<and> cs = printable_bytes @ vs)"
      using other_bytes_spec [OF _ refl p(1,1) _ r a(1), of 256] p(2) by (simp del: upt_rec_numeral)
    then show "length cs = length bs" "distinct bs" "distinct cs" "\<forall>c \<in> set cs. c < 512"
      "set bs = {0..<256}" "\<exists>us vs. bs = printable_bytes @ us \<and> cs = printable_bytes @ vs"
      using a(2) by (simp_all del: upt_rec_numeral)
  qed
  have m: "makeBytes2UnicodeMap = zip bs (map of_nat cs)" by (simp add: makeBytes2UnicodeMap_def r)
  have inj: "inj_on (of_nat :: nat \<Rightarrow> wchar) (set cs)"
  proof (rule inj_onI)
    fix x y
    assume "x \<in> set cs" "y \<in> set cs" "(of_nat x :: wchar) = of_nat y"
    then have "unat (of_nat x :: wchar) = unat (of_nat y :: wchar)" "x < 512" "y < 512" using s(4) by auto
    then show "x = y" by (simp add: unat_of_nat)
  qed
  have f: "map fst makeBytes2UnicodeMap = bs" "map snd makeBytes2UnicodeMap = map of_nat cs"
    using s(1) by (simp_all add: m)
  moreover have "fst ` set makeBytes2UnicodeMap = set bs" using f(1) by (metis set_map)
  moreover have "map_of makeBytes2UnicodeMap b = Some (of_nat b)" if "b \<in> set printable_bytes" for b :: nat
  proof -
    obtain us vs where u: "bs = printable_bytes @ us" "cs = printable_bytes @ vs" using s(6) by blast
    have z: "makeBytes2UnicodeMap = zip printable_bytes (map of_nat printable_bytes) @ zip us (map of_nat vs)"
      by (simp add: m u)
    have "(b, of_nat b :: wchar) \<in> set (zip printable_bytes (map of_nat printable_bytes))"
      using that by (rule in_zip_map)
    then have "(b, of_nat b) \<in> set makeBytes2UnicodeMap" unfolding z set_append by (rule UnI1)
    then show ?thesis using f(1) s(2) by simp
  qed
  ultimately show ?thesis using s inj by (simp add: distinct_map del: map_of_eq_Some_iff)
qed

end
