(* ===== verification/Bpe.thy ===== *)
theory Bpe
  imports Unicode_Text
begin

text \<open>
  Byte pair encoding, \<^verbatim>\<open>mllm/preprocessor/tokenizers/BPE.{hpp,cpp}\<close> on wide strings and
  \<^verbatim>\<open>BPEUTF8.{hpp,cpp}\<close> on code points. The parsed JSON document is a parameter (\<open>bpe_file\<close>), and so are the
  conversions of utfcpp. A hash table is the list of its entries; \<open>insert\<close> keeps an existing one. The hash
  set of pairs is the list of its elements; its order has no influence, which is shown.
\<close>

subsection \<open>Hash tables\<close>

definition umap_insert :: "'k \<Rightarrow> 'v \<Rightarrow> ('k \<times> 'v) list \<Rightarrow> ('k \<times> 'v) list" where
  "umap_insert k v m = (if map_of m k = None then (k, v) # m else m)"

lemma map_of_umap_insert:
  "map_of (umap_insert k v m) = (if map_of m k = None then (map_of m)(k \<mapsto> v) else map_of m)"
  by (simp add: umap_insert_def)

lemma set_umap_insert: "set (umap_insert k v m) \<subseteq> insert (k, v) (set m)"
  by (auto simp: umap_insert_def)

subsection \<open>State and loading\<close>

text \<open>
  \<open>bf_vocab\<close> and \<open>bf_merges\<close> are \<open>None\<close> when the document has no such entry. A merge is a string with a
  blank, or an array of two strings.
\<close>

datatype merge_item = MString "byte list" | MArray "byte list list" | MOther

record bpe_file =
  bf_vocab :: "(byte list \<times> int) list option"
  bf_merges :: "merge_item list option"
  bf_added :: "(int \<times> byte list) list"

type_synonym bpe_ranks = "((wstr \<times> wstr) \<times> int) list"

record bpe =
  bp_vocab :: "(wstr \<times> int) list"
  bp_inverse :: "(int \<times> wstr) list"
  bp_ranks :: bpe_ranks

definition new_bpe :: bpe where
  "new_bpe = \<lparr>bp_vocab = [], bp_inverse = [], bp_ranks = []\<rparr>"

definition add_word :: "wstr \<Rightarrow> int \<Rightarrow> bpe \<Rightarrow> bpe" where
  "add_word str i b =
     b\<lparr>bp_vocab := umap_insert str i (bp_vocab b), bp_inverse := umap_insert i str (bp_inverse b)\<rparr>"

text \<open>Without a blank both parts are the whole string: \<^verbatim>\<open>npos + 1\<close> is 0.\<close>

definition split_blank :: "'c \<Rightarrow> 'c list \<Rightarrow> 'c list \<times> 'c list" where
  "split_blank sp s =
     (if sp \<in> set s then (takeWhile (\<lambda>c. c \<noteq> sp) s, tl (dropWhile (\<lambda>c. c \<noteq> sp) s)) else (s, s))"

definition json_null :: fault where
  "json_null = Throw ''type_error''"

fun merge_pair :: "merge_item \<Rightarrow> (wstr \<times> wstr) option outcome" where
  "merge_pair (MString s) = Inr (Some (split_blank 0x20 (utf8string2WideString s)))"
| "merge_pair (MArray (a # b # _)) = Inr (Some (utf8string2WideString a, utf8string2WideString b))"
| "merge_pair (MArray _) = Inl json_null"
| "merge_pair MOther = Inr None"

fun load_merges :: "('m \<Rightarrow> 'p option outcome) \<Rightarrow> 'm list \<Rightarrow> int \<Rightarrow> ('p \<times> int) list \<Rightarrow> ('p \<times> int) list outcome" where
  "load_merges pair [] cnt r = Inr r"
| "load_merges pair (m # ms) cnt r =
     obind (pair m) (\<lambda>po. case po of
         None \<Rightarrow> load_merges pair ms cnt r
       | Some p \<Rightarrow> load_merges pair ms (cnt + 1) (umap_insert p cnt r))"

definition initFromSentencePieceJson :: "bpe_file option \<Rightarrow> bpe \<Rightarrow> (bool \<times> bpe) outcome" where
  "initFromSentencePieceJson f b =
     (case f of
        None \<Rightarrow> Inr (False, b)
      | Some j \<Rightarrow>
          (case (bf_vocab j, bf_merges j) of
             (Some voc, Some ms) \<Rightarrow>
               (let b1 = fold (\<lambda>(key, value). add_word (utf8string2WideString key) value) voc b;
                    b2 = fold (\<lambda>(i, content). add_word (utf8string2WideString content) i) (bf_added j) b1
                in obind (load_merges merge_pair ms 0 (bp_ranks b2)) (\<lambda>r. Inr (True, b2\<lparr>bp_ranks := r\<rparr>)))
           | _ \<Rightarrow> Inr (False, b)))"

definition lookup_vocab :: "bpe \<Rightarrow> wstr \<Rightarrow> int" where
  "lookup_vocab b token = (case map_of (bp_vocab b) token of Some i \<Rightarrow> i | None \<Rightarrow> 0)"

definition lookup_inverse_vocab :: "bpe \<Rightarrow> int \<Rightarrow> wstr" where
  "lookup_inverse_vocab b idx = (case map_of (bp_inverse b) idx of Some s \<Rightarrow> s | None \<Rightarrow> [])"

subsection \<open>Merging\<close>

fun get_pairs_from :: "'w \<Rightarrow> 'w list \<Rightarrow> ('w \<times> 'w) list" where
  "get_pairs_from prev [] = []"
| "get_pairs_from prev (w # ws) = List.insert (prev, w) (get_pairs_from w ws)"

fun get_pairs :: "'w list \<Rightarrow> ('w \<times> 'w) list" where
  "get_pairs [] = []"
| "get_pairs (w # ws) = get_pairs_from w ws"

text \<open>The loop over the pairs: \<open>(rank, bigram)\<close> so far, the initial rank is the largest \<^verbatim>\<open>int64_t\<close>.\<close>

definition rank_limit :: int where
  "rank_limit = 2 ^ 63 - 1"

fun scan_pairs :: "('p \<times> int) list \<Rightarrow> 'p list \<Rightarrow> int \<Rightarrow> 'p option \<Rightarrow> 'p option" where
  "scan_pairs ranks [] rank_bigram bigram = bigram"
| "scan_pairs ranks (p # ps) rank_bigram bigram =
     (case map_of ranks p of
        Some rank \<Rightarrow>
          if rank < rank_bigram then scan_pairs ranks ps rank (Some p)
          else scan_pairs ranks ps rank_bigram bigram
      | None \<Rightarrow> scan_pairs ranks ps rank_bigram bigram)"

definition best_bigram :: "('p \<times> int) list \<Rightarrow> 'p list \<Rightarrow> 'p option" where
  "best_bigram ranks pairs = scan_pairs ranks pairs rank_limit None"

function find_next :: "'w list \<Rightarrow> 'w \<Rightarrow> nat \<Rightarrow> nat" where
  "find_next word first j = (if j < length word \<and> word ! j \<noteq> first then find_next word first (j + 1) else j)"
  by pat_completeness auto
termination by (relation "measure (\<lambda>(word, first, j). length word - j)") auto

declare find_next.simps [simp del]

lemma find_next_step: "j < length word \<and> word ! j \<noteq> first \<Longrightarrow> find_next word first j = find_next word first (j + 1)"
  by (subst find_next.simps) simp

lemma find_next_stop: "\<not> (j < length word \<and> word ! j \<noteq> first) \<Longrightarrow> find_next word first j = j"
  by (subst find_next.simps) auto

lemma find_next_spec:
  "j \<le> find_next word first j \<and> (j \<le> length word \<longrightarrow> find_next word first j \<le> length word) \<and>
   (\<forall>k. j \<le> k \<and> k < find_next word first j \<longrightarrow> word ! k \<noteq> first) \<and>
   (find_next word first j < length word \<longrightarrow> word ! find_next word first j = first)"
proof (induction word first j rule: find_next.induct)
  case (1 word first j)
  show ?case
  proof (cases "j < length word \<and> word ! j \<noteq> first")
    case True
    note IH = 1 [OF True]
    have "word ! k \<noteq> first" if "j \<le> k" "k < find_next word first (j + 1)" for k
      using that IH True by (cases "k = j") auto
    then show ?thesis unfolding find_next_step [OF True] using IH True by auto
  next
    case False
    have e: "find_next word first j = j" by (rule find_next_stop [OF False])
    show ?thesis unfolding e using False by auto
  qed
qed

lemmas find_next_ge = find_next_spec [THEN conjunct1]

text \<open>One round: \<open>i\<close> walks over the word, \<open>acc\<close> is the new word.\<close>

function (sequential) merge_loop :: "'c list list \<Rightarrow> 'c list \<Rightarrow> 'c list \<Rightarrow> nat \<Rightarrow> 'c list list \<Rightarrow> 'c list list" where
  "merge_loop word first second i acc =
     (if i < length word then
        (let j = find_next word first i;
             acc1 = acc @ take (j - i) (drop i word)
         in if j < length word - 1 \<and> word ! j = first \<and> word ! (j + 1) = second then
              merge_loop word first second (j + 2) (acc1 @ [first @ second])
            else if j < length word then merge_loop word first second (j + 1) (acc1 @ [word ! j])
            else merge_loop word first second j acc1)
      else acc)"
  by pat_completeness auto
termination
proof (relation "measure (\<lambda>(word, first, second, i, acc). length word - i)", goal_cases)
  case (2 word first second i acc j acc1)
  then show ?case using find_next_ge [of i word first] by simp
next
  case (3 word first second i acc j acc1)
  then show ?case using find_next_ge [of i word first] by simp
next
  case (4 word first second i acc j acc1)
  then show ?case using find_next_ge [of i word first] by simp
qed simp

declare merge_loop.simps [simp del]

text \<open>The round as a recursion over the word: each leftmost occurrence of the pair is joined.\<close>

fun merge_pass :: "'c list \<Rightarrow> 'c list \<Rightarrow> 'c list list \<Rightarrow> 'c list list" where
  "merge_pass first second (x # y # ws) =
     (if x = first \<and> y = second then (first @ second) # merge_pass first second ws
      else x # merge_pass first second (y # ws))"
| "merge_pass first second ws = ws"

lemma merge_pass_skip: "first \<notin> set us \<Longrightarrow> merge_pass first second (us @ ws) = us @ merge_pass first second ws"
proof (induction us)
  case (Cons u us)
  then show ?case by (cases "us @ ws") auto
qed simp

lemma concat_merge_pass: "concat (merge_pass first second ws) = concat ws"
  by (induction first second ws rule: merge_pass.induct) auto

lemma length_merge_pass: "length (merge_pass first second ws) \<le> length ws"
  by (induction first second ws rule: merge_pass.induct) auto

lemma skipped_prefix:
  assumes "i \<le> length word" "j = find_next word first i"
  shows "i \<le> j" "j \<le> length word" "drop i word = take (j - i) (drop i word) @ drop j word"
    "first \<notin> set (take (j - i) (drop i word))" "j < length word \<Longrightarrow> word ! j = first"
proof -
  note s = find_next_spec [of i word first, folded assms(2)]
  show b: "i \<le> j" "j \<le> length word" using s assms(1) by auto
  then show "drop i word = take (j - i) (drop i word) @ drop j word"
    by (metis append_take_drop_id drop_drop le_add_diff_inverse2)
  show "first \<notin> set (take (j - i) (drop i word))"
  proof
    assume "first \<in> set (take (j - i) (drop i word))"
    then obtain k where "k < j - i" "word ! (i + k) = first"
      using b by (auto simp: in_set_conv_nth)
    then show False using s b by auto
  qed
  show "j < length word \<Longrightarrow> word ! j = first" using s by simp
qed

theorem merge_loop_is_pass:
  "merge_loop word first second i acc = acc @ merge_pass first second (drop i word)"
proof (induction word first second i acc rule: merge_loop.induct)
  case (1 word first second i acc)
  show ?case
  proof (cases "i < length word")
    case True
    define j where "j = find_next word first i"
    define acc1 where "acc1 = acc @ take (j - i) (drop i word)"
    note s = skipped_prefix [OF less_imp_le [OF True] j_def]
    note IH = 1(1,2,3) [OF True j_def acc1_def]
    have d: "acc @ merge_pass first second (drop i word) = acc1 @ merge_pass first second (drop j word)"
      using merge_pass_skip [OF s(4), of second "drop j word"] s(3) by (simp add: acc1_def)
    have u: "merge_loop word first second i acc =
        (if j < length word - 1 \<and> word ! j = first \<and> word ! (j + 1) = second then
           merge_loop word first second (j + 2) (acc1 @ [first @ second])
         else if j < length word then merge_loop word first second (j + 1) (acc1 @ [word ! j])
         else merge_loop word first second j acc1)"
      by (subst merge_loop.simps) (simp add: True Let_def j_def acc1_def)
    consider (pair) "j < length word - 1" "word ! j = first" "word ! (j + 1) = second"
      | (one) "j < length word" "\<not> (j < length word - 1 \<and> word ! j = first \<and> word ! (j + 1) = second)"
      | (none) "j = length word" using s(2) by linarith
    then show ?thesis
    proof cases
      case pair
      then have "drop j word = first # second # drop (j + 2) word"
        by (metis Suc_eq_plus1 add_2_eq_Suc' Cons_nth_drop_Suc less_diff_conv add_lessD1)
      with pair IH(1) d u show ?thesis by simp
    next
      case one
      then have c: "drop j word = word ! j # drop (j + 1) word" by (simp add: Cons_nth_drop_Suc)
      have "merge_pass first second (drop j word) = word ! j # merge_pass first second (drop (j + 1) word)"
      proof (cases "drop (j + 1) word")
        case (Cons y ws)
        then have "j < length word - 1" "word ! (j + 1) = y" by (metis One_nat_def drop_eq_Nil leI le_diff_conv list.distinct(1) Suc_eq_plus1 less_diff_conv, metis Cons nth_via_drop)
        with one(2) c Cons show ?thesis by auto
      qed (simp add: c)
      then show ?thesis using IH(2) [OF one(2,1)]
        unfolding u d if_not_P [OF one(2)] if_P [OF one(1)] by simp
    next
      case none
      then have n: "\<not> (j < length word - 1 \<and> word ! j = first \<and> word ! (j + 1) = second)" "\<not> j < length word"
        by auto
      show ?thesis using IH(3) [OF n] unfolding u d if_not_P [OF n(1)] if_not_P [OF n(2)] .
    qed
  qed (simp add: merge_loop.simps)
qed

subsection \<open>The pairs and the best of them\<close>

lemma set_get_pairs_from: "set (get_pairs_from x ws) = set (zip (x # ws) ws)"
  by (induction x ws rule: get_pairs_from.induct) auto

lemma set_get_pairs: "set (get_pairs ws) = set (zip ws (tl ws))"
  by (cases ws) (simp_all add: set_get_pairs_from)

lemma pair_in_word: "(a, b) \<in> set (get_pairs ws) \<longleftrightarrow> (\<exists>us vs. ws = us @ a # b # vs)"
proof
  assume "(a, b) \<in> set (get_pairs ws)"
  then obtain k where k: "Suc k < length ws" "ws ! k = a" "ws ! Suc k = b"
    by (auto simp: set_get_pairs set_zip nth_tl less_diff_conv)
  then have "drop k ws = a # b # drop (Suc (Suc k)) ws" by (metis Cons_nth_drop_Suc Suc_lessD)
  then show "\<exists>us vs. ws = us @ a # b # vs" by (metis append_take_drop_id)
next
  assume "\<exists>us vs. ws = us @ a # b # vs"
  then obtain us vs where "ws = us @ a # b # vs" by blast
  then have "Suc (length us) < length ws" "ws ! length us = a" "ws ! Suc (length us) = b"
    by (simp_all add: nth_append)
  then show "(a, b) \<in> set (get_pairs ws)"
    unfolding set_get_pairs in_set_zip by (intro exI [of _ "length us"]) (simp add: nth_tl)
qed

lemma merge_pass_shorter:
  "ws = us @ first # second # vs \<Longrightarrow> length (merge_pass first second ws) < length ws"
proof (induction first second ws arbitrary: us rule: merge_pass.induct)
  case (1 first second x y ws)
  show ?case
  proof (cases "x = first \<and> y = second")
    case True
    then show ?thesis using length_merge_pass [of first second ws] by simp
  next
    case False
    then obtain us' where "y # ws = us' @ first # second # vs" using 1(3) by (cases us) auto
    from 1(2) [OF False this] False show ?thesis by auto
  qed
qed auto

text \<open>What the scan returns: a pair of least rank, if any pair has a rank.\<close>

definition least_ranked :: "('p \<times> int) list \<Rightarrow> 'p set \<Rightarrow> 'p \<Rightarrow> bool" where
  "least_ranked ranks P p \<longleftrightarrow> p \<in> P \<and>
     (\<exists>r. map_of ranks p = Some r \<and> r < rank_limit \<and> (\<forall>q \<in> P. \<forall>r'. map_of ranks q = Some r' \<longrightarrow> r \<le> r'))"

lemma scan_pairs_Some:
  "scan_pairs ranks ps rb bg = Some p \<Longrightarrow> (\<forall>q. bg = Some q \<longrightarrow> map_of ranks q = Some rb) \<Longrightarrow>
     (bg = Some p \<or> p \<in> set ps) \<and>
     (\<exists>r. map_of ranks p = Some r \<and> r \<le> rb \<and> (bg = None \<longrightarrow> r < rb) \<and>
        (\<forall>q \<in> set ps. \<forall>r'. map_of ranks q = Some r' \<longrightarrow> r \<le> r'))"
proof (induction ps arbitrary: rb bg)
  case (Cons x ps)
  show ?case
  proof (cases "\<exists>r. map_of ranks x = Some r \<and> r < rb")
    case True
    then obtain r where r: "map_of ranks x = Some r" "r < rb" by blast
    then have "scan_pairs ranks ps r (Some x) = Some p" using Cons.prems(1) by simp
    from Cons.IH [OF this] r show ?thesis by fastforce
  next
    case False
    then have "scan_pairs ranks ps rb bg = Some p" using Cons.prems(1) by (auto split: option.splits)
    from Cons.IH [OF this Cons.prems(2)] False show ?thesis by fastforce
  qed
qed auto

lemma scan_pairs_None:
  "scan_pairs ranks ps rb bg = None \<longleftrightarrow>
     bg = None \<and> (\<forall>q \<in> set ps. \<forall>r. map_of ranks q = Some r \<longrightarrow> rb \<le> r)"
  by (induction ps arbitrary: rb bg) (auto split: option.splits)

lemma best_bigram_least: "best_bigram ranks ps = Some p \<Longrightarrow> least_ranked ranks (set ps) p"
  unfolding best_bigram_def least_ranked_def by (drule scan_pairs_Some) auto

lemma best_bigram_None:
  "best_bigram ranks ps = None \<longleftrightarrow> (\<forall>q \<in> set ps. \<forall>r. map_of ranks q = Some r \<longrightarrow> rank_limit \<le> r)"
  by (simp add: best_bigram_def scan_pairs_None)

text \<open>Distinct pairs have distinct ranks, so the order of the hash set does not matter.\<close>

definition ranks_ok :: "('p \<times> int) list \<Rightarrow> bool" where
  "ranks_ok ranks \<longleftrightarrow> inj_on (map_of ranks) (dom (map_of ranks)) \<and> (\<forall>r \<in> ran (map_of ranks). r < rank_limit)"

lemma least_ranked_unique:
  "ranks_ok ranks \<Longrightarrow> least_ranked ranks P p \<Longrightarrow> least_ranked ranks P q \<Longrightarrow> p = q"
  unfolding ranks_ok_def least_ranked_def inj_on_def by (metis domI order_antisym)

lemma best_bigram_eq:
  assumes "ranks_ok ranks" "least_ranked ranks (set ps) p"
  shows "best_bigram ranks ps = Some p"
proof (cases "best_bigram ranks ps")
  case None
  then show ?thesis using assms(2) unfolding best_bigram_None least_ranked_def by fastforce
next
  case (Some q)
  from least_ranked_unique [OF assms(1) assms(2) best_bigram_least [OF this]] Some show ?thesis by simp
qed

lemma best_bigram_order:
  assumes "ranks_ok ranks" "set ps = set qs"
  shows "best_bigram ranks ps = best_bigram ranks qs"
proof (cases "best_bigram ranks qs")
  case None
  then have "best_bigram ranks ps = None" unfolding best_bigram_None assms(2) .
  then show ?thesis using None by simp
next
  case (Some q)
  have "best_bigram ranks ps = Some q"
    using best_bigram_least [OF Some] assms by (intro best_bigram_eq) simp_all
  then show ?thesis using Some by simp
qed

subsection \<open>The loop\<close>

lemma merge_loop_shorter:
  assumes "best_bigram ranks (get_pairs word) = Some (first, second)"
  shows "length (merge_loop word first second 0 []) < length word"
proof -
  have "(first, second) \<in> set (get_pairs word)"
    using best_bigram_least [OF assms] by (simp add: least_ranked_def)
  then obtain us vs where "word = us @ first # second # vs" by (auto simp: pair_in_word)
  from merge_pass_shorter [OF this] show ?thesis by (simp add: merge_loop_is_pass)
qed

function bpe_loop :: "(('c list \<times> 'c list) \<times> int) list \<Rightarrow> 'c list list \<Rightarrow> 'c list list" where
  "bpe_loop ranks word =
     (case best_bigram ranks (get_pairs word) of
        None \<Rightarrow> word
      | Some (first, second) \<Rightarrow>
          (let new_word = merge_loop word first second 0 []
           in if length new_word = 1 then new_word else bpe_loop ranks new_word))"
  by pat_completeness auto
termination by (relation "measure (\<lambda>(ranks, word). length word)") (auto simp: merge_loop_shorter)

declare bpe_loop.simps [simp del]

definition bpe_word :: "(('c list \<times> 'c list) \<times> int) list \<Rightarrow> 'c list \<Rightarrow> 'c list list" where
  "bpe_word ranks token =
     (let word = map (\<lambda>w. [w]) token
      in if get_pairs word = [] then [token] else bpe_loop ranks word)"

definition BPE_bpe :: "bpe \<Rightarrow> wstr \<Rightarrow> wstr list" where
  "BPE_bpe b token = bpe_word (bp_ranks b) token"

text \<open>The specification: join the least ranked pair everywhere, until no pair has a rank.\<close>

inductive bpe_step :: "(('c list \<times> 'c list) \<times> int) list \<Rightarrow> 'c list list \<Rightarrow> 'c list list \<Rightarrow> bool"
  for ranks where
  join: "least_ranked ranks (set (get_pairs ws)) (first, second) \<Longrightarrow> bpe_step ranks ws (merge_pass first second ws)"

definition bpe_final :: "('p \<times> int) list \<Rightarrow> 'p set \<Rightarrow> bool" where
  "bpe_final ranks P \<longleftrightarrow> (\<forall>p \<in> P. \<forall>r. map_of ranks p = Some r \<longrightarrow> rank_limit \<le> r)"

lemma bpe_step_concat: "bpe_step ranks ws ws' \<Longrightarrow> concat ws' = concat ws"
  by (induction rule: bpe_step.induct) (simp add: concat_merge_pass)

lemma bpe_steps_concat: "(bpe_step ranks)\<^sup>*\<^sup>* ws ws' \<Longrightarrow> concat ws' = concat ws"
  by (induction rule: rtranclp_induct) (simp_all add: bpe_step_concat)

lemma bpe_step_unique: "ranks_ok ranks \<Longrightarrow> bpe_step ranks ws us \<Longrightarrow> bpe_step ranks ws vs \<Longrightarrow> us = vs"
  by (elim bpe_step.cases) (metis least_ranked_unique prod.inject)

lemma final_no_step: "bpe_final ranks (set (get_pairs ws)) \<Longrightarrow> \<not> bpe_step ranks ws ws'"
  by (fastforce simp: bpe_final_def least_ranked_def elim: bpe_step.cases)

lemma single_final: "length ws = 1 \<Longrightarrow> bpe_final ranks (set (get_pairs ws))"
  by (cases ws) (simp_all add: bpe_final_def)

lemma bpe_loop_spec:
  "(bpe_step ranks)\<^sup>*\<^sup>* word (bpe_loop ranks word) \<and> bpe_final ranks (set (get_pairs (bpe_loop ranks word)))"
proof (induction ranks word rule: bpe_loop.induct)
  case (1 ranks word)
  show ?case
  proof (cases "best_bigram ranks (get_pairs word)")
    case None
    then have "bpe_loop ranks word = word" by (subst bpe_loop.simps) simp
    with None show ?thesis by (simp add: best_bigram_None bpe_final_def)
  next
    case (Some p)
    obtain first second where p: "p = (first, second)" by force
    define new where "new = merge_loop word first second 0 []"
    have step: "bpe_step ranks word new"
      using best_bigram_least [OF Some] unfolding new_def merge_loop_is_pass p
      by (simp add: bpe_step.join)
    have u: "bpe_loop ranks word = (if length new = 1 then new else bpe_loop ranks new)"
      by (subst bpe_loop.simps) (simp add: Some p new_def Let_def)
    show ?thesis
    proof (cases "length new = 1")
      case True
      then show ?thesis using u step single_final [OF True] by simp
    next
      case False
      from 1 [OF Some p [symmetric] new_def False] u step False show ?thesis
        by (simp add: converse_rtranclp_into_rtranclp)
    qed
  qed
qed

lemma concat_chars: "concat (map (\<lambda>w. [w]) token) = token"
  by (induction token) simp_all

lemma get_pairs_empty: "get_pairs ws = [] \<longleftrightarrow> length ws < 2"
proof -
  have "set (get_pairs ws) = {} \<longleftrightarrow> length ws < 2"
    by (cases ws rule: get_pairs.cases; cases "tl ws") (auto simp: set_get_pairs)
  then show ?thesis by simp
qed

lemma bpe_word_spec:
  assumes "token \<noteq> []"
  shows "(bpe_step ranks)\<^sup>*\<^sup>* (map (\<lambda>w. [w]) token) (bpe_word ranks token) \<and>
    bpe_final ranks (set (get_pairs (bpe_word ranks token)))"
proof (cases "length token < 2")
  case True
  then obtain c where "token = [c]" using assms by (cases token) auto
  then show ?thesis by (simp add: bpe_word_def bpe_final_def)
next
  case False
  then have "get_pairs (map (\<lambda>w. [w]) token) \<noteq> []" by (simp add: get_pairs_empty)
  then show ?thesis using bpe_loop_spec by (simp add: bpe_word_def)
qed

lemma concat_bpe_word: "concat (bpe_word ranks token) = token"
proof (cases "token = []")
  case False
  from bpe_word_spec [OF this, THEN conjunct1, THEN bpe_steps_concat] show ?thesis by (simp add: concat_chars)
qed (simp add: bpe_word_def)

lemma normal_form_unique:
  assumes "ranks_ok ranks"
  shows "(bpe_step ranks)\<^sup>*\<^sup>* ws us \<Longrightarrow> (bpe_step ranks)\<^sup>*\<^sup>* ws vs \<Longrightarrow>
    bpe_final ranks (set (get_pairs us)) \<Longrightarrow> bpe_final ranks (set (get_pairs vs)) \<Longrightarrow> us = vs"
proof (induction arbitrary: vs rule: converse_rtranclp_induct)
  case base
  then show ?case by (metis converse_rtranclpE final_no_step)
next
  case (step ws ws')
  then obtain w where "bpe_step ranks ws w" "(bpe_step ranks)\<^sup>*\<^sup>* w vs"
    by (metis converse_rtranclpE final_no_step)
  with step bpe_step_unique [OF assms step(1)] show ?case by blast
qed

subsection \<open>Loading\<close>

lemma ranks_ok_insert:
  assumes "ranks_ok ranks" "\<forall>r \<in> ran (map_of ranks). r < cnt" "cnt < rank_limit"
  shows "ranks_ok (umap_insert p cnt ranks)" "\<forall>r \<in> ran (map_of (umap_insert p cnt ranks)). r < cnt + 1"
proof -
  show "\<forall>r \<in> ran (map_of (umap_insert p cnt ranks)). r < cnt + 1"
    using assms(2) by (auto simp: map_of_umap_insert ran_def less_le split: if_splits)
  have "map_of ranks q \<noteq> Some cnt" for q using assms(2) by (auto intro!: ranI)
  then show "ranks_ok (umap_insert p cnt ranks)"
    using assms by (auto simp: ranks_ok_def map_of_umap_insert inj_on_def ran_def dom_def split: if_splits)
qed

lemma load_merges_ok:
  assumes "load_merges pair ms cnt ranks = Inr ranks'" "ranks_ok ranks" "\<forall>r \<in> ran (map_of ranks). r < cnt"
    and "cnt + int (length ms) \<le> rank_limit"
  shows "ranks_ok ranks'"
  using assms
proof (induction ms arbitrary: cnt ranks)
  case (Cons m ms)
  then obtain po where m: "pair m = Inr po" by (auto simp: obind_Inr_iff)
  show ?case
  proof (cases po)
    case None
    with Cons m show ?thesis by simp
  next
    case (Some p)
    have "cnt < rank_limit" using Cons.prems(4) by simp
    note r = ranks_ok_insert [OF Cons.prems(2,3) this, of p]
    show ?thesis using Cons.prems(1,4) m Some by (intro Cons.IH [OF _ r]) simp_all
  qed
qed simp

definition doc_words :: "bpe_file \<Rightarrow> (wstr \<times> int) list" where
  "doc_words j =
     map (\<lambda>(key, value). (utf8string2WideString key, value)) (case bf_vocab j of None \<Rightarrow> [] | Some voc \<Rightarrow> voc) @
     map (\<lambda>(i, content). (utf8string2WideString content, i)) (bf_added j)"

lemma map_add_first: "map_of (umap_insert k v m) = [k \<mapsto> v] ++ map_of m"
  by (auto simp: map_of_umap_insert map_add_def fun_eq_iff split: option.split)

lemma add_words:
  "map_of (bp_vocab (fold (\<lambda>(s, i). add_word s i) l b)) = map_of l ++ map_of (bp_vocab b)"
  "map_of (bp_inverse (fold (\<lambda>(s, i). add_word s i) l b)) = map_of (map prod.swap l) ++ map_of (bp_inverse b)"
  "bp_ranks (fold (\<lambda>(s, i). add_word s i) l b) = bp_ranks b"
  by (induction l arbitrary: b) (auto simp: add_word_def map_add_first map_add_upd_left)

lemma init_loads:
  assumes "initFromSentencePieceJson (Some j) new_bpe = Inr (True, b)"
  shows "map_of (bp_vocab b) = map_of (doc_words j)"
    "map_of (bp_inverse b) = map_of (map prod.swap (doc_words j))"
    "\<exists>ms. bf_merges j = Some ms \<and> load_merges merge_pair ms 0 [] = Inr (bp_ranks b)"
proof -
  obtain voc ms where v: "bf_vocab j = Some voc" "bf_merges j = Some ms"
    using assms by (auto simp: initFromSentencePieceJson_def split: option.splits)
  define l1 where "l1 = map (\<lambda>(key, value). (utf8string2WideString key, value)) voc"
  define l2 where "l2 = map (\<lambda>(i, content). (utf8string2WideString content, i)) (bf_added j)"
  define b2 where "b2 = fold (\<lambda>(s, i). add_word s i) (l1 @ l2) new_bpe"
  have d: "doc_words j = l1 @ l2" by (simp add: doc_words_def v l1_def l2_def)
  have "fold (\<lambda>(i, content). add_word (utf8string2WideString content) i) (bf_added j)
      (fold (\<lambda>(key, value). add_word (utf8string2WideString key) value) voc new_bpe) = b2"
    by (simp add: b2_def l1_def l2_def fold_map comp_def split_def)
  then obtain r where r: "load_merges merge_pair ms 0 (bp_ranks b2) = Inr r" "b = b2\<lparr>bp_ranks := r\<rparr>"
    using assms v by (auto simp: initFromSentencePieceJson_def obind_Inr_iff)
  note a = add_words [of "l1 @ l2" new_bpe, folded b2_def]
  show "map_of (bp_vocab b) = map_of (doc_words j)"
    "map_of (bp_inverse b) = map_of (map prod.swap (doc_words j))"
    using a(1,2) by (simp_all add: r d new_bpe_def)
  show "\<exists>ms. bf_merges j = Some ms \<and> load_merges merge_pair ms 0 [] = Inr (bp_ranks b)"
    using a(3) r v by (simp add: new_bpe_def)
qed

text \<open>
  C25: After a document with fewer than 2^63 merges is loaded, the pieces of a token that is not empty are
  the one normal form of the specification: start from single characters, join all occurrences of the
  adjacent pair of least rank, until no adjacent pair has a rank. In particular the loop ends.
\<close>

theorem bpe_is_normal_form:
  assumes "initFromSentencePieceJson (Some j) new_bpe = Inr (True, b)" "bf_merges j = Some ms"
    and "int (length ms) \<le> rank_limit" "token \<noteq> []"
  shows "(bpe_step (bp_ranks b))\<^sup>*\<^sup>* (map (\<lambda>w. [w]) token) ws \<and> bpe_final (bp_ranks b) (set (get_pairs ws)) \<longleftrightarrow>
    ws = BPE_bpe b token"
proof -
  have "load_merges merge_pair ms 0 [] = Inr (bp_ranks b)" using init_loads(3) [OF assms(1)] assms(2) by simp
  then have "ranks_ok (bp_ranks b)"
    by (rule load_merges_ok) (use assms(3) in \<open>simp_all add: ranks_ok_def\<close>)
  from normal_form_unique [OF this] bpe_word_spec [OF assms(4)] show ?thesis
    unfolding BPE_bpe_def by blast
qed

text \<open>A small document: the letters a, b, c, the words ab and abc, and the merges that make them.\<close>

definition small_doc :: bpe_file where
  "small_doc = \<lparr>bf_vocab = Some [([0x61], 0), ([0x62], 1), ([0x63], 2), ([0x61, 0x62], 3)],
     bf_merges = Some [MString [0x61, 0x20, 0x62], MArray [[0x61, 0x62], [0x63]]],
     bf_added = [(4, [0x61, 0x62, 0x63])]\<rparr>"

definition small_bpe :: bpe where
  "small_bpe = \<lparr>bp_vocab = [([0x61, 0x62, 0x63], 4), ([0x61, 0x62], 3), ([0x63], 2), ([0x62], 1), ([0x61], 0)],
     bp_inverse = [(4, [0x61, 0x62, 0x63]), (3, [0x61, 0x62]), (2, [0x63]), (1, [0x62]), (0, [0x61])],
     bp_ranks = [(([0x61, 0x62], [0x63]), 1), (([0x61], [0x62]), 0)]\<rparr>"

lemma small_init: "initFromSentencePieceJson (Some small_doc) new_bpe = Inr (True, small_bpe)"
  by (simp add: initFromSentencePieceJson_def small_doc_def small_bpe_def new_bpe_def add_word_def
      umap_insert_def split_blank_def Let_def)

theorem bpe_is_normal_form_witness:
  "(bpe_step (bp_ranks small_bpe))\<^sup>*\<^sup>* [[0x61], [0x62], [0x63], [0x61]]
     [[0x61, 0x62, 0x63], [0x61]] \<and>
   bpe_final (bp_ranks small_bpe) (set (get_pairs [[0x61, 0x62, 0x63], [0x61]])) \<longleftrightarrow>
   [[0x61, 0x62, 0x63], [0x61]] = BPE_bpe small_bpe [0x61, 0x62, 0x63, 0x61]"
  using bpe_is_normal_form [OF small_init, of "[MString [0x61, 0x20, 0x62], MArray [[0x61, 0x62], [0x63]]]"
      "[0x61, 0x62, 0x63, 0x61]" "[[0x61, 0x62, 0x63], [0x61]]"]
  by (simp add: small_doc_def rank_limit_def)

text \<open>
  The pieces of every token, joined, are the token.
\<close>

theorem bpe_lossless: "concat (BPE_bpe b token) = token"
  by (simp add: BPE_bpe_def concat_bpe_word)

text \<open>
  When an id stands for one word in the document, looking up a word of the vocabulary and looking
  its id up again gives the word.
\<close>

theorem vocab_lookup_inverse:
  assumes "initFromSentencePieceJson (Some j) new_bpe = Inr (True, b)" "s \<in> fst ` set (doc_words j)"
    and "\<forall>x \<in> set (doc_words j). \<forall>y \<in> set (doc_words j). snd x = snd y \<longrightarrow> fst x = fst y"
  shows "lookup_inverse_vocab b (lookup_vocab b s) = s"
proof -
  obtain i where i: "map_of (doc_words j) s = Some i" using assms(2) by (metis map_of_eq_None_iff not_None_eq)
  then have m: "(s, i) \<in> set (doc_words j)" by (rule map_of_SomeD)
  then have "i \<in> fst ` set (map prod.swap (doc_words j))" by force
  then obtain t where t: "map_of (map prod.swap (doc_words j)) i = Some t" by (metis map_of_eq_None_iff not_None_eq)
  then have "(t, i) \<in> set (doc_words j)" by (auto dest: map_of_SomeD)
  with m assms(3) have "t = s" by fastforce
  with i t init_loads(1,2) [OF assms(1)] show ?thesis
    by (simp add: lookup_vocab_def lookup_inverse_vocab_def)
qed

theorem vocab_lookup_inverse_witness:
  "lookup_inverse_vocab small_bpe (lookup_vocab small_bpe [0x61, 0x62]) = [0x61, 0x62]"
  by (rule vocab_lookup_inverse [OF small_init]) (simp_all add: doc_words_def small_doc_def)

subsection \<open>BPEUTF8\<close>

text \<open>
  \<^verbatim>\<open>BPEUTF8\<close> keeps code points instead of wide characters. \<open>to32\<close> and \<open>to8\<close> are the conversions of utfcpp,
  which throw on invalid text. The class repeats the loop of \<^verbatim>\<open>BPE\<close>.
\<close>

type_synonym to32 = "byte list \<Rightarrow> wstr outcome"
type_synonym to8 = "wstr \<Rightarrow> byte list outcome"

fun merge_pair8 :: "to32 \<Rightarrow> merge_item \<Rightarrow> (wstr \<times> wstr) option outcome" where
  "merge_pair8 to32 (MString s) =
     (case split_blank 0x20 s of
        (a, b) \<Rightarrow> obind (to32 a) (\<lambda>x. obind (to32 b) (\<lambda>y. Inr (Some (x, y)))))"
| "merge_pair8 to32 (MArray (a # b # _)) = obind (to32 a) (\<lambda>x. obind (to32 b) (\<lambda>y. Inr (Some (x, y))))"
| "merge_pair8 to32 (MArray _) = Inl json_null"
| "merge_pair8 to32 MOther = Inr None"

definition initUTF8FromSentencePieceJson :: "to32 \<Rightarrow> bpe_file option \<Rightarrow> bpe \<Rightarrow> (bool \<times> bpe) outcome" where
  "initUTF8FromSentencePieceJson to32 f b =
     (case f of
        None \<Rightarrow> Inr (False, b)
      | Some j \<Rightarrow>
          (case (bf_vocab j, bf_merges j) of
             (Some voc, Some ms) \<Rightarrow>
               obind (ofold (\<lambda>(key, value) b. obind (to32 key) (\<lambda>s. Inr (add_word s value b))) voc b) (\<lambda>b1.
               obind (ofold (\<lambda>(i, content) b. obind (to32 content) (\<lambda>s. Inr (add_word s i b))) (bf_added j) b1) (\<lambda>b2.
               obind (load_merges (merge_pair8 to32) ms 0 (bp_ranks b2)) (\<lambda>r. Inr (True, b2\<lparr>bp_ranks := r\<rparr>))))
           | _ \<Rightarrow> Inr (False, b)))"

definition BPEUTF8_bpe :: "to32 \<Rightarrow> to8 \<Rightarrow> bpe \<Rightarrow> byte list \<Rightarrow> byte list list outcome" where
  "BPEUTF8_bpe to32 to8 b token =
     obind (to32 token) (\<lambda>cpts.
       let word = map (\<lambda>c. [c]) cpts
       in if get_pairs word = [] then Inr [token] else omap to8 (bpe_loop (bp_ranks b) word))"

definition lookup_vocab8 :: "to32 \<Rightarrow> bpe \<Rightarrow> byte list \<Rightarrow> int outcome" where
  "lookup_vocab8 to32 b token =
     obind (to32 token) (\<lambda>cpts. Inr (case map_of (bp_vocab b) cpts of Some i \<Rightarrow> i | None \<Rightarrow> 0))"

definition lookup_inverse_vocab8 :: "to8 \<Rightarrow> bpe \<Rightarrow> int \<Rightarrow> byte list outcome" where
  "lookup_inverse_vocab8 to8 b idx = (case map_of (bp_inverse b) idx of Some s \<Rightarrow> to8 s | None \<Rightarrow> Inr [])"

lemma omap_pieces:
  assumes "to8 [] = Inr []" "\<And>s t. to8 (s @ t) = obind (to8 s) (\<lambda>a. obind (to8 t) (\<lambda>c. Inr (a @ c)))"
    and "to8 (concat parts) = Inr bytes"
  shows "\<exists>r. omap to8 parts = Inr r \<and> concat r = bytes"
  using assms(3)
proof (induction parts arbitrary: bytes)
  case (Cons s parts)
  from Cons.prems obtain a c where "to8 s = Inr a" "to8 (concat parts) = Inr c" "bytes = a @ c"
    by (auto simp: assms(2) obind_Inr_iff)
  with Cons.IH [of c] show ?case by (auto simp: obind_Inr_iff)
qed (simp add: assms(1))

lemma merge_pass_set: "set (merge_pass f g ws) \<subseteq> insert (f @ g) (set ws)"
  by (induction f g ws rule: merge_pass.induct) auto

lemma bpe_steps_nonempty: "(bpe_step ranks)\<^sup>*\<^sup>* ws us \<Longrightarrow> [] \<notin> set ws \<Longrightarrow> [] \<notin> set us"
proof (induction rule: rtranclp_induct)
  case (step us vs)
  from step(2) obtain f g where f: "vs = merge_pass f g us" "(f, g) \<in> set (get_pairs us)"
    by (auto elim: bpe_step.cases simp: least_ranked_def)
  then have "f \<in> set us" by (auto simp: pair_in_word)
  then show ?case using merge_pass_set [of f g us] step(3,4) f(1) by auto
qed simp

text \<open>
  C30: On UTF-8 text that utfcpp converts and converts back, the byte level class cuts the characters of a
  token that is not empty into runs, none of them empty, that are the end of joining pairs of least rank,
  and returns the encoding of each run: no piece ends inside a character, no conversion throws, and the pieces
  together are the token.
\<close>

theorem bpe_utf8_lossless:
  assumes "to8 [] = Inr []" "\<And>s t. to8 (s @ t) = obind (to8 s) (\<lambda>a. obind (to8 t) (\<lambda>c. Inr (a @ c)))"
    and "to32 token = Inr cpts" "to8 cpts = Inr token" "token \<noteq> []"
  shows "\<exists>ws r. concat ws = cpts \<and> [] \<notin> set ws \<and> (bpe_step (bp_ranks b))\<^sup>*\<^sup>* (map (\<lambda>c. [c]) cpts) ws \<and>
    bpe_final (bp_ranks b) (set (get_pairs ws)) \<and>
    BPEUTF8_bpe to32 to8 b token = Inr r \<and> list_all2 (\<lambda>w p. to8 w = Inr p) ws r \<and> concat r = token"
proof -
  let ?ws = "bpe_word (bp_ranks b) cpts"
  have ne: "cpts \<noteq> []" using assms(1,4,5) by auto
  note spec = bpe_word_spec [OF ne, of "bp_ranks b"]
  have c: "concat ?ws = cpts" by (rule concat_bpe_word)
  obtain r where r: "omap to8 ?ws = Inr r" "concat r = token"
    using omap_pieces [OF assms(1,2), of ?ws token] c assms(4) by auto
  have "BPEUTF8_bpe to32 to8 b token = omap to8 ?ws"
    using assms(3,4) by (simp add: BPEUTF8_bpe_def bpe_word_def Let_def)
  then have "BPEUTF8_bpe to32 to8 b token = Inr r" by (simp only: r(1))
  moreover have "list_all2 (\<lambda>w p. to8 w = Inr p) ?ws r" using r(1) by (simp add: omap_Inr list_all2_conv_all_nth)
  moreover have "[] \<notin> set ?ws" by (rule bpe_steps_nonempty [OF conjunct1 [OF spec]]) auto
  ultimately show ?thesis by (intro exI [of _ ?ws] exI [of _ r] conjI c spec [THEN conjunct1] spec [THEN conjunct2] r(2))
qed

definition strict_to8 :: to8 where
  "strict_to8 s = (if list_all valid_char s then Inr (wideString2Utf8String s) else Inl (Throw ''invalid_code_point''))"

theorem bpe_utf8_lossless_witness:
  "\<exists>ws r. concat ws = [0x61, 0x62, 0xE9] \<and>
    BPEUTF8_bpe (\<lambda>t. Inr (utf8string2WideString t)) strict_to8 small_bpe [0x61, 0x62, 0xC3, 0xA9] = Inr r \<and>
    list_all2 (\<lambda>w p. strict_to8 w = Inr p) ws r \<and> concat r = [0x61, 0x62, 0xC3, 0xA9]"
proof -
  have "strict_to8 (s @ t) = obind (strict_to8 s) (\<lambda>a. obind (strict_to8 t) (\<lambda>c. Inr (a @ c)))" for s t
    by (simp add: strict_to8_def wide.enc_append)
  note hom = this
  have h: "strict_to8 [] = Inr []" "strict_to8 [0x61, 0x62, 0xE9] = Inr [0x61, 0x62, 0xC3, 0xA9]"
    "utf8string2WideString [0x61, 0x62, 0xC3, 0xA9] = [0x61, 0x62, 0xE9]"
    by code_simp+
  have d: "(Inr (utf8string2WideString [0x61, 0x62, 0xC3, 0xA9]) :: wstr outcome) = Inr [0x61, 0x62, 0xE9]"
    by (simp only: h)
  from bpe_utf8_lossless [of strict_to8 "\<lambda>t. Inr (utf8string2WideString t)", OF h(1) hom d h(2), of small_bpe]
  show ?thesis by auto
qed

end
