(* ===== verification/Special_Trie.thy ===== *)
theory Special_Trie
  imports Unicode_Text
begin

text \<open>
  The special tokens of a tokenizer, \<^verbatim>\<open>mllm/preprocessor/tokenizers/AutoTokenizer.{hpp,cpp}\<close>: a trie of
  words and the automaton that cuts a text at them. \<^verbatim>\<open>Trie\<close> works on wide characters, \<^verbatim>\<open>TrieUTF8\<close> on code
  points; the characters are a type variable. Pointers to nodes are the nodes, since no operation changes
  a trie while pointers to its nodes are kept. An ordered map is the list of its entries.
\<close>

subsection \<open>The trie\<close>

datatype 'c trie_node = TNode (children: "('c \<times> 'c trie_node) list") (is_end: bool)

record 'c special_trie =
  st_root :: "'c trie_node"
  st_tokens :: "'c list list"

definition new_trie :: "'c special_trie" where
  "new_trie = \<lparr>st_root = TNode [] False, st_tokens = []\<rparr>"

definition child :: "'c trie_node \<Rightarrow> 'c \<Rightarrow> 'c trie_node option" where
  "child n c = map_of (children n) c"

definition set_child :: "'c \<Rightarrow> 'c trie_node \<Rightarrow> ('c \<times> 'c trie_node) list \<Rightarrow> ('c \<times> 'c trie_node) list" where
  "set_child c n cs = (c, n) # filter (\<lambda>e. fst e \<noteq> c) cs"

fun node_add :: "'c list \<Rightarrow> 'c trie_node \<Rightarrow> 'c trie_node" where
  "node_add [] n = TNode (children n) True"
| "node_add (c # w) n =
     TNode (set_child c (node_add w (case child n c of None \<Rightarrow> TNode [] False | Some m \<Rightarrow> m)) (children n)) (is_end n)"

definition trie_add :: "'c list \<Rightarrow> 'c special_trie \<Rightarrow> 'c special_trie" where
  "trie_add word t =
     (if word = [] then t
      else \<lparr>st_root = node_add word (st_root t), st_tokens = List.insert word (st_tokens t)\<rparr>)"

definition trie_update :: "'c list list \<Rightarrow> 'c special_trie \<Rightarrow> 'c special_trie" where
  "trie_update words t = fold trie_add words t"

definition isSpecialToken :: "'c special_trie \<Rightarrow> 'c list \<Rightarrow> bool" where
  "isSpecialToken t token = (token \<in> set (st_tokens t))"

subsection \<open>Cutting a str\<close>

text \<open>The innermost loop, from position \<open>la\<close> with node \<open>ptr\<close>; the result is \<open>(ptr, start, end, skip)\<close>.\<close>

fun look :: "'c list \<Rightarrow> 'c trie_node \<Rightarrow> nat \<Rightarrow> nat \<Rightarrow> nat \<Rightarrow> nat \<Rightarrow> nat \<Rightarrow> 'c trie_node \<times> nat \<times> nat \<times> nat" where
  "look [] ptr la look_start start en skip = (ptr, start, en, skip)"
| "look (ch # rest) ptr la look_start start en skip =
     (case child ptr ch of
        None \<Rightarrow> (ptr, start, en, skip)
      | Some n \<Rightarrow>
          if is_end n then look rest n (la + 1) look_start look_start (la + 1) (la + 1)
          else look rest n (la + 1) look_start start en skip)"

text \<open>The loop over all states that may begin an earlier or longer match: \<open>(start, max_end, skip)\<close>.\<close>

fun look_states :: "'c list \<Rightarrow> nat \<Rightarrow> (nat \<times> 'c trie_node) list \<Rightarrow> nat \<Rightarrow> nat \<Rightarrow> nat \<Rightarrow> nat \<times> nat \<times> nat" where
  "look_states str current [] start max_end skip = (start, max_end, skip)"
| "look_states str current ((look_start, look_node) # r) start max_end skip =
     (if look_start > start then (start, max_end, skip)
      else
        (let la = if look_start < start then current + 1 else current
         in case look (drop la str) look_node la look_start start la skip of
              (ptr, start', en, skip') \<Rightarrow>
                look_states str current r start' (if is_end ptr \<and> en > max_end then en else max_end) skip'))"

text \<open>
  The loop over the states at one position: either a match ends the round, or all states have moved
  on. \<open>seen\<close> are the entries already visited; a state that cannot move keeps its node until the end
  of the round.
\<close>

datatype 'c scan_end = Match nat nat nat | Moved "(nat \<times> 'c trie_node) list" "nat list"

fun scan_states :: "'c list \<Rightarrow> nat \<Rightarrow> nat \<Rightarrow> (nat \<times> 'c trie_node) list \<Rightarrow> nat list \<Rightarrow>
    (nat \<times> 'c trie_node) list \<Rightarrow> 'c scan_end" where
  "scan_states str current skip seen to_remove [] = Moved seen to_remove"
| "scan_states str current skip seen to_remove ((start, node) # r) =
     (if is_end node then
        (case look_states str current (seen @ (start, node) # r) start current skip of
           (start', max_end, skip') \<Rightarrow> Match start' max_end skip')
      else
        (case child node (str ! current) of
           Some n \<Rightarrow> scan_states str current skip (seen @ [(start, n)]) to_remove r
         | None \<Rightarrow> scan_states str current skip (seen @ [(start, node)]) (start # to_remove) r))"

record 'c split_state =
  sp_states :: "(nat \<times> 'c trie_node) list"
  sp_offsets :: "nat list"
  sp_skip :: nat

definition add_state :: "'c trie_node \<Rightarrow> 'c list \<Rightarrow> nat \<Rightarrow> 'c split_state \<Rightarrow> 'c split_state" where
  "add_state root str current s =
     (if current \<ge> sp_skip s then
        (case child root (str ! current) of
           None \<Rightarrow> s
         | Some n \<Rightarrow> s\<lparr>sp_states := sp_states s @ [(current, n)]\<rparr>)
      else s)"

definition split_step :: "'c trie_node \<Rightarrow> 'c list \<Rightarrow> nat \<Rightarrow> 'c split_state \<Rightarrow> 'c split_state" where
  "split_step root str current s =
     (if sp_skip s > current then s
      else
        (case scan_states str current (sp_skip s) [] [] (sp_states s) of
           Match start max_end skip \<Rightarrow>
             add_state root str current
               \<lparr>sp_states = [], sp_offsets = sp_offsets s @ [start, max_end], sp_skip = skip\<rparr>
         | Moved states to_remove \<Rightarrow>
             add_state root str current
               (s\<lparr>sp_states := filter (\<lambda>e. fst e \<notin> set to_remove) states\<rparr>)))"

fun end_states :: "'c list \<Rightarrow> (nat \<times> 'c trie_node) list \<Rightarrow> nat list \<Rightarrow> nat list" where
  "end_states str [] offsets = offsets"
| "end_states str ((start, node) # r) offsets =
     (if is_end node then offsets @ [start, length str] else end_states str r offsets)"

definition split_offsets :: "'c trie_node \<Rightarrow> 'c list \<Rightarrow> nat list" where
  "split_offsets root str =
     (let s = fold (split_step root str) [0..<length str] \<lparr>sp_states = [], sp_offsets = [0], sp_skip = 0\<rparr>
      in sort (end_states str (sp_states s) (sp_offsets s)))"

fun cut_at :: "'c list \<Rightarrow> nat \<Rightarrow> nat list \<Rightarrow> 'c list list" where
  "cut_at str prev [] = (if prev \<noteq> length str then [drop prev str] else [])"
| "cut_at str prev (x # xs) =
     (if prev \<noteq> x then take (x - prev) (drop prev str) # cut_at str x xs else cut_at str x xs)"

definition trie_split :: "'c special_trie \<Rightarrow> 'c list \<Rightarrow> 'c list list" where
  "trie_split t str = (case split_offsets (st_root t) str of [] \<Rightarrow> [] | x # xs \<Rightarrow> cut_at str x xs)"

subsection \<open>The words of a trie\<close>

fun node_has :: "'c trie_node \<Rightarrow> 'c list \<Rightarrow> bool" where
  "node_has n [] = is_end n"
| "node_has n (c # w) = (case child n c of None \<Rightarrow> False | Some m \<Rightarrow> node_has m w)"

lemma child_set_child [simp]:
  "child (TNode (set_child c m cs) e) d = (if d = c then Some m else map_of cs d)"
  by (simp add: child_def set_child_def map_of_filter_neq)

lemma node_has_empty [simp]: "\<not> node_has (TNode [] False) w"
  by (cases w) (simp_all add: child_def)

lemma node_has_add: "node_has (node_add w n) v \<longleftrightarrow> v = w \<or> node_has n v"
proof (induction w n arbitrary: v rule: node_add.induct)
  case (1 n)
  then show ?case by (cases v) (auto simp: child_def)
next
  case (2 c w n)
  then show ?case
    by (cases v) (auto simp: 2 child_def [symmetric] split: option.splits)
qed

text \<open>The set of tokens and the trie agree: \<open>trie_ok\<close>.\<close>

definition trie_ok :: "'c special_trie \<Rightarrow> bool" where
  "trie_ok t \<longleftrightarrow> (\<forall>w. node_has (st_root t) w \<longleftrightarrow> w \<in> set (st_tokens t)) \<and> [] \<notin> set (st_tokens t)"

lemma trie_ok_new: "trie_ok new_trie"
  by (simp add: trie_ok_def new_trie_def)

lemma trie_ok_add: "trie_ok t \<Longrightarrow> trie_ok (trie_add w t)"
  by (auto simp: trie_ok_def trie_add_def node_has_add)

lemma trie_ok_update: "trie_ok t \<Longrightarrow> trie_ok (trie_update ws t)"
  unfolding trie_update_def by (induction ws arbitrary: t) (simp_all add: trie_ok_add)

lemma tokens_update: "set (st_tokens (trie_update ws t)) = (set ws - {[]}) \<union> set (st_tokens t)"
  unfolding trie_update_def by (induction ws arbitrary: t) (auto simp: trie_add_def)

subsection \<open>Cutting loses nothing\<close>

lemma concat_cut_at:
  "sorted (prev # xs) \<Longrightarrow> \<forall>x \<in> set (prev # xs). x \<le> length str \<Longrightarrow> concat (cut_at str prev xs) = drop prev str"
proof (induction str prev xs rule: cut_at.induct)
  case (2 str prev x xs)
  then have "concat (cut_at str x xs) = drop x str" "prev \<le> x" by (cases "prev = x"; simp)+
  moreover have "drop prev str = take (x - prev) (drop prev str) @ drop x str"
    using \<open>prev \<le> x\<close> by (metis append_take_drop_id drop_drop le_add_diff_inverse2)
  ultimately show ?case by auto
qed simp

lemma look_bounds:
  assumes "look rest ptr la ls start en skip = (ptr', start', en', skip')" "la + length rest \<le> m"
    and "start \<le> m" "ls \<le> m" "en \<le> m"
  shows "start' \<le> m \<and> en' \<le> m"
  using assms
proof (induction rest arbitrary: ptr la start en skip)
  case (Cons ch rest)
  show ?case
  proof (cases "child ptr ch")
    case None
    with Cons.prems show ?thesis by simp
  next
    case (Some n)
    show ?thesis
    proof (cases "is_end n")
      case True
      then have "look rest n (la + 1) ls ls (la + 1) (la + 1) = (ptr', start', en', skip')"
        using Cons.prems(1) Some by simp
      from Cons.IH [OF this] Cons.prems show ?thesis by simp
    next
      case False
      then have "look rest n (la + 1) ls start en skip = (ptr', start', en', skip')"
        using Cons.prems(1) Some by simp
      from Cons.IH [OF this] Cons.prems show ?thesis by simp
    qed
  qed
qed simp

lemma look_states_bounds:
  assumes "look_states str current es start max_end skip = (start', max_end', skip')" "current < length str"
    and "\<forall>e \<in> set es. fst e \<le> length str" "start \<le> length str" "max_end \<le> length str"
  shows "start' \<le> length str \<and> max_end' \<le> length str"
  using assms
proof (induction es arbitrary: start max_end skip)
  case (Cons e es)
  obtain ls ln where e: "e = (ls, ln)" by force
  show ?case
  proof (cases "ls > start")
    case True
    with Cons.prems e show ?thesis by simp
  next
    case False
    define la where "la = (if ls < start then current + 1 else current)"
    obtain ptr st en sk where l: "look (drop la str) ln la ls start la skip = (ptr, st, en, sk)"
      by (metis prod_cases4)
    have "la \<le> length str" using Cons.prems(2) by (simp add: la_def)
    then have b: "st \<le> length str \<and> en \<le> length str"
      using look_bounds [OF l, of "length str"] Cons.prems e by simp
    have "look_states str current es st (if is_end ptr \<and> en > max_end then en else max_end) sk = (start', max_end', skip')"
      using Cons.prems(1) False l by (simp add: e la_def Let_def)
    from Cons.IH [OF this] Cons.prems b show ?thesis by simp
  qed
qed simp

lemma scan_keys:
  "scan_states str current skip seen rm r = Moved states rm' \<Longrightarrow> map fst states = map fst (seen @ r)"
  by (induction str current skip seen rm r rule: scan_states.induct) (auto split: if_splits option.splits prod.splits)

lemma scan_match_bounds:
  "scan_states str current skip seen rm r = Match a m k \<Longrightarrow> current < length str \<Longrightarrow>
     \<forall>e \<in> set (seen @ r). fst e \<le> length str \<Longrightarrow> a \<le> length str \<and> m \<le> length str"
proof (induction str current skip seen rm r rule: scan_states.induct)
  case (2 str current skip seen rm start node r)
  show ?case
  proof (cases "is_end node")
    case True
    then have "look_states str current (seen @ (start, node) # r) start current skip = (a, m, k)"
      using 2(3) by (simp split: prod.splits)
    from look_states_bounds [OF this] 2(4,5) show ?thesis by simp
  next
    case False
    then show ?thesis
      using 2 by (cases "child node (str ! current)") auto
  qed
qed simp

definition split_ok :: "'c list \<Rightarrow> 'c split_state \<Rightarrow> bool" where
  "split_ok str s \<longleftrightarrow> (\<forall>e \<in> set (sp_states s). fst e \<le> length str) \<and>
     (\<forall>x \<in> set (sp_offsets s). x \<le> length str) \<and> 0 \<in> set (sp_offsets s)"

lemma split_ok_add: "split_ok str s \<Longrightarrow> current < length str \<Longrightarrow> split_ok str (add_state root str current s)"
  by (auto simp: add_state_def split_ok_def split: option.split)

lemma split_ok_step:
  assumes "split_ok str s" "current < length str"
  shows "split_ok str (split_step root str current s)"
proof (cases "scan_states str current (sp_skip s) [] [] (sp_states s)")
  case (Match a m k)
  from scan_match_bounds [OF Match assms(2)] assms(1) have "a \<le> length str \<and> m \<le> length str"
    by (simp add: split_ok_def)
  with assms Match show ?thesis
    by (auto simp: split_step_def split_ok_def intro!: split_ok_add [unfolded split_ok_def])
next
  case (Moved states rm)
  have "fst ` set states = fst ` set (sp_states s)"
    using scan_keys [OF Moved] by (metis append_Nil list.set_map)
  then have "\<forall>e \<in> set states. fst e \<le> length str"
    using assms(1) unfolding split_ok_def by (metis imageE image_eqI)
  with assms Moved show ?thesis
    by (auto simp: split_step_def split_ok_def intro!: split_ok_add [unfolded split_ok_def])
qed

lemma split_ok_fold:
  "split_ok str s \<Longrightarrow> \<forall>i \<in> set is. i < length str \<Longrightarrow> split_ok str (fold (split_step root str) is s)"
  by (induction "is" arbitrary: s) (simp_all add: split_ok_step)

lemma end_states_bounds:
  "\<forall>e \<in> set es. fst e \<le> m \<Longrightarrow> \<forall>x \<in> set offs. x \<le> m \<Longrightarrow> length str = m \<Longrightarrow> 0 \<in> set offs \<Longrightarrow>
     (\<forall>x \<in> set (end_states str es offs). x \<le> m) \<and> 0 \<in> set (end_states str es offs)"
  by (induction str es offs rule: end_states.induct) auto

lemma split_offsets_ok: "(\<forall>x \<in> set (split_offsets root str). x \<le> length str) \<and> 0 \<in> set (split_offsets root str)"
proof -
  define s where "s = fold (split_step root str) [0..<length str] \<lparr>sp_states = [], sp_offsets = [0], sp_skip = 0\<rparr>"
  have "split_ok str s" unfolding s_def by (rule split_ok_fold) (simp_all add: split_ok_def)
  then show ?thesis
    using end_states_bounds [of "sp_states s" "length str" "sp_offsets s" str]
    by (simp add: split_offsets_def s_def [symmetric] Let_def split_ok_def)
qed

text \<open>
  Whatever the special tokens are, the pieces of a text, joined, are the text.
\<close>

theorem split_lossless: "concat (trie_split t str) = str"
proof -
  obtain x xs where o: "split_offsets (st_root t) str = x # xs"
    using split_offsets_ok [of "st_root t" str] by (cases "split_offsets (st_root t) str") auto
  have s: "sorted (x # xs)" unfolding o [symmetric] by (simp add: split_offsets_def Let_def)
  then have "x = 0" using split_offsets_ok [of "st_root t" str] by (auto simp: o)
  with concat_cut_at [OF s] split_offsets_ok [of "st_root t" str] show ?thesis
    by (simp add: trie_split_def o)
qed

subsection \<open>Paths in a trie\<close>

fun walk :: "'c trie_node \<Rightarrow> 'c list \<Rightarrow> 'c trie_node option" where
  "walk n [] = Some n"
| "walk n (c # v) = (case child n c of None \<Rightarrow> None | Some m \<Rightarrow> walk m v)"

lemma walk_append: "walk n (v @ u) = (case walk n v of None \<Rightarrow> None | Some m \<Rightarrow> walk m u)"
  by (induction n v rule: walk.induct) (auto split: option.splits)

lemma node_has_walk: "node_has n w \<longleftrightarrow> (\<exists>m. walk n w = Some m \<and> is_end m)"
  by (induction n w rule: node_has.induct) (auto split: option.splits)

lemma walk_empty: "walk (TNode [] e) v = (if v = [] then Some (TNode [] e) else None)"
  by (cases v) (simp_all add: child_def)

lemma walk_add: "walk (node_add w n) v \<noteq> None \<longleftrightarrow> take (length v) w = v \<or> walk n v \<noteq> None"
proof (induction w n arbitrary: v rule: node_add.induct)
  case (1 n)
  then show ?case by (cases v) (auto simp: child_def)
next
  case (2 c w n)
  show ?case
  proof (cases v)
    case (Cons d v')
    then show ?thesis
      using 2 [of v'] by (auto simp: child_def [symmetric] walk_empty split: option.splits)
  qed simp
qed

definition trie_for :: "'c trie_node \<Rightarrow> 'c list set \<Rightarrow> bool" where
  "trie_for n W \<longleftrightarrow> (\<forall>w. node_has n w \<longleftrightarrow> w \<in> W) \<and>
     (\<forall>v. v \<noteq> [] \<and> walk n v \<noteq> None \<longrightarrow> (\<exists>w \<in> W. take (length v) w = v))"

lemma trie_for_add: "trie_for n W \<Longrightarrow> trie_for (node_add w n) (insert w W)"
  unfolding trie_for_def by (auto simp only: node_has_add walk_add)

lemma trie_for_update:
  "trie_for (st_root t) W \<Longrightarrow> trie_for (st_root (trie_update ws t)) (W \<union> (set ws - {[]}))"
  unfolding trie_update_def
proof (induction ws arbitrary: t W)
  case (Cons w ws)
  have "trie_for (st_root (trie_add w t)) (W \<union> ({w} - {[]}))"
    using trie_for_add [OF Cons.prems, of w] Cons.prems by (simp add: trie_add_def)
  moreover have "W \<union> ({w} - {[]}) \<union> (set ws - {[]}) = W \<union> (set (w # ws) - {[]})" by auto
  ultimately show ?case using Cons.IH [of "trie_add w t" "W \<union> ({w} - {[]})"] by simp
qed simp

lemma trie_for_new: "trie_for (st_root new_trie) {}"
  by (auto simp: trie_for_def new_trie_def walk_empty)

subsection \<open>Tokens with a start character\<close>

text \<open>
  The usual special tokens, such as \<^verbatim>\<open><|im_start|>\<close>: each begins with a character that occurs nowhere else
  in a token, and none is a prefix of another.
\<close>

definition clean_tokens :: "'c \<Rightarrow> 'c list set \<Rightarrow> bool" where
  "clean_tokens s W \<longleftrightarrow> (\<forall>w \<in> W. \<exists>v. w = s # v \<and> s \<notin> set v) \<and>
     (\<forall>w \<in> W. \<forall>w' \<in> W. take (length w) w' = w \<longrightarrow> w = w')"

text \<open>The reference: the positions of the tokens, scanning from left to right.\<close>

definition token_at :: "'c list list \<Rightarrow> 'c list \<Rightarrow> nat \<Rightarrow> 'c list option" where
  "token_at ws str i = find (\<lambda>w. w \<noteq> [] \<and> take (length w) (drop i str) = w) ws"

lemma token_at_Some:
  "token_at ws str i = Some w \<Longrightarrow> w \<in> set ws \<and> w \<noteq> [] \<and> take (length w) (drop i str) = w"
  by (auto simp: token_at_def find_Some_iff in_set_conv_nth)

lemma token_at_None: "token_at ws str i = None \<longleftrightarrow> (\<forall>w \<in> set ws. w = [] \<or> take (length w) (drop i str) \<noteq> w)"
  by (auto simp: token_at_def find_None_iff)

function occ :: "'c list list \<Rightarrow> 'c list \<Rightarrow> nat \<Rightarrow> nat list" where
  "occ ws str i =
     (if i < length str then
        (case token_at ws str i of
           None \<Rightarrow> occ ws str (i + 1)
         | Some w \<Rightarrow> i # (i + length w) # occ ws str (i + length w))
      else [])"
  by pat_completeness auto
termination
  by (relation "measure (\<lambda>(ws, str, i). length str - i)") (auto dest: token_at_Some intro!: diff_less_mono2)

declare occ.simps [simp del]

lemma occ_end: "occ ws str (length str) = []"
  by (subst occ.simps) simp

lemma occ_token: "i < length str \<Longrightarrow> token_at ws str i = Some w \<Longrightarrow> occ ws str i = i # (i + length w) # occ ws str (i + length w)"
  by (subst occ.simps) simp

lemma occ_skip: "i < length str \<Longrightarrow> token_at ws str i = None \<Longrightarrow> occ ws str i = occ ws str (i + 1)"
  by (subst occ.simps) simp

lemma take_comparable: "take (length a) x = a \<Longrightarrow> take (length b) x = b \<Longrightarrow> length a \<le> length b \<Longrightarrow> take (length a) b = a"
  by (metis min.absorb1 take_take)

lemma token_at_clean:
  assumes "clean_tokens s (set ws)" "w \<in> set ws" "take (length w) (drop i str) = w"
  shows "token_at ws str i = Some w"
proof -
  have ne: "w \<noteq> []" using assms(1,2) by (fastforce simp: clean_tokens_def)
  then obtain w' where w': "token_at ws str i = Some w'"
    using assms(2,3) token_at_None [of ws str i] by fastforce
  note t = token_at_Some [OF w']
  have "w = w' \<or> w' = w"
    using take_comparable [of w "drop i str" w'] take_comparable [of w' "drop i str" w] assms t
    unfolding clean_tokens_def by (metis linear)
  with w' show ?thesis by auto
qed

lemma token_start:
  "clean_tokens s (set ws) \<Longrightarrow> token_at ws str i = Some w \<Longrightarrow> i < length str \<and> str ! i = s"
proof -
  assume c: "clean_tokens s (set ws)" and "token_at ws str i = Some w"
  note t = token_at_Some [OF this(2)]
  then obtain v where "w = s # v" using c by (auto simp: clean_tokens_def)
  with t have "take 1 (drop i str) = [s]"
    by (metis One_nat_def length_Cons take_Suc_Cons take_0 take_take min_Suc_Suc min_0L)
  then show ?thesis by (cases "i < length str") (simp_all add: Cons_nth_drop_Suc [symmetric])
qed

lemma occ_plain:
  assumes "clean_tokens s (set ws)" "i \<le> j" "j \<le> length str" "\<forall>k. i \<le> k \<and> k < j \<longrightarrow> str ! k \<noteq> s"
  shows "occ ws str i = occ ws str j"
  using assms(2-)
proof (induction "j - i" arbitrary: i)
  case (Suc d)
  then have "i < j" by simp
  then have "token_at ws str i = None"
    using token_start [OF assms(1), of str i] Suc.prems by (cases "token_at ws str i") auto
  then have "occ ws str i = occ ws str (i + 1)" using \<open>i < j\<close> Suc.prems by (intro occ_skip) simp_all
  also have "\<dots> = occ ws str j" using Suc \<open>i < j\<close> by (intro Suc.hyps) auto
  finally show ?case .
qed simp

text \<open>The characters from \<open>st\<close> to before \<open>cur\<close>, as followed from the root.\<close>

definition sub_str :: "'c list \<Rightarrow> nat \<Rightarrow> nat \<Rightarrow> 'c list" where
  "sub_str str st cur = take (cur - st) (drop st str)"

lemma sub_str_snoc: "st \<le> cur \<Longrightarrow> cur < length str \<Longrightarrow> sub_str str st (cur + 1) = sub_str str st cur @ [str ! cur]"
  unfolding sub_str_def by (simp add: Suc_diff_le take_Suc_conv_app_nth)

lemma length_sub_str: "st \<le> cur \<Longrightarrow> cur \<le> length str \<Longrightarrow> length (sub_str str st cur) = cur - st"
  by (simp add: sub_str_def)

lemma nth_sub_str: "st \<le> k \<Longrightarrow> k < cur \<Longrightarrow> cur \<le> length str \<Longrightarrow> str ! k = sub_str str st cur ! (k - st)"
  by (simp add: sub_str_def)

lemma walk_sub_str:
  assumes "trie_for root W" "clean_tokens s W" "st < cur" "cur \<le> length str" "walk root (sub_str str st cur) \<noteq> None"
  shows "str ! st = s" "\<forall>k. st + 1 \<le> k \<and> k < cur \<longrightarrow> str ! k \<noteq> s"
    "\<exists>w \<in> W. take (cur - st) w = sub_str str st cur"
proof -
  have len: "length (sub_str str st cur) = cur - st" using assms by (simp add: length_sub_str)
  then obtain w where w: "w \<in> W" "take (cur - st) w = sub_str str st cur"
    using assms(1,3,5) unfolding trie_for_def by (metis list.size(3) zero_less_diff less_numeral_extra(3))
  then show "\<exists>w \<in> W. take (cur - st) w = sub_str str st cur" by blast
  obtain v where v: "w = s # v" "s \<notin> set v" using w assms(2) by (auto simp: clean_tokens_def)
  have n: "str ! k = w ! (k - st) \<and> k - st < length w" if "st \<le> k" "k < cur" for k
  proof -
    have "str ! k = sub_str str st cur ! (k - st)" "k - st < length (sub_str str st cur)"
      using that assms len by (simp_all add: nth_sub_str)
    with w(2) show ?thesis by (metis length_take min_less_iff_conj nth_take)
  qed
  show "str ! st = s" using n [of st] assms(3) v by simp
  show "\<forall>k. st + 1 \<le> k \<and> k < cur \<longrightarrow> str ! k \<noteq> s"
  proof (intro allI impI)
    fix k
    assume k: "st + 1 \<le> k \<and> k < cur"
    then have "str ! k = v ! (k - st - 1)" "k - st - 1 < length v" using n [of k] v by (auto simp: nth_Cons')
    with v(2) show "str ! k \<noteq> s" by (metis nth_mem)
  qed
qed

lemma child_root: "trie_for root W \<Longrightarrow> clean_tokens s W \<Longrightarrow> child root c \<noteq> None \<Longrightarrow> c = s"
proof -
  assume t: "trie_for root W" "clean_tokens s W" "child root c \<noteq> None"
  then have "walk root [c] \<noteq> None" by (auto split: option.split)
  then obtain w where "w \<in> W" "take (length [c]) w = [c]" using t(1) unfolding trie_for_def by blast
  with t(2) show "c = s" by (auto simp: clean_tokens_def)
qed

lemma end_is_leaf:
  assumes "trie_for root W" "clean_tokens s W" "walk root v = Some m" "is_end m"
  shows "child m c = None"
proof (rule ccontr)
  assume "child m c \<noteq> None"
  then have "walk root (v @ [c]) \<noteq> None" using assms(3) by (auto simp: walk_append split: option.splits)
  then obtain w where w: "w \<in> W" "take (length (v @ [c])) w = v @ [c]"
    using assms(1) unfolding trie_for_def by (metis snoc_eq_iff_butlast)
  have "v \<in> W" using assms(1,3,4) by (auto simp: trie_for_def node_has_walk)
  moreover have "take (length v) w = v" using take_comparable [of v "v @ [c]" w] w(2)
    by (metis append_eq_conv_conj append_take_drop_id append.assoc)
  ultimately have "v = w" using assms(2) w(1) unfolding clean_tokens_def by blast
  with w(2) show False by simp
qed

definition nx :: "'c trie_node \<Rightarrow> 'c list \<Rightarrow> nat \<Rightarrow> (nat \<times> 'c trie_node) list" where
  "nx root str cur = (case child root (str ! cur) of None \<Rightarrow> [] | Some n \<Rightarrow> [(cur, n)])"

abbreviation at_state :: "(nat \<times> 'c trie_node) list \<Rightarrow> nat list \<Rightarrow> 'c split_state" where
  "at_state S offs \<equiv> \<lparr>sp_states = S, sp_offsets = offs, sp_skip = 0\<rparr>"

lemma add_state_nx: "add_state root str cur (at_state S offs) = at_state (S @ nx root str cur) offs"
  by (simp add: add_state_def nx_def split: option.split)

lemma step_nil: "split_step root str cur (at_state [] offs) = at_state (nx root str cur) offs"
  by (simp add: split_step_def add_state_nx)

lemma step_end:
  assumes "is_end m" "child m (str ! cur) = None" "cur < length str"
  shows "split_step root str cur (at_state [(st, m)] offs) = at_state (nx root str cur) (offs @ [st, cur])"
proof -
  have "look (drop cur str) m cur st st cur 0 = (m, st, cur, 0)"
    using assms by (simp add: Cons_nth_drop_Suc [symmetric])
  then show ?thesis using assms by (simp add: split_step_def add_state_nx Let_def)
qed

lemma step_move:
  "\<not> is_end m \<Longrightarrow> child m (str ! cur) = Some n \<Longrightarrow>
     split_step root str cur (at_state [(st, m)] offs) = at_state ((st, n) # nx root str cur) offs"
  by (simp add: split_step_def add_state_nx)

lemma step_fail:
  "\<not> is_end m \<Longrightarrow> child m (str ! cur) = None \<Longrightarrow>
     split_step root str cur (at_state [(st, m)] offs) = at_state (nx root str cur) offs"
  by (simp add: split_step_def add_state_nx)

definition state_ok :: "'c trie_node \<Rightarrow> 'c list \<Rightarrow> (nat \<times> 'c trie_node) list \<Rightarrow> nat \<Rightarrow> bool" where
  "state_ok root str S cur \<longleftrightarrow>
     (case S of [] \<Rightarrow> True | (st, m) # r \<Rightarrow> r = [] \<and> st < cur \<and> walk root (sub_str str st cur) = Some m)"

definition pos :: "(nat \<times> 'c trie_node) list \<Rightarrow> nat \<Rightarrow> nat" where
  "pos S cur = (case S of [] \<Rightarrow> cur | (st, m) # r \<Rightarrow> st)"

lemma nx_ok: "cur < length str \<Longrightarrow> state_ok root str (nx root str cur) (cur + 1)"
  by (simp add: state_ok_def nx_def sub_str_def take_Suc_conv_app_nth hd_drop_conv_nth take_Suc split: option.split)

lemma occ_nx:
  assumes "trie_for root (set ws)" "cur < length str"
  shows "occ ws str (pos (nx root str cur) (cur + 1)) = occ ws str cur"
proof (cases "child root (str ! cur)")
  case None
  have "token_at ws str cur = None"
  proof (rule ccontr)
    assume "token_at ws str cur \<noteq> None"
    then obtain w where w: "w \<in> set ws" "w \<noteq> []" "take (length w) (drop cur str) = w"
      using token_at_Some by blast
    obtain d v where dv: "w = d # v" using w(2) by (cases w) auto
    have "d = str ! cur" using w(3) assms(2) unfolding dv by (simp add: Cons_nth_drop_Suc [symmetric])
    then have "w = str ! cur # v" using dv by simp
    moreover have "walk root w \<noteq> None" using w(1) assms(1) by (auto simp: trie_for_def node_has_walk)
    ultimately show False using None by simp
  qed
  with None assms(2) show ?thesis by (simp add: nx_def pos_def occ_skip)
qed (simp add: nx_def pos_def)

text \<open>A path that cannot go on, or reaches the end of the text, was no token.\<close>

lemma occ_failed:
  assumes "trie_for root (set ws)" "clean_tokens s (set ws)" "st < cur" "cur \<le> length str"
    and "walk root (sub_str str st cur) = Some m" "\<not> is_end m" "cur < length str \<longrightarrow> child m (str ! cur) = None"
  shows "occ ws str st = occ ws str cur"
proof -
  have len: "length (sub_str str st cur) = cur - st" using assms by (simp add: length_sub_str)
  have path: "walk root (sub_str str st cur) \<noteq> None" using assms(5) by simp
  note p = walk_sub_str [OF assms(1,2,3,4) path]
  have "token_at ws str st = None"
  proof (rule ccontr)
    assume "token_at ws str st \<noteq> None"
    then obtain w where w: "w \<in> set ws" "take (length w) (drop st str) = w" using token_at_Some by blast
    then have nh: "node_has root w" using assms(1) by (simp add: trie_for_def)
    obtain w2 where w2: "w2 \<in> set ws" "take (cur - st) w2 = sub_str str st cur" using p(3) by blast
    show False
    proof (cases "length w \<le> cur - st")
      case True
      then have "take (length w) (sub_str str st cur) = w" using w(2) by (simp add: sub_str_def min_absorb1)
      then have "take (length w) w2 = w" using True w2(2) by (metis min.absorb1 take_take)
      then have "w = w2" using w(1) w2(1) assms(2) unfolding clean_tokens_def by blast
      with True w2(2) have "w = sub_str str st cur" by simp
      with nh assms(5,6) show False by (simp add: node_has_walk)
    next
      case False
      have "length w = min (length w) (length str - st)" using arg_cong [OF w(2), of length] by (simp add: min.commute)
      then have "length w \<le> length str - st" by linarith
      with False have c: "cur < length str" by simp
      have "take (cur + 1 - st) w = sub_str str st (cur + 1)"
        using False w(2) unfolding sub_str_def by (metis Suc_diff_le Suc_eq_plus1 assms(3) less_imp_le min.absorb1 not_less_eq_eq take_take)
      then have "take (cur + 1 - st) w = sub_str str st cur @ [str ! cur]"
        using c assms(3) sub_str_snoc [of st cur str] by simp
      then have "w = (sub_str str st cur @ [str ! cur]) @ drop (cur + 1 - st) w" by (metis append_take_drop_id)
      moreover have "walk root ((sub_str str st cur @ [str ! cur]) @ u) = None" for u
        using assms(5,7) c by (simp add: walk_append)
      ultimately show False using nh unfolding node_has_walk by (metis option.distinct(1))
    qed
  qed
  then have "occ ws str st = occ ws str (st + 1)" using assms(3,4) by (intro occ_skip) simp_all
  also have "\<dots> = occ ws str cur" using occ_plain [OF assms(2) _ assms(4) p(2)] assms(3) by simp
  finally show ?thesis .
qed

definition run_from :: "'c trie_node \<Rightarrow> 'c list \<Rightarrow> nat \<Rightarrow> 'c split_state \<Rightarrow> nat list" where
  "run_from root str cur s =
     (let r = fold (split_step root str) [cur..<length str] s in end_states str (sp_states r) (sp_offsets r))"

lemma run_from_end: "run_from root str (length str) s = end_states str (sp_states s) (sp_offsets s)"
  by (simp add: run_from_def)

lemma run_from_step: "cur < length str \<Longrightarrow> run_from root str cur s = run_from root str (cur + 1) (split_step root str cur s)"
  by (simp add: run_from_def upt_conv_Cons)

lemma token_of_state:
  assumes "trie_for root (set ws)" "clean_tokens s (set ws)" "st < cur" "cur \<le> length str"
    and "walk root (sub_str str st cur) = Some m" "is_end m"
  shows "occ ws str st = st # cur # occ ws str cur"
proof -
  have w: "sub_str str st cur \<in> set ws" using assms(1,5,6) by (auto simp: trie_for_def node_has_walk)
  have "length (sub_str str st cur) = cur - st" using assms(3,4) by (simp add: length_sub_str)
  then have "token_at ws str st = Some (sub_str str st cur)"
    by (intro token_at_clean [OF assms(2) w]) (simp add: sub_str_def)
  from occ_token [OF _ this] assms(3,4) \<open>length (sub_str str st cur) = cur - st\<close> show ?thesis by simp
qed

lemma run_from_occ:
  assumes T: "trie_for root (set ws)" and C: "clean_tokens s (set ws)"
  shows "cur \<le> length str \<Longrightarrow> state_ok root str S cur \<Longrightarrow>
    run_from root str cur (at_state S offs) = offs @ occ ws str (pos S cur)"
proof (induction "length str - cur" arbitrary: cur S offs)
  case 0
  then have cur: "cur = length str" by simp
  show ?case
  proof (cases S)
    case Nil
    then show ?thesis by (simp add: cur run_from_end pos_def occ_end)
  next
    case (Cons e r)
    then obtain st m where S: "S = [(st, m)]" "st < cur" "walk root (sub_str str st cur) = Some m"
      using 0(3) by (cases e) (auto simp: state_ok_def)
    show ?thesis
    proof (cases "is_end m")
      case True
      from token_of_state [OF T C S(2) 0(2) S(3) True] True S show ?thesis
        by (simp add: cur run_from_end pos_def occ_end)
    next
      case False
      from occ_failed [OF T C S(2) 0(2) S(3) False] False S show ?thesis
        by (simp add: cur run_from_end pos_def occ_end)
    qed
  qed
next
  case (Suc d)
  then have cur: "cur < length str" "cur + 1 \<le> length str" "d = length str - (cur + 1)" by simp_all
  note IH = Suc.hyps(1) [OF cur(3,2)]
  have next_pos: "run_from root str (cur + 1) (at_state (nx root str cur) offs') = offs' @ occ ws str cur" for offs'
    using IH [OF nx_ok [OF cur(1)]] occ_nx [OF T cur(1)] by simp
  note u = run_from_step [OF cur(1)]
  show ?case
  proof (cases S)
    case Nil
    then show ?thesis using next_pos [of offs] by (simp only: u step_nil) (simp add: pos_def)
  next
    case (Cons e r)
    then obtain st m where S: "S = [(st, m)]" "st < cur" "walk root (sub_str str st cur) = Some m"
      using Suc.prems(2) by (cases e) (auto simp: state_ok_def)
    have p: "pos S cur = st" by (simp add: S pos_def)
    consider (token) "is_end m" | (fail) "\<not> is_end m" "child m (str ! cur) = None"
      | (move) n where "\<not> is_end m" "child m (str ! cur) = Some n" by blast
    then show ?thesis
    proof cases
      case token
      from step_end [OF token end_is_leaf [OF T C S(3) token] cur(1)] next_pos [of "offs @ [st, cur]"]
        token_of_state [OF T C S(2) Suc.prems(1) S(3) token] p
      show ?thesis by (simp add: u S(1))
    next
      case fail
      from step_fail [OF fail, of root st offs] next_pos [of offs]
        occ_failed [OF T C S(2) Suc.prems(1) S(3) fail(1)] fail(2) p
      show ?thesis by (simp add: u S(1))
    next
      case move
      have w: "walk root (sub_str str st (cur + 1)) = Some n"
        using sub_str_snoc [of st cur str] S(2,3) cur(1) move(2) by (simp add: walk_append)
      then have "str ! cur \<noteq> s" using walk_sub_str(2) [OF T C, of st "cur + 1" str] S(2) cur by auto
      then have "nx root str cur = []" using child_root [OF T C, of "str ! cur"]
        by (cases "child root (str ! cur)") (simp_all add: nx_def)
      then have "split_step root str cur (at_state [(st, m)] offs) = at_state [(st, n)] offs"
        using step_move [OF move] by simp
      moreover have "run_from root str (cur + 1) (at_state [(st, n)] offs) = offs @ occ ws str st"
        using IH [of "[(st, n)]" offs] S(2) w by (simp add: state_ok_def pos_def)
      ultimately show ?thesis by (simp add: u S(1) p [unfolded S(1)])
    qed
  qed
qed

lemma occ_sorted: "sorted (occ ws str i) \<and> (\<forall>x \<in> set (occ ws str i). i \<le> x)"
proof (induction ws str i rule: occ.induct)
  case (1 ws str i)
  show ?case
  proof (cases "i < length str")
    case True
    show ?thesis
    proof (cases "token_at ws str i")
      case None
      with 1(1) [OF True None] True show ?thesis by (auto simp: occ_skip)
    next
      case (Some w)
      with 1(2) [OF True Some] True show ?thesis by (auto simp: occ_token)
    qed
  qed (simp add: occ.simps)
qed

text \<open>The reference on strings: plain characters gather in \<open>acc\<close> until a token begins.\<close>

definition flush :: "'c list \<Rightarrow> 'c list list" where
  "flush acc = (if acc = [] then [] else [acc])"

function cut_spec :: "'c list list \<Rightarrow> 'c list \<Rightarrow> 'c list \<Rightarrow> 'c list list" where
  "cut_spec ws acc [] = flush acc"
| "cut_spec ws acc (c # r) =
     (case token_at ws (c # r) 0 of
        Some w \<Rightarrow> flush acc @ w # cut_spec ws [] (drop (length w) (c # r))
      | None \<Rightarrow> cut_spec ws (acc @ [c]) r)"
  by pat_completeness auto
termination
  by (relation "measure (\<lambda>(ws, acc, str). length str)") (auto dest: token_at_Some)

lemma cut_at_occ:
  "a \<le> i \<Longrightarrow> i \<le> length str \<Longrightarrow> cut_at str a (occ ws str i) = cut_spec ws (sub_str str a i) (drop i str)"
proof (induction ws str i arbitrary: a rule: occ.induct)
  case (1 ws str i)
  show ?case
  proof (cases "i < length str")
    case True
    then have d: "drop i str = str ! i # drop (i + 1) str" by (simp add: Cons_nth_drop_Suc)
    have t0: "token_at ws (drop i str) 0 = token_at ws str i" by (simp add: token_at_def)
    show ?thesis
    proof (cases "token_at ws str i")
      case None
      then show ?thesis
        using 1(1) [OF True None, of a] 1(3) True d t0 sub_str_snoc [of a i str] by (simp add: occ_skip)
    next
      case (Some w)
      note w = token_at_Some [OF Some]
      have "length w = min (length w) (length str - i)"
        using arg_cong [OF conjunct2 [OF conjunct2 [OF w]], of length] by (simp add: min.commute)
      then have l: "i + length w \<le> length str" using True by linarith
      have "cut_at str (i + length w) (occ ws str (i + length w)) = cut_spec ws [] (drop (i + length w) str)"
        using 1(2) [OF True Some, of "i + length w"] l by (simp add: sub_str_def)
      moreover have "drop (length w) (drop i str) = drop (i + length w) str" by (simp add: add.commute)
      ultimately show ?thesis
        using Some d t0 w 1(3,4) True
        by (simp add: occ_token sub_str_def flush_def del: drop_drop)
    qed
  next
    case False
    with 1(4) have "i = length str" by simp
    with 1(3) show ?thesis by (cases "a = i") (auto simp: occ_end flush_def sub_str_def)
  qed
qed

lemma clean_no_empty: "clean_tokens s W \<Longrightarrow> [] \<notin> W"
  by (auto simp: clean_tokens_def)

text \<open>
  C26: When all special tokens begin with one common character that occurs nowhere else in a token, and no
  token is a prefix of another, a text is cut exactly as a scan from left to right would: a token is a
  piece of its own, and the characters between two tokens are one piece.
\<close>

theorem split_isolates_tokens:
  assumes "clean_tokens s (set ws)"
  shows "trie_split (trie_update ws new_trie) str = cut_spec ws [] str"
proof -
  define root where "root = st_root (trie_update ws new_trie)"
  have "trie_for root (set ws)"
    using trie_for_update [OF trie_for_new, of ws] clean_no_empty [OF assms] by (simp add: root_def)
  from run_from_occ [OF this assms, of 0 str "[]" "[0]"]
  have "run_from root str 0 (at_state [] [0]) = 0 # occ ws str 0" by (simp add: state_ok_def pos_def)
  then have "split_offsets root str = sort (0 # occ ws str 0)"
    by (simp add: split_offsets_def run_from_def Let_def)
  moreover have "sorted (0 # occ ws str 0)" using occ_sorted [of ws str 0] by simp
  ultimately have "split_offsets root str = 0 # occ ws str 0" by (metis sorted_sort_id)
  then show ?thesis using cut_at_occ [of 0 0 str ws] by (simp add: trie_split_def root_def sub_str_def)
qed

theorem split_isolates_tokens_witness:
  "trie_split (trie_update [''<a>'', ''<b>''] new_trie) ''x<a><<b>y'' = cut_spec [''<a>'', ''<b>''] [] ''x<a><<b>y''"
  by (rule split_isolates_tokens [where s = "CHR ''<''"]) (simp add: clean_tokens_def)

text \<open>The result of the reference on this text.\<close>

lemma cut_spec_example: "cut_spec [''<a>'', ''<b>''] [] ''x<a><<b>y'' = [''x'', ''<a>'', ''<'', ''<b>'', ''y'']"
  by (simp add: token_at_def flush_def)

text \<open>
  Without these conditions tokens are missed. With tokens a, ab and abcd, the text abcx is not cut into
  ab and cx: the search for a longer match ends inside abcd and forgets the end of ab. With tokens abcd
  and bc, the text abcd is cut into a and bcd although it is a token: the longer match from an earlier
  start counts for the end but not for the start.
\<close>

theorem split_misses_tokens:
  "trie_split (trie_update [''a'', ''ab'', ''abcd''] new_trie) ''abcx'' = [''a'', ''bcx''] \<and>
   trie_split (trie_update [''abcd'', ''bc''] new_trie) ''abcd'' = [''a'', ''bcd'']"
  by (simp add: trie_split_def split_offsets_def trie_update_def trie_add_def new_trie_def
      set_child_def child_def split_step_def add_state_def Let_def upt_conv_Cons)

subsection \<open>TrieUTF8 and AutoTokenizer\<close>

text \<open>\<^verbatim>\<open>TrieUTF8\<close> converts words and texts to code points first, and the pieces back.\<close>

definition trie8_add :: "('b \<Rightarrow> 'c list outcome) \<Rightarrow> 'b \<Rightarrow> 'c special_trie \<Rightarrow> 'c special_trie outcome" where
  "trie8_add to32 word_utf8 t = obind (to32 word_utf8) (\<lambda>word. Inr (trie_add word t))"

definition trie8_update :: "('b \<Rightarrow> 'c list outcome) \<Rightarrow> 'b list \<Rightarrow> 'c special_trie \<Rightarrow> 'c special_trie outcome" where
  "trie8_update to32 words t = ofold (trie8_add to32) words t"

definition trie8_split :: "('b \<Rightarrow> 'c list outcome) \<Rightarrow> ('c list \<Rightarrow> 'b outcome) \<Rightarrow> 'c special_trie \<Rightarrow> 'b \<Rightarrow> 'b list outcome" where
  "trie8_split to32 to8 t text_utf8 = obind (to32 text_utf8) (\<lambda>str. omap to8 (trie_split t str))"

definition isSpecialToken8 :: "('b \<Rightarrow> 'c list outcome) \<Rightarrow> 'c special_trie \<Rightarrow> 'b \<Rightarrow> bool outcome" where
  "isSpecialToken8 to32 t token = obind (to32 token) (\<lambda>w. Inr (isSpecialToken t w))"

definition addSpecialToken :: "'c list \<Rightarrow> 'c special_trie \<Rightarrow> 'c special_trie" where
  "addSpecialToken special_token t = trie_add special_token t"

lemma trie8_update_inside:
  "(\<And>w. w \<in> set words \<Longrightarrow> to32 w = Inr (f w)) \<Longrightarrow> trie8_update to32 words t = Inr (trie_update (map f words) t)"
  unfolding trie8_update_def trie_update_def
  by (induction words arbitrary: t) (simp_all add: trie8_add_def)

end
