(* ===== verification/Word_Piece.thy ===== *)
theory Word_Piece
  imports Unicode_Text
begin

text \<open>
  The WordPiece tokenizer, \<^verbatim>\<open>mllm/preprocessor/tokenizers/WordPiece.{hpp,cpp}\<close>. Texts are byte strings.
  A loop over the characters of a text calls \<^verbatim>\<open>utf8::next\<close>; \<open>uc_chars\<close> is the sequence of code points it
  reads, each with its bytes, or the exception of an invalid text, and \<open>uc_put\<close> is \<^verbatim>\<open>utf8::append\<close>. The lines
  of a vocabulary file and the parsed JSON document are parameters. Texts are shorter than 2^31 bytes.
\<close>

type_synonym bytes = "byte list"

record utfcpp =
  uc_chars :: "bytes \<Rightarrow> (wchar \<times> bytes) list outcome"
  uc_put :: "wchar \<Rightarrow> bytes"

subsection \<open>State\<close>

record added_token =
  at_id :: int
  at_content :: bytes
  at_single_word :: bool
  at_lstrip :: bool
  at_rstrip :: bool
  at_normalized :: bool
  at_special :: bool

record word_piece =
  wp_vocab :: "(bytes \<times> int) list"
  wp_inverse :: "(int \<times> bytes) list"
  wp_added :: "(bytes \<times> added_token) list"
  wp_lower :: bool
  wp_strip :: bool
  wp_chinese :: bool
  wp_max :: int
  wp_prefix :: bytes
  wp_unk :: bytes
  wp_unk_id :: int
  wp_pad :: bytes
  wp_pad_id :: int

text \<open>\<^verbatim>\<open>[PAD]\<close>, \<^verbatim>\<open>[UNK]\<close>, \<^verbatim>\<open>##\<close>\<close>

definition pad_name :: bytes where "pad_name = [0x5B, 0x50, 0x41, 0x44, 0x5D]"
definition unk_name :: bytes where "unk_name = [0x5B, 0x55, 0x4E, 0x4B, 0x5D]"

definition new_word_piece :: word_piece where
  "new_word_piece =
     \<lparr>wp_vocab = [], wp_inverse = [], wp_added = [], wp_lower = False, wp_strip = False, wp_chinese = True,
      wp_max = 200, wp_prefix = [0x23, 0x23], wp_unk = unk_name, wp_unk_id = 0, wp_pad = pad_name, wp_pad_id = 0\<rparr>"

definition umap_set :: "'k \<Rightarrow> 'v \<Rightarrow> ('k \<times> 'v) list \<Rightarrow> ('k \<times> 'v) list" where
  "umap_set k v m = (k, v) # filter (\<lambda>e. fst e \<noteq> k) m"

lemma map_of_umap_set [simp]: "map_of (umap_set k v m) = (map_of m)(k \<mapsto> v)"
  by (simp add: umap_set_def map_of_filter_neq)

definition set_word :: "bytes \<Rightarrow> int \<Rightarrow> word_piece \<Rightarrow> word_piece" where
  "set_word w i wp = wp\<lparr>wp_vocab := umap_set w i (wp_vocab wp), wp_inverse := umap_set i w (wp_inverse wp)\<rparr>"

subsection \<open>Loading\<close>

definition strip_line :: "bytes \<Rightarrow> bytes" where
  "strip_line line = rev (dropWhile (\<lambda>c. c = 0x0A \<or> c = 0x0D) (rev line))"

fun load_lines :: "bytes list \<Rightarrow> int \<Rightarrow> word_piece \<Rightarrow> word_piece" where
  "load_lines [] idx wp = wp"
| "load_lines (line # ls) idx wp = load_lines ls (idx + 1) (set_word (strip_line line) idx wp)"

definition id_or_0 :: "word_piece \<Rightarrow> bytes \<Rightarrow> int" where
  "id_or_0 wp w = (case map_of (wp_vocab wp) w of Some i \<Rightarrow> i | None \<Rightarrow> 0)"

definition initFromVocabFile :: "bytes list option \<Rightarrow> bool \<Rightarrow> bool \<Rightarrow> bytes \<Rightarrow> int \<Rightarrow> word_piece \<Rightarrow> bool \<times> word_piece" where
  "initFromVocabFile lines do_lower_case strip_accents unk_token max_chars wp =
     (let wp1 = wp\<lparr>wp_lower := do_lower_case, wp_strip := strip_accents, wp_unk := unk_token, wp_max := max_chars\<rparr>
      in case lines of
           None \<Rightarrow> (False, wp1)
         | Some ls \<Rightarrow>
             (let wp2 = load_lines ls 0 wp1
              in (True, wp2\<lparr>wp_unk_id := id_or_0 wp2 (wp_unk wp2), wp_pad_id := id_or_0 wp2 (wp_pad wp2)\<rparr>)))"

text \<open>The document: an optional entry is an option; a flag that is absent or null is \<open>None\<close>.\<close>

record json_added =
  ja_id :: "int option"
  ja_content :: "bytes option"
  ja_single_word :: "bool option"
  ja_lstrip :: "bool option"
  ja_rstrip :: "bool option"
  ja_normalized :: "bool option"
  ja_special :: "bool option"

record wp_json =
  wj_vocab :: "(bytes \<times> int) list"
  wj_added :: "json_added list"
  wj_lowercase :: "bool option"
  wj_strip :: "bool option"
  wj_chinese :: "bool option"
  wj_unk :: "bytes option"

definition opt :: "'a \<Rightarrow> 'a option \<Rightarrow> 'a" where
  "opt d x = (case x of None \<Rightarrow> d | Some v \<Rightarrow> v)"

definition load_added :: "json_added \<Rightarrow> word_piece \<Rightarrow> word_piece" where
  "load_added a wp =
     (case (ja_id a, ja_content a) of
        (Some i, Some c) \<Rightarrow>
          (let info = \<lparr>at_id = i, at_content = c, at_single_word = opt False (ja_single_word a),
                 at_lstrip = opt False (ja_lstrip a), at_rstrip = opt False (ja_rstrip a),
                 at_normalized = opt False (ja_normalized a), at_special = opt False (ja_special a)\<rparr>;
               wp1 = set_word c i wp
           in wp1\<lparr>wp_added := umap_set c info (wp_added wp1)\<rparr>)
      | _ \<Rightarrow> wp)"

definition find_pad :: "word_piece \<Rightarrow> word_piece" where
  "find_pad wp =
     (case find (\<lambda>(c, info). at_content info = pad_name \<or> c = pad_name) (wp_added wp) of
        Some (c, info) \<Rightarrow> wp\<lparr>wp_pad := at_content info, wp_pad_id := at_id info\<rparr>
      | None \<Rightarrow> wp\<lparr>wp_pad_id := id_or_0 wp (wp_pad wp)\<rparr>)"

definition initFromTokenizerJson :: "wp_json option \<Rightarrow> word_piece \<Rightarrow> bool \<times> word_piece" where
  "initFromTokenizerJson doc wp =
     (case doc of
        None \<Rightarrow> (False, wp)
      | Some j \<Rightarrow>
          (let wp1 = fold (\<lambda>(w, i). set_word w i) (wj_vocab j) wp;
               wp2 = fold load_added (wj_added j) wp1;
               wp3 = wp2\<lparr>wp_lower := opt (wp_lower wp2) (wj_lowercase j), wp_strip := opt (wp_strip wp2) (wj_strip j),
                  wp_chinese := opt (wp_chinese wp2) (wj_chinese j), wp_unk := opt (wp_unk wp2) (wj_unk j)\<rparr>;
               wp4 = wp3\<lparr>wp_unk_id := id_or_0 wp3 (wp_unk wp3)\<rparr>
           in (True, find_pad wp4)))"

definition token2id :: "word_piece \<Rightarrow> bytes \<Rightarrow> int" where
  "token2id wp token = (case map_of (wp_vocab wp) token of Some i \<Rightarrow> i | None \<Rightarrow> wp_unk_id wp)"

definition id2token :: "word_piece \<Rightarrow> int \<Rightarrow> bytes" where
  "id2token wp idx = (case map_of (wp_inverse wp) idx of Some w \<Rightarrow> w | None \<Rightarrow> wp_unk wp)"

definition convert_tokens_to_ids :: "word_piece \<Rightarrow> bytes list \<Rightarrow> int list" where
  "convert_tokens_to_ids wp tokens = map (token2id wp) tokens"

definition get_added_token_info :: "word_piece \<Rightarrow> bytes \<Rightarrow> added_token option" where
  "get_added_token_info wp token = map_of (wp_added wp) token"

definition is_special_token :: "word_piece \<Rightarrow> bytes \<Rightarrow> bool" where
  "is_special_token wp token = (case map_of (wp_added wp) token of Some i \<Rightarrow> at_special i | None \<Rightarrow> False)"

subsection \<open>Characters\<close>

definition is_punctuation :: "wchar \<Rightarrow> bool" where
  "is_punctuation cp \<longleftrightarrow> (cp \<ge> 33 \<and> cp \<le> 47) \<or> (cp \<ge> 58 \<and> cp \<le> 64) \<or> (cp \<ge> 91 \<and> cp \<le> 96) \<or> (cp \<ge> 123 \<and> cp \<le> 126)"

definition is_whitespace :: "wchar \<Rightarrow> bool" where
  "is_whitespace cp \<longleftrightarrow> cp = 0x20 \<or> cp = 0x09 \<or> cp = 0x0A \<or> cp = 0x0D \<or>
     cp = 0x00A0 \<or> cp = 0x1680 \<or> (cp \<ge> 0x2000 \<and> cp \<le> 0x200A) \<or> cp = 0x202F \<or> cp = 0x205F \<or> cp = 0x3000"

definition is_control :: "wchar \<Rightarrow> bool" where
  "is_control cp \<longleftrightarrow> cp < 0x20 \<or> (cp \<ge> 0x7F \<and> cp \<le> 0x9F)"

definition is_chinese_char :: "wchar \<Rightarrow> bool" where
  "is_chinese_char cp \<longleftrightarrow>
     (cp \<ge> 0x4E00 \<and> cp \<le> 0x9FFF) \<or> (cp \<ge> 0x3400 \<and> cp \<le> 0x4DBF) \<or> (cp \<ge> 0x20000 \<and> cp \<le> 0x2A6DF) \<or>
     (cp \<ge> 0x2A700 \<and> cp \<le> 0x2B73F) \<or> (cp \<ge> 0x2B740 \<and> cp \<le> 0x2B81F) \<or> (cp \<ge> 0x2B820 \<and> cp \<le> 0x2CEAF) \<or>
     (cp \<ge> 0xF900 \<and> cp \<le> 0xFAFF) \<or> (cp \<ge> 0x2F800 \<and> cp \<le> 0x2FA1F)"

definition each_char :: "utfcpp \<Rightarrow> (wchar \<Rightarrow> bytes) \<Rightarrow> bytes \<Rightarrow> bytes outcome" where
  "each_char u f str = obind (uc_chars u str) (\<lambda>cs. Inr (concat (map (\<lambda>(cp, b). f cp) cs)))"

definition clean_text :: "utfcpp \<Rightarrow> bytes \<Rightarrow> bytes outcome" where
  "clean_text u = each_char u (\<lambda>cp.
     if is_control cp then (if cp = 0x09 \<or> cp = 0x0A \<or> cp = 0x0D then uc_put u 0x20 else []) else uc_put u cp)"

definition lowercase :: "utfcpp \<Rightarrow> bytes \<Rightarrow> bytes outcome" where
  "lowercase u = each_char u (\<lambda>cp. uc_put u (if cp \<ge> 0x41 \<and> cp \<le> 0x5A then cp + 32 else cp))"

definition strip_accents_fn :: "bytes \<Rightarrow> bytes" where
  "strip_accents_fn str = str"

definition tokenize_chinese_chars :: "utfcpp \<Rightarrow> bytes \<Rightarrow> bytes outcome" where
  "tokenize_chinese_chars u = each_char u (\<lambda>cp.
     if is_chinese_char cp then uc_put u 0x20 @ uc_put u cp @ uc_put u 0x20 else uc_put u cp)"

definition save :: "bytes \<Rightarrow> bytes list \<Rightarrow> bytes list" where
  "save current result = (if current = [] then result else result @ [current])"

fun punct_loop :: "(wchar \<times> bytes) list \<Rightarrow> bytes \<Rightarrow> bytes list \<Rightarrow> bytes list" where
  "punct_loop [] current result = save current result"
| "punct_loop ((cp, b) # cs) current result =
     (if is_punctuation cp then punct_loop cs [] (save current result @ [b])
      else punct_loop cs (current @ b) result)"

definition split_on_punctuation :: "utfcpp \<Rightarrow> bytes \<Rightarrow> bytes list outcome" where
  "split_on_punctuation u str = obind (uc_chars u str) (\<lambda>cs. Inr (punct_loop cs [] []))"

fun white_loop :: "(wchar \<times> bytes) list \<Rightarrow> bytes \<Rightarrow> bytes list \<Rightarrow> bytes list" where
  "white_loop [] current result = save current result"
| "white_loop ((cp, b) # cs) current result =
     (if is_whitespace cp then white_loop cs [] (save current result)
      else white_loop cs (current @ b) result)"

definition whitespace_tokenize :: "utfcpp \<Rightarrow> bytes \<Rightarrow> bytes list outcome" where
  "whitespace_tokenize u str = obind (uc_chars u str) (\<lambda>cs. Inr (white_loop cs [] []))"

subsection \<open>Special tokens\<close>

text \<open>\<^verbatim>\<open>std::string::find\<close>\<close>

definition str_find :: "bytes \<Rightarrow> bytes \<Rightarrow> nat \<Rightarrow> nat option" where
  "str_find str tok i = find (\<lambda>p. take (length tok) (drop p str) = tok) [i..<Suc (length str) - length tok]"

fun earliest :: "(bytes \<times> added_token) list \<Rightarrow> bytes \<Rightarrow> nat \<Rightarrow> (nat \<times> bytes) option \<Rightarrow> (nat \<times> bytes) option" where
  "earliest [] str i best = best"
| "earliest ((c, info) # ts) str i best =
     (if \<not> at_special info then earliest ts str i best
      else
        (case str_find str c i of
           None \<Rightarrow> earliest ts str i best
         | Some p \<Rightarrow>
             (case best of
                None \<Rightarrow> earliest ts str i (Some (p, c))
              | Some (q, t) \<Rightarrow> earliest ts str i (if p < q then Some (p, c) else best))))"

partial_function (option) split_loop :: "(bytes \<times> added_token) list \<Rightarrow> bytes \<Rightarrow> nat \<Rightarrow> bytes list \<Rightarrow> bytes list option" where
  "split_loop ts str i result =
     (if i < length str then
        (case earliest ts str i None of
           None \<Rightarrow> Some (result @ [drop i str])
         | Some (p, t) \<Rightarrow>
             split_loop ts str (p + length t)
               ((if p > i then result @ [take (p - i) (drop i str)] else result) @ [t]))
      else Some result)"

definition split_special_tokens :: "word_piece \<Rightarrow> bytes \<Rightarrow> bytes list option" where
  "split_special_tokens wp str =
     (if wp_added wp = [] then Some [str] else split_loop (wp_added wp) str 0 [])"

subsection \<open>The whole tokenizer\<close>

definition basic_word :: "utfcpp \<Rightarrow> word_piece \<Rightarrow> bytes \<Rightarrow> bytes list outcome" where
  "basic_word u wp token =
     obind (if wp_lower wp then lowercase u token else Inr token) (\<lambda>t.
     split_on_punctuation u (if wp_strip wp then strip_accents_fn t else t))"

definition basic_segment :: "utfcpp \<Rightarrow> word_piece \<Rightarrow> bytes \<Rightarrow> bytes list outcome" where
  "basic_segment u wp seg =
     (if is_special_token wp seg then Inr [seg]
      else obind (whitespace_tokenize u seg) (\<lambda>tokens. obind (omap (basic_word u wp) tokens) (\<lambda>ts. Inr (concat ts))))"

definition basic_tokenize :: "utfcpp \<Rightarrow> word_piece \<Rightarrow> bytes \<Rightarrow> bytes list outcome option" where
  "basic_tokenize u wp str =
     (case obind (clean_text u str) (\<lambda>c. if wp_chinese wp then tokenize_chinese_chars u c else Inr c) of
        Inl e \<Rightarrow> Some (Inl e)
      | Inr cleaned \<Rightarrow>
          (case split_special_tokens wp cleaned of
             None \<Rightarrow> None
           | Some segs \<Rightarrow> Some (obind (omap (basic_segment u wp) segs) (\<lambda>ts. Inr (concat ts)))))"

definition piece :: "word_piece \<Rightarrow> bytes \<Rightarrow> nat \<Rightarrow> nat \<Rightarrow> bytes" where
  "piece wp str st en = (if st > 0 then wp_prefix wp else []) @ take (en - st) (drop st str)"

fun find_piece :: "word_piece \<Rightarrow> bytes \<Rightarrow> nat \<Rightarrow> nat \<Rightarrow> (bytes \<times> nat) option" where
  "find_piece wp str st 0 = None"
| "find_piece wp str st (Suc en) =
     (if st < Suc en then
        (if map_of (wp_vocab wp) (piece wp str st (Suc en)) \<noteq> None then Some (piece wp str st (Suc en), Suc en)
         else find_piece wp str st en)
      else None)"

lemma find_piece_Some:
  "find_piece wp str st en = Some (p, e) \<Longrightarrow>
     st < e \<and> e \<le> en \<and> p = piece wp str st e \<and> map_of (wp_vocab wp) p \<noteq> None \<and>
     (\<forall>e'. e < e' \<and> e' \<le> en \<longrightarrow> map_of (wp_vocab wp) (piece wp str st e') = None)"
  by (induction wp str st en rule: find_piece.induct) (auto simp: le_Suc_eq split: if_splits)

lemma find_piece_None:
  "find_piece wp str st en = None \<longleftrightarrow> (\<forall>e'. st < e' \<and> e' \<le> en \<longrightarrow> map_of (wp_vocab wp) (piece wp str st e') = None)"
  by (induction wp str st en rule: find_piece.induct) (auto simp: le_Suc_eq split: if_splits)

function pieces_loop :: "word_piece \<Rightarrow> bytes \<Rightarrow> nat \<Rightarrow> bytes list \<Rightarrow> bytes list option" where
  "pieces_loop wp str st sub_tokens =
     (if st < length str then
        (case find_piece wp str st (length str) of
           None \<Rightarrow> None
         | Some (cur_substr, en) \<Rightarrow> pieces_loop wp str en (sub_tokens @ [cur_substr]))
      else Some sub_tokens)"
  by pat_completeness auto
termination
  by (relation "measure (\<lambda>(wp, str, st, sub_tokens). length str - st)") (auto dest!: find_piece_Some)

declare pieces_loop.simps [simp del]

definition wordpiece_tokenize :: "word_piece \<Rightarrow> bytes \<Rightarrow> bytes list" where
  "wordpiece_tokenize wp str =
     (if str = [] then []
      else if int (length str) > wp_max wp then [wp_unk wp]
      else (case pieces_loop wp str 0 [] of None \<Rightarrow> [wp_unk wp] | Some sub_tokens \<Rightarrow> sub_tokens))"

definition wp_tokenize :: "utfcpp \<Rightarrow> word_piece \<Rightarrow> bytes \<Rightarrow> bytes list outcome option" where
  "wp_tokenize u wp str =
     (case basic_tokenize u wp str of
        None \<Rightarrow> None
      | Some r \<Rightarrow> Some (obind r (\<lambda>toks. Inr (concat (map (wordpiece_tokenize wp) toks)))))"

subsection \<open>Longest match first\<close>

text \<open>The pieces of a word from \<open>st\<close> on: each is the longest one in the vocabulary.\<close>

inductive greedy :: "word_piece \<Rightarrow> bytes \<Rightarrow> nat \<Rightarrow> bytes list \<Rightarrow> bool" for wp str where
  finish: "greedy wp str (length str) []"
| longest: "st < en \<Longrightarrow> en \<le> length str \<Longrightarrow> map_of (wp_vocab wp) (piece wp str st en) \<noteq> None \<Longrightarrow>
    \<forall>e. en < e \<and> e \<le> length str \<longrightarrow> map_of (wp_vocab wp) (piece wp str st e) = None \<Longrightarrow>
    greedy wp str en ps \<Longrightarrow> greedy wp str st (piece wp str st en # ps)"

lemma pieces_loop_Some: "pieces_loop wp str st acc = Some r \<Longrightarrow> st \<le> length str \<Longrightarrow> \<exists>ps. r = acc @ ps \<and> greedy wp str st ps"
proof (induction wp str st acc arbitrary: r rule: pieces_loop.induct)
  case (1 wp str st acc)
  show ?case
  proof (cases "st < length str")
    case True
    then obtain p en where f: "find_piece wp str st (length str) = Some (p, en)"
      using 1(2) by (subst (asm) pieces_loop.simps) (auto split: option.splits)
    note s = find_piece_Some [OF f]
    have "pieces_loop wp str en (acc @ [p]) = Some r" using 1(2) True f by (subst (asm) pieces_loop.simps) simp
    from 1(1) [OF True f refl this] s obtain ps where "r = (acc @ [p]) @ ps" "greedy wp str en ps" by auto
    moreover have "greedy wp str st (p # ps)" using s \<open>greedy wp str en ps\<close> by (auto intro: greedy.longest)
    ultimately show ?thesis by auto
  next
    case False
    with 1(2,3) show ?thesis by (subst (asm) pieces_loop.simps) (auto intro: greedy.finish)
  qed
qed

lemma pieces_loop_greedy: "greedy wp str st ps \<Longrightarrow> pieces_loop wp str st acc = Some (acc @ ps)"
proof (induction arbitrary: acc rule: greedy.induct)
  case finish
  then show ?case by (subst pieces_loop.simps) simp
next
  case (longest st en ps)
  have "find_piece wp str st (length str) = Some (piece wp str st en, en)"
  proof (cases "find_piece wp str st (length str)")
    case None
    with longest(1-3) show ?thesis by (auto simp: find_piece_None)
  next
    case (Some pe)
    obtain p e where pe: "pe = (p, e)" by force
    note s = find_piece_Some [OF Some [unfolded pe]]
    have "e = en" using s longest(1-4) by (meson linorder_neqE_nat)
    with s Some pe show ?thesis by simp
  qed
  with longest(1,2) longest.IH [of "acc @ [piece wp str st en]"] show ?case
    by (subst pieces_loop.simps) simp
qed

text \<open>
  The same on the word itself, for a vocabulary \<open>voc\<close> and the prefix \<open>cont\<close> of continuations: a word is cut into
  segments, each the longest that the vocabulary has behind its mark, which is empty in front of the first
  segment and \<open>cont\<close> in front of the others.
\<close>

inductive longest_cuts :: "bytes set \<Rightarrow> bytes \<Rightarrow> bytes \<Rightarrow> bytes \<Rightarrow> bytes list \<Rightarrow> bool" for voc cont where
  no_rest: "longest_cuts voc cont mark [] []"
| cut_longest: "seg \<noteq> [] \<Longrightarrow> mark @ seg \<in> voc \<Longrightarrow>
    \<forall>a b. seg @ rest = a @ b \<and> length seg < length a \<longrightarrow> mark @ a \<notin> voc \<Longrightarrow>
    longest_cuts voc cont cont rest ps \<Longrightarrow> longest_cuts voc cont mark (seg @ rest) ((mark @ seg) # ps)"

abbreviation mark_at :: "word_piece \<Rightarrow> nat \<Rightarrow> bytes" where
  "mark_at wp st \<equiv> if 0 < st then wp_prefix wp else []"

lemma piece_segment: "drop st str = seg @ rest \<Longrightarrow> piece wp str st (st + length seg) = mark_at wp st @ seg"
  by (simp add: piece_def)

lemma greedy_cuts: "greedy wp str st ps \<Longrightarrow> longest_cuts (dom (map_of (wp_vocab wp))) (wp_prefix wp) (mark_at wp st) (drop st str) ps"
proof (induction rule: greedy.induct)
  case finish
  then show ?case by (simp add: longest_cuts.no_rest)
next
  case (longest st en ps)
  let ?seg = "take (en - st) (drop st str)" and ?voc = "dom (map_of (wp_vocab wp))"
  have d: "drop st str = ?seg @ drop en str" using longest(1) by (metis append_take_drop_id drop_drop le_add_diff_inverse2 less_imp_le)
  have l: "st + length ?seg = en" using longest(1,2) by simp
  have p: "piece wp str st en = mark_at wp st @ ?seg" using piece_segment [OF d, of wp] unfolding l .
  have "mark_at wp st @ a \<notin> ?voc" if ab: "?seg @ drop en str = a @ b" "length ?seg < length a" for a b
  proof -
    have da: "drop st str = a @ b" using d ab(1) by simp
    then have "length str - st = length a + length b" by (metis length_append length_drop)
    then have "en < st + length a" "st + length a \<le> length str" using ab(2) longest(1,2) by auto
    then have "map_of (wp_vocab wp) (piece wp str st (st + length a)) = None" using longest(4) by blast
    then show ?thesis unfolding piece_segment [OF da] by (simp add: domIff)
  qed
  then have m: "\<forall>a b. ?seg @ drop en str = a @ b \<and> length ?seg < length a \<longrightarrow> mark_at wp st @ a \<notin> ?voc" by blast
  have ne: "?seg \<noteq> []" "mark_at wp st @ ?seg \<in> ?voc" using longest(1-3) p by auto
  have "longest_cuts ?voc (wp_prefix wp) (wp_prefix wp) (drop en str) ps" using longest.IH longest(1) by simp
  from cut_longest [OF ne m this] show ?case unfolding p d [symmetric] .
qed

lemma cuts_greedy:
  "longest_cuts voc cont mark w ps \<Longrightarrow> voc = dom (map_of (wp_vocab wp)) \<Longrightarrow> cont = wp_prefix wp \<Longrightarrow>
     mark = mark_at wp st \<Longrightarrow> w = drop st str \<Longrightarrow> st \<le> length str \<Longrightarrow> greedy wp str st ps"
proof (induction arbitrary: st rule: longest_cuts.induct)
  case (no_rest mark)
  then have "st = length str" by simp
  then show ?case by (simp add: greedy.finish)
next
  case (cut_longest seg mark rest ps)
  note d = cut_longest.prems(4) [symmetric]
  let ?en = "st + length seg"
  have len: "length str - st = length seg + length rest" using arg_cong [OF d, of length] by simp
  have "drop ?en str = rest" using arg_cong [OF d, of "drop (length seg)"] by (simp add: add.commute)
  then have g: "greedy wp str ?en ps"
    by (intro cut_longest.IH) (use cut_longest.prems cut_longest.hyps(1) len in auto)
  have p: "piece wp str st ?en = mark @ seg" using piece_segment [OF d, of wp] cut_longest.prems(3) by simp
  have "map_of (wp_vocab wp) (piece wp str st e) = None" if e: "?en < e" "e \<le> length str" for e
  proof -
    let ?a = "take (e - st) (drop st str)"
    have da: "drop st str = ?a @ drop (e - st) (drop st str)" by (rule append_take_drop_id [symmetric])
    have la: "st + length ?a = e" "length seg < length ?a" using e by auto
    have "mark @ ?a \<notin> voc" using cut_longest.hyps(3) d da la(2) by metis
    then show ?thesis using piece_segment [OF da, of wp] la(1) cut_longest.prems(1,3) by (simp add: domIff)
  qed
  then show ?case using greedy.longest [OF _ _ _ _ g, of st] p cut_longest.hyps(1,2) cut_longest.prems(1) len cut_longest.prems(5)
    by (auto simp: domIff)
qed

text \<open>
  C28: A word that is neither empty nor too long is cut, from left to right, into the longest segments that
  the vocabulary has, all but the first behind the prefix of continuations, and these with their prefix are
  its pieces; it becomes the unknown token when it cannot be cut this way.
\<close>

theorem wordpiece_is_greedy:
  assumes "str \<noteq> []" "int (length str) \<le> wp_max wp"
  shows "(longest_cuts (dom (map_of (wp_vocab wp))) (wp_prefix wp) [] str ps \<longrightarrow> wordpiece_tokenize wp str = ps) \<and>
    (\<not> (\<exists>ps. longest_cuts (dom (map_of (wp_vocab wp))) (wp_prefix wp) [] str ps) \<longrightarrow> wordpiece_tokenize wp str = [wp_unk wp])"
proof -
  have w: "wordpiece_tokenize wp str = (case pieces_loop wp str 0 [] of None \<Rightarrow> [wp_unk wp] | Some ps \<Rightarrow> ps)"
    using assms by (simp add: wordpiece_tokenize_def)
  have g: "longest_cuts (dom (map_of (wp_vocab wp))) (wp_prefix wp) [] str ps \<longleftrightarrow> greedy wp str 0 ps" for ps
    using greedy_cuts [of wp str 0 ps] cuts_greedy [OF _ refl refl _ _ le0, of wp "[]" str ps str] by auto
  show ?thesis
    using pieces_loop_greedy [of wp str 0 ps "[]"] pieces_loop_Some [of wp str 0 "[]"]
    by (auto simp: w g split: option.split)
qed

definition small_pieces :: word_piece where
  "small_pieces = new_word_piece\<lparr>wp_vocab := [([0x61], 0), ([0x61, 0x62], 1), ([0x23, 0x23, 0x63], 2)]\<rparr>"

lemma small_cuts:
  "longest_cuts (dom (map_of (wp_vocab small_pieces))) (wp_prefix small_pieces) [] [0x61, 0x62, 0x63]
     [[0x61, 0x62], [0x23, 0x23, 0x63]]"
proof -
  let ?voc = "dom (map_of (wp_vocab small_pieces))"
  have v: "?voc = {[0x61], [0x61, 0x62], [0x23, 0x23, 0x63]}" "wp_prefix small_pieces = [0x23, 0x23]"
    by (auto simp: small_pieces_def new_word_piece_def)
  have "longest_cuts ?voc [0x23, 0x23] [0x23, 0x23] ([0x63] @ []) [[0x23, 0x23] @ [0x63]]"
    by (rule cut_longest) (auto simp: v no_rest Cons_eq_append_conv)
  then have "longest_cuts ?voc [0x23, 0x23] [] ([0x61, 0x62] @ [0x63]) [[] @ [0x61, 0x62], [0x23, 0x23, 0x63]]"
    by (intro cut_longest) (auto simp: v Cons_eq_append_conv)
  then show ?thesis by (simp add: v)
qed

theorem wordpiece_is_greedy_witness:
  "wordpiece_tokenize small_pieces [0x61, 0x62, 0x63] = [[0x61, 0x62], [0x23, 0x23, 0x63]] \<and>
   wordpiece_tokenize small_pieces [0x63] = [unk_name]"
proof
  show "wordpiece_tokenize small_pieces [0x61, 0x62, 0x63] = [[0x61, 0x62], [0x23, 0x23, 0x63]]"
    using wordpiece_is_greedy [of "[0x61, 0x62, 0x63]" small_pieces "[[0x61, 0x62], [0x23, 0x23, 0x63]]"] small_cuts
    by (simp add: small_pieces_def new_word_piece_def)
  have "\<not> longest_cuts (dom (map_of (wp_vocab small_pieces))) (wp_prefix small_pieces) [] [0x63] ps" for ps
    by (rule notI, erule longest_cuts.cases) (auto simp: small_pieces_def new_word_piece_def Cons_eq_append_conv)
  then show "wordpiece_tokenize small_pieces [0x63] = [unk_name]"
    using wordpiece_is_greedy [of "[0x63]" small_pieces] by (simp add: small_pieces_def new_word_piece_def)
qed

subsection \<open>Cutting at special tokens\<close>

lemma str_find_Some: "str_find str tok i = Some p \<Longrightarrow> i \<le> p \<and> p + length tok \<le> length str \<and> take (length tok) (drop p str) = tok"
  by (auto simp: str_find_def find_Some_iff nth_append)

lemma earliest_Cons:
  "\<exists>best'. earliest ((c, info) # ts) str i best = earliest ts str i best' \<and>
     (best' = best \<or> at_special info \<and> (\<exists>p. str_find str c i = Some p \<and> best' = Some (p, c)))"
  by (cases "at_special info"; cases "str_find str c i"; cases best) auto

lemma earliest_Some:
  "earliest ts str i best = Some (p, t) \<Longrightarrow>
     best = Some (p, t) \<or> (\<exists>info. (t, info) \<in> set ts \<and> at_special info \<and> str_find str t i = Some p)"
proof (induction ts arbitrary: best)
  case (Cons e ts)
  obtain c info where e: "e = (c, info)" by force
  from earliest_Cons [of c info ts str i best] Cons.prems e obtain best' where
    "earliest ts str i best' = Some (p, t)"
    "best' = best \<or> at_special info \<and> (\<exists>p. str_find str c i = Some p \<and> best' = Some (p, c))" by auto
  with Cons.IH [of best'] e show ?case by auto
qed simp

lemma split_loop_ok:
  assumes "\<forall>(c, info) \<in> set ts. at_special info \<longrightarrow> c \<noteq> []"
  shows "i \<le> length str \<Longrightarrow> \<exists>r. split_loop ts str i result = Some r \<and> concat r = concat result @ drop i str"
proof (induction "length str - i" arbitrary: i result rule: less_induct)
  case less
  show ?case
  proof (cases "i < length str")
    case True
    show ?thesis
    proof (cases "earliest ts str i None")
      case None
      with True show ?thesis by (subst split_loop.simps) simp
    next
      case (Some pt)
      obtain p t where pt: "pt = (p, t)" by force
      from earliest_Some [OF Some [unfolded pt]] obtain info where
        t: "(t, info) \<in> set ts" "at_special info" "str_find str t i = Some p" by auto
      note f = str_find_Some [OF t(3)]
      have "t \<noteq> []" using assms t(1,2) by auto
      define res where "res = (if p > i then result @ [take (p - i) (drop i str)] else result) @ [t]"
      have "length str - (p + length t) < length str - i" using f True \<open>t \<noteq> []\<close> by (cases t) auto
      from less.hyps [OF this, of res] f obtain r where
        r: "split_loop ts str (p + length t) res = Some r" "concat r = concat res @ drop (p + length t) str" by auto
      have "drop i str = take (p - i) (drop i str) @ t @ drop (p + length t) str"
        using f by (metis append_take_drop_id drop_drop le_add_diff_inverse2 add.commute)
      then have "concat r = concat result @ drop i str" using r(2) f by (auto simp: res_def)
      moreover have "split_loop ts str i result = Some r"
        using True Some pt r(1) by (subst split_loop.simps) (simp add: res_def)
      ultimately show ?thesis by blast
    qed
  next
    case False
    with less.prems show ?thesis by (subst split_loop.simps) simp
  qed
qed

text \<open>
  C31: When no special token is the empty string, cutting at the special tokens ends, and the pieces,
  joined, are the text.
\<close>

theorem split_special_lossless:
  assumes "\<forall>(c, info) \<in> set (wp_added wp). at_special info \<longrightarrow> c \<noteq> []"
  shows "\<exists>r. split_special_tokens wp str = Some r \<and> concat r = str"
  using split_loop_ok [OF assms, of 0 str "[]"] by (simp add: split_special_tokens_def)

definition cls_token :: added_token where
  "cls_token = \<lparr>at_id = 3, at_content = [0x5B, 0x43, 0x5D], at_single_word = False, at_lstrip = False,
     at_rstrip = False, at_normalized = False, at_special = True\<rparr>"

theorem split_special_lossless_witness:
  "\<exists>r. split_special_tokens (new_word_piece\<lparr>wp_added := [([0x5B, 0x43, 0x5D], cls_token)]\<rparr>)
      [0x61, 0x5B, 0x43, 0x5D, 0x62] = Some r \<and> concat r = [0x61, 0x5B, 0x43, 0x5D, 0x62]"
  by (rule split_special_lossless) simp

lemma str_find_empty: "i \<le> length str \<Longrightarrow> str_find str [] i = Some i"
  by (simp add: str_find_def upt_conv_Cons del: upt_Suc)

text \<open>
  A special token with empty content is found at every position and the position never moves: on
  any text that is not empty the loop does not end.
\<close>

theorem empty_special_token_endless:
  assumes "wp_added wp = [([], info)]" "at_special info" "str \<noteq> []"
  shows "split_special_tokens wp str = None"
proof -
  have step: "i < length str \<longrightarrow> ts \<noteq> [([], info)]"
    if "\<And>ts str i result r. loop ts str i result = Some r \<Longrightarrow> i < length str \<longrightarrow> ts \<noteq> [([], info)]"
      "(if i < length str
        then case earliest ts str i None of None \<Rightarrow> Some (result @ [drop i str])
          | Some (p, t) \<Rightarrow> loop ts str (p + length t)
              ((if p > i then result @ [take (p - i) (drop i str)] else result) @ [t])
        else Some result) = Some r"
    for loop :: "(bytes \<times> added_token) list \<Rightarrow> bytes \<Rightarrow> nat \<Rightarrow> bytes list \<Rightarrow> bytes list option" and ts str i result r
  proof (intro impI notI)
    assume i: "i < length str" and ts: "ts = [([], info)]"
    then have "earliest ts str i None = Some (i, [])" using assms(2) by (simp add: str_find_empty)
    with that(2) i have "loop ts str i (result @ [[]]) = Some r" by simp
    from that(1) [OF this] i ts show False by simp
  qed
  have never: "i < length str \<longrightarrow> ts \<noteq> [([], info)]" if "split_loop ts str i result = Some r" for ts i result r and str :: bytes
    using _ that by (rule split_loop.raw_induct) (rule step)
  show ?thesis
  proof (cases "split_loop [([], info)] str 0 []")
    case None
    with assms(1) show ?thesis by (simp add: split_special_tokens_def)
  next
    case (Some r)
    from never [OF Some] assms(3) show ?thesis by simp
  qed
qed

theorem empty_special_token_endless_witness:
  "split_special_tokens (new_word_piece\<lparr>wp_added := [([], cls_token)]\<rparr>) [0x61] = None"
  by (rule empty_special_token_endless [where info = cls_token]) (simp_all add: cls_token_def)

end
