(* ===== verification/Basic_Tokenizer.thy ===== *)
theory Basic_Tokenizer
  imports Word_Piece
begin

text \<open>
  What the first stage of the WordPiece tokenizer computes, on code points instead of bytes. The locale
  \<open>utf8_reader\<close> is the contract of utfcpp: a text that is read is the concatenation of its characters, and
  characters that are written are read back. It is interpreted on the conversions of \<open>Unicode_Text\<close>.
\<close>

subsection \<open>The contract of the reader\<close>

locale utf8_reader =
  fixes chars :: "bytes \<Rightarrow> (wchar \<times> bytes) list outcome" and put :: "wchar \<Rightarrow> bytes" and ok :: "wchar \<Rightarrow> bool"
  assumes read_written: "list_all ok cps \<Longrightarrow> chars (concat (map put cps)) = Inr (map (\<lambda>c. (c, put c)) cps)"
    and read_ok: "chars s = Inr cs \<Longrightarrow> list_all ok (map fst cs) \<and> s = concat (map put (map fst cs))"
    and put_nonempty: "ok c \<Longrightarrow> put c \<noteq> []"
    and ascii_ok: "c < 0x80 \<Longrightarrow> ok c"
begin

definition enc :: "wchar list \<Rightarrow> bytes" where
  "enc cps = concat (map put cps)"

lemma enc_simps [simp]: "enc [] = []" "enc (c # cps) = put c @ enc cps" "enc (a @ b) = enc a @ enc b"
  by (simp_all add: enc_def)

lemma chars_enc: "list_all ok cps \<Longrightarrow> chars (enc cps) = Inr (map (\<lambda>c. (c, put c)) cps)"
  by (simp add: enc_def read_written)

lemma enc_empty: "list_all ok cps \<Longrightarrow> enc cps = [] \<longleftrightarrow> cps = []"
  by (cases cps) (simp_all add: put_nonempty)

end

sublocale utf8_reader \<subseteq> text_codec enc "\<lambda>s. map fst (projr (chars s))" ok
  by unfold_locales (simp_all add: chars_enc comp_def)

text \<open>The reader made of the conversions of \<open>Unicode_Text\<close>: a text that they do not give back is invalid.\<close>

definition strict_chars :: "bytes \<Rightarrow> (wchar \<times> bytes) list outcome" where
  "strict_chars s =
     (let w = utf8string2WideString s
      in if list_all valid_char w \<and> wideString2Utf8String w = s then Inr (map (\<lambda>c. (c, wide_char_bytes c)) w)
         else Inl (Throw ''invalid_utf8''))"

definition strict_utf8 :: utfcpp where
  "strict_utf8 = \<lparr>uc_chars = strict_chars, uc_put = wide_char_bytes\<rparr>"

interpretation strict: utf8_reader strict_chars wide_char_bytes valid_char
proof unfold_locales
  fix cps :: "wchar list"
  assume "list_all valid_char cps"
  then show "strict_chars (concat (map wide_char_bytes cps)) = Inr (map (\<lambda>c. (c, wide_char_bytes c)) cps)"
    using wide.dec_enc [of cps] by (simp add: strict_chars_def wideString2Utf8String_def)
next
  fix s cs
  assume "strict_chars s = Inr cs"
  then show "list_all valid_char (map fst cs) \<and> s = concat (map wide_char_bytes (map fst cs))"
    by (auto simp: strict_chars_def Let_def comp_def wideString2Utf8String_def split: if_splits)
next
  fix c :: wchar
  assume "c < 0x80"
  then show "c \<le> 0x10FFFF" by (simp add: word_less_nat_alt word_le_nat_alt)
qed (rule wide_char_bytes_nonempty)

subsection \<open>The stages on code points\<close>

definition clean_point :: "wchar \<Rightarrow> wchar list" where
  "clean_point cp = (if is_control cp then (if cp = 0x09 \<or> cp = 0x0A \<or> cp = 0x0D then [0x20] else []) else [cp])"

definition chinese_point :: "word_piece \<Rightarrow> wchar \<Rightarrow> wchar list" where
  "chinese_point wp cp = (if wp_chinese wp \<and> is_chinese_char cp then [0x20, cp, 0x20] else [cp])"

definition lower_point :: "word_piece \<Rightarrow> wchar \<Rightarrow> wchar" where
  "lower_point wp cp = (if wp_lower wp \<and> cp \<ge> 0x41 \<and> cp \<le> 0x5A then cp + 32 else cp)"

definition keep :: "'a list \<Rightarrow> 'a list list" where
  "keep cur = (if cur = [] then [] else [cur])"

fun white_words :: "wchar list \<Rightarrow> wchar list \<Rightarrow> wchar list list" where
  "white_words [] cur = keep cur"
| "white_words (c # cs) cur = (if is_whitespace c then keep cur @ white_words cs [] else white_words cs (cur @ [c]))"

fun punct_words :: "wchar list \<Rightarrow> wchar list \<Rightarrow> wchar list list" where
  "punct_words [] cur = keep cur"
| "punct_words (c # cs) cur = (if is_punctuation c then keep cur @ [c] # punct_words cs [] else punct_words cs (cur @ [c]))"

definition words_of :: "word_piece \<Rightarrow> wchar list \<Rightarrow> wchar list list" where
  "words_of wp cps =
     concat (map (\<lambda>w. punct_words (map (lower_point wp) w) [])
       (white_words (concat (map (chinese_point wp) (concat (map clean_point cps)))) []))"

context utf8_reader
begin

lemma each_char_enc:
  "list_all ok cps \<Longrightarrow> each_char \<lparr>uc_chars = chars, uc_put = put\<rparr> f (enc cps) = Inr (concat (map f cps))"
  by (simp add: each_char_def chars_enc comp_def)

lemma concat_points: "concat (map (\<lambda>c. enc (f c)) cps) = enc (concat (map f cps))"
  by (induction cps) simp_all

lemma save_enc: "list_all ok cur \<Longrightarrow> save (enc cur) r = r @ map enc (keep cur)"
  by (simp add: save_def keep_def enc_empty)

lemma white_loop_enc:
  "list_all ok cps \<Longrightarrow> list_all ok cur \<Longrightarrow>
     white_loop (map (\<lambda>c. (c, put c)) cps) (enc cur) r = r @ map enc (white_words cps cur)"
proof (induction cps arbitrary: cur r)
  case (Cons c cps)
  show ?case
    using Cons.IH [of "[]" "save (enc cur) r"] Cons.IH [of "cur @ [c]" r] Cons.prems by (simp add: save_enc)
qed (simp add: save_enc)

lemma punct_loop_enc:
  "list_all ok cps \<Longrightarrow> list_all ok cur \<Longrightarrow>
     punct_loop (map (\<lambda>c. (c, put c)) cps) (enc cur) r = r @ map enc (punct_words cps cur)"
proof (induction cps arbitrary: cur r)
  case (Cons c cps)
  show ?case
    using Cons.IH [of "[]" "save (enc cur) r @ [put c]"] Cons.IH [of "cur @ [c]" r] Cons.prems by (simp add: save_enc)
qed (simp add: save_enc)

lemma ok_clean: "list_all ok cps \<Longrightarrow> list_all ok (concat (map clean_point cps))"
  by (induction cps) (auto simp: clean_point_def intro: ascii_ok)

lemma ok_chinese: "list_all ok cps \<Longrightarrow> list_all ok (concat (map (chinese_point wp) cps))"
  by (induction cps) (auto simp: chinese_point_def intro: ascii_ok)

lemma ok_lower: "list_all ok cps \<Longrightarrow> list_all ok (map (lower_point wp) cps)"
proof (induction cps)
  case (Cons c cps)
  have "c + 32 < 0x80" if "c \<le> 0x5A"
    using that by unat_arith
  with Cons show ?case by (auto simp: lower_point_def intro: ascii_ok)
qed simp

lemma ok_white: "list_all ok cps \<Longrightarrow> list_all ok cur \<Longrightarrow> \<forall>w \<in> set (white_words cps cur). list_all ok w"
  by (induction cps cur rule: white_words.induct) (auto simp: keep_def)

lemma each_char_points:
  assumes "list_all ok cps" "\<And>c. f c = enc (g c)"
  shows "each_char \<lparr>uc_chars = chars, uc_put = put\<rparr> f (enc cps) = Inr (enc (concat (map g cps)))"
proof -
  have "f = (\<lambda>c. enc (g c))" by (rule ext) (rule assms(2))
  then show ?thesis using each_char_enc [OF assms(1), of f] by (simp add: concat_points)
qed

lemma clean_enc:
  "list_all ok cps \<Longrightarrow> clean_text \<lparr>uc_chars = chars, uc_put = put\<rparr> (enc cps) = Inr (enc (concat (map clean_point cps)))"
  unfolding clean_text_def by (rule each_char_points) (simp_all add: clean_point_def)

lemma chinese_enc:
  "list_all ok cps \<Longrightarrow> wp_chinese wp \<Longrightarrow>
     tokenize_chinese_chars \<lparr>uc_chars = chars, uc_put = put\<rparr> (enc cps) = Inr (enc (concat (map (chinese_point wp) cps)))"
  unfolding tokenize_chinese_chars_def by (rule each_char_points) (simp_all add: chinese_point_def)

lemma no_chinese: "\<not> wp_chinese wp \<Longrightarrow> concat (map (chinese_point wp) cps) = cps"
  by (induction cps) (simp_all add: chinese_point_def)

lemma lower_enc:
  assumes "list_all ok cps" "wp_lower wp"
  shows "lowercase \<lparr>uc_chars = chars, uc_put = put\<rparr> (enc cps) = Inr (enc (map (lower_point wp) cps))"
proof -
  have l: "lower_point wp = (\<lambda>c. if c \<ge> 0x41 \<and> c \<le> 0x5A then c + 32 else c)"
    using assms(2) by (simp add: fun_eq_iff lower_point_def)
  have "concat (map (\<lambda>c. [g c]) cps) = map g cps" for g by (induction cps) simp_all
  then show ?thesis
    using each_char_points [OF assms(1), of _ "\<lambda>c. [lower_point wp c]"] by (simp add: lowercase_def l)
qed

lemma no_lower: "\<not> wp_lower wp \<Longrightarrow> map (lower_point wp) cps = cps"
  by (simp add: lower_point_def map_idI)

lemma basic_word_enc:
  assumes "list_all ok cps"
  shows "basic_word \<lparr>uc_chars = chars, uc_put = put\<rparr> wp (enc cps) = Inr (map enc (punct_words (map (lower_point wp) cps) []))"
proof -
  have "(if wp_lower wp then lowercase \<lparr>uc_chars = chars, uc_put = put\<rparr> (enc cps) else Inr (enc cps)) =
      Inr (enc (map (lower_point wp) cps))"
    using lower_enc [OF assms] no_lower by simp
  with ok_lower [OF assms, of wp] punct_loop_enc [of "map (lower_point wp) cps" "[]" "[]"] show ?thesis
    by (simp add: basic_word_def strip_accents_fn_def split_on_punctuation_def chars_enc)
qed

lemma basic_words_enc:
  "\<forall>w \<in> set ws. list_all ok w \<Longrightarrow>
     omap (basic_word \<lparr>uc_chars = chars, uc_put = put\<rparr> wp) (map enc ws) =
     Inr (map (\<lambda>w. map enc (punct_words (map (lower_point wp) w) [])) ws)"
  by (induction ws) (simp_all add: basic_word_enc)

lemma basic_tokenize_enc:
  assumes "list_all ok cps" "wp_added wp = []"
  shows "basic_tokenize \<lparr>uc_chars = chars, uc_put = put\<rparr> wp (enc cps) = Some (Inr (map enc (words_of wp cps)))"
proof -
  define c2 where "c2 = concat (map (chinese_point wp) (concat (map clean_point cps)))"
  have ok1: "list_all ok (concat (map clean_point cps))" using assms(1) by (rule ok_clean)
  then have ok2: "list_all ok c2" unfolding c2_def by (rule ok_chinese)
  have "obind (clean_text \<lparr>uc_chars = chars, uc_put = put\<rparr> (enc cps))
      (\<lambda>c. if wp_chinese wp then tokenize_chinese_chars \<lparr>uc_chars = chars, uc_put = put\<rparr> c else Inr c) = Inr (enc c2)"
    using chinese_enc [OF ok1, of wp] no_chinese by (simp add: clean_enc [OF assms(1)] c2_def)
  moreover have "whitespace_tokenize \<lparr>uc_chars = chars, uc_put = put\<rparr> (enc c2) = Inr (map enc (white_words c2 []))"
    using white_loop_enc [OF ok2, of "[]" "[]"] by (simp add: whitespace_tokenize_def chars_enc [OF ok2])
  moreover have "words_of wp cps = concat (map (\<lambda>w. punct_words (map (lower_point wp) w) []) (white_words c2 []))"
    by (simp only: words_of_def c2_def)
  ultimately show ?thesis
    using basic_words_enc [of "white_words c2 []" wp] ok_white [OF ok2, of "[]"] assms(2)
    by (simp add: basic_tokenize_def split_special_tokens_def basic_segment_def is_special_token_def
        map_concat comp_def)
qed

end

subsection \<open>What the words are\<close>

lemma concat_white_words: "concat (white_words cps cur) = cur @ filter (\<lambda>c. \<not> is_whitespace c) cps"
  by (induction cps cur rule: white_words.induct) (simp_all add: keep_def)

lemma concat_punct_words: "concat (punct_words cps cur) = cur @ cps"
  by (induction cps cur rule: punct_words.induct) (simp_all add: keep_def)

definition one_sort :: "wchar list \<Rightarrow> bool" where
  "one_sort t \<longleftrightarrow> (\<exists>c. is_punctuation c \<and> t = [c]) \<or> (t \<noteq> [] \<and> list_all (\<lambda>c. \<not> is_punctuation c) t)"

lemma one_sort_punct_words:
  "list_all (\<lambda>c. \<not> is_punctuation c) cur \<Longrightarrow> \<forall>t \<in> set (punct_words cps cur). one_sort t"
  by (induction cps cur rule: punct_words.induct) (auto simp: keep_def one_sort_def)

lemma chinese_facts:
  assumes "is_chinese_char c"
  shows "\<not> is_whitespace c" "\<not> is_punctuation c" "\<not> (c \<ge> 0x41 \<and> c \<le> 0x5A)"
proof -
  have "unat c \<ge> 0x3400" using assms by (auto simp: is_chinese_char_def word_le_nat_alt)
  then show "\<not> is_whitespace c" "\<not> is_punctuation c" "\<not> (c \<ge> 0x41 \<and> c \<le> 0x5A)"
    by (auto simp: is_whitespace_def is_punctuation_def word_le_nat_alt)
qed

lemma space_white: "is_whitespace 0x20"
  by (simp add: is_whitespace_def)

lemma visible_points:
  "filter (\<lambda>c. \<not> is_whitespace c) (concat (map (chinese_point wp) (concat (map clean_point cps)))) =
   filter (\<lambda>c. \<not> is_whitespace c \<and> \<not> is_control c) cps"
  by (induction cps) (auto simp: clean_point_def chinese_point_def space_white chinese_facts is_chinese_char_def is_control_def)

lemma concat_words:
  "concat (words_of wp cps) = map (lower_point wp) (filter (\<lambda>c. \<not> is_whitespace c \<and> \<not> is_control c) cps)"
proof -
  have "concat (concat (map (\<lambda>w. punct_words (map (lower_point wp) w) []) ws)) = map (lower_point wp) (concat ws)" for ws
    by (induction ws) (simp_all add: concat_punct_words)
  then show ?thesis by (simp only: words_of_def concat_white_words visible_points append_Nil)
qed

lemma one_sort_words: "\<forall>t \<in> set (words_of wp cps). one_sort t"
  using one_sort_punct_words [of "[]"] by (auto simp: words_of_def)

text \<open>A Chinese character stands alone.\<close>

definition alone :: "wchar list \<Rightarrow> bool" where
  "alone t \<longleftrightarrow> (\<forall>c \<in> set t. is_chinese_char c \<longrightarrow> t = [c])"

lemma white_words_alone:
  "wp_chinese wp \<Longrightarrow> list_all (\<lambda>c. \<not> is_chinese_char c) cur \<Longrightarrow>
     \<forall>w \<in> set (white_words (concat (map (chinese_point wp) cps)) cur). alone w"
proof (induction cps arbitrary: cur)
  case (Cons c cps)
  show ?case
  proof (cases "is_chinese_char c")
    case True
    then show ?thesis
      using Cons.IH [of "[]"] Cons.prems
      by (auto simp: chinese_point_def space_white chinese_facts keep_def alone_def list_all_iff)
  next
    case False
    then show ?thesis
      using Cons.IH [of "[]"] Cons.IH [of "cur @ [c]"] Cons.prems
      by (auto simp: chinese_point_def keep_def alone_def list_all_iff)
  qed
qed (auto simp: keep_def alone_def list_all_iff)

lemma chinese_lower: "is_chinese_char (lower_point wp c) \<longleftrightarrow> is_chinese_char c"
proof (cases "c \<ge> 0x41 \<and> c \<le> 0x5A")
  case True
  then have "c + 32 < 0x80" by unat_arith
  then have "\<not> is_chinese_char (c + 32)" "\<not> is_chinese_char c"
    using True chinese_facts(3) [of c] by (auto simp: is_chinese_char_def word_less_nat_alt word_le_nat_alt)
  then show ?thesis by (simp add: lower_point_def)
qed (auto simp: lower_point_def)

lemma punct_words_alone:
  "list_all (\<lambda>c. \<not> is_chinese_char c) (cur @ cps) \<Longrightarrow> \<forall>t \<in> set (punct_words cps cur). alone t"
  by (induction cps cur rule: punct_words.induct) (auto simp: keep_def alone_def list_all_iff)

lemma words_alone:
  assumes "wp_chinese wp"
  shows "\<forall>t \<in> set (words_of wp cps). alone t"
proof
  fix t
  assume "t \<in> set (words_of wp cps)"
  then obtain w where w: "w \<in> set (white_words (concat (map (chinese_point wp) (concat (map clean_point cps)))) [])"
    "t \<in> set (punct_words (map (lower_point wp) w) [])" by (auto simp: words_of_def)
  have a: "alone w" using white_words_alone [OF assms, of "[]"] w(1) by simp
  show "alone t"
  proof (cases "\<exists>c \<in> set w. is_chinese_char c")
    case True
    then obtain c where c: "w = [c]" "is_chinese_char c" using a by (auto simp: alone_def)
    then have "lower_point wp c = c" using chinese_facts(3) [OF c(2)] by (auto simp: lower_point_def)
    with w(2) c chinese_facts(2) [OF c(2)] show ?thesis by (simp add: keep_def alone_def)
  next
    case False
    then show ?thesis
      using punct_words_alone [of "[]" "map (lower_point wp) w"] w(2) by (simp add: list_all_iff chinese_lower)
  qed
qed

text \<open>
  C27: For a reader that keeps its contract and a text it can read, a tokenizer without added tokens cuts
  the text into words that are, joined, the characters of the text in their order, lowercased if asked,
  except white space and control characters. A word is one punctuation character or has none in it, and
  each Chinese character is a word of its own if asked.
\<close>

theorem basic_tokenize_keeps_text:
  assumes "utf8_reader (uc_chars u) (uc_put u) ok" "uc_chars u str = Inr cs" "wp_added wp = []"
  shows "\<exists>words. basic_tokenize u wp str = Some (Inr (map (\<lambda>w. concat (map (uc_put u) w)) words)) \<and>
    concat words = map (lower_point wp) (filter (\<lambda>c. \<not> is_whitespace c \<and> \<not> is_control c) (map fst cs)) \<and>
    (\<forall>w \<in> set words. one_sort w \<and> (wp_chinese wp \<longrightarrow> alone w))"
proof -
  define enc where "enc = utf8_reader.enc (uc_put u)"
  have e: "enc = (\<lambda>w. concat (map (uc_put u) w))"
    by (rule ext) (simp add: enc_def utf8_reader.enc_def [OF assms(1)])
  have s: "list_all ok (map fst cs)" "str = enc (map fst cs)"
    using utf8_reader.read_ok [OF assms(1,2)] by (simp_all add: e)
  have u: "u = \<lparr>uc_chars = uc_chars u, uc_put = uc_put u\<rparr>" by simp
  have "basic_tokenize u wp str = Some (Inr (map enc (words_of wp (map fst cs))))"
    using utf8_reader.basic_tokenize_enc [OF assms(1) s(1) assms(3)] unfolding s(2) enc_def u [symmetric] .
  then show ?thesis
    using concat_words [of wp "map fst cs"] one_sort_words [of wp "map fst cs"] words_alone [of wp "map fst cs"]
    by (intro exI [of _ "words_of wp (map fst cs)"]) (simp add: e)
qed

lemma strict_reader: "utf8_reader (uc_chars strict_utf8) (uc_put strict_utf8) valid_char"
  using strict.utf8_reader_axioms by (simp add: strict_utf8_def)

theorem basic_tokenize_keeps_text_witness:
  "\<exists>words. basic_tokenize strict_utf8 new_word_piece [0x48, 0x69, 0x2C, 0x20, 0xE4, 0xBD, 0xA0] =
      Some (Inr (map (\<lambda>w. concat (map (uc_put strict_utf8) w)) words)) \<and>
    concat words = [0x48, 0x69, 0x2C, 0x4F60]"
proof -
  define cs where "cs = map (\<lambda>c. (c, wide_char_bytes c)) [0x48, 0x69, 0x2C, 0x20, 0x4F60]"
  have "uc_chars strict_utf8 [0x48, 0x69, 0x2C, 0x20, 0xE4, 0xBD, 0xA0] = Inr cs"
    by (simp add: strict_utf8_def strict_chars_def cs_def wideString2Utf8String_def wide_char_bytes_def)
  from basic_tokenize_keeps_text [OF strict_reader this, of new_word_piece] show ?thesis
    by (auto simp: cs_def new_word_piece_def lower_point_def [abs_def] is_whitespace_def is_control_def)
qed

end
