(* ===== verification/Ir_Interpreter.thy ===== *)
theory Ir_Interpreter
  imports Data_Types "HOL-Library.AList"
begin

text \<open>
  The interpreter of program IR, \<^verbatim>\<open>mllm/compile/jit/interpreter/IRInterpreter.hpp\<close> and
  \<^verbatim>\<open>IRInterpreter.cpp\<close>: its instructions, its state, one step in each of its two modes and the loop
  of \<^verbatim>\<open>run\<close>. The operation objects (\<^verbatim>\<open>BaseOp\<close>) are shared by pointer between the symbol table and the
  launches; they live in a store and an instruction holds
  an address, or the null pointer. Handing a task to a dispatcher
  is the parameter \<open>submit\<close>: from the device, the object and the inputs it gives the object after the
  call and the outputs, or a fault.

  Running flat code is described twice: by the loop of the code and by the relation \<open>runs\<close>, which
  says which launches and frees a stretch of code performs, calls included. \<open>run_loop_runs\<close> shows
  that the loop does just that, whatever the stack below.
\<close>

subsection \<open>Instructions and state\<close>

type_synonym uuid = "32 word"

datatype 'd rt_tensor = NilTensor | RtTensor uuid 'd

fun rt_uuid :: "'d rt_tensor \<Rightarrow> uuid outcome" where
  "rt_uuid NilTensor = Inl Undefined"
| "rt_uuid (RtTensor u d) = Inr u"

datatype bind_type = kInput | kOutput

datatype instr =
    IModeConfig int
  | IKernelLaunch "nat option" "uuid list" "uuid list" device
  | IKernelSymbol "nat option" string
  | IValueSymbol
  | IJump int
  | IFree "uuid list"
  | IExit
  | ILabel string
  | IRet
  | IBind int int bind_type

datatype interp_mode = kEagerMode | kStaticMode

record ('op, 'd) tensor_store =
  global_inputs :: "'d rt_tensor list"
  global_outputs :: "'d rt_tensor list"
  uuid_2_tensor :: "uuid \<rightharpoonup> 'd rt_tensor"
  in_program_2_uuid :: "uuid \<rightharpoonup> uuid"
  uuid_2_in_program :: "uuid \<rightharpoonup> uuid"
  op_objects :: "'op list"

record ('op, 'd) interp =
  mode :: interp_mode
  program_counter :: "64 word"
  program_stack :: "64 word list"
  program :: "(64 word \<times> instr) list"
  program_id_2_op_table :: "(64 word \<times> instr) list"
  symbol_name_2_program_id_table :: "string \<rightharpoonup> 64 word"
  tensors :: "('op, 'd) tensor_store"

type_synonym ('op, 'd) submission =
  "device \<Rightarrow> 'op \<Rightarrow> 'd rt_tensor list \<Rightarrow> ('op \<times> 'd rt_tensor list) outcome"

definition new_store :: "('op, 'd) tensor_store" where
  "new_store = \<lparr>global_inputs = [], global_outputs = [], uuid_2_tensor = Map.empty,
     in_program_2_uuid = Map.empty, uuid_2_in_program = Map.empty, op_objects = []\<rparr>"

definition new_interp :: "('op, 'd) interp" where
  "new_interp = \<lparr>mode = kStaticMode, program_counter = 0, program_stack = [], program = [],
     program_id_2_op_table = [], symbol_name_2_program_id_table = Map.empty, tensors = new_store\<rparr>"

subsection \<open>What an instruction does to the tensors\<close>

text \<open>\<^verbatim>\<open>uuid_2_tensor_[uuid]\<close> puts a null tensor into the map when there is none.\<close>

definition get_tensor :: "uuid \<Rightarrow> ('op, 'd) tensor_store \<Rightarrow> 'd rt_tensor \<times> ('op, 'd) tensor_store" where
  "get_tensor u s = (case uuid_2_tensor s u of
      Some t \<Rightarrow> (t, s)
    | None \<Rightarrow> (NilTensor, s\<lparr>uuid_2_tensor := (uuid_2_tensor s)(u \<mapsto> NilTensor)\<rparr>))"

fun get_tensors :: "uuid list \<Rightarrow> ('op, 'd) tensor_store \<Rightarrow> 'd rt_tensor list \<times> ('op, 'd) tensor_store" where
  "get_tensors [] s = ([], s)"
| "get_tensors (u # us) s =
     (let (t, s1) = get_tensor u s; (ts, s2) = get_tensors us s1 in (t # ts, s2))"

text \<open>
  \<^verbatim>\<open>pos_id\<close> is an \<^verbatim>\<open>int32_t\<close> that is used as a subscript; \<^verbatim>\<open>in_program_uuid\<close> is read as an \<^verbatim>\<open>int32_t\<close> and
  used as a key of type \<^verbatim>\<open>uint32_t\<close>.
\<close>

definition bind_input :: "int \<Rightarrow> int \<Rightarrow> ('op, 'd) tensor_store \<Rightarrow> ('op, 'd) tensor_store outcome" where
  "bind_input pos u s =
     obind (vec_at (global_inputs s) pos) (\<lambda>t.
     obind (rt_uuid t) (\<lambda>v.
     Inr (s\<lparr>in_program_2_uuid := (in_program_2_uuid s)(word_of_int u \<mapsto> v),
            uuid_2_in_program := (uuid_2_in_program s)(v \<mapsto> word_of_int u),
            uuid_2_tensor := (uuid_2_tensor s)(word_of_int u \<mapsto> t)\<rparr>)))"

definition vec_resize :: "'d rt_tensor list \<Rightarrow> nat \<Rightarrow> 'd rt_tensor list" where
  "vec_resize xs n = take n xs @ replicate (n - length xs) NilTensor"

definition grow_outputs :: "int \<Rightarrow> 'd rt_tensor list \<Rightarrow> 'd rt_tensor list outcome" where
  "grow_outputs pos outs =
     (if int (length outs) \<le> u64 pos
      then obind (i32 (pos + 1)) (\<lambda>n.
             if n < 0 then Inl (Throw ''length_error'') else Inr (vec_resize outs (nat n)))
      else Inr outs)"

definition bind_output :: "int \<Rightarrow> int \<Rightarrow> ('op, 'd) tensor_store \<Rightarrow> ('op, 'd) tensor_store outcome" where
  "bind_output pos u s =
     obind (grow_outputs pos (global_outputs s)) (\<lambda>outs.
     let (t, s1) = get_tensor (word_of_int u) s in
     obind (vec_set outs pos t) (\<lambda>outs1. Inr (s1\<lparr>global_outputs := outs1\<rparr>)))"

fun register_outputs ::
  "uuid list \<Rightarrow> 'd rt_tensor list \<Rightarrow> ('op, 'd) tensor_store \<Rightarrow> ('op, 'd) tensor_store outcome" where
  "register_outputs us [] s = Inr s"
| "register_outputs [] (t # ts) s = Inl Undefined"
| "register_outputs (u # us) (t # ts) s =
     obind (rt_uuid t) (\<lambda>v.
     register_outputs us ts
       (s\<lparr>uuid_2_tensor := (uuid_2_tensor s)(u \<mapsto> t),
          in_program_2_uuid := (in_program_2_uuid s)(u \<mapsto> v),
          uuid_2_in_program := (uuid_2_in_program s)(v \<mapsto> u)\<rparr>))"

definition object_at :: "nat option \<Rightarrow> ('op, 'd) tensor_store \<Rightarrow> 'op outcome" where
  "object_at p s = (case p of None \<Rightarrow> Inl Undefined | Some a \<Rightarrow> vec_at (op_objects s) (int a))"

definition set_object :: "nat option \<Rightarrow> 'op \<Rightarrow> ('op, 'd) tensor_store \<Rightarrow> ('op, 'd) tensor_store" where
  "set_object p op s =
     (case p of None \<Rightarrow> s | Some a \<Rightarrow> s\<lparr>op_objects := (op_objects s)[a := op]\<rparr>)"

definition kernel_launch ::
  "('op, 'd) submission \<Rightarrow> nat option \<Rightarrow> uuid list \<Rightarrow> uuid list \<Rightarrow> device \<Rightarrow>
     ('op, 'd) tensor_store \<Rightarrow> ('op, 'd) tensor_store outcome" where
  "kernel_launch submit p ins outs dev s =
     (let (inputs, s1) = get_tensors ins s in
      obind (object_at p s1) (\<lambda>op.
      obind (submit dev op inputs) (\<lambda>(op1, outputs).
      register_outputs outs outputs (set_object p op1 s1))))"

definition free_tensors :: "uuid list \<Rightarrow> ('op, 'd) tensor_store \<Rightarrow> ('op, 'd) tensor_store" where
  "free_tensors us s = s\<lparr>uuid_2_tensor := (uuid_2_tensor s) |` (- set us)\<rparr>"

subsection \<open>One step\<close>

text \<open>\<^verbatim>\<open>program_[program_counter_]\<close> puts a default instruction, an exit, where there is none.\<close>

definition fetch :: "('op, 'd) interp \<Rightarrow> instr \<times> ('op, 'd) interp" where
  "fetch s = (case map_of (program s) (program_counter s) of
      Some i \<Rightarrow> (i, s)
    | None \<Rightarrow> (IExit, s\<lparr>program := AList.update (program_counter s) IExit (program s)\<rparr>))"

definition next_pc :: "('op, 'd) interp \<Rightarrow> ('op, 'd) interp" where
  "next_pc s = s\<lparr>program_counter := program_counter s + 1\<rparr>"

definition set_mode :: "int \<Rightarrow> ('op, 'd) interp \<Rightarrow> ('op, 'd) interp" where
  "set_mode flag s = (if flag = 1 then s\<lparr>mode := kEagerMode\<rparr>
     else if flag = 2 then s\<lparr>mode := kStaticMode\<rparr> else s)"

definition with_store ::
  "('op, 'd) tensor_store outcome \<Rightarrow> ('op, 'd) interp \<Rightarrow> (bool \<times> ('op, 'd) interp) outcome" where
  "with_store r s = obind r (\<lambda>t. Inr (False, next_pc (s\<lparr>tensors := t\<rparr>)))"

definition eager_step ::
  "('op, 'd) submission \<Rightarrow> ('op, 'd) interp \<Rightarrow> (bool \<times> ('op, 'd) interp) outcome" where
  "eager_step submit s0 = (let (i, s) = fetch s0 in
     case i of
       IBind pos u bt \<Rightarrow>
         (case bt of
            kInput \<Rightarrow> with_store (bind_input pos u (tensors s)) s
          | kOutput \<Rightarrow> with_store (bind_output pos u (tensors s)) s)
     | IKernelLaunch a ins outs dev \<Rightarrow>
         with_store (kernel_launch submit a ins outs dev (tensors s)) s
     | IKernelSymbol a name \<Rightarrow> Inr (False, next_pc s)
     | IJump off \<Rightarrow>
         Inr (False, s\<lparr>program_stack := program_counter s # program_stack s,
                       program_counter := program_counter s + word_of_int off\<rparr>)
     | IFree us \<Rightarrow> with_store (Inr (free_tensors us (tensors s))) s
     | IExit \<Rightarrow> Inr (True, s)
     | ILabel l \<Rightarrow> Inr (False, next_pc s)
     | IRet \<Rightarrow>
         (case program_stack s of
            [] \<Rightarrow> Inl Undefined
          | a # st \<Rightarrow> Inr (False, next_pc (s\<lparr>program_counter := a, program_stack := st\<rparr>)))
     | IModeConfig flag \<Rightarrow> Inr (False, next_pc (set_mode flag s))
     | IValueSymbol \<Rightarrow> Inr (False, next_pc s))"

definition static_step ::
  "('op, 'd) submission \<Rightarrow> ('op, 'd) interp \<Rightarrow> (bool \<times> ('op, 'd) interp) outcome" where
  "static_step submit s0 = (let (i, s) = fetch s0 in
     case i of
       IBind pos u bt \<Rightarrow>
         (case bt of
            kInput \<Rightarrow> with_store (bind_input pos u (tensors s)) s
          | kOutput \<Rightarrow> with_store (bind_output pos u (tensors s)) s)
     | IKernelLaunch a ins outs dev \<Rightarrow>
         with_store (kernel_launch submit a ins outs dev (tensors s)) s
     | IKernelSymbol a name \<Rightarrow> Inr (False, next_pc s)
     | IJump off \<Rightarrow>
         Inr (False, s\<lparr>program_stack := program_counter s # program_stack s,
                       program_counter := program_counter s + word_of_int off\<rparr>)
     | IFree us \<Rightarrow> with_store (Inr (free_tensors us (tensors s))) s
     | IExit \<Rightarrow> Inr (True, s)
     | ILabel l \<Rightarrow> Inr (False, next_pc s)
     | IRet \<Rightarrow>
         (case program_stack s of
            [] \<Rightarrow> Inl Undefined
          | a # st \<Rightarrow> Inr (False, next_pc (s\<lparr>program_counter := a, program_stack := st\<rparr>)))
     | IModeConfig flag \<Rightarrow> Inr (False, next_pc (set_mode flag s))
     | IValueSymbol \<Rightarrow> Inr (False, next_pc s))"

subsection \<open>The loop of run\<close>

partial_function (option) run_loop ::
  "('op, 'd) submission \<Rightarrow> nat \<Rightarrow> ('op, 'd) interp \<Rightarrow> ('op, 'd) interp outcome option" where
  "run_loop submit n s =
     (case (case mode s of kStaticMode \<Rightarrow> static_step submit s | kEagerMode \<Rightarrow> eager_step submit s) of
        Inl f \<Rightarrow> Some (Inl f)
      | Inr (stop, s1) \<Rightarrow>
          if stop then Some (Inr s1)
          else if unat (program_counter s1) < n then run_loop submit n s1 else Some (Inr s1))"

definition interp_run ::
  "('op, 'd) submission \<Rightarrow> 'd rt_tensor list \<Rightarrow> ('op, 'd) interp \<Rightarrow>
     ('d rt_tensor list \<times> ('op, 'd) interp) outcome option" where
  "interp_run submit inputs s =
     map_option (\<lambda>r. obind r (\<lambda>s1. Inr (global_outputs (tensors s1), s1)))
       (run_loop submit (length (program s))
          (s\<lparr>tensors := (tensors s)\<lparr>global_inputs := inputs\<rparr>, program_counter := 0,
             mode := kStaticMode\<rparr>))"

text \<open>As its comment says, the static mode is so far a copy of the eager one.\<close>

lemma static_is_eager: "static_step submit s = eager_step submit s"
  unfolding static_step_def eager_step_def by (rule refl)

lemma run_loop_eager:
  "run_loop submit n s =
     (case eager_step submit s of
        Inl f \<Rightarrow> Some (Inl f)
      | Inr (stop, s1) \<Rightarrow>
          if stop then Some (Inr s1)
          else if unat (program_counter s1) < n then run_loop submit n s1 else Some (Inr s1))"
  by (subst run_loop.simps) (simp add: static_is_eager split: interp_mode.split)

lemma run_loop_step:
  "eager_step submit s = Inr (False, s1) \<Longrightarrow> unat (program_counter s1) < n \<Longrightarrow>
     run_loop submit n s = run_loop submit n s1"
  by (subst run_loop_eager) simp

lemma run_loop_fault: "eager_step submit s = Inl f \<Longrightarrow> run_loop submit n s = Some (Inl f)"
  by (subst run_loop_eager) simp

lemma run_loop_exit: "eager_step submit s = Inr (True, s1) \<Longrightarrow> run_loop submit n s = Some (Inr s1)"
  by (subst run_loop_eager) simp

subsection \<open>What flat code does\<close>

datatype act =
    ALaunch "nat option" "uuid list" "uuid list" device
  | AFree "uuid list"
  | ABind int int bind_type

fun do_act :: "('op, 'd) submission \<Rightarrow> act \<Rightarrow> ('op, 'd) tensor_store \<Rightarrow> ('op, 'd) tensor_store outcome" where
  "do_act submit (ALaunch a ins outs dev) t = kernel_launch submit a ins outs dev t"
| "do_act submit (AFree us) t = Inr (free_tensors us t)"
| "do_act submit (ABind pos u kInput) t = bind_input pos u t"
| "do_act submit (ABind pos u kOutput) t = bind_output pos u t"

fun act_instr :: "act \<Rightarrow> instr" where
  "act_instr (ALaunch a ins outs dev) = IKernelLaunch a ins outs dev"
| "act_instr (AFree us) = IFree us"
| "act_instr (ABind pos u bt) = IBind pos u bt"

text \<open>\<open>runs is a ks b\<close>: from position \<open>a\<close> the code does \<open>ks\<close> and is then at \<open>b\<close> with the same stack.\<close>

inductive runs :: "instr list \<Rightarrow> nat \<Rightarrow> act list \<Rightarrow> nat \<Rightarrow> bool" for "is" where
  runs_stop: "a < length is \<Longrightarrow> runs is a [] a"
| runs_act: "a < length is \<Longrightarrow> is ! a = act_instr k \<Longrightarrow> runs is (Suc a) ks b \<Longrightarrow> runs is a (k # ks) b"
| runs_label: "a < length is \<Longrightarrow> is ! a = ILabel l \<Longrightarrow> runs is (Suc a) ks b \<Longrightarrow> runs is a ks b"
| runs_call: "a < length is \<Longrightarrow> is ! a = IJump off \<Longrightarrow> int e = int a + off \<Longrightarrow> runs is e ks1 r \<Longrightarrow>
    is ! r = IRet \<Longrightarrow> runs is (Suc a) ks2 b \<Longrightarrow> runs is a (ks1 @ ks2) b"

lemma runs_bounds: "runs is a ks b \<Longrightarrow> a < length is \<and> b < length is"
  by (induction rule: runs.induct) simp_all

lemma runs_trans: "runs is a ks1 b \<Longrightarrow> runs is b ks2 c \<Longrightarrow> runs is a (ks1 @ ks2) c"
  by (induction rule: runs.induct) (auto intro: runs.intros)

definition loaded :: "instr list \<Rightarrow> ('op, 'd) interp \<Rightarrow> bool" where
  "loaded is s \<longleftrightarrow> program s = zip (map of_nat [0..<length is]) is"

definition goto ::
  "('op, 'd) interp \<Rightarrow> nat \<Rightarrow> 64 word list \<Rightarrow> ('op, 'd) tensor_store \<Rightarrow> ('op, 'd) interp" where
  "goto s a st t = s\<lparr>program_counter := of_nat a, program_stack := st, tensors := t\<rparr>"

lemma goto_simps [simp]:
  "program (goto s a st t) = program s"
  "program_counter (goto s a st t) = of_nat a"
  "program_stack (goto s a st t) = st"
  "tensors (goto s a st t) = t"
  by (simp_all add: goto_def)

lemma goto_goto [simp]: "goto (goto s a st t) b st1 t1 = goto s b st1 t1"
  by (simp add: goto_def)

lemma goto_updates [simp]:
  "(goto s a st t)\<lparr>tensors := t1\<rparr> = goto s a st t1"
  "next_pc (goto s a st t) = goto s (Suc a) st t"
  by (simp_all add: goto_def next_pc_def add.commute)

lemma unat_pc: "b < 2 ^ 64 \<Longrightarrow> unat (of_nat b :: 64 word) = b"
  by (simp add: unat_of_nat)

lemma pc_in_code: "b < n \<Longrightarrow> n \<le> 2 ^ 64 \<Longrightarrow> unat (of_nat b :: 64 word) < n"
  by (simp only: unat_pc order_less_le_trans)

lemma map_of_positions:
  assumes "i < length xs" "length xs \<le> 2 ^ 64"
  shows "map_of (zip (map of_nat [0..<length xs]) xs) (of_nat i :: 64 word) = Some (xs ! i)"
proof -
  have "inj_on (of_nat :: nat \<Rightarrow> 64 word) {0..<length xs}"
  proof (rule inj_on_inverseI [where g = unat])
    fix x :: nat assume "x \<in> {0..<length xs}"
    then have "x < 2 ^ 64" using assms(2) by simp
    then show "unat (of_nat x :: 64 word) = x" by (rule unat_pc)
  qed
  then have d: "distinct (map (of_nat :: nat \<Rightarrow> 64 word) [0..<length xs])"
    by (simp add: distinct_map)
  have "map_of (zip (map of_nat [0..<length xs]) xs) (map (of_nat :: nat \<Rightarrow> 64 word) [0..<length xs] ! i)
      = Some (xs ! i)"
    by (rule map_of_zip_nth) (use d assms(1) in simp_all)
  then show ?thesis using assms(1) by simp
qed

lemma fetch_loaded:
  assumes "loaded is s" "a < length is" "length is \<le> 2 ^ 64"
  shows "fetch (goto s a st t) = (is ! a, goto s a st t)"
  using assms map_of_positions [OF assms(2,3)] by (simp add: fetch_def loaded_def)

lemma step_act:
  assumes "loaded is s" "a < length is" "length is \<le> 2 ^ 64" "is ! a = act_instr k"
  shows "eager_step submit (goto s a st t) =
    obind (do_act submit k t) (\<lambda>t1. Inr (False, goto s (Suc a) st t1))"
  using fetch_loaded [OF assms(1-3)] assms(4)
  by (cases "(submit, k, t)" rule: do_act.cases) (simp_all add: eager_step_def with_store_def)

lemma run_loop_goto:
  "eager_step submit (goto s a st t) = Inr (False, goto s b st1 t1) \<Longrightarrow> b < n \<Longrightarrow> n \<le> 2 ^ 64 \<Longrightarrow>
     run_loop submit n (goto s a st t) = run_loop submit n (goto s b st1 t1)"
  by (erule run_loop_step) (simp only: goto_simps pc_in_code)

lemma step_jump:
  assumes "loaded is s" "a < length is" "length is \<le> 2 ^ 64" "is ! a = IJump off" "int e = int a + off"
  shows "eager_step submit (goto s a st t) = Inr (False, goto s e (of_nat a # st) t)"
proof -
  have "(of_nat a :: 64 word) + word_of_int off = word_of_int (int a + off)"
    by simp
  also have "\<dots> = of_nat e" by (simp only: assms(5) [symmetric] of_int_of_nat_eq)
  finally have "(of_nat a :: 64 word) + word_of_int off = of_nat e" .
  then show ?thesis
    using fetch_loaded [OF assms(1-3)] assms(4)
    by (simp add: eager_step_def) (simp add: goto_def)
qed

lemma step_ret:
  assumes "loaded is s" "r < length is" "length is \<le> 2 ^ 64" "is ! r = IRet"
  shows "eager_step submit (goto s r (of_nat a # st) t) = Inr (False, goto s (Suc a) st t)"
  using fetch_loaded [OF assms(1-3)] assms(4)
  by (simp add: eager_step_def) (simp add: goto_def next_pc_def add.commute)

lemma step_label:
  assumes "loaded is s" "a < length is" "length is \<le> 2 ^ 64" "is ! a = ILabel l"
  shows "eager_step submit (goto s a st t) = Inr (False, goto s (Suc a) st t)"
  using fetch_loaded [OF assms(1-3)] assms(4) by (simp add: eager_step_def)

lemma run_loop_runs:
  assumes "loaded is s" "length is \<le> 2 ^ 64" "runs is a ks b"
  shows "run_loop submit (length is) (goto s a st t) =
    (case ofold (do_act submit) ks t of
       Inl f \<Rightarrow> Some (Inl f)
     | Inr t1 \<Rightarrow> run_loop submit (length is) (goto s b st t1))"
  using assms(3)
proof (induction arbitrary: st t rule: runs.induct)
  case (runs_stop a)
  then show ?case by simp
next
  case (runs_act a k ks b)
  note step = step_act [OF assms(1) runs_act(1) assms(2) runs_act(2), of submit st t]
  show ?case
  proof (cases "do_act submit k t")
    case (Inl f)
    then show ?thesis using step by (simp add: run_loop_fault)
  next
    case (Inr t1)
    then show ?thesis
      using step runs_act.IH runs_bounds [OF runs_act(3)] assms(2) by (simp add: run_loop_goto)
  qed
next
  case (runs_label a l ks b)
  then show ?case
    using step_label [OF assms(1) runs_label(1) assms(2) runs_label(2), of submit st t]
      runs_bounds [OF runs_label(3)] assms(2) by (simp add: run_loop_goto)
next
  case (runs_call a off e ks1 r ks2 b)
  note b1 = runs_bounds [OF runs_call(4)] and b2 = runs_bounds [OF runs_call(6)]
  have "run_loop submit (length is) (goto s a st t) =
      run_loop submit (length is) (goto s e (of_nat a # st) t)"
    by (rule run_loop_goto [OF step_jump [OF assms(1) runs_call(1) assms(2) runs_call(2,3)] _ assms(2)])
      (use b1 in simp)
  moreover have "run_loop submit (length is) (goto s r (of_nat a # st) u) =
      run_loop submit (length is) (goto s (Suc a) st u)" for u
    by (rule run_loop_goto [OF step_ret [OF assms(1) _ assms(2) runs_call(5)] _ assms(2)])
      (use b1 b2 in simp_all)
  ultimately show ?case
    using runs_call.IH by (cases "ofold (do_act submit) ks1 t") (simp_all add: ofold_append)
qed

end
