(* ===== verification/Program_Lowering.thy ===== *)
theory Program_Lowering
  imports Ir_Interpreter
begin

text \<open>
  The intermediate representation (\<^verbatim>\<open>mllm/compile/ir\<close>) and the passes that turn a traced module into a
  flat program: \<^verbatim>\<open>Module::__trace\<close> (\<^verbatim>\<open>mllm/nn/Module.cpp\<close>), \<^verbatim>\<open>ExtractSymbolsPass\<close>,
  \<^verbatim>\<open>EliminateDbgInfoPass\<close> and the pipeline of \<^verbatim>\<open>ProgramLoweringPipeline.cpp\<close>
  (\<^verbatim>\<open>Linalg2Program\<close>, \<^verbatim>\<open>Tensor2Program\<close>, \<^verbatim>\<open>CF2Program\<close>, \<^verbatim>\<open>Graph2Program\<close>,
  \<^verbatim>\<open>FlattenTensorAndLinalgSymbol2ProgramSymbol\<close>, \<^verbatim>\<open>ProgramModeConfig\<close>, \<^verbatim>\<open>ProgramIntrinsicIdIndex\<close>).

  A region is the list of its operations; a walk of \<^verbatim>\<open>IRWriter\<close> that replaces operations in place is a
  map, one that inserts behind them a concatenation. Regions hold no nested regions: tracing puts
  every sub-graph into the module. An operation carries the uuids of its tensor values. The device
  of an operation that a pass creates is never set: \<open>junk\<close> says what its field happens to hold.
\<close>

subsection \<open>Operations and modules\<close>

datatype json = JNull | JInt int | JStr string | JArr "json list"
  | JObj "(string \<times> json) list"

text \<open>
  A JSON value as \<^verbatim>\<open>nlohmann::json\<close> holds it; the numbers the compiler writes are integers, and a
  floating-point constant stands as the integer of its bits.

  Of a \<^verbatim>\<open>BaseOp\<close> the passes read its type, its name, its device and the document that
  \<^verbatim>\<open>dumpLinalgIROptions\<close> makes of its options.
\<close>

record aop =
  aop_type :: optype
  aop_name :: string
  aop_options :: json
  aop_device :: device

datatype ir_op =
    Linalg aop "uuid list" "uuid list"
  | LinalgRegister string aop
  | CallGraph string "uuid list" "uuid list"
  | ReturnOp "uuid list"
  | TensorRegister string uuid "(json \<times> json) option"
  | TensorAlloc uuid
  | TensorFree uuid
  | CommentOp string
  | KernelLaunch string json "string option" "uuid list" "uuid list"
  | KernelSymbol string string "json option"
  | ValueSymbol string uuid "(json \<times> json) option"
  | JumpOp string "int option"
  | LabelOp string
  | ExitOp
  | RetOp
  | FreeOp uuid
  | ModeConfigOp int
  | BindOp int int bind_type

record node =
  n_op :: ir_op
  n_id :: "64 word"
  n_device :: device

datatype fragment_type = kCode | kData | kTable

datatype item =
    SubGraph string "node list"
  | Fragment fragment_type string "node list"
  | TopOp node

type_synonym junk_device = "ir_op \<Rightarrow> device"

definition mk :: "junk_device \<Rightarrow> ir_op \<Rightarrow> node" where
  "mk junk op = \<lparr>n_op = op, n_id = - 1, n_device = junk op\<rparr>"

fun is_program :: "ir_op \<Rightarrow> bool" where
  "is_program (KernelLaunch _ _ _ _ _) = True"
| "is_program (KernelSymbol _ _ _) = True"
| "is_program (ValueSymbol _ _ _) = True"
| "is_program (JumpOp _ _) = True"
| "is_program (LabelOp _) = True"
| "is_program ExitOp = True"
| "is_program RetOp = True"
| "is_program (FreeOp _) = True"
| "is_program (ModeConfigOp _) = True"
| "is_program (BindOp _ _ _) = True"
| "is_program _ = False"

definition code_segment :: string where
  "code_segment = ''__MLLM_JIT_PACKAGE_CODE_SEGMENT''"

definition symbol_segment :: string where
  "symbol_segment = ''__MLLM_JIT_PACKAGE_SYMBOL_TABLE_SEGMENT''"

subsection \<open>Tracing\<close>

text \<open>
  What the trace sees of \<^verbatim>\<open>forward\<close>: the operations it submits, each with the parameters its \<^verbatim>\<open>trace\<close>
  method registers for the first time, and the modules it calls. A module instance has a number.
\<close>

datatype event =
    OpEvent "(string \<times> uuid) list" aop "uuid list" "uuid list"
  | ModuleEvent nat "uuid list" "event list" "uuid list"

record trace_state =
  module_name_counters :: "string \<Rightarrow> 32 word"
  absolute_name :: "nat \<Rightarrow> string"
  init_ops :: "node list"

definition getUniqueModuleName :: "string \<Rightarrow> trace_state \<Rightarrow> string \<times> trace_state" where
  "getUniqueModuleName base ts =
     (let c = module_name_counters ts base in
      if c = 0
      then (base, ts\<lparr>module_name_counters := (module_name_counters ts)(base := 1)\<rparr>)
      else (base @ ''_'' @ to_string (unat c),
            ts\<lparr>module_name_counters := (module_name_counters ts)(base := c + 1)\<rparr>))"

fun trace_event :: "junk_device \<Rightarrow> event \<Rightarrow> trace_state \<Rightarrow> node \<times> item list \<times> trace_state"
  and trace_events :: "junk_device \<Rightarrow> event list \<Rightarrow> trace_state \<Rightarrow> node list \<times> item list \<times> trace_state"
where
  "trace_event junk (OpEvent params a ins outs) ts =
     ((mk junk (Linalg a ins outs))\<lparr>n_device := aop_device a\<rparr>, [],
      ts\<lparr>init_ops := init_ops ts @ map (\<lambda>(s, u). mk junk (TensorRegister s u None)) params\<rparr>)"
| "trace_event junk (ModuleEvent m ins evs outs) ts =
     (let (name, ts1) = getUniqueModuleName (absolute_name ts m) ts;
          ts2 = ts1\<lparr>absolute_name := (absolute_name ts1)(m := name)\<rparr>;
          (body, subs, ts3) = trace_events junk evs ts2 in
      (mk junk (CallGraph name ins outs),
       SubGraph name (body @ [mk junk (ReturnOp outs)]) # subs, ts3))"
| "trace_events junk [] ts = ([], [], ts)"
| "trace_events junk (e # es) ts =
     (let (op, subs, ts1) = trace_event junk e ts; (ops, subs', ts2) = trace_events junk es ts1 in
      (op # ops, subs @ subs', ts2))"

definition trace_module :: "junk_device \<Rightarrow> (nat \<Rightarrow> string) \<Rightarrow> event \<Rightarrow> item list" where
  "trace_module junk names e =
     (let (call, subs, ts) = trace_event junk e
            \<lparr>module_name_counters = (\<lambda>_. 0), absolute_name = names, init_ops = []\<rparr> in
      SubGraph ''init'' (init_ops ts) # SubGraph ''deinit'' [] # TopOp call # subs)"

subsection \<open>Canonicalization\<close>

definition special_graphs :: "string list" where
  "special_graphs = [''init'', ''deinit'', ''op_symbol_table'']"

fun register_ops :: "junk_device \<Rightarrow> node list \<Rightarrow> string list \<times> node list \<Rightarrow> string list \<times> node list" where
  "register_ops junk [] acc = acc"
| "register_ops junk (nd # nds) (seen, regs) =
     register_ops junk nds
       (case n_op nd of
          Linalg a ins outs \<Rightarrow>
            if aop_name a \<noteq> [] \<and> aop_name a \<notin> set seen
            then (seen @ [aop_name a], regs @ [mk junk (LinalgRegister (aop_name a) a)])
            else (seen, regs)
        | _ \<Rightarrow> (seen, regs))"

fun graph_ops :: "item \<Rightarrow> node list" where
  "graph_ops (SubGraph s nds) = (if s \<in> set special_graphs then [] else nds)"
| "graph_ops _ = []"

fun top_ops :: "item \<Rightarrow> node list" where
  "top_ops (TopOp nd) = [nd]"
| "top_ops _ = []"

fun append_to :: "string \<Rightarrow> node list \<Rightarrow> item \<Rightarrow> item" where
  "append_to s new (SubGraph t nds) = SubGraph t (if s = t then nds @ new else nds)"
| "append_to s new i = i"

definition has_graph :: "string \<Rightarrow> item list \<Rightarrow> bool" where
  "has_graph s m = list_ex (\<lambda>i. case i of SubGraph t _ \<Rightarrow> s = t | _ \<Rightarrow> False) m"

definition extract_symbols :: "junk_device \<Rightarrow> item list \<Rightarrow> item list" where
  "extract_symbols junk m =
     (let regs = snd (register_ops junk (concat (map graph_ops m) @ concat (map top_ops m)) ([], [])) in
      if has_graph ''op_symbol_table'' m then map (append_to ''op_symbol_table'' regs) m
      else m @ [SubGraph ''op_symbol_table'' regs])"

definition not_comment :: "node \<Rightarrow> bool" where
  "not_comment nd = (case n_op nd of CommentOp _ \<Rightarrow> False | _ \<Rightarrow> True)"

fun drop_comments :: "item \<Rightarrow> item list" where
  "drop_comments (SubGraph s nds) = [SubGraph s (filter not_comment nds)]"
| "drop_comments (TopOp nd) = (if not_comment nd then [TopOp nd] else [])"
| "drop_comments i = [i]"

definition eliminate_dbg :: "item list \<Rightarrow> item list" where
  "eliminate_dbg m = concat (map drop_comments m)"

subsection \<open>From dialects to program operations\<close>

fun linalg_rewrite :: "ir_op \<Rightarrow> ir_op option" where
  "linalg_rewrite (Linalg a ins outs) =
     Some (KernelLaunch (optype2Str (aop_type a)) (aop_options a)
             (if aop_name a \<noteq> [] then Some (aop_name a) else None) ins outs)"
| "linalg_rewrite _ = None"

fun tensor_rewrite :: "ir_op \<Rightarrow> ir_op option" where
  "tensor_rewrite (TensorFree u) = Some (FreeOp u)"
| "tensor_rewrite _ = None"

fun cf_rewrite :: "ir_op \<Rightarrow> ir_op option" where
  "cf_rewrite (ReturnOp us) = Some RetOp"
| "cf_rewrite _ = None"

fun call_rewrite :: "ir_op \<Rightarrow> ir_op option" where
  "call_rewrite (CallGraph s ins outs) = Some (JumpOp (s @ ''.__entry'') None)"
| "call_rewrite _ = None"

definition rewrite_node :: "junk_device \<Rightarrow> (ir_op \<Rightarrow> ir_op option) \<Rightarrow> node \<Rightarrow> node" where
  "rewrite_node junk f nd = (case f (n_op nd) of None \<Rightarrow> nd | Some op \<Rightarrow> mk junk op)"

fun rewrite_graphs :: "(node \<Rightarrow> node) \<Rightarrow> item \<Rightarrow> item" where
  "rewrite_graphs f (SubGraph s nds) = SubGraph s (map f nds)"
| "rewrite_graphs f i = i"

fun rewrite_top :: "(node \<Rightarrow> node) \<Rightarrow> item \<Rightarrow> item" where
  "rewrite_top f (TopOp nd) = TopOp (f nd)"
| "rewrite_top f i = i"

definition linalg2program :: "junk_device \<Rightarrow> item list \<Rightarrow> item list" where
  "linalg2program junk m =
     map (rewrite_graphs (rewrite_node junk linalg_rewrite)) (map (rewrite_top (rewrite_node junk linalg_rewrite)) m)"

definition tensor2program :: "junk_device \<Rightarrow> item list \<Rightarrow> item list" where
  "tensor2program junk m =
     map (rewrite_graphs (rewrite_node junk tensor_rewrite)) (map (rewrite_top (rewrite_node junk tensor_rewrite)) m)"

definition cf2program :: "junk_device \<Rightarrow> item list \<Rightarrow> item list" where
  "cf2program junk m = map (rewrite_graphs (rewrite_node junk cf_rewrite)) m"

subsection \<open>From graphs to flat code\<close>

text \<open>
  \<^verbatim>\<open>ops().front()\<close> of an empty region is undefined. \<open>front_ok\<close> says whether it does no harm and the
  new operation simply becomes the only one, as happens with the usual layout of \<^verbatim>\<open>std::list\<close>.
\<close>

definition insert_front :: "bool \<Rightarrow> node \<Rightarrow> node list \<Rightarrow> node list outcome" where
  "insert_front front_ok nd nds = (if nds = [] \<and> \<not> front_ok then Inl Undefined else Inr (nd # nds))"

fun bind_ops :: "junk_device \<Rightarrow> bind_type \<Rightarrow> nat \<Rightarrow> uuid list \<Rightarrow> node list" where
  "bind_ops junk bt i [] = []"
| "bind_ops junk bt i (u # us) =
     mk junk (BindOp (to_i32 (int i)) (sint u) bt) # bind_ops junk bt (Suc i) us"

fun insert_binds :: "junk_device \<Rightarrow> item \<Rightarrow> item list" where
  "insert_binds junk (TopOp nd) =
     (case n_op nd of
        CallGraph s ins outs \<Rightarrow>
          map TopOp (bind_ops junk kInput 0 ins @ [nd] @ rev (bind_ops junk kOutput 0 outs) @ [mk junk ExitOp])
      | _ \<Rightarrow> [TopOp nd])"
| "insert_binds junk i = [i]"

definition is_call :: "node \<Rightarrow> bool" where
  "is_call nd = (case n_op nd of CallGraph _ _ _ \<Rightarrow> True | _ \<Rightarrow> False)"

definition graph_fragment_type :: "string \<Rightarrow> fragment_type" where
  "graph_fragment_type s =
     (if s = ''op_symbol_table'' then kTable else if s = ''init'' \<or> s = ''deinit'' then kData else kCode)"

fun graph_rewrite :: "bool \<Rightarrow> junk_device \<Rightarrow> item \<Rightarrow> item outcome" where
  "graph_rewrite front_ok junk (SubGraph s nds) =
     obind (insert_front front_ok (mk junk (LabelOp (s @ ''.__entry''))) nds) (\<lambda>nds1.
     Inr (Fragment (graph_fragment_type s) s (map (rewrite_node junk call_rewrite) nds1)))"
| "graph_rewrite front_ok junk (Fragment t s nds) =
     Inr (Fragment t s (map (rewrite_node junk call_rewrite) nds))"
| "graph_rewrite front_ok junk (TopOp nd) = Inr (TopOp (rewrite_node junk call_rewrite nd))"

fun flat_ops :: "item \<Rightarrow> node list" where
  "flat_ops (TopOp nd) = (if is_program (n_op nd) then [nd] else [])"
| "flat_ops (Fragment t s nds) = (if s \<in> set (code_segment # special_graphs) then [] else nds)"
| "flat_ops (SubGraph s nds) = []"

fun flat_keeps :: "item \<Rightarrow> bool" where
  "flat_keeps (TopOp nd) \<longleftrightarrow> \<not> is_program (n_op nd)"
| "flat_keeps (Fragment t s nds) \<longleftrightarrow> s \<in> set (code_segment # special_graphs)"
| "flat_keeps (SubGraph s nds) \<longleftrightarrow> True"

definition flatten_code :: "item list \<Rightarrow> item list" where
  "flatten_code m = filter flat_keeps m @ [Fragment kCode code_segment (concat (map flat_ops m))]"

definition graph2program :: "bool \<Rightarrow> junk_device \<Rightarrow> item list \<Rightarrow> item list outcome" where
  "graph2program front_ok junk m =
     obind (rt_assert (length (filter is_call (concat (map top_ops m))) = 1)) (\<lambda>_.
     obind (omap (graph_rewrite front_ok junk) (concat (map (insert_binds junk) m))) (\<lambda>m1.
     Inr (flatten_code m1)))"

subsection \<open>The symbol table\<close>

fun lookup_fragment :: "item list \<Rightarrow> string \<Rightarrow> node list option" where
  "lookup_fragment [] s = None"
| "lookup_fragment (i # m) s =
     (case lookup_fragment m s of
        Some nds \<Rightarrow> Some nds
      | None \<Rightarrow> (case i of Fragment t s1 nds \<Rightarrow> if s = s1 then Some nds else None | _ \<Rightarrow> None))"

definition remove_fragment :: "string \<Rightarrow> item list \<Rightarrow> item list" where
  "remove_fragment s m =
     filter (\<lambda>i. case i of Fragment t s1 nds \<Rightarrow> s \<noteq> s1 | _ \<Rightarrow> True) m"

fun value_symbols :: "junk_device \<Rightarrow> node list \<Rightarrow> node list" where
  "value_symbols junk [] = []"
| "value_symbols junk (nd # nds) =
     (case n_op nd of
        TensorRegister s u c \<Rightarrow> mk junk (ValueSymbol s u c) # value_symbols junk nds
      | _ \<Rightarrow> value_symbols junk nds)"

fun symbol_payload :: "node list \<Rightarrow> string \<Rightarrow> string \<times> json option" where
  "symbol_payload [] name = ([], None)"
| "symbol_payload (nd # nds) name =
     (case n_op nd of
        KernelLaunch ty opts (Some s) ins outs \<Rightarrow>
          if s = name \<and> symbol_payload nds name = ([], None) then (ty, Some opts)
          else symbol_payload nds name
      | _ \<Rightarrow> symbol_payload nds name)"

fun kernel_symbols :: "junk_device \<Rightarrow> (string \<Rightarrow> string \<times> json option) \<Rightarrow> node list \<Rightarrow> node list" where
  "kernel_symbols junk pay [] = []"
| "kernel_symbols junk pay (nd # nds) =
     (case n_op nd of
        LinalgRegister s a \<Rightarrow> mk junk (KernelSymbol s (fst (pay s)) (snd (pay s))) # kernel_symbols junk pay nds
      | _ \<Rightarrow> kernel_symbols junk pay nds)"

definition flatten_symbols :: "junk_device \<Rightarrow> item list \<Rightarrow> item list outcome" where
  "flatten_symbols junk m =
     (case lookup_fragment m ''init'' of
        None \<Rightarrow> Inl (Exit kAssert)
      | Some inits \<Rightarrow>
          obind (rt_assert (lookup_fragment m symbol_segment = None)) (\<lambda>_.
          case lookup_fragment m code_segment of
            None \<Rightarrow> Inl (Exit kAssert)
          | Some code \<Rightarrow>
              let m1 = remove_fragment ''init'' m;
                  vals = value_symbols junk inits in
              case lookup_fragment m ''op_symbol_table'' of
                None \<Rightarrow> Inr (m1 @ [Fragment kTable symbol_segment vals])
              | Some regs \<Rightarrow>
                  Inr (remove_fragment ''op_symbol_table'' m1 @
                       [Fragment kTable symbol_segment
                          (vals @ kernel_symbols junk (symbol_payload code) regs)])))"

fun replace_fragment :: "string \<Rightarrow> node list \<Rightarrow> item \<Rightarrow> item" where
  "replace_fragment s nds (Fragment t s1 old) = Fragment t s1 (if s = s1 then nds else old)"
| "replace_fragment s nds i = i"

definition mode_config :: "bool \<Rightarrow> junk_device \<Rightarrow> int \<Rightarrow> item list \<Rightarrow> item list outcome" where
  "mode_config front_ok junk flag m =
     (case lookup_fragment m code_segment of
        None \<Rightarrow> Inl Undefined
      | Some code \<Rightarrow>
          obind (insert_front front_ok (mk junk (ModeConfigOp flag)) code) (\<lambda>code1.
          Inr (map (replace_fragment code_segment code1) m)))"

subsection \<open>Identifiers and jump offsets\<close>

fun number_ops :: "64 word \<Rightarrow> node list \<Rightarrow> node list" where
  "number_ops c [] = []"
| "number_ops c (nd # nds) =
     (if is_program (n_op nd) then nd\<lparr>n_id := c\<rparr> # number_ops (c + 1) nds
      else nd # number_ops c nds)"

fun index_labels :: "node list \<Rightarrow> (string \<rightharpoonup> 64 word) \<Rightarrow> (string \<rightharpoonup> 64 word) outcome" where
  "index_labels [] tab = Inr tab"
| "index_labels (nd # nds) tab =
     (case n_op nd of
        LabelOp l \<Rightarrow> obind (rt_assert (tab l = None)) (\<lambda>_. index_labels nds (tab(l \<mapsto> n_id nd)))
      | _ \<Rightarrow> index_labels nds tab)"

definition set_offset :: "(string \<rightharpoonup> 64 word) \<Rightarrow> node \<Rightarrow> node outcome" where
  "set_offset tab nd =
     (case n_op nd of
        JumpOp l off \<Rightarrow>
          (case tab l of
             None \<Rightarrow> Inl (Exit kAssert)
           | Some i \<Rightarrow>
               Inr (nd\<lparr>n_op := JumpOp l (case off of
                       None \<Rightarrow> Some (to_i32 (uint (i - n_id nd))) | Some x \<Rightarrow> Some x)\<rparr>))
      | _ \<Rightarrow> Inr nd)"

definition index_ids :: "item list \<Rightarrow> item list outcome" where
  "index_ids m =
     (case lookup_fragment m code_segment of
        None \<Rightarrow> Inl (Exit kAssert)
      | Some code \<Rightarrow>
          let code1 = number_ops 0 code in
          obind (index_labels code1 Map.empty) (\<lambda>tab.
          obind (omap (set_offset tab) code1) (\<lambda>code2.
          case lookup_fragment m symbol_segment of
            None \<Rightarrow> Inl (Exit kAssert)
          | Some syms \<Rightarrow>
              Inr (map (replace_fragment symbol_segment (number_ops 0 syms))
                     (map (replace_fragment code_segment code2) m)))))"

subsection \<open>The pipeline\<close>

definition lower_program :: "bool \<Rightarrow> junk_device \<Rightarrow> bool \<Rightarrow> item list \<Rightarrow> item list outcome" where
  "lower_program front_ok junk enable_eager m =
     obind (graph2program front_ok junk (cf2program junk (tensor2program junk (linalg2program junk m)))) (\<lambda>m1.
     obind (flatten_symbols junk m1) (\<lambda>m2.
     obind (if enable_eager then mode_config front_ok junk 1 m2 else Inr m2) index_ids))"

subsection \<open>The shape of a traced module and of its code\<close>

definition module_of :: "node list \<Rightarrow> node \<Rightarrow> (string \<times> node list) list \<Rightarrow> node list \<Rightarrow> item list" where
  "module_of regs call graphs tab =
     SubGraph ''init'' regs # SubGraph ''deinit'' [] # TopOp call #
     map (case_prod SubGraph) graphs @ [SubGraph ''op_symbol_table'' tab]"

definition lower_node :: "junk_device \<Rightarrow> node \<Rightarrow> node" where
  "lower_node junk nd =
     rewrite_node junk call_rewrite (rewrite_node junk cf_rewrite
       (rewrite_node junk tensor_rewrite (rewrite_node junk linalg_rewrite nd)))"

definition entry_node :: "junk_device \<Rightarrow> string \<Rightarrow> node" where
  "entry_node junk s = mk junk (LabelOp (s @ ''.__entry''))"

definition graph_code :: "junk_device \<Rightarrow> string \<times> node list \<Rightarrow> node list" where
  "graph_code junk g = entry_node junk (fst g) # map (lower_node junk) (snd g)"

definition main_code :: "junk_device \<Rightarrow> string \<Rightarrow> uuid list \<Rightarrow> uuid list \<Rightarrow> node list" where
  "main_code junk root ins outs =
     bind_ops junk kInput 0 ins @ [mk junk (JumpOp (root @ ''.__entry'') None)] @
     rev (bind_ops junk kOutput 0 outs) @ [mk junk ExitOp]"

definition flat_code ::
  "junk_device \<Rightarrow> bool \<Rightarrow> string \<Rightarrow> uuid list \<Rightarrow> uuid list \<Rightarrow> (string \<times> node list) list \<Rightarrow> node list" where
  "flat_code junk enable_eager root ins outs graphs =
     (if enable_eager then [mk junk (ModeConfigOp 1)] else []) @
     main_code junk root ins outs @ concat (map (graph_code junk) graphs)"

definition symbol_code ::
  "junk_device \<Rightarrow> node list \<Rightarrow> node list \<Rightarrow> node list \<Rightarrow> node list" where
  "symbol_code junk code regs tab =
     value_symbols junk regs @ kernel_symbols junk (symbol_payload code) tab"

definition is_register :: "node \<Rightarrow> bool" where
  "is_register nd = (case n_op nd of TensorRegister _ _ _ \<Rightarrow> True | LinalgRegister _ _ \<Rightarrow> True | _ \<Rightarrow> False)"

lemma lower_register: "is_register nd \<Longrightarrow> lower_node junk nd = nd"
  by (cases "n_op nd") (simp_all add: is_register_def lower_node_def rewrite_node_def)

lemma lower_registers: "list_all is_register nds \<Longrightarrow> map (lower_node junk) nds = nds"
  by (induction nds) (simp_all add: lower_register)

lemma segment_names [simp]:
  "code_segment \<noteq> symbol_segment" "symbol_segment \<noteq> code_segment"
  "code_segment \<noteq> ''init''" "code_segment \<noteq> ''deinit''" "code_segment \<noteq> ''op_symbol_table''"
  "symbol_segment \<noteq> ''init''" "symbol_segment \<noteq> ''deinit''" "symbol_segment \<noteq> ''op_symbol_table''"
  "''init'' \<noteq> code_segment" "''deinit'' \<noteq> code_segment" "''op_symbol_table'' \<noteq> code_segment"
  "''init'' \<noteq> symbol_segment" "''deinit'' \<noteq> symbol_segment" "''op_symbol_table'' \<noteq> symbol_segment"
  by (simp_all add: code_segment_def symbol_segment_def)

lemma bind_ops_jump:
  "map (rewrite_node junk call_rewrite) (bind_ops junk bt i us) = bind_ops junk bt i us"
  by (induction us arbitrary: i) (simp_all add: rewrite_node_def mk_def)

lemma bind_ops_program: "list_all (\<lambda>nd. is_program (n_op nd)) (bind_ops junk bt i us)"
  by (induction us arbitrary: i) (simp_all add: mk_def)

lemma omap_total: "(\<And>x. x \<in> set xs \<Longrightarrow> f x = Inr (g x)) \<Longrightarrow> omap f xs = Inr (map g xs)"
  by (induction xs) simp_all

lemma omap_append: "omap f (xs @ ys) = obind (omap f xs) (\<lambda>us. obind (omap f ys) (\<lambda>vs. Inr (us @ vs)))"
proof (induction xs)
  case Nil
  then show ?case by (cases "omap f ys") simp_all
next
  case (Cons x xs)
  then show ?case by (simp add: obind_assoc)
qed

lemma graph_rewrite_graphs:
  "omap (graph_rewrite True junk) (map (case_prod SubGraph) gs) =
     Inr (map (\<lambda>(s, nds). Fragment (graph_fragment_type s) s
            (map (rewrite_node junk call_rewrite) (entry_node junk s # nds))) gs)"
  by (induction gs) (auto simp: insert_front_def entry_node_def)

lemma graph_rewrite_tops:
  "omap (graph_rewrite True junk) (map TopOp nds) =
     Inr (map TopOp (map (rewrite_node junk call_rewrite) nds))"
  by (induction nds) auto

definition cleaned :: "junk_device \<Rightarrow> node \<Rightarrow> node" where
  "cleaned junk nd = rewrite_node junk cf_rewrite
     (rewrite_node junk tensor_rewrite (rewrite_node junk linalg_rewrite nd))"

lemma call_kept [simp]:
  "n_op c = CallGraph s i o1 \<Longrightarrow> rewrite_node junk linalg_rewrite c = c"
  "n_op c = CallGraph s i o1 \<Longrightarrow> rewrite_node junk tensor_rewrite c = c"
  by (simp_all add: rewrite_node_def)

lemma clean_module:
  assumes "n_op call = CallGraph root ins outs"
  shows "cf2program junk (tensor2program junk (linalg2program junk (module_of regs call graphs tab))) =
    module_of (map (cleaned junk) regs) call
      (map (\<lambda>(s, nds). (s, map (cleaned junk) nds)) graphs) (map (cleaned junk) tab)"
  using assms
  by (simp add: cf2program_def tensor2program_def linalg2program_def module_of_def cleaned_def
      split_def comp_def)

lemma label_kept [simp]: "rewrite_node junk call_rewrite (mk junk (LabelOp l)) = mk junk (LabelOp l)"
  by (simp add: rewrite_node_def mk_def)

lemma entry_label [simp]: "rewrite_node junk call_rewrite (entry_node junk s) = entry_node junk s"
  by (simp add: entry_node_def)

lemma code_fragments:
  assumes "\<And>s. s \<in> fst ` set gs \<Longrightarrow> s \<notin> set (code_segment # special_graphs)"
  shows "filter flat_keeps (map (\<lambda>(s, nds). Fragment (t s) s (f s nds)) gs) = []"
    "concat (map flat_ops (map (\<lambda>(s, nds). Fragment (t s) s (f s nds)) gs)) = concat (map (case_prod f) gs)"
  using assms by (induction gs) (auto simp: special_graphs_def)

definition plain_names :: "(string \<times> node list) list \<Rightarrow> bool" where
  "plain_names graphs \<longleftrightarrow>
     distinct (map fst graphs) \<and> list_all (\<lambda>g. fst g \<notin> set (code_segment # special_graphs)) graphs"

lemma top_calls: "concat (map top_ops (map (case_prod SubGraph) gs)) = []"
  by (induction gs) auto

lemma no_binds: "concat (map (insert_binds junk) (map (case_prod SubGraph) gs)) = map (case_prod SubGraph) gs"
  by (induction gs) auto

lemma flat_tops:
  "list_all (\<lambda>nd. is_program (n_op nd)) nds \<Longrightarrow> filter flat_keeps (map TopOp nds) = []"
  "list_all (\<lambda>nd. is_program (n_op nd)) nds \<Longrightarrow> concat (map flat_ops (map TopOp nds)) = nds"
  by (induction nds) auto

lemma main_code_tops:
  assumes "n_op call = CallGraph root ins outs"
  shows "map (rewrite_node junk call_rewrite)
     (bind_ops junk kInput 0 ins @ [call] @ rev (bind_ops junk kOutput 0 outs) @ [mk junk ExitOp]) =
   main_code junk root ins outs"
  using assms
  by (simp add: bind_ops_jump main_code_def flip: rev_map) (simp add: rewrite_node_def mk_def)

lemma main_code_program: "list_all (\<lambda>nd. is_program (n_op nd)) (main_code junk root ins outs)"
  using bind_ops_program by (simp add: main_code_def list_all_rev) (simp add: mk_def)

lemma graph2program_module:
  assumes call: "n_op call = CallGraph root ins outs"
    and names: "plain_names graphs"
  shows "graph2program True junk (module_of regs call graphs tab) =
    Inr [Fragment kData ''init'' (entry_node junk ''init'' # map (rewrite_node junk call_rewrite) regs),
         Fragment kData ''deinit'' [entry_node junk ''deinit''],
         Fragment kTable ''op_symbol_table''
           (entry_node junk ''op_symbol_table'' # map (rewrite_node junk call_rewrite) tab),
         Fragment kCode code_segment
           (main_code junk root ins outs @
            concat (map (\<lambda>(s, nds). entry_node junk s # map (rewrite_node junk call_rewrite) nds) graphs))]"
proof -
  let ?m = "module_of regs call graphs tab"
  let ?main = "bind_ops junk kInput 0 ins @ [call] @ rev (bind_ops junk kOutput 0 outs) @ [mk junk ExitOp]"
  let ?f = "\<lambda>s nds. entry_node junk s # map (rewrite_node junk call_rewrite) nds"
  have one: "length (filter is_call (concat (map top_ops ?m))) = 1"
    using call by (simp only: module_of_def list.map map_append concat.simps concat_append top_calls)
      (simp add: is_call_def)
  have binds: "concat (map (insert_binds junk) ?m) =
      SubGraph ''init'' regs # SubGraph ''deinit'' [] # map TopOp ?main @
      map (case_prod SubGraph) graphs @ [SubGraph ''op_symbol_table'' tab]"
    using call by (simp only: module_of_def list.map map_append concat.simps concat_append no_binds) simp
  have rewritten: "omap (graph_rewrite True junk) (concat (map (insert_binds junk) ?m)) =
      Inr (Fragment kData ''init'' (?f ''init'' regs) # Fragment kData ''deinit'' (?f ''deinit'' []) #
        map TopOp (main_code junk root ins outs) @
        map (\<lambda>(s, nds). Fragment (graph_fragment_type s) s (?f s nds)) graphs @
        [Fragment kTable ''op_symbol_table'' (?f ''op_symbol_table'' tab)])"
    unfolding binds
    by (simp only: omap.simps omap_append graph_rewrite_tops graph_rewrite_graphs main_code_tops [OF call]
        obind.simps)
      (simp add: insert_front_def graph_fragment_type_def entry_node_def)
  have names1: "\<And>s. s \<in> fst ` set graphs \<Longrightarrow> s \<notin> set (code_segment # special_graphs)"
    using names by (auto simp: plain_names_def list_all_iff)
  note gs = code_fragments [OF names1, where t = graph_fragment_type and f = ?f]
  note ts = flat_tops [OF main_code_program]
  show ?thesis
    unfolding graph2program_def
    by (simp only: one rewritten obind.simps rt_assert_simps flatten_code_def filter.simps filter_append
        list.map map_append concat.simps concat_append gs ts)
      (simp add: special_graphs_def)
qed

lemma cleaned_code:
  "concat (map (\<lambda>(s, nds). entry_node junk s # map (rewrite_node junk call_rewrite) nds)
     (map (\<lambda>(s, nds). (s, map (cleaned junk) nds)) graphs)) = concat (map (graph_code junk) graphs)"
  by (rule arg_cong [of _ _ concat])
    (simp add: graph_code_def lower_node_def cleaned_def comp_def split_def)

lemma cleaned_registers:
  "map (rewrite_node junk call_rewrite) (map (cleaned junk) nds) = map (lower_node junk) nds"
  by (simp add: lower_node_def cleaned_def)

lemma n_op_entry [simp]: "n_op (entry_node junk s) = LabelOp (s @ ''.__entry'')"
  by (simp add: entry_node_def mk_def)

lemma symbol_entry [simp]:
  "value_symbols junk (entry_node junk s # nds) = value_symbols junk nds"
  "kernel_symbols junk pay (entry_node junk s # nds) = kernel_symbols junk pay nds"
  by simp_all

definition lowered_items :: "junk_device \<Rightarrow> node list \<Rightarrow> node list \<Rightarrow> item list" where
  "lowered_items junk code syms =
     [Fragment kData ''deinit'' [entry_node junk ''deinit''], Fragment kCode code_segment code,
      Fragment kTable symbol_segment syms]"

lemma lookup_lowered [simp]:
  "lookup_fragment (lowered_items junk code syms) code_segment = Some code"
  "lookup_fragment (lowered_items junk code syms) symbol_segment = Some syms"
  "map (replace_fragment code_segment code1) (lowered_items junk code syms) = lowered_items junk code1 syms"
  "map (replace_fragment symbol_segment syms1) (lowered_items junk code syms) = lowered_items junk code syms1"
  by (simp_all add: lowered_items_def)

lemma symbol_payload_mode:
  "symbol_payload (mk junk (ModeConfigOp k) # nds) = symbol_payload nds"
  by (rule ext) (simp add: mk_def)

text \<open>Every pass but the last succeeds on a module of this shape.\<close>

lemma lower_program_module:
  assumes call: "n_op call = CallGraph root ins outs"
    and names: "plain_names graphs"
    and regs: "list_all is_register regs" "list_all is_register tab"
  shows "lower_program True junk enable_eager (module_of regs call graphs tab) =
    (let code = flat_code junk enable_eager root ins outs graphs in
     index_ids (lowered_items junk code (symbol_code junk code regs tab)))"
proof -
  let ?code = "main_code junk root ins outs @ concat (map (graph_code junk) graphs)"
  have names1: "plain_names (map (\<lambda>(s, nds). (s, map (cleaned junk) nds)) graphs)"
    using names by (simp add: plain_names_def list_all_iff comp_def split_def)
  have g: "graph2program True junk (cf2program junk (tensor2program junk (linalg2program junk
        (module_of regs call graphs tab)))) =
      Inr [Fragment kData ''init'' (entry_node junk ''init'' # regs),
           Fragment kData ''deinit'' [entry_node junk ''deinit''],
           Fragment kTable ''op_symbol_table'' (entry_node junk ''op_symbol_table'' # tab),
           Fragment kCode code_segment ?code]"
    by (simp only: clean_module [OF call] graph2program_module [OF call names1] cleaned_code
        cleaned_registers lower_registers regs)
  have f: "flatten_symbols junk
        [Fragment kData ''init'' (entry_node junk ''init'' # regs),
         Fragment kData ''deinit'' [entry_node junk ''deinit''],
         Fragment kTable ''op_symbol_table'' (entry_node junk ''op_symbol_table'' # tab),
         Fragment kCode code_segment ?code] =
      Inr (lowered_items junk ?code (symbol_code junk ?code regs tab))"
    by (simp add: flatten_symbols_def remove_fragment_def symbol_code_def lowered_items_def)
  show ?thesis
  proof (cases enable_eager)
    case True
    then show ?thesis
      by (simp add: lower_program_def g f mode_config_def insert_front_def flat_code_def symbol_code_def
          symbol_payload_mode Let_def)
  next
    case False
    then show ?thesis by (simp add: lower_program_def g f flat_code_def Let_def)
  qed
qed

end
