(* ===== verification/Program_Layout.thy ===== *)
theory Program_Layout
  imports Program_Lowering
begin

text \<open>
  What the last pass makes of flat code (\<^verbatim>\<open>ProgramIntrinsicIdIndexPass.cpp\<close>): identifiers are positions,
  labels are unique and every jump leads to its label. And what the whole pipeline makes of a traced
  module: entry code, then one stretch of code per graph, which does the operations of the call tree.
\<close>

subsection \<open>Identifiers are positions\<close>

definition all_program :: "node list \<Rightarrow> bool" where
  "all_program nds \<longleftrightarrow> list_all (\<lambda>nd. is_program (n_op nd)) nds"

lemma length_number_ops [simp]: "length (number_ops c nds) = length nds"
  by (induction nds arbitrary: c) simp_all

lemma number_ops_nth:
  "all_program nds \<Longrightarrow> i < length nds \<Longrightarrow> number_ops c nds ! i = (nds ! i)\<lparr>n_id := c + of_nat i\<rparr>"
  by (induction nds arbitrary: c i) (auto simp: all_program_def nth_Cons' algebra_simps)

lemma n_op_number_ops: "i < length nds \<Longrightarrow> n_op (number_ops c nds ! i) = n_op (nds ! i)"
  by (induction nds arbitrary: c i) (auto simp: nth_Cons')

subsection \<open>Labels\<close>

fun label_of :: "node \<Rightarrow> string option" where
  "label_of nd = (case n_op nd of LabelOp l \<Rightarrow> Some l | _ \<Rightarrow> None)"

definition node_labels :: "node list \<Rightarrow> string list" where
  "node_labels nds = List.map_filter label_of nds"

lemma node_labels_simps:
  "node_labels [] = []"
  "node_labels (nd # nds) = (case n_op nd of LabelOp l \<Rightarrow> l # node_labels nds | _ \<Rightarrow> node_labels nds)"
  by (simp_all add: node_labels_def List.map_filter_simps split: ir_op.split)

lemma node_labels_append: "node_labels (xs @ ys) = node_labels xs @ node_labels ys"
  by (induction xs) (auto simp: node_labels_simps split: ir_op.split)

lemma in_node_labels: "l \<in> set (node_labels nds) \<longleftrightarrow> (\<exists>nd \<in> set nds. n_op nd = LabelOp l)"
  by (induction nds) (auto simp: node_labels_simps split: ir_op.split)

lemma index_labels_total:
  "distinct (node_labels nds) \<Longrightarrow> \<forall>l \<in> set (node_labels nds). tab l = None \<Longrightarrow>
     \<exists>tab1. index_labels nds tab = Inr tab1"
proof (induction nds arbitrary: tab)
  case (Cons nd nds)
  show ?case
  proof (cases "\<exists>k. n_op nd = LabelOp k")
    case True
    then obtain k where k: "n_op nd = LabelOp k" by blast
    then have "distinct (node_labels nds)" "\<forall>l \<in> set (node_labels nds). (tab(k \<mapsto> n_id nd)) l = None"
      using Cons.prems by (auto simp: node_labels_simps)
    from Cons.IH [OF this] obtain tab1 where "index_labels nds (tab(k \<mapsto> n_id nd)) = Inr tab1" by blast
    then show ?thesis using k Cons.prems by (auto simp: node_labels_simps)
  next
    case False
    then show ?thesis using Cons.prems Cons.IH [of tab] by (cases "n_op nd") (auto simp: node_labels_simps)
  qed
qed simp

lemma index_labels_spec:
  "index_labels nds tab = Inr tab1 \<Longrightarrow>
     tab1 l = Some v \<longleftrightarrow> tab l = Some v \<or> (\<exists>nd \<in> set nds. n_op nd = LabelOp l \<and> n_id nd = v)"
proof (induction nds arbitrary: tab)
  case (Cons nd nds)
  show ?case
  proof (cases "\<exists>k. n_op nd = LabelOp k")
    case True
    then obtain k where k: "n_op nd = LabelOp k" by blast
    then have free: "tab k = None" and rec: "index_labels nds (tab(k \<mapsto> n_id nd)) = Inr tab1"
      using Cons.prems by (auto simp: outcome_simps)
    show ?thesis using Cons.IH [OF rec] k free by (auto split: if_splits)
  next
    case False
    then have "index_labels nds tab = Inr tab1" using Cons.prems by (cases "n_op nd") auto
    then show ?thesis using Cons.IH False by auto
  qed
qed simp

lemma index_labels_distinct:
  "index_labels nds tab = Inr tab1 \<Longrightarrow>
     distinct (node_labels nds) \<and> (\<forall>l \<in> set (node_labels nds). tab l = None)"
proof (induction nds arbitrary: tab)
  case (Cons nd nds)
  show ?case
  proof (cases "\<exists>k. n_op nd = LabelOp k")
    case True
    then obtain k where k: "n_op nd = LabelOp k" by blast
    then have free: "tab k = None" and rec: "index_labels nds (tab(k \<mapsto> n_id nd)) = Inr tab1"
      using Cons.prems by (auto simp: outcome_simps)
    show ?thesis using Cons.IH [OF rec] k free by (auto simp: node_labels_simps split: if_splits)
  next
    case False
    then have "index_labels nds tab = Inr tab1" using Cons.prems by (cases "n_op nd") auto
    then show ?thesis using Cons.IH False by (auto simp: node_labels_simps split: ir_op.split)
  qed
qed (simp add: node_labels_simps)

lemma labels_unique:
  "distinct (node_labels nds) \<Longrightarrow> i < length nds \<Longrightarrow> j < length nds \<Longrightarrow>
     n_op (nds ! i) = LabelOp l \<Longrightarrow> n_op (nds ! j) = LabelOp l \<Longrightarrow> i = j"
proof (induction nds arbitrary: i j)
  case (Cons nd nds)
  show ?case
    using Cons.prems Cons.IH [of "i - 1" "j - 1"]
    by (cases i; cases j) (auto simp: node_labels_simps in_node_labels dest: nth_mem split: ir_op.splits)
qed simp

lemma numbered_labels:
  assumes "all_program code" "index_labels (number_ops 0 code) Map.empty = Inr tab"
  shows "tab l = Some v \<longleftrightarrow> (\<exists>j < length code. n_op (code ! j) = LabelOp l \<and> v = of_nat j)"
  using index_labels_spec [OF assms(2), of l v] assms(1)
  by (auto simp: in_set_conv_nth Bex_def number_ops_nth n_op_number_ops)

subsection \<open>Offsets\<close>

lemma offset_between:
  assumes "i < 2 ^ 31" "j < 2 ^ 31"
  shows "to_i32 (uint (of_nat j - of_nat i :: 64 word)) = int j - int i"
proof -
  have "uint (of_nat j - of_nat i :: 64 word) = (int j - int i) mod 2 ^ 64"
    using uint_word_of_int [of "int j - int i", where 'a = 64] by simp
  then have "to_i32 (uint (of_nat j - of_nat i :: 64 word)) = to_i32 ((int j - int i) mod 2 ^ 64)"
    by simp
  also have "\<dots> = to_i32 (int j - int i)"
  proof -
    let ?x = "int j - int i"
    have d: "(2::int) ^ 32 dvd 2 ^ 64" by simp
    have "(?x mod 2 ^ 64 + 2 ^ 31) mod 2 ^ 32 = (?x mod 2 ^ 64 mod 2 ^ 32 + 2 ^ 31) mod 2 ^ 32"
      by (rule mod_add_left_eq [symmetric])
    also have "\<dots> = (?x mod 2 ^ 32 + 2 ^ 31) mod 2 ^ 32" by (simp only: mod_mod_cancel [OF d])
    also have "\<dots> = (?x + 2 ^ 31) mod 2 ^ 32" by (rule mod_add_left_eq)
    finally have "(?x mod 2 ^ 64 + 2 ^ 31) mod 2 ^ 32 = (?x + 2 ^ 31) mod 2 ^ 32" .
    then show ?thesis by (simp only: to_i32_def)
  qed
  also have "\<dots> = int j - int i" using assms by (intro to_i32_id) simp_all
  finally show ?thesis .
qed

text \<open>What the pass does to one operation, with the positions of the labels in place of their identifiers.\<close>

fun label_pos :: "node list \<Rightarrow> string \<Rightarrow> nat" where
  "label_pos [] l = 0"
| "label_pos (nd # nds) l = (if n_op nd = LabelOp l then 0 else Suc (label_pos nds l))"

lemma label_pos_found:
  "l \<in> set (node_labels nds) \<Longrightarrow> label_pos nds l < length nds \<and> n_op (nds ! label_pos nds l) = LabelOp l"
  by (induction nds) (auto simp: node_labels_simps split: ir_op.splits)

lemma label_pos_unique:
  "distinct (node_labels nds) \<Longrightarrow> j < length nds \<Longrightarrow> n_op (nds ! j) = LabelOp l \<Longrightarrow> label_pos nds l = j"
  by (meson in_node_labels label_pos_found labels_unique nth_mem)

definition indexed_op :: "node list \<Rightarrow> nat \<Rightarrow> ir_op \<Rightarrow> ir_op" where
  "indexed_op code i op = (case op of
      JumpOp l None \<Rightarrow> JumpOp l (Some (int (label_pos code l) - int i)) | _ \<Rightarrow> op)"

definition indexed :: "node list \<Rightarrow> node list" where
  "indexed code = map (\<lambda>i. (code ! i)\<lparr>n_op := indexed_op code i (n_op (code ! i)), n_id := of_nat i\<rparr>)
     [0..<length code]"

definition jump_labels :: "node list \<Rightarrow> string set" where
  "jump_labels code = {l. \<exists>nd \<in> set code. \<exists>off. n_op nd = JumpOp l off}"

lemma set_offset_other: "(\<And>l off. n_op nd \<noteq> JumpOp l off) \<Longrightarrow> set_offset tab nd = Inr nd"
  by (auto simp: set_offset_def split: ir_op.split)

lemma indexed_nth:
  "i < length code \<Longrightarrow>
     indexed code ! i = (code ! i)\<lparr>n_op := indexed_op code i (n_op (code ! i)), n_id := of_nat i\<rparr>"
  by (simp add: indexed_def)

lemma length_indexed [simp]: "length (indexed code) = length code"
  by (simp add: indexed_def)

lemma set_offset_numbered:
  assumes "all_program code" "index_labels (number_ops 0 code) Map.empty = Inr tab"
    and "jump_labels code \<subseteq> set (node_labels code)" "length code \<le> 2 ^ 31" "i < length code"
  shows "set_offset tab (number_ops 0 code ! i) = Inr (indexed code ! i)"
proof (cases "\<exists>l off. n_op (code ! i) = JumpOp l off")
  case False
  then show ?thesis
    using assms by (simp add: number_ops_nth indexed_nth set_offset_other indexed_op_def split: ir_op.splits)
next
  case True
  then obtain l off where j: "n_op (code ! i) = JumpOp l off" by blast
  then have "l \<in> set (node_labels code)" using assms(3,5) by (force simp: jump_labels_def)
  note p = label_pos_found [OF this]
  then have t: "tab l = Some (of_nat (label_pos code l))" using numbered_labels [OF assms(1,2)] by blast
  have "to_i32 (uint (of_nat (label_pos code l) - of_nat i :: 64 word)) = int (label_pos code l) - int i"
    using p assms(4,5) by (intro offset_between) simp_all
  then show ?thesis
    using assms j t by (cases off) (simp_all add: set_offset_def number_ops_nth indexed_nth indexed_op_def)
qed

lemma node_labels_numbered [simp]: "node_labels (number_ops c nds) = node_labels nds"
  by (induction nds arbitrary: c) (auto simp: node_labels_simps split: ir_op.split)

lemma index_ids_lowered:
  assumes "all_program code" "distinct (node_labels code)"
    and "jump_labels code \<subseteq> set (node_labels code)" "length code \<le> 2 ^ 31"
  shows "index_ids (lowered_items junk code syms) = Inr (lowered_items junk (indexed code) (number_ops 0 syms))"
proof -
  obtain tab where tab: "index_labels (number_ops 0 code) Map.empty = Inr tab"
    using index_labels_total [of "number_ops 0 code" Map.empty] assms(2) by auto
  have "omap (set_offset tab) (number_ops 0 code) = Inr (indexed code)"
    using set_offset_numbered [OF assms(1) tab assms(3,4)] by (simp add: omap_Inr)
  then show ?thesis using tab by (simp add: index_ids_def)
qed

subsection \<open>The call tree of a module\<close>

text \<open>
  A graph of a traced module holds operations, calls of graphs and frees, and ends with its return.
  \<open>unfolds G ops ks\<close>: executing \<open>ops\<close>, with every call replaced by the graph it names, does \<open>ks\<close>.
\<close>

fun straight :: "string list \<Rightarrow> ir_op \<Rightarrow> bool" where
  "straight names (Linalg a ins outs) \<longleftrightarrow> True"
| "straight names (CallGraph s ins outs) \<longleftrightarrow> s \<in> set names"
| "straight names (TensorFree u) \<longleftrightarrow> True"
| "straight names _ \<longleftrightarrow> False"

definition is_return :: "node \<Rightarrow> bool" where
  "is_return nd = (case n_op nd of ReturnOp _ \<Rightarrow> True | _ \<Rightarrow> False)"

definition graph_ok :: "string list \<Rightarrow> node list \<Rightarrow> bool" where
  "graph_ok names nds \<longleftrightarrow> nds \<noteq> [] \<and> is_return (last nds) \<and> list_all (straight names) (map n_op (butlast nds))"

definition graphs_ok :: "string \<Rightarrow> (string \<times> node list) list \<Rightarrow> bool" where
  "graphs_ok root graphs \<longleftrightarrow>
     plain_names graphs \<and> root \<in> set (map fst graphs) \<and>
     list_all (\<lambda>g. graph_ok (map fst graphs) (snd g)) graphs"

definition body_of :: "(string \<times> node list) list \<Rightarrow> string \<Rightarrow> ir_op list option" where
  "body_of graphs s = map_option (\<lambda>nds. map n_op (butlast nds)) (map_of graphs s)"

inductive unfolds :: "(string \<Rightarrow> ir_op list option) \<Rightarrow> ir_op list \<Rightarrow> ir_op list \<Rightarrow> bool" for G where
  unfolds_nil: "unfolds G [] []"
| unfolds_linalg: "unfolds G ops ks \<Longrightarrow> unfolds G (Linalg a ins outs # ops) (Linalg a ins outs # ks)"
| unfolds_free: "unfolds G ops ks \<Longrightarrow> unfolds G (TensorFree u # ops) (TensorFree u # ks)"
| unfolds_call: "G s = Some body \<Longrightarrow> unfolds G body ks1 \<Longrightarrow> unfolds G ops ks2 \<Longrightarrow>
    unfolds G (CallGraph s ins outs # ops) (ks1 @ ks2)"

fun lowered_op :: "ir_op \<Rightarrow> ir_op" where
  "lowered_op (Linalg a ins outs) =
     KernelLaunch (optype2Str (aop_type a)) (aop_options a)
       (if aop_name a \<noteq> [] then Some (aop_name a) else None) ins outs"
| "lowered_op (TensorFree u) = FreeOp u"
| "lowered_op (CallGraph s ins outs) = JumpOp (s @ ''.__entry'') None"
| "lowered_op (ReturnOp us) = RetOp"
| "lowered_op op = op"

lemma n_op_rewrite: "n_op (rewrite_node junk f nd) = (case f (n_op nd) of None \<Rightarrow> n_op nd | Some op \<Rightarrow> op)"
  by (simp add: rewrite_node_def mk_def split: option.split)

lemma n_op_lower_node: "n_op (lower_node junk nd) = lowered_op (n_op nd)"
  by (cases "n_op nd") (simp_all add: lower_node_def n_op_rewrite)

lemma n_device_lower_node:
  "n_op nd = Linalg a ins outs \<Longrightarrow> n_device (lower_node junk nd) = junk (lowered_op (n_op nd))"
  by (simp add: lower_node_def rewrite_node_def mk_def)

subsection \<open>The flat code is well formed\<close>

lemma node_labels_none: "(\<And>nd. nd \<in> set nds \<Longrightarrow> label_of nd = None) \<Longrightarrow> node_labels nds = []"
  by (induction nds) (auto simp: node_labels_def List.map_filter_simps)

lemma set_bind_ops: "nd \<in> set (bind_ops junk bt i us) \<Longrightarrow> \<exists>pos u. nd = mk junk (BindOp pos u bt)"
  by (induction us arbitrary: i) auto

lemma main_code_labels: "node_labels (main_code junk root ins outs) = []"
  by (rule node_labels_none) (auto simp: main_code_def mk_def dest!: set_bind_ops)

lemma main_code_jumps: "jump_labels (main_code junk root ins outs) = {root @ ''.__entry''}"
  by (auto simp: jump_labels_def main_code_def mk_def dest!: set_bind_ops)

lemma graph_ok_ops:
  "graph_ok names nds \<Longrightarrow> nd \<in> set nds \<Longrightarrow> straight names (n_op nd) \<or> (\<exists>us. n_op nd = ReturnOp us)"
  by (cases nds rule: rev_cases)
    (auto simp: graph_ok_def is_return_def list_all_iff split: ir_op.splits)

lemma straight_lowered:
  "straight names op \<or> op = ReturnOp us \<Longrightarrow> is_program (lowered_op op) \<and> (\<forall>l. lowered_op op \<noteq> LabelOp l)"
  by (cases op) simp_all

lemma graph_code_labels:
  assumes "graph_ok names (snd g)"
  shows "node_labels (graph_code junk g) = [fst g @ ''.__entry'']"
proof -
  have "node_labels (map (lower_node junk) (snd g)) = []"
  proof (rule node_labels_none)
    fix nd assume "nd \<in> set (map (lower_node junk) (snd g))"
    then obtain nd1 where "nd1 \<in> set (snd g)" "nd = lower_node junk nd1" by auto
    then show "label_of nd = None"
      using graph_ok_ops [OF assms] straight_lowered by (fastforce simp: n_op_lower_node split: ir_op.split)
  qed
  then show ?thesis by (simp add: graph_code_def node_labels_simps)
qed

lemma graph_code_program:
  assumes "graph_ok names (snd g)"
  shows "all_program (graph_code junk g)"
  using graph_ok_ops [OF assms] straight_lowered
  by (fastforce simp: all_program_def graph_code_def list_all_iff n_op_lower_node)

lemma graph_code_jumps:
  assumes "graph_ok names (snd g)"
  shows "jump_labels (graph_code junk g) \<subseteq> (\<lambda>s. s @ ''.__entry'') ` set names"
proof -
  have "l \<in> (\<lambda>s. s @ ''.__entry'') ` set names"
    if nd: "nd \<in> set (snd g)" "lowered_op (n_op nd) = JumpOp l off" for nd l off
    using graph_ok_ops [OF assms nd(1)] nd(2) by (cases "n_op nd") auto
  then show ?thesis by (auto simp: jump_labels_def graph_code_def n_op_lower_node)
qed

lemma concat_code_labels:
  "list_all (\<lambda>g. graph_ok names (snd g)) gs \<Longrightarrow>
     node_labels (concat (map (graph_code junk) gs)) = map (\<lambda>g. fst g @ ''.__entry'') gs"
proof (induction gs)
  case (Cons g gs)
  then show ?case using graph_code_labels [of names g junk] by (simp add: node_labels_append)
qed (simp add: node_labels_simps)

lemma flat_code_labels:
  assumes "graphs_ok root graphs"
  shows "node_labels (flat_code junk e root ins outs graphs) = map (\<lambda>s. s @ ''.__entry'') (map fst graphs)"
  using assms concat_code_labels [of "map fst graphs" graphs junk]
  by (simp add: graphs_ok_def flat_code_def node_labels_append main_code_labels node_labels_simps mk_def)

lemma flat_code_program:
  assumes "graphs_ok root graphs"
  shows "all_program (flat_code junk e root ins outs graphs)"
proof -
  have "all_program (concat (map (graph_code junk) gs))"
    if "list_all (\<lambda>g. graph_ok (map fst graphs) (snd g)) gs" for gs
    using that by (induction gs) (auto simp: all_program_def dest: graph_code_program [where junk = junk])
  then show ?thesis
    using assms main_code_program by (auto simp: graphs_ok_def flat_code_def all_program_def mk_def)
qed

lemma flat_code_distinct:
  "graphs_ok root graphs \<Longrightarrow> distinct (node_labels (flat_code junk e root ins outs graphs))"
  by (subst flat_code_labels, assumption, subst distinct_map)
    (auto simp: graphs_ok_def plain_names_def inj_on_def)

lemma jump_labels_append: "jump_labels (xs @ ys) = jump_labels xs \<union> jump_labels ys"
  by (auto simp: jump_labels_def)

lemma flat_code_jumps:
  assumes "graphs_ok root graphs"
  shows "jump_labels (flat_code junk e root ins outs graphs) \<subseteq>
    set (node_labels (flat_code junk e root ins outs graphs))"
proof -
  let ?L = "(\<lambda>s. s @ ''.__entry'') ` set (map fst graphs)"
  have "jump_labels (concat (map (graph_code junk) gs)) \<subseteq> ?L"
    if "list_all (\<lambda>g. graph_ok (map fst graphs) (snd g)) gs" for gs
    using that
  proof (induction gs)
    case (Cons g gs)
    then show ?case using graph_code_jumps [of "map fst graphs" g junk] by (simp add: jump_labels_append)
  qed (simp add: jump_labels_def)
  moreover have "jump_labels (if e then [mk junk (ModeConfigOp 1)] else []) = {}"
    by (simp add: jump_labels_def mk_def)
  ultimately show ?thesis
    unfolding flat_code_labels [OF assms] using assms
    by (auto simp: flat_code_def jump_labels_append main_code_jumps graphs_ok_def)
qed

subsection \<open>What the flat code does\<close>

text \<open>
  \<open>implements P nd i\<close>: the loaded instruction \<open>i\<close> is that of the operation \<open>nd\<close>, with an object that
  \<open>P\<close> accepts for its type, options and name. \<open>act_of\<close> relates the operations of the call tree to
  what the interpreter does.
\<close>

type_synonym object_spec = "string \<Rightarrow> json \<Rightarrow> string option \<Rightarrow> nat option \<Rightarrow> bool"

definition node_device :: "node \<Rightarrow> device" where
  "node_device nd = str2DeviceType (deviceTypes2Str (n_device nd))"

fun implements :: "object_spec \<Rightarrow> node \<Rightarrow> instr \<Rightarrow> bool" where
  "implements P nd i \<longleftrightarrow>
     (case n_op nd of
        KernelLaunch ty opts sn ins outs \<Rightarrow>
          (\<exists>p. i = IKernelLaunch p ins outs (node_device nd) \<and> P ty opts sn p)
      | FreeOp u \<Rightarrow> i = IFree [u]
      | LabelOp l \<Rightarrow> i = ILabel []
      | JumpOp l (Some off) \<Rightarrow> i = IJump off
      | RetOp \<Rightarrow> i = IRet
      | ExitOp \<Rightarrow> i = IExit
      | BindOp pos u bt \<Rightarrow> i = IBind pos u bt
      | ModeConfigOp flag \<Rightarrow> i = IModeConfig flag
      | _ \<Rightarrow> False)"

fun act_of :: "object_spec \<Rightarrow> junk_device \<Rightarrow> ir_op \<Rightarrow> act \<Rightarrow> bool" where
  "act_of P junk (Linalg a ins outs) k \<longleftrightarrow>
     (\<exists>p. k = ALaunch p ins outs (str2DeviceType (deviceTypes2Str (junk (lowered_op (Linalg a ins outs))))) \<and>
          P (optype2Str (aop_type a)) (aop_options a) (if aop_name a \<noteq> [] then Some (aop_name a) else None) p)"
| "act_of P junk (TensorFree u) k \<longleftrightarrow> k = AFree [u]"
| "act_of P junk _ k \<longleftrightarrow> False"

text \<open>A stretch of the operations of one graph at position \<open>a\<close> of the code.\<close>

definition stretch :: "junk_device \<Rightarrow> node list \<Rightarrow> nat \<Rightarrow> ir_op list \<Rightarrow> bool" where
  "stretch junk code a ops \<longleftrightarrow>
     a + length ops < length code \<and>
     (\<forall>i < length ops. n_op (code ! (a + i)) = lowered_op (ops ! i) \<and>
        (\<forall>b ins outs. ops ! i = Linalg b ins outs \<longrightarrow> n_device (code ! (a + i)) = junk (lowered_op (ops ! i))))"

lemma stretch_Cons:
  "stretch junk code a (op # ops) \<longleftrightarrow>
     a < length code \<and> n_op (code ! a) = lowered_op op \<and>
     (\<forall>b ins outs. op = Linalg b ins outs \<longrightarrow> n_device (code ! a) = junk (lowered_op op)) \<and>
     stretch junk code (Suc a) ops"
  by (auto simp: stretch_def All_less_Suc2)

lemma implements_indexed:
  assumes "list_all2 (implements P) (indexed code) is" "i < length code"
  shows "implements P ((code ! i)\<lparr>n_op := indexed_op code i (n_op (code ! i)), n_id := of_nat i\<rparr>) (is ! i)"
  using list_all2_nthD [OF assms(1), of i] assms(2) by (simp add: indexed_nth del: implements.simps)

lemma graph_position:
  assumes "graphs_ok root graphs" "map_of graphs s = Some nds"
    and code_def: "code = flat_code junk e root ins outs graphs"
    and p_def: "p = label_pos code (s @ ''.__entry'')"
  shows "n_op (code ! p) = LabelOp (s @ ''.__entry'')"
    and "stretch junk code (Suc p) (map n_op (butlast nds))"
    and "n_op (code ! (Suc p + length (butlast nds))) = RetOp"
proof -
  have g: "(s, nds) \<in> set graphs" using assms(2) by (rule map_of_SomeD)
  then have ok: "graph_ok (map fst graphs) nds"
    using assms(1) by (force simp: graphs_ok_def list_all_iff)
  then have ne: "nds \<noteq> []" and pos: "0 < length nds" by (simp_all add: graph_ok_def)
  obtain xs ys where split: "graphs = xs @ (s, nds) # ys" using split_list [OF g] by blast
  define pre where "pre = (if e then [mk junk (ModeConfigOp 1)] else []) @
      main_code junk root ins outs @ concat (map (graph_code junk) xs)"
  have code: "code = pre @ entry_node junk s # map (lower_node junk) nds @ concat (map (graph_code junk) ys)"
    by (simp add: code_def flat_code_def pre_def split graph_code_def)
  have "label_pos code (s @ ''.__entry'') = length pre"
    using flat_code_distinct [OF assms(1), of junk e ins outs, folded code_def]
    by (rule label_pos_unique) (simp_all add: code)
  then have p: "p = length pre" by (simp add: p_def)
  show "n_op (code ! p) = LabelOp (s @ ''.__entry'')" by (simp add: code p)
  have at: "i < length nds \<Longrightarrow> code ! (Suc p + i) = lower_node junk (nds ! i)" for i
    by (simp add: code p nth_append)
  have len: "Suc p + length nds \<le> length code" by (simp add: code p)
  have "Suc p + length (butlast nds) < length code"
    unfolding length_butlast using len pos by linarith
  then show "stretch junk code (Suc p) (map n_op (butlast nds))"
    using at by (auto simp: stretch_def nth_butlast n_op_lower_node n_device_lower_node length_butlast
        simp del: add_Suc)
  show "n_op (code ! (Suc p + length (butlast nds))) = RetOp"
    using at [of "length nds - 1"] ne ok
    by (auto simp: n_op_lower_node last_conv_nth graph_ok_def is_return_def split: ir_op.splits)
qed

lemma unfolds_runs:
  assumes ok: "graphs_ok root graphs" and code: "code = flat_code junk e root ins outs graphs"
    and len: "length code \<le> 2 ^ 31"
    and impl: "list_all2 (implements P) (indexed code) is"
  shows "unfolds (body_of graphs) ops ks \<Longrightarrow> stretch junk code a ops \<Longrightarrow>
    \<exists>acts. list_all2 (act_of P junk) ks acts \<and> runs is a acts (a + length ops)"
proof (induction arbitrary: a rule: unfolds.induct)
  case unfolds_nil
  then show ?case using list_all2_lengthD [OF impl] by (auto simp: stretch_def intro: runs_stop)
next
  case (unfolds_linalg ops ks b i1 o1)
  then obtain acts where IH: "list_all2 (act_of P junk) ks acts" "runs is (Suc a) acts (Suc a + length ops)"
    using unfolds_linalg.IH [of "Suc a"] unfolds_linalg.prems by (auto simp: stretch_Cons)
  have "a < length code" "n_op (code ! a) = lowered_op (Linalg b i1 o1)"
    "n_device (code ! a) = junk (lowered_op (Linalg b i1 o1))"
    using unfolds_linalg.prems by (auto simp: stretch_Cons)
  then obtain p where p: "is ! a = IKernelLaunch p i1 o1 (str2DeviceType (deviceTypes2Str (junk (lowered_op (Linalg b i1 o1)))))"
      "P (optype2Str (aop_type b)) (aop_options b) (if aop_name b \<noteq> [] then Some (aop_name b) else None) p"
    and "a < length is"
    using implements_indexed [OF impl, of a] list_all2_lengthD [OF impl]
    by (auto simp: indexed_op_def node_device_def)
  moreover define k where "k = ALaunch p i1 o1 (str2DeviceType (deviceTypes2Str (junk (lowered_op (Linalg b i1 o1)))))"
  ultimately have "act_of P junk (Linalg b i1 o1) k" "is ! a = act_instr k" "a < length is"
    by simp_all
  then show ?case
    using IH by (intro exI [of _ "k # acts"]) (auto intro!: runs_act simp del: act_of.simps)
next
  case (unfolds_free ops ks u)
  then obtain acts where IH: "list_all2 (act_of P junk) ks acts" "runs is (Suc a) acts (Suc a + length ops)"
    using unfolds_free.IH [of "Suc a"] unfolds_free.prems by (auto simp: stretch_Cons)
  have "a < length code" "n_op (code ! a) = FreeOp u"
    using unfolds_free.prems by (auto simp: stretch_Cons)
  then have "is ! a = act_instr (AFree [u])" "a < length is"
    using implements_indexed [OF impl, of a] list_all2_lengthD [OF impl] by (auto simp: indexed_op_def)
  then show ?case
    using IH by (intro exI [of _ "AFree [u] # acts"]) (auto intro!: runs_act)
next
  case (unfolds_call s body ks1 ops ks2 i1 o1)
  obtain nds where nds: "map_of graphs s = Some nds" "body = map n_op (butlast nds)"
    using unfolds_call.hyps(1) by (auto simp: body_of_def)
  define p where "p = label_pos code (s @ ''.__entry'')"
  note pos = graph_position [OF ok nds(1) code p_def]
  have ln: "length code = length is" using list_all2_lengthD [OF impl] by simp
  obtain acts1 where a1: "list_all2 (act_of P junk) ks1 acts1" "runs is (Suc p) acts1 (Suc p + length body)"
    using unfolds_call.IH(1) [of "Suc p"] pos(2) nds(2) by blast
  obtain acts2 where a2: "list_all2 (act_of P junk) ks2 acts2" "runs is (Suc a) acts2 (Suc a + length ops)"
    using unfolds_call.IH(2) [of "Suc a"] unfolds_call.prems by (auto simp: stretch_Cons)
  have r: "Suc p + length body < length code" using pos(2) by (simp add: stretch_def nds(2))
  have a: "a < length code" "n_op (code ! a) = JumpOp (s @ ''.__entry'') None"
    using unfolds_call.prems by (auto simp: stretch_Cons)
  have jump: "is ! a = IJump (int p - int a)"
    using implements_indexed [OF impl a(1)] a(2) by (simp add: indexed_op_def p_def)
  have label: "is ! p = ILabel []"
    using implements_indexed [OF impl, of p] pos(1) r by (simp add: indexed_op_def)
  have ret: "is ! (Suc p + length body) = IRet"
    using implements_indexed [OF impl r] pos(3) by (simp add: indexed_op_def nds(2))
  have "runs is p acts1 (Suc p + length body)"
    using label a1(2) r ln by - (rule runs_label, simp_all)
  then have "runs is a (acts1 @ acts2) (Suc a + length ops)"
    using jump ret a2(2) a(1) ln by - (rule runs_call [where e = p and off = "int p - int a"], simp_all)
  moreover have "list_all2 (act_of P junk) (ks1 @ ks2) (acts1 @ acts2)"
    using a1(1) a2(1) by (rule list_all2_appendI)
  ultimately show ?case by (intro exI [of _ "acts1 @ acts2"]) simp
qed

subsection \<open>Jumps\<close>

lemma flat_code_jump_open:
  assumes "graphs_ok root graphs" "nd \<in> set (flat_code junk e root ins outs graphs)" "n_op nd = JumpOp l off"
  shows "off = None"
proof -
  have "off = None" if g: "g \<in> set graphs" "nd \<in> lower_node junk ` set (snd g)" for g
  proof -
    obtain nd1 where nd1: "nd1 \<in> set (snd g)" "nd = lower_node junk nd1" using g(2) by blast
    have "graph_ok (map fst graphs) (snd g)" using assms(1) g(1) by (simp add: graphs_ok_def list_all_iff)
    from graph_ok_ops [OF this nd1(1)] show ?thesis
      using assms(3) nd1(2) by (cases "n_op nd1") (auto simp: n_op_lower_node)
  qed
  then show ?thesis
    using assms(2,3)
    by (auto simp: flat_code_def main_code_def graph_code_def entry_node_def mk_def dest!: set_bind_ops
        split: if_splits)
qed

text \<open>
  C9: the code that the lowering makes of a module with distinct graphs is numbered by position, and the
  offset of every jump leads from it to the one label it names, with no wrap-around as long as the code
  has at most 2^31 operations.
\<close>

theorem jumps_reach_entries:
  assumes ok: "graphs_ok root graphs" and call: "n_op call = CallGraph root ins outs"
    and regs: "list_all is_register regs" "list_all is_register tab"
    and len: "length (flat_code junk e root ins outs graphs) \<le> 2 ^ 31"
  shows "\<exists>code syms. lower_program True junk e (module_of regs call graphs tab) = Inr (lowered_items junk code syms) \<and>
    (\<forall>i < length code. n_id (code ! i) = of_nat i \<and>
      (\<forall>l off. n_op (code ! i) = JumpOp l off \<longrightarrow>
        (\<exists>!j. j < length code \<and> n_op (code ! j) = LabelOp l) \<and>
        (\<exists>j < length code. n_op (code ! j) = LabelOp l \<and> off = Some (int j - int i))))"
proof -
  let ?code = "flat_code junk e root ins outs graphs"
  have names: "plain_names graphs" using ok by (simp add: graphs_ok_def)
  have "lower_program True junk e (module_of regs call graphs tab) =
      Inr (lowered_items junk (indexed ?code) (number_ops 0 (symbol_code junk ?code regs tab)))"
    by (simp add: lower_program_module [OF call names regs] Let_def
        index_ids_lowered [OF flat_code_program [OF ok] flat_code_distinct [OF ok] flat_code_jumps [OF ok] len])
  moreover have "(\<exists>!j. j < length ?code \<and> n_op (indexed ?code ! j) = LabelOp l) \<and>
      (\<exists>j < length ?code. n_op (indexed ?code ! j) = LabelOp l \<and> off = Some (int j - int i))"
    if i: "i < length ?code" "n_op (indexed ?code ! i) = JumpOp l off" for i l off
  proof -
    have open_jump: "n_op (?code ! i) = JumpOp l None \<and> off = Some (int (label_pos ?code l) - int i)"
      using i flat_code_jump_open [OF ok, of "?code ! i" junk e ins outs]
      by (auto simp: indexed_nth indexed_op_def split: ir_op.splits option.splits)
    then have "l \<in> set (node_labels ?code)"
      using flat_code_jumps [OF ok, of junk e ins outs] i(1) nth_mem [OF i(1)] by (fastforce simp: jump_labels_def)
    note found = label_pos_found [OF this]
    have labels: "n_op (indexed ?code ! j) = LabelOp l \<longleftrightarrow> n_op (?code ! j) = LabelOp l" if "j < length ?code" for j
      using that by (simp add: indexed_nth indexed_op_def split: ir_op.split option.split)
    have "\<exists>!j. j < length ?code \<and> n_op (indexed ?code ! j) = LabelOp l"
      using found labels labels_unique [OF flat_code_distinct [OF ok, of junk e ins outs]] by blast
    then show ?thesis using found labels open_jump by blast
  qed
  ultimately show ?thesis
    by (rule_tac exI [of _ "indexed ?code"], rule_tac exI [of _ "number_ops 0 (symbol_code junk ?code regs tab)"])
      (simp add: indexed_nth)
qed

definition two_graphs :: "(string \<times> node list) list" where
  "two_graphs = map (\<lambda>(s, ops). (s, map (mk (\<lambda>_. kCPU)) ops))
     [(''m'', [CallGraph ''m.l'' [1] [2], ReturnOp [2]]), (''m.l'', [TensorFree 1, ReturnOp [2]])]"

theorem jumps_reach_entries_witness:
  "\<exists>code syms. lower_program True (\<lambda>_. kCPU) False
      (module_of [] (mk (\<lambda>_. kCPU) (CallGraph ''m'' [1] [2])) two_graphs []) = Inr (lowered_items (\<lambda>_. kCPU) code syms) \<and>
    (\<forall>i < length code. n_id (code ! i) = of_nat i \<and>
      (\<forall>l off. n_op (code ! i) = JumpOp l off \<longrightarrow>
        (\<exists>!j. j < length code \<and> n_op (code ! j) = LabelOp l) \<and>
        (\<exists>j < length code. n_op (code ! j) = LabelOp l \<and> off = Some (int j - int i))))"
  by (rule jumps_reach_entries [where root = "''m''" and ins = "[1]" and outs = "[2]"])
    (simp_all add: two_graphs_def graphs_ok_def plain_names_def graph_ok_def is_return_def mk_def
      code_segment_def special_graphs_def flat_code_def main_code_def graph_code_def)

end
