(* ===== verification/Ir_Serialization.thy ===== *)
theory Ir_Serialization
  imports Program_Layout
begin

text \<open>
  A lowered module as a JSON document (\<^verbatim>\<open>mllm/compile/jit/binary/IRSerialization.cpp\<close>) and how the
  interpreter reads it, links launches to the symbol table and loads parameters
  (\<^verbatim>\<open>IRInterpreter.cpp\<close>). The head of the document (time, platform, compiler) is only printed and is
  left out. Parameters: \<open>create\<close> stands for reading the options of one operation type and creating
  the object in a backend (the functions called by \<^verbatim>\<open>aopsFromJson\<close>), \<open>from_vector\<close> for \<^verbatim>\<open>Tensor::fromVector\<close>
  and \<open>load_op\<close> for \<^verbatim>\<open>setName\<close> and \<^verbatim>\<open>load\<close> of an operation object.
\<close>

subsection \<open>Writing\<close>

definition json_program_id :: "node \<Rightarrow> string \<times> json" where
  "json_program_id nd = (''program_id'', JInt (uint (n_id nd)))"

definition json_head :: "string \<Rightarrow> node \<Rightarrow> (string \<times> json) list" where
  "json_head op nd =
     [(''dialect'', JStr ''program''), (''op'', JStr op), json_program_id nd]"

definition json_uuids :: "uuid list \<Rightarrow> json" where
  "json_uuids us = JArr (map (\<lambda>u. JInt (uint u)) us)"

fun visit_op :: "node \<Rightarrow> ir_op \<Rightarrow> (string \<times> json) list option outcome" where
  "visit_op nd (FreeOp u) =
     Inr (Some (json_head ''free'' nd @ [(''inputs'', json_uuids [u]), (''outputs'', JArr [])]))"
| "visit_op nd (LabelOp l) = Inr (Some (json_head ''label'' nd @ [(''symbol'', JStr l)]))"
| "visit_op nd (JumpOp l off) =
     (case off of
        None \<Rightarrow> Inl Undefined
      | Some x \<Rightarrow> Inr (Some (json_head ''jump'' nd @ [(''target'', JStr l), (''offset'', JInt x)])))"
| "visit_op nd (KernelLaunch ty opts sn ins outs) =
     Inr (Some (json_head ''kernel_launch'' nd @
       [(''inputs'', json_uuids ins), (''outputs'', json_uuids outs), (''op_type'', JStr ty),
        (''op_options'', opts)] @
       (case sn of None \<Rightarrow> [] | Some s \<Rightarrow> [(''symbol_name'', JStr s)])))"
| "visit_op nd RetOp = Inr (Some (json_head ''ret'' nd))"
| "visit_op nd (KernelSymbol s ty opts) =
     (case opts of
        None \<Rightarrow> Inl (Throw ''parse_error'')
      | Some j \<Rightarrow>
          Inr (Some (json_head ''kernel_symbol'' nd @
            [(''symbol'', JStr s), (''op_type'', JStr ty), (''op_options'', j)])))"
| "visit_op nd (ValueSymbol s u c) =
     Inr (Some (json_head ''value_symbol'' nd @
       [(''symbol'', JStr s), (''outputs'', json_uuids [u])] @
       (case c of None \<Rightarrow> [] | Some (data, shape) \<Rightarrow> [(''constant'', data), (''shape'', shape)])))"
| "visit_op nd (ModeConfigOp flag) = Inr (Some (json_head ''mode_config'' nd @ [(''flag'', JInt flag)]))"
| "visit_op nd ExitOp = Inr (Some (json_head ''exit'' nd))"
| "visit_op nd (BindOp pos u bt) =
     Inr (Some (json_head ''bind'' nd @
       [(''input_pos'', JInt pos), (''program_uuid'', JInt u),
        (''type'', JStr (case bt of kInput \<Rightarrow> ''input'' | kOutput \<Rightarrow> ''output''))]))"
| "visit_op nd _ = Inr None"

text \<open>
  The device is written into the last instruction of the array, whether or not the operation at hand
  was one that is written.
\<close>

definition put_device :: "node \<Rightarrow> (string \<times> json) list \<Rightarrow> (string \<times> json) list" where
  "put_device nd j = AList.update ''device'' (JStr (deviceTypes2Str (n_device nd))) j"

fun visit_ops :: "node list \<Rightarrow> (string \<times> json) list list \<Rightarrow> (string \<times> json) list list outcome" where
  "visit_ops [] acc = Inr acc"
| "visit_ops (nd # nds) acc =
     obind (visit_op nd (n_op nd)) (\<lambda>r.
     let acc1 = (case r of None \<Rightarrow> acc | Some j \<Rightarrow> acc @ [j]) in
     if acc1 = [] then Inl Undefined
     else visit_ops nds (butlast acc1 @ [put_device nd (last acc1)]))"

definition visit_fragment :: "string \<Rightarrow> node list \<Rightarrow> json outcome" where
  "visit_fragment s nds =
     obind (visit_ops nds []) (\<lambda>js.
     Inr (JObj [(''dialect'', JStr ''program''), (''op'', JStr ''fragment''), (''symbol'', JStr s),
                (''instructions'', JArr (map JObj js))]))"

fun visit_item :: "item \<Rightarrow> json list outcome" where
  "visit_item (Fragment t s nds) = obind (visit_fragment s nds) (\<lambda>j. Inr [j])"
| "visit_item (TopOp nd) = Inr (if is_program (n_op nd) then [JNull] else [])"
| "visit_item (SubGraph s nds) = Inr []"

definition visit_module :: "item list \<Rightarrow> json outcome" where
  "visit_module m =
     obind (omap visit_item m) (\<lambda>js.
     Inr (JObj [(''code'', JObj [(''module'', JArr (concat js))])]))"

subsection \<open>Reading a JSON value\<close>

fun jmember :: "json \<Rightarrow> string \<Rightarrow> json outcome" where
  "jmember (JObj kvs) k = (case map_of kvs k of Some v \<Rightarrow> Inr v | None \<Rightarrow> Inr JNull)"
| "jmember JNull k = Inr JNull"
| "jmember _ k = Inl (Throw ''type_error'')"

fun jmember_const :: "json \<Rightarrow> string \<Rightarrow> json outcome" where
  "jmember_const (JObj kvs) k = (case map_of kvs k of Some v \<Rightarrow> Inr v | None \<Rightarrow> Inl Undefined)"
| "jmember_const _ k = Inl (Throw ''type_error'')"

fun jcontains :: "json \<Rightarrow> string \<Rightarrow> bool" where
  "jcontains (JObj kvs) k \<longleftrightarrow> map_of kvs k \<noteq> None"
| "jcontains _ k \<longleftrightarrow> False"

fun jint :: "json \<Rightarrow> int outcome" where
  "jint (JInt i) = Inr i"
| "jint _ = Inl (Throw ''type_error'')"

fun jstr :: "json \<Rightarrow> string outcome" where
  "jstr (JStr s) = Inr s"
| "jstr _ = Inl (Throw ''type_error'')"

fun jiter :: "json \<Rightarrow> json list" where
  "jiter JNull = []"
| "jiter (JArr js) = js"
| "jiter (JObj kvs) = map snd kvs"
| "jiter j = [j]"

definition jfield_int :: "json \<Rightarrow> string \<Rightarrow> int outcome" where
  "jfield_int j k = obind (jmember j k) jint"

definition jfield_str :: "json \<Rightarrow> string \<Rightarrow> string outcome" where
  "jfield_str j k = obind (jmember j k) jstr"

definition jfield_uuids :: "json \<Rightarrow> string \<Rightarrow> uuid list outcome" where
  "jfield_uuids j k =
     obind (jmember j k) (\<lambda>v. omap (\<lambda>x. obind (jint x) (\<lambda>i. Inr (word_of_int i))) (jiter v))"

definition is_op :: "json \<Rightarrow> string \<Rightarrow> bool" where
  "is_op j name \<longleftrightarrow>
     jcontains j ''dialect'' \<and> jmember j ''dialect'' = Inr (JStr ''program'') \<and>
     jmember j ''op'' = Inr (JStr name)"

subsection \<open>Loading and linking\<close>

fun find_segment :: "string \<Rightarrow> json list \<Rightarrow> json outcome" where
  "find_segment name [] = Inr JNull"
| "find_segment name (op # ops) =
     obind (jmember_const op ''op'') (\<lambda>k.
     if k = JStr ''fragment''
     then obind (jmember_const op ''symbol'') (\<lambda>s.
            if s = JStr name then Inr op else find_segment name ops)
     else find_segment name ops)"

definition program_id :: "json \<Rightarrow> 64 word outcome" where
  "program_id j = obind (jfield_int j ''program_id'') (\<lambda>i. Inr (word_of_int i))"

text \<open>
  The types \<^verbatim>\<open>aopsFromJson\<close> knows; for any other it returns the null pointer. The serializer writes no
  \<^verbatim>\<open>backend\<close>, so the object is always created for the CPU.
\<close>

definition known_ops :: "string list" where
  "known_ops =
    [''Conv1D'', ''Conv3D'', ''Linear'', ''MatMul'', ''Fill'', ''Add'', ''Sub'', ''Mul'', ''Div'',
     ''Abs'', ''Log'', ''Embedding'', ''MultimodalRoPE'', ''KVCache'', ''CausalMask'', ''Softmax'',
     ''Transpose'', ''RMSNorm'', ''SiLU'', ''CastType'', ''X2X'', ''View'', ''Split'', ''STFT'',
     ''FlashAttention2'', ''Repeat'', ''Permute'', ''GELU'', ''LayerNorm'', ''VisionRoPE'',
     ''QuickGELU'', ''Copy'', ''Clone'', ''Neg'', ''Concat'', ''ReduceMax'', ''ReduceMin'',
     ''ReduceSum'', ''ReLU'', ''Contiguous'', ''Reshape'', ''Slice'', ''Param'', ''Index'', ''TopK'',
     ''Mean'', ''Clip'', ''Exp'', ''Sin'', ''Cos'']"

type_synonym 'op creation = "string \<Rightarrow> device \<Rightarrow> json option \<Rightarrow> 'op outcome"

definition aopsFromJson ::
  "'op creation \<Rightarrow> json \<Rightarrow> ('op, 'd) interp \<Rightarrow> (nat option \<times> ('op, 'd) interp) outcome" where
  "aopsFromJson create j s =
     (if jcontains j ''op_type''
      then obind (jfield_str j ''op_type'') (\<lambda>ty.
        if ty \<in> set known_ops
        then obind (if jcontains j ''backend''
                    then obind (jfield_str j ''backend'') (\<lambda>b. Inr (str2DeviceType b))
                    else Inr kCPU) (\<lambda>dev.
             obind (if jcontains j ''op_options''
                    then obind (jmember j ''op_options'') (\<lambda>o1. Inr (Some o1)) else Inr None) (\<lambda>opts.
             obind (create ty dev opts) (\<lambda>op.
             Inr (Some (length (op_objects (tensors s))),
                  s\<lparr>tensors := (tensors s)\<lparr>op_objects := op_objects (tensors s) @ [op]\<rparr>\<rparr>))))
        else Inr (None, s))
      else Inr (None, s))"

definition put_symbol :: "64 word \<Rightarrow> instr \<Rightarrow> ('op, 'd) interp \<Rightarrow> ('op, 'd) interp" where
  "put_symbol i ins s =
     s\<lparr>program_id_2_op_table := AList.update i ins (program_id_2_op_table s)\<rparr>"

definition put_instr :: "64 word \<Rightarrow> instr \<Rightarrow> ('op, 'd) interp \<Rightarrow> ('op, 'd) interp" where
  "put_instr i ins s = s\<lparr>program := AList.update i ins (program s)\<rparr>"

definition load_constant ::
  "(json \<Rightarrow> json \<Rightarrow> 'd rt_tensor outcome) \<Rightarrow> json \<Rightarrow> ('op, 'd) interp \<Rightarrow> ('op, 'd) interp outcome" where
  "load_constant from_vector j s =
     (if jcontains j ''constant''
      then obind (jfield_uuids j ''outputs'') (\<lambda>us.
           obind (vec_at us 0) (\<lambda>u.
           obind (jmember j ''constant'') (\<lambda>data.
           obind (jmember j ''shape'') (\<lambda>shape.
           obind (from_vector data shape) (\<lambda>t.
           Inr (s\<lparr>tensors := (tensors s)\<lparr>uuid_2_tensor := (uuid_2_tensor (tensors s))(u \<mapsto> t)\<rparr>\<rparr>))))))
      else Inr s)"

definition load_symbol ::
  "'op creation \<Rightarrow> (json \<Rightarrow> json \<Rightarrow> 'd rt_tensor outcome) \<Rightarrow> json \<Rightarrow>
     ('op, 'd) interp \<Rightarrow> ('op, 'd) interp outcome" where
  "load_symbol create from_vector j s =
     (if is_op j ''kernel_symbol''
      then obind (aopsFromJson create j s) (\<lambda>(a, s1).
           obind (jfield_str j ''symbol'') (\<lambda>name.
           obind (program_id j) (\<lambda>i.
           Inr ((put_symbol i (IKernelSymbol a name) s1)
                 \<lparr>symbol_name_2_program_id_table := (symbol_name_2_program_id_table s)(name \<mapsto> i)\<rparr>))))
      else if is_op j ''value_symbol''
      then obind (program_id j) (\<lambda>i. load_constant from_vector j (put_symbol i IValueSymbol s))
      else Inr s)"

text \<open>A name or identifier that is missing from a table is put into it: identifier 0, an exit.\<close>

definition link_symbol :: "string \<Rightarrow> ('op, 'd) interp \<Rightarrow> (nat option \<times> ('op, 'd) interp) outcome" where
  "link_symbol name s =
     (let tab = symbol_name_2_program_id_table s;
          i = (case tab name of Some i \<Rightarrow> i | None \<Rightarrow> 0);
          s1 = s\<lparr>symbol_name_2_program_id_table := tab(name \<mapsto> i)\<rparr> in
      case map_of (program_id_2_op_table s1) i of
        Some (IKernelSymbol a n) \<Rightarrow> Inr (a, s1)
      | _ \<Rightarrow> Inl (Throw ''bad_variant_access''))"

definition load_launch ::
  "'op creation \<Rightarrow> json \<Rightarrow> ('op, 'd) interp \<Rightarrow> ('op, 'd) interp outcome" where
  "load_launch create j s =
     obind (if jcontains j ''symbol_name''
            then obind (jfield_str j ''symbol_name'') (\<lambda>name. link_symbol name s)
            else aopsFromJson create j s) (\<lambda>(a, s1).
     obind (program_id j) (\<lambda>i.
     obind (jfield_uuids j ''inputs'') (\<lambda>ins.
     obind (jfield_uuids j ''outputs'') (\<lambda>outs.
     obind (jfield_str j ''device'') (\<lambda>dev.
     Inr (put_instr i (IKernelLaunch a ins outs (str2DeviceType dev)) s1))))))"

definition load_free :: "json \<Rightarrow> instr outcome" where
  "load_free j =
     (if jcontains j ''inputs'' then obind (jfield_uuids j ''inputs'') (\<lambda>us. Inr (IFree us))
      else Inr (IFree []))"

definition load_jump :: "json \<Rightarrow> instr outcome" where
  "load_jump j =
     (if jcontains j ''offset'' then obind (jfield_int j ''offset'') (\<lambda>x. Inr (IJump (to_i32 x)))
      else Inl Undefined)"

definition load_label :: "json \<Rightarrow> instr outcome" where
  "load_label j =
     (if jcontains j ''label'' then obind (jfield_str j ''label'') (\<lambda>l. Inr (ILabel l))
      else Inr (ILabel []))"

definition load_bind :: "json \<Rightarrow> instr outcome" where
  "load_bind j =
     (if jcontains j ''input_pos'' \<and> jcontains j ''program_uuid'' \<and> jcontains j ''type''
      then obind (jfield_int j ''input_pos'') (\<lambda>pos.
           obind (jfield_int j ''program_uuid'') (\<lambda>u.
           obind (jfield_str j ''type'') (\<lambda>t.
           Inr (IBind (to_i32 pos) (to_i32 u) (if t = ''input'' then kInput else kOutput)))))
      else Inl Undefined)"

definition load_mode :: "json \<Rightarrow> instr outcome" where
  "load_mode j = obind (jfield_int j ''flag'') (\<lambda>x. Inr (IModeConfig (x mod 2 ^ 32)))"

definition load_plain :: "json \<Rightarrow> instr outcome \<Rightarrow> ('op, 'd) interp \<Rightarrow> ('op, 'd) interp outcome" where
  "load_plain j r s = obind r (\<lambda>ins. obind (program_id j) (\<lambda>i. Inr (put_instr i ins s)))"

definition load_instr ::
  "'op creation \<Rightarrow> json \<Rightarrow> ('op, 'd) interp \<Rightarrow> ('op, 'd) interp outcome" where
  "load_instr create j s =
     (if is_op j ''mode_config'' then load_plain j (load_mode j) s
      else if is_op j ''ret'' then load_plain j (Inr IRet) s
      else if is_op j ''kernel_launch'' then load_launch create j s
      else if is_op j ''free'' then load_plain j (load_free j) s
      else if is_op j ''jump'' then load_plain j (load_jump j) s
      else if is_op j ''exit'' then load_plain j (Inr IExit) s
      else if is_op j ''label'' then load_plain j (load_label j) s
      else if is_op j ''bind'' then load_plain j (load_bind j) s
      else Inr s)"

definition loadAndLinkPrograms ::
  "'op creation \<Rightarrow> (json \<Rightarrow> json \<Rightarrow> 'd rt_tensor outcome) \<Rightarrow> json \<Rightarrow>
     ('op, 'd) interp \<Rightarrow> ('op, 'd) interp outcome" where
  "loadAndLinkPrograms create from_vector doc s =
     obind (jmember_const doc ''code'') (\<lambda>code.
     obind (jmember_const code ''module'') (\<lambda>ops.
     obind (find_segment symbol_segment (jiter ops)) (\<lambda>syms.
     obind (jmember syms ''instructions'') (\<lambda>symbols.
     obind (ofold (load_symbol create from_vector) (jiter symbols) s) (\<lambda>s1.
     obind (find_segment code_segment (jiter ops)) (\<lambda>seg.
     obind (jmember seg ''instructions'') (\<lambda>instrs.
     ofold (load_instr create) (jiter instrs) s1)))))))"

subsection \<open>Loading parameters\<close>

definition symbol_at :: "('op, 'd) interp \<Rightarrow> instr \<times> ('op, 'd) interp" where
  "symbol_at s = (case map_of (program_id_2_op_table s) (program_counter s) of
      Some i \<Rightarrow> (i, s)
    | None \<Rightarrow> (IExit, put_symbol (program_counter s) IExit s))"

definition load_param_step ::
  "(string \<Rightarrow> 'op \<Rightarrow> 'op outcome) \<Rightarrow> ('op, 'd) interp \<Rightarrow> ('op, 'd) interp outcome" where
  "load_param_step load_op s0 = (let (i, s) = symbol_at s0 in
     case i of
       IKernelSymbol a name \<Rightarrow>
         obind (object_at a (tensors s)) (\<lambda>op.
         obind (load_op name op) (\<lambda>op1.
         Inr (next_pc (s\<lparr>tensors := set_object a op1 (tensors s)\<rparr>))))
     | _ \<Rightarrow> Inr (next_pc s))"

partial_function (option) load_param_loop ::
  "(string \<Rightarrow> 'op \<Rightarrow> 'op outcome) \<Rightarrow> ('op, 'd) interp \<Rightarrow> ('op, 'd) interp outcome option" where
  "load_param_loop load_op s =
     (case load_param_step load_op s of
        Inl f \<Rightarrow> Some (Inl f)
      | Inr s1 \<Rightarrow>
          if unat (program_counter s1) < length (program_id_2_op_table s1) then load_param_loop load_op s1
          else Some (Inr s1))"

definition loadParam ::
  "(string \<Rightarrow> 'op \<Rightarrow> 'op outcome) \<Rightarrow> ('op, 'd) interp \<Rightarrow> ('op, 'd) interp outcome option" where
  "loadParam load_op s = load_param_loop load_op (s\<lparr>program_counter := 0\<rparr>)"

end
