(* ===== verification/Ir_Program.thy ===== *)
theory Ir_Program
  imports Ir_Serialization
begin

text \<open>
  From the trace to the run: writing a lowered module and loading it gives back its instructions, and
  running them does the operations of the trace in order.
\<close>

subsection \<open>The document of a lowered module\<close>

definition json_fields :: "node \<Rightarrow> (string \<times> json) list" where
  "json_fields nd = (case visit_op nd (n_op nd) of Inr (Some f) \<Rightarrow> f | _ \<Rightarrow> [])"

definition writable :: "node \<Rightarrow> bool" where
  "writable nd \<longleftrightarrow> visit_op nd (n_op nd) = Inr (Some (json_fields nd))"

definition instr_json :: "node \<Rightarrow> json" where
  "instr_json nd = JObj (put_device nd (json_fields nd))"

lemma writable_iff:
  "writable nd \<longleftrightarrow> (case n_op nd of
      FreeOp u \<Rightarrow> True | LabelOp l \<Rightarrow> True | JumpOp l off \<Rightarrow> off \<noteq> None | KernelLaunch ty opts sn ins outs \<Rightarrow> True
    | RetOp \<Rightarrow> True | KernelSymbol s ty opts \<Rightarrow> opts \<noteq> None | ValueSymbol s u c \<Rightarrow> True
    | ModeConfigOp f \<Rightarrow> True | ExitOp \<Rightarrow> True | BindOp pos u bt \<Rightarrow> True | _ \<Rightarrow> False)"
  by (cases "n_op nd") (auto simp: writable_def json_fields_def split: option.split)

lemma visit_ops_writable:
  "list_all writable nds \<Longrightarrow> visit_ops nds acc = Inr (acc @ map (\<lambda>nd. put_device nd (json_fields nd)) nds)"
proof (induction nds arbitrary: acc)
  case (Cons nd nds)
  then have "visit_op nd (n_op nd) = Inr (Some (json_fields nd))" by (simp add: writable_def)
  then show ?case using Cons by (simp add: Let_def)
qed simp

definition fragment_json :: "string \<Rightarrow> node list \<Rightarrow> json" where
  "fragment_json s nds =
     JObj [(''dialect'', JStr ''program''), (''op'', JStr ''fragment''), (''symbol'', JStr s),
           (''instructions'', JArr (map instr_json nds))]"

lemma visit_fragment_writable: "list_all writable nds \<Longrightarrow> visit_fragment s nds = Inr (fragment_json s nds)"
  by (simp add: visit_fragment_def visit_ops_writable fragment_json_def instr_json_def comp_def)

definition document :: "junk_device \<Rightarrow> node list \<Rightarrow> node list \<Rightarrow> json" where
  "document junk code syms =
     JObj [(''code'', JObj [(''module'', JArr
       [fragment_json ''deinit'' [entry_node junk ''deinit''],
        fragment_json code_segment code, fragment_json symbol_segment syms])])]"

lemma visit_module_lowered:
  assumes "list_all writable code" "list_all writable syms"
  shows "visit_module (lowered_items junk code syms) = Inr (document junk code syms)"
proof -
  have "list_all writable [entry_node junk ''deinit'']" by (simp add: writable_iff)
  then show ?thesis
    using assms by (simp add: visit_module_def lowered_items_def visit_fragment_writable document_def)
qed

lemma find_segment_document:
  "find_segment symbol_segment
     [fragment_json ''deinit'' ds, fragment_json code_segment code, fragment_json symbol_segment syms] =
     Inr (fragment_json symbol_segment syms)"
  "find_segment code_segment
     [fragment_json ''deinit'' ds, fragment_json code_segment code, fragment_json symbol_segment syms] =
     Inr (fragment_json code_segment code)"
  by (simp_all add: fragment_json_def)

lemma load_document:
  "loadAndLinkPrograms create from_vector (document junk code syms) s =
     obind (ofold (load_symbol create from_vector) (map instr_json syms) s)
       (ofold (load_instr create) (map instr_json code))"
  by (simp add: loadAndLinkPrograms_def document_def find_segment_document del: find_segment.simps)
    (simp add: fragment_json_def)

subsection \<open>Loading one instruction\<close>

lemma jmember_instr:
  "jmember (instr_json nd) k = (if k = ''device'' then Inr (JStr (deviceTypes2Str (n_device nd)))
     else case map_of (json_fields nd) k of Some v \<Rightarrow> Inr v | None \<Rightarrow> Inr JNull)"
  by (simp add: instr_json_def put_device_def update_conv)

lemma jcontains_instr:
  "jcontains (instr_json nd) k \<longleftrightarrow> k = ''device'' \<or> map_of (json_fields nd) k \<noteq> None"
  by (simp add: instr_json_def put_device_def update_conv)

lemma omap_uuids: "omap (\<lambda>x. obind (jint x) (\<lambda>i. Inr (word_of_int i :: uuid))) (map (\<lambda>u. JInt (uint u)) us) = Inr us"
  by (induction us) simp_all

lemma jiter_uuids [simp]: "jiter (json_uuids us) = map (\<lambda>u. JInt (uint u)) us"
  by (simp add: json_uuids_def)

lemmas instr_simps =
  jmember_instr jcontains_instr is_op_def json_head_def json_program_id_def program_id_def
  jfield_int_def jfield_str_def jfield_uuids_def omap_uuids

lemma json_fields_simps:
  "n_op nd = FreeOp u \<Longrightarrow>
     json_fields nd = json_head ''free'' nd @ [(''inputs'', json_uuids [u]), (''outputs'', JArr [])]"
  "n_op nd = LabelOp l \<Longrightarrow> json_fields nd = json_head ''label'' nd @ [(''symbol'', JStr l)]"
  "n_op nd = JumpOp l (Some x) \<Longrightarrow>
     json_fields nd = json_head ''jump'' nd @ [(''target'', JStr l), (''offset'', JInt x)]"
  "n_op nd = KernelLaunch ty opts sn ins outs \<Longrightarrow>
     json_fields nd = json_head ''kernel_launch'' nd @
       [(''inputs'', json_uuids ins), (''outputs'', json_uuids outs), (''op_type'', JStr ty),
        (''op_options'', opts)] @ (case sn of None \<Rightarrow> [] | Some s \<Rightarrow> [(''symbol_name'', JStr s)])"
  "n_op nd = RetOp \<Longrightarrow> json_fields nd = json_head ''ret'' nd"
  "n_op nd = KernelSymbol s ty (Some j) \<Longrightarrow>
     json_fields nd = json_head ''kernel_symbol'' nd @
       [(''symbol'', JStr s), (''op_type'', JStr ty), (''op_options'', j)]"
  "n_op nd = ValueSymbol s v None \<Longrightarrow>
     json_fields nd = json_head ''value_symbol'' nd @ [(''symbol'', JStr s), (''outputs'', json_uuids [v])]"
  "n_op nd = ModeConfigOp flag \<Longrightarrow> json_fields nd = json_head ''mode_config'' nd @ [(''flag'', JInt flag)]"
  "n_op nd = ExitOp \<Longrightarrow> json_fields nd = json_head ''exit'' nd"
  "n_op nd = BindOp pos pu bt \<Longrightarrow>
     json_fields nd = json_head ''bind'' nd @
       [(''input_pos'', JInt pos), (''program_uuid'', JInt pu),
        (''type'', JStr (case bt of kInput \<Rightarrow> ''input'' | kOutput \<Rightarrow> ''output''))]"
  by (simp_all add: json_fields_def)

text \<open>The instruction of every operation but a launch.\<close>

fun plain_instr :: "ir_op \<Rightarrow> instr option" where
  "plain_instr (FreeOp u) = Some (IFree [u])"
| "plain_instr (LabelOp l) = Some (ILabel [])"
| "plain_instr (JumpOp l (Some x)) = (if - (2 ^ 31) \<le> x \<and> x < 2 ^ 31 then Some (IJump x) else None)"
| "plain_instr RetOp = Some IRet"
| "plain_instr ExitOp = Some IExit"
| "plain_instr (ModeConfigOp flag) = (if 0 \<le> flag \<and> flag < 2 ^ 32 then Some (IModeConfig flag) else None)"
| "plain_instr (BindOp pos u bt) =
     (if - (2 ^ 31) \<le> pos \<and> pos < 2 ^ 31 \<and> - (2 ^ 31) \<le> u \<and> u < 2 ^ 31 then Some (IBind pos u bt) else None)"
| "plain_instr _ = None"

lemma load_plain_instr:
  assumes "plain_instr (n_op nd) = Some i"
  shows "load_instr create (instr_json nd) s = Inr (put_instr (n_id nd) i s)"
  using assms
  by (cases "n_op nd" rule: plain_instr.cases)
    (auto simp: load_instr_def instr_simps json_fields_simps load_plain_def load_free_def load_label_def
      load_jump_def load_mode_def load_bind_def to_i32_id split: if_splits bind_type.split)

subsection \<open>Creating and linking objects\<close>

text \<open>
  \<open>built\<close>: the pointer leads to an object created from this type and these options, or is null for a type
  that is not known. \<open>linked\<close>: the symbol table has this pointer under the name.
\<close>

definition built :: "'op creation \<Rightarrow> 'op list \<Rightarrow> string \<Rightarrow> json \<Rightarrow> nat option \<Rightarrow> bool" where
  "built create objs ty opts p \<longleftrightarrow> (case p of
      None \<Rightarrow> ty \<notin> set known_ops
    | Some a \<Rightarrow> ty \<in> set known_ops \<and> a < length objs \<and> create ty kCPU (Some opts) = Inr (objs ! a))"

definition creatable :: "'op creation \<Rightarrow> string \<Rightarrow> json \<Rightarrow> bool" where
  "creatable create ty opts \<longleftrightarrow>
     ty \<notin> set known_ops \<or> (case create ty kCPU (Some opts) of Inl f \<Rightarrow> False | Inr op \<Rightarrow> True)"

definition linked :: "('op, 'd) interp \<Rightarrow> string \<Rightarrow> nat option \<Rightarrow> bool" where
  "linked s name p \<longleftrightarrow> (\<exists>i n. symbol_name_2_program_id_table s name = Some i \<and>
     map_of (program_id_2_op_table s) i = Some (IKernelSymbol p n))"

definition add_objects :: "'op list \<Rightarrow> ('op, 'd) interp \<Rightarrow> ('op, 'd) interp" where
  "add_objects extra s = s\<lparr>tensors := (tensors s)\<lparr>op_objects := op_objects (tensors s) @ extra\<rparr>\<rparr>"

lemma add_objects_simps [simp]:
  "add_objects [] s = s"
  "add_objects extra2 (add_objects extra1 s) = add_objects (extra1 @ extra2) s"
  "program (add_objects extra s) = program s"
  "program_id_2_op_table (add_objects extra s) = program_id_2_op_table s"
  "symbol_name_2_program_id_table (add_objects extra s) = symbol_name_2_program_id_table s"
  "program_stack (add_objects extra s) = program_stack s"
  "op_objects (tensors (add_objects extra s)) = op_objects (tensors s) @ extra"
  "linked (add_objects extra s) = linked s"
  by (simp_all add: add_objects_def linked_def fun_eq_iff)

lemma built_more: "built create objs ty opts p \<Longrightarrow> built create (objs @ extra) ty opts p"
  by (auto simp: built_def nth_append split: option.splits)

lemma aopsFromJson_instr:
  assumes "map_of (json_fields nd) ''op_type'' = Some (JStr ty)"
    "map_of (json_fields nd) ''op_options'' = Some opts" "map_of (json_fields nd) ''backend'' = None"
    and "creatable create ty opts"
  shows "\<exists>p extra. aopsFromJson create (instr_json nd) s = Inr (p, add_objects extra s) \<and>
    built create (op_objects (tensors s) @ extra) ty opts p"
proof (cases "ty \<in> set known_ops")
  case False
  then have "aopsFromJson create (instr_json nd) s = Inr (None, s)"
    using assms by (simp add: aopsFromJson_def instr_simps)
  then show ?thesis
    using False by (intro exI [of _ None] exI [of _ "[]"]) (simp add: built_def)
next
  case True
  then obtain op where op: "create ty kCPU (Some opts) = Inr op"
    using assms(4) by (auto simp: creatable_def split: sum.splits)
  have "aopsFromJson create (instr_json nd) s =
      Inr (Some (length (op_objects (tensors s))), add_objects [op] s)"
    using True assms op by (simp add: aopsFromJson_def instr_simps add_objects_def)
  then show ?thesis
    using True op by (intro exI [of _ "Some (length (op_objects (tensors s)))"] exI [of _ "[op]"])
      (simp add: built_def)
qed

definition launch_spec :: "'op creation \<Rightarrow> ('op, 'd) interp \<Rightarrow> object_spec" where
  "launch_spec create s ty opts sn p \<longleftrightarrow> (case sn of
      None \<Rightarrow> built create (op_objects (tensors s)) ty opts p | Some name \<Rightarrow> linked s name p)"

lemma link_symbol_linked:
  assumes "linked s name p"
  shows "link_symbol name s = Inr (p, s)"
  using assms by (auto simp: link_symbol_def linked_def fun_upd_idem split: option.split)

lemma load_launch_instr:
  assumes k: "n_op nd = KernelLaunch ty opts sn ins outs"
    and c: "sn = None \<Longrightarrow> creatable create ty opts"
    and l: "\<And>name. sn = Some name \<Longrightarrow> \<exists>p. linked s name p"
  shows "\<exists>p extra. load_instr create (instr_json nd) s =
      Inr (put_instr (n_id nd) (IKernelLaunch p ins outs (node_device nd)) (add_objects extra s)) \<and>
    launch_spec create (add_objects extra s) ty opts sn p"
proof -
  have i: "load_instr create (instr_json nd) s = load_launch create (instr_json nd) s"
    using k by (simp add: load_instr_def instr_simps json_fields_simps)
  have r: "load_launch create (instr_json nd) s =
      Inr (put_instr (n_id nd) (IKernelLaunch p ins outs (node_device nd)) s1)"
    if "(if sn = None then aopsFromJson create (instr_json nd) s else link_symbol (the sn) s) = Inr (p, s1)"
    for p s1
    using that k by (cases sn) (simp_all add: load_launch_def instr_simps json_fields_simps node_device_def)
  show ?thesis
  proof (cases sn)
    case None
    obtain p extra where "aopsFromJson create (instr_json nd) s = Inr (p, add_objects extra s)"
      "built create (op_objects (tensors s) @ extra) ty opts p"
      using aopsFromJson_instr [of nd ty opts create s] k c None
      by (auto simp: json_fields_simps json_head_def json_program_id_def)
    then show ?thesis using i r [of p "add_objects extra s"] None
      by (intro exI [of _ p] exI [of _ extra]) (simp add: launch_spec_def)
  next
    case (Some name)
    obtain p where "linked s name p" using l Some by blast
    then show ?thesis using i r [of p s] Some
      by (intro exI [of _ p] exI [of _ "[]"]) (simp add: launch_spec_def link_symbol_linked)
  qed
qed

subsection \<open>Loading a segment\<close>

lemma update_fresh: "k \<notin> fst ` set al \<Longrightarrow> AList.update k v al = al @ [(k, v)]"
  by (induction al) auto

lemma position_fresh:
  assumes "c < 2 ^ 64"
  shows "(of_nat c :: 64 word) \<notin> of_nat ` {..<c}"
proof
  assume "(of_nat c :: 64 word) \<in> of_nat ` {..<c}"
  then obtain i where "i < c" "(of_nat c :: 64 word) = of_nat i" by blast
  then have "unat (of_nat c :: 64 word) = unat (of_nat i :: 64 word)" "i < 2 ^ 64" using assms by simp_all
  then have "c = i" using assms by (simp only: unat_pc)
  then show False using \<open>i < c\<close> by simp
qed

definition loadable :: "'op creation \<Rightarrow> ('op, 'd) interp \<Rightarrow> node \<Rightarrow> bool" where
  "loadable create s nd \<longleftrightarrow> (case n_op nd of
      KernelLaunch ty opts sn ins outs \<Rightarrow>
        (case sn of None \<Rightarrow> creatable create ty opts | Some name \<Rightarrow> \<exists>p. linked s name p)
    | _ \<Rightarrow> plain_instr (n_op nd) \<noteq> None)"

lemma launch_spec_extra:
  "launch_spec create s ty opts sn p \<Longrightarrow> launch_spec create (add_objects extra s) ty opts sn p"
  by (auto simp: launch_spec_def built_more split: option.splits)

lemma implements_mono: "(\<And>ty opts sn p. P ty opts sn p \<Longrightarrow> Q ty opts sn p) \<Longrightarrow> implements P nd i \<Longrightarrow> implements Q nd i"
  by (cases "n_op nd") (auto split: option.splits)

lemma plain_implements: "plain_instr (n_op nd) = Some i \<Longrightarrow> implements P nd i"
  by (cases "n_op nd" rule: plain_instr.cases) (auto split: if_splits)

lemma load_loadable:
  assumes "loadable create s nd"
  shows "\<exists>i extra. load_instr create (instr_json nd) s = Inr (put_instr (n_id nd) i (add_objects extra s)) \<and>
    implements (launch_spec create (add_objects extra s)) nd i"
proof (cases "\<exists>ty opts sn ins outs. n_op nd = KernelLaunch ty opts sn ins outs")
  case True
  then obtain ty opts sn ins outs where k: "n_op nd = KernelLaunch ty opts sn ins outs" by blast
  then obtain p extra where "load_instr create (instr_json nd) s =
      Inr (put_instr (n_id nd) (IKernelLaunch p ins outs (node_device nd)) (add_objects extra s))"
    "launch_spec create (add_objects extra s) ty opts sn p"
    using load_launch_instr [OF k, of create s] assms by (cases sn) (auto simp: loadable_def k)
  then show ?thesis using k by (intro exI conjI) auto
next
  case False
  then obtain i where "plain_instr (n_op nd) = Some i"
    using assms by (cases "n_op nd") (auto simp: loadable_def)
  then show ?thesis using load_plain_instr plain_implements by (metis add_objects_simps(1))
qed

lemma linked_program [simp]: "linked (s\<lparr>program := pr\<rparr>) = linked s"
  by (simp add: linked_def fun_eq_iff)

lemma loadable_put [simp]: "loadable create (put_instr i ins s) = loadable create s"
  by (simp add: fun_eq_iff loadable_def put_instr_def split: ir_op.split option.split)

lemma loadable_add [simp]: "loadable create (add_objects extra s) = loadable create s"
  by (simp add: fun_eq_iff loadable_def split: ir_op.split option.split)

lemma put_add [simp]:
  "add_objects extra (put_instr i ins s) = put_instr i ins (add_objects extra s)"
  by (simp add: add_objects_def put_instr_def)

lemma launch_spec_put [simp]: "launch_spec create (put_instr i ins s) = launch_spec create s"
  by (simp add: fun_eq_iff launch_spec_def put_instr_def split: option.split)

definition with_program :: "(64 word \<times> instr) list \<Rightarrow> ('op, 'd) interp \<Rightarrow> ('op, 'd) interp" where
  "with_program pr s = s\<lparr>program := pr\<rparr>"

lemma with_program_simps [simp]:
  "put_instr i ins (with_program pr s) = with_program (AList.update i ins pr) s"
  "loadable create (with_program pr s) = loadable create s"
  "launch_spec create (with_program pr s) = launch_spec create s"
  "add_objects extra (with_program pr s) = with_program pr (add_objects extra s)"
  by (simp_all add: with_program_def put_instr_def fun_eq_iff loadable_def launch_spec_def
      add_objects_def split: ir_op.split option.split)

lemma load_code:
  assumes "list_all (loadable create s) nds"
    and "\<And>i. i < length nds \<Longrightarrow> n_id (nds ! i) = of_nat (c + i)"
    and "c + length nds \<le> 2 ^ 64" "fst ` set pr \<subseteq> of_nat ` {..<c}"
  shows "\<exists>is extra. ofold (load_instr create) (map instr_json nds) (with_program pr s) =
      Inr (with_program (pr @ zip (map of_nat [c..<c + length nds]) is) (add_objects extra s)) \<and>
    list_all2 (implements (launch_spec create (add_objects extra s))) nds is"
  using assms
proof (induction nds arbitrary: c pr s)
  case Nil
  then show ?case by (intro exI [of _ "[]"]) simp
next
  case (Cons nd nds)
  have id: "n_id nd = of_nat c" using Cons.prems(2) [of 0] by simp
  have fresh: "of_nat c \<notin> fst ` set pr"
    using position_fresh [of c] Cons.prems(3,4) by auto
  obtain i x1 where step: "load_instr create (instr_json nd) (with_program pr s) =
      Inr (put_instr (n_id nd) i (add_objects x1 (with_program pr s)))"
    and impl: "implements (launch_spec create (add_objects x1 s)) nd i"
    using load_loadable [of create "with_program pr s" nd] Cons.prems(1)
    by (auto simp del: implements.simps)
  let ?pr = "pr @ [(of_nat c, i)]"
  have "\<exists>is extra. ofold (load_instr create) (map instr_json nds) (with_program ?pr (add_objects x1 s)) =
      Inr (with_program (?pr @ zip (map of_nat [Suc c..<Suc c + length nds]) is)
        (add_objects extra (add_objects x1 s))) \<and>
    list_all2 (implements (launch_spec create (add_objects extra (add_objects x1 s)))) nds is"
  proof (rule Cons.IH)
    show "list_all (loadable create (add_objects x1 s)) nds" using Cons.prems(1) by simp
    show "\<And>i. i < length nds \<Longrightarrow> n_id (nds ! i) = of_nat (Suc c + i)"
      using Cons.prems(2) [of "Suc i" for i] by simp
    show "Suc c + length nds \<le> 2 ^ 64" using Cons.prems(3) by simp
    show "fst ` set ?pr \<subseteq> of_nat ` {..<Suc c}" using Cons.prems(4) by auto
  qed
  then obtain js x2 where rest: "ofold (load_instr create) (map instr_json nds) (with_program ?pr (add_objects x1 s)) =
      Inr (with_program (?pr @ zip (map of_nat [Suc c..<Suc c + length nds]) js) (add_objects (x1 @ x2) s))"
    and impls: "list_all2 (implements (launch_spec create (add_objects (x1 @ x2) s))) nds js"
    by (auto simp del: implements.simps)
  have "implements (launch_spec create (add_objects (x1 @ x2) s)) nd i"
    using implements_mono [OF _ impl] launch_spec_extra by (metis add_objects_simps(2))
  moreover have "[c..<c + length (nd # nds)] = c # [Suc c..<Suc c + length nds]"
    by (simp add: upt_rec)
  ultimately show ?case
    using step rest impls fresh
    by (intro exI [of _ "i # js"] exI [of _ "x1 @ x2"])
      (simp add: id update_fresh del: implements.simps upt_Suc)
qed

subsection \<open>Loading the symbol table\<close>

definition with_symbols ::
  "(64 word \<times> instr) list \<Rightarrow> (string \<rightharpoonup> 64 word) \<Rightarrow> ('op, 'd) interp \<Rightarrow> ('op, 'd) interp" where
  "with_symbols tab names s = s\<lparr>program_id_2_op_table := tab, symbol_name_2_program_id_table := names\<rparr>"

lemma with_symbols_simps [simp]:
  "program_id_2_op_table (with_symbols tab names s) = tab"
  "symbol_name_2_program_id_table (with_symbols tab names s) = names"
  "with_symbols tab names (add_objects extra s) = add_objects extra (with_symbols tab names s)"
  "with_symbols tab names (with_symbols tab1 names1 s) = with_symbols tab names s"
  "program (with_symbols tab names s) = program s"
  "tensors (with_symbols tab names s) = tensors s"
  by (simp_all add: with_symbols_def add_objects_def)

fun symbol_instr :: "'op creation \<Rightarrow> 'op list \<Rightarrow> node \<Rightarrow> instr \<Rightarrow> bool" where
  "symbol_instr create objs nd i \<longleftrightarrow> (case n_op nd of
      ValueSymbol name u None \<Rightarrow> i = IValueSymbol
    | KernelSymbol name ty (Some opts) \<Rightarrow> \<exists>p. i = IKernelSymbol p name \<and> built create objs ty opts p
    | _ \<Rightarrow> False)"

definition symbol_ok :: "'op creation \<Rightarrow> node \<Rightarrow> bool" where
  "symbol_ok create nd \<longleftrightarrow> (case n_op nd of
      ValueSymbol name u c \<Rightarrow> c = None
    | KernelSymbol name ty opts \<Rightarrow> (case opts of None \<Rightarrow> False | Some j \<Rightarrow> creatable create ty j)
    | _ \<Rightarrow> False)"

fun name_ids :: "node list \<Rightarrow> (string \<rightharpoonup> 64 word) \<Rightarrow> (string \<rightharpoonup> 64 word)" where
  "name_ids [] names = names"
| "name_ids (nd # nds) names =
     name_ids nds (case n_op nd of KernelSymbol name ty opts \<Rightarrow> names(name \<mapsto> n_id nd) | _ \<Rightarrow> names)"

lemma symbol_instr_extra: "symbol_instr create objs nd i \<Longrightarrow> symbol_instr create (objs @ extra) nd i"
  by (auto simp: built_more split: ir_op.splits option.splits)

lemma load_one_symbol:
  assumes "symbol_ok create nd"
  shows "\<exists>i extra. load_symbol create from_vector (instr_json nd) s =
      Inr (add_objects extra (with_symbols (AList.update (n_id nd) i (program_id_2_op_table s))
        (name_ids [nd] (symbol_name_2_program_id_table s)) s)) \<and>
    symbol_instr create (op_objects (tensors s) @ extra) nd i"
proof (cases "n_op nd")
  case (ValueSymbol name u c)
  then have "c = None" using assms by (simp add: symbol_ok_def)
  then show ?thesis
    using ValueSymbol by (intro exI [of _ IValueSymbol] exI [of _ "[]"])
      (simp add: load_symbol_def instr_simps json_fields_simps load_constant_def put_symbol_def with_symbols_def)
next
  case (KernelSymbol name ty opts)
  then obtain j where j: "opts = Some j" "creatable create ty j"
    using assms by (auto simp: symbol_ok_def split: option.splits)
  obtain p extra where a: "aopsFromJson create (instr_json nd) s = Inr (p, add_objects extra s)"
    "built create (op_objects (tensors s) @ extra) ty j p"
    using aopsFromJson_instr [of nd ty j create s] KernelSymbol j
    by (auto simp: json_fields_simps json_head_def json_program_id_def)
  then show ?thesis
    using KernelSymbol j(1) by (intro exI [of _ "IKernelSymbol p name"] exI [of _ extra])
      (simp add: load_symbol_def instr_simps json_fields_simps put_symbol_def with_symbols_def add_objects_def)
qed (use assms in \<open>simp_all add: symbol_ok_def\<close>)

lemma load_symbols:
  assumes "list_all (symbol_ok create) nds"
    and "\<And>i. i < length nds \<Longrightarrow> n_id (nds ! i) = of_nat (c + i)"
    and "c + length nds \<le> 2 ^ 64" "fst ` set tab \<subseteq> of_nat ` {..<c}"
  shows "\<exists>js extra. ofold (load_symbol create from_vector) (map instr_json nds) (with_symbols tab names s) =
      Inr (add_objects extra (with_symbols (tab @ zip (map of_nat [c..<c + length nds]) js) (name_ids nds names) s)) \<and>
    list_all2 (symbol_instr create (op_objects (tensors s) @ extra)) nds js"
  using assms
proof (induction nds arbitrary: c tab names s)
  case Nil
  then show ?case by (intro exI [of _ "[]"]) simp
next
  case (Cons nd nds)
  have id: "n_id nd = of_nat c" using Cons.prems(2) [of 0] by simp
  have fresh: "of_nat c \<notin> fst ` set tab"
    using position_fresh [of c] Cons.prems(3,4) by auto
  obtain i x1 where step: "load_symbol create from_vector (instr_json nd) (with_symbols tab names s) =
      Inr (add_objects x1 (with_symbols (AList.update (n_id nd) i tab) (name_ids [nd] names) s))"
    and sym: "symbol_instr create (op_objects (tensors s) @ x1) nd i"
    using load_one_symbol [of create nd from_vector "with_symbols tab names s"] Cons.prems(1)
    by (auto simp del: symbol_instr.simps name_ids.simps)
  let ?tab = "tab @ [(of_nat c, i)]"
  have "\<exists>js extra. ofold (load_symbol create from_vector) (map instr_json nds)
        (with_symbols ?tab (name_ids [nd] names) (add_objects x1 s)) =
      Inr (add_objects extra (with_symbols (?tab @ zip (map of_nat [Suc c..<Suc c + length nds]) js)
        (name_ids nds (name_ids [nd] names)) (add_objects x1 s))) \<and>
    list_all2 (symbol_instr create (op_objects (tensors (add_objects x1 s)) @ extra)) nds js"
  proof (rule Cons.IH)
    show "list_all (symbol_ok create) nds" using Cons.prems(1) by simp
    show "\<And>i. i < length nds \<Longrightarrow> n_id (nds ! i) = of_nat (Suc c + i)"
      using Cons.prems(2) [of "Suc i" for i] by simp
    show "Suc c + length nds \<le> 2 ^ 64" using Cons.prems(3) by simp
    show "fst ` set ?tab \<subseteq> of_nat ` {..<Suc c}" using Cons.prems(4) by auto
  qed
  then obtain js x2 where rest: "ofold (load_symbol create from_vector) (map instr_json nds)
        (with_symbols ?tab (name_ids [nd] names) (add_objects x1 s)) =
      Inr (add_objects (x1 @ x2) (with_symbols (?tab @ zip (map of_nat [Suc c..<Suc c + length nds]) js)
        (name_ids nds (name_ids [nd] names)) s))"
    and syms: "list_all2 (symbol_instr create (op_objects (tensors s) @ x1 @ x2)) nds js"
    by (auto simp del: symbol_instr.simps name_ids.simps)
  have "symbol_instr create (op_objects (tensors s) @ x1 @ x2) nd i"
    using symbol_instr_extra [OF sym, of x2] by simp
  moreover have "[c..<c + length (nd # nds)] = c # [Suc c..<Suc c + length nds]"
    by (simp add: upt_rec)
  ultimately show ?case
    using step rest syms fresh
    by (intro exI [of _ "i # js"] exI [of _ "x1 @ x2"])
      (simp add: id update_fresh del: symbol_instr.simps upt_Suc)
qed

lemma name_ids_found:
  "name_ids nds names name = Some i \<Longrightarrow> names name \<noteq> Some i \<Longrightarrow>
     \<exists>k < length nds. \<exists>ty opts. n_op (nds ! k) = KernelSymbol name ty opts \<and> i = n_id (nds ! k)"
proof (induction nds arbitrary: names)
  case (Cons nd nds)
  let ?n = "name_ids [nd] names"
  show ?case
  proof (cases "?n name = Some i")
    case True
    then have "\<exists>ty opts. n_op nd = KernelSymbol name ty opts \<and> i = n_id nd"
      using Cons.prems(2) by (auto split: ir_op.splits if_splits)
    then show ?thesis by (intro exI [of _ 0]) simp
  next
    case False
    then obtain k where "k < length nds" "\<exists>ty opts. n_op (nds ! k) = KernelSymbol name ty opts \<and> i = n_id (nds ! k)"
      using Cons.IH [of ?n] Cons.prems(1) by auto
    then show ?thesis by (intro exI [of _ "Suc k"]) simp
  qed
qed simp

lemma name_ids_keeps: "names name \<noteq> None \<Longrightarrow> name_ids nds names name \<noteq> None"
  by (induction nds arbitrary: names) (auto split: ir_op.split)

lemma name_ids_some:
  "nd \<in> set nds \<Longrightarrow> n_op nd = KernelSymbol name ty opts \<Longrightarrow> name_ids nds names name \<noteq> None"
proof (induction nds arbitrary: names)
  case (Cons x xs)
  then show ?case using name_ids_keeps [of "names(name \<mapsto> n_id nd)" name xs] by auto
qed simp

lemma symbols_linked:
  assumes js: "list_all2 (symbol_instr create objs) nds js"
    and ids: "\<And>i. i < length nds \<Longrightarrow> n_id (nds ! i) = of_nat i" and len: "length nds \<le> 2 ^ 64"
    and s: "program_id_2_op_table s = zip (map of_nat [0..<length nds]) js"
      "symbol_name_2_program_id_table s = name_ids nds Map.empty"
    and nd: "nd \<in> set nds" "n_op nd = KernelSymbol name ty opts"
  shows "\<exists>p k ty1 opts1. linked s name p \<and> built create objs ty1 opts1 p \<and> k < length nds \<and>
    n_op (nds ! k) = KernelSymbol name ty1 (Some opts1)"
proof -
  obtain i where i: "name_ids nds Map.empty name = Some i"
    using name_ids_some [OF nd] by blast
  then obtain k ty1 o1 where k: "k < length nds" "n_op (nds ! k) = KernelSymbol name ty1 o1" "i = n_id (nds ! k)"
    using name_ids_found [OF i] by auto
  have l: "length js = length nds" using list_all2_lengthD [OF js] by simp
  obtain p opts1 where p: "o1 = Some opts1" "js ! k = IKernelSymbol p name" "built create objs ty1 opts1 p"
    using list_all2_nthD [OF js k(1)] k(2) by (auto split: option.splits)
  have "map_of (program_id_2_op_table s) i = Some (js ! k)"
    using map_of_positions [of k js] k ids len l s(1) by simp
  then have "linked s name p" using i p(2) s(2) by (auto simp: linked_def)
  then show ?thesis using p k by blast
qed

subsection \<open>Modules that can be compiled\<close>

text \<open>
  Every operation of a known type can be created, operations with the same name have the same type and
  options, and the symbol table registers exactly the names in use, as \<open>extract_symbols\<close> sees to.
\<close>

fun aop_of :: "node \<Rightarrow> aop list" where
  "aop_of nd = (case n_op nd of Linalg a ins outs \<Rightarrow> [a] | _ \<Rightarrow> [])"

definition module_aops :: "(string \<times> node list) list \<Rightarrow> aop list" where
  "module_aops graphs = concat (map aop_of (concat (map snd graphs)))"

fun registered_name :: "node \<Rightarrow> string list" where
  "registered_name nd = (case n_op nd of LinalgRegister s a \<Rightarrow> [s] | _ \<Rightarrow> [])"

definition is_tensor_register :: "node \<Rightarrow> bool" where
  "is_tensor_register nd = (case n_op nd of TensorRegister s u None \<Rightarrow> True | _ \<Rightarrow> False)"

definition is_linalg_register :: "node \<Rightarrow> bool" where
  "is_linalg_register nd = (case n_op nd of LinalgRegister s a \<Rightarrow> True | _ \<Rightarrow> False)"

definition same_op :: "aop \<Rightarrow> aop \<Rightarrow> bool" where
  "same_op a b \<longleftrightarrow> aop_name a \<noteq> aop_name b \<or> aop_name a = [] \<or>
     aop_type a = aop_type b \<and> aop_options a = aop_options b"

definition compilable ::
  "'op creation \<Rightarrow> node list \<Rightarrow> string \<Rightarrow> (string \<times> node list) list \<Rightarrow> node list \<Rightarrow> bool" where
  "compilable create regs root graphs tab \<longleftrightarrow>
     graphs_ok root graphs \<and> list_all is_tensor_register regs \<and> list_all is_linalg_register tab \<and>
     list_all (\<lambda>a. creatable create (optype2Str (aop_type a)) (aop_options a)) (module_aops graphs) \<and>
     list_all (\<lambda>a. list_all (same_op a) (module_aops graphs)) (module_aops graphs) \<and>
     set (filter (\<lambda>s. s \<noteq> []) (map aop_name (module_aops graphs))) = set (concat (map registered_name tab))"

lemma compilable_parts:
  assumes "compilable create regs root graphs tab"
  shows "graphs_ok root graphs" "list_all is_register regs" "list_all is_register tab"
    "plain_names graphs"
proof -
  have "is_register nd" if "is_tensor_register nd \<or> is_linalg_register nd" for nd
    using that by (cases "n_op nd") (simp_all add: is_tensor_register_def is_linalg_register_def is_register_def)
  then show "list_all is_register regs" "list_all is_register tab"
    using assms by (auto simp: compilable_def list_all_iff)
  show "graphs_ok root graphs" "plain_names graphs"
    using assms by (simp_all add: compilable_def graphs_ok_def)
qed

lemma compilable_ops:
  assumes "compilable create regs root graphs tab" "a \<in> set (module_aops graphs)"
  shows "creatable create (optype2Str (aop_type a)) (aop_options a)"
    and "b \<in> set (module_aops graphs) \<Longrightarrow> same_op a b"
    and "aop_name a \<noteq> [] \<Longrightarrow> aop_name a \<in> set (concat (map registered_name tab))"
proof -
  have eq: "set (filter (\<lambda>s. s \<noteq> []) (map aop_name (module_aops graphs))) = set (concat (map registered_name tab))"
    using assms(1) by (simp only: compilable_def)
  show "aop_name a \<in> set (concat (map registered_name tab))" if "aop_name a \<noteq> []"
    unfolding eq [symmetric] using that assms(2) by simp
  show "creatable create (optype2Str (aop_type a)) (aop_options a)"
    "b \<in> set (module_aops graphs) \<Longrightarrow> same_op a b"
    using assms by (auto simp: compilable_def list_all_iff)
qed

lemma main_code_launch: "nd \<in> set (main_code junk root ins outs) \<Longrightarrow> n_op nd \<noteq> KernelLaunch ty opts sn i1 o1"
  by (auto simp: main_code_def mk_def dest!: set_bind_ops)

lemma module_aops_iff:
  "a \<in> set (module_aops graphs) \<longleftrightarrow>
     (\<exists>g \<in> set graphs. \<exists>nd \<in> set (snd g). \<exists>ins outs. n_op nd = Linalg a ins outs)"
proof -
  have "a \<in> set (aop_of nd) \<longleftrightarrow> (\<exists>ins outs. n_op nd = Linalg a ins outs)" for nd
    by (cases "n_op nd") auto
  then show ?thesis by (simp add: module_aops_def del: aop_of.simps)
qed

lemma lowered_launch:
  "lowered_op op = KernelLaunch ty opts sn ins outs \<Longrightarrow> straight names op \<or> op = ReturnOp us \<Longrightarrow>
     \<exists>a. op = Linalg a ins outs \<and> ty = optype2Str (aop_type a) \<and> opts = aop_options a \<and>
       sn = (if aop_name a \<noteq> [] then Some (aop_name a) else None)"
  by (cases op) auto

lemma flat_code_launch:
  assumes ok: "graphs_ok root graphs" and nd: "nd \<in> set (flat_code junk e root ins outs graphs)"
    "n_op nd = KernelLaunch ty opts sn i1 o1"
  shows "\<exists>a \<in> set (module_aops graphs). ty = optype2Str (aop_type a) \<and> opts = aop_options a \<and>
    sn = (if aop_name a \<noteq> [] then Some (aop_name a) else None)"
proof -
  have "nd \<notin> set (main_code junk root ins outs)" using main_code_launch nd(2) by blast
  then obtain g nd1 where g: "g \<in> set graphs" "nd1 \<in> set (snd g)" "nd = lower_node junk nd1"
    using nd by (auto simp: flat_code_def graph_code_def entry_node_def mk_def split: if_splits)
  have "graph_ok (map fst graphs) (snd g)" using ok g(1) by (simp add: graphs_ok_def list_all_iff)
  then have "straight (map fst graphs) (n_op nd1) \<or> (\<exists>us. n_op nd1 = ReturnOp us)"
    using graph_ok_ops g(2) by blast
  then obtain a where "n_op nd1 = Linalg a i1 o1" "ty = optype2Str (aop_type a)" "opts = aop_options a"
      "sn = (if aop_name a \<noteq> [] then Some (aop_name a) else None)"
    using lowered_launch [of "n_op nd1" ty opts sn i1 o1] nd(2) g(3) by (auto simp: n_op_lower_node)
  moreover from this have "a \<in> set (module_aops graphs)" using g by (auto simp: module_aops_iff)
  ultimately show ?thesis by blast
qed

lemma flat_code_has_launch:
  assumes "a \<in> set (module_aops graphs)"
  shows "\<exists>nd \<in> set (flat_code junk e root ins outs graphs). \<exists>i1 o1.
    n_op nd = lowered_op (Linalg a i1 o1)"
proof -
  obtain g nd i1 o1 where "g \<in> set graphs" "nd \<in> set (snd g)" "n_op nd = Linalg a i1 o1"
    using assms by (auto simp: module_aops_iff)
  then show ?thesis
    by (intro bexI [of _ "lower_node junk nd"] exI [of _ i1] exI [of _ o1])
      (auto simp: flat_code_def graph_code_def n_op_lower_node intro!: bexI [of _ g])
qed

lemma symbol_payload_unique:
  assumes "nd \<in> set code" "n_op nd = KernelLaunch ty opts (Some name) ins outs"
    and "\<And>nd ty1 opts1 i1 o1. nd \<in> set code \<Longrightarrow> n_op nd = KernelLaunch ty1 opts1 (Some name) i1 o1 \<Longrightarrow>
      ty1 = ty \<and> opts1 = opts"
  shows "symbol_payload code name = (ty, Some opts)"
proof -
  have "symbol_payload code name = (ty, Some opts) \<or>
      symbol_payload code name = ([], None) \<and> (\<forall>nd \<in> set code. \<forall>t o1 i o2. n_op nd \<noteq> KernelLaunch t o1 (Some name) i o2)"
    using assms(3)
  proof (induction code)
    case (Cons x xs)
    have IH: "symbol_payload xs name = (ty, Some opts) \<or>
      symbol_payload xs name = ([], None) \<and> (\<forall>nd \<in> set xs. \<forall>t o1 i o2. n_op nd \<noteq> KernelLaunch t o1 (Some name) i o2)"
      by (rule Cons.IH) (meson Cons.prems list.set_intros(2))
    then show ?case
      using Cons.prems [of x] by (cases "n_op x") (auto split: option.splits)
  qed simp
  then show ?thesis using assms(1,2) by blast
qed

lemma payload_of_aop:
  assumes ok: "compilable create regs root graphs tab" and a: "a \<in> set (module_aops graphs)" "aop_name a \<noteq> []"
  shows "symbol_payload (flat_code junk e root ins outs graphs) (aop_name a) =
    (optype2Str (aop_type a), Some (aop_options a))"
proof -
  obtain nd i1 o1 where nd: "nd \<in> set (flat_code junk e root ins outs graphs)"
      "n_op nd = KernelLaunch (optype2Str (aop_type a)) (aop_options a) (Some (aop_name a)) i1 o1"
    using flat_code_has_launch [OF a(1), of junk e root ins outs] a(2) by auto
  show ?thesis
  proof (rule symbol_payload_unique [OF nd])
    fix nd1 ty1 opts1 i2 o2
    assume "nd1 \<in> set (flat_code junk e root ins outs graphs)"
      "n_op nd1 = KernelLaunch ty1 opts1 (Some (aop_name a)) i2 o2"
    then obtain b where "b \<in> set (module_aops graphs)" "ty1 = optype2Str (aop_type b)" "opts1 = aop_options b"
        "aop_name b = aop_name a"
      using flat_code_launch [OF compilable_parts(1) [OF ok]] by (metis option.distinct(1) option.inject)
    moreover from this have "same_op b a" using compilable_ops(2) [OF ok] a(1) by blast
    ultimately show "ty1 = optype2Str (aop_type a) \<and> opts1 = aop_options a"
      using a(2) by (simp add: same_op_def)
  qed
qed

subsection \<open>Compiling and loading\<close>

definition compile_module ::
  "bool \<Rightarrow> junk_device \<Rightarrow> bool \<Rightarrow> item list \<Rightarrow> json outcome" where
  "compile_module front_ok junk e m = obind (lower_program front_ok junk e m) visit_module"

text \<open>The object of a launch is the one created for its type and options; named launches share theirs.\<close>

definition object_of :: "'op creation \<Rightarrow> ('op, 'd) interp \<Rightarrow> object_spec" where
  "object_of create s ty opts sn p \<longleftrightarrow>
     built create (op_objects (tensors s)) ty opts p \<and> (\<forall>name. sn = Some name \<longrightarrow> linked s name p)"

lemma indexed_member:
  "nd \<in> set (indexed code) \<Longrightarrow>
     \<exists>i < length code. nd = (code ! i)\<lparr>n_op := indexed_op code i (n_op (code ! i)), n_id := of_nat i\<rparr>"
  by (auto simp: indexed_def)

lemma label_pos_bound: "label_pos nds l \<le> length nds"
  by (induction nds) auto

lemma flat_code_kinds:
  assumes "graphs_ok root graphs" "nd \<in> set (flat_code junk e root ins outs graphs)"
  shows "(\<exists>ty opts sn i1 o1. n_op nd = KernelLaunch ty opts sn i1 o1) \<or> (\<exists>l. n_op nd = JumpOp l None) \<or>
    (\<exists>i. plain_instr (n_op nd) = Some i)"
proof -
  have bind: "\<exists>k. plain_instr (n_op (mk junk (BindOp (to_i32 (int j)) (sint (u :: uuid)) bt))) = Some k" for j u bt
    using sint_ge [of u] sint_lt [of u] by (simp add: mk_def to_i32_def)
  have binds: "nd \<in> set (bind_ops junk bt i us) \<Longrightarrow> \<exists>j (u :: uuid). nd = mk junk (BindOp (to_i32 (int j)) (sint u) bt)"
    for bt i us
    by (induction us arbitrary: i) auto
  have "\<exists>nd1 us. nd = lower_node junk nd1 \<and> (straight (map fst graphs) (n_op nd1) \<or> n_op nd1 = ReturnOp us)"
    if "g \<in> set graphs" "nd \<in> lower_node junk ` set (snd g)" for g
    using that assms(1) graph_ok_ops [of "map fst graphs" "snd g"]
    by (fastforce simp: graphs_ok_def list_all_iff)
  moreover have "(\<exists>ty opts sn i1 o1. lowered_op op = KernelLaunch ty opts sn i1 o1) \<or>
      (\<exists>l. lowered_op op = JumpOp l None) \<or> (\<exists>i. plain_instr (lowered_op op) = Some i)"
    if "straight (map fst graphs) op \<or> op = ReturnOp us" for op us
    using that by (cases op) auto
  ultimately have body: "(\<exists>ty opts sn i1 o1. n_op nd = KernelLaunch ty opts sn i1 o1) \<or>
      (\<exists>l. n_op nd = JumpOp l None) \<or> (\<exists>i. plain_instr (n_op nd) = Some i)"
    if "g \<in> set graphs" "nd \<in> lower_node junk ` set (snd g)" for g
    using that by (metis n_op_lower_node)
  show ?thesis
    using assms(2) bind body binds
    by (auto simp: flat_code_def main_code_def graph_code_def entry_node_def split: if_splits
        dest!: binds) (auto simp: mk_def)
qed

lemma indexed_jump:
  assumes "i < length code" "label_pos code l \<le> length code" "length code < 2 ^ 31"
  shows "plain_instr (JumpOp l (Some (int (label_pos code l) - int i))) \<noteq> None"
  using assms by simp

lemma plain_writable: "plain_instr (n_op nd) = Some k \<Longrightarrow> writable nd"
  by (cases "n_op nd" rule: plain_instr.cases) (simp_all add: writable_iff)

lemma indexed_kinds:
  assumes ok: "graphs_ok root graphs" and code: "code = flat_code junk e root ins outs graphs"
    and len: "length code < 2 ^ 31" and nd: "nd \<in> set (indexed code)"
  shows "(\<exists>ty opts sn i1 o1. n_op nd = KernelLaunch ty opts sn i1 o1 \<and>
      (\<exists>nd0 \<in> set code. n_op nd0 = KernelLaunch ty opts sn i1 o1)) \<or>
    (\<exists>k. plain_instr (n_op nd) = Some k)"
proof -
  obtain i where i: "i < length code" "nd = (code ! i)\<lparr>n_op := indexed_op code i (n_op (code ! i)), n_id := of_nat i\<rparr>"
    using indexed_member [OF nd] by blast
  have m: "code ! i \<in> set code" using i(1) by simp
  consider ty opts sn i1 o1 where "n_op (code ! i) = KernelLaunch ty opts sn i1 o1"
    | l where "n_op (code ! i) = JumpOp l None" | k where "plain_instr (n_op (code ! i)) = Some k"
    using flat_code_kinds [OF ok] m code by blast
  then show ?thesis
  proof cases
    case 1
    then show ?thesis using i m by (auto simp: indexed_op_def)
  next
    case 2
    then show ?thesis using i indexed_jump [OF i(1) label_pos_bound len, of l] by (auto simp: indexed_op_def)
  next
    case 3
    then have "indexed_op code i (n_op (code ! i)) = n_op (code ! i)"
      by (cases "n_op (code ! i)" rule: plain_instr.cases) (simp_all add: indexed_op_def)
    then show ?thesis using 3 i by simp
  qed
qed

lemma indexed_writable:
  assumes "graphs_ok root graphs" "length (flat_code junk e root ins outs graphs) < 2 ^ 31"
  shows "list_all writable (indexed (flat_code junk e root ins outs graphs))"
  using indexed_kinds [OF assms(1) refl assms(2)] plain_writable
  by (fastforce simp: list_all_iff writable_iff)

lemma value_symbols_ok:
  "list_all is_tensor_register regs \<Longrightarrow> nd \<in> set (value_symbols junk regs) \<Longrightarrow> \<exists>s u. nd = mk junk (ValueSymbol s u None)"
proof (induction regs)
  case (Cons r regs)
  then show ?case by (cases "n_op r") (auto simp: is_tensor_register_def split: option.splits)
qed simp

lemma kernel_symbols_member:
  "nd \<in> set (kernel_symbols junk pay tab) \<Longrightarrow>
     \<exists>s \<in> set (concat (map registered_name tab)). nd = mk junk (KernelSymbol s (fst (pay s)) (snd (pay s)))"
proof (induction tab)
  case (Cons r tab)
  then show ?case by (cases "n_op r") auto
qed simp

lemma kernel_symbols_has:
  "s \<in> set (concat (map registered_name tab)) \<Longrightarrow>
     mk junk (KernelSymbol s (fst (pay s)) (snd (pay s))) \<in> set (kernel_symbols junk pay tab)"
proof (induction tab)
  case (Cons r tab)
  then show ?case by (cases "n_op r") auto
qed simp

text \<open>The operations of the symbol table of a compilable module.\<close>

lemma symbol_code_member:
  assumes ok: "compilable create regs root graphs tab"
    and nd: "nd \<in> set (symbol_code junk (flat_code junk e root ins outs graphs) regs tab)"
  shows "(\<exists>s u. nd = mk junk (ValueSymbol s u None)) \<or>
    (\<exists>a \<in> set (module_aops graphs). aop_name a \<noteq> [] \<and>
      nd = mk junk (KernelSymbol (aop_name a) (optype2Str (aop_type a)) (Some (aop_options a))))"
proof (cases "nd \<in> set (value_symbols junk regs)")
  case True
  then show ?thesis using value_symbols_ok ok by (auto simp: compilable_def)
next
  case False
  let ?pay = "symbol_payload (flat_code junk e root ins outs graphs)"
  obtain s where s: "s \<in> set (concat (map registered_name tab))"
      "nd = mk junk (KernelSymbol s (fst (?pay s)) (snd (?pay s)))"
    using False nd kernel_symbols_member by (fastforce simp: symbol_code_def simp del: registered_name.simps)
  have "set (filter (\<lambda>s. s \<noteq> []) (map aop_name (module_aops graphs))) = set (concat (map registered_name tab))"
    using ok by (simp only: compilable_def)
  then have "s \<in> set (filter (\<lambda>s. s \<noteq> []) (map aop_name (module_aops graphs)))" using s(1) by blast
  then obtain a where "a \<in> set (module_aops graphs)" "aop_name a = s" "s \<noteq> []" by auto
  then show ?thesis using s(2) payload_of_aop [OF ok, of a junk e ins outs] by auto
qed

lemma number_ops_member:
  "nd \<in> set (number_ops c nds) \<Longrightarrow> \<exists>nd0 \<in> set nds. n_op nd = n_op nd0"
  by (induction nds arbitrary: c) (auto split: if_splits)

lemma symbol_code_ok:
  assumes ok: "compilable create regs root graphs tab"
    and syms_def: "syms = number_ops 0 (symbol_code junk (flat_code junk e root ins outs graphs) regs tab)"
  shows "list_all (symbol_ok create) syms" "list_all writable syms"
proof -
  have "symbol_ok create nd \<and> writable nd" if nd: "nd \<in> set syms" for nd
  proof -
    obtain nd0 where "nd0 \<in> set (symbol_code junk (flat_code junk e root ins outs graphs) regs tab)" "n_op nd = n_op nd0"
      using number_ops_member nd by (fastforce simp: syms_def)
    then show ?thesis
      using symbol_code_member [OF ok, of nd0 junk e ins outs] ok
      by (auto simp: symbol_ok_def writable_iff mk_def compilable_def list_all_iff)
  qed
  then show "list_all (symbol_ok create) syms" "list_all writable syms" by (simp_all add: list_all_iff)
qed

lemma symbol_code_length: "length (symbol_code junk code regs tab) \<le> length regs + length tab"
proof -
  have "length (value_symbols junk regs) \<le> length regs"
    by (induction regs) (auto split: ir_op.split)
  moreover have "length (kernel_symbols junk pay tab) \<le> length tab" for pay
    by (induction tab) (auto split: ir_op.split)
  ultimately show ?thesis by (simp add: symbol_code_def add_mono)
qed

lemma linked_unique: "linked s name p \<Longrightarrow> linked s name q \<Longrightarrow> p = q"
  by (auto simp: linked_def)

lemma linked_with_program [simp]: "linked (with_program pr s) = linked s"
  by (simp add: with_program_def)

lemma symbol_code_program:
  "compilable create regs root graphs tab \<Longrightarrow>
     all_program (symbol_code junk (flat_code junk e root ins outs graphs) regs tab)"
  using symbol_code_member by (fastforce simp: all_program_def list_all_iff mk_def)

lemma numbered_ids: "all_program nds \<Longrightarrow> i < length (number_ops 0 nds) \<Longrightarrow> n_id (number_ops 0 nds ! i) = of_nat i"
  by (simp add: number_ops_nth)

lemma symbols_load:
  fixes create :: "'op creation"
  assumes ok: "compilable create regs root graphs tab"
    and syms: "syms = number_ops 0 (symbol_code junk (flat_code junk e root ins outs graphs) regs tab)"
    and len: "length syms \<le> 2 ^ 64"
  shows "\<exists>s1. ofold (load_symbol create from_vector) (map instr_json syms) (new_interp :: ('op, 'd) interp) = Inr s1 \<and>
    program s1 = [] \<and> program_stack s1 = [] \<and>
    (\<forall>a \<in> set (module_aops graphs). aop_name a \<noteq> [] \<longrightarrow>
      (\<exists>p. linked s1 (aop_name a) p \<and>
        built create (op_objects (tensors s1)) (optype2Str (aop_type a)) (aop_options a) p))"
proof -
  note prog = symbol_code_program [OF ok, of junk e ins outs]
  have ids: "i < length syms \<Longrightarrow> n_id (syms ! i) = of_nat i" for i
    using numbered_ids [OF prog] by (simp add: syms)
  have new: "with_symbols [] Map.empty new_interp = new_interp"
    by (simp add: with_symbols_def new_interp_def)
  obtain js extra where l: "ofold (load_symbol create from_vector) (map instr_json syms) new_interp =
      Inr (add_objects extra (with_symbols (zip (map of_nat [0..<length syms]) js) (name_ids syms Map.empty) new_interp))"
    and js: "list_all2 (symbol_instr create (op_objects (tensors (new_interp :: ('op, 'd) interp)) @ extra)) syms js"
    using load_symbols [OF symbol_code_ok(1) [OF ok syms], of 0 "[]" from_vector Map.empty new_interp] ids len
    by (auto simp: new simp del: symbol_instr.simps)
  define s1 where "s1 = add_objects extra (with_symbols (zip (map of_nat [0..<length syms]) js)
      (name_ids syms Map.empty) (new_interp :: ('op, 'd) interp))"
  have named: "\<exists>p. linked s1 (aop_name a) p \<and>
      built create (op_objects (tensors s1)) (optype2Str (aop_type a)) (aop_options a) p"
    if a: "a \<in> set (module_aops graphs)" "aop_name a \<noteq> []" for a
  proof -
    let ?pay = "symbol_payload (flat_code junk e root ins outs graphs)"
    from kernel_symbols_has [OF compilable_ops(3) [OF ok a], of junk ?pay]
    have "mk junk (KernelSymbol (aop_name a) (fst (?pay (aop_name a))) (snd (?pay (aop_name a)))) \<in>
        set (symbol_code junk (flat_code junk e root ins outs graphs) regs tab)"
      by (simp add: symbol_code_def)
    then obtain i where i: "i < length syms"
        "n_op (syms ! i) = KernelSymbol (aop_name a) (fst (?pay (aop_name a))) (snd (?pay (aop_name a)))"
      by (auto simp: in_set_conv_nth syms n_op_number_ops mk_def)
    obtain p k ty1 opts1 where p: "linked s1 (aop_name a) p" "built create (op_objects (tensors s1)) ty1 opts1 p"
        "k < length syms" "n_op (syms ! k) = KernelSymbol (aop_name a) ty1 (Some opts1)"
      using symbols_linked [OF js ids len, of s1 "syms ! i"] i by (fastforce simp: s1_def)
    have "symbol_code junk (flat_code junk e root ins outs graphs) regs tab ! k \<in>
        set (symbol_code junk (flat_code junk e root ins outs graphs) regs tab)"
      using p(3) by (simp add: syms)
    from symbol_code_member [OF ok this] obtain b where b: "b \<in> set (module_aops graphs)"
        "aop_name b = aop_name a" "ty1 = optype2Str (aop_type b)" "opts1 = aop_options b"
      using p(3,4) by (auto simp: syms n_op_number_ops mk_def)
    have "same_op b a" by (rule compilable_ops(2) [OF ok b(1) a(1)])
    then show ?thesis using p b a(2) by (auto simp: same_op_def)
  qed
  moreover have "program s1 = []" "program_stack s1 = []"
    by (simp_all add: s1_def new_interp_def with_symbols_def)
  ultimately show ?thesis using l by (intro exI [of _ s1]) (simp add: s1_def)
qed

text \<open>Loading the document of a compilable module gives its instructions, each with the right object.\<close>

lemma compiled_program_loads:
  fixes create :: "'op creation"
  assumes ok: "compilable create regs root graphs tab" and call: "n_op call = CallGraph root ins outs"
    and code: "code = flat_code junk e root ins outs graphs" and len: "length code < 2 ^ 31"
    and syms: "length regs + length tab < 2 ^ 31"
  shows "\<exists>doc s is. compile_module True junk e (module_of regs call graphs tab) = Inr doc \<and>
    loadAndLinkPrograms create from_vector doc (new_interp :: ('op, 'd) interp) = Inr s \<and>
    loaded is s \<and> program_stack s = [] \<and> list_all2 (implements (object_of create s)) (indexed code) is"
proof -
  note ok1 = compilable_parts [OF ok]
  define syms where "syms = number_ops 0 (symbol_code junk code regs tab)"
  have ls: "length syms \<le> 2 ^ 64"
    using symbol_code_length [of junk code regs tab] syms by (simp add: syms_def)
  have doc: "compile_module True junk e (module_of regs call graphs tab) =
      Inr (document junk (indexed code) syms)"
    using flat_code_program [OF ok1(1), of junk e ins outs] flat_code_distinct [OF ok1(1), of junk e ins outs]
      flat_code_jumps [OF ok1(1), of junk e ins outs] len indexed_writable [OF ok1(1), of junk e ins outs]
      symbol_code_ok(2) [OF ok syms_def [unfolded code]]
    by (simp add: compile_module_def lower_program_module [OF call ok1(4,2,3)] Let_def index_ids_lowered
        visit_module_lowered syms_def flip: code)
  obtain s1 where s1: "ofold (load_symbol create from_vector) (map instr_json syms) (new_interp :: ('op, 'd) interp) = Inr s1"
      "program s1 = []" "program_stack s1 = []"
    and named: "\<And>a. a \<in> set (module_aops graphs) \<Longrightarrow> aop_name a \<noteq> [] \<Longrightarrow> \<exists>p. linked s1 (aop_name a) p \<and>
      built create (op_objects (tensors s1)) (optype2Str (aop_type a)) (aop_options a) p"
    using symbols_load [OF ok syms_def [unfolded code] ls] by blast
  have launch: "\<exists>a \<in> set (module_aops graphs). ty = optype2Str (aop_type a) \<and> opts = aop_options a \<and>
      sn = (if aop_name a \<noteq> [] then Some (aop_name a) else None)"
    if "nd \<in> set (indexed code)" "n_op nd = KernelLaunch ty opts sn i1 o1" for nd ty opts sn i1 o1
    using indexed_kinds [OF ok1(1) code len that(1)] that(2) flat_code_launch [OF ok1(1)] code
    by (metis ir_op.inject(9) option.distinct(1) plain_instr.simps)
  have loadable: "list_all (loadable create s1) (indexed code)"
    unfolding list_all_iff
  proof
    fix nd assume nd: "nd \<in> set (indexed code)"
    show "loadable create s1 nd"
    proof (cases "\<exists>ty opts sn i1 o1. n_op nd = KernelLaunch ty opts sn i1 o1")
      case True
      then obtain ty opts sn i1 o1 where k: "n_op nd = KernelLaunch ty opts sn i1 o1" by blast
      obtain a where "a \<in> set (module_aops graphs)" "ty = optype2Str (aop_type a)" "opts = aop_options a"
          "sn = (if aop_name a \<noteq> [] then Some (aop_name a) else None)"
        using launch [OF nd k] by blast
      moreover from this have "\<exists>p. linked s1 (aop_name a) p" if "aop_name a \<noteq> []" using named that by blast
      ultimately show ?thesis using k compilable_ops(1) [OF ok, of a] by (auto simp: loadable_def)
    next
      case False
      then show ?thesis
        using indexed_kinds [OF ok1(1) code len nd] by (cases "n_op nd") (auto simp: loadable_def)
    qed
  qed
  have "with_program [] s1 = s1" using s1(2) by (simp add: with_program_def)
  then obtain "is" extra where l: "ofold (load_instr create) (map instr_json (indexed code)) s1 =
      Inr (with_program (zip (map of_nat [0..<length code]) is) (add_objects extra s1))"
    and impl: "list_all2 (implements (launch_spec create (add_objects extra s1))) (indexed code) is"
    using load_code [OF loadable, of 0 "[]"] len by (auto simp: indexed_nth simp del: implements.simps)
  define s where "s = with_program (zip (map of_nat [0..<length code]) is) (add_objects extra s1)"
  have "list_all2 (implements (object_of create s)) (indexed code) is"
  proof (rule list.rel_mono_strong [OF impl])
    fix nd i
    assume nd: "nd \<in> set (indexed code)" and i: "implements (launch_spec create (add_objects extra s1)) nd i"
    show "implements (object_of create s) nd i"
    proof (cases "\<exists>ty opts sn i1 o1. n_op nd = KernelLaunch ty opts sn i1 o1")
      case True
      then obtain ty opts sn i1 o1 where k: "n_op nd = KernelLaunch ty opts sn i1 o1" by blast
      then obtain p where p: "i = IKernelLaunch p i1 o1 (node_device nd)"
          "launch_spec create (add_objects extra s1) ty opts sn p" using i by auto
      obtain a where a: "a \<in> set (module_aops graphs)" "ty = optype2Str (aop_type a)" "opts = aop_options a"
          "sn = (if aop_name a \<noteq> [] then Some (aop_name a) else None)"
        using launch [OF nd k] by blast
      have "object_of create s ty opts sn p"
      proof (cases "aop_name a = []")
        case True
        then show ?thesis using p(2) a(4) by (simp add: object_of_def launch_spec_def s_def with_program_def)
      next
        case False
        then obtain q where "linked s1 (aop_name a) q" "built create (op_objects (tensors s1)) ty opts q"
          using named [OF a(1)] a(2,3) by blast
        then show ?thesis
          using p(2) a(4) False linked_unique [of s1 "aop_name a" p q] built_more
          by (auto simp: object_of_def launch_spec_def s_def) (auto simp: with_program_def built_more)
      qed
      then show ?thesis using k p(1) by simp
    next
      case False
      then show ?thesis using i by (cases "n_op nd") auto
    qed
  qed
  moreover have "loaded is s"
    using list_all2_lengthD [OF impl] by (simp add: loaded_def s_def with_program_def)
  moreover have "program_stack s = []" using s1(3) by (simp add: s_def with_program_def)
  ultimately show ?thesis
    using doc s1(1) l by (intro exI [of _ "document junk (indexed code) syms"] exI [of _ s] exI [of _ "is"])
      (simp add: load_document s_def)
qed

end
