(* ===== verification/Ir_Run.thy ===== *)
theory Ir_Run
  imports Ir_Program
begin

subsection \<open>Running a loaded program\<close>

fun bind_acts :: "bind_type \<Rightarrow> nat \<Rightarrow> uuid list \<Rightarrow> act list" where
  "bind_acts bt i [] = []"
| "bind_acts bt i (u # us) = ABind (to_i32 (int i)) (sint u) bt # bind_acts bt (Suc i) us"

text \<open>
  What a run means: the inputs are bound in order, the operations of the call tree are done, the outputs
  are bound from the last to the first.
\<close>

definition program_run ::
  "('op, 'd) submission \<Rightarrow> uuid list \<Rightarrow> act list \<Rightarrow> uuid list \<Rightarrow> 'd rt_tensor list \<Rightarrow>
     ('op, 'd) tensor_store \<Rightarrow> ('op, 'd) tensor_store outcome" where
  "program_run submit ins acts outs inputs t =
     ofold (do_act submit) (bind_acts kInput 0 ins @ acts @ rev (bind_acts kOutput 0 outs))
       (t\<lparr>global_inputs := inputs\<rparr>)"

fun node_act :: "node \<Rightarrow> act" where
  "node_act nd = (case n_op nd of BindOp pos u bt \<Rightarrow> ABind pos u bt | _ \<Rightarrow> AFree [])"

lemma node_acts: "map node_act (bind_ops junk bt i us) = bind_acts bt i us"
  by (induction us arbitrary: i) (simp_all add: mk_def)

lemma binds_run:
  assumes impl: "list_all2 (implements P) (indexed code) is"
  shows "code = xs @ nds @ ys \<Longrightarrow> ys \<noteq> [] \<Longrightarrow> (\<And>nd. nd \<in> set nds \<Longrightarrow> \<exists>pos u bt. n_op nd = BindOp pos u bt) \<Longrightarrow>
    runs is (length xs) (map node_act nds) (length xs + length nds)"
proof (induction nds arbitrary: xs)
  case Nil
  then have "length xs < length is" using list_all2_lengthD [OF impl] by (cases ys) simp_all
  then show ?case by (simp add: runs_stop)
next
  case (Cons nd nds)
  have IH: "runs is (length (xs @ [nd])) (map node_act nds) (length (xs @ [nd]) + length nds)"
    by (rule Cons.IH) (use Cons.prems in auto)
  obtain pos u bt where nd: "n_op nd = BindOp pos u bt" using Cons.prems(3) by fastforce
  have "length xs < length code" "code ! length xs = nd" using Cons.prems(1) by simp_all
  then have "is ! length xs = act_instr (node_act nd)" "length xs < length is"
    using implements_indexed [OF impl, of "length xs"] nd list_all2_lengthD [OF impl]
    by (simp_all add: indexed_op_def)
  then show ?case using IH by (simp add: runs_act del: node_act.simps)
qed

lemma bind_nodes: "nd \<in> set (bind_ops junk bt i us) \<Longrightarrow> \<exists>pos u bt. n_op nd = BindOp pos u bt"
  by (induction us arbitrary: i) (auto simp: mk_def)

text \<open>The entry code binds the inputs, calls the root and binds the outputs; then comes the exit.\<close>

lemma main_runs:
  assumes ok: "graphs_ok root graphs" and code: "code = flat_code junk e root ins outs graphs"
    and len: "length code \<le> 2 ^ 31" and impl: "list_all2 (implements P) (indexed code) is"
    and ks: "unfolds (body_of graphs) [CallGraph root ins outs] ks"
  shows "\<exists>acts q. list_all2 (act_of P junk) ks acts \<and> is ! q = IExit \<and>
    runs is (if e then 1 else 0) (bind_acts kInput 0 ins @ acts @ rev (bind_acts kOutput 0 outs)) q"
proof -
  define pre where "pre = (if e then [mk junk (ModeConfigOp 1)] else [])"
  define b1 where "b1 = bind_ops junk kInput 0 ins"
  define jmp where "jmp = mk junk (JumpOp (root @ ''.__entry'') None)"
  define b2 where "b2 = rev (bind_ops junk kOutput 0 outs)"
  define ex where "ex = mk junk ExitOp"
  define tl where "tl = concat (map (graph_code junk) graphs)"
  have c: "code = pre @ b1 @ jmp # b2 @ ex # tl"
    by (simp add: code flat_code_def main_code_def pre_def b1_def jmp_def b2_def ex_def tl_def)
  have in1: "runs is (length pre) (bind_acts kInput 0 ins) (length pre + length b1)"
    using binds_run [OF impl, of pre b1 "jmp # b2 @ ex # tl"] c bind_nodes
    by (fastforce simp: b1_def node_acts)
  let ?a = "length pre + length b1"
  have "stretch junk code ?a [CallGraph root ins outs]"
    by (simp add: stretch_def c nth_append jmp_def mk_def)
  from unfolds_runs [OF ok code len impl ks this]
  obtain acts where acts: "list_all2 (act_of P junk) ks acts" "runs is ?a acts (Suc ?a)" by auto
  have "runs is (length (pre @ b1 @ [jmp])) (map node_act b2) (length (pre @ b1 @ [jmp]) + length b2)"
    by (rule binds_run [OF impl, of _ _ "ex # tl"]) (use c bind_nodes in \<open>auto simp: b2_def\<close>)
  moreover have "map node_act b2 = rev (bind_acts kOutput 0 outs)"
    by (simp add: b2_def node_acts flip: rev_map)
  ultimately have out: "runs is (Suc ?a) (rev (bind_acts kOutput 0 outs)) (Suc ?a + length b2)"
    by simp
  let ?q = "Suc ?a + length b2"
  have "is ! ?q = IExit"
    using implements_indexed [OF impl, of ?q] by (simp add: c nth_append ex_def mk_def indexed_op_def)
  moreover have "length pre = (if e then 1 else 0)" by (simp add: pre_def)
  ultimately show ?thesis
    using acts(1) runs_trans [OF in1 runs_trans [OF acts(2) out]]
    by (intro exI [of _ acts] exI [of _ ?q]) simp
qed

lemma run_loaded:
  assumes l: "loaded is s" and len: "length is \<le> 2 ^ 64" and ne: "is \<noteq> []"
    and first: "e \<Longrightarrow> is ! 0 = IModeConfig 1"
    and run: "runs is (if e then 1 else 0) acts q" and ex: "is ! q = IExit"
  shows "interp_run submit inputs s =
    Some (obind (ofold (do_act submit) acts ((tensors s)\<lparr>global_inputs := inputs\<rparr>)) (\<lambda>t.
      Inr (global_outputs t,
           goto (s\<lparr>mode := if e then kEagerMode else kStaticMode\<rparr>) q (program_stack s) t)))"
proof -
  let ?t = "(tensors s)\<lparr>global_inputs := inputs\<rparr>"
  let ?m = "\<lambda>m. s\<lparr>mode := m\<rparr>"
  have lm: "loaded is (?m m)" for m using l by (simp add: loaded_def)
  have n: "length (program s) = length is" using l by (simp add: loaded_def)
  have start: "s\<lparr>tensors := ?t, program_counter := 0, mode := kStaticMode\<rparr> =
      goto (?m kStaticMode) 0 (program_stack s) ?t"
    by (simp add: goto_def)
  have b: "(if e then 1 else 0) < length is" "q < length is" using runs_bounds [OF run] by simp_all
  let ?s = "?m (if e then kEagerMode else kStaticMode)"
  have first_step: "run_loop submit (length is) (goto (?m kStaticMode) 0 (program_stack s) ?t) =
      run_loop submit (length is) (goto ?s (if e then 1 else 0) (program_stack s) ?t)"
  proof (cases e)
    case True
    have "eager_step submit (goto (?m kStaticMode) 0 (program_stack s) ?t) =
        Inr (False, goto ?s 1 (program_stack s) ?t)"
      using fetch_loaded [OF lm, of 0 kStaticMode "program_stack s" ?t] len ne first [OF True] True
      by (simp add: eager_step_def) (simp add: goto_def next_pc_def set_mode_def)
    from run_loop_step [OF this] show ?thesis using b(1) len True by (simp add: pc_in_code del: One_nat_def)
  qed simp
  have exit: "run_loop submit (length is) (goto ?s q st t) = Some (Inr (goto ?s q st t))" for st t
    using fetch_loaded [OF lm b(2) len] ex by (intro run_loop_exit) (simp add: eager_step_def)
  show ?thesis
    unfolding interp_run_def n start first_step run_loop_runs [OF lm len run] exit
    by (cases "ofold (do_act submit) acts ?t") simp_all
qed

text \<open>
  A compilable module is compiled and loaded, and running the program, as often as one likes, does the
  operations of its call tree in the order of the calls and then stops.
\<close>

definition run_result ::
  "('op, 'd) interp \<Rightarrow> bool \<Rightarrow> nat \<Rightarrow> ('op, 'd) tensor_store \<Rightarrow> 'd rt_tensor list \<times> ('op, 'd) interp" where
  "run_result s e q t =
     (global_outputs t, goto (s\<lparr>mode := if e then kEagerMode else kStaticMode\<rparr>) q (program_stack s) t)"

lemma first_instr:
  assumes "list_all2 (implements P) (indexed (flat_code junk True root ins outs graphs)) is"
  shows "is ! 0 = IModeConfig 1"
proof -
  have "0 < length (flat_code junk True root ins outs graphs)"
    "n_op (flat_code junk True root ins outs graphs ! 0) = ModeConfigOp 1"
    by (simp_all add: flat_code_def mk_def)
  then show ?thesis using implements_indexed [OF assms, of 0] by (simp add: indexed_op_def)
qed

lemma compiled_program_runs:
  fixes create :: "'op creation"
  assumes ok: "compilable create regs root graphs tab" and call: "n_op call = CallGraph root ins outs"
    and len: "length (flat_code junk e root ins outs graphs) < 2 ^ 31"
    and syms: "length regs + length tab < 2 ^ 31"
    and ks: "unfolds (body_of graphs) [CallGraph root ins outs] ks"
  shows "\<exists>doc s acts q. compile_module True junk e (module_of regs call graphs tab) = Inr doc \<and>
    loadAndLinkPrograms create from_vector doc (new_interp :: ('op, 'd) interp) = Inr s \<and>
    list_all2 (act_of (object_of create s) junk) ks acts \<and>
    (\<forall>submit inputs (s2 :: ('op, 'd) interp). program s2 = program s \<longrightarrow>
      interp_run submit inputs s2 =
        Some (obind (program_run submit ins acts outs inputs (tensors s2)) (\<lambda>t. Inr (run_result s2 e q t))))"
proof -
  let ?code = "flat_code junk e root ins outs graphs"
  obtain doc s "is" where d: "compile_module True junk e (module_of regs call graphs tab) = Inr doc"
      "loadAndLinkPrograms create from_vector doc (new_interp :: ('op, 'd) interp) = Inr s" "loaded is s"
    and impl: "list_all2 (implements (object_of create s)) (indexed ?code) is"
    using compiled_program_loads [OF ok call refl len syms] by blast
  have "length ?code \<le> 2 ^ 31" using len by simp
  from main_runs [OF compilable_parts(1) [OF ok] refl this impl ks]
  obtain acts q where acts: "list_all2 (act_of (object_of create s) junk) ks acts" and q: "is ! q = IExit"
    and r: "runs is (if e then 1 else 0) (bind_acts kInput 0 ins @ acts @ rev (bind_acts kOutput 0 outs)) q"
    by blast
  have l: "length is = length ?code" using list_all2_lengthD [OF impl] by (simp add: indexed_def)
  then have l64: "length is \<le> 2 ^ 64" using len by simp
  have ne: "is \<noteq> []" using runs_bounds [OF r] by auto
  have first: "e \<Longrightarrow> is ! 0 = IModeConfig 1" using impl first_instr by (cases e) auto
  have "interp_run submit inputs s2 =
      Some (obind (program_run submit ins acts outs inputs (tensors s2)) (\<lambda>t. Inr (run_result s2 e q t)))"
    if "program s2 = program s" for submit inputs and s2 :: "('op, 'd) interp"
  proof -
    have "loaded is s2" using d(3) that by (simp add: loaded_def)
    from run_loaded [OF this l64 ne first r q] show ?thesis by (simp add: program_run_def run_result_def)
  qed
  then show ?thesis using d acts
    by (intro exI [of _ doc] exI [of _ s] exI [of _ acts] exI [of _ q]) simp
qed

end
