(* ===== verification/Ir_Trace.thy ===== *)
theory Ir_Trace
  imports Ir_Run
begin

text \<open>
  From the trace to the run. Tracing a module and extracting its symbols gives a module that can be
  compiled, if the names are distinct; its call tree, unfolded, is the list of operations the trace
  saw. So a compiled trace does what was traced.
\<close>

subsection \<open>The graphs of a trace\<close>

text \<open>\<open>traced junk es nds gs regs\<close>: the events become the nodes, with these graphs and parameters.\<close>

inductive traced ::
  "junk_device \<Rightarrow> event list \<Rightarrow> node list \<Rightarrow> (string \<times> node list) list \<Rightarrow> node list \<Rightarrow> bool" for junk where
  traced_nil: "traced junk [] [] [] []"
| traced_op: "traced junk es nds gs regs \<Longrightarrow>
    traced junk (OpEvent params a ins outs # es)
      ((mk junk (Linalg a ins outs))\<lparr>n_device := aop_device a\<rparr> # nds) gs
      (map (\<lambda>(s, u). mk junk (TensorRegister s u None)) params @ regs)"
| traced_module: "traced junk evs body gs1 regs1 \<Longrightarrow> traced junk es nds gs2 regs2 \<Longrightarrow>
    traced junk (ModuleEvent m ins evs outs # es) (mk junk (CallGraph name ins outs) # nds)
      ((name, body @ [mk junk (ReturnOp outs)]) # gs1 @ gs2) (regs1 @ regs2)"

inductive_cases traced_single: "traced junk [ModuleEvent m ins evs outs] nds gs regs"

inductive_simps traced_nil_iff: "traced junk [] nds gs regs"

lemma unique_name_init: "init_ops (snd (getUniqueModuleName base ts)) = init_ops ts"
  by (simp add: getUniqueModuleName_def Let_def)

lemma trace_traced:
  "\<exists>nd gs regs ts1. trace_event junk e ts = (nd, map (case_prod SubGraph) gs, ts1) \<and>
     (\<forall>es nds gs2 regs2. traced junk es nds gs2 regs2 \<longrightarrow>
        traced junk (e # es) (nd # nds) (gs @ gs2) (regs @ regs2)) \<and>
     init_ops ts1 = init_ops ts @ regs"
  "\<exists>nds gs regs ts1. trace_events junk es ts = (nds, map (case_prod SubGraph) gs, ts1) \<and>
     traced junk es nds gs regs \<and> init_ops ts1 = init_ops ts @ regs"
proof (induction junk e ts and junk es ts rule: trace_event_trace_events.induct)
  case (1 junk params a ins outs ts)
  show ?case
    by (intro exI [of _ "(mk junk (Linalg a ins outs))\<lparr>n_device := aop_device a\<rparr>"] exI [of _ "[]"]
        exI [of _ "map (\<lambda>(s, u). mk junk (TensorRegister s u None)) params"] exI) (auto intro: traced_op)
next
  case (2 junk m ins evs outs ts)
  obtain name ts0 where name: "getUniqueModuleName (absolute_name ts m) ts = (name, ts0)"
    by (rule prod.exhaust)
  let ?ts = "ts0\<lparr>absolute_name := (absolute_name ts0)(m := name)\<rparr>"
  obtain nds gs regs ts1 where t: "trace_events junk evs ?ts = (nds, map (case_prod SubGraph) gs, ts1)"
      "traced junk evs nds gs regs" "init_ops ts1 = init_ops ?ts @ regs"
    using "2.IH" [OF name [symmetric] refl refl] by blast
  have "init_ops ts0 = init_ops ts"
    using arg_cong [OF name, of snd] unique_name_init [of "absolute_name ts m" ts] by simp
  then show ?case using t name
    by (intro exI [of _ "mk junk (CallGraph name ins outs)"]
        exI [of _ "(name, nds @ [mk junk (ReturnOp outs)]) # gs"] exI [of _ regs] exI [of _ ts1])
      (auto intro: traced_module)
next
  case (3 junk ts)
  show ?case by (intro exI [of _ "[]"] exI) (auto intro: traced_nil)
next
  case (4 junk e es ts)
  obtain nd gs regs ts1 where e: "trace_event junk e ts = (nd, map (case_prod SubGraph) gs, ts1)"
      "\<And>es nds gs2 regs2. traced junk es nds gs2 regs2 \<Longrightarrow>
        traced junk (e # es) (nd # nds) (gs @ gs2) (regs @ regs2)" "init_ops ts1 = init_ops ts @ regs"
    using "4.IH"(1) by blast
  obtain nds gs2 regs2 ts2 where es: "trace_events junk es ts1 = (nds, map (case_prod SubGraph) gs2, ts2)"
      "traced junk es nds gs2 regs2" "init_ops ts2 = init_ops ts1 @ regs2"
    using "4.IH"(2) [OF e(1) [symmetric] refl] by blast
  show ?case using e es
    by (intro exI [of _ "nd # nds"] exI [of _ "gs @ gs2"] exI [of _ "regs @ regs2"] exI [of _ ts2]) simp
qed

subsection \<open>What the trace saw\<close>

fun event_ops :: "event \<Rightarrow> ir_op list" where
  "event_ops (OpEvent params a ins outs) = [Linalg a ins outs]"
| "event_ops (ModuleEvent m ins evs outs) = concat (map event_ops evs)"

fun event_aops :: "event \<Rightarrow> aop list" where
  "event_aops (OpEvent params a ins outs) = [a]"
| "event_aops (ModuleEvent m ins evs outs) = concat (map event_aops evs)"

fun event_params :: "event \<Rightarrow> (string \<times> uuid) list" where
  "event_params (OpEvent params a ins outs) = params"
| "event_params (ModuleEvent m ins evs outs) = concat (map event_params evs)"

text \<open>An operation takes one instruction; a module takes its call, its label and its return.\<close>

fun event_length :: "event \<Rightarrow> nat" where
  "event_length (OpEvent params a ins outs) = 1"
| "event_length (ModuleEvent m ins evs outs) = 3 + sum_list (map event_length evs)"

text \<open>
  \<open>call_tree junk es ks nds gs\<close>: the nodes and graphs are those of the events, with frees here and there,
  and unfold to \<open>ks\<close>.
\<close>

inductive call_tree ::
  "junk_device \<Rightarrow> event list \<Rightarrow> ir_op list \<Rightarrow> node list \<Rightarrow> (string \<times> node list) list \<Rightarrow> bool" for junk where
  call_tree_nil: "call_tree junk [] [] [] []"
| call_tree_free: "call_tree junk es ks nds gs \<Longrightarrow>
    call_tree junk es (TensorFree u # ks) (mk junk (TensorFree u) # nds) gs"
| call_tree_op: "call_tree junk es ks nds gs \<Longrightarrow> n_op nd = Linalg a ins outs \<Longrightarrow>
    call_tree junk (OpEvent params a ins outs # es) (Linalg a ins outs # ks) (nd # nds) gs"
| call_tree_module: "call_tree junk evs ks1 body gs1 \<Longrightarrow> call_tree junk es ks2 nds gs2 \<Longrightarrow>
    call_tree junk (ModuleEvent m ins evs outs # es) (ks1 @ ks2) (mk junk (CallGraph name ins outs) # nds)
      ((name, body @ [mk junk (ReturnOp outs)]) # gs1 @ gs2)"

lemma traced_call_tree: "traced junk es nds gs regs \<Longrightarrow> call_tree junk es (concat (map event_ops es)) nds gs"
proof (induction rule: traced.induct)
  case (traced_op es nds gs regs params a ins outs)
  then show ?case using call_tree_op [OF traced_op.IH] by (simp add: mk_def)
qed (auto intro: call_tree.intros)

lemma call_tree_unfolds:
  "call_tree junk es ks nds gs \<Longrightarrow> (\<And>s nd. (s, nd) \<in> set gs \<Longrightarrow> G s = Some (map n_op (butlast nd))) \<Longrightarrow>
     unfolds G (map n_op nds) ks"
proof (induction rule: call_tree.induct)
  case (call_tree_module evs ks1 body gs1 es ks2 nds gs2 m ins outs name)
  then have "unfolds G (map n_op body) ks1" "unfolds G (map n_op nds) ks2" by simp_all
  moreover have "G name = Some (map n_op body)"
    using call_tree_module.prems [of name "body @ [mk junk (ReturnOp outs)]"] by simp
  ultimately show ?case by (auto simp: mk_def intro: unfolds_call)
qed (auto simp: mk_def intro: unfolds.intros)

lemma call_tree_straight:
  "call_tree junk es ks nds gs \<Longrightarrow> set (map fst gs) \<subseteq> set names \<Longrightarrow>
     list_all (\<lambda>nd. straight names (n_op nd)) nds \<and> list_all (\<lambda>g. graph_ok names (snd g)) gs"
  by (induction rule: call_tree.induct) (auto simp: mk_def graph_ok_def is_return_def list_all_iff)

lemma module_aops_simps [simp]:
  "module_aops [] = []"
  "module_aops (gs1 @ gs2) = module_aops gs1 @ module_aops gs2"
  "module_aops ((s, nds) # gs) = concat (map aop_of nds) @ module_aops gs"
  by (simp_all add: module_aops_def del: aop_of.simps)

lemma mk_aops:
  "aop_of (mk junk (CallGraph name ins outs)) = []" "aop_of (mk junk (ReturnOp outs)) = []"
  by (simp_all add: mk_def)

lemma call_tree_aops:
  "call_tree junk es ks nds gs \<Longrightarrow>
     set (concat (map aop_of nds)) \<union> set (module_aops gs) = set (concat (map event_aops es))"
proof (induction rule: call_tree.induct)
  case (call_tree_module evs ks1 body gs1 es ks2 nds gs2 m ins outs name)
  then show ?case
    by (simp del: aop_of.simps set_concat add: mk_aops flip: call_tree_module.IH) (simp only: Un_ac)
qed (auto simp: mk_def)

lemma call_tree_length:
  "call_tree junk es ks nds gs \<Longrightarrow>
     length nds + sum_list (map (\<lambda>g. Suc (length (snd g))) gs) + length (concat (map event_ops es)) =
     sum_list (map event_length es) + length ks"
  by (induction rule: call_tree.induct) simp_all

lemma traced_registers:
  "traced junk es nds gs regs \<Longrightarrow>
     regs = map (\<lambda>(s, u). mk junk (TensorRegister s u None)) (concat (map event_params es))"
  by (induction rule: traced.induct) simp_all

lemma tensor_registers: "list_all is_tensor_register (map (\<lambda>(s, u). mk junk (TensorRegister s u None)) ps)"
  by (induction ps) (auto simp: is_tensor_register_def mk_def)

subsection \<open>Extracting the symbols\<close>

definition op_names :: "node list \<Rightarrow> string list" where
  "op_names nds = filter (\<lambda>s. s \<noteq> []) (map aop_name (concat (map aop_of nds)))"

lemma op_names_simps:
  "op_names [] = []"
  "op_names (nd # nds) = (case n_op nd of
     Linalg a i1 o1 \<Rightarrow> if aop_name a \<noteq> [] then aop_name a # op_names nds else op_names nds | _ \<Rightarrow> op_names nds)"
  by (simp_all add: op_names_def split: ir_op.split)

lemma register_ops_spec:
  "register_ops junk nds (seen, regs) = (seen1, regs1) \<Longrightarrow>
     concat (map registered_name regs) = seen \<Longrightarrow> list_all is_linalg_register regs \<Longrightarrow>
     concat (map registered_name regs1) = seen1 \<and> list_all is_linalg_register regs1 \<and>
     set seen1 = set seen \<union> set (op_names nds) \<and> length regs1 \<le> length regs + length nds"
proof (induction nds arbitrary: seen regs)
  case (Cons nd nds)
  show ?case
  proof (cases "\<exists>a i1 o1. n_op nd = Linalg a i1 o1 \<and> aop_name a \<noteq> [] \<and> aop_name a \<notin> set seen")
    case True
    then obtain a i1 o1 where a: "n_op nd = Linalg a i1 o1" "aop_name a \<noteq> []" "aop_name a \<notin> set seen" by blast
    let ?r = "mk junk (LinalgRegister (aop_name a) a)"
    have r: "registered_name ?r = [aop_name a]" "is_linalg_register ?r"
      by (simp_all add: mk_def is_linalg_register_def)
    show ?thesis
      using Cons.IH [of "seen @ [aop_name a]" "regs @ [?r]"] Cons.prems a r
      by (simp del: registered_name.simps add: op_names_simps)
  next
    case False
    then have "register_ops junk (nd # nds) (seen, regs) = register_ops junk nds (seen, regs)"
      "set (op_names (nd # nds)) \<union> set seen = set (op_names nds) \<union> set seen"
      by (cases "n_op nd"; auto simp: op_names_simps)+
    then show ?thesis
      using Cons.IH [of seen regs] Cons.prems by (simp del: registered_name.simps add: Un_commute)
  qed
qed (simp del: registered_name.simps add: op_names_simps)

definition symbols_of :: "junk_device \<Rightarrow> (string \<times> node list) list \<Rightarrow> node list" where
  "symbols_of junk graphs = snd (register_ops junk (concat (map snd graphs)) ([], []))"

lemma symbols_of:
  "list_all is_linalg_register (symbols_of junk graphs)"
  "set (filter (\<lambda>s. s \<noteq> []) (map aop_name (module_aops graphs))) =
     set (concat (map registered_name (symbols_of junk graphs)))"
  "length (symbols_of junk graphs) \<le> sum_list (map (\<lambda>g. Suc (length (snd g))) graphs)"
proof -
  obtain seen regs where r: "register_ops junk (concat (map snd graphs)) ([], []) = (seen, regs)" by fastforce
  have s: "symbols_of junk graphs = regs" by (simp add: symbols_of_def r)
  have l: "length (concat (map snd graphs)) \<le> sum_list (map (\<lambda>g. Suc (length (snd g))) graphs)"
    by (induction graphs) simp_all
  note spec = register_ops_spec [OF r]
  show "list_all is_linalg_register (symbols_of junk graphs)"
    "length (symbols_of junk graphs) \<le> sum_list (map (\<lambda>g. Suc (length (snd g))) graphs)"
    using spec l by (simp_all add: s)
  show "set (filter (\<lambda>s. s \<noteq> []) (map aop_name (module_aops graphs))) =
     set (concat (map registered_name (symbols_of junk graphs)))"
    using spec by (simp add: s module_aops_def op_names_def del: registered_name.simps aop_of.simps set_concat)
qed

fun graph_name :: "item \<Rightarrow> string list" where
  "graph_name (SubGraph s nds) = [s]"
| "graph_name _ = []"

definition graph_names :: "item list \<Rightarrow> string list" where
  "graph_names m = concat (map graph_name m)"

lemma graph_names_simps [simp]:
  "graph_names [] = []"
  "graph_names (SubGraph s nds # m) = s # graph_names m"
  "graph_names (TopOp nd # m) = graph_names m"
  "graph_names (map (case_prod SubGraph) gs) = map fst gs"
proof -
  show "graph_names (map (case_prod SubGraph) gs) = map fst gs"
    by (induction gs) (auto simp: graph_names_def)
qed (simp_all add: graph_names_def)

lemma extract_module:
  assumes "plain_names graphs" "n_op call = CallGraph root ins outs"
  shows "extract_symbols junk (SubGraph ''init'' regs # SubGraph ''deinit'' [] # TopOp call # map (case_prod SubGraph) graphs) =
    module_of regs call graphs (symbols_of junk graphs)"
proof -
  define gs where "gs = map (case_prod SubGraph) graphs"
  have ok: "list_all (\<lambda>g. fst g \<notin> set (code_segment # special_graphs)) graphs"
    using assms(1) by (simp only: plain_names_def)
  then have "concat (map graph_ops gs) = concat (map snd graphs)" "\<not> has_graph ''op_symbol_table'' gs"
    unfolding gs_def by (induction graphs) (auto simp: has_graph_def special_graphs_def)
  moreover have "concat (map top_ops gs) = []" by (simp only: gs_def top_calls)
  moreover have "register_ops junk (nds @ [call]) acc = register_ops junk nds acc" for nds acc
    using assms(2) by (induction nds acc rule: register_ops.induct) (auto split: ir_op.split)
  ultimately show ?thesis
    unfolding gs_def [symmetric] module_of_def
    by (simp add: extract_symbols_def symbols_of_def del: concat_eq_Nil_conv)
      (simp add: has_graph_def special_graphs_def)
qed

text \<open>Tracing a module with distinct names and extracting its symbols.\<close>

lemma traced_module_of:
  assumes names: "distinct (code_segment # ''op_symbol_table'' # graph_names (trace_module junk names (ModuleEvent m ins evs outs)))"
  shows "\<exists>call root graphs regs. n_op call = CallGraph root ins outs \<and>
    extract_symbols junk (trace_module junk names (ModuleEvent m ins evs outs)) =
      module_of regs call graphs (symbols_of junk graphs) \<and>
    traced junk [ModuleEvent m ins evs outs] [call] graphs regs \<and> plain_names graphs \<and>
    root \<in> set (map fst graphs)"
proof -
  let ?e = "ModuleEvent m ins evs outs"
  let ?ts = "\<lparr>module_name_counters = (\<lambda>_. 0), absolute_name = names, init_ops = []\<rparr>"
  obtain call graphs regs ts1 where t: "trace_event junk ?e ?ts = (call, map (case_prod SubGraph) graphs, ts1)"
      "\<forall>es nds gs2 regs2. traced junk es nds gs2 regs2 \<longrightarrow>
        traced junk (?e # es) (call # nds) (graphs @ gs2) (regs @ regs2)" "init_ops ts1 = regs"
    using trace_traced(1) [of junk ?e ?ts] by auto
  have tr: "traced junk [?e] [call] graphs regs" using t(2) traced_nil by fastforce
  then obtain root where root: "n_op call = CallGraph root ins outs" "root \<in> set (map fst graphs)"
    by (cases rule: traced_single) (auto simp: traced_nil_iff mk_def)
  have m: "trace_module junk names ?e =
      SubGraph ''init'' regs # SubGraph ''deinit'' [] # TopOp call # map (case_prod SubGraph) graphs"
    using t(1,3) by (simp add: trace_module_def del: trace_event.simps)
  have "plain_names graphs"
    using names by (auto simp: m plain_names_def special_graphs_def list_all_iff image_iff)
  then show ?thesis
    using tr root extract_module by (intro exI [of _ call] exI [of _ root] exI [of _ graphs] exI [of _ regs])
      (simp add: m)
qed

text \<open>Operations that can be created, and that agree where they share a name.\<close>

definition ops_ok :: "'op creation \<Rightarrow> aop list \<Rightarrow> bool" where
  "ops_ok create aops \<longleftrightarrow>
     list_all (\<lambda>a. creatable create (optype2Str (aop_type a)) (aop_options a)) aops \<and>
     list_all (\<lambda>a. list_all (same_op a) aops) aops"

lemma ops_ok_cong: "set xs = set ys \<Longrightarrow> ops_ok create xs = ops_ok create ys"
  by (simp add: ops_ok_def list_all_iff)

lemma compilable_intro:
  assumes "graphs_ok root graphs" "list_all is_tensor_register regs" "list_all is_linalg_register tab"
    "ops_ok create (module_aops graphs)"
    "set (filter (\<lambda>s. s \<noteq> []) (map aop_name (module_aops graphs))) = set (concat (map registered_name tab))"
  shows "compilable create regs root graphs tab"
  using assms by (simp only: compilable_def ops_ok_def simp_thms)

lemma call_tree_compilable:
  assumes t: "call_tree junk [ModuleEvent m ins evs outs] ks [call] graphs"
    and call: "n_op call = CallGraph root ins outs"
    and names: "plain_names graphs" "root \<in> set (map fst graphs)"
    and ops: "ops_ok create (event_aops (ModuleEvent m ins evs outs))"
    and regs: "list_all is_tensor_register regs" "list_all is_linalg_register tab"
    and tab: "set (filter (\<lambda>s. s \<noteq> []) (map aop_name (event_aops (ModuleEvent m ins evs outs)))) =
      set (concat (map registered_name tab))"
  shows "compilable create regs root graphs tab"
proof (rule compilable_intro [OF _ regs])
  show "graphs_ok root graphs"
    using call_tree_straight [OF t, of "map fst graphs"] names by (simp add: graphs_ok_def)
  have eq: "set (module_aops graphs) = set (event_aops (ModuleEvent m ins evs outs))"
    using call_tree_aops [OF t] call by simp
  then show "ops_ok create (module_aops graphs)" using ops ops_ok_cong by metis
  have "set (filter (\<lambda>s. s \<noteq> []) (map aop_name (module_aops graphs))) =
      set (filter (\<lambda>s. s \<noteq> []) (map aop_name (event_aops (ModuleEvent m ins evs outs))))"
    by (simp only: set_filter set_map eq)
  then show "set (filter (\<lambda>s. s \<noteq> []) (map aop_name (module_aops graphs))) =
      set (concat (map registered_name tab))"
    by (simp only: tab)
qed

lemma traced_tables:
  assumes t: "traced junk [ModuleEvent m ins evs outs] [call] graphs regs"
    and call: "n_op call = CallGraph root ins outs"
  shows "list_all is_tensor_register regs"
    and "set (filter (\<lambda>s. s \<noteq> []) (map aop_name (event_aops (ModuleEvent m ins evs outs)))) =
      set (concat (map registered_name (symbols_of junk graphs)))"
    and "length regs = length (event_params (ModuleEvent m ins evs outs))"
    and "length (symbols_of junk graphs) \<le> event_length (ModuleEvent m ins evs outs)"
proof -
  have ps: "regs = map (\<lambda>(s, u). mk junk (TensorRegister s u None)) (event_params (ModuleEvent m ins evs outs))"
    using traced_registers [OF t] by (simp only: list.map concat.simps append_Nil2)
  show "list_all is_tensor_register regs" unfolding ps by (rule tensor_registers)
  show "length regs = length (event_params (ModuleEvent m ins evs outs))" unfolding ps by (rule length_map)
  have eq: "set (event_aops (ModuleEvent m ins evs outs)) = set (module_aops graphs)"
    using call_tree_aops [OF traced_call_tree [OF t]] call by simp
  show "set (filter (\<lambda>s. s \<noteq> []) (map aop_name (event_aops (ModuleEvent m ins evs outs)))) =
      set (concat (map registered_name (symbols_of junk graphs)))"
    unfolding symbols_of(2) [symmetric] by (simp only: set_filter set_map eq)
  show "length (symbols_of junk graphs) \<le> event_length (ModuleEvent m ins evs outs)"
    using symbols_of(3) [of junk graphs] call_tree_length [OF traced_call_tree [OF t]] by simp
qed

text \<open>The length of the code: one instruction for every operation, three for every module, and the frees.\<close>

lemma flat_code_length:
  "length (flat_code junk e root ins outs graphs) =
     (if e then 1 else 0) + length ins + length outs + 2 + sum_list (map (\<lambda>g. Suc (length (snd g))) graphs)"
proof -
  have "length (bind_ops junk bt i us) = length us" for bt i us by (induction us arbitrary: i) simp_all
  moreover have "length (concat (map (graph_code junk) gs)) = sum_list (map (\<lambda>g. Suc (length (snd g))) gs)" for gs
    by (induction gs) (simp_all add: graph_code_def)
  ultimately show ?thesis by (simp add: flat_code_def main_code_def)
qed

lemma call_tree_code_length:
  assumes "call_tree junk [e] ks [call] graphs"
  shows "length (flat_code junk eager root ins outs graphs) + length (event_ops e) <
    length ins + length outs + event_length e + length ks + 3"
  using call_tree_length [OF assms] by (simp add: flat_code_length)

end
