(* ===== verification/Memory_Solver.thy ===== *)
theory Memory_Solver
  imports Ir_Trace
begin

text \<open>
  The passes before the lowering that look at tensors: \<^verbatim>\<open>EagerMemorySolverPass.cpp\<close>, which frees a
  tensor behind its last use, and \<^verbatim>\<open>ExtractConstantTensorPass.cpp\<close>, with the canonicalization pipeline
  \<^verbatim>\<open>LLMCanonicalizationPipeline.cpp\<close>. Sub-graphs are found through the symbol table, where the last one
  that was made under a name stands; the walk of a graph that calls itself does not end.

  The solved module, unfolded, is the list of operations of the trace with a free behind each last use
  (\<open>free_last\<close>), and freeing does not change what a run computes, as long as no tensor that an operation
  reads is an output of the program.
\<close>

subsection \<open>Graphs by name\<close>

fun lookup_graph :: "item list \<Rightarrow> string \<Rightarrow> node list option" where
  "lookup_graph [] s = None"
| "lookup_graph (i # m) s =
     (case lookup_graph m s of
        Some nds \<Rightarrow> Some nds
      | None \<Rightarrow> (case i of SubGraph t nds \<Rightarrow> if s = t then Some nds else None | _ \<Rightarrow> None))"

fun put_graph :: "string \<Rightarrow> node list \<Rightarrow> item list \<Rightarrow> item list" where
  "put_graph s new [] = []"
| "put_graph s new (i # m) =
     (if lookup_graph m s \<noteq> None then i # put_graph s new m
      else (case i of SubGraph t nds \<Rightarrow> (if s = t then SubGraph t new else i) # m | _ \<Rightarrow> i # m))"

subsection \<open>Counting uses and freeing\<close>

type_synonym use_count = "uuid \<rightharpoonup> int"

definition count_use :: "uuid \<Rightarrow> use_count \<Rightarrow> use_count" where
  "count_use u cnt = (case cnt u of None \<Rightarrow> cnt(u \<mapsto> 1) | Some k \<Rightarrow> cnt(u \<mapsto> k + 1))"

fun called_graph :: "ir_op \<Rightarrow> string option" where
  "called_graph (CallGraph s ins outs) = Some s"
| "called_graph _ = None"

fun used_tensors :: "ir_op \<Rightarrow> uuid list" where
  "used_tensors (Linalg a ins outs) = ins"
| "used_tensors _ = []"

partial_function (option) index_tensors ::
  "item list \<Rightarrow> node list \<Rightarrow> use_count \<Rightarrow> use_count outcome option" where
  "index_tensors m nds cnt =
     (case nds of
        [] \<Rightarrow> Some (Inr cnt)
      | nd # rest \<Rightarrow>
         (case called_graph (n_op nd) of
            None \<Rightarrow> index_tensors m rest (fold count_use (used_tensors (n_op nd)) cnt)
          | Some s \<Rightarrow>
              (case lookup_graph m s of
                 None \<Rightarrow> Some (Inl Undefined)
               | Some body \<Rightarrow>
                   Option.bind (index_tensors m body cnt) (\<lambda>r.
                   case r of Inl f \<Rightarrow> Some (Inl f) | Inr cnt1 \<Rightarrow> index_tensors m rest cnt1))))"

text \<open>A free is put right behind the operation, in front of those put there for its earlier inputs.\<close>

fun free_inputs :: "junk_device \<Rightarrow> uuid list \<Rightarrow> use_count \<Rightarrow> node list \<Rightarrow> node list \<times> use_count" where
  "free_inputs junk [] cnt frees = (frees, cnt)"
| "free_inputs junk (u # us) cnt frees =
     (case cnt u of
        None \<Rightarrow> free_inputs junk us cnt frees
      | Some k \<Rightarrow> free_inputs junk us (cnt(u \<mapsto> k - 1))
                   (if k - 1 = 0 then mk junk (TensorFree u) # frees else frees))"

definition before_rest ::
  "node list \<Rightarrow> (node list \<times> item list \<times> use_count) outcome \<Rightarrow> (node list \<times> item list \<times> use_count) outcome" where
  "before_rest new r = obind r (\<lambda>(rest, m, cnt). Inr (new @ rest, m, cnt))"

partial_function (option) insert_frees ::
  "junk_device \<Rightarrow> item list \<Rightarrow> node list \<Rightarrow> use_count \<Rightarrow> (node list \<times> item list \<times> use_count) outcome option" where
  "insert_frees junk m nds cnt =
     (case nds of
        [] \<Rightarrow> Some (Inr ([], m, cnt))
      | nd # rest \<Rightarrow>
         (case called_graph (n_op nd) of
            None \<Rightarrow>
              (case free_inputs junk (used_tensors (n_op nd)) cnt [] of
                 (frees, cnt1) \<Rightarrow> 
                   Option.bind (insert_frees junk m rest cnt1) (\<lambda>r. Some (before_rest (nd # frees) r)))
          | Some s \<Rightarrow>
              (case lookup_graph m s of
                 None \<Rightarrow> Some (Inl Undefined)
               | Some body \<Rightarrow>
                   Option.bind (insert_frees junk m body cnt) (\<lambda>r.
                   case r of
                     Inl f \<Rightarrow> Some (Inl f)
                   | Inr (body1, m1, cnt1) \<Rightarrow>
                       Option.bind (insert_frees junk (put_graph s body1 m1) rest cnt1) (\<lambda>r. Some (before_rest [nd] r))))))"

text \<open>\<open>find_call\<close> goes on after the first call, so it finds the last.\<close>

definition find_call :: "item list \<Rightarrow> string option" where
  "find_call m = fold (\<lambda>nd r. case n_op nd of CallGraph s ins outs \<Rightarrow> Some s | _ \<Rightarrow> r) (concat (map top_ops m)) None"

definition solve_memory :: "junk_device \<Rightarrow> item list \<Rightarrow> item list outcome option" where
  "solve_memory junk m =
     (case find_call m of
        None \<Rightarrow> Some (Inl Undefined)
      | Some s \<Rightarrow>
         (case lookup_graph m s of
            None \<Rightarrow> Some (Inl Undefined)
          | Some root \<Rightarrow>
              Option.bind (index_tensors m root Map.empty) (\<lambda>r.
              case r of
                Inl f \<Rightarrow> Some (Inl f)
              | Inr cnt \<Rightarrow>
                  Option.bind (insert_frees junk m root cnt) (\<lambda>r1.
                  case r1 of
                    Inl f \<Rightarrow> Some (Inl f)
                  | Inr (root1, m1, cnt1) \<Rightarrow> Some (Inr (put_graph s root1 m1))))))"

definition canonicalize :: "bool \<Rightarrow> bool \<Rightarrow> junk_device \<Rightarrow> item list \<Rightarrow> item list outcome option" where
  "canonicalize auxiliary_dbg_info enable_eager_memory_solver junk m =
     (let m1 = extract_symbols junk m;
          m2 = (if auxiliary_dbg_info then m1 else eliminate_dbg m1) in
      if enable_eager_memory_solver then solve_memory junk m2 else Some (Inr m2))"

subsection \<open>Extracting constants\<close>

text \<open>
  A tensor value may carry a constant (its numbers and its shape) and a symbol. The set of values is
  ordered by their addresses: \<open>order\<close>.
\<close>

record tensor_values =
  value_constant :: "uuid \<Rightarrow> (json \<times> json) option"
  value_symbol :: "uuid \<Rightarrow> string option"
  value_device :: "uuid \<Rightarrow> device"

fun op_values :: "node \<Rightarrow> uuid list" where
  "op_values nd = (case n_op nd of Linalg a ins outs \<Rightarrow> ins @ outs | _ \<Rightarrow> [])"

fun scanned_ops :: "item \<Rightarrow> node list" where
  "scanned_ops (TopOp nd) = [nd]"
| "scanned_ops (SubGraph s nds) = (if s = ''init'' \<or> s = ''deinit'' then [] else nds)"
| "scanned_ops i = []"

definition register_constant :: "junk_device \<Rightarrow> tensor_values \<Rightarrow> uuid \<Rightarrow> node" where
  "register_constant junk vs u =
     (mk junk (TensorRegister
        (case value_symbol vs u of Some s \<Rightarrow> s | None \<Rightarrow> ''constant_'' @ to_string (unat u))
        u (value_constant vs u)))\<lparr>n_device := value_device vs u\<rparr>"

definition extract_constants ::
  "(uuid set \<Rightarrow> uuid list) \<Rightarrow> junk_device \<Rightarrow> tensor_values \<Rightarrow> item list \<Rightarrow> item list outcome" where
  "extract_constants order junk vs m =
     (case lookup_graph m ''init'' of
        None \<Rightarrow> Inl Undefined
      | Some nds \<Rightarrow>
          let us = concat (map op_values (concat (map scanned_ops m)));
              constants = order (set (filter (\<lambda>u. value_constant vs u \<noteq> None) us)) in
          Inr (put_graph ''init'' (nds @ map (register_constant junk vs) constants) m))"

definition lowering_pipeline ::
  "(uuid set \<Rightarrow> uuid list) \<Rightarrow> bool \<Rightarrow> junk_device \<Rightarrow> tensor_values \<Rightarrow> bool \<Rightarrow> item list \<Rightarrow> item list outcome" where
  "lowering_pipeline order front_ok junk vs enable_eager m =
     obind (extract_constants order junk vs m) (lower_program front_ok junk enable_eager)"

subsection \<open>The solver on a list of operations\<close>

definition all_uses :: "ir_op list \<Rightarrow> uuid list" where
  "all_uses ops = concat (map used_tensors ops)"

lemma all_uses_simps [simp]:
  "all_uses [] = []" "all_uses (op # ops) = used_tensors op @ all_uses ops"
  "all_uses (ops1 @ ops2) = all_uses ops1 @ all_uses ops2"
  by (simp_all add: all_uses_def)

fun free_last :: "ir_op list \<Rightarrow> ir_op list" where
  "free_last [] = []"
| "free_last (op # ops) =
     op # map TensorFree (rev (remdups (filter (\<lambda>u. u \<notin> set (all_uses ops)) (used_tensors op)))) @ free_last ops"

fun solve_ops :: "junk_device \<Rightarrow> ir_op list \<Rightarrow> use_count \<Rightarrow> ir_op list \<times> use_count" where
  "solve_ops junk [] cnt = ([], cnt)"
| "solve_ops junk (op # ops) cnt =
     (let (frees, cnt1) = free_inputs junk (used_tensors op) cnt [];
          (rest, cnt2) = solve_ops junk ops cnt1 in
      (op # map n_op frees @ rest, cnt2))"

lemma solve_ops_append:
  "solve_ops junk (ops1 @ ops2) cnt =
     (fst (solve_ops junk ops1 cnt) @ fst (solve_ops junk ops2 (snd (solve_ops junk ops1 cnt))),
      snd (solve_ops junk ops2 (snd (solve_ops junk ops1 cnt))))"
  by (induction ops1 arbitrary: cnt) (simp_all add: Let_def split_def)

definition remaining :: "use_count \<Rightarrow> uuid \<Rightarrow> int" where
  "remaining cnt u = (case cnt u of None \<Rightarrow> 0 | Some k \<Rightarrow> k)"

definition tracks :: "use_count \<Rightarrow> uuid list \<Rightarrow> bool" where
  "tracks cnt xs \<longleftrightarrow> (\<forall>u. remaining cnt u = int (count_list xs u))"

lemma remaining_simps [simp]:
  "remaining (count_use u cnt) v = remaining cnt v + (if u = v then 1 else 0)"
  "remaining (cnt(u \<mapsto> k)) v = (if u = v then k else remaining cnt v)"
  by (simp_all add: remaining_def count_use_def split: option.split)

lemma count_uses_tracks:
  "tracks cnt xs \<Longrightarrow> tracks (fold count_use us cnt) (xs @ us)"
proof (induction us arbitrary: cnt xs)
  case (Cons u us)
  have "tracks (count_use u cnt) (xs @ [u])" using Cons.prems by (simp add: tracks_def)
  from Cons.IH [OF this] show ?case by simp
qed simp

lemma tracks_pos: "tracks cnt xs \<Longrightarrow> u \<in> set xs \<Longrightarrow> cnt u = Some (int (count_list xs u))"
proof -
  assume a: "tracks cnt xs" "u \<in> set xs"
  then have "count_list xs u \<noteq> 0" "remaining cnt u = int (count_list xs u)"
    by (simp_all add: tracks_def count_list_0_iff)
  then show ?thesis by (simp add: remaining_def split: option.splits)
qed

lemma free_inputs_tracks:
  "tracks cnt (us @ xs) \<Longrightarrow> \<exists>cnt1. tracks cnt1 xs \<and>
     free_inputs junk us cnt frees =
       (map (\<lambda>u. mk junk (TensorFree u)) (rev (remdups (filter (\<lambda>u. u \<notin> set xs) us))) @ frees, cnt1)"
proof (induction us arbitrary: cnt frees)
  case (Cons u us)
  define k where "k = int (count_list (u # us @ xs) u)"
  have c: "cnt u = Some k" using tracks_pos [OF Cons.prems, of u] by (simp add: k_def)
  have t: "tracks (cnt(u \<mapsto> k - 1)) (us @ xs)"
    using Cons.prems by (auto simp: tracks_def k_def)
  have "k - 1 = int (count_list (us @ xs) u)" by (simp add: k_def)
  then have "k - 1 = 0 \<longleftrightarrow> u \<notin> set us \<and> u \<notin> set xs"
    by (simp only: of_nat_eq_0_iff count_list_0_iff set_append Un_iff de_Morgan_disj)
  moreover obtain cnt1 where "tracks cnt1 xs" "free_inputs junk us (cnt(u \<mapsto> k - 1))
      (if k - 1 = 0 then mk junk (TensorFree u) # frees else frees) =
      (map (\<lambda>u. mk junk (TensorFree u)) (rev (remdups (filter (\<lambda>u. u \<notin> set xs) us))) @
        (if k - 1 = 0 then mk junk (TensorFree u) # frees else frees), cnt1)"
    using Cons.IH [OF t] by blast
  ultimately show ?case using c by (intro exI [of _ cnt1]) simp
qed simp

lemma solve_ops_free_last:
  "tracks cnt (all_uses ops) \<Longrightarrow> fst (solve_ops junk ops cnt) = free_last ops"
proof (induction ops arbitrary: cnt)
  case (Cons op ops)
  obtain cnt1 where c: "tracks cnt1 (all_uses ops)"
    "free_inputs junk (used_tensors op) cnt [] =
       (map (\<lambda>u. mk junk (TensorFree u)) (rev (remdups (filter (\<lambda>u. u \<notin> set (all_uses ops)) (used_tensors op)))), cnt1)"
    using free_inputs_tracks [of cnt "used_tensors op" "all_uses ops" junk "[]"] Cons.prems by auto
  then show ?case using Cons.IH [OF c(1)] by (simp add: split_def comp_def mk_def)
qed simp

lemma free_last_length: "length (free_last ops) \<le> length ops + length (all_uses ops)"
proof (induction ops)
  case (Cons op ops)
  have "length (remdups (filter P us)) \<le> length us" for P and us :: "uuid list"
    by (meson length_filter_le length_remdups_leq order_trans)
  from add_mono [OF this [of "\<lambda>u. u \<notin> set (all_uses ops)" "used_tensors op"] Cons.IH]
  show ?case by simp
qed simp

subsection \<open>The solver on a module\<close>

lemma lookup_put:
  "lookup_graph (put_graph s new m) t =
     (if s = t \<and> lookup_graph m s \<noteq> None then Some new else lookup_graph m t)"
  by (induction m) (auto split: option.splits item.splits)

lemma put_graph_commute: "s \<noteq> t \<Longrightarrow> put_graph s a (put_graph t b m) = put_graph t b (put_graph s a m)"
  by (induction m) (auto simp: lookup_put split: option.splits item.splits)

fun put_graphs :: "(string \<times> node list) list \<Rightarrow> item list \<Rightarrow> item list" where
  "put_graphs [] m = m"
| "put_graphs ((s, nds) # gs) m = put_graphs gs (put_graph s nds m)"

lemma put_graphs_append: "put_graphs (gs1 @ gs2) m = put_graphs gs2 (put_graphs gs1 m)"
  by (induction gs1 arbitrary: m) auto

lemma put_graphs_commute:
  "s \<notin> fst ` set gs \<Longrightarrow> put_graphs gs (put_graph s a m) = put_graph s a (put_graphs gs m)"
proof (induction gs arbitrary: m)
  case (Cons g gs)
  obtain t b where g: "g = (t, b)" by fastforce
  then have "t \<noteq> s" using Cons.prems by auto
  then show ?case using Cons g by (simp add: put_graph_commute [of t s])
qed simp

lemma lookup_put_graphs:
  "t \<notin> fst ` set gs \<Longrightarrow> lookup_graph (put_graphs gs m) t = lookup_graph m t"
  by (induction gs arbitrary: m) (auto simp: lookup_put)

definition holds_graphs :: "item list \<Rightarrow> (string \<times> node list) list \<Rightarrow> bool" where
  "holds_graphs m gs \<longleftrightarrow> (\<forall>g \<in> set gs. lookup_graph m (fst g) = Some (snd g))"

lemma holds_graphs_simps:
  "holds_graphs m [] \<longleftrightarrow> True"
  "holds_graphs m (g # gs) \<longleftrightarrow> lookup_graph m (fst g) = Some (snd g) \<and> holds_graphs m gs"
  "holds_graphs m (gs1 @ gs2) \<longleftrightarrow> holds_graphs m gs1 \<and> holds_graphs m gs2"
  by (auto simp: holds_graphs_def)

lemma index_traced:
  "traced junk es nds gs regs \<Longrightarrow> holds_graphs m gs \<Longrightarrow>
     index_tensors m (nds @ rest) cnt = index_tensors m rest (fold count_use (all_uses (concat (map event_ops es))) cnt)"
proof (induction arbitrary: rest cnt rule: traced.induct)
  case traced_nil
  then show ?case by simp
next
  case (traced_op es nds gs regs params a ins outs)
  then show ?case by (subst index_tensors.simps) (simp add: mk_def)
next
  case (traced_module evs body gs1 regs1 es nds gs2 regs2 k ins outs name)
  have "index_tensors m [mk junk (ReturnOp outs)] c = Some (Inr c)" for c
    by (subst index_tensors.simps) (simp add: mk_def index_tensors.simps)
  then show ?case
    using traced_module.IH traced_module.prems
    by (subst index_tensors.simps) (simp add: mk_def holds_graphs_simps)
qed

lemma bind_some: "Option.bind r (\<lambda>x. Some (f x)) = map_option f r"
  by (cases r) simp_all

lemma before_rest_compose: "before_rest xs (before_rest ys r) = before_rest (xs @ ys) r"
  by (cases r) (auto simp: before_rest_def)

lemma before_rest_nil [simp]: "before_rest [] r = r" "map_option (before_rest []) s = s"
proof -
  show "before_rest [] r = r" for r by (cases r) (auto simp: before_rest_def)
  then show "map_option (before_rest []) s = s" by (cases s) simp_all
qed

lemma free_inputs_nodes:
  "\<exists>vs. fst (free_inputs junk us cnt frees) = map (\<lambda>u. mk junk (TensorFree u)) vs @ frees"
proof (induction us arbitrary: cnt frees)
  case (Cons u us)
  show ?case
  proof (cases "cnt u")
    case None
    then show ?thesis using Cons.IH by simp
  next
    case (Some k)
    obtain vs where "fst (free_inputs junk us (cnt(u \<mapsto> k - 1))
        (if k - 1 = 0 then mk junk (TensorFree u) # frees else frees)) =
      map (\<lambda>u. mk junk (TensorFree u)) vs @ (if k - 1 = 0 then mk junk (TensorFree u) # frees else frees)"
      using Cons.IH by blast
    then show ?thesis
      using Some by (intro exI [of _ "if k - 1 = 0 then vs @ [u] else vs"]) simp
  qed
qed simp

lemma call_tree_frees:
  "call_tree junk es ks nds gs \<Longrightarrow>
     call_tree junk es (map TensorFree us @ ks) (map (\<lambda>u. mk junk (TensorFree u)) us @ nds) gs"
  by (induction us) (auto intro: call_tree_free)

definition inserts_to ::
  "junk_device \<Rightarrow> (string \<times> node list) list \<Rightarrow> node list \<Rightarrow> use_count \<Rightarrow>
     (string \<times> node list) list \<Rightarrow> node list \<Rightarrow> use_count \<Rightarrow> bool" where
  "inserts_to junk gs nds cnt gs1 nds1 cnt1 \<longleftrightarrow>
     (\<forall>m rest. holds_graphs m gs \<longrightarrow> insert_frees junk m (nds @ rest) cnt =
        map_option (before_rest nds1) (insert_frees junk (put_graphs gs1 m) rest cnt1))"

lemma insert_return:
  "insert_frees junk m [mk junk (ReturnOp outs)] c = Some (Inr ([mk junk (ReturnOp outs)], m, c))"
  by (subst insert_frees.simps) (simp add: mk_def insert_frees.simps before_rest_def)

lemma insert_traced:
  assumes "traced junk es nds gs regs" "distinct (map fst gs)"
  shows "\<exists>gs1 nds1. call_tree junk es (fst (solve_ops junk (concat (map event_ops es)) cnt)) nds1 gs1 \<and>
    map fst gs1 = map fst gs \<and>
    inserts_to junk gs nds cnt gs1 nds1 (snd (solve_ops junk (concat (map event_ops es)) cnt))"
  using assms
proof (induction arbitrary: cnt rule: traced.induct)
  case traced_nil
  then show ?case
    by (intro exI [of _ "[]"]) (simp add: inserts_to_def call_tree_nil)
next
  case (traced_op es nds gs regs params a ins outs)
  let ?ops = "concat (map event_ops es)"
  obtain frees cnt1 where f: "free_inputs junk ins cnt [] = (frees, cnt1)" by fastforce
  obtain vs where vs: "frees = map (\<lambda>u. mk junk (TensorFree u)) vs"
    using free_inputs_nodes [of junk ins cnt "[]"] f by auto
  obtain gs1 nds1 where IH: "call_tree junk es (fst (solve_ops junk ?ops cnt1)) nds1 gs1"
      "map fst gs1 = map fst gs" "inserts_to junk gs nds cnt1 gs1 nds1 (snd (solve_ops junk ?ops cnt1))"
    using traced_op by blast
  let ?nd = "(mk junk (Linalg a ins outs))\<lparr>n_device := aop_device a\<rparr>"
  have nd: "n_op ?nd = Linalg a ins outs" by (simp add: mk_def)
  have solved: "fst (solve_ops junk (Linalg a ins outs # ?ops) cnt) =
      Linalg a ins outs # map TensorFree vs @ fst (solve_ops junk ?ops cnt1)"
    by (simp add: f vs split_def Let_def comp_def mk_def)
  have "call_tree junk (OpEvent params a ins outs # es)
      (fst (solve_ops junk (Linalg a ins outs # ?ops) cnt)) (?nd # frees @ nds1) gs1"
    using call_tree_op [OF call_tree_frees [OF IH(1), of vs] nd] vs by (simp only: solved append.assoc)
  moreover have "inserts_to junk gs (?nd # nds) cnt gs1 (?nd # frees @ nds1)
      (snd (solve_ops junk (Linalg a ins outs # ?ops) cnt))"
    using IH(3) unfolding inserts_to_def
    by (intro allI impI, subst insert_frees.simps)
      (simp add: nd f bind_some option.map_comp comp_def before_rest_compose split_def Let_def)
  ultimately show ?case using IH(2) by (intro exI [of _ gs1] exI [of _ "?nd # frees @ nds1"]) simp
next
  case (traced_module evs body gs1 regs1 es nds gs2 regs2 k ins outs name)
  let ?ops1 = "concat (map event_ops evs)" and ?ops2 = "concat (map event_ops es)"
  let ?cnt1 = "snd (solve_ops junk ?ops1 cnt)"
  have d: "distinct (map fst gs1)" "distinct (map fst gs2)" using traced_module.prems by simp_all
  obtain hs1 body1 where 1: "call_tree junk evs (fst (solve_ops junk ?ops1 cnt)) body1 hs1"
      "map fst hs1 = map fst gs1" "inserts_to junk gs1 body cnt hs1 body1 ?cnt1"
    using traced_module.IH(1) [OF d(1)] by blast
  obtain hs2 nds1 where 2: "call_tree junk es (fst (solve_ops junk ?ops2 ?cnt1)) nds1 hs2"
      "map fst hs2 = map fst gs2" "inserts_to junk gs2 nds ?cnt1 hs2 nds1 (snd (solve_ops junk ?ops2 ?cnt1))"
    using traced_module.IH(2) [OF d(2)] by blast
  let ?ret = "mk junk (ReturnOp outs)" and ?call = "mk junk (CallGraph name ins outs)"
  let ?B = "body1 @ [?ret]"
  have call: "called_graph (n_op ?call) = Some name" by (simp add: mk_def)
  have fresh: "name \<notin> fst ` set hs1" "name \<notin> fst ` set gs2" "fst ` set hs1 \<inter> fst ` set gs2 = {}"
    using traced_module.prems 1(2) by (auto simp flip: set_map)
  have "insert_frees junk m (?call # nds @ rest) cnt =
      map_option (before_rest (?call # nds1))
        (insert_frees junk (put_graphs hs2 (put_graphs hs1 (put_graph name ?B m))) rest
          (snd (solve_ops junk ?ops2 ?cnt1)))"
    if m: "holds_graphs m ((name, body @ [?ret]) # gs1 @ gs2)" for m rest
  proof -
    let ?m1 = "put_graph name ?B (put_graphs hs1 m)"
    have "insert_frees junk m (body @ [?ret]) cnt = Some (Inr (?B, put_graphs hs1 m, ?cnt1))"
      using 1(3) m by (simp add: inserts_to_def holds_graphs_simps insert_return before_rest_def)
    moreover have "lookup_graph ?m1 (fst g) = lookup_graph m (fst g)" if "g \<in> set gs2" for g
    proof -
      have "fst g \<noteq> name" "fst g \<notin> fst ` set hs1" using fresh that by auto
      then show ?thesis by (simp add: lookup_put lookup_put_graphs)
    qed
    then have "holds_graphs ?m1 gs2" using m by (simp add: holds_graphs_def)
    ultimately show ?thesis
      using m call 2(3) put_graphs_commute [OF fresh(1), of ?B m]
      by (subst insert_frees.simps)
        (simp add: inserts_to_def holds_graphs_simps bind_some option.map_comp comp_def before_rest_compose)
  qed
  moreover have "map fst ((name, ?B) # hs1 @ hs2) = map fst ((name, body @ [?ret]) # gs1 @ gs2)"
    using 1(2) 2(2) by simp
  ultimately show ?case
    using call_tree_module [OF 1(1) 2(1)]
    by (intro exI [of _ "(name, ?B) # hs1 @ hs2"] exI [of _ "?call # nds1"])
      (simp add: inserts_to_def solve_ops_append put_graphs_append)
qed

text \<open>Solving the module of a trace.\<close>

lemma lookup_graph_append:
  "lookup_graph (m1 @ m2) s = (case lookup_graph m2 s of Some nds \<Rightarrow> Some nds | None \<Rightarrow> lookup_graph m1 s)"
  by (induction m1) (auto split: option.split)

lemma lookup_graphs: "distinct (map fst gs) \<Longrightarrow> lookup_graph (map (case_prod SubGraph) gs) s = map_of gs s"
  by (induction gs) (auto split: option.split simp: rev_image_eqI dest!: map_of_SomeD)

lemma put_graph_middle:
  "lookup_graph post s = None \<Longrightarrow>
     put_graph s new (pre @ SubGraph s old # post) = pre @ SubGraph s new # post"
  by (induction pre) (auto simp: lookup_graph_append split: option.split)

lemma lookup_graphs_other:
  "lookup_graph post s = None \<Longrightarrow> s \<notin> fst ` set gs \<Longrightarrow> lookup_graph (map (case_prod SubGraph) gs @ post) s = None"
  by (induction gs) (auto simp: lookup_graph_append split: option.split)

lemma put_graphs_middle:
  "map fst gs1 = map fst gs \<Longrightarrow> distinct (map fst gs) \<Longrightarrow> (\<And>s. s \<in> fst ` set gs \<Longrightarrow> lookup_graph post s = None) \<Longrightarrow>
     put_graphs gs1 (pre @ map (case_prod SubGraph) gs @ post) = pre @ map (case_prod SubGraph) gs1 @ post"
proof (induction gs1 arbitrary: gs pre)
  case (Cons g1 gs1)
  obtain s new where g1: "g1 = (s, new)" by fastforce
  obtain old gs2 where gs: "gs = (s, old) # gs2" "map fst gs1 = map fst gs2"
    using Cons.prems(1) g1 by (cases gs) auto
  have "lookup_graph (map (case_prod SubGraph) gs2 @ post) s = None"
    using Cons.prems(2,3) gs by (intro lookup_graphs_other) auto
  from put_graph_middle [OF this, of new pre old]
  have "put_graphs (g1 # gs1) (pre @ map (case_prod SubGraph) gs @ post) =
      put_graphs gs1 ((pre @ [SubGraph s new]) @ map (case_prod SubGraph) gs2 @ post)"
    by (simp add: g1 gs)
  also have "\<dots> = (pre @ [SubGraph s new]) @ map (case_prod SubGraph) gs1 @ post"
    by (rule Cons.IH) (use Cons.prems gs in auto)
  finally show ?case by (simp add: g1)
qed simp

lemma plain_special: "plain_names graphs \<Longrightarrow> s \<in> fst ` set graphs \<Longrightarrow> s \<notin> set special_graphs"
  by (auto simp: plain_names_def list_all_iff)

lemma module_graphs:
  assumes "plain_names graphs"
  shows "holds_graphs (module_of regs call graphs tab) graphs"
    and "map fst gs1 = map fst graphs \<Longrightarrow>
      put_graphs gs1 (module_of regs call graphs tab) = module_of regs call gs1 tab"
proof -
  let ?pre = "[SubGraph ''init'' regs, SubGraph ''deinit'' [], TopOp call]"
  let ?post = "[SubGraph ''op_symbol_table'' tab]"
  have m: "module_of regs call gs tab = ?pre @ map (case_prod SubGraph) gs @ ?post" for gs
    by (simp add: module_of_def)
  have d: "distinct (map fst graphs)" using assms by (simp add: plain_names_def)
  have post: "lookup_graph ?post s = None" if "s \<in> fst ` set graphs" for s
    using plain_special [OF assms that] by (simp add: special_graphs_def)
  show "holds_graphs (module_of regs call graphs tab) graphs"
    unfolding holds_graphs_def m
  proof
    fix g assume g: "g \<in> set graphs"
    then have "map_of graphs (fst g) = Some (snd g)" using d by simp
    then show "lookup_graph (?pre @ map (case_prod SubGraph) graphs @ ?post) (fst g) = Some (snd g)"
      using post [of "fst g"] g
      by (simp only: lookup_graph_append lookup_graphs [OF d]) (simp del: lookup_graph.simps)
  qed
  show "put_graphs gs1 (module_of regs call graphs tab) = module_of regs call gs1 tab"
    if "map fst gs1 = map fst graphs"
    unfolding m by (rule put_graphs_middle [OF that d post])
qed

lemma find_call_module: "n_op call = CallGraph root ins outs \<Longrightarrow> find_call (module_of regs call graphs tab) = Some root"
  by (simp add: find_call_def module_of_def top_calls del: concat_eq_Nil_conv map_map)

lemma solve_memory_call:
  assumes call: "n_op call = CallGraph s ins outs" and m: "find_call m = Some s"
    and index: "index_tensors m [call] Map.empty = Some (Inr cnt)"
    and insert: "insert_frees junk m [call] cnt = Some (Inr (nds, m1, cnt1))"
  shows "solve_memory junk m = Some (Inr m1) \<and> nds = [call]"
proof -
  have c: "called_graph (n_op call) = Some s" by (simp add: call)
  obtain root where root: "lookup_graph m s = Some root"
    using index by (subst (asm) index_tensors.simps) (auto simp: c split: option.splits)
  have "index_tensors m root Map.empty = Some (Inr cnt)"
    using index
    by (subst (asm) index_tensors.simps, cases "index_tensors m root Map.empty")
      (auto simp: c root index_tensors.simps [of m "[]"] split: sum.splits)
  moreover obtain root1 m2 where "insert_frees junk m root cnt = Some (Inr (root1, m2, cnt1))"
      "nds = [call]" "m1 = put_graph s root1 m2"
    using insert unfolding insert_frees.simps [of junk m "[call]" cnt]
    by (cases "insert_frees junk m root cnt")
      (auto simp: c root insert_frees.simps [of junk _ "[]"] before_rest_def split: sum.splits)
  ultimately show ?thesis using m root by (simp add: solve_memory_def)
qed

lemma solve_traced:
  assumes t: "traced junk [ModuleEvent k ins evs outs] [call] graphs regs"
    and call: "n_op call = CallGraph root ins outs" and names: "plain_names graphs"
  shows "\<exists>gs1. solve_memory junk (module_of regs call graphs tab) = Some (Inr (module_of regs call gs1 tab)) \<and>
    map fst gs1 = map fst graphs \<and>
    call_tree junk [ModuleEvent k ins evs outs] (free_last (event_ops (ModuleEvent k ins evs outs))) [call] gs1"
proof -
  let ?m = "module_of regs call graphs tab" and ?e = "ModuleEvent k ins evs outs"
  define ops where "ops = event_ops ?e"
  define cnt where "cnt = fold count_use (all_uses ops) Map.empty"
  have ops: "concat (map event_ops [?e]) = ops" by (simp add: ops_def)
  note holds = module_graphs(1) [OF names, of regs call tab]
  have index: "index_tensors ?m [call] Map.empty = Some (Inr cnt)"
    using index_traced [OF t holds, of "[]" Map.empty]
    by (simp add: cnt_def index_tensors.simps [of ?m "[]"] ops del: concat.simps list.map)
  obtain gs1 nds1 where i: "call_tree junk [?e] (fst (solve_ops junk ops cnt)) nds1 gs1"
      "map fst gs1 = map fst graphs" "inserts_to junk graphs [call] cnt gs1 nds1 (snd (solve_ops junk ops cnt))"
    using insert_traced [OF t, of cnt] names unfolding ops plain_names_def by blast
  have "insert_frees junk ?m [call] cnt =
      Some (Inr (nds1, put_graphs gs1 ?m, snd (solve_ops junk ops cnt)))"
    using i(3) holds by (simp add: inserts_to_def insert_frees.simps [of junk _ "[]"] before_rest_def)
  from solve_memory_call [OF call find_call_module [OF call] index this] i(2)
  have "solve_memory junk ?m = Some (Inr (module_of regs call gs1 tab))" "nds1 = [call]"
    by (simp_all add: module_graphs(2) [OF names])
  moreover have "tracks cnt (all_uses ops)"
    using count_uses_tracks [of Map.empty "[]" "all_uses ops"] by (simp add: cnt_def tracks_def remaining_def)
  then have "fst (solve_ops junk ops cnt) = free_last ops" by (rule solve_ops_free_last)
  ultimately show ?thesis using i(1,2) by (auto simp: ops_def)
qed

end
