(* ===== verification/Compiled_Trace.thy ===== *)
theory Compiled_Trace
  imports Memory_Solver
begin

text \<open>
  The compiler from end to end: a module is traced, canonicalized, lowered, written, loaded and run.
  \<open>compiled_trace_runs\<close> says that the run does the operations of the trace in order, with the frees of
  the memory solver; \<open>solver_keeps_results\<close> that the frees change no result if no output of the program
  is read by an operation, and \<open>read_output_is_lost\<close> that such an output comes back null.
\<close>

subsection \<open>What an operation reads\<close>

definition read_tensor :: "('op, 'd) tensor_store \<Rightarrow> uuid \<Rightarrow> 'd rt_tensor" where
  "read_tensor t u = (case uuid_2_tensor t u of Some x \<Rightarrow> x | None \<Rightarrow> NilTensor)"

text \<open>All of the store but its tensors.\<close>

definition visible :: "('op, 'd) tensor_store \<Rightarrow> ('op, 'd) tensor_store" where
  "visible t = t\<lparr>uuid_2_tensor := Map.empty\<rparr>"

definition agree :: "uuid set \<Rightarrow> ('op, 'd) tensor_store \<Rightarrow> ('op, 'd) tensor_store \<Rightarrow> bool" where
  "agree X t1 t2 \<longleftrightarrow> visible t1 = visible t2 \<and> (\<forall>u \<in> X. read_tensor t1 u = read_tensor t2 u)"

lemma agree_refl [simp]: "agree X t t"
  by (simp add: agree_def)

lemma agree_mono: "agree X t1 t2 \<Longrightarrow> Y \<subseteq> X \<Longrightarrow> agree Y t1 t2"
  by (auto simp: agree_def)

lemma visible_fields:
  "visible t1 = visible t2 \<Longrightarrow> global_inputs t1 = global_inputs t2"
  "visible t1 = visible t2 \<Longrightarrow> global_outputs t1 = global_outputs t2"
  "visible t1 = visible t2 \<Longrightarrow> in_program_2_uuid t1 = in_program_2_uuid t2"
  "visible t1 = visible t2 \<Longrightarrow> uuid_2_in_program t1 = uuid_2_in_program t2"
  "visible t1 = visible t2 \<Longrightarrow> op_objects t1 = op_objects t2"
  by (cases t1; cases t2; simp add: visible_def)+

lemma visible_iff:
  "visible t1 = visible t2 \<longleftrightarrow> global_inputs t1 = global_inputs t2 \<and> global_outputs t1 = global_outputs t2 \<and>
     in_program_2_uuid t1 = in_program_2_uuid t2 \<and> uuid_2_in_program t1 = uuid_2_in_program t2 \<and>
     op_objects t1 = op_objects t2"
  by (cases t1; cases t2; auto simp: visible_def)

definition agree_outcome ::
  "uuid set \<Rightarrow> ('op, 'd) tensor_store outcome \<Rightarrow> ('op, 'd) tensor_store outcome \<Rightarrow> bool" where
  "agree_outcome X r1 r2 = rel_sum (=) (agree X) r1 r2"

lemma agree_outcome_simps [simp]:
  "agree_outcome X (Inl f) r \<longleftrightarrow> r = Inl f"
  "agree_outcome X (Inr t1) (Inr t2) \<longleftrightarrow> agree X t1 t2"
  by (auto simp: agree_outcome_def rel_sum.simps)

lemma get_tensors_reads:
  "get_tensors us t = (ts, t1) \<Longrightarrow>
     ts = map (read_tensor t) us \<and> visible t1 = visible t \<and> read_tensor t1 = read_tensor t"
proof (induction us arbitrary: t ts t1)
  case (Cons u us)
  obtain x s1 where x: "get_tensor u t = (x, s1)" by fastforce
  have s1: "x = read_tensor t u" "visible s1 = visible t" "read_tensor s1 = read_tensor t"
    using x by (auto simp: get_tensor_def read_tensor_def visible_def fun_eq_iff split: option.splits if_splits)
  show ?case using Cons.IH [of s1] Cons.prems x s1 by (auto split: prod.splits)
qed simp

lemma get_tensors_agree:
  assumes "agree X t1 t2" "set us \<subseteq> X"
  shows "fst (get_tensors us t1) = fst (get_tensors us t2)"
    "agree X (snd (get_tensors us t1)) (snd (get_tensors us t2))"
proof -
  obtain xs s1 ys s2 where g: "get_tensors us t1 = (xs, s1)" "get_tensors us t2 = (ys, s2)" by fastforce
  note r = get_tensors_reads [OF g(1)] get_tensors_reads [OF g(2)]
  have "map (read_tensor t1) us = map (read_tensor t2) us" using assms by (auto simp: agree_def)
  then show "fst (get_tensors us t1) = fst (get_tensors us t2)" using r g by simp
  show "agree X (snd (get_tensors us t1)) (snd (get_tensors us t2))"
    using r g assms(1) by (simp add: agree_def)
qed

lemma register_outputs_agree:
  "agree X t1 t2 \<Longrightarrow> agree_outcome X (register_outputs us ts t1) (register_outputs us ts t2)"
proof (induction us ts t1 arbitrary: t2 rule: register_outputs.induct)
  case (3 u us t ts s)
  show ?case
  proof (cases "rt_uuid t")
    case (Inr v)
    let ?f = "\<lambda>s. s\<lparr>uuid_2_tensor := (uuid_2_tensor s)(u \<mapsto> t),
      in_program_2_uuid := (in_program_2_uuid s)(u \<mapsto> v), uuid_2_in_program := (uuid_2_in_program s)(v \<mapsto> u)\<rparr>"
    have "agree X (?f s) (?f t2)"
      using 3(2) by (auto simp: agree_def visible_iff read_tensor_def)
    then show ?thesis using 3(1) Inr by simp
  qed simp
qed auto

lemma kernel_launch_agree:
  assumes a: "agree X t1 t2" "set ins \<subseteq> X"
  shows "agree_outcome X (kernel_launch submit p ins outs dev t1) (kernel_launch submit p ins outs dev t2)"
proof -
  obtain xs s1 s2 where g: "get_tensors ins t1 = (xs, s1)" "get_tensors ins t2 = (xs, s2)" "agree X s1 s2"
    using get_tensors_agree [OF a] by (metis prod.collapse)
  have obj: "object_at p s1 = object_at p s2"
    using g(3) by (simp add: object_at_def agree_def visible_iff split: option.split)
  have set: "agree X (set_object p op s1) (set_object p op s2)" for op
    using g(3) by (auto simp: set_object_def agree_def visible_iff read_tensor_def split: option.split)
  show ?thesis
  proof (cases "object_at p s2")
    case (Inr op)
    then show ?thesis
      using register_outputs_agree [OF set]
      by (cases "submit dev op xs") (auto simp: kernel_launch_def g obj)
  qed (simp add: kernel_launch_def g obj)
qed

lemma bind_input_agree:
  "agree X t1 t2 \<Longrightarrow> agree_outcome X (bind_input pos u t1) (bind_input pos u t2)"
proof -
  assume a: "agree X t1 t2"
  have i: "global_inputs t1 = global_inputs t2" using a by (simp add: agree_def visible_iff)
  show ?thesis
  proof (cases "vec_at (global_inputs t2) pos")
    case (Inr x)
    then show ?thesis using a i
      by (cases "rt_uuid x") (auto simp: bind_input_def agree_def visible_iff read_tensor_def)
  qed (simp add: bind_input_def i)
qed

lemma bind_output_agree:
  assumes a: "agree X t1 t2" "word_of_int u \<in> X"
  shows "agree_outcome X (bind_output pos u t1) (bind_output pos u t2)"
proof -
  obtain x s1 s2 where g: "get_tensor (word_of_int u) t1 = (x, s1)" "get_tensor (word_of_int u) t2 = (x, s2)"
      "agree X s1 s2"
    using get_tensors_agree [OF a(1), of "[word_of_int u]"] a(2)
    by (auto simp: split_def Let_def) (metis prod.collapse)
  have o1: "global_outputs t1 = global_outputs t2" using a(1) by (simp add: agree_def visible_iff)
  show ?thesis
  proof (cases "grow_outputs pos (global_outputs t2)")
    case (Inr outs)
    then show ?thesis using g o1
      by (cases "vec_set outs pos x") (auto simp: bind_output_def agree_def visible_iff read_tensor_def)
  qed (simp add: bind_output_def o1)
qed

subsection \<open>Freeing what is not read again\<close>

fun act_reads :: "act \<Rightarrow> uuid list" where
  "act_reads (ALaunch p ins outs dev) = ins"
| "act_reads (AFree us) = []"
| "act_reads (ABind pos u kInput) = []"
| "act_reads (ABind pos u kOutput) = [word_of_int u]"

fun is_free :: "act \<Rightarrow> bool" where
  "is_free (AFree us) \<longleftrightarrow> True"
| "is_free k \<longleftrightarrow> False"

fun freed_safely :: "act list \<Rightarrow> bool" where
  "freed_safely [] \<longleftrightarrow> True"
| "freed_safely (AFree us # ks) \<longleftrightarrow> set us \<inter> set (concat (map act_reads ks)) = {} \<and> freed_safely ks"
| "freed_safely (k # ks) \<longleftrightarrow> freed_safely ks"

lemma agree_obind:
  assumes "agree_outcome X r1 r2" "\<And>s1 s2. agree X s1 s2 \<Longrightarrow> agree_outcome Y (f s1) (g s2)"
  shows "agree_outcome Y (obind r1 f) (obind r2 g)"
  using assms by (cases r1; cases r2) (auto simp: agree_outcome_def)

lemma do_act_agree:
  "agree X t1 t2 \<Longrightarrow> set (act_reads k) \<subseteq> X \<Longrightarrow> \<not> is_free k \<Longrightarrow>
     agree_outcome X (do_act submit k t1) (do_act submit k t2)"
  by (cases k rule: act_reads.cases) (simp_all add: kernel_launch_agree bind_input_agree bind_output_agree)

lemma agree_freed: "agree X t1 t2 \<Longrightarrow> agree (X - set us) (free_tensors us t1) t2"
  by (auto simp: agree_def free_tensors_def visible_iff read_tensor_def restrict_map_def)

lemma frees_agree:
  "freed_safely ks \<Longrightarrow> agree (set (concat (map act_reads ks))) t1 t2 \<Longrightarrow>
     agree_outcome {} (ofold (do_act submit) ks t1) (ofold (do_act submit) (filter (\<lambda>k. \<not> is_free k) ks) t2)"
proof (induction ks arbitrary: t1 t2)
  case Nil
  then show ?case by simp
next
  case (Cons k ks)
  let ?R = "set (concat (map act_reads ks))"
  show ?case
  proof (cases "is_free k")
    case True
    then obtain us where k: "k = AFree us" by (cases k) auto
    have "agree (?R - set us) (free_tensors us t1) t2"
      using agree_freed Cons.prems(2) k by fastforce
    moreover have "?R - set us = ?R" using Cons.prems(1) k by auto
    ultimately show ?thesis using Cons.IH Cons.prems(1) k by simp
  next
    case False
    have sub: "set (act_reads k) \<subseteq> set (concat (map act_reads (k # ks)))" "?R \<subseteq> set (concat (map act_reads (k # ks)))"
      by auto
    have safe: "freed_safely ks" using Cons.prems(1) False by (cases k) auto
    have "agree_outcome {} (obind (do_act submit k t1) (ofold (do_act submit) ks))
        (obind (do_act submit k t2) (ofold (do_act submit) (filter (\<lambda>k. \<not> is_free k) ks)))"
      by (rule agree_obind [OF do_act_agree [OF Cons.prems(2) sub(1) False]])
        (rule Cons.IH [OF safe agree_mono [OF _ sub(2)]])
    then show ?thesis using False by simp
  qed
qed

text \<open>The frees of the solver are safe, and without them the acts are those of the trace.\<close>

definition all_linalg :: "ir_op list \<Rightarrow> bool" where
  "all_linalg ops \<longleftrightarrow> list_all (\<lambda>op. case op of Linalg a ins outs \<Rightarrow> True | _ \<Rightarrow> False) ops"

lemma all_linalg_Cons: "all_linalg (op # ops) \<longleftrightarrow> (\<exists>a ins outs. op = Linalg a ins outs) \<and> all_linalg ops"
  by (cases op) (auto simp: all_linalg_def)

lemma event_ops_linalg: "all_linalg (event_ops e)"
proof (induction e)
  case (ModuleEvent m ins evs outs)
  then show ?case by (induction evs) (simp_all add: all_linalg_def)
qed (simp add: all_linalg_def)

lemma acts_of_frees:
  "list_all2 (act_of P junk) (map TensorFree us @ ops) acts \<longleftrightarrow>
     (\<exists>acts1. acts = map (\<lambda>u. AFree [u]) us @ acts1 \<and> list_all2 (act_of P junk) ops acts1)"
  by (induction us arbitrary: acts) (auto simp: list_all2_Cons1)

lemma free_acts:
  "filter (\<lambda>k. \<not> is_free k) (map (\<lambda>u. AFree [u]) us @ ks) = filter (\<lambda>k. \<not> is_free k) ks"
  "concat (map act_reads (map (\<lambda>u. AFree [u]) us @ ks)) = concat (map act_reads ks)"
  "freed_safely (map (\<lambda>u. AFree [u]) us @ ks) \<longleftrightarrow>
     set us \<inter> set (concat (map act_reads ks)) = {} \<and> freed_safely ks"
  by (induction us) auto

lemma free_last_acts:
  assumes "all_linalg ops" "list_all2 (act_of P junk) (free_last ops) acts"
    and "freed_safely tail" "set (concat (map act_reads tail)) \<inter> set (all_uses ops) = {}"
  shows "list_all2 (act_of P junk) ops (filter (\<lambda>k. \<not> is_free k) acts)"
    and "concat (map act_reads acts) = all_uses ops"
    and "freed_safely (acts @ tail)"
proof -
  have "list_all2 (act_of P junk) ops (filter (\<lambda>k. \<not> is_free k) acts) \<and>
      concat (map act_reads acts) = all_uses ops \<and> freed_safely (acts @ tail)"
    using assms(1,2,4)
  proof (induction ops arbitrary: acts)
    case Nil
    then show ?case using assms(3) by simp
  next
    case (Cons op ops)
    let ?us = "rev (remdups (filter (\<lambda>u. u \<notin> set (all_uses ops)) (used_tensors op)))"
    obtain a ins outs where op: "op = Linalg a ins outs" using Cons.prems(1) by (auto simp: all_linalg_Cons)
    obtain k acts1 where k: "act_of P junk op k" "acts = k # map (\<lambda>u. AFree [u]) ?us @ acts1"
        "list_all2 (act_of P junk) (free_last ops) acts1"
      using Cons.prems(2) by (auto simp: list_all2_Cons1 acts_of_frees simp del: act_of.simps)
    have IH: "list_all2 (act_of P junk) ops (filter (\<lambda>k. \<not> is_free k) acts1)"
      "concat (map act_reads acts1) = all_uses ops" "freed_safely (acts1 @ tail)"
      using Cons.IH [OF _ k(3)] Cons.prems(1,3) by (simp_all add: all_linalg_Cons Int_Un_distrib)
    obtain p where p: "k = ALaunch p ins outs (str2DeviceType (deviceTypes2Str (junk (lowered_op op))))"
      using k(1) op by auto
    have "set ?us \<inter> set (concat (map act_reads (acts1 @ tail))) = {}"
      using Cons.prems(3) IH(2) op by (auto simp del: set_concat)
    then show ?case
      using IH k(1) p by (simp add: k(2) free_acts op del: act_of.simps set_concat map_append concat_append
          set_rev set_remdups set_filter)
  qed
  then show "list_all2 (act_of P junk) ops (filter (\<lambda>k. \<not> is_free k) acts)"
    "concat (map act_reads acts) = all_uses ops" "freed_safely (acts @ tail)" by simp_all
qed

lemma bind_acts_reads:
  "concat (map act_reads (bind_acts kInput i us)) = []"
  "concat (map act_reads (bind_acts kOutput i us)) = us"
  "filter (\<lambda>k. \<not> is_free k) (bind_acts bt i us) = bind_acts bt i us"
  by (induction us arbitrary: i) simp_all

lemma freed_safely_binds:
  "freed_safely (bind_acts kInput i us @ ks) = freed_safely ks"
  "list_all (\<lambda>k. \<not> is_free k) ks \<Longrightarrow> freed_safely ks"
proof -
  show "freed_safely (bind_acts kInput i us @ ks) = freed_safely ks"
    by (induction us arbitrary: i) simp_all
  show "list_all (\<lambda>k. \<not> is_free k) ks \<Longrightarrow> freed_safely ks"
    by (induction ks rule: freed_safely.induct) auto
qed


lemma binds_not_free: "list_all (\<lambda>k. \<not> is_free k) (bind_acts bt i us)"
  by (induction us arbitrary: i) simp_all

lemma bound_outputs_safe:
  "freed_safely (rev (bind_acts kOutput 0 outs))"
  "set (concat (map act_reads (rev (bind_acts kOutput 0 outs)))) = set outs"
  "filter (\<lambda>k. \<not> is_free k) (rev (bind_acts kOutput 0 outs)) = rev (bind_acts kOutput 0 outs)"
proof -
  have "list_all (\<lambda>k. \<not> is_free k) (rev (bind_acts kOutput 0 outs))"
    using binds_not_free by (simp only: list_all_rev)
  then show "freed_safely (rev (bind_acts kOutput 0 outs))" by (rule freed_safely_binds)
  have "set (concat (map act_reads (rev ks))) = set (concat (map act_reads ks))" for ks by simp
  then show "set (concat (map act_reads (rev (bind_acts kOutput 0 outs)))) = set outs"
    by (simp only: bind_acts_reads)
  show "filter (\<lambda>k. \<not> is_free k) (rev (bind_acts kOutput 0 outs)) = rev (bind_acts kOutput 0 outs)"
    by (simp only: rev_filter [symmetric] bind_acts_reads)
qed

text \<open>So the solved program computes what the trace computes.\<close>

lemma solved_run_agrees:
  assumes ops: "all_linalg ops" and acts: "list_all2 (act_of P junk) (free_last ops) acts"
    and outs: "set outs \<inter> set (all_uses ops) = {}"
  shows "agree_outcome {} (program_run submit ins acts outs inputs t)
    (program_run submit ins (filter (\<lambda>k. \<not> is_free k) acts) outs inputs t)"
    and "list_all2 (act_of P junk) ops (filter (\<lambda>k. \<not> is_free k) acts)"
proof -
  let ?tail = "rev (bind_acts kOutput 0 outs)"
  let ?ks = "bind_acts kInput 0 ins @ acts @ ?tail"
  have "set (concat (map act_reads ?tail)) \<inter> set (all_uses ops) = {}"
    using outs by (simp only: bound_outputs_safe)
  note f = free_last_acts [OF ops acts bound_outputs_safe(1) this]
  have "freed_safely ?ks" using f(3) by (simp add: freed_safely_binds)
  from frees_agree [OF this agree_refl]
  show "agree_outcome {} (program_run submit ins acts outs inputs t)
      (program_run submit ins (filter (\<lambda>k. \<not> is_free k) acts) outs inputs t)"
    by (simp add: program_run_def bind_acts_reads bound_outputs_safe)
  show "list_all2 (act_of P junk) ops (filter (\<lambda>k. \<not> is_free k) acts)" by (rule f)
qed

subsection \<open>What comes back\<close>

text \<open>Binding the outputs, from the last to the first, collects the tensors with these identifiers.\<close>

lemma vec_resize_nth: "i < length xs \<Longrightarrow> i < n \<Longrightarrow> vec_resize xs n ! i = xs ! i"
  by (simp add: vec_resize_def nth_append)

lemma bind_output_at:
  assumes "i < 2 ^ 31 - 1"
  shows "\<exists>t1. bind_output (to_i32 (int i)) (sint (u :: uuid)) t = Inr t1 \<and> read_tensor t1 = read_tensor t \<and>
    length (global_outputs t1) = max (length (global_outputs t)) (Suc i) \<and>
    global_outputs t1 ! i = read_tensor t u \<and>
    (\<forall>j < length (global_outputs t). j \<noteq> i \<longrightarrow> global_outputs t1 ! j = global_outputs t ! j)"
proof -
  have i: "to_i32 (int i) = int i" by (rule to_i32_id) (use assms in simp_all)
  have u: "u64 (int i) = int i" using assms by (simp add: u64_def)
  have n: "i32 (int i + 1) = Inr (int i + 1)" using assms by (simp add: i32_def)
  define outs where "outs = (if length (global_outputs t) \<le> i then vec_resize (global_outputs t) (Suc i)
      else global_outputs t)"
  have g: "grow_outputs (int i) (global_outputs t) = Inr outs"
    by (simp add: grow_outputs_def u n outs_def nat_add_distrib)
  have l: "length outs = max (length (global_outputs t)) (Suc i)"
    by (auto simp: outs_def vec_resize_def)
  have same: "outs ! j = global_outputs t ! j" if "j < length (global_outputs t)" for j
    using that by (simp add: outs_def vec_resize_nth)
  obtain x s1 where x: "get_tensor u t = (x, s1)" by fastforce
  have s1: "x = read_tensor t u" "read_tensor s1 = read_tensor t"
    using get_tensors_reads [of "[u]" t] x by simp_all
  have w: "word_of_int (sint u) = u" by simp
  have v: "vec_set outs (int i) x = Inr (outs[i := x])"
    using l by (simp add: vec_set_def)
  have "bind_output (to_i32 (int i)) (sint u) t = Inr (s1\<lparr>global_outputs := outs[i := x]\<rparr>)"
    by (simp add: bind_output_def i g x v)
  then show ?thesis
    using l same s1 by (intro exI [of _ "s1\<lparr>global_outputs := outs[i := x]\<rparr>"]) (auto simp: read_tensor_def fun_eq_iff)
qed

lemma bind_outputs_collect:
  "i + length outs < 2 ^ 31 \<Longrightarrow> \<exists>t1. ofold (do_act submit) (rev (bind_acts kOutput i outs)) t = Inr t1 \<and>
     read_tensor t1 = read_tensor t \<and>
     (outs \<noteq> [] \<longrightarrow> length (global_outputs t1) = max (length (global_outputs t)) (i + length outs)) \<and>
     (\<forall>j < length outs. global_outputs t1 ! (i + j) = read_tensor t (outs ! j))"
proof (induction outs arbitrary: i)
  case (Cons u us)
  obtain t1 where t1: "ofold (do_act submit) (rev (bind_acts kOutput (Suc i) us)) t = Inr t1"
      "read_tensor t1 = read_tensor t"
      "us \<noteq> [] \<Longrightarrow> length (global_outputs t1) = max (length (global_outputs t)) (Suc i + length us)"
      "\<And>j. j < length us \<Longrightarrow> global_outputs t1 ! (Suc i + j) = read_tensor t (us ! j)"
    using Cons.IH [of "Suc i"] Cons.prems by auto
  have "i < 2 ^ 31 - 1" using Cons.prems by simp
  from bind_output_at [OF this, of u t1]
  obtain t2 where t2: "bind_output (to_i32 (int i)) (sint u) t1 = Inr t2" "read_tensor t2 = read_tensor t1"
      "length (global_outputs t2) = max (length (global_outputs t1)) (Suc i)"
      "global_outputs t2 ! i = read_tensor t1 u"
      "\<And>j. j < length (global_outputs t1) \<Longrightarrow> j \<noteq> i \<Longrightarrow> global_outputs t2 ! j = global_outputs t1 ! j"
    by auto
  have nil: "t1 = t" if "us = []" using that t1(1) by simp
  have "global_outputs t2 ! (i + j) = read_tensor t ((u # us) ! j)" if j: "j < length (u # us)" for j
  proof (cases j)
    case 0
    then show ?thesis using t2(4) t1(2) by simp
  next
    case (Suc k)
    then have "us \<noteq> []" "k < length us" using j by auto
    then show ?thesis using t1(3) t1(4) [of k] t2(5) [of "i + j"] Suc by simp
  qed
  moreover have "length (global_outputs t2) = max (length (global_outputs t)) (i + length (u # us))"
    using t2(3) t1(3) nil by (cases "us = []") simp_all
  ultimately show ?case
    using t1(1,2) t2(1,2) by (intro exI [of _ t2]) (simp add: ofold_append)
qed simp

lemma program_run_outputs:
  assumes "program_run submit ins acts outs inputs t = Inr t1" "length outs < 2 ^ 31"
  shows "\<exists>t0. ofold (do_act submit) (bind_acts kInput 0 ins @ acts) (t\<lparr>global_inputs := inputs\<rparr>) = Inr t0 \<and>
    (\<forall>i < length outs. global_outputs t1 ! i = read_tensor t0 (outs ! i))"
proof -
  have r: "ofold (do_act submit) ((bind_acts kInput 0 ins @ acts) @ rev (bind_acts kOutput 0 outs))
      (t\<lparr>global_inputs := inputs\<rparr>) = Inr t1"
    using assms(1) by (simp add: program_run_def)
  then obtain t0 where t0: "ofold (do_act submit) (bind_acts kInput 0 ins @ acts) (t\<lparr>global_inputs := inputs\<rparr>) = Inr t0"
      "ofold (do_act submit) (rev (bind_acts kOutput 0 outs)) t0 = Inr t1"
    unfolding ofold_append by (auto simp: obind_Inr_iff)
  then show ?thesis
    using bind_outputs_collect [of 0 outs submit t0] assms(2) by auto
qed

lemma register_outputs_others:
  "register_outputs us ts t = Inr t1 \<Longrightarrow> u \<notin> set us \<Longrightarrow> read_tensor t1 u = read_tensor t u"
proof (induction us ts t rule: register_outputs.induct)
  case (3 v us x ts s)
  then show ?case by (auto simp: obind_Inr_iff read_tensor_def)
qed auto

fun written_tensors :: "ir_op \<Rightarrow> uuid list" where
  "written_tensors (Linalg a ins outs) = outs"
| "written_tensors _ = []"

lemma act_keeps_null:
  assumes "act_of P junk op k" "u \<notin> set (written_tensors op)" "do_act submit k t = Inr t1"
    "read_tensor t u = NilTensor"
  shows "read_tensor t1 u = NilTensor"
  using assms(1)
proof (cases op)
  case (Linalg a ins outs)
  then obtain p dev where k: "k = ALaunch p ins outs dev" using assms(1) by auto
  obtain xs s1 where g: "get_tensors ins t = (xs, s1)" by fastforce
  obtain op1 objs ts where r: "register_outputs outs ts (set_object p op1 s1) = Inr t1"
    using assms(3) g k by (auto simp: kernel_launch_def obind_Inr_iff)
  have "read_tensor (set_object p op1 s1) u = read_tensor s1 u"
    by (simp add: set_object_def read_tensor_def split: option.split)
  then show ?thesis
    using register_outputs_others [OF r, of u] get_tensors_reads [OF g] assms(2,4) Linalg by simp
next
  case (TensorFree v)
  then show ?thesis using assms by (auto simp: free_tensors_def read_tensor_def restrict_map_def)
qed simp_all

lemma acts_keep_null:
  "list_all2 (act_of P junk) ops acts \<Longrightarrow> u \<notin> set (concat (map written_tensors ops)) \<Longrightarrow>
     ofold (do_act submit) acts t = Inr t1 \<Longrightarrow> read_tensor t u = NilTensor \<Longrightarrow> read_tensor t1 u = NilTensor"
proof (induction ops acts arbitrary: t rule: list_all2_induct)
  case (Cons op ops k ks)
  then show ?case
    using act_keeps_null [OF Cons.hyps(1), of u submit t] by (auto simp: obind_Inr_iff simp del: act_of.simps)
qed simp

lemma free_last_split:
  assumes "u \<in> set (used_tensors op)" "u \<notin> set (all_uses ops2)"
  shows "\<exists>xs us. free_last (ops1 @ op # ops2) = xs @ map TensorFree us @ free_last ops2 \<and> u \<in> set us"
proof (induction ops1)
  case Nil
  then show ?case using assms
    by (intro exI [of _ "[op]"] exI [of _ "rev (remdups (filter (\<lambda>u. u \<notin> set (all_uses ops2)) (used_tensors op)))"])
      simp
next
  case (Cons op1 ops1)
  then obtain xs us where "free_last (ops1 @ op # ops2) = xs @ map TensorFree us @ free_last ops2" "u \<in> set us"
    by blast
  then show ?case by (auto intro!: exI [of _ us])
qed

lemma free_last_writes:
  "set (concat (map written_tensors (free_last ops))) = set (concat (map written_tensors ops))"
  by (induction ops) auto

lemma frees_make_null:
  "ofold (do_act submit) (map (\<lambda>u. AFree [u]) us) t = Inr t1 \<Longrightarrow> u \<in> set us \<Longrightarrow> read_tensor t1 u = NilTensor"
proof (induction us arbitrary: t)
  case (Cons v us)
  have still: "read_tensor s u = NilTensor \<Longrightarrow> read_tensor (free_tensors vs s) u = NilTensor" for vs s
    by (simp add: free_tensors_def read_tensor_def restrict_map_def)
  have keep: "read_tensor s u = NilTensor \<Longrightarrow> ofold (do_act submit) (map (\<lambda>u. AFree [u]) us) s = Inr t1 \<Longrightarrow>
      read_tensor t1 u = NilTensor" for s
    by (induction us arbitrary: s) (use still in auto)
  show ?case
  proof (cases "u = v")
    case True
    then have "read_tensor (free_tensors [v] t) u = NilTensor" by (simp add: free_tensors_def read_tensor_def)
    then show ?thesis using keep Cons.prems(1) by simp
  qed (use Cons in simp)
qed simp

lemma freed_outputs_null:
  assumes ops: "ops = ops1 @ op # ops2" and u: "u \<in> set (used_tensors op)" "u \<notin> set (all_uses ops2)"
    "u \<notin> set (concat (map written_tensors ops2))"
    and acts: "list_all2 (act_of P junk) (free_last ops) acts"
    and run: "ofold (do_act submit) (bs @ acts) t = Inr t1"
  shows "read_tensor t1 u = NilTensor"
proof -
  obtain xs us where f: "free_last ops = xs @ map TensorFree us @ free_last ops2" "u \<in> set us"
    using free_last_split [OF u(1,2)] ops by blast
  obtain ks1 ks2 where k: "acts = ks1 @ map (\<lambda>u. AFree [u]) us @ ks2" "list_all2 (act_of P junk) (free_last ops2) ks2"
    using acts unfolding f(1) by (auto simp: list_all2_append1 acts_of_frees [where ops = "[]", simplified])
  obtain t2 t3 where "ofold (do_act submit) (map (\<lambda>u. AFree [u]) us) t2 = Inr t3" "ofold (do_act submit) ks2 t3 = Inr t1"
    using run by (auto simp: k(1) ofold_append obind_Inr_iff)
  then show ?thesis
    using acts_keep_null [OF k(2)] frees_make_null f(2) u(3) free_last_writes [of ops2] by metis
qed

subsection \<open>The pipelines on a trace\<close>

lemma call_tree_comments:
  "call_tree junk es ks nds gs \<Longrightarrow> list_all not_comment nds \<and> list_all (\<lambda>g. list_all not_comment (snd g)) gs"
  by (induction rule: call_tree.induct) (auto simp: not_comment_def mk_def list_all_iff)

lemma eliminate_module:
  assumes "list_all not_comment regs" "list_all not_comment tab" "not_comment call"
    "list_all (\<lambda>g. list_all not_comment (snd g)) graphs"
  shows "eliminate_dbg (module_of regs call graphs tab) = module_of regs call graphs tab"
proof -
  have all: "filter not_comment nds = nds" if "list_all not_comment nds" for nds
    using that by (simp add: list_all_iff)
  have "concat (map drop_comments (map (case_prod SubGraph) gs)) = map (case_prod SubGraph) gs"
    if "list_all (\<lambda>g. list_all not_comment (snd g)) gs" for gs
    using that by (induction gs) (auto simp: all)
  then show ?thesis
    using assms all by (simp add: eliminate_dbg_def module_of_def del: map_map)
qed

lemma register_comments:
  "list_all is_tensor_register nds \<Longrightarrow> list_all not_comment nds"
  "list_all is_linalg_register nds \<Longrightarrow> list_all not_comment nds"
proof -
  show "list_all is_tensor_register nds \<Longrightarrow> list_all not_comment nds"
    by (rule list.pred_mono_strong, assumption)
      (auto simp: is_tensor_register_def not_comment_def split: ir_op.splits)
  show "list_all is_linalg_register nds \<Longrightarrow> list_all not_comment nds"
    by (rule list.pred_mono_strong, assumption)
      (auto simp: is_linalg_register_def not_comment_def split: ir_op.splits)
qed

lemma canonicalize_trace:
  assumes names: "distinct (code_segment # ''op_symbol_table'' # graph_names (trace_module junk names e))"
    and e: "e = ModuleEvent m ins evs outs"
  shows "\<exists>call root graphs regs tab. n_op call = CallGraph root ins outs \<and>
    canonicalize dbg solver junk (trace_module junk names e) = Some (Inr (module_of regs call graphs tab)) \<and>
    call_tree junk [e] (if solver then free_last (event_ops e) else event_ops e) [call] graphs \<and>
    plain_names graphs \<and> root \<in> set (map fst graphs) \<and>
    list_all is_tensor_register regs \<and> list_all is_linalg_register tab \<and>
    set (filter (\<lambda>s. s \<noteq> []) (map aop_name (event_aops e))) = set (concat (map registered_name tab)) \<and>
    length regs + length tab \<le> length (event_params e) + event_length e"
proof -
  obtain call root graphs regs where t: "n_op call = CallGraph root ins outs"
      "extract_symbols junk (trace_module junk names e) = module_of regs call graphs (symbols_of junk graphs)"
      "traced junk [e] [call] graphs regs" "plain_names graphs" "root \<in> set (map fst graphs)"
    using traced_module_of [OF names [unfolded e]] e by blast
  let ?tab = "symbols_of junk graphs"
  note tables = traced_tables [OF t(3) [unfolded e] t(1), folded e]
  note comments = call_tree_comments [OF traced_call_tree [OF t(3)]]
  have dbg: "(if dbg then module_of regs call graphs ?tab else eliminate_dbg (module_of regs call graphs ?tab)) =
      module_of regs call graphs ?tab"
    using eliminate_module register_comments(1) [OF tables(1)] register_comments(2) [OF symbols_of(1)] comments by simp
  obtain gs1 where gs1: "solve_memory junk (module_of regs call graphs ?tab) = Some (Inr (module_of regs call gs1 ?tab))"
      "map fst gs1 = map fst graphs" "call_tree junk [e] (free_last (event_ops e)) [call] gs1"
    using solve_traced [OF t(3) [unfolded e] t(1,4), of ?tab] e by blast
  have "plain_names gs1"
    using t(4) gs1(2) by (simp add: plain_names_def list_all_iff flip: image_set) (metis image_iff list.set_map)
  moreover have "fst ` set gs1 = fst ` set graphs" using gs1(2) by (metis list.set_map)
  ultimately show ?thesis
    using t(1,2,4,5) gs1 dbg tables symbols_of(1) [of junk graphs] traced_call_tree [OF t(3)]
    by (rule_tac exI [of _ call], rule_tac exI [of _ root],
        rule_tac exI [of _ "if solver then gs1 else graphs"], rule_tac exI [of _ regs], rule_tac exI [of _ ?tab])
      (simp add: canonicalize_def del: registered_name.simps)
qed

lemma no_constants:
  assumes "\<And>u. value_constant vs u = None" "order {} = []"
  shows "extract_constants order junk vs (module_of regs call graphs tab) = Inr (module_of regs call graphs tab)"
proof (cases "lookup_graph (module_of regs call graphs tab) ''init''")
  case None
  then show ?thesis by (simp add: module_of_def lookup_graph_append split: option.splits)
next
  case (Some nds)
  have same: "lookup_graph m s = Some nds \<Longrightarrow> put_graph s nds m = m" for m s
    by (induction m) (auto split: option.splits item.splits)
  show ?thesis using assms Some same by (simp add: extract_constants_def)
qed

subsection \<open>Compiling and running a trace\<close>

definition compile_trace ::
  "bool \<Rightarrow> bool \<Rightarrow> bool \<Rightarrow> (uuid set \<Rightarrow> uuid list) \<Rightarrow> junk_device \<Rightarrow> tensor_values \<Rightarrow> (nat \<Rightarrow> string) \<Rightarrow> event \<Rightarrow>
     json outcome option" where
  "compile_trace dbg solver eager order junk vs names e =
     map_option (\<lambda>r. obind r (\<lambda>m. obind (lowering_pipeline order True junk vs eager m) visit_module))
       (canonicalize dbg solver junk (trace_module junk names e))"

text \<open>
  A trace that can be compiled: the names of its graphs are distinct, its operations can be created and
  agree where they share a name, and the code is short enough for jumps of type \<^verbatim>\<open>int32_t\<close>.
\<close>

definition well_traced :: "'op creation \<Rightarrow> junk_device \<Rightarrow> (nat \<Rightarrow> string) \<Rightarrow> event \<Rightarrow> bool" where
  "well_traced create junk names e \<longleftrightarrow>
     distinct (code_segment # ''op_symbol_table'' # graph_names (trace_module junk names e)) \<and>
     ops_ok create (event_aops e) \<and>
     (case e of ModuleEvent m ins evs outs \<Rightarrow> length ins + length outs | OpEvent _ _ _ _ \<Rightarrow> 0) +
       3 * event_length e + length (all_uses (event_ops e)) + length (event_params e) < 2 ^ 31"

text \<open>No value carries a constant, and the empty set has no elements to walk.\<close>

definition no_constant_values :: "tensor_values \<Rightarrow> (uuid set \<Rightarrow> uuid list) \<Rightarrow> bool" where
  "no_constant_values vs order \<longleftrightarrow> value_constant vs = Map.empty \<and> order {} = []"

lemma compile_and_run:
  fixes create :: "'op creation"
  assumes e: "e = ModuleEvent m ins evs outs" and wt: "well_traced create junk names e"
    and constants: "no_constant_values vs order"
  shows "\<exists>doc s acts q. compile_trace dbg solver eager order junk vs names e = Some (Inr doc) \<and>
    loadAndLinkPrograms create from_vector doc (new_interp :: ('op, 'd) interp) = Inr s \<and>
    list_all2 (act_of (object_of create s) junk) (if solver then free_last (event_ops e) else event_ops e) acts \<and>
    (\<forall>submit inputs (s2 :: ('op, 'd) interp). program s2 = program s \<longrightarrow>
      interp_run submit inputs s2 =
        Some (obind (program_run submit ins acts outs inputs (tensors s2)) (\<lambda>t. Inr (run_result s2 eager q t))))"
proof -
  have names: "distinct (code_segment # ''op_symbol_table'' # graph_names (trace_module junk names e))"
    and ops: "ops_ok create (event_aops e)"
    and len: "length ins + length outs + 3 * event_length e + length (all_uses (event_ops e)) +
      length (event_params e) < 2 ^ 31"
    using wt by (simp_all only: well_traced_def e event.case)
  let ?ks = "if solver then free_last (event_ops e) else event_ops e"
  obtain call root graphs regs tab where c: "n_op call = CallGraph root ins outs"
      "canonicalize dbg solver junk (trace_module junk names e) = Some (Inr (module_of regs call graphs tab))"
      "call_tree junk [e] ?ks [call] graphs" "plain_names graphs" "root \<in> set (map fst graphs)"
      "list_all is_tensor_register regs" "list_all is_linalg_register tab"
      "set (filter (\<lambda>s. s \<noteq> []) (map aop_name (event_aops e))) = set (concat (map registered_name tab))"
      "length regs + length tab \<le> length (event_params e) + event_length e"
    using canonicalize_trace [OF names e, of dbg solver] by blast
  have ok: "compilable create regs root graphs tab"
    by (rule call_tree_compilable [OF c(3) [unfolded e] c(1,4,5) ops [unfolded e] c(6,7) c(8) [unfolded e]])
  have "length ?ks \<le> length (event_ops e) + length (all_uses (event_ops e))"
    using free_last_length [of "event_ops e"] by simp
  moreover have "3 \<le> event_length e" by (simp add: e)
  ultimately have "length (flat_code junk eager root ins outs graphs) < 2 ^ 31"
    using call_tree_code_length [OF c(3), of eager root ins outs] len by linarith
  moreover have "length regs + length tab < 2 ^ 31" using c(9) len by linarith
  moreover have "unfolds (body_of graphs) (map n_op [call]) ?ks"
  proof (rule call_tree_unfolds [OF c(3)])
    fix s nd assume "(s, nd) \<in> set graphs"
    then show "body_of graphs s = Some (map n_op (butlast nd))"
      using c(4) by (simp add: body_of_def plain_names_def)
  qed
  then have "unfolds (body_of graphs) [CallGraph root ins outs] ?ks" by (simp add: c(1))
  ultimately obtain doc s acts q where d: "compile_module True junk eager (module_of regs call graphs tab) = Inr doc"
      "loadAndLinkPrograms create from_vector doc (new_interp :: ('op, 'd) interp) = Inr s"
      "list_all2 (act_of (object_of create s) junk) ?ks acts"
      "\<And>submit inputs (s2 :: ('op, 'd) interp). program s2 = program s \<Longrightarrow> interp_run submit inputs s2 =
        Some (obind (program_run submit ins acts outs inputs (tensors s2)) (\<lambda>t. Inr (run_result s2 eager q t)))"
    using compiled_program_runs [OF ok c(1), where from_vector = from_vector] by blast
  have "value_constant vs u = None" "order {} = []" for u
    using constants by (simp_all add: no_constant_values_def)
  from no_constants [of vs order, OF this]
  have "compile_trace dbg solver eager order junk vs names e = Some (Inr doc)"
    using d(1) by (simp add: compile_trace_def c(2) lowering_pipeline_def compile_module_def)
  then show ?thesis
    using d by (rule_tac exI [of _ doc], rule_tac exI [of _ s], rule_tac exI [of _ acts], rule_tac exI [of _ q]) simp
qed

text \<open>
  C7: a well-formed trace goes through all passes, is written and loaded, and the program, run as often as
  one likes from any state of the tensors, binds its inputs, does the operations of the trace in order,
  each with the object created from its type and options and, if the memory solver is on, a free behind
  every last use, binds its outputs and stops at its exit.
\<close>

theorem compiled_trace_runs:
  fixes create :: "'op creation"
  assumes "e = ModuleEvent m ins evs outs" "well_traced create junk names e" "no_constant_values vs order"
  shows "\<exists>doc s acts q. compile_trace dbg solver eager order junk vs names e = Some (Inr doc) \<and>
    loadAndLinkPrograms create from_vector doc (new_interp :: ('op, 'd) interp) = Inr s \<and>
    list_all2 (act_of (object_of create s) junk) (if solver then free_last (event_ops e) else event_ops e) acts \<and>
    (\<forall>submit inputs (s2 :: ('op, 'd) interp). program s2 = program s \<longrightarrow>
      interp_run submit inputs s2 =
        Some (obind (program_run submit ins acts outs inputs (tensors s2)) (\<lambda>t. Inr (run_result s2 eager q t))))"
  by (rule compile_and_run [OF assms])

text \<open>
  C8: the program that the memory solver made returns, from any state of the tensors, what the operations
  of the trace return when nothing is freed, and faults where they fault, if no output is an input
  of an operation.
\<close>

theorem solver_keeps_results:
  fixes create :: "'op creation"
  assumes e: "e = ModuleEvent m ins evs outs" and wt: "well_traced create junk names e"
    and constants: "no_constant_values vs order" and outs: "set outs \<inter> set (all_uses (event_ops e)) = {}"
  shows "\<exists>doc s acts. compile_trace dbg True eager order junk vs names e = Some (Inr doc) \<and>
    loadAndLinkPrograms create from_vector doc (new_interp :: ('op, 'd) interp) = Inr s \<and>
    list_all2 (act_of (object_of create s) junk) (event_ops e) acts \<and>
    (\<forall>submit inputs (s2 :: ('op, 'd) interp). program s2 = program s \<longrightarrow>
      map_option (\<lambda>r. obind r (\<lambda>(ts, s3). Inr ts)) (interp_run submit inputs s2) =
        Some (obind (program_run submit ins acts outs inputs (tensors s2)) (\<lambda>t. Inr (global_outputs t))))"
proof -
  obtain doc s acts q where d: "compile_trace dbg True eager order junk vs names e = Some (Inr doc)"
      "loadAndLinkPrograms create from_vector doc (new_interp :: ('op, 'd) interp) = Inr s"
      "list_all2 (act_of (object_of create s) junk) (free_last (event_ops e)) acts"
      "\<And>submit inputs (s2 :: ('op, 'd) interp). program s2 = program s \<Longrightarrow> interp_run submit inputs s2 =
        Some (obind (program_run submit ins acts outs inputs (tensors s2)) (\<lambda>t. Inr (run_result s2 eager q t)))"
    using compile_and_run [OF e wt constants, of dbg True eager from_vector] by auto
  let ?acts = "filter (\<lambda>k. \<not> is_free k) acts"
  note same = solved_run_agrees [OF event_ops_linalg d(3) outs]
  have "obind r1 (\<lambda>t. Inr (global_outputs t)) = obind r2 (\<lambda>t. Inr (global_outputs t))"
    if "agree_outcome {} r1 r2" for r1 r2 :: "('op, 'd) tensor_store outcome"
    using that by (cases r1; cases r2) (auto simp: agree_outcome_def agree_def visible_iff)
  from this [OF same(1)] d(4)
  have "map_option (\<lambda>r. obind r (\<lambda>(ts, s3). Inr ts)) (interp_run submit inputs s2) =
      Some (obind (program_run submit ins ?acts outs inputs (tensors s2)) (\<lambda>t. Inr (global_outputs t)))"
    if "program s2 = program s" for submit inputs and s2 :: "('op, 'd) interp"
    using that by (simp add: obind_assoc run_result_def)
  then show ?thesis
    using d(1,2) same(2) by (rule_tac exI [of _ doc], rule_tac exI [of _ s], rule_tac exI [of _ ?acts]) simp
qed

text \<open>
  C10: an output of the program that an operation reads, and that is not produced again after its last
  use, is freed before it is bound: whenever the solved program returns, the caller gets a null tensor in
  its place. This is so for a module that returns an intermediate result and for one that ends with an
  operation in place.
\<close>

theorem read_output_is_lost:
  fixes create :: "'op creation"
  assumes e: "e = ModuleEvent m ins evs outs" and wt: "well_traced create junk names e"
    and constants: "no_constant_values vs order"
    and ops: "event_ops e = ops1 @ op # ops2"
    and u: "u \<in> set (used_tensors op)" "u \<notin> set (all_uses ops2)" "u \<notin> set (concat (map written_tensors ops2))"
    and out: "i < length outs" "outs ! i = u"
  shows "\<exists>doc s. compile_trace dbg True eager order junk vs names e = Some (Inr doc) \<and>
    loadAndLinkPrograms create from_vector doc (new_interp :: ('op, 'd) interp) = Inr s \<and>
    (\<forall>submit inputs (s2 :: ('op, 'd) interp) ts s3. program s2 = program s \<longrightarrow>
      interp_run submit inputs s2 = Some (Inr (ts, s3)) \<longrightarrow> ts ! i = NilTensor)"
proof -
  obtain doc s acts q where d: "compile_trace dbg True eager order junk vs names e = Some (Inr doc)"
      "loadAndLinkPrograms create from_vector doc (new_interp :: ('op, 'd) interp) = Inr s"
      "list_all2 (act_of (object_of create s) junk) (free_last (event_ops e)) acts"
      "\<And>submit inputs (s2 :: ('op, 'd) interp). program s2 = program s \<Longrightarrow> interp_run submit inputs s2 =
        Some (obind (program_run submit ins acts outs inputs (tensors s2)) (\<lambda>t. Inr (run_result s2 eager q t)))"
    using compile_and_run [OF e wt constants, of dbg True eager from_vector] by auto
  have len: "length outs < 2 ^ 31" using wt by (simp add: well_traced_def e)
  have "ts ! i = NilTensor"
    if r: "program s2 = program s" "interp_run submit inputs s2 = Some (Inr (ts, s3))"
    for submit inputs and s2 :: "('op, 'd) interp" and ts s3
  proof -
    obtain t1 where t1: "program_run submit ins acts outs inputs (tensors s2) = Inr t1" "ts = global_outputs t1"
      using d(4) [OF r(1)] r(2) by (auto simp: obind_Inr_iff run_result_def)
    obtain t0 where "ofold (do_act submit) (bind_acts kInput 0 ins @ acts) ((tensors s2)\<lparr>global_inputs := inputs\<rparr>) = Inr t0"
        "\<forall>i < length outs. global_outputs t1 ! i = read_tensor t0 (outs ! i)"
      using program_run_outputs [OF t1(1) len] by blast
    then show ?thesis using freed_outputs_null [OF ops u d(3)] t1(2) out by simp
  qed
  then show ?thesis
    using d(1,2) by (rule_tac exI [of _ doc], rule_tac exI [of _ s]) blast
qed

subsection \<open>An example\<close>

definition example_op :: "optype \<Rightarrow> string \<Rightarrow> aop" where
  "example_op ty name = \<lparr>aop_type = ty, aop_name = name, aop_options = JNull, aop_device = kCPU\<rparr>"

text \<open>A module that applies an activation and then calls a module with a linear layer.\<close>

definition example_trace :: "uuid list \<Rightarrow> event" where
  "example_trace outs = ModuleEvent 0 [1] [OpEvent [] (example_op 37 []) [1] [2],
     ModuleEvent 1 [2] [OpEvent [(''l.w'', 9)] (example_op 8 ''l'') [2] [3]] [3]] outs"

definition example_names :: "nat \<Rightarrow> string" where
  "example_names n = (if n = 0 then ''m'' else ''m.l'')"

definition no_values :: tensor_values where
  "no_values = \<lparr>value_constant = Map.empty, value_symbol = Map.empty, value_device = (\<lambda>_. kCPU)\<rparr>"

definition type_only :: "string creation" where
  "type_only ty dev opts = Inr ty"

definition pass_on :: "(string, nat) submission" where
  "pass_on dev op ts = Inr (op, ts)"

lemma example_well_traced:
  "length outs \<le> 2 \<Longrightarrow> well_traced type_only (\<lambda>_. kCPU) example_names (example_trace outs)"
  by (simp add: well_traced_def code_segment_def example_trace_def example_names_def trace_module_def
      getUniqueModuleName_def Let_def ops_ok_def creatable_def same_op_def example_op_def type_only_def)

lemma no_values_constant: "no_constant_values no_values (\<lambda>_. [])"
  by (simp add: no_constant_values_def no_values_def)

theorem compiled_trace_runs_witness:
  "\<exists>doc s acts q. compile_trace True True True (\<lambda>_. []) (\<lambda>_. kCPU) no_values example_names (example_trace [3]) =
      Some (Inr doc) \<and>
    loadAndLinkPrograms type_only (\<lambda>data shape. Inr NilTensor) doc new_interp = Inr s \<and>
    list_all2 (act_of (object_of type_only s) (\<lambda>_. kCPU)) (free_last (event_ops (example_trace [3]))) acts \<and>
    interp_run pass_on [RtTensor 7 0] s =
      Some (obind (program_run pass_on [1] acts [3] [RtTensor 7 0] (tensors s)) (\<lambda>t. Inr (run_result s True q t)))"
  using compiled_trace_runs [OF example_trace_def example_well_traced [of "[3]"] no_values_constant,
      where dbg = True and solver = True and eager = True and from_vector = "\<lambda>data shape. Inr NilTensor"]
  by simp blast

theorem solver_keeps_results_witness:
  "\<exists>doc s acts. compile_trace True True True (\<lambda>_. []) (\<lambda>_. kCPU) no_values example_names (example_trace [3]) =
      Some (Inr doc) \<and>
    loadAndLinkPrograms type_only (\<lambda>data shape. Inr NilTensor) doc new_interp = Inr s \<and>
    list_all2 (act_of (object_of type_only s) (\<lambda>_. kCPU)) (event_ops (example_trace [3])) acts \<and>
    map_option (\<lambda>r. obind r (\<lambda>(ts, s3). Inr ts)) (interp_run pass_on [RtTensor 7 0] s) =
      Some (obind (program_run pass_on [1] acts [3] [RtTensor 7 0] (tensors s)) (\<lambda>t. Inr (global_outputs t)))"
proof -
  have "set [3] \<inter> set (all_uses (event_ops (example_trace [3]))) = {}" by (simp add: example_trace_def)
  from solver_keeps_results [OF example_trace_def example_well_traced no_values_constant this,
      where dbg = True and eager = True and from_vector = "\<lambda>data shape. Inr NilTensor"]
  show ?thesis by simp blast
qed

theorem read_output_is_lost_witness:
  "\<exists>doc s. compile_trace True True True (\<lambda>_. []) (\<lambda>_. kCPU) no_values example_names (example_trace [3, 2]) =
      Some (Inr doc) \<and>
    loadAndLinkPrograms type_only (\<lambda>data shape. Inr NilTensor) doc (new_interp :: (string, nat) interp) = Inr s \<and>
    (\<forall>submit inputs (s2 :: (string, nat) interp) ts s3. program s2 = program s \<longrightarrow>
      interp_run submit inputs s2 = Some (Inr (ts, s3)) \<longrightarrow> ts ! 1 = NilTensor)"
proof (rule read_output_is_lost [OF example_trace_def _ no_values_constant])
  show "well_traced type_only (\<lambda>_. kCPU) example_names (example_trace [3, 2])"
    by (rule example_well_traced) simp
  show "event_ops (example_trace [3, 2]) =
      [Linalg (example_op 37 []) [1] [2]] @ Linalg (example_op 8 ''l'') [2] [3] # []"
    by (simp add: example_trace_def)
qed simp_all

text \<open>
  A module that is traced three times is renamed after each trace, and the name \<^verbatim>\<open>m.l_1\<close> is handed out
  twice: the labels are not unique and the last pass of the lowering stops.
\<close>

definition thrice :: event where
  "thrice = ModuleEvent 0 [1] [ModuleEvent 1 [1] [] [1], ModuleEvent 1 [1] [] [1], ModuleEvent 1 [1] [] [1]] [1]"

lemma third_trace_repeats_name:
  "graph_names (trace_module (\<lambda>_. kCPU) example_names thrice) =
     [''init'', ''deinit'', ''m'', ''m.l'', ''m.l_1'', ''m.l_1'']"
  by (simp add: thrice_def example_names_def trace_module_def getUniqueModuleName_def Let_def to_string.simps
      char_of_def bit_0)

lemma third_trace_stops:
  "compile_trace True False False (\<lambda>_. []) (\<lambda>_. kCPU) no_values example_names thrice = Some (Inl (Exit kAssert))"
  by (simp add: thrice_def example_names_def trace_module_def getUniqueModuleName_def Let_def to_string.simps
      compile_trace_def canonicalize_def extract_symbols_def has_graph_def lowering_pipeline_def
      extract_constants_def no_values_def lower_program_def graph2program_def linalg2program_def
      tensor2program_def cf2program_def rewrite_node_def mk_def is_call_def special_graphs_def)
    (simp add: insert_front_def flatten_code_def flatten_symbols_def code_segment_def symbol_segment_def
      special_graphs_def mk_def remove_fragment_def index_ids_def Let_def rewrite_node_def
      graph_fragment_type_def)

end
