(* ===== verification/Spec2Isabelle.thy ===== *)
theory Spec2Isabelle
  imports Buddy Data_Types Tensor_View View_Ops Shape_Ops Layer_Ops Index_Op Transpose_Kernels Kv_Results Prefix_Cache Sym_Results
    Parameter_File Unicode_Text Bpe Special_Trie Word_Piece Basic_Tokenizer Compiled_Trace
begin

text \<open>
  A verification library for mllm, a C++ inference engine for language models. Paths below are under
  \<^verbatim>\<open>src/mllm\<close>.

  \<^bold>\<open>The program.\<close> A tensor is a view (shape, strides, offset) of a storage, and a storage is allocated
  by the memory manager from a pool per backend. An operation of \<^verbatim>\<open>core/aops\<close> runs in three steps:
  \<^verbatim>\<open>reshape\<close> computes the shapes of the outputs and makes their tensors without memory, \<^verbatim>\<open>setup\<close>
  allocates them, \<^verbatim>\<open>forward\<close> computes the elements; the backends override \<^verbatim>\<open>forward\<close>.

  \<^bold>\<open>Common parts.\<close> \<open>Prelude\<close>: the results of an operation (\<^verbatim>\<open>utils/Common.hpp\<close>: \<open>exit_code\<close>, \<open>fault\<close>,
  \<open>outcome\<close>), checked \<^verbatim>\<open>int32_t\<close> and wrapping \<^verbatim>\<open>size_t\<close> arithmetic, subscripts, loops that may fail
  (\<open>ofold\<close>, \<open>omap\<close>), and the symbol table of \<^verbatim>\<open>utils/SymbolTable.hpp\<close> behind the locale
  \<open>symbol_table\<close>. A failed check of the program is the value \<open>Inl (Exit c)\<close>, an exception is
  \<open>Inl (Throw s)\<close>, and undefined behaviour of C++ (a subscript out of range, signed overflow, division
  by zero, a null tensor) is \<open>Inl Undefined\<close>.

  \<^bold>\<open>Memory pool\<close>, \<^verbatim>\<open>engine/BuddyMemPool.{hpp,cpp}\<close>. \<open>Buddy_Tiling\<close> is the abstract view: the blocks of a
  segment are the leaves of a binary tree. \<open>Buddy_Segment\<close> models one segment (\<open>alloc_seg\<close>,
  \<open>split_block\<close>, \<open>join\<close>) and its refinement to the tiling, \<open>Buddy_Pool\<close> the pool with its segments,
  object cache and symbol table (\<open>pool_alloc\<close>, \<open>pool_free\<close>, \<open>updateCacheSizeList\<close>) and the invariant
  \<open>pool_ok\<close>, \<open>Buddy\<close> the reachable pools and the guarantees. The recursion of \<^verbatim>\<open>allocBuddy\<close> has fuel;
  31 calls are enough for every request up to the largest segment, and no fuel is enough above it.

  \<^bold>\<open>Types\<close>, \<open>Data_Types\<close>: \<^verbatim>\<open>core/DataTypes.{hpp,cpp}\<close>, \<^verbatim>\<open>core/DeviceTypes.hpp\<close>, \<^verbatim>\<open>core/OpTypes.hpp\<close>.

  \<^bold>\<open>Tensors\<close>, \<open>Tensor_View\<close>: \<^verbatim>\<open>core/TensorStorage.cpp\<close>, \<^verbatim>\<open>core/TensorViewImpl.{hpp,cpp}\<close> and the
  constructors of \<^verbatim>\<open>core/Tensor.cpp\<close>; addressing and contiguity.

  \<^bold>\<open>Operations.\<close> \<open>View_Ops\<close>: view, slice, split, squeeze, flatten. \<open>Shape_Ops\<close>: permute, transpose,
  concat, stack, reductions, matrix product, broadcasting. \<open>Layer_Ops\<close>: convolutions, pooling,
  Fourier transforms, attention, linear, embedding, normalisation and activations, with the tables
  of implementations. \<open>Index_Op\<close>: advanced indexing with its kernel on a byte memory.

  \<^bold>\<open>Kernels that move elements\<close>, \<^verbatim>\<open>backends/cpu/ops\<close>. Memory is a function from addresses to bytes.
  \<open>Element_Copy\<close>: the bytes of an element (\<open>elem\<close>), and a calculus of programs that only copy bytes from
  the initial memory (\<open>moves\<close>), closed under sequences and loops; the contract of such a kernel is the locale
  \<open>element_kernel\<close>. \<open>Join_Kernels\<close>: repeat, concat, stack and gather; \<open>Join_Results\<close>: what they put where, and
  that concatenation undoes a split. \<open>Layout_Kernels\<close>: contiguous, copy, clone, permute. \<open>Transpose_Kernels\<close>:
  transposition in blocks of vector registers, as built for x86 with SSE2; the locale \<open>transpose_block\<close> is the
  contract of a block.

  \<^bold>\<open>Caches of keys and values\<close>, \<^verbatim>\<open>nn/lmcache/{StaticCache,DynamicCache}\<close> and \<^verbatim>\<open>backends/cpu/ops/KVCacheOp\<close>. \<open>Kv_Cache\<close>:
  the operations, on the byte memory of the kernels, and what an update of the static cache writes;
  \<open>Kv_Growth\<close>: storages that do not overlap, and the steps of the dynamic cache; \<open>Kv_Log\<close>: the locale \<open>append_log\<close>,
  a log to which updates append, with both caches as its interpretations; \<open>Kv_Results\<close>: from the
  construction on, both caches return the tokens they were given.

  \<^bold>\<open>Prefix cache\<close>, \<^verbatim>\<open>engine/prefix_cache\<close> and \<^verbatim>\<open>nn/lmcache/PrefixCache\<close>. \<open>Radix_Tree\<close>: the index from token
  sequences to virtual addresses (\<open>tree_insert\<close>, \<open>tree_search\<close>, splitting an edge); its contract is the
  locale \<open>prefix_index\<close>. The children of a node are a hash map whose keys are equal when their tokens are, while
  the hash includes the extra key: two children with equal tokens and different extra keys are undefined behaviour
  (\<open>clash\<close>, \<open>emplace\<close>, \<open>rekey\<close>). \<open>Zen_FS\<close>: the paged store behind the addresses (\<open>zen_malloc\<close>, \<open>zen_free\<close>,
  \<open>zen_access\<close>, blobs and their bitmaps, finalising and recovering); its contract is the locale
  \<open>token_store\<close>, and its bound is on the blobs that exist, which must fit in an address (\<open>z_fits\<close>).
  \<open>Prefix_Cache\<close>: allocator with its table of addresses, followed with the set of addresses in use (\<open>pa_run\<close>), \<open>cache_promote\<close> and \<open>cache_find\<close>,
  and the eviction of a sliding window.

  \<^bold>\<open>Model files\<close>, \<open>Parameter_File\<close>: \<^verbatim>\<open>core/ParameterFile.{hpp,cpp}\<close> and \<^verbatim>\<open>core/schema\<close>, the table of
  parameters and both file formats on bytes, with reader and writer.

  \<^bold>\<open>Tokenizers\<close>, \<^verbatim>\<open>preprocessor/tokenizers\<close>. \<open>Unicode_Text\<close>: UTF-8, wide strings, the byte table;
  the locale \<open>text_codec\<close> is the contract of an encoding. \<open>Bpe\<close>: \<^verbatim>\<open>BPE\<close> and \<^verbatim>\<open>BPEUTF8\<close> with their
  loading; the loop refines rewriting by the least ranked pair. \<open>Special_Trie\<close>: the trie of special tokens
  and the automaton of \<^verbatim>\<open>split\<close>. \<open>Word_Piece\<close>: \<^verbatim>\<open>WordPiece\<close> with its loading; its loop over special tokens
  may not end and is a partial function. \<open>Basic_Tokenizer\<close>: its first stage on code points, under the
  locale \<open>utf8_reader\<close> for the functions of utfcpp.

  \<^bold>\<open>Compiler\<close>, \<^verbatim>\<open>compile\<close> and \<^verbatim>\<open>Module::__trace\<close> of \<^verbatim>\<open>nn/Module.cpp\<close>. A module is traced to graphs, one per
  call; the passes flatten them to a program, which is written as a JSON document, loaded by the
  interpreter and run. \<open>Program_Lowering\<close>: operations, modules, tracing (\<open>trace_module\<close>) and the passes of
  \<^verbatim>\<open>compile/passes\<close>. \<open>Memory_Solver\<close>: the pass that frees tensors behind their last use (\<open>solve_memory\<close>, a partial
  function, as a graph that calls itself is walked for ever), the pass for constants and the two
  pipelines. \<open>Ir_Serialization\<close>: \<^verbatim>\<open>jit/binary/IRSerialization.cpp\<close> and the loading of \<^verbatim>\<open>IRInterpreter.cpp\<close>.
  \<open>Ir_Interpreter\<close>: its state, its step and its loop, which may run for ever. \<open>Program_Layout\<close>: identifiers are
  positions and jumps reach their labels. \<open>Ir_Program\<close>, \<open>Ir_Run\<close> and \<open>Ir_Trace\<close> follow a module from its call
  tree through document and loading to the run, and \<open>Compiled_Trace\<close> puts all this together.
  \<open>unfolds\<close> is the abstract meaning of a module, the list of its operations with all calls replaced, and \<open>runs\<close>
  what a stretch of flat code does, whatever is on the stack.

  \<^bold>\<open>Symbolic expressions\<close>, \<^verbatim>\<open>compile/symbolic_expr\<close>. \<open>Sym_Expr\<close>: the lexer, a state machine on a string stream
  (\<open>lex_next\<close>), the parser with its queue of tokens read ahead (\<open>parseExpr\<close>), the tree with its evaluation and
  its text. The parser has fuel, as it may run for ever; \<open>settles\<close> says that from some fuel on the result is there and
  stays. \<open>Sym_Lex\<close>: the tokens of a text (\<open>reads\<close>); \<open>Sym_Parse\<close>: the two loops of the parser as one locale
  \<open>token_loop\<close>, and the parser on the tokens of a printed tree; \<open>Sym_Results\<close>: parsing undoes printing, the reading by
  precedence, static trees, texts without an end.

  \<^bold>\<open>What the lemmas show.\<close> Blocks in use never overlap, release coalesces completely, allocation ends;
  elements of a tensor have their own bytes within the storage; views, slices and splits address
  exactly the elements they name; the kernels that move elements put each of them in its place, the index of
  a gathering being read by a specification of its own (\<open>index_is\<close>), and the exchange of dimensions that copies
  nothing is part of the property; the two caches of keys and values agree; broadcasting and convolution sizes
  meet their specification;
  the prefix cache finds the whole of a sequence that was inserted (and what it answers for others), its store hands
  out no address twice unless it is freed, and the table of addresses knows exactly those in use; decoding is inverse to encoding and
  reading to writing of model files, byte pair encoding computes
  the normal form of its merges, and the tokenizers lose no text;
  a compiled module does the operations of its trace in order, with or without the frees of the solver;
  symbolic expressions are parsed as they were printed;
  tables of names are inverse to each other. Where the code does not do what it means to do, a
  property says what it does instead.

  \<^bold>\<open>Parameters.\<close> The allocator of a backend (\<open>general_alloc\<close>, with disjoint results as a hypothesis),
  its \<^verbatim>\<open>allocSize\<close>, conversions through \<^verbatim>\<open>float\<close>, the addresses of storages, the results of \<^verbatim>\<open>mmap\<close> and the
  files that exist, the bytes of model files, parsed JSON documents and lines of
  files, the conversions of utfcpp. In the compiler: the device of operations made by a pass, a field that is never set
  (\<open>junk\<close>), whether \<^verbatim>\<open>front()\<close> of an empty list does harm (\<open>front_ok\<close>), the order of a set of pointers (\<open>order\<close>),
  the creation of operations from their options (\<open>create\<close>), of tensors from numbers (\<open>from_vector\<close>), and
  the dispatcher (\<open>submit\<close>). For the caches: filling and copying on devices other than the CPU (\<open>fill\<close>, \<open>copy2\<close>).
  For symbolic expressions: arithmetic on \<^verbatim>\<open>float\<close>, its conversions and its text (\<open>F\<close>).

  \<^bold>\<open>Not modelled.\<close> Kernels that compute with floating point numbers and those
  of vendors, printing of the
  intermediate representation and the options of single operations in it, threads and locks (a method of the
  pool is one step), model definitions, image and
  audio preprocessing, loading of parameters by the operations, the bytes the paged store keeps, its GPU
  stub, generated and third-party code.
\<close>

end
